(* ===== verification/CS_Prelude.thy ===== *)
theory CS_Prelude
  imports Main "HOL-Library.Word"
begin

text \<open>
  What every component of the development shares.

  A C function that can go wrong is given a result of type \<open>outcome\<close>: it returns a
  value (\<open>Ok\<close>), it would block its caller (\<open>Blocks\<close>, the caller stays inside a
  semaphore or condition wait), or it leaves the defined behaviour of C
  (\<open>Fault\<close>: a failed \<open>assert\<close>, a null or dangling pointer, an index past the
  end of an array, a division by zero, a block freed twice, a call of \<^verbatim>\<open>exit\<close> or \<^verbatim>\<open>abort\<close>).  Error codes are ordinary returned values.

  The second part models the counting semaphores of POSIX as far as the sources
  use them; the last the decimal numbers that \<open>sprintf\<close> writes.
\<close>

section \<open>Outcomes of C functions\<close>

datatype fault =
    Assertion_failed
  | Null_dereference
  | Dangling_pointer
  | Stack_overflow
  | Division_by_zero
  | Uninitialised_read
  | Double_free
  | Exit_failure
  | Aborted
  | Out_of_bounds

datatype 'a outcome = Ok 'a | Blocks | Fault fault

primrec obind :: "'a outcome \<Rightarrow> ('a \<Rightarrow> 'b outcome) \<Rightarrow> 'b outcome" where
  "obind (Ok x) f = f x"
| "obind Blocks f = Blocks"
| "obind (Fault e) f = Fault e"

definition check :: "bool \<Rightarrow> fault \<Rightarrow> unit outcome" where
  "check b e = (if b then Ok () else Fault e)"

primrec returns :: "'a outcome \<Rightarrow> bool" where
  "returns (Ok _) = True"
| "returns Blocks = False"
| "returns (Fault _) = False"

named_theorems outcome_simps \<open>rewriting of outcomes\<close>

lemma obind_eq_Ok [outcome_simps]: "obind m f = Ok y \<longleftrightarrow> (\<exists>x. m = Ok x \<and> f x = Ok y)"
  by (cases m) auto

lemma obind_assoc [outcome_simps]: "obind (obind m f) g = obind m (\<lambda>x. obind (f x) g)"
  by (cases m) auto

lemma check_eq_Ok [outcome_simps]: "check b e = Ok u \<longleftrightarrow> b"
  by (auto simp: check_def)

lemma check_True [simp]: "check True e = Ok ()"
  by (simp add: check_def)

lemma check_False [simp]: "check False e = Fault e"
  by (simp add: check_def)

lemma returns_iff [outcome_simps]: "returns m \<longleftrightarrow> (\<exists>x. m = Ok x)"
  by (cases m) auto

lemma obind_OkE:
  assumes "obind m f = Ok y"
  obtains x where "m = Ok x" and "f x = Ok y"
  using assms by (auto simp: outcome_simps)

section \<open>Addresses\<close>

text \<open>A pointer is an \<open>addr option\<close>, with \<open>None\<close> for the null pointer.\<close>

type_synonym addr = nat

section \<open>POSIX semaphores\<close>

type_synonym sem_t = nat

definition SEM_VALUE_MAX :: nat where
  "SEM_VALUE_MAX = 2147483647"

definition sem_init :: "nat \<Rightarrow> sem_t option" where
  "sem_init v = (if v \<le> SEM_VALUE_MAX then Some v else None)"

definition sem_wait :: "sem_t \<Rightarrow> sem_t outcome" where
  "sem_wait s = (case s of 0 \<Rightarrow> Blocks | Suc n \<Rightarrow> Ok n)"

definition sem_trywait :: "sem_t \<Rightarrow> sem_t option" where
  "sem_trywait s = (case s of 0 \<Rightarrow> None | Suc n \<Rightarrow> Some n)"

definition sem_post :: "sem_t \<Rightarrow> sem_t option" where
  "sem_post s = (if s < SEM_VALUE_MAX then Some (Suc s) else None)"

lemma sem_wait_Ok [outcome_simps]: "sem_wait s = Ok s' \<longleftrightarrow> s = Suc s'"
  by (cases s) (auto simp: sem_wait_def)

lemma sem_wait_Blocks [outcome_simps]: "sem_wait s = Blocks \<longleftrightarrow> s = 0"
  by (cases s) (auto simp: sem_wait_def)

lemma sem_trywait_Some: "sem_trywait s = Some s' \<longleftrightarrow> s = Suc s'"
  by (cases s) (auto simp: sem_trywait_def)

lemma sem_trywait_None: "sem_trywait s = None \<longleftrightarrow> s = 0"
  by (cases s) (auto simp: sem_trywait_def)

lemma sem_post_Some: "sem_post s = Some s' \<longleftrightarrow> s < SEM_VALUE_MAX \<and> s' = Suc s"
  by (auto simp: sem_post_def)

lemma sem_post_None: "sem_post s = None \<longleftrightarrow> SEM_VALUE_MAX \<le> s"
  by (auto simp: sem_post_def)

lemmas sem_simps = sem_wait_Ok sem_wait_Blocks sem_trywait_Some sem_trywait_None
  sem_post_Some sem_post_None

section \<open>Counting threads\<close>

text \<open>How many of the threads \<open>0, ..., n - 1\<close> are in a state with property \<open>P\<close>.\<close>

fun tally :: "nat \<Rightarrow> ('s \<Rightarrow> bool) \<Rightarrow> (nat \<Rightarrow> 's) \<Rightarrow> nat" where
  "tally 0 P f = 0"
| "tally (Suc n) P f = tally n P f + (if P (f n) then 1 else 0)"

lemma tally_outside [simp]: "n \<le> i \<Longrightarrow> tally n P (f(i := x)) = tally n P f"
  by (induction n) auto

lemma tally_update:
  "i < n \<Longrightarrow> tally n P (f(i := x)) + (if P (f i) then 1 else 0) = tally n P f + (if P x then 1 else 0)"
  by (induction n) (auto simp: less_Suc_eq)

lemma tally_cong: "(\<And>i. i < n \<Longrightarrow> P (f i) = Q (g i)) \<Longrightarrow> tally n P f = tally n Q g"
  by (induction n) auto

lemma tally_le: "tally n P f \<le> n"
  by (induction n) auto

lemma tally_full: "tally n P f = n \<longleftrightarrow> (\<forall>i<n. P (f i))"
proof (induction n)
  case (Suc n)
  then show ?case using tally_le [of n P f] by (auto simp: less_Suc_eq)
qed simp

lemma tally_zero: "tally n P f = 0 \<longleftrightarrow> (\<forall>i<n. \<not> P (f i))"
  by (induction n) (auto simp: less_Suc_eq)

lemma tally_const [simp]: "tally n P (\<lambda>_. c) = (if P c then n else 0)"
  by (induction n) auto

lemma tally_pos: "i < n \<Longrightarrow> P (f i) \<Longrightarrow> 0 < tally n P f"
  using tally_zero [of n P f] by auto

text \<open>A sum over the threads when one of them changes.\<close>

lemma pile_update:
  fixes f f' :: "nat \<Rightarrow> 'a :: comm_monoid_add"
  assumes "i < n" "\<And>j. j \<noteq> i \<Longrightarrow> f' j = f j"
  shows "(\<Sum>j<n. f' j) + f i = (\<Sum>j<n. f j) + f' i"
proof -
  have "(\<Sum>j<n. f' j) = f' i + (\<Sum>j\<in>{..<n} - {i}. f' j)"
    "(\<Sum>j<n. f j) = f i + (\<Sum>j\<in>{..<n} - {i}. f j)"
    using assms(1) by (simp_all add: sum.remove)
  moreover have "(\<Sum>j\<in>{..<n} - {i}. f' j) = (\<Sum>j\<in>{..<n} - {i}. f j)"
    using assms(2) by (intro sum.cong) auto
  ultimately show ?thesis by (simp add: ac_simps)
qed

section \<open>Decimal numbers\<close>

text \<open>\<open>sprintf\<close> with \<open>%d\<close>.\<close>

fun decimal :: "nat \<Rightarrow> string" where
  "decimal n = (if n < 10 then [char_of (48 + n)] else decimal (n div 10) @ [char_of (48 + n mod 10)])"

declare decimal.simps [simp del]

end
