(* ===== verification/RB_Tree.thy ===== *)
theory RB_Tree
  imports CS_Prelude
begin

text \<open>
  The red-black tree of \<open>avl-2.0/src/rb.c\<close> (GNU libavl), the table behind the event
  tree, the handler table and the task table.

  A pointer to \<open>struct rb_node\<close> is a value of type \<open>rb_node\<close>; the trees the
  code builds never share a node.  The stacks \<open>pa[]\<close> and \<open>da[]\<close> of
  \<^verbatim>\<open>rb_probe\<close> and \<^verbatim>\<open>rb_delete\<close> are a list of frames, the top first: a frame holds
  the contents of the node \<open>pa[k]\<close>, the direction \<open>da[k]\<close> taken from it, and the
  child on the other side.  \<open>pa[0]\<close>, the pseudo node holding the root pointer, is
  the end of the list, so a list of length \<open>n\<close> is the C stack with \<open>k = n + 1\<close>.
  Writing past \<open>RB_MAX_HEIGHT\<close> entries and reading through a null link are faults of
  the model.  Items are compared with the table's comparison function; where the code
  compares item pointers, the model compares items.
\<close>

section \<open>Data\<close>

datatype rb_color = RB_BLACK | RB_RED

datatype 'a rb_node =
    Null
  | Node (link0: "'a rb_node") (rb_data: 'a) (rb_color: rb_color) (link1: "'a rb_node")

record 'a rb_table =
  rb_root :: "'a rb_node"
  rb_compare :: "'a \<Rightarrow> 'a \<Rightarrow> int"
  rb_count :: "64 word"
  rb_generation :: "64 word"

definition RB_MAX_HEIGHT :: nat where
  "RB_MAX_HEIGHT = 48"

datatype 'a frame = Frame (da: bool) (fdata: 'a) (fcolor: rb_color) (other: "'a rb_node")

fun is_red :: "'a rb_node \<Rightarrow> bool" where
  "is_red (Node _ _ RB_RED _) = True"
| "is_red _ = False"

fun set_color :: "rb_color \<Rightarrow> 'a rb_node \<Rightarrow> 'a rb_node" where
  "set_color c Null = Null"
| "set_color c (Node l x _ r) = Node l x c r"

fun mk_node :: "bool \<Rightarrow> 'a rb_node \<Rightarrow> 'a \<Rightarrow> rb_color \<Rightarrow> 'a rb_node \<Rightarrow> 'a rb_node" where
  "mk_node False t x c o' = Node t x c o'"
| "mk_node True t x c o' = Node o' x c t"

text \<open>\<open>plug t pa\<close> is the whole tree when \<open>t\<close> hangs below the stack \<open>pa\<close>.\<close>

fun plug :: "'a rb_node \<Rightarrow> 'a frame list \<Rightarrow> 'a rb_node" where
  "plug t [] = t"
| "plug t (Frame d x c o' # pa) = plug (mk_node d t x c o') pa"

section \<open>Creation and search\<close>

definition rb_create :: "bool \<Rightarrow> ('a \<Rightarrow> 'a \<Rightarrow> int) \<Rightarrow> 'a rb_table option" where
  "rb_create alloc cmp =
     (if alloc then Some \<lparr>rb_root = Null, rb_compare = cmp, rb_count = 0, rb_generation = 0\<rparr>
      else None)"

fun rb_find_node :: "('a \<Rightarrow> 'a \<Rightarrow> int) \<Rightarrow> 'a \<Rightarrow> 'a rb_node \<Rightarrow> 'a option" where
  "rb_find_node cmp item Null = None"
| "rb_find_node cmp item (Node l x c r) =
     (let k = cmp item x in
      if k < 0 then rb_find_node cmp item l
      else if k > 0 then rb_find_node cmp item r
      else Some x)"

definition rb_find :: "'a rb_table \<Rightarrow> 'a \<Rightarrow> 'a option" where
  "rb_find tree item = rb_find_node (rb_compare tree) item (rb_root tree)"

text \<open>
  The tables hold pointers: a client that changes the item \<^verbatim>\<open>rb_find\<close> returned
  changes it inside the table.  \<open>rb_store f\<close> is such a change of the item found.
\<close>

fun rb_store_node :: "('a \<Rightarrow> 'a \<Rightarrow> int) \<Rightarrow> 'a \<Rightarrow> ('a \<Rightarrow> 'a) \<Rightarrow> 'a rb_node \<Rightarrow> 'a rb_node" where
  "rb_store_node cmp item f Null = Null"
| "rb_store_node cmp item f (Node l x c r) =
     (let k = cmp item x in
      if k < 0 then Node (rb_store_node cmp item f l) x c r
      else if k > 0 then Node l x c (rb_store_node cmp item f r)
      else Node l (f x) c r)"

definition rb_store :: "'a rb_table \<Rightarrow> 'a \<Rightarrow> ('a \<Rightarrow> 'a) \<Rightarrow> 'a rb_table" where
  "rb_store tree item f =
     tree\<lparr>rb_root := rb_store_node (rb_compare tree) item f (rb_root tree)\<rparr>"

section \<open>Insertion\<close>

datatype 'a search = Found "'a frame list" "'a rb_node" | Slot "'a frame list"

text \<open>The descent of \<^verbatim>\<open>rb_probe\<close>: it pushes every node it passes.\<close>

fun rb_descend :: "('a \<Rightarrow> 'a \<Rightarrow> int) \<Rightarrow> 'a \<Rightarrow> 'a rb_node \<Rightarrow> 'a frame list \<Rightarrow> 'a search outcome" where
  "rb_descend cmp item Null pa = Ok (Slot pa)"
| "rb_descend cmp item (Node l x c r) pa =
     (let k = cmp item x in
      if k = 0 then Ok (Found pa (Node l x c r))
      else if RB_MAX_HEIGHT \<le> Suc (length pa) then Fault Stack_overflow
      else if k > 0 then rb_descend cmp item r (Frame True x c l # pa)
      else rb_descend cmp item l (Frame False x c r # pa))"

text \<open>
  The rebalancing loop: \<open>n\<close> is the red node at the top of the stack, the first frame
  its parent, the second its grandparent.
\<close>

fun rb_insert_fix :: "'a rb_node \<Rightarrow> 'a frame list \<Rightarrow> 'a rb_node outcome" where
  "rb_insert_fix n (Frame d1 x1 RB_RED o1 # Frame d2 x2 c2 o2 # pa) =
     (if \<not> d2 then
        (if is_red o2 then
           rb_insert_fix
             (Node (mk_node d1 n x1 RB_BLACK o1) x2 RB_RED (set_color RB_BLACK o2)) pa
         else if \<not> d1 then
           Ok (plug (Node n x1 RB_BLACK (Node o1 x2 RB_RED o2)) pa)
         else (case n of
             Null \<Rightarrow> Fault Null_dereference
           | Node yl y _ yr \<Rightarrow>
               Ok (plug (Node (Node o1 x1 RB_RED yl) y RB_BLACK (Node yr x2 RB_RED o2)) pa)))
      else
        (if is_red o2 then
           rb_insert_fix
             (Node (set_color RB_BLACK o2) x2 RB_RED (mk_node d1 n x1 RB_BLACK o1)) pa
         else if d1 then
           Ok (plug (Node (Node o2 x2 RB_RED o1) x1 RB_BLACK n) pa)
         else (case n of
             Null \<Rightarrow> Fault Null_dereference
           | Node yl y _ yr \<Rightarrow>
               Ok (plug (Node (Node o2 x2 RB_RED yl) y RB_BLACK (Node yr x1 RB_RED o1)) pa))))"
| "rb_insert_fix n pa = Ok (plug n pa)"

text \<open>
  What \<^verbatim>\<open>rb_probe\<close> returns: a null pointer (no memory), the slot of the new node, or the
  slot of the duplicate, which is given by its stack and its node.
\<close>

datatype 'a probe = No_memory | New_slot | Duplicate "'a frame list" "'a rb_node"

definition rb_probe :: "bool \<Rightarrow> 'a rb_table \<Rightarrow> 'a \<Rightarrow> ('a probe \<times> 'a rb_table) outcome" where
  "rb_probe alloc tree item =
     obind (rb_descend (rb_compare tree) item (rb_root tree) [])
       (\<lambda>s. case s of
          Found pa p \<Rightarrow> Ok (Duplicate pa p, tree)
        | Slot pa \<Rightarrow>
            if \<not> alloc then Ok (No_memory, tree)
            else obind (rb_insert_fix (Node Null item RB_RED Null) pa)
              (\<lambda>root. Ok (New_slot,
                 tree\<lparr>rb_root := set_color RB_BLACK root,
                      rb_count := rb_count tree + 1,
                      rb_generation := rb_generation tree + 1\<rparr>)))"

definition rb_insert :: "bool \<Rightarrow> 'a rb_table \<Rightarrow> 'a \<Rightarrow> ('a option \<times> 'a rb_table) outcome" where
  "rb_insert alloc table item =
     obind (rb_probe alloc table item)
       (\<lambda>(p, table'). Ok (case p of
            No_memory \<Rightarrow> None
          | New_slot \<Rightarrow> None
          | Duplicate pa n \<Rightarrow> if rb_data n = item then None else Some (rb_data n), table'))"

fun set_data :: "'a \<Rightarrow> 'a rb_node \<Rightarrow> 'a rb_node" where
  "set_data x Null = Null"
| "set_data x (Node l _ c r) = Node l x c r"

definition rb_replace :: "bool \<Rightarrow> 'a rb_table \<Rightarrow> 'a \<Rightarrow> ('a option \<times> 'a rb_table) outcome" where
  "rb_replace alloc table item =
     obind (rb_probe alloc table item)
       (\<lambda>(p, table'). Ok (case p of
            No_memory \<Rightarrow> (None, table')
          | New_slot \<Rightarrow> (None, table')
          | Duplicate pa n \<Rightarrow>
              if rb_data n = item then (None, table')
              else (Some (rb_data n), table'\<lparr>rb_root := plug (set_data item n) pa\<rparr>)))"

section \<open>Deletion\<close>

text \<open>The search loop of \<^verbatim>\<open>rb_delete\<close>; \<open>None\<close> is the early return on a null link.\<close>

fun rb_delete_search ::
  "('a \<Rightarrow> 'a \<Rightarrow> int) \<Rightarrow> 'a \<Rightarrow> 'a rb_node \<Rightarrow> 'a frame list \<Rightarrow> ('a frame list \<times> 'a rb_node) option outcome" where
  "rb_delete_search cmp item Null pa = Ok None"
| "rb_delete_search cmp item (Node l x c r) pa =
     (let k = cmp item x in
      if k = 0 then Ok (Some (pa, Node l x c r))
      else if RB_MAX_HEIGHT \<le> Suc (length pa) then Fault Stack_overflow
      else if k > 0 then rb_delete_search cmp item r (Frame True x c l # pa)
      else rb_delete_search cmp item l (Frame False x c r # pa))"

text \<open>
  The inner \<open>for (;;)\<close> that walks to the inorder successor \<open>s\<close>: \<open>k\<close> is the stack
  height, the frames it pushes are collected in \<open>acc\<close>.
\<close>

fun rb_successor :: "nat \<Rightarrow> 'a rb_node \<Rightarrow> 'a frame list \<Rightarrow> ('a frame list \<times> 'a rb_node) outcome" where
  "rb_successor k (Node s x c r) acc =
     (if RB_MAX_HEIGHT \<le> k then Fault Stack_overflow
      else (case s of
          Null \<Rightarrow> Fault Null_dereference
        | Node sl _ _ _ \<Rightarrow>
            if sl = Null then Ok (Frame False x c r # acc, s)
            else rb_successor (Suc k) s (Frame False x c r # acc)))"
| "rb_successor k Null acc = Fault Null_dereference"

text \<open>
  Unlinking \<open>p\<close>.  The result is the subtree left in the hole, the stack above it and
  the color that leaves the tree (the color of \<open>p\<close> after the swap).
\<close>

definition rb_unlink ::
  "'a rb_node \<Rightarrow> 'a frame list \<Rightarrow> ('a rb_node \<times> 'a frame list \<times> rb_color) outcome" where
  "rb_unlink p pa =
     (case p of
        Null \<Rightarrow> Fault Null_dereference
      | Node pl x pc pr \<Rightarrow>
         (case pr of
            Null \<Rightarrow> Ok (pl, pa, pc)
          | Node rl rx rc rr \<Rightarrow>
              if rl = Null then
                (if RB_MAX_HEIGHT \<le> Suc (length pa) then Fault Stack_overflow
                 else Ok (rr, Frame True rx pc pl # pa, rc))
              else obind (rb_successor (Suc (Suc (length pa))) pr [])
                (\<lambda>(acc, s). Ok (link1 s, acc @ Frame True (rb_data s) pc pl # pa, rb_color s))))"

text \<open>
  One pass of the rebalancing loop when the hole is the left (\<open>rb_fix_left\<close>) or the
  right (\<open>rb_fix_right\<close>) child of \<open>pa[k - 1]\<close>, whose data and color are \<open>px\<close> and
  \<open>pc\<close>; \<open>w\<close> is the sibling.  The first half turns a red sibling up
  (\<open>rb_red_left\<close>, \<open>rb_red_right\<close>), which pushes one more frame; the second half
  works on a black sibling.  \<open>Finished\<close> is the \<open>break\<close>, \<open>Climb\<close> the \<open>k--\<close> at the end
  of the body.
\<close>

datatype 'a fix_step = Finished "'a rb_node" | Climb "'a rb_node" "'a frame list"

fun rb_red_left ::
  "rb_color \<Rightarrow> 'a rb_node \<Rightarrow> 'a frame list \<Rightarrow> (rb_color \<times> 'a rb_node \<times> 'a frame list) outcome" where
  "rb_red_left pc Null pa = Fault Null_dereference"
| "rb_red_left pc (Node wl wx RB_BLACK wr) pa = Ok (pc, Node wl wx RB_BLACK wr, pa)"
| "rb_red_left pc (Node wl wx RB_RED wr) pa =
     (if RB_MAX_HEIGHT \<le> Suc (Suc (length pa)) then Fault Stack_overflow
      else Ok (RB_RED, wl, Frame False wx RB_BLACK wr # pa))"

fun rb_red_right ::
  "rb_color \<Rightarrow> 'a rb_node \<Rightarrow> 'a frame list \<Rightarrow> (rb_color \<times> 'a rb_node \<times> 'a frame list) outcome" where
  "rb_red_right pc Null pa = Fault Null_dereference"
| "rb_red_right pc (Node wl wx RB_BLACK wr) pa = Ok (pc, Node wl wx RB_BLACK wr, pa)"
| "rb_red_right pc (Node wl wx RB_RED wr) pa =
     (if RB_MAX_HEIGHT \<le> Suc (Suc (length pa)) then Fault Stack_overflow
      else Ok (RB_RED, wr, Frame True wx RB_BLACK wl # pa))"

fun rb_black_left ::
  "'a rb_node \<Rightarrow> 'a \<Rightarrow> rb_color \<Rightarrow> 'a rb_node \<Rightarrow> 'a frame list \<Rightarrow> 'a fix_step outcome" where
  "rb_black_left x px pc Null pa = Fault Null_dereference"
| "rb_black_left x px pc (Node wl wx wc wr) pa =
     (if \<not> is_red wl \<and> \<not> is_red wr then
        Ok (Climb (Node x px pc (Node wl wx RB_RED wr)) pa)
      else if \<not> is_red wr then
        (case wl of
           Null \<Rightarrow> Fault Null_dereference
         | Node yl y _ yr \<Rightarrow>
             Ok (Finished (plug (Node (Node x px RB_BLACK yl) y pc (Node yr wx RB_BLACK wr)) pa)))
      else
        Ok (Finished (plug (Node (Node x px RB_BLACK wl) wx pc (set_color RB_BLACK wr)) pa)))"

fun rb_black_right ::
  "'a rb_node \<Rightarrow> 'a \<Rightarrow> rb_color \<Rightarrow> 'a rb_node \<Rightarrow> 'a frame list \<Rightarrow> 'a fix_step outcome" where
  "rb_black_right x px pc Null pa = Fault Null_dereference"
| "rb_black_right x px pc (Node wl wx wc wr) pa =
     (if \<not> is_red wl \<and> \<not> is_red wr then
        Ok (Climb (Node (Node wl wx RB_RED wr) px pc x) pa)
      else if \<not> is_red wl then
        (case wr of
           Null \<Rightarrow> Fault Null_dereference
         | Node yl y _ yr \<Rightarrow>
             Ok (Finished (plug (Node (Node wl wx RB_BLACK yl) y pc (Node yr px RB_BLACK x)) pa)))
      else
        Ok (Finished (plug (Node (set_color RB_BLACK wl) wx pc (Node wr px RB_BLACK x)) pa)))"

definition rb_fix_left ::
  "'a rb_node \<Rightarrow> 'a \<Rightarrow> rb_color \<Rightarrow> 'a rb_node \<Rightarrow> 'a frame list \<Rightarrow> 'a fix_step outcome" where
  "rb_fix_left x px pc w pa =
     obind (rb_red_left pc w pa) (\<lambda>(pc, w, pa). rb_black_left x px pc w pa)"

definition rb_fix_right ::
  "'a rb_node \<Rightarrow> 'a \<Rightarrow> rb_color \<Rightarrow> 'a rb_node \<Rightarrow> 'a frame list \<Rightarrow> 'a fix_step outcome" where
  "rb_fix_right x px pc w pa =
     obind (rb_red_right pc w pa) (\<lambda>(pc, w, pa). rb_black_right x px pc w pa)"

lemma rb_red_left_Ok:
  "rb_red_left pc w pa = Ok (pc', w', pa') \<Longrightarrow>
     pa' = pa \<or> pc' = RB_RED \<and> length pa' = Suc (length pa)"
  by (induction pc w pa rule: rb_red_left.induct) (auto split: if_splits)

lemma rb_red_right_Ok:
  "rb_red_right pc w pa = Ok (pc', w', pa') \<Longrightarrow>
     pa' = pa \<or> pc' = RB_RED \<and> length pa' = Suc (length pa)"
  by (induction pc w pa rule: rb_red_right.induct) (auto split: if_splits)

lemma rb_black_left_Climb:
  "rb_black_left x px pc w pa = Ok (Climb h pa') \<Longrightarrow> pa' = pa \<and> is_red h = (pc = RB_RED)"
  by (cases w; cases pc) (auto split: if_splits rb_node.splits)

lemma rb_black_right_Climb:
  "rb_black_right x px pc w pa = Ok (Climb h pa') \<Longrightarrow> pa' = pa \<and> is_red h = (pc = RB_RED)"
  by (cases w; cases pc) (auto split: if_splits rb_node.splits)

lemma rb_fix_left_Climb:
  "rb_fix_left x px pc w pa = Ok (Climb h pa') \<Longrightarrow>
     length pa' = length pa \<or> length pa' = Suc (length pa) \<and> is_red h"
  by (auto simp: rb_fix_left_def outcome_simps dest!: rb_red_left_Ok rb_black_left_Climb)

lemma rb_fix_right_Climb:
  "rb_fix_right x px pc w pa = Ok (Climb h pa') \<Longrightarrow>
     length pa' = length pa \<or> length pa' = Suc (length pa) \<and> is_red h"
  by (auto simp: rb_fix_right_def outcome_simps dest!: rb_red_right_Ok rb_black_right_Climb)

function rb_delete_fix :: "'a rb_node \<Rightarrow> 'a frame list \<Rightarrow> 'a rb_node outcome" where
  "rb_delete_fix x pa =
     (if is_red x then Ok (plug (set_color RB_BLACK x) pa)
      else (case pa of
          [] \<Rightarrow> Ok x
        | Frame d px pc w # rest \<Rightarrow>
            (case (if \<not> d then rb_fix_left x px pc w rest else rb_fix_right x px pc w rest) of
               Ok (Finished t) \<Rightarrow> Ok t
             | Ok (Climb h pa') \<Rightarrow> rb_delete_fix h pa'
             | Blocks \<Rightarrow> Blocks
             | Fault e \<Rightarrow> Fault e)))"
  by pat_completeness auto
termination
  by (relation "measure (\<lambda>(x, pa). 2 * length pa + (if is_red x then 0 else 1))")
    (auto dest: rb_fix_left_Climb rb_fix_right_Climb split: if_splits)

declare rb_delete_fix.simps [simp del]

definition rb_delete :: "'a rb_table \<Rightarrow> 'a \<Rightarrow> ('a option \<times> 'a rb_table) outcome" where
  "rb_delete tree item =
     obind (rb_delete_search (rb_compare tree) item (rb_root tree) [])
       (\<lambda>r. case r of
          None \<Rightarrow> Ok (None, tree)
        | Some (pa, p) \<Rightarrow>
            obind (rb_unlink p pa)
              (\<lambda>(x, pa, c).
                obind (if c = RB_BLACK then rb_delete_fix x pa else Ok (plug x pa))
                  (\<lambda>root. Ok (Some (rb_data p),
                     tree\<lparr>rb_root := root,
                          rb_count := rb_count tree - 1,
                          rb_generation := rb_generation tree + 1\<rparr>))))"

end
