(* ===== verification/RB_Shape.thy ===== *)
theory RB_Shape
  imports RB_Tree
begin

text \<open>
  The shape of the red-black tree, whatever the comparison function is: the inorder
  sequence of items, the red-black invariant on trees and on the stacks above a hole,
  the height bound, and what the loops of \<open>rb.c\<close> do to each of them.
\<close>

section \<open>Inorder sequence\<close>

fun inorder :: "'a rb_node \<Rightarrow> 'a list" where
  "inorder Null = []"
| "inorder (Node l x c r) = inorder l @ x # inorder r"

fun before :: "'a frame list \<Rightarrow> 'a list" where
  "before [] = []"
| "before (Frame d x c o' # pa) = before pa @ (if d then inorder o' @ [x] else [])"

fun after :: "'a frame list \<Rightarrow> 'a list" where
  "after [] = []"
| "after (Frame d x c o' # pa) = (if d then [] else x # inorder o') @ after pa"

named_theorems rb_simps \<open>facts about trees and stacks\<close>

lemma inorder_mk_node [simp]:
  "inorder (mk_node d t x c o') = (if d then inorder o' @ x # inorder t else inorder t @ x # inorder o')"
  by (cases d) auto

lemma inorder_set_color [simp]: "inorder (set_color c t) = inorder t"
  by (cases t) auto

lemma inorder_plug [rb_simps]: "inorder (plug t pa) = before pa @ inorder t @ after pa"
  by (induction t pa rule: plug.induct) auto

lemma plug_append: "plug t (pa @ pb) = plug (plug t pa) pb"
  by (induction t pa rule: plug.induct) auto

lemma inorder_Nil_iff [simp]: "inorder t = [] \<longleftrightarrow> t = Null"
  by (cases t) auto

lemma inorder_insert_fix:
  "rb_insert_fix n pa = Ok t \<Longrightarrow> inorder t = before pa @ inorder n @ after pa"
  by (induction n pa arbitrary: t rule: rb_insert_fix.induct)
    (auto simp: inorder_plug split: if_splits rb_node.splits)

section \<open>The red-black invariant\<close>

fun bheight :: "'a rb_node \<Rightarrow> nat" where
  "bheight Null = 0"
| "bheight (Node l x c r) = (if c = RB_BLACK then Suc (bheight l) else bheight l)"

fun invc :: "'a rb_node \<Rightarrow> bool" where
  "invc Null = True"
| "invc (Node l x c r) = ((c = RB_RED \<longrightarrow> \<not> is_red l \<and> \<not> is_red r) \<and> invc l \<and> invc r)"

fun invh :: "'a rb_node \<Rightarrow> bool" where
  "invh Null = True"
| "invh (Node l x c r) = (bheight l = bheight r \<and> invh l \<and> invh r)"

definition rb_inv :: "'a rb_node \<Rightarrow> bool" where
  "rb_inv t \<longleftrightarrow> invc t \<and> invh t \<and> \<not> is_red t"

text \<open>
  The same for a stack above a hole of black height \<open>h\<close>; the pseudo node counts as
  red, since the root has to be black.
\<close>

fun top_red :: "'a frame list \<Rightarrow> bool" where
  "top_red [] = True"
| "top_red (Frame d x c o' # pa) = (c = RB_RED)"

fun path_inv :: "'a frame list \<Rightarrow> nat \<Rightarrow> bool" where
  "path_inv [] h = True"
| "path_inv (Frame d x c o' # pa) h =
     (invc o' \<and> invh o' \<and> bheight o' = h \<and> (c = RB_RED \<longrightarrow> \<not> is_red o' \<and> \<not> top_red pa) \<and>
      path_inv pa (if c = RB_BLACK then Suc h else h))"

lemma not_color [simp]:
  "c \<noteq> RB_BLACK \<longleftrightarrow> c = RB_RED"
  "c \<noteq> RB_RED \<longleftrightarrow> c = RB_BLACK"
  by (cases c; simp)+

lemma is_red_iff: "is_red t \<longleftrightarrow> (\<exists>l x r. t = Node l x RB_RED r)"
  by (cases t rule: is_red.cases) auto

lemma is_red_Node [simp]: "is_red (Node l x c r) \<longleftrightarrow> c = RB_RED"
  by (cases c) auto

lemma set_color_id [simp]: "\<not> is_red t \<Longrightarrow> set_color RB_BLACK t = t"
  by (cases t) auto

lemma set_color_inv [simp]:
  "invc t \<Longrightarrow> invc (set_color RB_BLACK t)"
  "invh (set_color c t) = invh t"
  "\<not> is_red (set_color RB_BLACK t)"
  by (cases t; auto)+

lemma bheight_set_BLACK: "is_red t \<Longrightarrow> bheight (set_color RB_BLACK t) = Suc (bheight t)"
  by (cases t) auto

lemma rb_inv_plug [rb_simps]:
  "rb_inv (plug t pa) \<longleftrightarrow>
     path_inv pa (bheight t) \<and> invc t \<and> invh t \<and> (is_red t \<longrightarrow> \<not> top_red pa)"
proof (induction t pa rule: plug.induct)
  case (1 t)
  then show ?case by (auto simp: rb_inv_def)
next
  case (2 t d x c o' pa)
  then show ?case by (cases d; cases c) auto
qed

section \<open>Insertion\<close>

lemma plug_finished:
  "path_inv pa (bheight t) \<Longrightarrow> invc t \<Longrightarrow> invh t \<Longrightarrow> (is_red t \<longrightarrow> \<not> top_red pa) \<Longrightarrow>
     rb_inv (set_color RB_BLACK (plug t pa))"
  using rb_inv_plug [of t pa] by (auto simp: rb_inv_def)

lemma insert_fix_inv:
  "path_inv pa (bheight n) \<Longrightarrow> invc n \<Longrightarrow> invh n \<Longrightarrow> is_red n \<Longrightarrow>
     \<exists>t. rb_insert_fix n pa = Ok t \<and> rb_inv (set_color RB_BLACK t)"
proof (induction n pa rule: rb_insert_fix.induct [case_names red root black single])
  case (red n d1 x1 o1 d2 x2 c2 o2 pa)
  have c2: "c2 = RB_BLACK" using red by auto
  obtain nl y nr where n: "n = Node nl y RB_RED nr" using red by (auto simp: is_red_iff)
  show ?case
  proof (cases "is_red o2")
    case True
    then show ?thesis using red c2 n by (cases d1; cases d2) (auto simp: bheight_set_BLACK)
  next
    case False
    then show ?thesis using red c2 n by (cases d1; cases d2) (auto intro!: plug_finished)
  qed
next
  case (root n)
  then show ?case using plug_finished [of "[]" "set_color RB_BLACK n"] by (simp add: rb_inv_def)
next
  case (black n d x o1 pa)
  then show ?case
    using plug_finished [of "Frame d x RB_BLACK o1 # pa" n] by simp
next
  case (single n v)
  then show ?case
    using plug_finished [of "[v]" n] by (cases v) (auto simp del: plug.simps)
qed

section \<open>Height\<close>

fun rb_height :: "'a rb_node \<Rightarrow> nat" where
  "rb_height Null = 0"
| "rb_height (Node l x c r) = Suc (max (rb_height l) (rb_height r))"

lemma height_plug: "length pa + rb_height t \<le> rb_height (plug t pa)"
proof (induction t pa rule: plug.induct)
  case (2 t d x c o' pa)
  then show ?case by (cases d) auto
qed simp

lemma height_bheight: "invc t \<Longrightarrow> invh t \<Longrightarrow> rb_height t \<le> 2 * bheight t + (if is_red t then 1 else 0)"
  by (induction t) (auto split: if_splits)

lemma bheight_size: "invc t \<Longrightarrow> invh t \<Longrightarrow> 2 ^ bheight t \<le> Suc (length (inorder t))"
proof (induction t)
  case (Node l x c r)
  then show ?case by (cases c) auto
qed simp

text \<open>A valid tree of fewer than \<open>2 ^ 24 - 1\<close> items is at most 46 nodes high.\<close>

lemma height_bound:
  assumes "rb_inv t" and "Suc (length (inorder t)) < 2 ^ 24"
  shows "rb_height t \<le> 46"
proof -
  have "(2::nat) ^ bheight t < 2 ^ 24"
    using bheight_size[of t] assms by (auto simp: rb_inv_def)
  then have "bheight t < 24" by (rule power_less_imp_less_exp [rotated]) simp
  then show ?thesis using height_bheight[of t] assms(1) by (auto simp: rb_inv_def)
qed

section \<open>Descent\<close>

lemma descend_plug:
  "rb_descend cmp item t pa = Ok (Slot pb) \<Longrightarrow> plug Null pb = plug t pa"
  "rb_descend cmp item t pa = Ok (Found pb n) \<Longrightarrow>
     plug n pb = plug t pa \<and> n \<noteq> Null \<and> cmp item (rb_data n) = 0"
  by (induction cmp item t pa rule: rb_descend.induct) (auto simp: Let_def split: if_splits)

lemma descend_total:
  "length pa + rb_height t < RB_MAX_HEIGHT \<Longrightarrow> \<exists>s. rb_descend cmp item t pa = Ok s"
  by (induction cmp item t pa rule: rb_descend.induct) (auto simp: Let_def)

lemma delete_search_descend:
  "rb_delete_search cmp item t pa =
     obind (rb_descend cmp item t pa)
       (\<lambda>s. Ok (case s of Slot _ \<Rightarrow> None | Found pb n \<Rightarrow> Some (pb, n)))"
  by (induction cmp item t pa rule: rb_delete_search.induct) (auto simp: Let_def)

section \<open>Unlinking a node\<close>

lemma before_append: "before (pa @ pb) = before pb @ before pa"
  by (induction pa rule: before.induct) auto

lemma after_append: "after (pa @ pb) = after pa @ after pb"
  by (induction pa rule: after.induct) auto

text \<open>The walk to the successor only goes left, so it pushes frames with direction 0.\<close>

lemma successor_ok:
  assumes "r \<noteq> Null" and "link0 r \<noteq> Null" and "k + rb_height r \<le> Suc RB_MAX_HEIGHT"
  shows "\<exists>as s. rb_successor k r acc = Ok (as @ acc, s) \<and> s \<noteq> Null \<and> link0 s = Null \<and>
      plug s as = r \<and> before as = [] \<and> length as < rb_height r"
  using assms
proof (induction k r acc rule: rb_successor.induct)
  case (1 k l x c r acc)
  then obtain sl sx sc sr where l: "l = Node sl sx sc sr" by (cases l) auto
  show ?case
  proof (cases "sl = Null")
    case True
    then show ?thesis using 1 l
      by (auto simp: intro!: exI [of _ "[Frame False x c r]"])
  next
    case False
    then have "\<exists>as s. rb_successor (Suc k) l (Frame False x c r # acc) =
          Ok (as @ Frame False x c r # acc, s) \<and> s \<noteq> Null \<and> link0 s = Null \<and>
          plug s as = l \<and> before as = [] \<and> length as < rb_height l"
      using 1 l by auto
    then obtain as s where "rb_successor (Suc k) l (Frame False x c r # acc) =
          Ok ((as @ [Frame False x c r]) @ acc, s)" "s \<noteq> Null" "link0 s = Null"
          "plug s as = l" "before as = []" "length as < rb_height l"
      by auto
    then show ?thesis using 1 False l
      by (intro exI [of _ "as @ [Frame False x c r]"] exI [of _ s])
        (auto simp: plug_append before_append)
  qed
qed simp

text \<open>
  What unlinking leaves: a hole and its stack whose items are those of the old tree
  without the deleted one, and which are balanced up to the removed color.
\<close>

definition unlink_post :: "'a rb_node \<Rightarrow> 'a frame list \<Rightarrow> 'a rb_node \<times> 'a frame list \<times> rb_color \<Rightarrow> bool" where
  "unlink_post p pa = (\<lambda>(x, pb, c).
     before pb @ inorder x @ after pb =
       before pa @ inorder (link0 p) @ inorder (link1 p) @ after pa \<and>
     length pb < length pa + rb_height p \<and> length pa \<le> length pb \<and>
     (rb_inv (plug p pa) \<longrightarrow>
        invc x \<and> invh x \<and>
        path_inv pb (if c = RB_BLACK then Suc (bheight x) else bheight x) \<and>
        (c = RB_RED \<longrightarrow> \<not> is_red x \<and> \<not> top_red pb)))"

lemma top_red_data: "top_red (as @ Frame d x c t # pa) = top_red (as @ Frame d y c t # pa)"
  by (cases as rule: top_red.cases) auto

lemma path_inv_data: "path_inv (as @ Frame d x c t # pa) h = path_inv (as @ Frame d y c t # pa) h"
proof (induction as h rule: path_inv.induct)
  case (2 d' x' c' t' as h)
  then show ?case using top_red_data [of as d x c t pa y] by simp
qed simp

lemma unlink_successor_post:
  assumes p: "p = Node pl x pc (plug s as)" and s: "s = Node Null sx sc sr"
    and "before as = []" and "length as < rb_height (plug s as)"
  shows "unlink_post p pa (sr, as @ Frame True sx pc pl # pa, sc)"
proof -
  let ?pb = "\<lambda>y. as @ Frame True y pc pl # pa"
  have ord: "before (?pb sx) @ inorder sr @ after (?pb sx) =
      before pa @ inorder pl @ inorder (plug s as) @ after pa"
    using assms by (simp add: before_append after_append inorder_plug)
  have inv: "invc sr \<and> invh sr \<and> bheight sr = 0 \<and>
      path_inv (?pb sx) (if sc = RB_BLACK then Suc (bheight sr) else bheight sr) \<and>
      (sc = RB_RED \<longrightarrow> \<not> is_red sr \<and> \<not> top_red (?pb sx))"
    if "rb_inv (plug p pa)"
  proof -
    have "plug p pa = plug s (?pb x)" by (simp add: p plug_append)
    with that have "path_inv (?pb x) (bheight s)" "invc s" "invh s" "is_red s \<longrightarrow> \<not> top_red (?pb x)"
      by (auto simp: rb_inv_plug)
    then show ?thesis
      using path_inv_data [of as True x pc pl pa "bheight s" sx]
        top_red_data [of as True x pc pl pa sx] by (auto simp: s split: if_splits)
  qed
  show ?thesis using ord inv assms by (auto simp: unlink_post_def)
qed

lemma unlink_ok:
  assumes "p \<noteq> Null" and "length pa + rb_height p < RB_MAX_HEIGHT"
  shows "\<exists>h. rb_unlink p pa = Ok h \<and> unlink_post p pa h"
proof -
  obtain pl x pc pr where p: "p = Node pl x pc pr" using assms(1) by (cases p) auto
  show ?thesis
  proof (cases pr)
    case Null
    then show ?thesis using p
      by (cases pc) (auto simp: rb_unlink_def unlink_post_def rb_inv_plug)
  next
    case (Node rl rx rc rr)
    show ?thesis
    proof (cases "rl = Null")
      case True
      then show ?thesis
        using p Node assms unlink_successor_post [of p pl x pc pr "[]" rx rc rr pa]
        by (auto simp: rb_unlink_def)
    next
      case False
      obtain as s where ws: "rb_successor (Suc (Suc (length pa))) pr [] = Ok (as @ [], s)"
        "s \<noteq> Null" "link0 s = Null" "plug s as = pr" "before as = []" "length as < rb_height pr"
        using successor_ok [of pr "Suc (Suc (length pa))" "[]"] p Node False assms by fastforce
      moreover obtain sx sc sr where s: "s = Node Null sx sc sr"
        using ws(2,3) by (cases s) auto
      ultimately show ?thesis
        using p Node False unlink_successor_post [of p pl x pc s as sx sc sr pa]
        by (auto simp: rb_unlink_def)
    qed
  qed
qed

section \<open>Rebalancing after a deletion\<close>

text \<open>
  One pass either finishes with a valid tree or climbs with the same deficit, at the
  same or a smaller stack (one frame more only when the hole has become red).
\<close>

definition fix_post :: "'a list \<Rightarrow> nat \<Rightarrow> 'a fix_step \<Rightarrow> bool" where
  "fix_post xs n = (\<lambda>r. case r of
       Finished t \<Rightarrow> rb_inv t \<and> inorder t = xs
     | Climb h pa \<Rightarrow> before pa @ inorder h @ after pa = xs \<and>
         (is_red h \<or> length pa \<le> n) \<and> invc (set_color RB_BLACK h) \<and> invh h \<and> path_inv pa (Suc (bheight h)))"

lemma black_left_post:
  assumes "invc x" "invh x" "\<not> is_red x" "invc w" "invh w" "\<not> is_red w" "bheight w = Suc (bheight x)"
    and "pc = RB_RED \<longrightarrow> \<not> top_red pa" "path_inv pa (if pc = RB_BLACK then Suc (bheight w) else bheight w)"
    and "pc = RB_RED \<or> length pa \<le> n"
  shows "\<exists>r. rb_black_left x px pc w pa = Ok r \<and>
    fix_post (before pa @ inorder x @ px # inorder w @ after pa) n r"
proof -
  obtain wl wx wr where w: "w = Node wl wx RB_BLACK wr" using assms by (cases w) auto
  show ?thesis
    using assms w by (cases pc; cases wl; cases wr)
      (auto simp: fix_post_def rb_inv_plug inorder_plug bheight_set_BLACK split: if_splits)
qed

lemma black_right_post:
  assumes "invc x" "invh x" "\<not> is_red x" "invc w" "invh w" "\<not> is_red w" "bheight w = Suc (bheight x)"
    and "pc = RB_RED \<longrightarrow> \<not> top_red pa" "path_inv pa (if pc = RB_BLACK then Suc (bheight w) else bheight w)"
    and "pc = RB_RED \<or> length pa \<le> n"
  shows "\<exists>r. rb_black_right x px pc w pa = Ok r \<and>
    fix_post (before pa @ inorder w @ px # inorder x @ after pa) n r"
proof -
  obtain wl wx wr where w: "w = Node wl wx RB_BLACK wr" using assms by (cases w) auto
  show ?thesis
    using assms w by (cases pc; cases wl; cases wr)
      (auto simp: fix_post_def rb_inv_plug inorder_plug bheight_set_BLACK split: if_splits)
qed

lemma fix_left_post:
  assumes "invc x" "invh x" "\<not> is_red x" "path_inv (Frame False px pc w # pa) (Suc (bheight x))"
    and "Suc (length pa) \<le> 46"
  shows "\<exists>r. rb_fix_left x px pc w pa = Ok r \<and>
    fix_post (before pa @ inorder x @ px # inorder w @ after pa) (length pa) r"
proof -
  obtain wl wx wc wr where w: "w = Node wl wx wc wr" using assms by (cases w) auto
  show ?thesis
  proof (cases wc)
    case RB_BLACK
    then show ?thesis using assms w black_left_post [of x w pc pa "length pa" px]
      by (cases pc) (auto simp: rb_fix_left_def)
  next
    case RB_RED
    then show ?thesis
      using assms w black_left_post [of x wl RB_RED "Frame False wx RB_BLACK wr # pa" "length pa" px]
      by (auto simp: rb_fix_left_def RB_MAX_HEIGHT_def)
  qed
qed

lemma fix_right_post:
  assumes "invc x" "invh x" "\<not> is_red x" "path_inv (Frame True px pc w # pa) (Suc (bheight x))"
    and "Suc (length pa) \<le> 46"
  shows "\<exists>r. rb_fix_right x px pc w pa = Ok r \<and>
    fix_post (before pa @ inorder w @ px # inorder x @ after pa) (length pa) r"
proof -
  obtain wl wx wc wr where w: "w = Node wl wx wc wr" using assms by (cases w) auto
  show ?thesis
  proof (cases wc)
    case RB_BLACK
    then show ?thesis using assms w black_right_post [of x w pc pa "length pa" px]
      by (cases pc) (auto simp: rb_fix_right_def)
  next
    case RB_RED
    then show ?thesis
      using assms w black_right_post [of x wr RB_RED "Frame True wx RB_BLACK wl # pa" "length pa" px]
      by (auto simp: rb_fix_right_def RB_MAX_HEIGHT_def)
  qed
qed

lemma delete_fix_ok:
  "path_inv pa (Suc (bheight x)) \<Longrightarrow> invc (set_color RB_BLACK x) \<Longrightarrow> invh x \<Longrightarrow>
     is_red x \<or> length pa \<le> 46 \<Longrightarrow>
     \<exists>t. rb_delete_fix x pa = Ok t \<and> rb_inv t \<and> inorder t = before pa @ inorder x @ after pa"
proof (induction x pa rule: rb_delete_fix.induct)
  case (1 x pa)
  show ?case
  proof (cases "is_red x")
    case True
    then show ?thesis using 1(2-)
      by (subst rb_delete_fix.simps) (auto simp: rb_inv_plug inorder_plug bheight_set_BLACK)
  next
    case black: False
    show ?thesis
    proof (cases pa)
      case Nil
      then show ?thesis using 1(2-) black by (subst rb_delete_fix.simps) (auto simp: rb_inv_def)
    next
      case (Cons f rest)
      obtain d px pc w where f: "f = Frame d px pc w" by (cases f)
      obtain r where r: "(if \<not> d then rb_fix_left x px pc w rest else rb_fix_right x px pc w rest) = Ok r"
        and post: "fix_post (before pa @ inorder x @ after pa) (length rest) r"
        using fix_left_post [of x px pc w rest] fix_right_post [of x px pc w rest] 1(2-) black Cons f
        by (cases d) auto
      show ?thesis
      proof (cases r)
        case (Finished t)
        then show ?thesis using r post black Cons f
          by (subst rb_delete_fix.simps) (auto simp: fix_post_def split: if_splits)
      next
        case (Climb h pb)
        then have "\<exists>t. rb_delete_fix h pb = Ok t \<and> rb_inv t \<and> inorder t = before pb @ inorder h @ after pb"
          using 1(1) [OF black Cons f r Climb] post 1(2-) black Cons by (auto simp: fix_post_def)
        then show ?thesis using r post black Cons f Climb
          by (subst rb_delete_fix.simps) (auto simp: fix_post_def split: if_splits)
      qed
    qed
  qed
qed

end
