(* ===== verification/Items.thy ===== *)
theory Items
  imports CS_Prelude
begin

text \<open>
  Ordered sequences of items, the reference for every search tree of the library: what
  inserting, finding, replacing and deleting an item means on the sequence of items of a
  table.  A comparison function is admissible when it compares by a key of a linear order;
  the locale \<open>keyed\<close> states that law, and every table of the program is an interpretation
  of it.
\<close>

section \<open>Reference operations\<close>

definition ordered :: "('a \<Rightarrow> 'a \<Rightarrow> int) \<Rightarrow> 'a list \<Rightarrow> bool" where
  "ordered cmp xs \<longleftrightarrow> sorted_wrt (\<lambda>x y. cmp x y < 0) xs"

fun list_insert :: "('a \<Rightarrow> 'a \<Rightarrow> int) \<Rightarrow> 'a \<Rightarrow> 'a list \<Rightarrow> 'a list" where
  "list_insert cmp x [] = [x]"
| "list_insert cmp x (y # ys) =
     (if cmp x y < 0 then x # y # ys else if cmp x y = 0 then y # ys else y # list_insert cmp x ys)"

definition list_find :: "('a \<Rightarrow> 'a \<Rightarrow> int) \<Rightarrow> 'a \<Rightarrow> 'a list \<Rightarrow> 'a option" where
  "list_find cmp x ys = find (\<lambda>y. cmp x y = 0) ys"

definition list_delete :: "('a \<Rightarrow> 'a \<Rightarrow> int) \<Rightarrow> 'a \<Rightarrow> 'a list \<Rightarrow> 'a list" where
  "list_delete cmp x ys = filter (\<lambda>y. cmp x y \<noteq> 0) ys"

definition list_store :: "('a \<Rightarrow> 'a \<Rightarrow> int) \<Rightarrow> 'a \<Rightarrow> ('a \<Rightarrow> 'a) \<Rightarrow> 'a list \<Rightarrow> 'a list" where
  "list_store cmp x f ys = map (\<lambda>y. if cmp x y = 0 then f y else y) ys"

lemma find_append: "find P (xs @ ys) = (case find P xs of None \<Rightarrow> find P ys | Some x \<Rightarrow> Some x)"
  by (induction xs) auto

lemma find_None_all: "\<forall>x\<in>set xs. \<not> P x \<Longrightarrow> find P xs = None"
  by (simp add: find_None_iff)

lemma list_insert_split:
  "\<forall>y\<in>set xs. cmp x y > 0 \<Longrightarrow> \<forall>y\<in>set ys. cmp x y < 0 \<Longrightarrow> list_insert cmp x (xs @ ys) = xs @ x # ys"
proof (induction xs)
  case Nil
  then show ?case by (cases ys) auto
qed auto

lemma list_insert_dup:
  "\<forall>y\<in>set xs. cmp x y > 0 \<Longrightarrow> cmp x z = 0 \<Longrightarrow> list_insert cmp x (xs @ z # ys) = xs @ z # ys"
  by (induction xs) auto

section \<open>The law of a comparison function\<close>

locale keyed =
  fixes key :: "'a \<Rightarrow> 'k::linorder" and cmp :: "'a \<Rightarrow> 'a \<Rightarrow> int"
  assumes cmp_less: "cmp x y < 0 \<longleftrightarrow> key x < key y"
    and cmp_greater: "cmp x y > 0 \<longleftrightarrow> key y < key x"
begin

lemma cmp_eq: "cmp x y = 0 \<longleftrightarrow> key x = key y"
  using cmp_less [of x y] cmp_greater [of x y] by (metis less_irrefl linorder_neqE)

lemma ordered_iff: "ordered cmp xs \<longleftrightarrow> sorted_wrt (<) (map key xs)"
  by (simp add: ordered_def cmp_less sorted_wrt_map)

lemma ordered_split:
  "ordered cmp (xs @ x # ys) \<longleftrightarrow> ordered cmp xs \<and> ordered cmp ys \<and>
     (\<forall>y\<in>set xs. key y < key x) \<and> (\<forall>y\<in>set ys. key x < key y)"
  unfolding ordered_iff by (auto simp: sorted_wrt_append dest: less_trans)

lemma ordered_append:
  "ordered cmp (xs @ ys) \<longleftrightarrow> ordered cmp xs \<and> ordered cmp ys \<and>
     (\<forall>x\<in>set xs. \<forall>y\<in>set ys. key x < key y)"
  unfolding ordered_iff by (auto simp: sorted_wrt_append)

lemma ordered_Cons: "ordered cmp (x # xs) \<longleftrightarrow> ordered cmp xs \<and> (\<forall>y\<in>set xs. key x < key y)"
  unfolding ordered_iff by auto

lemma list_find_slot:
  "\<forall>y\<in>set xs. cmp item y > 0 \<Longrightarrow> \<forall>y\<in>set ys. cmp item y < 0 \<Longrightarrow> list_find cmp item (xs @ ys) = None"
  unfolding list_find_def by (rule find_None_all) (auto dest: bspec)

lemma list_find_mid:
  assumes "ordered cmp (xs @ d # ys)" and "cmp item d = 0"
  shows "list_find cmp item (xs @ d # ys) = Some d"
proof -
  have "find (\<lambda>y. cmp item y = 0) xs = None"
    using assms by (intro find_None_all) (auto simp: ordered_split cmp_eq)
  then show ?thesis using assms(2) by (simp add: list_find_def find_append)
qed

lemma list_delete_mid:
  assumes "ordered cmp (xs @ d # ys)" and "cmp item d = 0"
  shows "list_delete cmp item (xs @ d # ys) = xs @ ys"
proof -
  have "filter (\<lambda>y. cmp item y \<noteq> 0) xs = xs" "filter (\<lambda>y. cmp item y \<noteq> 0) ys = ys"
    using assms by (auto simp: ordered_split cmp_eq intro!: filter_True)
  then show ?thesis using assms(2) by (simp add: list_delete_def)
qed

lemma list_store_mid:
  assumes "ordered cmp (xs @ d # ys)" and "cmp item d = 0"
  shows "list_store cmp item f (xs @ d # ys) = xs @ f d # ys"
proof -
  have "list_store cmp item f zs = zs" if "\<forall>z\<in>set zs. key item \<noteq> key z" for zs
    using that by (auto simp: list_store_def cmp_eq intro: map_idI)
  moreover have "\<forall>z\<in>set xs. key item \<noteq> key z" "\<forall>z\<in>set ys. key item \<noteq> key z"
    using assms by (auto simp: ordered_split cmp_eq)
  ultimately show ?thesis using assms(2) by (simp add: list_store_def)
qed

lemma ordered_list_replace: "ordered cmp (list_store cmp item (\<lambda>_. item) xs) \<longleftrightarrow> ordered cmp xs"
proof -
  have "map key (list_store cmp item (\<lambda>_. item) xs) = map key xs" by (simp add: list_store_def cmp_eq)
  then show ?thesis by (simp only: ordered_iff)
qed

lemma list_insert_mid:
  assumes "ordered cmp (xs @ d # ys)" and "cmp item d = 0"
  shows "list_insert cmp item (xs @ d # ys) = xs @ d # ys"
  using assms by (intro list_insert_dup) (auto simp: ordered_split cmp_eq cmp_greater)

lemma set_list_insert: "list_find cmp item xs = None \<Longrightarrow> set (list_insert cmp item xs) = insert item (set xs)"
  by (induction xs) (auto simp: list_find_def)

lemma length_list_insert:
  "list_find cmp item xs = None \<Longrightarrow> length (list_insert cmp item xs) = Suc (length xs)"
  by (induction xs) (auto simp: list_find_def split: if_splits)

lemma ordered_list_insert: "ordered cmp xs \<Longrightarrow> ordered cmp (list_insert cmp item xs)"
proof (induction xs)
  case (Cons y ys)
  have "key item = key y \<or> key item < key y \<or> key y < key item" by (metis linorder_neqE)
  moreover have "set (list_insert cmp item ys) \<subseteq> insert item (set ys)"
    by (induction ys) auto
  ultimately show ?case using Cons
    by (auto simp: ordered_Cons cmp_less cmp_eq dest: less_trans)
qed (simp add: ordered_Cons)

lemma list_find_key: "list_find cmp item xs = find (\<lambda>x. key x = key item) xs"
  unfolding list_find_def cmp_eq by (simp only: eq_commute [of "key item"])

lemma find_insert:
  "list_find cmp item xs = None \<Longrightarrow>
     find (\<lambda>x. key x = k) (list_insert cmp item xs) =
       (if key item = k then Some item else find (\<lambda>x. key x = k) xs)"
  by (induction xs) (auto simp: list_find_def cmp_eq split: if_splits)

lemma find_delete:
  "find (\<lambda>x. key x = k) (list_delete cmp item xs) =
     (if key item = k then None else find (\<lambda>x. key x = k) xs)"
  by (induction xs) (auto simp: list_delete_def cmp_eq)

lemma find_store:
  "(\<And>x. key (f x) = key x) \<Longrightarrow> find (\<lambda>x. key x = k) (list_store cmp item f xs) =
     (if key item = k then map_option f (find (\<lambda>x. key x = k) xs) else find (\<lambda>x. key x = k) xs)"
  by (induction xs) (auto simp: list_store_def cmp_eq)

lemma find_replace:
  "find (\<lambda>x. key x = k) (list_store cmp item (\<lambda>_. item) xs) =
     (if key item = k then map_option (\<lambda>_. item) (find (\<lambda>x. key x = k) xs)
      else find (\<lambda>x. key x = k) xs)"
  by (induction xs) (auto simp: list_store_def cmp_eq)

lemma find_key_distinct:
  "sorted_wrt (<) (map key xs) \<Longrightarrow> d \<in> set xs \<Longrightarrow> find (\<lambda>x. key x = key d) xs = Some d"
  by (induction xs) auto

end

text \<open>
  The data field of a node, as the destructor finds it: an item, or memory that was never
  written.
\<close>

datatype 'b cell = Unset | Item 'b

section \<open>What every table promises\<close>

datatype 'a table_call = Insert 'a | Replace 'a | Delete 'a | Find 'a

text \<open>
  The reference: a map from keys to items.  An insertion answers with a duplicate other
  than the item itself.
\<close>

fun map_call ::
  "('a \<Rightarrow> 'k) \<Rightarrow> 'a table_call \<Rightarrow> ('k \<rightharpoonup> 'a) \<Rightarrow> 'a option \<times> ('k \<rightharpoonup> 'a)" where
  "map_call key (Insert x) m =
     (case m (key x) of None \<Rightarrow> (None, m(key x \<mapsto> x)) | Some y \<Rightarrow> (if y = x then None else Some y, m))"
| "map_call key (Replace x) m = (if m (key x) = Some x then None else m (key x), m(key x \<mapsto> x))"
| "map_call key (Delete x) m = (m (key x), m(key x := None))"
| "map_call key (Find x) m = (m (key x), m)"

fun map_run ::
  "('a \<Rightarrow> 'k) \<Rightarrow> 'a table_call list \<Rightarrow> ('k \<rightharpoonup> 'a) \<Rightarrow> 'a option list \<times> ('k \<rightharpoonup> 'a)" where
  "map_run key [] m = ([], m)"
| "map_run key (c # cs) m =
     (let (a, m) = map_call key c m; (as, m) = map_run key cs m in (a # as, m))"

text \<open>The map that a sequence of items represents.\<close>

definition item_map :: "('a \<Rightarrow> 'k) \<Rightarrow> 'a list \<Rightarrow> 'k \<Rightarrow> 'a option" where
  "item_map key xs k = find (\<lambda>x. key x = k) xs"

lemma item_map_Nil [simp]: "item_map key [] = Map.empty"
  by (simp add: item_map_def fun_eq_iff)

text \<open>
  The contract of a table: \<open>ok n t\<close> says that \<open>t\<close> is valid and has room for \<open>n\<close> more
  items.
\<close>

locale ordered_table = keyed key cmp
  for key :: "'a \<Rightarrow> 'k::linorder" and cmp :: "'a \<Rightarrow> 'a \<Rightarrow> int" +
  fixes ok :: "nat \<Rightarrow> 't \<Rightarrow> bool" and its :: "'t \<Rightarrow> 'a list"
    and ins rep del :: "'t \<Rightarrow> 'a \<Rightarrow> ('a option \<times> 't) outcome" and fnd :: "'t \<Rightarrow> 'a \<Rightarrow> 'a option"
  assumes less_room: "ok (Suc n) t \<Longrightarrow> ok n t"
    and items_ordered: "ok n t \<Longrightarrow> ordered cmp (its t)"
    and fnd_law: "ok n t \<Longrightarrow> fnd t x = list_find cmp x (its t)"
    and ins_new: "ok (Suc n) t \<Longrightarrow> list_find cmp x (its t) = None \<Longrightarrow>
      \<exists>t'. ins t x = Ok (None, t') \<and> ok n t' \<and> its t' = list_insert cmp x (its t)"
    and ins_duplicate: "ok (Suc n) t \<Longrightarrow> list_find cmp x (its t) = Some d \<Longrightarrow>
      \<exists>t'. ins t x = Ok (if d = x then None else Some d, t') \<and> ok n t' \<and> its t' = its t"
    and rep_new: "ok (Suc n) t \<Longrightarrow> list_find cmp x (its t) = None \<Longrightarrow>
      \<exists>t'. rep t x = Ok (None, t') \<and> ok n t' \<and> its t' = list_insert cmp x (its t)"
    and rep_duplicate: "ok (Suc n) t \<Longrightarrow> list_find cmp x (its t) = Some d \<Longrightarrow>
      \<exists>t'. rep t x = Ok (if d = x then None else Some d, t') \<and> ok n t' \<and>
        its t' = list_store cmp x (\<lambda>_. x) (its t)"
    and del_law: "ok (Suc n) t \<Longrightarrow>
      \<exists>t'. del t x = Ok (list_find cmp x (its t), t') \<and> ok n t' \<and> its t' = list_delete cmp x (its t)"

text \<open>A sequence of calls on a table with the given operations.\<close>

fun table_run ::
  "('t \<Rightarrow> 'a \<Rightarrow> ('a option \<times> 't) outcome) \<Rightarrow> ('t \<Rightarrow> 'a \<Rightarrow> ('a option \<times> 't) outcome) \<Rightarrow>
   ('t \<Rightarrow> 'a \<Rightarrow> ('a option \<times> 't) outcome) \<Rightarrow> ('t \<Rightarrow> 'a \<Rightarrow> 'a option) \<Rightarrow>
   'a table_call list \<Rightarrow> 't \<Rightarrow> ('a option list \<times> 't) outcome" where
  "table_run ins rep del fnd [] t = Ok ([], t)"
| "table_run ins rep del fnd (c # cs) t =
     obind
       (case c of
          Insert x \<Rightarrow> ins t x
        | Replace x \<Rightarrow> rep t x
        | Delete x \<Rightarrow> del t x
        | Find x \<Rightarrow> Ok (fnd t x, t))
       (\<lambda>(a, t). obind (table_run ins rep del fnd cs t) (\<lambda>(as, t). Ok (a # as, t)))"

context ordered_table
begin

text \<open>An ordered sequence is determined by the map it represents.\<close>

lemma items_of_map:
  assumes "ordered cmp xs" "ordered cmp ys" "item_map key xs = item_map key ys"
  shows "xs = ys"
proof -
  have self: "map (\<lambda>k. the (item_map key zs k)) (map key zs) = zs" if "ordered cmp zs" for zs
    using that find_key_distinct [of zs] by (auto simp: ordered_iff item_map_def intro: map_idI)
  have keys: "set (map key zs) = dom (item_map key zs)" for zs
    by (auto simp: item_map_def dom_def find_Some_iff2 find_None_iff)
  have "sorted (map key xs)" "distinct (map key xs)" "sorted (map key ys)" "distinct (map key ys)"
    using assms(1,2) by (simp_all add: ordered_iff strict_sorted_iff)
  then have "map key xs = map key ys"
    using sorted_distinct_set_unique [of "map key xs" "map key ys"] assms(3) keys by metis
  then show ?thesis using self [OF assms(1)] self [OF assms(2)] assms(3) by metis
qed

text \<open>The next item after one in an ordered sequence.\<close>

lemma find_next:
  assumes "ordered cmp (xs @ d # ys)"
  shows "find (\<lambda>z. key d < key z) (xs @ d # ys) = (case ys of [] \<Rightarrow> None | y # _ \<Rightarrow> Some y)"
proof -
  have "find (\<lambda>z. key d < key z) xs = None"
    using assms by (intro find_None_all) (auto simp: ordered_split dest: less_asym)
  then show ?thesis using assms by (cases ys) (auto simp: find_append ordered_split)
qed

lemma ran_item_map: "ordered cmp xs \<Longrightarrow> ran (item_map key xs) = set xs"
proof
  show "set xs \<subseteq> ran (item_map key xs)" if "ordered cmp xs"
    using that find_key_distinct by (fastforce simp: ordered_iff item_map_def ran_def)
qed (auto simp: ran_def item_map_def find_Some_iff)

lemma found_in_map: "list_find cmp x xs = item_map key xs (key x)"
  by (simp add: list_find_key item_map_def)

lemma map_of_insert:
  "list_find cmp x xs = None \<Longrightarrow> item_map key (list_insert cmp x xs) = (item_map key xs)(key x \<mapsto> x)"
  by (auto simp: item_map_def find_insert fun_eq_iff)

lemma map_of_store:
  "list_find cmp x xs = Some d \<Longrightarrow>
     item_map key (list_store cmp x (\<lambda>_. x) xs) = (item_map key xs)(key x \<mapsto> x)"
  by (auto simp: item_map_def find_replace list_find_key fun_eq_iff)

lemma map_of_delete: "item_map key (list_delete cmp x xs) = (item_map key xs)(key x := None)"
  by (auto simp: item_map_def find_delete fun_eq_iff)

lemma ins_call:
  assumes "ok (Suc n) t"
  shows "\<exists>a t'. ins t x = Ok (a, t') \<and> ok n t' \<and>
    map_call key (Insert x) (item_map key (its t)) = (a, item_map key (its t'))"
proof (cases "list_find cmp x (its t)")
  case None
  then show ?thesis using ins_new [OF assms None] by (auto simp: found_in_map map_of_insert)
next
  case (Some d)
  then show ?thesis using ins_duplicate [OF assms Some] by (auto simp: found_in_map)
qed

lemma rep_call:
  assumes "ok (Suc n) t"
  shows "\<exists>a t'. rep t x = Ok (a, t') \<and> ok n t' \<and>
    map_call key (Replace x) (item_map key (its t)) = (a, item_map key (its t'))"
proof (cases "list_find cmp x (its t)")
  case None
  then show ?thesis using rep_new [OF assms None] by (auto simp: found_in_map map_of_insert)
next
  case (Some d)
  then show ?thesis using rep_duplicate [OF assms Some] map_of_store [OF Some] by (auto simp: found_in_map)
qed

lemma del_call:
  assumes "ok (Suc n) t"
  shows "\<exists>a t'. del t x = Ok (a, t') \<and> ok n t' \<and>
    map_call key (Delete x) (item_map key (its t)) = (a, item_map key (its t'))"
  using del_law [OF assms, of x] by (auto simp: found_in_map map_of_delete)

lemma run_refines:
  assumes "ok (length cs) t"
  shows "\<exists>as t'. table_run ins rep del fnd cs t = Ok (as, t') \<and> ok 0 t' \<and>
    map_run key cs (item_map key (its t)) = (as, item_map key (its t'))"
  using assms
proof (induction cs arbitrary: t)
  case (Cons c cs)
  then have okt: "ok (Suc (length cs)) t" by simp
  obtain a t1 where s: "(case c of Insert x \<Rightarrow> ins t x | Replace x \<Rightarrow> rep t x | Delete x \<Rightarrow> del t x
      | Find x \<Rightarrow> Ok (fnd t x, t)) = Ok (a, t1)" "ok (length cs) t1"
    "map_call key c (item_map key (its t)) = (a, item_map key (its t1))"
  proof (cases c)
    case (Insert x)
    then show ?thesis using ins_call [OF okt, of x] that by auto
  next
    case (Replace x)
    then show ?thesis using rep_call [OF okt, of x] that by auto
  next
    case (Delete x)
    then show ?thesis using del_call [OF okt, of x] that by auto
  next
    case (Find x)
    then show ?thesis using fnd_law [OF okt, of x] less_room [OF okt] that by (simp add: found_in_map)
  qed
  then show ?case using Cons.IH [OF s(2)] by auto
qed simp

end

end
