(* ===== verification/RB_Table.thy ===== *)
theory RB_Table
  imports RB_Shape Items
begin

text \<open>
  The table operations of \<open>rb.c\<close> as operations on an ordered sequence of items and on
  a map from keys to items, for the comparison functions that satisfy the locale \<open>keyed\<close> of
  \<open>Items\<close>.
\<close>

section \<open>Valid tables\<close>

definition items :: "'a rb_table \<Rightarrow> 'a list" where
  "items tree = inorder (rb_root tree)"

definition rb_valid :: "'a rb_table \<Rightarrow> bool" where
  "rb_valid tree \<longleftrightarrow> rb_inv (rb_root tree) \<and> ordered (rb_compare tree) (items tree) \<and>
     rb_count tree = of_nat (length (items tree))"

text \<open>
  The size up to which \<open>RB_MAX_HEIGHT\<close> entries are enough for the stacks of the code.
\<close>

definition rb_roomy :: "'a rb_table \<Rightarrow> bool" where
  "rb_roomy tree \<longleftrightarrow> Suc (length (items tree)) < 2 ^ 24"

text \<open>The table as a map from keys to items.\<close>

definition table_map :: "('a \<Rightarrow> 'k) \<Rightarrow> 'a rb_table \<Rightarrow> 'k \<Rightarrow> 'a option" where
  "table_map key tree k = find (\<lambda>x. key x = k) (items tree)"

definition rb_for :: "('a \<Rightarrow> 'a \<Rightarrow> int) \<Rightarrow> 'a rb_table \<Rightarrow> bool" where
  "rb_for cmp tree \<longleftrightarrow> rb_valid tree \<and> rb_compare tree = cmp"

lemma rb_forD:
  assumes "rb_for cmp t"
  shows "rb_compare t = cmp" "rb_inv (rb_root t)" "ordered cmp (items t)"
    "ordered cmp (inorder (rb_root t))" "rb_count t = of_nat (length (items t))"
  using assms by (auto simp: rb_for_def rb_valid_def items_def)

context keyed
begin

lemma find_node_correct:
  "ordered cmp (inorder t) \<Longrightarrow> rb_find_node cmp item t = list_find cmp item (inorder t)"
proof (induction t)
  case (Node l x c r)
  then have o: "ordered cmp (inorder l)" "ordered cmp (inorder r)"
    "\<forall>y\<in>set (inorder l). key y < key x" "\<forall>y\<in>set (inorder r). key x < key y"
    by (auto simp: ordered_split)
  consider "key item < key x" | "key item = key x" | "key x < key item"
    by (metis linorder_neqE)
  then show ?case
  proof cases
    case 1
    then have "find (\<lambda>y. cmp item y = 0) (x # inorder r) = None"
      using o by (intro find_None_all) (auto simp: cmp_eq)
    then show ?thesis using Node.IH(1) o 1
      by (auto simp: list_find_def find_append cmp_less Let_def split: option.splits)
  next
    case 2
    then have "find (\<lambda>y. cmp item y = 0) (inorder l) = None"
      using o by (intro find_None_all) (auto simp: cmp_eq)
    then show ?thesis using 2
      by (auto simp: list_find_def find_append cmp_less cmp_greater cmp_eq Let_def)
  next
    case 3
    then have "find (\<lambda>y. cmp item y = 0) (inorder l) = None"
      using o by (intro find_None_all) (auto simp: cmp_eq dest: less_trans)
    then show ?thesis using Node.IH(2) o 3
      by (auto simp: list_find_def find_append cmp_less cmp_greater cmp_eq Let_def)
  qed
qed (simp add: list_find_def)

lemma store_node_correct:
  "ordered cmp (inorder t) \<Longrightarrow>
     inorder (rb_store_node cmp item f t) = list_store cmp item f (inorder t)"
proof (induction t)
  case (Node l x c r)
  then have o: "ordered cmp (inorder l)" "ordered cmp (inorder r)"
    "\<forall>y\<in>set (inorder l). key y < key x" "\<forall>y\<in>set (inorder r). key x < key y"
    by (auto simp: ordered_split)
  have id: "list_store cmp item f ys = ys" if "\<forall>y\<in>set ys. key item \<noteq> key y" for ys
    using that by (auto simp: list_store_def cmp_eq intro: map_idI)
  consider "key item < key x" | "key item = key x" | "key x < key item"
    by (metis linorder_neqE)
  then show ?case
  proof cases
    case 1
    then have "\<forall>y\<in>set (inorder r). key item \<noteq> key y" using o(4) by (metis less_asym)
    then show ?thesis using Node.IH(1) o 1 id [of "inorder r"]
      by (auto simp: list_store_def cmp_less cmp_eq Let_def)
  next
    case 2
    then have "\<forall>y\<in>set (inorder l). key item \<noteq> key y" "\<forall>y\<in>set (inorder r). key item \<noteq> key y"
      using o(3,4) by (metis less_irrefl)+
    then show ?thesis using 2 o id [of "inorder r"] id [of "inorder l"]
      by (auto simp: list_store_def cmp_less cmp_greater cmp_eq Let_def)
  next
    case 3
    then have "\<forall>y\<in>set (inorder l). key item \<noteq> key y" using o(3) by (metis less_asym)
    then show ?thesis using Node.IH(2) o 3 id [of "inorder l"]
      by (auto simp: list_store_def cmp_less cmp_greater cmp_eq Let_def)
  qed
qed (simp add: list_store_def)

text \<open>Where the descent stops: everything before the hole is smaller, everything after larger.\<close>

lemma descend_between:
  assumes "rb_descend cmp item t pa = Ok s" and "ordered cmp (inorder (plug t pa))"
    and "\<forall>y\<in>set (before pa). cmp item y > 0" and "\<forall>y\<in>set (after pa). cmp item y < 0"
  shows "(case s of
      Slot pb \<Rightarrow> (\<forall>y\<in>set (before pb). cmp item y > 0) \<and> (\<forall>y\<in>set (after pb). cmp item y < 0)
    | Found pb n \<Rightarrow> (\<forall>y\<in>set (before pb). cmp item y > 0) \<and> (\<forall>y\<in>set (after pb). cmp item y < 0))"
  using assms
proof (induction t arbitrary: pa)
  case (Node l x c r)
  note prems = Node.prems
  have o: "\<forall>y\<in>set (inorder l). key y < key x" "\<forall>y\<in>set (inorder r). key x < key y"
    using prems(2) by (auto simp: inorder_plug ordered_append ordered_Cons)
  consider "key item < key x" | "key item = key x" | "key x < key item"
    by (metis linorder_neqE)
  then show ?case
  proof cases
    case 1
    then have k: "cmp item x < 0" "cmp item x \<noteq> 0" "\<not> 0 < cmp item x"
      by (auto simp: cmp_less [symmetric])
    have "\<forall>y\<in>set (inorder r). cmp item y < 0" using o(2) 1 by (auto simp: cmp_less)
    then show ?thesis using Node.IH(1) [of "Frame False x c r # pa"] prems k
      by (auto simp: Let_def split: if_splits)
  next
    case 2
    then show ?thesis using prems by (auto simp: Let_def cmp_eq)
  next
    case 3
    then have k: "\<not> cmp item x < 0" "cmp item x \<noteq> 0" "0 < cmp item x"
      by (auto simp: cmp_greater [symmetric])
    have "\<forall>y\<in>set (inorder l). cmp item y > 0" using o(1) 3 by (auto simp: cmp_greater)
    then show ?thesis using Node.IH(2) [of "Frame True x c l # pa"] prems k
      by (auto simp: Let_def split: if_splits)
  qed
qed auto

lemma descend_cases:
  assumes "rb_for cmp t" and "rb_roomy t"
  obtains
    (slot) pa where "rb_descend cmp item (rb_root t) [] = Ok (Slot pa)"
      "plug Null pa = rb_root t" "items t = before pa @ after pa"
      "\<forall>y\<in>set (before pa). cmp item y > 0" "\<forall>y\<in>set (after pa). cmp item y < 0"
      "list_find cmp item (items t) = None"
  | (found) pa l d c r where "rb_descend cmp item (rb_root t) [] = Ok (Found pa (Node l d c r))"
      "plug (Node l d c r) pa = rb_root t" "cmp item d = 0"
      "items t = (before pa @ inorder l) @ d # (inorder r @ after pa)"
      "length pa + rb_height (Node l d c r) \<le> 46"
      "ordered cmp ((before pa @ inorder l) @ d # (inorder r @ after pa))"
      "list_find cmp item (items t) = Some d"
proof -
  have h: "rb_height (rb_root t) \<le> 46"
    using assms height_bound [of "rb_root t"] by (auto simp: rb_for_def rb_valid_def rb_roomy_def items_def)
  then obtain s where s: "rb_descend cmp item (rb_root t) [] = Ok s"
    using descend_total [of "[]" "rb_root t" cmp item] by (auto simp: RB_MAX_HEIGHT_def)
  have o: "ordered cmp (inorder (rb_root t))"
    using assms(1) by (auto simp: rb_for_def rb_valid_def items_def)
  note between = descend_between [OF s, simplified, OF o]
  show thesis
  proof (cases s)
    case (Slot pa)
    then have pl: "plug Null pa = rb_root t" using s descend_plug(1) by fastforce
    then have it: "items t = before pa @ after pa" using inorder_plug [of Null pa] by (simp add: items_def)
    have b: "\<forall>y\<in>set (before pa). cmp item y > 0" "\<forall>y\<in>set (after pa). cmp item y < 0"
      using Slot between by auto
    show thesis using Slot s pl it b list_find_slot [OF b] by (intro slot) simp_all
  next
    case (Found pa n)
    then have n: "plug n pa = rb_root t" "n \<noteq> Null" "cmp item (rb_data n) = 0"
      using s descend_plug(2) by fastforce+
    then obtain l d c r where nd: "n = Node l d c r" by (cases n) auto
    then have it: "items t = (before pa @ inorder l) @ d # (inorder r @ after pa)"
      using n inorder_plug [of n pa] by (simp add: items_def)
    then have o': "ordered cmp ((before pa @ inorder l) @ d # (inorder r @ after pa))"
      using o by (simp add: items_def)
    have d: "cmp item d = 0" using n nd by simp
    show thesis
      using n nd d Found s height_plug [of pa n] h it o' list_find_mid [OF o' d] by (intro found) simp_all
  qed
qed

subsection \<open>Insertion\<close>

lemma probe_new:
  assumes "rb_for cmp t" "rb_roomy t" "list_find cmp item (items t) = None"
  shows "\<exists>t'. rb_probe True t item = Ok (New_slot, t') \<and> rb_for cmp t' \<and>
      items t' = list_insert cmp item (items t) \<and> rb_generation t' = rb_generation t + 1"
  using assms(1,2)
proof (cases rule: descend_cases [where item = item])
  case (slot pa)
  have "path_inv pa 0"
    using assms(1) slot rb_inv_plug [of Null pa] by (auto simp: rb_for_def rb_valid_def)
  then obtain r where r: "rb_insert_fix (Node Null item RB_RED Null) pa = Ok r"
    "rb_inv (set_color RB_BLACK r)"
    using insert_fix_inv [of pa "Node Null item RB_RED Null"] by auto
  let ?t' = "t\<lparr>rb_root := set_color RB_BLACK r, rb_count := rb_count t + 1,
    rb_generation := rb_generation t + 1\<rparr>"
  have it: "items ?t' = list_insert cmp item (items t)"
    using inorder_insert_fix [OF r(1)] slot list_insert_split [of "before pa" cmp item "after pa"] by (simp add: items_def)
  have "rb_count ?t' = of_nat (length (items ?t'))"
    using assms length_list_insert [OF assms(3)] unfolding it
    by (simp add: rb_for_def rb_valid_def)
  moreover have "ordered cmp (items ?t')"
    unfolding it using assms(1) by (intro ordered_list_insert) (auto simp: rb_for_def rb_valid_def)
  ultimately show ?thesis using r slot assms(1) it
    by (auto simp: rb_probe_def rb_for_def rb_valid_def)
next
  case (found pa l d c r)
  then show ?thesis using assms(3) by simp
qed

lemma probe_no_memory:
  assumes "rb_for cmp t" "rb_roomy t" "list_find cmp item (items t) = None"
  shows "rb_probe False t item = Ok (No_memory, t)"
  using assms(1,2)
proof (cases rule: descend_cases [where item = item])
  case (slot pa)
  then show ?thesis using assms(1) by (auto simp: rb_probe_def rb_for_def)
next
  case (found pa l d c r)
  then show ?thesis using assms(3) by simp
qed

lemma probe_duplicate:
  assumes "rb_for cmp t" "rb_roomy t" "list_find cmp item (items t) = Some d"
  shows "\<exists>pa l c r. rb_probe alloc t item = Ok (Duplicate pa (Node l d c r), t) \<and>
    plug (Node l d c r) pa = rb_root t \<and> cmp item d = 0"
  using assms(1,2)
proof (cases rule: descend_cases [where item = item])
  case (slot pa)
  then show ?thesis using assms(3) by simp
next
  case (found pa l e c r)
  then have "e = d" using assms(3) by simp
  then show ?thesis using found assms(1) by (auto simp: rb_probe_def rb_for_def)
qed

lemma insert_new:
  assumes "rb_for cmp t" "rb_roomy t" "list_find cmp item (items t) = None"
  shows "\<exists>t'. rb_insert True t item = Ok (None, t') \<and> rb_for cmp t' \<and>
      items t' = list_insert cmp item (items t)"
  using probe_new [OF assms] by (auto simp: rb_insert_def)

lemma insert_duplicate:
  assumes "rb_for cmp t" "rb_roomy t" "list_find cmp item (items t) = Some d"
  shows "rb_insert alloc t item = Ok (if d = item then None else Some d, t)"
  using probe_duplicate [OF assms, of alloc] by (auto simp: rb_insert_def)

subsection \<open>Replacement\<close>

lemma replace_duplicate:
  assumes "rb_for cmp t" "rb_roomy t" "list_find cmp item (items t) = Some d"
  shows "\<exists>t'. rb_replace alloc t item = Ok (if d = item then None else Some d, t') \<and> rb_for cmp t' \<and>
      items t' = list_store cmp item (\<lambda>_. item) (items t)"
proof -
  obtain pa l c r where p: "rb_probe alloc t item = Ok (Duplicate pa (Node l d c r), t)"
    "plug (Node l d c r) pa = rb_root t" and d: "cmp item d = 0"
    using probe_duplicate [OF assms, of alloc] by auto
  let ?xs = "before pa @ inorder l" and ?ys = "inorder r @ after pa"
  have it: "items t = ?xs @ d # ?ys"
    using p(2) inorder_plug [of "Node l d c r" pa] by (simp add: items_def)
  have o: "ordered cmp (?xs @ d # ?ys)" and inv: "rb_inv (plug (Node l d c r) pa)"
    and cnt: "rb_count t = of_nat (length (items t))"
    using assms(1) it p(2) by (auto simp: rb_for_def rb_valid_def)
  have st: "list_store cmp item (\<lambda>_. item) (?xs @ d # ?ys) = ?xs @ item # ?ys"
    using list_store_mid [OF o d] .
  show ?thesis
  proof (cases "d = item")
    case True
    then show ?thesis using p it st assms(1) by (auto simp: rb_replace_def)
  next
    case False
    have o': "ordered cmp (?xs @ item # ?ys)" using o d by (simp add: ordered_append ordered_Cons cmp_eq)
    have inv': "rb_inv (plug (Node l item c r) pa)" using inv by (simp add: rb_inv_plug)
    show ?thesis using p it st o' inv' assms(1) False cnt
      by (auto simp: rb_replace_def rb_for_def rb_valid_def items_def inorder_plug)
  qed
qed

subsection \<open>Deletion\<close>

lemma delete_absent:
  assumes "rb_for cmp t" "rb_roomy t" "list_find cmp item (items t) = None"
  shows "rb_delete t item = Ok (None, t)"
  using assms(1,2)
proof (cases rule: descend_cases [where item = item])
  case (slot pa)
  then show ?thesis using assms(1) by (auto simp: rb_delete_def rb_for_def delete_search_descend)
next
  case (found pa l d c r)
  then show ?thesis using assms(3) by simp
qed

lemma delete_present:
  assumes "rb_for cmp t" "rb_roomy t" "list_find cmp item (items t) = Some d"
  shows "\<exists>t'. rb_delete t item = Ok (Some d, t') \<and> rb_for cmp t' \<and>
      items t' = list_delete cmp item (items t)"
  using assms(1,2)
proof (cases rule: descend_cases [where item = item])
  case (slot pa)
  then show ?thesis using assms(3) by simp
next
  case (found pa l e c r)
  let ?xs = "before pa @ inorder l" and ?ys = "inorder r @ after pa" and ?p = "Node l e c r"
  note o = found(6)
  have inv: "rb_inv (plug ?p pa)"
    and cnt: "rb_count t = of_nat (length (items t))" and cmp: "rb_compare t = cmp"
    using assms(1) found(2) by (simp_all add: rb_for_def rb_valid_def)
  have e: "e = d" using assms(3) found(7) by simp
  obtain x pb b where u: "rb_unlink ?p pa = Ok (x, pb, b)" and post: "unlink_post ?p pa (x, pb, b)"
    using unlink_ok [of ?p pa] found(5) by (auto simp: RB_MAX_HEIGHT_def)
  obtain root where root: "(if b = RB_BLACK then rb_delete_fix x pb else Ok (plug x pb)) = Ok root"
    "rb_inv root" "inorder root = ?xs @ ?ys"
  proof (cases b)
    case RB_BLACK
    then show thesis using that delete_fix_ok [of pb x] post inv found(5)
      by (auto simp: unlink_post_def)
  next
    case RB_RED
    then show thesis using that [of "plug x pb"] post inv by (auto simp: unlink_post_def rb_simps)
  qed
  let ?t' = "t\<lparr>rb_root := root, rb_count := rb_count t - 1, rb_generation := rb_generation t + 1\<rparr>"
  have "rb_delete t item = Ok (Some d, ?t')"
    using found(1) u root(1) cmp e by (simp add: rb_delete_def delete_search_descend)
  moreover have it: "items ?t' = list_delete cmp item (items t)"
    using root(3) list_delete_mid [OF o found(3)] found(4) by (simp add: items_def)
  moreover have "rb_for cmp ?t'"
    using root o found(4) cnt cmp by (auto simp: rb_for_def rb_valid_def items_def ordered_append ordered_Cons)
  ultimately show ?thesis by blast
qed

end

section \<open>Stores through a found item\<close>

lemma store_node_shape:
  "bheight (rb_store_node cmp item f t) = bheight t"
  "is_red (rb_store_node cmp item f t) = is_red t"
  by (induction t) (auto simp: Let_def)

lemma store_node_inv:
  "invc t \<Longrightarrow> invc (rb_store_node cmp item f t)"
  "invh t \<Longrightarrow> invh (rb_store_node cmp item f t)"
  by (induction t) (auto simp: Let_def store_node_shape)

context keyed
begin

lemma store_ok:
  assumes t: "rb_for cmp t" and f: "\<And>x. key (f x) = key x"
  shows "rb_for cmp (rb_store t item f)" and "items (rb_store t item f) = list_store cmp item f (items t)"
proof -
  have it: "items (rb_store t item f) = list_store cmp item f (items t)"
    using rb_forD [OF t] store_node_correct [of "rb_root t" item f]
    by (simp add: items_def rb_store_def)
  have "map key (list_store cmp item f xs) = map key xs" for xs
    using f by (simp add: list_store_def)
  then have "ordered cmp (list_store cmp item f (items t)) = ordered cmp (items t)"
    by (simp only: ordered_iff)
  then show "rb_for cmp (rb_store t item f)"
    using t it by (auto simp: rb_for_def rb_valid_def rb_inv_def store_node_shape store_node_inv
        rb_store_def items_def list_store_def)
  show "items (rb_store t item f) = list_store cmp item f (items t)" by (rule it)
qed

section \<open>Tables as maps\<close>

lemma find_map: "rb_for cmp t \<Longrightarrow> rb_find t item = table_map key t (key item)"
  using find_node_correct [of "rb_root t" item] rb_forD [of cmp t]
  by (simp add: rb_find_def table_map_def list_find_key items_def)

lemma list_find_map: "list_find cmp item (items t) = table_map key t (key item)"
  by (simp add: table_map_def list_find_key)

lemma insert_map:
  assumes "rb_for cmp t" "rb_roomy t" "table_map key t (key item) = None"
  shows "\<exists>t'. rb_insert True t item = Ok (None, t') \<and> rb_for cmp t' \<and>
      table_map key t' = (table_map key t)(key item \<mapsto> item) \<and>
      items t' = list_insert cmp item (items t)"
  using insert_new [of t item] assms find_insert [of item "items t"]
  by (auto simp: list_find_map table_map_def fun_eq_iff)

lemma delete_map:
  assumes "rb_for cmp t" "rb_roomy t"
  shows "\<exists>t'. rb_delete t item = Ok (table_map key t (key item), t') \<and> rb_for cmp t' \<and>
      table_map key t' = (table_map key t)(key item := None) \<and>
      items t' = list_delete cmp item (items t)"
proof (cases "table_map key t (key item)")
  case None
  then have "list_delete cmp item (items t) = items t"
    using find_None_iff [of _ "items t"]
    by (auto simp: list_delete_def cmp_eq table_map_def intro!: filter_True)
  then show ?thesis using None assms delete_absent [of t item]
    by (auto simp: list_find_map fun_eq_iff)
next
  case (Some d)
  then show ?thesis using assms delete_present [of t item d] find_delete [of _ item "items t"]
    by (auto simp: list_find_map table_map_def fun_eq_iff)
qed

lemma store_map:
  assumes "rb_for cmp t" and "\<And>x. key (f x) = key x"
  shows "table_map key (rb_store t item f) =
      (table_map key t)(key item := map_option f (table_map key t (key item)))"
  using store_ok(2) [OF assms, of item] find_store [OF assms(2), of _ item "items t"]
  by (auto simp: table_map_def fun_eq_iff)

lemma key_of_found: "table_map key t k = Some d \<Longrightarrow> key d = k"
  by (auto simp: table_map_def find_Some_iff)

lemma map_of_item: "rb_for cmp t \<Longrightarrow> d \<in> set (items t) \<Longrightarrow> table_map key t (key d) = Some d"
  using find_key_distinct [of "items t" d] rb_forD(3) [of cmp t]
  by (simp add: table_map_def ordered_iff)

lemma map_item: "table_map key t k = Some d \<Longrightarrow> d \<in> set (items t)"
  by (auto simp: table_map_def find_Some_iff)

end

end
