(* ===== verification/RB_Traverse.thy ===== *)
theory RB_Traverse
  imports RB_Table
begin

text \<open>
  The traversers of \<open>rb.c\<close> and the destruction of a table.

  A traverser names a node and the stack of nodes above it (\<open>rb_stack\<close> with
  \<open>rb_height\<close> entries).  In the model it holds the subtree of its node and the frames
  above it; \<open>t_node = Null\<close> is the null node.  The code compares node pointers, which
  is comparing the direction of a frame with the link it is about, since a node hangs
  on one link only; \<^verbatim>\<open>trav_refresh\<close> finds its node again by the item it holds.
\<close>

section \<open>Traversers\<close>

record 'a rb_traverser =
  t_node :: "'a rb_node"
  t_stack :: "'a frame list"
  t_generation :: "64 word"

fun node_item :: "'a rb_node \<Rightarrow> 'a option" where
  "node_item Null = None"
| "node_item (Node l x c r) = Some x"

definition rb_t_init :: "'a rb_table \<Rightarrow> 'a rb_traverser" where
  "rb_t_init tree = \<lparr>t_node = Null, t_stack = [], t_generation = rb_generation tree\<rparr>"

text \<open>
  The loop \<open>while (x->rb_link[d] != NULL)\<close> shared by \<^verbatim>\<open>rb_t_first\<close>, \<^verbatim>\<open>rb_t_last\<close>,
  \<^verbatim>\<open>rb_t_next\<close> and \<^verbatim>\<open>rb_t_prev\<close>, with its assertion.
\<close>

fun rb_walk :: "bool \<Rightarrow> 'a rb_node \<Rightarrow> 'a frame list \<Rightarrow> ('a rb_node \<times> 'a frame list) outcome" where
  "rb_walk d Null st = Ok (Null, st)"
| "rb_walk False (Node l x c r) st =
     (if l = Null then Ok (Node l x c r, st)
      else if RB_MAX_HEIGHT \<le> length st then Fault Assertion_failed
      else rb_walk False l (Frame False x c r # st))"
| "rb_walk True (Node l x c r) st =
     (if r = Null then Ok (Node l x c r, st)
      else if RB_MAX_HEIGHT \<le> length st then Fault Assertion_failed
      else rb_walk True r (Frame True x c l # st))"

definition rb_t_first :: "'a rb_table \<Rightarrow> ('a option \<times> 'a rb_traverser) outcome" where
  "rb_t_first tree =
     obind (rb_walk False (rb_root tree) [])
       (\<lambda>(x, st). Ok (node_item x,
          \<lparr>t_node = x, t_stack = st, t_generation = rb_generation tree\<rparr>))"

definition rb_t_last :: "'a rb_table \<Rightarrow> ('a option \<times> 'a rb_traverser) outcome" where
  "rb_t_last tree =
     obind (rb_walk True (rb_root tree) [])
       (\<lambda>(x, st). Ok (node_item x,
          \<lparr>t_node = x, t_stack = st, t_generation = rb_generation tree\<rparr>))"

fun rb_t_find_loop ::
  "('a \<Rightarrow> 'a \<Rightarrow> int) \<Rightarrow> 'a \<Rightarrow> 'a rb_node \<Rightarrow> 'a frame list \<Rightarrow> ('a rb_node \<times> 'a frame list) outcome" where
  "rb_t_find_loop cmp item Null st = Ok (Null, [])"
| "rb_t_find_loop cmp item (Node l x c r) st =
     (let k = cmp item x in
      if k = 0 then Ok (Node l x c r, st)
      else if RB_MAX_HEIGHT \<le> length st then Fault Assertion_failed
      else if k < 0 then rb_t_find_loop cmp item l (Frame False x c r # st)
      else rb_t_find_loop cmp item r (Frame True x c l # st))"

definition rb_t_find :: "'a rb_table \<Rightarrow> 'a \<Rightarrow> ('a option \<times> 'a rb_traverser) outcome" where
  "rb_t_find tree item =
     obind (rb_t_find_loop (rb_compare tree) item (rb_root tree) [])
       (\<lambda>(x, st). Ok (node_item x,
          \<lparr>t_node = x, t_stack = st, t_generation = rb_generation tree\<rparr>))"

text \<open>\<^verbatim>\<open>trav_refresh\<close>: walk from the root to the traverser's node, comparing items.\<close>

fun rb_refresh_loop ::
  "('a \<Rightarrow> 'a \<Rightarrow> int) \<Rightarrow> 'a \<Rightarrow> 'a rb_node \<Rightarrow> 'a frame list \<Rightarrow> ('a rb_node \<times> 'a frame list) outcome" where
  "rb_refresh_loop cmp item Null st = Fault Assertion_failed"
| "rb_refresh_loop cmp item (Node l x c r) st =
     (if x = item then Ok (Node l x c r, st)
      else if RB_MAX_HEIGHT \<le> length st then Fault Assertion_failed
      else if cmp item x > 0 then rb_refresh_loop cmp item r (Frame True x c l # st)
      else rb_refresh_loop cmp item l (Frame False x c r # st))"

definition trav_refresh :: "'a rb_table \<Rightarrow> 'a rb_traverser \<Rightarrow> 'a rb_traverser outcome" where
  "trav_refresh tree trav =
     (case t_node trav of
        Null \<Rightarrow> Ok (trav\<lparr>t_generation := rb_generation tree\<rparr>)
      | Node _ item _ _ \<Rightarrow>
          obind (rb_refresh_loop (rb_compare tree) item (rb_root tree) [])
            (\<lambda>(x, st). Ok \<lparr>t_node = x, t_stack = st, t_generation = rb_generation tree\<rparr>))"

text \<open>The \<open>do \<dots> while (y == x->rb_link[d])\<close> loop: climb while coming from side \<open>d\<close>.\<close>

fun rb_climb :: "bool \<Rightarrow> 'a rb_node \<Rightarrow> 'a frame list \<Rightarrow> 'a rb_node \<times> 'a frame list" where
  "rb_climb d y [] = (Null, [])"
| "rb_climb d y (Frame e x c o' # st) =
     (if e = d then rb_climb d (mk_node e y x c o') st else (mk_node e y x c o', st))"

definition rb_t_next :: "'a rb_table \<Rightarrow> 'a rb_traverser \<Rightarrow> ('a option \<times> 'a rb_traverser) outcome" where
  "rb_t_next tree trav =
     obind (if t_generation trav \<noteq> rb_generation tree then trav_refresh tree trav else Ok trav)
       (\<lambda>trav. case t_node trav of
          Null \<Rightarrow> rb_t_first tree
        | Node l x c r \<Rightarrow>
            if r \<noteq> Null then
              (if RB_MAX_HEIGHT \<le> length (t_stack trav) then Fault Assertion_failed
               else obind (rb_walk False r (Frame True x c l # t_stack trav))
                 (\<lambda>(y, st). Ok (node_item y, trav\<lparr>t_node := y, t_stack := st\<rparr>)))
            else
              (let (y, st) = rb_climb True (Node l x c r) (t_stack trav)
               in Ok (node_item y, trav\<lparr>t_node := y, t_stack := st\<rparr>)))"

definition rb_t_prev :: "'a rb_table \<Rightarrow> 'a rb_traverser \<Rightarrow> ('a option \<times> 'a rb_traverser) outcome" where
  "rb_t_prev tree trav =
     obind (if t_generation trav \<noteq> rb_generation tree then trav_refresh tree trav else Ok trav)
       (\<lambda>trav. case t_node trav of
          Null \<Rightarrow> rb_t_last tree
        | Node l x c r \<Rightarrow>
            if l \<noteq> Null then
              (if RB_MAX_HEIGHT \<le> length (t_stack trav) then Fault Assertion_failed
               else obind (rb_walk True l (Frame False x c r # t_stack trav))
                 (\<lambda>(y, st). Ok (node_item y, trav\<lparr>t_node := y, t_stack := st\<rparr>)))
            else
              (let (y, st) = rb_climb False (Node l x c r) (t_stack trav)
               in Ok (node_item y, trav\<lparr>t_node := y, t_stack := st\<rparr>)))"

definition rb_t_cur :: "'a rb_traverser \<Rightarrow> 'a option" where
  "rb_t_cur trav = node_item (t_node trav)"

text \<open>
  \<^verbatim>\<open>rb_t_replace\<close> writes through the node pointer.  When the table has changed since the
  traverser was positioned its stack is out of date, and the node is found from the root.
\<close>

definition rb_t_replace ::
  "'a rb_table \<Rightarrow> 'a rb_traverser \<Rightarrow> 'a \<Rightarrow> ('a \<times> 'a rb_table \<times> 'a rb_traverser) outcome" where
  "rb_t_replace tree trav new =
     (case t_node trav of
        Null \<Rightarrow> Fault Assertion_failed
      | Node _ old _ _ \<Rightarrow>
          (case (if t_generation trav \<noteq> rb_generation tree
                 then rb_refresh_loop (rb_compare tree) old (rb_root tree) []
                 else Ok (t_node trav, t_stack trav)) of
             Ok (x, st) \<Rightarrow>
               Ok (old, tree\<lparr>rb_root := plug (set_data new x) st\<rparr>,
                   trav\<lparr>t_node := set_data new (t_node trav)\<rparr>)
           | _ \<Rightarrow> Fault Dangling_pointer))"

text \<open>A client loop over a whole table, as the users of a traverser write it.\<close>

fun rb_collect :: "nat \<Rightarrow> 'a rb_table \<Rightarrow> 'a rb_traverser \<Rightarrow> 'a list outcome" where
  "rb_collect 0 tree trav = Ok []"
| "rb_collect (Suc n) tree trav =
     obind (rb_t_next tree trav)
       (\<lambda>(x, trav). case x of None \<Rightarrow> Ok [] | Some y \<Rightarrow>
          obind (rb_collect n tree trav) (\<lambda>ys. Ok (y # ys)))"

section \<open>Destruction\<close>

text \<open>
  \<^verbatim>\<open>rb_destroy\<close> rotates left links away until the root has none, hands the root's item to
  \<open>destroy\<close> and goes on with the right subtree.  The result is the sequence of items
  handed over.
\<close>

function rb_destroy_loop :: "'a rb_node \<Rightarrow> 'a list" where
  "rb_destroy_loop Null = []"
| "rb_destroy_loop (Node Null x c r) = x # rb_destroy_loop r"
| "rb_destroy_loop (Node (Node ql qx qc qr) x c r) =
     rb_destroy_loop (Node ql qx qc (Node qr x c r))"
  by pat_completeness auto
termination
  by (relation "measures [size, \<lambda>t. size (link0 t)]") auto

definition rb_destroy :: "'a rb_table \<Rightarrow> 'a list" where
  "rb_destroy tree = rb_destroy_loop (rb_root tree)"

lemma destroy_inorder: "rb_destroy_loop t = inorder t"
  by (induction t rule: rb_destroy_loop.induct) auto

section \<open>Position of a traverser\<close>

text \<open>\<open>trav_at tree trav xs d ys\<close>: the traverser stands on \<open>d\<close>, between \<open>xs\<close> and \<open>ys\<close>.\<close>

definition cursor :: "'a rb_node \<Rightarrow> 'a frame list \<Rightarrow> 'a rb_node \<Rightarrow> 'a list \<Rightarrow> 'a \<Rightarrow> 'a list \<Rightarrow> bool" where
  "cursor root st t xs d ys \<longleftrightarrow> (\<exists>l c r. t = Node l d c r \<and> plug t st = root \<and>
     xs = before st @ inorder l \<and> ys = inorder r @ after st)"

definition trav_at :: "'a rb_table \<Rightarrow> 'a rb_traverser \<Rightarrow> 'a list \<Rightarrow> 'a \<Rightarrow> 'a list \<Rightarrow> bool" where
  "trav_at tree trav xs d ys \<longleftrightarrow> t_generation trav = rb_generation tree \<and>
     cursor (rb_root tree) (t_stack trav) (t_node trav) xs d ys"

lemma trav_at_items: "trav_at tree trav xs d ys \<Longrightarrow> items tree = xs @ d # ys"
proof -
  assume "trav_at tree trav xs d ys"
  then obtain l c r where "plug (Node l d c r) (t_stack trav) = rb_root tree"
    "xs = before (t_stack trav) @ inorder l" "ys = inorder r @ after (t_stack trav)"
    by (auto simp: trav_at_def cursor_def)
  then show ?thesis using inorder_plug [of "Node l d c r" "t_stack trav"] by (simp add: items_def)
qed

lemma cursor_height: "cursor root st t xs d ys \<Longrightarrow> length st + rb_height t \<le> rb_height root"
  using height_plug [of st t] by (auto simp: cursor_def)

lemma walk_left:
  "t \<noteq> Null \<Longrightarrow> length st + rb_height t \<le> RB_MAX_HEIGHT \<Longrightarrow>
     \<exists>d c r st'. rb_walk False t st = Ok (Node Null d c r, st') \<and>
       plug (Node Null d c r) st' = plug t st \<and> before st' = before st \<and>
       d # inorder r @ after st' = inorder t @ after st"
proof (induction t arbitrary: st)
  case (Node l x c r)
  show ?case
  proof (cases "l = Null")
    case False
    then have "rb_height l > 0" by (cases l) auto
    then show ?thesis
      using Node.IH(1) [of "Frame False x c r # st"] Node.prems False by auto
  qed auto
qed simp

lemma walk_right:
  "t \<noteq> Null \<Longrightarrow> length st + rb_height t \<le> RB_MAX_HEIGHT \<Longrightarrow>
     \<exists>l d c st'. rb_walk True t st = Ok (Node l d c Null, st') \<and>
       plug (Node l d c Null) st' = plug t st \<and> after st' = after st \<and>
       before st' @ inorder l @ [d] = before st @ inorder t"
proof (induction t arbitrary: st)
  case (Node l x c r)
  show ?case
  proof (cases "r = Null")
    case False
    then have "rb_height r > 0" by (cases r) auto
    then show ?thesis
      using Node.IH(2) [of "Frame True x c l # st"] Node.prems False by auto
  qed auto
qed simp

lemma climb_right:
  "(case after st of
      [] \<Rightarrow> rb_climb True t st = (Null, [])
    | y # ys \<Rightarrow> \<exists>u st'. rb_climb True t st = (u, st') \<and>
        cursor (plug t st) st' u (before st @ inorder t) y ys)"
proof (induction st arbitrary: t)
  case (Cons f st)
  obtain e x c o' where f: "f = Frame e x c o'" by (cases f)
  show ?case
  proof (cases e)
    case True
    then show ?thesis using f Cons.IH [of "Node o' x c t"] by (auto split: list.splits)
  next
    case False
    then show ?thesis using f by (auto simp: cursor_def)
  qed
qed simp

lemma climb_left:
  "before st = xs @ [x] \<Longrightarrow>
     \<exists>u st'. rb_climb False t st = (u, st') \<and> cursor (plug t st) st' u xs x (inorder t @ after st)"
  "before st = [] \<Longrightarrow> rb_climb False t st = (Null, [])"
proof (induction st arbitrary: t)
  case (Cons f st)
  obtain e y c o' where f: "f = Frame e y c o'" by (cases f)
  {
    case 1
    show ?case
    proof (cases e)
      case True
      then show ?thesis using f 1 by (auto simp: cursor_def)
    next
      case False
      then show ?thesis using f 1 Cons.IH(1) [of "Node t y c o'"] by auto
    qed
  next
    case 2
    then show ?case using f Cons.IH(2) by (cases e) auto
  }
qed auto

section \<open>Correctness of the traverser operations\<close>

lemma valid_height:
  "rb_valid tree \<Longrightarrow> rb_roomy tree \<Longrightarrow> rb_height (rb_root tree) \<le> 46"
  using height_bound [of "rb_root tree"] by (simp add: rb_valid_def rb_roomy_def items_def)

lemma first_at:
  assumes "rb_valid tree" "rb_roomy tree" "items tree = x # xs"
  shows "\<exists>trav. rb_t_first tree = Ok (Some x, trav) \<and> trav_at tree trav [] x xs"
  using walk_left [of "rb_root tree" "[]"] valid_height [OF assms(1,2)] assms(3)
  by (fastforce simp: rb_t_first_def items_def RB_MAX_HEIGHT_def trav_at_def cursor_def)

lemma first_empty: "items tree = [] \<Longrightarrow> rb_t_first tree = Ok (None, rb_t_init tree)"
  by (simp add: items_def rb_t_first_def rb_t_init_def)

lemma last_at:
  assumes "rb_valid tree" "rb_roomy tree" "items tree = xs @ [x]"
  shows "\<exists>trav. rb_t_last tree = Ok (Some x, trav) \<and> trav_at tree trav xs x []"
proof -
  have "rb_root tree \<noteq> Null" using assms(3) by (auto simp: items_def)
  then obtain l d c st where w: "rb_walk True (rb_root tree) [] = Ok (Node l d c Null, st)"
    "plug (Node l d c Null) st = rb_root tree" "after st = []"
    "before st @ inorder l @ [d] = inorder (rb_root tree)"
    using walk_right [of "rb_root tree" "[]"] valid_height [OF assms(1,2)]
    by (auto simp: RB_MAX_HEIGHT_def)
  moreover have "before st @ inorder l = xs" "d = x"
    using w(4) assms(3) append_eq_append_conv [of "[d]" "[x]" "before st @ inorder l" xs]
    by (auto simp: items_def)
  ultimately show ?thesis by (auto simp: rb_t_last_def trav_at_def cursor_def)
qed

lemma last_empty: "items tree = [] \<Longrightarrow> rb_t_last tree = Ok (None, rb_t_init tree)"
  by (simp add: items_def rb_t_last_def rb_t_init_def)

lemma next_at:
  assumes "rb_valid tree" "rb_roomy tree" "trav_at tree trav xs d (y # ys)"
  shows "\<exists>trav'. rb_t_next tree trav = Ok (Some y, trav') \<and> trav_at tree trav' (xs @ [d]) y ys"
proof -
  let ?st = "t_stack trav"
  obtain l c r where n: "t_node trav = Node l d c r" "plug (Node l d c r) ?st = rb_root tree"
    "xs = before ?st @ inorder l" "y # ys = inorder r @ after ?st"
    and g: "t_generation trav = rb_generation tree"
    using assms(3) by (auto simp: trav_at_def cursor_def)
  have h: "length ?st + rb_height (Node l d c r) \<le> 46"
    using height_plug [of ?st "Node l d c r"] n(2) valid_height [OF assms(1,2)] by simp
  show ?thesis
  proof (cases "r = Null")
    case True
    then obtain u st' where cl: "rb_climb True (Node l d c r) ?st = (u, st')"
      "cursor (rb_root tree) st' u (xs @ [d]) y ys"
      using climb_right [where st = ?st and t = "Node l d c r"] n by (auto split: list.splits)
    then have "node_item u = Some y" by (auto simp: cursor_def)
    then show ?thesis using n(1) cl True g by (auto simp: rb_t_next_def trav_at_def)
  next
    case False
    have "length (Frame True d c l # ?st) + rb_height r \<le> RB_MAX_HEIGHT"
      using h by (simp add: RB_MAX_HEIGHT_def)
    from walk_left [OF False this] obtain e c' r' st' where w: "rb_walk False r (Frame True d c l # ?st) = Ok (Node Null e c' r', st')"
       "plug (Node Null e c' r') st' = rb_root tree" "before st' = xs @ [d]" "e # inorder r' @ after st' = y # ys"
      using n by auto
    then show ?thesis using n(1) False g h
      by (auto simp: rb_t_next_def trav_at_def cursor_def RB_MAX_HEIGHT_def)
  qed
qed

lemma next_end:
  assumes "trav_at tree trav xs d []"
  shows "rb_t_next tree trav = Ok (None, rb_t_init tree)"
proof -
  obtain l c where n: "t_node trav = Node l d c Null" "after (t_stack trav) = []"
    and g: "t_generation trav = rb_generation tree"
    using assms by (auto simp: trav_at_def cursor_def)
  show ?thesis using n g climb_right [where st = "t_stack trav" and t = "Node l d c Null"]
    by (cases trav) (auto simp: rb_t_next_def rb_t_init_def)
qed

lemma prev_at:
  assumes "rb_valid tree" "rb_roomy tree" "trav_at tree trav (xs @ [x]) d ys"
  shows "\<exists>trav'. rb_t_prev tree trav = Ok (Some x, trav') \<and> trav_at tree trav' xs x (d # ys)"
proof -
  let ?st = "t_stack trav"
  obtain l c r where n: "t_node trav = Node l d c r" "plug (Node l d c r) ?st = rb_root tree"
    "xs @ [x] = before ?st @ inorder l" "ys = inorder r @ after ?st"
    and g: "t_generation trav = rb_generation tree"
    using assms(3) by (auto simp: trav_at_def cursor_def)
  have h: "length ?st + rb_height (Node l d c r) \<le> 46"
    using height_plug [of ?st "Node l d c r"] n(2) valid_height [OF assms(1,2)] by simp
  show ?thesis
  proof (cases "l = Null")
    case True
    then obtain u st' where cl: "rb_climb False (Node l d c r) ?st = (u, st')"
      "cursor (rb_root tree) st' u xs x (d # ys)"
      using climb_left(1) [where st = ?st and xs = xs and x = x and t = "Node l d c r"] n by auto
    then have "node_item u = Some x" by (auto simp: cursor_def)
    then show ?thesis using n(1) cl True g by (auto simp: rb_t_prev_def trav_at_def)
  next
    case False
    have "length (Frame False d c r # ?st) + rb_height l \<le> RB_MAX_HEIGHT"
      using h by (simp add: RB_MAX_HEIGHT_def)
    from walk_right [OF False this] obtain l' e c' st' where w: "rb_walk True l (Frame False d c r # ?st) = Ok (Node l' e c' Null, st')"
       "plug (Node l' e c' Null) st' = rb_root tree" "after st' = d # ys"
       "before st' @ inorder l' @ [e] = xs @ [x]"
      using n by auto
    then have "before st' @ inorder l' = xs \<and> e = x"
      using append1_eq_conv [of "before st' @ inorder l'" e xs x] by simp
    then show ?thesis using n(1) False g h w
      by (auto simp: rb_t_prev_def trav_at_def cursor_def RB_MAX_HEIGHT_def)
  qed
qed

lemma collect_rest:
  "rb_valid tree \<Longrightarrow> rb_roomy tree \<Longrightarrow> trav_at tree trav xs d ys \<Longrightarrow> length ys < n \<Longrightarrow>
     rb_collect n tree trav = Ok ys"
proof (induction n arbitrary: trav xs d ys)
  case (Suc n)
  show ?case
  proof (cases ys)
    case Nil
    then show ?thesis using next_end Suc.prems(3) by fastforce
  next
    case (Cons y ys')
    then obtain trav' where "rb_t_next tree trav = Ok (Some y, trav')" "trav_at tree trav' (xs @ [d]) y ys'"
      using next_at [OF Suc.prems(1,2)] Suc.prems(3) by blast
    then show ?thesis using Suc Cons by auto
  qed
qed simp

text \<open>From the null node \<^verbatim>\<open>rb_t_next\<close> starts at the first item.\<close>

lemma next_init: "rb_t_next tree (rb_t_init tree) = rb_t_first tree"
  by (simp add: rb_t_next_def rb_t_init_def)

lemma collect_all:
  assumes "rb_valid tree" "rb_roomy tree" "length (items tree) < n"
  shows "rb_collect n tree (rb_t_init tree) = Ok (items tree)"
proof (cases n)
  case (Suc m)
  show ?thesis
  proof (cases "items tree")
    case Nil
    then show ?thesis using Suc first_empty [of tree] by (simp add: next_init)
  next
    case (Cons x xs)
    then obtain trav where "rb_t_first tree = Ok (Some x, trav)" "trav_at tree trav [] x xs"
      using first_at [OF assms(1,2)] by blast
    then show ?thesis using Suc Cons assms collect_rest [OF assms(1,2), of trav "[]" x xs m]
      by (simp add: next_init)
  qed
qed (use assms in simp)

section \<open>Refreshing a traverser after a change of the table\<close>

context keyed
begin

lemma refresh_loop_at:
  assumes "ordered cmp (inorder (plug t st))" and "d \<in> set (inorder t)"
    and "length st + rb_height t \<le> RB_MAX_HEIGHT"
  shows "\<exists>u st'. rb_refresh_loop cmp d t st = Ok (u, st') \<and>
    (\<exists>xs ys. cursor (plug t st) st' u xs d ys)"
  using assms
proof (induction t arbitrary: st)
  case (Node l x c r)
  have o: "\<forall>y\<in>set (inorder l). key y < key x" "\<forall>y\<in>set (inorder r). key x < key y"
    using Node.prems(1) by (auto simp: inorder_plug ordered_append ordered_Cons)
  show ?case
  proof (cases "x = d")
    case True
    then show ?thesis by (auto simp: cursor_def)
  next
    case False
    then consider (left) "d \<in> set (inorder l)" | (right) "d \<in> set (inorder r)"
      using Node.prems(2) by auto
    then show ?thesis
    proof cases
      case left
      then have "\<not> 0 < cmp d x" using o(1) by (auto simp: cmp_greater dest: less_asym)
      then show ?thesis using Node.IH(1) [of "Frame False x c r # st"] Node.prems left False by auto
    next
      case right
      then have "0 < cmp d x" using o(2) by (auto simp: cmp_greater)
      then show ?thesis using Node.IH(2) [of "Frame True x c l # st"] Node.prems right False by auto
    qed
  qed
qed simp

text \<open>
  After insertions and deletions elsewhere, a traverser whose item is still in the table
  is put back on that item.
\<close>

lemma refresh_at:
  assumes "rb_for cmp tree" "rb_roomy tree" "node_item (t_node trav) = Some d" "d \<in> set (items tree)"
  shows "\<exists>trav' xs ys. trav_refresh tree trav = Ok trav' \<and> trav_at tree trav' xs d ys"
proof -
  have "rb_height (rb_root tree) \<le> 46"
    using assms valid_height [of tree] by (simp add: rb_for_def)
  then obtain u st xs ys where "rb_refresh_loop cmp d (rb_root tree) [] = Ok (u, st)"
    "cursor (rb_root tree) st u xs d ys"
    using refresh_loop_at [of "rb_root tree" "[]" d] rb_forD [OF assms(1)] assms(4)
    by (auto simp: items_def RB_MAX_HEIGHT_def)
  then show ?thesis using assms(3) rb_forD(1) [OF assms(1)]
    by (cases "t_node trav") (auto simp: trav_refresh_def trav_at_def)
qed

lemma next_after_change:
  assumes "rb_for cmp tree" "rb_roomy tree" "t_generation trav \<noteq> rb_generation tree"
    and "node_item (t_node trav) = Some d" "items tree = xs @ d # y # ys"
  shows "\<exists>trav'. rb_t_next tree trav = Ok (Some y, trav') \<and> trav_at tree trav' (xs @ [d]) y ys"
proof -
  obtain tr xs' ys' where tr: "trav_refresh tree trav = Ok tr" "trav_at tree tr xs' d ys'"
    using refresh_at assms by fastforce
  have "ordered cmp (xs @ d # y # ys)" using rb_forD(3) [OF assms(1)] assms(5) by simp
  then have "d \<notin> set xs" "d \<notin> set (y # ys)" unfolding ordered_split by auto
  moreover have "xs @ d # y # ys = xs' @ d # ys'" using trav_at_items [OF tr(2)] assms(5) by simp
  ultimately have "xs' = xs \<and> ys' = y # ys"
    using append_Cons_eq_iff [of d xs "y # ys" xs' ys'] by blast
  then have at: "trav_at tree tr xs d (y # ys)" using tr by simp
  then have "rb_t_next tree trav = rb_t_next tree tr"
    using tr(1) assms(3) by (simp add: rb_t_next_def trav_at_def)
  then show ?thesis using next_at [OF _ assms(2) at] assms(1) by (simp add: rb_for_def)
qed

lemma t_find_loop_at:
  assumes "ordered cmp (inorder (plug t st))" and "length st + rb_height t \<le> RB_MAX_HEIGHT"
  shows "\<exists>u st'. rb_t_find_loop cmp item t st = Ok (u, st') \<and>
    node_item u = rb_find_node cmp item t \<and>
    (\<forall>d. rb_find_node cmp item t = Some d \<longrightarrow> (\<exists>xs ys. cursor (plug t st) st' u xs d ys))"
  using assms
proof (induction t arbitrary: st)
  case (Node l x c r)
  consider (here) "cmp item x = 0" | (left) "cmp item x < 0" | (right) "cmp item x > 0"
    by linarith
  then show ?case
  proof cases
    case here
    then show ?thesis by (auto simp: cursor_def)
  next
    case left
    then show ?thesis using Node.IH(1) [of "Frame False x c r # st"] Node.prems by (auto simp: Let_def)
  next
    case right
    then show ?thesis using Node.IH(2) [of "Frame True x c l # st"] Node.prems by (auto simp: Let_def)
  qed
qed simp

end

end
