(* ===== verification/RB_Copy.thy ===== *)
theory RB_Copy
  imports RB_Traverse
begin

text \<open>
  The rest of \<open>rb.c\<close>: copying a table, the traverser operations that insert and copy, and
  the asserting variants of insertion and deletion.
\<close>

section \<open>Copying\<close>

text \<open>
  \<^verbatim>\<open>rb_copy\<close> walks the original with a stack of pairs of an original node and its copy, a
  pair for each node whose left subtree is being copied.  The copy of such a node is
  allocated but has no item yet.  When an allocation or a call of \<open>copy\<close> fails,
  \<^verbatim>\<open>copy_error_recovery\<close> clears the right links of the copies on the stack and destroys what
  there is of the new tree; \<open>Broken\<close> lists the data fields that \<^verbatim>\<open>rb_destroy\<close> finds set
  (not null), in the order it meets them.  Those of the copies on the stack were never
  written: they are \<open>Unset\<close>.
\<close>

datatype 'b copied = Whole "'b rb_node" | Broken "'b cell list"

text \<open>
  \<open>copy_at alloc copy k t n\<close> copies the node \<open>t\<close>, for which there is a block already, and what
  is below it: \<open>k\<close> pairs are on the stack, \<open>n\<close> blocks have been asked for, and \<open>alloc n\<close>
  says whether the next request is granted.
\<close>

fun copy_at ::
  "(nat \<Rightarrow> bool) \<Rightarrow> ('a \<Rightarrow> 'b option) \<Rightarrow> nat \<Rightarrow> 'a rb_node \<Rightarrow> nat \<Rightarrow> ('b copied \<times> nat) outcome" where
  "copy_at alloc copy k Null n = Ok (Whole Null, n)"
| "copy_at alloc copy k (Node l x c r) n =
     obind
       (if l = Null then Ok (Whole Null, n)
        else
          obind (check (2 * k < 2 * (RB_MAX_HEIGHT + 1)) Assertion_failed)
            (\<lambda>_. if \<not> alloc n then Ok (Broken [], n + 1)
                 else
                   obind (copy_at alloc copy (k + 1) l (n + 1))
                     (\<lambda>(res, n). Ok (case res of Whole l' \<Rightarrow> Whole l' | Broken cs \<Rightarrow> Broken (cs @ [Unset]), n))))
       (\<lambda>(res, n).
          case res of
            Broken cs \<Rightarrow> Ok (Broken cs, n)
          | Whole l' \<Rightarrow>
              (case copy x of
                 None \<Rightarrow> Ok (Broken (map Item (inorder l')), n)
               | Some y \<Rightarrow>
                   if r = Null then Ok (Whole (Node l' y c Null), n)
                   else if \<not> alloc n then Ok (Broken (map Item (inorder l' @ [y])), n + 1)
                   else
                     obind (copy_at alloc copy k r (n + 1))
                       (\<lambda>(res, n). Ok
                         (case res of
                            Whole r' \<Rightarrow> Whole (Node l' y c r')
                          | Broken cs \<Rightarrow> Broken (map Item (inorder l' @ [y]) @ cs), n))))"

datatype 'b copy_result = Copied "'b rb_table" | Copy_failed "'b cell list"

text \<open>\<open>cmp\<close> is the comparison function of the original, for the items of the copy.\<close>

definition rb_copy ::
  "bool \<Rightarrow> (nat \<Rightarrow> bool) \<Rightarrow> ('a \<Rightarrow> 'b option) \<Rightarrow> ('b \<Rightarrow> 'b \<Rightarrow> int) \<Rightarrow> 'a rb_table \<Rightarrow>
   'b copy_result outcome" where
  "rb_copy table_alloc alloc copy cmp org =
     (case rb_create table_alloc cmp of
        None \<Rightarrow> Ok (Copy_failed [])
      | Some new \<Rightarrow>
          let new = new\<lparr>rb_count := rb_count org\<rparr> in
          if rb_count org = 0 then Ok (Copied new)
          else if rb_root org = Null then Fault Dangling_pointer
          else if \<not> alloc 0 then Ok (Copy_failed [])
          else
            obind (copy_at alloc copy 1 (rb_root org) 1)
              (\<lambda>(res, _). Ok
                (case res of
                   Whole t \<Rightarrow> Copied (new\<lparr>rb_root := t\<rparr>)
                 | Broken cs \<Rightarrow> Copy_failed cs)))"

fun map_node :: "('a \<Rightarrow> 'b) \<Rightarrow> 'a rb_node \<Rightarrow> 'b rb_node" where
  "map_node f Null = Null"
| "map_node f (Node l x c r) = Node (map_node f l) (f x) c (map_node f r)"

lemma map_node_simps [simp]:
  "inorder (map_node f t) = map f (inorder t)"
  "map_node f t = Null \<longleftrightarrow> t = Null"
  "bheight (map_node f t) = bheight t"
  "is_red (map_node f t) = is_red t"
proof -
  show red: "is_red (map_node f u) = is_red u" for u
  proof (cases u)
    case (Node l x c r)
    then show ?thesis by (cases c) simp_all
  qed simp
  show null: "map_node f u = Null \<longleftrightarrow> u = Null" for u by (cases u) simp_all
  show "inorder (map_node f t) = map f (inorder t)" by (induction t) simp_all
  show "bheight (map_node f t) = bheight t" by (induction t) simp_all
qed

lemma map_node_inv: "invc (map_node f t) = invc t" "invh (map_node f t) = invh t"
  by (induction t) auto

lemma copy_at_ok:
  assumes "\<forall>x\<in>set (inorder t). copy x = Some (f x)" "k + rb_height t \<le> Suc RB_MAX_HEIGHT"
  shows "\<exists>m. copy_at (\<lambda>_. True) copy k t n = Ok (Whole (map_node f t), m)"
  using assms
proof (induction t arbitrary: k n)
  case (Node l x c r)
  have l: "\<exists>m. (if l = Null then Ok (Whole Null, n)
      else obind (check (2 * k < 2 * (RB_MAX_HEIGHT + 1)) Assertion_failed)
        (\<lambda>_. if \<not> True then Ok (Broken [], n + 1) else obind (copy_at (\<lambda>_. True) copy (k + 1) l (n + 1))
            (\<lambda>(res, n). Ok (case res of Whole l' \<Rightarrow> Whole l' | Broken cs \<Rightarrow> Broken (cs @ [Unset]), n)))) =
      Ok (Whole (map_node f l), m)"
  proof (cases "l = Null")
    case False
    then have "0 < rb_height l" by (cases l) auto
    then have k: "2 * k < 2 * (RB_MAX_HEIGHT + 1)" using Node.prems(2) by auto
    have "k + 1 + rb_height l \<le> Suc RB_MAX_HEIGHT" "\<forall>x\<in>set (inorder l). copy x = Some (f x)"
      using Node.prems by auto
    then obtain m where "copy_at (\<lambda>_. True) copy (k + 1) l (n + 1) = Ok (Whole (map_node f l), m)"
      using Node.IH(1) by blast
    then show ?thesis using False k by (simp del: copy_at.simps)
  qed simp
  then obtain m where m: "(if l = Null then Ok (Whole Null, n)
      else obind (check (2 * k < 2 * (RB_MAX_HEIGHT + 1)) Assertion_failed)
        (\<lambda>_. if \<not> True then Ok (Broken [], n + 1) else obind (copy_at (\<lambda>_. True) copy (k + 1) l (n + 1))
            (\<lambda>(res, n). Ok (case res of Whole l' \<Rightarrow> Whole l' | Broken cs \<Rightarrow> Broken (cs @ [Unset]), n)))) =
      Ok (Whole (map_node f l), m)" ..
  have "copy x = Some (f x)" using Node.prems(1) by simp
  then have "copy_at (\<lambda>_. True) copy k (Node l x c r) n =
      (if r = Null then Ok (Whole (Node (map_node f l) (f x) c Null), m)
       else obind (copy_at (\<lambda>_. True) copy k r (m + 1))
         (\<lambda>(res, n). Ok (case res of Whole r' \<Rightarrow> Whole (Node (map_node f l) (f x) c r')
            | Broken cs \<Rightarrow> Broken (map Item (inorder (map_node f l) @ [f x]) @ cs), n)))"
    unfolding copy_at.simps(2) m by simp
  moreover obtain m' where "copy_at (\<lambda>_. True) copy k r (m + 1) = Ok (Whole (map_node f r), m')"
    using Node.IH(2) [of k "m + 1"] Node.prems by fastforce
  ultimately show ?case by (cases "r = Null") auto
qed simp

section \<open>Traversers\<close>

text \<open>
  \<^verbatim>\<open>rb_t_insert\<close> leaves the traverser on the item found or inserted, with a generation
  number that makes the next operation rebuild the stack.
\<close>

definition rb_t_insert ::
  "bool \<Rightarrow> 'a rb_table \<Rightarrow> 'a \<Rightarrow> ('a option \<times> 'a rb_table \<times> 'a rb_traverser) outcome" where
  "rb_t_insert alloc tree item =
     obind (rb_probe alloc tree item)
       (\<lambda>(p, tree). case p of
          No_memory \<Rightarrow> Ok (None, tree, rb_t_init tree)
        | Duplicate pa n \<Rightarrow>
            Ok (Some (rb_data n), tree, \<lparr>t_node = n, t_stack = pa, t_generation = rb_generation tree - 1\<rparr>)
        | New_slot \<Rightarrow>
            obind (rb_refresh_loop (rb_compare tree) item (rb_root tree) [])
              (\<lambda>(n, st). Ok (Some item, tree,
                 \<lparr>t_node = n, t_stack = st, t_generation = rb_generation tree - 1\<rparr>)))"

definition rb_t_copy ::
  "'a rb_table \<Rightarrow> 'a rb_traverser \<Rightarrow> 'a rb_traverser \<Rightarrow> 'a option \<times> 'a rb_traverser" where
  "rb_t_copy tree trav src =
     (let trav = trav\<lparr>t_node := t_node src, t_generation := t_generation src\<rparr>;
          trav = (if t_generation trav = rb_generation tree then trav\<lparr>t_stack := t_stack src\<rparr> else trav)
      in (node_item (t_node trav), trav))"

section \<open>Asserting variants\<close>

definition rb_assert_insert :: "bool \<Rightarrow> 'a rb_table \<Rightarrow> 'a \<Rightarrow> 'a rb_table outcome" where
  "rb_assert_insert alloc table item =
     obind (rb_probe alloc table item)
       (\<lambda>(p, table). obind (check (case p of No_memory \<Rightarrow> False | New_slot \<Rightarrow> True
            | Duplicate pa n \<Rightarrow> rb_data n = item) Assertion_failed) (\<lambda>_. Ok table))"

definition rb_assert_delete :: "'a rb_table \<Rightarrow> 'a \<Rightarrow> ('a \<times> 'a rb_table) outcome" where
  "rb_assert_delete table item =
     obind (rb_delete table item)
       (\<lambda>(p, table). case p of None \<Rightarrow> Fault Assertion_failed | Some x \<Rightarrow> Ok (x, table))"

context keyed
begin

lemma copy_ok:
  assumes "rb_for cmp t" "rb_roomy t" "\<forall>x\<in>set (items t). copy x = Some (f x)"
  shows "\<exists>t'. rb_copy True (\<lambda>_. True) copy cmp' t = Ok (Copied t') \<and> items t' = map f (items t) \<and>
    rb_root t' = map_node f (rb_root t) \<and> rb_compare t' = cmp' \<and> rb_count t' = rb_count t \<and> rb_inv (rb_root t')"
proof -
  have h: "rb_height (rb_root t) \<le> 46" using assms valid_height [of t] by (simp add: rb_for_def)
  obtain m where m: "copy_at (\<lambda>_. True) copy 1 (rb_root t) 1 = Ok (Whole (map_node f (rb_root t)), m)"
    using copy_at_ok [of "rb_root t" copy f 1 1] assms(3) h by (auto simp: items_def RB_MAX_HEIGHT_def)
  have inv: "rb_inv (map_node f (rb_root t))"
    using rb_forD(2) [OF assms(1)] by (simp add: rb_inv_def map_node_inv)
  have "length (items t) < 2 ^ 64" using assms(2) by (simp add: rb_roomy_def)
  then have "unat (rb_count t) = length (items t)"
    using rb_forD(5) [OF assms(1)] by (simp add: unat_of_nat take_bit_nat_eq_self)
  then have c: "rb_count t = 0 \<longleftrightarrow> rb_root t = Null"
    by (metis (no_types) inorder.simps items_def length_0_conv rb_node.exhaust unat_eq_zero append_is_Nil_conv
        list.distinct(1))
  show ?thesis
  proof (cases "rb_root t = Null")
    case True
    then show ?thesis using c inv by (simp add: rb_copy_def rb_create_def items_def rb_inv_def)
  next
    case False
    then show ?thesis using c inv m by (simp add: rb_copy_def rb_create_def items_def)
  qed
qed

lemma t_insert_at:
  assumes "rb_for cmp t" "rb_roomy t" "list_find cmp item (items t) = None"
  shows "\<exists>t' trav. rb_t_insert True t item = Ok (Some item, t', trav) \<and> rb_for cmp t' \<and>
    items t' = list_insert cmp item (items t) \<and> node_item (t_node trav) = Some item \<and>
    t_generation trav = rb_generation t' - 1"
proof -
  obtain t' where t': "rb_probe True t item = Ok (New_slot, t')" "rb_for cmp t'"
    "items t' = list_insert cmp item (items t)"
    using probe_new [OF assms] by blast
  have len: "length (items t') = Suc (length (items t))"
    using length_list_insert [OF assms(3)] t'(3) by simp
  have "Suc (length (items t)) < 2 ^ 24" using assms(2) by (simp add: rb_roomy_def)
  then have "2 ^ bheight (rb_root t') \<le> (2::nat) ^ 24"
    using len bheight_size [of "rb_root t'"] rb_forD(2) [OF t'(2)] by (auto simp: rb_inv_def items_def)
  then have "bheight (rb_root t') \<le> 24" by (rule power_le_imp_le_exp [rotated]) simp
  then have h: "rb_height (rb_root t') \<le> RB_MAX_HEIGHT"
    using rb_forD(2) [OF t'(2)] height_bheight by (fastforce simp: rb_inv_def RB_MAX_HEIGHT_def)
  have "item \<in> set (items t')" using set_list_insert [OF assms(3)] t'(3) by simp
  then obtain u st xs ys where "rb_refresh_loop cmp item (rb_root t') [] = Ok (u, st)"
    "cursor (rb_root t') st u xs item ys"
    using refresh_loop_at [of "rb_root t'" "[]" item] rb_forD [OF t'(2)] h by (auto simp: items_def)
  then show ?thesis using t' rb_forD(1) [OF t'(2)] by (auto simp: rb_t_insert_def cursor_def)
qed

end

end
