(* ===== verification/CS_Queue.thy ===== *)
theory CS_Queue
  imports CS_Prelude
begin

text \<open>
  The bounded queue of \<open>src/cs_queue.c\<close>: a doubly linked list of \<open>cs_qelem\<close> cells in a
  heap, two counting semaphores (\<open>qsem\<close> counts elements, \<open>qlimit_sem\<close> free places) and a
  status.  \<open>tail\<close> is the element enqueued last, \<open>head\<close> the one dequeued next; the
  \<open>next\<close> link of a cell points towards the head, \<open>prev\<close> towards the tail.

  A cell address is a natural number; \<open>None\<close> is the null pointer; an address outside
  the domain of the heap is dangling.  What the operating system answers is an argument
  of the operations (record \<open>posix\<close>): whether locking, unlocking and waiting succeed, and
  the block \<^verbatim>\<open>calloc\<close> returns.
\<close>

section \<open>Data\<close>

datatype cs_queue_status = QOPENED | QCLOSED | QUEUE_FULL | QUEUE_EMPTY

fun queue_status_code :: "cs_queue_status \<Rightarrow> int" where
  "queue_status_code QOPENED = 0"
| "queue_status_code QCLOSED = 1"
| "queue_status_code QUEUE_FULL = 2"
| "queue_status_code QUEUE_EMPTY = 3"

record 'd cs_qelem =
  qdata :: 'd
  qnext :: "addr option"
  qprev :: "addr option"

type_synonym 'd qheap = "addr \<rightharpoonup> 'd cs_qelem"

record 'd cs_queue =
  qsize :: int
  qname :: string
  qstatus :: cs_queue_status
  qhead :: "addr option"
  qtail :: "addr option"
  qsem :: sem_t
  qlimit_sem :: sem_t
  qheap :: "'d qheap"

record posix =
  lock_ok :: bool
  unlock_ok :: bool
  wait_ok :: bool
  block :: "addr option"

definition posix_ok :: "addr \<Rightarrow> posix" where
  "posix_ok a = \<lparr>lock_ok = True, unlock_ok = True, wait_ok = True, block = Some a\<rparr>"

section \<open>Operations\<close>

text \<open>
  \<^verbatim>\<open>cs_queue_init\<close>.  The name buffer is \<^verbatim>\<open>malloc(strlen(name))\<close> bytes filled by
  \<^verbatim>\<open>strncpy(.., strlen(name))\<close>, so it holds the characters without the terminating
  null.  The argument \<open>q\<close> is \<open>None\<close> for the null pointer and otherwise says whether the
  memory of the queue was zeroed before: on the first error path \<^verbatim>\<open>cs_queue_destroy\<close> reads
  the semaphore fields, which are not set yet.  The others are: whether the mutex and the
  semaphores could be allocated, the heap the elements will live in, the name and the limit
  (\<open>unsigned int\<close>).
\<close>

definition cs_queue_init ::
  "bool option \<Rightarrow> bool \<Rightarrow> bool \<Rightarrow> 'd qheap \<Rightarrow> string \<Rightarrow> 32 word \<Rightarrow> (int \<times> 'd cs_queue option) outcome" where
  "cs_queue_init q mutex_alloc sem_alloc h name limit =
     (case q of
        None \<Rightarrow> Ok (-1, None)
      | Some zeroed \<Rightarrow>
          if \<not> mutex_alloc then (if zeroed then Ok (-1, None) else Fault Uninitialised_read)
          else if \<not> sem_alloc then Ok (-1, None)
          else (case sem_init (unat limit) of
             None \<Rightarrow> Ok (-1, None)
           | Some s \<Rightarrow>
               Ok (0, Some \<lparr>qsize = 0, qname = name, qstatus = QOPENED, qhead = None, qtail = None,
                            qsem = 0, qlimit_sem = s, qheap = h\<rparr>)))"

definition cs_queue_size :: "'d cs_queue \<Rightarrow> int" where
  "cs_queue_size q = qsize q"

definition cs_queue_close :: "posix \<Rightarrow> 'd cs_queue \<Rightarrow> int \<times> 'd cs_queue" where
  "cs_queue_close env q =
     (if \<not> lock_ok env then (-1, q)
      else
        (let q = q\<lparr>qstatus := QCLOSED\<rparr>;
             q = (case sem_post (qsem q) of None \<Rightarrow> q | Some s \<Rightarrow> q\<lparr>qsem := s\<rparr>)
         in if \<not> unlock_ok env then (-1, q) else (0, q)))"

text \<open>
  The critical section of \<^verbatim>\<open>cs_queue_enqueue\<close>, entered with a place taken from
  \<open>qlimit_sem\<close>.  When \<^verbatim>\<open>calloc\<close> fails the code reports it, unlocks the mutex and goes on
  to write through the null pointer.
\<close>

definition enqueue_locked :: "posix \<Rightarrow> 'd cs_queue \<Rightarrow> 'd \<Rightarrow> (int \<times> 'd cs_queue) outcome" where
  "enqueue_locked env q data =
     (if \<not> lock_ok env then Ok (-1, q)
      else if qstatus q = QOPENED then
        (case block env of
           None \<Rightarrow> if \<not> unlock_ok env then Ok (-1, q) else Fault Null_dereference
         | Some e \<Rightarrow>
             (let h = (qheap q)(e \<mapsto> \<lparr>qdata = data, qnext = qtail q, qprev = None\<rparr>) in
              obind
                (case qtail q of
                   Some t \<Rightarrow>
                     (case h t of
                        None \<Rightarrow> Fault Dangling_pointer
                      | Some c \<Rightarrow> Ok (q\<lparr>qheap := h(t \<mapsto> c\<lparr>qprev := Some e\<rparr>)\<rparr>))
                 | None \<Rightarrow> Ok (q\<lparr>qheap := h, qhead := Some e\<rparr>))
                (\<lambda>q.
                  let q = q\<lparr>qtail := Some e, qsize := qsize q + 1\<rparr> in
                  case sem_post (qsem q) of
                    None \<Rightarrow> Ok (-1, q)
                  | Some s \<Rightarrow>
                      let q = q\<lparr>qsem := s\<rparr> in
                      if \<not> unlock_ok env then Ok (-1, q) else Ok (0, q))))
      else if \<not> unlock_ok env then Ok (-1, q)
      else Ok (0, q))"

definition cs_queue_enqueue :: "posix \<Rightarrow> 'd cs_queue \<Rightarrow> 'd \<Rightarrow> bool \<Rightarrow> (int \<times> 'd cs_queue) outcome" where
  "cs_queue_enqueue env q data blocking =
     (if blocking then
        (if \<not> wait_ok env then Ok (-1, q)
         else obind (sem_wait (qlimit_sem q))
           (\<lambda>s. enqueue_locked env (q\<lparr>qlimit_sem := s\<rparr>) data))
      else
        (case sem_trywait (qlimit_sem q) of
           None \<Rightarrow> Ok (queue_status_code QUEUE_FULL, q)
         | Some s \<Rightarrow> enqueue_locked env (q\<lparr>qlimit_sem := s\<rparr>) data))"

text \<open>The critical section of \<^verbatim>\<open>cs_queue_dequeue\<close>, entered with an element taken from \<open>qsem\<close>.\<close>

definition dequeue_locked :: "posix \<Rightarrow> 'd cs_queue \<Rightarrow> ('d option \<times> 'd cs_queue) outcome" where
  "dequeue_locked env q =
     (if \<not> lock_ok env then Ok (None, q)
      else if qhead q = None \<and> qstatus q = QCLOSED then Ok (None, q)
      else
        (case qhead q of
           None \<Rightarrow> Fault Assertion_failed
         | Some a \<Rightarrow>
             (case qheap q a of
                None \<Rightarrow> Fault Dangling_pointer
              | Some e \<Rightarrow>
                  obind
                    (if qsize q > 1 then
                       (case qprev e of
                          None \<Rightarrow> Fault Null_dereference
                        | Some p \<Rightarrow>
                            (case qheap q p of
                               None \<Rightarrow> Fault Dangling_pointer
                             | Some c \<Rightarrow>
                                 Ok (q\<lparr>qheap := (qheap q)(p \<mapsto> c\<lparr>qnext := None\<rparr>), qhead := Some p\<rparr>)))
                     else Ok (q\<lparr>qtail := None, qhead := None\<rparr>))
                    (\<lambda>q.
                      let q = q\<lparr>qsize := qsize q - 1\<rparr> in
                      if \<not> (qsize q = int (qsem q) \<or> qstatus q = QCLOSED) then Fault Assertion_failed
                      else
                        (case sem_post (qlimit_sem q) of
                           None \<Rightarrow> Ok (None, q)
                         | Some s \<Rightarrow>
                             let q = q\<lparr>qlimit_sem := s\<rparr> in
                             if \<not> unlock_ok env then Ok (None, q)
                             else Ok (Some (qdata e), q\<lparr>qheap := (qheap q)(a := None)\<rparr>))))))"

definition cs_queue_dequeue :: "posix \<Rightarrow> 'd cs_queue \<Rightarrow> bool \<Rightarrow> ('d option \<times> 'd cs_queue) outcome" where
  "cs_queue_dequeue env q blocking =
     (if blocking then
        (if \<not> wait_ok env then Ok (None, q)
         else obind (sem_wait (qsem q)) (\<lambda>s. dequeue_locked env (q\<lparr>qsem := s\<rparr>)))
      else
        (case sem_trywait (qsem q) of
           None \<Rightarrow> Ok (None, q)
         | Some s \<Rightarrow> dequeue_locked env (q\<lparr>qsem := s\<rparr>)))"

text \<open>
  The loop of \<^verbatim>\<open>cs_queue_destroy\<close>.  It follows a read of \<^verbatim>\<open>q->name\<close> that precedes the
  test for the null pointer, starts at the tail and moves on \<^emph>\<open>before\<close> it calls
  \<^verbatim>\<open>free(current)\<close>, so it frees the cell it is about to read.  The result lists the data
  handed to the release function and the heap that is left.
\<close>

function cs_queue_release ::
  "'d qheap \<Rightarrow> addr option \<Rightarrow> 'd list \<Rightarrow> ('d list \<times> 'd qheap) outcome" where
  "cs_queue_release h None acc = Ok (acc, h)"
| "cs_queue_release h (Some a) acc =
     (case h a of
        None \<Rightarrow> Fault Dangling_pointer
      | Some e \<Rightarrow>
          cs_queue_release (case qnext e of None \<Rightarrow> h | Some b \<Rightarrow> h(b := None))
            (qnext e) (acc @ [qdata e]))"
  by pat_completeness auto
termination
  by (relation "measure (\<lambda>(h, cur, acc). case cur of None \<Rightarrow> 0 | Some a \<Rightarrow> if h a = None then 0 else 1)")
    (auto split: option.splits)

definition cs_queue_destroy :: "'d cs_queue option \<Rightarrow> ('d list \<times> 'd qheap) outcome" where
  "cs_queue_destroy q =
     (case q of None \<Rightarrow> Fault Null_dereference | Some q \<Rightarrow> cs_queue_release (qheap q) (qtail q) [])"

section \<open>The list a queue represents\<close>

text \<open>
  \<open>links h nx as xs\<close>: the cells \<open>as\<close>, from the head to the tail, hold the data \<open>xs\<close>;
  \<open>nx\<close> is the \<open>next\<close> link of the first of them.
\<close>

fun links :: "'d qheap \<Rightarrow> addr option \<Rightarrow> addr list \<Rightarrow> 'd list \<Rightarrow> bool" where
  "links h nx [] [] = True"
| "links h nx (a # as) (x # xs) =
     (h a = Some \<lparr>qdata = x, qnext = nx, qprev = (case as of [] \<Rightarrow> None | b # _ \<Rightarrow> Some b)\<rparr> \<and>
      links h (Some a) as xs)"
| "links h nx _ _ = False"

definition first_of :: "'x list \<Rightarrow> 'x option" where
  "first_of as = (case as of [] \<Rightarrow> None | a # _ \<Rightarrow> Some a)"

definition last_of :: "'x list \<Rightarrow> 'x option" where
  "last_of as = (if as = [] then None else Some (last as))"

definition queue_cells :: "'d cs_queue \<Rightarrow> addr list \<Rightarrow> 'd list \<Rightarrow> bool" where
  "queue_cells q as xs \<longleftrightarrow> distinct as \<and> links (qheap q) None as xs \<and>
     qhead q = first_of as \<and> qtail q = last_of as \<and> qsize q = int (length xs)"

definition queue_rep :: "'d cs_queue \<Rightarrow> 'd list \<Rightarrow> bool" where
  "queue_rep q xs \<longleftrightarrow> (\<exists>as. queue_cells q as xs \<and> set as = dom (qheap q))"

lemma queue_repI: "queue_cells q as xs \<Longrightarrow> set as = dom (qheap q) \<Longrightarrow> queue_rep q xs"
  by (auto simp: queue_rep_def)

lemma links_length: "links h nx as xs \<Longrightarrow> length as = length xs"
  by (induction h nx as xs rule: links.induct) auto

lemma links_dom: "links h nx as xs \<Longrightarrow> set as \<subseteq> dom h"
  by (induction h nx as xs rule: links.induct) auto

lemma links_frame: "a \<notin> set as \<Longrightarrow> links (h(a := v)) nx as xs = links h nx as xs"
  by (induction h nx as xs rule: links.induct) auto

text \<open>Linking a new cell behind the tail.\<close>

lemma links_snoc:
  assumes "links h nx as xs" "distinct as" "as \<noteq> []" "e \<notin> set as"
  shows "\<exists>c. h (last as) = Some c \<and>
    links (h(e \<mapsto> \<lparr>qdata = x, qnext = Some (last as), qprev = None\<rparr>, last as \<mapsto> c\<lparr>qprev := Some e\<rparr>))
      nx (as @ [e]) (xs @ [x])"
  using assms
proof (induction h nx as xs rule: links.induct)
  case (2 h nx a as y ys)
  show ?case
  proof (cases as)
    case Nil
    then show ?thesis using 2(2-) by (cases ys) auto
  next
    case (Cons b bs)
    then have ne: "as \<noteq> []" "last as \<noteq> a" "last as \<noteq> e" "e \<noteq> a"
      using 2(3,5) last_in_set [of as] by auto
    have pre: "links h (Some a) as ys" "distinct as" "e \<notin> set as" using 2(2-) by auto
    obtain c where c: "h (last as) = Some c"
      "links (h(e \<mapsto> \<lparr>qdata = x, qnext = Some (last as), qprev = None\<rparr>, last as \<mapsto> c\<lparr>qprev := Some e\<rparr>))
        (Some a) (as @ [e]) (ys @ [x])"
      using "2.IH" [OF pre(1,2) ne(1) pre(3)] by blast
    have "h a = Some \<lparr>qdata = y, qnext = nx, qprev = (case as @ [e] of [] \<Rightarrow> None | b # _ \<Rightarrow> Some b)\<rparr>"
      using 2(2) Cons by simp
    then show ?thesis using c ne by (simp add: fun_upd_other fun_upd_same del: fun_upd_apply)
  qed
qed auto

text \<open>Unlinking the head makes the next cell the one without a \<open>next\<close> link.\<close>

lemma links_tl:
  assumes "links h nx (a # b # as) (x # xs)" "distinct (a # b # as)"
  shows "\<exists>c. h b = Some c \<and> links (h(b \<mapsto> c\<lparr>qnext := None\<rparr>, a := None)) None (b # as) xs"
  using assms by (cases xs) (auto simp: links_frame)

section \<open>Functional correctness\<close>

lemma first_of_simps [simp]: "first_of [] = None" "first_of (a # as) = Some a"
  by (simp_all add: first_of_def)

lemma last_of_simps [simp]: "last_of [] = None" "last_of (as @ [a]) = Some a" "last_of [a] = Some a"
  by (simp_all add: last_of_def)

lemma last_of_Some: "last_of as = Some t \<longleftrightarrow> as \<noteq> [] \<and> t = last as"
  by (auto simp: last_of_def)

lemma init_rep:
  assumes "unat limit \<le> SEM_VALUE_MAX"
  shows "\<exists>q. cs_queue_init (Some z) True True Map.empty name limit = Ok (0, Some q) \<and> queue_rep q [] \<and>
    qstatus q = QOPENED \<and> qsem q = 0 \<and> qlimit_sem q = unat limit"
  using assms by (simp add: cs_queue_init_def sem_init_def queue_rep_def queue_cells_def)

lemma enqueue_locked_rep:
  assumes "queue_rep q xs" "qstatus q = QOPENED" "a \<notin> dom (qheap q)" "qsem q < SEM_VALUE_MAX"
  shows "\<exists>q'. enqueue_locked (posix_ok a) q x = Ok (0, q') \<and> queue_rep q' (xs @ [x]) \<and>
    qstatus q' = QOPENED \<and> qsem q' = Suc (qsem q) \<and> qlimit_sem q' = qlimit_sem q"
proof -
  obtain as where as: "distinct as" "links (qheap q) None as xs" "qhead q = first_of as"
    "qtail q = last_of as" "qsize q = int (length xs)" "set as = dom (qheap q)"
    using assms(1) by (auto simp: queue_rep_def queue_cells_def)
  show ?thesis
  proof (cases "as = []")
    case True
    then have "xs = []" using links_length [OF as(2)] by simp
    then show ?thesis using as True assms(2-)
      by (auto simp: enqueue_locked_def posix_ok_def sem_post_def queue_rep_def queue_cells_def Let_def
          intro!: exI [of _ "[a]"])
  next
    case False
    let ?l = "last as"
    let ?new = "\<lparr>qdata = x, qnext = Some ?l, qprev = None\<rparr>"
    have na: "a \<notin> set as" "?l \<noteq> a" using assms(3) as(6) False last_in_set [of as] by auto
    obtain c where c: "qheap q ?l = Some c"
      and ln: "links ((qheap q)(a \<mapsto> ?new, ?l \<mapsto> c\<lparr>qprev := Some a\<rparr>)) None (as @ [a]) (xs @ [x])"
      using links_snoc [OF as(2,1) False na(1), of x] by blast
    have hd: "first_of (as @ [a]) = first_of as" using False by (cases as) auto
    have dm: "insert ?l (insert a (dom (qheap q))) = set (as @ [a])"
      using as(6) last_in_set [OF False] by auto
    let ?q = "q\<lparr>qheap := (qheap q)(a \<mapsto> ?new, ?l \<mapsto> c\<lparr>qprev := Some a\<rparr>), qtail := Some a,
      qsize := qsize q + 1, qsem := Suc (qsem q)\<rparr>"
    have "enqueue_locked (posix_ok a) q x = Ok (0, ?q)"
      using assms(2,4) c na False as(4)
      by (simp add: enqueue_locked_def posix_ok_def sem_post_def Let_def last_of_def)
    moreover have "queue_cells ?q (as @ [a]) (xs @ [x])"
      using as(1,3,5) na(1) ln hd by (simp add: queue_cells_def del: fun_upd_apply)
    moreover have "set (as @ [a]) = dom (qheap ?q)" using dm by auto
    ultimately show ?thesis using assms(2) queue_repI [of ?q "as @ [a]" "xs @ [x]"]
      by (intro exI [of _ ?q]) (simp del: fun_upd_apply)
  qed
qed

lemma dequeue_locked_rep:
  assumes "queue_rep q (x # xs)" "qsem q = length xs \<or> qstatus q = QCLOSED"
    and "qlimit_sem q < SEM_VALUE_MAX"
  shows "\<exists>q'. dequeue_locked (posix_ok a) q = Ok (Some x, q') \<and> queue_rep q' xs \<and>
    qstatus q' = qstatus q \<and> qsem q' = qsem q \<and> qlimit_sem q' = Suc (qlimit_sem q)"
proof -
  obtain as' where as': "distinct as'" "links (qheap q) None as' (x # xs)" "qhead q = first_of as'"
    "qtail q = last_of as'" "qsize q = int (Suc (length xs))" "set as' = dom (qheap q)"
    using assms(1) by (auto simp: queue_rep_def queue_cells_def)
  obtain b bs where "as' = b # bs" using as'(2) by (cases as') auto
  with as' have as: "distinct (b # bs)" "links (qheap q) None (b # bs) (x # xs)" "qhead q = Some b"
    "qtail q = last_of (b # bs)" "qsize q = int (Suc (length xs))" "set (b # bs) = dom (qheap q)"
    by auto
  show ?thesis
  proof (cases bs)
    case Nil
    then have xs: "xs = []" using as(2) by (cases xs) auto
    obtain e where e: "qheap q b = Some e" "qdata e = x" using as(2) Nil xs by auto
    let ?q = "q\<lparr>qheap := (qheap q)(b := None), qtail := None, qhead := None, qsize := 0,
      qlimit_sem := Suc (qlimit_sem q)\<rparr>"
    have "dequeue_locked (posix_ok a) q = Ok (Some x, ?q)"
      using as(3,5) xs e assms(2,3)
      by (auto simp: dequeue_locked_def posix_ok_def sem_post_def Let_def)
    moreover have "queue_rep ?q xs"
      using as(6) Nil xs by (intro queue_repI [of _ "[]"]) (auto simp: queue_cells_def)
    ultimately show ?thesis by (intro exI [of _ ?q]) simp
  next
    case (Cons c cs)
    obtain y ys where xs: "xs = y # ys" using as(2) Cons by (cases xs) auto
    obtain ce where ce: "qheap q c = Some ce"
      and ln: "links ((qheap q)(c \<mapsto> ce\<lparr>qnext := None\<rparr>, b := None)) None (c # cs) xs"
      using links_tl [of "qheap q" None b c cs x xs] as(1,2) Cons by auto
    have e: "qheap q b = Some \<lparr>qdata = x, qnext = None, qprev = Some c\<rparr>" using as(2) Cons by simp
    have bc: "b \<noteq> c" using as(1) Cons by auto
    let ?q = "q\<lparr>qheap := (qheap q)(c \<mapsto> ce\<lparr>qnext := None\<rparr>, b := None), qhead := Some c,
      qsize := int (length xs), qlimit_sem := Suc (qlimit_sem q)\<rparr>"
    have "dequeue_locked (posix_ok a) q = Ok (Some x, ?q)"
      using as(3,5) e ce assms(2,3) xs
      by (auto simp: dequeue_locked_def posix_ok_def sem_post_def Let_def)
    moreover have "queue_cells ?q (c # cs) xs"
      using as(1,4) Cons ln by (simp add: queue_cells_def last_of_def del: fun_upd_apply)
    moreover have "set (c # cs) = dom (qheap ?q)" using as(1,6) Cons bc by auto
    ultimately show ?thesis using queue_repI [of ?q "c # cs" xs]
      by (intro exI [of _ ?q]) (simp del: fun_upd_apply)
  qed
qed

lemma enqueue_ok:
  assumes "queue_rep q xs" "qstatus q = QOPENED" "a \<notin> dom (qheap q)" "qsem q < SEM_VALUE_MAX"
    and "qlimit_sem q = Suc n"
  shows "\<exists>q'. cs_queue_enqueue (posix_ok a) q x b = Ok (0, q') \<and> queue_rep q' (xs @ [x]) \<and>
    qstatus q' = QOPENED \<and> qsem q' = Suc (qsem q) \<and> qlimit_sem q' = n"
proof -
  have "queue_rep (q\<lparr>qlimit_sem := n\<rparr>) xs" using assms(1) by (simp add: queue_rep_def queue_cells_def)
  then show ?thesis using enqueue_locked_rep [of "q\<lparr>qlimit_sem := n\<rparr>" xs a x] assms
    by (simp add: cs_queue_enqueue_def posix_ok_def sem_wait_def sem_trywait_def)
qed

lemma dequeue_ok:
  assumes "queue_rep q (x # xs)" "qsem q = Suc n" "n = length xs \<or> qstatus q = QCLOSED"
    and "qlimit_sem q < SEM_VALUE_MAX"
  shows "\<exists>q'. cs_queue_dequeue (posix_ok a) q b = Ok (Some x, q') \<and> queue_rep q' xs \<and>
    qstatus q' = qstatus q \<and> qsem q' = n \<and> qlimit_sem q' = Suc (qlimit_sem q)"
proof -
  have "queue_rep (q\<lparr>qsem := n\<rparr>) (x # xs)" using assms(1) by (simp add: queue_rep_def queue_cells_def)
  then show ?thesis using dequeue_locked_rep [of "q\<lparr>qsem := n\<rparr>" x xs a] assms
    by (simp add: cs_queue_dequeue_def posix_ok_def sem_wait_def sem_trywait_def)
qed

lemma enqueue_full:
  assumes "qlimit_sem q = 0"
  shows "cs_queue_enqueue env q x False = Ok (2, q)"
    and "wait_ok env \<Longrightarrow> cs_queue_enqueue env q x True = Blocks"
  using assms by (simp_all add: cs_queue_enqueue_def sem_wait_def sem_trywait_def)

lemma dequeue_empty:
  assumes "qsem q = 0"
  shows "cs_queue_dequeue env q False = Ok (None, q)"
    and "wait_ok env \<Longrightarrow> cs_queue_dequeue env q True = Blocks"
  using assms by (simp_all add: cs_queue_dequeue_def sem_wait_def sem_trywait_def)

lemma enqueue_closed:
  assumes "qstatus q \<noteq> QOPENED" "qlimit_sem q = Suc n"
  shows "cs_queue_enqueue (posix_ok a) q x b = Ok (0, q\<lparr>qlimit_sem := n\<rparr>)"
  using assms by (simp add: cs_queue_enqueue_def enqueue_locked_def posix_ok_def sem_wait_def sem_trywait_def)

lemma dequeue_closed_empty:
  assumes "queue_rep q []" "qstatus q = QCLOSED" "qsem q = Suc n"
  shows "cs_queue_dequeue (posix_ok a) q b = Ok (None, q\<lparr>qsem := n\<rparr>)"
proof -
  have "qhead q = None"
    using assms(1) by (auto simp: queue_rep_def queue_cells_def dest: links_length)
  then show ?thesis using assms
    by (simp add: cs_queue_dequeue_def dequeue_locked_def posix_ok_def sem_wait_def sem_trywait_def)
qed

lemma queue_rep_empty:
  assumes "queue_rep q []"
  shows "qheap q = Map.empty"
proof -
  obtain as where as: "links (qheap q) None as []" "set as = dom (qheap q)"
    using assms by (auto simp: queue_rep_def queue_cells_def)
  then have "as = []" using links_length [OF as(1)] by simp
  then have "dom (qheap q) = {}" using as(2) by simp
  then show ?thesis by simp
qed

text \<open>Destroying a queue of two or more elements reads a cell it has just freed.\<close>

lemma destroy_dangling:
  assumes "queue_rep q xs" "1 < length xs"
  shows "cs_queue_destroy (Some q) = Fault Dangling_pointer"
proof -
  obtain as where as: "distinct as" "links (qheap q) None as xs" "qtail q = last_of as"
    using assms(1) by (auto simp: queue_rep_def queue_cells_def)
  have gen: "\<exists>x p. h (last bs) = Some \<lparr>qdata = x, qnext = Some p, qprev = None\<rparr> \<and> p \<in> set bs \<and> p \<noteq> last bs"
    if "links h nx bs ys" "distinct bs" "1 < length bs" for h nx bs and ys :: "'a list"
    using that
  proof (induction h nx bs ys rule: links.induct)
    case (2 h nx a cs x ys)
    then show ?case by (cases cs rule: list.exhaust; cases ys; cases "tl cs") auto
  qed auto
  obtain x p where "qheap q (last as) = Some \<lparr>qdata = x, qnext = Some p, qprev = None\<rparr>"
    using gen [OF as(2,1)] assms(2) links_length [OF as(2)] by auto
  moreover have "qtail q = Some (last as)"
    using as(3) assms(2) links_length [OF as(2)] by (auto simp: last_of_def)
  ultimately show ?thesis by (simp add: cs_queue_destroy_def)
qed

end
