(* ===== verification/CS_Queue_Conc.thy ===== *)
theory CS_Queue_Conc
  imports CS_Queue
begin

text \<open>
  The queue of \<open>src/cs_queue.c\<close> as its clients see it.  The first part states the
  interface of a bounded first-in first-out buffer as a locale, proves that every sequence
  of non-blocking calls answers as a bounded list would, and discharges the interface for
  the heap-level queue.  The second part interleaves producers, consumers and a closing
  thread: a call is split where the code is not protected by the mutex, between the wait on
  a semaphore and the critical section.
\<close>

section \<open>The interface: a bounded first-in first-out buffer\<close>

datatype 'd queue_call = Put 'd | Get

datatype 'd queue_answer = Code int | Item "'d option"

text \<open>The specification: a list of at most \<open>room\<close> more elements.\<close>

fun fifo_spec :: "nat \<Rightarrow> 'd list \<Rightarrow> 'd queue_call list \<Rightarrow> 'd queue_answer list \<times> nat \<times> 'd list" where
  "fifo_spec room xs [] = ([], room, xs)"
| "fifo_spec room xs (Put x # cs) =
     (case room of
        0 \<Rightarrow> (let (rs, r) = fifo_spec 0 xs cs in (Code 2 # rs, r))
      | Suc n \<Rightarrow> (let (rs, r) = fifo_spec n (xs @ [x]) cs in (Code 0 # rs, r)))"
| "fifo_spec room xs (Get # cs) =
     (case xs of
        [] \<Rightarrow> (let (rs, r) = fifo_spec room [] cs in (Item None # rs, r))
      | x # ys \<Rightarrow> (let (rs, r) = fifo_spec (Suc room) ys cs in (Item (Some x) # rs, r)))"

text \<open>Running a sequence of calls; each call comes with what the system answers during it.\<close>

fun fifo_run ::
  "('e \<Rightarrow> 'q \<Rightarrow> 'd \<Rightarrow> (int \<times> 'q) outcome) \<Rightarrow> ('e \<Rightarrow> 'q \<Rightarrow> ('d option \<times> 'q) outcome) \<Rightarrow>
   'q \<Rightarrow> ('e \<times> 'd queue_call) list \<Rightarrow> ('d queue_answer list \<times> 'q) outcome" where
  "fifo_run put get q [] = Ok ([], q)"
| "fifo_run put get q ((e, Put x) # cs) =
     obind (put e q x) (\<lambda>(r, q'). obind (fifo_run put get q' cs) (\<lambda>(rs, q''). Ok (Code r # rs, q'')))"
| "fifo_run put get q ((e, Get) # cs) =
     obind (get e q) (\<lambda>(r, q'). obind (fifo_run put get q' cs) (\<lambda>(rs, q''). Ok (Item r # rs, q'')))"

text \<open>The system's answer to every \<open>Put\<close> is admissible in the state it is given in.\<close>

fun fifo_admissible ::
  "('e \<Rightarrow> 'q \<Rightarrow> bool) \<Rightarrow> ('e \<Rightarrow> 'q \<Rightarrow> 'd \<Rightarrow> (int \<times> 'q) outcome) \<Rightarrow>
   ('e \<Rightarrow> 'q \<Rightarrow> ('d option \<times> 'q) outcome) \<Rightarrow> 'q \<Rightarrow> ('e \<times> 'd queue_call) list \<Rightarrow> bool" where
  "fifo_admissible adm put get q [] = True"
| "fifo_admissible adm put get q ((e, Put x) # cs) =
     (adm e q \<and> (case put e q x of Ok (r, q') \<Rightarrow> fifo_admissible adm put get q' cs | _ \<Rightarrow> True))"
| "fifo_admissible adm put get q ((e, Get) # cs) =
     (adm e q \<and> (case get e q of Ok (r, q') \<Rightarrow> fifo_admissible adm put get q' cs | _ \<Rightarrow> True))"

locale fifo =
  fixes holds :: "'q \<Rightarrow> nat \<Rightarrow> 'd list \<Rightarrow> bool"
    and adm :: "'e \<Rightarrow> 'q \<Rightarrow> bool"
    and put :: "'e \<Rightarrow> 'q \<Rightarrow> 'd \<Rightarrow> (int \<times> 'q) outcome"
    and get :: "'e \<Rightarrow> 'q \<Rightarrow> ('d option \<times> 'q) outcome"
  assumes put_room: "holds q (Suc n) xs \<Longrightarrow> adm e q \<Longrightarrow>
      \<exists>q'. put e q x = Ok (0, q') \<and> holds q' n (xs @ [x])"
    and put_full: "holds q 0 xs \<Longrightarrow> put e q x = Ok (2, q)"
    and get_some: "holds q n (x # xs) \<Longrightarrow> adm e q \<Longrightarrow>
      \<exists>q'. get e q = Ok (Some x, q') \<and> holds q' (Suc n) xs"
    and get_none: "holds q n [] \<Longrightarrow> get e q = Ok (None, q)"
begin

text \<open>Every sequence of calls is answered as the list specification answers it.\<close>

lemma run_refines:
  "holds q n xs \<Longrightarrow> fifo_admissible adm put get q cs \<Longrightarrow>
   \<exists>q'. fifo_run put get q cs = Ok (fst (fifo_spec n xs (map snd cs)), q') \<and>
     holds q' (fst (snd (fifo_spec n xs (map snd cs)))) (snd (snd (fifo_spec n xs (map snd cs))))"
proof (induction cs arbitrary: q n xs)
  case (Cons c cs)
  obtain e op where c: "c = (e, op)" by (cases c)
  show ?case
  proof (cases op)
    case (Put x)
    show ?thesis
    proof (cases n)
      case 0
      then have "put e q x = Ok (2, q)" using put_full Cons.prems(1) by blast
      with Cons.IH [of q 0 xs] Cons.prems 0 c Put show ?thesis by (auto simp: split_def Let_def)
    next
      case (Suc m)
      then obtain q' where "put e q x = Ok (0, q')" "holds q' m (xs @ [x])"
        using put_room Cons.prems c Put by fastforce
      with Cons.IH [of q' m "xs @ [x]"] Cons.prems Suc c Put show ?thesis
        by (auto simp: split_def Let_def)
    qed
  next
    case Get
    show ?thesis
    proof (cases xs)
      case Nil
      then have "get e q = Ok (None, q)" using get_none Cons.prems(1) by blast
      with Cons.IH [of q n "[]"] Cons.prems Nil c Get show ?thesis by (auto simp: split_def Let_def)
    next
      case (Cons x ys)
      then obtain q' where "get e q = Ok (Some x, q')" "holds q' (Suc n) ys"
        using get_some Cons.prems c Get by fastforce
      with Cons.IH [of q' "Suc n" ys] Cons.prems \<open>xs = x # ys\<close> c Get show ?thesis
        by (auto simp: split_def Let_def)
    qed
  qed
qed simp

end

text \<open>What the specification says of order: the data that left, then the data still held,
  are the data held at first followed by the accepted ones.\<close>

fun accepted :: "nat \<Rightarrow> 'd list \<Rightarrow> 'd queue_call list \<Rightarrow> 'd list" where
  "accepted room xs [] = []"
| "accepted room xs (Put x # cs) =
     (case room of 0 \<Rightarrow> accepted 0 xs cs | Suc n \<Rightarrow> x # accepted n (xs @ [x]) cs)"
| "accepted room xs (Get # cs) =
     (case xs of [] \<Rightarrow> accepted room [] cs | x # ys \<Rightarrow> accepted (Suc room) ys cs)"

fun delivered :: "'d queue_answer list \<Rightarrow> 'd list" where
  "delivered [] = []"
| "delivered (Item (Some x) # rs) = x # delivered rs"
| "delivered (r # rs) = delivered rs"

lemma fifo_spec_order:
  "xs @ accepted n xs cs = delivered (fst (fifo_spec n xs cs)) @ snd (snd (fifo_spec n xs cs))"
  by (induction n xs cs rule: fifo_spec.induct) (auto simp: split_def Let_def split: nat.splits list.splits)

lemma fifo_spec_room:
  "fst (snd (fifo_spec n xs cs)) + length (snd (snd (fifo_spec n xs cs))) = n + length xs"
  by (induction n xs cs rule: fifo_spec.induct) (auto simp: split_def Let_def split: nat.splits list.splits)

section \<open>The queue of the code implements the interface\<close>

text \<open>
  An opened queue at rest: no thread is between a semaphore and the critical section, the
  element semaphore counts the elements and the limit semaphore the free places.
\<close>

definition queue_open :: "'d cs_queue \<Rightarrow> nat \<Rightarrow> 'd list \<Rightarrow> bool" where
  "queue_open q n xs \<longleftrightarrow> queue_rep q xs \<and> qstatus q = QOPENED \<and> qsem q = length xs \<and>
     qlimit_sem q = n \<and> n + length xs \<le> SEM_VALUE_MAX"

definition fresh_env :: "posix \<Rightarrow> 'd cs_queue \<Rightarrow> bool" where
  "fresh_env env q \<longleftrightarrow> (case block env of None \<Rightarrow> False | Some a \<Rightarrow> env = posix_ok a \<and> qheap q a = None)"

definition try_enqueue :: "posix \<Rightarrow> 'd cs_queue \<Rightarrow> 'd \<Rightarrow> (int \<times> 'd cs_queue) outcome" where
  "try_enqueue env q x = cs_queue_enqueue env q x False"

definition try_dequeue :: "posix \<Rightarrow> 'd cs_queue \<Rightarrow> ('d option \<times> 'd cs_queue) outcome" where
  "try_dequeue env q = cs_queue_dequeue env q False"

lemma fresh_envD:
  assumes "fresh_env env q"
  obtains a where "env = posix_ok a" "a \<notin> dom (qheap q)"
  using assms by (auto simp: fresh_env_def split: option.splits)

interpretation cq: fifo queue_open fresh_env try_enqueue try_dequeue
proof
  fix q :: "'d cs_queue" and n xs env and x :: 'd
  assume h: "queue_open q (Suc n) xs" and adm: "fresh_env env q"
  obtain a where a: "env = posix_ok a" "a \<notin> dom (qheap q)" using adm by (rule fresh_envD)
  show "\<exists>q'. try_enqueue env q x = Ok (0, q') \<and> queue_open q' n (xs @ [x])"
    using enqueue_ok [of q xs a n x False] h a by (fastforce simp: queue_open_def try_enqueue_def)
next
  fix q :: "'d cs_queue" and xs env and x :: 'd
  assume "queue_open q 0 xs"
  then show "try_enqueue env q x = Ok (2, q)"
    by (simp add: queue_open_def try_enqueue_def enqueue_full)
next
  fix q :: "'d cs_queue" and n xs env and x :: 'd
  assume h: "queue_open q n (x # xs)" and adm: "fresh_env env q"
  obtain a where a: "env = posix_ok a" using adm by (rule fresh_envD)
  show "\<exists>q'. try_dequeue env q = Ok (Some x, q') \<and> queue_open q' (Suc n) xs"
    using dequeue_ok [of q x xs "length xs" a False] h a
    by (fastforce simp: queue_open_def try_dequeue_def)
next
  fix q :: "'d cs_queue" and n env
  assume "queue_open q n []"
  then show "try_dequeue env q = Ok (None, q)"
    by (simp add: queue_open_def try_dequeue_def dequeue_empty)
qed

section \<open>Interleaved producers and consumers\<close>

text \<open>
  \<open>producers\<close> are the data of the threads that have passed \<^verbatim>\<open>sem_wait(q->qlimit_sem)\<close> and not
  yet entered the critical section of \<^verbatim>\<open>cs_queue_enqueue\<close>; \<open>consumers\<close> counts the threads
  between \<^verbatim>\<open>sem_wait(q->qsem)\<close> and the critical section of \<^verbatim>\<open>cs_queue_dequeue\<close>.  \<open>entered\<close> and
  \<open>left\<close> record the data linked in and handed out, \<open>aborted\<close> a fault inside a critical section.
\<close>

record 'd queue_net =
  que :: "'d cs_queue"
  producers :: "'d list"
  consumers :: nat
  entered :: "'d list"
  left :: "'d list"
  aborted :: "fault option"

text \<open>At most \<open>C\<close> threads are in the two stages of a dequeue at the same time.\<close>

inductive queue_step :: "nat \<Rightarrow> 'd queue_net \<Rightarrow> 'd queue_net \<Rightarrow> bool" for C :: nat where
  enq_wait: "aborted s = None \<Longrightarrow> sem_wait (qlimit_sem (que s)) = Ok k \<Longrightarrow>
    queue_step C s (s\<lparr>que := (que s)\<lparr>qlimit_sem := k\<rparr>, producers := x # producers s\<rparr>)"
| enq_commit: "aborted s = None \<Longrightarrow> producers s = ps @ x # ps' \<Longrightarrow> a \<notin> dom (qheap (que s)) \<Longrightarrow>
    enqueue_locked (posix_ok a) (que s) x = Ok (r, q) \<Longrightarrow>
    queue_step C s (s\<lparr>que := q, producers := ps @ ps',
      entered := entered s @ (if qstatus (que s) = QOPENED then [x] else [])\<rparr>)"
| enq_abort: "aborted s = None \<Longrightarrow> producers s = ps @ x # ps' \<Longrightarrow> a \<notin> dom (qheap (que s)) \<Longrightarrow>
    enqueue_locked (posix_ok a) (que s) x = Fault f \<Longrightarrow>
    queue_step C s (s\<lparr>aborted := Some f\<rparr>)"
| deq_wait: "aborted s = None \<Longrightarrow> consumers s < C \<Longrightarrow> sem_wait (qsem (que s)) = Ok k \<Longrightarrow>
    queue_step C s (s\<lparr>que := (que s)\<lparr>qsem := k\<rparr>, consumers := Suc (consumers s)\<rparr>)"
| deq_commit: "aborted s = None \<Longrightarrow> consumers s = Suc c \<Longrightarrow>
    dequeue_locked (posix_ok a) (que s) = Ok (r, q) \<Longrightarrow>
    queue_step C s (s\<lparr>que := q, consumers := c,
      left := left s @ (case r of None \<Rightarrow> [] | Some x \<Rightarrow> [x])\<rparr>)"
| deq_abort: "aborted s = None \<Longrightarrow> consumers s = Suc c \<Longrightarrow>
    dequeue_locked (posix_ok a) (que s) = Fault f \<Longrightarrow>
    queue_step C s (s\<lparr>aborted := Some f\<rparr>)"
| close: "aborted s = None \<Longrightarrow> cs_queue_close (posix_ok a) (que s) = (r, q) \<Longrightarrow>
    queue_step C s (s\<lparr>que := q\<rparr>)"

definition queue_start :: "'d cs_queue \<Rightarrow> 'd queue_net" where
  "queue_start q = \<lparr>que = q, producers = [], consumers = 0, entered = [], left = [], aborted = None\<rparr>"

inductive queue_reach :: "nat \<Rightarrow> 'd cs_queue \<Rightarrow> 'd queue_net \<Rightarrow> bool" for C q where
  start: "queue_reach C q (queue_start q)"
| step: "queue_reach C q s \<Longrightarrow> queue_step C s s' \<Longrightarrow> queue_reach C q s'"

inductive_cases queue_stepE: "queue_step C s s'"

text \<open>
  The accounting, for a queue created with limit \<open>L\<close>.  While the queue is open, places
  and elements are all accounted for; once it is closed, dropped data may leave a place
  unreturned and the closing threads have posted additional elements.
\<close>

definition queue_sound :: "nat \<Rightarrow> 'd queue_net \<Rightarrow> bool" where
  "queue_sound L s \<longleftrightarrow> (\<exists>xs. queue_rep (que s) xs \<and> entered s = left s @ xs \<and>
     (qstatus (que s) = QOPENED \<or> qstatus (que s) = QCLOSED) \<and>
     qlimit_sem (que s) + length (producers s) + length xs \<le> L \<and>
     (qstatus (que s) = QOPENED \<longrightarrow>
        qlimit_sem (que s) + length (producers s) + length xs = L \<and>
        qsem (que s) + consumers s = length xs))"

lemma queue_sound_start:
  "queue_open q L [] \<Longrightarrow> queue_sound L (queue_start q)"
  by (simp add: queue_open_def queue_sound_def queue_start_def)

lemma queue_rep_cong:
  "qheap q = qheap q' \<Longrightarrow> qhead q = qhead q' \<Longrightarrow> qtail q = qtail q' \<Longrightarrow> qsize q = qsize q' \<Longrightarrow>
   queue_rep q xs = queue_rep q' xs"
  by (simp add: queue_rep_def queue_cells_def)

text \<open>Entering the critical section of a dequeue, by the state of the queue.\<close>

lemma dequeue_locked_closed_empty:
  "queue_rep q [] \<Longrightarrow> qstatus q = QCLOSED \<Longrightarrow> dequeue_locked (posix_ok a) q = Ok (None, q)"
  by (auto simp: dequeue_locked_def posix_ok_def queue_rep_def queue_cells_def dest: links_length)

lemma enqueue_locked_closed:
  "qstatus q = QCLOSED \<Longrightarrow> enqueue_locked (posix_ok a) q x = Ok (0, q)"
  by (simp add: enqueue_locked_def posix_ok_def)

lemma close_fields:
  "cs_queue_close (posix_ok a) q = (r, q') \<Longrightarrow>
   r = 0 \<and> qstatus q' = QCLOSED \<and> qlimit_sem q' = qlimit_sem q \<and> (queue_rep q' xs = queue_rep q xs)"
  by (auto simp: cs_queue_close_def posix_ok_def Let_def queue_rep_def queue_cells_def split: option.splits)

text \<open>What the two critical sections do in a sound state; neither of them faults.\<close>

lemma enqueue_critical:
  assumes "queue_sound L s" "producers s = ps @ x # ps'" "a \<notin> dom (qheap (que s))" "L \<le> SEM_VALUE_MAX"
  shows "\<exists>q. enqueue_locked (posix_ok a) (que s) x = Ok (0, q) \<and>
    queue_sound L (s\<lparr>que := q, producers := ps @ ps',
      entered := entered s @ (if qstatus (que s) = QOPENED then [x] else [])\<rparr>)"
proof -
  obtain xs where xs: "queue_rep (que s) xs" "entered s = left s @ xs"
    "qstatus (que s) = QOPENED \<or> qstatus (que s) = QCLOSED"
    "qlimit_sem (que s) + length (producers s) + length xs \<le> L"
    "qstatus (que s) = QOPENED \<longrightarrow> qlimit_sem (que s) + length (producers s) + length xs = L \<and>
      qsem (que s) + consumers s = length xs"
    using assms(1) by (auto simp: queue_sound_def)
  show ?thesis
  proof (cases "qstatus (que s) = QOPENED")
    case True
    have "qsem (que s) < SEM_VALUE_MAX" using xs(5) True assms(2,4) by auto
    then obtain q where "enqueue_locked (posix_ok a) (que s) x = Ok (0, q)" "queue_rep q (xs @ [x])"
      "qstatus q = QOPENED" "qsem q = Suc (qsem (que s))" "qlimit_sem q = qlimit_sem (que s)"
      using enqueue_locked_rep [OF xs(1) True assms(3), of x] by auto
    then show ?thesis using xs True assms(2)
      by (intro exI [of _ q]) (auto simp: queue_sound_def intro!: exI [of _ "xs @ [x]"])
  next
    case False
    then have "enqueue_locked (posix_ok a) (que s) x = Ok (0, que s)"
      using xs(3) by (auto intro: enqueue_locked_closed)
    then show ?thesis using xs False assms(2)
      by (intro exI [of _ "que s"]) (auto simp: queue_sound_def intro!: exI [of _ xs])
  qed
qed

lemma dequeue_critical:
  assumes "queue_sound L s" "consumers s = 1" "L \<le> SEM_VALUE_MAX"
  shows "\<exists>r q. dequeue_locked (posix_ok a) (que s) = Ok (r, q) \<and>
    queue_sound L (s\<lparr>que := q, consumers := 0,
      left := left s @ (case r of None \<Rightarrow> [] | Some x \<Rightarrow> [x])\<rparr>)"
proof -
  obtain xs where xs: "queue_rep (que s) xs" "entered s = left s @ xs"
    "qstatus (que s) = QOPENED \<or> qstatus (que s) = QCLOSED"
    "qlimit_sem (que s) + length (producers s) + length xs \<le> L"
    "qstatus (que s) = QOPENED \<longrightarrow> qlimit_sem (que s) + length (producers s) + length xs = L \<and>
      qsem (que s) + consumers s = length xs"
    using assms(1) by (auto simp: queue_sound_def)
  show ?thesis
  proof (cases xs)
    case Nil
    then have "qstatus (que s) = QCLOSED" using xs(3,5) assms(2) by auto
    then have "dequeue_locked (posix_ok a) (que s) = Ok (None, que s)"
      using xs(1) Nil dequeue_locked_closed_empty by blast
    then show ?thesis using xs \<open>qstatus (que s) = QCLOSED\<close>
      by (intro exI [of _ None] exI [of _ "que s"]) (auto simp: queue_sound_def)
  next
    case (Cons x ys)
    have "qsem (que s) = length ys \<or> qstatus (que s) = QCLOSED" using xs(3,5) assms(2) Cons by auto
    moreover have "qlimit_sem (que s) < SEM_VALUE_MAX" using xs(4) Cons assms(3) by auto
    ultimately obtain q where "dequeue_locked (posix_ok a) (que s) = Ok (Some x, q)" "queue_rep q ys"
      "qstatus q = qstatus (que s)" "qsem q = qsem (que s)" "qlimit_sem q = Suc (qlimit_sem (que s))"
      using dequeue_locked_rep [of "que s" x ys a] xs(1) Cons by auto
    then show ?thesis using xs Cons assms(2)
      by (intro exI [of _ "Some x"] exI [of _ q]) (auto simp: queue_sound_def)
  qed
qed

lemma queue_sound_step:
  assumes "queue_step C s s'" "queue_sound L s" "C \<le> 1" "L \<le> SEM_VALUE_MAX" "consumers s \<le> C"
    and "aborted s = None"
  shows "queue_sound L s' \<and> aborted s' = None \<and> consumers s' \<le> C"
  using assms(1)
proof cases
  case (enq_wait k x)
  then show ?thesis using assms(2,5)
    by (auto simp: queue_sound_def sem_wait_Ok cong: queue_rep_cong)
next
  case (enq_commit ps x ps' a r q)
  then show ?thesis using enqueue_critical [OF assms(2) enq_commit(3,4) assms(4)] assms(5) by auto
next
  case (enq_abort ps x ps' a f)
  then show ?thesis using enqueue_critical [OF assms(2) enq_abort(3,4) assms(4)] by auto
next
  case (deq_wait k)
  then show ?thesis using assms(2,5) by (auto simp: queue_sound_def sem_wait_Ok cong: queue_rep_cong)
next
  case (deq_commit c a r q)
  then have c: "consumers s = 1" "c = 0" using assms(3,5) by auto
  then show ?thesis using dequeue_critical [OF assms(2) c(1) assms(4), of a] deq_commit by auto
next
  case (deq_abort c a f)
  then have c: "consumers s = 1" using assms(3,5) by auto
  then show ?thesis using dequeue_critical [OF assms(2) c assms(4), of a] deq_abort by auto
next
  case (close a r q)
  then show ?thesis using assms(2,5) by (auto simp: queue_sound_def close_fields)
qed

lemma queue_reach_sound:
  assumes "queue_reach C q s" "queue_open q L []" "C \<le> 1" "L \<le> SEM_VALUE_MAX"
  shows "queue_sound L s \<and> aborted s = None \<and> consumers s \<le> C"
  using assms(1)
proof induction
  case start
  then show ?case using queue_sound_start [OF assms(2)] by (simp add: queue_start_def)
next
  case (step s s')
  then show ?case using queue_sound_step [OF step.hyps(2)] assms(3,4) by blast
qed

section \<open>Properties\<close>

lemma init_open:
  assumes "cs_queue_init (Some z) True True Map.empty name limit = Ok (0, Some q)"
  shows "queue_open q (unat limit) [] \<and> unat limit \<le> SEM_VALUE_MAX"
  using assms
  by (auto simp: cs_queue_init_def sem_init_def queue_open_def queue_rep_def queue_cells_def
      split: option.splits if_splits)



text \<open>
  C18.  With any number of producers and closing threads interleaved with one consuming
  thread, no assertion of \<^verbatim>\<open>cs_queue_dequeue\<close> fails and no link dangles; the data that left the
  queue are, in order, the first of the data that entered it, and the rest is what it holds;
  it never holds more than the limit.
\<close>

theorem queue_one_consumer_safe:
  assumes "cs_queue_init (Some z) True True Map.empty name limit = Ok (0, Some q)"
    and "queue_reach 1 q s"
  shows "aborted s = None \<and>
    (\<exists>xs. queue_rep (que s) xs \<and> entered s = left s @ xs \<and> length xs \<le> unat limit)"
  using queue_reach_sound [OF assms(2)] init_open [OF assms(1)]
  by (fastforce simp: queue_sound_def)

lemma queue_one_consumer_safe_witness:
  "\<exists>q s. cs_queue_init (Some False) True True Map.empty ''tasks'' 1 = Ok (0, Some q) \<and>
     queue_reach 1 q s \<and> producers s = [7::nat] \<and> aborted s = None"
proof -
  let ?q = "\<lparr>qsize = 0, qname = ''tasks'', qstatus = QOPENED, qhead = None, qtail = None,
    qsem = 0, qlimit_sem = 1, qheap = Map.empty\<rparr> :: nat cs_queue"
  let ?s = "(queue_start ?q)\<lparr>que := ?q\<lparr>qlimit_sem := 0\<rparr>, producers := [7::nat]\<rparr>"
  have i: "cs_queue_init (Some False) True True Map.empty ''tasks'' 1 = Ok (0, Some ?q)"
    by (simp add: cs_queue_init_def sem_init_def SEM_VALUE_MAX_def)
  have "queue_step 1 (queue_start ?q) ?s"
    using enq_wait [of "queue_start ?q" 0 1 7] by (simp add: queue_start_def sem_wait_def)
  then have r: "queue_reach 1 ?q ?s" using queue_reach.start queue_reach.step by blast
  show ?thesis using queue_one_consumer_safe [OF i r] i r by fastforce
qed

text \<open>
  C19.  The assertion \<open>q->size == sem value\<close> of \<^verbatim>\<open>cs_queue_dequeue\<close> is not an invariant with two
  consuming threads: when both have passed \<^verbatim>\<open>sem_wait(q->qsem)\<close> before the first enters the
  critical section, the program aborts.
\<close>

theorem queue_two_consumers_abort:
  "\<exists>q s. cs_queue_init (Some False) True True Map.empty ''tasks'' 2 = Ok (0, Some q) \<and>
     queue_reach 2 q (s :: nat queue_net) \<and> aborted s = Some Assertion_failed"
proof -
  let ?c1 = "\<lparr>qdata = 7, qnext = None, qprev = None\<rparr> :: nat cs_qelem"
  let ?c2 = "\<lparr>qdata = 8, qnext = Some 5, qprev = None\<rparr> :: nat cs_qelem"
  let ?q = "\<lparr>qsize = 0, qname = ''tasks'', qstatus = QOPENED, qhead = None, qtail = None,
    qsem = 0, qlimit_sem = 2, qheap = Map.empty\<rparr> :: nat cs_queue"
  let ?q1 = "?q\<lparr>qsize := 1, qhead := Some 5, qtail := Some 5, qsem := 1, qlimit_sem := 1,
    qheap := [5 \<mapsto> ?c1]\<rparr>"
  let ?q2 = "?q1\<lparr>qsize := 2, qtail := Some 6, qsem := 2, qlimit_sem := 0,
    qheap := [6 \<mapsto> ?c2, 5 \<mapsto> ?c1\<lparr>qprev := Some 6\<rparr>]\<rparr>"
  let ?st = "\<lambda>q ps n en. \<lparr>que = q, producers = ps, consumers = n, entered = en, left = [], aborted = None\<rparr>"
  have i: "cs_queue_init (Some False) True True Map.empty ''tasks'' 2 = Ok (0, Some ?q)"
    by (simp add: cs_queue_init_def sem_init_def SEM_VALUE_MAX_def)
  have "queue_reach 2 ?q (?st ?q [] 0 [])"
    using queue_reach.start [of 2 ?q] by (simp add: queue_start_def)
  moreover have "queue_step 2 (?st ?q [] 0 []) (?st (?q\<lparr>qlimit_sem := 1\<rparr>) [7] 0 [])"
    using enq_wait [of "?st ?q [] 0 []" 1 2 7] by (simp add: sem_wait_Ok)
  moreover have "queue_step 2 (?st (?q\<lparr>qlimit_sem := 1\<rparr>) [7] 0 []) (?st ?q1 [] 0 [7])"
    using enq_commit [of "?st (?q\<lparr>qlimit_sem := 1\<rparr>) [7] 0 []" "[]" 7 "[]" 5 0 ?q1 2]
    by (simp add: enqueue_locked_def posix_ok_def sem_post_def SEM_VALUE_MAX_def Let_def)
  moreover have "queue_step 2 (?st ?q1 [] 0 [7]) (?st (?q1\<lparr>qlimit_sem := 0\<rparr>) [8] 0 [7])"
    using enq_wait [of "?st ?q1 [] 0 [7]" 0 2 8] by (simp add: sem_wait_Ok)
  moreover have "queue_step 2 (?st (?q1\<lparr>qlimit_sem := 0\<rparr>) [8] 0 [7]) (?st ?q2 [] 0 [7, 8])"
    using enq_commit [of "?st (?q1\<lparr>qlimit_sem := 0\<rparr>) [8] 0 [7]" "[]" 8 "[]" 6 0 ?q2 2]
    by (simp add: enqueue_locked_def posix_ok_def sem_post_def SEM_VALUE_MAX_def Let_def)
  moreover have "queue_step 2 (?st ?q2 [] 0 [7, 8]) (?st (?q2\<lparr>qsem := 1\<rparr>) [] 1 [7, 8])"
    using deq_wait [of "?st ?q2 [] 0 [7, 8]" 2 1] by (simp add: sem_wait_Ok)
  moreover have "queue_step 2 (?st (?q2\<lparr>qsem := 1\<rparr>) [] 1 [7, 8]) (?st (?q2\<lparr>qsem := 0\<rparr>) [] 2 [7, 8])"
    using deq_wait [of "?st (?q2\<lparr>qsem := 1\<rparr>) [] 1 [7, 8]" 2 0] by (simp add: sem_wait_Ok numeral_2_eq_2)
  moreover have "queue_step 2 (?st (?q2\<lparr>qsem := 0\<rparr>) [] 2 [7, 8])
      ((?st (?q2\<lparr>qsem := 0\<rparr>) [] 2 [7, 8])\<lparr>aborted := Some Assertion_failed\<rparr>)"
    using deq_abort [of "?st (?q2\<lparr>qsem := 0\<rparr>) [] 2 [7, 8]" 1 1 Assertion_failed 2]
    by (simp add: dequeue_locked_def posix_ok_def)
  ultimately have "queue_reach 2 ?q ((?st (?q2\<lparr>qsem := 0\<rparr>) [] 2 [7, 8])\<lparr>aborted := Some Assertion_failed\<rparr>)"
    by (meson queue_reach.step)
  then show ?thesis using i by fastforce
qed

text \<open>
  Data handed to a closed queue are dropped although the call reports success, and the
  place taken from the limit semaphore is not given back: the queue keeps its contents and
  loses one place with every such call.
\<close>

theorem queue_closed_drops:
  assumes "queue_rep q xs" "cs_queue_close (posix_ok a) q = (r, q')" "qlimit_sem q = Suc n"
  shows "r = 0 \<and> (\<exists>q''. cs_queue_enqueue (posix_ok b) q' x blocking = Ok (0, q'') \<and>
    queue_rep q'' xs \<and> qlimit_sem q'' = n)"
proof -
  have c: "r = 0" "qstatus q' = QCLOSED" "qlimit_sem q' = Suc n" "queue_rep q' xs"
    using close_fields [OF assms(2), of xs] assms(1,3) by auto
  then have "cs_queue_enqueue (posix_ok b) q' x blocking = Ok (0, q'\<lparr>qlimit_sem := n\<rparr>)"
    using enqueue_closed [of q' n] by simp
  moreover have "queue_rep (q'\<lparr>qlimit_sem := n\<rparr>) xs"
    using c(4) by (simp add: queue_rep_def queue_cells_def)
  ultimately show ?thesis using c(1) by auto
qed

lemma queue_closed_drops_witness:
  "\<exists>q''. cs_queue_enqueue (posix_ok 1)
     (snd (cs_queue_close (posix_ok 0)
       \<lparr>qsize = 0, qname = ''t'', qstatus = QOPENED, qhead = None, qtail = None, qsem = 0,
        qlimit_sem = 4, qheap = Map.empty\<rparr>)) (7::nat) True = Ok (0, q'') \<and> qlimit_sem q'' = 3"
  using queue_closed_drops [of "\<lparr>qsize = 0, qname = ''t'', qstatus = QOPENED, qhead = None,
      qtail = None, qsem = 0, qlimit_sem = 4, qheap = Map.empty\<rparr>" "[]" 0 0
    "snd (cs_queue_close (posix_ok 0) \<lparr>qsize = 0, qname = ''t'', qstatus = QOPENED, qhead = None,
      qtail = None, qsem = 0, qlimit_sem = 4, qheap = Map.empty\<rparr>)" 3 1 "7::nat" True]
  by (auto simp: queue_rep_def queue_cells_def cs_queue_close_def posix_ok_def Let_def sem_post_def
      SEM_VALUE_MAX_def)

text \<open>
  C20.  \<^verbatim>\<open>cs_queue_destroy\<close> on a queue that holds two or more data reads a cell it has freed:
  the loop advances before it calls \<^verbatim>\<open>free\<close>.
\<close>

theorem queue_destroy_dangles:
  assumes "queue_rep q xs" "1 < length xs"
  shows "cs_queue_destroy (Some q) = Fault Dangling_pointer"
  by (rule destroy_dangling [OF assms])

lemma queue_destroy_dangles_witness:
  "cs_queue_destroy (Some \<lparr>qsize = 2, qname = ''t'', qstatus = QOPENED, qhead = Some 5,
     qtail = Some 6, qsem = 2, qlimit_sem = 0,
     qheap = [5 \<mapsto> \<lparr>qdata = 1::nat, qnext = None, qprev = Some 6\<rparr>,
              6 \<mapsto> \<lparr>qdata = 2, qnext = Some 5, qprev = None\<rparr>]\<rparr>) = Fault Dangling_pointer"
  by (rule queue_destroy_dangles [of _ "[1, 2]"], rule queue_repI [of _ "[5, 6]"])
    (auto simp: queue_cells_def last_of_def)

end
