(* ===== verification/CS_Concurrence.thy ===== *)
theory CS_Concurrence
  imports CS_Prelude
begin

text \<open>
  The two mutex constructors of \<open>src/cs_concurrence.c\<close> and what a mutex of either kind does.
  A thread is a natural number; a mutex that is not free has an owner and, when it is
  recursive, a depth.
\<close>

section \<open>Mutexes\<close>

type_synonym thread = nat

datatype mutex_kind = Plain | Recursive

record mutex =
  kind :: mutex_kind
  owner :: "thread option"
  depth :: nat

text \<open>
  The arguments say whether the two calls of \<^verbatim>\<open>calloc\<close> succeed.  No result is tested: a null
  attribute object reaches \<^verbatim>\<open>pthread_mutexattr_settype\<close>, a null mutex
  \<^verbatim>\<open>pthread_mutex_init\<close>.
\<close>

definition cs_make_recursive_mutex :: "bool \<Rightarrow> bool \<Rightarrow> mutex outcome" where
  "cs_make_recursive_mutex m_alloc attr_alloc =
     (if \<not> attr_alloc then Fault Null_dereference
      else if \<not> m_alloc then Fault Null_dereference
      else Ok \<lparr>kind = Recursive, owner = None, depth = 0\<rparr>)"

definition cs_make_mutex :: "bool \<Rightarrow> mutex outcome" where
  "cs_make_mutex m_alloc =
     (if \<not> m_alloc then Fault Null_dereference
      else Ok \<lparr>kind = Plain, owner = None, depth = 0\<rparr>)"

definition mutex_lock :: "thread \<Rightarrow> mutex \<Rightarrow> mutex outcome" where
  "mutex_lock me m =
     (case owner m of
        None \<Rightarrow> Ok (m\<lparr>owner := Some me, depth := 1\<rparr>)
      | Some o' \<Rightarrow>
          if o' = me \<and> kind m = Recursive then Ok (m\<lparr>depth := Suc (depth m)\<rparr>) else Blocks)"

definition mutex_unlock :: "thread \<Rightarrow> mutex \<Rightarrow> mutex" where
  "mutex_unlock me m =
     (if owner m = Some me then
        (if depth m \<le> 1 then m\<lparr>owner := None, depth := 0\<rparr> else m\<lparr>depth := depth m - 1\<rparr>)
      else m)"

fun mutex_lock_times :: "nat \<Rightarrow> thread \<Rightarrow> mutex \<Rightarrow> mutex outcome" where
  "mutex_lock_times 0 me m = Ok m"
| "mutex_lock_times (Suc n) me m = obind (mutex_lock me m) (mutex_lock_times n me)"

lemma relock:
  "kind m = Recursive \<Longrightarrow> owner m = Some me \<Longrightarrow>
   mutex_lock_times n me m = Ok (m\<lparr>depth := depth m + n\<rparr>)"
  by (induction n arbitrary: m) (auto simp: mutex_lock_def)

lemma unlock_times:
  "owner m = Some me \<Longrightarrow> depth m = Suc n \<Longrightarrow> k \<le> n \<Longrightarrow>
   (mutex_unlock me ^^ k) m = m\<lparr>depth := Suc n - k\<rparr>"
  by (induction k) (auto simp: mutex_unlock_def)

text \<open>
  A mutex made by \<^verbatim>\<open>cs_make_recursive_mutex\<close> can be locked any number \<open>n > 0\<close> of times by one
  thread; every other thread is blocked while fewer than \<open>n\<close> unlocks have happened, and can
  lock it after the last one.
\<close>

lemma recursive_mutex_nesting:
  assumes "cs_make_recursive_mutex True True = Ok m" "me \<noteq> other"
  shows "\<exists>m'. mutex_lock_times (Suc n) me m = Ok m' \<and>
    (\<forall>k\<le>n. mutex_lock other ((mutex_unlock me ^^ k) m') = Blocks) \<and>
    (\<exists>m''. mutex_lock other ((mutex_unlock me ^^ Suc n) m') = Ok m'')"
proof -
  let ?m = "\<lparr>kind = Recursive, owner = Some me, depth = Suc n\<rparr>"
  have m: "m = \<lparr>kind = Recursive, owner = None, depth = 0\<rparr>"
    using assms(1) by (simp add: cs_make_recursive_mutex_def)
  have "mutex_lock_times (Suc n) me m = Ok ?m"
    using relock [of "\<lparr>kind = Recursive, owner = Some me, depth = 1\<rparr>" me n]
    by (simp add: m mutex_lock_def)
  moreover have "mutex_lock other ((mutex_unlock me ^^ k) ?m) = Blocks" if "k \<le> n" for k
    using unlock_times [of ?m me n k] that assms(2) by (simp add: mutex_lock_def)
  moreover have "owner ((mutex_unlock me ^^ Suc n) ?m) = None"
    using unlock_times [of ?m me n n] by (simp add: mutex_unlock_def)
  then have "\<exists>m''. mutex_lock other ((mutex_unlock me ^^ Suc n) ?m) = Ok m''"
    by (simp add: mutex_lock_def del: funpow.simps)
  ultimately show ?thesis by blast
qed

text \<open>A mutex made by \<^verbatim>\<open>cs_make_mutex\<close> blocks a second lock of its own owner.\<close>

lemma plain_mutex_self_deadlock:
  assumes "cs_make_mutex True = Ok m"
  shows "\<exists>m'. mutex_lock me m = Ok m' \<and> mutex_lock me m' = Blocks"
  using assms by (auto simp: cs_make_mutex_def mutex_lock_def)

end
