(* ===== verification/CS_Workerpool.thy ===== *)
theory CS_Workerpool
  imports RB_Traverse CS_Queue_Conc CS_Concurrence
begin

text \<open>
  The worker pool of \<open>src/cs_workerpool.c\<close>: its data, the operations its users call, and the
  critical sections of its two thread bodies.  The interleaving of the threads is the
  subject of \<open>CS_Pool_Conc\<close>.

  A task is a block of its own, shared by the task queue, the task table and the worker that
  performs it; a pointer to a task is the task's id, under which the block is found in the
  map \<open>tasks\<close>.  The queue and the table hold such pointers.  Ids are drawn from a counter;
  the code increments it without a lock, the model in one step.
\<close>

section \<open>Data\<close>

type_synonym cs_wp_tsk_id = int

datatype cs_wp_tsk_exit_status = CS_TSK_SUCCESS | CS_TSK_ERROR

datatype cs_workerpool_status = CS_WPS_READY | CS_WPS_WORKING

datatype worker_status = CS_WS_WORKING | CS_WS_WAITING | CS_WS_TSK_ASSIGNED | CS_WS_READY

datatype tsk_runtime_status =
  CS_TSK_RT_RUNNING | CS_TSK_RT_WAITING | CS_TSK_RT_DONE | CS_TSK_RT_INVALID_TASK

record 'o cs_wp_tsk_res =
  tsk_exit_code :: cs_wp_tsk_exit_status
  tsk_res_data :: "'o option"

record ('c, 'i, 'o) cs_wp_tsk =
  tsk_code :: 'c
  tsk_id :: cs_wp_tsk_id
  tsk_in :: 'i
  args_length :: nat
  tsk_status :: tsk_runtime_status
  tsk_res :: "'o cs_wp_tsk_res"
  task_sem :: sem_t

record worker =
  worker_waiting_semaphore :: sem_t
  assigned_tsk :: "cs_wp_tsk_id option"
  w_status :: worker_status
  shutdown :: int

record ('c, 'i, 'o) cs_workerpool =
  wp_status :: cs_workerpool_status
  nthreads :: nat
  wid :: int
  wp_name :: string
  workerpool_semaphore :: sem_t
  workers_data :: "nat \<Rightarrow> worker"
  tsk_res_table :: "cs_wp_tsk_id rb_table"
  tsk_q :: "cs_wp_tsk_id cs_queue"
  tasks :: "cs_wp_tsk_id \<rightharpoonup> ('c, 'i, 'o) cs_wp_tsk"

fun status_str :: "cs_workerpool_status \<Rightarrow> string" where
  "status_str CS_WPS_READY = ''CS_WPS_READY''"
| "status_str CS_WPS_WORKING = ''CS_WPS_WORKING''"

fun w_status_str :: "worker_status \<Rightarrow> string" where
  "w_status_str CS_WS_READY = ''CS_WS_READY''"
| "w_status_str CS_WS_WAITING = ''CS_WS_WAITING''"
| "w_status_str CS_WS_WORKING = ''CS_WS_WORKING''"
| "w_status_str CS_WS_TSK_ASSIGNED = ''CS_WS_TSK_ASSIGNED''"

section \<open>Small operations\<close>

definition cs_wp_get_status :: "('c, 'i, 'o) cs_workerpool \<Rightarrow> cs_workerpool_status" where
  "cs_wp_get_status wp = wp_status wp"

definition cs_wp_set_status ::
  "('c, 'i, 'o) cs_workerpool \<Rightarrow> cs_workerpool_status \<Rightarrow> ('c, 'i, 'o) cs_workerpool" where
  "cs_wp_set_status wp new_status = wp\<lparr>wp_status := new_status\<rparr>"

definition cs_wp_set_worker_status :: "worker_status \<Rightarrow> worker \<Rightarrow> worker" where
  "cs_wp_set_worker_status new_status w = w\<lparr>w_status := new_status\<rparr>"

text \<open>The static counters behind the three kinds of id.\<close>

definition cs_wp_new_tsk_id :: "int \<Rightarrow> cs_wp_tsk_id \<times> int" where
  "cs_wp_new_tsk_id counter = (counter + 1, counter + 1)"

definition cs_wp_new_wp_id :: "int \<Rightarrow> int \<times> int" where
  "cs_wp_new_wp_id counter = (counter + 1, counter + 1)"

definition cs_wp_new_worker_id :: "int \<Rightarrow> int \<times> int" where
  "cs_wp_new_worker_id counter = (counter + 1, counter + 1)"

definition cs_wp_cmp_tsk :: "cs_wp_tsk_id \<Rightarrow> cs_wp_tsk_id \<Rightarrow> int" where
  "cs_wp_cmp_tsk ts1 ts2 = (if ts1 > ts2 then 1 else if ts1 < ts2 then -1 else 0)"

interpretation tt: keyed "\<lambda>i :: int. i" cs_wp_cmp_tsk
  by unfold_locales (auto simp: cs_wp_cmp_tsk_def)

definition cs_wp_tsk_set_status ::
  "('c, 'i, 'o) cs_wp_tsk option \<Rightarrow> tsk_runtime_status \<Rightarrow> ('c, 'i, 'o) cs_wp_tsk option" where
  "cs_wp_tsk_set_status tsk new_status =
     (case tsk of None \<Rightarrow> None | Some t \<Rightarrow> Some (t\<lparr>tsk_status := new_status\<rparr>))"

definition cs_wp_tsk_get_status :: "('c, 'i, 'o) cs_wp_tsk option \<Rightarrow> tsk_runtime_status" where
  "cs_wp_tsk_get_status tsk =
     (case tsk of None \<Rightarrow> CS_TSK_RT_INVALID_TASK | Some t \<Rightarrow> tsk_status t)"

definition cs_wp_tsk_queue_size :: "('c, 'i, 'o) cs_workerpool \<Rightarrow> int" where
  "cs_wp_tsk_queue_size wp = cs_queue_size (tsk_q wp)"

section \<open>Initialisation\<close>

text \<open>
  The name of a pool and the bytes the code allocates for it.  The size is computed with
  \<open>(float) wid / 10\<close>, cut to an integer by \<open>abs\<close>, which is \<open>wid div 10\<close> for ids below \<open>2 ^ 20\<close>.
\<close>

definition pool_name :: "nat \<Rightarrow> string \<Rightarrow> string" where
  "pool_name w name = ''cs_workerpool-'' @ decimal w @ ''-'' @ name"

definition pool_name_size :: "nat \<Rightarrow> string \<Rightarrow> nat" where
  "pool_name_size w name = w div 10 + length ''cs_workerpool'' + 4 + length name"

text \<open>\<^verbatim>\<open>_cs_wp_init_worker\<close>; the arguments say which of its allocations succeed.\<close>

definition cs_wp_init_worker :: "bool \<Rightarrow> bool \<Rightarrow> worker option \<Rightarrow> (int \<times> worker) outcome" where
  "cs_wp_init_worker sem_alloc mutex_alloc wd =
     (case wd of
        None \<Rightarrow> Fault Null_dereference
      | Some wd \<Rightarrow>
          if \<not> sem_alloc then Ok (-1, wd)
          else if \<not> mutex_alloc then Ok (-1, wd\<lparr>worker_waiting_semaphore := 0\<rparr>)
          else Ok (0, wd\<lparr>worker_waiting_semaphore := 0, assigned_tsk := None,
                         w_status := CS_WS_READY, shutdown := 0\<rparr>))"

text \<open>What \<^verbatim>\<open>calloc\<close> leaves in the array of the workers.\<close>

definition zero_worker :: worker where
  "zero_worker = \<lparr>worker_waiting_semaphore = 0, assigned_tsk = None, w_status = CS_WS_WORKING, shutdown = 0\<rparr>"

record wp_alloc =
  name_ok :: bool
  wpsem_ok :: bool
  workers_ok :: bool
  worker_sem_ok :: "nat \<Rightarrow> bool"
  worker_mutex_ok :: "nat \<Rightarrow> bool"
  table_ok :: bool
  tree_ok :: bool
  queue_ok :: bool
  queue_mutex_ok :: bool
  queue_sem_ok :: bool
  mutexes_ok :: bool

definition wp_alloc_ok :: wp_alloc where
  "wp_alloc_ok = \<lparr>name_ok = True, wpsem_ok = True, workers_ok = True, worker_sem_ok = (\<lambda>_. True),
     worker_mutex_ok = (\<lambda>_. True), table_ok = True, tree_ok = True, queue_ok = True,
     queue_mutex_ok = True, queue_sem_ok = True, mutexes_ok = True\<rparr>"

text \<open>
  \<^verbatim>\<open>_cs_wp_init_tsk_res_table\<close>: the table (null when \<^verbatim>\<open>rb_create\<close> fails, which is not
  tested) and the queue.  The block of the queue comes from \<^verbatim>\<open>malloc\<close> and is not zeroed.
\<close>

definition cs_wp_init_tsk_res_table ::
  "wp_alloc \<Rightarrow> string \<Rightarrow> int \<Rightarrow>
   (int \<times> cs_wp_tsk_id rb_table option \<times> cs_wp_tsk_id cs_queue option) outcome" where
  "cs_wp_init_tsk_res_table a qn qs =
     (if \<not> table_ok a then Ok (-1, None, None)
      else
        obind (cs_make_recursive_mutex (mutexes_ok a) (mutexes_ok a))
          (\<lambda>_. let t = rb_create (tree_ok a) cs_wp_cmp_tsk in
             if \<not> queue_ok a then Ok (-1, t, None)
             else
               obind (cs_queue_init (Some False) (queue_mutex_ok a) (queue_sem_ok a) Map.empty qn
                        (word_of_int qs))
                 (\<lambda>(r, q). if r < 0 then Ok (-1, t, q) else Ok (0, t, q))))"

fun init_workers :: "wp_alloc \<Rightarrow> nat \<Rightarrow> (nat \<Rightarrow> worker) \<Rightarrow> (nat \<Rightarrow> worker) outcome" where
  "init_workers a 0 ws = Ok ws"
| "init_workers a (Suc n) ws =
     obind (init_workers a n ws)
       (\<lambda>ws. obind (cs_wp_init_worker (worker_sem_ok a n) (worker_mutex_ok a n) (Some (ws n)))
         (\<lambda>(_, w). Ok (ws(n := w))))"

text \<open>
  \<^verbatim>\<open>cs_wp_init\<close>.  A null pool and a thread count that is not positive are rejected; the results
  of the two initialisation functions it calls are ignored, so a missing table or queue is
  met later as a null pointer (here: at once).
\<close>

definition cs_wp_init ::
  "wp_alloc \<Rightarrow> bool \<Rightarrow> int \<Rightarrow> int \<Rightarrow> string \<Rightarrow> int \<Rightarrow>
   (int \<times> ('c, 'i, 'o) cs_workerpool option \<times> int) outcome" where
  "cs_wp_init a wp_null threads tsk_queue_size name counter =
     (if wp_null then Ok (-1, None, counter)
      else if threads \<le> 0 then Ok (-1, None, counter)
      else
        (let (w, counter) = cs_wp_new_wp_id counter; n = nat threads in
         if \<not> name_ok a then Fault Null_dereference
         else if \<not> wpsem_ok a then Ok (-1, None, counter)
         else
           (case sem_init n of
              None \<Rightarrow> Ok (-1, None, counter)
            | Some s \<Rightarrow>
                if \<not> workers_ok a then Fault Null_dereference
                else
                  obind (init_workers a n (\<lambda>_. zero_worker))
                    (\<lambda>ws. obind (cs_wp_init_tsk_res_table a (pool_name (nat w) name) tsk_queue_size)
                      (\<lambda>(_, t, q). obind (cs_make_recursive_mutex (mutexes_ok a) (mutexes_ok a))
                        (\<lambda>_. case (t, q) of
                            (Some t, Some q) \<Rightarrow>
                              Ok (0, Some (cs_wp_set_status
                                \<lparr>wp_status = CS_WPS_READY, nthreads = n, wid = w,
                                 wp_name = pool_name (nat w) name, workerpool_semaphore = s,
                                 workers_data = ws, tsk_res_table = t, tsk_q = q, tasks = Map.empty\<rparr>
                                CS_WPS_READY), counter)
                          | _ \<Rightarrow> Fault Null_dereference))))))"

section \<open>Start, shutdown, destruction\<close>

text \<open>
  \<^verbatim>\<open>_cs_wp_start_workers\<close> for the workers from \<open>i\<close> on; \<open>create j\<close> is the success of
  \<^verbatim>\<open>pthread_create\<close> for worker \<open>j\<close>.
\<close>

fun start_workers_loop :: "(nat \<Rightarrow> bool) \<Rightarrow> nat \<Rightarrow> nat \<Rightarrow> (nat \<Rightarrow> worker) \<Rightarrow> int \<times> (nat \<Rightarrow> worker)" where
  "start_workers_loop create i 0 ws = (0, ws)"
| "start_workers_loop create i (Suc k) ws =
     (let ws = ws(i := cs_wp_set_worker_status CS_WS_WAITING (ws i)) in
      if \<not> create i then (-1, ws) else start_workers_loop create (Suc i) k ws)"

definition cs_wp_start_workers ::
  "(nat \<Rightarrow> bool) \<Rightarrow> ('c, 'i, 'o) cs_workerpool \<Rightarrow> int \<times> ('c, 'i, 'o) cs_workerpool" where
  "cs_wp_start_workers create wp =
     (let (r, ws) = start_workers_loop create 0 (nthreads wp) (workers_data wp)
      in (r, wp\<lparr>workers_data := ws\<rparr>))"

definition cs_wp_start ::
  "(nat \<Rightarrow> bool) \<Rightarrow> bool \<Rightarrow> ('c, 'i, 'o) cs_workerpool \<Rightarrow> int \<times> ('c, 'i, 'o) cs_workerpool" where
  "cs_wp_start create create_controller wp =
     (if cs_wp_get_status wp \<noteq> CS_WPS_READY then (-1, wp)
      else
        (let (r, wp) = cs_wp_start_workers create wp in
         if r \<noteq> 0 then (-1, wp)
         else if \<not> create_controller then (-1, wp)
         else (0, cs_wp_set_status wp CS_WPS_WORKING)))"

text \<open>
  \<^verbatim>\<open>_cs_wp_shutdown_workers\<close>: one turn of its loop is the assignment to the flag, under the
  worker's mutex, and then a post of the worker's semaphore.
\<close>

definition shutdown_flag :: "worker \<Rightarrow> worker" where
  "shutdown_flag w = w\<lparr>shutdown := 1\<rparr>"

text \<open>A post of a worker's semaphore, by \<^verbatim>\<open>_cs_wp_shutdown_workers\<close> or by the controller.\<close>

definition worker_notify :: "worker \<Rightarrow> worker" where
  "worker_notify w =
     (case sem_post (worker_waiting_semaphore w) of
        None \<Rightarrow> w
      | Some s \<Rightarrow> w\<lparr>worker_waiting_semaphore := s\<rparr>)"

text \<open>
  \<^verbatim>\<open>cs_wp_shutdown\<close>: \<open>join\<close> is what \<^verbatim>\<open>pthread_join\<close> on the controller does, which returns when
  the controller has ended: its result and the pool the threads leave behind.
\<close>

definition cs_wp_shutdown ::
  "posix \<Rightarrow> (('c, 'i, 'o) cs_workerpool \<Rightarrow> (int \<times> ('c, 'i, 'o) cs_workerpool) outcome) \<Rightarrow>
   ('c, 'i, 'o) cs_workerpool \<Rightarrow> (int \<times> ('c, 'i, 'o) cs_workerpool) outcome" where
  "cs_wp_shutdown env join wp =
     (if cs_wp_get_status wp \<noteq> CS_WPS_WORKING then Ok (0, wp)
      else
        (let (r, q) = cs_queue_close env (tsk_q wp); wp = wp\<lparr>tsk_q := q\<rparr> in
         if r \<noteq> 0 then Ok (-1, wp)
         else obind (join wp)
           (\<lambda>(r, wp). if r \<noteq> 0 then Ok (-1, wp) else Ok (0, cs_wp_set_status wp CS_WPS_READY))))"

text \<open>\<^verbatim>\<open>cs_wp_destroy\<close> shuts the pool down and destroys its queue; nothing else of the pool remains.\<close>

definition cs_wp_destroy ::
  "posix \<Rightarrow> (('c, 'i, 'o) cs_workerpool \<Rightarrow> (int \<times> ('c, 'i, 'o) cs_workerpool) outcome) \<Rightarrow>
   ('c, 'i, 'o) cs_workerpool \<Rightarrow> unit outcome" where
  "cs_wp_destroy env join wp =
     obind (cs_wp_shutdown env join wp)
       (\<lambda>(_, wp). obind (cs_queue_destroy (Some (tsk_q wp))) (\<lambda>_. Ok ()))"

section \<open>Tasks\<close>

definition cs_wp_tsk_enqueue ::
  "posix \<Rightarrow> bool \<times> bool \<times> bool \<Rightarrow> 'c \<Rightarrow> 'i \<Rightarrow> nat \<Rightarrow> ('c, 'i, 'o) cs_workerpool \<Rightarrow> int \<Rightarrow>
   (int \<times> ('c, 'i, 'o) cs_workerpool \<times> int) outcome" where
  "cs_wp_tsk_enqueue env alloc code args args_len wp counter =
     (let (tsk_alloc, mutex_alloc, node_alloc) = alloc in
      if cs_wp_get_status wp \<noteq> CS_WPS_WORKING then Ok (-1, wp, counter)
      else if \<not> tsk_alloc then Fault Null_dereference
      else
        (let (i, counter) = cs_wp_new_tsk_id counter in
         obind (cs_make_recursive_mutex mutex_alloc mutex_alloc)
           (\<lambda>_. let tsk = \<lparr>tsk_code = code, tsk_id = i, tsk_in = args, args_length = args_len,
                          tsk_status = CS_TSK_RT_WAITING,
                          tsk_res = \<lparr>tsk_exit_code = CS_TSK_SUCCESS, tsk_res_data = None\<rparr>,
                          task_sem = 0\<rparr>;
                    wp = wp\<lparr>tasks := (tasks wp)(i \<mapsto> tsk)\<rparr> in
            obind (cs_queue_enqueue env (tsk_q wp) i True)
              (\<lambda>(r, q).
                let wp = wp\<lparr>tsk_q := q\<rparr> in
                if r < 0 then Ok (-1, wp, counter)
                else
                  (let old_count = rb_count (tsk_res_table wp) in
                   obind (check (rb_find (tsk_res_table wp) i = None) Assertion_failed)
                     (\<lambda>_. obind (rb_insert node_alloc (tsk_res_table wp) i)
                       (\<lambda>(_, t). obind (check (rb_count t = old_count + 1) Assertion_failed)
                         (\<lambda>_. obind (check (rb_find t i \<noteq> None) Assertion_failed)
                           (\<lambda>_. Ok (i, wp\<lparr>tsk_res_table := t\<rparr>, counter)))))))))) "

text \<open>
  \<^verbatim>\<open>cs_wp_tsk_wait\<close> up to the wait on the task's semaphore: a task that is not in the table,
  or is done, is not waited for; otherwise the caller takes a unit of the semaphore or
  blocks.
\<close>

definition cs_wp_tsk_wait ::
  "('c, 'i, 'o) cs_workerpool \<Rightarrow> cs_wp_tsk_id \<Rightarrow> ('c, 'i, 'o) cs_workerpool outcome" where
  "cs_wp_tsk_wait wp i =
     (case rb_find (tsk_res_table wp) i of
        None \<Rightarrow> Ok wp
      | Some found \<Rightarrow>
          (case tasks wp found of
             None \<Rightarrow> Fault Dangling_pointer
           | Some t \<Rightarrow>
               if tsk_status t = CS_TSK_RT_DONE then Ok wp
               else obind (sem_wait (task_sem t))
                 (\<lambda>s. Ok (wp\<lparr>tasks := (tasks wp)(found \<mapsto> t\<lparr>task_sem := s\<rparr>)\<rparr>))))"

definition cs_wp_get_tsk_res_copy :: "bool \<Rightarrow> 'o cs_wp_tsk_res \<Rightarrow> 'o cs_wp_tsk_res option" where
  "cs_wp_get_tsk_res_copy alloc res = (if alloc then Some res else None)"

text \<open>The two accessors of results, after their call of \<^verbatim>\<open>cs_wp_tsk_wait\<close> has returned.\<close>

definition get_res_after_wait ::
  "bool \<Rightarrow> ('c, 'i, 'o) cs_workerpool \<Rightarrow> cs_wp_tsk_id \<Rightarrow> 'o cs_wp_tsk_res option outcome" where
  "get_res_after_wait alloc wp i =
     (case rb_find (tsk_res_table wp) i of
        None \<Rightarrow> Ok None
      | Some found \<Rightarrow>
          (case tasks wp found of
             None \<Rightarrow> Fault Dangling_pointer
           | Some t \<Rightarrow> Ok (cs_wp_get_tsk_res_copy alloc (tsk_res t))))"

definition cs_wp_tsk_get_res ::
  "bool \<Rightarrow> ('c, 'i, 'o) cs_workerpool \<Rightarrow> cs_wp_tsk_id \<Rightarrow>
   ('o cs_wp_tsk_res option \<times> ('c, 'i, 'o) cs_workerpool) outcome" where
  "cs_wp_tsk_get_res alloc wp i =
     obind (cs_wp_tsk_wait wp i)
       (\<lambda>wp. obind (get_res_after_wait alloc wp i) (\<lambda>r. Ok (r, wp)))"

text \<open>\<^verbatim>\<open>cs_wp_tsk_pop_res\<close> goes on after reporting that the task was not found.\<close>

definition pop_res_after_wait ::
  "bool \<Rightarrow> ('c, 'i, 'o) cs_workerpool \<Rightarrow> cs_wp_tsk_id \<Rightarrow>
   ('o cs_wp_tsk_res option \<times> ('c, 'i, 'o) cs_workerpool) outcome" where
  "pop_res_after_wait alloc wp i =
     obind (rb_delete (tsk_res_table wp) i)
       (\<lambda>(found, t).
          case found of
            None \<Rightarrow> Fault Null_dereference
          | Some p \<Rightarrow>
              (case tasks wp p of
                 None \<Rightarrow> Fault Dangling_pointer
               | Some tsk \<Rightarrow>
                   let wp = wp\<lparr>tsk_res_table := t\<rparr> in
                   (case cs_wp_get_tsk_res_copy alloc (tsk_res tsk) of
                      None \<Rightarrow> Ok (None, wp)
                    | Some res \<Rightarrow> Ok (Some res, wp\<lparr>tasks := (tasks wp)(p := None)\<rparr>))))"

definition cs_wp_tsk_pop_res ::
  "bool \<Rightarrow> ('c, 'i, 'o) cs_workerpool \<Rightarrow> cs_wp_tsk_id \<Rightarrow>
   ('o cs_wp_tsk_res option \<times> ('c, 'i, 'o) cs_workerpool) outcome" where
  "cs_wp_tsk_pop_res alloc wp i =
     obind (cs_wp_tsk_wait wp i) (\<lambda>wp. pop_res_after_wait alloc wp i)"

section \<open>The critical sections of a worker and of the controller\<close>

text \<open>
  A worker that has passed \<^verbatim>\<open>sem_wait\<close>: the assertion outside its mutex, then the section in
  which it leaves (\<open>None\<close>) or takes the task assigned to it.
\<close>

definition worker_awake :: "worker \<Rightarrow> unit outcome" where
  "worker_awake w = check (shutdown w = 1 \<or> w_status w = CS_WS_TSK_ASSIGNED) Assertion_failed"

definition worker_take :: "worker \<Rightarrow> (cs_wp_tsk_id option \<times> worker) outcome" where
  "worker_take w =
     (if shutdown w = 1 \<and> assigned_tsk w = None then Ok (None, w)
      else
        (case assigned_tsk w of
           None \<Rightarrow> Fault Assertion_failed
         | Some t \<Rightarrow>
             obind (check (w_status w = CS_WS_TSK_ASSIGNED) Assertion_failed)
               (\<lambda>_. Ok (Some t, w\<lparr>w_status := CS_WS_WORKING\<rparr>))))"

text \<open>The section after the task: the worker becomes free and posts the pool's semaphore.\<close>

definition worker_release :: "worker \<Rightarrow> sem_t \<Rightarrow> (worker \<times> sem_t) outcome" where
  "worker_release w wpsem =
     obind (check (w_status w = CS_WS_WORKING) Assertion_failed)
       (\<lambda>_. case sem_post wpsem of
          None \<Rightarrow> Fault Exit_failure
        | Some s \<Rightarrow> Ok (w\<lparr>w_status := CS_WS_WAITING, assigned_tsk := None\<rparr>, s))"

text \<open>The task's result, and \<^verbatim>\<open>_cs_wp_signal_task_end\<close>.\<close>

definition task_done ::
  "cs_wp_tsk_exit_status \<Rightarrow> 'o option \<Rightarrow> ('c, 'i, 'o) cs_wp_tsk \<Rightarrow> ('c, 'i, 'o) cs_wp_tsk" where
  "task_done ex_st out t =
     t\<lparr>tsk_status := CS_TSK_RT_DONE, tsk_res := \<lparr>tsk_exit_code = ex_st, tsk_res_data = out\<rparr>\<rparr>"

definition cs_wp_signal_task_end :: "('c, 'i, 'o) cs_wp_tsk \<Rightarrow> ('c, 'i, 'o) cs_wp_tsk" where
  "cs_wp_signal_task_end t =
     (case sem_post (task_sem t) of None \<Rightarrow> t | Some s \<Rightarrow> t\<lparr>task_sem := s\<rparr>)"

definition cs_wp_assign_tsk_to_worker :: "cs_wp_tsk_id option \<Rightarrow> int \<Rightarrow> worker \<Rightarrow> worker outcome" where
  "cs_wp_assign_tsk_to_worker t windex w =
     obind (check (t \<noteq> None) Assertion_failed)
       (\<lambda>_. obind (check (windex \<ge> 0) Assertion_failed)
         (\<lambda>_. Ok (w\<lparr>assigned_tsk := t, w_status := CS_WS_TSK_ASSIGNED\<rparr>)))"

definition cs_wp_get_worker_status :: "worker \<Rightarrow> worker_status" where
  "cs_wp_get_worker_status w = w_status w"

text \<open>\<^verbatim>\<open>_cs_wp_tsk_dequeue\<close>.\<close>

definition cs_wp_tsk_dequeue ::
  "posix \<Rightarrow> ('c, 'i, 'o) cs_workerpool \<Rightarrow> (cs_wp_tsk_id option \<times> ('c, 'i, 'o) cs_workerpool) outcome" where
  "cs_wp_tsk_dequeue env wp =
     obind (cs_queue_dequeue env (tsk_q wp) True) (\<lambda>(t, q). Ok (t, wp\<lparr>tsk_q := q\<rparr>))"

end
