(* ===== verification/RB_Correct.thy ===== *)
theory RB_Correct
  imports RB_Copy CS_Workerpool
begin

text \<open>
  What the tables of \<open>rb.c\<close> promise their users, for every comparison function that
  compares by a key of a linear order (\<open>keyed\<close>), with the comparison function of the
  task table as the concrete instance.
\<close>

section \<open>Tables against maps\<close>

definition empty_table :: "('a \<Rightarrow> 'a \<Rightarrow> int) \<Rightarrow> 'a rb_table" where
  "empty_table cmp = \<lparr>rb_root = Null, rb_compare = cmp, rb_count = 0, rb_generation = 0\<rparr>"

lemma rb_create_empty: "rb_create True cmp = Some (empty_table cmp)"
  by (simp add: rb_create_def empty_table_def)

lemma empty_table_ok: "rb_for cmp (empty_table cmp)" "items (empty_table cmp) = []"
  by (simp_all add: empty_table_def rb_for_def rb_valid_def items_def rb_inv_def ordered_def)

text \<open>A valid table with room for \<open>n\<close> more items.\<close>

definition rb_ok :: "('a \<Rightarrow> 'a \<Rightarrow> int) \<Rightarrow> nat \<Rightarrow> 'a rb_table \<Rightarrow> bool" where
  "rb_ok cmp n t \<longleftrightarrow> rb_for cmp t \<and> length (items t) + n < 2 ^ 24"

context keyed
begin

lemma delete_items:
  assumes "rb_for cmp t" "rb_roomy t"
  shows "\<exists>t'. rb_delete t x = Ok (list_find cmp x (items t), t') \<and> rb_for cmp t' \<and>
    items t' = list_delete cmp x (items t)"
  using delete_map [OF assms, of x] by (auto simp: list_find_map)

lemma replace_new:
  assumes "rb_for cmp t" "rb_roomy t" "list_find cmp x (items t) = None"
  shows "\<exists>t'. rb_replace True t x = Ok (None, t') \<and> rb_for cmp t' \<and> items t' = list_insert cmp x (items t)"
  using probe_new [OF assms] by (auto simp: rb_replace_def)

lemma rb_ordered_table:
  "ordered_table key cmp (rb_ok cmp) items (rb_insert True) (rb_replace True) rb_delete rb_find"
proof
  fix n and t :: "'a rb_table" and x d
  show "rb_ok cmp n t" if "rb_ok cmp (Suc n) t" using that by (simp add: rb_ok_def)
  show "ordered cmp (items t)" if "rb_ok cmp n t" using that rb_forD(3) by (auto simp: rb_ok_def)
  show "rb_find t x = list_find cmp x (items t)" if "rb_ok cmp n t"
    using that by (simp add: rb_ok_def find_map list_find_map)
  assume "rb_ok cmp (Suc n) t"
  then have t: "rb_for cmp t" "rb_roomy t" "length (items t) + Suc n < 2 ^ 24"
    by (auto simp: rb_ok_def rb_roomy_def)
  show "\<exists>t'. rb_insert True t x = Ok (None, t') \<and> rb_ok cmp n t' \<and> items t' = list_insert cmp x (items t)"
    if "list_find cmp x (items t) = None"
    using insert_new [OF t(1,2) that] length_list_insert [OF that] t(3) by (auto simp: rb_ok_def)
  show "\<exists>t'. rb_insert True t x = Ok (if d = x then None else Some d, t') \<and> rb_ok cmp n t' \<and> items t' = items t"
    if "list_find cmp x (items t) = Some d"
    using insert_duplicate [OF t(1,2) that, of True] t by (simp add: rb_ok_def)
  show "\<exists>t'. rb_replace True t x = Ok (None, t') \<and> rb_ok cmp n t' \<and> items t' = list_insert cmp x (items t)"
    if "list_find cmp x (items t) = None"
    using replace_new [OF t(1,2) that] length_list_insert [OF that] t(3) by (auto simp: rb_ok_def)
  show "\<exists>t'. rb_replace True t x = Ok (if d = x then None else Some d, t') \<and> rb_ok cmp n t' \<and>
      items t' = list_store cmp x (\<lambda>_. x) (items t)"
    if "list_find cmp x (items t) = Some d"
    using replace_duplicate [OF t(1,2) that, of True] t(3) by (auto simp: rb_ok_def list_store_def)
  have "length (list_delete cmp x (items t)) \<le> length (items t)" by (simp add: list_delete_def)
  then show "\<exists>t'. rb_delete t x = Ok (list_find cmp x (items t), t') \<and> rb_ok cmp n t' \<and>
      items t' = list_delete cmp x (items t)"
    using delete_items [OF t(1,2), of x] t(3) by (auto simp: rb_ok_def)
qed

end

text \<open>The task table of the worker pool keeps the contract.\<close>

interpretation ids: ordered_table "\<lambda>i :: int. i" cs_wp_cmp_tsk "rb_ok cs_wp_cmp_tsk" items
  "rb_insert True" "rb_replace True" rb_delete rb_find
  by (rule tt.rb_ordered_table)

text \<open>A table of three task ids.\<close>

definition three_ids :: "int rb_table" where
  "three_ids = \<lparr>rb_root = Node (Node Null 1 RB_RED Null) 3 RB_BLACK (Node Null 5 RB_RED Null),
     rb_compare = cs_wp_cmp_tsk, rb_count = 3, rb_generation = 3\<rparr>"

lemma three_ids_ok: "rb_for cs_wp_cmp_tsk three_ids" "rb_roomy three_ids" "items three_ids = [1, 3, 5]"
  by (simp_all add: three_ids_def rb_for_def rb_valid_def rb_roomy_def items_def rb_inv_def ordered_def
      cs_wp_cmp_tsk_def)

section \<open>Properties\<close>

text \<open>
  C6.  Any sequence of fewer than \<open>2 ^ 24\<close> insertions, replacements, deletions and searches
  on a new table runs without fault (the stacks of 48 entries never overflow), answers as the
  same sequence on a map from keys to items does, and leaves a balanced ordered tree that
  represents the final map.
\<close>

theorem rb_refines_map:
  assumes "keyed key cmp" "length cs < 2 ^ 24"
  shows "\<exists>t as t'. rb_create True cmp = Some t \<and>
    table_run (rb_insert True) (rb_replace True) rb_delete rb_find cs t = Ok (as, t') \<and> rb_valid t' \<and>
    map_run key cs Map.empty = (as, table_map key t')"
proof -
  have "rb_ok cmp (length cs) (empty_table cmp)" using assms(2) by (simp add: rb_ok_def empty_table_ok)
  from ordered_table.run_refines [OF keyed.rb_ordered_table [OF assms(1)] this]
  show ?thesis using rb_create_empty [of cmp]
    by (auto simp: empty_table_ok(2) rb_ok_def rb_for_def item_map_def table_map_def fun_eq_iff)
qed

lemma task_keys: "keyed (\<lambda>i :: int. i) cs_wp_cmp_tsk"
  by (rule tt.keyed_axioms)

lemma rb_refines_map_witness:
  "\<exists>t as t'. rb_create True cs_wp_cmp_tsk = Some t \<and>
     table_run (rb_insert True) (rb_replace True) rb_delete rb_find
       [Insert 5, Insert 3, Insert 5, Find 3, Delete 5, Find 5] t = Ok (as, t') \<and>
     as = [None, None, None, Some 3, Some 5, None]"
  using rb_refines_map [OF task_keys, of "[Insert 5, Insert 3, Insert 5, Find 3, Delete 5, Find 5]"]
  by auto

text \<open>
  A loop with \<^verbatim>\<open>rb_t_next\<close> over a valid table returns every item exactly once, in
  strictly increasing order of the keys, and then null; \<^verbatim>\<open>rb_destroy\<close> hands over the items
  in the same order.
\<close>

theorem rb_traversal_in_order:
  assumes "keyed key cmp" "rb_for cmp t" "rb_roomy t" "length (items t) < n"
  shows "\<exists>xs. rb_collect n t (rb_t_init t) = Ok xs \<and> rb_destroy t = xs \<and>
    sorted_wrt (<) (map key xs) \<and> set xs = ran (table_map key t)"
proof -
  have v: "rb_valid t" using assms(2) by (simp add: rb_for_def)
  have "sorted_wrt (<) (map key (items t))"
    using rb_forD(3) [OF assms(2)] by (simp add: keyed.ordered_iff [OF assms(1)])
  moreover have "set (items t) = ran (table_map key t)"
    using keyed.map_of_item [OF assms(1,2)] keyed.map_item [OF assms(1)] by (auto simp: ran_def)
  ultimately show ?thesis using collect_all [OF v assms(3,4)]
    by (simp add: rb_destroy_def destroy_inorder items_def)
qed

lemma rb_traversal_in_order_witness:
  "\<exists>xs. rb_collect 4 three_ids (rb_t_init three_ids) = Ok xs \<and> rb_destroy three_ids = xs \<and> sorted_wrt (<) xs"
  using rb_traversal_in_order [OF task_keys three_ids_ok(1,2), of 4] by (auto simp: three_ids_ok(3))

text \<open>
  Balance: a valid tree of \<open>n\<close> items is at most \<open>2 log (n + 1)\<close> nodes high.
\<close>

theorem rb_height_logarithmic:
  assumes "rb_valid t"
  shows "2 ^ ((rb_height (rb_root t) + 1) div 2) \<le> length (items t) + 1"
proof -
  have i: "invc (rb_root t)" "invh (rb_root t)" "\<not> is_red (rb_root t)"
    using assms by (auto simp: rb_valid_def rb_inv_def)
  have "rb_height (rb_root t) \<le> 2 * bheight (rb_root t)"
    using height_bheight [OF i(1,2)] i(3) by simp
  then have "(rb_height (rb_root t) + 1) div 2 \<le> bheight (rb_root t)" by simp
  then have "(2 :: nat) ^ ((rb_height (rb_root t) + 1) div 2) \<le> 2 ^ bheight (rb_root t)"
    by (rule power_increasing) simp
  then have "2 ^ ((rb_height (rb_root t) + 1) div 2) \<le> Suc (length (inorder (rb_root t)))"
    using bheight_size [OF i(1,2)] by (rule le_trans)
  then show ?thesis by (simp add: items_def)
qed

lemma rb_height_logarithmic_witness:
  "2 ^ ((rb_height (rb_root three_ids) + 1) div 2) \<le> length (items three_ids) + 1"
proof -
  have "rb_valid three_ids" using three_ids_ok(1) by (simp add: rb_for_def)
  then show ?thesis by (rule rb_height_logarithmic)
qed

text \<open>
  \<^verbatim>\<open>rb_t_insert\<close> of a new item: the traverser is on the item, and \<^verbatim>\<open>rb_t_next\<close> goes on with
  the smallest larger item, although the stack of the traverser was not set up.
\<close>

theorem rb_t_insert_then_next:
  assumes "keyed key cmp" "rb_for cmp t" "Suc (Suc (length (items t))) < 2 ^ 24"
    and "table_map key t (key item) = None" "items t = xs @ y # ys"
    and "\<forall>x\<in>set xs. key x < key item" "key item < key y"
  shows "\<exists>t' trav trav'. rb_t_insert True t item = Ok (Some item, t', trav) \<and>
    rb_t_cur trav = Some item \<and> rb_t_next t' trav = Ok (Some y, trav')"
proof -
  have roomy: "rb_roomy t" using assms(3) by (simp add: rb_roomy_def)
  have n: "list_find cmp item (items t) = None"
    using assms(4) by (simp add: keyed.list_find_map [OF assms(1)])
  obtain t' trav where t': "rb_t_insert True t item = Ok (Some item, t', trav)" "rb_for cmp t'"
    "items t' = list_insert cmp item (items t)" "node_item (t_node trav) = Some item"
    "t_generation trav = rb_generation t' - 1"
    using keyed.t_insert_at [OF assms(1,2) roomy n] by blast
  have "\<forall>z\<in>set xs. cmp item z > 0" using assms(6) by (simp add: keyed.cmp_greater [OF assms(1)])
  moreover have "\<forall>z\<in>set (y # ys). cmp item z < 0"
    using assms(7) rb_forD(3) [OF assms(2)] assms(5)
    by (auto simp: keyed.cmp_less [OF assms(1)] keyed.ordered_split [OF assms(1)] dest: less_trans)
  ultimately have it: "items t' = xs @ item # y # ys"
    using list_insert_split [of xs cmp item "y # ys"] t'(3) assms(5) by simp
  have "rb_roomy t'" using it assms(3,5) by (simp add: rb_roomy_def)
  then show ?thesis
    using keyed.next_after_change [OF assms(1) t'(2) _ _ t'(4) it] t'
    by (auto simp: rb_t_cur_def)
qed

lemma rb_t_insert_then_next_witness:
  "\<exists>t' trav trav'. rb_t_insert True three_ids 2 = Ok (Some 2, t', trav) \<and>
     rb_t_cur trav = Some 2 \<and> rb_t_next t' trav = Ok (Some 3, trav')"
proof -
  have "table_map (\<lambda>i :: int. i) three_ids 2 = None" by (simp add: table_map_def three_ids_ok(3))
  then show ?thesis
    using rb_t_insert_then_next [OF task_keys three_ids_ok(1), of 2 "[1]" 3 "[5]"] by (simp add: three_ids_ok(3))
qed

text \<open>
  \<^verbatim>\<open>rb_copy\<close> of a valid table, when no allocation fails, builds a tree of the same shape and
  colors whose items are the copies in the same order; nothing overflows the stack of node
  pairs.
\<close>

theorem rb_copy_same_shape:
  assumes "keyed key cmp" "rb_for cmp t" "rb_roomy t" "\<forall>x\<in>set (items t). copy x = Some (f x)"
  shows "\<exists>t'. rb_copy True (\<lambda>_. True) copy cmp' t = Ok (Copied t') \<and>
    rb_root t' = map_node f (rb_root t) \<and> items t' = map f (items t) \<and>
    rb_count t' = rb_count t \<and> rb_compare t' = cmp' \<and> rb_inv (rb_root t')"
  using keyed.copy_ok [OF assms(1-4), of cmp'] by blast

lemma rb_copy_same_shape_witness:
  "\<exists>t'. rb_copy True (\<lambda>_. True) (\<lambda>x. Some (x + 1)) cs_wp_cmp_tsk three_ids = Ok (Copied t') \<and> items t' = [2, 4, 6]"
  using rb_copy_same_shape [OF task_keys three_ids_ok(1,2), of "\<lambda>x. Some (x + 1)" "\<lambda>x. x + 1" cs_wp_cmp_tsk]
  by (auto simp: three_ids_ok(3))

text \<open>
  When copying the item of the left child of the root fails, the clean-up hands
  the data field of the root's copy, which was never written, to the user's destructor.
\<close>

theorem rb_copy_unset_destroyed:
  assumes "rb_count org \<noteq> 0" "rb_root org = Node (Node Null x c Null) y d r" "copy x = None"
  shows "rb_copy True (\<lambda>_. True) copy cmp org = Ok (Copy_failed [Unset])"
  using assms by (simp add: rb_copy_def rb_create_def RB_MAX_HEIGHT_def)

lemma rb_copy_unset_destroyed_witness:
  "rb_copy True (\<lambda>_. True) (\<lambda>x. if x = 1 then None else Some x) cs_wp_cmp_tsk three_ids =
     Ok (Copy_failed [Unset])"
  by (rule rb_copy_unset_destroyed) (simp_all add: three_ids_def)

end
