(* ===== verification/AVL_Tree.thy ===== *)
theory AVL_Tree
  imports Items
begin

text \<open>
  The AVL tree of \<open>avl-2.0/src/avl.c\<close>: search, insertion, deletion and destruction of tables.

  A pointer to \<open>struct avl_node\<close> is a value of type \<open>avl_node\<close>.  The arrays \<open>pa[]\<close> and \<open>da[]\<close>
  are a list of frames, the top first: a frame holds the contents of the node \<open>pa[k]\<close>, the
  direction \<open>da[k]\<close> taken from it and the child on the other side.  The pseudo node that holds
  the root pointer is the end of the list.  Writing past \<open>AVL_MAX_HEIGHT\<close> entries and reading
  through a null link are faults of the model.
\<close>

section \<open>Data\<close>

datatype 'a avl_node =
    ANull
  | ANode (alink0: "'a avl_node") (avl_data: 'a) (avl_balance: int) (alink1: "'a avl_node")

record 'a avl_table =
  avl_root :: "'a avl_node"
  avl_compare :: "'a \<Rightarrow> 'a \<Rightarrow> int"
  avl_count :: "64 word"
  avl_generation :: "64 word"

definition AVL_MAX_HEIGHT :: nat where
  "AVL_MAX_HEIGHT = 32"

datatype 'a avl_frame = AFrame (adir: bool) (afdata: 'a) (afbal: int) (aother: "'a avl_node")

text \<open>The node with child \<open>t\<close> in direction \<open>d\<close> and child \<open>u\<close> in the other.\<close>

fun avl_mk :: "bool \<Rightarrow> 'a avl_node \<Rightarrow> 'a \<Rightarrow> int \<Rightarrow> 'a avl_node \<Rightarrow> 'a avl_node" where
  "avl_mk False t x b u = ANode t x b u"
| "avl_mk True t x b u = ANode u x b t"

fun avl_plug :: "'a avl_node \<Rightarrow> 'a avl_frame list \<Rightarrow> 'a avl_node" where
  "avl_plug t [] = t"
| "avl_plug t (AFrame d x b u # pa) = avl_plug (avl_mk d t x b u) pa"

section \<open>Creation and search\<close>

definition avl_create :: "bool \<Rightarrow> ('a \<Rightarrow> 'a \<Rightarrow> int) \<Rightarrow> 'a avl_table option" where
  "avl_create alloc cmp =
     (if alloc then Some \<lparr>avl_root = ANull, avl_compare = cmp, avl_count = 0, avl_generation = 0\<rparr>
      else None)"

fun avl_find_node :: "('a \<Rightarrow> 'a \<Rightarrow> int) \<Rightarrow> 'a \<Rightarrow> 'a avl_node \<Rightarrow> 'a option" where
  "avl_find_node cmp item ANull = None"
| "avl_find_node cmp item (ANode l x b r) =
     (let k = cmp item x in
      if k < 0 then avl_find_node cmp item l
      else if k > 0 then avl_find_node cmp item r
      else Some x)"

definition avl_find :: "'a avl_table \<Rightarrow> 'a \<Rightarrow> 'a option" where
  "avl_find tree item = avl_find_node (avl_compare tree) item (avl_root tree)"

section \<open>Rotations\<close>

text \<open>
  The rotations shared by insertion and deletion.  \<open>avl_double_left\<close> works on a node \<open>y\<close> that
  is too high on the left and whose left child \<open>x\<close> leans to the right; its arguments are the
  left subtree and the data of \<open>x\<close>, the right child \<open>w\<close> of \<open>x\<close>, and the data and the right
  subtree of \<open>y\<close>.  \<open>avl_double_right\<close> is its mirror image.
\<close>

fun avl_double_left :: "'a avl_node \<Rightarrow> 'a \<Rightarrow> 'a avl_node \<Rightarrow> 'a \<Rightarrow> 'a avl_node \<Rightarrow> 'a avl_node outcome" where
  "avl_double_left xl xd ANull yd yr = Fault Null_dereference"
| "avl_double_left xl xd (ANode wl wd wb wr) yd yr =
     (let (xb, yb) = (if wb = - 1 then (0, 1) else if wb = 0 then (0, 0) else (- 1, 0))
      in Ok (ANode (ANode xl xd xb wl) wd 0 (ANode wr yd yb yr)))"

fun avl_double_right :: "'a avl_node \<Rightarrow> 'a \<Rightarrow> 'a avl_node \<Rightarrow> 'a \<Rightarrow> 'a avl_node \<Rightarrow> 'a avl_node outcome" where
  "avl_double_right yl yd ANull xd xr = Fault Null_dereference"
| "avl_double_right yl yd (ANode wl wd wb wr) xd xr =
     (let (xb, yb) = (if wb = 1 then (0, - 1) else if wb = 0 then (0, 0) else (1, 0))
      in Ok (ANode (ANode yl yd yb wl) wd 0 (ANode wr xd xb xr)))"

section \<open>Insertion\<close>

text \<open>
  The descent of \<^verbatim>\<open>avl_probe\<close>: \<open>ys\<close> are the frames from \<open>y\<close>, the last node with a balance
  factor other than 0, down to the hole; \<open>zs\<close> those above \<open>y\<close>, of which \<open>z\<close> is the first.  The
  array \<open>da\<close> holds the directions of \<open>ys\<close>.
\<close>

datatype 'a avl_search = AFound "'a avl_frame list" "'a avl_node" | ASlot "'a avl_frame list" "'a avl_frame list"

fun avl_descend ::
  "('a \<Rightarrow> 'a \<Rightarrow> int) \<Rightarrow> 'a \<Rightarrow> 'a avl_node \<Rightarrow> 'a avl_frame list \<Rightarrow> 'a avl_frame list \<Rightarrow> 'a avl_search outcome" where
  "avl_descend cmp item ANull ys zs = Ok (ASlot ys zs)"
| "avl_descend cmp item (ANode l x b r) ys zs =
     (let k = cmp item x in
      if k = 0 then Ok (AFound (ys @ zs) (ANode l x b r))
      else
        (let ys' = (if b \<noteq> 0 then [] else ys); zs' = (if b \<noteq> 0 then ys @ zs else zs) in
         if AVL_MAX_HEIGHT \<le> length ys' then Fault Stack_overflow
         else if k > 0 then avl_descend cmp item r (AFrame True x b l # ys') zs'
         else avl_descend cmp item l (AFrame False x b r # ys') zs'))"

text \<open>The loop that updates the balance factors from \<open>y\<close> down to the new node.\<close>

fun avl_bump :: "'a avl_frame \<Rightarrow> 'a avl_frame" where
  "avl_bump (AFrame d x b u) = AFrame d x (if \<not> d then b - 1 else b + 1) u"

text \<open>Rebalancing at \<open>y\<close>: \<open>None\<close> when nothing is rotated, otherwise the new root \<open>w\<close> of the subtree.\<close>

fun avl_insert_fix :: "'a avl_node \<Rightarrow> 'a avl_node option outcome" where
  "avl_insert_fix ANull = Ok None"
| "avl_insert_fix (ANode yl yd yb yr) =
     (if yb = - 2 then
        (case yl of
           ANull \<Rightarrow> Fault Null_dereference
         | ANode xl xd xb xr \<Rightarrow>
             if xb = - 1 then Ok (Some (ANode xl xd 0 (ANode xr yd 0 yr)))
             else if xb \<noteq> 1 then Fault Assertion_failed
             else obind (avl_double_left xl xd xr yd yr) (\<lambda>w. Ok (Some w)))
      else if yb = 2 then
        (case yr of
           ANull \<Rightarrow> Fault Null_dereference
         | ANode xl xd xb xr \<Rightarrow>
             if xb = 1 then Ok (Some (ANode (ANode yl yd 0 xl) xd 0 xr))
             else if xb \<noteq> - 1 then Fault Assertion_failed
             else obind (avl_double_right yl yd xl xd xr) (\<lambda>w. Ok (Some w)))
      else Ok None)"

text \<open>
  What \<^verbatim>\<open>avl_probe\<close> returns: a null pointer (no memory), the slot of the new node, or the slot
  of the duplicate.  The generation number counts the insertions that rotate, no others.  In an
  empty tree \<open>y\<close> is null and the new node is the root; the rest of the code would leave it as
  it is.
\<close>

datatype 'a avl_slot = A_no_memory | A_new_slot | A_duplicate "'a avl_frame list" "'a avl_node"

definition avl_probe :: "bool \<Rightarrow> 'a avl_table \<Rightarrow> 'a \<Rightarrow> ('a avl_slot \<times> 'a avl_table) outcome" where
  "avl_probe alloc tree item =
     obind (avl_descend (avl_compare tree) item (avl_root tree) [] [])
       (\<lambda>s. case s of
          AFound pa p \<Rightarrow> Ok (A_duplicate pa p, tree)
        | ASlot ys zs \<Rightarrow>
            if \<not> alloc then Ok (A_no_memory, tree)
            else
              (let tree = tree\<lparr>avl_count := avl_count tree + 1\<rparr>;
                   y = avl_plug (ANode ANull item 0 ANull) (map avl_bump ys)
               in obind (avl_insert_fix y)
                 (\<lambda>w. Ok (A_new_slot,
                    case w of
                      None \<Rightarrow> tree\<lparr>avl_root := avl_plug y zs\<rparr>
                    | Some w \<Rightarrow> tree\<lparr>avl_root := avl_plug w zs, avl_generation := avl_generation tree + 1\<rparr>))))"

definition avl_insert :: "bool \<Rightarrow> 'a avl_table \<Rightarrow> 'a \<Rightarrow> ('a option \<times> 'a avl_table) outcome" where
  "avl_insert alloc table item =
     obind (avl_probe alloc table item)
       (\<lambda>(p, table). Ok (case p of
            A_no_memory \<Rightarrow> None
          | A_new_slot \<Rightarrow> None
          | A_duplicate pa n \<Rightarrow> if avl_data n = item then None else Some (avl_data n), table))"

fun avl_set_data :: "'a \<Rightarrow> 'a avl_node \<Rightarrow> 'a avl_node" where
  "avl_set_data y ANull = ANull"
| "avl_set_data y (ANode l x b r) = ANode l y b r"

definition avl_replace :: "bool \<Rightarrow> 'a avl_table \<Rightarrow> 'a \<Rightarrow> ('a option \<times> 'a avl_table) outcome" where
  "avl_replace alloc table item =
     obind (avl_probe alloc table item)
       (\<lambda>(p, table). Ok (case p of
            A_no_memory \<Rightarrow> (None, table)
          | A_new_slot \<Rightarrow> (None, table)
          | A_duplicate pa n \<Rightarrow>
              if avl_data n = item then (None, table)
              else (Some (avl_data n), table\<lparr>avl_root := avl_plug (avl_set_data item n) pa\<rparr>)))"

section \<open>Deletion\<close>

text \<open>The search loop of \<^verbatim>\<open>avl_delete\<close>; \<open>None\<close> is the early return on a null link.\<close>

fun avl_delete_search ::
  "('a \<Rightarrow> 'a \<Rightarrow> int) \<Rightarrow> 'a \<Rightarrow> 'a avl_node \<Rightarrow> 'a avl_frame list \<Rightarrow>
   ('a avl_frame list \<times> 'a avl_node) option outcome" where
  "avl_delete_search cmp item ANull pa = Ok None"
| "avl_delete_search cmp item (ANode l x b r) pa =
     (let k = cmp item x in
      if k = 0 then Ok (Some (pa, ANode l x b r))
      else if AVL_MAX_HEIGHT \<le> Suc (length pa) then Fault Stack_overflow
      else if k > 0 then avl_delete_search cmp item r (AFrame True x b l # pa)
      else avl_delete_search cmp item l (AFrame False x b r # pa))"

text \<open>
  The inner \<open>for (;;)\<close> that walks to the inorder successor \<open>s\<close> from \<open>r\<close>, whose left link is not
  null: \<open>k\<close> is the stack height, \<open>acc\<close> the frames pushed.
\<close>

fun avl_successor :: "nat \<Rightarrow> 'a avl_node \<Rightarrow> 'a avl_frame list \<Rightarrow> ('a avl_frame list \<times> 'a avl_node) outcome" where
  "avl_successor k ANull acc = Fault Null_dereference"
| "avl_successor k (ANode s x b r) acc =
     (if AVL_MAX_HEIGHT \<le> k then Fault Stack_overflow
      else (case s of
          ANull \<Rightarrow> Fault Null_dereference
        | ANode sl _ _ _ \<Rightarrow>
            if sl = ANull then Ok (AFrame False x b r # acc, s)
            else avl_successor (Suc k) s (AFrame False x b r # acc)))"

text \<open>Unlinking \<open>p\<close>: the subtree left in the hole and the stack above it.\<close>

definition avl_unlink ::
  "'a avl_node \<Rightarrow> 'a avl_frame list \<Rightarrow> ('a avl_node \<times> 'a avl_frame list) outcome" where
  "avl_unlink p pa =
     (case p of
        ANull \<Rightarrow> Fault Null_dereference
      | ANode pl x pb pr \<Rightarrow>
         (case pr of
            ANull \<Rightarrow> Ok (pl, pa)
          | ANode rl rx rb rr \<Rightarrow>
              if rl = ANull then
                (if AVL_MAX_HEIGHT \<le> Suc (length pa) then Fault Stack_overflow
                 else Ok (rr, AFrame True rx pb pl # pa))
              else obind (avl_successor (Suc (Suc (length pa))) pr [])
                (\<lambda>(acc, s). Ok (alink1 s, acc @ AFrame True (avl_data s) pb pl # pa))))"

text \<open>
  One pass of the rebalancing loop, after the left (\<open>avl_left_lower\<close>) or the right
  (\<open>avl_right_lower\<close>) subtree of \<open>y\<close> has lost a level: the subtree that takes the place of
  \<open>y\<close>, and whether the loop is left there (\<open>break\<close>).
\<close>

definition avl_left_lower ::
  "'a avl_node \<Rightarrow> 'a \<Rightarrow> int \<Rightarrow> 'a avl_node \<Rightarrow> ('a avl_node \<times> bool) outcome" where
  "avl_left_lower t yd yb yr =
     (if yb + 1 = 1 then Ok (ANode t yd (yb + 1) yr, True)
      else if yb + 1 = 2 then
        (case yr of
           ANull \<Rightarrow> Fault Null_dereference
         | ANode xl xd xb xr \<Rightarrow>
             if xb = - 1 then obind (avl_double_right t yd xl xd xr) (\<lambda>w. Ok (w, False))
             else if xb = 0 then Ok (ANode (ANode t yd 1 xl) xd (- 1) xr, True)
             else Ok (ANode (ANode t yd 0 xl) xd 0 xr, False))
      else Ok (ANode t yd (yb + 1) yr, False))"

definition avl_right_lower ::
  "'a avl_node \<Rightarrow> 'a \<Rightarrow> int \<Rightarrow> 'a avl_node \<Rightarrow> ('a avl_node \<times> bool) outcome" where
  "avl_right_lower t yd yb yl =
     (if yb - 1 = - 1 then Ok (ANode yl yd (yb - 1) t, True)
      else if yb - 1 = - 2 then
        (case yl of
           ANull \<Rightarrow> Fault Null_dereference
         | ANode xl xd xb xr \<Rightarrow>
             if xb = 1 then obind (avl_double_left xl xd xr yd t) (\<lambda>w. Ok (w, False))
             else if xb = 0 then Ok (ANode xl xd 1 (ANode xr yd (- 1) t), True)
             else Ok (ANode xl xd 0 (ANode xr yd 0 t), False))
      else Ok (ANode yl yd (yb - 1) t, False))"

fun avl_delete_fix :: "'a avl_node \<Rightarrow> 'a avl_frame list \<Rightarrow> 'a avl_node outcome" where
  "avl_delete_fix t [] = Ok t"
| "avl_delete_fix t (AFrame d yd yb u # pa) =
     obind (if \<not> d then avl_left_lower t yd yb u else avl_right_lower t yd yb u)
       (\<lambda>(w, stop). if stop then Ok (avl_plug w pa) else avl_delete_fix w pa)"

definition avl_delete :: "'a avl_table \<Rightarrow> 'a \<Rightarrow> ('a option \<times> 'a avl_table) outcome" where
  "avl_delete tree item =
     obind (avl_delete_search (avl_compare tree) item (avl_root tree) [])
       (\<lambda>r. case r of
          None \<Rightarrow> Ok (None, tree)
        | Some (pa, p) \<Rightarrow>
            obind (avl_unlink p pa)
              (\<lambda>(t, pa). obind (avl_delete_fix t pa)
                (\<lambda>root. Ok (Some (avl_data p),
                   tree\<lparr>avl_root := root,
                        avl_count := avl_count tree - 1,
                        avl_generation := avl_generation tree + 1\<rparr>))))"

section \<open>Destruction and the asserting variants\<close>

text \<open>The items handed to \<open>destroy\<close>, in order.\<close>

function avl_destroy_loop :: "'a avl_node \<Rightarrow> 'a list" where
  "avl_destroy_loop ANull = []"
| "avl_destroy_loop (ANode ANull x b r) = x # avl_destroy_loop r"
| "avl_destroy_loop (ANode (ANode ql qx qb qr) x b r) =
     avl_destroy_loop (ANode ql qx qb (ANode qr x b r))"
  by pat_completeness auto
termination
  by (relation "measures [size, \<lambda>t. size (alink0 t)]") auto

definition avl_destroy :: "'a avl_table \<Rightarrow> 'a list" where
  "avl_destroy tree = avl_destroy_loop (avl_root tree)"

definition avl_assert_insert :: "bool \<Rightarrow> 'a avl_table \<Rightarrow> 'a \<Rightarrow> 'a avl_table outcome" where
  "avl_assert_insert alloc table item =
     obind (avl_probe alloc table item)
       (\<lambda>(p, table). obind (check (case p of A_no_memory \<Rightarrow> False | A_new_slot \<Rightarrow> True
            | A_duplicate pa n \<Rightarrow> avl_data n = item) Assertion_failed) (\<lambda>_. Ok table))"

definition avl_assert_delete :: "'a avl_table \<Rightarrow> 'a \<Rightarrow> ('a \<times> 'a avl_table) outcome" where
  "avl_assert_delete table item =
     obind (avl_delete table item)
       (\<lambda>(p, table). case p of None \<Rightarrow> Fault Assertion_failed | Some x \<Rightarrow> Ok (x, table))"

end
