(* ===== verification/BST_Tree.thy ===== *)
theory BST_Tree
  imports Items
begin

text \<open>
  The unbalanced search tree of \<open>avl-2.0/src/bst.c\<close>: search, insertion, deletion and
  destruction of tables.

  A pointer to \<open>struct bst_node\<close> that the code holds beside the tree is a path from the
  root, the directions taken; \<open>put_at\<close> is the assignment of a subtree to the link at the end
  of a path.
\<close>

section \<open>Data\<close>

datatype 'a bst_node = BNull | BNode (blink0: "'a bst_node") (bst_data: 'a) (blink1: "'a bst_node")

record 'a bst_table =
  bst_root :: "'a bst_node"
  bst_compare :: "'a \<Rightarrow> 'a \<Rightarrow> int"
  bst_count :: "64 word"
  bst_generation :: "64 word"

fun subtree :: "'a bst_node \<Rightarrow> bool list \<Rightarrow> 'a bst_node" where
  "subtree t [] = t"
| "subtree BNull (d # ds) = BNull"
| "subtree (BNode l x r) (d # ds) = subtree (if d then r else l) ds"

fun put_at :: "'a bst_node \<Rightarrow> bool list \<Rightarrow> 'a bst_node \<Rightarrow> 'a bst_node" where
  "put_at t [] s = s"
| "put_at BNull (d # ds) s = BNull"
| "put_at (BNode l x r) (d # ds) s = (if d then BNode l x (put_at r ds s) else BNode (put_at l ds s) x r)"

fun node_data :: "'a bst_node \<Rightarrow> 'a option" where
  "node_data BNull = None"
| "node_data (BNode l x r) = Some x"

section \<open>Creation, search and insertion\<close>

definition bst_create :: "bool \<Rightarrow> ('a \<Rightarrow> 'a \<Rightarrow> int) \<Rightarrow> 'a bst_table option" where
  "bst_create alloc cmp =
     (if alloc then Some \<lparr>bst_root = BNull, bst_compare = cmp, bst_count = 0, bst_generation = 0\<rparr>
      else None)"

fun bst_find_node :: "('a \<Rightarrow> 'a \<Rightarrow> int) \<Rightarrow> 'a \<Rightarrow> 'a bst_node \<Rightarrow> 'a option" where
  "bst_find_node cmp item BNull = None"
| "bst_find_node cmp item (BNode l x r) =
     (let k = cmp item x in
      if k < 0 then bst_find_node cmp item l
      else if k > 0 then bst_find_node cmp item r
      else Some x)"

definition bst_find :: "'a bst_table \<Rightarrow> 'a \<Rightarrow> 'a option" where
  "bst_find tree item = bst_find_node (bst_compare tree) item (bst_root tree)"

text \<open>The search loop of \<^verbatim>\<open>bst_probe\<close> and \<^verbatim>\<open>bst_delete\<close>: the path to the item, or to the null link
  where it would be.\<close>

fun bst_locate :: "('a \<Rightarrow> 'a \<Rightarrow> int) \<Rightarrow> 'a \<Rightarrow> 'a bst_node \<Rightarrow> bool list" where
  "bst_locate cmp item BNull = []"
| "bst_locate cmp item (BNode l x r) =
     (let k = cmp item x in
      if k = 0 then [] else (k > 0) # bst_locate cmp item (if k > 0 then r else l))"

text \<open>\<^verbatim>\<open>bst_probe\<close> returns the place of the item, \<open>None\<close> when there is no memory.  It leaves the
  generation number alone.\<close>

definition bst_probe :: "bool \<Rightarrow> 'a bst_table \<Rightarrow> 'a \<Rightarrow> bool list option \<times> 'a bst_table" where
  "bst_probe alloc tree item =
     (let p = bst_locate (bst_compare tree) item (bst_root tree) in
      if subtree (bst_root tree) p \<noteq> BNull then (Some p, tree)
      else if \<not> alloc then (None, tree)
      else (Some p, tree\<lparr>bst_root := put_at (bst_root tree) p (BNode BNull item BNull),
                         bst_count := bst_count tree + 1\<rparr>))"

definition bst_insert :: "bool \<Rightarrow> 'a bst_table \<Rightarrow> 'a \<Rightarrow> 'a option \<times> 'a bst_table" where
  "bst_insert alloc table item =
     (let (p, table) = bst_probe alloc table item in
      (case p of
         None \<Rightarrow> None
       | Some p \<Rightarrow>
           if node_data (subtree (bst_root table) p) = Some item then None
           else node_data (subtree (bst_root table) p), table))"

fun set_item :: "'a \<Rightarrow> 'a bst_node \<Rightarrow> 'a bst_node" where
  "set_item y BNull = BNull"
| "set_item y (BNode l x r) = BNode l y r"

definition bst_replace :: "bool \<Rightarrow> 'a bst_table \<Rightarrow> 'a \<Rightarrow> 'a option \<times> 'a bst_table" where
  "bst_replace alloc table item =
     (let (p, table) = bst_probe alloc table item in
      case p of
        None \<Rightarrow> (None, table)
      | Some p \<Rightarrow>
          let n = subtree (bst_root table) p in
          if node_data n = Some item then (None, table)
          else (node_data n, table\<lparr>bst_root := put_at (bst_root table) p (set_item item n)\<rparr>))"

section \<open>Deletion\<close>

text \<open>
  The inner loop that walks to the inorder successor.  The arguments are the fields of
  \<open>s = r->bst_link[0]\<close> and the other two of \<open>r\<close>; the result has the item of the successor and
  \<open>r\<close> without it.
\<close>

fun bst_min :: "'a bst_node \<Rightarrow> 'a \<Rightarrow> 'a bst_node \<Rightarrow> 'a \<Rightarrow> 'a bst_node \<Rightarrow> 'a \<times> 'a bst_node" where
  "bst_min BNull sd sr rd rr = (sd, BNode sr rd rr)"
| "bst_min (BNode ul ud ur) sd sr rd rr =
     (let (m, s) = bst_min ul ud ur sd sr in (m, BNode s rd rr))"

fun bst_unlink :: "'a bst_node \<Rightarrow> 'a bst_node" where
  "bst_unlink BNull = BNull"
| "bst_unlink (BNode l x BNull) = l"
| "bst_unlink (BNode l x (BNode BNull rd rr)) = BNode l rd rr"
| "bst_unlink (BNode l x (BNode (BNode sl sd sr) rd rr)) =
     (let (m, r) = bst_min sl sd sr rd rr in BNode l m r)"

definition bst_delete :: "'a bst_table \<Rightarrow> 'a \<Rightarrow> 'a option \<times> 'a bst_table" where
  "bst_delete tree item =
     (let p = bst_locate (bst_compare tree) item (bst_root tree); n = subtree (bst_root tree) p in
      case node_data n of
        None \<Rightarrow> (None, tree)
      | Some x \<Rightarrow>
          (Some x, tree\<lparr>bst_root := put_at (bst_root tree) p (bst_unlink n),
                        bst_count := bst_count tree - 1,
                        bst_generation := bst_generation tree + 1\<rparr>))"

section \<open>Destruction and the asserting variants\<close>

function bst_destroy_loop :: "'a bst_node \<Rightarrow> 'a list" where
  "bst_destroy_loop BNull = []"
| "bst_destroy_loop (BNode BNull x r) = x # bst_destroy_loop r"
| "bst_destroy_loop (BNode (BNode ql qx qr) x r) = bst_destroy_loop (BNode ql qx (BNode qr x r))"
  by pat_completeness auto
termination
  by (relation "measures [size, \<lambda>t. size (blink0 t)]") auto

definition bst_destroy :: "'a bst_table \<Rightarrow> 'a list" where
  "bst_destroy tree = bst_destroy_loop (bst_root tree)"

definition bst_assert_insert :: "bool \<Rightarrow> 'a bst_table \<Rightarrow> 'a \<Rightarrow> 'a bst_table outcome" where
  "bst_assert_insert alloc table item =
     (let (p, table) = bst_probe alloc table item in
      obind (check (case p of None \<Rightarrow> False | Some p \<Rightarrow> node_data (subtree (bst_root table) p) = Some item)
        Assertion_failed) (\<lambda>_. Ok table))"

definition bst_assert_delete :: "'a bst_table \<Rightarrow> 'a \<Rightarrow> ('a \<times> 'a bst_table) outcome" where
  "bst_assert_delete table item =
     (case bst_delete table item of
        (None, table) \<Rightarrow> Fault Assertion_failed
      | (Some x, table) \<Rightarrow> Ok (x, table))"

section \<open>The sequence of items\<close>

fun bst_inorder :: "'a bst_node \<Rightarrow> 'a list" where
  "bst_inorder BNull = []"
| "bst_inorder (BNode l x r) = bst_inorder l @ x # bst_inorder r"

text \<open>What is to the left and to the right of the subtree at a path.\<close>

fun lefts :: "'a bst_node \<Rightarrow> bool list \<Rightarrow> 'a list" where
  "lefts t [] = []"
| "lefts BNull (d # ds) = []"
| "lefts (BNode l x r) (d # ds) = (if d then bst_inorder l @ x # lefts r ds else lefts l ds)"

fun rights :: "'a bst_node \<Rightarrow> bool list \<Rightarrow> 'a list" where
  "rights t [] = []"
| "rights BNull (d # ds) = []"
| "rights (BNode l x r) (d # ds) = (if d then rights r ds else rights l ds @ x # bst_inorder r)"

text \<open>A path inside a tree, possibly to a null link.\<close>

fun in_tree :: "'a bst_node \<Rightarrow> bool list \<Rightarrow> bool" where
  "in_tree t [] = True"
| "in_tree BNull (d # ds) = False"
| "in_tree (BNode l x r) (d # ds) = in_tree (if d then r else l) ds"

lemma inorder_split: "in_tree t p \<Longrightarrow> bst_inorder t = lefts t p @ bst_inorder (subtree t p) @ rights t p"
  by (induction t p rule: in_tree.induct) auto

lemma inorder_put: "in_tree t p \<Longrightarrow> bst_inorder (put_at t p s) = lefts t p @ bst_inorder s @ rights t p"
  by (induction t p rule: in_tree.induct) auto

lemma subtree_put [simp]: "in_tree t p \<Longrightarrow> subtree (put_at t p s) p = s"
  by (induction t p rule: in_tree.induct) auto

lemma subtree_append [simp]: "subtree t (p @ q) = subtree (subtree t p) q"
proof (induction t p rule: subtree.induct)
  case (2 d ds)
  then show ?case by (cases q) auto
qed auto

lemma in_tree_append [simp]: "in_tree t (p @ q) \<longleftrightarrow> in_tree t p \<and> in_tree (subtree t p) q"
  by (induction t p rule: in_tree.induct) auto

lemma lefts_append: "in_tree t p \<Longrightarrow> lefts t (p @ q) = lefts t p @ lefts (subtree t p) q"
  by (induction t p rule: in_tree.induct) auto

lemma rights_append: "in_tree t p \<Longrightarrow> rights t (p @ q) = rights (subtree t p) q @ rights t p"
  by (induction t p rule: in_tree.induct) auto

lemma locate_in_tree [simp]: "in_tree t (bst_locate cmp item t)"
  by (induction t) (auto simp: Let_def)

lemma inorder_min: "bst_min sl sd sr rd rr = (m, r) \<Longrightarrow>
    m # bst_inorder r = bst_inorder sl @ sd # bst_inorder sr @ rd # bst_inorder rr"
  by (induction sl sd sr rd rr arbitrary: m r rule: bst_min.induct) (fastforce split: prod.splits)+

lemma inorder_unlink: "bst_inorder (bst_unlink (BNode l x r)) = bst_inorder l @ bst_inorder r"
proof (cases "(BNode l x r)" rule: bst_unlink.cases)
  case (4 l' x' sl sd sr rd rr)
  obtain m r' where m: "bst_min sl sd sr rd rr = (m, r')" by fastforce
  then show ?thesis using 4 inorder_min [OF m] by auto
qed auto

lemma bst_destroy_inorder: "bst_destroy_loop t = bst_inorder t"
  by (induction t rule: bst_destroy_loop.induct) auto

section \<open>Valid tables\<close>

definition bst_items :: "'a bst_table \<Rightarrow> 'a list" where
  "bst_items tree = bst_inorder (bst_root tree)"

definition bst_for :: "('a \<Rightarrow> 'a \<Rightarrow> int) \<Rightarrow> 'a bst_table \<Rightarrow> bool" where
  "bst_for cmp tree \<longleftrightarrow> bst_compare tree = cmp \<and> ordered cmp (bst_items tree) \<and>
     bst_count tree = of_nat (length (bst_items tree))"

text \<open>Any number of further items fit; \<open>bst_ok cmp n t\<close> does not depend on \<open>n\<close>.\<close>

definition bst_ok :: "('a \<Rightarrow> 'a \<Rightarrow> int) \<Rightarrow> nat \<Rightarrow> 'a bst_table \<Rightarrow> bool" where
  "bst_ok cmp n tree \<longleftrightarrow> bst_for cmp tree"

context keyed
begin

lemma bst_find_correct:
  "ordered cmp (bst_inorder t) \<Longrightarrow> bst_find_node cmp item t = node_data (subtree t (bst_locate cmp item t))"
  by (induction t) (auto simp: Let_def ordered_split)

text \<open>Where the search stops: what is before is smaller, what is after is larger.\<close>

lemma locate_between:
  "ordered cmp (bst_inorder t) \<Longrightarrow>
     (\<forall>y\<in>set (lefts t (bst_locate cmp item t)). cmp item y > 0) \<and>
     (\<forall>y\<in>set (rights t (bst_locate cmp item t)). cmp item y < 0) \<and>
     (\<forall>d. node_data (subtree t (bst_locate cmp item t)) = Some d \<longrightarrow> cmp item d = 0)"
proof (induction t)
  case (BNode l x r)
  have o: "ordered cmp (bst_inorder l)" "ordered cmp (bst_inorder r)"
    "\<forall>y\<in>set (bst_inorder l). key y < key x" "\<forall>y\<in>set (bst_inorder r). key x < key y"
    using BNode.prems by (auto simp: ordered_split)
  consider "key item < key x" | "key item = key x" | "key x < key item"
    by (metis linorder_neqE)
  then show ?case
  proof cases
    case 1
    then have "\<not> cmp item x > 0" "cmp item x \<noteq> 0" "cmp item x < 0"
      by (auto simp: cmp_less [symmetric])
    moreover have "\<forall>y\<in>set (bst_inorder r). cmp item y < 0" using o(4) 1 by (auto simp: cmp_less)
    ultimately show ?thesis using BNode.IH(1) [OF o(1)] by (auto simp: Let_def)
  next
    case 2
    then show ?thesis by (simp add: cmp_eq Let_def)
  next
    case 3
    then have "cmp item x > 0" "cmp item x \<noteq> 0" by (auto simp: cmp_greater [symmetric])
    moreover have "\<forall>y\<in>set (bst_inorder l). cmp item y > 0" using o(3) 3 by (auto simp: cmp_greater)
    ultimately show ?thesis using BNode.IH(2) [OF o(2)] by (auto simp: Let_def)
  qed
qed simp

lemma locate_cases:
  assumes "bst_for cmp t"
  obtains (slot) p where "bst_locate cmp item (bst_root t) = p" "subtree (bst_root t) p = BNull"
      "bst_items t = lefts (bst_root t) p @ rights (bst_root t) p" "in_tree (bst_root t) p"
      "list_find cmp item (bst_items t) = None"
      "list_insert cmp item (bst_items t) = lefts (bst_root t) p @ item # rights (bst_root t) p"
  | (found) p l d r where "bst_locate cmp item (bst_root t) = p" "subtree (bst_root t) p = BNode l d r"
      "bst_items t = (lefts (bst_root t) p @ bst_inorder l) @ d # (bst_inorder r @ rights (bst_root t) p)"
      "cmp item d = 0" "in_tree (bst_root t) p" "list_find cmp item (bst_items t) = Some d"
      "ordered cmp ((lefts (bst_root t) p @ bst_inorder l) @ d # (bst_inorder r @ rights (bst_root t) p))"
proof -
  let ?p = "bst_locate cmp item (bst_root t)"
  have o: "ordered cmp (bst_inorder (bst_root t))" using assms by (simp add: bst_for_def bst_items_def)
  have b: "\<forall>y\<in>set (lefts (bst_root t) ?p). cmp item y > 0" "\<forall>y\<in>set (rights (bst_root t) ?p). cmp item y < 0"
    "\<And>d. node_data (subtree (bst_root t) ?p) = Some d \<Longrightarrow> cmp item d = 0"
    using locate_between [OF o, of item] by auto
  have it: "bst_items t = lefts (bst_root t) ?p @ bst_inorder (subtree (bst_root t) ?p) @ rights (bst_root t) ?p"
    using inorder_split [of "bst_root t" ?p] by (simp add: bst_items_def)
  show thesis
  proof (cases "subtree (bst_root t) ?p")
    case BNull
    then have "bst_items t = lefts (bst_root t) ?p @ rights (bst_root t) ?p" using it by simp
    then show thesis using BNull list_find_slot [OF b(1,2)] b(1,2)
        list_insert_split [of "lefts (bst_root t) ?p" cmp item "rights (bst_root t) ?p"]
      by (intro slot [OF refl]) simp_all
  next
    case (BNode l d r)
    then have it': "bst_items t = (lefts (bst_root t) ?p @ bst_inorder l) @ d # (bst_inorder r @ rights (bst_root t) ?p)"
      using it by simp
    have z: "cmp item d = 0" using b(3) BNode by simp
    have o': "ordered cmp ((lefts (bst_root t) ?p @ bst_inorder l) @ d # (bst_inorder r @ rights (bst_root t) ?p))"
      using o it' by (simp add: bst_items_def)
    show thesis using BNode it' z o' list_find_mid [OF o' z] by (intro found [OF refl]) simp_all
  qed
qed

lemma bst_probe_new:
  assumes "bst_for cmp t" "list_find cmp item (bst_items t) = None"
  shows "\<exists>p t'. bst_probe True t item = (Some p, t') \<and> bst_for cmp t' \<and>
    bst_items t' = list_insert cmp item (bst_items t) \<and> subtree (bst_root t') p = BNode BNull item BNull"
  using assms(1)
proof (cases rule: locate_cases [where item = item])
  case (slot p)
  have c: "bst_compare t = cmp" using assms(1) by (simp add: bst_for_def)
  let ?t' = "t\<lparr>bst_root := put_at (bst_root t) p (BNode BNull item BNull), bst_count := bst_count t + 1\<rparr>"
  have it: "bst_items ?t' = list_insert cmp item (bst_items t)"
    using slot inorder_put [OF slot(4), of "BNode BNull item BNull"] by (simp add: bst_items_def)
  have "bst_for cmp ?t'"
    using assms it ordered_list_insert [of "bst_items t" item] length_list_insert [OF assms(2)]
    by (simp add: bst_for_def)
  then show ?thesis using it slot c by (simp add: bst_probe_def Let_def)
next
  case (found p l d r)
  then show ?thesis using assms(2) by simp
qed

lemma bst_probe_old:
  assumes "bst_for cmp t" "list_find cmp item (bst_items t) = Some d"
  shows "\<exists>p l r. bst_probe alloc t item = (Some p, t) \<and> subtree (bst_root t) p = BNode l d r \<and>
    in_tree (bst_root t) p \<and> cmp item d = 0 \<and>
    bst_items t = (lefts (bst_root t) p @ bst_inorder l) @ d # (bst_inorder r @ rights (bst_root t) p)"
  using assms(1)
proof (cases rule: locate_cases [where item = item])
  case (slot p)
  then show ?thesis using assms(2) by simp
next
  case (found p l e r)
  then have "e = d" using assms(2) by simp
  then show ?thesis using found assms(1) by (simp add: bst_probe_def bst_for_def Let_def)
qed

lemma bst_insert_new:
  assumes "bst_for cmp t" "list_find cmp item (bst_items t) = None"
  shows "\<exists>t'. bst_insert True t item = (None, t') \<and> bst_for cmp t' \<and>
    bst_items t' = list_insert cmp item (bst_items t)"
  using bst_probe_new [OF assms] by (auto simp: bst_insert_def)

lemma bst_insert_old:
  assumes "bst_for cmp t" "list_find cmp item (bst_items t) = Some d"
  shows "bst_insert alloc t item = (if d = item then None else Some d, t)"
  using bst_probe_old [OF assms, of alloc] by (auto simp: bst_insert_def)

lemma bst_replace_new:
  assumes "bst_for cmp t" "list_find cmp item (bst_items t) = None"
  shows "\<exists>t'. bst_replace True t item = (None, t') \<and> bst_for cmp t' \<and>
    bst_items t' = list_insert cmp item (bst_items t)"
  using bst_probe_new [OF assms] by (auto simp: bst_replace_def)

lemma bst_replace_old:
  assumes t: "bst_for cmp t" and d: "list_find cmp item (bst_items t) = Some d"
  shows "\<exists>t'. bst_replace alloc t item = (if d = item then None else Some d, t') \<and> bst_for cmp t' \<and>
    bst_items t' = list_store cmp item (\<lambda>_. item) (bst_items t)"
proof -
  obtain p l r where p: "bst_probe alloc t item = (Some p, t)" "subtree (bst_root t) p = BNode l d r"
    "in_tree (bst_root t) p" "cmp item d = 0"
    "bst_items t = (lefts (bst_root t) p @ bst_inorder l) @ d # (bst_inorder r @ rights (bst_root t) p)"
    using bst_probe_old [OF t d, of alloc] by blast
  have o: "ordered cmp (bst_items t)" "bst_count t = of_nat (length (bst_items t))" "bst_compare t = cmp"
    using t by (simp_all add: bst_for_def)
  have st: "list_store cmp item (\<lambda>_. item) (bst_items t) =
      (lefts (bst_root t) p @ bst_inorder l) @ item # (bst_inorder r @ rights (bst_root t) p)"
    using o(1) p(4) unfolding p(5) by (rule list_store_mid)
  show ?thesis
  proof (cases "d = item")
    case True
    then show ?thesis using p st t by (simp add: bst_replace_def Let_def)
  next
    case False
    let ?t' = "t\<lparr>bst_root := put_at (bst_root t) p (BNode l item r)\<rparr>"
    have it: "bst_items ?t' = list_store cmp item (\<lambda>_. item) (bst_items t)"
      using st inorder_put [OF p(3), of "BNode l item r"] by (simp add: bst_items_def)
    have "ordered cmp (list_store cmp item (\<lambda>_. item) (bst_items t))"
      using o(1) by (simp only: ordered_list_replace)
    then have "bst_for cmp ?t'" using o it by (simp add: bst_for_def list_store_def)
    then show ?thesis using False p it by (simp add: bst_replace_def Let_def)
  qed
qed

lemma bst_delete_items:
  assumes t: "bst_for cmp t"
  shows "\<exists>t'. bst_delete t item = (list_find cmp item (bst_items t), t') \<and> bst_for cmp t' \<and>
    bst_items t' = list_delete cmp item (bst_items t)"
  using t
proof (cases rule: locate_cases [where item = item])
  case (slot p)
  then have "\<forall>y\<in>set (bst_items t). cmp item y \<noteq> 0"
    unfolding list_find_def find_None_iff by auto
  then have "list_delete cmp item (bst_items t) = bst_items t"
    by (auto simp: list_delete_def intro!: filter_True)
  then show ?thesis using slot t by (simp add: bst_delete_def bst_for_def Let_def)
next
  case (found p l d r)
  let ?t' = "t\<lparr>bst_root := put_at (bst_root t) p (bst_unlink (BNode l d r)),
      bst_count := bst_count t - 1, bst_generation := bst_generation t + 1\<rparr>"
  have it: "bst_items ?t' = list_delete cmp item (bst_items t)"
    using inorder_put [OF found(5), of "bst_unlink (BNode l d r)"] inorder_unlink [of l d r]
      list_delete_mid [OF found(7,4)] found(3) by (simp add: bst_items_def)
  have "ordered cmp (list_delete cmp item (bst_items t))"
    using t by (auto simp: list_delete_def ordered_def bst_for_def sorted_wrt_filter)
  moreover have "length (bst_items t) = Suc (length (list_delete cmp item (bst_items t)))"
    using list_delete_mid [OF found(7,4)] found(3) by simp
  ultimately have "bst_for cmp ?t'" using t it by (simp add: bst_for_def)
  then show ?thesis using found t it by (simp add: bst_delete_def bst_for_def Let_def)
qed

lemma bst_ordered_table:
  "ordered_table key cmp (bst_ok cmp) bst_items (\<lambda>t x. Ok (bst_insert True t x))
     (\<lambda>t x. Ok (bst_replace True t x)) (\<lambda>t x. Ok (bst_delete t x)) bst_find"
proof
  fix n and t :: "'a bst_table" and x d
  show "bst_ok cmp n t" if "bst_ok cmp (Suc n) t" using that by (simp add: bst_ok_def)
  show "ordered cmp (bst_items t)" if "bst_ok cmp n t" using that by (simp add: bst_ok_def bst_for_def)
  show "bst_find t x = list_find cmp x (bst_items t)" if "bst_ok cmp n t"
  proof -
    have t: "bst_for cmp t" using that by (simp add: bst_ok_def)
    then have f: "bst_find t x = node_data (subtree (bst_root t) (bst_locate cmp x (bst_root t)))"
      by (simp add: bst_find_def bst_find_correct bst_for_def bst_items_def)
    from t show ?thesis by (cases rule: locate_cases [where item = x]) (simp_all add: f)
  qed
  assume "bst_ok cmp (Suc n) t"
  then have t: "bst_for cmp t" by (simp add: bst_ok_def)
  show "\<exists>t'. Ok (bst_insert True t x) = Ok (None, t') \<and> bst_ok cmp n t' \<and> bst_items t' = list_insert cmp x (bst_items t)"
    if "list_find cmp x (bst_items t) = None"
    using bst_insert_new [OF t that] by (simp add: bst_ok_def)
  show "\<exists>t'. Ok (bst_insert True t x) = Ok (if d = x then None else Some d, t') \<and> bst_ok cmp n t' \<and> bst_items t' = bst_items t"
    if "list_find cmp x (bst_items t) = Some d"
    using bst_insert_old [OF t that, of True] t by (simp add: bst_ok_def)
  show "\<exists>t'. Ok (bst_replace True t x) = Ok (None, t') \<and> bst_ok cmp n t' \<and> bst_items t' = list_insert cmp x (bst_items t)"
    if "list_find cmp x (bst_items t) = None"
    using bst_replace_new [OF t that] by (simp add: bst_ok_def)
  show "\<exists>t'. Ok (bst_replace True t x) = Ok (if d = x then None else Some d, t') \<and> bst_ok cmp n t' \<and>
      bst_items t' = list_store cmp x (\<lambda>_. x) (bst_items t)"
    if "list_find cmp x (bst_items t) = Some d"
    using bst_replace_old [OF t that, of True] by (simp add: bst_ok_def)
  show "\<exists>t'. Ok (bst_delete t x) = Ok (list_find cmp x (bst_items t), t') \<and> bst_ok cmp n t' \<and>
      bst_items t' = list_delete cmp x (bst_items t)"
    using bst_delete_items [OF t, of x] by (simp add: bst_ok_def)
qed

end

end
