(* ===== verification/BST_Balance.thy ===== *)
theory BST_Balance
  imports BST_Tree "HOL-Library.Word"
begin

text \<open>
  \<^verbatim>\<open>bst_balance\<close> of \<open>bst.c\<close>: the tree is turned into a vine, a list along the left links,
  and the vine is folded into a tree of minimal height by rounds of rotations.
\<close>

unbundle bit_operations_syntax

section \<open>The operations\<close>

definition BST_MAX_HEIGHT :: nat where
  "BST_MAX_HEIGHT = 32"

text \<open>\<^verbatim>\<open>tree_to_vine\<close> at the pointer \<open>p\<close>.\<close>

function tree_to_vine :: "'a bst_node \<Rightarrow> 'a bst_node" where
  "tree_to_vine BNull = BNull"
| "tree_to_vine (BNode l x BNull) = BNode (tree_to_vine l) x BNull"
| "tree_to_vine (BNode l x (BNode rl rx rr)) = tree_to_vine (BNode (BNode l x rl) rx rr)"
  by pat_completeness auto
termination
  by (relation "measures [size, \<lambda>t. size (blink1 t)]") auto

text \<open>\<^verbatim>\<open>compress\<close>; the tree is the left link of \<open>root\<close>.\<close>

fun compress :: "nat \<Rightarrow> 'a bst_node \<Rightarrow> 'a bst_node outcome" where
  "compress 0 t = Ok t"
| "compress (Suc n) BNull = Fault Null_dereference"
| "compress (Suc n) (BNode BNull rx rr) = Fault Null_dereference"
| "compress (Suc n) (BNode (BNode bl bx br) rx rr) =
     obind (compress n bl) (\<lambda>t. Ok (BNode t bx (BNode br rx rr)))"

text \<open>The loop that clears the lowest bits until one is left.\<close>

function top_bit :: "64 word \<Rightarrow> 64 word" where
  "top_bit leaves = (if leaves AND (leaves - 1) = 0 then leaves else top_bit (leaves AND (leaves - 1)))"
  by pat_completeness auto
termination
proof (relation "measure unat")
  fix n :: "64 word"
  assume a: "n AND (n - 1) \<noteq> 0"
  then have "n \<noteq> 0" by auto
  then have "unat (n - 1) < unat n" by (simp add: unat_minus_one unat_gt_0)
  moreover have "n AND (n - 1) \<le> n - 1" by (metis and.commute word_and_le1)
  ultimately show "(n AND (n - 1), n) \<in> measure unat" by (simp add: word_le_nat_alt)
qed simp

declare top_bit.simps [simp del]

text \<open>The rounds: the vine is what is left of the main vine, \<open>h\<close> the height so far.\<close>

function vine_rounds :: "64 word \<Rightarrow> int \<Rightarrow> 'a bst_node \<Rightarrow> ('a bst_node \<times> int) outcome" where
  "vine_rounds vine h t =
     (if vine > 1 then
        (case compress (unat (vine div 2)) t of
           Ok t \<Rightarrow> vine_rounds (vine div 2) (h + 1) t
         | Blocks \<Rightarrow> Blocks
         | Fault f \<Rightarrow> Fault f)
      else Ok (t, h))"
  by pat_completeness auto
termination
proof (relation "measure (\<lambda>(v, _). unat v)")
  fix vine :: "64 word"
  assume "1 < vine"
  then have "1 < unat vine" by (simp add: word_less_nat_alt)
  then have "unat vine div 2 < unat vine" by simp
  then show "((vine div 2, h + 1, t), (vine, h, t')) \<in> measure (\<lambda>(v, _). unat v)" for h :: int and t t' :: "'a bst_node"
    by (simp add: unat_div)
qed simp

declare vine_rounds.simps [simp del]

definition vine_to_tree :: "64 word \<Rightarrow> 'a bst_node \<Rightarrow> 'a bst_node outcome" where
  "vine_to_tree count t =
     (let leaves = count + 1 - top_bit (count + 1) in
      obind (compress (unat leaves) t)
        (\<lambda>t. obind (vine_rounds (count - leaves) (1 + (if leaves > 0 then 1 else 0)) t)
          (\<lambda>(t, h). if h > int BST_MAX_HEIGHT then Fault Exit_failure else Ok t)))"

definition bst_balance :: "'a bst_table \<Rightarrow> 'a bst_table outcome" where
  "bst_balance tree =
     obind (vine_to_tree (bst_count tree) (tree_to_vine (bst_root tree)))
       (\<lambda>t. Ok (tree\<lparr>bst_root := t, bst_generation := bst_generation tree + 1\<rparr>))"

section \<open>The highest power of two\<close>

lemma bit_power_add:
  fixes a k :: nat
  assumes "a < 2 ^ k"
  shows "bit (2 ^ k + a) i \<longleftrightarrow> i = k \<or> bit a i" "bit a i \<Longrightarrow> i < k"
proof -
  have t: "take_bit k a = a" using assms by (simp add: take_bit_nat_eq_self)
  have d: "i < k" if "bit a i" for i
    using that bit_take_bit_iff [of k a i] unfolding t by simp
  then have "\<not> bit a k" by blast
  then have "2 ^ k AND a = 0" by (intro bit_eqI) (auto simp: bit_simps)
  then have "2 ^ k + a = 2 ^ k OR a" by (rule disjunctive_add_eq_or)
  then show "bit (2 ^ k + a) i \<longleftrightarrow> i = k \<or> bit a i" by (auto simp: bit_simps)
  show "bit a i \<Longrightarrow> i < k" by (rule d)
qed

lemma nat_and_le: "m AND n \<le> (n :: nat)"
proof -
  have "int (m AND n) \<le> int n" by (simp add: of_nat_and_eq)
  then show ?thesis by simp
qed

lemma and_power_add:
  fixes m k :: nat
  assumes "0 < m" "m < 2 ^ k"
  shows "(2 ^ k + m) AND (2 ^ k + m - 1) = 2 ^ k + (m AND (m - 1))"
proof (rule bit_eqI)
  fix i
  have l: "m - 1 < 2 ^ k" "m AND (m - 1) < 2 ^ k" "2 ^ k + m - 1 = 2 ^ k + (m - 1)"
    using assms nat_and_le [of m "m - 1"] by auto
  show "bit ((2 ^ k + m) AND (2 ^ k + m - 1)) i = bit (2 ^ k + (m AND (m - 1))) i"
    unfolding l(3) bit_and_iff bit_power_add(1) [OF assms(2)] bit_power_add(1) [OF l(1)] bit_power_add(1) [OF l(2)]
    by (auto simp: bit_and_iff dest: bit_power_add(2) [OF assms(2)] bit_power_add(2) [OF l(1)])
qed

lemma top_bit_value:
  "m < 2 ^ k \<Longrightarrow> k < 64 \<Longrightarrow> unat n = 2 ^ k + m \<Longrightarrow> unat (top_bit n) = 2 ^ k"
proof (induction m arbitrary: n rule: less_induct)
  case (less m)
  have "n \<noteq> 0" using less.prems(3) by auto
  then have u: "unat (n AND (n - 1)) = unat n AND (unat n - 1)"
    by (simp add: unsigned_and_eq unat_minus_one)
  show ?case
  proof (cases "m = 0")
    case True
    have "(2 ^ k :: nat) AND mask k = 0" by (intro bit_eqI) (auto simp: bit_simps)
    then have "(2 ^ k :: nat) AND (2 ^ k - 1) = 0" by (simp add: mask_eq_exp_minus_1)
    then have "n AND (n - 1) = 0" using u less.prems(3) True by (simp add: unat_eq_zero)
    then show ?thesis using less.prems(3) True by (simp add: top_bit.simps [of n])
  next
    case False
    then have e: "unat (n AND (n - 1)) = 2 ^ k + (m AND (m - 1))"
      using u and_power_add [of m k] less.prems by simp
    then have "n AND (n - 1) \<noteq> 0" by auto
    moreover have "m AND (m - 1) < m" using False nat_and_le [of m "m - 1"] by simp
    ultimately show ?thesis using less.IH [OF _ _ less.prems(2) e] less.prems(1)
      by (subst top_bit.simps) simp
  qed
qed

section \<open>Vines\<close>

fun bst_height :: "'a bst_node \<Rightarrow> nat" where
  "bst_height BNull = 0"
| "bst_height (BNode l x r) = Suc (max (bst_height l) (bst_height r))"

text \<open>
  \<open>spine n h P t\<close>: from the root along the left links there are \<open>n\<close> nodes with right
  subtrees of height at most \<open>h\<close>, and \<open>P\<close> holds of the subtree below them.
\<close>

fun spine :: "nat \<Rightarrow> nat \<Rightarrow> ('a bst_node \<Rightarrow> bool) \<Rightarrow> 'a bst_node \<Rightarrow> bool" where
  "spine 0 h P t = P t"
| "spine (Suc n) h P BNull = False"
| "spine (Suc n) h P (BNode l x r) = (bst_height r \<le> h \<and> spine n h P l)"

definition flat :: "nat \<Rightarrow> 'a bst_node \<Rightarrow> bool" where
  "flat h t \<longleftrightarrow> bst_height t \<le> h"

lemma spine_mono: "spine n h P t \<Longrightarrow> h \<le> h' \<Longrightarrow> (\<And>u. P u \<Longrightarrow> Q u) \<Longrightarrow> spine n h' Q t"
  by (induction n h P t rule: spine.induct) auto

lemma spine_add: "spine (m + n) h P t = spine m h (spine n h P) t"
  by (induction m h P t rule: spine.induct) auto

lemma vine_inorder [simp]: "bst_inorder (tree_to_vine t) = bst_inorder t"
  by (induction t rule: tree_to_vine.induct) auto

lemma vine_spine: "spine (length (bst_inorder t)) 0 (flat 0) (tree_to_vine t)"
proof (induction t rule: tree_to_vine.induct)
  case (2 l x)
  then show ?case by simp
next
  case (3 l x rl rx rr)
  then show ?case by (simp add: algebra_simps)
qed (simp add: flat_def)

lemma compress_spine:
  "spine (2 * c) h P t \<Longrightarrow>
     \<exists>t'. compress c t = Ok t' \<and> spine c (Suc h) P t' \<and> bst_inorder t' = bst_inorder t"
proof (induction c arbitrary: t)
  case (Suc c)
  then have "spine (Suc (Suc (2 * c))) h P t" by simp
  then obtain bl bx br rx rr where t: "t = BNode (BNode bl bx br) rx rr" "bst_height rr \<le> h" "bst_height br \<le> h"
    "spine (2 * c) h P bl"
    by (metis spine.simps(2) spine.simps(3) bst_node.exhaust)
  obtain u where "compress c bl = Ok u" "spine c (Suc h) P u" "bst_inorder u = bst_inorder bl"
    using Suc.IH [OF t(4)] by blast
  then show ?case using t by simp
qed simp

lemma compress_null: "compress c t = Ok t' \<Longrightarrow> t' = BNull \<longleftrightarrow> t = BNull"
  by (cases "(c, t)" rule: compress.cases) (auto elim!: obind_OkE)

lemma compress_inorder: "compress c t = Ok t' \<Longrightarrow> bst_inorder t' = bst_inorder t"
proof (induction c t arbitrary: t' rule: compress.induct)
  case (4 n bl bx br rx rr)
  then show ?case by (auto elim!: obind_OkE)
qed simp_all

lemma spine_one: "spine 1 h (flat h) t \<Longrightarrow> flat (Suc h) t"
  by (cases t) (simp_all add: flat_def)

lemma rounds_flat:
  "spine (2 ^ Suc j - 1) h (flat h) t \<Longrightarrow> j < 64 \<Longrightarrow> unat v = 2 ^ Suc j - 1 \<Longrightarrow>
     \<exists>t'. vine_rounds v hc t = Ok (t', hc + int j) \<and> flat (h + Suc j) t' \<and> bst_inorder t' = bst_inorder t"
proof (induction j arbitrary: h t v hc)
  case 0
  then have "\<not> v > 1" by (simp add: word_less_nat_alt)
  then show ?case using 0 spine_one [of h t] by (simp add: vine_rounds.simps [of v])
next
  case (Suc j)
  let ?c = "2 ^ Suc j - 1 :: nat"
  have "1 \<le> (2 :: nat) ^ j" by simp
  then have eq: "2 ^ Suc (Suc j) - 1 = 2 * ?c + (1 :: nat)" unfolding power_Suc by linarith
  have "1 < unat v" using Suc.prems(3) \<open>1 \<le> 2 ^ j\<close> unfolding power_Suc by linarith
  then have v: "v > 1" by (simp add: word_less_nat_alt)
  have c: "unat (v div 2) = ?c" using Suc.prems(3) by (simp add: unat_div eq)
  have "spine (2 * ?c) h (spine 1 h (flat h)) t"
    using Suc.prems(1) unfolding eq spine_add .
  then obtain u where u: "compress ?c t = Ok u" "spine ?c (Suc h) (spine 1 h (flat h)) u"
    "bst_inorder u = bst_inorder t"
    using compress_spine by blast
  have "spine ?c (Suc h) (flat (Suc h)) u" by (rule spine_mono [OF u(2)]) (simp_all only: spine_one le_refl)
  then obtain t' where "vine_rounds (v div 2) (hc + 1) u = Ok (t', hc + 1 + int j)" "flat (Suc h + Suc j) t'"
    "bst_inorder t' = bst_inorder u"
    using Suc.IH [of "Suc h" u "v div 2" "hc + 1"] c Suc.prems(2) by auto
  then show ?case using v c u by (simp add: vine_rounds.simps [of v] algebra_simps)
qed

lemma power_interval: "0 < n \<Longrightarrow> \<exists>k m :: nat. n = 2 ^ k + m \<and> m < 2 ^ k"
proof (induction n)
  case (Suc n)
  show ?case
  proof (cases "n = 0")
    case True
    then show ?thesis by (intro exI [of _ 0]) simp
  next
    case False
    then obtain k m where km: "n = 2 ^ k + m" "m < 2 ^ k" using Suc.IH by auto
    show ?thesis
    proof (cases "Suc m < 2 ^ k")
      case True
      then show ?thesis using km by (intro exI [of _ k] exI [of _ "Suc m"]) simp
    next
      case False
      then have "Suc n = 2 ^ Suc k" using km by simp
      then show ?thesis by (intro exI [of _ "Suc k"] exI [of _ 0]) simp
    qed
  qed
qed simp

text \<open>The numbers \<open>leaves\<close> and \<open>vine\<close> for \<open>n\<close> items.\<close>

lemma vine_words:
  assumes "n < 2 ^ 32"
  obtains k m where "Suc n = 2 ^ k + m" "m < 2 ^ k" "k \<le> 32" "unat (of_nat n :: 64 word) = n"
    "unat (of_nat n + 1 - top_bit (of_nat n + 1)) = m"
    "unat (of_nat n - (of_nat n + 1 - top_bit (of_nat n + 1))) = 2 ^ k - 1"
proof -
  obtain k m where km: "Suc n = 2 ^ k + m" "m < 2 ^ k" using power_interval [of "Suc n"] by auto
  have "(2 :: nat) ^ k \<le> 2 ^ 32" using km assms by simp
  then have k32: "k \<le> 32" by (rule power_le_imp_le_exp [rotated]) simp
  let ?count = "of_nat n :: 64 word"
  have c: "unat ?count = n" using assms by (simp add: unat_of_nat take_bit_nat_eq_self)
  have "unat (?count + 1) = Suc n" using assms c by (simp add: unat_word_ariths(1))
  then have s: "unat (?count + 1) = 2 ^ k + m" using km(1) by simp
  have tb: "unat (top_bit (?count + 1)) = 2 ^ k" using top_bit_value [OF km(2) _ s] k32 by simp
  let ?leaves = "?count + 1 - top_bit (?count + 1)"
  have l: "unat ?leaves = m"
    using unat_sub [of "top_bit (?count + 1)" "?count + 1"] s tb by (simp add: word_le_nat_alt)
  have "m \<le> n" using km by simp
  then have v: "unat (?count - ?leaves) = 2 ^ k - 1"
    using unat_sub [of ?leaves ?count] c l km by (simp add: word_le_nat_alt)
  show thesis by (rule that [OF km k32 c l v])
qed

lemma vine_to_tree_ok:
  assumes "spine n 0 (flat 0) t" "n = length (bst_inorder t)" "n < 2 ^ 32"
  shows "\<exists>t' b. vine_to_tree (of_nat n) t = Ok t' \<and> bst_inorder t' = bst_inorder t \<and>
    bst_height t' \<le> b \<and> b \<le> BST_MAX_HEIGHT \<and> (0 < b \<longrightarrow> 2 ^ (b - 1) \<le> n)"
proof -
  let ?count = "of_nat n :: 64 word"
  let ?leaves = "?count + 1 - top_bit (?count + 1)"
  obtain k m where km: "Suc n = 2 ^ k + m" "m < 2 ^ k" and k32: "k \<le> 32" and l: "unat ?leaves = m"
    and v: "unat (?count - ?leaves) = 2 ^ k - 1"
    using vine_words [OF assms(3)] by metis
  have n: "n = 2 * m + (2 ^ k - 1 - m)" using km by simp
  have "spine (2 * m) 0 (spine (2 ^ k - 1 - m) 0 (flat 0)) t"
    using assms(1) unfolding spine_add [symmetric] n [symmetric] .
  then obtain u where u: "compress m t = Ok u" "spine m (Suc 0) (spine (2 ^ k - 1 - m) 0 (flat 0)) u"
    "bst_inorder u = bst_inorder t"
    using compress_spine by blast
  let ?h = "if m > 0 then 1 else 0 :: nat"
  have sp: "spine (2 ^ k - 1) ?h (flat ?h) u"
  proof (cases "m = 0")
    case True
    then show ?thesis using u by simp
  next
    case False
    have e: "m + (2 ^ k - 1 - m) = 2 ^ k - 1" using km(2) by simp
    have "spine m (Suc 0) (spine (2 ^ k - 1 - m) (Suc 0) (flat (Suc 0))) u"
      using u(2) by (rule spine_mono) (auto intro!: spine_mono [of _ 0 "flat 0" _ "Suc 0"] simp: flat_def)
    then have "spine (2 ^ k - 1) (Suc 0) (flat (Suc 0)) u" unfolding spine_add [symmetric] e .
    then show ?thesis using False by simp
  qed
  have pos: "(0 < ?leaves) = (0 < m)" using l by (simp add: word_less_nat_alt)
  show ?thesis
  proof (cases k)
    case 0
    then have nm: "n = 0" "m = 0" using km by auto
    have "\<not> ?count - ?leaves > 1" using v 0 by (simp add: word_less_nat_alt)
    then have "vine_rounds (?count - ?leaves) 1 u = Ok (u, 1)" for u :: "'a bst_node"
      by (simp add: vine_rounds.simps)
    then have "vine_to_tree ?count t = Ok u"
      using l u pos nm unfolding vine_to_tree_def Let_def by (simp add: BST_MAX_HEIGHT_def)
    then show ?thesis using u(3) sp 0 nm by (intro exI [of _ u] exI [of _ 0]) (simp add: flat_def)
  next
    case (Suc j)
    have "spine (2 ^ Suc j - 1) ?h (flat ?h) u" "j < 64" "unat (?count - ?leaves) = 2 ^ Suc j - 1"
      using sp v k32 Suc by simp_all
    from rounds_flat [OF this, of "1 + int ?h"]
    obtain t' where t': "vine_rounds (?count - ?leaves) (1 + int ?h) u = Ok (t', 1 + int ?h + int j)"
      "flat (?h + Suc j) t'" "bst_inorder t' = bst_inorder u"
      by auto
    have hb: "?h + k \<le> 32"
    proof (cases "k = 32")
      case True
      then show ?thesis using km assms(3) by simp
    next
      case False
      then show ?thesis using k32 by simp
    qed
    have "2 ^ (?h + k - 1) \<le> n" using km Suc by auto
    then show ?thesis using t' u l pos hb Suc
      by (intro exI [of _ t'] exI [of _ "?h + k"])
        (auto simp: vine_to_tree_def Let_def flat_def BST_MAX_HEIGHT_def)
  qed
qed

text \<open>A table in which \<open>bst_balance\<close> succeeds, and what it leaves.\<close>

lemma bst_balance_ok:
  assumes "bst_count t = of_nat (length (bst_items t))" "length (bst_items t) < 2 ^ 32"
  shows "\<exists>t' b. bst_balance t = Ok t' \<and> bst_items t' = bst_items t \<and> bst_count t' = bst_count t \<and>
    bst_compare t' = bst_compare t \<and> bst_generation t' = bst_generation t + 1 \<and>
    bst_height (bst_root t') \<le> b \<and> b \<le> BST_MAX_HEIGHT \<and> (0 < b \<longrightarrow> 2 ^ (b - 1) \<le> length (bst_items t))"
proof -
  have "spine (length (bst_items t)) 0 (flat 0) (tree_to_vine (bst_root t))"
    using vine_spine [of "bst_root t"] by (simp add: bst_items_def)
  from vine_to_tree_ok [OF this _ assms(2)]
  obtain t' b where "vine_to_tree (bst_count t) (tree_to_vine (bst_root t)) = Ok t'"
    "bst_inorder t' = bst_inorder (bst_root t)" "bst_height t' \<le> b" "b \<le> BST_MAX_HEIGHT"
    "0 < b \<longrightarrow> 2 ^ (b - 1) \<le> length (bst_items t)"
    unfolding assms(1) by (auto simp: bst_items_def)
  then show ?thesis
    by (intro exI [of _ "t\<lparr>bst_root := t', bst_generation := bst_generation t + 1\<rparr>"] exI [of _ b])
      (simp add: bst_balance_def bst_items_def)
qed

end
