(* ===== verification/AVL_Shape.thy ===== *)
theory AVL_Shape
  imports AVL_Tree BST_Balance
begin

text \<open>
  The shape of an AVL tree.  The loops that only follow links see the tree without its balance
  factors, which is a tree of \<open>bst.c\<close>; items, heights and positions are those of this tree.
  The rest is about the balance factors: the invariant on trees and on the stacks above a hole,
  the bound on the height, and what the rebalancing of \<open>avl.c\<close> does to each of them.
\<close>

section \<open>Trees without balance factors\<close>

fun shape :: "'a avl_node \<Rightarrow> 'a bst_node" where
  "shape ANull = BNull"
| "shape (ANode l x b r) = BNode (shape l) x (shape r)"

abbreviation ainorder :: "'a avl_node \<Rightarrow> 'a list" where
  "ainorder t \<equiv> bst_inorder (shape t)"

abbreviation aheight :: "'a avl_node \<Rightarrow> nat" where
  "aheight t \<equiv> bst_height (shape t)"

fun abefore :: "'a avl_frame list \<Rightarrow> 'a list" where
  "abefore [] = []"
| "abefore (AFrame d x b u # pa) = abefore pa @ (if d then ainorder u @ [x] else [])"

fun aafter :: "'a avl_frame list \<Rightarrow> 'a list" where
  "aafter [] = []"
| "aafter (AFrame d x b u # pa) = (if d then [] else x # ainorder u) @ aafter pa"

named_theorems avl_simps \<open>facts about AVL trees and stacks\<close>

lemma shape_Null [simp]: "shape t = BNull \<longleftrightarrow> t = ANull"
  by (cases t) simp_all

lemma inorder_mk [simp]:
  "ainorder (avl_mk d t x b u) = (if d then ainorder u @ x # ainorder t else ainorder t @ x # ainorder u)"
  by (cases d) simp_all

lemma height_mk [simp]: "aheight (avl_mk d t x b u) = Suc (max (aheight t) (aheight u))"
  by (cases d) auto

lemma inorder_aplug [avl_simps]: "ainorder (avl_plug t pa) = abefore pa @ ainorder t @ aafter pa"
  by (induction t pa rule: avl_plug.induct) auto

lemma aplug_append [simp]: "avl_plug t (pa @ pb) = avl_plug (avl_plug t pa) pb"
  by (induction t pa rule: avl_plug.induct) auto

lemma abefore_append: "abefore (pa @ pb) = abefore pb @ abefore pa"
  by (induction pa rule: abefore.induct) auto

lemma aafter_append: "aafter (pa @ pb) = aafter pa @ aafter pb"
  by (induction pa rule: aafter.induct) auto

lemma around_bump [simp]: "abefore (map avl_bump pa) = abefore pa" "aafter (map avl_bump pa) = aafter pa"
  by (induction pa rule: abefore.induct) auto

lemma height_aplug: "length pa + aheight t \<le> aheight (avl_plug t pa)"
proof (induction t pa rule: avl_plug.induct)
  case (2 t d x b u pa)
  then show ?case by simp
qed simp

lemma avl_destroy_inorder: "avl_destroy_loop t = ainorder t"
  by (induction t rule: avl_destroy_loop.induct) auto

section \<open>The invariant\<close>

text \<open>Every balance factor is the difference of the heights, which is at most one.\<close>

fun avl_inv :: "'a avl_node \<Rightarrow> bool" where
  "avl_inv ANull = True"
| "avl_inv (ANode l x b r) =
     (avl_inv l \<and> avl_inv r \<and> b = int (aheight r) - int (aheight l) \<and> \<bar>b\<bar> \<le> 1)"

text \<open>The same for a stack above a hole of height \<open>h\<close>.\<close>

fun apath_inv :: "'a avl_frame list \<Rightarrow> nat \<Rightarrow> bool" where
  "apath_inv [] h = True"
| "apath_inv (AFrame d x b u # pa) h =
     (avl_inv u \<and> b = (if d then int h - int (aheight u) else int (aheight u) - int h) \<and> \<bar>b\<bar> \<le> 1 \<and>
      apath_inv pa (Suc (max h (aheight u))))"

lemma avl_inv_mk [simp]:
  "avl_inv (avl_mk d t x b u) \<longleftrightarrow> avl_inv t \<and> avl_inv u \<and> \<bar>b\<bar> \<le> 1 \<and>
     b = (if d then int (aheight t) - int (aheight u) else int (aheight u) - int (aheight t))"
  by (cases d) auto

lemma avl_inv_plug [avl_simps]: "avl_inv (avl_plug t pa) \<longleftrightarrow> avl_inv t \<and> apath_inv pa (aheight t)"
  by (induction t pa rule: avl_plug.induct) auto

section \<open>Height\<close>

text \<open>The fewest items of an AVL tree of height \<open>h\<close>.\<close>

fun avl_fewest :: "nat \<Rightarrow> nat" where
  "avl_fewest 0 = 0"
| "avl_fewest (Suc 0) = 1"
| "avl_fewest (Suc (Suc h)) = Suc (avl_fewest (Suc h) + avl_fewest h)"

lemma fewest_mono: "h \<le> k \<Longrightarrow> avl_fewest h \<le> avl_fewest k"
proof (rule lift_Suc_mono_le [of avl_fewest])
  show "avl_fewest n \<le> avl_fewest (Suc n)" for n by (induction n rule: avl_fewest.induct) auto
qed

lemma fewest_items: "avl_inv t \<Longrightarrow> avl_fewest (aheight t) \<le> length (ainorder t)"
proof (induction t)
  case (ANode l x b r)
  let ?hl = "aheight l" and ?hr = "aheight r"
  have i: "avl_fewest ?hl \<le> length (ainorder l)" "avl_fewest ?hr \<le> length (ainorder r)"
    using ANode by auto
  have h: "?hl \<le> Suc ?hr" "?hr \<le> Suc ?hl" using ANode.prems by auto
  then consider "?hl = Suc ?hr" | "?hl = ?hr" | "?hr = Suc ?hl" by linarith
  then have "avl_fewest (Suc (max ?hl ?hr)) \<le> Suc (avl_fewest ?hl + avl_fewest ?hr)"
  proof cases
    case 2
    then show ?thesis using fewest_mono [of "?hr - 1" ?hr] by (cases ?hr) auto
  qed auto
  then show ?case using i by simp
qed simp

lemma fewest_pair:
  "((\<lambda>(a, b). (b, a + b + 1)) ^^ n) (0 :: int, 1) = (int (avl_fewest n), int (avl_fewest (Suc n)))"
  by (induction n) auto

lemma fewest_values: "avl_fewest 32 = 5702886" "avl_fewest 33 = 9227464"
proof -
  have "((\<lambda>(a, b). (b, a + b + 1)) ^^ 32) (0 :: int, 1) = (5702886, 9227464)"
    by (simp add: eval_nat_numeral)
  then show "avl_fewest 32 = 5702886" "avl_fewest 33 = 9227464" using fewest_pair [of 32] by simp_all
qed

lemma height_below:
  assumes "avl_inv t" "length (ainorder t) < avl_fewest (Suc h)"
  shows "aheight t \<le> h"
proof (rule ccontr)
  assume "\<not> ?thesis"
  then have "avl_fewest (Suc h) \<le> avl_fewest (aheight t)" by (intro fewest_mono) simp
  then show False using fewest_items [OF assms(1)] assms(2) by simp
qed

text \<open>
  With fewer than \<open>2 ^ 22\<close> items a tree is at most 31 nodes high, with one more at most 32.
\<close>

lemma height_bounds:
  "avl_inv t \<Longrightarrow> length (ainorder t) < 2 ^ 22 \<Longrightarrow> aheight t \<le> 31"
  "avl_inv t \<Longrightarrow> length (ainorder t) \<le> 2 ^ 22 \<Longrightarrow> aheight t \<le> 32"
  using height_below [of t 31] height_below [of t 32] fewest_values by simp_all

section \<open>Insertion\<close>

lemma double_left_ok:
  assumes "avl_inv xl" "avl_inv w" "avl_inv yr" "aheight xl = h" "aheight w = Suc h" "aheight yr = h"
  shows "\<exists>t. avl_double_left xl xd w yd yr = Ok t \<and> avl_inv t \<and> aheight t = Suc (Suc h) \<and> avl_balance t = 0 \<and>
    ainorder t = ainorder xl @ xd # ainorder w @ yd # ainorder yr"
proof -
  obtain wl wd wb wr where w: "w = ANode wl wd wb wr" using assms(5) by (cases w) auto
  then consider "wb = - 1" | "wb = 0" | "wb = 1" using assms(2) by auto linarith
  then show ?thesis using assms unfolding w by cases (auto simp: max_def split: if_splits)
qed

lemma double_right_ok:
  assumes "avl_inv yl" "avl_inv w" "avl_inv xr" "aheight yl = h" "aheight w = Suc h" "aheight xr = h"
  shows "\<exists>t. avl_double_right yl yd w xd xr = Ok t \<and> avl_inv t \<and> aheight t = Suc (Suc h) \<and> avl_balance t = 0 \<and>
    ainorder t = ainorder yl @ yd # ainorder w @ xd # ainorder xr"
proof -
  obtain wl wd wb wr where w: "w = ANode wl wd wb wr" using assms(5) by (cases w) auto
  then consider "wb = - 1" | "wb = 0" | "wb = 1" using assms(2) by auto linarith
  then show ?thesis using assms unfolding w by cases (auto simp: max_def split: if_splits)
qed

text \<open>
  Rebalancing at \<open>y\<close>, whose children are valid: nothing happens when \<open>y\<close> is valid; when it is too
  high on one side, and its child there leans to some side, it is rotated and a level lower.
\<close>

lemma insert_fix_ok:
  assumes "avl_inv l" "avl_inv r" "b = int (aheight r) - int (aheight l)" "\<bar>b\<bar> \<le> 2"
    and "b = - 2 \<longrightarrow> avl_balance l \<noteq> 0" "b = 2 \<longrightarrow> avl_balance r \<noteq> 0"
  shows "if \<bar>b\<bar> \<le> 1 then avl_insert_fix (ANode l x b r) = Ok None
    else \<exists>w. avl_insert_fix (ANode l x b r) = Ok (Some w) \<and> avl_inv w \<and>
      Suc (aheight w) = aheight (ANode l x b r) \<and> ainorder w = ainorder (ANode l x b r)"
proof -
  consider "\<bar>b\<bar> \<le> 1" | "b = - 2" | "b = 2" using assms(4) by linarith
  then show ?thesis
  proof cases
    case 2
    then have h: "aheight l = Suc (Suc (aheight r))" using assms(3) by linarith
    then obtain xl xd xb xr where l: "l = ANode xl xd xb xr" by (cases l) auto
    then consider "xb = - 1" | "xb = 1" using assms(1,5) 2 by auto linarith
    then show ?thesis
    proof cases
      case 1
      then have "aheight xl = Suc (aheight r)" "aheight xr = aheight r" using h l assms(1) by auto
      then show ?thesis using 1 2 l assms by auto
    next
      case xb: 2
      then have "aheight xl = aheight r" "aheight xr = Suc (aheight r)" using h l assms(1) by auto
      then show ?thesis using xb 2 l assms double_left_ok [of xl xr r "aheight r" xd x] by auto
    qed
  next
    case 3
    then have h: "aheight r = Suc (Suc (aheight l))" using assms(3) by linarith
    then obtain xl xd xb xr where r: "r = ANode xl xd xb xr" by (cases r) auto
    then consider "xb = 1" | "xb = - 1" using assms(2,6) 3 by auto linarith
    then show ?thesis
    proof cases
      case 1
      then have "aheight xr = Suc (aheight l)" "aheight xl = aheight l" using h r assms(2) by auto
      then show ?thesis using 1 3 r assms by auto
    next
      case xb: 2
      then have "aheight xr = aheight l" "aheight xl = Suc (aheight l)" using h r assms(2) by auto
      then show ?thesis using xb 3 r assms double_right_ok [of l xl xr "aheight l" x xd] by auto
    qed
  qed auto
qed

text \<open>
  Below \<open>y\<close> all balance factors on the path are 0, so a hole that becomes a level higher makes
  every subtree on the path a level higher.
\<close>

fun path_height :: "'a avl_frame list \<Rightarrow> nat \<Rightarrow> nat" where
  "path_height [] h = h"
| "path_height (AFrame d x b u # pa) h = path_height pa (Suc (max h (aheight u)))"

lemma height_plug_path: "aheight (avl_plug t pa) = path_height pa (aheight t)"
  by (induction t pa rule: avl_plug.induct) auto

lemma apath_inv_append [simp]: "apath_inv (pa @ pb) h \<longleftrightarrow> apath_inv pa h \<and> apath_inv pb (path_height pa h)"
  by (induction pa h rule: path_height.induct) auto

lemma grow_path:
  assumes "\<forall>f\<in>set pa. afbal f = 0" "apath_inv pa h" "avl_inv t" "aheight t = Suc h"
  shows "avl_inv (avl_plug t (map avl_bump pa)) \<and>
    aheight (avl_plug t (map avl_bump pa)) = Suc (path_height pa h) \<and>
    (pa \<noteq> [] \<or> avl_balance t \<noteq> 0 \<longrightarrow> avl_balance (avl_plug t (map avl_bump pa)) \<noteq> 0)"
  using assms
proof (induction pa arbitrary: t h)
  case (Cons f pa)
  obtain d x b u where f: "f = AFrame d x b u" by (cases f)
  then have u: "b = 0" "avl_inv u" "aheight u = h" using Cons.prems by (auto split: if_splits)
  let ?b = "if d then 1 else - 1"
  have "avl_inv (avl_mk d t x ?b u)" "aheight (avl_mk d t x ?b u) = Suc (Suc h)" "avl_balance (avl_mk d t x ?b u) \<noteq> 0"
    using Cons.prems(3,4) u by (cases d; simp)+
  then show ?case using Cons.IH [of "Suc h" "avl_mk d t x ?b u"] Cons.prems f u by (cases d) auto
qed simp

text \<open>What the descent leaves: all frames of \<open>ys\<close> but the last, that of \<open>y\<close>, have balance factor 0.\<close>

definition even_path :: "'a avl_frame list \<Rightarrow> 'a avl_frame list \<Rightarrow> bool" where
  "even_path ys zs \<longleftrightarrow> (\<forall>f\<in>set (butlast ys). afbal f = 0) \<and> (ys = [] \<longrightarrow> zs = []) \<and>
     (zs \<noteq> [] \<longrightarrow> afbal (last ys) \<noteq> 0)"

lemma insert_ok:
  assumes "even_path ys zs" "avl_inv (avl_plug ANull (ys @ zs))"
  shows "let y = avl_plug (ANode ANull item 0 ANull) (map avl_bump ys) in
    ainorder y = abefore ys @ item # aafter ys \<and>
    (avl_insert_fix y = Ok None \<and> avl_inv (avl_plug y zs) \<or>
     (\<exists>w. avl_insert_fix y = Ok (Some w) \<and> avl_inv (avl_plug w zs) \<and> ainorder w = ainorder y))"
proof (cases ys rule: rev_cases)
  case Nil
  then show ?thesis using assms(1) by (simp add: even_path_def)
next
  case (snoc as f)
  let ?n = "ANode ANull item 0 ANull" and ?h = "path_height as 0"
  obtain d x b u where f: "f = AFrame d x b u" by (cases f)
  have "ys @ zs = as @ (AFrame d x b u # zs)" using snoc f by simp
  moreover have "apath_inv (ys @ zs) 0" using assms(2) by (simp only: avl_inv_plug) simp
  ultimately have p: "apath_inv as 0" "apath_inv (AFrame d x b u # zs) ?h" by (simp_all only: apath_inv_append)
  have z: "\<forall>f\<in>set as. afbal f = 0" "zs \<noteq> [] \<longrightarrow> b \<noteq> 0" using assms(1) snoc f by (auto simp: even_path_def)
  let ?t = "avl_plug ?n (map avl_bump as)" and ?b = "if d then b + 1 else b - 1"
  have t: "avl_inv ?t" "aheight ?t = Suc ?h" "as \<noteq> [] \<longrightarrow> avl_balance ?t \<noteq> 0"
    using grow_path [OF z(1) p(1), of ?n] by auto
  have u: "avl_inv u" "b = (if d then int ?h - int (aheight u) else int (aheight u) - int ?h)" "\<bar>b\<bar> \<le> 1"
    "apath_inv zs (Suc (max ?h (aheight u)))"
    using p(2) by auto
  have y: "avl_plug ?n (map avl_bump ys) = avl_mk d ?t x ?b u" using snoc f by simp
  have order: "ainorder (avl_mk d ?t x ?b u) = abefore ys @ item # aafter ys"
    using snoc f by (auto simp: avl_simps abefore_append aafter_append)
  have deep: "as \<noteq> []" if "\<bar>?b\<bar> = 2" using that u(2,3) by (cases d) auto
  have mended: "if \<bar>?b\<bar> \<le> 1 then avl_insert_fix (avl_mk d ?t x ?b u) = Ok None
    else \<exists>w. avl_insert_fix (avl_mk d ?t x ?b u) = Ok (Some w) \<and> avl_inv w \<and>
      Suc (aheight w) = aheight (avl_mk d ?t x ?b u) \<and> ainorder w = ainorder (avl_mk d ?t x ?b u)"
  proof (cases d)
    case True
    then show ?thesis using insert_fix_ok [of u ?t "b + 1" x] t u deep by auto
  next
    case False
    then show ?thesis using insert_fix_ok [of ?t u "b - 1" x] t u deep by auto
  qed
  show ?thesis
  proof (cases "\<bar>?b\<bar> \<le> 1")
    case True
    have "avl_inv (avl_plug (avl_mk d ?t x ?b u) zs)"
    proof (cases "b = 0")
      case False
      then have "Suc (max (Suc ?h) (aheight u)) = Suc (max ?h (aheight u))" using u(2,3) True by (cases d) auto
      then show ?thesis using True t u by (cases d) (auto simp: avl_simps)
    qed (use z(2) t u in \<open>auto split: if_splits\<close>)
    then show ?thesis using mended True order unfolding y by simp
  next
    case False
    then obtain w where w: "avl_insert_fix (avl_mk d ?t x ?b u) = Ok (Some w)" "avl_inv w"
      "Suc (aheight w) = Suc (max (Suc ?h) (aheight u))" "ainorder w = ainorder (avl_mk d ?t x ?b u)"
      using mended t by auto
    have "Suc (max ?h (aheight u)) = max (Suc ?h) (aheight u)" using u(2,3) False by (cases d) auto
    then have "avl_inv (avl_plug w zs)" using w u by (simp add: avl_simps)
    then show ?thesis using w order unfolding y by (simp add: Let_def)
  qed
qed

section \<open>Deletion\<close>

lemma left_lower_ok:
  assumes "avl_inv t" "avl_inv u" "b = int (aheight u) - int (Suc (aheight t))" "\<bar>b\<bar> \<le> 1"
  shows "\<exists>w stop. avl_left_lower t x b u = Ok (w, stop) \<and> avl_inv w \<and> ainorder w = ainorder t @ x # ainorder u \<and>
    aheight w + (if stop then 0 else 1) = Suc (max (Suc (aheight t)) (aheight u))"
proof -
  consider "b = - 1" | "b = 0" | "b = 1" using assms(4) by linarith
  then show ?thesis
  proof cases
    case 3
    then have h: "aheight u = Suc (Suc (aheight t))" using assms(3) by linarith
    then obtain xl xd xb xr where u: "u = ANode xl xd xb xr" by (cases u) auto
    then consider "xb = - 1" | "xb = 0" | "xb = 1" using assms(2) by auto linarith
    then show ?thesis
    proof cases
      case 1
      then have "aheight xr = aheight t" "aheight xl = Suc (aheight t)" using h u assms(2) by auto
      with double_right_ok [of t xl xr "aheight t" x xd] assms(1,2) u
      obtain w where "avl_double_right t x xl xd xr = Ok w" "avl_inv w" "aheight w = Suc (Suc (aheight t))"
        "ainorder w = ainorder t @ x # ainorder xl @ xd # ainorder xr" by auto
      moreover have "avl_left_lower t x b u = obind (avl_double_right t x xl xd xr) (\<lambda>w. Ok (w, False))"
        using 1 3 u by (simp add: avl_left_lower_def)
      ultimately show ?thesis using h u by (intro exI [of _ w] exI [of _ False]) simp
    qed (use 3 u h assms in \<open>auto simp: avl_left_lower_def\<close>)
  qed (use assms in \<open>auto simp: avl_left_lower_def\<close>)
qed

lemma right_lower_ok:
  assumes "avl_inv t" "avl_inv u" "b = int (Suc (aheight t)) - int (aheight u)" "\<bar>b\<bar> \<le> 1"
  shows "\<exists>w stop. avl_right_lower t x b u = Ok (w, stop) \<and> avl_inv w \<and> ainorder w = ainorder u @ x # ainorder t \<and>
    aheight w + (if stop then 0 else 1) = Suc (max (Suc (aheight t)) (aheight u))"
proof -
  consider "b = - 1" | "b = 0" | "b = 1" using assms(4) by linarith
  then show ?thesis
  proof cases
    case 1
    then have h: "aheight u = Suc (Suc (aheight t))" using assms(3) by linarith
    then obtain xl xd xb xr where u: "u = ANode xl xd xb xr" by (cases u) auto
    then consider "xb = 1" | "xb = 0" | "xb = - 1" using assms(2) by auto linarith
    then show ?thesis
    proof cases
      case xb: 1
      then have "aheight xl = aheight t" "aheight xr = Suc (aheight t)" using h u assms(2) by auto
      with double_left_ok [of xl xr t "aheight t" xd x] assms(1,2) u
      obtain w where "avl_double_left xl xd xr x t = Ok w" "avl_inv w" "aheight w = Suc (Suc (aheight t))"
        "ainorder w = ainorder xl @ xd # ainorder xr @ x # ainorder t" by auto
      moreover have "avl_right_lower t x b u = obind (avl_double_left xl xd xr x t) (\<lambda>w. Ok (w, False))"
        using xb 1 u by (simp add: avl_right_lower_def)
      ultimately show ?thesis using h u by (intro exI [of _ w] exI [of _ False]) simp
    qed (use 1 u h assms in \<open>auto simp: avl_right_lower_def\<close>)
  qed (use assms in \<open>auto simp: avl_right_lower_def\<close>)
qed

lemma adelete_fix_ok:
  "avl_inv t \<Longrightarrow> apath_inv pa (Suc (aheight t)) \<Longrightarrow>
     \<exists>r. avl_delete_fix t pa = Ok r \<and> avl_inv r \<and> ainorder r = abefore pa @ ainorder t @ aafter pa"
proof (induction pa arbitrary: t)
  case (Cons f pa)
  obtain d x b u where f: "f = AFrame d x b u" by (cases f)
  have u: "avl_inv u" "\<bar>b\<bar> \<le> 1" "apath_inv pa (Suc (max (Suc (aheight t)) (aheight u)))"
    "b = (if d then int (Suc (aheight t)) - int (aheight u) else int (aheight u) - int (Suc (aheight t)))"
    using Cons.prems(2) f by auto
  obtain w stop where w: "(if \<not> d then avl_left_lower t x b u else avl_right_lower t x b u) = Ok (w, stop)"
    "avl_inv w" "ainorder w = (if d then ainorder u @ x # ainorder t else ainorder t @ x # ainorder u)"
    "aheight w + (if stop then 0 else 1) = Suc (max (Suc (aheight t)) (aheight u))"
    using left_lower_ok [OF Cons.prems(1) u(1), of b x] right_lower_ok [OF Cons.prems(1) u(1), of b x] u(2,4)
    by (cases d) auto
  have around: "abefore (f # pa) @ ainorder t @ aafter (f # pa) = abefore pa @ ainorder w @ aafter pa"
    using w(3) f by simp
  have step: "avl_delete_fix t (f # pa) = (if stop then Ok (avl_plug w pa) else avl_delete_fix w pa)"
    using w(1) by (simp add: f)
  show ?case
  proof (cases stop)
    case True
    then have "avl_inv (avl_plug w pa)" using w u(3) by (simp add: avl_inv_plug)
    then show ?thesis using True around unfolding step by (simp add: inorder_aplug)
  next
    case False
    then have "apath_inv pa (Suc (aheight w))" using w(4) u(3) by simp
    from Cons.IH [OF w(2) this] show ?thesis using False around unfolding step by simp
  qed
qed simp

lemma asuccessor_ok:
  assumes "r \<noteq> ANull" "alink0 r \<noteq> ANull" "k + aheight r \<le> Suc AVL_MAX_HEIGHT"
  shows "\<exists>as s. avl_successor k r acc = Ok (as @ acc, s) \<and> s \<noteq> ANull \<and> alink0 s = ANull \<and>
    avl_plug s as = r \<and> abefore as = []"
  using assms
proof (induction k r acc rule: avl_successor.induct)
  case (2 k l x b r acc)
  then obtain sl sx sb sr where l: "l = ANode sl sx sb sr" by (cases l) auto
  have "aheight l < aheight (ANode l x b r)" "0 < aheight l" using l by auto
  then have k: "\<not> AVL_MAX_HEIGHT \<le> k" "Suc k + aheight l \<le> Suc AVL_MAX_HEIGHT" using 2(4) by auto
  show ?case
  proof (cases "sl = ANull")
    case True
    then show ?thesis using l k by (auto intro!: exI [of _ "[AFrame False x b r]"])
  next
    case False
    then have "l \<noteq> ANull" "alink0 l \<noteq> ANull" using l by auto
    then obtain as s where s: "avl_successor (Suc k) l (AFrame False x b r # acc) =
        Ok (as @ AFrame False x b r # acc, s)" "s \<noteq> ANull" "alink0 s = ANull" "avl_plug s as = l" "abefore as = []"
      using 2(1) [OF k(1) l False _ _ k(2)] by blast
    have "avl_successor k (ANode l x b r) acc = Ok ((as @ [AFrame False x b r]) @ acc, s)"
      using s(1) l k(1) False by simp
    then show ?thesis using s(2-) by (intro exI [of _ "as @ [AFrame False x b r]"] exI [of _ s])
        (simp add: abefore_append)
  qed
qed simp

text \<open>Unlinking leaves a hole a level lower than what was there before.\<close>

definition aunlinked :: "'a avl_node \<Rightarrow> 'a avl_frame list \<Rightarrow> 'a avl_node \<Rightarrow> 'a avl_frame list \<Rightarrow> bool" where
  "aunlinked p pa t pb \<longleftrightarrow> abefore pb @ ainorder t @ aafter pb =
       abefore pa @ ainorder (alink0 p) @ ainorder (alink1 p) @ aafter pa \<and>
     (avl_inv (avl_plug p pa) \<longrightarrow> avl_inv t \<and> apath_inv pb (Suc (aheight t)))"

lemma aunlinked_successor:
  assumes p: "p = ANode pl x b (avl_plug s as)" and s: "s = ANode ANull sx sb sr" and "abefore as = []"
  shows "aunlinked p pa sr (as @ AFrame True sx b pl # pa)"
proof -
  have "avl_inv sr \<and> apath_inv (as @ AFrame True sx b pl # pa) (Suc (aheight sr))" if "avl_inv (avl_plug p pa)"
  proof -
    have "avl_plug p pa = avl_plug s (as @ AFrame True x b pl # pa)" by (simp add: p)
    then have "avl_inv s" "apath_inv (as @ AFrame True x b pl # pa) (aheight s)"
      using that by (simp_all only: avl_inv_plug)
    then show ?thesis by (auto simp: s)
  qed
  then show ?thesis using assms by (simp add: aunlinked_def abefore_append aafter_append inorder_aplug)
qed

lemma aunlink_ok:
  assumes "p \<noteq> ANull" "length pa + aheight p < AVL_MAX_HEIGHT"
  shows "\<exists>t pb. avl_unlink p pa = Ok (t, pb) \<and> aunlinked p pa t pb"
proof -
  obtain pl x b pr where p: "p = ANode pl x b pr" using assms(1) by (cases p) auto
  show ?thesis
  proof (cases pr)
    case ANull
    then have "max (aheight pl) 0 = aheight pl" by simp
    then show ?thesis using p ANull by (auto simp: avl_unlink_def aunlinked_def avl_inv_plug)
  next
    case (ANode rl rx rb rr)
    show ?thesis
    proof (cases "rl = ANull")
      case True
      have "aunlinked p pa rr (AFrame True rx b pl # pa)"
        using aunlinked_successor [of p pl x b pr "[]" rx rb rr pa] p ANode True by simp
      then show ?thesis using p ANode True assms(2) by (auto simp: avl_unlink_def)
    next
      case False
      have "pr \<noteq> ANull" "alink0 pr \<noteq> ANull" "Suc (Suc (length pa)) + aheight pr \<le> Suc AVL_MAX_HEIGHT"
        using p ANode False assms(2) by auto
      from asuccessor_ok [OF this, of "[]"] obtain as s where s: "avl_successor (Suc (Suc (length pa))) pr [] = Ok (as @ [], s)"
        "s \<noteq> ANull" "alink0 s = ANull" "avl_plug s as = pr" "abefore as = []" by blast
      obtain sx sb sr where sn: "s = ANode ANull sx sb sr" using s(2,3) by (cases s) auto
      have "aunlinked p pa sr (as @ AFrame True sx b pl # pa)"
        using aunlinked_successor [OF _ sn s(5)] p s(4) by simp
      moreover have "avl_unlink p pa = Ok (sr, as @ AFrame True sx b pl # pa)"
        using s(1) sn p ANode False by (simp add: avl_unlink_def)
      ultimately show ?thesis by blast
    qed
  qed
qed

end
