(* ===== verification/AVL_Table.thy ===== *)
theory AVL_Table
  imports AVL_Shape
begin

text \<open>
  The table operations of \<open>avl.c\<close> as operations on the ordered sequence of items.  The path that
  a search takes is the one it takes in the tree without balance factors, so that what is before
  and after it is known from \<open>BST_Tree\<close>.
\<close>

section \<open>Paths\<close>

text \<open>The path from the root that a stack of frames stands for.\<close>

definition path_of :: "'a avl_frame list \<Rightarrow> bool list" where
  "path_of pa = rev (map adir pa)"

lemma path_of_simps [simp]:
  "path_of [] = []" "path_of (f # pa) = path_of pa @ [adir f]" "path_of (pa @ pb) = path_of pb @ path_of pa"
  by (simp_all add: path_of_def)

lemma plug_path:
  "in_tree (shape (avl_plug t pa)) (path_of pa) \<and> subtree (shape (avl_plug t pa)) (path_of pa) = shape t \<and>
   lefts (shape (avl_plug t pa)) (path_of pa) = abefore pa \<and> rights (shape (avl_plug t pa)) (path_of pa) = aafter pa"
proof (induction t pa rule: avl_plug.induct)
  case (2 t d x b u pa)
  then show ?case
    using lefts_append [of "shape (avl_plug (avl_mk d t x b u) pa)" "path_of pa" "[d]"]
      rights_append [of "shape (avl_plug (avl_mk d t x b u) pa)" "path_of pa" "[d]"]
    by (cases d) auto
qed simp

text \<open>The two searching loops.\<close>

lemma adescend_ok:
  assumes "length ys + aheight t \<le> AVL_MAX_HEIGHT" "even_path ys zs"
  shows "\<exists>ys' zs' n. avl_descend cmp item t ys zs = Ok (if n = ANull then ASlot ys' zs' else AFound (ys' @ zs') n) \<and>
    avl_plug n (ys' @ zs') = avl_plug t (ys @ zs) \<and> even_path ys' zs' \<and>
    path_of (ys' @ zs') = path_of (ys @ zs) @ bst_locate cmp item (shape t)"
  using assms
proof (induction t arbitrary: ys zs)
  case ANull
  then show ?case by (intro exI [of _ ys] exI [of _ zs] exI [of _ ANull]) simp
next
  case (ANode l x b r)
  show ?case
  proof (cases "cmp item x = 0")
    case True
    then show ?thesis using ANode.prems(2)
      by (intro exI [of _ ys] exI [of _ zs] exI [of _ "ANode l x b r"]) simp
  next
    case False
    let ?d = "cmp item x > 0"
    let ?t = "if ?d then r else l" and ?u = "if ?d then l else r"
    let ?f = "AFrame ?d x b ?u"
    let ?ys = "?f # (if b \<noteq> 0 then [] else ys)" and ?zs = "if b \<noteq> 0 then ys @ zs else zs"
    have h: "length ys + Suc (aheight ?t) \<le> AVL_MAX_HEIGHT" using ANode.prems(1) by (cases ?d) auto
    then have len: "length ?ys + aheight ?t \<le> AVL_MAX_HEIGHT" "\<not> AVL_MAX_HEIGHT \<le> length (if b \<noteq> 0 then [] else ys)"
      by (cases "b = 0"; simp)+
    have ev: "even_path ?ys ?zs" using ANode.prems(2) by (cases "b = 0"; cases ys) (auto simp: even_path_def)
    have step: "avl_descend cmp item (ANode l x b r) ys zs = avl_descend cmp item ?t ?ys ?zs"
      using False len(2) by (cases ?d) (simp_all add: Let_def)
    have pl: "avl_plug ?t (?ys @ ?zs) = avl_plug (ANode l x b r) (ys @ zs)" by (cases ?d) simp_all
    have pa: "path_of (?ys @ ?zs) @ bst_locate cmp item (shape ?t) =
        path_of (ys @ zs) @ bst_locate cmp item (shape (ANode l x b r))"
      using False by (cases ?d) (simp_all add: Let_def)
    show ?thesis
    proof (cases ?d)
      case True
      then show ?thesis using ANode.IH(2) [of ?ys ?zs] len(1) ev step pl pa by (simp only: if_True)
    next
      case d: False
      then show ?thesis using ANode.IH(1) [of ?ys ?zs] len(1) ev step pl pa by (simp only: if_False)
    qed
  qed
qed

lemma adelete_search_ok:
  assumes "length pa + aheight t < AVL_MAX_HEIGHT"
  shows "\<exists>pb n. avl_delete_search cmp item t pa = Ok (if n = ANull then None else Some (pb, n)) \<and>
    avl_plug n pb = avl_plug t pa \<and> path_of pb = path_of pa @ bst_locate cmp item (shape t)"
  using assms
proof (induction t arbitrary: pa)
  case ANull
  then show ?case by (intro exI [of _ pa] exI [of _ ANull]) simp
next
  case (ANode l x b r)
  show ?case
  proof (cases "cmp item x = 0")
    case True
    then show ?thesis by (intro exI [of _ pa] exI [of _ "ANode l x b r"]) simp
  next
    case False
    let ?d = "cmp item x > 0"
    let ?t = "if ?d then r else l" and ?u = "if ?d then l else r"
    let ?pa = "AFrame ?d x b ?u # pa"
    have h: "length ?pa + aheight ?t < AVL_MAX_HEIGHT" using ANode.prems by (cases ?d) auto
    have step: "avl_delete_search cmp item (ANode l x b r) pa = avl_delete_search cmp item ?t ?pa"
      using False h by (cases ?d) (simp_all add: Let_def)
    have pl: "avl_plug ?t ?pa = avl_plug (ANode l x b r) pa"
      "path_of ?pa @ bst_locate cmp item (shape ?t) = path_of pa @ bst_locate cmp item (shape (ANode l x b r))"
      using False by (cases ?d; simp add: Let_def)+
    show ?thesis
    proof (cases ?d)
      case True
      then show ?thesis using ANode.IH(2) [of ?pa] h step pl by (simp only: if_True)
    next
      case d: False
      then show ?thesis using ANode.IH(1) [of ?pa] h step pl by (simp only: if_False)
    qed
  qed
qed

section \<open>Valid tables\<close>

definition erase :: "'a avl_table \<Rightarrow> 'a bst_table" where
  "erase tree = \<lparr>bst_root = shape (avl_root tree), bst_compare = avl_compare tree,
     bst_count = avl_count tree, bst_generation = avl_generation tree\<rparr>"

lemma erase_simps [simp]:
  "bst_root (erase tree) = shape (avl_root tree)" "bst_compare (erase tree) = avl_compare tree"
  "bst_count (erase tree) = avl_count tree" "bst_generation (erase tree) = avl_generation tree"
  by (simp_all add: erase_def)

definition avl_items :: "'a avl_table \<Rightarrow> 'a list" where
  "avl_items tree = ainorder (avl_root tree)"

definition avl_for :: "('a \<Rightarrow> 'a \<Rightarrow> int) \<Rightarrow> 'a avl_table \<Rightarrow> bool" where
  "avl_for cmp tree \<longleftrightarrow> avl_compare tree = cmp \<and> avl_inv (avl_root tree) \<and> ordered cmp (avl_items tree) \<and>
     avl_count tree = of_nat (length (avl_items tree))"

text \<open>A valid table with room for \<open>n\<close> more items.\<close>

definition avl_ok :: "('a \<Rightarrow> 'a \<Rightarrow> int) \<Rightarrow> nat \<Rightarrow> 'a avl_table \<Rightarrow> bool" where
  "avl_ok cmp n tree \<longleftrightarrow> avl_for cmp tree \<and> length (avl_items tree) + n < 2 ^ 22"

lemma avl_forD:
  assumes "avl_for cmp t"
  shows "avl_compare t = cmp" "avl_inv (avl_root t)" "ordered cmp (avl_items t)" "bst_for cmp (erase t)"
    "avl_count t = of_nat (length (avl_items t))"
  using assms by (simp_all add: avl_for_def bst_for_def bst_items_def avl_items_def)

lemma erase_items [simp]: "bst_items (erase t) = avl_items t"
  by (simp add: bst_items_def avl_items_def)

lemma avl_find_erase: "avl_find t item = bst_find (erase t) item"
proof -
  have "avl_find_node cmp item n = bst_find_node cmp item (shape n)" for cmp and n :: "'a avl_node"
    by (induction n) (simp_all add: Let_def)
  then show ?thesis by (simp add: avl_find_def bst_find_def)
qed

lemma items_of_plug: "avl_plug n pa = avl_root t \<Longrightarrow> avl_items t = abefore pa @ ainorder n @ aafter pa"
  using inorder_aplug [of n pa] by (simp add: avl_items_def)

context keyed
begin

text \<open>Where the searching loops stop.\<close>

lemma asearch_cases:
  assumes "avl_for cmp t" "length (avl_items t) < 2 ^ 22"
  obtains
    (slot) ys zs where "avl_descend cmp item (avl_root t) [] [] = Ok (ASlot ys zs)"
      "avl_delete_search cmp item (avl_root t) [] = Ok None"
      "avl_plug ANull (ys @ zs) = avl_root t" "even_path ys zs" "list_find cmp item (avl_items t) = None"
      "list_insert cmp item (avl_items t) = abefore (ys @ zs) @ item # aafter (ys @ zs)"
  | (found) pa pb l d b r where "avl_descend cmp item (avl_root t) [] [] = Ok (AFound pa (ANode l d b r))"
      "avl_delete_search cmp item (avl_root t) [] = Ok (Some (pb, ANode l d b r))"
      "avl_plug (ANode l d b r) pa = avl_root t" "avl_plug (ANode l d b r) pb = avl_root t" "cmp item d = 0"
      "list_find cmp item (avl_items t) = Some d" "length pb + aheight (ANode l d b r) \<le> 31"
proof -
  let ?p = "bst_locate cmp item (shape (avl_root t))"
  have h: "aheight (avl_root t) \<le> 31"
    using height_bounds(1) [OF avl_forD(2) [OF assms(1)]] assms(2) by (simp add: avl_items_def)
  have "even_path [] []" by (simp add: even_path_def)
  then obtain ys zs n where a: "avl_descend cmp item (avl_root t) [] [] =
        Ok (if n = ANull then ASlot ys zs else AFound (ys @ zs) n)"
      "avl_plug n (ys @ zs) = avl_root t" "even_path ys zs" "path_of (ys @ zs) = ?p"
    using adescend_ok [of "[]" "avl_root t" "[]" cmp item] h by (fastforce simp: AVL_MAX_HEIGHT_def)
  obtain pb m where b: "avl_delete_search cmp item (avl_root t) [] = Ok (if m = ANull then None else Some (pb, m))"
      "avl_plug m pb = avl_root t" "path_of pb = ?p"
    using adelete_search_ok [of "[]" "avl_root t" cmp item] h by (fastforce simp: AVL_MAX_HEIGHT_def)
  note pa = plug_path [of n "ys @ zs", unfolded a(2,4)] and pb = plug_path [of m pb, unfolded b(2,3)]
  from avl_forD(4) [OF assms(1)] show thesis
  proof (cases rule: locate_cases [where item = item])
    case (slot p)
    then have p: "p = ?p" by simp
    have "shape n = BNull" using slot(2) pa unfolding p by simp
    moreover have "shape m = BNull" using slot(2) pb unfolding p by simp
    ultimately have nm: "n = ANull" "m = ANull" by simp_all
    show thesis
    proof (rule that(1) [of ys zs])
      show "list_insert cmp item (avl_items t) = abefore (ys @ zs) @ item # aafter (ys @ zs)"
        using slot(6) pa unfolding p by simp
    qed (use a b slot(5) nm in simp_all)
  next
    case (found p l d r)
    then have p: "p = ?p" by simp
    have sn: "shape n = BNode l d r" using found(2) pa unfolding p by simp
    have sm: "shape m = BNode l d r" using found(2) pb unfolding p by simp
    obtain nl c nr where n: "n = ANode nl d c nr" using sn by (cases n) auto
    obtain ml e mr where m: "m = ANode ml d e mr" using sm by (cases m) auto
    have mn: "m = n"
    proof -
      have "avl_plug u qa = avl_plug v qb \<Longrightarrow> path_of qa = path_of qb \<Longrightarrow> u = v" for u v qa qb
      proof (induction qa arbitrary: u v qb rule: rev_induct)
        case Nil
        then show ?case by (cases qb) simp_all
      next
        case (snoc f qa)
        then have "qb \<noteq> []" by auto
        then obtain g qb' where qb: "qb = qb' @ [g]" by (cases qb rule: rev_cases) auto
        obtain d1 x1 b1 u1 where f: "f = AFrame d1 x1 b1 u1" by (cases f)
        obtain d2 x2 b2 u2 where g: "g = AFrame d2 x2 b2 u2" by (cases g)
        have "d1 = d2" "path_of qa = path_of qb'" using snoc.prems(2) qb f g by simp_all
        moreover have "avl_mk d1 (avl_plug u qa) x1 b1 u1 = avl_mk d2 (avl_plug v qb') x2 b2 u2"
          using snoc.prems(1) qb f g by simp
        ultimately have "avl_plug u qa = avl_plug v qb'" by (cases d1) simp_all
        then show ?case using snoc.IH \<open>path_of qa = path_of qb'\<close> by blast
      qed
      then show ?thesis using a(2,4) b(2,3) by metis
    qed
    show thesis
      using a b n mn found(4,6) height_aplug [of pb n] h by (intro that(2) [of "ys @ zs" nl d c nr pb]) simp_all
  qed
qed

subsection \<open>Insertion and replacement\<close>

lemma aprobe_new:
  assumes "avl_for cmp t" "length (avl_items t) < 2 ^ 22" "list_find cmp item (avl_items t) = None"
  shows "\<exists>t'. avl_probe True t item = Ok (A_new_slot, t') \<and> avl_for cmp t' \<and>
    avl_items t' = list_insert cmp item (avl_items t)"
  using assms(1,2)
proof (cases rule: asearch_cases [where item = item])
  case (slot ys zs)
  let ?y = "avl_plug (ANode ANull item 0 ANull) (map avl_bump ys)"
  have "avl_inv (avl_plug ANull (ys @ zs))" using slot(3) avl_forD(2) [OF assms(1)] by (simp only:)
  note ins = insert_ok [OF slot(4) this, of item, unfolded Let_def]
  obtain w where w: "avl_insert_fix ?y = Ok w" "avl_inv (avl_plug (case w of None \<Rightarrow> ?y | Some v \<Rightarrow> v) zs)"
    "ainorder (case w of None \<Rightarrow> ?y | Some v \<Rightarrow> v) = abefore ys @ item # aafter ys"
    using ins by (elim conjE disjE exE) auto
  let ?r = "avl_plug (case w of None \<Rightarrow> ?y | Some v \<Rightarrow> v) zs"
  define t' where "t' = (case w of None \<Rightarrow> t\<lparr>avl_root := ?r, avl_count := avl_count t + 1\<rparr>
    | Some _ \<Rightarrow> t\<lparr>avl_root := ?r, avl_count := avl_count t + 1, avl_generation := avl_generation t + 1\<rparr>)"
  have t': "avl_root t' = ?r" "avl_compare t' = avl_compare t" "avl_count t' = avl_count t + 1"
    by (cases w; simp add: t'_def)+
  have it: "avl_items t' = list_insert cmp item (avl_items t)"
    unfolding avl_items_def t'(1) inorder_aplug w(3) using slot(6)
    by (simp add: abefore_append aafter_append avl_items_def)
  have "avl_probe True t item = Ok (A_new_slot, t')"
    using slot(1) w(1) avl_forD(1) [OF assms(1)] by (cases w) (simp_all add: avl_probe_def t'_def Let_def)
  moreover have "avl_for cmp t'"
    using t' it w(2) avl_forD(1,3,5) [OF assms(1)] ordered_list_insert [of "avl_items t" item] length_list_insert [OF assms(3)]
    by (simp add: avl_for_def)
  ultimately show ?thesis using it by blast
next
  case (found pa pb l d b r)
  then show ?thesis using assms(3) by simp
qed

lemma aprobe_old:
  assumes "avl_for cmp t" "length (avl_items t) < 2 ^ 22" "list_find cmp item (avl_items t) = Some d"
  shows "\<exists>pa l b r. avl_probe alloc t item = Ok (A_duplicate pa (ANode l d b r), t) \<and>
    avl_plug (ANode l d b r) pa = avl_root t \<and> cmp item d = 0"
  using assms(1,2)
proof (cases rule: asearch_cases [where item = item])
  case (slot ys zs)
  then show ?thesis using assms(3) by simp
next
  case (found pa pb l e b r)
  then show ?thesis using assms(3) avl_forD(1) [OF assms(1)] by (simp add: avl_probe_def)
qed

lemma avl_insert_new:
  assumes "avl_for cmp t" "length (avl_items t) < 2 ^ 22" "list_find cmp item (avl_items t) = None"
  shows "\<exists>t'. avl_insert True t item = Ok (None, t') \<and> avl_for cmp t' \<and>
    avl_items t' = list_insert cmp item (avl_items t)"
  using aprobe_new [OF assms] by (auto simp: avl_insert_def)

lemma avl_insert_old:
  assumes "avl_for cmp t" "length (avl_items t) < 2 ^ 22" "list_find cmp item (avl_items t) = Some d"
  shows "avl_insert alloc t item = Ok (if d = item then None else Some d, t)"
  using aprobe_old [OF assms, of alloc] by (auto simp: avl_insert_def)

lemma avl_replace_new:
  assumes "avl_for cmp t" "length (avl_items t) < 2 ^ 22" "list_find cmp item (avl_items t) = None"
  shows "\<exists>t'. avl_replace True t item = Ok (None, t') \<and> avl_for cmp t' \<and>
    avl_items t' = list_insert cmp item (avl_items t)"
  using aprobe_new [OF assms] by (auto simp: avl_replace_def)

lemma avl_replace_old:
  assumes t: "avl_for cmp t" "length (avl_items t) < 2 ^ 22" "list_find cmp item (avl_items t) = Some d"
  shows "\<exists>t'. avl_replace alloc t item = Ok (if d = item then None else Some d, t') \<and> avl_for cmp t' \<and>
    avl_items t' = list_store cmp item (\<lambda>_. item) (avl_items t)"
proof -
  obtain pa l b r where p: "avl_probe alloc t item = Ok (A_duplicate pa (ANode l d b r), t)"
    "avl_plug (ANode l d b r) pa = avl_root t" "cmp item d = 0"
    using aprobe_old [OF t, of alloc] by blast
  have it: "avl_items t = (abefore pa @ ainorder l) @ d # (ainorder r @ aafter pa)"
    using items_of_plug [OF p(2)] by simp
  have o: "ordered cmp (avl_items t)" using avl_forD(3) [OF t(1)] .
  have st: "list_store cmp item (\<lambda>_. item) (avl_items t) = (abefore pa @ ainorder l) @ item # (ainorder r @ aafter pa)"
    using o p(3) unfolding it by (rule list_store_mid)
  show ?thesis
  proof (cases "d = item")
    case True
    then show ?thesis using p(1) st it t(1) by (simp add: avl_replace_def)
  next
    case False
    let ?t' = "t\<lparr>avl_root := avl_plug (ANode l item b r) pa\<rparr>"
    have it': "avl_items ?t' = list_store cmp item (\<lambda>_. item) (avl_items t)"
      using st by (simp add: avl_items_def inorder_aplug)
    have "avl_inv (avl_plug (ANode l d b r) pa)" using avl_forD(2) [OF t(1)] p(2) by (simp only:)
    then have "avl_inv (avl_root ?t')" by (auto simp: avl_inv_plug)
    moreover have "ordered cmp (avl_items ?t')" using o unfolding it' by (simp only: ordered_list_replace)
    ultimately have "avl_for cmp ?t'"
      using avl_forD(1,5) [OF t(1)] unfolding avl_for_def it' by (simp add: list_store_def)
    then show ?thesis using False p(1) it' by (simp add: avl_replace_def)
  qed
qed

subsection \<open>Deletion\<close>

lemma asearch_absent:
  assumes "avl_for cmp t" "length (avl_items t) < 2 ^ 22" "list_find cmp item (avl_items t) = None"
  shows "avl_delete t item = Ok (None, t)"
  using assms(1,2)
proof (cases rule: asearch_cases [where item = item])
  case (slot ys zs)
  then show ?thesis using avl_forD(1) [OF assms(1)] by (simp add: avl_delete_def)
qed (use assms(3) in simp)

lemma avl_delete_items:
  assumes t: "avl_for cmp t" "length (avl_items t) < 2 ^ 22"
  shows "\<exists>t'. avl_delete t item = Ok (list_find cmp item (avl_items t), t') \<and> avl_for cmp t' \<and>
    avl_items t' = list_delete cmp item (avl_items t)"
  using t
proof (cases rule: asearch_cases [where item = item])
  case (slot ys zs)
  then have "\<forall>y\<in>set (avl_items t). cmp item y \<noteq> 0" unfolding list_find_def find_None_iff by auto
  then have "list_delete cmp item (avl_items t) = avl_items t"
    by (auto simp: list_delete_def intro!: filter_True)
  then show ?thesis using asearch_absent [OF t slot(5)] slot(5) t(1) by simp
next
  case (found pa pb l d b r)
  let ?n = "ANode l d b r"
  have it: "avl_items t = (abefore pb @ ainorder l) @ d # (ainorder r @ aafter pb)"
    using items_of_plug [OF found(4)] by simp
  have o: "ordered cmp (avl_items t)" using avl_forD(3) [OF t(1)] .
  have del: "list_delete cmp item (avl_items t) = (abefore pb @ ainorder l) @ (ainorder r @ aafter pb)"
    using o found(5) unfolding it by (rule list_delete_mid)
  obtain u pc where u: "avl_unlink ?n pb = Ok (u, pc)" "aunlinked ?n pb u pc"
    using aunlink_ok [of ?n pb] found(7) by (auto simp: AVL_MAX_HEIGHT_def)
  have "avl_inv (avl_plug ?n pb)" using avl_forD(2) [OF t(1)] found(4) by (simp only:)
  then have i: "avl_inv u" "apath_inv pc (Suc (aheight u))"
    "abefore pc @ ainorder u @ aafter pc = abefore pb @ ainorder l @ ainorder r @ aafter pb"
    using u(2) unfolding aunlinked_def by auto
  obtain root where r: "avl_delete_fix u pc = Ok root" "avl_inv root"
    "ainorder root = list_delete cmp item (avl_items t)"
    using adelete_fix_ok [OF i(1,2)] unfolding i(3) del append_assoc by blast
  let ?t' = "t\<lparr>avl_root := root, avl_count := avl_count t - 1, avl_generation := avl_generation t + 1\<rparr>"
  have it': "avl_items ?t' = list_delete cmp item (avl_items t)" using r(3) by (simp add: avl_items_def)
  have "ordered cmp (avl_items ?t')"
    using o unfolding it' by (simp only: list_delete_def ordered_def sorted_wrt_filter)
  moreover have "length (avl_items t) = Suc (length (list_delete cmp item (avl_items t)))"
    unfolding del by (simp add: it)
  then have "(of_nat (length (avl_items t)) :: 64 word) = of_nat (length (list_delete cmp item (avl_items t))) + 1"
    by (simp only: of_nat_Suc add.commute)
  then have "avl_count t - 1 = of_nat (length (list_delete cmp item (avl_items t)))"
    unfolding avl_forD(5) [OF t(1)] by simp
  ultimately have "avl_for cmp ?t'" unfolding avl_for_def it' using r(2) avl_forD(1) [OF t(1)] by simp
  moreover have "avl_delete t item = Ok (Some d, ?t')"
    using found(2) u(1) r(1) avl_forD(1) [OF t(1)] by (simp add: avl_delete_def)
  ultimately show ?thesis using found(6) it' by simp
qed

lemma avl_ordered_table:
  "ordered_table key cmp (avl_ok cmp) avl_items (avl_insert True) (avl_replace True) avl_delete avl_find"
proof
  fix n and t :: "'a avl_table" and x d
  show "avl_ok cmp n t" if "avl_ok cmp (Suc n) t" using that by (simp add: avl_ok_def)
  show "ordered cmp (avl_items t)" if "avl_ok cmp n t" using that avl_forD(3) by (auto simp: avl_ok_def)
  show "avl_find t x = list_find cmp x (avl_items t)" if "avl_ok cmp n t"
  proof -
    have t: "bst_for cmp (erase t)" using that avl_forD(4) by (auto simp: avl_ok_def)
    then have "bst_ok cmp n (erase t)" by (simp add: bst_ok_def)
    from ordered_table.fnd_law [OF bst_ordered_table this] show ?thesis by (simp add: avl_find_erase)
  qed
  assume "avl_ok cmp (Suc n) t"
  then have t: "avl_for cmp t" "length (avl_items t) < 2 ^ 22" "length (avl_items t) + Suc n < 2 ^ 22"
    by (auto simp: avl_ok_def)
  have le: "length (list_delete cmp x (avl_items t)) \<le> length (avl_items t)" by (simp add: list_delete_def)
  show "\<exists>t'. avl_insert True t x = Ok (None, t') \<and> avl_ok cmp n t' \<and> avl_items t' = list_insert cmp x (avl_items t)"
    if "list_find cmp x (avl_items t) = None"
    using avl_insert_new [OF t(1,2) that] length_list_insert [OF that] t(3) by (auto simp: avl_ok_def)
  show "\<exists>t'. avl_insert True t x = Ok (if d = x then None else Some d, t') \<and> avl_ok cmp n t' \<and> avl_items t' = avl_items t"
    if "list_find cmp x (avl_items t) = Some d"
    using avl_insert_old [OF t(1,2) that, of True] t by (simp add: avl_ok_def)
  show "\<exists>t'. avl_replace True t x = Ok (None, t') \<and> avl_ok cmp n t' \<and> avl_items t' = list_insert cmp x (avl_items t)"
    if "list_find cmp x (avl_items t) = None"
    using avl_replace_new [OF t(1,2) that] length_list_insert [OF that] t(3) by (auto simp: avl_ok_def)
  show "\<exists>t'. avl_replace True t x = Ok (if d = x then None else Some d, t') \<and> avl_ok cmp n t' \<and>
      avl_items t' = list_store cmp x (\<lambda>_. x) (avl_items t)"
    if "list_find cmp x (avl_items t) = Some d"
    using avl_replace_old [OF t(1,2) that, of True] t(3) by (auto simp: avl_ok_def list_store_def)
  show "\<exists>t'. avl_delete t x = Ok (list_find cmp x (avl_items t), t') \<and> avl_ok cmp n t' \<and>
      avl_items t' = list_delete cmp x (avl_items t)"
    using avl_delete_items [OF t(1,2), of x] t(3) le by (auto simp: avl_ok_def)
qed

end

end
