(* ===== verification/BST_Traverse.thy ===== *)
theory BST_Traverse
  imports BST_Balance
begin

text \<open>
  The traversers of \<open>bst.c\<close>.

  A traverser holds a node, here by its item, and the stack of the nodes above it, here by
  the directions taken from them, the top first.  The stack has room for \<open>BST_MAX_HEIGHT\<close>
  nodes; when it is full the operation balances the tree and starts again.  That it then
  comes to an end is not clear from the code alone, so these operations are partial
  functions whose value \<open>None\<close> means no return.
\<close>

section \<open>Traversers\<close>

record 'a bst_traverser =
  bt_item :: "'a option"
  bt_stack :: "bool list"
  bt_generation :: "64 word"

definition bst_t_init :: "'a bst_table \<Rightarrow> 'a bst_traverser" where
  "bst_t_init tree = \<lparr>bt_item = None, bt_stack = [], bt_generation = bst_generation tree\<rparr>"

datatype 'a walk = Overflow | At "'a option" "bool list"

text \<open>The loops \<open>while (x->bst_link[d] != NULL)\<close>.\<close>

fun bst_walk :: "bool \<Rightarrow> 'a bst_node \<Rightarrow> bool list \<Rightarrow> 'a walk" where
  "bst_walk d BNull st = At None st"
| "bst_walk d (BNode l x r) st =
     (if (if d then r else l) = BNull then At (Some x) st
      else if BST_MAX_HEIGHT \<le> length st then Overflow
      else bst_walk d (if d then r else l) (d # st))"

text \<open>The searching loops of \<^verbatim>\<open>bst_t_find\<close> and \<^verbatim>\<open>bst_t_insert\<close>.\<close>

fun bst_search :: "('a \<Rightarrow> 'a \<Rightarrow> int) \<Rightarrow> 'a \<Rightarrow> 'a bst_node \<Rightarrow> bool list \<Rightarrow> 'a walk" where
  "bst_search cmp item BNull st = At None st"
| "bst_search cmp item (BNode l x r) st =
     (let k = cmp item x in
      if k = 0 then At (Some x) st
      else if BST_MAX_HEIGHT \<le> length st then Overflow
      else bst_search cmp item (if k > 0 then r else l) ((k > 0) # st))"

type_synonym 'a t_result = "('a option \<times> 'a bst_traverser \<times> 'a bst_table) outcome option"

definition t_done :: "'a option \<Rightarrow> bool list \<Rightarrow> 'a bst_table \<Rightarrow> 'a t_result" where
  "t_done x st tree = Some (Ok (x, \<lparr>bt_item = x, bt_stack = st, bt_generation = bst_generation tree\<rparr>, tree))"

partial_function (option) bst_t_first :: "'a bst_table \<Rightarrow> 'a t_result" where
  "bst_t_first tree =
     (case bst_walk False (bst_root tree) [] of
        At x st \<Rightarrow> t_done x st tree
      | Overflow \<Rightarrow>
          (case bst_balance tree of
             Ok tree \<Rightarrow> bst_t_first tree
           | Blocks \<Rightarrow> Some Blocks
           | Fault f \<Rightarrow> Some (Fault f)))"

partial_function (option) bst_t_last :: "'a bst_table \<Rightarrow> 'a t_result" where
  "bst_t_last tree =
     (case bst_walk True (bst_root tree) [] of
        At x st \<Rightarrow> t_done x st tree
      | Overflow \<Rightarrow>
          (case bst_balance tree of
             Ok tree \<Rightarrow> bst_t_last tree
           | Blocks \<Rightarrow> Some Blocks
           | Fault f \<Rightarrow> Some (Fault f)))"

partial_function (option) bst_t_find :: "'a bst_table \<Rightarrow> 'a \<Rightarrow> 'a t_result" where
  "bst_t_find tree item =
     (case bst_search (bst_compare tree) item (bst_root tree) [] of
        At x st \<Rightarrow> t_done x (if x = None then [] else st) tree
      | Overflow \<Rightarrow>
          (case bst_balance tree of
             Ok tree \<Rightarrow> bst_t_find tree item
           | Blocks \<Rightarrow> Some Blocks
           | Fault f \<Rightarrow> Some (Fault f)))"

partial_function (option) bst_t_insert :: "bool \<Rightarrow> 'a bst_table \<Rightarrow> 'a \<Rightarrow> 'a t_result" where
  "bst_t_insert alloc tree item =
     (case bst_search (bst_compare tree) item (bst_root tree) [] of
        At (Some x) st \<Rightarrow> t_done (Some x) st tree
      | At None st \<Rightarrow>
          (if \<not> alloc then t_done None st tree
           else t_done (Some item) st
             (tree\<lparr>bst_root := put_at (bst_root tree) (rev st) (BNode BNull item BNull),
                   bst_count := bst_count tree + 1\<rparr>))
      | Overflow \<Rightarrow>
          (case bst_balance tree of
             Ok tree \<Rightarrow> bst_t_insert alloc tree item
           | Blocks \<Rightarrow> Some Blocks
           | Fault f \<Rightarrow> Some (Fault f)))"

definition bst_t_copy ::
  "'a bst_table \<Rightarrow> 'a bst_traverser \<Rightarrow> 'a bst_traverser \<Rightarrow> 'a option \<times> 'a bst_traverser" where
  "bst_t_copy tree trav src =
     (let trav = trav\<lparr>bt_item := bt_item src, bt_generation := bt_generation src\<rparr>;
          trav = (if bt_generation trav = bst_generation tree then trav\<lparr>bt_stack := bt_stack src\<rparr> else trav)
      in (bt_item trav, trav))"

text \<open>\<^verbatim>\<open>trav_refresh\<close>: the walk from the root to the node that holds \<open>item\<close>.\<close>

fun bst_refresh_loop :: "('a \<Rightarrow> 'a \<Rightarrow> int) \<Rightarrow> 'a \<Rightarrow> 'a bst_node \<Rightarrow> bool list \<Rightarrow> bool list outcome" where
  "bst_refresh_loop cmp item BNull st = Fault Assertion_failed"
| "bst_refresh_loop cmp item (BNode l x r) st =
     (if x = item then Ok st
      else if BST_MAX_HEIGHT \<le> length st then Fault Assertion_failed
      else bst_refresh_loop cmp item (if cmp item x > 0 then r else l) ((cmp item x > 0) # st))"

definition bst_trav_refresh :: "'a bst_table \<Rightarrow> 'a bst_traverser \<Rightarrow> 'a bst_traverser outcome" where
  "bst_trav_refresh tree trav =
     (let trav = trav\<lparr>bt_generation := bst_generation tree\<rparr> in
      case bt_item trav of
        None \<Rightarrow> Ok trav
      | Some item \<Rightarrow>
          obind (bst_refresh_loop (bst_compare tree) item (bst_root tree) [])
            (\<lambda>st. Ok (trav\<lparr>bt_stack := st\<rparr>)))"

text \<open>The loop \<open>do \<dots> while (y == x->bst_link[d])\<close>; \<open>None\<close> when the stack runs empty.\<close>

fun bst_climb :: "bool \<Rightarrow> bool list \<Rightarrow> bool list option" where
  "bst_climb d [] = None"
| "bst_climb d (e # st) = (if e = d then bst_climb d st else Some st)"

text \<open>
  The step of \<^verbatim>\<open>bst_t_next\<close> (\<open>d = True\<close>) and \<^verbatim>\<open>bst_t_prev\<close> (\<open>d = False\<close>) from a node on the
  stack \<open>st\<close>.
\<close>

definition bst_step :: "bool \<Rightarrow> 'a bst_table \<Rightarrow> bool list \<Rightarrow> 'a walk outcome" where
  "bst_step d tree st =
     (case subtree (bst_root tree) (rev st) of
        BNull \<Rightarrow> Fault Dangling_pointer
      | BNode l x r \<Rightarrow>
          if (if d then r else l) \<noteq> BNull then
            (if BST_MAX_HEIGHT \<le> length st then Ok Overflow
             else Ok (bst_walk (\<not> d) (if d then r else l) (d # st)))
          else
            (case bst_climb d st of
               None \<Rightarrow> Ok (At None [])
             | Some st' \<Rightarrow> Ok (At (node_data (subtree (bst_root tree) (rev st'))) st')))"

partial_function (option) bst_t_next :: "'a bst_table \<Rightarrow> 'a bst_traverser \<Rightarrow> 'a t_result" where
  "bst_t_next tree trav =
     (case (if bt_generation trav \<noteq> bst_generation tree then bst_trav_refresh tree trav else Ok trav) of
        Ok trav \<Rightarrow>
          (if bt_item trav = None then bst_t_first tree
           else
             (case bst_step True tree (bt_stack trav) of
                Ok (At y st) \<Rightarrow> t_done y st tree
              | Ok Overflow \<Rightarrow>
                  (case bst_balance tree of
                     Ok tree \<Rightarrow> bst_t_next tree trav
                   | Blocks \<Rightarrow> Some Blocks
                   | Fault f \<Rightarrow> Some (Fault f))
              | Blocks \<Rightarrow> Some Blocks
              | Fault f \<Rightarrow> Some (Fault f)))
      | Blocks \<Rightarrow> Some Blocks
      | Fault f \<Rightarrow> Some (Fault f))"

partial_function (option) bst_t_prev :: "'a bst_table \<Rightarrow> 'a bst_traverser \<Rightarrow> 'a t_result" where
  "bst_t_prev tree trav =
     (case (if bt_generation trav \<noteq> bst_generation tree then bst_trav_refresh tree trav else Ok trav) of
        Ok trav \<Rightarrow>
          (if bt_item trav = None then bst_t_last tree
           else
             (case bst_step False tree (bt_stack trav) of
                Ok (At y st) \<Rightarrow> t_done y st tree
              | Ok Overflow \<Rightarrow>
                  (case bst_balance tree of
                     Ok tree \<Rightarrow> bst_t_prev tree trav
                   | Blocks \<Rightarrow> Some Blocks
                   | Fault f \<Rightarrow> Some (Fault f))
              | Blocks \<Rightarrow> Some Blocks
              | Fault f \<Rightarrow> Some (Fault f)))
      | Blocks \<Rightarrow> Some Blocks
      | Fault f \<Rightarrow> Some (Fault f))"

definition bst_t_cur :: "'a bst_traverser \<Rightarrow> 'a option" where
  "bst_t_cur trav = bt_item trav"

definition bst_t_replace ::
  "'a bst_table \<Rightarrow> 'a bst_traverser \<Rightarrow> 'a \<Rightarrow> ('a \<times> 'a bst_table \<times> 'a bst_traverser) outcome" where
  "bst_t_replace tree trav new =
     (case bt_item trav of
        None \<Rightarrow> Fault Assertion_failed
      | Some old \<Rightarrow>
          (case (if bt_generation trav \<noteq> bst_generation tree
                 then bst_refresh_loop (bst_compare tree) old (bst_root tree) []
                 else Ok (bt_stack trav)) of
             Ok st \<Rightarrow>
               Ok (old, tree\<lparr>bst_root := put_at (bst_root tree) (rev st)
                     (set_item new (subtree (bst_root tree) (rev st)))\<rparr>,
                   trav\<lparr>bt_item := Some new\<rparr>)
           | _ \<Rightarrow> Fault Dangling_pointer))"

text \<open>A client loop over a whole table.\<close>

fun bst_collect :: "nat \<Rightarrow> 'a bst_table \<Rightarrow> 'a bst_traverser \<Rightarrow> ('a list \<times> 'a bst_table) outcome option" where
  "bst_collect 0 tree trav = Some (Ok ([], tree))"
| "bst_collect (Suc n) tree trav =
     (case bst_t_next tree trav of
        Some (Ok (None, _, tree)) \<Rightarrow> Some (Ok ([], tree))
      | Some (Ok (Some y, trav, tree)) \<Rightarrow>
          map_option (\<lambda>r. obind r (\<lambda>(ys, tree). Ok (y # ys, tree))) (bst_collect n tree trav)
      | Some Blocks \<Rightarrow> Some Blocks
      | Some (Fault f) \<Rightarrow> Some (Fault f)
      | None \<Rightarrow> None)"

section \<open>Walking and climbing\<close>

text \<open>\<open>stands root st xs d ys\<close>: the node below the stack \<open>st\<close> holds \<open>d\<close>, between \<open>xs\<close> and \<open>ys\<close>.\<close>

definition stands :: "'a bst_node \<Rightarrow> bool list \<Rightarrow> 'a list \<Rightarrow> 'a \<Rightarrow> 'a list \<Rightarrow> bool" where
  "stands root st xs d ys \<longleftrightarrow> in_tree root (rev st) \<and> (\<exists>l r. subtree root (rev st) = BNode l d r \<and>
     xs = lefts root (rev st) @ bst_inorder l \<and> ys = bst_inorder r @ rights root (rev st))"

lemma stands_inorder: "stands root st xs d ys \<Longrightarrow> bst_inorder root = xs @ d # ys"
  using inorder_split [of root "rev st"] by (auto simp: stands_def)

lemma stands_root: "stands (BNode l d r) [] (bst_inorder l) d (bst_inorder r)"
  by (simp add: stands_def)

lemma push_below:
  assumes "in_tree root (rev st)" "subtree root (rev st) = BNode l x r"
  shows "in_tree root (rev (d # st))" "subtree root (rev (d # st)) = (if d then r else l)"
    "lefts root (rev (d # st)) = lefts root (rev st) @ (if d then bst_inorder l @ [x] else [])"
    "rights root (rev (d # st)) = (if d then [] else x # bst_inorder r) @ rights root (rev st)"
  using assms lefts_append [OF assms(1), of "[d]"] rights_append [OF assms(1), of "[d]"] by auto

text \<open>Where a walk ends, when it does not overflow, as it never does in a low tree.\<close>

lemma walk_at:
  assumes "in_tree root (rev st)" "subtree root (rev st) = t" "t \<noteq> BNull" "length st \<le> BST_MAX_HEIGHT"
    and "bst_walk d t st = At y st'"
  shows "length st' \<le> BST_MAX_HEIGHT \<and> (\<exists>x. y = Some x \<and>
    (if d then \<exists>xs. stands root st' xs x (rights root (rev st)) \<and> xs @ [x] = lefts root (rev st) @ bst_inorder t
     else \<exists>ys. stands root st' (lefts root (rev st)) x ys \<and> x # ys = bst_inorder t @ rights root (rev st)))"
  using assms
proof (induction d t st rule: bst_walk.induct)
  case (2 d l x r st)
  let ?c = "if d then r else l"
  show ?case
  proof (cases "?c = BNull")
    case True
    then show ?thesis using 2(2,3,5,6) by (cases d) (auto simp: stands_def)
  next
    case False
    have h: "\<not> BST_MAX_HEIGHT \<le> length st" using 2(6) False by auto
    then have "length (d # st) \<le> BST_MAX_HEIGHT" "bst_walk d ?c (d # st) = At y st'"
      using 2(6) False by auto
    note p = push_below [OF 2(2,3), of d] and ih = 2(1) [OF False h _ _ False this]
    show ?thesis using ih [OF p(1,2)] p by (cases d) auto
  qed
qed simp

lemma walk_low: "length st + bst_height t \<le> Suc BST_MAX_HEIGHT \<Longrightarrow> bst_walk d t st \<noteq> Overflow"
proof (induction d t st rule: bst_walk.induct)
  case (2 d l x r st)
  let ?c = "if d then r else l"
  show ?case
  proof (cases "?c = BNull")
    case False
    then have "0 < bst_height ?c" by (cases ?c) auto
    moreover have "bst_height ?c < bst_height (BNode l x r)" by (cases d) auto
    ultimately show ?thesis using 2 False by auto
  qed simp
qed simp

lemma height_path: "in_tree t p \<Longrightarrow> length p + bst_height (subtree t p) \<le> bst_height t"
  by (induction t p rule: in_tree.induct) (auto split: if_splits)

lemma position_exists:
  "bst_inorder t = xs @ d # ys \<Longrightarrow> \<exists>st. stands t st xs d ys \<and> length st < bst_height t"
proof (induction t arbitrary: xs ys)
  case (BNode l x r)
  then consider (left) zs where "bst_inorder l = xs @ d # zs" "ys = zs @ x # bst_inorder r"
    | (here) "xs = bst_inorder l" "d = x" "ys = bst_inorder r"
    | (right) zs where "xs = bst_inorder l @ x # zs" "bst_inorder r = zs @ d # ys"
    by (auto simp: append_eq_append_conv2 Cons_eq_append_conv append_eq_Cons_conv)
  then show ?case
  proof cases
    case left
    then obtain st where "stands l st xs d zs" "length st < bst_height l" using BNode.IH(1) by blast
    then show ?thesis using left by (intro exI [of _ "st @ [False]"]) (auto simp: stands_def)
  next
    case here
    then show ?thesis using stands_root by (intro exI [of _ "[]"]) auto
  next
    case right
    then obtain st where "stands r st zs d ys" "length st < bst_height r" using BNode.IH(2) by blast
    then show ?thesis using right by (intro exI [of _ "st @ [True]"]) (auto simp: stands_def)
  qed
qed simp

text \<open>Climbing out of a subtree that was the last in its direction.\<close>

lemma climb_next:
  assumes "in_tree root (rev st)"
  shows "(case rights root (rev st) of
      [] \<Rightarrow> bst_climb True st = None
    | y # ys \<Rightarrow> \<exists>st'. bst_climb True st = Some st' \<and> length st' < length st \<and>
        stands root st' (lefts root (rev st) @ bst_inorder (subtree root (rev st))) y ys)"
  using assms
proof (induction st)
  case (Cons e st)
  then have i: "in_tree root (rev st)" by simp
  obtain l x r where n: "subtree root (rev st) = BNode l x r"
    using Cons.prems by (cases "subtree root (rev st)") auto
  note p = push_below [OF i n, of e]
  show ?case
  proof (cases e)
    case True
    then have "lefts root (rev (e # st)) @ bst_inorder (subtree root (rev (e # st))) =
        lefts root (rev st) @ bst_inorder (subtree root (rev st))" and "rights root (rev (e # st)) = rights root (rev st)"
      using p n by auto
    then show ?thesis using Cons.IH [OF i] True by (auto split: list.splits)
  next
    case False
    then show ?thesis using p n i by (auto simp: stands_def)
  qed
qed simp

lemma climb_prev:
  assumes "in_tree root (rev st)"
  shows "lefts root (rev st) = [] \<Longrightarrow> bst_climb False st = None"
    "lefts root (rev st) = xs @ [x] \<Longrightarrow> \<exists>st'. bst_climb False st = Some st' \<and> length st' < length st \<and>
        stands root st' xs x (bst_inorder (subtree root (rev st)) @ rights root (rev st))"
  using assms
proof (induction st)
  case (Cons e st)
  {
    case 1
    then have i: "in_tree root (rev st)" by simp
    obtain l y r where n: "subtree root (rev st) = BNode l y r"
      using 1 by (cases "subtree root (rev st)") auto
    note p = push_below [OF i n, of e]
    show ?case using 1 Cons.IH(1) i p by (cases e) auto
  next
    case 2
    then have i: "in_tree root (rev st)" by simp
    obtain l y r where n: "subtree root (rev st) = BNode l y r"
      using 2 by (cases "subtree root (rev st)") auto
    note p = push_below [OF i n, of e]
    show ?case
    proof (cases e)
      case True
      then show ?thesis using 2 p n i by (auto simp: stands_def)
    next
      case False
      have "bst_inorder (subtree root (rev (e # st))) @ rights root (rev (e # st)) =
          bst_inorder (subtree root (rev st)) @ rights root (rev st)" and "lefts root (rev (e # st)) = lefts root (rev st)"
        using p n False by auto
      then show ?thesis using Cons.IH(2) [OF _ i] 2 False by auto
    qed
  }
qed simp_all

section \<open>Steps of a traverser\<close>

text \<open>The neighbour of an item between \<open>xs\<close> and \<open>ys\<close>, and the parts around it.\<close>

fun neighbour :: "bool \<Rightarrow> 'a list \<Rightarrow> 'a \<Rightarrow> 'a list \<Rightarrow> ('a list \<times> 'a \<times> 'a list) option" where
  "neighbour True xs d [] = None"
| "neighbour True xs d (y # ys) = Some (xs @ [d], y, ys)"
| "neighbour False xs d ys = (if xs = [] then None else Some (butlast xs, last xs, d # ys))"

definition reached :: "'a bst_node \<Rightarrow> 'a option \<Rightarrow> bool list \<Rightarrow> ('a list \<times> 'a \<times> 'a list) option \<Rightarrow> bool" where
  "reached root y st pos \<longleftrightarrow>
     (case pos of
        None \<Rightarrow> y = None
      | Some (xs, d, ys) \<Rightarrow> y = Some d \<and> stands root st xs d ys \<and> length st \<le> BST_MAX_HEIGHT)"

lemma step_at:
  assumes "stands root st xs x ys" "length st \<le> BST_MAX_HEIGHT" "bst_root t = root"
    and "bst_step d t st = Ok (At y st')"
  shows "reached root y st' (neighbour d xs x ys)"
proof -
  obtain l r where n: "in_tree root (rev st)" "subtree root (rev st) = BNode l x r"
    "xs = lefts root (rev st) @ bst_inorder l" "ys = bst_inorder r @ rights root (rev st)"
    using assms(1) by (auto simp: stands_def)
  let ?c = "if d then r else l"
  show ?thesis
  proof (cases "?c = BNull")
    case False
    have h: "\<not> BST_MAX_HEIGHT \<le> length st" "bst_walk (\<not> d) ?c (d # st) = At y st'"
      using assms(3,4) n(2) False by (auto simp: bst_step_def split: if_splits)
    note p = push_below [OF n(1,2), of d]
    have "length (d # st) \<le> BST_MAX_HEIGHT" using h(1) by simp
    from walk_at [OF p(1) p(2) False this h(2)]
    show ?thesis
    proof (cases d)
      case True
      from walk_at [OF p(1) p(2) False \<open>length (d # st) \<le> BST_MAX_HEIGHT\<close> h(2)] True
      obtain z zs where w: "y = Some z" "stands root st' (lefts root (rev (d # st))) z zs"
        "z # zs = bst_inorder r @ rights root (rev (d # st))" "length st' \<le> BST_MAX_HEIGHT"
        by auto
      have "ys = z # zs" using w(3) n(4) p(4) True by simp
      moreover have "stands root st' (xs @ [x]) z zs" using w(2) n(3) p(3) True by simp
      ultimately show ?thesis using w(1,4) True by (simp add: reached_def)
    next
      case d: False
      from walk_at [OF p(1) p(2) False \<open>length (d # st) \<le> BST_MAX_HEIGHT\<close> h(2)] d
      obtain z zs where w: "y = Some z" "stands root st' zs z (rights root (rev (d # st)))"
        "zs @ [z] = lefts root (rev (d # st)) @ bst_inorder l" "length st' \<le> BST_MAX_HEIGHT"
        by auto
      have "xs = zs @ [z]" using w(3) n(3) p(3) d by simp
      moreover have "stands root st' zs z (x # ys)" using w(2) n(4) p(4) d by simp
      ultimately show ?thesis using w(1,4) d by (simp add: reached_def)
    qed
  next
    case True
    have y: "(case bst_climb d st of None \<Rightarrow> y = None \<and> st' = []
        | Some s \<Rightarrow> y = node_data (subtree root (rev s)) \<and> st' = s)"
      using assms(3,4) n(2) True by (auto simp: bst_step_def split: option.splits)
    show ?thesis
    proof (cases d)
      case d: True
      then have ys: "rights root (rev st) = ys" "lefts root (rev st) @ bst_inorder (subtree root (rev st)) = xs @ [x]"
        using n True by auto
      note c = climb_next [OF n(1), unfolded ys]
      show ?thesis using c y d assms(2) by (cases ys) (auto simp: reached_def stands_def)
    next
      case d: False
      then have xs: "xs = lefts root (rev st)" "x # ys = bst_inorder (subtree root (rev st)) @ rights root (rev st)"
        using n True by auto
      show ?thesis
      proof (cases xs rule: rev_cases)
        case Nil
        then show ?thesis using climb_prev(1) [OF n(1)] y d xs by (simp add: reached_def)
      next
        case (snoc zs z)
        then show ?thesis using climb_prev(2) [OF n(1), of zs z] y d xs assms(2)
          by (auto simp: reached_def stands_def)
      qed
    qed
  qed
qed

lemma step_low:
  assumes "stands (bst_root t) st xs x ys" "bst_height (bst_root t) \<le> BST_MAX_HEIGHT"
  shows "\<exists>y st'. bst_step d t st = Ok (At y st')"
proof -
  obtain l r where n: "in_tree (bst_root t) (rev st)" "subtree (bst_root t) (rev st) = BNode l x r"
    using assms(1) by (auto simp: stands_def)
  let ?c = "if d then r else l"
  have h: "length st + Suc (bst_height ?c) \<le> BST_MAX_HEIGHT"
    using height_path [OF n(1)] n(2) assms(2) by (cases d) auto
  then have "bst_walk (\<not> d) ?c (d # st) \<noteq> Overflow" by (intro walk_low) simp
  then show ?thesis using n(2) h
    by (cases "bst_walk (\<not> d) ?c (d # st)") (auto simp: bst_step_def split: option.splits)
qed

lemma step_defined: "stands (bst_root t) st xs x ys \<Longrightarrow> \<exists>w. bst_step d t st = Ok w"
  by (auto simp: bst_step_def stands_def split: option.splits)


section \<open>Traversers that rebalance\<close>

text \<open>
  A traverser is good for a table when it stands on an item of it and, unless it is older
  than the last balancing of the tree, its stack leads there.
\<close>

definition bt_good :: "'a bst_table \<Rightarrow> 'a list \<Rightarrow> 'a \<Rightarrow> 'a list \<Rightarrow> 'a bst_traverser \<Rightarrow> bool" where
  "bt_good tree xs d ys trav \<longleftrightarrow> bt_item trav = Some d \<and> bst_items tree = xs @ d # ys \<and>
     (\<exists>st. stands (bst_root tree) st xs d ys \<and> length st \<le> BST_MAX_HEIGHT \<and>
       (bt_generation trav = bst_generation tree \<longrightarrow> bt_stack trav = st))"

context keyed
begin

lemma refresh_finds:
  assumes "stands root (rev p @ st) xs d ys" "subtree root (rev st) = t" "in_tree root (rev st)"
    and "ordered cmp (bst_inorder root)" "length p + length st \<le> BST_MAX_HEIGHT"
  shows "bst_refresh_loop cmp d t st = Ok (rev p @ st)"
  using assms
proof (induction p arbitrary: st t)
  case Nil
  then obtain l r where "t = BNode l d r" by (auto simp: stands_def)
  then show ?case by simp
next
  case (Cons e p)
  have s: "in_tree t (e # p)" "subtree t (e # p) \<noteq> BNull"
    using Cons.prems(1,2) by (auto simp: stands_def)
  then obtain l x r where t: "t = BNode l x r" by (cases t) auto
  have d: "d \<in> set (bst_inorder (if e then r else l))"
  proof -
    have "in_tree (if e then r else l) p" "subtree (if e then r else l) p = subtree root (rev (rev (e # p) @ st))"
      using s t Cons.prems(2) by (auto split: if_splits)
    moreover obtain l' r' where "subtree root (rev (rev (e # p) @ st)) = BNode l' d r'"
      using Cons.prems(1) by (auto simp: stands_def)
    ultimately show ?thesis using inorder_split [of "if e then r else l" p] by simp
  qed
  have "ordered cmp (bst_inorder l @ x # bst_inorder r)"
    using Cons.prems(4) inorder_split [OF Cons.prems(3)] Cons.prems(2) t
    by (simp add: ordered_append ordered_Cons)
  then have k: "(cmp d x > 0) = e" "x \<noteq> d"
    using d by (auto simp: ordered_split cmp_greater split: if_splits)
  note pb = push_below [OF Cons.prems(3), of l x r e]
  have "bst_refresh_loop cmp d (if e then r else l) (e # st) = Ok (rev p @ e # st)"
    by (rule Cons.IH) (use Cons.prems t pb in auto)
  then show ?case using Cons.prems(5) k t by (cases e) auto
qed

lemma refresh_good:
  assumes "bst_for cmp tree" "bt_good tree xs d ys trav"
  shows "\<exists>trav'. (if bt_generation trav \<noteq> bst_generation tree then bst_trav_refresh tree trav else Ok trav) = Ok trav' \<and>
    bt_item trav' = Some d \<and> bt_generation trav' = bst_generation tree \<and>
    stands (bst_root tree) (bt_stack trav') xs d ys \<and> length (bt_stack trav') \<le> BST_MAX_HEIGHT"
proof -
  obtain st where st: "stands (bst_root tree) st xs d ys" "length st \<le> BST_MAX_HEIGHT"
    "bt_generation trav = bst_generation tree \<longrightarrow> bt_stack trav = st" "bt_item trav = Some d"
    using assms(2) by (auto simp: bt_good_def)
  have "bst_refresh_loop cmp d (bst_root tree) [] = Ok st"
    using refresh_finds [of "bst_root tree" "rev st" "[]" xs d ys] st assms(1)
    by (simp add: bst_for_def bst_items_def)
  then show ?thesis using st assms(1) by (simp add: bst_trav_refresh_def bst_for_def)
qed

text \<open>Balancing, as it appears to a traverser.\<close>

lemma balance_for:
  assumes "bst_for cmp tree" "length (bst_items tree) < 2 ^ 32"
  obtains tree' where "bst_balance tree = Ok tree'" "bst_for cmp tree'" "bst_items tree' = bst_items tree"
    "bst_height (bst_root tree') \<le> BST_MAX_HEIGHT" "bst_generation tree' = bst_generation tree + 1"
proof -
  have "bst_count tree = of_nat (length (bst_items tree))" using assms(1) by (simp add: bst_for_def)
  from bst_balance_ok [OF this assms(2)] that assms(1) show ?thesis
    by (auto simp: bst_for_def dest: le_trans)
qed

lemma low_good:
  assumes "bst_items tree = xs @ d # ys" "bst_height (bst_root tree) \<le> BST_MAX_HEIGHT"
    "bt_item trav = Some d" "bt_generation trav \<noteq> bst_generation tree"
  shows "bt_good tree xs d ys trav"
  using position_exists [of "bst_root tree" xs d ys] assms
  by (force simp: bt_good_def bst_items_def)

text \<open>One step of a traverser: it arrives, or it overflows and balancing makes room.\<close>

lemma step_good:
  assumes "bst_for cmp tree" "length (bst_items tree) < 2 ^ 32" "bt_good tree xs x ys trav"
  obtains trav' where
    "(if bt_generation trav \<noteq> bst_generation tree then bst_trav_refresh tree trav else Ok trav) = Ok trav'"
    "bt_item trav' = Some x"
    "(\<exists>y st. bst_step d tree (bt_stack trav') = Ok (At y st) \<and> reached (bst_root tree) y st (neighbour d xs x ys)) \<or>
     (bst_step d tree (bt_stack trav') = Ok Overflow \<and> \<not> bst_height (bst_root tree) \<le> BST_MAX_HEIGHT \<and>
      (\<exists>tree'. bst_balance tree = Ok tree' \<and> bst_for cmp tree' \<and> bst_items tree' = bst_items tree \<and>
        bst_height (bst_root tree') \<le> BST_MAX_HEIGHT \<and> bt_good tree' xs x ys trav'))"
proof -
  obtain trav' where r:
    "(if bt_generation trav \<noteq> bst_generation tree then bst_trav_refresh tree trav else Ok trav) = Ok trav'"
    "bt_item trav' = Some x" "bt_generation trav' = bst_generation tree"
    "stands (bst_root tree) (bt_stack trav') xs x ys" "length (bt_stack trav') \<le> BST_MAX_HEIGHT"
    using refresh_good [OF assms(1,3)] by blast
  obtain w where w: "bst_step d tree (bt_stack trav') = Ok w" using step_defined [OF r(4)] by blast
  show ?thesis
  proof (cases w)
    case (At y st)
    then show ?thesis using w that [OF r(1,2)] step_at [OF r(4,5) refl, of d y st] by simp
  next
    case Overflow
    have "\<not> bst_height (bst_root tree) \<le> BST_MAX_HEIGHT"
      using step_low [OF r(4), of d] w Overflow by auto
    moreover obtain tree' where t: "bst_balance tree = Ok tree'" "bst_for cmp tree'"
      "bst_items tree' = bst_items tree" "bst_height (bst_root tree') \<le> BST_MAX_HEIGHT"
      "bst_generation tree' = bst_generation tree + 1"
      using balance_for [OF assms(1,2)] by blast
    moreover have "bt_good tree' xs x ys trav'"
      using assms(3) t r(2,3) by (intro low_good) (auto simp: bt_good_def)
    ultimately show ?thesis using w Overflow that [OF r(1,2)] by simp
  qed
qed

text \<open>Where an operation leaves a traverser.\<close>

definition bt_left :: "'a bst_table \<Rightarrow> ('a list \<times> 'a \<times> 'a list) option \<Rightarrow> 'a t_result \<Rightarrow> bool" where
  "bt_left tree pos res \<longleftrightarrow>
     (\<exists>y trav tree'. res = Some (Ok (y, trav, tree')) \<and> bst_for cmp tree' \<and> bst_items tree' = bst_items tree \<and>
       (case pos of
          None \<Rightarrow> y = None \<and> bt_item trav = None
        | Some (xs, d, ys) \<Rightarrow> y = Some d \<and> bt_good tree' xs d ys trav))"

lemma left_done:
  "bst_for cmp tree \<Longrightarrow> reached (bst_root tree) y st pos \<Longrightarrow> bt_left tree pos (t_done y st tree)"
  using stands_inorder
  by (fastforce simp: bt_left_def t_done_def reached_def bt_good_def bst_items_def split: option.splits)

lemma left_same: "bst_items tree' = bst_items tree \<Longrightarrow> bt_left tree' pos res \<Longrightarrow> bt_left tree pos res"
  by (simp add: bt_left_def)

text \<open>\<^verbatim>\<open>bst_t_next\<close> and \<^verbatim>\<open>bst_t_prev\<close> differ in the direction of the step only.\<close>

lemma moving_left:
  assumes arrive: "\<And>tree trav trav' y st.
      (if bt_generation trav \<noteq> bst_generation tree then bst_trav_refresh tree trav else Ok trav) = Ok trav' \<Longrightarrow>
      bt_item trav' \<noteq> None \<Longrightarrow> bst_step d tree (bt_stack trav') = Ok (At y st) \<Longrightarrow>
      move tree trav = t_done y st tree"
    and again: "\<And>tree trav trav' tree'.
      (if bt_generation trav \<noteq> bst_generation tree then bst_trav_refresh tree trav else Ok trav) = Ok trav' \<Longrightarrow>
      bt_item trav' \<noteq> None \<Longrightarrow> bst_step d tree (bt_stack trav') = Ok Overflow \<Longrightarrow>
      bst_balance tree = Ok tree' \<Longrightarrow> move tree trav = move tree' trav'"
    and good: "bst_for cmp tree" "length (bst_items tree) < 2 ^ 32" "bt_good tree xs x ys trav"
  shows "bt_left tree (neighbour d xs x ys) (move tree trav)"
proof -
  have low: "bt_left tree (neighbour d xs x ys) (move tree trav)"
    if g: "bst_for cmp tree" "length (bst_items tree) < 2 ^ 32" "bt_good tree xs x ys trav"
      and h: "bst_height (bst_root tree) \<le> BST_MAX_HEIGHT" for tree trav
  proof -
    from step_good [OF g, of d] h obtain trav' y st where r:
      "(if bt_generation trav \<noteq> bst_generation tree then bst_trav_refresh tree trav else Ok trav) = Ok trav'"
      "bt_item trav' = Some x" "bst_step d tree (bt_stack trav') = Ok (At y st)"
      "reached (bst_root tree) y st (neighbour d xs x ys)" by metis
    have "move tree trav = t_done y st tree" using r(2) by (intro arrive [OF r(1) _ r(3)]) simp
    then show ?thesis using left_done [OF g(1) r(4)] by simp
  qed
  obtain trav' where r:
    "(if bt_generation trav \<noteq> bst_generation tree then bst_trav_refresh tree trav else Ok trav) = Ok trav'"
    "bt_item trav' = Some x"
    and c: "(\<exists>y st. bst_step d tree (bt_stack trav') = Ok (At y st) \<and> reached (bst_root tree) y st (neighbour d xs x ys)) \<or>
     (bst_step d tree (bt_stack trav') = Ok Overflow \<and> \<not> bst_height (bst_root tree) \<le> BST_MAX_HEIGHT \<and>
      (\<exists>tree'. bst_balance tree = Ok tree' \<and> bst_for cmp tree' \<and> bst_items tree' = bst_items tree \<and>
        bst_height (bst_root tree') \<le> BST_MAX_HEIGHT \<and> bt_good tree' xs x ys trav'))"
    by (rule step_good [OF good, of d])
  have some: "bt_item trav' \<noteq> None" using r(2) by simp
  from c show ?thesis
  proof (elim disjE exE conjE)
    fix y st assume "bst_step d tree (bt_stack trav') = Ok (At y st)"
      "reached (bst_root tree) y st (neighbour d xs x ys)"
    then show ?thesis using arrive [OF r(1) some] left_done [OF good(1)] by simp
  next
    fix tree' assume t: "bst_step d tree (bt_stack trav') = Ok Overflow" "bst_balance tree = Ok tree'"
      "bst_for cmp tree'" "bst_items tree' = bst_items tree" "bst_height (bst_root tree') \<le> BST_MAX_HEIGHT"
      "bt_good tree' xs x ys trav'"
    show ?thesis
      using again [OF r(1) some t(1,2)] low [OF t(3) _ t(6,5)] t(4) good(2) left_same [OF t(4)] by simp
  qed
qed

lemma t_next_left:
  assumes "bst_for cmp tree" "length (bst_items tree) < 2 ^ 32" "bt_good tree xs x ys trav"
  shows "bt_left tree (neighbour True xs x ys) (bst_t_next tree trav)"
  by (rule moving_left [OF _ _ assms]) (subst bst_t_next.simps, simp del: not_None_eq)+

lemma t_prev_left:
  assumes "bst_for cmp tree" "length (bst_items tree) < 2 ^ 32" "bt_good tree xs x ys trav"
  shows "bt_left tree (neighbour False xs x ys) (bst_t_prev tree trav)"
  by (rule moving_left [OF _ _ assms]) (subst bst_t_prev.simps, simp del: not_None_eq)+

text \<open>The ends of a table.\<close>

fun end_of :: "bool \<Rightarrow> 'b list \<Rightarrow> ('b list \<times> 'b \<times> 'b list) option" where
  "end_of False xs = (case xs of [] \<Rightarrow> None | x # xs \<Rightarrow> Some ([], x, xs))"
| "end_of True xs = (if xs = [] then None else Some (butlast xs, last xs, []))"

lemma walk_reached:
  assumes "bst_walk d root [] = At y st"
  shows "reached root y st (end_of d (bst_inorder root))"
proof (cases "root = BNull")
  case False
  have "in_tree root (rev [])" "subtree root (rev []) = root" "length ([] :: bool list) \<le> BST_MAX_HEIGHT"
    by simp_all
  from walk_at [OF this(1,2) False this(3) assms] obtain x where x: "length st \<le> BST_MAX_HEIGHT" "y = Some x"
    "if d then \<exists>xs. stands root st xs x [] \<and> xs @ [x] = bst_inorder root
     else \<exists>ys. stands root st [] x ys \<and> x # ys = bst_inorder root"
    by (cases d) auto
  show ?thesis
  proof (cases d)
    case True
    then obtain xs where "stands root st xs x []" "bst_inorder root = xs @ [x]" using x(3) by auto
    then show ?thesis using x True by (simp add: reached_def)
  next
    case d: False
    then obtain ys where "stands root st [] x ys" "bst_inorder root = x # ys" using x(3) by auto
    then show ?thesis using x d by (simp add: reached_def)
  qed
qed (use assms in \<open>cases d; simp add: reached_def\<close>)

lemma ending_left:
  assumes arrive: "\<And>tree y st. bst_walk d (bst_root tree) [] = At y st \<Longrightarrow> ends tree = t_done y st tree"
    and again: "\<And>tree tree'. bst_walk d (bst_root tree) [] = Overflow \<Longrightarrow> bst_balance tree = Ok tree' \<Longrightarrow>
      ends tree = ends tree'"
    and good: "bst_for cmp tree" "length (bst_items tree) < 2 ^ 32"
  shows "bt_left tree (end_of d (bst_items tree)) (ends tree)"
proof -
  have at: "bt_left tree (end_of d (bst_items tree)) (ends tree)"
    if "bst_for cmp tree" "bst_walk d (bst_root tree) [] = At y st" for tree y st
    using arrive [OF that(2)] left_done [OF that(1) walk_reached [OF that(2)]] by (simp add: bst_items_def)
  show ?thesis
  proof (cases "bst_walk d (bst_root tree) []")
    case Overflow
    obtain tree' where t: "bst_balance tree = Ok tree'" "bst_for cmp tree'" "bst_items tree' = bst_items tree"
      "bst_height (bst_root tree') \<le> BST_MAX_HEIGHT"
      using balance_for [OF good] by blast
    have "bst_walk d (bst_root tree') [] \<noteq> Overflow" using t(4) by (intro walk_low) simp
    then show ?thesis
      using again [OF Overflow t(1)] at [OF t(2)] left_same [OF t(3)] t(3)
      by (cases "bst_walk d (bst_root tree') []") auto
  qed (use at good(1) in simp)
qed

lemma t_first_left:
  assumes "bst_for cmp tree" "length (bst_items tree) < 2 ^ 32"
  shows "bt_left tree (end_of False (bst_items tree)) (bst_t_first tree)"
  by (rule ending_left [OF _ _ assms]) (subst bst_t_first.simps, simp)+

lemma t_last_left:
  assumes "bst_for cmp tree" "length (bst_items tree) < 2 ^ 32"
  shows "bt_left tree (end_of True (bst_items tree)) (bst_t_last tree)"
  by (rule ending_left [OF _ _ assms]) (subst bst_t_last.simps, simp)+

text \<open>Searching with a traverser.\<close>

lemma search_at:
  "bst_search c item t st = At y st' \<Longrightarrow> length st \<le> BST_MAX_HEIGHT \<Longrightarrow>
     st' = rev (bst_locate c item t) @ st \<and> y = node_data (subtree t (bst_locate c item t)) \<and>
     length st' \<le> BST_MAX_HEIGHT"
proof (induction c item t st rule: bst_search.induct)
  case (2 c item l x r st)
  show ?case
  proof (cases "c item x = 0")
    case False
    have h: "\<not> BST_MAX_HEIGHT \<le> length st"
      "bst_search c item (if c item x > 0 then r else l) ((c item x > 0) # st) = At y st'"
      using 2(2) False by (auto simp: Let_def split: if_splits)
    then have "length ((c item x > 0) # st) \<le> BST_MAX_HEIGHT" by simp
    from 2(1) [OF refl False h(1,2) this] show ?thesis using False by (auto simp: Let_def)
  qed (use 2 in \<open>simp add: Let_def\<close>)
qed simp

lemma search_low: "length st + bst_height t \<le> BST_MAX_HEIGHT \<Longrightarrow> bst_search c item t st \<noteq> Overflow"
proof (induction c item t st rule: bst_search.induct)
  case (2 c item l x r st)
  show ?case
  proof (cases "c item x = 0")
    case False
    have h: "\<not> BST_MAX_HEIGHT \<le> length st"
      "length ((c item x > 0) # st) + bst_height (if c item x > 0 then r else l) \<le> BST_MAX_HEIGHT"
      using 2(2) by auto
    from 2(1) [OF refl False h] show ?thesis using False h(1) by (simp add: Let_def)
  qed (simp add: Let_def)
qed simp

text \<open>An operation that searches from the root works on a tree in which the search ends.\<close>

lemma searching:
  assumes again: "\<And>tree tree'. bst_search cmp item (bst_root tree) [] = Overflow \<Longrightarrow> bst_compare tree = cmp \<Longrightarrow>
      bst_balance tree = Ok tree' \<Longrightarrow> search tree = search tree'"
    and good: "bst_for cmp tree" "length (bst_items tree) < 2 ^ 32"
  obtains tree' y st where "search tree = search tree'" "bst_for cmp tree'" "bst_items tree' = bst_items tree"
    "bst_search cmp item (bst_root tree') [] = At y st"
proof (cases "bst_search cmp item (bst_root tree) []")
  case Overflow
  obtain tree' where t: "bst_balance tree = Ok tree'" "bst_for cmp tree'" "bst_items tree' = bst_items tree"
    "bst_height (bst_root tree') \<le> BST_MAX_HEIGHT"
    using balance_for [OF good] by blast
  have "bst_search cmp item (bst_root tree') [] \<noteq> Overflow" using t(4) by (intro search_low) simp
  then obtain y st where "bst_search cmp item (bst_root tree') [] = At y st"
    by (cases "bst_search cmp item (bst_root tree') []") auto
  moreover have "search tree = search tree'" using again [OF Overflow _ t(1)] good(1) by (simp add: bst_for_def)
  ultimately show ?thesis using that t(2,3) by blast
qed (use that [OF refl good(1) refl] in blast)

lemma t_find_left:
  assumes "bst_for cmp tree" "length (bst_items tree) < 2 ^ 32"
  shows "\<exists>trav tree'. bst_t_find tree item = Some (Ok (list_find cmp item (bst_items tree), trav, tree')) \<and>
    bst_for cmp tree' \<and> bst_items tree' = bst_items tree \<and>
    (case list_find cmp item (bst_items tree) of
       None \<Rightarrow> bt_item trav = None
     | Some d \<Rightarrow> \<exists>xs ys. bt_good tree' xs d ys trav)"
proof -
  have again: "bst_t_find tree item = bst_t_find tree' item"
    if "bst_search cmp item (bst_root tree) [] = Overflow" "bst_compare tree = cmp" "bst_balance tree = Ok tree'"
    for tree tree'
    using that by (subst bst_t_find.simps) simp
  obtain tree' y st where s: "bst_t_find tree item = bst_t_find tree' item" "bst_for cmp tree'"
    "bst_items tree' = bst_items tree" "bst_search cmp item (bst_root tree') [] = At y st"
    by (rule searching [OF again assms(1,2)])
  have c: "bst_compare tree' = cmp" using s(2) by (simp add: bst_for_def)
  have st: "st = rev (bst_locate cmp item (bst_root tree'))"
    "y = node_data (subtree (bst_root tree') (bst_locate cmp item (bst_root tree')))"
    "length (bst_locate cmp item (bst_root tree')) \<le> BST_MAX_HEIGHT"
    using search_at [OF s(4)] by auto
  from s(2) show ?thesis
  proof (cases rule: locate_cases [where item = item])
    case (slot p)
    then show ?thesis using s c st
      by (simp add: t_done_def) (subst bst_t_find.simps, simp add: t_done_def)
  next
    case (found p l d r)
    have "stands (bst_root tree') (rev p) (lefts (bst_root tree') p @ bst_inorder l) d (bst_inorder r @ rights (bst_root tree') p)"
      using found by (simp add: stands_def)
    then have "bt_good tree' (lefts (bst_root tree') p @ bst_inorder l) d (bst_inorder r @ rights (bst_root tree') p)
        \<lparr>bt_item = Some d, bt_stack = rev p, bt_generation = bst_generation tree'\<rparr>"
      using found st by (auto simp: bt_good_def)
    moreover have "bst_t_find tree item =
        Some (Ok (Some d, \<lparr>bt_item = Some d, bt_stack = rev p, bt_generation = bst_generation tree'\<rparr>, tree'))"
      unfolding s(1) using s(4) c st found by (subst bst_t_find.simps) (simp add: t_done_def)
    ultimately show ?thesis using s found by auto
  qed
qed

lemma in_put:
  "in_tree t p \<Longrightarrow> in_tree (put_at t p s) p" "in_tree t p \<Longrightarrow> lefts (put_at t p s) p = lefts t p"
  "in_tree t p \<Longrightarrow> rights (put_at t p s) p = rights t p"
  by (induction t p rule: in_tree.induct) (auto split: if_splits)

lemma t_insert_left:
  assumes "bst_for cmp tree" "length (bst_items tree) < 2 ^ 32" "list_find cmp item (bst_items tree) = None"
  shows "\<exists>xs ys trav tree'. bst_t_insert True tree item = Some (Ok (Some item, trav, tree')) \<and> bst_for cmp tree' \<and>
    bst_items tree' = list_insert cmp item (bst_items tree) \<and> bt_good tree' xs item ys trav"
proof -
  have again: "bst_t_insert True tree item = bst_t_insert True tree' item"
    if "bst_search cmp item (bst_root tree) [] = Overflow" "bst_compare tree = cmp" "bst_balance tree = Ok tree'"
    for tree tree'
    using that by (subst bst_t_insert.simps) simp
  obtain tree' y st where s: "bst_t_insert True tree item = bst_t_insert True tree' item" "bst_for cmp tree'"
    "bst_items tree' = bst_items tree" "bst_search cmp item (bst_root tree') [] = At y st"
    by (rule searching [OF again assms(1,2)])
  have c: "bst_compare tree' = cmp" using s(2) by (simp add: bst_for_def)
  from s(2) show ?thesis
  proof (cases rule: locate_cases [where item = item])
    case (slot p)
    have st: "st = rev p" "y = None" "length p \<le> BST_MAX_HEIGHT" using search_at [OF s(4)] slot(1,2) by auto
    let ?t = "tree'\<lparr>bst_root := put_at (bst_root tree') p (BNode BNull item BNull), bst_count := bst_count tree' + 1\<rparr>"
    have it: "bst_items ?t = list_insert cmp item (bst_items tree)"
      using slot(6) inorder_put [OF slot(4), of "BNode BNull item BNull"] s(3) by (simp add: bst_items_def)
    have "bst_for cmp ?t"
      using s(2,3) it ordered_list_insert [of "bst_items tree" item] length_list_insert [OF assms(3)]
      by (simp add: bst_for_def)
    moreover have "bt_good ?t (lefts (bst_root tree') p) item (rights (bst_root tree') p)
        \<lparr>bt_item = Some item, bt_stack = rev p, bt_generation = bst_generation tree'\<rparr>"
      using slot(4,6) it s(3) st(3) by (auto simp: bt_good_def stands_def in_put)
    moreover have "bst_t_insert True tree item =
        Some (Ok (Some item, \<lparr>bt_item = Some item, bt_stack = rev p, bt_generation = bst_generation tree'\<rparr>, ?t))"
      unfolding s(1) using s(4) c st by (subst bst_t_insert.simps) (simp add: t_done_def)
    ultimately show ?thesis using it by blast
  next
    case (found p l d r)
    then show ?thesis using assms(3) s(3) by simp
  qed
qed

text \<open>A whole traversal, from the null item on and from any item on.\<close>

lemma t_next_from_null:
  "bt_item trav = None \<Longrightarrow> bst_t_next tree trav = bst_t_first tree"
  by (subst bst_t_next.simps) (simp add: bst_trav_refresh_def)

lemma bst_collect_rest:
  assumes "bst_for cmp tree" "length (bst_items tree) < 2 ^ 32" "bt_good tree xs x ys trav" "length ys < n"
  shows "\<exists>tree'. bst_collect n tree trav = Some (Ok (ys, tree')) \<and> bst_for cmp tree' \<and> bst_items tree' = bst_items tree"
  using assms
proof (induction n arbitrary: tree xs x ys trav)
  case (Suc n)
  note l = t_next_left [OF Suc.prems(1-3)]
  show ?case
  proof (cases ys)
    case Nil
    then show ?thesis using l by (auto simp: bt_left_def)
  next
    case (Cons z zs)
    then obtain trav' tree' where m: "bst_t_next tree trav = Some (Ok (Some z, trav', tree'))"
      "bst_for cmp tree'" "bst_items tree' = bst_items tree" "bt_good tree' (xs @ [x]) z zs trav'"
      using l by (auto simp: bt_left_def)
    have "length (bst_items tree') < 2 ^ 32" "length zs < n" using Suc.prems(2,4) m(3) Cons by auto
    from Suc.IH [OF m(2) this(1) m(4) this(2)] show ?thesis using m(1,3) Cons by auto
  qed
qed simp

lemma bst_collect_all:
  assumes "bst_for cmp tree" "length (bst_items tree) < 2 ^ 32" "bt_item trav = None" "length (bst_items tree) < n"
  shows "\<exists>tree'. bst_collect n tree trav = Some (Ok (bst_items tree, tree')) \<and> bst_for cmp tree' \<and>
    bst_items tree' = bst_items tree"
proof -
  obtain m where n: "n = Suc m" using assms(4) by (cases n) auto
  note l = t_first_left [OF assms(1,2)]
  show ?thesis
  proof (cases "bst_items tree")
    case Nil
    then show ?thesis using l n assms(3) by (auto simp: bt_left_def t_next_from_null)
  next
    case (Cons z zs)
    then obtain trav' tree' where f: "bst_t_first tree = Some (Ok (Some z, trav', tree'))"
      "bst_for cmp tree'" "bst_items tree' = bst_items tree" "bt_good tree' [] z zs trav'"
      using l by (auto simp: bt_left_def)
    have "length (bst_items tree') < 2 ^ 32" "length zs < m" using assms(2,4) f(3) Cons n by auto
    from bst_collect_rest [OF f(2) this(1) f(4) this(2)] show ?thesis
      using f(1,3) Cons n assms(3) by (auto simp: t_next_from_null)
  qed
qed

end

end
