(* ===== verification/AVL_Traverse.thy ===== *)
theory AVL_Traverse
  imports AVL_Table BST_Traverse
begin

text \<open>
  The traversers of \<open>avl.c\<close>.  A traverser holds its node, here by the item, and the stack of the
  nodes above it, here by the directions taken from them, the top first.  The code is that of
  \<open>bst.c\<close> except that a full stack is a failed assertion: no balancing comes to the rescue, and
  none is needed, since AVL trees are low.  Each loop is shown to do what the loop of \<open>bst.c\<close>
  does on the tree without balance factors, so that the lemmas about positions carry over.
\<close>

section \<open>Operations\<close>

record 'a avl_traverser =
  at_item :: "'a option"
  at_stack :: "bool list"
  at_generation :: "64 word"

definition avl_t_init :: "'a avl_table \<Rightarrow> 'a avl_traverser" where
  "avl_t_init tree = \<lparr>at_item = None, at_stack = [], at_generation = avl_generation tree\<rparr>"

fun avl_subtree :: "'a avl_node \<Rightarrow> bool list \<Rightarrow> 'a avl_node" where
  "avl_subtree t [] = t"
| "avl_subtree ANull (d # ds) = ANull"
| "avl_subtree (ANode l x b r) (d # ds) = avl_subtree (if d then r else l) ds"

fun avl_item :: "'a avl_node \<Rightarrow> 'a option" where
  "avl_item ANull = None"
| "avl_item (ANode l x b r) = Some x"

text \<open>The loops \<open>while (x->avl_link[d] != NULL)\<close>.\<close>

fun avl_walk :: "bool \<Rightarrow> 'a avl_node \<Rightarrow> bool list \<Rightarrow> ('a option \<times> bool list) outcome" where
  "avl_walk d ANull st = Ok (None, st)"
| "avl_walk d (ANode l x b r) st =
     (if (if d then r else l) = ANull then Ok (Some x, st)
      else if AVL_MAX_HEIGHT \<le> length st then Fault Assertion_failed
      else avl_walk d (if d then r else l) (d # st))"

definition avl_t_first :: "'a avl_table \<Rightarrow> ('a option \<times> 'a avl_traverser) outcome" where
  "avl_t_first tree =
     obind (avl_walk False (avl_root tree) [])
       (\<lambda>(x, st). Ok (x, \<lparr>at_item = x, at_stack = st, at_generation = avl_generation tree\<rparr>))"

definition avl_t_last :: "'a avl_table \<Rightarrow> ('a option \<times> 'a avl_traverser) outcome" where
  "avl_t_last tree =
     obind (avl_walk True (avl_root tree) [])
       (\<lambda>(x, st). Ok (x, \<lparr>at_item = x, at_stack = st, at_generation = avl_generation tree\<rparr>))"

fun avl_find_loop :: "('a \<Rightarrow> 'a \<Rightarrow> int) \<Rightarrow> 'a \<Rightarrow> 'a avl_node \<Rightarrow> bool list \<Rightarrow> ('a option \<times> bool list) outcome" where
  "avl_find_loop cmp item ANull st = Ok (None, [])"
| "avl_find_loop cmp item (ANode l x b r) st =
     (let k = cmp item x in
      if k = 0 then Ok (Some x, st)
      else if AVL_MAX_HEIGHT \<le> length st then Fault Assertion_failed
      else avl_find_loop cmp item (if k > 0 then r else l) ((k > 0) # st))"

definition avl_t_find :: "'a avl_table \<Rightarrow> 'a \<Rightarrow> ('a option \<times> 'a avl_traverser) outcome" where
  "avl_t_find tree item =
     obind (avl_find_loop (avl_compare tree) item (avl_root tree) [])
       (\<lambda>(x, st). Ok (x, \<lparr>at_item = x, at_stack = st, at_generation = avl_generation tree\<rparr>))"

text \<open>
  \<^verbatim>\<open>avl_t_insert\<close> does not set up the stack: the generation number it leaves makes the next
  operation do so.
\<close>

definition avl_t_insert ::
  "bool \<Rightarrow> 'a avl_traverser \<Rightarrow> 'a avl_table \<Rightarrow> 'a \<Rightarrow>
   ('a option \<times> 'a avl_traverser \<times> 'a avl_table) outcome" where
  "avl_t_insert alloc trav tree item =
     obind (avl_probe alloc tree item)
       (\<lambda>(p, tree). Ok
         (let here = (\<lambda>x. (Some x, trav\<lparr>at_item := Some x, at_generation := avl_generation tree - 1\<rparr>, tree)) in
          case p of
            A_no_memory \<Rightarrow> (None, avl_t_init tree, tree)
          | A_new_slot \<Rightarrow> here item
          | A_duplicate pa n \<Rightarrow> here (avl_data n)))"

definition avl_t_copy ::
  "'a avl_table \<Rightarrow> 'a avl_traverser \<Rightarrow> 'a avl_traverser \<Rightarrow> 'a option \<times> 'a avl_traverser" where
  "avl_t_copy tree trav src =
     (let trav = trav\<lparr>at_item := at_item src, at_generation := at_generation src\<rparr>;
          trav = (if at_generation trav = avl_generation tree then trav\<lparr>at_stack := at_stack src\<rparr> else trav)
      in (at_item trav, trav))"

text \<open>\<^verbatim>\<open>trav_refresh\<close>: the walk from the root to the node that holds \<open>item\<close>.\<close>

fun avl_refresh_loop :: "('a \<Rightarrow> 'a \<Rightarrow> int) \<Rightarrow> 'a \<Rightarrow> 'a avl_node \<Rightarrow> bool list \<Rightarrow> bool list outcome" where
  "avl_refresh_loop cmp item ANull st = Fault Assertion_failed"
| "avl_refresh_loop cmp item (ANode l x b r) st =
     (if x = item then Ok st
      else if AVL_MAX_HEIGHT \<le> length st then Fault Assertion_failed
      else avl_refresh_loop cmp item (if cmp item x > 0 then r else l) ((cmp item x > 0) # st))"

definition avl_trav_refresh :: "'a avl_table \<Rightarrow> 'a avl_traverser \<Rightarrow> 'a avl_traverser outcome" where
  "avl_trav_refresh tree trav =
     (let trav = trav\<lparr>at_generation := avl_generation tree\<rparr> in
      case at_item trav of
        None \<Rightarrow> Ok trav
      | Some item \<Rightarrow>
          obind (avl_refresh_loop (avl_compare tree) item (avl_root tree) [])
            (\<lambda>st. Ok (trav\<lparr>at_stack := st\<rparr>)))"

text \<open>The loop \<open>do \<dots> while (y == x->avl_link[d])\<close>; \<open>None\<close> when the stack runs empty.\<close>

fun avl_climb :: "bool \<Rightarrow> bool list \<Rightarrow> bool list option" where
  "avl_climb d [] = None"
| "avl_climb d (e # st) = (if e = d then avl_climb d st else Some st)"

text \<open>The step of \<^verbatim>\<open>avl_t_next\<close> (\<open>d = True\<close>) and \<^verbatim>\<open>avl_t_prev\<close> (\<open>d = False\<close>).\<close>

definition avl_step :: "bool \<Rightarrow> 'a avl_table \<Rightarrow> bool list \<Rightarrow> ('a option \<times> bool list) outcome" where
  "avl_step d tree st =
     (case avl_subtree (avl_root tree) (rev st) of
        ANull \<Rightarrow> Fault Dangling_pointer
      | ANode l x b r \<Rightarrow>
          if (if d then r else l) \<noteq> ANull then
            obind (check (length st < AVL_MAX_HEIGHT) Assertion_failed)
              (\<lambda>_. avl_walk (\<not> d) (if d then r else l) (d # st))
          else
            (case avl_climb d st of
               None \<Rightarrow> Ok (None, [])
             | Some st' \<Rightarrow> Ok (avl_item (avl_subtree (avl_root tree) (rev st')), st')))"

definition avl_t_next :: "'a avl_table \<Rightarrow> 'a avl_traverser \<Rightarrow> ('a option \<times> 'a avl_traverser) outcome" where
  "avl_t_next tree trav =
     obind (if at_generation trav \<noteq> avl_generation tree then avl_trav_refresh tree trav else Ok trav)
       (\<lambda>trav. if at_item trav = None then avl_t_first tree
          else obind (avl_step True tree (at_stack trav))
            (\<lambda>(y, st). Ok (y, trav\<lparr>at_item := y, at_stack := st\<rparr>)))"

definition avl_t_prev :: "'a avl_table \<Rightarrow> 'a avl_traverser \<Rightarrow> ('a option \<times> 'a avl_traverser) outcome" where
  "avl_t_prev tree trav =
     obind (if at_generation trav \<noteq> avl_generation tree then avl_trav_refresh tree trav else Ok trav)
       (\<lambda>trav. if at_item trav = None then avl_t_last tree
          else obind (avl_step False tree (at_stack trav))
            (\<lambda>(y, st). Ok (y, trav\<lparr>at_item := y, at_stack := st\<rparr>)))"

definition avl_t_cur :: "'a avl_traverser \<Rightarrow> 'a option" where
  "avl_t_cur trav = at_item trav"

text \<open>
  \<^verbatim>\<open>avl_t_replace\<close> writes through the node pointer; when the stack is out of date the node is
  found from the root.
\<close>

fun avl_set_at :: "'a avl_node \<Rightarrow> bool list \<Rightarrow> 'a \<Rightarrow> 'a avl_node" where
  "avl_set_at ANull p y = ANull"
| "avl_set_at (ANode l x b r) [] y = ANode l y b r"
| "avl_set_at (ANode l x b r) (d # ds) y =
     (if d then ANode l x b (avl_set_at r ds y) else ANode (avl_set_at l ds y) x b r)"

definition avl_t_replace ::
  "'a avl_table \<Rightarrow> 'a avl_traverser \<Rightarrow> 'a \<Rightarrow> ('a \<times> 'a avl_table \<times> 'a avl_traverser) outcome" where
  "avl_t_replace tree trav new =
     (case at_item trav of
        None \<Rightarrow> Fault Assertion_failed
      | Some old \<Rightarrow>
          (case (if at_generation trav \<noteq> avl_generation tree
                 then avl_refresh_loop (avl_compare tree) old (avl_root tree) []
                 else Ok (at_stack trav)) of
             Ok st \<Rightarrow> Ok (old, tree\<lparr>avl_root := avl_set_at (avl_root tree) (rev st) new\<rparr>, trav\<lparr>at_item := Some new\<rparr>)
           | _ \<Rightarrow> Fault Dangling_pointer))"

text \<open>A client loop over a whole table.\<close>

fun avl_collect :: "nat \<Rightarrow> 'a avl_table \<Rightarrow> 'a avl_traverser \<Rightarrow> 'a list outcome" where
  "avl_collect 0 tree trav = Ok []"
| "avl_collect (Suc n) tree trav =
     obind (avl_t_next tree trav)
       (\<lambda>(x, trav). case x of None \<Rightarrow> Ok [] | Some y \<Rightarrow>
          obind (avl_collect n tree trav) (\<lambda>ys. Ok (y # ys)))"

section \<open>The same loops without balance factors\<close>

lemma same_height: "AVL_MAX_HEIGHT = BST_MAX_HEIGHT"
  by (simp add: AVL_MAX_HEIGHT_def BST_MAX_HEIGHT_def)

text \<open>A walk of \<open>bst.c\<close>, when a full stack is a failed assertion.\<close>

definition asserted :: "'a walk \<Rightarrow> ('a option \<times> bool list) outcome" where
  "asserted w = (case w of Overflow \<Rightarrow> Fault Assertion_failed | At x st \<Rightarrow> Ok (x, st))"

lemma asserted_simps [simp]:
  "asserted Overflow = Fault Assertion_failed" "asserted (At x st) = Ok (x, st)"
  by (simp_all add: asserted_def)

lemma shape_subtree [simp]: "shape (avl_subtree t p) = subtree (shape t) p"
  by (induction t p rule: avl_subtree.induct) auto

lemma item_shape: "avl_item t = node_data (shape t)"
  by (cases t) simp_all

lemma walk_shape: "avl_walk d t st = asserted (bst_walk d (shape t) st)"
  by (induction d t st rule: avl_walk.induct) (auto simp: same_height)

lemma refresh_shape: "avl_refresh_loop cmp item t st = bst_refresh_loop cmp item (shape t) st"
  by (induction cmp item t st rule: avl_refresh_loop.induct) (auto simp: same_height)

lemma climb_same: "avl_climb d st = bst_climb d st"
  by (induction d st rule: avl_climb.induct) auto

lemma step_shape: "avl_step d tree st = obind (bst_step d (erase tree) st) asserted"
proof -
  have s: "subtree (shape (avl_root tree)) (rev st) = shape (avl_subtree (avl_root tree) (rev st))" by simp
  show ?thesis
  proof (cases "avl_subtree (avl_root tree) (rev st)")
    case ANull
    then show ?thesis unfolding avl_step_def bst_step_def erase_simps s by simp
  next
    case (ANode l x b r)
    then show ?thesis unfolding avl_step_def bst_step_def erase_simps s
      by (cases d) (auto simp: same_height check_def walk_shape climb_same item_shape split: option.splits)
  qed
qed

definition erase_trav :: "'a avl_traverser \<Rightarrow> 'a bst_traverser" where
  "erase_trav trav = \<lparr>bt_item = at_item trav, bt_stack = at_stack trav, bt_generation = at_generation trav\<rparr>"

lemma erase_trav_simps [simp]:
  "bt_item (erase_trav trav) = at_item trav" "bt_stack (erase_trav trav) = at_stack trav"
  "bt_generation (erase_trav trav) = at_generation trav"
  by (simp_all add: erase_trav_def)

lemma refresh_erase:
  "(if at_generation trav \<noteq> avl_generation tree then avl_trav_refresh tree trav else Ok trav) = Ok trav' \<longleftrightarrow>
   (if bt_generation (erase_trav trav) \<noteq> bst_generation (erase tree)
    then bst_trav_refresh (erase tree) (erase_trav trav) else Ok (erase_trav trav)) = Ok (erase_trav trav')"
proof -
  have e: "erase_trav u = erase_trav v \<longleftrightarrow> u = v" for u v :: "'a avl_traverser"
    by (cases u; cases v) (auto simp: erase_trav_def)
  have "bst_trav_refresh (erase tree) (erase_trav trav) =
      obind (avl_trav_refresh tree trav) (\<lambda>t. Ok (erase_trav t))"
    by (cases "at_item trav")
      (simp_all add: bst_trav_refresh_def avl_trav_refresh_def refresh_shape erase_trav_def outcome_simps Let_def)
  then show ?thesis by (auto simp: outcome_simps e)
qed

section \<open>Steps of a traverser\<close>

definition avl_good :: "'a avl_table \<Rightarrow> 'a list \<Rightarrow> 'a \<Rightarrow> 'a list \<Rightarrow> 'a avl_traverser \<Rightarrow> bool" where
  "avl_good tree xs d ys trav \<longleftrightarrow> bt_good (erase tree) xs d ys (erase_trav trav)"

text \<open>Where an operation leaves a traverser: on a given item, or on the null item.\<close>

definition at_left :: "'a avl_table \<Rightarrow> ('a list \<times> 'a \<times> 'a list) option \<Rightarrow> ('a option \<times> 'a avl_traverser) outcome \<Rightarrow> bool" where
  "at_left tree pos res \<longleftrightarrow> (\<exists>y trav. res = Ok (y, trav) \<and> at_item trav = y \<and>
     (case pos of None \<Rightarrow> y = None | Some (xs, d, ys) \<Rightarrow> y = Some d \<and> avl_good tree xs d ys trav))"

lemma low_tree:
  "avl_for cmp t \<Longrightarrow> length (avl_items t) \<le> 2 ^ 22 \<Longrightarrow> aheight (avl_root t) \<le> BST_MAX_HEIGHT"
  using height_bounds(2) [OF avl_forD(2)] by (simp add: avl_items_def BST_MAX_HEIGHT_def)

lemma left_reached:
  assumes "reached (shape (avl_root tree)) y st pos" "at_item trav = y" "at_stack trav = st"
    "at_generation trav = avl_generation tree"
  shows "at_left tree pos (Ok (y, trav))"
  using assms stands_inorder [of "shape (avl_root tree)" st]
  by (fastforce simp: at_left_def avl_good_def bt_good_def reached_def bst_items_def split: option.splits)

context keyed
begin

lemma astep_left:
  assumes "avl_for cmp t" "length (avl_items t) \<le> 2 ^ 22" "avl_good t xs x ys trav"
  obtains trav' y st where
    "(if at_generation trav \<noteq> avl_generation t then avl_trav_refresh t trav else Ok trav) = Ok trav'"
    "at_item trav' = Some x" "avl_step d t (at_stack trav') = Ok (y, st)"
    "at_left t (neighbour d xs x ys) (Ok (y, trav'\<lparr>at_item := y, at_stack := st\<rparr>))"
proof -
  have g: "bt_good (erase t) xs x ys (erase_trav trav)" using assms(3) by (simp add: avl_good_def)
  from refresh_good [OF avl_forD(4) [OF assms(1)] g] obtain bt where b:
    "(if bt_generation (erase_trav trav) \<noteq> bst_generation (erase t)
      then bst_trav_refresh (erase t) (erase_trav trav) else Ok (erase_trav trav)) = Ok bt"
    "bt_item bt = Some x" "bt_generation bt = bst_generation (erase t)"
    "stands (bst_root (erase t)) (bt_stack bt) xs x ys" "length (bt_stack bt) \<le> BST_MAX_HEIGHT" by blast
  let ?trav = "\<lparr>at_item = bt_item bt, at_stack = bt_stack bt, at_generation = bt_generation bt\<rparr>"
  have e: "bt = erase_trav ?trav" by (cases bt) (simp add: erase_trav_def)
  have r: "(if at_generation trav \<noteq> avl_generation t then avl_trav_refresh t trav else Ok trav) = Ok ?trav"
    using b(1) unfolding refresh_erase e [symmetric] .
  have h: "bst_height (bst_root (erase t)) \<le> BST_MAX_HEIGHT" using low_tree [OF assms(1,2)] by simp
  obtain y st where s: "bst_step d (erase t) (bt_stack bt) = Ok (At y st)" using step_low [OF b(4) h] by blast
  have "reached (shape (avl_root t)) y st (neighbour d xs x ys)"
    using step_at [OF b(4,5) refl s] by simp
  then show ?thesis using b(2,3) s by (intro that [OF r, of y st] left_reached) (simp_all add: step_shape)
qed

lemma at_next_left:
  assumes "avl_for cmp t" "length (avl_items t) \<le> 2 ^ 22" "avl_good t xs x ys trav"
  shows "at_left t (neighbour True xs x ys) (avl_t_next t trav)"
proof -
  obtain trav' y st where s:
    "(if at_generation trav \<noteq> avl_generation t then avl_trav_refresh t trav else Ok trav) = Ok trav'"
    "at_item trav' = Some x" "avl_step True t (at_stack trav') = Ok (y, st)"
    "at_left t (neighbour True xs x ys) (Ok (y, trav'\<lparr>at_item := y, at_stack := st\<rparr>))"
    by (rule astep_left [OF assms])
  then show ?thesis unfolding avl_t_next_def s(1) by simp
qed

lemma at_prev_left:
  assumes "avl_for cmp t" "length (avl_items t) \<le> 2 ^ 22" "avl_good t xs x ys trav"
  shows "at_left t (neighbour False xs x ys) (avl_t_prev t trav)"
proof -
  obtain trav' y st where s:
    "(if at_generation trav \<noteq> avl_generation t then avl_trav_refresh t trav else Ok trav) = Ok trav'"
    "at_item trav' = Some x" "avl_step False t (at_stack trav') = Ok (y, st)"
    "at_left t (neighbour False xs x ys) (Ok (y, trav'\<lparr>at_item := y, at_stack := st\<rparr>))"
    by (rule astep_left [OF assms])
  then show ?thesis unfolding avl_t_prev_def s(1) by simp
qed

text \<open>The ends of a table.\<close>

lemma awalk_left:
  assumes "avl_for cmp t" "length (avl_items t) \<le> 2 ^ 22"
  obtains y st where "avl_walk d (avl_root t) [] = Ok (y, st)"
    "reached (shape (avl_root t)) y st (end_of d (avl_items t))"
proof -
  have "bst_walk d (shape (avl_root t)) [] \<noteq> Overflow"
    using low_tree [OF assms] by (intro walk_low) simp
  then obtain y st where w: "bst_walk d (shape (avl_root t)) [] = At y st"
    by (cases "bst_walk d (shape (avl_root t)) []") auto
  then show ?thesis using that walk_reached [OF w] by (simp add: walk_shape avl_items_def)
qed

lemma at_first_left:
  assumes "avl_for cmp t" "length (avl_items t) \<le> 2 ^ 22"
  shows "at_left t (end_of False (avl_items t)) (avl_t_first t)"
  by (rule awalk_left [OF assms, of False]) (auto simp: avl_t_first_def intro!: left_reached)

lemma at_last_left:
  assumes "avl_for cmp t" "length (avl_items t) \<le> 2 ^ 22"
  shows "at_left t (end_of True (avl_items t)) (avl_t_last t)"
  by (rule awalk_left [OF assms, of True]) (auto simp: avl_t_last_def intro!: left_reached)

text \<open>A whole traversal.\<close>

lemma avl_collect_rest:
  assumes "avl_for cmp t" "length (avl_items t) \<le> 2 ^ 22" "avl_good t xs x ys trav" "length ys < n"
  shows "avl_collect n t trav = Ok ys"
  using assms(3,4)
proof (induction n arbitrary: xs x ys trav)
  case (Suc n)
  have l: "at_left t (neighbour True xs x ys) (avl_t_next t trav)" by (rule at_next_left [OF assms(1,2) Suc.prems(1)])
  show ?case
  proof (cases ys)
    case Nil
    then show ?thesis using l by (auto simp: at_left_def)
  next
    case (Cons z zs)
    then obtain trav' where m: "avl_t_next t trav = Ok (Some z, trav')" "avl_good t (xs @ [x]) z zs trav'"
      using l by (auto simp: at_left_def)
    have "length zs < n" using Suc.prems(2) Cons by simp
    from Suc.IH [OF m(2) this] show ?thesis using m(1) Cons by simp
  qed
qed simp

lemma at_next_init: "avl_t_next t (avl_t_init t) = avl_t_first t"
  by (simp add: avl_t_next_def avl_t_init_def)

lemma avl_collect_all:
  assumes "avl_for cmp t" "length (avl_items t) \<le> 2 ^ 22" "length (avl_items t) < n"
  shows "avl_collect n t (avl_t_init t) = Ok (avl_items t)"
proof -
  obtain m where n: "n = Suc m" using assms(3) by (cases n) auto
  note l = at_first_left [OF assms(1,2)]
  show ?thesis
  proof (cases "avl_items t")
    case Nil
    then show ?thesis using l n by (auto simp: at_left_def at_next_init)
  next
    case (Cons z zs)
    then obtain trav' where f: "avl_t_first t = Ok (Some z, trav')" "avl_good t [] z zs trav'"
      using l by (auto simp: at_left_def)
    have "length zs < m" using assms(3) Cons n by simp
    from avl_collect_rest [OF assms(1,2) f(2) this] show ?thesis using f(1) Cons n by (simp add: at_next_init)
  qed
qed

end

section \<open>Traversers and changes of the table\<close>

text \<open>A new leaf does not move the nodes there are.\<close>

lemma put_leaf_keeps:
  assumes "in_tree root q" "subtree root q = BNode l d r" "in_tree root p" "subtree root p = BNull"
  shows "in_tree (put_at root p n) q \<and> (\<exists>l' r'. subtree (put_at root p n) q = BNode l' d r')"
  using assms
proof (induction root arbitrary: p q)
  case (BNode tl x tr)
  then obtain e p' where p: "p = e # p'" by (cases p) auto
  show ?case
  proof (cases q)
    case Nil
    then show ?thesis using BNode.prems p by auto
  next
    case (Cons c q')
    then show ?thesis using BNode.IH(1) [of q' p'] BNode.IH(2) [of q' p'] BNode.prems p by (cases c; cases e) auto
  qed
next
  case BNull
  then show ?case by (cases q) auto
qed

lemma stands_put_leaf:
  assumes "stands root st xs d ys" "in_tree root p" "subtree root p = BNull"
  shows "\<exists>xs' ys'. stands (put_at root p n) st xs' d ys'"
  using put_leaf_keeps [of root "rev st" _ d _ p n] assms by (auto simp: stands_def)

lemma shape_mk: "shape t = shape t' \<Longrightarrow> shape (avl_mk d t x b u) = shape (avl_mk d t' x b' u)"
  by (cases d) simp_all

lemma shape_plug_cong: "shape t = shape t' \<Longrightarrow> shape (avl_plug t pa) = shape (avl_plug t' (map avl_bump pa))"
proof (induction pa arbitrary: t t')
  case (Cons f pa)
  obtain d x b u where f: "f = AFrame d x b u" by (cases f)
  show ?case using Cons.IH [OF shape_mk [OF Cons.prems, of d x b u "if d then b + 1 else b - 1"]]
    by (cases d) (simp_all add: f)
qed simp

lemma shape_plug_put: "shape (avl_plug n pa) = put_at (shape (avl_plug t pa)) (path_of pa) (shape n)"
proof (induction pa arbitrary: n t)
  case (Cons f pa)
  obtain d x b u where f: "f = AFrame d x b u" by (cases f)
  have put: "in_tree v p \<Longrightarrow> put_at v (p @ q) s = put_at v p (put_at (subtree v p) q s)" for v :: "'b bst_node" and p q s
    by (induction v p rule: in_tree.induct) auto
  have "shape (avl_plug (avl_mk d n x b u) pa) =
      put_at (shape (avl_plug (avl_mk d t x b u) pa)) (path_of pa) (shape (avl_mk d n x b u))"
    by (rule Cons.IH)
  also have "shape (avl_mk d n x b u) = put_at (shape (avl_mk d t x b u)) [d] (shape n)" by (cases d) simp_all
  also have "put_at (shape (avl_plug (avl_mk d t x b u) pa)) (path_of pa) \<dots> =
      put_at (shape (avl_plug (avl_mk d t x b u) pa)) (path_of pa @ [d]) (shape n)"
    using put [of "shape (avl_plug (avl_mk d t x b u) pa)" "path_of pa" "[d]" "shape n"]
      plug_path [of "avl_mk d t x b u" pa] by (simp only:)
  finally show ?case by (simp add: f)
qed simp

context keyed
begin

lemma aprobe_shape:
  assumes "avl_for cmp t" "length (avl_items t) < 2 ^ 22" "avl_probe True t item = Ok (A_new_slot, t')"
  shows "avl_generation t' = avl_generation t + 1 \<or>
    avl_generation t' = avl_generation t \<and>
      (\<exists>p. in_tree (shape (avl_root t)) p \<and> subtree (shape (avl_root t)) p = BNull \<and>
        shape (avl_root t') = put_at (shape (avl_root t)) p (BNode BNull item BNull))"
  using assms(1,2)
proof (cases rule: asearch_cases [where item = item])
  case (slot ys zs)
  let ?n = "ANode ANull item 0 ANull"
  let ?y = "avl_plug ?n (map avl_bump ys)"
  obtain w where w: "avl_insert_fix ?y = Ok w"
    "t' = (case w of None \<Rightarrow> t\<lparr>avl_count := avl_count t + 1, avl_root := avl_plug ?y zs\<rparr>
      | Some w \<Rightarrow> t\<lparr>avl_count := avl_count t + 1, avl_root := avl_plug w zs, avl_generation := avl_generation t + 1\<rparr>)"
    using assms(3) slot(1) avl_forD(1) [OF assms(1)]
    by (auto simp: avl_probe_def Let_def outcome_simps split: option.splits)
  show ?thesis
  proof (cases w)
    case None
    have "shape (avl_plug ?y zs) = shape (avl_plug ?y (map avl_bump zs))" by (rule shape_plug_cong) simp
    also have "\<dots> = shape (avl_plug ?n (map avl_bump (ys @ zs)))" by simp
    also have "\<dots> = shape (avl_plug ?n (ys @ zs))" by (rule shape_plug_cong [symmetric]) simp
    also have "\<dots> = put_at (shape (avl_root t)) (path_of (ys @ zs)) (BNode BNull item BNull)"
      using shape_plug_put [of ?n "ys @ zs" ANull] slot(3) by simp
    finally show ?thesis using w(2) None plug_path [of ANull "ys @ zs"] slot(3)
      by (intro disjI2 conjI exI [of _ "path_of (ys @ zs)"]) simp_all
  qed (use w in simp)
next
  case (found pa pb l d b r)
  then show ?thesis using assms(1,3) avl_forD(1) [OF assms(1)] by (auto simp: avl_probe_def)
qed

text \<open>A traverser that is up to date stays usable when another item is inserted.\<close>

lemma insert_keeps:
  assumes "avl_for cmp t" "length (avl_items t) < 2 ^ 22" "list_find cmp item (avl_items t) = None"
    and "avl_good t xs d ys trav" "at_generation trav = avl_generation t"
    and "avl_probe True t item = Ok (A_new_slot, t')"
  shows "\<exists>xs' ys'. avl_good t' xs' d ys' trav"
proof -
  have t': "avl_for cmp t'" "avl_items t' = list_insert cmp item (avl_items t)"
    using aprobe_new [OF assms(1-3)] assms(6) by simp_all
  obtain st where g: "at_item trav = Some d" "avl_items t = xs @ d # ys" "at_stack trav = st"
    "stands (shape (avl_root t)) st xs d ys" "length st \<le> BST_MAX_HEIGHT"
    using assms(4,5) by (auto simp: avl_good_def bt_good_def)
  from aprobe_shape [OF assms(1,2,6)] show ?thesis
  proof (elim disjE conjE exE)
    assume "avl_generation t' = avl_generation t + 1"
    then have new: "bt_generation (erase_trav trav) \<noteq> bst_generation (erase t')" using assms(5) by simp
    have "d \<in> set (avl_items t')" using t'(2) g(2) set_list_insert [OF assms(3)] by simp
    then obtain xs' ys' where it: "bst_items (erase t') = xs' @ d # ys'" by (auto dest: split_list)
    have "length (avl_items t') \<le> 2 ^ 22" using t'(2) length_list_insert [OF assms(3)] assms(2) by simp
    then have "bst_height (bst_root (erase t')) \<le> BST_MAX_HEIGHT" using low_tree [OF t'(1)] by simp
    from low_good [OF it this _ new] show ?thesis using g(1) by (auto simp: avl_good_def)
  next
    fix p assume p: "avl_generation t' = avl_generation t" "in_tree (shape (avl_root t)) p"
      "subtree (shape (avl_root t)) p = BNull"
      "shape (avl_root t') = put_at (shape (avl_root t)) p (BNode BNull item BNull)"
    then obtain xs' ys' where "stands (shape (avl_root t')) st xs' d ys'"
      using stands_put_leaf [OF g(4) p(2,3), of "BNode BNull item BNull"] by (simp only: p(4)) blast
    then show ?thesis using g stands_inorder by (fastforce simp: avl_good_def bt_good_def bst_items_def)
  qed
qed

text \<open>After a deletion every traverser on another item rebuilds its stack.\<close>

lemma delete_keeps:
  assumes "avl_for cmp t" "length (avl_items t) < 2 ^ 22" "avl_good t xs d ys trav"
    and "at_generation trav = avl_generation t" "cmp item d \<noteq> 0" "avl_delete t item = Ok (Some e, t')"
  shows "\<exists>xs' ys'. avl_good t' xs' d ys' trav"
proof -
  have t': "avl_for cmp t'" "avl_items t' = list_delete cmp item (avl_items t)"
    using avl_delete_items [OF assms(1,2), of item] assms(6) by auto
  have g: "at_item trav = Some d" "avl_items t = xs @ d # ys"
    using assms(3) by (auto simp: avl_good_def bt_good_def)
  have "avl_generation t' = avl_generation t + 1"
    using assms(6) by (auto simp: avl_delete_def outcome_simps split: option.splits)
  then have new: "bt_generation (erase_trav trav) \<noteq> bst_generation (erase t')" using assms(4) by simp
  have "d \<in> set (avl_items t')" using t'(2) g(2) assms(5) by (simp add: list_delete_def)
  then obtain xs' ys' where it: "bst_items (erase t') = xs' @ d # ys'" by (auto dest: split_list)
  have "length (avl_items t') \<le> length (avl_items t)" unfolding t'(2) by (simp add: list_delete_def)
  then have "bst_height (bst_root (erase t')) \<le> BST_MAX_HEIGHT" using low_tree [OF t'(1)] assms(2) by simp
  from low_good [OF it this _ new] show ?thesis using g(1) by (auto simp: avl_good_def)
qed

lemma at_insert_good:
  assumes "avl_for cmp t" "length (avl_items t) < 2 ^ 22" "list_find cmp item (avl_items t) = None"
  shows "\<exists>t' trav' xs ys. avl_t_insert True trav t item = Ok (Some item, trav', t') \<and> avl_for cmp t' \<and>
    avl_items t' = list_insert cmp item (avl_items t) \<and> avl_good t' xs item ys trav'"
proof -
  obtain t' where t': "avl_probe True t item = Ok (A_new_slot, t')" "avl_for cmp t'"
    "avl_items t' = list_insert cmp item (avl_items t)"
    using aprobe_new [OF assms] by blast
  let ?trav = "trav\<lparr>at_item := Some item, at_generation := avl_generation t' - 1\<rparr>"
  have "item \<in> set (avl_items t')" using t'(3) set_list_insert [OF assms(3)] by simp
  then obtain xs ys where it: "bst_items (erase t') = xs @ item # ys" by (auto dest: split_list)
  have "length (avl_items t') \<le> 2 ^ 22" using t'(3) length_list_insert [OF assms(3)] assms(2) by simp
  then have "bst_height (bst_root (erase t')) \<le> BST_MAX_HEIGHT" using low_tree [OF t'(2)] by simp
  from low_good [OF it this, of "erase_trav ?trav"] have "avl_good t' xs item ys ?trav"
    by (simp add: avl_good_def)
  then show ?thesis using t' by (auto simp: avl_t_insert_def Let_def)
qed

text \<open>The item that \<^verbatim>\<open>avl_t_next\<close> arrives at is the next in the order of the table as it is now.\<close>

lemma next_in_order:
  assumes "avl_for cmp t" "length (avl_items t) \<le> 2 ^ 22" "avl_good t xs d ys trav"
  shows "\<exists>trav'. avl_t_next t trav = Ok (find (\<lambda>z. key d < key z) (avl_items t), trav')"
proof -
  have it: "avl_items t = xs @ d # ys" using assms(3) by (simp add: avl_good_def bt_good_def)
  have "find (\<lambda>z. key d < key z) (avl_items t) = (case ys of [] \<Rightarrow> None | y # _ \<Rightarrow> Some y)"
    using avl_forD(3) [OF assms(1)] unfolding it
    by (rule ordered_table.find_next [OF avl_ordered_table])
  then show ?thesis using at_next_left [OF assms] by (cases ys) (auto simp: at_left_def)
qed

end

text \<open>Replacing the item of a traverser.\<close>

lemma set_at_shape:
  "subtree (shape t) p \<noteq> BNull \<Longrightarrow> shape (avl_set_at t p y) = put_at (shape t) p (set_item y (subtree (shape t) p))"
proof (induction t p y rule: avl_set_at.induct)
  case (1 p y)
  then show ?case by (cases p) auto
qed (auto split: if_splits)

lemma set_at_inv: "aheight (avl_set_at t p y) = aheight t" "avl_inv (avl_set_at t p y) = avl_inv t"
proof -
  show h: "aheight (avl_set_at t p y) = aheight t" for t p y
    by (induction t p y rule: avl_set_at.induct) auto
  show "avl_inv (avl_set_at t p y) = avl_inv t"
    by (induction t p y rule: avl_set_at.induct) (auto simp: h)
qed

context keyed
begin

lemma at_replace_ok:
  assumes "avl_for cmp t" "avl_good t xs d ys trav" "key y = key d"
  shows "\<exists>t' trav'. avl_t_replace t trav y = Ok (d, t', trav') \<and> avl_for cmp t' \<and> avl_items t' = xs @ y # ys"
proof -
  have g: "bt_good (erase t) xs d ys (erase_trav trav)" using assms(2) by (simp add: avl_good_def)
  then have it: "avl_items t = xs @ d # ys" "at_item trav = Some d" by (simp_all add: bt_good_def)
  obtain st where st: "(if at_generation trav \<noteq> avl_generation t
      then avl_refresh_loop (avl_compare t) d (avl_root t) [] else Ok (at_stack trav)) = Ok st"
    "stands (shape (avl_root t)) st xs d ys"
    using refresh_good [OF avl_forD(4) [OF assms(1)] g] it(2)
    by (auto simp: bst_trav_refresh_def refresh_shape Let_def outcome_simps split: if_splits)
  then obtain l r where n: "in_tree (shape (avl_root t)) (rev st)" "subtree (shape (avl_root t)) (rev st) = BNode l d r"
    "xs = lefts (shape (avl_root t)) (rev st) @ bst_inorder l" "ys = bst_inorder r @ rights (shape (avl_root t)) (rev st)"
    by (auto simp: stands_def)
  let ?t' = "t\<lparr>avl_root := avl_set_at (avl_root t) (rev st) y\<rparr>"
  have it': "avl_items ?t' = xs @ y # ys"
    using set_at_shape [of "avl_root t" "rev st" y] n inorder_put [OF n(1), of "BNode l y r"]
    by (simp add: avl_items_def)
  have "ordered cmp (xs @ d # ys)" using avl_forD(3) [OF assms(1)] it(1) by simp
  then have "ordered cmp (avl_items ?t')" unfolding it' using assms(3) by (simp add: ordered_split)
  then have "avl_for cmp ?t'"
    unfolding avl_for_def it' using avl_forD(1,2,5) [OF assms(1)] it(1) by (simp add: set_at_inv)
  then show ?thesis using it' st(1) it(2) by (auto simp: avl_t_replace_def)
qed

text \<open>Without memory the table stays as it is.\<close>

lemma aprobe_no_memory:
  assumes "avl_for cmp t" "length (avl_items t) < 2 ^ 22" "list_find cmp item (avl_items t) = None"
  shows "avl_probe False t item = Ok (A_no_memory, t)"
  using assms(1,2)
proof (cases rule: asearch_cases [where item = item])
  case (slot ys zs)
  then show ?thesis using avl_forD(1) [OF assms(1)] by (simp add: avl_probe_def)
qed (use assms(3) in simp)

end

end
