(* ===== verification/AVL_Copy.thy ===== *)
theory AVL_Copy
  imports AVL_Traverse
begin

text \<open>
  \<^verbatim>\<open>avl_copy\<close>: copying a table with a stack of pairs of an original node and its copy, a pair for
  each node whose left subtree is being copied.
\<close>

text \<open>
  A copied subtree, or the data fields that \<^verbatim>\<open>avl_destroy\<close> finds in what there is of it, in the
  order it meets them; those of the copies on the stack were never written.
\<close>

datatype 'b avl_copied = A_whole "'b avl_node" | A_broken "'b cell list"

text \<open>
  \<open>avl_copy_at alloc copy k t n\<close> copies the node \<open>t\<close>, for which there is a block already, and
  what is below it: \<open>k\<close> pairs are on the stack, \<open>n\<close> blocks have been asked for, and \<open>alloc n\<close>
  says whether the next request is granted.
\<close>

fun avl_copy_at ::
  "(nat \<Rightarrow> bool) \<Rightarrow> ('a \<Rightarrow> 'b option) \<Rightarrow> nat \<Rightarrow> 'a avl_node \<Rightarrow> nat \<Rightarrow> ('b avl_copied \<times> nat) outcome" where
  "avl_copy_at alloc copy k ANull n = Ok (A_whole ANull, n)"
| "avl_copy_at alloc copy k (ANode l x b r) n =
     obind
       (if l = ANull then Ok (A_whole ANull, n)
        else
          obind (check (2 * k < 2 * (AVL_MAX_HEIGHT + 1)) Assertion_failed)
            (\<lambda>_. if \<not> alloc n then Ok (A_broken [], n + 1)
                 else
                   obind (avl_copy_at alloc copy (k + 1) l (n + 1))
                     (\<lambda>(res, n). Ok
                       (case res of A_whole l' \<Rightarrow> A_whole l' | A_broken cs \<Rightarrow> A_broken (cs @ [Unset]), n))))
       (\<lambda>(res, n).
          case res of
            A_broken cs \<Rightarrow> Ok (A_broken cs, n)
          | A_whole l' \<Rightarrow>
              (case copy x of
                 None \<Rightarrow> Ok (A_broken (map Item (ainorder l')), n)
               | Some y \<Rightarrow>
                   if r = ANull then Ok (A_whole (ANode l' y b ANull), n)
                   else if \<not> alloc n then Ok (A_broken (map Item (ainorder l' @ [y])), n + 1)
                   else
                     obind (avl_copy_at alloc copy k r (n + 1))
                       (\<lambda>(res, n). Ok
                         (case res of
                            A_whole r' \<Rightarrow> A_whole (ANode l' y b r')
                          | A_broken cs \<Rightarrow> A_broken (map Item (ainorder l' @ [y]) @ cs), n))))"

text \<open>\<open>cmp\<close> is the comparison function of the original, for the items of the copy.\<close>

datatype 'b avl_copy_result = A_copied "'b avl_table" | A_copy_failed "'b cell list"

definition avl_copy ::
  "bool \<Rightarrow> (nat \<Rightarrow> bool) \<Rightarrow> ('a \<Rightarrow> 'b option) \<Rightarrow> ('b \<Rightarrow> 'b \<Rightarrow> int) \<Rightarrow> 'a avl_table \<Rightarrow>
   'b avl_copy_result outcome" where
  "avl_copy table_alloc alloc copy cmp org =
     (case avl_create table_alloc cmp of
        None \<Rightarrow> Ok (A_copy_failed [])
      | Some new \<Rightarrow>
          let new = new\<lparr>avl_count := avl_count org\<rparr> in
          if avl_count org = 0 then Ok (A_copied new)
          else if avl_root org = ANull then Fault Dangling_pointer
          else if \<not> alloc 0 then Ok (A_copy_failed [])
          else
            obind (avl_copy_at alloc copy 1 (avl_root org) 1)
              (\<lambda>(res, _). Ok
                (case res of
                   A_whole t \<Rightarrow> A_copied (new\<lparr>avl_root := t\<rparr>)
                 | A_broken cs \<Rightarrow> A_copy_failed cs)))"

fun map_avl :: "('a \<Rightarrow> 'b) \<Rightarrow> 'a avl_node \<Rightarrow> 'b avl_node" where
  "map_avl f ANull = ANull"
| "map_avl f (ANode l x b r) = ANode (map_avl f l) (f x) b (map_avl f r)"

lemma map_avl_simps [simp]:
  "map_avl f t = ANull \<longleftrightarrow> t = ANull" "ainorder (map_avl f t) = map f (ainorder t)"
  "aheight (map_avl f t) = aheight t"
proof -
  show "map_avl f t = ANull \<longleftrightarrow> t = ANull" by (cases t) simp_all
  show "ainorder (map_avl f t) = map f (ainorder t)" "aheight (map_avl f t) = aheight t"
    by (induction t) simp_all
qed

lemma map_avl_inv [simp]: "avl_inv (map_avl f t) = avl_inv t"
  by (induction t) simp_all

text \<open>The stack of pairs is deep enough, and without failures the copy is whole.\<close>

lemma avl_copy_at_ok:
  assumes "\<forall>x\<in>set (ainorder t). copy x = Some (f x)" "k + aheight t \<le> Suc AVL_MAX_HEIGHT"
  shows "\<exists>m. avl_copy_at (\<lambda>_. True) copy k t n = Ok (A_whole (map_avl f t), m)"
  using assms
proof (induction t arbitrary: k n)
  case (ANode l x b r)
  let ?l = "if l = ANull then Ok (A_whole ANull, n)
     else obind (check (2 * k < 2 * (AVL_MAX_HEIGHT + 1)) Assertion_failed)
       (\<lambda>_. if \<not> True then Ok (A_broken [], n + 1)
         else obind (avl_copy_at (\<lambda>_. True) copy (k + 1) l (n + 1))
           (\<lambda>(res, n). Ok (case res of A_whole l' \<Rightarrow> A_whole l' | A_broken cs \<Rightarrow> A_broken (cs @ [Unset]), n)))"
  have "\<exists>m. ?l = Ok (A_whole (map_avl f l), m)"
  proof (cases "l = ANull")
    case False
    then have "0 < aheight l" by (cases l) auto
    then have k: "2 * k < 2 * (AVL_MAX_HEIGHT + 1)" using ANode.prems(2) by auto
    have "k + 1 + aheight l \<le> Suc AVL_MAX_HEIGHT" "\<forall>x\<in>set (ainorder l). copy x = Some (f x)"
      using ANode.prems by auto
    then obtain m where "avl_copy_at (\<lambda>_. True) copy (k + 1) l (n + 1) = Ok (A_whole (map_avl f l), m)"
      using ANode.IH(1) by blast
    then show ?thesis using False k by (simp del: avl_copy_at.simps)
  qed simp
  then obtain m where m: "?l = Ok (A_whole (map_avl f l), m)" ..
  have "copy x = Some (f x)" using ANode.prems(1) by simp
  then have "avl_copy_at (\<lambda>_. True) copy k (ANode l x b r) n =
      (if r = ANull then Ok (A_whole (ANode (map_avl f l) (f x) b ANull), m)
       else obind (avl_copy_at (\<lambda>_. True) copy k r (m + 1))
         (\<lambda>(res, n). Ok (case res of A_whole r' \<Rightarrow> A_whole (ANode (map_avl f l) (f x) b r')
            | A_broken cs \<Rightarrow> A_broken (map Item (ainorder (map_avl f l) @ [f x]) @ cs), n)))"
    unfolding avl_copy_at.simps(2) m by simp
  moreover have "k + aheight r \<le> Suc AVL_MAX_HEIGHT" "\<forall>x\<in>set (ainorder r). copy x = Some (f x)"
    using ANode.prems by auto
  then obtain m' where "avl_copy_at (\<lambda>_. True) copy k r (m + 1) = Ok (A_whole (map_avl f r), m')"
    using ANode.IH(2) by blast
  ultimately show ?case by (cases "r = ANull") auto
qed simp

context keyed
begin

lemma avl_copy_ok:
  assumes "avl_for cmp t" "length (avl_items t) < 2 ^ 22" "\<forall>x\<in>set (avl_items t). copy x = Some (f x)"
  shows "\<exists>t'. avl_copy True (\<lambda>_. True) copy cmp' t = Ok (A_copied t') \<and> avl_root t' = map_avl f (avl_root t) \<and>
    avl_compare t' = cmp' \<and> avl_count t' = avl_count t"
proof -
  have "aheight (avl_root t) \<le> 31"
    using height_bounds(1) [OF avl_forD(2) [OF assms(1)]] assms(2) by (simp add: avl_items_def)
  then obtain m where m: "avl_copy_at (\<lambda>_. True) copy 1 (avl_root t) 1 = Ok (A_whole (map_avl f (avl_root t)), m)"
    using avl_copy_at_ok [of "avl_root t" copy f 1 1] assms(3) by (auto simp: avl_items_def AVL_MAX_HEIGHT_def)
  have "length (avl_items t) < 2 ^ 64" using assms(2) by simp
  then have "unat (avl_count t) = length (avl_items t)"
    using avl_forD(5) [OF assms(1)] by (simp add: unat_of_nat take_bit_nat_eq_self)
  then have c: "avl_count t = 0 \<longleftrightarrow> avl_root t = ANull"
    by (cases "avl_root t") (auto simp: avl_items_def unat_eq_zero [symmetric])
  show ?thesis
  proof (cases "avl_root t = ANull")
    case True
    then show ?thesis using c by (simp add: avl_copy_def avl_create_def)
  next
    case False
    then show ?thesis using c m by (simp add: avl_copy_def avl_create_def)
  qed
qed

end

end
