(* ===== verification/BST_Copy.thy ===== *)
theory BST_Copy
  imports BST_Traverse
begin

text \<open>
  \<^verbatim>\<open>bst_copy\<close>: copying a table with a stack of pairs of an original node and its copy, a pair
  for each node whose left subtree is being copied.  A tree that is too deep for the stack is
  balanced, and the copy starts again.
\<close>

section \<open>The copy\<close>

text \<open>
  The copy of a subtree, or what \<^verbatim>\<open>bst_destroy\<close> finds set in it after \<^verbatim>\<open>copy_error_recovery\<close>:
  after a failure (\<open>BBroken\<close>) or when the stack of pairs is full (\<open>BDeep\<close>).
\<close>

datatype 'b bst_copied = BWhole "'b bst_node" | BBroken "'b cell list" | BDeep "'b cell list"

fun bst_also :: "'b cell list \<Rightarrow> 'b cell list \<Rightarrow> 'b bst_copied \<Rightarrow> 'b bst_copied" where
  "bst_also before after (BWhole t) = BWhole t"
| "bst_also before after (BBroken cs) = BBroken (before @ cs @ after)"
| "bst_also before after (BDeep cs) = BDeep (before @ cs @ after)"

text \<open>
  \<open>bst_copy_at alloc copy k t n\<close> copies the node \<open>t\<close>, for which there is a block already, and
  what is below it: \<open>k\<close> pairs are on the stack, \<open>n\<close> blocks have been asked for, and
  \<open>alloc n\<close> says whether the next request is granted.
\<close>

fun bst_copy_at ::
  "(nat \<Rightarrow> bool) \<Rightarrow> ('a \<Rightarrow> 'b option) \<Rightarrow> nat \<Rightarrow> 'a bst_node \<Rightarrow> nat \<Rightarrow> 'b bst_copied \<times> nat" where
  "bst_copy_at alloc copy k BNull n = (BWhole BNull, n)"
| "bst_copy_at alloc copy k (BNode l x r) n =
     (case (if l = BNull then (BWhole BNull, n)
            else if 2 * k \<ge> 2 * (BST_MAX_HEIGHT + 1) then (BDeep [], n)
            else if \<not> alloc n then (BBroken [], n + 1)
            else map_prod (bst_also [] [Unset]) id (bst_copy_at alloc copy (k + 1) l (n + 1))) of
        (BWhole l', n) \<Rightarrow>
          (case copy x of
             None \<Rightarrow> (BBroken (map Item (bst_inorder l')), n)
           | Some y \<Rightarrow>
               if r = BNull then (BWhole (BNode l' y BNull), n)
               else if \<not> alloc n then (BBroken (map Item (bst_inorder l' @ [y])), n + 1)
               else
                 (case bst_copy_at alloc copy k r (n + 1) of
                    (BWhole r', n) \<Rightarrow> (BWhole (BNode l' y r'), n)
                  | (res, n) \<Rightarrow> (bst_also (map Item (bst_inorder l' @ [y])) [] res, n)))
      | (res, n) \<Rightarrow> (res, n))"

text \<open>
  The value lists the data fields handed to \<open>destroy\<close>, the new table if there is one, and the
  original, which balancing changes although it is declared \<open>const\<close>.
\<close>

partial_function (option) bst_copy ::
  "(nat \<Rightarrow> bool) \<Rightarrow> ('a \<Rightarrow> 'b option) \<Rightarrow> ('b \<Rightarrow> 'b \<Rightarrow> int) \<Rightarrow> 'a bst_table \<Rightarrow> nat \<Rightarrow>
   ('b cell list \<times> 'b bst_table option \<times> 'a bst_table) outcome option" where
  "bst_copy alloc copy cmp org n =
     (case bst_create (alloc n) cmp of
        None \<Rightarrow> Some (Ok ([], None, org))
      | Some new \<Rightarrow>
          (let new = new\<lparr>bst_count := bst_count org\<rparr> in
           if bst_count org = 0 then Some (Ok ([], Some new, org))
           else if bst_root org = BNull then Some (Fault Dangling_pointer)
           else if \<not> alloc (n + 1) then Some (Ok ([], None, org))
           else
             (case bst_copy_at alloc copy 1 (bst_root org) (n + 2) of
                (BWhole t, n) \<Rightarrow> Some (Ok ([], Some (new\<lparr>bst_root := t\<rparr>), org))
              | (BBroken cs, n) \<Rightarrow> Some (Ok (cs, None, org))
              | (BDeep cs, n) \<Rightarrow>
                  (case bst_balance org of
                     Ok org \<Rightarrow>
                       Option.bind (bst_copy alloc copy cmp org n)
                         (\<lambda>res. Some (obind res (\<lambda>(ds, new, org). Ok (cs @ ds, new, org))))
                   | Blocks \<Rightarrow> Some Blocks
                   | Fault f \<Rightarrow> Some (Fault f)))))"

section \<open>What it builds\<close>

fun map_bst :: "('a \<Rightarrow> 'b) \<Rightarrow> 'a bst_node \<Rightarrow> 'b bst_node" where
  "map_bst f BNull = BNull"
| "map_bst f (BNode l x r) = BNode (map_bst f l) (f x) (map_bst f r)"

lemma map_bst_simps [simp]:
  "bst_inorder (map_bst f t) = map f (bst_inorder t)" "bst_height (map_bst f t) = bst_height t"
  by (induction t) simp_all

lemma bst_copy_at_cases:
  assumes "\<forall>x\<in>set (bst_inorder t). copy x = Some (f x)"
  shows "\<exists>m. bst_copy_at (\<lambda>_. True) copy k t n = (BWhole (map_bst f t), m) \<or>
    (Suc BST_MAX_HEIGHT < k + bst_height t \<and> (\<exists>cs. bst_copy_at (\<lambda>_. True) copy k t n = (BDeep cs, m)))"
  using assms
proof (induction t arbitrary: k n)
  case (BNode l x r)
  let ?left = "if l = BNull then (BWhole BNull, n)
    else if 2 * k \<ge> 2 * (BST_MAX_HEIGHT + 1) then (BDeep [], n)
    else if \<not> True then (BBroken [], n + 1)
    else map_prod (bst_also [] [Unset]) id (bst_copy_at (\<lambda>_. True) copy (k + 1) l (n + 1))"
  obtain m where "?left = (BWhole (map_bst f l), m) \<or>
      (Suc BST_MAX_HEIGHT < k + bst_height (BNode l x r) \<and> (\<exists>cs. ?left = (BDeep cs, m)))"
  proof (cases "l = BNull")
    case False
    then have pos: "0 < bst_height l" by (cases l) auto
    show ?thesis
    proof (cases "2 * k \<ge> 2 * (BST_MAX_HEIGHT + 1)")
      case True
      then have "Suc BST_MAX_HEIGHT < k + bst_height (BNode l x r)" by simp
      then show ?thesis using that [of n] False True by simp
    next
      case k: False
      have "\<forall>x\<in>set (bst_inorder l). copy x = Some (f x)" using BNode.prems by simp
      then obtain m where m: "bst_copy_at (\<lambda>_. True) copy (k + 1) l (n + 1) = (BWhole (map_bst f l), m) \<or>
          (Suc BST_MAX_HEIGHT < k + 1 + bst_height l \<and>
           (\<exists>cs. bst_copy_at (\<lambda>_. True) copy (k + 1) l (n + 1) = (BDeep cs, m)))"
        using BNode.IH(1) by metis
      have "Suc BST_MAX_HEIGHT < k + bst_height (BNode l x r)" if "Suc BST_MAX_HEIGHT < k + 1 + bst_height l"
        using that by simp
      then show ?thesis using that [of m] m False k by auto
    qed
  qed (use that in simp)
  then consider (left) "?left = (BWhole (map_bst f l), m)"
    | (deep) cs where "Suc BST_MAX_HEIGHT < k + bst_height (BNode l x r)" "?left = (BDeep cs, m)" by blast
  then show ?case
  proof cases
    case left
    obtain m' where r: "bst_copy_at (\<lambda>_. True) copy k r (m + 1) = (BWhole (map_bst f r), m') \<or>
        (Suc BST_MAX_HEIGHT < k + bst_height r \<and> (\<exists>cs. bst_copy_at (\<lambda>_. True) copy k r (m + 1) = (BDeep cs, m')))"
      using BNode.IH(2) [of k "m + 1"] BNode.prems by auto
    have "bst_copy_at (\<lambda>_. True) copy k (BNode l x r) n =
      (if r = BNull then (BWhole (BNode (map_bst f l) (f x) BNull), m)
       else (case bst_copy_at (\<lambda>_. True) copy k r (m + 1) of
               (BWhole r', n) \<Rightarrow> (BWhole (BNode (map_bst f l) (f x) r'), n)
             | (res, n) \<Rightarrow> (bst_also (map Item (bst_inorder (map_bst f l) @ [f x])) [] res, n)))"
      unfolding bst_copy_at.simps(2) left using BNode.prems by simp
    then show ?thesis using r by (cases "r = BNull") auto
  next
    case deep
    then have "bst_copy_at (\<lambda>_. True) copy k (BNode l x r) n = (BDeep cs, m)"
      unfolding bst_copy_at.simps(2) deep(2) by simp
    then show ?thesis using deep(1) by blast
  qed
qed simp

text \<open>A tree in which the walk to the first item overflows a traverser is too deep to copy.\<close>

lemma bst_copy_at_deep:
  "bst_walk False t st = Overflow \<Longrightarrow> bst_copy_at (\<lambda>_. True) copy (Suc (length st)) t n =
     (BDeep (replicate (BST_MAX_HEIGHT - length st) Unset), n + (BST_MAX_HEIGHT - length st))"
proof (induction t arbitrary: st n)
  case (BNode l x r)
  then have l: "l \<noteq> BNull" by auto
  show ?case
  proof (cases "BST_MAX_HEIGHT \<le> length st")
    case False
    then have "bst_walk False l (False # st) = Overflow" using BNode.prems l by simp
    then have "bst_copy_at (\<lambda>_. True) copy (Suc (Suc (length st))) l (n + 1) =
        (BDeep (replicate (BST_MAX_HEIGHT - Suc (length st)) Unset), n + 1 + (BST_MAX_HEIGHT - Suc (length st)))"
      using BNode.IH(1) [of "False # st" "n + 1"] by simp
    moreover have "BST_MAX_HEIGHT - length st = Suc (BST_MAX_HEIGHT - Suc (length st))" using False by simp
    ultimately show ?thesis using l False by (simp add: replicate_append_same)
  qed (use l in simp)
qed simp

context keyed
begin

lemma bst_copy_ok:
  assumes "bst_for cmp org" "length (bst_items org) < 2 ^ 32" "\<forall>x\<in>set (bst_items org). copy x = Some (f x)"
  shows "\<exists>ds new org'. bst_copy (\<lambda>_. True) copy cmp' org n = Some (Ok (ds, Some new, org')) \<and>
    bst_root new = map_bst f (bst_root org') \<and> bst_compare new = cmp' \<and> bst_count new = bst_count org \<and>
    bst_for cmp org' \<and> bst_items org' = bst_items org \<and>
    (bst_walk False (bst_root org) [] = Overflow \<longrightarrow> ds = replicate BST_MAX_HEIGHT Unset)"
proof -
  have null: "bst_root org = BNull \<longleftrightarrow> bst_count org = 0"
    if "bst_for cmp org" "length (bst_items org) < 2 ^ 32" for org :: "'a bst_table"
  proof -
    have "bst_count org = 0 \<longleftrightarrow> length (bst_items org) = 0"
      using that by (auto simp: bst_for_def word_of_nat_eq_0_iff dest: dvd_imp_le)
    then show ?thesis by (cases "bst_root org") (simp_all add: bst_items_def)
  qed
  have whole: "\<exists>new. bst_copy (\<lambda>_. True) copy cmp' org n = Some (Ok ([], Some new, org)) \<and>
      bst_root new = map_bst f (bst_root org) \<and> bst_compare new = cmp' \<and> bst_count new = bst_count org"
    if "bst_for cmp org" "length (bst_items org) < 2 ^ 32"
      "bst_root org = BNull \<or> bst_copy_at (\<lambda>_. True) copy 1 (bst_root org) (n + 2) = (BWhole (map_bst f (bst_root org)), m)"
    for org n m
    using that(3) null [OF that(1,2)]
    by (subst bst_copy.simps) (auto simp: bst_create_def Let_def)
  obtain m where "bst_copy_at (\<lambda>_. True) copy 1 (bst_root org) (n + 2) = (BWhole (map_bst f (bst_root org)), m) \<or>
      (\<exists>cs. bst_copy_at (\<lambda>_. True) copy 1 (bst_root org) (n + 2) = (BDeep cs, m))"
    using bst_copy_at_cases [of "bst_root org" copy f 1 "n + 2"] assms(3) by (auto simp: bst_items_def)
  then show ?thesis
  proof (elim disjE exE)
    assume w: "bst_copy_at (\<lambda>_. True) copy 1 (bst_root org) (n + 2) = (BWhole (map_bst f (bst_root org)), m)"
    have "bst_walk False (bst_root org) [] \<noteq> Overflow"
      using bst_copy_at_deep [of "bst_root org" "[]" copy "n + 2"] w by auto
    then show ?thesis using whole [OF assms(1,2) disjI2 [OF w]] assms(1) by auto
  next
    fix cs assume d: "bst_copy_at (\<lambda>_. True) copy 1 (bst_root org) (n + 2) = (BDeep cs, m)"
    then have ne: "bst_root org \<noteq> BNull" by auto
    then have c: "bst_count org \<noteq> 0" using null [OF assms(1,2)] by simp
    obtain org' where b: "bst_balance org = Ok org'" "bst_for cmp org'" "bst_items org' = bst_items org"
      "bst_height (bst_root org') \<le> BST_MAX_HEIGHT"
      using balance_for [OF assms(1,2)] by blast
    obtain m' where "bst_copy_at (\<lambda>_. True) copy 1 (bst_root org') (m + 2) = (BWhole (map_bst f (bst_root org')), m')"
      using bst_copy_at_cases [of "bst_root org'" copy f 1 "m + 2"] assms(3) b(3,4) by (auto simp: bst_items_def)
    then obtain new where new: "bst_copy (\<lambda>_. True) copy cmp' org' m = Some (Ok ([], Some new, org'))"
      "bst_root new = map_bst f (bst_root org')" "bst_compare new = cmp'" "bst_count new = bst_count org'"
      using whole [OF b(2)] assms(2) b(3) by metis
    have "bst_count org' = bst_count org" using b(2,3) assms(1) by (simp add: bst_for_def)
    moreover have "bst_copy (\<lambda>_. True) copy cmp' org n = Some (Ok (cs, Some new, org'))"
      using d ne c b(1) new(1) by (subst bst_copy.simps) (simp add: bst_create_def Let_def)
    moreover have "bst_walk False (bst_root org) [] = Overflow \<longrightarrow> cs = replicate BST_MAX_HEIGHT Unset"
      using bst_copy_at_deep [of "bst_root org" "[]" copy "n + 2"] d by auto
    ultimately show ?thesis using new b by auto
  qed
qed

end

end
