(* ===== verification/BST_Correct.thy ===== *)
theory BST_Correct
  imports BST_Copy RB_Correct
begin

text \<open>
  What the tables of \<open>bst.c\<close> promise their users.  The tree of such a table may be as deep as
  it has items, and the operations that need a stack balance it when the stack is full: the
  properties below hold for every shape of the tree, and the witnesses use a tree that is too
  deep.
\<close>

section \<open>An instance\<close>

text \<open>A table of task ids keeps the contract of a table.\<close>

interpretation bst_ids: ordered_table "\<lambda>i :: int. i" cs_wp_cmp_tsk "bst_ok cs_wp_cmp_tsk" bst_items
  "\<lambda>t x. Ok (bst_insert True t x)" "\<lambda>t x. Ok (bst_replace True t x)" "\<lambda>t x. Ok (bst_delete t x)" bst_find
  by (rule keyed.bst_ordered_table [OF task_keys])

text \<open>The tree that is left when the ids from \<open>n - 1\<close> down to \<open>0\<close> are inserted in this order.\<close>

fun falling :: "nat \<Rightarrow> int bst_node" where
  "falling 0 = BNull"
| "falling (Suc n) = BNode (falling n) (int n) BNull"

definition deep_ids :: "int bst_table" where
  "deep_ids = \<lparr>bst_root = falling 40, bst_compare = cs_wp_cmp_tsk, bst_count = 40, bst_generation = 0\<rparr>"

lemma falling_inorder [simp]: "bst_inorder (falling n) = map int [0..<n]"
  by (induction n) simp_all

lemma deep_ids_ok: "bst_for cs_wp_cmp_tsk deep_ids" "bst_items deep_ids = map int [0..<40]"
proof -
  show i: "bst_items deep_ids = map int [0..<40]" by (simp add: deep_ids_def bst_items_def)
  have "sorted_wrt (<) (map (\<lambda>i. i) (map int [0..<40]))" by (simp add: sorted_wrt_map)
  then have "ordered cs_wp_cmp_tsk (bst_items deep_ids)" unfolding i by (simp only: tt.ordered_iff)
  then show "bst_for cs_wp_cmp_tsk deep_ids" unfolding bst_for_def i by (simp add: deep_ids_def)
qed

lemma falling_overflows:
  "length st \<le> BST_MAX_HEIGHT \<Longrightarrow> BST_MAX_HEIGHT < n + length st \<Longrightarrow> bst_walk False (falling (Suc n)) st = Overflow"
proof (induction n arbitrary: st)
  case (Suc n)
  then show ?case using Suc.IH [of "False # st"] by (cases "length st = BST_MAX_HEIGHT") auto
qed simp

lemma falling_stands:
  "stands (falling (Suc n + m)) (replicate m False) (map int [0..<n]) (int n) (map int [Suc n..<Suc n + m])"
proof (induction m)
  case (Suc m)
  have "rev (replicate (Suc m) False) = False # rev (replicate m False)"
    by (simp add: replicate_append_same)
  then show ?case using Suc by (simp add: stands_def)
qed (simp add: stands_def)

lemma deep_ids_overflows: "bst_walk False (bst_root deep_ids) [] = Overflow"
  using falling_overflows [of "[]" 39] by (simp add: deep_ids_def BST_MAX_HEIGHT_def numeral_eq_Suc)

section \<open>Properties\<close>

text \<open>
  C23.  Any sequence of insertions, replacements, deletions and searches on a new table answers
  as the same sequence on a map from keys to items does and leaves an ordered tree that
  represents the final map, whatever the shapes of the trees in between.
\<close>

theorem bst_refines_map:
  assumes "keyed key cmp"
  shows "\<exists>t as t'. bst_create True cmp = Some t \<and>
    table_run (\<lambda>t x. Ok (bst_insert True t x)) (\<lambda>t x. Ok (bst_replace True t x)) (\<lambda>t x. Ok (bst_delete t x))
      bst_find cs t = Ok (as, t') \<and> bst_for cmp t' \<and>
    map_run key cs Map.empty = (as, item_map key (bst_items t'))"
proof -
  obtain t where t: "bst_create True cmp = Some t" "bst_for cmp t" "bst_items t = []"
    by (simp add: bst_create_def bst_for_def bst_items_def ordered_def)
  then have "bst_ok cmp (length cs) t" by (simp add: bst_ok_def)
  from ordered_table.run_refines [OF keyed.bst_ordered_table [OF assms] this] t show ?thesis
    by (auto simp: bst_ok_def)
qed

lemma bst_refines_map_witness:
  "\<exists>t as t'. bst_create True cs_wp_cmp_tsk = Some t \<and>
     table_run (\<lambda>t x. Ok (bst_insert True t x)) (\<lambda>t x. Ok (bst_replace True t x)) (\<lambda>t x. Ok (bst_delete t x))
       bst_find [Insert 5, Insert 3, Insert 5, Find 3, Delete 5, Find 5] t = Ok (as, t') \<and>
     as = [None, None, None, Some 3, Some 5, None]"
  using bst_refines_map [OF task_keys, of "[Insert 5, Insert 3, Insert 5, Find 3, Delete 5, Find 5]"]
  by auto

text \<open>
  C24.  A loop with \<^verbatim>\<open>bst_t_next\<close> over a table of any shape ends: it returns every item
  exactly once, in strictly increasing order of the keys, and then null, although the tree may
  be balanced under the traverser on the way; the table still holds the same items.
\<close>

theorem bst_traversal_in_order:
  assumes "keyed key cmp" "bst_for cmp t" "length (bst_items t) < 2 ^ 32" "length (bst_items t) < n"
  shows "\<exists>xs t'. bst_collect n t (bst_t_init t) = Some (Ok (xs, t')) \<and> sorted_wrt (<) (map key xs) \<and>
    set xs = ran (item_map key (bst_items t)) \<and> bst_destroy t = xs \<and> bst_for cmp t' \<and> bst_items t' = xs"
proof -
  have s: "sorted_wrt (<) (map key (bst_items t))"
    using assms(2) by (simp add: bst_for_def keyed.ordered_iff [OF assms(1)])
  have "set (bst_items t) = ran (item_map key (bst_items t))"
    using assms(2) ordered_table.ran_item_map [OF keyed.bst_ordered_table [OF assms(1)]] by (simp add: bst_for_def)
  moreover have "bt_item (bst_t_init t) = None" by (simp add: bst_t_init_def)
  ultimately show ?thesis using keyed.bst_collect_all [OF assms(1-3) _ assms(4)] s
    by (fastforce simp: bst_destroy_def bst_destroy_inorder bst_items_def)
qed

lemma bst_traversal_in_order_witness:
  "\<exists>t'. bst_collect 50 deep_ids (bst_t_init deep_ids) = Some (Ok (map int [0..<40], t')) \<and>
     bst_walk False (bst_root deep_ids) [] = Overflow"
proof -
  have "bst_destroy deep_ids = map int [0..<40]"
    using deep_ids_ok(2) by (simp add: bst_destroy_def bst_destroy_inorder bst_items_def)
  then show ?thesis
    using bst_traversal_in_order [OF task_keys deep_ids_ok(1), of 50] deep_ids_overflows
    by (auto simp: deep_ids_ok(2))
qed

text \<open>
  C25.  \<^verbatim>\<open>bst_balance\<close> succeeds on a tree of any shape: it keeps the items in order, and the tree
  it leaves is as low as a tree of \<open>n\<close> items can be, so that it fits every stack.
\<close>

theorem bst_balance_optimal:
  assumes "bst_for cmp t" "length (bst_items t) < 2 ^ 32"
  shows "\<exists>t'. bst_balance t = Ok t' \<and> bst_for cmp t' \<and> bst_items t' = bst_items t \<and>
    bst_height (bst_root t') \<le> BST_MAX_HEIGHT \<and>
    (bst_items t = [] \<or> 2 ^ (bst_height (bst_root t') - 1) \<le> length (bst_items t))"
proof -
  have "bst_count t = of_nat (length (bst_items t))" using assms(1) by (simp add: bst_for_def)
  from bst_balance_ok [OF this assms(2)] obtain t' b where t: "bst_balance t = Ok t'" "bst_items t' = bst_items t"
    "bst_count t' = bst_count t" "bst_compare t' = bst_compare t" "bst_height (bst_root t') \<le> b"
    "b \<le> BST_MAX_HEIGHT" "0 < b \<longrightarrow> 2 ^ (b - 1) \<le> length (bst_items t)" by blast
  have "2 ^ (bst_height (bst_root t') - 1) \<le> length (bst_items t)" if "bst_items t \<noteq> []"
  proof (cases "b = 0")
    case True
    then show ?thesis using t(5) that by (cases "bst_items t") auto
  next
    case False
    have "(2 :: nat) ^ (bst_height (bst_root t') - 1) \<le> 2 ^ (b - 1)" using t(5) by (intro power_increasing) auto
    also have "\<dots> \<le> length (bst_items t)" using t(7) False by simp
    finally show ?thesis .
  qed
  then show ?thesis using t assms(1) by (auto simp: bst_for_def)
qed

lemma bst_balance_optimal_witness:
  "\<exists>t'. bst_balance deep_ids = Ok t' \<and> bst_items t' = map int [0..<40] \<and> 2 ^ (bst_height (bst_root t') - 1) \<le> (40 :: nat)"
  using bst_balance_optimal [OF deep_ids_ok(1)] by (auto simp: deep_ids_ok(2))

text \<open>
  \<^verbatim>\<open>bst_t_next\<close> from an item that is not the last arrives at the next larger item, and
  \<^verbatim>\<open>bst_t_prev\<close> from there comes back, also for a traverser that is older than the last
  balancing of the tree and when either step balances the tree again.
\<close>

theorem bst_next_prev:
  assumes "keyed key cmp" "bst_for cmp t" "length (bst_items t) < 2 ^ 32" "bt_good t xs x (y # ys) trav"
  shows "\<exists>trav' t' trav'' t''. bst_t_next t trav = Some (Ok (Some y, trav', t')) \<and>
    bst_t_prev t' trav' = Some (Ok (Some x, trav'', t'')) \<and> bst_t_cur trav'' = Some x \<and>
    bt_good t'' xs x (y # ys) trav'' \<and> bst_items t'' = bst_items t"
proof -
  obtain trav' t' where n: "bst_t_next t trav = Some (Ok (Some y, trav', t'))" "bst_for cmp t'"
    "bst_items t' = bst_items t" "bt_good t' (xs @ [x]) y ys trav'"
    using keyed.t_next_left [OF assms] by (auto simp: keyed.bt_left_def [OF assms(1)])
  have "length (bst_items t') < 2 ^ 32" using assms(3) n(3) by simp
  from keyed.t_prev_left [OF assms(1) n(2) this n(4)] n show ?thesis
    by (auto simp: keyed.bt_left_def [OF assms(1)] bst_t_cur_def bt_good_def)
qed

lemma bst_next_prev_witness:
  "\<exists>trav' t' trav'' t''. bst_t_next deep_ids \<lparr>bt_item = Some 7, bt_stack = [], bt_generation = 9\<rparr> =
       Some (Ok (Some 8, trav', t')) \<and> bst_t_prev t' trav' = Some (Ok (Some 7, trav'', t''))"
proof -
  have "stands (bst_root deep_ids) (replicate 32 False) (map int [0..<7]) 7 (8 # map int [9..<40])"
    using falling_stands [of 7 32] by (simp add: deep_ids_def)
  moreover have "bst_items deep_ids = map int [0..<7] @ 7 # 8 # map int [9..<40]"
    using stands_inorder [OF calculation] by (simp only: bst_items_def)
  ultimately have "bt_good deep_ids (map int [0..<7]) 7 (8 # map int [9..<40])
      \<lparr>bt_item = Some 7, bt_stack = [], bt_generation = 9\<rparr>"
    by (auto simp: bt_good_def deep_ids_def BST_MAX_HEIGHT_def intro!: exI [of _ "replicate 32 False"])
  then show ?thesis using bst_next_prev [OF task_keys deep_ids_ok(1)] by (fastforce simp: deep_ids_ok(2))
qed

text \<open>
  \<^verbatim>\<open>bst_t_insert\<close> of a new item leaves the traverser on the item, in its place in the
  order, in a table of any shape, and \<^verbatim>\<open>bst_t_next\<close> goes on with the next larger item, or with
  null when there is none.
\<close>

theorem bst_t_insert_then_next:
  assumes "keyed key cmp" "bst_for cmp t" "Suc (length (bst_items t)) < 2 ^ 32" "list_find cmp item (bst_items t) = None"
  shows "\<exists>xs ys trav t' trav' t''. bst_t_insert True t item = Some (Ok (Some item, trav, t')) \<and>
    bst_t_cur trav = Some item \<and> list_insert cmp item (bst_items t) = xs @ item # ys \<and> bst_items t' = xs @ item # ys \<and>
    bst_t_next t' trav = Some (Ok (if ys = [] then None else Some (hd ys), trav', t''))"
proof -
  obtain xs ys trav t' where i: "bst_t_insert True t item = Some (Ok (Some item, trav, t'))" "bst_for cmp t'"
    "bst_items t' = list_insert cmp item (bst_items t)" "bt_good t' xs item ys trav"
    using keyed.t_insert_left [OF assms(1,2) _ assms(4)] assms(3) by fastforce
  have "length (bst_items t') < 2 ^ 32" using assms(3) i(3) keyed.length_list_insert [OF assms(1,4)] by simp
  from keyed.t_next_left [OF assms(1) i(2) this i(4)]
  have "\<exists>trav' t''. bst_t_next t' trav = Some (Ok (if ys = [] then None else Some (hd ys), trav', t''))"
    by (cases ys) (auto simp: keyed.bt_left_def [OF assms(1)])
  moreover have "bst_items t' = xs @ item # ys" "bst_t_cur trav = Some item"
    using i(4) by (simp_all add: bt_good_def bst_t_cur_def)
  ultimately show ?thesis using i(1,3) by metis
qed

lemma bst_t_insert_then_next_witness:
  "\<exists>trav t'. bst_t_insert True deep_ids (- 1) = Some (Ok (Some (- 1), trav, t')) \<and> bst_t_cur trav = Some (- 1)"
proof -
  have "list_find cs_wp_cmp_tsk (- 1) (bst_items deep_ids) = None"
    by (simp add: list_find_def deep_ids_ok(2) find_None_iff cs_wp_cmp_tsk_def)
  moreover have "Suc (length (bst_items deep_ids)) < 2 ^ 32" by (simp add: deep_ids_ok(2))
  ultimately show ?thesis using bst_t_insert_then_next [OF task_keys deep_ids_ok(1)] by meson
qed

text \<open>
  \<^verbatim>\<open>bst_copy\<close>, when no allocation and no copy of an item fails, ends with a copy of the
  same shape as the original, whose items are the copies in the same order; the original keeps
  its items.  But when the left spine of the original has more nodes than the stack has room
  for, 32 data fields that were never written are handed to the user's destructor before the
  original is balanced and the copy starts again.
\<close>

theorem bst_copy_deep:
  assumes "keyed key cmp" "bst_for cmp org" "length (bst_items org) < 2 ^ 32"
    and "\<forall>x\<in>set (bst_items org). copy x = Some (f x)"
  shows "\<exists>ds new org'. bst_copy (\<lambda>_. True) copy cmp' org 0 = Some (Ok (ds, Some new, org')) \<and>
    bst_root new = map_bst f (bst_root org') \<and> bst_items new = map f (bst_items org) \<and>
    bst_compare new = cmp' \<and> bst_count new = bst_count org \<and> bst_for cmp org' \<and> bst_items org' = bst_items org \<and>
    (bst_walk False (bst_root org) [] = Overflow \<longrightarrow> ds = replicate 32 Unset)"
  using keyed.bst_copy_ok [OF assms, of cmp' 0] by (fastforce simp: bst_items_def BST_MAX_HEIGHT_def)

lemma bst_copy_deep_witness:
  "\<exists>new org'. bst_copy (\<lambda>_. True) (\<lambda>x. Some (x + 1)) cs_wp_cmp_tsk deep_ids 0 =
     Some (Ok (replicate 32 Unset, Some new, org')) \<and> bst_items new = map (\<lambda>i. int i + 1) [0..<40]"
  using bst_copy_deep [OF task_keys deep_ids_ok(1), of "\<lambda>x. Some (x + 1)" "\<lambda>x. x + 1" cs_wp_cmp_tsk]
    deep_ids_overflows by (auto simp: deep_ids_ok(2) comp_def)

end
