(* ===== verification/AVL_Correct.thy ===== *)
theory AVL_Correct
  imports AVL_Copy BST_Correct
begin

text \<open>
  What the tables of \<open>avl.c\<close> promise their users, and that the three kinds of tables that are
  modelled, red-black, AVL and unbalanced, can take each other's place.
\<close>

section \<open>An instance\<close>

text \<open>A table of task ids keeps the contract of a table.\<close>

interpretation avl_task: ordered_table "\<lambda>i :: int. i" cs_wp_cmp_tsk "avl_ok cs_wp_cmp_tsk" avl_items
  "avl_insert True" "avl_replace True" avl_delete avl_find
  by (rule keyed.avl_ordered_table [OF task_keys])

definition avl_ids :: "int avl_table" where
  "avl_ids = \<lparr>avl_root = ANode (ANode ANull 1 0 ANull) 3 1 (ANode ANull 5 1 (ANode ANull 7 0 ANull)),
     avl_compare = cs_wp_cmp_tsk, avl_count = 4, avl_generation = 3\<rparr>"

lemma avl_ids_ok: "avl_for cs_wp_cmp_tsk avl_ids" "avl_items avl_ids = [1, 3, 5, 7]"
  by (simp_all add: avl_ids_def avl_for_def avl_items_def ordered_def cs_wp_cmp_tsk_def)

text \<open>A traverser on the item 5.\<close>

definition at_five :: "int avl_traverser" where
  "at_five = \<lparr>at_item = Some 5, at_stack = [True], at_generation = 3\<rparr>"

lemma at_five_good: "avl_good avl_ids [1, 3] 5 [7] at_five"
  using avl_ids_ok(2)
  by (simp add: avl_good_def bt_good_def at_five_def stands_def BST_MAX_HEIGHT_def) (simp add: avl_ids_def stands_def)

lemma avl_create_ok:
  "\<exists>t. avl_create True cmp = Some t \<and> avl_for cmp t \<and> avl_items t = []"
  by (simp add: avl_create_def avl_for_def avl_items_def ordered_def)

section \<open>Properties\<close>

text \<open>
  C33.  Any sequence of fewer than \<open>2 ^ 22\<close> insertions, replacements, deletions and searches on a
  new AVL table runs without fault (no assertion about a balance factor fails and the stacks of
  32 entries never overflow), answers as the same sequence on a map from keys to items does, and
  leaves an ordered tree that represents the final map and has at least as many items as the
  thinnest AVL tree of its height.
\<close>

theorem avl_refines_map:
  assumes "keyed key cmp" "length cs < 2 ^ 22"
  shows "\<exists>t as t'. avl_create True cmp = Some t \<and>
    table_run (avl_insert True) (avl_replace True) avl_delete avl_find cs t = Ok (as, t') \<and> avl_for cmp t' \<and>
    map_run key cs Map.empty = (as, item_map key (avl_items t')) \<and>
    avl_fewest (aheight (avl_root t')) \<le> length (avl_items t') \<and> aheight (avl_root t') \<le> 31"
proof -
  obtain t where t: "avl_create True cmp = Some t" "avl_for cmp t" "avl_items t = []" using avl_create_ok by blast
  then have "avl_ok cmp (length cs) t" using assms(2) by (simp add: avl_ok_def)
  from ordered_table.run_refines [OF keyed.avl_ordered_table [OF assms(1)] this] obtain as t' where r:
    "table_run (avl_insert True) (avl_replace True) avl_delete avl_find cs t = Ok (as, t')" "avl_ok cmp 0 t'"
    "map_run key cs (item_map key (avl_items t)) = (as, item_map key (avl_items t'))" by blast
  have "avl_inv (avl_root t')" "length (ainorder (avl_root t')) < 2 ^ 22"
    using r(2) avl_forD(2) by (auto simp: avl_ok_def avl_items_def)
  then show ?thesis using t r fewest_items height_bounds(1) by (auto simp: avl_ok_def avl_items_def)
qed

lemma avl_refines_map_witness:
  "\<exists>t as t'. avl_create True cs_wp_cmp_tsk = Some t \<and>
     table_run (avl_insert True) (avl_replace True) avl_delete avl_find
       [Insert 5, Insert 3, Insert 5, Find 3, Delete 5, Find 5] t = Ok (as, t') \<and>
     as = [None, None, None, Some 3, Some 5, None]"
  using avl_refines_map [OF task_keys, of "[Insert 5, Insert 3, Insert 5, Find 3, Delete 5, Find 5]"]
  by auto

text \<open>
  C36.  Red-black, AVL and unbalanced tables can take each other's place: the same sequence of
  calls gives the same answers on all three and leaves the same items in the same order, which
  the three destructors hand over alike.
\<close>

theorem tables_agree:
  assumes "keyed key cmp" "length cs < 2 ^ 22"
  shows "\<exists>r a b as r' a' b'. rb_create True cmp = Some r \<and> avl_create True cmp = Some a \<and> bst_create True cmp = Some b \<and>
    table_run (rb_insert True) (rb_replace True) rb_delete rb_find cs r = Ok (as, r') \<and>
    table_run (avl_insert True) (avl_replace True) avl_delete avl_find cs a = Ok (as, a') \<and>
    table_run (\<lambda>t x. Ok (bst_insert True t x)) (\<lambda>t x. Ok (bst_replace True t x)) (\<lambda>t x. Ok (bst_delete t x))
      bst_find cs b = Ok (as, b') \<and>
    rb_destroy r' = avl_destroy a' \<and> avl_destroy a' = bst_destroy b'"
proof -
  note rb = keyed.rb_ordered_table [OF assms(1)] and avl = keyed.avl_ordered_table [OF assms(1)]
    and bst = keyed.bst_ordered_table [OF assms(1)]
  obtain a b where t: "avl_create True cmp = Some a" "avl_for cmp a" "avl_items a = []"
    "bst_create True cmp = Some b" "bst_for cmp b" "bst_items b = []"
    using avl_create_ok [of cmp] by (auto simp: bst_create_def bst_for_def bst_items_def ordered_def)
  have ok: "rb_ok cmp (length cs) (empty_table cmp)" "avl_ok cmp (length cs) a" "bst_ok cmp (length cs) b"
    using t assms(2) by (simp_all add: rb_ok_def avl_ok_def bst_ok_def empty_table_ok)
  from ordered_table.run_refines [OF rb ok(1)] obtain as1 r' where r:
    "table_run (rb_insert True) (rb_replace True) rb_delete rb_find cs (empty_table cmp) = Ok (as1, r')" "rb_ok cmp 0 r'"
    "map_run key cs Map.empty = (as1, item_map key (items r'))" by (auto simp: empty_table_ok)
  from ordered_table.run_refines [OF avl ok(2)] obtain as2 a' where a:
    "table_run (avl_insert True) (avl_replace True) avl_delete avl_find cs a = Ok (as2, a')" "avl_ok cmp 0 a'"
    "map_run key cs Map.empty = (as2, item_map key (avl_items a'))" by (auto simp: t)
  from ordered_table.run_refines [OF bst ok(3)] obtain as3 b' where b:
    "table_run (\<lambda>t x. Ok (bst_insert True t x)) (\<lambda>t x. Ok (bst_replace True t x)) (\<lambda>t x. Ok (bst_delete t x))
      bst_find cs b = Ok (as3, b')" "bst_ok cmp 0 b'"
    "map_run key cs Map.empty = (as3, item_map key (bst_items b'))" by (auto simp: t)
  have o: "ordered cmp (items r')" "ordered cmp (avl_items a')" "ordered cmp (bst_items b')"
    using ordered_table.items_ordered [OF rb r(2)] ordered_table.items_ordered [OF avl a(2)]
      ordered_table.items_ordered [OF bst b(2)] by auto
  have m: "as2 = as1" "item_map key (items r') = item_map key (avl_items a')"
    "as3 = as1" "item_map key (avl_items a') = item_map key (bst_items b')"
    using trans [OF r(3) [symmetric] a(3)] trans [OF r(3) [symmetric] b(3)] by simp_all
  have "items r' = avl_items a'" by (rule ordered_table.items_of_map [OF rb o(1,2) m(2)])
  then have "rb_destroy r' = avl_destroy a'"
    by (simp add: rb_destroy_def destroy_inorder items_def avl_destroy_def avl_destroy_inorder avl_items_def)
  moreover have "avl_items a' = bst_items b'" by (rule ordered_table.items_of_map [OF rb o(2,3) m(4)])
  then have "avl_destroy a' = bst_destroy b'"
    by (simp add: avl_destroy_def avl_destroy_inorder avl_items_def bst_destroy_def bst_destroy_inorder bst_items_def)
  ultimately show ?thesis
    using r(1) a(1) b(1) t(1,4) rb_create_empty [of cmp] unfolding m(1,3) by blast
qed

lemma tables_agree_witness:
  "\<exists>r a b as r' a' b'. table_run (rb_insert True) (rb_replace True) rb_delete rb_find
       [Insert 5, Insert 3, Replace 5, Delete 3, Find 5] r = Ok (as, r') \<and>
     table_run (avl_insert True) (avl_replace True) avl_delete avl_find
       [Insert 5, Insert 3, Replace 5, Delete 3, Find 5] a = Ok (as, a') \<and> rb_create True cs_wp_cmp_tsk = Some r \<and>
     avl_create True cs_wp_cmp_tsk = Some a \<and> bst_create True cs_wp_cmp_tsk = Some b \<and>
     rb_destroy r' = avl_destroy a' \<and> avl_destroy a' = bst_destroy b'"
proof -
  have "length [Insert 5, Insert 3, Replace (5 :: int), Delete 3, Find 5] < 2 ^ 22" by simp
  from tables_agree [OF task_keys this] show ?thesis by blast
qed

text \<open>
  C34.  Well-formedness: every operation of \<open>avl.c\<close> that changes a table, with or without memory
  for a new node, takes a valid table to a valid table, in which every balance factor is the
  difference of the heights of the two subtrees, the items are in order and the count is right;
  so does \<^verbatim>\<open>avl_t_replace\<close> through any usable traverser, when the new item has the key of the old.
\<close>

theorem avl_stays_valid:
  assumes "keyed key cmp" "avl_for cmp t" "length (avl_items t) < 2 ^ 22"
  shows "(\<exists>x t'. avl_insert alloc t item = Ok (x, t') \<and> avl_for cmp t') \<and>
    (\<exists>x t'. avl_replace alloc t item = Ok (x, t') \<and> avl_for cmp t') \<and>
    (\<exists>x t'. avl_delete t item = Ok (x, t') \<and> avl_for cmp t') \<and>
    (\<exists>x trav' t'. avl_t_insert alloc trav t item = Ok (x, trav', t') \<and> avl_for cmp t') \<and>
    (avl_good t xs d ys trav \<and> key y = key d \<longrightarrow>
      (\<exists>t' trav'. avl_t_replace t trav y = Ok (d, t', trav') \<and> avl_for cmp t' \<and> avl_items t' = xs @ y # ys))"
proof -
  note old = keyed.aprobe_old [OF assms, of item _ alloc] and new = keyed.aprobe_new [OF assms, of item]
    and none = keyed.aprobe_no_memory [OF assms, of item]
  have probe: "\<exists>p t'. avl_probe alloc t item = Ok (p, t') \<and> avl_for cmp t'"
    using old new none assms(2) by (cases "list_find cmp item (avl_items t)"; cases alloc) auto
  then have "\<exists>x t'. avl_insert alloc t item = Ok (x, t') \<and> avl_for cmp t'"
    "\<exists>x trav' t'. avl_t_insert alloc trav t item = Ok (x, trav', t') \<and> avl_for cmp t'"
    by (auto simp: avl_insert_def avl_t_insert_def Let_def split: avl_slot.splits)
  moreover have "\<exists>x t'. avl_replace alloc t item = Ok (x, t') \<and> avl_for cmp t'"
  proof (cases "list_find cmp item (avl_items t)")
    case None
    then show ?thesis using keyed.avl_replace_new [OF assms None] none assms(2)
      by (cases alloc) (auto simp: avl_replace_def)
  next
    case (Some d)
    then show ?thesis using keyed.avl_replace_old [OF assms Some, of alloc] by auto
  qed
  moreover have "\<exists>x t'. avl_delete t item = Ok (x, t') \<and> avl_for cmp t'"
    using keyed.avl_delete_items [OF assms, of item] by auto
  moreover have "\<exists>t' trav'. avl_t_replace t trav y = Ok (d, t', trav') \<and> avl_for cmp t' \<and> avl_items t' = xs @ y # ys"
    if "avl_good t xs d ys trav" "key y = key d"
    using keyed.at_replace_ok [OF assms(1,2) that] .
  ultimately show ?thesis by blast
qed

lemma avl_stays_valid_witness:
  "(\<exists>x t'. avl_insert False avl_ids 4 = Ok (x, t') \<and> avl_for cs_wp_cmp_tsk t') \<and>
   (\<exists>t' trav'. avl_t_replace avl_ids at_five 5 = Ok (5, t', trav') \<and> avl_items t' = [1, 3, 5, 7])"
proof -
  have l: "length (avl_items avl_ids) < 2 ^ 22" by (simp add: avl_ids_ok(2))
  from avl_stays_valid [OF task_keys avl_ids_ok(1) l, of False 4 at_five "[1, 3]" 5 "[7]" 5] at_five_good
  show ?thesis by auto
qed

text \<open>
  A loop with \<^verbatim>\<open>avl_t_next\<close> over a valid table returns every item exactly once, in
  strictly increasing order of the keys, and then null; \<^verbatim>\<open>avl_destroy\<close> hands over the items in
  the same order, and \<^verbatim>\<open>avl_copy\<close>, when nothing fails, builds a table of the copied items in the
  same order and the same shape.
\<close>

theorem avl_traversal_in_order:
  assumes "keyed key cmp" "avl_for cmp t" "length (avl_items t) < 2 ^ 22" "length (avl_items t) < n"
    and "\<forall>x\<in>set (avl_items t). copy x = Some (f x)"
  shows "\<exists>xs t'. avl_collect n t (avl_t_init t) = Ok xs \<and> avl_destroy t = xs \<and>
    sorted_wrt (<) (map key xs) \<and> set xs = ran (item_map key (avl_items t)) \<and>
    avl_copy True (\<lambda>_. True) copy cmp' t = Ok (A_copied t') \<and> avl_destroy t' = map f xs \<and>
    avl_root t' = map_avl f (avl_root t)"
proof -
  have o: "ordered cmp (avl_items t)" by (rule avl_forD(3) [OF assms(2)])
  then have "sorted_wrt (<) (map key (avl_items t))" by (simp only: keyed.ordered_iff [OF assms(1)])
  moreover have "set (avl_items t) = ran (item_map key (avl_items t))"
    using ordered_table.ran_item_map [OF keyed.avl_ordered_table [OF assms(1)] o] by simp
  moreover obtain t' where "avl_copy True (\<lambda>_. True) copy cmp' t = Ok (A_copied t')" "avl_root t' = map_avl f (avl_root t)"
    using keyed.avl_copy_ok [OF assms(1-3,5), of cmp'] by blast
  moreover have "avl_collect n t (avl_t_init t) = Ok (avl_items t)"
    by (rule keyed.avl_collect_all [OF assms(1,2) _ assms(4)]) (use assms(3) in simp)
  ultimately show ?thesis by (auto simp: avl_destroy_def avl_destroy_inorder avl_items_def)
qed

lemma avl_traversal_in_order_witness:
  "\<exists>t'. avl_collect 5 avl_ids (avl_t_init avl_ids) = Ok [1, 3, 5, 7] \<and>
     avl_copy True (\<lambda>_. True) (\<lambda>x. Some (x + 1)) cs_wp_cmp_tsk avl_ids = Ok (A_copied t') \<and> avl_destroy t' = [2, 4, 6, 8]"
proof -
  have "avl_destroy avl_ids = [1, 3, 5, 7]"
    using avl_ids_ok(2) by (simp add: avl_destroy_def avl_destroy_inorder avl_items_def)
  then show ?thesis
    using avl_traversal_in_order [OF task_keys avl_ids_ok(1), of 5 "\<lambda>x. Some (x + 1)" "\<lambda>x. x + 1" cs_wp_cmp_tsk]
    by (auto simp: avl_ids_ok(2))
qed

text \<open>
  C35.  A traverser survives changes of the table: after an insertion (whether or not it rotates
  the tree, which the generation number tells the traverser) or after the deletion of another
  item, \<^verbatim>\<open>avl_t_next\<close> arrives at the smallest item of the changed table that is larger than the
  item of the traverser, or at null when there is none; the same holds for the traverser that
  \<^verbatim>\<open>avl_t_insert\<close> leaves on the inserted item without setting up its stack.
\<close>

theorem avl_traverser_survives:
  assumes "keyed key cmp" "avl_for cmp t" "length (avl_items t) < 2 ^ 22"
    and "avl_good t xs d ys trav" "at_generation trav = avl_generation t"
  shows "(list_find cmp item (avl_items t) = None \<longrightarrow>
      (\<exists>t' trav'. avl_insert True t item = Ok (None, t') \<and> avl_items t' = list_insert cmp item (avl_items t) \<and>
        avl_t_next t' trav = Ok (find (\<lambda>z. key d < key z) (avl_items t'), trav')) \<and>
      (\<exists>t' trav' trav''. avl_t_insert True any t item = Ok (Some item, trav', t') \<and>
        avl_t_next t' trav' = Ok (find (\<lambda>z. key item < key z) (avl_items t'), trav''))) \<and>
    (cmp item d \<noteq> 0 \<longrightarrow>
      (\<exists>e t' trav'. avl_delete t item = Ok (e, t') \<and> avl_items t' = list_delete cmp item (avl_items t) \<and>
        avl_t_next t' trav = Ok (find (\<lambda>z. key d < key z) (avl_items t'), trav')))"
proof (intro conjI impI)
  assume none: "list_find cmp item (avl_items t) = None"
  obtain t' where t': "avl_probe True t item = Ok (A_new_slot, t')" "avl_for cmp t'"
    "avl_items t' = list_insert cmp item (avl_items t)"
    using keyed.aprobe_new [OF assms(1-3) none] by blast
  have len: "length (avl_items t') \<le> 2 ^ 22"
    using t'(3) keyed.length_list_insert [OF assms(1) none] assms(3) by simp
  obtain xs' ys' where "avl_good t' xs' d ys' trav"
    using keyed.insert_keeps [OF assms(1-3) none assms(4,5) t'(1)] by blast
  from keyed.next_in_order [OF assms(1) t'(2) len this]
  show "\<exists>t' trav'. avl_insert True t item = Ok (None, t') \<and> avl_items t' = list_insert cmp item (avl_items t) \<and>
      avl_t_next t' trav = Ok (find (\<lambda>z. key d < key z) (avl_items t'), trav')"
    using t' by (auto simp: avl_insert_def)
  obtain t2 trav' xs2 ys2 where i: "avl_t_insert True any t item = Ok (Some item, trav', t2)" "avl_for cmp t2"
    "avl_items t2 = list_insert cmp item (avl_items t)" "avl_good t2 xs2 item ys2 trav'"
    using keyed.at_insert_good [OF assms(1-3) none] by blast
  have "length (avl_items t2) \<le> 2 ^ 22" using len i(3) t'(3) by simp
  from keyed.next_in_order [OF assms(1) i(2) this i(4)] i(1)
  show "\<exists>t' trav' trav''. avl_t_insert True any t item = Ok (Some item, trav', t') \<and>
      avl_t_next t' trav' = Ok (find (\<lambda>z. key item < key z) (avl_items t'), trav'')"
    by blast
next
  assume other: "cmp item d \<noteq> 0"
  obtain t' where t': "avl_delete t item = Ok (list_find cmp item (avl_items t), t')" "avl_for cmp t'"
    "avl_items t' = list_delete cmp item (avl_items t)"
    using keyed.avl_delete_items [OF assms(1-3)] by blast
  have len: "length (avl_items t') \<le> 2 ^ 22"
    using assms(3) length_filter_le [of "\<lambda>y. cmp item y \<noteq> 0" "avl_items t"] unfolding t'(3) list_delete_def by linarith
  have "\<exists>xs' ys'. avl_good t' xs' d ys' trav"
  proof (cases "list_find cmp item (avl_items t)")
    case None
    then have "t' = t" using t'(1) keyed.asearch_absent [OF assms(1-3) None] by simp
    then show ?thesis using assms(4) by blast
  next
    case (Some e)
    then show ?thesis using keyed.delete_keeps [OF assms(1-3,4,5) other] t'(1) by simp
  qed
  then show "\<exists>e t' trav'. avl_delete t item = Ok (e, t') \<and> avl_items t' = list_delete cmp item (avl_items t) \<and>
      avl_t_next t' trav = Ok (find (\<lambda>z. key d < key z) (avl_items t'), trav')"
    using keyed.next_in_order [OF assms(1) t'(2) len] t'(1,3) by blast
qed

lemma avl_traverser_survives_witness:
  "(\<exists>t' trav'. avl_insert True avl_ids 6 = Ok (None, t') \<and> avl_t_next t' at_five = Ok (Some 6, trav')) \<and>
   (\<exists>e t' trav'. avl_delete avl_ids 7 = Ok (e, t') \<and> avl_t_next t' at_five = Ok (None, trav'))"
proof -
  have l: "length (avl_items avl_ids) < 2 ^ 22" by (simp add: avl_ids_ok(2))
  have g: "at_generation at_five = avl_generation avl_ids" by (simp add: at_five_def avl_ids_def)
  have c: "list_find cs_wp_cmp_tsk 6 [1, 3, 5, 7] = None" "list_insert cs_wp_cmp_tsk 6 [1, 3, 5, 7] = [1, 3, 5, 6, 7]"
    "cs_wp_cmp_tsk 7 5 \<noteq> 0" "list_delete cs_wp_cmp_tsk 7 [1, 3, 5, 7] = [1, 3, 5]"
    by (simp_all add: list_find_def list_delete_def cs_wp_cmp_tsk_def)
  note s = avl_traverser_survives [OF task_keys avl_ids_ok(1) l at_five_good g, unfolded avl_ids_ok(2)]
  have "\<exists>t' trav'. avl_insert True avl_ids 6 = Ok (None, t') \<and> avl_t_next t' at_five = Ok (Some 6, trav')"
    using s [of 6 at_five] c(1,2) by fastforce
  moreover have "\<exists>e t' trav'. avl_delete avl_ids 7 = Ok (e, t') \<and> avl_t_next t' at_five = Ok (None, trav')"
    using s [of 7 at_five] c(3,4) by fastforce
  ultimately show ?thesis by blast
qed

end
