(* ===== verification/Heap_Prog.thy ===== *)
theory Heap_Prog
  imports CS_Prelude
begin

text \<open>
  Programs on an explicit heap, for the trees of the library whose nodes are shared by several
  pointers (threads, parents).

  A heap maps addresses to nodes; an address that is not in its domain is free.  A pointer is
  an \<open>addr option\<close>, with \<open>None\<close> for the null pointer.  A loop that follows pointers need not end, so
  the value of a program is an \<open>outcome option\<close>: \<open>None\<close> when it never returns.  What
  \<open>malloc\<close> answers for a heap is an argument of the programs; the assumption \<open>allocator\<close> is what they
  rely on: a block is free when it is handed out.
\<close>

section \<open>Programs\<close>

type_synonym 'n heap = "addr \<Rightarrow> 'n option"
type_synonym 'a prog = "'a outcome option"

definition pbind :: "'a prog \<Rightarrow> ('a \<Rightarrow> 'b prog) \<Rightarrow> 'b prog" where
  "pbind m f = Option.bind m (\<lambda>x. case x of Ok y \<Rightarrow> f y | Blocks \<Rightarrow> Some Blocks | Fault e \<Rightarrow> Some (Fault e))"

definition pret :: "'a \<Rightarrow> 'a prog" where
  "pret x = Some (Ok x)"

definition pfault :: "fault \<Rightarrow> 'a prog" where
  "pfault e = Some (Fault e)"

lemma pbind_mono [partial_function_mono]:
  assumes "mono_option B" and "\<And>y. mono_option (\<lambda>f. C y f)"
  shows "mono_option (\<lambda>f. pbind (B f) (\<lambda>y. C y f))"
  unfolding pbind_def
proof (rule bind_mono [OF assms(1)])
  fix x
  show "mono_option (\<lambda>f. case x of Ok y \<Rightarrow> C y f | Blocks \<Rightarrow> Some Blocks | Fault e \<Rightarrow> Some (Fault e))"
    using assms(2) by (cases x) (auto intro: partial_function_mono)
qed

lemma pbind_pret [simp]: "pbind (pret x) f = f x"
  by (simp add: pbind_def pret_def)

lemma pbind_pfault [simp]: "pbind (pfault e) f = pfault e"
  by (simp add: pbind_def pfault_def)

lemma pbind_assoc: "pbind (pbind m f) g = pbind m (\<lambda>x. pbind (f x) g)"
  by (simp add: pbind_def split: Option.bind_split outcome.splits)

lemma pret_inject [simp]: "pret x = pret y \<longleftrightarrow> x = y"
  by (simp add: pret_def)

lemma pret_not_pfault [simp]: "pret x \<noteq> pfault e" "pfault e \<noteq> pret x"
  by (simp_all add: pret_def pfault_def)

text \<open>What the caller of a program sees: a program that never returns keeps it.\<close>

definition outcome_of :: "'a prog \<Rightarrow> 'a outcome" where
  "outcome_of m = (case m of None \<Rightarrow> Blocks | Some x \<Rightarrow> x)"

lemma outcome_of_pret [simp]: "outcome_of (pret x) = Ok x"
  by (simp add: outcome_of_def pret_def)

lemma outcome_of_Ok: "outcome_of m = Ok x \<longleftrightarrow> m = pret x"
  by (auto simp: outcome_of_def pret_def split: option.splits)

section \<open>Memory\<close>

definition fetch :: "'n heap \<Rightarrow> addr option \<Rightarrow> 'n prog" where
  "fetch h p = (case p of
     None \<Rightarrow> pfault Null_dereference
   | Some a \<Rightarrow> (case h a of None \<Rightarrow> pfault Dangling_pointer | Some n \<Rightarrow> pret n))"

definition release :: "'n heap \<Rightarrow> addr option \<Rightarrow> 'n heap prog" where
  "release h p = (case p of
     None \<Rightarrow> pret h
   | Some a \<Rightarrow> (case h a of None \<Rightarrow> pfault Double_free | Some n \<Rightarrow> pret (h(a := None))))"

text \<open>An assignment to a field of the node at an address.\<close>

definition assign :: "'n heap \<Rightarrow> addr option \<Rightarrow> ('n \<Rightarrow> 'n) \<Rightarrow> 'n heap prog" where
  "assign h p f = (case p of
     None \<Rightarrow> pfault Null_dereference
   | Some a \<Rightarrow> (case h a of None \<Rightarrow> pfault Dangling_pointer | Some n \<Rightarrow> pret (h(a \<mapsto> f n))))"

definition allocator :: "('n heap \<Rightarrow> addr option) \<Rightarrow> bool" where
  "allocator malloc \<longleftrightarrow> (\<forall>h a. malloc h = Some a \<longrightarrow> h a = None)"

lemma fetch_Some [simp]: "h a = Some n \<Longrightarrow> fetch h (Some a) = pret n"
  by (simp add: fetch_def)

lemma assign_Some [simp]: "h a = Some n \<Longrightarrow> assign h (Some a) f = pret (h(a \<mapsto> f n))"
  by (simp add: assign_def)

lemma release_Some [simp]: "h a = Some n \<Longrightarrow> release h (Some a) = pret (h(a := None))"
  by (simp add: release_def)

lemma allocatorD: "allocator malloc \<Longrightarrow> malloc h = Some a \<Longrightarrow> h a = None"
  by (simp add: allocator_def)

text \<open>Two heaps agree on a set of addresses.\<close>

definition agree :: "addr set \<Rightarrow> 'n heap \<Rightarrow> 'n heap \<Rightarrow> bool" where
  "agree A h h' \<longleftrightarrow> (\<forall>a\<in>A. h' a = h a)"

lemma agree_refl [simp]: "agree A h h"
  by (simp add: agree_def)

lemma agree_trans: "agree A h h' \<Longrightarrow> agree A h' h'' \<Longrightarrow> agree A h h''"
  by (simp add: agree_def)

lemma agree_subset: "agree A h h' \<Longrightarrow> B \<subseteq> A \<Longrightarrow> agree B h h'"
  by (auto simp: agree_def)

lemma agree_Un [simp]: "agree (A \<union> B) h h' \<longleftrightarrow> agree A h h' \<and> agree B h h'"
  by (auto simp: agree_def)

lemma agree_upd: "a \<notin> A \<Longrightarrow> agree A h (h'(a := x)) \<longleftrightarrow> agree A h h'"
  by (auto simp: agree_def)

lemma agree_upd_left: "a \<notin> A \<Longrightarrow> agree A (h(a := x)) h' \<longleftrightarrow> agree A h h'"
  by (auto simp: agree_def)

lemma agreeD: "agree A h h' \<Longrightarrow> a \<in> A \<Longrightarrow> h' a = h a"
  by (simp add: agree_def)

text \<open>There is always memory; blocks are free when they are handed out.\<close>

definition memory :: "('n heap \<Rightarrow> addr option) \<Rightarrow> bool" where
  "memory malloc \<longleftrightarrow> (\<forall>h. finite (dom h) \<longrightarrow> (\<exists>a. malloc h = Some a \<and> h a = None))"

text \<open>A memory that hands out the lowest free block.\<close>

partial_function (option) lowest_free :: "'n heap \<Rightarrow> addr \<Rightarrow> addr option" where
  "lowest_free h a = (if h a = None then Some a else lowest_free h (Suc a))"

definition first_fit :: "'n heap \<Rightarrow> addr option" where
  "first_fit h = lowest_free h 0"

lemma lowest_free_ends: "h (a + k) = None \<Longrightarrow> \<exists>b. lowest_free h a = Some b \<and> h b = None"
proof (induction k arbitrary: a)
  case (Suc k)
  then show ?case using Suc.IH [of "Suc a"] by (cases "h a = None") (simp_all add: lowest_free.simps [of h a])
qed (simp add: lowest_free.simps)

lemma first_fit_allocator: "allocator (first_fit :: 'n heap \<Rightarrow> addr option)"
proof -
  have "lowest_free h a = Some b \<Longrightarrow> h b = None" for h :: "'n heap" and a b
  proof (erule lowest_free.raw_induct [where P = "\<lambda>h a b. h b = None", rotated])
    fix f :: "'n heap \<Rightarrow> addr \<Rightarrow> addr option" and h :: "'n heap" and a b
    assume "\<And>h a b. f h a = Some b \<Longrightarrow> h b = None" "(if h a = None then Some a else f h (Suc a)) = Some b"
    then show "h b = None" by (cases "h a = None") simp_all
  qed
  then show ?thesis by (simp add: allocator_def first_fit_def)
qed

lemma first_fit_memory: "memory first_fit"
  unfolding memory_def
proof (intro allI impI)
  fix h :: "'n heap"
  assume "finite (dom h)"
  then obtain k where "k \<notin> dom h" using ex_new_if_finite [OF infinite_UNIV_nat] by blast
  then have "h (0 + k) = None" by auto
  from lowest_free_ends [where h = h and a = 0, OF this] show "\<exists>a. first_fit h = Some a \<and> h a = None" by (simp add: first_fit_def)
qed

end
