(* ===== verification/TBST_Tree.thy ===== *)
theory TBST_Tree
  imports Heap_Prog BST_Tree
begin

text \<open>
  The threaded search tree of \<open>avl-2.0/src/tbst.c\<close>: search, insertion and deletion.

  Nodes live on a heap, because a node is pointed to by its parent and by threads.  A link that
  is no child is a thread to the neighbour in the order.  \<open>(struct tbst_node *) &tree->tbst_root\<close>, the pseudo node
  above the root, is the place \<open>None\<close>, of which only link 0 exists.
\<close>

section \<open>Data\<close>

datatype tbst_tag = TBST_CHILD | TBST_THREAD

record 'a tbst_node =
  tbst_link :: "bool \<Rightarrow> addr option"
  tbst_data :: "'a option"
  tbst_tag :: "bool \<Rightarrow> tbst_tag"

record 'a tbst_table =
  tbst_root :: "addr option"
  tbst_compare :: "'a \<Rightarrow> 'a \<Rightarrow> int"
  tbst_count :: "64 word"

type_synonym 'a tbst_heap = "'a tbst_node heap"

text \<open>Assignments to \<open>n->tbst_link[d]\<close>, \<open>n->tbst_tag[d]\<close> and \<open>n->tbst_data\<close>.\<close>

definition set_link :: "bool \<Rightarrow> addr option \<Rightarrow> 'a tbst_node \<Rightarrow> 'a tbst_node" where
  "set_link d p n = n\<lparr>tbst_link := (tbst_link n)(d := p)\<rparr>"

definition set_tag :: "bool \<Rightarrow> tbst_tag \<Rightarrow> 'a tbst_node \<Rightarrow> 'a tbst_node" where
  "set_tag d g n = n\<lparr>tbst_tag := (tbst_tag n)(d := g)\<rparr>"

definition set_data :: "'a option \<Rightarrow> 'a tbst_node \<Rightarrow> 'a tbst_node" where
  "set_data x n = n\<lparr>tbst_data := x\<rparr>"

text \<open>Reading \<open>p->tbst_link[d]\<close> and \<open>p->tbst_tag[d]\<close>.\<close>

definition link_at :: "'a tbst_heap \<Rightarrow> addr option \<Rightarrow> bool \<Rightarrow> addr option prog" where
  "link_at h p d = pbind (fetch h p) (\<lambda>n. pret (tbst_link n d))"

definition tag_at :: "'a tbst_heap \<Rightarrow> addr option \<Rightarrow> bool \<Rightarrow> tbst_tag prog" where
  "tag_at h p d = pbind (fetch h p) (\<lambda>n. pret (tbst_tag n d))"

text \<open>\<open>q->tbst_link[d]\<close> for a place \<open>q\<close>.\<close>

definition tbst_get :: "'a tbst_heap \<Rightarrow> 'a tbst_table \<Rightarrow> addr option \<Rightarrow> bool \<Rightarrow> addr option prog" where
  "tbst_get h tree q d =
     (if q = None then (if d then pfault Out_of_bounds else pret (tbst_root tree))
      else link_at h q d)"

definition tbst_put ::
  "'a tbst_heap \<Rightarrow> 'a tbst_table \<Rightarrow> addr option \<Rightarrow> bool \<Rightarrow> addr option \<Rightarrow> ('a tbst_heap \<times> 'a tbst_table) prog" where
  "tbst_put h tree q d p =
     (if q = None then (if d then pfault Out_of_bounds else pret (h, tree\<lparr>tbst_root := p\<rparr>))
      else pbind (assign h q (set_link d p)) (\<lambda>h. pret (h, tree)))"

section \<open>Creation and search\<close>

definition tbst_create :: "bool \<Rightarrow> ('a \<Rightarrow> 'a \<Rightarrow> int) \<Rightarrow> 'a tbst_table option" where
  "tbst_create alloc cmp = (if alloc then Some \<lparr>tbst_root = None, tbst_compare = cmp, tbst_count = 0\<rparr> else None)"

text \<open>A call of the comparison function, which reads both items.\<close>

definition tbst_cmp :: "'a tbst_table \<Rightarrow> 'a \<Rightarrow> 'a tbst_node \<Rightarrow> int prog" where
  "tbst_cmp tree item n =
     (case tbst_data n of None \<Rightarrow> pfault Null_dereference | Some x \<Rightarrow> pret (tbst_compare tree item x))"

text \<open>The loop of \<^verbatim>\<open>tbst_find\<close> and \<^verbatim>\<open>tbst_t_find\<close>: the node that matches.\<close>

partial_function (option) tbst_find_loop ::
  "'a tbst_heap \<Rightarrow> 'a tbst_table \<Rightarrow> 'a \<Rightarrow> addr option \<Rightarrow> addr option prog" where
  "tbst_find_loop h tree item p =
     pbind (fetch h p) (\<lambda>n. pbind (tbst_cmp tree item n) (\<lambda>cmp.
       if cmp = 0 then pret p
       else if tbst_tag n (cmp > 0) = TBST_CHILD then tbst_find_loop h tree item (tbst_link n (cmp > 0))
       else pret None))"

definition tbst_data_of :: "'a tbst_heap \<Rightarrow> addr option \<Rightarrow> 'a option prog" where
  "tbst_data_of h p = (if p = None then pret None else pbind (fetch h p) (\<lambda>n. pret (tbst_data n)))"

definition tbst_find :: "'a tbst_heap \<Rightarrow> 'a tbst_table \<Rightarrow> 'a \<Rightarrow> 'a option prog" where
  "tbst_find h tree item =
     (if tbst_root tree = None then pret None
      else pbind (tbst_find_loop h tree item (tbst_root tree)) (tbst_data_of h))"

section \<open>Insertion\<close>

text \<open>
  The loop of \<^verbatim>\<open>tbst_probe\<close>: the node at which it stops, and the side on which the item is to be
  inserted, \<open>None\<close> when the node matches.
\<close>

partial_function (option) tbst_probe_loop ::
  "'a tbst_heap \<Rightarrow> 'a tbst_table \<Rightarrow> 'a \<Rightarrow> addr option \<Rightarrow> (addr option \<times> bool option) prog" where
  "tbst_probe_loop h tree item p =
     pbind (fetch h p) (\<lambda>n. pbind (tbst_cmp tree item n) (\<lambda>cmp.
       if cmp = 0 then pret (p, None)
       else if tbst_tag n (cmp > 0) = TBST_THREAD then pret (p, Some (cmp > 0))
       else tbst_probe_loop h tree item (tbst_link n (cmp > 0))))"

text \<open>The new node at address \<open>a\<close> on side \<open>d\<close> of the place \<open>p\<close>.\<close>

definition tbst_attach ::
  "'a tbst_heap \<Rightarrow> 'a tbst_table \<Rightarrow> 'a \<Rightarrow> addr option \<Rightarrow> bool \<Rightarrow> addr \<Rightarrow> ('a tbst_heap \<times> 'a tbst_table) prog" where
  "tbst_attach h tree item p d a =
     pbind (tbst_get h tree p d) (\<lambda>l.
       let n = \<lparr>tbst_link = (\<lambda>e. if e = d then l else p), tbst_data = Some item, tbst_tag = (\<lambda>e. TBST_THREAD)\<rparr>;
           h = h(a \<mapsto> n) in
       pbind (if tbst_root tree \<noteq> None then assign h p (set_tag d TBST_CHILD) else pret h) (\<lambda>h.
         tbst_put h (tree\<lparr>tbst_count := tbst_count tree + 1\<rparr>) p d (Some a)))"

text \<open>
  \<^verbatim>\<open>tbst_probe\<close> returns a pointer to the data field of a node, here the node.  In an empty tree the place is
  the pseudo node, and the link of the new node on the other side is null.
\<close>

definition tbst_probe ::
  "('a tbst_heap \<Rightarrow> addr option) \<Rightarrow> 'a tbst_heap \<Rightarrow> 'a tbst_table \<Rightarrow> 'a \<Rightarrow>
     (addr option \<times> 'a tbst_heap \<times> 'a tbst_table) prog" where
  "tbst_probe malloc h tree item =
     pbind (if tbst_root tree \<noteq> None then tbst_probe_loop h tree item (tbst_root tree)
            else pret (None, Some False)) (\<lambda>(p, dir).
       case dir of
         None \<Rightarrow> pret (p, h, tree)
       | Some d \<Rightarrow>
           (case malloc h of
              None \<Rightarrow> pret (None, h, tree)
            | Some a \<Rightarrow>
                pbind (tbst_attach h tree item p d a) (\<lambda>(h, tree). pret (Some a, h, tree))))"

definition tbst_insert ::
  "('a tbst_heap \<Rightarrow> addr option) \<Rightarrow> 'a tbst_heap \<Rightarrow> 'a tbst_table \<Rightarrow> 'a \<Rightarrow>
     ('a option \<times> 'a tbst_heap \<times> 'a tbst_table) prog" where
  "tbst_insert malloc h tree item =
     pbind (tbst_probe malloc h tree item) (\<lambda>(p, h, tree).
       pbind (tbst_data_of h p) (\<lambda>x.
         pret (if p = None \<or> x = Some item then None else x, h, tree)))"

definition tbst_replace ::
  "('a tbst_heap \<Rightarrow> addr option) \<Rightarrow> 'a tbst_heap \<Rightarrow> 'a tbst_table \<Rightarrow> 'a \<Rightarrow>
     ('a option \<times> 'a tbst_heap \<times> 'a tbst_table) prog" where
  "tbst_replace malloc h tree item =
     pbind (tbst_probe malloc h tree item) (\<lambda>(p, h, tree).
       pbind (tbst_data_of h p) (\<lambda>r.
         if p = None \<or> r = Some item then pret (None, h, tree)
         else pbind (assign h p (set_data (Some item))) (\<lambda>h. pret (r, h, tree))))"

section \<open>Deletion\<close>

text \<open>\<open>while (t->tbst_tag[d] == TBST_CHILD) t = t->tbst_link[d];\<close> for any pointer \<open>t\<close>.\<close>

partial_function (option) tbst_descend :: "'a tbst_heap \<Rightarrow> bool \<Rightarrow> addr option \<Rightarrow> addr option prog" where
  "tbst_descend h d t =
     pbind (fetch h t) (\<lambda>n.
       if tbst_tag n d = TBST_CHILD then tbst_descend h d (tbst_link n d) else pret t)"

text \<open>The search loop of \<^verbatim>\<open>tbst_delete\<close>: \<open>q\<close>, \<open>dir\<close> and \<open>p\<close>.\<close>

partial_function (option) tbst_delete_loop ::
  "'a tbst_heap \<Rightarrow> 'a tbst_table \<Rightarrow> 'a \<Rightarrow> addr option \<Rightarrow> bool \<Rightarrow> addr option \<Rightarrow>
     (addr option \<times> bool \<times> addr option) option prog" where
  "tbst_delete_loop h tree item q dir p =
     pbind (fetch h p) (\<lambda>n. pbind (tbst_cmp tree item n) (\<lambda>cmp.
       if cmp = 0 then pret (Some (q, dir, p))
       else if tbst_tag n (cmp > 0) = TBST_THREAD then pret None
       else tbst_delete_loop h tree item p (cmp > 0) (tbst_link n (cmp > 0))))"

text \<open>\<^verbatim>\<open>tbst_delete\<close> descends to the greatest node below the left link of \<open>x\<close> and sets its thread to \<open>v\<close>.\<close>

definition tbst_rethread :: "'a tbst_heap \<Rightarrow> addr option \<Rightarrow> addr option \<Rightarrow> 'a tbst_heap prog" where
  "tbst_rethread h l v = pbind (tbst_descend h True l) (\<lambda>t. assign h t (set_link True v))"

text \<open>The node \<open>p\<close> has no right child.\<close>

definition tbst_unlink_left ::
  "'a tbst_heap \<Rightarrow> 'a tbst_table \<Rightarrow> addr option \<Rightarrow> bool \<Rightarrow> addr option \<Rightarrow> ('a tbst_heap \<times> 'a tbst_table) prog" where
  "tbst_unlink_left h tree q dir p =
     pbind (tag_at h p False) (\<lambda>g.
     if g = TBST_CHILD then
       pbind (link_at h p False) (\<lambda>l. pbind (link_at h p True) (\<lambda>v.
       pbind (tbst_rethread h l v) (\<lambda>h.
       pbind (link_at h p False) (\<lambda>l. tbst_put h tree q dir l))))
     else
       pbind (link_at h p dir) (\<lambda>v.
       pbind (tbst_put h tree q dir v) (\<lambda>(h, tree).
       if q \<noteq> None then pbind (assign h q (set_tag dir TBST_THREAD)) (\<lambda>h. pret (h, tree))
       else pret (h, tree))))"

text \<open>The right child \<open>r\<close> of \<open>p\<close> has no left child.\<close>

definition tbst_unlink_right ::
  "'a tbst_heap \<Rightarrow> 'a tbst_table \<Rightarrow> addr option \<Rightarrow> bool \<Rightarrow> addr option \<Rightarrow> addr option \<Rightarrow>
     ('a tbst_heap \<times> 'a tbst_table) prog" where
  "tbst_unlink_right h tree q dir p r =
     pbind (link_at h p False) (\<lambda>l.
     pbind (assign h r (set_link False l)) (\<lambda>h.
     pbind (tag_at h p False) (\<lambda>g.
     pbind (assign h r (set_tag False g)) (\<lambda>h.
     pbind (tag_at h r False) (\<lambda>g.
     pbind (if g = TBST_CHILD then pbind (link_at h r False) (\<lambda>l. tbst_rethread h l r) else pret h) (\<lambda>h.
     tbst_put h tree q dir r))))))"

text \<open>The loop that walks to the inorder successor \<open>s\<close>, with its parent \<open>r\<close>.\<close>

partial_function (option) tbst_successor :: "'a tbst_heap \<Rightarrow> addr option \<Rightarrow> (addr option \<times> addr option) prog" where
  "tbst_successor h r =
     pbind (link_at h r False) (\<lambda>s. pbind (tag_at h s False) (\<lambda>g.
       if g = TBST_THREAD then pret (r, s) else tbst_successor h s))"

text \<open>The successor is taken out of the right subtree.\<close>

definition tbst_detach :: "'a tbst_heap \<Rightarrow> addr option \<Rightarrow> addr option \<Rightarrow> 'a tbst_heap prog" where
  "tbst_detach h r s =
     pbind (tag_at h s True) (\<lambda>g.
       if g = TBST_CHILD then pbind (link_at h s True) (\<lambda>v. assign h r (set_link False v))
       else pbind (assign h r (set_link False s)) (\<lambda>h. assign h r (set_tag False TBST_THREAD)))"

text \<open>The successor takes over the two subtrees of \<open>p\<close>.\<close>

definition tbst_take_over :: "'a tbst_heap \<Rightarrow> addr option \<Rightarrow> addr option \<Rightarrow> 'a tbst_heap prog" where
  "tbst_take_over h p s =
     pbind (link_at h p False) (\<lambda>l.
     pbind (assign h s (set_link False l)) (\<lambda>h.
     pbind (tag_at h p False) (\<lambda>g.
     pbind (if g = TBST_CHILD then
              pbind (link_at h p False) (\<lambda>l.
              pbind (tbst_rethread h l s) (\<lambda>h.
              assign h s (set_tag False TBST_CHILD)))
            else pret h) (\<lambda>h.
     pbind (link_at h p True) (\<lambda>v.
     pbind (assign h s (set_link True v)) (\<lambda>h.
     assign h s (set_tag True TBST_CHILD)))))))"

definition tbst_unlink_successor ::
  "'a tbst_heap \<Rightarrow> 'a tbst_table \<Rightarrow> addr option \<Rightarrow> bool \<Rightarrow> addr option \<Rightarrow> addr option \<Rightarrow>
     ('a tbst_heap \<times> 'a tbst_table) prog" where
  "tbst_unlink_successor h tree q dir p r =
     pbind (tbst_successor h r) (\<lambda>(r, s).
     pbind (tbst_detach h r s) (\<lambda>h.
     pbind (tbst_take_over h p s) (\<lambda>h.
     tbst_put h tree q dir s)))"

definition tbst_unlink ::
  "'a tbst_heap \<Rightarrow> 'a tbst_table \<Rightarrow> addr option \<Rightarrow> bool \<Rightarrow> addr option \<Rightarrow> ('a tbst_heap \<times> 'a tbst_table) prog" where
  "tbst_unlink h tree q dir p =
     pbind (tag_at h p True) (\<lambda>g.
       if g = TBST_THREAD then tbst_unlink_left h tree q dir p
       else pbind (link_at h p True) (\<lambda>r. pbind (tag_at h r False) (\<lambda>g.
         if g = TBST_THREAD then tbst_unlink_right h tree q dir p r
         else tbst_unlink_successor h tree q dir p r)))"

definition tbst_delete ::
  "'a tbst_heap \<Rightarrow> 'a tbst_table \<Rightarrow> 'a \<Rightarrow> ('a option \<times> 'a tbst_heap \<times> 'a tbst_table) prog" where
  "tbst_delete h tree item =
     (if tbst_root tree = None then pret (None, h, tree)
      else pbind (tbst_delete_loop h tree item None False (tbst_root tree)) (\<lambda>res.
        case res of
          None \<Rightarrow> pret (None, h, tree)
        | Some (q, dir, p) \<Rightarrow>
            pbind (fetch h p) (\<lambda>n.
            pbind (tbst_unlink h tree q dir p) (\<lambda>(h, tree).
            pbind (release h p) (\<lambda>h.
            pret (tbst_data n, h, tree\<lparr>tbst_count := tbst_count tree - 1\<rparr>))))))"

section \<open>The asserting variants\<close>

definition tbst_assert_insert ::
  "('a tbst_heap \<Rightarrow> addr option) \<Rightarrow> 'a tbst_heap \<Rightarrow> 'a tbst_table \<Rightarrow> 'a \<Rightarrow> ('a tbst_heap \<times> 'a tbst_table) prog" where
  "tbst_assert_insert malloc h tree item =
     pbind (tbst_probe malloc h tree item) (\<lambda>(p, h, tree).
       pbind (tbst_data_of h p) (\<lambda>x.
         if p \<noteq> None \<and> x = Some item then pret (h, tree) else pfault Assertion_failed))"

definition tbst_assert_delete ::
  "'a tbst_heap \<Rightarrow> 'a tbst_table \<Rightarrow> 'a \<Rightarrow> ('a option \<times> 'a tbst_heap \<times> 'a tbst_table) prog" where
  "tbst_assert_delete h tree item =
     pbind (tbst_delete h tree item) (\<lambda>(p, h, tree).
       if p \<noteq> None then pret (p, h, tree) else pfault Assertion_failed)"

end
