(* ===== verification/Ghost_Tree.thy ===== *)
theory Ghost_Tree
  imports Heap_Prog BST_Tree
begin

text \<open>
  Trees of addresses and data, which the representation predicates of the threaded trees and of the trees
  with parent pointers say to be on the heap.  They are trees of \<open>BST_Tree\<close>, so that search,
  deletion and balancing of \<open>bst.c\<close> are defined on them.
\<close>

section \<open>Addresses and data\<close>

type_synonym 'a ghost = "(addr \<times> 'a option) bst_node"

fun root_of :: "'a ghost \<Rightarrow> addr option \<Rightarrow> addr option" where
  "root_of BNull th = th"
| "root_of (BNode l (a, x) r) th = Some a"

definition addrs :: "'a ghost \<Rightarrow> addr list" where
  "addrs t = map fst (bst_inorder t)"

lemma addrs_simps [simp]:
  "addrs BNull = []" "addrs (BNode l (a, x) r) = addrs l @ a # addrs r"
  by (simp_all add: addrs_def)

lemma top_node: "t \<noteq> BNull \<Longrightarrow> root_of t th = root_of t th'"
  by (cases t) auto

lemma top_in: "t \<noteq> BNull \<Longrightarrow> \<exists>a. root_of t th = Some a \<and> a \<in> set (addrs t)"
  by (cases t) auto

lemma upd_bool [simp]:
  "(\<lambda>d. if d then u else v)(True := w) = (\<lambda>d. if d then w else v)"
  "(\<lambda>d. if d then u else v)(False := w) = (\<lambda>d. if d then u else w)"
  by (auto simp: fun_eq_iff)

text \<open>The items in order.\<close>

definition datas :: "'a ghost \<Rightarrow> 'a list" where
  "datas t = map (\<lambda>y. the (snd y)) (bst_inorder t)"

lemma length_addrs [simp]: "length (addrs t) = length (datas t)"
  by (simp add: addrs_def datas_def)

definition filled :: "'a ghost \<Rightarrow> bool" where
  "filled t \<longleftrightarrow> (\<forall>y\<in>set (bst_inorder t). snd y \<noteq> None)"

lemma filled_simps [simp]:
  "filled BNull" "filled (BNode l (a, x) r) \<longleftrightarrow> filled l \<and> x \<noteq> None \<and> filled r"
  by (auto simp: filled_def)

lemma addrs_min: "bst_min sl sy sr ry rr = (m, t') \<Longrightarrow> fst m # addrs t' = addrs (BNode (BNode sl sy sr) ry rr)"
  using inorder_min [of sl sy sr ry rr m t'] by (simp add: addrs_def) (metis list.simps(9) map_append)

section \<open>Positions\<close>

text \<open>The address at one end of a tree.\<close>

fun tip :: "bool \<Rightarrow> 'a ghost \<Rightarrow> addr option" where
  "tip d BNull = None"
| "tip d (BNode l (a, x) r) =
     (if (if d then r else l) = BNull then Some a else tip d (if d then r else l))"

lemma tip_in: "t \<noteq> BNull \<Longrightarrow> \<exists>a. tip d t = Some a \<and> a \<in> set (addrs t)"
  by (induction t) (auto split: if_splits)

text \<open>
  The nodes before and after the subtree at a path, and the place of its link: the node and the side.
\<close>

fun lo_at :: "addr option \<Rightarrow> 'a ghost \<Rightarrow> bool list \<Rightarrow> addr option" where
  "lo_at lo t [] = lo"
| "lo_at lo BNull (d # ds) = lo"
| "lo_at lo (BNode l (a, x) r) (d # ds) = (if d then lo_at (Some a) r ds else lo_at lo l ds)"

fun hi_at :: "addr option \<Rightarrow> 'a ghost \<Rightarrow> bool list \<Rightarrow> addr option" where
  "hi_at hi t [] = hi"
| "hi_at hi BNull (d # ds) = hi"
| "hi_at hi (BNode l (a, x) r) (d # ds) = (if d then hi_at hi r ds else hi_at (Some a) l ds)"

fun place :: "addr option \<Rightarrow> bool \<Rightarrow> 'a ghost \<Rightarrow> bool list \<Rightarrow> addr option \<times> bool" where
  "place q e t [] = (q, e)"
| "place q e BNull (d # ds) = (q, e)"
| "place q e (BNode l (a, x) r) (d # ds) = place (Some a) d (if d then r else l) ds"

lemma addrs_subtree: "set (addrs (subtree t p)) \<subseteq> set (addrs t)"
proof (induction t p rule: in_tree.induct)
  case (3 l y r d ds)
  then show ?case by (cases y) auto
qed auto

lemma distinct_subtree: "distinct (addrs t) \<Longrightarrow> distinct (addrs (subtree t p))"
proof (induction t p rule: in_tree.induct)
  case (3 l y r d ds)
  then show ?case by (cases y) auto
qed auto

lemma place_root: "place q e t p = (None, d) \<Longrightarrow> in_tree t p \<Longrightarrow> p = [] \<and> q = None \<and> d = e"
proof (induction t p arbitrary: q e rule: in_tree.induct)
  case (3 l y r d' ds)
  then show ?case by (cases y) fastforce
qed auto

lemma place_in: "place q e t p = (Some a, d) \<Longrightarrow> p \<noteq> [] \<Longrightarrow> in_tree t p \<Longrightarrow> a \<in> set (addrs t)"
proof (induction t p arbitrary: q e rule: in_tree.induct)
  case (3 l y r d' ds)
  obtain b x where y: "y = (b, x)" by fastforce
  show ?case using 3 y by (cases "ds = []") (auto split: if_splits)
qed auto

lemma place_outside:
  "place q e t p = (Some a, d) \<Longrightarrow> p \<noteq> [] \<Longrightarrow> in_tree t p \<Longrightarrow> distinct (addrs t) \<Longrightarrow> a \<notin> set (addrs (subtree t p))"
proof (induction t p arbitrary: q e rule: in_tree.induct)
  case (3 l y r d' ds)
  obtain b x where y: "y = (b, x)" by fastforce
  show ?case
  proof (cases "ds = []")
    case True
    then show ?thesis using 3 y by auto
  next
    case False
    then show ?thesis using "3.IH" [OF _ False] "3.prems" y by (auto split: if_splits)
  qed
qed auto

lemma place_bound:
  "place q e t p = (Some b, d) \<Longrightarrow> p \<noteq> [] \<Longrightarrow> in_tree t p \<Longrightarrow> (if d then lo_at lo t p else hi_at hi t p) = Some b"
proof (induction t p arbitrary: q e lo hi rule: in_tree.induct)
  case (3 l y r d' ds)
  obtain c x where y: "y = (c, x)" by fastforce
  show ?case
  proof (cases "ds = []")
    case True
    then show ?thesis using 3 y by (auto split: if_splits)
  next
    case False
    then show ?thesis using "3.IH" [OF _ False] "3.prems" y by (auto split: if_splits)
  qed
qed auto

lemma place_snoc: "in_tree u p \<Longrightarrow> subtree u p = BNode l (b, y) r \<Longrightarrow> place q e u (p @ [d]) = (Some b, d)"
proof (induction u p arbitrary: q e rule: in_tree.induct)
  case (3 l' z r' d' ds)
  then show ?case by (cases z) auto
qed auto

lemma distinct_put:
  "in_tree t p \<Longrightarrow> distinct (addrs t) \<Longrightarrow> distinct (addrs s) \<Longrightarrow>
     set (addrs s) \<subseteq> set (addrs (subtree t p)) \<union> B \<Longrightarrow> B \<inter> set (addrs t) = {} \<Longrightarrow> distinct (addrs (put_at t p s))"
proof -
  assume a: "in_tree t p" "distinct (addrs t)" "distinct (addrs s)"
    "set (addrs s) \<subseteq> set (addrs (subtree t p)) \<union> B" "B \<inter> set (addrs t) = {}"
  obtain u v where uv: "addrs t = u @ addrs (subtree t p) @ v" "addrs (put_at t p s) = u @ addrs s @ v"
    using inorder_put [OF a(1), of s] inorder_split [OF a(1)] unfolding addrs_def by fastforce
  have "distinct u" "distinct v" "set u \<inter> set v = {}" "set u \<inter> set (addrs (subtree t p)) = {}"
    "set v \<inter> set (addrs (subtree t p)) = {}" "set u \<inter> B = {}" "set v \<inter> B = {}"
    using a(2,5) unfolding uv(1) by auto
  then show ?thesis using a(3,4) unfolding uv(2) by fastforce
qed

lemma put_at_append: "in_tree u p \<Longrightarrow> put_at u (p @ q) v = put_at u p (put_at (subtree u p) q v)"
  by (induction u p rule: in_tree.induct) auto

lemma put_at_put: "in_tree u p \<Longrightarrow> put_at (put_at u p v) p w = put_at u p w"
  by (induction u p rule: in_tree.induct) auto

lemma in_tree_put [simp]: "in_tree u p \<Longrightarrow> in_tree (put_at u p v) p"
  by (induction u p rule: in_tree.induct) auto

lemma filled_put: "in_tree t p \<Longrightarrow> filled t \<Longrightarrow> filled s \<Longrightarrow> filled (put_at t p s)"
  unfolding filled_def inorder_put [of t p s] inorder_split [of t p] by auto

lemma filled_swap: "in_tree u p \<Longrightarrow> filled (put_at u p s) \<Longrightarrow> filled s' \<Longrightarrow> filled (put_at u p s')"
  unfolding filled_def inorder_put [of u p] by auto

lemma filled_at: "in_tree u p \<Longrightarrow> filled (put_at u p s) \<Longrightarrow> filled s"
  unfolding filled_def inorder_put [of u p] by auto

lemma filled_unlink: "filled (BNode l (a, x) r) \<Longrightarrow> filled (bst_unlink (BNode l (a, x) r))"
  unfolding filled_def inorder_unlink by auto

section \<open>Order\<close>

lemma inorder_path:
  "bst_inorder t = xs @ y # ys \<Longrightarrow>
     \<exists>p l r. in_tree t p \<and> subtree t p = BNode l y r \<and> xs = lefts t p @ bst_inorder l \<and> ys = bst_inorder r @ rights t p"
proof (induction t arbitrary: xs ys)
  case (BNode l z r)
  consider (here) "xs = bst_inorder l" "y = z" "ys = bst_inorder r"
    | (left) us where "bst_inorder l = xs @ y # us" "ys = us @ z # bst_inorder r"
    | (right) us where "bst_inorder r = us @ y # ys" "xs = bst_inorder l @ z # us"
    using BNode.prems by (auto simp: append_eq_append_conv2 append_eq_Cons_conv Cons_eq_append_conv)
  then show ?case
  proof cases
    case here
    then show ?thesis by (intro exI [of _ "[]"] exI [of _ l] exI [of _ r]) simp
  next
    case left
    from BNode.IH(1) [OF left(1)] obtain p l' r' where "in_tree l p" "subtree l p = BNode l' y r'"
      "xs = lefts l p @ bst_inorder l'" "us = bst_inorder r' @ rights l p" by blast
    then show ?thesis using left(2) by (intro exI [of _ "False # p"] exI [of _ l'] exI [of _ r']) simp
  next
    case right
    from BNode.IH(2) [OF right(1)] obtain p l' r' where "in_tree r p" "subtree r p = BNode l' y r'"
      "us = lefts r p @ bst_inorder l'" "ys = bst_inorder r' @ rights r p" by blast
    then show ?thesis using right(2) by (intro exI [of _ "True # p"] exI [of _ l'] exI [of _ r']) simp
  qed
qed simp

text \<open>The address of the first or last entry, or else where the thread goes.\<close>

definition first_addr :: "(addr \<times> 'b) list \<Rightarrow> addr option \<Rightarrow> addr option" where
  "first_addr xs th = (case xs of [] \<Rightarrow> th | y # _ \<Rightarrow> Some (fst y))"

definition last_addr :: "(addr \<times> 'b) list \<Rightarrow> addr option \<Rightarrow> addr option" where
  "last_addr xs th = (if xs = [] then th else Some (fst (List.last xs)))"

lemma first_addr_simps [simp]: "first_addr [] th = th" "first_addr (y # ys) th = Some (fst y)"
  by (simp_all add: first_addr_def)

lemma first_addr_append: "first_addr (xs @ ys) th = first_addr xs (first_addr ys th)"
  by (cases xs) simp_all

lemma last_addr_append: "last_addr (xs @ ys) th = last_addr ys (last_addr xs th)"
  by (simp add: last_addr_def)

lemma last_addr_simps [simp]: "last_addr [] th = th" "last_addr (xs @ [y]) th = Some (fst y)"
  by (simp_all add: last_addr_def)

lemma inorder_null [simp]: "bst_inorder t = [] \<longleftrightarrow> t = BNull"
  by (cases t) auto

lemma tip_ends:
  "t \<noteq> BNull \<Longrightarrow> tip False t = first_addr (bst_inorder t) th"
  "t \<noteq> BNull \<Longrightarrow> tip True t = last_addr (bst_inorder t) th'"
proof (induction t arbitrary: th th')
  case (BNode l y r)
  obtain a x where y: "y = (a, x)" by fastforce
  {
    case 1
    show ?case using BNode.IH(1) [of "Some a"] y by (cases "l = BNull") (simp_all add: first_addr_append)
  next
    case 2
    have "last_addr (y # bst_inorder r) th = last_addr (bst_inorder r) (Some a)" for th
      using y by (simp add: last_addr_def)
    then show ?case using BNode.IH(4) [of "Some a"] y by (cases "r = BNull") (simp_all add: last_addr_append)
  }
qed auto

lemma hi_at_rights: "in_tree t p \<Longrightarrow> hi_at hi t p = first_addr (rights t p) hi"
proof (induction t p arbitrary: hi rule: in_tree.induct)
  case (3 l y r d ds)
  then show ?case by (cases y) (auto simp: first_addr_append)
qed auto

lemma lo_at_lefts: "in_tree t p \<Longrightarrow> lo_at lo t p = last_addr (lefts t p) lo"
proof (induction t p arbitrary: lo rule: in_tree.induct)
  case (3 l y r d ds)
  obtain a x where y: "y = (a, x)" by fastforce
  have "last_addr (bst_inorder l @ y # us) lo = last_addr us (Some a)" for us
    using y by (simp add: last_addr_def)
  then show ?case using 3 y by auto
qed auto

section \<open>Comparison of nodes\<close>

text \<open>Comparison of an item with the data of a node; no node of a table is without data.\<close>

definition node_cmp :: "('a \<Rightarrow> 'a \<Rightarrow> int) \<Rightarrow> addr \<times> 'a option \<Rightarrow> addr \<times> 'a option \<Rightarrow> int" where
  "node_cmp cmp y z = cmp (the (snd y)) (the (snd z))"

lemma node_cmp_simp [simp]: "node_cmp cmp (a, Some x) (b, Some y) = cmp x y"
  by (simp add: node_cmp_def)

abbreviation (input) path_to :: "('a \<Rightarrow> 'a \<Rightarrow> int) \<Rightarrow> 'a \<Rightarrow> 'a ghost \<Rightarrow> bool list" where
  "path_to cmp item t \<equiv> bst_locate (node_cmp cmp) (0, Some item) t"

text \<open>Comparison of nodes is by the key of their data.\<close>

lemma ordered_nodes: "ordered (node_cmp cmp) ys \<longleftrightarrow> ordered cmp (map (\<lambda>y. the (snd y)) ys)"
  by (simp add: ordered_def sorted_wrt_map node_cmp_def)

lemma keyed_nodes: "keyed key cmp \<Longrightarrow> keyed (\<lambda>y. key (the (snd y))) (node_cmp cmp)"
  by (simp add: keyed_def node_cmp_def)

text \<open>What a search for an item comes to in an ordered tree.\<close>

lemma ghost_locate_cases:
  assumes "keyed key cmp" "filled t" "ordered cmp (datas t)"
  obtains (slot) p xs ys where "path_to cmp item t = p" "in_tree t p" "subtree t p = BNull"
      "lefts t p = xs" "rights t p = ys" "list_find cmp item (datas t) = None"
      "list_insert cmp item (datas t) = map (\<lambda>y. the (snd y)) xs @ item # map (\<lambda>y. the (snd y)) ys"
  | (found) p l a d r xs ys where "path_to cmp item t = p" "in_tree t p"
      "subtree t p = BNode l (a, Some d) r" "cmp item d = 0"
      "xs = map (\<lambda>y. the (snd y)) (lefts t p) @ datas l"
      "ys = datas r @ map (\<lambda>y. the (snd y)) (rights t p)"
      "datas t = xs @ d # ys" "list_find cmp item (datas t) = Some d" "ordered cmp (xs @ d # ys)"
proof -
  let ?f = "\<lambda>y :: addr \<times> 'a option. the (snd y)"
  let ?p = "path_to cmp item t"
  have o: "ordered (node_cmp cmp) (bst_inorder t)" using assms(3) by (simp add: datas_def ordered_nodes)
  have b: "\<forall>y\<in>set (lefts t ?p). cmp item (?f y) > 0" "\<forall>y\<in>set (rights t ?p). cmp item (?f y) < 0"
    "\<And>d. node_data (subtree t ?p) = Some d \<Longrightarrow> cmp item (?f d) = 0"
    using keyed.locate_between [OF keyed_nodes [OF assms(1)] o, of "(0, Some item)"] by (auto simp: node_cmp_def)
  have it: "datas t = map ?f (lefts t ?p) @ datas (subtree t ?p) @ map ?f (rights t ?p)"
    using inorder_split [of t ?p] by (simp add: datas_def)
  show thesis
  proof (cases "subtree t ?p")
    case BNull
    then have i: "datas t = map ?f (lefts t ?p) @ map ?f (rights t ?p)" using it by (simp add: datas_def)
    have "list_find cmp item (datas t) = None"
      unfolding i by (rule keyed.list_find_slot [OF assms(1)]) (use b in auto)
    moreover have "list_insert cmp item (datas t) = map ?f (lefts t ?p) @ item # map ?f (rights t ?p)"
      unfolding i by (rule list_insert_split) (use b in auto)
    ultimately show thesis using BNull by (intro slot [OF refl _ _ refl refl]) simp_all
  next
    case (BNode l y r)
    have "y \<in> set (bst_inorder t)" using inorder_split [of t ?p] BNode by simp
    then have "snd y \<noteq> None" using assms(2) by (simp add: filled_def)
    then obtain a d where y: "y = (a, Some d)" by (cases y) auto
    have z: "cmp item d = 0" using b(3) BNode y by simp
    have i: "datas t = (map ?f (lefts t ?p) @ datas l) @ d # (datas r @ map ?f (rights t ?p))"
      using it BNode y by (simp add: datas_def)
    have o': "ordered cmp ((map ?f (lefts t ?p) @ datas l) @ d # (datas r @ map ?f (rights t ?p)))" using assms(3) i by simp
    show thesis using BNode y z i o' keyed.list_find_mid [OF assms(1) o' z]
      by (intro found [OF refl _ _ z refl refl]) simp_all
  qed
qed

section \<open>Copies\<close>

text \<open>
  A user's function for copying items takes and returns a pointer, which may be null; \<open>None\<close>
  in place of the function is the null function pointer.
\<close>

type_synonym 'a copier = "('a option \<Rightarrow> 'a option) option"

text \<open>The data of a copied item.\<close>

definition copied :: "'a copier \<Rightarrow> 'a option \<Rightarrow> 'a option" where
  "copied copy x = (case copy of None \<Rightarrow> x | Some f \<Rightarrow> f x)"

text \<open>Same shape, copied data.\<close>

fun copies_of :: "'a copier \<Rightarrow> 'a ghost \<Rightarrow> 'a ghost \<Rightarrow> bool" where
  "copies_of copy BNull u \<longleftrightarrow> u = BNull"
| "copies_of copy (BNode l (a, x) r) u \<longleftrightarrow>
     (\<exists>l' b r'. u = BNode l' (b, copied copy x) r' \<and> copies_of copy l l' \<and> copies_of copy r r')"

lemma copies_null: "copies_of copy t u \<Longrightarrow> u = BNull \<longleftrightarrow> t = BNull"
  by (cases t) auto

text \<open>The copied items and no others are in the copy.\<close>

definition from_items :: "'a copier \<Rightarrow> 'a ghost \<Rightarrow> 'a ghost \<Rightarrow> bool" where
  "from_items copy t u \<longleftrightarrow> (\<forall>y\<in>set (bst_inorder u). \<exists>x\<in>set (bst_inorder t). snd y = copied copy (snd x))"

lemma from_items_put:
  "from_items copy t u \<Longrightarrow> in_tree u p \<Longrightarrow> subtree u p = BNull \<Longrightarrow> (c, x) \<in> set (bst_inorder t) \<Longrightarrow>
     from_items copy t (put_at u p (BNode BNull (a, copied copy x) BNull))"
  unfolding from_items_def inorder_put [of u p] inorder_split [of u p] by force

text \<open>The items of a list of nodes that are handed to the user's function.\<close>

definition called :: "bool \<Rightarrow> (addr \<times> 'a option) list \<Rightarrow> 'a list" where
  "called destroy ys = (if destroy then concat (map (\<lambda>y. case snd y of None \<Rightarrow> [] | Some d \<Rightarrow> [d]) ys) else [])"

lemma called_items: "filled t \<Longrightarrow> called True (bst_inorder t) = datas t"
proof -
  have "called True ys = map (\<lambda>y. the (snd y)) ys" if "\<forall>y\<in>set ys. snd y \<noteq> None" for ys :: "(addr \<times> 'a option) list"
    using that by (induction ys) (auto simp: called_def)
  then show "filled t \<Longrightarrow> called True (bst_inorder t) = datas t" by (simp add: filled_def datas_def)
qed

lemma called_from:
  "from_items copy t u \<Longrightarrow> x \<in> set (called destroy (bst_inorder u)) \<Longrightarrow> \<exists>y\<in>set (bst_inorder t). copied copy (snd y) = Some x"
  by (auto simp: called_def from_items_def split: if_splits option.splits dest!: bspec) (metis snd_conv)+

text \<open>When nothing fails: there is always memory, and no copy of an item of \<open>t\<close> is null.\<close>

definition copy_safe :: "('n heap \<Rightarrow> addr option) \<Rightarrow> 'a copier \<Rightarrow> 'a ghost \<Rightarrow> bool" where
  "copy_safe malloc copy t \<longleftrightarrow> (\<forall>h. finite (dom h) \<longrightarrow> malloc h \<noteq> None) \<and>
     (\<forall>y\<in>set (bst_inorder t). copied copy (snd y) \<noteq> None)"

end
