(* ===== verification/TBST_Rep.thy ===== *)
theory TBST_Rep
  imports TBST_Tree Ghost_Tree
begin

text \<open>
  What a threaded tree on the heap represents: a tree of addresses and data.  \<open>trep h lo hi t\<close> says that
  the nodes of \<open>t\<close> are on the heap \<open>h\<close> and linked as \<open>t\<close> is, with the threads at the two ends leading to
  \<open>lo\<close> and \<open>hi\<close>.  The lemmas say what the loops and assignments of the code do to it.
\<close>

declare fun_upd_apply [simp del] fun_upd_same [simp] fun_upd_other [simp]

section \<open>Representation\<close>

definition kind :: "'a ghost \<Rightarrow> tbst_tag" where
  "kind t = (if t = BNull then TBST_THREAD else TBST_CHILD)"

definition tnode :: "addr option \<Rightarrow> addr option \<Rightarrow> 'a ghost \<Rightarrow> 'a option \<Rightarrow> 'a ghost \<Rightarrow> 'a tbst_node" where
  "tnode lo hi l x r =
     \<lparr>tbst_link = (\<lambda>d. if d then root_of r hi else root_of l lo), tbst_data = x, tbst_tag = (\<lambda>d. if d then kind r else kind l)\<rparr>"

fun trep :: "'a tbst_heap \<Rightarrow> addr option \<Rightarrow> addr option \<Rightarrow> 'a ghost \<Rightarrow> bool" where
  "trep h lo hi BNull = True"
| "trep h lo hi (BNode l (a, x) r) \<longleftrightarrow>
     h a = Some (tnode lo hi l x r) \<and> trep h lo (Some a) l \<and> trep h (Some a) hi r"

lemma kind_simps [simp]: "kind BNull = TBST_THREAD" "kind (BNode l y r) = TBST_CHILD"
  by (simp_all add: kind_def)

lemma kind_child [simp]: "kind t = TBST_CHILD \<longleftrightarrow> t \<noteq> BNull" "kind t = TBST_THREAD \<longleftrightarrow> t = BNull"
  "TBST_CHILD = kind t \<longleftrightarrow> t \<noteq> BNull" "TBST_THREAD = kind t \<longleftrightarrow> t = BNull"
  by (simp_all add: kind_def)

lemma tnode_sel [simp]:
  "tbst_link (tnode lo hi l x r) d = (if d then root_of r hi else root_of l lo)"
  "tbst_tag (tnode lo hi l x r) d = (if d then kind r else kind l)"
  "tbst_data (tnode lo hi l x r) = x"
  by (simp_all add: tnode_def)

lemma tnode_cong:
  "root_of l lo = root_of l' lo' \<Longrightarrow> root_of r hi = root_of r' hi' \<Longrightarrow> kind l = kind l' \<Longrightarrow> kind r = kind r' \<Longrightarrow>
     tnode lo hi l x r = tnode lo' hi' l' x r'"
  unfolding tnode_def by (simp only:)

lemma set_tnode:
  "set_link True p (tnode lo hi l x r) =
     \<lparr>tbst_link = (\<lambda>d. if d then p else root_of l lo), tbst_data = x, tbst_tag = (\<lambda>d. if d then kind r else kind l)\<rparr>"
  "set_link False p (tnode lo hi l x r) =
     \<lparr>tbst_link = (\<lambda>d. if d then root_of r hi else p), tbst_data = x, tbst_tag = (\<lambda>d. if d then kind r else kind l)\<rparr>"
  "set_tag True g (tnode lo hi l x r) =
     \<lparr>tbst_link = (\<lambda>d. if d then root_of r hi else root_of l lo), tbst_data = x, tbst_tag = (\<lambda>d. if d then g else kind l)\<rparr>"
  "set_tag False g (tnode lo hi l x r) =
     \<lparr>tbst_link = (\<lambda>d. if d then root_of r hi else root_of l lo), tbst_data = x, tbst_tag = (\<lambda>d. if d then kind r else g)\<rparr>"
  by (simp_all add: tnode_def set_link_def set_tag_def)

lemma set_sel [simp]:
  "tbst_link (set_link d p n) = (tbst_link n)(d := p)" "tbst_tag (set_link d p n) = tbst_tag n"
  "tbst_data (set_link d p n) = tbst_data n" "tbst_link (set_tag d g n) = tbst_link n"
  "tbst_tag (set_tag d g n) = (tbst_tag n)(d := g)" "tbst_data (set_tag d g n) = tbst_data n"
  "tbst_link (set_data y n) = tbst_link n" "tbst_tag (set_data y n) = tbst_tag n" "tbst_data (set_data y n) = y"
  by (simp_all add: set_link_def set_tag_def set_data_def)

lemma node_eq:
  "n = n' \<longleftrightarrow> (\<forall>d. tbst_link n d = tbst_link n' d) \<and> tbst_data n = tbst_data n' \<and>
     (\<forall>d. tbst_tag n d = tbst_tag n' d)" for n n' :: "'a tbst_node"
  by (cases n, cases n') (auto simp: fun_eq_iff)

lemma eq_tnode:
  "n = tnode lo hi l x r \<longleftrightarrow> tbst_link n False = root_of l lo \<and> tbst_link n True = root_of r hi \<and> tbst_data n = x \<and>
     tbst_tag n False = kind l \<and> tbst_tag n True = kind r"
  by (auto simp: node_eq)

lemma link_at_Some [simp]: "h a = Some n \<Longrightarrow> link_at h (Some a) d = pret (tbst_link n d)"
  by (simp add: link_at_def)

lemma tag_at_Some [simp]: "h a = Some n \<Longrightarrow> tag_at h (Some a) d = pret (tbst_tag n d)"
  by (simp add: tag_at_def)

section \<open>Frames\<close>

lemma trep_agree: "trep h lo hi t \<Longrightarrow> agree (set (addrs t)) h h' \<Longrightarrow> trep h' lo hi t"
  by (induction t arbitrary: lo hi) (auto simp: agree_def)

lemma trep_upd [simp]: "a \<notin> set (addrs t) \<Longrightarrow> trep (h(a := x)) lo hi t = trep h lo hi t"
  by (induction t arbitrary: lo hi) auto

lemma trep_alloc: "trep h lo hi t \<Longrightarrow> a \<in> set (addrs t) \<Longrightarrow> h a \<noteq> None"
  by (induction t arbitrary: lo hi) auto

section \<open>Descending\<close>

declare tbst_descend.simps [simp del]

lemma tbst_descend_tip: "trep h lo hi t \<Longrightarrow> t \<noteq> BNull \<Longrightarrow> tbst_descend h d (root_of t th) = pret (tip d t)"
proof (induction t arbitrary: lo hi th)
  case (BNode l y r)
  obtain a x where y: "y = (a, x)" by fastforce
  have n: "h a = Some (tnode lo hi l x r)" "trep h lo (Some a) l" "trep h (Some a) hi r"
    using BNode.prems(1) y by simp_all
  show ?case
  proof (cases d)
    case True
    then show ?thesis using n BNode.IH(2) [OF n(3)] y by (subst tbst_descend.simps) simp
  next
    case False
    then show ?thesis using n BNode.IH(1) [OF n(2)] y by (subst tbst_descend.simps) simp
  qed
qed simp

text \<open>Redirecting the thread at the right end.\<close>

lemma trep_rethread:
  assumes "trep h lo hi t" "distinct (addrs t)" "tip True t = Some m" "h m = Some n"
  shows "trep (h(m \<mapsto> set_link True v n)) lo v t"
  using assms
proof (induction t arbitrary: lo)
  case (BNode l y r)
  obtain a x where y: "y = (a, x)" by fastforce
  have n: "h a = Some (tnode lo hi l x r)" "trep h lo (Some a) l" "trep h (Some a) hi r"
    using BNode.prems(1) y by simp_all
  show ?case
  proof (cases "r = BNull")
    case True
    then have "m = a" "n = tnode lo hi l x r" using BNode.prems(3,4) n(1) y by auto
    then have "set_link True v n = tnode lo v l x r" "trep (h(m \<mapsto> set_link True v n)) lo (Some a) l"
      using n BNode.prems(2) True y by (simp_all add: eq_tnode)
    then show ?thesis using True y \<open>m = a\<close> by simp
  next
    case False
    then have m: "tip True r = Some m" "m \<in> set (addrs r)" using BNode.prems(3) y tip_in [of r True] by auto
    then have "m \<noteq> a" "m \<notin> set (addrs l)" using BNode.prems(2) y by auto
    moreover have "trep (h(m \<mapsto> set_link True v n)) (Some a) v r"
      using BNode.IH(2) [OF n(3) _ m(1) BNode.prems(4)] BNode.prems(2) y by simp
    moreover have "tnode lo hi l x r = tnode lo v l x r" using top_node [OF False] by (intro tnode_cong) auto
    ultimately show ?thesis using n y by simp
  qed
qed simp

lemma tbst_rethread_ok:
  assumes "trep h lo hi t" "distinct (addrs t)" "t \<noteq> BNull"
  obtains m n where "tbst_rethread h (root_of t th) v = pret (h(m \<mapsto> set_link True v n))" "m \<in> set (addrs t)"
    "h m = Some n" "trep (h(m \<mapsto> set_link True v n)) lo v t"
proof -
  obtain m where m: "tip True t = Some m" "m \<in> set (addrs t)" using tip_in [OF assms(3)] by blast
  obtain n where n: "h m = Some n" using trep_alloc [OF assms(1) m(2)] by blast
  show thesis
    using that [OF _ m(2) n trep_rethread [OF assms(1,2) m(1) n]] tbst_descend_tip [OF assms(1,3)] m n
    by (simp add: tbst_rethread_def)
qed

section \<open>Positions\<close>

lemma trep_subtree: "trep h lo hi t \<Longrightarrow> trep h (lo_at lo t p) (hi_at hi t p) (subtree t p)"
proof (induction t p arbitrary: lo hi rule: in_tree.induct)
  case (3 l y r d ds)
  then show ?case by (cases y) auto
qed auto

text \<open>The link and the tag at the place of a subtree.\<close>

lemma place_link:
  "place q e t p = (Some a, d) \<Longrightarrow> p \<noteq> [] \<Longrightarrow> in_tree t p \<Longrightarrow> trep h lo hi t \<Longrightarrow>
     \<exists>n. h a = Some n \<and> tbst_link n d = root_of (subtree t p) (if d then hi_at hi t p else lo_at lo t p) \<and>
       tbst_tag n d = kind (subtree t p)"
proof (induction t p arbitrary: q e lo hi rule: in_tree.induct)
  case (3 l y r d' ds)
  obtain b x where y: "y = (b, x)" by fastforce
  show ?case
  proof (cases "ds = []")
    case True
    then show ?thesis using 3 y by (auto split: if_splits)
  next
    case False
    then show ?thesis using "3.IH" [OF _ False] "3.prems" y by (auto split: if_splits)
  qed
qed auto

text \<open>A subtree is replaced and the link to it set.\<close>

lemma trep_put:
  assumes "place q e t p = (Some a, d)" "p \<noteq> []" "in_tree t p" "distinct (addrs t)" "trep h lo hi t"
    and "agree (set (addrs t) - set (addrs (subtree t p)) - {a}) h h'"
    and "h a = Some n" "h' a = Some (set_tag d (kind s) (set_link d (root_of s (if d then hi_at hi t p else lo_at lo t p)) n))"
    and "trep h' (lo_at lo t p) (hi_at hi t p) s"
  shows "trep h' lo hi (put_at t p s)"
  using assms
proof (induction t p arbitrary: q e lo hi rule: in_tree.induct)
  case (3 l y r d' ds)
  obtain b x where y: "y = (b, x)" by fastforce
  have dis: "distinct (addrs l)" "distinct (addrs r)" "b \<notin> set (addrs l)" "b \<notin> set (addrs r)"
    "set (addrs l) \<inter> set (addrs r) = {}"
    using "3.prems"(4) y by auto
  have rep: "h b = Some (tnode lo hi l x r)" "trep h lo (Some b) l" "trep h (Some b) hi r"
    using "3.prems"(5) y by simp_all
  let ?s = "if d' then r else l" and ?o = "if d' then l else r"
  have sub: "set (addrs (subtree ?s ds)) \<subseteq> set (addrs ?s)" by (rule addrs_subtree)
  show ?case
  proof (cases "ds = []")
    case True
    then have ab: "a = b" "d = d'" using "3.prems"(1) y by auto
    then have "agree (set (addrs ?o)) h h'"
      by (intro agree_subset [OF "3.prems"(6)]) (use dis y True in auto)
    then have "trep h' (if d' then lo else Some b) (if d' then Some b else hi) ?o"
      using rep by (auto intro: trep_agree)
    moreover have "n = tnode lo hi l x r" using rep(1) "3.prems"(7) ab by simp
    ultimately show ?thesis using "3.prems"(8,9) True ab y by (auto simp: eq_tnode)
  next
    case False
    then have pl: "place (Some b) d' ?s ds = (Some a, d)" "in_tree ?s ds" using "3.prems"(1,3) y by simp_all
    then have a: "a \<in> set (addrs ?s)" using place_in False by blast
    have bs: "agree (set (addrs ?o)) h h'" "agree {b} h h'" "agree (set (addrs ?s) - set (addrs (subtree ?s ds)) - {a}) h h'"
      by (rule agree_subset [OF "3.prems"(6)], use dis a sub y in \<open>auto split: if_splits\<close>)+
    then have hb: "h' b = h b" by (simp add: agree_def)
    have lh: "lo_at lo (BNode l y r) (d' # ds) = lo_at (if d' then Some b else lo) ?s ds"
      "hi_at hi (BNode l y r) (d' # ds) = hi_at (if d' then hi else Some b) ?s ds" using y by simp_all
    have "trep h' (if d' then Some b else lo) (if d' then hi else Some b) (put_at ?s ds s)"
      by (rule "3.IH" [OF pl(1) False pl(2) _ _ bs(3) "3.prems"(7)])
        (use dis rep "3.prems"(8,9) lh in auto)
    moreover have "kind (put_at ?s ds s) = kind ?s" "root_of (put_at ?s ds s) th = root_of ?s th" for th
      using pl(2) False by (cases ds; cases ?s; auto split: prod.splits; fail)+
    ultimately show ?thesis
      using rep hb bs(1) y by (auto simp: eq_tnode intro: trep_agree)
  qed
qed auto

text \<open>
  A whole tree: the root pointer leads to it, the threads at its ends are null, and no node
  occurs twice.
\<close>

definition rooted :: "'a tbst_heap \<Rightarrow> 'a tbst_table \<Rightarrow> 'a ghost \<Rightarrow> bool" where
  "rooted h tree t \<longleftrightarrow> tbst_root tree = root_of t None \<and> trep h None None t \<and> distinct (addrs t)"

definition bound :: "bool \<Rightarrow> 'a ghost \<Rightarrow> bool list \<Rightarrow> addr option" where
  "bound d t p = (if d then hi_at None t p else lo_at None t p)"

text \<open>What an assignment to the link of a place does.\<close>

lemma rooted_put:
  assumes "rooted h tree t" "in_tree t p" "place None False t p = (q, d)"
    and "agree (set (addrs t) - set (addrs (subtree t p)) - set_option q) h h'"
    and "trep h' (lo_at None t p) (hi_at None t p) s" "distinct (addrs (put_at t p s))"
    and "\<And>a n. q = Some a \<Longrightarrow> h a = Some n \<Longrightarrow> h' a = Some (set_tag d (kind s) (set_link d (root_of s (bound d t p)) n))"
    and "tbst_root tree' = (if q = None then root_of s None else tbst_root tree)"
  shows "rooted h' tree' (put_at t p s)"
proof (cases q)
  case None
  then have "p = []" using place_root [of None False t p d] assms(2,3) by simp
  then show ?thesis using assms None by (simp add: rooted_def)
next
  case (Some a)
  then have "p \<noteq> []" using assms(3) by auto
  then have r: "root_of (put_at t p s) None = root_of t None" using assms(2) by (cases p; cases t) (auto split: prod.splits)
  have rep: "trep h None None t" "distinct (addrs t)" using assms(1) by (simp_all add: rooted_def)
  have pl: "place None False t p = (Some a, d)" using assms(3) Some by simp
  then obtain n where n: "h a = Some n" using place_link [OF pl \<open>p \<noteq> []\<close> assms(2) rep(1)] by blast
  have "trep h' None None (put_at t p s)"
    by (rule trep_put [OF pl \<open>p \<noteq> []\<close> assms(2) rep(2,1) _ n _ assms(5)])
      (use assms(4,7) n Some in \<open>simp_all add: bound_def\<close>)
  then show ?thesis using assms(1,6,8) r Some by (simp add: rooted_def)
qed

end
