(* ===== verification/TBST_Delete.thy ===== *)
theory TBST_Delete
  imports TBST_Rep
begin

text \<open>
  Deletion from a threaded tree: the assignments of \<^verbatim>\<open>tbst_delete\<close> turn the subtree of the deleted
  node into what \<open>bst_unlink\<close> makes of it in an unthreaded tree, with the threads redirected.
\<close>

section \<open>The link to the subtree\<close>

lemma tbst_put_ok:
  assumes "rooted h tree t" "in_tree t p" "place None False t p = (q, d)" "subtree t p \<noteq> BNull"
    and "agree (set (addrs t) - set (addrs (subtree t p))) h h1"
    and "trep h1 (lo_at None t p) (hi_at None t p) s" "s \<noteq> BNull"
    and "distinct (addrs s)" "set (addrs s) \<subseteq> set (addrs (subtree t p))"
  shows "\<exists>h' tree'. tbst_put h1 tree q d (root_of s th) = pret (h', tree') \<and> rooted h' tree' (put_at t p s) \<and>
    agree (- (set (addrs t) - set (addrs (subtree t p)))) h1 h' \<and>
    tbst_compare tree' = tbst_compare tree \<and> tbst_count tree' = tbst_count tree"
proof (cases q)
  case None
  then have p: "p = []" "d = False" using place_root [of None False t p d] assms(2,3) by simp_all
  have th: "root_of s th = root_of s None" by (rule top_node [OF assms(7)])
  have "rooted h1 (tree\<lparr>tbst_root := root_of s None\<rparr>) (put_at t p s)"
    using assms(6,8) p by (simp add: rooted_def)
  then show ?thesis using p None by (simp add: tbst_put_def th)
next
  case (Some b)
  then have p: "p \<noteq> []" "place None False t p = (Some b, d)" using assms(3) by auto
  have rep: "trep h None None t" "distinct (addrs t)" using assms(1) by (simp_all add: rooted_def)
  have b: "b \<in> set (addrs t)" "b \<notin> set (addrs (subtree t p))"
    using place_in [OF p(2,1) assms(2)] place_outside [OF p(2,1) assms(2) rep(2)] by simp_all
  obtain n where n: "h b = Some n" "tbst_tag n d = kind (subtree t p)"
    using place_link [OF p(2,1) assms(2) rep(1)] by blast
  have h1b: "h1 b = Some n" using agreeD [OF assms(5), of b] b n(1) by simp
  let ?n = "set_link d (root_of s th) n"
  have e: "?n = set_tag d (kind s) (set_link d (root_of s (bound d t p)) n)"
    using n(2) assms(4,7) top_node [OF assms(7)] by (simp add: kind_def node_eq fun_upd_apply)
  have "rooted (h1(b \<mapsto> ?n)) tree (put_at t p s)"
  proof (rule rooted_put [OF assms(1,2,3)])
    show "agree (set (addrs t) - set (addrs (subtree t p)) - set_option q) h (h1(b \<mapsto> ?n))"
      using assms(5) Some by (simp add: agree_def fun_upd_apply)
    show "trep (h1(b \<mapsto> ?n)) (lo_at None t p) (hi_at None t p) s" using assms(6,9) b(2) by (metis trep_upd subsetD)
    show "distinct (addrs (put_at t p s))"
      using distinct_put [OF assms(2) rep(2) assms(8), of "{}"] assms(9) by simp
    show "tbst_root tree = (if q = None then root_of s None else tbst_root tree)" using Some by simp
  qed (use n e Some in auto)
  moreover have "agree (- (set (addrs t) - set (addrs (subtree t p)))) h1 (h1(b \<mapsto> ?n))"
    using b by (simp add: agree_def fun_upd_apply)
  ultimately show ?thesis using Some h1b by (simp add: tbst_put_def)
qed

text \<open>The subtree at the place becomes empty.\<close>

lemma tbst_put_null:
  assumes "rooted h tree t" "in_tree t p" "place None False t p = (q, d)"
  shows "\<exists>h' tree'. pbind (tbst_put h tree q d (bound d t p)) (\<lambda>(h, tree).
       if q \<noteq> None then pbind (assign h q (set_tag d TBST_THREAD)) (\<lambda>h. pret (h, tree)) else pret (h, tree)) =
      pret (h', tree') \<and> rooted h' tree' (put_at t p BNull) \<and>
    agree (- (set (addrs t) - set (addrs (subtree t p)))) h h' \<and>
    tbst_compare tree' = tbst_compare tree \<and> tbst_count tree' = tbst_count tree"
proof (cases q)
  case None
  then have p: "p = []" "d = False" using place_root [of None False t p d] assms(2,3) by simp_all
  then show ?thesis using None by (simp add: tbst_put_def rooted_def bound_def)
next
  case (Some b)
  then have p: "p \<noteq> []" "place None False t p = (Some b, d)" using assms(3) by auto
  have rep: "trep h None None t" "distinct (addrs t)" using assms(1) by (simp_all add: rooted_def)
  have b: "b \<in> set (addrs t)" "b \<notin> set (addrs (subtree t p))"
    using place_in [OF p(2,1) assms(2)] place_outside [OF p(2,1) assms(2) rep(2)] by simp_all
  obtain n where n: "h b = Some n" using place_link [OF p(2,1) assms(2) rep(1)] by blast
  let ?n = "set_tag d TBST_THREAD (set_link d (bound d t p) n)"
  have "rooted (h(b \<mapsto> ?n)) tree (put_at t p BNull)"
  proof (rule rooted_put [OF assms])
    show "agree (set (addrs t) - set (addrs (subtree t p)) - set_option q) h (h(b \<mapsto> ?n))"
      using Some by (simp add: agree_def fun_upd_apply)
    show "distinct (addrs (put_at t p BNull))" using distinct_put [OF assms(2) rep(2), of BNull "{}"] by simp
    show "tbst_root tree = (if q = None then root_of BNull None else tbst_root tree)" using Some by simp
  qed (use n Some in auto)
  moreover have "agree (- (set (addrs t) - set (addrs (subtree t p)))) h (h(b \<mapsto> ?n))"
    using b by (simp add: agree_def fun_upd_apply)
  ultimately show ?thesis using Some n by (simp add: tbst_put_def)
qed

section \<open>A node without right child\<close>

text \<open>What a removal leaves.\<close>

definition unlinked ::
  "'a tbst_heap \<Rightarrow> 'a tbst_table \<Rightarrow> 'a ghost \<Rightarrow> bool list \<Rightarrow> addr \<Rightarrow> 'a ghost \<Rightarrow> ('a tbst_heap \<times> 'a tbst_table) prog \<Rightarrow> bool" where
  "unlinked h tree t p a s m \<longleftrightarrow> (\<exists>h' tree'. m = pret (h', tree') \<and> rooted h' tree' (put_at t p s) \<and>
     agree (- set (addrs t) \<union> {a}) h h' \<and>
     tbst_compare tree' = tbst_compare tree \<and> tbst_count tree' = tbst_count tree)"

lemma unlinked_put:
  assumes "rooted h tree t" "in_tree t p" "place None False t p = (q, d)" "subtree t p = BNode l (a, x) r"
    and "agree (- (set (addrs l) \<union> set (addrs r))) h h1"
    and "trep h1 (lo_at None t p) (hi_at None t p) s" "s \<noteq> BNull"
    and "distinct (addrs s)" "set (addrs s) \<subseteq> set (addrs l) \<union> set (addrs r)"
  shows "unlinked h tree t p a s (tbst_put h1 tree q d (root_of s th))"
proof -
  have sub: "set (addrs (BNode l (a, x) r)) \<subseteq> set (addrs t)" "distinct (addrs (BNode l (a, x) r))"
    using addrs_subtree [of t p] distinct_subtree [of t p] assms(1,4) by (simp_all add: rooted_def)
  have ag: "agree (set (addrs t) - set (addrs (subtree t p))) h h1"
    by (rule agree_subset [OF assms(5)]) (use assms(4) in auto)
  have "subtree t p \<noteq> BNull" "set (addrs s) \<subseteq> set (addrs (subtree t p))" using assms(4,9) by auto
  then obtain h' tree' where *: "tbst_put h1 tree q d (root_of s th) = pret (h', tree')" "rooted h' tree' (put_at t p s)"
    "agree (- (set (addrs t) - set (addrs (subtree t p)))) h1 h'"
    "tbst_compare tree' = tbst_compare tree" "tbst_count tree' = tbst_count tree"
    using tbst_put_ok [OF assms(1,2,3) _ ag assms(6,7,8)] by blast
  have "agree (- set (addrs t) \<union> {a}) h h1"
    by (rule agree_subset [OF assms(5)]) (use sub in auto)
  moreover have "agree (- set (addrs t) \<union> {a}) h1 h'"
    by (rule agree_subset [OF *(3)]) (use sub assms(4) in auto)
  ultimately show ?thesis using * agree_trans unfolding unlinked_def by blast
qed

lemma tbst_unlink_left_ok:
  assumes "rooted h tree t" "in_tree t p" "place None False t p = (q, d)" "subtree t p = BNode l (a, x) BNull"
  shows "unlinked h tree t p a l (tbst_unlink_left h tree q d (Some a))"
proof -
  have rep: "trep h (lo_at None t p) (hi_at None t p) (BNode l (a, x) BNull)" "distinct (addrs (BNode l (a, x) BNull))"
    using trep_subtree [of h None None t p] distinct_subtree [of t p] assms(1,4) by (simp_all add: rooted_def)
  then have n: "h a = Some (tnode (lo_at None t p) (hi_at None t p) l x BNull)"
    "trep h (lo_at None t p) (Some a) l" "distinct (addrs l)" "a \<notin> set (addrs l)" by simp_all
  show ?thesis
  proof (cases "l = BNull")
    case True
    then obtain h' tree' where "tbst_unlink_left h tree q d (Some a) = pret (h', tree')" "rooted h' tree' (put_at t p BNull)"
      "agree (- (set (addrs t) - set (addrs (subtree t p)))) h h'"
      "tbst_compare tree' = tbst_compare tree" "tbst_count tree' = tbst_count tree"
      using n tbst_put_null [OF assms(1-3)] by (auto simp: tbst_unlink_left_def bound_def split: if_splits)
    moreover have "agree (- set (addrs t) \<union> {a}) h h'"
      by (rule agree_subset [OF calculation(3)]) (use assms(4) in auto)
    ultimately show ?thesis using True by (simp add: unlinked_def)
  next
    case False
    obtain m k where m: "tbst_rethread h (root_of l (lo_at None t p)) (hi_at None t p) = pret (h(m \<mapsto> set_link True (hi_at None t p) k))"
      "m \<in> set (addrs l)" "trep (h(m \<mapsto> set_link True (hi_at None t p) k)) (lo_at None t p) (hi_at None t p) l"
      using tbst_rethread_ok [OF n(2,3) False] by metis
    let ?h = "h(m \<mapsto> set_link True (hi_at None t p) k)"
    have "a \<noteq> m" using n(4) m(2) by auto
    then have a: "?h a = Some (tnode (lo_at None t p) (hi_at None t p) l x BNull)" using n(1) by simp
    have "agree (- (set (addrs l) \<union> set (addrs (BNull :: 'a ghost)))) h ?h" using m(2) by (simp add: agree_upd)
    from unlinked_put [OF assms(1-4) this m(3) False n(3)]
    show ?thesis using n(1) m(1) a False by (simp add: tbst_unlink_left_def)
  qed
qed

section \<open>A right child without left child\<close>

lemma tbst_unlink_right_ok:
  assumes "rooted h tree t" "in_tree t p" "place None False t p = (q, d)"
    and "subtree t p = BNode l (a, x) (BNode BNull (b, y) r)"
  shows "unlinked h tree t p a (BNode l (b, y) r) (tbst_unlink_right h tree q d (Some a) (Some b))"
proof -
  let ?lo = "lo_at None t p" and ?hi = "hi_at None t p"
  have rep: "trep h ?lo ?hi (BNode l (a, x) (BNode BNull (b, y) r))"
    and dis: "distinct (addrs (BNode l (a, x) (BNode BNull (b, y) r)))"
    using trep_subtree [of h None None t p] distinct_subtree [of t p] assms(1,4) by (simp_all add: rooted_def)
  have n: "h a = Some (tnode ?lo ?hi l x (BNode BNull (b, y) r))" "trep h ?lo (Some a) l"
    "h b = Some (tnode (Some a) ?hi BNull y r)" "trep h (Some b) ?hi r" using rep by simp_all
  let ?h = "h(b \<mapsto> set_link False (root_of l ?lo) (tnode (Some a) ?hi BNull y r))"
  let ?h1 = "h(b \<mapsto> tnode ?lo ?hi l y r)"
  have e: "set_tag False (kind l) (set_link False (root_of l ?lo) (tnode (Some a) ?hi BNull y r)) = tnode ?lo ?hi l y r"
    by (simp add: eq_tnode)
  have ab: "a \<noteq> b" "b \<notin> set (addrs l)" "b \<notin> set (addrs r)" "distinct (addrs l)" "a \<notin> set (addrs l)"
    "set (addrs l) \<inter> set (addrs r) = {}"
    using dis by auto
  have ag: "agree (- (set (addrs l) \<union> set (addrs (BNode BNull (b, y) r)))) h ?h1" by (simp add: agree_upd)
  have dis': "distinct (addrs (BNode l (b, y) r))" "set (addrs (BNode l (b, y) r)) \<subseteq> set (addrs l) \<union> set (addrs (BNode BNull (b, y) r))"
    using dis by auto
  show ?thesis
  proof (cases "l = BNull")
    case True
    have "trep ?h1 ?lo ?hi (BNode l (b, y) r)" using n ab True by simp
    from unlinked_put [OF assms ag this _ dis'] show ?thesis
      using n ab e True by (simp add: tbst_unlink_right_def)
  next
    case False
    have l: "trep ?h1 ?lo (Some a) l" using n(2) ab by simp
    obtain m k where m: "tbst_rethread ?h1 (root_of l ?lo) (Some b) = pret (?h1(m \<mapsto> set_link True (Some b) k))"
      "m \<in> set (addrs l)" "trep (?h1(m \<mapsto> set_link True (Some b) k)) ?lo (Some b) l"
      using tbst_rethread_ok [OF l ab(4) False] by metis
    let ?h2 = "?h1(m \<mapsto> set_link True (Some b) k)"
    have mb: "m \<noteq> b" "m \<notin> set (addrs r)" "m \<noteq> a" using m(2) ab by auto
    have "trep ?h2 ?lo ?hi (BNode l (b, y) r)" using n m(3) ab mb by simp
    moreover have "agree (- (set (addrs l) \<union> set (addrs (BNode BNull (b, y) r)))) h ?h2"
      using ag m(2) by (simp add: agree_upd)
    ultimately have "unlinked h tree t p a (BNode l (b, y) r) (tbst_put ?h2 tree q d (Some b))"
      using unlinked_put [OF assms _ _ _ dis', of ?h2 None] by simp
    then show ?thesis using n ab e False m(1) by (simp add: tbst_unlink_right_def)
  qed
qed

section \<open>The inorder successor\<close>

declare tbst_successor.simps [simp del]

lemma tbst_successor_ok:
  assumes "trep h lo hi (BNode (BNode sl sy sr) ry rr)" "distinct (addrs (BNode (BNode sl sy sr) ry rr))"
    and "bst_min sl sy sr ry rr = ((s, y), t')"
  shows "\<exists>r h' n. tbst_successor h (Some (fst ry)) = pret (Some r, Some s) \<and> tbst_detach h (Some r) (Some s) = pret h' \<and>
    agree (- {r}) h h' \<and> r \<in> set (addrs t') \<and> trep h' (Some s) hi t' \<and> root_of t' None = Some (fst ry) \<and>
    h s = Some n \<and> tbst_data n = y \<and> tbst_tag n False = TBST_THREAD"
  using assms
proof (induction sl sy sr ry rr arbitrary: hi t' rule: bst_min.induct)
  case (1 sy sr ry rr)
  obtain a x b z where y: "sy = (a, x)" "ry = (b, z)" by fastforce
  have t': "s = a" "y = x" "t' = BNode sr (b, z) rr" using "1.prems"(3) y by simp_all
  have n: "h b = Some (tnode lo hi (BNode BNull (a, x) sr) z rr)" "h a = Some (tnode lo (Some b) BNull x sr)"
    "trep h (Some a) (Some b) sr" "trep h (Some b) hi rr" using "1.prems"(1) y by simp_all
  have dis: "a \<noteq> b" "b \<notin> set (addrs sr)" "b \<notin> set (addrs rr)" using "1.prems"(2) y by auto
  have s: "tbst_successor h (Some b) = pret (Some b, Some a)" using n by (subst tbst_successor.simps) simp
  let ?h = "h(b \<mapsto> tnode (Some a) hi sr z rr)"
  have "set_link False (root_of sr (Some a)) (tnode lo hi (BNode BNull (a, x) sr) z rr) = tnode (Some a) hi sr z rr" if "sr \<noteq> BNull"
    using that by (simp add: eq_tnode)
  moreover have "set_tag False TBST_THREAD (set_link False (Some a) (tnode lo hi (BNode BNull (a, x) sr) z rr)) = tnode (Some a) hi sr z rr"
    if "sr = BNull" using that by (simp add: eq_tnode)
  moreover have "root_of sr (Some b) = root_of sr (Some a)" if "sr \<noteq> BNull" using that by (rule top_node)
  ultimately have d: "tbst_detach h (Some b) (Some a) = pret ?h"
    using n dis by (cases "sr = BNull") (simp_all add: tbst_detach_def)
  have "trep ?h (Some a) hi t'" using n dis t' by simp
  moreover have "agree (- {b}) h ?h" by (simp add: agree_upd)
  ultimately show ?case using s d n t' y by (intro exI [of _ b] exI [of _ ?h] exI [of _ "tnode lo (Some b) BNull x sr"]) simp
next
  case (2 ul uy ur sy sr ry rr)
  obtain a x b z c v where y: "sy = (a, x)" "ry = (b, z)" "uy = (c, v)" by (metis prod.exhaust)
  obtain t1 where t1: "bst_min ul uy ur sy sr = ((s, y), t1)" "t' = BNode t1 ry rr"
    using "2.prems"(3) by (auto split: prod.splits)
  have n: "h b = Some (tnode lo hi (BNode (BNode ul uy ur) sy sr) z rr)"
    "trep h lo (Some b) (BNode (BNode ul uy ur) sy sr)" "trep h (Some b) hi rr"
    using "2.prems"(1) y(2) by simp_all
  have dis: "distinct (addrs (BNode (BNode ul uy ur) sy sr))" "b \<notin> set (addrs (BNode (BNode ul uy ur) sy sr))"
    "b \<notin> set (addrs rr)" "set (addrs (BNode (BNode ul uy ur) sy sr)) \<inter> set (addrs rr) = {}"
    using "2.prems"(2) unfolding y(2) addrs_simps(2) [of "BNode (BNode ul uy ur) sy sr" b z rr]
    by (auto simp del: addrs_simps)
  obtain r h' k where ih: "tbst_successor h (Some a) = pret (Some r, Some s)" "tbst_detach h (Some r) (Some s) = pret h'"
    "agree (- {r}) h h'" "r \<in> set (addrs t1)" "trep h' (Some s) (Some b) t1" "root_of t1 None = Some a"
    "h s = Some k" "tbst_data k = y" "tbst_tag k False = TBST_THREAD"
    using "2.IH" [OF n(2) dis(1) t1(1)] y(1) by auto
  have "r \<in> set (addrs (BNode (BNode ul uy ur) sy sr))" using addrs_min [OF t1(1)] ih(4) by (metis list.set_intros(2))
  then have rb: "r \<noteq> b" "r \<notin> set (addrs rr)" using dis by auto
  have suc: "tbst_successor h (Some b) = pret (Some r, Some s)"
    using n y ih(1) by (subst tbst_successor.simps) simp
  have "t1 \<noteq> BNull" using ih(4) by auto
  then have "root_of t1 th = Some a" for th using ih(6) top_node by metis
  then have "tnode lo hi (BNode (BNode ul uy ur) sy sr) z rr = tnode (Some s) hi t1 z rr"
    using y(1) \<open>t1 \<noteq> BNull\<close> by (simp add: eq_tnode)
  moreover have "h' b = h b" "agree (set (addrs rr)) h h'" using ih(3) rb by (auto simp: agree_def)
  ultimately have "trep h' (Some s) hi t'" using n ih(5) t1(2) y(2) by (auto intro: trep_agree)
  then show ?case using suc ih t1(2) y(2) by auto
qed

lemma tbst_take_over_ok:
  assumes "h p = Some (tnode lo hi l x r)" "h s = Some n" "tbst_tag n False = TBST_THREAD" "r \<noteq> BNull"
    and "trep h lo (Some p) l" "distinct (addrs l)" "p \<notin> set (addrs l)" "s \<notin> set (addrs l)" "p \<noteq> s"
    and "root_of r None = root_of r' None" "r' \<noteq> BNull"
  shows "\<exists>h'. tbst_take_over h (Some p) (Some s) = pret h' \<and> agree (- (insert s (set (addrs l)))) h h' \<and>
    trep h' lo (Some s) l \<and> h' s = Some (tnode lo hi l (tbst_data n) r')"
proof -
  have e: "set_tag True TBST_CHILD (set_link True (root_of r hi) n') = tnode lo hi l (tbst_data n) r'"
    if "tbst_link n' False = root_of l lo" "tbst_tag n' False = kind l" "tbst_data n' = tbst_data n" for n'
    using that assms(10,11) top_node [OF assms(4), of hi None] top_node [OF assms(11), of hi None] by (simp add: eq_tnode)
  let ?n = "set_link False (root_of l lo) n"
  show ?thesis
  proof (cases "l = BNull")
    case True
    let ?h = "h(s \<mapsto> tnode lo hi l (tbst_data n) r')"
    have "tbst_take_over h (Some p) (Some s) = pret ?h"
      using assms(1,2,3,9) True e [of ?n] by (simp add: tbst_take_over_def)
    then show ?thesis using True by (intro exI [of _ ?h]) (simp add: agree_upd)
  next
    case False
    let ?h1 = "h(s \<mapsto> ?n)"
    have "trep ?h1 lo (Some p) l" using assms(5,8) by simp
    from tbst_rethread_ok [OF this assms(6) False, of lo "Some s"]
    obtain m k where m: "tbst_rethread ?h1 (root_of l lo) (Some s) = pret (?h1(m \<mapsto> set_link True (Some s) k))"
      "m \<in> set (addrs l)" "trep (?h1(m \<mapsto> set_link True (Some s) k)) lo (Some s) l"
      by metis
    let ?h2 = "?h1(m \<mapsto> set_link True (Some s) k)"
    let ?h3 = "?h2(s \<mapsto> tnode lo hi l (tbst_data n) r')"
    have ne: "m \<noteq> s" "m \<noteq> p" "s \<noteq> m" "p \<noteq> m" using m(2) assms(7,8) by auto
    have "tbst_take_over h (Some p) (Some s) = pret ?h3"
      using assms(1,2,9) False ne m(1) e [of "set_tag False TBST_CHILD ?n"] by (simp add: tbst_take_over_def)
    moreover have "trep ?h3 lo (Some s) l" using m(3) unfolding trep_upd [OF assms(8)] .
    moreover have "agree (- insert s (set (addrs l))) h ?h3" using m(2) by (simp add: agree_upd)
    ultimately show ?thesis by (intro exI [of _ ?h3]) simp
  qed
qed

lemma tbst_unlink_successor_ok:
  assumes "rooted h tree t" "in_tree t p" "place None False t p = (q, d)"
    and "subtree t p = BNode l (a, x) (BNode (BNode sl sy sr) ry rr)" "bst_min sl sy sr ry rr = ((s, y), r')"
  shows "unlinked h tree t p a (BNode l (s, y) r') (tbst_unlink_successor h tree q d (Some a) (Some (fst ry)))"
proof -
  let ?lo = "lo_at None t p" and ?hi = "hi_at None t p" and ?r = "BNode (BNode sl sy sr) ry rr"
  have rep: "trep h ?lo ?hi (BNode l (a, x) ?r)" and dis: "distinct (addrs (BNode l (a, x) ?r))"
    using trep_subtree [of h None None t p] distinct_subtree [of t p] assms(1,4) by (simp_all add: rooted_def)
  have n: "h a = Some (tnode ?lo ?hi l x ?r)" "trep h ?lo (Some a) l" "trep h (Some a) ?hi ?r"
    using rep by simp_all
  have ar: "addrs ?r = s # addrs r'" using addrs_min [OF assms(5)] by simp
  then have ds: "distinct (addrs l)" "distinct (s # addrs r')" "a \<notin> set (addrs l)" "a \<notin> set (s # addrs r')"
    "set (addrs l) \<inter> set (s # addrs r') = {}" "distinct (addrs ?r)"
    using dis by (simp_all del: addrs_simps(2) add: addrs_simps(2) [of l])
  obtain r h1 k where suc: "tbst_successor h (Some (fst ry)) = pret (Some r, Some s)"
    "tbst_detach h (Some r) (Some s) = pret h1" "agree (- {r}) h h1" "r \<in> set (addrs r')"
    "trep h1 (Some s) ?hi r'" "root_of r' None = Some (fst ry)" "h s = Some k" "tbst_data k = y" "tbst_tag k False = TBST_THREAD"
    using tbst_successor_ok [OF n(3) ds(6) assms(5)] by blast
  have r: "r \<noteq> a" "r \<noteq> s" "r \<notin> set (addrs l)" using suc(4) ds by auto
  have h1: "h1 a = Some (tnode ?lo ?hi l x ?r)" "h1 s = Some k" using suc(3,7) n(1) r by (auto simp: agree_def)
  have l1: "trep h1 ?lo (Some a) l" by (rule trep_agree [OF n(2) agree_subset [OF suc(3)]]) (use r in auto)
  have rn: "r' \<noteq> BNull" "root_of ?r None = root_of r' None" using suc(4,6) by (auto, cases ry, auto)
  obtain h2 where h2: "tbst_take_over h1 (Some a) (Some s) = pret h2" "agree (- insert s (set (addrs l))) h1 h2"
    "trep h2 ?lo (Some s) l" "h2 s = Some (tnode ?lo ?hi l y r')"
    using tbst_take_over_ok [OF h1(1,2) suc(9) _ l1 ds(1,3) _ _ rn(2,1)] ds suc(8) by auto
  have "agree (set (addrs r')) h1 h2" by (rule agree_subset [OF h2(2)]) (use ds in auto)
  then have rep': "trep h2 ?lo ?hi (BNode l (s, y) r')" using h2 suc(5) by (auto intro: trep_agree)
  have ag: "agree (- (set (addrs l) \<union> set (addrs ?r))) h h2"
    by (rule agree_trans [OF agree_subset [OF suc(3)] agree_subset [OF h2(2)]]) (use ar suc(4) in auto)
  have "distinct (addrs (BNode l (s, y) r'))" "set (addrs (BNode l (s, y) r')) \<subseteq> set (addrs l) \<union> set (addrs ?r)"
    using ds ar by auto
  from unlinked_put [OF assms(1-4) ag rep' _ this, of None]
  show ?thesis using suc(1,2) h2(1) by (simp add: tbst_unlink_successor_def)
qed

lemma tbst_unlink_ok:
  assumes "rooted h tree t" "in_tree t p" "place None False t p = (q, d)" "subtree t p = BNode l (a, x) r"
  shows "unlinked h tree t p a (bst_unlink (BNode l (a, x) r)) (tbst_unlink h tree q d (Some a))"
proof -
  have rep: "trep h (lo_at None t p) (hi_at None t p) (BNode l (a, x) r)"
    using trep_subtree [of h None None t p] assms(1,4) by (simp add: rooted_def)
  then have n: "h a = Some (tnode (lo_at None t p) (hi_at None t p) l x r)" by simp
  consider "r = BNull" | b y r1 where "r = BNode BNull (b, y) r1"
    | sl sy sr ry rr where "r = BNode (BNode sl sy sr) ry rr"
    by (metis bst_node.exhaust surj_pair)
  then show ?thesis
  proof cases
    case 1
    then show ?thesis using tbst_unlink_left_ok [OF assms(1-3)] assms(4) n by (simp add: tbst_unlink_def)
  next
    case 2
    then show ?thesis using tbst_unlink_right_ok [OF assms(1-3)] assms(4) n rep by (simp add: tbst_unlink_def)
  next
    case 3
    obtain m r' where m: "bst_min sl sy sr ry rr = (m, r')" by fastforce
    obtain b y where ry: "ry = (b, y)" by fastforce
    have "unlinked h tree t p a (BNode l m r') (tbst_unlink_successor h tree q d (Some a) (Some b))"
      using tbst_unlink_successor_ok [OF assms(1-3)] assms(4) 3 m ry by (metis fst_conv surj_pair)
    then show ?thesis using 3 n rep ry m by (simp add: tbst_unlink_def)
  qed
qed

section \<open>The search\<close>

declare tbst_find_loop.simps [simp del] tbst_probe_loop.simps [simp del] tbst_delete_loop.simps [simp del]

lemma tbst_find_loop_ok:
  "trep h lo hi t \<Longrightarrow> filled t \<Longrightarrow> t \<noteq> BNull \<Longrightarrow>
     tbst_find_loop h tree item (root_of t th) = pret (root_of (subtree t (path_to (tbst_compare tree) item t)) None)"
proof (induction t arbitrary: lo hi th)
  case (BNode l y r)
  obtain a x where y: "y = (a, Some x)" using BNode.prems(2) by (cases y) auto
  have n: "h a = Some (tnode lo hi l (Some x) r)" "trep h lo (Some a) l" "trep h (Some a) hi r" "filled l" "filled r"
    using BNode.prems y by simp_all
  let ?s = "if tbst_compare tree item x > 0 then r else l"
  have "tbst_find_loop h tree item (Some a) =
      (if tbst_compare tree item x = 0 then pret (Some a)
       else if ?s = BNull then pret None
       else pret (root_of (subtree ?s (path_to (tbst_compare tree) item ?s)) None))"
    using n BNode.IH by (subst tbst_find_loop.simps) (simp add: tbst_cmp_def)
  then show ?case using y by (auto simp: Let_def)
qed simp

lemma tbst_probe_loop_ok:
  "trep h lo hi t \<Longrightarrow> filled t \<Longrightarrow> t \<noteq> BNull \<Longrightarrow> p = path_to (tbst_compare tree) item t \<Longrightarrow>
     tbst_probe_loop h tree item (root_of t th) =
       pret (if subtree t p = BNull then (fst (place q e t p), Some (snd (place q e t p))) else (root_of (subtree t p) None, None))"
proof (induction t arbitrary: lo hi th q e p)
  case (BNode l y r)
  obtain a x where y: "y = (a, Some x)" using BNode.prems(2) by (cases y) auto
  have n: "h a = Some (tnode lo hi l (Some x) r)" "trep h lo (Some a) l" "trep h (Some a) hi r" "filled l" "filled r"
    using BNode.prems y by simp_all
  let ?c = "tbst_compare tree item x > 0"
  let ?s = "if ?c then r else l"
  let ?p = "path_to (tbst_compare tree) item ?s"
  have p: "p = (if tbst_compare tree item x = 0 then [] else ?c # ?p)"
    using BNode.prems(4) y by (simp add: Let_def)
  have "tbst_probe_loop h tree item (Some a) =
      (if tbst_compare tree item x = 0 then pret (Some a, None)
       else if ?s = BNull then pret (Some a, Some ?c)
       else pret (if subtree ?s ?p = BNull then (fst (place (Some a) ?c ?s ?p), Some (snd (place (Some a) ?c ?s ?p)))
         else (root_of (subtree ?s ?p) None, None)))"
    using n BNode.IH(1) [OF n(2,4)] BNode.IH(2) [OF n(3,5)]
    by (subst tbst_probe_loop.simps) (simp add: tbst_cmp_def)
  then show ?case using y p by (cases "tbst_compare tree item x = 0"; cases "?s = BNull") simp_all
qed simp

lemma tbst_delete_loop_ok:
  "trep h lo hi t \<Longrightarrow> filled t \<Longrightarrow> t \<noteq> BNull \<Longrightarrow> p = path_to (tbst_compare tree) item t \<Longrightarrow>
     tbst_delete_loop h tree item q e (root_of t th) =
       pret (if subtree t p = BNull then None
         else Some (fst (place q e t p), snd (place q e t p), root_of (subtree t p) None))"
proof (induction t arbitrary: lo hi th q e p)
  case (BNode l y r)
  obtain a x where y: "y = (a, Some x)" using BNode.prems(2) by (cases y) auto
  have n: "h a = Some (tnode lo hi l (Some x) r)" "trep h lo (Some a) l" "trep h (Some a) hi r" "filled l" "filled r"
    using BNode.prems y by simp_all
  let ?c = "tbst_compare tree item x > 0"
  let ?s = "if ?c then r else l"
  let ?p = "path_to (tbst_compare tree) item ?s"
  have p: "p = (if tbst_compare tree item x = 0 then [] else ?c # ?p)"
    using BNode.prems(4) y by (simp add: Let_def)
  have "tbst_delete_loop h tree item q e (Some a) =
      (if tbst_compare tree item x = 0 then pret (Some (q, e, Some a))
       else if ?s = BNull then pret None
       else pret (if subtree ?s ?p = BNull then None
         else Some (fst (place (Some a) ?c ?s ?p), snd (place (Some a) ?c ?s ?p), root_of (subtree ?s ?p) None)))"
    using n BNode.IH(1) [OF n(2,4)] BNode.IH(2) [OF n(3,5)]
    by (subst tbst_delete_loop.simps) (simp add: tbst_cmp_def)
  then show ?case using y p by (cases "tbst_compare tree item x = 0"; cases "?s = BNull") simp_all
qed simp

end
