(* ===== verification/TBST_Table.thy ===== *)
theory TBST_Table
  imports TBST_Delete
begin

text \<open>
  Threaded tables: the tree that is read off the heap, validity, and the behaviour of search,
  insertion, replacement and deletion on the sequence of items.
\<close>

section \<open>The tree on the heap\<close>

fun tree_of :: "nat \<Rightarrow> 'a tbst_heap \<Rightarrow> addr option \<Rightarrow> 'a ghost" where
  "tree_of 0 h p = BNull"
| "tree_of (Suc f) h None = BNull"
| "tree_of (Suc f) h (Some a) =
     (case h a of
        None \<Rightarrow> BNull
      | Some n \<Rightarrow>
          BNode (if tbst_tag n False = TBST_CHILD then tree_of f h (tbst_link n False) else BNull) (a, tbst_data n)
            (if tbst_tag n True = TBST_CHILD then tree_of f h (tbst_link n True) else BNull))"

lemma tree_of_rep: "trep h lo hi t \<Longrightarrow> length (addrs t) \<le> f \<Longrightarrow> t \<noteq> BNull \<Longrightarrow> tree_of f h (root_of t th) = t"
proof (induction t arbitrary: lo hi f th)
  case (BNode l y r)
  obtain a x where y: "y = (a, x)" by fastforce
  then obtain k where "f = Suc k" "length (addrs l) \<le> k" "length (addrs r) \<le> k"
    using BNode.prems(2) by (cases f) auto
  moreover have "h a = Some (tnode lo hi l x r)" "trep h lo (Some a) l" "trep h (Some a) hi r"
    using BNode.prems(1) y by simp_all
  ultimately show ?case using BNode.IH(1) [of lo "Some a" k lo] BNode.IH(2) [of "Some a" hi k hi] y by auto
qed simp

definition tbst_tree :: "'a tbst_heap \<Rightarrow> 'a tbst_table \<Rightarrow> 'a ghost" where
  "tbst_tree h tree = tree_of (unat (tbst_count tree)) h (tbst_root tree)"

text \<open>Addresses and data in order.\<close>

definition tbst_pairs :: "'a tbst_heap \<Rightarrow> 'a tbst_table \<Rightarrow> (addr \<times> 'a option) list" where
  "tbst_pairs h tree = bst_inorder (tbst_tree h tree)"

definition tbst_nodes :: "'a tbst_heap \<Rightarrow> 'a tbst_table \<Rightarrow> addr list" where
  "tbst_nodes h tree = addrs (tbst_tree h tree)"

definition tbst_items :: "'a tbst_heap \<Rightarrow> 'a tbst_table \<Rightarrow> 'a list" where
  "tbst_items h tree = datas (tbst_tree h tree)"

definition tbst_for :: "('a \<Rightarrow> 'a \<Rightarrow> int) \<Rightarrow> 'a tbst_heap \<Rightarrow> 'a tbst_table \<Rightarrow> bool" where
  "tbst_for cmp h tree \<longleftrightarrow> rooted h tree (tbst_tree h tree) \<and> filled (tbst_tree h tree) \<and>
     length (tbst_items h tree) = unat (tbst_count tree) \<and> tbst_compare tree = cmp \<and> ordered cmp (tbst_items h tree)"

lemma tree_of_null [simp]: "tree_of f h None = BNull"
  by (cases f) auto

lemma tbst_tree_rooted:
  assumes "rooted h tree t" "length (datas t) \<le> unat (tbst_count tree)"
  shows "tbst_tree h tree = t"
  using assms tree_of_rep [of h None None t "unat (tbst_count tree)" None]
  by (cases "t = BNull") (simp_all add: tbst_tree_def rooted_def)

lemma tbst_forI:
  assumes "rooted h tree t" "filled t" "length (datas t) = unat (tbst_count tree)"
    and "tbst_compare tree = cmp" "ordered cmp (datas t)"
  shows "tbst_for cmp h tree" "tbst_tree h tree = t" "tbst_items h tree = datas t"
  using assms tbst_tree_rooted [OF assms(1)] by (simp_all add: tbst_for_def tbst_items_def)

lemma rooted_alloc: "rooted h tree t \<Longrightarrow> a \<in> set (addrs t) \<Longrightarrow> h a \<noteq> None"
  by (auto simp: rooted_def dest: trep_alloc)

lemma tbst_locate_cases:
  assumes "keyed key cmp" "tbst_for cmp h tree"
  obtains (slot) p xs ys where "path_to cmp item (tbst_tree h tree) = p" "in_tree (tbst_tree h tree) p"
      "subtree (tbst_tree h tree) p = BNull"
      "lefts (tbst_tree h tree) p = xs" "rights (tbst_tree h tree) p = ys"
      "list_find cmp item (tbst_items h tree) = None"
      "list_insert cmp item (tbst_items h tree) = map (\<lambda>y. the (snd y)) xs @ item # map (\<lambda>y. the (snd y)) ys"
  | (found) p l a d r xs ys where "path_to cmp item (tbst_tree h tree) = p" "in_tree (tbst_tree h tree) p"
      "subtree (tbst_tree h tree) p = BNode l (a, Some d) r" "cmp item d = 0"
      "xs = map (\<lambda>y. the (snd y)) (lefts (tbst_tree h tree) p) @ datas l"
      "ys = datas r @ map (\<lambda>y. the (snd y)) (rights (tbst_tree h tree) p)"
      "tbst_items h tree = xs @ d # ys" "list_find cmp item (tbst_items h tree) = Some d" "ordered cmp (xs @ d # ys)"
proof -
  have f: "filled (tbst_tree h tree)" "ordered cmp (datas (tbst_tree h tree))"
    using assms(2) by (simp_all add: tbst_for_def tbst_items_def)
  show thesis using ghost_locate_cases [OF assms(1) f, where item = item] slot found unfolding tbst_items_def by metis
qed

section \<open>Insertion\<close>

lemma tbst_attach_ok:
  assumes "rooted h tree t" "in_tree t p" "place None False t p = (q, d)" "subtree t p = BNull" "h a = None"
  shows "\<exists>h' tree' n. tbst_attach h tree item q d a = pret (h', tree') \<and>
    rooted h' tree' (put_at t p (BNode BNull (a, Some item) BNull)) \<and> agree (- insert a (set (addrs t))) h h' \<and>
    h' a = Some n \<and> tbst_data n = Some item \<and>
    tbst_compare tree' = tbst_compare tree \<and> tbst_count tree' = tbst_count tree + 1"
proof -
  let ?s = "BNode BNull (a, Some item) BNull" and ?lo = "lo_at None t p" and ?hi = "hi_at None t p"
  let ?n = "tnode ?lo ?hi BNull (Some item) BNull"
  have rep: "trep h None None t" "distinct (addrs t)" "tbst_root tree = root_of t None"
    using assms(1) by (simp_all add: rooted_def)
  have a: "a \<notin> set (addrs t)" using rooted_alloc [OF assms(1)] assms(5) by blast
  have dis: "distinct (addrs (put_at t p ?s))" by (rule distinct_put [OF assms(2) rep(2), of _ "{a}"]) (use a in auto)
  show ?thesis
  proof (cases q)
    case None
    then have p: "p = []" "d = False" using place_root [of None False t p d] assms(2,3) by simp_all
    then have "t = BNull" using assms(4) by simp
    then have "tbst_attach h tree item q d a =
        pret (h(a \<mapsto> tnode None None BNull (Some item) BNull), tree\<lparr>tbst_count := tbst_count tree + 1, tbst_root := Some a\<rparr>)"
      using None p rep(3) by (simp add: tbst_attach_def tbst_get_def tbst_put_def tnode_def)
    then show ?thesis using p dis \<open>t = BNull\<close> by (simp add: rooted_def agree_upd)
  next
    case (Some b)
    then have p: "p \<noteq> []" "place None False t p = (Some b, d)" using assms(3) by auto
    have b: "b \<in> set (addrs t)" using place_in [OF p(2,1) assms(2)] .
    then have ab: "a \<noteq> b" "b \<noteq> a" using a by auto
    obtain k where k: "h b = Some k" "tbst_link k d = bound d t p"
      using place_link [OF p(2,1) assms(2) rep(1)] assms(4) by (auto simp: bound_def)
    have "t \<noteq> BNull" using b by auto
    then have root: "tbst_root tree \<noteq> None" using rep(3) top_in by fastforce
    have "(if d then ?lo else ?hi) = Some b" by (rule place_bound [OF p(2,1) assms(2)])
    then have n: "\<lparr>tbst_link = (\<lambda>e. if e = d then bound d t p else Some b), tbst_data = Some item, tbst_tag = (\<lambda>e. TBST_THREAD)\<rparr> = ?n"
      by (cases d) (simp_all add: eq_tnode bound_def)
    let ?k = "set_link d (Some a) (set_tag d TBST_CHILD k)"
    let ?h = "h(a \<mapsto> ?n, b \<mapsto> ?k)" and ?t = "tree\<lparr>tbst_count := tbst_count tree + 1\<rparr>"
    have "tbst_attach h tree item q d a = pret (?h, ?t)"
      using Some k root ab n by (simp add: tbst_attach_def tbst_get_def tbst_put_def Let_def)
    moreover have "rooted ?h ?t (put_at t p ?s)"
    proof (rule rooted_put [OF assms(1-3)])
      show "agree (set (addrs t) - set (addrs (subtree t p)) - set_option q) h ?h"
        using Some a by (auto simp: agree_def fun_upd_apply)
      show "trep ?h (lo_at None t p) (hi_at None t p) ?s" using ab by simp
      show "tbst_root ?t = (if q = None then root_of ?s None else tbst_root tree)" using Some by simp
    qed (use Some k dis in \<open>auto simp: node_eq fun_upd_apply\<close>)
    moreover have "agree (- insert a (set (addrs t))) h ?h" using b by (simp add: agree_upd)
    ultimately show ?thesis using ab by simp
  qed
qed

lemma tbst_probe_new:
  assumes "keyed key cmp" "tbst_for cmp h tree" "list_find cmp item (tbst_items h tree) = None"
    and "malloc h = Some a" "h a = None" "Suc (length (tbst_items h tree)) < 2 ^ 64"
  shows "\<exists>h' tree' n. tbst_probe malloc h tree item = pret (Some a, h', tree') \<and> tbst_for cmp h' tree' \<and>
    tbst_items h' tree' = list_insert cmp item (tbst_items h tree) \<and>
    (\<exists>xs ys. tbst_pairs h tree = xs @ ys \<and> tbst_pairs h' tree' = xs @ (a, Some item) # ys) \<and>
    agree (- insert a (set (tbst_nodes h tree))) h h' \<and> h' a = Some n \<and> tbst_data n = Some item"
  using assms(1,2)
proof (cases rule: tbst_locate_cases [where item = item])
  case (slot p xs ys)
  let ?t = "tbst_tree h tree" and ?s = "BNode BNull (a, Some item) BNull"
  have f: "rooted h tree ?t" "filled ?t" "length (tbst_items h tree) = unat (tbst_count tree)" "tbst_compare tree = cmp"
    "ordered cmp (tbst_items h tree)"
    using assms(2) by (simp_all add: tbst_for_def)
  obtain q d where q: "place None False ?t p = (q, d)" by fastforce
  obtain h' tree' n where at: "tbst_attach h tree item q d a = pret (h', tree')" "rooted h' tree' (put_at ?t p ?s)"
    "agree (- insert a (set (addrs ?t))) h h'" "h' a = Some n" "tbst_data n = Some item"
    "tbst_compare tree' = tbst_compare tree" "tbst_count tree' = tbst_count tree + 1"
    using tbst_attach_ok [OF f(1) slot(2) q slot(3) assms(5), of item] by blast
  have "tbst_probe malloc h tree item = pret (Some a, h', tree')"
  proof (cases "?t = BNull")
    case True
    then have "p = []" using slot(1) by simp
    then show ?thesis using True f(1) at(1) q assms(4) by (simp add: tbst_probe_def rooted_def)
  next
    case False
    then have "tbst_root tree \<noteq> None" using f(1) top_in [of ?t None] by (auto simp: rooted_def)
    then show ?thesis using False at(1) q slot(1,3) assms(4) f(1,2,4)
        tbst_probe_loop_ok [of h None None ?t p tree item None None False] by (simp add: tbst_probe_def rooted_def)
  qed
  moreover have i: "datas (put_at ?t p ?s) = list_insert cmp item (tbst_items h tree)"
    using inorder_put [OF slot(2), of ?s] slot by (simp add: datas_def)
  moreover have ln: "length (list_insert cmp item (tbst_items h tree)) = unat (tbst_count tree')"
    using keyed.length_list_insert [OF assms(1,3)] at(7) f(3) assms(6) by (simp add: unat_word_ariths(1))
  have "filled (put_at ?t p ?s)" using filled_put [OF slot(2) f(2)] by simp
  then have v: "tbst_for cmp h' tree'" "tbst_tree h' tree' = put_at ?t p ?s" "tbst_items h' tree' = datas (put_at ?t p ?s)"
    using tbst_forI [OF at(2), of cmp] i ln at(6) f(4,5) keyed.ordered_list_insert [OF assms(1)] by auto
  have "tbst_pairs h tree = xs @ ys" "tbst_pairs h' tree' = xs @ (a, Some item) # ys"
    using inorder_put [OF slot(2), of ?s] inorder_split [OF slot(2)] slot(3,4,5) v(2) by (simp_all add: tbst_pairs_def)
  ultimately show ?thesis using v at by (auto simp: tbst_nodes_def)
next
  case (found p l a d r xs ys)
  then show ?thesis using assms(3) by simp
qed

lemma tbst_probe_full:
  assumes "keyed key cmp" "tbst_for cmp h tree" "list_find cmp item (tbst_items h tree) = None" "malloc h = None"
  shows "tbst_probe malloc h tree item = pret (None, h, tree)"
  using assms(1,2)
proof (cases rule: tbst_locate_cases [where item = item])
  case (slot p xs ys)
  let ?t = "tbst_tree h tree"
  have f: "rooted h tree ?t" "filled ?t" "tbst_compare tree = cmp" using assms(2) by (simp_all add: tbst_for_def)
  show ?thesis
  proof (cases "?t = BNull")
    case True
    then show ?thesis using f(1) assms(4) by (simp add: tbst_probe_def rooted_def)
  next
    case False
    then have "tbst_root tree \<noteq> None" using f(1) top_in [of ?t None] by (auto simp: rooted_def)
    then show ?thesis using False slot(1,3) assms(4) f
        tbst_probe_loop_ok [of h None None ?t p tree item None None False] by (simp add: tbst_probe_def rooted_def)
  qed
next
  case (found p l a d r xs ys)
  then show ?thesis using assms(3) by simp
qed

text \<open>The node with a matching item.\<close>

lemma tbst_stands:
  assumes "tbst_for cmp h tree" "in_tree (tbst_tree h tree) p" "subtree (tbst_tree h tree) p = BNode l (a, x) r"
  shows "\<exists>lo hi. h a = Some (tnode lo hi l x r)" "a \<in> set (tbst_nodes h tree)" "tbst_root tree \<noteq> None"
proof -
  let ?t = "tbst_tree h tree"
  have f: "rooted h tree ?t" using assms(1) by (simp add: tbst_for_def)
  then show "\<exists>lo hi. h a = Some (tnode lo hi l x r)"
    using trep_subtree [of h None None ?t p] assms(3) by (auto simp: rooted_def)
  show a: "a \<in> set (tbst_nodes h tree)" using addrs_subtree [of ?t p] assms(3) by (auto simp: tbst_nodes_def)
  then have "?t \<noteq> BNull" by (auto simp: tbst_nodes_def)
  then show "tbst_root tree \<noteq> None" using f top_in [of ?t None] by (auto simp: rooted_def)
qed

lemma tbst_probe_old:
  assumes "keyed key cmp" "tbst_for cmp h tree" "list_find cmp item (tbst_items h tree) = Some d"
  shows "\<exists>p l a r. tbst_probe malloc h tree item = pret (Some a, h, tree) \<and>
    in_tree (tbst_tree h tree) p \<and> subtree (tbst_tree h tree) p = BNode l (a, Some d) r \<and> cmp item d = 0"
  using assms(1,2)
proof (cases rule: tbst_locate_cases [where item = item])
  case (slot p xs ys)
  then show ?thesis using assms(3) by simp
next
  case (found p l a e r xs ys)
  let ?t = "tbst_tree h tree"
  have f: "rooted h tree ?t" "filled ?t" "tbst_compare tree = cmp" using assms(2) by (simp_all add: tbst_for_def)
  have "tbst_root tree \<noteq> None" "?t \<noteq> BNull"
    using tbst_stands [OF assms(2) found(2,3)] by (auto simp: tbst_nodes_def)
  then have "tbst_probe malloc h tree item = pret (Some a, h, tree)"
    using found(1,3) f tbst_probe_loop_ok [of h None None ?t p tree item None None False]
    by (simp add: tbst_probe_def rooted_def)
  moreover have "e = d" using found(8) assms(3) by simp
  ultimately show ?thesis using found by blast
qed

lemma tbst_data_of_Some [simp]: "h a = Some n \<Longrightarrow> tbst_data_of h (Some a) = pret (tbst_data n)"
  by (simp add: tbst_data_of_def)

lemma tbst_data_of_None [simp]: "tbst_data_of h None = pret None"
  by (simp add: tbst_data_of_def)

lemma tbst_insert_new:
  assumes "keyed key cmp" "tbst_for cmp h tree" "list_find cmp item (tbst_items h tree) = None"
    and "malloc h = Some a" "h a = None" "Suc (length (tbst_items h tree)) < 2 ^ 64"
  shows "\<exists>h' tree'. tbst_insert malloc h tree item = pret (None, h', tree') \<and>
    tbst_replace malloc h tree item = pret (None, h', tree') \<and> tbst_for cmp h' tree' \<and>
    tbst_items h' tree' = list_insert cmp item (tbst_items h tree) \<and>
    (\<exists>xs ys. tbst_pairs h tree = xs @ ys \<and> tbst_pairs h' tree' = xs @ (a, Some item) # ys) \<and>
    agree (- insert a (set (tbst_nodes h tree))) h h'"
proof -
  obtain h' tree' n where p: "tbst_probe malloc h tree item = pret (Some a, h', tree')" "h' a = Some n" "tbst_data n = Some item"
    "tbst_for cmp h' tree'" "tbst_items h' tree' = list_insert cmp item (tbst_items h tree)"
    "\<exists>xs ys. tbst_pairs h tree = xs @ ys \<and> tbst_pairs h' tree' = xs @ (a, Some item) # ys"
    "agree (- insert a (set (tbst_nodes h tree))) h h'"
    using tbst_probe_new [where malloc = malloc and a = a and item = item and h = h, OF assms] by blast
  then show ?thesis by (simp add: tbst_insert_def tbst_replace_def)
qed

lemma tbst_insert_full:
  assumes "keyed key cmp" "tbst_for cmp h tree" "list_find cmp item (tbst_items h tree) = None" "malloc h = None"
  shows "tbst_insert malloc h tree item = pret (None, h, tree)" "tbst_replace malloc h tree item = pret (None, h, tree)"
  using tbst_probe_full [of key cmp h tree item malloc, OF assms] by (simp_all add: tbst_insert_def tbst_replace_def)

lemma tbst_insert_old:
  assumes "keyed key cmp" "tbst_for cmp h tree" "list_find cmp item (tbst_items h tree) = Some d"
  shows "tbst_insert malloc h tree item = pret (if d = item then None else Some d, h, tree)"
proof -
  obtain p l a r where p: "tbst_probe malloc h tree item = pret (Some a, h, tree)" "in_tree (tbst_tree h tree) p"
    "subtree (tbst_tree h tree) p = BNode l (a, Some d) r"
    using tbst_probe_old [OF assms] by blast
  then obtain n where "h a = Some n" "tbst_data n = Some d" using tbst_stands(1) [OF assms(2) p(2,3)] by auto
  then show ?thesis using p(1) by (simp add: tbst_insert_def)
qed

text \<open>The data of a node is overwritten.\<close>

lemma trep_set_data:
  "trep h lo hi t \<Longrightarrow> distinct (addrs t) \<Longrightarrow> in_tree t p \<Longrightarrow> subtree t p = BNode l (a, x) r \<Longrightarrow> h a = Some n \<Longrightarrow>
     trep (h(a \<mapsto> set_data z n)) lo hi (put_at t p (BNode l (a, z) r))"
proof (induction t p arbitrary: lo hi rule: in_tree.induct)
  case (1 t)
  then show ?case by (auto simp: eq_tnode)
next
  case (3 k y s d ds)
  obtain b v where y: "y = (b, v)" by fastforce
  let ?s = "if d then s else k"
  have "a \<in> set (addrs ?s)" using addrs_subtree [of ?s ds] "3.prems"(4) by auto
  then have "a \<noteq> b" "b \<noteq> a" "a \<notin> set (addrs (if d then k else s))" using "3.prems"(2) y by (auto split: if_splits)
  moreover have st: "kind (put_at ?s ds (BNode l (a, z) r)) = kind ?s" "root_of (put_at ?s ds (BNode l (a, z) r)) th = root_of ?s th" for th
    using "3.prems"(3,4) by (cases ds; cases ?s; auto split: prod.splits)+
  ultimately show ?case using "3.IH" "3.prems" y by (auto simp: eq_tnode split: if_splits)
qed simp

lemma tbst_replace_old:
  assumes "keyed key cmp" "tbst_for cmp h tree" "list_find cmp item (tbst_items h tree) = Some d"
  shows "\<exists>h'. tbst_replace malloc h tree item = pret (if d = item then None else Some d, h', tree) \<and>
    tbst_for cmp h' tree \<and> tbst_items h' tree = list_store cmp item (\<lambda>_. item) (tbst_items h tree) \<and>
    tbst_nodes h' tree = tbst_nodes h tree \<and> agree (- set (tbst_nodes h tree)) h h'"
proof -
  let ?t = "tbst_tree h tree"
  obtain p l a r where p: "tbst_probe malloc h tree item = pret (Some a, h, tree)" "in_tree ?t p"
    "subtree ?t p = BNode l (a, Some d) r" "cmp item d = 0"
    using tbst_probe_old [OF assms] by blast
  have f: "rooted h tree ?t" "filled ?t" "length (tbst_items h tree) = unat (tbst_count tree)" "tbst_compare tree = cmp"
    "ordered cmp (tbst_items h tree)"
    using assms(2) by (simp_all add: tbst_for_def)
  obtain n where n: "h a = Some n" "tbst_data n = Some d" using tbst_stands(1) [OF assms(2) p(2,3)] by auto
  have a: "a \<in> set (tbst_nodes h tree)" using tbst_stands(2) [OF assms(2) p(2,3)] .
  obtain xs ys where it: "tbst_items h tree = xs @ d # ys" "datas (put_at ?t p (BNode l (a, Some item) r)) = xs @ item # ys"
  proof
    let ?f = "map (\<lambda>y :: addr \<times> 'a option. the (snd y))"
    show "tbst_items h tree = (?f (lefts ?t p) @ datas l) @ d # (datas r @ ?f (rights ?t p))"
      "datas (put_at ?t p (BNode l (a, Some item) r)) = (?f (lefts ?t p) @ datas l) @ item # (datas r @ ?f (rights ?t p))"
      using inorder_split [OF p(2)] inorder_put [OF p(2), of "BNode l (a, Some item) r"] p(3)
      by (simp_all add: tbst_items_def datas_def)
  qed
  have st: "list_store cmp item (\<lambda>_. item) (tbst_items h tree) = xs @ item # ys"
    using keyed.list_store_mid [OF assms(1) _ p(4)] f(5) it(1) by metis
  show ?thesis
  proof (cases "d = item")
    case True
    then show ?thesis using p(1) n assms(2) st it by (simp add: tbst_replace_def)
  next
    case False
    let ?h = "h(a \<mapsto> set_data (Some item) n)" and ?t' = "put_at ?t p (BNode l (a, Some item) r)"
    have ad: "addrs ?t' = addrs ?t"
      using inorder_split [OF p(2)] inorder_put [OF p(2), of "BNode l (a, Some item) r"] p(3) by (simp add: addrs_def)
    have "root_of ?t' None = root_of ?t None" using p(2,3) by (cases p; cases ?t) (auto split: prod.splits)
    then have r: "rooted ?h tree ?t'"
      using f(1) trep_set_data [where h = h and a = a, OF _ _ p(2,3) n(1)] ad by (simp add: rooted_def)
    have fi: "filled ?t'" by (rule filled_put [OF p(2) f(2)]) (use f(2) p(2,3) inorder_split [OF p(2)] in \<open>auto simp: filled_def\<close>)
    have ln: "length (datas ?t') = unat (tbst_count tree)" using f(3) it by simp
    have "ordered cmp (datas ?t')" using keyed.ordered_list_replace [OF assms(1)] f(5) st it(2) by metis
    from tbst_forI [OF r fi ln f(4) this] show ?thesis
      using False p(1) n st it ad a by (simp add: tbst_replace_def tbst_nodes_def agree_upd)
  qed
qed

section \<open>Search and deletion\<close>

lemma tbst_find_ok:
  assumes "keyed key cmp" "tbst_for cmp h tree"
  shows "tbst_find h tree item = pret (list_find cmp item (tbst_items h tree))"
proof -
  let ?t = "tbst_tree h tree"
  have f: "rooted h tree ?t" "filled ?t" "tbst_compare tree = cmp" using assms(2) by (simp_all add: tbst_for_def)
  have lp: "tbst_find_loop h tree item (tbst_root tree) = pret (root_of (subtree ?t (path_to cmp item ?t)) None)" if "?t \<noteq> BNull"
    using tbst_find_loop_ok [of h None None ?t tree item None] f that by (simp add: rooted_def)
  show ?thesis using assms
  proof (cases rule: tbst_locate_cases [where item = item])
    case (slot p xs ys)
    then show ?thesis
      using lp f(1) by (cases "?t = BNull") (auto simp: tbst_find_def rooted_def)
  next
    case (found p l a d r xs ys)
    obtain n where "h a = Some n" "tbst_data n = Some d" using tbst_stands(1) [OF assms(2) found(2,3)] by auto
    moreover have "tbst_root tree \<noteq> None" "?t \<noteq> BNull"
      using tbst_stands [OF assms(2) found(2,3)] by (auto simp: tbst_nodes_def)
    ultimately show ?thesis using lp found by (simp add: tbst_find_def)
  qed
qed

lemma tbst_delete_ok:
  assumes "keyed key cmp" "tbst_for cmp h tree"
  shows "\<exists>h' tree'. tbst_delete h tree item = pret (list_find cmp item (tbst_items h tree), h', tree') \<and>
    tbst_for cmp h' tree' \<and> tbst_items h' tree' = list_delete cmp item (tbst_items h tree) \<and>
    tbst_pairs h' tree' = list_delete (node_cmp cmp) (0, Some item) (tbst_pairs h tree) \<and>
    (\<forall>a\<in>set (tbst_nodes h tree) - set (tbst_nodes h' tree'). h' a = None) \<and> agree (- set (tbst_nodes h tree)) h h'"
  using assms
proof (cases rule: tbst_locate_cases [where item = item])
  case (slot p xs ys)
  let ?t = "tbst_tree h tree"
  have f: "rooted h tree ?t" "filled ?t" "tbst_compare tree = cmp" using assms(2) by (simp_all add: tbst_for_def)
  have "tbst_delete h tree item = pret (None, h, tree)"
    using tbst_delete_loop_ok [of h None None ?t p tree item None False None] f slot(1,3)
    by (cases "?t = BNull") (auto simp: tbst_delete_def rooted_def)
  moreover have "list_delete cmp item (tbst_items h tree) = tbst_items h tree"
    using slot(6) by (auto simp: list_delete_def list_find_def find_None_iff intro!: filter_True)
  moreover have "list_delete (node_cmp cmp) (0, Some item) (tbst_pairs h tree) = tbst_pairs h tree"
    using slot(6) by (auto simp: list_delete_def list_find_def find_None_iff tbst_items_def datas_def tbst_pairs_def
      node_cmp_def intro!: filter_True)
  ultimately show ?thesis using slot(6) assms(2) by simp
next
  case (found p l a d r xs ys)
  let ?t = "tbst_tree h tree" and ?s = "bst_unlink (BNode l (a, Some d) r)"
  have f: "rooted h tree ?t" "filled ?t" "length (tbst_items h tree) = unat (tbst_count tree)" "tbst_compare tree = cmp"
    "ordered cmp (tbst_items h tree)"
    using assms(2) by (simp_all add: tbst_for_def)
  obtain n where n: "h a = Some n" "tbst_data n = Some d" using tbst_stands(1) [OF assms(2) found(2,3)] by auto
  have a: "a \<in> set (addrs ?t)" "tbst_root tree \<noteq> None" "?t \<noteq> BNull"
    using tbst_stands [OF assms(2) found(2,3)] by (auto simp: tbst_nodes_def)
  obtain q e where q: "place None False ?t p = (q, e)" by fastforce
  obtain h1 tree1 where un: "tbst_unlink h tree q e (Some a) = pret (h1, tree1)" "rooted h1 tree1 (put_at ?t p ?s)"
    "agree (- set (addrs ?t) \<union> {a}) h h1" "tbst_compare tree1 = tbst_compare tree" "tbst_count tree1 = tbst_count tree"
    using tbst_unlink_ok [OF f(1) found(2) q found(3)] unfolding unlinked_def by blast
  let ?h = "h1(a := None)" and ?tree = "tree1\<lparr>tbst_count := tbst_count tree1 - 1\<rparr>"
  have "h1 a = Some n" using un(3) n(1) by (simp add: agree_def)
  moreover have "tbst_delete_loop h tree item None False (tbst_root tree) = pret (Some (q, e, Some a))"
    using tbst_delete_loop_ok [of h None None ?t p tree item None False None] f a(3) found(1,3) q by (simp add: rooted_def)
  ultimately have del: "tbst_delete h tree item = pret (Some d, ?h, ?tree)"
    using a(2) n un(1) by (simp add: tbst_delete_def)
  have ao: "addrs ?t = map fst (lefts ?t p) @ (addrs l @ a # addrs r) @ map fst (rights ?t p)"
    "addrs (put_at ?t p ?s) = map fst (lefts ?t p) @ (addrs l @ addrs r) @ map fst (rights ?t p)"
    using inorder_split [OF found(2)] inorder_put [OF found(2), of ?s] found(3) by (simp_all add: addrs_def inorder_unlink)
  then have as: "set (addrs (put_at ?t p ?s)) = set (addrs ?t) - {a}" "a \<notin> set (addrs (put_at ?t p ?s))"
    using f(1) by (auto simp: rooted_def)
  have r: "rooted ?h ?tree (put_at ?t p ?s)" using un(2) as(2) by (simp add: rooted_def)
  have it: "datas (put_at ?t p ?s) = list_delete cmp item (tbst_items h tree)"
    using inorder_put [OF found(2), of ?s] keyed.list_delete_mid [OF assms(1) found(9,4)] found(5,6,7)
    by (simp add: datas_def inorder_unlink)
  have fs: "filled (BNode l (a, Some d) r)" using f(2) inorder_split [OF found(2)] found(3) by (auto simp: filled_def)
  have fi: "filled (put_at ?t p ?s)" by (rule filled_put [OF found(2) f(2) filled_unlink [OF fs]])
  have "length (tbst_items h tree) = Suc (length (list_delete cmp item (tbst_items h tree)))"
    using keyed.list_delete_mid [OF assms(1) found(9,4)] found(7) by simp
  then have ln: "length (datas (put_at ?t p ?s)) = unat (tbst_count ?tree)"
    using f(3) it un(5) by (simp add: unat_minus_one unat_gt_0 [symmetric])
  have "ordered cmp (datas (put_at ?t p ?s))"
    unfolding it using f(5) by (auto simp: list_delete_def ordered_def sorted_wrt_filter)
  from tbst_forI [OF r fi ln _ this]
  have v: "tbst_for cmp ?h ?tree" "tbst_tree ?h ?tree = put_at ?t p ?s" "tbst_items ?h ?tree = datas (put_at ?t p ?s)"
    using un(4) f(4) by simp_all
  have "agree (- set (addrs ?t)) h ?h" using un(3) a(1) by (auto simp: agree_def fun_upd_apply)
  moreover have "bst_inorder (put_at ?t p ?s) = list_delete (node_cmp cmp) (0, Some item) (bst_inorder ?t)"
  proof -
    have i: "bst_inorder ?t = (lefts ?t p @ bst_inorder l) @ (a, Some d) # (bst_inorder r @ rights ?t p)"
      using inorder_split [OF found(2)] found(3) by simp
    have o: "ordered (node_cmp cmp) (bst_inorder ?t)" using f(5) by (simp add: ordered_nodes tbst_items_def datas_def)
    have "list_delete (node_cmp cmp) (0, Some item) (bst_inorder ?t) =
        (lefts ?t p @ bst_inorder l) @ bst_inorder r @ rights ?t p"
      using o found(4) unfolding i by (intro keyed.list_delete_mid [OF keyed_nodes [OF assms(1)]]) simp_all
    then show ?thesis using inorder_put [OF found(2), of ?s] by (simp add: inorder_unlink)
  qed
  ultimately show ?thesis using del v it as found(8) a(1) by (auto simp: tbst_nodes_def tbst_pairs_def)
qed

end
