(* ===== verification/TBST_Traverse.thy ===== *)
theory TBST_Traverse
  imports TBST_Table
begin

text \<open>
  Traversers of threaded tables and the destruction of a table.  A traverser is a pointer to a
  node; threads make a stack unnecessary.
\<close>

section \<open>The operations\<close>

text \<open>The node of a traverser; its table is an argument of the operations.\<close>

type_synonym tbst_traverser = "addr option"

definition tbst_t_init :: tbst_traverser where
  "tbst_t_init = None"

text \<open>The data of the node, which the operations return.\<close>

definition tbst_t_at :: "'a tbst_heap \<Rightarrow> addr option \<Rightarrow> ('a option \<times> tbst_traverser) prog" where
  "tbst_t_at h p = pbind (tbst_data_of h p) (\<lambda>x. pret (x, p))"

definition tbst_t_first :: "'a tbst_heap \<Rightarrow> 'a tbst_table \<Rightarrow> ('a option \<times> tbst_traverser) prog" where
  "tbst_t_first h tree =
     (if tbst_root tree \<noteq> None then pbind (tbst_descend h False (tbst_root tree)) (tbst_t_at h)
      else pret (None, None))"

definition tbst_t_last :: "'a tbst_heap \<Rightarrow> 'a tbst_table \<Rightarrow> ('a option \<times> tbst_traverser) prog" where
  "tbst_t_last h tree =
     (if tbst_root tree \<noteq> None then pbind (tbst_descend h True (tbst_root tree)) (tbst_t_at h)
      else pret (None, None))"

definition tbst_t_find :: "'a tbst_heap \<Rightarrow> 'a tbst_table \<Rightarrow> 'a \<Rightarrow> ('a option \<times> tbst_traverser) prog" where
  "tbst_t_find h tree item =
     (if tbst_root tree = None then pret (None, None)
      else pbind (tbst_find_loop h tree item (tbst_root tree)) (tbst_t_at h))"

definition tbst_t_insert ::
  "('a tbst_heap \<Rightarrow> addr option) \<Rightarrow> 'a tbst_heap \<Rightarrow> 'a tbst_table \<Rightarrow> 'a \<Rightarrow>
     ('a option \<times> tbst_traverser \<times> 'a tbst_heap \<times> 'a tbst_table) prog" where
  "tbst_t_insert malloc h tree item =
     pbind (tbst_probe malloc h tree item) (\<lambda>(p, h, tree).
       if p \<noteq> None then pbind (tbst_t_at h p) (\<lambda>(x, trav). pret (x, trav, h, tree))
       else pret (None, tbst_t_init, h, tree))"

definition tbst_t_copy :: "'a tbst_heap \<Rightarrow> tbst_traverser \<Rightarrow> ('a option \<times> tbst_traverser) prog" where
  "tbst_t_copy h src = tbst_t_at h src"

definition tbst_t_next :: "'a tbst_heap \<Rightarrow> 'a tbst_table \<Rightarrow> tbst_traverser \<Rightarrow> ('a option \<times> tbst_traverser) prog" where
  "tbst_t_next h tree trav =
     (if trav = None then tbst_t_first h tree
      else pbind (tag_at h trav True) (\<lambda>g. pbind (link_at h trav True) (\<lambda>p.
        if g = TBST_THREAD then tbst_t_at h p
        else pbind (tbst_descend h False p) (tbst_t_at h))))"

definition tbst_t_prev :: "'a tbst_heap \<Rightarrow> 'a tbst_table \<Rightarrow> tbst_traverser \<Rightarrow> ('a option \<times> tbst_traverser) prog" where
  "tbst_t_prev h tree trav =
     (if trav = None then tbst_t_last h tree
      else pbind (tag_at h trav False) (\<lambda>g. pbind (link_at h trav False) (\<lambda>p.
        if g = TBST_THREAD then tbst_t_at h p
        else pbind (tbst_descend h True p) (tbst_t_at h))))"

definition tbst_t_cur :: "'a tbst_heap \<Rightarrow> tbst_traverser \<Rightarrow> 'a option prog" where
  "tbst_t_cur h trav = tbst_data_of h trav"

definition tbst_t_replace ::
  "'a tbst_heap \<Rightarrow> tbst_traverser \<Rightarrow> 'a \<Rightarrow> ('a option \<times> 'a tbst_heap) prog" where
  "tbst_t_replace h trav new =
     (if trav = None then pfault Assertion_failed
      else pbind (tbst_data_of h trav) (\<lambda>old.
        pbind (assign h trav (set_data (Some new))) (\<lambda>h. pret (old, h))))"

text \<open>\<^verbatim>\<open>tbst_destroy\<close> returns the items it hands to the user's function, and the heap it leaves.\<close>

definition tbst_after :: "'a tbst_heap \<Rightarrow> addr option \<Rightarrow> addr option prog" where
  "tbst_after h p =
     pbind (link_at h p True) (\<lambda>n. pbind (tag_at h p True) (\<lambda>g.
       if g = TBST_CHILD then tbst_descend h False n else pret n))"

partial_function (option) tbst_destroy_loop ::
  "bool \<Rightarrow> 'a tbst_heap \<Rightarrow> addr option \<Rightarrow> ('a list \<times> 'a tbst_heap) prog" where
  "tbst_destroy_loop destroy h p =
     (if p = None then pret ([], h)
      else pbind (tbst_after h p) (\<lambda>n.
           pbind (tbst_data_of h p) (\<lambda>x.
           pbind (release h p) (\<lambda>h.
           pbind (tbst_destroy_loop destroy h n) (\<lambda>(xs, h).
           pret ((case x of Some d \<Rightarrow> if destroy then d # xs else xs | None \<Rightarrow> xs), h))))))"

definition tbst_destroy :: "bool \<Rightarrow> 'a tbst_heap \<Rightarrow> 'a tbst_table \<Rightarrow> ('a list \<times> 'a tbst_heap) prog" where
  "tbst_destroy destroy h tree =
     pbind (if tbst_root tree \<noteq> None then tbst_descend h False (tbst_root tree) else pret None)
       (tbst_destroy_loop destroy h)"

text \<open>A loop of a user: \<open>while ((x = tbst_t_next (&trav)) != NULL)\<close> and the same with \<^verbatim>\<open>tbst_t_prev\<close>.\<close>

partial_function (option) tbst_collect ::
  "('a tbst_heap \<Rightarrow> 'a tbst_table \<Rightarrow> tbst_traverser \<Rightarrow> ('a option \<times> tbst_traverser) prog) \<Rightarrow>
     'a tbst_heap \<Rightarrow> 'a tbst_table \<Rightarrow> tbst_traverser \<Rightarrow> 'a list prog" where
  "tbst_collect step h tree trav =
     pbind (step h tree trav) (\<lambda>(x, trav).
       case x of None \<Rightarrow> pret [] | Some d \<Rightarrow> pbind (tbst_collect step h tree trav) (\<lambda>xs. pret (d # xs)))"

section \<open>Neighbours\<close>

lemma trep_mid:
  assumes "trep h lo hi t" "bst_inorder t = xs @ (a, x) # ys"
  obtains lo' hi' l r us vs where "h a = Some (tnode lo' hi' l x r)" "trep h lo' (Some a) l" "trep h (Some a) hi' r"
    "xs = us @ bst_inorder l" "ys = bst_inorder r @ vs" "lo' = last_addr us lo" "hi' = first_addr vs hi"
proof -
  obtain p l r where p: "in_tree t p" "subtree t p = BNode l (a, x) r" "xs = lefts t p @ bst_inorder l"
    "ys = bst_inorder r @ rights t p"
    using inorder_path [OF assms(2)] by blast
  show thesis using trep_subtree [OF assms(1), of p] p
    by (intro that [of "lo_at lo t p" "hi_at hi t p" l r "lefts t p" "rights t p"])
      (simp_all add: hi_at_rights lo_at_lefts)
qed

text \<open>
  The next node.  Only the right slot of the node itself and the nodes after it need to be as they were.
\<close>

lemma tbst_after_ok:
  assumes "trep h lo hi t" "bst_inorder t = xs @ (a, x) # ys" "h a = Some n"
    and "h' a = Some n'" "tbst_link n' True = tbst_link n True" "tbst_tag n' True = tbst_tag n True"
    and "agree (set (map fst ys)) h h'"
  shows "tbst_after h' (Some a) = pret (first_addr ys hi)"
proof -
  obtain lo' hi' l r us vs where m: "h a = Some (tnode lo' hi' l x r)" "trep h (Some a) hi' r"
    "ys = bst_inorder r @ vs" "hi' = first_addr vs hi"
    using trep_mid [OF assms(1,2)] by metis
  have "agree (set (addrs r)) h h'" by (rule agree_subset [OF assms(7)]) (auto simp: m(3) addrs_def)
  then have r: "trep h' (Some a) hi' r" using m(2) trep_agree by blast
  have n: "n = tnode lo' hi' l x r" using m(1) assms(3) by simp
  show ?thesis
  proof (cases "r = BNull")
    case True
    then show ?thesis using m n assms(4-6) by (simp add: tbst_after_def)
  next
    case False
    then show ?thesis using m n assms(4-6) tbst_descend_tip [OF r False] tip_ends(1) [OF False]
      by (simp add: tbst_after_def first_addr_append)
  qed
qed

lemma tbst_t_next_mid:
  assumes "trep h lo hi t" "bst_inorder t = xs @ (a, x) # ys"
  shows "tbst_t_next h tree (Some a) = tbst_t_at h (first_addr ys hi)"
proof -
  obtain lo' hi' l r us vs where m: "h a = Some (tnode lo' hi' l x r)" "trep h (Some a) hi' r"
    "ys = bst_inorder r @ vs" "hi' = first_addr vs hi"
    using trep_mid [OF assms] by metis
  show ?thesis
  proof (cases "r = BNull")
    case True
    then show ?thesis using m by (simp add: tbst_t_next_def)
  next
    case False
    then show ?thesis using m tbst_descend_tip [OF m(2) False] tip_ends(1) [OF False]
      by (simp add: tbst_t_next_def first_addr_append)
  qed
qed

lemma tbst_t_prev_mid:
  assumes "trep h lo hi t" "bst_inorder t = xs @ (a, x) # ys"
  shows "tbst_t_prev h tree (Some a) = tbst_t_at h (last_addr xs lo)"
proof -
  obtain lo' hi' l r us vs where m: "h a = Some (tnode lo' hi' l x r)" "trep h lo' (Some a) l"
    "xs = us @ bst_inorder l" "lo' = last_addr us lo"
    using trep_mid [OF assms] by metis
  show ?thesis
  proof (cases "l = BNull")
    case True
    then show ?thesis using m by (simp add: tbst_t_prev_def)
  next
    case False
    then show ?thesis using m tbst_descend_tip [OF m(2) False] tip_ends(2) [OF False]
      by (simp add: tbst_t_prev_def last_addr_append)
  qed
qed

section \<open>Traversal of a table\<close>

lemma tbst_t_at_None [simp]: "tbst_t_at h None = pret (None, None)"
  by (simp add: tbst_t_at_def)

lemma tbst_pairs_rep:
  assumes "tbst_for cmp h tree"
  shows "trep h None None (tbst_tree h tree)" "bst_inorder (tbst_tree h tree) = tbst_pairs h tree"
    "tbst_root tree = root_of (tbst_tree h tree) None" "distinct (map fst (tbst_pairs h tree))"
    "tbst_items h tree = map (\<lambda>y. the (snd y)) (tbst_pairs h tree)" "tbst_nodes h tree = map fst (tbst_pairs h tree)"
  using assms by (simp_all add: tbst_for_def rooted_def tbst_pairs_def addrs_def tbst_items_def datas_def tbst_nodes_def)

lemma tbst_pair_at:
  assumes "tbst_for cmp h tree" "tbst_pairs h tree = xs @ (a, x) # ys"
  shows "\<exists>n. h a = Some n \<and> tbst_data n = x" "\<exists>d. x = Some d"
    "tbst_data_of h (Some a) = pret x" "tbst_t_at h (Some a) = pret (x, Some a)"
proof -
  obtain lo hi l r where n: "h a = Some (tnode lo hi l x r)"
    using trep_mid [OF tbst_pairs_rep(1) [OF assms(1)]] tbst_pairs_rep(2) [OF assms(1)] assms(2) by metis
  then show "\<exists>n. h a = Some n \<and> tbst_data n = x" by simp
  show "\<exists>d. x = Some d" using assms by (auto simp: tbst_for_def filled_def tbst_pairs_def)
  show "tbst_data_of h (Some a) = pret x" using n by simp
  then show "tbst_t_at h (Some a) = pret (x, Some a)" by (simp add: tbst_t_at_def)
qed

lemma tbst_ends:
  assumes "tbst_for cmp h tree"
  shows "tbst_t_first h tree = tbst_t_at h (first_addr (tbst_pairs h tree) None)"
    "tbst_t_last h tree = tbst_t_at h (last_addr (tbst_pairs h tree) None)"
proof -
  let ?t = "tbst_tree h tree"
  note r = tbst_pairs_rep [OF assms]
  have "tbst_t_first h tree = tbst_t_at h (first_addr (bst_inorder ?t) None) \<and>
      tbst_t_last h tree = tbst_t_at h (last_addr (bst_inorder ?t) None)"
  proof (cases "?t = BNull")
    case True
    then show ?thesis using r(3) by (simp add: tbst_t_first_def tbst_t_last_def)
  next
    case False
    then have "tbst_root tree \<noteq> None" using r(3) top_in [of ?t None] by auto
    then show ?thesis using False tbst_descend_tip [OF r(1) False] tip_ends [OF False] r(3)
      by (simp add: tbst_t_first_def tbst_t_last_def)
  qed
  then show "tbst_t_first h tree = tbst_t_at h (first_addr (tbst_pairs h tree) None)"
    "tbst_t_last h tree = tbst_t_at h (last_addr (tbst_pairs h tree) None)"
    by (simp_all add: r(2))
qed

lemma tbst_next_prev_pairs:
  assumes "tbst_for cmp h tree" "tbst_pairs h tree = xs @ (a, x) # ys"
  shows "tbst_t_next h tree (Some a) = tbst_t_at h (first_addr ys None)"
    "tbst_t_prev h tree (Some a) = tbst_t_at h (last_addr xs None)"
  using tbst_t_next_mid tbst_t_prev_mid tbst_pairs_rep(1,2) [OF assms(1)] assms(2) by metis+

declare tbst_collect.simps [simp del]

lemma tbst_collect_next:
  assumes "tbst_for cmp h tree"
  shows "tbst_pairs h tree = xs @ ys \<Longrightarrow>
    tbst_collect tbst_t_next h tree (last_addr xs None) = pret (map (\<lambda>y. the (snd y)) ys)"
proof (induction ys arbitrary: xs)
  case Nil
  have "tbst_t_next h tree (last_addr xs None) = pret (None, None)"
  proof (cases xs rule: rev_exhaust)
    case Nil
    then show ?thesis using \<open>tbst_pairs h tree = xs @ []\<close> tbst_ends(1) [OF assms] by (simp add: tbst_t_next_def)
  next
    case (snoc us z)
    then show ?thesis using tbst_next_prev_pairs(1) [OF assms, of us "fst z" "snd z" "[]"] Nil.prems by simp
  qed
  then show ?case by (subst tbst_collect.simps) simp
next
  case (Cons y ys)
  obtain a x where y: "y = (a, x)" by fastforce
  obtain d where d: "x = Some d" using tbst_pair_at(2) [OF assms] Cons.prems y by blast
  have at: "tbst_t_at h (Some a) = pret (Some d, Some a)" using tbst_pair_at(4) [OF assms] Cons.prems y d by metis
  have "tbst_t_next h tree (last_addr xs None) = pret (Some d, Some a)"
  proof (cases xs rule: rev_exhaust)
    case Nil
    then show ?thesis using Cons.prems tbst_ends(1) [OF assms] y at by (simp add: tbst_t_next_def)
  next
    case (snoc us z)
    then show ?thesis
      using tbst_next_prev_pairs(1) [OF assms, of us "fst z" "snd z" "y # ys"] Cons.prems y at by simp
  qed
  then show ?case using Cons.IH [of "xs @ [y]"] Cons.prems y d by (subst tbst_collect.simps) simp
qed

lemma tbst_collect_prev:
  assumes "tbst_for cmp h tree"
  shows "tbst_pairs h tree = xs @ ys \<Longrightarrow>
    tbst_collect tbst_t_prev h tree (first_addr ys None) = pret (map (\<lambda>y. the (snd y)) (rev xs))"
proof (induction xs arbitrary: ys rule: rev_induct)
  case Nil
  have "tbst_t_prev h tree (first_addr ys None) = pret (None, None)"
  proof (cases ys)
    case Nil
    then show ?thesis using \<open>tbst_pairs h tree = [] @ ys\<close> tbst_ends(2) [OF assms] by (simp add: tbst_t_prev_def)
  next
    case (Cons z us)
    then show ?thesis using tbst_next_prev_pairs(2) [OF assms, of "[]" "fst z" "snd z" us] Nil.prems by simp
  qed
  then show ?case by (subst tbst_collect.simps) simp
next
  case (snoc y xs)
  obtain a x where y: "y = (a, x)" by fastforce
  obtain d where d: "x = Some d" using tbst_pair_at(2) [OF assms, of xs a x ys] snoc.prems y by auto
  have at: "tbst_t_at h (Some a) = pret (Some d, Some a)" using tbst_pair_at(4) [OF assms, of xs a x ys] snoc.prems y d by simp
  have "tbst_t_prev h tree (first_addr ys None) = pret (Some d, Some a)"
  proof (cases ys)
    case Nil
    then show ?thesis using snoc.prems tbst_ends(2) [OF assms] y at by (simp add: tbst_t_prev_def)
  next
    case (Cons z us)
    then show ?thesis
      using tbst_next_prev_pairs(2) [OF assms, of "xs @ [y]" "fst z" "snd z" us] snoc.prems y at by simp
  qed
  then show ?case using snoc.IH [of "y # ys"] snoc.prems y d by (subst tbst_collect.simps) simp
qed

section \<open>Destruction\<close>

declare tbst_destroy_loop.simps [simp del]

lemma tbst_destroy_loop_ok:
  assumes "trep h lo None t" "distinct (addrs t)"
  shows "bst_inorder t = xs @ ys \<Longrightarrow> agree (set (map fst ys)) h h' \<Longrightarrow>
    \<exists>h''. tbst_destroy_loop destroy h' (first_addr ys None) = pret (called destroy ys, h'') \<and>
      agree (- set (map fst ys)) h' h'' \<and> (\<forall>a\<in>set (map fst ys). h'' a = None)"
proof (induction ys arbitrary: xs h')
  case Nil
  then show ?case by (subst tbst_destroy_loop.simps) (simp add: called_def)
next
  case (Cons y ys)
  obtain a x where y: "y = (a, x)" by fastforce
  have i: "bst_inorder t = xs @ (a, x) # ys" using Cons.prems(1) y by simp
  obtain lo' hi' l r where n: "h a = Some (tnode lo' hi' l x r)" using trep_mid [OF assms(1) i] by metis
  have n': "h' a = Some (tnode lo' hi' l x r)" "agree (set (map fst ys)) h h'"
    using Cons.prems(2) y n by (simp_all add: agree_def)
  have af: "tbst_after h' (Some a) = pret (first_addr ys None)"
    by (rule tbst_after_ok [OF assms(1) i n n'(1) refl refl n'(2)])
  have a: "a \<notin> set (map fst ys)" using assms(2) i by (simp add: addrs_def)
  then have "agree (set (map fst ys)) h (h'(a := None))" using n'(2) by (simp add: agree_upd)
  then obtain h'' where ih: "tbst_destroy_loop destroy (h'(a := None)) (first_addr ys None) = pret (called destroy ys, h'')"
    "agree (- set (map fst ys)) (h'(a := None)) h''" "\<forall>b\<in>set (map fst ys). h'' b = None"
    using Cons.IH [of "xs @ [y]" "h'(a := None)"] Cons.prems(1) by auto
  have "tbst_destroy_loop destroy h' (Some a) = pret (called destroy (y # ys), h'')"
    using af n'(1) ih(1) y by (subst tbst_destroy_loop.simps) (auto simp: called_def split: option.splits)
  moreover have "h'' a = None" using ih(2) a by (auto simp: agree_def)
  moreover have "agree (- set (map fst (y # ys))) h' h''" using ih(2) y by (auto simp: agree_def)
  ultimately show ?case using y ih(3) by auto
qed

lemma tbst_destroy_ok:
  assumes "trep h None None t" "distinct (addrs t)" "tbst_root tree = root_of t None"
  shows "\<exists>h'. tbst_destroy destroy h tree = pret (called destroy (bst_inorder t), h') \<and>
    agree (- set (addrs t)) h h' \<and> (\<forall>a\<in>set (addrs t). h' a = None)"
proof -
  obtain h' where h': "tbst_destroy_loop destroy h (first_addr (bst_inorder t) None) = pret (called destroy (bst_inorder t), h')"
    "agree (- set (addrs t)) h h'" "\<forall>a\<in>set (addrs t). h' a = None"
    using tbst_destroy_loop_ok [OF assms(1,2), of "[]" "bst_inorder t" h destroy] by (auto simp: addrs_def)
  show ?thesis
  proof (cases "t = BNull")
    case True
    then show ?thesis using h' assms(3) by (simp add: tbst_destroy_def)
  next
    case False
    then have "tbst_root tree \<noteq> None" using assms(3) top_in [of t None] by auto
    then show ?thesis using h' False tbst_descend_tip [OF assms(1) False] tip_ends(1) [OF False] assms(3)
      by (simp add: tbst_destroy_def)
  qed
qed

end
