(* ===== verification/TBST_Balance.thy ===== *)
theory TBST_Balance
  imports TBST_Traverse BST_Balance
begin

text \<open>
  \<^verbatim>\<open>tbst_balance\<close> of \<open>tbst.c\<close>: the threaded tree is turned into a vine along the left links and the vine is
  folded by rounds of rotations, which set or keep the threads.  On the represented tree the rounds
  are those of \<open>bst.c\<close>.
\<close>

declare fun_upd_apply [simp del]

section \<open>The operations\<close>

partial_function (option) tbst_vine_loop :: "'a tbst_heap \<Rightarrow> addr option \<Rightarrow> ('a tbst_heap \<times> addr option) prog" where
  "tbst_vine_loop h p =
     pbind (link_at h p True) (\<lambda>q.
     pbind (tag_at h p True) (\<lambda>g.
     pbind (if g = TBST_CHILD then
              pbind (tbst_descend h False q) (\<lambda>q.
              pbind (assign h p (set_tag True TBST_THREAD)) (\<lambda>h.
              pbind (assign h p (set_link True q)) (\<lambda>h. pret (h, q))))
            else pret (h, q)) (\<lambda>(h, q).
     if q = None then pret (h, p)
     else pbind (assign h q (set_tag False TBST_CHILD)) (\<lambda>h.
          pbind (assign h q (set_link False p)) (\<lambda>h.
          tbst_vine_loop h q)))))"

definition tbst_tree_to_vine :: "'a tbst_heap \<Rightarrow> 'a tbst_table \<Rightarrow> ('a tbst_heap \<times> 'a tbst_table) prog" where
  "tbst_tree_to_vine h tree =
     (if tbst_root tree = None then pret (h, tree)
      else pbind (tbst_descend h False (tbst_root tree)) (\<lambda>p.
           pbind (tbst_vine_loop h p) (\<lambda>(h, p). pret (h, tree\<lparr>tbst_root := p\<rparr>))))"

text \<open>The two loops of \<^verbatim>\<open>compress\<close>, at the place \<open>root\<close>.\<close>

fun tbst_nonthread ::
  "nat \<Rightarrow> 'a tbst_heap \<Rightarrow> 'a tbst_table \<Rightarrow> addr option \<Rightarrow> ('a tbst_heap \<times> 'a tbst_table \<times> addr option) prog" where
  "tbst_nonthread 0 h tree root = pret (h, tree, root)"
| "tbst_nonthread (Suc n) h tree root =
     pbind (tbst_get h tree root False) (\<lambda>red.
     pbind (link_at h red False) (\<lambda>black.
     pbind (tbst_put h tree root False black) (\<lambda>(h, tree).
     pbind (link_at h black True) (\<lambda>v.
     pbind (assign h red (set_link False v)) (\<lambda>h.
     pbind (assign h black (set_link True red)) (\<lambda>h.
     tbst_nonthread n h tree black))))))"

fun tbst_thread ::
  "nat \<Rightarrow> 'a tbst_heap \<Rightarrow> 'a tbst_table \<Rightarrow> addr option \<Rightarrow> ('a tbst_heap \<times> 'a tbst_table) prog" where
  "tbst_thread 0 h tree root = pret (h, tree)"
| "tbst_thread (Suc n) h tree root =
     pbind (tbst_get h tree root False) (\<lambda>red.
     pbind (link_at h red False) (\<lambda>black.
     pbind (tbst_put h tree root False black) (\<lambda>(h, tree).
     pbind (assign h red (set_link False black)) (\<lambda>h.
     pbind (assign h red (set_tag False TBST_THREAD)) (\<lambda>h.
     pbind (assign h black (set_tag True TBST_CHILD)) (\<lambda>h.
     tbst_thread n h tree black))))))"

definition tbst_compress ::
  "'a tbst_heap \<Rightarrow> 'a tbst_table \<Rightarrow> addr option \<Rightarrow> nat \<Rightarrow> nat \<Rightarrow> ('a tbst_heap \<times> 'a tbst_table) prog" where
  "tbst_compress h tree root nonthread thread =
     pbind (tbst_nonthread nonthread h tree root) (\<lambda>(h, tree, root). tbst_thread thread h tree root)"

partial_function (option) tbst_rounds ::
  "64 word \<Rightarrow> 'a tbst_heap \<Rightarrow> 'a tbst_table \<Rightarrow> ('a tbst_heap \<times> 'a tbst_table) prog" where
  "tbst_rounds vine h tree =
     (if vine > 1 then
        pbind (tbst_compress h tree None (unat (vine div 2)) 0) (\<lambda>(h, tree). tbst_rounds (vine div 2) h tree)
      else pret (h, tree))"

text \<open>The first compression of \<open>vine div 2\<close> pairs, of which \<open>leaves div 2\<close> have no threads.\<close>

definition tbst_first_round ::
  "64 word \<Rightarrow> 64 word \<Rightarrow> 'a tbst_heap \<Rightarrow> 'a tbst_table \<Rightarrow> ('a tbst_heap \<times> 'a tbst_table \<times> 64 word) prog" where
  "tbst_first_round vine leaves h tree =
     (if vine > 1 then
        let nonleaves = vine div 2; leaves = leaves div 2;
            (leaves, nonleaves) = (if leaves > nonleaves then (nonleaves, 0) else (leaves, nonleaves - leaves)) in
        pbind (tbst_compress h tree None (unat leaves) (unat nonleaves)) (\<lambda>(h, tree). pret (h, tree, vine div 2))
      else pret (h, tree, vine))"

text \<open>The variable \<open>height\<close> of the code is set and never used.\<close>

definition tbst_vine_to_tree :: "'a tbst_heap \<Rightarrow> 'a tbst_table \<Rightarrow> ('a tbst_heap \<times> 'a tbst_table) prog" where
  "tbst_vine_to_tree h tree =
     (let leaves = tbst_count tree + 1 - top_bit (tbst_count tree + 1) in
      pbind (tbst_compress h tree None 0 (unat leaves)) (\<lambda>(h, tree).
      pbind (tbst_first_round (tbst_count tree - leaves) leaves h tree) (\<lambda>(h, tree, vine).
      tbst_rounds vine h tree)))"

definition tbst_balance :: "'a tbst_heap \<Rightarrow> 'a tbst_table \<Rightarrow> ('a tbst_heap \<times> 'a tbst_table) prog" where
  "tbst_balance h tree = pbind (tbst_tree_to_vine h tree) (\<lambda>(h, tree). tbst_vine_to_tree h tree)"

section \<open>The vine\<close>

fun vine_of :: "'b list \<Rightarrow> 'b bst_node \<Rightarrow> 'b bst_node" where
  "vine_of [] t = t"
| "vine_of (y # ys) t = vine_of ys (BNode t y BNull)"

abbreviation vine :: "'b list \<Rightarrow> 'b bst_node" where
  "vine xs \<equiv> vine_of xs BNull"

lemma vine_snoc [simp]: "vine_of (xs @ [y]) t = BNode (vine_of xs t) y BNull"
  by (induction xs arbitrary: t) auto

lemma vine_inorder_of [simp]: "bst_inorder (vine_of xs t) = bst_inorder t @ xs"
  by (induction xs arbitrary: t) auto

lemma vine_addrs [simp]: "addrs (vine xs) = map fst xs"
  by (simp add: addrs_def)

lemma vine_spine_of: "spine (length xs) 0 (flat 0) (vine xs)"
  by (induction xs rule: rev_induct) (simp_all add: flat_def)

lemma vine_null [simp]: "vine xs = BNull \<longleftrightarrow> xs = []"
  by (cases xs rule: rev_exhaust) simp_all

declare tbst_vine_loop.simps [simp del]

lemma tbst_vine_loop_ok:
  assumes "trep h None None t" "distinct (addrs t)"
  shows "bst_inorder t = xs @ (a, x) # ys \<Longrightarrow> agree (set (map fst ys)) h h' \<Longrightarrow> trep h' None (Some a) (vine xs) \<Longrightarrow>
    h a = Some n \<Longrightarrow> h' a = Some n' \<Longrightarrow> tbst_link n' False = root_of (vine xs) None \<Longrightarrow> tbst_tag n' False = kind (vine xs) \<Longrightarrow>
    tbst_data n' = x \<Longrightarrow> tbst_link n' True = tbst_link n True \<Longrightarrow> tbst_tag n' True = tbst_tag n True \<Longrightarrow>
    \<exists>h''. tbst_vine_loop h' (Some a) = pret (h'', root_of (vine (xs @ (a, x) # ys)) None) \<and>
      trep h'' None None (vine (xs @ (a, x) # ys)) \<and> agree (- set (addrs t)) h' h''"
proof (induction ys arbitrary: xs a x h' n n')
  case (Cons z ys)
  obtain b w where z: "z = (b, w)" by fastforce
  have mem: "a \<in> set (addrs t)" "b \<in> set (addrs t)" "a \<noteq> b" "b \<noteq> a" "a \<notin> set (map fst xs)" "b \<notin> set (map fst xs)"
    "a \<notin> set (map fst ys)" "b \<notin> set (map fst ys)"
    using assms(2) Cons.prems(1) z by (auto simp: addrs_def)
  have af: "tbst_after h' (Some a) = pret (Some b)"
    using tbst_after_ok [OF assms(1) Cons.prems(1,4,5,9,10,2)] z by simp
  obtain k where k: "h b = Some k" using trep_alloc [OF assms(1) mem(2)] by blast
  then have k': "h' b = Some k" using Cons.prems(2) z by (simp add: agree_def)
  have kx: "tbst_data k = w" using trep_mid [OF assms(1), of "xs @ [(a, x)]" b w ys] Cons.prems(1) k z by fastforce
  let ?n = "tnode None (Some b) (vine xs) x BNull" and ?k = "set_link False (Some a) (set_tag False TBST_CHILD k)"
  let ?h = "h'(a \<mapsto> ?n, b \<mapsto> ?k)"
  have step: "tbst_vine_loop h' (Some a) = tbst_vine_loop ?h (Some b)"
  proof (cases "tbst_tag n' True = TBST_CHILD")
    case True
    then have "tbst_descend h' False (tbst_link n' True) = pret (Some b)"
      using af Cons.prems(5) by (simp add: tbst_after_def)
    moreover have "set_link True (Some b) (set_tag True TBST_THREAD n') = ?n" using Cons.prems(6-8) by (simp add: eq_tnode)
    ultimately show ?thesis using True Cons.prems(5) k' mem by (subst tbst_vine_loop.simps) simp
  next
    case False
    then have th: "tbst_tag n' True = TBST_THREAD" "tbst_link n' True = Some b"
      using af Cons.prems(5) by (auto simp: tbst_after_def intro: tbst_tag.exhaust)
    have "?n = n'" unfolding eq_tnode [of n', symmetric] using th Cons.prems(6-8) by (simp add: eq_tnode eq_commute [of _ n'])
    then have "h'(a \<mapsto> ?n) = h'" using Cons.prems(5) by (simp add: fun_upd_idem)
    then show ?thesis using th Cons.prems(5) k' mem by (subst tbst_vine_loop.simps) simp
  qed
  have "trep ?h None (Some b) (vine (xs @ [(a, x)]))" using Cons.prems(3) mem by simp
  moreover have "agree (set (map fst ys)) h ?h" using Cons.prems(2) z mem by (simp add: agree_upd) (simp add: agree_def)
  moreover have "bst_inorder t = (xs @ [(a, x)]) @ (b, w) # ys" using Cons.prems(1) z by simp
  ultimately obtain h'' where ih: "tbst_vine_loop ?h (Some b) = pret (h'', root_of (vine ((xs @ [(a, x)]) @ (b, w) # ys)) None)"
    "trep h'' None None (vine ((xs @ [(a, x)]) @ (b, w) # ys))" "agree (- set (addrs t)) ?h h''"
    using Cons.IH [of "xs @ [(a, x)]" b w ?h k ?k] k kx by auto
  have "agree (- set (addrs t)) h' ?h" using mem(1,2) by (simp add: agree_upd)
  from agree_trans [OF this ih(3)] show ?case using step ih(1,2) z by (intro exI [of _ h'']) simp
next
  case Nil
  have a: "a \<in> set (addrs t)" "a \<notin> set (map fst xs)" using assms(2) Nil.prems(1) by (auto simp: addrs_def)
  have af: "tbst_after h' (Some a) = pret None"
    using tbst_after_ok [OF assms(1) Nil.prems(1,4,5,9,10,2)] by simp
  obtain lo' l where m: "h a = Some (tnode lo' None l x BNull)"
  proof (rule trep_mid [OF assms(1) Nil.prems(1)])
    fix lo' hi' l r and vs :: "(addr \<times> 'a option) list"
    assume "h a = Some (tnode lo' hi' l x r)" "[] = bst_inorder r @ vs" "hi' = first_addr vs None"
    then show thesis using that [of lo' l] by simp
  qed
  then have th: "tbst_tag n' True = TBST_THREAD" "tbst_link n' True = None" using Nil.prems(4,9,10) by simp_all
  then have n': "n' = tnode None None (vine xs) x BNull" using Nil.prems(6-8) by (simp add: eq_tnode)
  have "tbst_vine_loop h' (Some a) = pret (h', Some a)" using th Nil.prems(5) by (subst tbst_vine_loop.simps) simp
  then show ?case using n' Nil.prems(3,5) by simp
qed

lemma tbst_tree_to_vine_ok:
  assumes "rooted h tree t"
  shows "\<exists>h' tree'. tbst_tree_to_vine h tree = pret (h', tree') \<and> rooted h' tree' (vine (bst_inorder t)) \<and>
    agree (- set (addrs t)) h h' \<and> tbst_compare tree' = tbst_compare tree \<and> tbst_count tree' = tbst_count tree"
proof (cases "bst_inorder t")
  case Nil
  then show ?thesis using assms by (simp add: tbst_tree_to_vine_def rooted_def)
next
  case (Cons y ys)
  obtain a x where y: "y = (a, x)" by fastforce
  have rep: "trep h None None t" "distinct (addrs t)" "tbst_root tree = root_of t None"
    using assms by (simp_all add: rooted_def)
  have t0: "t \<noteq> BNull" using Cons by auto
  then have t: "t \<noteq> BNull" "tip False t = Some a" using Cons y tip_ends(1) [OF t0, of None] by simp_all
  have i: "bst_inorder t = [] @ (a, x) # ys" using Cons y by simp
  obtain hi' l r where n: "h a = Some (tnode None hi' BNull x r)"
  proof (rule trep_mid [OF rep(1) i])
    fix lo' hi' l r and us :: "(addr \<times> 'a option) list"
    assume "h a = Some (tnode lo' hi' l x r)" "[] = us @ bst_inorder l" "lo' = last_addr us None"
    then show thesis using that [of hi' r] by simp
  qed
  obtain h' where h': "tbst_vine_loop h (Some a) = pret (h', root_of (vine (bst_inorder t)) None)"
    "trep h' None None (vine (bst_inorder t))" "agree (- set (addrs t)) h h'"
    using tbst_vine_loop_ok [OF rep(1,2) i agree_refl _ n n] i by auto
  obtain c where "root_of t None = Some c" using top_in [OF t(1)] by blast
  then have "tbst_tree_to_vine h tree = pret (h', tree\<lparr>tbst_root := root_of (vine (bst_inorder t)) None\<rparr>)"
    using tbst_descend_tip [OF rep(1) t(1), of False None] t(2) h'(1) rep(3) by (simp add: tbst_tree_to_vine_def)
  then show ?thesis using h' rep(2) by (simp add: rooted_def addrs_def)
qed

section \<open>Compression\<close>

text \<open>Which nodes of the left spine have a right child, and what compression makes of it.\<close>

fun forks :: "'b bst_node \<Rightarrow> bool list" where
  "forks BNull = []"
| "forks (BNode l y r) = (r \<noteq> BNull) # forks l"

lemma compress_forks:
  "compress c t = Ok t' \<Longrightarrow> forks t' = replicate c True @ drop (2 * c) (forks t)"
proof (induction c t arbitrary: t' rule: compress.induct)
  case (4 n bl bx br rx rr)
  then show ?case by (auto elim!: obind_OkE)
qed simp_all

lemma compress_enough: "2 * c \<le> length (forks t) \<Longrightarrow> \<exists>t'. compress c t = Ok t'"
  by (induction c t rule: compress.induct) (auto elim!: obind_OkE)

text \<open>\<open>m\<close> pairs whose second node has a right child, then \<open>n\<close> whose second node has none.\<close>

fun fold_pairs :: "nat \<Rightarrow> nat \<Rightarrow> bool list \<Rightarrow> bool" where
  "fold_pairs 0 0 bs = True"
| "fold_pairs (Suc m) n (b # c # bs) = (c \<and> fold_pairs m n bs)"
| "fold_pairs 0 (Suc n) (b # c # bs) = (\<not> c \<and> fold_pairs 0 n bs)"
| "fold_pairs m n bs = False"

text \<open>The assignment to the left link of a place.\<close>

definition relink :: "'a tbst_heap \<Rightarrow> 'a tbst_table \<Rightarrow> addr option \<Rightarrow> addr option \<Rightarrow> 'a tbst_heap \<times> 'a tbst_table" where
  "relink h tree root v =
     (case root of None \<Rightarrow> (h, tree\<lparr>tbst_root := v\<rparr>) | Some c \<Rightarrow> (h(c \<mapsto> set_link False v (the (h c))), tree))"

definition hangs :: "'a tbst_heap \<Rightarrow> 'a tbst_table \<Rightarrow> addr option \<Rightarrow> addr option \<Rightarrow> 'a ghost \<Rightarrow> bool" where
  "hangs h tree root hi t \<longleftrightarrow> trep h None hi t \<and> distinct (addrs t) \<and>
     (case root of
        None \<Rightarrow> tbst_root tree = root_of t None
      | Some c \<Rightarrow> c \<notin> set (addrs t) \<and> (\<exists>n. h c = Some n \<and> tbst_link n False = root_of t None))"

text \<open>What a compression at the place \<open>root\<close> leaves: only the link of the place and the nodes below it change.\<close>

definition compressed ::
  "'a tbst_heap \<Rightarrow> 'a tbst_table \<Rightarrow> addr option \<Rightarrow> addr option \<Rightarrow> 'a ghost \<Rightarrow> 'a ghost \<Rightarrow> ('a tbst_heap \<times> 'a tbst_table) prog \<Rightarrow> bool" where
  "compressed h tree root hi t t' m \<longleftrightarrow> (\<exists>h' tree'. m = pret (h', tree') \<and> trep h' None hi t' \<and>
     tree' = snd (relink h tree root (root_of t' None)) \<and>
     agree (- set (addrs t)) (fst (relink h tree root (root_of t' None))) h')"

lemma hangs_get: "hangs h tree root hi t \<Longrightarrow> tbst_get h tree root False = pret (root_of t None)"
  by (auto simp: hangs_def tbst_get_def split: option.splits)

lemma hangs_put: "hangs h tree root hi t \<Longrightarrow> tbst_put h tree root False v = pret (relink h tree root v)"
  by (auto simp: hangs_def tbst_put_def relink_def split: option.splits)

lemma relink_other:
  "hangs h tree root hi t \<Longrightarrow> relink h tree root v = (h1, tree1) \<Longrightarrow> agree (set (addrs t)) h h1"
  by (auto simp: hangs_def relink_def agree_upd split: option.splits)

lemma relink_twice: "relink h tree root v = (h1, tree1) \<Longrightarrow> root = Some c \<Longrightarrow> h1 c = Some (set_link False v (the (h c)))"
  by (auto simp: relink_def)

text \<open>One rotation, before the compression goes on at \<open>black\<close>.\<close>

lemma rotated:
  assumes "hangs h tree root hi (BNode (BNode bl (b, y) br) (r, z) rr)" "relink h tree root (Some b) = (h1, tree1)"
    and "h3 = h1(r \<mapsto> tnode (Some b) hi br z rr, b \<mapsto> tnode None hi bl y (BNode br (r, z) rr))"
  shows "trep h3 None (Some b) bl" "trep h3 (Some b) (Some r) br" "trep h3 (Some r) hi rr"
    "r \<noteq> b" "r \<notin> set (addrs bl)" "b \<notin> set (addrs bl)" "distinct (addrs bl)" "b \<notin> set (addrs br)" "b \<notin> set (addrs rr)"
    "set (addrs bl) \<inter> set (addrs br) = {}" "set (addrs bl) \<inter> set (addrs rr) = {}"
proof -
  let ?t = "BNode (BNode bl (b, y) br) (r, z) rr"
  have d: "distinct (addrs ?t)" "trep h None hi ?t" using assms(1) by (simp_all add: hangs_def)
  then show ne: "r \<noteq> b" "r \<notin> set (addrs bl)" "b \<notin> set (addrs bl)" "distinct (addrs bl)" "b \<notin> set (addrs br)"
    "b \<notin> set (addrs rr)" "set (addrs bl) \<inter> set (addrs br) = {}" "set (addrs bl) \<inter> set (addrs rr) = {}"
    by auto
  have "r \<notin> set (addrs br)" "r \<notin> set (addrs rr)" using d(1) by auto
  moreover have "trep h1 None hi ?t" by (rule trep_agree [OF d(2) relink_other [OF assms(1,2)]])
  ultimately show "trep h3 None (Some b) bl" "trep h3 (Some b) (Some r) br" "trep h3 (Some r) hi rr"
    using ne unfolding assms(3) by simp_all
qed

lemma compress_hangs:
  assumes "hangs h tree root hi (BNode (BNode bl (b, y) br) (r, z) rr)" "relink h tree root (Some b) = (h1, tree1)"
    and "h3 = h1(r \<mapsto> tnode (Some b) hi br z rr, b \<mapsto> tnode None hi bl y (BNode br (r, z) rr))"
  shows "hangs h3 tree1 (Some b) (Some b) bl"
  using rotated [OF assms] assms(3) by (simp add: hangs_def)

lemma compress_step:
  assumes hg: "hangs h tree root hi (BNode (BNode bl (b, y) br) (r, z) rr)"
    and re: "relink h tree root (Some b) = (h1, tree1)"
    and h3: "h3 = h1(r \<mapsto> tnode (Some b) hi br z rr, b \<mapsto> tnode None hi bl y (BNode br (r, z) rr))"
    and on: "compressed h3 tree1 (Some b) (Some b) bl t2 m" and nul: "t2 = BNull \<longleftrightarrow> bl = BNull"
  shows "compressed h tree root hi (BNode (BNode bl (b, y) br) (r, z) rr) (BNode t2 (b, y) (BNode br (r, z) rr)) m"
proof -
  let ?t = "BNode (BNode bl (b, y) br) (r, z) rr"
  note rep3 = rotated(1-3) [OF hg re h3] and ne = rotated(4-) [OF hg re h3]
  obtain h' where m: "m = pret (h', tree1)" "trep h' None (Some b) t2"
    "agree (- set (addrs bl)) (h3(b \<mapsto> set_link False (root_of t2 None) (the (h3 b)))) h'"
    using on by (auto simp: compressed_def relink_def)
  have "kind t2 = kind bl" using nul by (simp add: kind_def)
  then have "set_link False (root_of t2 None) (tnode None hi bl y (BNode br (r, z) rr)) = tnode None hi t2 y (BNode br (r, z) rr)"
    by (simp add: eq_tnode)
  then have at: "h' b = Some (tnode None hi t2 y (BNode br (r, z) rr))" "h' r = Some (tnode (Some b) hi br z rr)"
    using m(3) ne unfolding h3 by (simp_all add: agree_def)
  have "agree (set (addrs br) \<union> set (addrs rr)) (h3(b \<mapsto> set_link False (root_of t2 None) (the (h3 b)))) h'"
    by (rule agree_subset [OF m(3)]) (use ne in auto)
  then have "agree (set (addrs br) \<union> set (addrs rr)) h3 h'" using ne by (simp add: agree_upd_left)
  then have "trep h' None hi (BNode t2 (b, y) (BNode br (r, z) rr))"
    using at m(2) rep3 by (simp add: trep_agree)
  moreover have "agree (- set (addrs ?t)) h1 h'"
    using m(3) unfolding h3 by (auto simp: agree_def fun_upd_apply)
  ultimately show "compressed h tree root hi ?t (BNode t2 (b, y) (BNode br (r, z) rr)) m"
    using m(1) re by (simp add: compressed_def)
qed

lemma rotate_heap:
  assumes "hangs h tree root hi (BNode (BNode bl (b, y) br) (r, z) rr)" "relink h tree root (Some b) = (h1, tree1)"
  shows "tbst_get h tree root False = pret (Some r)" "link_at h (Some r) False = pret (Some b)"
    "tbst_put h tree root False (Some b) = pret (h1, tree1)"
    "h1 r = Some (tnode None hi (BNode bl (b, y) br) z rr)" "h1 b = Some (tnode None (Some r) bl y br)"
    "r \<noteq> b" "b \<noteq> r"
proof -
  let ?t = "BNode (BNode bl (b, y) br) (r, z) rr"
  have d: "distinct (addrs ?t)" "trep h None hi ?t" using assms(1) by (simp_all add: hangs_def)
  have "trep h1 None hi ?t" by (rule trep_agree [OF d(2) relink_other [OF assms]])
  then show "h1 r = Some (tnode None hi (BNode bl (b, y) br) z rr)" "h1 b = Some (tnode None (Some r) bl y br)"
    by simp_all
  show "link_at h (Some r) False = pret (Some b)" using d(2) by simp
  show "tbst_get h tree root False = pret (Some r)" using hangs_get [OF assms(1)] by simp
  show "tbst_put h tree root False (Some b) = pret (h1, tree1)" using hangs_put [OF assms(1)] assms(2) by simp
  show "r \<noteq> b" "b \<noteq> r" using d(1) by auto
qed

lemma forks_two:
  assumes "forks t = c # d # bs"
  obtains bl b y br r z rr where "t = BNode (BNode bl (b, y) br) (r, z) rr" "d \<longleftrightarrow> br \<noteq> BNull" "forks bl = bs"
proof -
  obtain s w rr where t: "t = BNode s w rr" "forks s = d # bs" using assms by (cases t) auto
  obtain bl v br where "s = BNode bl v br" "d = (br \<noteq> BNull)" "forks bl = bs" using t(2) by (cases s) auto
  then show thesis using t(1) that [of bl "fst v" "snd v" br "fst w" "snd w" rr] by simp
qed

lemma tbst_thread_ok:
  "hangs h tree root hi t \<Longrightarrow> fold_pairs 0 n (forks t) \<Longrightarrow>
     \<exists>t'. compress n t = Ok t' \<and> compressed h tree root hi t t' (tbst_thread n h tree root)"
proof (induction n arbitrary: h tree root hi t)
  case 0
  have "agree (- set (addrs t)) (fst (relink h tree root (root_of t None))) h" "tree = snd (relink h tree root (root_of t None))"
    using 0 by (auto simp: hangs_def relink_def agree_def fun_upd_apply node_eq split: option.splits)
  then show ?case using 0 by (simp add: compressed_def hangs_def)
next
  case (Suc n)
  obtain c d bs where f: "forks t = c # d # bs" "\<not> d" "fold_pairs 0 n bs"
    using Suc.prems(2) by (cases "forks t" rule: remdups_adj.cases) auto
  obtain bl b y r z rr where t: "t = BNode (BNode bl (b, y) BNull) (r, z) rr" "forks bl = bs"
    using forks_two [OF f(1)] f(2) by metis
  obtain h1 tree1 where re: "relink h tree root (Some b) = (h1, tree1)" by fastforce
  note rot = rotate_heap [OF Suc.prems(1) [unfolded t(1)] re]
  let ?h3 = "h1(r \<mapsto> tnode (Some b) hi BNull z rr, b \<mapsto> tnode None hi bl y (BNode BNull (r, z) rr))"
  have e: "set_tag False TBST_THREAD (set_link False (Some b) (tnode None hi (BNode bl (b, y) BNull) z rr)) = tnode (Some b) hi BNull z rr"
    "set_tag True TBST_CHILD (tnode None (Some r) bl y BNull) = tnode None hi bl y (BNode BNull (r, z) rr)"
    by (simp_all add: eq_tnode)
  have run: "tbst_thread (Suc n) h tree root = tbst_thread n ?h3 tree1 (Some b)"
    using rot e by simp
  have hg: "hangs ?h3 tree1 (Some b) (Some b) bl" by (rule compress_hangs [OF Suc.prems(1) [unfolded t(1)] re refl])
  obtain t2 where t2: "compress n bl = Ok t2"
    "compressed ?h3 tree1 (Some b) (Some b) bl t2 (tbst_thread n ?h3 tree1 (Some b))"
    using Suc.IH [OF hg] f(3) t(2) by auto
  show ?case
    using compress_step [OF Suc.prems(1) [unfolded t(1)] re refl t2(2) compress_null [OF t2(1)]] run t(1) t2(1) by auto
qed

lemma tbst_compress_ok:
  "hangs h tree root hi t \<Longrightarrow> fold_pairs m n (forks t) \<Longrightarrow>
     \<exists>t'. compress (m + n) t = Ok t' \<and> compressed h tree root hi t t' (tbst_compress h tree root m n)"
proof (induction m arbitrary: h tree root hi t)
  case 0
  then show ?case using tbst_thread_ok [OF 0] by (simp add: tbst_compress_def)
next
  case (Suc m)
  obtain c d bs where f: "forks t = c # d # bs" "d" "fold_pairs m n bs"
    using Suc.prems(2) by (cases "forks t" rule: remdups_adj.cases) auto
  obtain bl b y br r z rr where t: "t = BNode (BNode bl (b, y) br) (r, z) rr" "br \<noteq> BNull" "forks bl = bs"
    using forks_two [OF f(1)] f(2) by metis
  obtain h1 tree1 where re: "relink h tree root (Some b) = (h1, tree1)" by fastforce
  note rot = rotate_heap [OF Suc.prems(1) [unfolded t(1)] re]
  let ?h3 = "h1(r \<mapsto> tnode (Some b) hi br z rr, b \<mapsto> tnode None hi bl y (BNode br (r, z) rr))"
  have e: "set_link False (root_of br (Some r)) (tnode None hi (BNode bl (b, y) br) z rr) = tnode (Some b) hi br z rr"
    "set_link True (Some r) (tnode None (Some r) bl y br) = tnode None hi bl y (BNode br (r, z) rr)"
    using top_node [OF t(2)] t(2) by (simp_all add: eq_tnode)
  have run: "tbst_compress h tree root (Suc m) n = tbst_compress ?h3 tree1 (Some b) m n"
    using rot e by (simp add: tbst_compress_def)
  have hg: "hangs ?h3 tree1 (Some b) (Some b) bl" by (rule compress_hangs [OF Suc.prems(1) [unfolded t(1)] re refl])
  obtain t2 where t2: "compress (m + n) bl = Ok t2"
    "compressed ?h3 tree1 (Some b) (Some b) bl t2 (tbst_compress ?h3 tree1 (Some b) m n)"
    using Suc.IH [OF hg] f(3) t(3) by auto
  show ?case
    using compress_step [OF Suc.prems(1) [unfolded t(1)] re refl t2(2) compress_null [OF t2(1)]] run t(1) t2(1) by auto
qed

section \<open>The rounds\<close>

text \<open>A table whose tree \<open>t\<close> has become \<open>t'\<close>, with the same nodes.\<close>

definition reshaped ::
  "'a tbst_heap \<Rightarrow> 'a tbst_table \<Rightarrow> 'a ghost \<Rightarrow> 'a tbst_heap \<Rightarrow> 'a tbst_table \<Rightarrow> 'a ghost \<Rightarrow> bool" where
  "reshaped h tree t h' tree' t' \<longleftrightarrow> rooted h' tree' t' \<and> bst_inorder t' = bst_inorder t \<and>
     agree (- set (addrs t)) h h' \<and> tbst_compare tree' = tbst_compare tree \<and> tbst_count tree' = tbst_count tree"

lemma reshaped_refl: "rooted h tree t \<Longrightarrow> reshaped h tree t h tree t"
  by (simp add: reshaped_def)

lemma reshaped_trans:
  "reshaped h tree t h1 tree1 t1 \<Longrightarrow> reshaped h1 tree1 t1 h2 tree2 t2 \<Longrightarrow> reshaped h tree t h2 tree2 t2"
  unfolding reshaped_def addrs_def by (metis agree_trans)

lemma compress_reshaped:
  assumes "rooted h tree t" "fold_pairs m n (forks t)"
  shows "\<exists>t' h' tree'. compress (m + n) t = Ok t' \<and> tbst_compress h tree None m n = pret (h', tree') \<and>
    reshaped h tree t h' tree' t'"
proof -
  have "hangs h tree None None t" using assms(1) by (simp add: rooted_def hangs_def)
  from tbst_compress_ok [OF this assms(2)] obtain t' h' where c: "compress (m + n) t = Ok t'"
    "tbst_compress h tree None m n = pret (h', tree\<lparr>tbst_root := root_of t' None\<rparr>)" "trep h' None None t'"
    "agree (- set (addrs t)) h h'"
    by (auto simp: compressed_def relink_def)
  then show ?thesis using assms(1) compress_inorder [OF c(1)]
    by (intro exI [of _ t'] exI [of _ h'] exI [of _ "tree\<lparr>tbst_root := root_of t' None\<rparr>"])
      (simp add: reshaped_def rooted_def addrs_def)
qed

lemma fold_threads: "2 * n \<le> Suc b \<Longrightarrow> fold_pairs 0 n (c # replicate b False)"
proof (induction n arbitrary: b c)
  case (Suc n)
  then obtain k where b: "b = Suc k" by (cases b) auto
  show ?case
  proof (cases k)
    case 0
    then show ?thesis using Suc.prems b by simp
  next
    case (Suc j)
    then show ?thesis using Suc.IH [of j False] Suc.prems b by simp
  qed
qed simp

lemma fold_first: "2 * (a div 2 + n) \<le> a + b \<Longrightarrow> fold_pairs (a div 2) n (replicate a True @ replicate b False)"
proof (induction a rule: induct_nat_012)
  case 0
  then show ?case
  proof (cases b)
    case 0
    then show ?thesis using \<open>2 * (0 div 2 + n) \<le> 0 + b\<close> by simp
  next
    case (Suc c)
    then show ?thesis using \<open>2 * (0 div 2 + n) \<le> 0 + b\<close> fold_threads [of n c False] by simp
  qed
next
  case 1
  then show ?case using fold_threads [of n b True] by simp
qed simp

lemma fold_children: "2 * m \<le> v \<Longrightarrow> fold_pairs m 0 (replicate v True @ rest)"
proof (induction m arbitrary: v)
  case (Suc m)
  then have "v = Suc (Suc (v - 2))" "2 * m \<le> v - 2" by simp_all
  moreover define w where "w = v - 2"
  ultimately have "v = Suc (Suc w)" "2 * m \<le> w" by simp_all
  then show ?case using Suc.IH [of w] by simp
qed simp

declare tbst_rounds.simps [simp del]

lemma tbst_rounds_ok:
  "rooted h tree t \<Longrightarrow> (1 < v \<Longrightarrow> \<exists>rest. forks t = replicate (unat v) True @ rest) \<Longrightarrow>
     \<exists>t' h' tree' hc'. vine_rounds v hc t = Ok (t', hc') \<and> tbst_rounds v h tree = pret (h', tree') \<and>
       reshaped h tree t h' tree' t'"
proof (induction "unat v" arbitrary: v h tree t hc rule: less_induct)
  case less
  show ?case
  proof (cases "v > 1")
    case True
    have u: "unat (v div 2) = unat v div 2" by (simp add: unat_div)
    obtain rest where "forks t = replicate (unat v) True @ rest" using less.prems(2) True by blast
    then have "fold_pairs (unat (v div 2)) 0 (forks t)" using fold_children [of "unat v div 2" "unat v" rest] u by simp
    from compress_reshaped [OF less.prems(1) this] obtain t1 h1 tree1
      where 1: "compress (unat (v div 2)) t = Ok t1" "tbst_compress h tree None (unat (v div 2)) 0 = pret (h1, tree1)"
        "reshaped h tree t h1 tree1 t1" by auto
    have "1 < unat v" using True by (simp add: word_less_nat_alt)
    then have "unat (v div 2) < unat v" unfolding u by simp
    moreover have "forks t1 = replicate (unat (v div 2)) True @ drop (2 * unat (v div 2)) (forks t)"
      by (rule compress_forks [OF 1(1)])
    moreover have "rooted h1 tree1 t1" using 1(3) by (simp add: reshaped_def)
    ultimately obtain t' h' tree' hc' where 2: "vine_rounds (v div 2) (hc + 1) t1 = Ok (t', hc')"
      "tbst_rounds (v div 2) h1 tree1 = pret (h', tree')" "reshaped h1 tree1 t1 h' tree' t'"
      using less.hyps [of "v div 2" h1 tree1 t1 "hc + 1"] by blast
    then have "vine_rounds v hc t = Ok (t', hc')" "tbst_rounds v h tree = pret (h', tree')"
      using True 1 by (simp_all add: vine_rounds.simps [of v] tbst_rounds.simps [of v])
    then show ?thesis using reshaped_trans [OF 1(3) 2(3)] by blast
  next
    case False
    then show ?thesis using reshaped_refl [OF less.prems(1)]
      by (auto simp: vine_rounds.simps [of v] tbst_rounds.simps [of v])
  qed
qed

text \<open>The first compression and the first round together do what the rounds of \<open>bst.c\<close> do first.\<close>

lemma tbst_first_round_ok:
  fixes c l :: "64 word"
  assumes "rooted h tree t" "forks t = replicate m True @ replicate b False" "unat l = m" "unat (c - l) = 2 ^ k - 1"
    and "m < 2 ^ k" "m + b = 2 ^ k - 1"
  shows "\<exists>t' h' tree' w. tbst_first_round (c - l) l h tree = pret (h', tree', w) \<and> reshaped h tree t h' tree' t' \<and>
    (1 < w \<longrightarrow> (\<exists>rest. forks t' = replicate (unat w) True @ rest)) \<and>
    (\<forall>hc. \<exists>hc'. vine_rounds (c - l) hc t = vine_rounds w hc' t')"
proof (cases "c - l > 1")
  case True
  then have "1 < (2 :: nat) ^ k - 1" using assms(4) by (simp add: word_less_nat_alt)
  then obtain j where j: "k = Suc j" by (cases k) auto
  have d2: "unat ((c - l) div 2) = 2 ^ j - 1" "unat (l div 2) = m div 2" using assms(3,4) j by (simp_all add: unat_div)
  have ml: "m div 2 \<le> 2 ^ j - 1" using assms(5) j by simp
  then have nl: "\<not> l div 2 > (c - l) div 2" "unat ((c - l) div 2 - l div 2) = 2 ^ j - 1 - m div 2"
    using d2 unat_sub [of "l div 2" "(c - l) div 2"] by (simp_all add: word_less_nat_alt word_le_nat_alt)
  have su: "m div 2 + (2 ^ j - 1 - m div 2) = 2 ^ j - 1" using ml by simp
  have "fold_pairs (m div 2) (2 ^ j - 1 - m div 2) (forks t)" unfolding assms(2)
    by (rule fold_first) (use su assms(6) j in simp)
  from compress_reshaped [OF assms(1) this, unfolded su] obtain t2 h2 tree2
    where 2: "compress (2 ^ j - 1) t = Ok t2" "tbst_compress h tree None (m div 2) (2 ^ j - 1 - m div 2) = pret (h2, tree2)"
      "reshaped h tree t h2 tree2 t2" by blast
  have "tbst_first_round (c - l) l h tree = pret (h2, tree2, (c - l) div 2)"
    using True nl d2 2(2) unfolding tbst_first_round_def Let_def by simp
  moreover have "forks t2 = replicate (unat ((c - l) div 2)) True @ drop (2 * (2 ^ j - 1)) (forks t)"
    using compress_forks [OF 2(1)] d2 by simp
  moreover have "vine_rounds (c - l) hc t = vine_rounds ((c - l) div 2) (hc + 1) t2" for hc
    using True 2(1) d2 by (subst vine_rounds.simps) simp
  ultimately show ?thesis using 2(3) by blast
next
  case False
  then show ?thesis using reshaped_refl [OF assms(1)] by (auto simp: tbst_first_round_def)
qed

lemma tbst_vine_to_tree_ok:
  assumes "rooted h tree (vine ys)" "tbst_count tree = of_nat (length ys)" "length ys < 2 ^ 32"
  shows "\<exists>t' h' tree'. vine_to_tree (tbst_count tree) (vine ys) = Ok t' \<and> tbst_vine_to_tree h tree = pret (h', tree') \<and>
    reshaped h tree (vine ys) h' tree' t'"
proof -
  let ?c = "of_nat (length ys) :: 64 word"
  let ?l = "?c + 1 - top_bit (?c + 1)"
  obtain k m where km: "Suc (length ys) = 2 ^ k + m" "m < 2 ^ k" and l: "unat ?l = m"
    and v: "unat (?c - ?l) = 2 ^ k - 1"
    using vine_words [OF assms(3)] by metis
  have fv: "forks (vine ys) = replicate (length ys) False" by (induction ys rule: rev_induct) simp_all
  have "fold_pairs 0 m (forks (vine ys))" unfolding fv using fold_first [of 0 m "length ys"] km by simp
  from compress_reshaped [OF assms(1) this] obtain t1 h1 tree1
    where 1: "compress m (vine ys) = Ok t1" "tbst_compress h tree None 0 m = pret (h1, tree1)"
      "reshaped h tree (vine ys) h1 tree1 t1" by auto
  have r1: "rooted h1 tree1 t1" using 1(3) by (simp add: reshaped_def)
  have f1: "forks t1 = replicate m True @ replicate (length ys - 2 * m) False"
    using compress_forks [OF 1(1)] fv by simp
  have e: "m + (length ys - 2 * m) = 2 ^ k - 1" using km by linarith
  obtain t2 h2 tree2 w where 2: "tbst_first_round (?c - ?l) ?l h1 tree1 = pret (h2, tree2, w)" "reshaped h1 tree1 t1 h2 tree2 t2"
    "1 < w \<Longrightarrow> \<exists>rest. forks t2 = replicate (unat w) True @ rest"
    "\<And>hc. \<exists>hc'. vine_rounds (?c - ?l) hc t1 = vine_rounds w hc' t2"
    using tbst_first_round_ok [OF r1 f1 l v km(2) e] by blast
  obtain hc' where hc': "vine_rounds (?c - ?l) (1 + (if ?l > 0 then 1 else 0)) t1 = vine_rounds w hc' t2" using 2(4) by blast
  have "rooted h2 tree2 t2" using 2(2) by (simp add: reshaped_def)
  from tbst_rounds_ok [OF this 2(3), of hc'] obtain t' h' tree' hc2
    where 3: "vine_rounds w hc' t2 = Ok (t', hc2)" "tbst_rounds w h2 tree2 = pret (h', tree')" "reshaped h2 tree2 t2 h' tree' t'"
    by blast
  obtain t'' where "vine_to_tree ?c (vine ys) = Ok t''"
    using vine_to_tree_ok [OF vine_spine_of [of ys] _ assms(3)] by auto
  then have "vine_to_tree ?c (vine ys) = Ok t'"
    using l 1(1) hc' 3(1) by (auto simp: vine_to_tree_def Let_def split: if_splits)
  moreover have "tbst_vine_to_tree h tree = pret (h', tree')"
    using assms(2) l 1(2,3) 2(1) 3(2) by (simp add: tbst_vine_to_tree_def reshaped_def Let_def)
  ultimately show ?thesis using assms(2) reshaped_trans [OF reshaped_trans [OF 1(3) 2(2)] 3(3)] by auto
qed

lemma tbst_balance_ok:
  assumes "rooted h tree t" "tbst_count tree = of_nat (length (datas t))" "length (datas t) < 2 ^ 32"
  shows "\<exists>h' tree' t' b. tbst_balance h tree = pret (h', tree') \<and> reshaped h tree t h' tree' t' \<and>
    bst_height t' \<le> b \<and> b \<le> BST_MAX_HEIGHT \<and> (0 < b \<longrightarrow> 2 ^ (b - 1) \<le> length (datas t))"
proof -
  let ?ys = "bst_inorder t"
  have len: "length ?ys = length (datas t)" by (simp add: datas_def)
  obtain h1 tree1 where 1: "tbst_tree_to_vine h tree = pret (h1, tree1)" "rooted h1 tree1 (vine ?ys)"
    "agree (- set (addrs t)) h h1" "tbst_compare tree1 = tbst_compare tree" "tbst_count tree1 = tbst_count tree"
    using tbst_tree_to_vine_ok [OF assms(1)] by blast
  have c: "tbst_count tree1 = of_nat (length ?ys)" using 1(5) assms(2) len by simp
  obtain t' h' tree' where 2: "vine_to_tree (tbst_count tree1) (vine ?ys) = Ok t'" "tbst_vine_to_tree h1 tree1 = pret (h', tree')"
    "reshaped h1 tree1 (vine ?ys) h' tree' t'"
    using tbst_vine_to_tree_ok [OF 1(2) c] assms(3) len by auto
  have "reshaped h tree t h1 tree1 (vine ?ys)" using 1 by (simp add: reshaped_def)
  then have "reshaped h tree t h' tree' t'" using 2(3) reshaped_trans by blast
  moreover have "tbst_balance h tree = pret (h', tree')" using 1(1) 2(2) by (simp add: tbst_balance_def)
  ultimately show ?thesis
    using vine_to_tree_ok [OF vine_spine_of [of ?ys]] 2(1) c assms(3) len by fastforce
qed

end
