(* ===== verification/TBST_Copy.thy ===== *)
theory TBST_Copy
  imports TBST_Traverse
begin

text \<open>
  \<^verbatim>\<open>tbst_copy\<close> of \<open>tbst.c\<close>: the original and the copy are walked in parallel, along the children
  and the threads, and the copy grows leaf by leaf.  The two local nodes \<open>rp\<close> and \<open>rq\<close> of the
  code, the pseudo nodes above the roots, are nodes at two free addresses.  The result is a copy, or the heap of
  the call.
\<close>

section \<open>The operations\<close>

text \<open>
  The user's function for copying items takes and returns a pointer, which may be null; \<open>None\<close>
  in place of the function is the null function pointer.
\<close>

type_synonym 'a tbst_copy_func = "('a option \<Rightarrow> 'a option) option"

text \<open>\<^verbatim>\<open>copy_node\<close>: whether it succeeded.\<close>

definition tbst_copy_node ::
  "('a tbst_heap \<Rightarrow> addr option) \<Rightarrow> 'a tbst_copy_func \<Rightarrow> 'a tbst_heap \<Rightarrow> addr option \<Rightarrow> bool \<Rightarrow> addr option \<Rightarrow>
     ('a tbst_heap \<times> bool) prog" where
  "tbst_copy_node malloc copy h dst dir src =
     (case malloc h of
        None \<Rightarrow> pret (h, False)
      | Some a \<Rightarrow>
          pbind (link_at h dst dir) (\<lambda>l.
          let h = h(a \<mapsto> \<lparr>tbst_link = (\<lambda>e. if e = dir then l else dst), tbst_data = None, tbst_tag = (\<lambda>e. TBST_THREAD)\<rparr>) in
          pbind (assign h dst (set_link dir (Some a))) (\<lambda>h.
          pbind (assign h dst (set_tag dir TBST_CHILD)) (\<lambda>h.
          pbind (fetch h src) (\<lambda>s.
          case copy of
            None \<Rightarrow> pbind (assign h (Some a) (set_data (tbst_data s))) (\<lambda>h. pret (h, True))
          | Some f \<Rightarrow>
              pbind (assign h (Some a) (set_data (f (tbst_data s)))) (\<lambda>h.
              pret (h, f (tbst_data s) \<noteq> None)))))))"

text \<open>\<^verbatim>\<open>copy_error_recovery\<close>: the items that are handed to the user's destructor.\<close>

definition tbst_copy_recovery ::
  "bool \<Rightarrow> 'a tbst_heap \<Rightarrow> addr option \<Rightarrow> 'a tbst_table \<Rightarrow> ('a list \<times> 'a tbst_heap) prog" where
  "tbst_copy_recovery destroy h p new =
     pbind (if p \<noteq> None then pbind (tbst_descend h True p) (\<lambda>p. assign h p (set_link True None)) else pret h)
       (\<lambda>h. tbst_destroy destroy h (new\<lparr>tbst_root := p\<rparr>))"

text \<open>What a round of the loop comes to: a failed copy, the end, or the next two nodes.\<close>

datatype copy_state = Copy_failed | Copy_done | Copy_at "addr option" "addr option"

text \<open>The inner loop, up along the threads.\<close>

partial_function (option) tbst_copy_ascend ::
  "'a tbst_heap \<Rightarrow> addr option \<Rightarrow> addr option \<Rightarrow> ('a tbst_heap \<times> copy_state) prog" where
  "tbst_copy_ascend h p q =
     pbind (tag_at h p True) (\<lambda>g.
     pbind (link_at h p True) (\<lambda>p.
     if g = TBST_THREAD \<and> p = None then pbind (assign h q (set_link True None)) (\<lambda>h. pret (h, Copy_done))
     else pbind (link_at h q True) (\<lambda>q.
       if g = TBST_THREAD then tbst_copy_ascend h p q else pret (h, Copy_at p q))))"

definition tbst_copy_move ::
  "('a tbst_heap \<Rightarrow> addr option) \<Rightarrow> 'a tbst_copy_func \<Rightarrow> 'a tbst_heap \<Rightarrow> addr option \<Rightarrow> addr option \<Rightarrow>
     ('a tbst_heap \<times> copy_state) prog" where
  "tbst_copy_move malloc copy h p q =
     pbind (tag_at h p False) (\<lambda>g.
       if g = TBST_CHILD then
         pbind (link_at h p False) (\<lambda>s.
         pbind (tbst_copy_node malloc copy h q False s) (\<lambda>(h, ok).
         if \<not> ok then pret (h, Copy_failed)
         else pbind (link_at h p False) (\<lambda>p. pbind (link_at h q False) (\<lambda>q. pret (h, Copy_at p q)))))
       else tbst_copy_ascend h p q)"

text \<open>The main loop: whether it succeeded.\<close>

partial_function (option) tbst_copy_loop ::
  "('a tbst_heap \<Rightarrow> addr option) \<Rightarrow> 'a tbst_copy_func \<Rightarrow> 'a tbst_heap \<Rightarrow> addr option \<Rightarrow> addr option \<Rightarrow>
     ('a tbst_heap \<times> bool) prog" where
  "tbst_copy_loop malloc copy h p q =
     pbind (tbst_copy_move malloc copy h p q) (\<lambda>(h, st).
       case st of
         Copy_failed \<Rightarrow> pret (h, False)
       | Copy_done \<Rightarrow> pret (h, True)
       | Copy_at p q \<Rightarrow>
           pbind (tag_at h p True) (\<lambda>g.
           pbind (if g = TBST_CHILD then pbind (link_at h p True) (\<lambda>s. tbst_copy_node malloc copy h q True s)
                  else pret (h, True)) (\<lambda>(h, ok).
           if ok then tbst_copy_loop malloc copy h p q else pret (h, False))))"

text \<open>
  \<open>alloc\<close>: whether there is memory for the table itself; \<open>rp\<close> and \<open>rq\<close>: where the local nodes are; \<open>raw\<close>: what
  their other fields hold.  The result is what the destructor was given, the new table and the heap.
\<close>

definition tbst_copy ::
  "bool \<Rightarrow> ('a tbst_heap \<Rightarrow> addr option) \<Rightarrow> 'a tbst_copy_func \<Rightarrow> bool \<Rightarrow> addr \<Rightarrow> addr \<Rightarrow> 'a tbst_node \<Rightarrow>
     'a tbst_heap \<Rightarrow> 'a tbst_table \<Rightarrow> ('a list \<times> 'a tbst_table option \<times> 'a tbst_heap) prog" where
  "tbst_copy alloc malloc copy destroy rp rq raw h org =
     (case tbst_create alloc (tbst_compare org) of
        None \<Rightarrow> pret ([], None, h)
      | Some new \<Rightarrow>
          let new = new\<lparr>tbst_count := tbst_count org\<rparr> in
          if tbst_count new = 0 then pret ([], Some new, h)
          else
            let h = h(rp \<mapsto> set_tag False TBST_CHILD (set_link False (tbst_root org) raw),
                      rq \<mapsto> set_tag False TBST_THREAD (set_link False None raw)) in
            pbind (tbst_copy_loop malloc copy h (Some rp) (Some rq)) (\<lambda>(h, ok).
            pbind (link_at h (Some rq) False) (\<lambda>root.
            if ok then pret ([], Some (new\<lparr>tbst_root := root\<rparr>), h(rp := None, rq := None))
            else pbind (tbst_copy_recovery destroy h root new) (\<lambda>(xs, h).
              pret (xs, None, h(rp := None, rq := None))))))"

section \<open>The growing copy\<close>

text \<open>
  \<open>grown h1 rq u h\<close>: since the heap was \<open>h1\<close>, the nodes of \<open>u\<close> were allocated and \<open>u\<close> hangs
  below \<open>rq\<close>; nothing else has changed.
\<close>

definition grown :: "'a tbst_heap \<Rightarrow> addr \<Rightarrow> 'a ghost \<Rightarrow> 'a tbst_heap \<Rightarrow> bool" where
  "grown h1 rq u h \<longleftrightarrow> trep h None (Some rq) u \<and> distinct (addrs u) \<and> (\<forall>a\<in>set (addrs u). h1 a = None) \<and>
     agree (- insert rq (set (addrs u))) h1 h \<and> h1 rq \<noteq> None \<and>
     (\<exists>n. h rq = Some n \<and> tbst_link n False = root_of u None \<and> tbst_tag n False = kind u)"

lemma grown_attach:
  assumes g: "grown h1 rq u h" and p: "in_tree u p" "subtree u p = BNull" "place (Some rq) False u p = (Some b, d)"
    and a: "h a = None" "h b = Some n"
  shows "grown h1 rq (put_at u p (BNode BNull (a, y) BNull))
    (h(a \<mapsto> \<lparr>tbst_link = (\<lambda>e. if e = d then tbst_link n d else Some b), tbst_data = y, tbst_tag = (\<lambda>e. TBST_THREAD)\<rparr>,
       b \<mapsto> set_tag d TBST_CHILD (set_link d (Some a) n)))"
    and "h1 a = None"
proof -
  let ?s = "BNode BNull (a, y) BNull" and ?lo = "lo_at None u p" and ?hi = "hi_at (Some rq) u p"
  have u: "trep h None (Some rq) u" "distinct (addrs u)" "\<forall>a\<in>set (addrs u). h1 a = None" "h1 rq \<noteq> None"
    "agree (- insert rq (set (addrs u))) h1 h"
    using g by (simp_all add: grown_def)
  obtain k where k: "h rq = Some k" "tbst_link k False = root_of u None" "tbst_tag k False = kind u"
    using g by (auto simp: grown_def)
  have an: "a \<notin> set (addrs u)" "a \<noteq> rq" "a \<noteq> b" using a k(1) trep_alloc [OF u(1), of a] by auto
  then show h1a: "h1 a = None" using u(5) a(1) by (simp add: agree_def)
  have rq: "rq \<notin> set (addrs u)" using u(3,4) by auto
  have ad: "set (addrs (put_at u p ?s)) = insert a (set (addrs u))"
    unfolding addrs_def inorder_put [OF p(1)] inorder_split [OF p(1)] using p(2) by auto
  have dis: "distinct (addrs (put_at u p ?s))" by (rule distinct_put [OF p(1) u(2), of _ "{a}"]) (use an in auto)
  let ?n = "\<lparr>tbst_link = (\<lambda>e. if e = d then tbst_link n d else Some b), tbst_data = y, tbst_tag = (\<lambda>e. TBST_THREAD)\<rparr>"
  let ?k = "set_tag d TBST_CHILD (set_link d (Some a) n)"
  let ?h = "h(a \<mapsto> ?n, b \<mapsto> ?k)"
  show "grown h1 rq (put_at u p ?s) ?h"
  proof (cases "p = []")
    case True
    then have b: "b = rq" "d = False" "u = BNull" "n = k" using p a(2) k(1) by auto
    then have "?n = tnode None (Some rq) BNull y BNull" using k by (simp add: eq_tnode)
    then have "trep ?h None (Some rq) ?s" using an b by simp
    moreover have "agree (- {rq, a}) h1 ?h" using u(5) b an by (auto simp: agree_def fun_upd_apply)
    ultimately show ?thesis using b True an h1a u(4) by (simp add: grown_def insert_commute)
  next
    case False
    have bb: "b \<in> set (addrs u)" using place_in [OF p(3) False p(1)] .
    then have br: "b \<noteq> rq" "rq \<noteq> b" using rq by auto
    have "tbst_link n d = (if d then ?hi else ?lo)" "(if d then ?lo else ?hi) = Some b"
      using place_link [OF p(3) False p(1) u(1)] place_bound [OF p(3) False p(1)] p(2) a(2) by simp_all
    then have "?n = tnode ?lo ?hi BNull y BNull" by (cases d) (simp_all add: eq_tnode)
    then have "trep ?h ?lo ?hi ?s" using an by simp
    moreover have "agree (set (addrs u) - set (addrs (subtree u p)) - {b}) h ?h"
      using an by (auto simp: agree_def fun_upd_apply)
    ultimately have "trep ?h None (Some rq) (put_at u p ?s)"
      using trep_put [OF p(3) False p(1) u(2,1) _ a(2), of ?h ?s] by simp
    moreover have "agree (- insert rq (insert a (set (addrs u)))) h1 ?h"
      using u(5) bb by (auto simp: agree_def fun_upd_apply)
    moreover have "root_of (put_at u p ?s) None = root_of u None" "kind (put_at u p ?s) = kind u"
      using False p(1) by (cases p; cases u; auto split: prod.splits)+
    ultimately show ?thesis using dis ad u(3,4) h1a k an br by (simp add: grown_def)
  qed
qed

lemma grown_other: "grown h1 rq u h \<Longrightarrow> h1 b \<noteq> None \<Longrightarrow> b \<noteq> rq \<Longrightarrow> h b = h1 b"
  by (auto simp: grown_def agree_def)

lemma grown_finite: "grown h1 rq u h \<Longrightarrow> finite (dom h1) \<Longrightarrow> finite (dom h)"
proof -
  assume g: "grown h1 rq u h" "finite (dom h1)"
  have "dom h \<subseteq> dom h1 \<union> insert rq (set (addrs u))" using g(1) by (auto simp: grown_def agree_def)
  then show "finite (dom h)" using g(2) finite_subset by fastforce
qed

text \<open>
  The state in which the loop gives up: the copy so far is a tree, and there was a reason.
\<close>

definition gave_up ::
  "'a tbst_heap \<Rightarrow> addr \<Rightarrow> ('a tbst_heap \<Rightarrow> addr option) \<Rightarrow> 'a tbst_copy_func \<Rightarrow> 'a ghost \<Rightarrow> 'a tbst_heap \<Rightarrow> bool" where
  "gave_up h1 rq malloc copy t h \<longleftrightarrow> (\<exists>u. grown h1 rq u h \<and> from_items copy t u) \<and> \<not> copy_safe malloc copy t"

lemma tbst_copy_node_ok:
  assumes "allocator malloc" "finite (dom h1)" "grown h1 rq u h" "in_tree u p" "subtree u p = BNull"
    and "place (Some rq) False u p = (Some b, d)" "h1 c = Some s" "c \<noteq> rq" "b \<noteq> c" "from_items copy t u"
    and "(c, tbst_data s) \<in> set (bst_inorder t)"
  obtains (fails) h' where "tbst_copy_node malloc copy h (Some b) d (Some c) = pret (h', False)" "gave_up h1 rq malloc copy t h'"
  | (copies) h' a where "tbst_copy_node malloc copy h (Some b) d (Some c) = pret (h', True)" "h1 a = None"
      "grown h1 rq (put_at u p (BNode BNull (a, copied copy (tbst_data s)) BNull)) h'"
      "from_items copy t (put_at u p (BNode BNull (a, copied copy (tbst_data s)) BNull))"
      "\<exists>n. h' b = Some n \<and> tbst_link n d = Some a" "copy = None \<or> copied copy (tbst_data s) \<noteq> None"
proof (cases "malloc h")
  case None
  moreover have "\<not> copy_safe malloc copy t"
    using None grown_finite [OF assms(3,2)] by (auto simp: copy_safe_def)
  ultimately show ?thesis using assms(3,10) fails by (simp add: tbst_copy_node_def gave_up_def) blast
next
  case (Some a)
  have a: "h a = None" using Some assms(1) by (simp add: allocator_def)
  have c: "h c = Some s" using grown_other [OF assms(3), of c] assms(7,8) by simp
  then have ac: "a \<noteq> c" using a by auto
  obtain n where n: "h b = Some n"
  proof (cases "p = []")
    case True
    then show ?thesis using assms(3,6) that by (auto simp: grown_def)
  next
    case False
    then show ?thesis using place_link [OF assms(6) False assms(4)] assms(3) that by (auto simp: grown_def)
  qed
  then have ab: "a \<noteq> b" using a by auto
  let ?y = "copied copy (tbst_data s)"
  let ?h = "h(a \<mapsto> \<lparr>tbst_link = (\<lambda>e. if e = d then tbst_link n d else Some b), tbst_data = ?y, tbst_tag = (\<lambda>e. TBST_THREAD)\<rparr>,
       b \<mapsto> set_tag d TBST_CHILD (set_link d (Some a) n))"
  have ok: "tbst_copy_node malloc copy h (Some b) d (Some c) = pret (?h, copy = None \<or> ?y \<noteq> None)"
    using Some n c ab ac assms(9)
    by (cases copy) (simp_all add: tbst_copy_node_def Let_def copied_def fun_upd_twist set_data_def)
  have g: "grown h1 rq (put_at u p (BNode BNull (a, ?y) BNull)) ?h" "h1 a = None"
    using grown_attach [where h = h and a = a, OF assms(3-6) a n] by simp_all
  have f: "from_items copy t (put_at u p (BNode BNull (a, ?y) BNull))"
    by (rule from_items_put [OF assms(10,4,5,11)])
  show ?thesis
  proof (cases "copy = None \<or> ?y \<noteq> None")
    case True
    then show ?thesis using ok g f by (intro copies [of ?h a]) simp_all
  next
    case False
    have "\<not> copy_safe malloc copy t"
    proof
      assume "copy_safe malloc copy t"
      then have "copied copy (snd (c, tbst_data s)) \<noteq> None" using assms(11) unfolding copy_safe_def by blast
      then show False using False by simp
    qed
    then have "gave_up h1 rq malloc copy t ?h" using g(1) f by (auto simp: gave_up_def)
    then show ?thesis using ok False by (intro fails [of ?h]) auto
  qed
qed

section \<open>The walk\<close>

text \<open>What the loop does once it is at two nodes or at an end.\<close>

definition tbst_copy_go ::
  "('a tbst_heap \<Rightarrow> addr option) \<Rightarrow> 'a tbst_copy_func \<Rightarrow> 'a tbst_heap \<times> copy_state \<Rightarrow> ('a tbst_heap \<times> bool) prog" where
  "tbst_copy_go malloc copy = (\<lambda>(h, st).
     case st of
       Copy_failed \<Rightarrow> pret (h, False)
     | Copy_done \<Rightarrow> pret (h, True)
     | Copy_at p q \<Rightarrow>
         pbind (tag_at h p True) (\<lambda>g.
         pbind (if g = TBST_CHILD then pbind (link_at h p True) (\<lambda>s. tbst_copy_node malloc copy h q True s)
                else pret (h, True)) (\<lambda>(h, ok).
         if ok then tbst_copy_loop malloc copy h p q else pret (h, False))))"

declare tbst_copy_loop.simps [simp del] tbst_copy_ascend.simps [simp del]

lemma tbst_copy_loop_go:
  "tbst_copy_loop malloc copy h p q = pbind (tbst_copy_move malloc copy h p q) (tbst_copy_go malloc copy)"
  by (subst tbst_copy_loop.simps) (simp add: tbst_copy_go_def)

lemma tip_thread:
  assumes "trep h lo hi t" "t \<noteq> BNull"
  obtains m n where "tip True t = Some m" "h m = Some n" "tbst_tag n True = TBST_THREAD" "tbst_link n True = hi"
  using assms
proof (induction t arbitrary: lo)
  case (BNode l y r)
  obtain a x where y: "y = (a, x)" by fastforce
  show ?case
  proof (cases "r = BNull")
    case True
    then show ?thesis using BNode.prems y by simp
  next
    case False
    show ?thesis
    proof (rule BNode.IH(2) [OF _ _ False])
      show "trep h (Some a) hi r" using BNode.prems(2) y by simp
      fix m n
      assume "tip True r = Some m" "h m = Some n" "tbst_tag n True = TBST_THREAD" "tbst_link n True = hi"
      then show thesis using BNode.prems(1) [of m n] False y by simp
    qed
  qed
qed simp

text \<open>Leaving a left subtree.\<close>

lemma tbst_copy_up:
  assumes "trep h lo (Some a) l" "l \<noteq> BNull" "trep h lo' (Some b) l'" "l' \<noteq> BNull"
  shows "tbst_copy_ascend h (tip True l) (tip True l') = tbst_copy_ascend h (Some a) (Some b)"
proof -
  obtain m n where m: "tip True l = Some m" "h m = Some n" "tbst_tag n True = TBST_THREAD" "tbst_link n True = Some a"
    using tip_thread [OF assms(1,2)] .
  obtain m' n' where m': "tip True l' = Some m'" "h m' = Some n'" "tbst_link n' True = Some b"
    using tip_thread [OF assms(3,4)] .
  show ?thesis using m m' by (subst tbst_copy_ascend.simps) simp
qed

text \<open>The standing assumptions of the walk: the original \<open>t\<close> on the heap \<open>h1\<close>, with the local nodes.\<close>

definition copy_setting ::
  "('a tbst_heap \<Rightarrow> addr option) \<Rightarrow> 'a tbst_heap \<Rightarrow> addr \<Rightarrow> 'a ghost \<Rightarrow> bool" where
  "copy_setting malloc h1 rq t \<longleftrightarrow> allocator malloc \<and> finite (dom h1) \<and> rq \<notin> set (addrs t)"

lemma setting_rq:
  "copy_setting malloc h1 rq t \<Longrightarrow> set (bst_inorder s) \<subseteq> set (bst_inorder t) \<Longrightarrow> rq \<notin> set (addrs s)"
  unfolding copy_setting_def addrs_def set_map by blast

lemma grown_trep:
  "grown h1 rq u h \<Longrightarrow> trep h1 lo hi s \<Longrightarrow> rq \<notin> set (addrs s) \<Longrightarrow> trep h lo hi s"
proof (rule trep_agree)
  assume g: "grown h1 rq u h" and s: "trep h1 lo hi s" "rq \<notin> set (addrs s)"
  have "h a = h1 a" if "a \<in> set (addrs s)" for a
  proof (rule grown_other [OF g])
    show "h1 a \<noteq> None" by (rule trep_alloc [OF s(1) that])
    show "a \<noteq> rq" using that s(2) by auto
  qed
  then show "agree (set (addrs s)) h1 h" by (simp add: agree_def)
qed

text \<open>A child of the node \<open>b\<close> is copied.\<close>

lemma tbst_copy_child:
  assumes "copy_setting malloc h1 rq t" "in_tree u p" "subtree u p = BNode l (b, y) r" "(if d then r else l) = BNull"
    and "grown h1 rq u h" "from_items copy t u" "trep h1 lo hi (BNode k (c, x) k')" "set (bst_inorder (BNode k (c, x) k')) \<subseteq> set (bst_inorder t)"
  obtains (fails) h' where "tbst_copy_node malloc copy h (Some b) d (Some c) = pret (h', False)" "gave_up h1 rq malloc copy t h'"
  | (copies) h' a u' where "tbst_copy_node malloc copy h (Some b) d (Some c) = pret (h', True)"
      "u' = put_at u p (if d then BNode l (b, y) (BNode BNull (a, copied copy x) BNull) else BNode (BNode BNull (a, copied copy x) BNull) (b, y) r)"
      "grown h1 rq u' h'" "from_items copy t u'" "\<exists>n. h' b = Some n \<and> tbst_link n d = Some a"
      "copy = None \<or> copied copy x \<noteq> None"
proof -
  let ?p = "p @ [d]"
  have ip: "in_tree u ?p" "subtree u ?p = BNull" using assms(2-4) by (cases d; simp)+
  obtain s where s: "h1 c = Some s" "tbst_data s = x" using assms(7) by simp
  have mem1: "(c, tbst_data s) \<in> set (bst_inorder t)" using assms(8) s(2) by auto
  then have "c \<in> set (addrs t)" by (force simp: addrs_def)
  then have mem: "(c, tbst_data s) \<in> set (bst_inorder t)" "c \<noteq> rq" using mem1 assms(1) by (auto simp: copy_setting_def)
  have "b \<in> set (addrs u)" using addrs_subtree [of u p] assms(3) by auto
  then have bc: "b \<noteq> c" using assms(5) s(1) by (auto simp: grown_def)
  have put: "put_at u ?p v = put_at u p (if d then BNode l (b, y) v else BNode v (b, y) r)" for v
    using assms(2,3) by (simp add: put_at_append)
  from assms(1) have set: "allocator malloc" "finite (dom h1)" by (simp_all add: copy_setting_def)
  show thesis
  proof (cases rule: tbst_copy_node_ok [where copy = copy and d = d, OF set assms(5) ip place_snoc [OF assms(2,3)] s(1) mem(2) bc assms(6) mem(1)])
    case (1 h')
    then show ?thesis by (rule fails)
  next
    case (2 h' a)
    then show ?thesis using s(2) by (intro copies [OF 2(1) put]) auto
  qed
qed

text \<open>
  The walk below a node: either it gives up, or it stands at the last node of the subtree \<open>s\<close> and of
  its copy, which hangs at the path \<open>p\<close> in the copy \<open>u\<close>.
\<close>

definition fails_in ::
  "'a tbst_heap \<Rightarrow> addr \<Rightarrow> ('a tbst_heap \<Rightarrow> addr option) \<Rightarrow> 'a tbst_copy_func \<Rightarrow> 'a ghost \<Rightarrow> ('a tbst_heap \<times> bool) prog \<Rightarrow> bool" where
  "fails_in h1 rq malloc copy t m \<longleftrightarrow> (\<exists>h'. m = pret (h', False) \<and> gave_up h1 rq malloc copy t h')"

definition partial_copy :: "'a tbst_heap \<Rightarrow> addr \<Rightarrow> 'a tbst_copy_func \<Rightarrow> 'a ghost \<Rightarrow> 'a ghost \<Rightarrow> 'a tbst_heap \<Rightarrow> bool" where
  "partial_copy h1 rq copy t u h \<longleftrightarrow> grown h1 rq u h \<and> from_items copy t u \<and> (copy \<noteq> None \<longrightarrow> filled u)"

definition walked ::
  "'a tbst_heap \<Rightarrow> addr \<Rightarrow> ('a tbst_heap \<Rightarrow> addr option) \<Rightarrow> 'a tbst_copy_func \<Rightarrow> 'a ghost \<Rightarrow> 'a ghost \<Rightarrow> bool list \<Rightarrow> 'a ghost \<Rightarrow>
     ('a tbst_heap \<times> bool) prog \<Rightarrow> bool" where
  "walked h1 rq malloc copy t u p s m \<longleftrightarrow> fails_in h1 rq malloc copy t m \<or>
     (\<exists>h' s'. m = pbind (tbst_copy_ascend h' (tip True s) (tip True s')) (tbst_copy_go malloc copy) \<and>
       copies_of copy s s' \<and> partial_copy h1 rq copy t (put_at u p s') h')"

fun leaf_of :: "'a tbst_copy_func \<Rightarrow> addr \<Rightarrow> 'a ghost \<Rightarrow> 'a ghost" where
  "leaf_of copy b BNull = BNull"
| "leaf_of copy b (BNode l (a, x) r) = BNode BNull (b, copied copy x) BNull"

definition visits ::
  "'a tbst_heap \<Rightarrow> addr \<Rightarrow> ('a tbst_heap \<Rightarrow> addr option) \<Rightarrow> 'a tbst_copy_func \<Rightarrow> 'a ghost \<Rightarrow> 'a ghost \<Rightarrow> bool" where
  "visits h1 rq malloc copy t s \<longleftrightarrow> (\<forall>u p h b. in_tree u p \<longrightarrow> partial_copy h1 rq copy t (put_at u p (leaf_of copy b s)) h \<longrightarrow>
     walked h1 rq malloc copy t u p s (tbst_copy_go malloc copy (h, Copy_at (root_of s None) (Some b))))"

lemma visit_right:
  assumes "copy_setting malloc h1 rq t" "trep h1 lo hi (BNode l (a, x) r)" "set (bst_inorder (BNode l (a, x) r)) \<subseteq> set (bst_inorder t)"
    and "in_tree u p" "partial_copy h1 rq copy t (put_at u p (BNode BNull (b, y) BNull)) h"
  obtains (fails) "fails_in h1 rq malloc copy t (tbst_copy_go malloc copy (h, Copy_at (Some a) (Some b)))"
  | (goes) h' c where "tbst_copy_go malloc copy (h, Copy_at (Some a) (Some b)) = tbst_copy_loop malloc copy h' (Some a) (Some b)"
      "partial_copy h1 rq copy t (put_at u p (BNode BNull (b, y) (leaf_of copy c r))) h'"
proof -
  have rq: "rq \<notin> set (addrs (BNode l (a, x) r))"
    by (rule setting_rq [OF assms(1,3)])
  have pc: "grown h1 rq (put_at u p (BNode BNull (b, y) BNull)) h" "from_items copy t (put_at u p (BNode BNull (b, y) BNull))"
    using assms(5) by (simp_all add: partial_copy_def)
  have n: "h a = Some (tnode lo hi l x r)" using grown_trep [OF pc(1) assms(2) rq] by simp
  show thesis
  proof (cases r)
    case BNull
    then have "tbst_copy_go malloc copy (h, Copy_at (Some a) (Some b)) = tbst_copy_loop malloc copy h (Some a) (Some b)"
      using n by (simp add: tbst_copy_go_def)
    then show ?thesis by (rule goes [where c = 0]) (use BNull assms(5) in simp)
  next
    case (BNode k z k')
    obtain c v where z: "z = (c, v)" by fastforce
    have r: "trep h1 (Some a) hi (BNode k (c, v) k')" "set (bst_inorder (BNode k (c, v) k')) \<subseteq> set (bst_inorder t)"
      using assms(2,3) BNode z by auto
    have go: "tbst_copy_go malloc copy (h, Copy_at (Some a) (Some b)) =
        pbind (tbst_copy_node malloc copy h (Some b) True (Some c)) (\<lambda>(h, ok). if ok then tbst_copy_loop malloc copy h (Some a) (Some b) else pret (h, False))"
      using n BNode z by (simp add: tbst_copy_go_def)
    have ip: "in_tree (put_at u p (BNode BNull (b, y) BNull)) p" "subtree (put_at u p (BNode BNull (b, y) BNull)) p = BNode BNull (b, y) BNull"
      using assms(4) by simp_all
    show ?thesis
    proof (cases rule: tbst_copy_child [where d = True, simplified if_True, OF assms(1) ip refl pc r])
      case (1 h')
      then show ?thesis using go by (intro fails) (simp add: fails_in_def)
    next
      case (2 h' c' u')
      have u': "u' = put_at u p (BNode BNull (b, y) (leaf_of copy c' r))" using 2(2) BNode z assms(4) by (simp add: put_at_put)
      have "filled u'" if "copy \<noteq> None"
        using that assms(4,5) 2(6) BNode z unfolding u' partial_copy_def
        by (auto intro!: filled_swap [OF assms(4), where s = "BNode BNull (b, y) BNull"] dest: filled_at [OF assms(4)])
      then have "partial_copy h1 rq copy t u' h'" using 2(3,4) by (simp add: partial_copy_def)
      then show ?thesis using go 2(1) u' by (intro goes [of h' c']) simp_all
    qed
  qed
qed

lemma visit_left:
  assumes "copy_setting malloc h1 rq t" "trep h1 lo hi (BNode l (a, x) r)" "set (bst_inorder (BNode l (a, x) r)) \<subseteq> set (bst_inorder t)"
    and "in_tree u p" "partial_copy h1 rq copy t (put_at u p (BNode BNull (b, y) R)) h" "l \<noteq> BNull \<Longrightarrow> visits h1 rq malloc copy t l"
  obtains (fails) "fails_in h1 rq malloc copy t (tbst_copy_loop malloc copy h (Some a) (Some b))"
  | (goes) h' l' where "tbst_copy_loop malloc copy h (Some a) (Some b) = pbind (tbst_copy_ascend h' (Some a) (Some b)) (tbst_copy_go malloc copy)"
      "copies_of copy l l'" "partial_copy h1 rq copy t (put_at u p (BNode l' (b, y) R)) h'"
proof -
  have rq: "rq \<notin> set (addrs (BNode l (a, x) r))"
    by (rule setting_rq [OF assms(1,3)])
  let ?u = "put_at u p (BNode BNull (b, y) R)"
  have pc: "grown h1 rq ?u h" "from_items copy t ?u" using assms(5) by (simp_all add: partial_copy_def)
  have n: "h a = Some (tnode lo hi l x r)" using grown_trep [OF pc(1) assms(2) rq] by simp
  show thesis
  proof (cases l)
    case BNull
    then have "tbst_copy_loop malloc copy h (Some a) (Some b) = pbind (tbst_copy_ascend h (Some a) (Some b)) (tbst_copy_go malloc copy)"
      using n by (simp add: tbst_copy_loop_go tbst_copy_move_def)
    then show ?thesis by (rule goes [where l' = BNull]) (use BNull assms(5) in simp_all)
  next
    case (BNode k z k')
    obtain c v where z: "z = (c, v)" by fastforce
    have l: "trep h1 lo (Some a) (BNode k (c, v) k')" "set (bst_inorder (BNode k (c, v) k')) \<subseteq> set (bst_inorder t)"
      using assms(2,3) BNode z by auto
    have ip: "in_tree ?u p" "subtree ?u p = BNode BNull (b, y) R" using assms(4) by simp_all
    show ?thesis
    proof (cases rule: tbst_copy_child [where d = False, simplified if_False simp_thms, OF assms(1) ip refl pc l])
      case (1 h')
      then show ?thesis using n BNode z
        by (intro fails) (simp add: fails_in_def tbst_copy_loop_go tbst_copy_move_def tbst_copy_go_def)
    next
      case (2 h' d u')
      have u': "u' = put_at ?u (p @ [False]) (leaf_of copy d l)" "in_tree ?u (p @ [False])"
        using 2(2) ip BNode z by (simp_all add: put_at_append)
      have n': "h' a = Some (tnode lo hi l x r)" using grown_trep [OF 2(3) assms(2) rq] by simp
      have run: "tbst_copy_loop malloc copy h (Some a) (Some b) = tbst_copy_go malloc copy (h', Copy_at (Some c) (Some d))"
        using n n' 2(1,5) BNode z by (auto simp: tbst_copy_loop_go tbst_copy_move_def)
      have "filled u'" if "copy \<noteq> None"
        using that assms(5) 2(6) BNode z u'(2) ip unfolding u'(1) partial_copy_def by (auto intro!: filled_put)
      then have "partial_copy h1 rq copy t (put_at ?u (p @ [False]) (leaf_of copy d l)) h'"
        using 2(3,4) u'(1) by (simp add: partial_copy_def)
      then have "walked h1 rq malloc copy t ?u (p @ [False]) l (tbst_copy_go malloc copy (h', Copy_at (Some c) (Some d)))"
        using assms(6) BNode z u'(2) unfolding visits_def by fastforce
      then consider "fails_in h1 rq malloc copy t (tbst_copy_go malloc copy (h', Copy_at (Some c) (Some d)))"
        | h2 l' where "tbst_copy_go malloc copy (h', Copy_at (Some c) (Some d)) =
            pbind (tbst_copy_ascend h2 (tip True l) (tip True l')) (tbst_copy_go malloc copy)"
          "copies_of copy l l'" "partial_copy h1 rq copy t (put_at ?u (p @ [False]) l') h2"
        unfolding walked_def by blast
      then show ?thesis
      proof cases
        case 1
        then show ?thesis using run fails by simp
      next
        case (2 h2 l')
        have pu: "put_at ?u (p @ [False]) l' = put_at u p (BNode l' (b, y) R)"
          using assms(4) by (simp add: put_at_append put_at_put)
        have g: "grown h1 rq (put_at u p (BNode l' (b, y) R)) h2" using 2(3) pu by (simp add: partial_copy_def)
        have l2: "trep h2 lo (Some a) l" using grown_trep [OF g assms(2) rq] by simp
        have "trep h2 (lo_at None (put_at u p (BNode l' (b, y) R)) p) (hi_at (Some rq) (put_at u p (BNode l' (b, y) R)) p) (BNode l' (b, y) R)"
          using trep_subtree [of h2 None "Some rq" "put_at u p (BNode l' (b, y) R)" p] g assms(4) by (simp add: grown_def)
        then obtain lo' where l2': "trep h2 lo' (Some b) l'" by auto
        have "l \<noteq> BNull" "l' \<noteq> BNull" using BNode copies_null [OF 2(2)] by auto
        then show ?thesis using 2 run pu tbst_copy_up [OF l2 _ l2'] by (intro goes [of h2 l']) simp_all
      qed
    qed
  qed
qed

lemma visit_last:
  assumes "copy_setting malloc h1 rq t" "trep h1 lo hi (BNode l (a, x) r)" "set (bst_inorder (BNode l (a, x) r)) \<subseteq> set (bst_inorder t)"
    and "in_tree u p" "copies_of copy l l'" "partial_copy h1 rq copy t (put_at u p (BNode l' (b, copied copy x) (leaf_of copy c r))) h"
    and "r \<noteq> BNull" "visits h1 rq malloc copy t r"
  shows "walked h1 rq malloc copy t u p (BNode l (a, x) r) (pbind (tbst_copy_ascend h (Some a) (Some b)) (tbst_copy_go malloc copy))"
proof -
  let ?y = "copied copy x" and ?go = "tbst_copy_go malloc copy"
  let ?u = "put_at u p (BNode l' (b, ?y) (leaf_of copy c r))"
  obtain k d v k' where r: "r = BNode k (d, v) k'" using assms(7) by (metis bst_node.exhaust surj_pair)
  have rq: "rq \<notin> set (addrs (BNode l (a, x) r))" by (rule setting_rq [OF assms(1,3)])
  have g: "grown h1 rq ?u h" "from_items copy t ?u" using assms(6) by (simp_all add: partial_copy_def)
  have n: "h a = Some (tnode lo hi l x r)" using grown_trep [OF g(1) assms(2) rq] by simp
  have ip: "in_tree ?u p" "subtree ?u p = BNode l' (b, ?y) (leaf_of copy c r)" using assms(4) by simp_all
  have "trep h (lo_at None ?u p) (hi_at (Some rq) ?u p) (BNode l' (b, ?y) (leaf_of copy c r))"
    using trep_subtree [of h None "Some rq" ?u p] g(1) ip by (simp add: grown_def)
  then obtain lo' hi' where n': "h b = Some (tnode lo' hi' l' ?y (leaf_of copy c r))" by auto
  have run: "pbind (tbst_copy_ascend h (Some a) (Some b)) ?go = ?go (h, Copy_at (Some d) (Some c))"
    using n n' r by (subst tbst_copy_ascend.simps) simp
  have pr: "in_tree ?u (p @ [True])" "put_at ?u (p @ [True]) s = put_at u p (BNode l' (b, ?y) s)" for s
    using ip assms(4) by (simp_all add: put_at_append put_at_put)
  have "walked h1 rq malloc copy t ?u (p @ [True]) r (?go (h, Copy_at (Some d) (Some c)))"
    using assms(6,8) pr r unfolding visits_def by simp
  then consider "fails_in h1 rq malloc copy t (?go (h, Copy_at (Some d) (Some c)))"
    | h2 r' where "?go (h, Copy_at (Some d) (Some c)) = pbind (tbst_copy_ascend h2 (tip True r) (tip True r')) ?go"
      "copies_of copy r r'" "partial_copy h1 rq copy t (put_at ?u (p @ [True]) r') h2"
    unfolding walked_def by blast
  then show ?thesis
  proof cases
    case 1
    then show ?thesis using run by (simp add: walked_def)
  next
    case (2 h2 r')
    have "r' \<noteq> BNull" using copies_null [OF 2(2)] assms(7) by simp
    moreover have "copies_of copy (BNode l (a, x) r) (BNode l' (b, ?y) r')" using assms(5) 2(2) by simp
    ultimately show ?thesis using run 2 pr(2) assms(7) unfolding walked_def
      by (intro disjI2 exI [of _ h2] exI [of _ "BNode l' (b, ?y) r'"]) simp
  qed
qed

lemma visits_node:
  assumes "copy_setting malloc h1 rq t"
  shows "trep h1 lo hi s \<Longrightarrow> set (bst_inorder s) \<subseteq> set (bst_inorder t) \<Longrightarrow> s \<noteq> BNull \<Longrightarrow> visits h1 rq malloc copy t s"
proof (induction s arbitrary: lo hi)
  case (BNode l z r)
  obtain a x where z: "z = (a, x)" by fastforce
  have s: "trep h1 lo hi (BNode l (a, x) r)" "set (bst_inorder (BNode l (a, x) r)) \<subseteq> set (bst_inorder t)"
    using BNode.prems z by auto
  have ih: "l \<noteq> BNull \<Longrightarrow> visits h1 rq malloc copy t l" "r \<noteq> BNull \<Longrightarrow> visits h1 rq malloc copy t r"
    using BNode.IH s by auto
  let ?y = "copied copy x" and ?go = "tbst_copy_go malloc copy"
  have "walked h1 rq malloc copy t u p (BNode l (a, x) r) (?go (h, Copy_at (Some a) (Some b)))"
    if u: "in_tree u p" "partial_copy h1 rq copy t (put_at u p (BNode BNull (b, ?y) BNull)) h" for u p h b
  proof (cases rule: visit_right [OF assms s u])
    case 1
    then show ?thesis by (simp add: walked_def)
  next
    case (2 h2 c)
    note right = this
    show ?thesis
    proof (cases rule: visit_left [OF assms s u(1) 2(2) ih(1)])
      case 1
      then show ?case .
    next
      case 2
      then show ?thesis using right(1) by (simp add: walked_def)
    next
      case (3 h3 l')
      note left = this
      have run: "?go (h, Copy_at (Some a) (Some b)) = pbind (tbst_copy_ascend h3 (Some a) (Some b)) ?go"
        using right(1) left(1) by simp
      show ?thesis
      proof (cases "r = BNull")
        case True
        then have "copies_of copy (BNode l (a, x) r) (BNode l' (b, ?y) BNull)" using left(2) by simp
        then show ?thesis using run left(3) True unfolding walked_def
          by (intro disjI2 exI [of _ h3] exI [of _ "BNode l' (b, ?y) BNull"]) simp
      next
        case False
        show ?thesis
          by (rule visit_last [OF assms s u(1) left(2,3) False ih(2) [OF False], folded run]) 
      qed
    qed
  qed
  then show ?case using z unfolding visits_def by simp
qed simp

section \<open>The whole copy\<close>

text \<open>The loop from the local nodes: a finished copy hangs below \<open>rq\<close>, with null threads at its ends.\<close>

lemma tbst_copy_loop_ok:
  assumes "copy_setting malloc h1 rq t" "trep h1 None None t" "t \<noteq> BNull" "rp \<noteq> rq"
    and "h1 rp = Some np" "tbst_link np False = root_of t None" "tbst_tag np False = TBST_CHILD"
    and "h1 rq = Some nq" "tbst_link nq False = None" "tbst_tag nq False = TBST_THREAD"
  obtains (fails) "fails_in h1 rq malloc copy t (tbst_copy_loop malloc copy h1 (Some rp) (Some rq))"
  | (ends) h' u where "tbst_copy_loop malloc copy h1 (Some rp) (Some rq) = pret (h', True)" "copies_of copy t u"
      "trep h' None None u" "distinct (addrs u)" "\<forall>a\<in>set (addrs u). h1 a = None" "agree (- insert rq (set (addrs u))) h1 h'"
      "\<exists>n. h' rq = Some n \<and> tbst_link n False = root_of u None" "copy \<noteq> None \<longrightarrow> filled u"
proof -
  let ?go = "tbst_copy_go malloc copy"
  obtain l c x r where t: "t = BNode l (c, x) r" using assms(3) by (metis bst_node.exhaust surj_pair)
  have rqt: "rq \<notin> set (addrs t)" "allocator malloc" "finite (dom h1)" using assms(1) by (simp_all add: copy_setting_def)
  then have cr: "c \<noteq> rq" "rq \<noteq> c" using t by auto
  obtain s where s: "h1 c = Some s" "tbst_data s = x" using assms(2) t by simp
  have g0: "grown h1 rq BNull h1" using assms(8-10) by (simp add: grown_def)
  have i0: "in_tree (BNull :: 'a ghost) []" "subtree (BNull :: 'a ghost) [] = BNull" "place (Some rq) False (BNull :: 'a ghost) [] = (Some rq, False)"
    "from_items copy t BNull" by (simp_all add: from_items_def)
  have mem: "(c, tbst_data s) \<in> set (bst_inorder t)" using s(2) t by simp
  show thesis
  proof (cases rule: tbst_copy_node_ok [where copy = copy, OF rqt(2,3) g0 i0(1-3) s(1) cr i0(4) mem])
    case (1 h')
    then show ?thesis using assms(5-7) t
      by (intro fails) (simp add: fails_in_def tbst_copy_loop_go tbst_copy_move_def tbst_copy_go_def)
  next
    case (2 h2 a)
    have "h2 rp = Some np" using grown_other [OF 2(3), of rp] assms(4,5) by simp
    then have run: "tbst_copy_loop malloc copy h1 (Some rp) (Some rq) = ?go (h2, Copy_at (Some c) (Some a))"
      using 2(1,5) assms(5-7) t by (auto simp: tbst_copy_loop_go tbst_copy_move_def)
    have pc: "partial_copy h1 rq copy t (put_at BNull [] (leaf_of copy a t)) h2"
      using 2(3,4,6) s(2) t by (auto simp: partial_copy_def)
    have "visits h1 rq malloc copy t t" by (rule visits_node [OF assms(1,2) order_refl assms(3)])
    then have "walked h1 rq malloc copy t BNull [] t (?go (h2, Copy_at (Some c) (Some a)))"
      using pc t unfolding visits_def by fastforce
    then consider "fails_in h1 rq malloc copy t (?go (h2, Copy_at (Some c) (Some a)))"
      | h3 u where "?go (h2, Copy_at (Some c) (Some a)) = pbind (tbst_copy_ascend h3 (tip True t) (tip True u)) ?go"
        "copies_of copy t u" "grown h1 rq u h3" "copy \<noteq> None \<longrightarrow> filled u"
      unfolding walked_def partial_copy_def by auto
    then show ?thesis
    proof cases
      case 1
      then show ?thesis using run fails by simp
    next
      case (2 h3 u)
      have u: "trep h3 None (Some rq) u" "distinct (addrs u)" "rq \<notin> set (addrs u)"
        using 2(3) assms(8) by (auto simp: grown_def)
      have "u \<noteq> BNull" using copies_null [OF 2(2)] assms(3) by simp
      then obtain k where k: "tip True u = Some k" "k \<in> set (addrs u)" using tip_in by blast
      obtain n where n: "h3 k = Some n" using trep_alloc [OF u(1) k(2)] by blast
      let ?h = "h3(k \<mapsto> set_link True None n)"
      obtain m w where m: "tip True t = Some m" "h3 m = Some w" "tbst_tag w True = TBST_THREAD" "tbst_link w True = None"
        using tip_thread [OF grown_trep [OF 2(3) assms(2) rqt(1)] assms(3)] .
      have "tbst_copy_ascend h3 (tip True t) (tip True u) = pret (?h, Copy_done)"
        using m k(1) n by (subst tbst_copy_ascend.simps) simp
      then have fin: "tbst_copy_loop malloc copy h1 (Some rp) (Some rq) = pret (?h, True)"
        using run 2(1) by (simp add: tbst_copy_go_def)
      have "k \<noteq> rq" using k(2) u(3) by auto
      then have "\<exists>n. ?h rq = Some n \<and> tbst_link n False = root_of u None" using 2(3) by (auto simp: grown_def)
      moreover have "trep ?h None None u" by (rule trep_rethread [OF u(1,2) k(1) n])
      moreover have "agree (- insert rq (set (addrs u))) h1 ?h" using 2(3) k(2) by (simp add: grown_def agree_upd)
      moreover have "\<forall>a\<in>set (addrs u). h1 a = None" using 2(3) by (simp add: grown_def)
      ultimately show ?thesis using ends [OF fin 2(2) _ u(2)] 2(4) by blast
    qed
  qed
qed

text \<open>The recovery frees everything.\<close>

lemma tbst_copy_recovery_ok:
  assumes "grown h1 rq u h'"
  shows "\<exists>h''. tbst_copy_recovery destroy h' (root_of u None) new = pret (called destroy (bst_inorder u), h'') \<and>
    agree (- {rq}) h1 h''"
proof -
  have g: "trep h' None (Some rq) u" "distinct (addrs u)" "\<forall>a\<in>set (addrs u). h1 a = None"
    "agree (- insert rq (set (addrs u))) h1 h'"
    using assms by (simp_all add: grown_def)
  obtain h2 where h2: "(if root_of u None \<noteq> None then pbind (tbst_descend h' True (root_of u None)) (\<lambda>p. assign h' p (set_link True None)) else pret h') = pret h2"
    "trep h2 None None u" "agree (- set (addrs u)) h' h2"
  proof (cases "u = BNull")
    case True
    then show ?thesis using that [of h'] by simp
  next
    case False
    obtain m n where m: "tbst_rethread h' (root_of u None) None = pret (h'(m \<mapsto> set_link True None n))" "m \<in> set (addrs u)"
      "trep (h'(m \<mapsto> set_link True None n)) None None u"
      using tbst_rethread_ok [OF g(1,2) False] by metis
    obtain c where "root_of u None = Some c" using top_in [OF False] by blast
    then show ?thesis using that [of "h'(m \<mapsto> set_link True None n)"] m by (simp add: tbst_rethread_def agree_upd)
  qed
  obtain h3 where h3: "tbst_destroy destroy h2 (new\<lparr>tbst_root := root_of u None\<rparr>) = pret (called destroy (bst_inorder u), h3)"
    "agree (- set (addrs u)) h2 h3" "\<forall>a\<in>set (addrs u). h3 a = None"
    using tbst_destroy_ok [OF h2(2) g(2), of "new\<lparr>tbst_root := root_of u None\<rparr>" destroy] by auto
  have "tbst_copy_recovery destroy h' (root_of u None) new = pret (called destroy (bst_inorder u), h3)"
    using h2(1) h3(1) by (simp add: tbst_copy_recovery_def)
  moreover have "agree (- {rq}) h1 h3" unfolding agree_def
  proof
    fix a
    assume "a \<in> - {rq}"
    then show "h3 a = h1 a" using g(3,4) h2(3) h3(2,3) by (cases "a \<in> set (addrs u)") (simp_all add: agree_def)
  qed
  ultimately show ?thesis by blast
qed

lemma tbst_copy_ok:
  assumes "rooted h org t" "length (datas t) = unat (tbst_count org)" "allocator malloc" "finite (dom h)"
    and "h rp = None" "h rq = None" "rp \<noteq> rq"
  obtains (fails) xs where "tbst_copy True malloc copy destroy rp rq raw h org = pret (xs, None, h)" "\<not> copy_safe malloc copy t"
      "\<forall>x\<in>set xs. \<exists>y\<in>set (bst_inorder t). copied copy (snd y) = Some x"
  | (copies) h' new u where "tbst_copy True malloc copy destroy rp rq raw h org = pret ([], Some new, h')" "rooted h' new u"
      "copies_of copy t u" "agree (- set (addrs u)) h h'" "\<forall>a\<in>set (addrs u). h a = None"
      "tbst_compare new = tbst_compare org" "tbst_count new = tbst_count org" "copy \<noteq> None \<longrightarrow> filled u"
proof -
  let ?new = "\<lparr>tbst_root = None, tbst_compare = tbst_compare org, tbst_count = tbst_count org\<rparr>"
  let ?np = "set_tag False TBST_CHILD (set_link False (tbst_root org) raw)" and ?nq = "set_tag False TBST_THREAD (set_link False None raw)"
  let ?h1 = "h(rp \<mapsto> ?np, rq \<mapsto> ?nq)"
  have r: "trep h None None t" "distinct (addrs t)" "tbst_root org = root_of t None" using assms(1) by (simp_all add: rooted_def)
  have nt: "rp \<notin> set (addrs t)" "rq \<notin> set (addrs t)" using trep_alloc [OF r(1)] assms(5,6) by blast+
  show thesis
  proof (cases "t = BNull")
    case True
    then have "tbst_count org = 0" using assms(2) by (simp add: datas_def unat_eq_zero)
    then show ?thesis using True r by (intro copies [of ?new h BNull]) (simp_all add: tbst_copy_def tbst_create_def rooted_def)
  next
    case False
    then have nz: "tbst_count org \<noteq> 0" using assms(2) by (auto simp: datas_def unat_eq_zero)
    have set: "copy_setting malloc ?h1 rq t" using assms(3,4) nt(2) by (simp add: copy_setting_def)
    have rep: "trep ?h1 None None t" using r(1) nt by simp
    have at: "?h1 rp = Some ?np" "?h1 rq = Some ?nq" using assms(7) by simp_all
    have ag: "agree (- {rp, rq}) h ?h1" by (simp add: agree_upd)
    have fields: "tbst_link ?np False = root_of t None" "tbst_tag ?np False = TBST_CHILD" "tbst_link ?nq False = None"
      "tbst_tag ?nq False = TBST_THREAD" using r(3) by simp_all
    show ?thesis
    proof (cases rule: tbst_copy_loop_ok [where copy = copy, OF set rep False assms(7) at(1) fields(1,2) at(2) fields(3,4)])
      case 1
      then obtain h' u where f: "tbst_copy_loop malloc copy ?h1 (Some rp) (Some rq) = pret (h', False)" "grown ?h1 rq u h'"
        "from_items copy t u" "\<not> copy_safe malloc copy t"
        by (auto simp: fails_in_def gave_up_def)
      obtain n where n: "h' rq = Some n" "tbst_link n False = root_of u None" using f(2) by (auto simp: grown_def)
      obtain h2 where h2: "tbst_copy_recovery destroy h' (root_of u None) ?new = pret (called destroy (bst_inorder u), h2)"
        "agree (- {rq}) ?h1 h2" using tbst_copy_recovery_ok [OF f(2)] by blast
      have "h2(rp := None, rq := None) = h"
        using h2(2) ag assms(5,6) by (auto simp: agree_def fun_eq_iff fun_upd_apply)
      then have "tbst_copy True malloc copy destroy rp rq raw h org = pret (called destroy (bst_inorder u), None, h)"
        using nz f(1) n h2(1) by (simp add: tbst_copy_def tbst_create_def)
      then show ?thesis using f(4) called_from [OF f(3)] by (intro fails) auto
    next
      case (2 h' u)
      let ?h = "h'(rp := None, rq := None)" and ?t = "?new\<lparr>tbst_root := root_of u None\<rparr>"
      have un: "rp \<notin> set (addrs u)" "rq \<notin> set (addrs u)" "\<forall>a\<in>set (addrs u). h a = None" using 2(5) at by (auto simp: fun_upd_apply split: if_splits)
      have "tbst_copy True malloc copy destroy rp rq raw h org = pret ([], Some ?t, ?h)"
        using nz 2(1,7) by (auto simp: tbst_copy_def tbst_create_def)
      moreover have "rooted ?h ?t u" using 2(3,4) un by (simp add: rooted_def)
      moreover have "agree (- set (addrs u)) h ?h"
        using 2(6) ag assms(5,6) by (auto simp: agree_def fun_upd_apply)
      ultimately show ?thesis using 2(2,8) un(3) by (intro copies [of ?t ?h u]) simp_all
    qed
  qed
qed

end
