(* ===== verification/TBST_Correct.thy ===== *)
theory TBST_Correct
  imports TBST_Balance TBST_Copy RB_Correct
begin

text \<open>
  What the tables of \<open>tbst.c\<close> promise their users, on the heap: they refine maps without
  touching or leaking other memory, their traversers are stable, balancing is optimal, and copying
  succeeds or leaves the heap as it was.
\<close>

declare fun_upd_apply [simp del]

section \<open>The contract of a table\<close>

text \<open>The heap \<open>h\<close> is \<open>h0\<close> and the nodes of the table: no other block has changed, and none was lost.\<close>

definition only_nodes :: "'a tbst_heap \<Rightarrow> 'a tbst_heap \<Rightarrow> 'a tbst_table \<Rightarrow> bool" where
  "only_nodes h0 h tree \<longleftrightarrow> (\<forall>a\<in>set (tbst_nodes h tree). h0 a = None) \<and> agree (- set (tbst_nodes h tree)) h0 h"

fun tbst_ok :: "('a \<Rightarrow> 'a \<Rightarrow> int) \<Rightarrow> 'a tbst_heap \<Rightarrow> nat \<Rightarrow> 'a tbst_heap \<times> 'a tbst_table \<Rightarrow> bool" where
  "tbst_ok cmp h0 n (h, tree) \<longleftrightarrow> tbst_for cmp h tree \<and> finite (dom h0) \<and> only_nodes h0 h tree \<and>
     length (tbst_items h tree) + n < 2 ^ 64"

fun tbst_its :: "'a tbst_heap \<times> 'a tbst_table \<Rightarrow> 'a list" where
  "tbst_its (h, tree) = tbst_items h tree"

text \<open>The operations as functions on heap and table.\<close>

fun tbst_ins tbst_rep :: "('a tbst_heap \<Rightarrow> addr option) \<Rightarrow> 'a tbst_heap \<times> 'a tbst_table \<Rightarrow> 'a \<Rightarrow>
    ('a option \<times> 'a tbst_heap \<times> 'a tbst_table) outcome" where
  "tbst_ins malloc (h, tree) x = outcome_of (tbst_insert malloc h tree x)"
| "tbst_rep malloc (h, tree) x = outcome_of (tbst_replace malloc h tree x)"

fun tbst_del :: "'a tbst_heap \<times> 'a tbst_table \<Rightarrow> 'a \<Rightarrow> ('a option \<times> 'a tbst_heap \<times> 'a tbst_table) outcome" where
  "tbst_del (h, tree) x = outcome_of (tbst_delete h tree x)"

fun tbst_fnd :: "'a tbst_heap \<times> 'a tbst_table \<Rightarrow> 'a \<Rightarrow> 'a option" where
  "tbst_fnd (h, tree) x = (case outcome_of (tbst_find h tree x) of Ok y \<Rightarrow> y | _ \<Rightarrow> None)"

lemma only_nodes_finite: "only_nodes h0 h tree \<Longrightarrow> finite (dom h0) \<Longrightarrow> finite (dom h)"
proof -
  assume g: "only_nodes h0 h tree" "finite (dom h0)"
  have "dom h \<subseteq> dom h0 \<union> set (tbst_nodes h tree)" using g(1) by (auto simp: only_nodes_def agree_def)
  then show "finite (dom h)" using g(2) finite_subset by fastforce
qed

lemma length_items: "length (tbst_items h tree) = length (tbst_nodes h tree)"
  by (simp add: tbst_items_def tbst_nodes_def)

lemma insert_only_nodes:
  assumes "only_nodes h0 h tree" "tbst_for cmp h tree" "tbst_for cmp h' tree'" "h a = None"
    and "\<exists>xs ys. tbst_pairs h tree = xs @ ys \<and> tbst_pairs h' tree' = xs @ (a, Some item) # ys"
    and "agree (- insert a (set (tbst_nodes h tree))) h h'"
  shows "only_nodes h0 h' tree'"
proof -
  have n: "set (tbst_nodes h' tree') = insert a (set (tbst_nodes h tree))"
    using assms(5) tbst_pairs_rep(6) [OF assms(2)] tbst_pairs_rep(6) [OF assms(3)] by auto
  have "a \<notin> set (tbst_nodes h tree)"
    using assms(2,4) trep_alloc [of h None None "tbst_tree h tree" a] by (auto simp: tbst_for_def rooted_def tbst_nodes_def)
  then have "h0 a = None" using assms(1,4) by (simp add: only_nodes_def agree_def)
  then show ?thesis using assms(1,6) unfolding only_nodes_def n agree_def by auto
qed

lemma tbst_ins_new:
  assumes "keyed key cmp" "memory malloc" "tbst_ok cmp h0 (Suc n) (h, tree)" "list_find cmp x (tbst_items h tree) = None"
  shows "\<exists>h' tree'. tbst_insert malloc h tree x = pret (None, h', tree') \<and> tbst_replace malloc h tree x = pret (None, h', tree') \<and>
    tbst_ok cmp h0 n (h', tree') \<and> tbst_items h' tree' = list_insert cmp x (tbst_items h tree)"
proof -
  have o: "tbst_for cmp h tree" "finite (dom h0)" "only_nodes h0 h tree" "length (tbst_items h tree) + Suc n < 2 ^ 64"
    using assms(3) by simp_all
  then obtain a where a: "malloc h = Some a" "h a = None"
    using assms(2) only_nodes_finite unfolding memory_def by blast
  have "Suc (length (tbst_items h tree)) < 2 ^ 64" using o(4) by simp
  from tbst_insert_new [where malloc = malloc and h = h and a = a, OF assms(1) o(1) assms(4) a this]
  obtain h' tree' where 1: "tbst_insert malloc h tree x = pret (None, h', tree')" "tbst_replace malloc h tree x = pret (None, h', tree')"
    "tbst_for cmp h' tree'" "tbst_items h' tree' = list_insert cmp x (tbst_items h tree)"
    "\<exists>xs ys. tbst_pairs h tree = xs @ ys \<and> tbst_pairs h' tree' = xs @ (a, Some x) # ys"
    "agree (- insert a (set (tbst_nodes h tree))) h h'" by blast
  have "only_nodes h0 h' tree'" by (rule insert_only_nodes [OF o(3,1) 1(3) a(2) 1(5,6)])
  then show ?thesis using 1 o keyed.length_list_insert [OF assms(1,4)] by auto
qed

lemma tbst_rep_old:
  assumes "keyed key cmp" "tbst_ok cmp h0 (Suc n) (h, tree)" "list_find cmp x (tbst_items h tree) = Some d"
  shows "\<exists>h'. tbst_replace malloc h tree x = pret (if d = x then None else Some d, h', tree) \<and> tbst_ok cmp h0 n (h', tree) \<and>
    tbst_items h' tree = list_store cmp x (\<lambda>_. x) (tbst_items h tree)"
proof -
  have o: "tbst_for cmp h tree" "finite (dom h0)" "only_nodes h0 h tree" "length (tbst_items h tree) + Suc n < 2 ^ 64"
    using assms(2) by simp_all
  from tbst_replace_old [where malloc = malloc, OF assms(1) o(1) assms(3)]
  obtain h' where 1: "tbst_replace malloc h tree x = pret (if d = x then None else Some d, h', tree)" "tbst_for cmp h' tree"
    "tbst_items h' tree = list_store cmp x (\<lambda>_. x) (tbst_items h tree)" "tbst_nodes h' tree = tbst_nodes h tree"
    "agree (- set (tbst_nodes h tree)) h h'" by blast
  then have "only_nodes h0 h' tree" using o(3) by (simp add: only_nodes_def agree_def)
  then show ?thesis using 1 o by (simp add: list_store_def)
qed

lemma tbst_del_law:
  assumes "keyed key cmp" "tbst_ok cmp h0 (Suc n) (h, tree)"
  shows "\<exists>h' tree'. tbst_delete h tree x = pret (list_find cmp x (tbst_items h tree), h', tree') \<and> tbst_ok cmp h0 n (h', tree') \<and>
    tbst_items h' tree' = list_delete cmp x (tbst_items h tree)"
proof -
  have o: "tbst_for cmp h tree" "finite (dom h0)" "only_nodes h0 h tree" "length (tbst_items h tree) + Suc n < 2 ^ 64"
    using assms(2) by simp_all
  obtain h' tree' where 1: "tbst_delete h tree x = pret (list_find cmp x (tbst_items h tree), h', tree')"
    "tbst_for cmp h' tree'" "tbst_items h' tree' = list_delete cmp x (tbst_items h tree)"
    "tbst_pairs h' tree' = list_delete (node_cmp cmp) (0, Some x) (tbst_pairs h tree)"
    "\<forall>a\<in>set (tbst_nodes h tree) - set (tbst_nodes h' tree'). h' a = None" "agree (- set (tbst_nodes h tree)) h h'"
    using tbst_delete_ok [OF assms(1) o(1)] by blast
  have n: "set (tbst_nodes h' tree') \<subseteq> set (tbst_nodes h tree)"
    using 1(4) tbst_pairs_rep(6) [OF o(1)] tbst_pairs_rep(6) [OF 1(2)] by (auto simp: list_delete_def)
  have "h' a = h0 a" if "a \<notin> set (tbst_nodes h' tree')" for a
    using that 1(5,6) o(3) by (cases "a \<in> set (tbst_nodes h tree)") (simp_all add: only_nodes_def agree_def)
  then have "only_nodes h0 h' tree'" using n o(3) by (auto simp: only_nodes_def agree_def)
  moreover have "length (list_delete cmp x (tbst_items h tree)) \<le> length (tbst_items h tree)"
    by (simp add: list_delete_def)
  ultimately show ?thesis using 1 o by auto
qed

lemma tbst_ordered_table:
  assumes "keyed key cmp" "memory malloc"
  shows "ordered_table key cmp (tbst_ok cmp h0) tbst_its (tbst_ins malloc) (tbst_rep malloc) tbst_del tbst_fnd"
proof (intro ordered_table.intro ordered_table_axioms.intro)
  show "keyed key cmp" by fact
  fix n x d and s :: "'a tbst_heap \<times> 'a tbst_table"
  obtain h tree where s: "s = (h, tree)" by fastforce
  show "tbst_ok cmp h0 (Suc n) s \<Longrightarrow> tbst_ok cmp h0 n s" using s by simp
  show "tbst_ok cmp h0 n s \<Longrightarrow> ordered cmp (tbst_its s)" using s by (simp add: tbst_for_def)
  show "tbst_ok cmp h0 n s \<Longrightarrow> tbst_fnd s x = list_find cmp x (tbst_its s)"
    using s tbst_find_ok [OF assms(1)] by simp
  assume ok: "tbst_ok cmp h0 (Suc n) s"
  show "list_find cmp x (tbst_its s) = None \<Longrightarrow>
      \<exists>t'. tbst_ins malloc s x = Ok (None, t') \<and> tbst_ok cmp h0 n t' \<and> tbst_its t' = list_insert cmp x (tbst_its s)"
    "list_find cmp x (tbst_its s) = None \<Longrightarrow>
      \<exists>t'. tbst_rep malloc s x = Ok (None, t') \<and> tbst_ok cmp h0 n t' \<and> tbst_its t' = list_insert cmp x (tbst_its s)"
    using tbst_ins_new [OF assms, of h0 n h tree x] ok s by fastforce+
  show "list_find cmp x (tbst_its s) = Some d \<Longrightarrow>
      \<exists>t'. tbst_ins malloc s x = Ok (if d = x then None else Some d, t') \<and> tbst_ok cmp h0 n t' \<and> tbst_its t' = tbst_its s"
    using tbst_insert_old [OF assms(1), of h tree x d malloc] ok s by fastforce
  show "list_find cmp x (tbst_its s) = Some d \<Longrightarrow>
      \<exists>t'. tbst_rep malloc s x = Ok (if d = x then None else Some d, t') \<and> tbst_ok cmp h0 n t' \<and>
        tbst_its t' = list_store cmp x (\<lambda>_. x) (tbst_its s)"
    using tbst_rep_old [OF assms(1), of h0 n h tree x d malloc] ok s by fastforce
  show "\<exists>t'. tbst_del s x = Ok (list_find cmp x (tbst_its s), t') \<and> tbst_ok cmp h0 n t' \<and>
      tbst_its t' = list_delete cmp x (tbst_its s)"
    using tbst_del_law [OF assms(1), of h0 n h tree x] ok s by fastforce
qed

section \<open>An instance\<close>

interpretation tbst_ids: ordered_table "\<lambda>i :: int. i" cs_wp_cmp_tsk "tbst_ok cs_wp_cmp_tsk Map.empty" tbst_its
  "tbst_ins first_fit" "tbst_rep first_fit" tbst_del tbst_fnd
  by (rule tbst_ordered_table [OF task_keys first_fit_memory])

text \<open>A table of three task ids, and what else is on the heap.\<close>

definition trio_nodes :: "int tbst_heap" where
  "trio_nodes = Map.empty(
     4 \<mapsto> \<lparr>tbst_link = (\<lambda>d. if d then Some 6 else Some 2), tbst_data = Some 5, tbst_tag = (\<lambda>d. TBST_CHILD)\<rparr>,
     2 \<mapsto> \<lparr>tbst_link = (\<lambda>d. if d then Some 4 else None), tbst_data = Some 3, tbst_tag = (\<lambda>d. TBST_THREAD)\<rparr>,
     6 \<mapsto> \<lparr>tbst_link = (\<lambda>d. if d then None else Some 4), tbst_data = Some 8, tbst_tag = (\<lambda>d. TBST_THREAD)\<rparr>)"

definition trio_ids :: "int tbst_table" where
  "trio_ids = \<lparr>tbst_root = Some 4, tbst_compare = cs_wp_cmp_tsk, tbst_count = 3\<rparr>"

lemma trio_nodes_at:
  "trio_nodes 4 = Some (tnode None None (BNode BNull (2, Some 3) BNull) (Some 5) (BNode BNull (6, Some 8) BNull))"
  "trio_nodes 2 = Some (tnode None (Some 4) BNull (Some 3) BNull)"
  "trio_nodes 6 = Some (tnode (Some 4) None BNull (Some 8) BNull)"
  "dom trio_nodes = {2, 4, 6}"
  by (auto simp: trio_nodes_def fun_upd_apply tnode_def)

lemma trio_ids_ok:
  "tbst_for cs_wp_cmp_tsk trio_nodes trio_ids"
  "tbst_tree trio_nodes trio_ids = BNode (BNode BNull (2, Some 3) BNull) (4, Some 5) (BNode BNull (6, Some 8) BNull)"
  "tbst_items trio_nodes trio_ids = [3, 5, 8]"
proof -
  let ?t = "BNode (BNode BNull (2, Some 3) BNull) (4, Some 5) (BNode BNull (6, Some 8) BNull) :: int ghost"
  have r: "rooted trio_nodes trio_ids ?t" by (simp add: rooted_def trio_ids_def trio_nodes_at)
  have d: "datas ?t = [3, 5, 8]" by (simp add: datas_def)
  have o: "ordered cs_wp_cmp_tsk [3, 5, 8]" by (simp add: ordered_def cs_wp_cmp_tsk_def)
  have c: "length (datas ?t) = unat (tbst_count trio_ids)" by (simp add: d trio_ids_def)
  show "tbst_for cs_wp_cmp_tsk trio_nodes trio_ids" "tbst_tree trio_nodes trio_ids = ?t"
    "tbst_items trio_nodes trio_ids = [3, 5, 8]"
    using tbst_forI [OF r _ c, of cs_wp_cmp_tsk] o d by (simp_all add: trio_ids_def)
qed

section \<open>Maps on the heap\<close>

text \<open>A sequence of calls.\<close>

fun tbst_run ::
  "('a tbst_heap \<Rightarrow> addr option) \<Rightarrow> 'a table_call list \<Rightarrow> 'a tbst_heap \<Rightarrow> 'a tbst_table \<Rightarrow>
     ('a option list \<times> 'a tbst_heap \<times> 'a tbst_table) prog" where
  "tbst_run malloc [] h tree = pret ([], h, tree)"
| "tbst_run malloc (c # cs) h tree =
     pbind
       (case c of
          Insert x \<Rightarrow> tbst_insert malloc h tree x
        | Replace x \<Rightarrow> tbst_replace malloc h tree x
        | Delete x \<Rightarrow> tbst_delete h tree x
        | Find x \<Rightarrow> pbind (tbst_find h tree x) (\<lambda>a. pret (a, h, tree)))
       (\<lambda>(a, h, tree). pbind (tbst_run malloc cs h tree) (\<lambda>(as, h, tree). pret (a # as, h, tree)))"

lemma tbst_run_ok:
  assumes "keyed key cmp" "memory malloc"
  shows "tbst_ok cmp h0 (length cs) (h, tree) \<Longrightarrow>
    \<exists>as h' tree'. tbst_run malloc cs h tree = pret (as, h', tree') \<and> tbst_ok cmp h0 0 (h', tree') \<and>
      map_run key cs (item_map key (tbst_items h tree)) = (as, item_map key (tbst_items h' tree'))"
proof (induction cs arbitrary: h tree)
  case (Cons c cs)
  note T = tbst_ordered_table [OF assms, of h0]
  have ok: "tbst_ok cmp h0 (Suc (length cs)) (h, tree)" using Cons.prems by simp
  have "\<exists>a h1 tree1. (case c of Insert x \<Rightarrow> tbst_insert malloc h tree x | Replace x \<Rightarrow> tbst_replace malloc h tree x
      | Delete x \<Rightarrow> tbst_delete h tree x | Find x \<Rightarrow> pbind (tbst_find h tree x) (\<lambda>a. pret (a, h, tree))) = pret (a, h1, tree1) \<and>
      tbst_ok cmp h0 (length cs) (h1, tree1) \<and> map_call key c (item_map key (tbst_items h tree)) = (a, item_map key (tbst_items h1 tree1))"
  proof (cases c)
    case (Insert x)
    then show ?thesis using ordered_table.ins_call [OF T ok, of x] by (auto simp: outcome_of_Ok)
  next
    case (Replace x)
    then show ?thesis using ordered_table.rep_call [OF T ok, of x] by (auto simp: outcome_of_Ok)
  next
    case (Delete x)
    then show ?thesis using ordered_table.del_call [OF T ok, of x] by (auto simp: outcome_of_Ok)
  next
    case (Find x)
    have "tbst_for cmp h tree" using ok by simp
    then show ?thesis using Find ok tbst_find_ok [OF assms(1)] ordered_table.found_in_map [OF T] by simp
  qed
  then obtain a h1 tree1 where 1: "(case c of Insert x \<Rightarrow> tbst_insert malloc h tree x | Replace x \<Rightarrow> tbst_replace malloc h tree x
      | Delete x \<Rightarrow> tbst_delete h tree x | Find x \<Rightarrow> pbind (tbst_find h tree x) (\<lambda>a. pret (a, h, tree))) = pret (a, h1, tree1)"
    "tbst_ok cmp h0 (length cs) (h1, tree1)" "map_call key c (item_map key (tbst_items h tree)) = (a, item_map key (tbst_items h1 tree1))"
    by blast
  then show ?case using Cons.IH [OF 1(2)] by (auto simp: Let_def split: prod.splits)
qed simp

text \<open>
  C26.  Any sequence of insertions, replacements, deletions and searches on a new threaded table returns and
  answers as the same sequence on a map from keys to items does.  No block that was allocated before is
  touched, and of the blocks allocated on the way exactly the nodes of the final table are left.
\<close>

theorem tbst_refines_map:
  assumes "keyed key cmp" "memory malloc" "finite (dom h)" "length cs < 2 ^ 64"
  shows "\<exists>t as h' t'. tbst_create True cmp = Some t \<and> tbst_run malloc cs h t = pret (as, h', t') \<and>
    map_run key cs Map.empty = (as, item_map key (tbst_items h' t')) \<and> tbst_for cmp h' t' \<and>
    (\<forall>a\<in>set (tbst_nodes h' t'). h a = None) \<and> (\<forall>a. a \<notin> set (tbst_nodes h' t') \<longrightarrow> h' a = h a)"
proof -
  let ?t = "\<lparr>tbst_root = None, tbst_compare = cmp, tbst_count = 0\<rparr>"
  have r: "rooted h ?t BNull" by (simp add: rooted_def)
  have v: "tbst_for cmp h ?t" "tbst_tree h ?t = BNull" "tbst_items h ?t = []"
    using tbst_forI [OF r, of cmp] by (simp_all add: datas_def ordered_def)
  have "tbst_ok cmp h (length cs) (h, ?t)" using v assms(3,4) by (simp add: only_nodes_def tbst_nodes_def)
  from tbst_run_ok [OF assms(1,2) this] v(3) show ?thesis
    by (auto simp: tbst_create_def only_nodes_def agree_def)
qed

lemma tbst_refines_map_witness:
  "\<exists>t as h' t'. tbst_create True cs_wp_cmp_tsk = Some t \<and>
     tbst_run first_fit [Insert 5, Insert 3, Insert 5, Find 3, Delete 5, Find 5] trio_nodes t = pret (as, h', t') \<and>
     as = [None, None, None, Some 3, Some 5, None] \<and> h' 2 = trio_nodes 2"
proof -
  have "finite (dom trio_nodes)" by (simp add: trio_nodes_at)
  from tbst_refines_map [OF task_keys first_fit_memory this, of "[Insert 5, Insert 3, Insert 5, Find 3, Delete 5, Find 5]"]
  obtain t as h' t' where 1: "tbst_create True cs_wp_cmp_tsk = Some t"
    "tbst_run first_fit [Insert 5, Insert 3, Insert 5, Find 3, Delete 5, Find 5] trio_nodes t = pret (as, h', t')"
    "map_run (\<lambda>i. i) [Insert 5, Insert 3, Insert 5, Find 3, Delete 5, Find 5] Map.empty = (as, item_map (\<lambda>i. i) (tbst_items h' t'))"
    "\<forall>a\<in>set (tbst_nodes h' t'). trio_nodes a = None" "\<forall>a. a \<notin> set (tbst_nodes h' t') \<longrightarrow> h' a = trio_nodes a"
    by auto
  have "as = [None, None, None, Some 3, Some 5, None]" using 1(3) by (simp add: fun_upd_apply)
  moreover have "2 \<notin> set (tbst_nodes h' t')" using 1(4) trio_nodes_at(2) by fastforce
  then have "h' 2 = trio_nodes 2" using 1(5) by blast
  ultimately show ?thesis using 1(1,2) by blast
qed

section \<open>Traversal\<close>

lemma tbst_next_item:
  assumes "keyed key cmp" "tbst_for cmp h tree" "(a, Some x) \<in> set (tbst_pairs h tree)"
  shows "\<exists>trav. tbst_t_next h tree (Some a) = pret (find (\<lambda>y. key x < key y) (tbst_items h tree), trav)"
    and "tbst_t_cur h (Some a) = pret (Some x)"
proof -
  obtain us vs where p: "tbst_pairs h tree = us @ (a, Some x) # vs" using assms(3) by (meson split_list)
  let ?f = "\<lambda>y :: addr \<times> 'a option. the (snd y)"
  have it: "tbst_items h tree = map ?f us @ x # map ?f vs" using tbst_pairs_rep(5) [OF assms(2)] p by simp
  then have "ordered cmp (map ?f us @ x # map ?f vs)" using assms(2) by (simp add: tbst_for_def)
  from ordered_table.find_next [OF tbst_ordered_table [OF assms(1) first_fit_memory] this]
  have f: "find (\<lambda>y. key x < key y) (tbst_items h tree) = (case map ?f vs of [] \<Rightarrow> None | y # _ \<Rightarrow> Some y)" using it by simp
  have n: "tbst_t_next h tree (Some a) = tbst_t_at h (first_addr vs None)" by (rule tbst_next_prev_pairs(1) [OF assms(2) p])
  show "\<exists>trav. tbst_t_next h tree (Some a) = pret (find (\<lambda>y. key x < key y) (tbst_items h tree), trav)"
  proof (cases vs)
    case Nil
    then show ?thesis using n f by simp
  next
    case (Cons w ws)
    obtain b y where w: "w = (b, y)" by fastforce
    have p': "tbst_pairs h tree = (us @ [(a, Some x)]) @ (b, y) # ws" using p Cons w by simp
    obtain d where "y = Some d" using tbst_pair_at(2) [OF assms(2) p'] by blast
    then show ?thesis using n f Cons w tbst_pair_at(4) [OF assms(2) p'] by simp
  qed
  show "tbst_t_cur h (Some a) = pret (Some x)" using tbst_pair_at(3) [OF assms(2) p] by (simp add: tbst_t_cur_def)
qed

text \<open>
  C27.  A traverser stays valid when the table changes: it still has its item after the insertion of any
  item, with or without memory, and after the deletion of another one, and \<^verbatim>\<open>tbst_t_next\<close> goes on with the next larger
  item of the changed table.
\<close>

theorem tbst_traverser_survives:
  assumes "keyed key cmp" "tbst_for cmp h tree" "(a, Some x) \<in> set (tbst_pairs h tree)" "allocator malloc"
    and "Suc (length (tbst_items h tree)) < 2 ^ 64"
  shows "(\<exists>r h' tree' trav. tbst_insert malloc h tree item = pret (r, h', tree') \<and> tbst_for cmp h' tree' \<and>
      tbst_t_cur h' (Some a) = pret (Some x) \<and>
      tbst_t_next h' tree' (Some a) = pret (find (\<lambda>y. key x < key y) (tbst_items h' tree'), trav)) \<and>
    (cmp item x \<noteq> 0 \<longrightarrow> (\<exists>r h' tree' trav. tbst_delete h tree item = pret (r, h', tree') \<and> tbst_for cmp h' tree' \<and>
      tbst_t_cur h' (Some a) = pret (Some x) \<and>
      tbst_t_next h' tree' (Some a) = pret (find (\<lambda>y. key x < key y) (tbst_items h' tree'), trav)))"
proof (intro conjI impI)
  have "\<exists>r h' tree'. tbst_insert malloc h tree item = pret (r, h', tree') \<and> tbst_for cmp h' tree' \<and> (a, Some x) \<in> set (tbst_pairs h' tree')"
  proof (cases "list_find cmp item (tbst_items h tree)")
    case None
    show ?thesis
    proof (cases "malloc h")
      case None
      from tbst_insert_full(1) [where malloc = malloc, OF assms(1,2) \<open>list_find _ _ _ = None\<close> None]
      show ?thesis using assms(2,3) by simp
    next
      case (Some b)
      have "h b = None" using assms(4) Some by (simp add: allocator_def)
      from tbst_insert_new [where malloc = malloc and h = h and a = b, OF assms(1,2) None Some this assms(5)]
      show ?thesis using assms(3) by fastforce
    qed
  next
    case (Some d)
    then show ?thesis using tbst_insert_old [OF assms(1,2) Some, of malloc] assms(2,3) by simp
  qed
  then show "\<exists>r h' tree' trav. tbst_insert malloc h tree item = pret (r, h', tree') \<and> tbst_for cmp h' tree' \<and>
      tbst_t_cur h' (Some a) = pret (Some x) \<and>
      tbst_t_next h' tree' (Some a) = pret (find (\<lambda>y. key x < key y) (tbst_items h' tree'), trav)"
    using tbst_next_item [OF assms(1)] by blast
  assume "cmp item x \<noteq> 0"
  then have "(a, Some x) \<in> set (list_delete (node_cmp cmp) (0, Some item) (tbst_pairs h tree))"
    using assms(3) by (simp add: list_delete_def)
  then show "\<exists>r h' tree' trav. tbst_delete h tree item = pret (r, h', tree') \<and> tbst_for cmp h' tree' \<and>
      tbst_t_cur h' (Some a) = pret (Some x) \<and>
      tbst_t_next h' tree' (Some a) = pret (find (\<lambda>y. key x < key y) (tbst_items h' tree'), trav)"
    using tbst_delete_ok [OF assms(1,2), of item] tbst_next_item [OF assms(1)] by metis
qed

lemma tbst_traverser_survives_witness:
  "\<exists>h' tree'. tbst_delete trio_nodes trio_ids 5 = pret (Some 5, h', tree') \<and> tbst_t_cur h' (Some 2) = pret (Some 3) \<and>
     (\<exists>trav. tbst_t_next h' tree' (Some 2) = pret (Some 8, trav))"
proof -
  have m: "(2, Some 3) \<in> set (tbst_pairs trio_nodes trio_ids)" by (simp add: tbst_pairs_def trio_ids_ok)
  have al: "allocator (\<lambda>h :: int tbst_heap. None)" by (simp add: allocator_def)
  have len: "Suc (length (tbst_items trio_nodes trio_ids)) < 2 ^ 64" by (simp add: trio_ids_ok)
  obtain h' tree' where 1: "tbst_delete trio_nodes trio_ids 5 = pret (Some 5, h', tree')" "tbst_items h' tree' = [3, 8]"
    using tbst_delete_ok [OF task_keys trio_ids_ok(1), of 5]
    by (auto simp: trio_ids_ok list_find_def list_delete_def cs_wp_cmp_tsk_def)
  have "cs_wp_cmp_tsk 5 3 \<noteq> 0" by (simp add: cs_wp_cmp_tsk_def)
  then show ?thesis
    using tbst_traverser_survives [OF task_keys trio_ids_ok(1) m al len, of 5] 1 by auto
qed

text \<open>
  C28.  A loop with \<^verbatim>\<open>tbst_t_next\<close> ends and returns the items of a table in strictly increasing order, a
  loop with \<^verbatim>\<open>tbst_t_prev\<close> the same items in reverse; and \<^verbatim>\<open>tbst_t_prev\<close> undoes \<^verbatim>\<open>tbst_t_next\<close> at every node.
\<close>

theorem tbst_both_ways:
  assumes "keyed key cmp" "tbst_for cmp h tree"
  shows "tbst_collect tbst_t_next h tree tbst_t_init = pret (tbst_items h tree) \<and>
    tbst_collect tbst_t_prev h tree tbst_t_init = pret (rev (tbst_items h tree)) \<and>
    sorted_wrt (<) (map key (tbst_items h tree)) \<and>
    (\<forall>a x y trav. (a, x) \<in> set (tbst_pairs h tree) \<longrightarrow> tbst_t_next h tree (Some a) = pret (Some y, trav) \<longrightarrow>
       tbst_t_prev h tree trav = pret (x, Some a))"
proof (intro conjI allI impI)
  note r = tbst_pairs_rep [OF assms(2)]
  show "tbst_collect tbst_t_next h tree tbst_t_init = pret (tbst_items h tree)"
    using tbst_collect_next [OF assms(2), of "[]" "tbst_pairs h tree"] r(5) by (simp add: tbst_t_init_def)
  show "tbst_collect tbst_t_prev h tree tbst_t_init = pret (rev (tbst_items h tree))"
    using tbst_collect_prev [OF assms(2), of "tbst_pairs h tree" "[]"] r(5) by (simp add: tbst_t_init_def rev_map)
  show "sorted_wrt (<) (map key (tbst_items h tree))"
    using assms(2) by (simp add: tbst_for_def keyed.ordered_iff [OF assms(1)])
  fix a x y trav
  assume a: "(a, x) \<in> set (tbst_pairs h tree)" "tbst_t_next h tree (Some a) = pret (Some y, trav)"
  obtain us vs where p: "tbst_pairs h tree = us @ (a, x) # vs" using a(1) by (meson split_list)
  have n: "tbst_t_next h tree (Some a) = tbst_t_at h (first_addr vs None)" by (rule tbst_next_prev_pairs(1) [OF assms(2) p])
  then obtain b w ws where v: "vs = (b, w) # ws" using a(2) by (cases vs) auto
  then have p': "tbst_pairs h tree = (us @ [(a, x)]) @ (b, w) # ws" using p by simp
  have "trav = Some b" using n v a(2) tbst_pair_at(4) [OF assms(2) p'] by simp
  then show "tbst_t_prev h tree trav = pret (x, Some a)"
    using tbst_next_prev_pairs(2) [OF assms(2) p'] tbst_pair_at(4) [OF assms(2) p] by simp
qed

lemma tbst_both_ways_witness:
  "tbst_collect tbst_t_next trio_nodes trio_ids tbst_t_init = pret [3, 5, 8] \<and>
   tbst_collect tbst_t_prev trio_nodes trio_ids tbst_t_init = pret [8, 5, 3]"
  using tbst_both_ways [OF task_keys trio_ids_ok(1)] by (simp add: trio_ids_ok(3))

section \<open>Balancing, copying and destruction\<close>

text \<open>
  \<^verbatim>\<open>tbst_balance\<close> ends on a tree of any shape: every node keeps its item and its place in the order, the
  threads are right again, no other block is touched, and the tree is as low as a tree of its
  size can be.
\<close>

theorem tbst_balance_optimal:
  assumes "tbst_for cmp h tree" "length (tbst_items h tree) < 2 ^ 32"
  shows "\<exists>h' tree'. tbst_balance h tree = pret (h', tree') \<and> tbst_for cmp h' tree' \<and> tbst_pairs h' tree' = tbst_pairs h tree \<and>
    (\<forall>a. a \<notin> set (tbst_nodes h tree) \<longrightarrow> h' a = h a) \<and>
    (tbst_items h tree = [] \<or> 2 ^ (bst_height (tbst_tree h' tree') - 1) \<le> length (tbst_items h tree))"
proof -
  let ?t = "tbst_tree h tree"
  have f: "rooted h tree ?t" "filled ?t" "length (datas ?t) = unat (tbst_count tree)" "tbst_compare tree = cmp"
    "ordered cmp (datas ?t)" "tbst_items h tree = datas ?t"
    using assms(1) by (simp_all add: tbst_for_def tbst_items_def)
  have c: "tbst_count tree = of_nat (length (datas ?t))" using f(3) by simp
  have "length (datas ?t) < 2 ^ 32" using assms(2) f(6) by simp
  then obtain h' tree' t' b where 1: "tbst_balance h tree = pret (h', tree')" "reshaped h tree ?t h' tree' t'"
    "bst_height t' \<le> b" "0 < b \<longrightarrow> 2 ^ (b - 1) \<le> length (datas ?t)"
    using tbst_balance_ok [OF f(1) c] by blast
  have s: "rooted h' tree' t'" "bst_inorder t' = bst_inorder ?t" "agree (- set (addrs ?t)) h h'" "tbst_compare tree' = cmp"
    "tbst_count tree' = tbst_count tree"
    using 1(2) f(4) by (simp_all add: reshaped_def)
  have d: "datas t' = datas ?t" "filled t'" using s(2) f(2) by (simp_all add: datas_def filled_def)
  have v: "tbst_for cmp h' tree'" "tbst_tree h' tree' = t'"
    using tbst_forI [OF s(1) d(2) _ s(4)] d(1) s(5) f(3,5) by simp_all
  have "2 ^ (bst_height t' - 1) \<le> length (datas ?t)" if "datas ?t \<noteq> []"
  proof (cases "b = 0")
    case True
    then show ?thesis using 1(3) that by (cases "datas ?t") auto
  next
    case False
    have "(2 :: nat) ^ (bst_height t' - 1) \<le> 2 ^ (b - 1)" using 1(3) by (intro power_increasing) auto
    also have "\<dots> \<le> length (datas ?t)" using 1(4) False by simp
    finally show ?thesis .
  qed
  then show ?thesis using 1(1) v s f(6) by (auto simp: tbst_pairs_def tbst_nodes_def agree_def)
qed

text \<open>A chain of three nodes, each the left child of the next.\<close>

definition chain_nodes :: "int tbst_heap" where
  "chain_nodes = Map.empty(
     2 \<mapsto> \<lparr>tbst_link = (\<lambda>d. if d then Some 4 else None), tbst_data = Some 3, tbst_tag = (\<lambda>d. TBST_THREAD)\<rparr>,
     4 \<mapsto> \<lparr>tbst_link = (\<lambda>d. if d then Some 6 else Some 2), tbst_data = Some 5, tbst_tag = (\<lambda>d. if d then TBST_THREAD else TBST_CHILD)\<rparr>,
     6 \<mapsto> \<lparr>tbst_link = (\<lambda>d. if d then None else Some 4), tbst_data = Some 8, tbst_tag = (\<lambda>d. if d then TBST_THREAD else TBST_CHILD)\<rparr>)"

definition chain_ids :: "int tbst_table" where
  "chain_ids = \<lparr>tbst_root = Some 6, tbst_compare = cs_wp_cmp_tsk, tbst_count = 3\<rparr>"

lemma chain_ids_ok:
  "tbst_for cs_wp_cmp_tsk chain_nodes chain_ids" "tbst_items chain_nodes chain_ids = [3, 5, 8]"
proof -
  let ?l = "BNode (BNode BNull (2, Some 3) BNull) (4, Some 5) BNull" and ?t = "vine [(2, Some 3), (4, Some 5), (6, Some (8 :: int))]"
  have n: "chain_nodes 6 = Some (tnode None None ?l (Some 8) BNull)" "chain_nodes 2 = Some (tnode None (Some 4) BNull (Some 3) BNull)"
    "chain_nodes 4 = Some (tnode None (Some 6) (BNode BNull (2, Some 3) BNull) (Some 5) BNull)"
    by (auto simp: chain_nodes_def fun_upd_apply tnode_def)
  have r: "rooted chain_nodes chain_ids ?t" by (simp add: rooted_def chain_ids_def n)
  have d: "datas ?t = [3, 5, 8]" by (simp add: datas_def)
  have o: "ordered cs_wp_cmp_tsk [3, 5, 8]" by (simp add: ordered_def cs_wp_cmp_tsk_def)
  have c: "length (datas ?t) = unat (tbst_count chain_ids)" unfolding d by (simp add: chain_ids_def)
  show "tbst_for cs_wp_cmp_tsk chain_nodes chain_ids" "tbst_items chain_nodes chain_ids = [3, 5, 8]"
    using tbst_forI [OF r _ c, of cs_wp_cmp_tsk] o d by (simp_all add: chain_ids_def)
qed

lemma tbst_balance_optimal_witness:
  "\<exists>h' tree'. tbst_balance chain_nodes chain_ids = pret (h', tree') \<and> bst_height (tbst_tree h' tree') \<le> 2"
proof -
  obtain h' tree' where 1: "tbst_balance chain_nodes chain_ids = pret (h', tree')"
    "2 ^ (bst_height (tbst_tree h' tree') - 1) \<le> (3 :: nat)"
    using tbst_balance_optimal [OF chain_ids_ok(1)] by (auto simp: chain_ids_ok(2))
  have "\<not> 2 < bst_height (tbst_tree h' tree')"
  proof
    assume "2 < bst_height (tbst_tree h' tree')"
    then have "(2 :: nat) ^ 2 \<le> 2 ^ (bst_height (tbst_tree h' tree') - 1)" by (intro power_increasing) auto
    then show False using 1(2) by simp
  qed
  then show ?thesis using 1(1) by auto
qed

lemma tbst_for_agree:
  assumes "tbst_for cmp h tree" "agree (set (tbst_nodes h tree)) h h'"
  shows "tbst_for cmp h' tree" "tbst_tree h' tree = tbst_tree h tree"
proof -
  let ?t = "tbst_tree h tree"
  have f: "rooted h tree ?t" "filled ?t" "length (datas ?t) = unat (tbst_count tree)" "tbst_compare tree = cmp" "ordered cmp (datas ?t)"
    using assms(1) by (simp_all add: tbst_for_def tbst_items_def)
  have "rooted h' tree ?t" using f(1) assms(2) trep_agree by (auto simp: rooted_def tbst_nodes_def)
  from tbst_forI [OF this f(2-5)] show "tbst_for cmp h' tree" "tbst_tree h' tree = ?t" by simp_all
qed

text \<open>
  C29.  \<^verbatim>\<open>tbst_copy\<close> returns one of two ways.  It succeeds with a copy of the same shape, in blocks that were
  free, whose items are the copies of the items, and nothing else on the heap has changed.  Or it fails, because there was no memory or an item
  could not be copied: then the heap is the one of the call to the last block, and what the user's destructor was given
  are copies of items.
\<close>

theorem tbst_copy_all_or_nothing:
  assumes "tbst_for cmp h org" "allocator malloc" "finite (dom h)" "h rp = None" "h rq = None" "rp \<noteq> rq"
  shows "(\<exists>new h' u. tbst_copy True malloc copy destroy rp rq raw h org = pret ([], Some new, h') \<and> rooted h' new u \<and>
      copies_of copy (tbst_tree h org) u \<and> (\<forall>a\<in>set (addrs u). h a = None) \<and> (\<forall>a. a \<notin> set (addrs u) \<longrightarrow> h' a = h a) \<and>
      filled u \<and> tbst_compare new = cmp \<and> tbst_count new = tbst_count org \<and> tbst_for cmp h' org) \<or>
    (\<exists>xs. tbst_copy True malloc copy destroy rp rq raw h org = pret (xs, None, h) \<and>
      (\<forall>x\<in>set xs. \<exists>y\<in>set (tbst_items h org). copied copy (Some y) = Some x) \<and>
      ((\<exists>h. finite (dom h) \<and> malloc h = None) \<or> (\<exists>y\<in>set (tbst_items h org). copied copy (Some y) = None)))"
proof -
  let ?t = "tbst_tree h org"
  have f: "rooted h org ?t" "length (datas ?t) = unat (tbst_count org)" "filled ?t" "tbst_compare org = cmp"
    using assms(1) by (simp_all add: tbst_for_def tbst_items_def)
  have it: "the (snd y) \<in> set (tbst_items h org) \<and> snd y = Some (the (snd y))" if "y \<in> set (bst_inorder ?t)" for y
    using that f(3) by (fastforce simp: tbst_items_def datas_def filled_def)
  show ?thesis
  proof (cases rule: tbst_copy_ok [where copy = copy and destroy = destroy and raw = raw, OF f(1,2) assms(2-6)])
    case (1 xs)
    have "\<forall>x\<in>set xs. \<exists>y\<in>set (tbst_items h org). copied copy (Some y) = Some x" using 1(3) it by metis
    moreover have "(\<exists>h. finite (dom h) \<and> malloc h = None) \<or> (\<exists>y\<in>set (tbst_items h org). copied copy (Some y) = None)"
      using 1(2) it unfolding copy_safe_def by metis
    ultimately show ?thesis using 1(1) by blast
  next
    case (2 h' new u)
    have "agree (set (tbst_nodes h org)) h h'"
      using 2(4,5) rooted_alloc [OF f(1)] unfolding agree_def tbst_nodes_def by (metis ComplI)
    moreover have "filled u"
    proof (cases "copy = None")
      case True
      have "copies_of None t' u' \<Longrightarrow> filled t' \<Longrightarrow> filled u'" for t' u' :: "'a ghost"
        by (induction "None :: 'a tbst_copy_func" t' u' rule: copies_of.induct) (auto simp: copied_def)
      then show ?thesis using 2(3) f(3) True by blast
    qed (use 2(8) in simp)
    ultimately show ?thesis using tbst_for_agree(1) [OF assms(1)] 2 f(4) by (auto simp: agree_def)
  qed
qed

text \<open>What may be in the fields of the local nodes that are not set.\<close>

definition stack_garbage :: "int tbst_node" where
  "stack_garbage = \<lparr>tbst_link = (\<lambda>d. Some 7), tbst_data = Some 9, tbst_tag = (\<lambda>d. TBST_CHILD)\<rparr>"

lemma tbst_copy_all_or_nothing_witness:
  "\<exists>xs. tbst_copy True first_fit (Some (\<lambda>x. if x = Some 8 then None else x)) True 100 101 stack_garbage trio_nodes trio_ids =
     pret (xs, None, trio_nodes) \<and> set xs \<subseteq> {3, 5}"
proof -
  let ?f = "Some (\<lambda>x. if x = Some 8 then None else x) :: int tbst_copy_func"
  have fr: "finite (dom trio_nodes)" "trio_nodes 100 = None" "trio_nodes 101 = None" "(100 :: addr) \<noteq> 101"
    by (simp_all add: trio_nodes_at) (simp_all add: trio_nodes_def fun_upd_apply)
  have no: "\<not> (copies_of ?f (tbst_tree trio_nodes trio_ids) u \<and> filled u)" for u
    by (auto simp: trio_ids_ok copied_def)
  obtain xs where xs: "tbst_copy True first_fit ?f True 100 101 stack_garbage trio_nodes trio_ids = pret (xs, None, trio_nodes)"
    "\<forall>x\<in>set xs. \<exists>y\<in>set (tbst_items trio_nodes trio_ids). copied ?f (Some y) = Some x"
    using tbst_copy_all_or_nothing [OF trio_ids_ok(1) first_fit_allocator fr, of ?f True stack_garbage] no by blast
  then have "set xs \<subseteq> {3, 5}" by (auto simp: trio_ids_ok copied_def split: if_splits)
  then show ?thesis using xs(1) by blast
qed

text \<open>
  \<^verbatim>\<open>tbst_destroy\<close> hands every item to the user's function, in order, and frees every node once; no other block is touched.
\<close>

theorem tbst_destroy_frees:
  assumes "tbst_for cmp h tree"
  shows "\<exists>h'. tbst_destroy True h tree = pret (tbst_items h tree, h') \<and>
    (\<forall>a\<in>set (tbst_nodes h tree). h' a = None) \<and> (\<forall>a. a \<notin> set (tbst_nodes h tree) \<longrightarrow> h' a = h a)"
proof -
  let ?t = "tbst_tree h tree"
  have r: "trep h None None ?t" "distinct (addrs ?t)" "tbst_root tree = root_of ?t None" "filled ?t"
    using assms by (simp_all add: tbst_for_def rooted_def)
  from tbst_destroy_ok [OF r(1-3), of True] show ?thesis
    using called_items [OF r(4)] by (auto simp: agree_def tbst_nodes_def tbst_items_def)
qed

lemma tbst_destroy_frees_witness:
  "tbst_destroy True trio_nodes trio_ids = pret ([3, 5, 8], Map.empty)"
proof -
  obtain h' where 1: "tbst_destroy True trio_nodes trio_ids = pret ([3, 5, 8], h')"
    "\<forall>a\<in>set (tbst_nodes trio_nodes trio_ids). h' a = None" "\<forall>a. a \<notin> set (tbst_nodes trio_nodes trio_ids) \<longrightarrow> h' a = trio_nodes a"
    using tbst_destroy_frees [OF trio_ids_ok(1)] by (auto simp: trio_ids_ok(3))
  have n: "set (tbst_nodes trio_nodes trio_ids) = {2, 4, 6}" by (auto simp: tbst_nodes_def trio_ids_ok(2))
  have "h' a = None" for a
  proof (cases "a \<in> {2, 4, 6}")
    case True
    then show ?thesis by (rule bspec [OF 1(2) [unfolded n]])
  next
    case False
    then have "a \<notin> dom trio_nodes" using trio_nodes_at(4) by simp
    then show ?thesis using 1(3) False n by (simp add: domIff)
  qed
  then have "h' = Map.empty" by (rule ext)
  then show ?thesis using 1(1) by simp
qed

end
