(* ===== verification/PBST_Tree.thy ===== *)
theory PBST_Tree
  imports Heap_Prog BST_Tree
begin

text \<open>
  The search tree with parent pointers of \<open>avl-2.0/src/pbst.c\<close>: search, insertion, deletion and
  traversers.

  Nodes live on a heap, because a node is pointed to by its parent and by its children.
  \<open>(struct pbst_node *) &tree->pbst_root\<close>, the pseudo node above the root, is the place \<open>None\<close>, of which only
  link 0 exists.
\<close>

section \<open>Data\<close>

record 'a pbst_node =
  pbst_link :: "bool \<Rightarrow> addr option"
  pbst_parent :: "addr option"
  pbst_data :: "'a option"

text \<open>\<open>pbst_param\<close> is a pointer of the user, which the comparison function is given.\<close>

record 'a pbst_table =
  pbst_root :: "addr option"
  pbst_compare :: "'a \<Rightarrow> 'a \<Rightarrow> addr option \<Rightarrow> int"
  pbst_param :: "addr option"
  pbst_count :: "64 word"

type_synonym 'a pbst_heap = "'a pbst_node heap"

text \<open>Assignments to \<open>n->pbst_link[d]\<close>, \<open>n->pbst_parent\<close> and \<open>n->pbst_data\<close>.\<close>

definition put_link :: "bool \<Rightarrow> addr option \<Rightarrow> 'a pbst_node \<Rightarrow> 'a pbst_node" where
  "put_link d p n = n\<lparr>pbst_link := (pbst_link n)(d := p)\<rparr>"

definition put_parent :: "addr option \<Rightarrow> 'a pbst_node \<Rightarrow> 'a pbst_node" where
  "put_parent p n = n\<lparr>pbst_parent := p\<rparr>"

definition put_data :: "'a option \<Rightarrow> 'a pbst_node \<Rightarrow> 'a pbst_node" where
  "put_data x n = n\<lparr>pbst_data := x\<rparr>"

text \<open>Reading \<open>p->pbst_link[d]\<close> and \<open>p->pbst_parent\<close>.\<close>

definition link_of :: "'a pbst_heap \<Rightarrow> addr option \<Rightarrow> bool \<Rightarrow> addr option prog" where
  "link_of h p d = pbind (fetch h p) (\<lambda>n. pret (pbst_link n d))"

definition parent_of :: "'a pbst_heap \<Rightarrow> addr option \<Rightarrow> addr option prog" where
  "parent_of h p = pbind (fetch h p) (\<lambda>n. pret (pbst_parent n))"

text \<open>\<open>q->pbst_link[d]\<close> for a place \<open>q\<close>.\<close>

definition pbst_get :: "'a pbst_heap \<Rightarrow> 'a pbst_table \<Rightarrow> addr option \<Rightarrow> bool \<Rightarrow> addr option prog" where
  "pbst_get h tree q d =
     (if q = None then (if d then pfault Out_of_bounds else pret (pbst_root tree))
      else link_of h q d)"

definition pbst_put ::
  "'a pbst_heap \<Rightarrow> 'a pbst_table \<Rightarrow> addr option \<Rightarrow> bool \<Rightarrow> addr option \<Rightarrow> ('a pbst_heap \<times> 'a pbst_table) prog" where
  "pbst_put h tree q d p =
     (if q = None then (if d then pfault Out_of_bounds else pret (h, tree\<lparr>pbst_root := p\<rparr>))
      else pbind (assign h q (put_link d p)) (\<lambda>h. pret (h, tree)))"

section \<open>Creation and search\<close>

definition pbst_create ::
  "bool \<Rightarrow> ('a \<Rightarrow> 'a \<Rightarrow> addr option \<Rightarrow> int) \<Rightarrow> addr option \<Rightarrow> 'a pbst_table option" where
  "pbst_create alloc cmp param =
     (if alloc then Some \<lparr>pbst_root = None, pbst_compare = cmp, pbst_param = param, pbst_count = 0\<rparr> else None)"

text \<open>A call of the comparison function, which reads both items.\<close>

definition pbst_cmp :: "'a pbst_table \<Rightarrow> 'a \<Rightarrow> 'a pbst_node \<Rightarrow> int prog" where
  "pbst_cmp tree item n =
     (case pbst_data n of
        None \<Rightarrow> pfault Null_dereference
      | Some x \<Rightarrow> pret (pbst_compare tree item x (pbst_param tree)))"

text \<open>The loop of \<^verbatim>\<open>pbst_find\<close> and \<^verbatim>\<open>pbst_t_find\<close>: the node that matches.\<close>

partial_function (option) pbst_find_loop ::
  "'a pbst_heap \<Rightarrow> 'a pbst_table \<Rightarrow> 'a \<Rightarrow> addr option \<Rightarrow> addr option prog" where
  "pbst_find_loop h tree item p =
     (if p = None then pret None
      else pbind (fetch h p) (\<lambda>n. pbind (pbst_cmp tree item n) (\<lambda>cmp.
        if cmp = 0 then pret p else pbst_find_loop h tree item (pbst_link n (cmp > 0)))))"

definition pbst_data_of :: "'a pbst_heap \<Rightarrow> addr option \<Rightarrow> 'a option prog" where
  "pbst_data_of h p = (if p = None then pret None else pbind (fetch h p) (\<lambda>n. pret (pbst_data n)))"

definition pbst_find :: "'a pbst_heap \<Rightarrow> 'a pbst_table \<Rightarrow> 'a \<Rightarrow> 'a option prog" where
  "pbst_find h tree item = pbind (pbst_find_loop h tree item (pbst_root tree)) (pbst_data_of h)"

section \<open>Insertion\<close>

text \<open>The search loop of \<^verbatim>\<open>pbst_probe\<close> and \<^verbatim>\<open>pbst_t_insert\<close>: \<open>q\<close>, \<open>dir\<close> and \<open>p\<close>.  Where \<open>q\<close> is null, \<open>dir\<close> is not used.\<close>

partial_function (option) pbst_probe_loop ::
  "'a pbst_heap \<Rightarrow> 'a pbst_table \<Rightarrow> 'a \<Rightarrow> addr option \<Rightarrow> bool \<Rightarrow> addr option \<Rightarrow>
     (addr option \<times> bool \<times> addr option) prog" where
  "pbst_probe_loop h tree item q dir p =
     (if p = None then pret (q, dir, None)
      else pbind (fetch h p) (\<lambda>n. pbind (pbst_cmp tree item n) (\<lambda>cmp.
        if cmp = 0 then pret (q, dir, p)
        else pbst_probe_loop h tree item p (cmp > 0) (pbst_link n (cmp > 0)))))"

text \<open>The new node at address \<open>a\<close> below \<open>q\<close>.\<close>

definition pbst_attach ::
  "'a pbst_heap \<Rightarrow> 'a pbst_table \<Rightarrow> 'a \<Rightarrow> addr option \<Rightarrow> bool \<Rightarrow> addr \<Rightarrow> ('a pbst_heap \<times> 'a pbst_table) prog" where
  "pbst_attach h tree item q dir a =
     (let tree = tree\<lparr>pbst_count := pbst_count tree + 1\<rparr>;
          h = h(a \<mapsto> \<lparr>pbst_link = (\<lambda>d. None), pbst_parent = q, pbst_data = Some item\<rparr>) in
      if q \<noteq> None then pbind (assign h q (put_link dir (Some a))) (\<lambda>h. pret (h, tree))
      else pret (h, tree\<lparr>pbst_root := Some a\<rparr>))"

text \<open>\<^verbatim>\<open>pbst_probe\<close> returns a pointer to the data field of a node, here the node.\<close>

definition pbst_probe ::
  "('a pbst_heap \<Rightarrow> addr option) \<Rightarrow> 'a pbst_heap \<Rightarrow> 'a pbst_table \<Rightarrow> 'a \<Rightarrow>
     (addr option \<times> 'a pbst_heap \<times> 'a pbst_table) prog" where
  "pbst_probe malloc h tree item =
     pbind (pbst_probe_loop h tree item None False (pbst_root tree)) (\<lambda>(q, dir, p).
       if p \<noteq> None then pret (p, h, tree)
       else
         (case malloc h of
            None \<Rightarrow> pret (None, h, tree)
          | Some a \<Rightarrow> pbind (pbst_attach h tree item q dir a) (\<lambda>(h, tree). pret (Some a, h, tree))))"

definition pbst_insert ::
  "('a pbst_heap \<Rightarrow> addr option) \<Rightarrow> 'a pbst_heap \<Rightarrow> 'a pbst_table \<Rightarrow> 'a \<Rightarrow>
     ('a option \<times> 'a pbst_heap \<times> 'a pbst_table) prog" where
  "pbst_insert malloc h tree item =
     pbind (pbst_probe malloc h tree item) (\<lambda>(p, h, tree).
       pbind (pbst_data_of h p) (\<lambda>x.
         pret (if p = None \<or> x = Some item then None else x, h, tree)))"

definition pbst_replace ::
  "('a pbst_heap \<Rightarrow> addr option) \<Rightarrow> 'a pbst_heap \<Rightarrow> 'a pbst_table \<Rightarrow> 'a \<Rightarrow>
     ('a option \<times> 'a pbst_heap \<times> 'a pbst_table) prog" where
  "pbst_replace malloc h tree item =
     pbind (pbst_probe malloc h tree item) (\<lambda>(p, h, tree).
       pbind (pbst_data_of h p) (\<lambda>r.
         if p = None \<or> r = Some item then pret (None, h, tree)
         else pbind (assign h p (put_data (Some item))) (\<lambda>h. pret (r, h, tree))))"

section \<open>Deletion\<close>

text \<open>\<open>while (t->pbst_link[d] != NULL) t = t->pbst_link[d];\<close> for any pointer \<open>t\<close>.\<close>

partial_function (option) pbst_descend :: "'a pbst_heap \<Rightarrow> bool \<Rightarrow> addr option \<Rightarrow> addr option prog" where
  "pbst_descend h d t =
     pbind (link_of h t d) (\<lambda>u. if u \<noteq> None then pbst_descend h d u else pret t)"

text \<open>The search loop of \<^verbatim>\<open>pbst_delete\<close>: \<open>dir\<close> and \<open>p\<close>.\<close>

partial_function (option) pbst_delete_loop ::
  "'a pbst_heap \<Rightarrow> 'a pbst_table \<Rightarrow> 'a \<Rightarrow> bool \<Rightarrow> addr option \<Rightarrow> (bool \<times> addr option) option prog" where
  "pbst_delete_loop h tree item dir p =
     pbind (fetch h p) (\<lambda>n. pbind (pbst_cmp tree item n) (\<lambda>cmp.
       if cmp = 0 then pret (Some (dir, p))
       else if pbst_link n (cmp > 0) = None then pret None
       else pbst_delete_loop h tree item (cmp > 0) (pbst_link n (cmp > 0))))"

text \<open>\<open>if (c != NULL) c->pbst_parent = p;\<close>\<close>

definition adopt :: "'a pbst_heap \<Rightarrow> addr option \<Rightarrow> addr option \<Rightarrow> 'a pbst_heap prog" where
  "adopt h c p = (if c \<noteq> None then assign h c (put_parent p) else pret h)"

text \<open>The node \<open>p\<close> has no right child.\<close>

definition pbst_unlink_left ::
  "'a pbst_heap \<Rightarrow> 'a pbst_table \<Rightarrow> addr option \<Rightarrow> bool \<Rightarrow> addr option \<Rightarrow> ('a pbst_heap \<times> 'a pbst_table) prog" where
  "pbst_unlink_left h tree q dir p =
     pbind (link_of h p False) (\<lambda>l.
     pbind (pbst_put h tree q dir l) (\<lambda>(h, tree).
     pbind (pbst_get h tree q dir) (\<lambda>c.
     pbind (parent_of h p) (\<lambda>u.
     pbind (adopt h c u) (\<lambda>h. pret (h, tree))))))"

text \<open>The right child \<open>r\<close> of \<open>p\<close> has no left child.\<close>

definition pbst_unlink_right ::
  "'a pbst_heap \<Rightarrow> 'a pbst_table \<Rightarrow> addr option \<Rightarrow> bool \<Rightarrow> addr option \<Rightarrow> addr option \<Rightarrow>
     ('a pbst_heap \<times> 'a pbst_table) prog" where
  "pbst_unlink_right h tree q dir p r =
     pbind (link_of h p False) (\<lambda>l.
     pbind (assign h r (put_link False l)) (\<lambda>h.
     pbind (pbst_put h tree q dir r) (\<lambda>(h, tree).
     pbind (parent_of h p) (\<lambda>u.
     pbind (assign h r (put_parent u)) (\<lambda>h.
     pbind (link_of h r False) (\<lambda>c.
     pbind (adopt h c r) (\<lambda>h. pret (h, tree))))))))"

text \<open>The inorder successor \<open>s\<close> takes the place of \<open>p\<close>; then \<open>r\<close> is the parent of \<open>s\<close>.\<close>

definition pbst_relink_successor ::
  "'a pbst_heap \<Rightarrow> 'a pbst_table \<Rightarrow> addr option \<Rightarrow> bool \<Rightarrow> addr option \<Rightarrow> addr option \<Rightarrow> addr option \<Rightarrow>
     ('a pbst_heap \<times> 'a pbst_table) prog" where
  "pbst_relink_successor h tree q dir p r s =
     pbind (link_of h s True) (\<lambda>v.
     pbind (assign h r (put_link False v)) (\<lambda>h.
     pbind (link_of h p False) (\<lambda>v.
     pbind (assign h s (put_link False v)) (\<lambda>h.
     pbind (link_of h p True) (\<lambda>v.
     pbind (assign h s (put_link True v)) (\<lambda>h.
     pbst_put h tree q dir s))))))"

definition pbst_unlink_successor ::
  "'a pbst_heap \<Rightarrow> 'a pbst_table \<Rightarrow> addr option \<Rightarrow> bool \<Rightarrow> addr option \<Rightarrow> addr option \<Rightarrow>
     ('a pbst_heap \<times> 'a pbst_table) prog" where
  "pbst_unlink_successor h tree q dir p r =
     pbind (link_of h r False) (\<lambda>s.
     pbind (pbst_descend h False s) (\<lambda>s.
     pbind (parent_of h s) (\<lambda>r.
     pbind (pbst_relink_successor h tree q dir p r s) (\<lambda>(h, tree).
     pbind (link_of h s False) (\<lambda>c.
     pbind (adopt h c s) (\<lambda>h.
     pbind (link_of h s True) (\<lambda>c.
     pbind (assign h c (put_parent s)) (\<lambda>h.
     pbind (parent_of h p) (\<lambda>u.
     pbind (assign h s (put_parent u)) (\<lambda>h.
     pbind (link_of h r False) (\<lambda>c.
     pbind (adopt h c r) (\<lambda>h. pret (h, tree)))))))))))))"

definition pbst_unlink ::
  "'a pbst_heap \<Rightarrow> 'a pbst_table \<Rightarrow> addr option \<Rightarrow> bool \<Rightarrow> addr option \<Rightarrow> ('a pbst_heap \<times> 'a pbst_table) prog" where
  "pbst_unlink h tree q dir p =
     pbind (link_of h p True) (\<lambda>r.
       if r = None then pbst_unlink_left h tree q dir p
       else pbind (link_of h r False) (\<lambda>s.
         if s = None then pbst_unlink_right h tree q dir p r
         else pbst_unlink_successor h tree q dir p r))"

definition pbst_delete ::
  "'a pbst_heap \<Rightarrow> 'a pbst_table \<Rightarrow> 'a \<Rightarrow> ('a option \<times> 'a pbst_heap \<times> 'a pbst_table) prog" where
  "pbst_delete h tree item =
     (if pbst_root tree = None then pret (None, h, tree)
      else pbind (pbst_delete_loop h tree item False (pbst_root tree)) (\<lambda>res.
        case res of
          None \<Rightarrow> pret (None, h, tree)
        | Some (dir, p) \<Rightarrow>
            pbind (fetch h p) (\<lambda>n.
            let q = pbst_parent n; dir = (if q = None then False else dir) in
            pbind (pbst_unlink h tree q dir p) (\<lambda>(h, tree).
            pbind (release h p) (\<lambda>h.
            pret (pbst_data n, h, tree\<lparr>pbst_count := pbst_count tree - 1\<rparr>))))))"

section \<open>The asserting variants\<close>

definition pbst_assert_insert ::
  "('a pbst_heap \<Rightarrow> addr option) \<Rightarrow> 'a pbst_heap \<Rightarrow> 'a pbst_table \<Rightarrow> 'a \<Rightarrow> ('a pbst_heap \<times> 'a pbst_table) prog" where
  "pbst_assert_insert malloc h tree item =
     pbind (pbst_probe malloc h tree item) (\<lambda>(p, h, tree).
       pbind (pbst_data_of h p) (\<lambda>x.
         if p \<noteq> None \<and> x = Some item then pret (h, tree) else pfault Assertion_failed))"

definition pbst_assert_delete ::
  "'a pbst_heap \<Rightarrow> 'a pbst_table \<Rightarrow> 'a \<Rightarrow> ('a option \<times> 'a pbst_heap \<times> 'a pbst_table) prog" where
  "pbst_assert_delete h tree item =
     pbind (pbst_delete h tree item) (\<lambda>(p, h, tree).
       if p \<noteq> None then pret (p, h, tree) else pfault Assertion_failed)"

end
