(* ===== verification/PBST_Rep.thy ===== *)
theory PBST_Rep
  imports PBST_Tree Ghost_Tree
begin

text \<open>
  What a tree with parent pointers on the heap represents.  \<open>lrep h t\<close> says that the nodes of \<open>t\<close> are on the
  heap \<open>h\<close> and linked as \<open>t\<close> is, whatever their parent pointers are, as they are while a tree is
  being balanced or destroyed; \<open>prep h u t\<close> says that the parent pointers are right as well and that of the root is \<open>u\<close>.
\<close>

declare fun_upd_apply [simp del] fun_upd_same [simp] fun_upd_other [simp]

section \<open>Representation\<close>

abbreviation apex :: "'a ghost \<Rightarrow> addr option" where
  "apex t \<equiv> root_of t None"

definition pnode :: "addr option \<Rightarrow> 'a ghost \<Rightarrow> 'a option \<Rightarrow> 'a ghost \<Rightarrow> 'a pbst_node" where
  "pnode u l x r = \<lparr>pbst_link = (\<lambda>d. if d then apex r else apex l), pbst_parent = u, pbst_data = x\<rparr>"

fun lrep :: "'a pbst_heap \<Rightarrow> 'a ghost \<Rightarrow> bool" where
  "lrep h BNull = True"
| "lrep h (BNode l (a, x) r) \<longleftrightarrow> (\<exists>u. h a = Some (pnode u l x r)) \<and> lrep h l \<and> lrep h r"

fun prep :: "'a pbst_heap \<Rightarrow> addr option \<Rightarrow> 'a ghost \<Rightarrow> bool" where
  "prep h u BNull = True"
| "prep h u (BNode l (a, x) r) \<longleftrightarrow> h a = Some (pnode u l x r) \<and> prep h (Some a) l \<and> prep h (Some a) r"

lemma prep_lrep: "prep h u t \<Longrightarrow> lrep h t"
  by (induction t arbitrary: u) auto

lemma pnode_sel [simp]:
  "pbst_link (pnode u l x r) d = (if d then apex r else apex l)"
  "pbst_parent (pnode u l x r) = u" "pbst_data (pnode u l x r) = x"
  by (simp_all add: pnode_def)

lemma put_sel [simp]:
  "pbst_link (put_link d p n) = (pbst_link n)(d := p)" "pbst_parent (put_link d p n) = pbst_parent n"
  "pbst_data (put_link d p n) = pbst_data n" "pbst_link (put_parent p n) = pbst_link n"
  "pbst_parent (put_parent p n) = p" "pbst_data (put_parent p n) = pbst_data n"
  "pbst_link (put_data x n) = pbst_link n" "pbst_parent (put_data x n) = pbst_parent n" "pbst_data (put_data x n) = x"
  by (simp_all add: put_link_def put_parent_def put_data_def)

lemma pnode_eq:
  "n = n' \<longleftrightarrow> (\<forall>d. pbst_link n d = pbst_link n' d) \<and> pbst_parent n = pbst_parent n' \<and> pbst_data n = pbst_data n'"
  for n n' :: "'a pbst_node"
  by (cases n, cases n') (auto simp: fun_eq_iff)

lemma eq_pnode:
  "n = pnode u l x r \<longleftrightarrow> pbst_link n False = apex l \<and> pbst_link n True = apex r \<and> pbst_parent n = u \<and> pbst_data n = x"
  by (auto simp: pnode_eq)

lemma pnode_cong: "apex l = apex l' \<Longrightarrow> apex r = apex r' \<Longrightarrow> pnode u l x r = pnode u l' x r'"
  by (simp add: eq_pnode)

lemma put_pnode [simp]:
  "apex r' = p \<Longrightarrow> put_link True p (pnode u l x r) = pnode u l x r'"
  "apex l' = p \<Longrightarrow> put_link False p (pnode u l x r) = pnode u l' x r"
  "put_parent v (pnode u l x r) = pnode v l x r"
  "put_data y (pnode u l x r) = pnode u l y r"
  by (simp_all add: eq_pnode)

lemma link_of_Some [simp]: "h a = Some n \<Longrightarrow> link_of h (Some a) d = pret (pbst_link n d)"
  by (simp add: link_of_def)

lemma parent_of_Some [simp]: "h a = Some n \<Longrightarrow> parent_of h (Some a) = pret (pbst_parent n)"
  by (simp add: parent_of_def)

lemma apex_null [simp]: "apex t = None \<longleftrightarrow> t = BNull"
  by (cases t) auto

lemma apex_Some: "apex t = Some a \<Longrightarrow> \<exists>l x r. t = BNode l (a, x) r"
  by (cases t) auto

lemma apex_in: "apex t = Some a \<Longrightarrow> a \<in> set (addrs t)"
  by (cases t) auto

section \<open>Frames\<close>

lemma lrep_agree: "lrep h t \<Longrightarrow> agree (set (addrs t)) h h' \<Longrightarrow> lrep h' t"
  by (induction t) (auto simp: agree_def)

lemma prep_agree: "prep h u t \<Longrightarrow> agree (set (addrs t)) h h' \<Longrightarrow> prep h' u t"
  by (induction t arbitrary: u) (auto simp: agree_def)

lemma lrep_upd [simp]: "a \<notin> set (addrs t) \<Longrightarrow> lrep (h(a := x)) t = lrep h t"
  by (induction t) auto

lemma prep_upd [simp]: "a \<notin> set (addrs t) \<Longrightarrow> prep (h(a := x)) u t = prep h u t"
  by (induction t arbitrary: u) auto

lemma lrep_alloc: "lrep h t \<Longrightarrow> a \<in> set (addrs t) \<Longrightarrow> h a \<noteq> None"
  by (induction t) auto

lemma prep_alloc: "prep h u t \<Longrightarrow> a \<in> set (addrs t) \<Longrightarrow> h a \<noteq> None"
  using lrep_alloc prep_lrep by blast

lemma lrep_parent: "lrep h t \<Longrightarrow> h a = Some n \<Longrightarrow> lrep (h(a \<mapsto> put_parent v n)) t"
proof (induction t)
  case (BNode l y r)
  obtain b x u where b: "y = (b, x)" "h b = Some (pnode u l x r)" using BNode.prems(1) by (cases y) auto
  then have "\<exists>w. (h(a \<mapsto> put_parent v n)) b = Some (pnode w l x r)" using BNode.prems(2) by (cases "b = a") auto
  then show ?case using BNode b by simp
qed simp

text \<open>A new parent for the root.\<close>

lemma adopt_ok:
  assumes "prep h u t" "distinct (addrs t)"
  obtains h' where "adopt h (apex t) v = pret h'" "prep h' v t" "agree (- set_option (apex t)) h h'"
proof (cases t)
  case BNull
  then show ?thesis using that [of h] by (simp add: adopt_def)
next
  case (BNode l y r)
  obtain a x where y: "y = (a, x)" by fastforce
  have "prep (h(a \<mapsto> pnode v l x r)) v t" using assms BNode y by simp
  moreover have "agree (- {a}) h (h(a \<mapsto> pnode v l x r))" by (simp add: agree_upd)
  ultimately show ?thesis using that assms BNode y by (simp add: adopt_def)
qed

section \<open>Descending\<close>

declare pbst_descend.simps [simp del]

lemma pbst_descend_tip: "lrep h t \<Longrightarrow> t \<noteq> BNull \<Longrightarrow> pbst_descend h d (apex t) = pret (tip d t)"
proof (induction t)
  case (BNode l y r)
  then show ?case by (cases y; cases d; subst pbst_descend.simps) auto
qed simp

section \<open>Positions\<close>

lemma lrep_subtree: "lrep h t \<Longrightarrow> lrep h (subtree t p)"
proof (induction t p rule: in_tree.induct)
  case (3 l y r d ds)
  then show ?case by (cases y) auto
qed auto

lemma prep_subtree: "prep h u t \<Longrightarrow> prep h (fst (place u e t p)) (subtree t p)"
proof (induction t p arbitrary: u e rule: in_tree.induct)
  case (3 l y r d ds)
  then show ?case by (cases y) auto
qed auto

lemma place_apex:
  "place q e t p = (Some a, d) \<Longrightarrow> p \<noteq> [] \<Longrightarrow> in_tree t p \<Longrightarrow> lrep h t \<Longrightarrow>
     \<exists>n. h a = Some n \<and> pbst_link n d = apex (subtree t p)"
proof (induction t p arbitrary: q e rule: in_tree.induct)
  case (3 l y r d' ds)
  obtain b x where y: "y = (b, x)" by fastforce
  show ?case
  proof (cases "ds = []")
    case True
    then show ?thesis using 3 y by (auto split: if_splits)
  next
    case False
    then show ?thesis using "3.IH" [OF _ False] "3.prems" y by (auto split: if_splits)
  qed
qed auto

lemma apex_put: "p \<noteq> [] \<Longrightarrow> in_tree t p \<Longrightarrow> apex (put_at t p s) = apex t"
  by (cases p; cases t) (auto split: prod.splits)

text \<open>A subtree is replaced and the link to it set.\<close>

lemma prep_put:
  assumes "place q e t p = (Some a, d)" "p \<noteq> []" "in_tree t p" "distinct (addrs t)" "prep h u t"
    and "agree (set (addrs t) - set (addrs (subtree t p)) - {a}) h h'"
    and "h a = Some n" "h' a = Some (put_link d (apex s) n)" "prep h' (Some a) s"
  shows "prep h' u (put_at t p s)"
  using assms
proof (induction t p arbitrary: q e u rule: in_tree.induct)
  case (3 l y r d' ds)
  obtain b x where y: "y = (b, x)" by fastforce
  have dis: "distinct (addrs l)" "distinct (addrs r)" "b \<notin> set (addrs l)" "b \<notin> set (addrs r)"
    "set (addrs l) \<inter> set (addrs r) = {}"
    using "3.prems"(4) y by auto
  have rep: "h b = Some (pnode u l x r)" "prep h (Some b) l" "prep h (Some b) r"
    using "3.prems"(5) y by simp_all
  let ?s = "if d' then r else l" and ?o = "if d' then l else r"
  have sub: "set (addrs (subtree ?s ds)) \<subseteq> set (addrs ?s)" by (rule addrs_subtree)
  show ?case
  proof (cases "ds = []")
    case True
    then have ab: "a = b" "d = d'" using "3.prems"(1) y by auto
    then have "agree (set (addrs ?o)) h h'"
      by (intro agree_subset [OF "3.prems"(6)]) (use dis y True in auto)
    then have "prep h' (Some b) ?o" using rep by (auto intro: prep_agree)
    moreover have "n = pnode u l x r" using rep(1) "3.prems"(7) ab by simp
    ultimately show ?thesis using "3.prems"(8,9) True ab y by (cases d') simp_all
  next
    case False
    then have pl: "place (Some b) d' ?s ds = (Some a, d)" "in_tree ?s ds" using "3.prems"(1,3) y by simp_all
    then have a: "a \<in> set (addrs ?s)" using place_in False by blast
    have bs: "agree (set (addrs ?o)) h h'" "agree {b} h h'" "agree (set (addrs ?s) - set (addrs (subtree ?s ds)) - {a}) h h'"
      by (rule agree_subset [OF "3.prems"(6)], use dis a sub y in \<open>auto split: if_splits\<close>)+
    then have hb: "h' b = h b" by (simp add: agree_def)
    have "prep h' (Some b) (put_at ?s ds s)"
      by (rule "3.IH" [OF pl(1) False pl(2) _ _ bs(3) "3.prems"(7)])
        (use dis rep "3.prems"(8,9) in auto)
    moreover have "apex (put_at ?s ds s) = apex ?s" by (rule apex_put [OF False pl(2)])
    ultimately show ?thesis
      using rep hb bs(1) y by (auto simp: eq_pnode intro: prep_agree)
  qed
qed auto

text \<open>
  A whole tree: the root pointer leads to it, its parent pointer is null, and no node occurs twice.
\<close>

definition planted :: "'a pbst_heap \<Rightarrow> 'a pbst_table \<Rightarrow> 'a ghost \<Rightarrow> bool" where
  "planted h tree t \<longleftrightarrow> pbst_root tree = apex t \<and> prep h None t \<and> distinct (addrs t)"

lemma plantedD:
  "planted h tree t \<Longrightarrow> pbst_root tree = apex t" "planted h tree t \<Longrightarrow> prep h None t"
  "planted h tree t \<Longrightarrow> distinct (addrs t)" "planted h tree t \<Longrightarrow> lrep h t"
  by (auto simp: planted_def intro: prep_lrep)

text \<open>What an assignment to the link of a place does.\<close>

lemma planted_put:
  assumes "planted h tree t" "in_tree t p" "place None False t p = (q, d)"
    and "agree (set (addrs t) - set (addrs (subtree t p)) - set_option q) h h'"
    and "prep h' q s" "distinct (addrs (put_at t p s))"
    and "\<And>a n. q = Some a \<Longrightarrow> h a = Some n \<Longrightarrow> h' a = Some (put_link d (apex s) n)"
    and "pbst_root tree' = (if q = None then apex s else pbst_root tree)"
  shows "planted h' tree' (put_at t p s)"
proof (cases q)
  case None
  then have "p = []" using place_root [of None False t p d] assms(2,3) by simp
  then show ?thesis using assms None by (simp add: planted_def)
next
  case (Some a)
  then have "p \<noteq> []" using assms(3) by auto
  have pl: "place None False t p = (Some a, d)" using assms(3) Some by simp
  then obtain n where n: "h a = Some n"
    using place_apex [OF pl \<open>p \<noteq> []\<close> assms(2) plantedD(4) [OF assms(1)]] by blast
  have "prep h' None (put_at t p s)"
    by (rule prep_put [OF pl \<open>p \<noteq> []\<close> assms(2) plantedD(3,2) [OF assms(1)] _ n])
      (use assms(4,5,7) n Some in simp_all)
  then show ?thesis using assms(1,6,8) apex_put [OF \<open>p \<noteq> []\<close> assms(2)] Some by (simp add: planted_def)
qed

end
