(* ===== verification/PBST_Delete.thy ===== *)
theory PBST_Delete
  imports PBST_Rep
begin

text \<open>
  Deletion from a tree with parent pointers: the assignments of \<^verbatim>\<open>pbst_delete\<close> turn the subtree of
  the deleted node into what \<open>bst_unlink\<close> makes of it in a tree without them.
\<close>

declare fun_upd_apply [simp del]

section \<open>The link to the subtree\<close>

text \<open>What an assignment to the link of a place does.\<close>

definition hook ::
  "'a pbst_heap \<Rightarrow> 'a pbst_table \<Rightarrow> addr option \<Rightarrow> bool \<Rightarrow> addr option \<Rightarrow> 'a pbst_heap \<times> 'a pbst_table" where
  "hook h tree q d v =
     (case q of None \<Rightarrow> (h, tree\<lparr>pbst_root := v\<rparr>) | Some b \<Rightarrow> (h(b \<mapsto> put_link d v (the (h b))), tree))"

text \<open>Only the root pointer of a table has changed.\<close>

definition same_table :: "'a pbst_table \<Rightarrow> 'a pbst_table \<Rightarrow> bool" where
  "same_table tree tree' \<longleftrightarrow> pbst_compare tree' = pbst_compare tree \<and> pbst_param tree' = pbst_param tree \<and>
     pbst_count tree' = pbst_count tree"

lemma same_table_simps [simp]: "same_table tree tree" "same_table tree (tree\<lparr>pbst_root := v\<rparr>)"
  by (simp_all add: same_table_def)

lemma same_table_trans: "same_table t1 t2 \<Longrightarrow> same_table t2 t3 \<Longrightarrow> same_table t1 t3"
  by (simp add: same_table_def)

lemma hook_same: "hook h tree q d v = (h', tree') \<Longrightarrow> same_table tree tree'"
  by (auto simp: hook_def split: option.splits)

lemma hook_agree: "hook h tree q d v = (h', tree') \<Longrightarrow> agree (- set_option q) h h'"
  by (auto simp: hook_def agree_upd split: option.splits)

text \<open>The place of a subtree, and the heap while the subtree is being changed.\<close>

lemma place_hook:
  assumes "planted h tree t" "in_tree t p" "place None False t p = (q, d)"
    and "agree (set (addrs t) - set (addrs (subtree t p))) h h1" "hook h1 tree q d v = (h2, tree2)"
  shows "pbst_put h1 tree q d v = pret (h2, tree2)" "pbst_get h2 tree2 q d = pret v"
    "set_option q \<subseteq> set (addrs t) - set (addrs (subtree t p))"
proof -
  have "pbst_put h1 tree q d v = pret (h2, tree2) \<and> pbst_get h2 tree2 q d = pret v \<and>
    set_option q \<subseteq> set (addrs t) - set (addrs (subtree t p))"
  proof (cases q)
    case None
    then have "d = False" using place_root [of None False t p d] assms(2,3) by simp
    then show ?thesis using None assms(5) by (auto simp: pbst_put_def pbst_get_def hook_def)
  next
    case (Some b)
    then have p: "p \<noteq> []" "place None False t p = (Some b, d)" using assms(3) by auto
    have b: "b \<in> set (addrs t)" "b \<notin> set (addrs (subtree t p))"
      using place_in [OF p(2,1) assms(2)] place_outside [OF p(2,1) assms(2) plantedD(3) [OF assms(1)]] by simp_all
    then obtain n where "h b = Some n" using prep_alloc [OF plantedD(2) [OF assms(1)]] by blast
    then have "h1 b = Some n" using agreeD [OF assms(4), of b] b by simp
    then show ?thesis using Some assms(5) b by (auto simp: pbst_put_def pbst_get_def hook_def)
  qed
  then show "pbst_put h1 tree q d v = pret (h2, tree2)" "pbst_get h2 tree2 q d = pret v"
    "set_option q \<subseteq> set (addrs t) - set (addrs (subtree t p))" by simp_all
qed

text \<open>What a removal leaves.\<close>

definition removed ::
  "'a pbst_heap \<Rightarrow> 'a pbst_table \<Rightarrow> 'a ghost \<Rightarrow> bool list \<Rightarrow> addr \<Rightarrow> 'a ghost \<Rightarrow> ('a pbst_heap \<times> 'a pbst_table) prog \<Rightarrow> bool" where
  "removed h tree t p a s m \<longleftrightarrow> (\<exists>h' tree'. m = pret (h', tree') \<and> planted h' tree' (put_at t p s) \<and>
     agree (- set (addrs t) \<union> {a}) h h' \<and> same_table tree tree')"

lemma removed_hook:
  assumes pl: "planted h tree t" and p: "in_tree t p" "place None False t p = (q, d)" "subtree t p = BNode l (a, x) r"
    and h1: "agree (- (set (addrs l) \<union> set (addrs r))) h h1" and hk: "hook h1 tree q d (apex s) = (h2, tree2)"
    and h3: "agree (- (set (addrs l) \<union> set (addrs r))) h2 h3"
    and s: "prep h3 q s" "distinct (addrs s)" "set (addrs s) \<subseteq> set (addrs l) \<union> set (addrs r)"
  shows "removed h tree t p a s (pret (h3, tree2))"
proof -
  have sub: "set (addrs (BNode l (a, x) r)) \<subseteq> set (addrs t)" "distinct (addrs (BNode l (a, x) r))"
    using addrs_subtree [of t p] distinct_subtree [OF plantedD(3) [OF pl], of p] p(3) by simp_all
  have ag: "agree (set (addrs t) - set (addrs (subtree t p))) h h1"
    by (rule agree_subset [OF h1]) (use p(3) in auto)
  note q = place_hook(3) [OF pl p(1,2) ag hk]
  have "planted h3 tree2 (put_at t p s)"
  proof (rule planted_put [OF pl p(1,2)])
    have "agree (- set_option q - (set (addrs l) \<union> set (addrs r))) h h3"
      by (rule agree_trans [OF agree_subset [OF h1] agree_trans [OF agree_subset [OF hook_agree [OF hk]] agree_subset [OF h3]]])
        auto
    then show "agree (set (addrs t) - set (addrs (subtree t p)) - set_option q) h h3"
      by (rule agree_subset) (use p(3) in auto)
    show "distinct (addrs (put_at t p s))"
      using distinct_put [OF p(1) plantedD(3) [OF pl] s(2), of "{}"] s(3) p(3) by auto
    show "pbst_root tree2 = (if q = None then apex s else pbst_root tree)"
      using hk by (auto simp: hook_def split: option.splits)
    fix b n
    assume b: "q = Some b" "h b = Some n"
    then have o: "b \<notin> set (addrs l) \<union> set (addrs r)" using q p(3) by auto
    then have "h1 b = Some n" using agreeD [OF h1, of b] b by simp
    then have "h2 b = Some (put_link d (apex s) n)" using hk b by (auto simp: hook_def)
    then show "h3 b = Some (put_link d (apex s) n)" using agreeD [OF h3, of b] o by simp
  qed (rule s(1))
  moreover have "agree (- set (addrs t) \<union> {a}) h h3"
    by (rule agree_trans [OF agree_subset [OF h1] agree_trans [OF agree_subset [OF hook_agree [OF hk]] agree_subset [OF h3]]])
      (use sub q p(3) in auto)
  ultimately show ?thesis using hook_same [OF hk] by (simp add: removed_def)
qed

text \<open>The subtree in which something is removed.\<close>

lemma removal_setting:
  assumes "planted h tree t" "in_tree t p" "place None False t p = (q, d)" "subtree t p = BNode l (a, x) r"
  shows "h a = Some (pnode q l x r)" "prep h (Some a) l" "prep h (Some a) r"
    "distinct (addrs l)" "distinct (addrs r)" "a \<notin> set (addrs l)" "a \<notin> set (addrs r)"
    "set (addrs l) \<inter> set (addrs r) = {}" "q \<noteq> Some a"
    "\<And>b. q = Some b \<Longrightarrow> b \<notin> set (addrs l) \<and> b \<notin> set (addrs r)"
proof -
  have "prep h q (BNode l (a, x) r)" using prep_subtree [OF plantedD(2) [OF assms(1)], of False p] assms(3,4) by simp
  then show "h a = Some (pnode q l x r)" "prep h (Some a) l" "prep h (Some a) r" by simp_all
  have "distinct (addrs (BNode l (a, x) r))" using distinct_subtree [OF plantedD(3) [OF assms(1)], of p] assms(4) by simp
  then show "distinct (addrs l)" "distinct (addrs r)" "a \<notin> set (addrs l)" "a \<notin> set (addrs r)"
    "set (addrs l) \<inter> set (addrs r) = {}" by auto
  have "set_option q \<subseteq> set (addrs t) - set (addrs (subtree t p))"
    using place_hook(3) [OF assms(1-3) agree_refl] by (cases "hook h tree q d None") blast
  then show "q \<noteq> Some a" "\<And>b. q = Some b \<Longrightarrow> b \<notin> set (addrs l) \<and> b \<notin> set (addrs r)" using assms(4) by auto
qed

section \<open>A node without right child\<close>

lemma pbst_unlink_left_ok:
  assumes "planted h tree t" "in_tree t p" "place None False t p = (q, d)" "subtree t p = BNode l (a, x) BNull"
  shows "removed h tree t p a l (pbst_unlink_left h tree q d (Some a))"
proof -
  note n = removal_setting [OF assms]
  obtain h2 tree2 where hk: "hook h tree q d (apex l) = (h2, tree2)" by fastforce
  note pg = place_hook(1,2) [OF assms(1-3) agree_refl hk]
  have ag: "agree (- set_option q) h h2" by (rule hook_agree [OF hk])
  have a: "h2 a = Some (pnode q l x BNull)" using agreeD [OF ag, of a] n(1,9) by auto
  have "prep h2 (Some a) l" by (rule prep_agree [OF n(2) agree_subset [OF ag]]) (use n(10) in auto)
  then obtain h3 where h3: "adopt h2 (apex l) q = pret h3" "prep h3 q l" "agree (- set_option (apex l)) h2 h3"
    using adopt_ok n(4) by metis
  have "pbst_unlink_left h tree q d (Some a) = pret (h3, tree2)"
    using n(1) pg a h3(1) by (simp add: pbst_unlink_left_def)
  moreover have "agree (- (set (addrs l) \<union> set (addrs (BNull :: 'a ghost)))) h2 h3"
    by (rule agree_subset [OF h3(3)]) (use top_in [of l None] in \<open>auto dest: apex_Some\<close>)
  ultimately show ?thesis using removed_hook [OF assms agree_refl hk _ h3(2) n(4)] by simp
qed

section \<open>A right child without left child\<close>

lemma pbst_unlink_right_ok:
  assumes "planted h tree t" "in_tree t p" "place None False t p = (q, d)"
    and "subtree t p = BNode l (a, x) (BNode BNull (b, y) r)"
  shows "removed h tree t p a (BNode l (b, y) r) (pbst_unlink_right h tree q d (Some a) (Some b))"
proof -
  let ?R = "BNode BNull (b, y) r"
  note n = removal_setting [OF assms]
  have b: "h b = Some (pnode (Some a) BNull y r)" "prep h (Some b) r" "a \<noteq> b" "b \<notin> set (addrs l)" "b \<notin> set (addrs r)"
    "q \<noteq> Some b" "set (addrs l) \<inter> set (addrs r) = {}" "distinct (addrs r)"
    using n by auto
  let ?h1 = "h(b \<mapsto> pnode (Some a) l y r)"
  have ag1: "agree (- (set (addrs l) \<union> set (addrs ?R))) h ?h1" by (simp add: agree_upd)
  obtain h2 tree2 where hk: "hook ?h1 tree q d (apex (BNode l (b, y) r)) = (h2, tree2)" by fastforce
  have "agree (set (addrs t) - set (addrs (subtree t p))) h ?h1" by (rule agree_subset [OF ag1]) (use assms(4) in auto)
  note pg = place_hook(1,2) [OF assms(1-3) this hk]
  have ag: "agree (- set_option q) ?h1 h2" by (rule hook_agree [OF hk])
  have a: "h2 a = Some (pnode q l x ?R)" "h2 b = Some (pnode (Some a) l y r)"
    using agreeD [OF ag, of a] agreeD [OF ag, of b] n(1,9) b by auto
  let ?h3 = "h2(b \<mapsto> pnode q l y r)"
  have "prep h2 (Some a) l" "prep h2 (Some b) r"
    by (rule prep_agree [OF _ agree_subset [OF ag]]; use n b in auto)+
  then have lr: "prep ?h3 (Some a) l" "prep ?h3 (Some b) r" using b by simp_all
  obtain h4 where h4: "adopt ?h3 (apex l) (Some b) = pret h4" "prep h4 (Some b) l" "agree (- set_option (apex l)) ?h3 h4"
    using adopt_ok lr(1) n(4) by metis
  have tl: "set_option (apex l) \<subseteq> set (addrs l)" using top_in [of l None] by (cases l) auto
  have "agree (insert b (set (addrs r))) ?h3 h4" by (rule agree_subset [OF h4(3)]) (use tl b in auto)
  then have "prep h4 q (BNode l (b, y) r)" using h4(2) lr(2) by (auto simp: agree_def intro: prep_agree)
  moreover have "pbst_unlink_right h tree q d (Some a) (Some b) = pret (h4, tree2)"
    using n(1) b pg a h4(1) by (simp add: pbst_unlink_right_def)
  moreover have "agree (- (set (addrs l) \<union> set (addrs ?R))) h2 h4"
  proof -
    have "agree (- (set (addrs l) \<union> set (addrs ?R))) h2 ?h3" by (simp add: agree_upd)
    moreover have "agree (- (set (addrs l) \<union> set (addrs ?R))) ?h3 h4" by (rule agree_subset [OF h4(3)]) (use tl in auto)
    ultimately show ?thesis by (rule agree_trans)
  qed
  moreover have "distinct (addrs (BNode l (b, y) r))" "set (addrs (BNode l (b, y) r)) \<subseteq> set (addrs l) \<union> set (addrs ?R)"
    using n(4) b by auto
  ultimately show ?thesis using removed_hook [OF assms ag1 hk] by simp
qed

section \<open>The inorder successor\<close>

text \<open>
  The successor \<open>s\<close> below \<open>r\<close>, with its right subtree \<open>v\<close>.  Once the left link of \<open>r\<close> leads to \<open>v\<close> and the
  parent pointer of \<open>v\<close> to \<open>r\<close>, what was the right subtree is that subtree without \<open>s\<close>.
\<close>

lemma pbst_successor_ok:
  assumes "prep h u (BNode (BNode sl sy sr) ry rr)" "distinct (addrs (BNode (BNode sl sy sr) ry rr))"
    and "bst_min sl sy sr ry rr = ((s, y), t')"
  shows "\<exists>r n v. tip False (BNode sl sy sr) = Some s \<and> h s = Some (pnode (Some r) BNull y v) \<and> h r = Some n \<and>
    r \<in> set (addrs t') \<and> set (addrs v) \<subseteq> set (addrs t') - {r} \<and> prep h (Some s) v \<and> apex t' = Some (fst ry) \<and>
    fst ry \<notin> set (addrs v) \<and> distinct (addrs v) \<and>
    (\<forall>h'. agree (set (addrs t') - set (addrs v) - {r}) h h' \<longrightarrow> h' r = Some (put_link False (apex v) n) \<longrightarrow> prep h' (Some r) v \<longrightarrow>
       prep h' u t')"
  using assms
proof (induction sl sy sr ry rr arbitrary: u t' rule: bst_min.induct)
  case (1 sy sr ry rr)
  obtain a x b z where y: "sy = (a, x)" "ry = (b, z)" by fastforce
  have t': "s = a" "y = x" "t' = BNode sr (b, z) rr" using "1.prems"(3) y by simp_all
  have n: "h b = Some (pnode u (BNode BNull (a, x) sr) z rr)" "h a = Some (pnode (Some b) BNull x sr)"
    "prep h (Some a) sr" "prep h (Some b) rr" using "1.prems"(1) y by simp_all
  have dis: "b \<notin> set (addrs sr)" "b \<notin> set (addrs rr)" "set (addrs sr) \<inter> set (addrs rr) = {}" "distinct (addrs sr)" using "1.prems"(2) y by auto
  have "prep h' u t'" if h': "agree (set (addrs t') - set (addrs sr) - {b}) h h'" "prep h' (Some b) sr"
    "h' b = Some (put_link False (apex sr) (pnode u (BNode BNull (a, x) sr) z rr))" for h'
  proof -
    have "agree (set (addrs rr)) h h'" by (rule agree_subset [OF h'(1)]) (use t' dis in auto)
    then show ?thesis using n h' t' by (auto intro: prep_agree)
  qed
  moreover have "set (addrs sr) \<subseteq> set (addrs t') - {b}" using dis t' by auto
  ultimately show ?case using n t' y dis
    by (intro exI [of _ b] exI [of _ "pnode u (BNode BNull (a, x) sr) z rr"] exI [of _ sr]) simp
next
  case (2 ul uy ur sy sr ry rr)
  let ?l = "BNode (BNode ul uy ur) sy sr"
  obtain a x b z where y: "sy = (a, x)" "ry = (b, z)" by fastforce
  obtain t1 where t1: "bst_min ul uy ur sy sr = ((s, y), t1)" "t' = BNode t1 ry rr"
    using "2.prems"(3) by (auto split: prod.splits)
  have n: "h b = Some (pnode u ?l z rr)" "prep h (Some b) ?l" "prep h (Some b) rr" using "2.prems"(1) y(2) by simp_all
  have dis: "distinct (addrs ?l)" "b \<notin> set (addrs ?l)" "b \<notin> set (addrs rr)" "set (addrs ?l) \<inter> set (addrs rr) = {}"
    using "2.prems"(2) unfolding y(2) addrs_simps(2) [of ?l b z rr] by (auto simp del: addrs_simps)
  obtain r m v where ih: "tip False (BNode ul uy ur) = Some s" "h s = Some (pnode (Some r) BNull y v)" "h r = Some m"
    "r \<in> set (addrs t1)" "set (addrs v) \<subseteq> set (addrs t1) - {r}" "prep h (Some s) v" "apex t1 = Some a" "distinct (addrs v)"
    "\<And>h'. agree (set (addrs t1) - set (addrs v) - {r}) h h' \<Longrightarrow> h' r = Some (put_link False (apex v) m) \<Longrightarrow> prep h' (Some r) v \<Longrightarrow>
       prep h' (Some b) t1"
    using "2.IH" [OF n(2) dis(1) t1(1)] y(1) by auto
  have sub: "set (addrs t1) \<subseteq> set (addrs ?l)" using addrs_min [OF t1(1)] by (metis set_subset_Cons)
  then have rb: "r \<noteq> b" "b \<notin> set (addrs v)" "set (addrs t1) \<inter> set (addrs rr) = {}" "b \<notin> set (addrs t1)"
    using ih(4,5) dis by auto
  have "prep h' u t'" if h': "agree (set (addrs t') - set (addrs v) - {r}) h h'" "h' r = Some (put_link False (apex v) m)"
    "prep h' (Some r) v" for h'
  proof -
    have ag: "agree (set (addrs t1) - set (addrs v) - {r}) h h'" "agree (set (addrs rr)) h h'" "agree {b} h h'"
      by (rule agree_subset [OF h'(1)]; use t1 y rb ih(4,5) in auto)+
    have "prep h' (Some b) t1" by (rule ih(9) [OF ag(1) h'(2,3)])
    moreover have "pnode u ?l z rr = pnode u t1 z rr" by (rule pnode_cong) (use ih(7) y in simp_all)
    ultimately show ?thesis using n ag t1 y by (auto simp: agree_def intro: prep_agree)
  qed
  then show ?case using ih(1-6,8) t1 y rb(2)
    by (intro exI [of _ r] exI [of _ m] exI [of _ v]) auto
qed

lemma prep_reparent:
  assumes "prep h u t" "apex t = Some c" "h c = Some n" "distinct (addrs t)"
  shows "prep (h(c \<mapsto> put_parent w n)) w t"
proof -
  obtain l x r where "t = BNode l (c, x) r" using apex_Some [OF assms(2)] by blast
  then show ?thesis using assms by simp
qed

lemma pbst_unlink_successor_ok:
  assumes pl: "planted h tree t" and p: "in_tree t p" "place None False t p = (q, d)"
    "subtree t p = BNode l (a, x) (BNode (BNode sl sy sr) ry rr)" and mn: "bst_min sl sy sr ry rr = ((s, y), R')"
  shows "removed h tree t p a (BNode l (s, y) R') (pbst_unlink_successor h tree q d (Some a) (Some (fst ry)))"
proof -
  let ?R = "BNode (BNode sl sy sr) ry rr" and ?c = "fst ry"
  note n = removal_setting [OF pl p]
  obtain r m v where suc: "tip False (BNode sl sy sr) = Some s" "h s = Some (pnode (Some r) BNull y v)" "h r = Some m"
    "r \<in> set (addrs R')" "set (addrs v) \<subseteq> set (addrs R') - {r}" "prep h (Some s) v" "apex R' = Some ?c" "?c \<notin> set (addrs v)"
    "distinct (addrs v)" "\<And>h'. agree (set (addrs R') - set (addrs v) - {r}) h h' \<Longrightarrow> h' r = Some (put_link False (apex v) m) \<Longrightarrow> prep h' (Some r) v \<Longrightarrow>
       prep h' (Some a) R'"
    using pbst_successor_ok [OF n(3,5) mn] by blast
  have ar: "addrs ?R = s # addrs R'" using addrs_min [OF mn] by simp
  then have ds: "s \<notin> set (addrs R')" "s \<notin> set (addrs l)" "a \<noteq> s" "a \<notin> set (addrs R')" "distinct (addrs R')"
    "set (addrs l) \<inter> set (addrs R') = {}" "q \<noteq> Some s" "r \<noteq> s" "r \<noteq> a" "r \<notin> set (addrs l)" "q \<noteq> Some r"
    using n(4-) suc(4) unfolding ar by auto
  have cR: "?c \<in> set (addrs R')" using apex_Some [OF suc(7)] by auto
  then have c: "?c \<noteq> s" "?c \<noteq> a" "?c \<notin> set (addrs l)" "q \<noteq> Some ?c" using ds n(10) ar by auto
  have vR: "s \<notin> set (addrs v)" "a \<notin> set (addrs v)" "r \<notin> set (addrs v)" "set (addrs l) \<inter> set (addrs v) = {}"
    using suc(5) ds by auto
  have rl: "link_of h (Some ?c) False = pret (apex (BNode sl sy sr))" "pbst_descend h False (apex (BNode sl sy sr)) = pret (Some s)"
    using n(3) suc(1) pbst_descend_tip [of h "BNode sl sy sr" False] prep_lrep by (cases ry; auto)+
  let ?h1 = "h(r \<mapsto> put_link False (apex v) m, s \<mapsto> pnode (Some r) l y R')"
  have ag1: "agree (- {r, s}) h ?h1" by (simp add: agree_upd)
  obtain h2 tree2 where hk: "hook ?h1 tree q d (Some s) = (h2, tree2)" by fastforce
  have "agree (set (addrs t) - set (addrs (subtree t p))) h ?h1"
    by (rule agree_subset [OF ag1]) (use p(3) ar suc(4) in auto)
  note pg = place_hook(1,2) [OF pl p(1,2) this hk]
  have ag2: "agree (- set_option q) ?h1 h2" by (rule hook_agree [OF hk])
  have "apex ?R = Some ?c" by (cases ry) simp
  then have "put_link True (apex ?R) (put_link False (apex l) (pnode (Some r) BNull y v)) = pnode (Some r) l y R'"
    using suc(7) by (simp add: eq_pnode)
  then have rs: "pbst_relink_successor h tree q d (Some a) (Some r) (Some s) = pret (h2, tree2)"
    using suc(2,3) n(1) ds pg(1) by (simp add: pbst_relink_successor_def)
  have at2: "h2 s = Some (pnode (Some r) l y R')" "h2 a = Some (pnode q l x ?R)" "h2 r = Some (put_link False (apex v) m)"
    using agreeD [OF ag2, of s] agreeD [OF ag2, of a] agreeD [OF ag2, of r] n(1,9) ds by auto
  have "agree (- {r, s} - set_option q) h h2"
    by (rule agree_trans [OF agree_subset [OF ag1] agree_subset [OF ag2]]) auto
  then have ag: "agree (set (addrs l)) h h2" "agree (set (addrs v)) h h2" "agree (set (addrs R') - {r}) h h2"
    by (rule agree_subset; use n(10) ds vR suc(5) ar in auto)+
  have "prep h2 (Some a) l" "prep h2 (Some s) v" using n(2) suc(6) ag prep_agree by blast+
  obtain h3 where h3: "adopt h2 (apex l) (Some s) = pret h3" "prep h3 (Some s) l" "agree (- set_option (apex l)) h2 h3"
    using adopt_ok [OF \<open>prep h2 (Some a) l\<close> n(4)] by metis
  have tl: "set_option (apex l) \<subseteq> set (addrs l)" using top_in [of l None] by (cases l) auto
  have "agree ({s, a, r} \<union> set (addrs R')) h2 h3" by (rule agree_subset [OF h3(3)]) (use tl ds n(6) in auto)
  then have ag3: "agree (set (addrs R')) h2 h3" "h3 s = h2 s" "h3 a = h2 a" "h3 r = h2 r" by (simp_all add: agree_def)
  have "h ?c \<noteq> None" using n(3) by (cases ry) simp
  moreover have "h2 ?c = h ?c" if "?c \<noteq> r" using agreeD [OF ag(3), of ?c] cR that by simp
  ultimately have "h2 ?c \<noteq> None" using at2(3) by (cases "?c = r") auto
  then obtain k where k: "h3 ?c = Some k" using agreeD [OF ag3(1) cR] by auto
  let ?h5 = "h3(?c \<mapsto> put_parent (Some s) k, s \<mapsto> pnode q l y R')"
  have "prep h3 (Some s) v" using \<open>prep h2 (Some s) v\<close> prep_agree agree_subset [OF ag3(1), of "set (addrs v)"] suc(5) by blast
  then have v5: "prep ?h5 (Some s) v" using vR suc(8) by simp
  obtain h6 where h6: "adopt ?h5 (apex v) (Some r) = pret h6" "prep h6 (Some r) v" "agree (- set_option (apex v)) ?h5 h6"
    using adopt_ok [OF v5 suc(9)] by metis
  have tv: "set_option (apex v) \<subseteq> set (addrs v)" using top_in [of v None] by (cases v) auto
  have k2: "h2 ?c = Some k" using k agreeD [OF ag3(1) cR] by simp
  have at5: "?h5 r = Some (if r = ?c then put_parent (Some s) k else put_link False (apex v) m)"
    "r = ?c \<Longrightarrow> k = put_link False (apex v) m"
    using at2(3) ag3(4) k2 ds(8) by (simp_all add: fun_upd_apply)
  let ?g = "h6(?c \<mapsto> k)"
  have o6: "h6 e = ?h5 e" if "e \<notin> set (addrs v)" for e using agreeD [OF h6(3), of e] tv that by auto
  have "agree (set (addrs R') - set (addrs v) - {r}) h ?g" unfolding agree_def
  proof
    fix e
    assume e: "e \<in> set (addrs R') - set (addrs v) - {r}"
    then have h2e: "h2 e = h e" "h3 e = h2 e" "e \<noteq> s" using agreeD [OF ag(3)] agreeD [OF ag3(1)] ds(1) by auto
    show "?g e = h e"
    proof (cases "e = ?c")
      case True
      then show ?thesis using k2 h2e(1) by simp
    next
      case False
      then show ?thesis using o6 [of e] e h2e by simp
    qed
  qed
  moreover have "?g r = Some (put_link False (apex v) m)"
    using at5 o6 [of r] vR(3) by (cases "r = ?c") simp_all
  moreover have "prep ?g (Some r) v" using h6(2) suc(8) by simp
  ultimately have "prep ?g (Some a) R'" by (rule suc(10))
  from prep_reparent [OF this suc(7) fun_upd_same ds(5), of "Some s"]
  have "prep (h6(?c \<mapsto> put_parent (Some s) k)) (Some s) R'" by simp
  moreover have "h6 ?c = Some (put_parent (Some s) k)" using o6 [OF suc(8)] c(1) by simp
  ultimately have R6: "prep h6 (Some s) R'" by (simp add: fun_upd_idem)
  have "agree (set (addrs l)) h3 h6" unfolding agree_def
  proof
    fix e
    assume e: "e \<in> set (addrs l)"
    then have "e \<notin> set (addrs v)" "e \<noteq> ?c" "e \<noteq> s" using vR(4) c(3) ds(2) by auto
    then show "h6 e = h3 e" using o6 [of e] by simp
  qed
  then have l6: "prep h6 (Some s) l" by (rule prep_agree [OF h3(2)])
  have "h6 s = Some (pnode q l y R')" using o6 [OF vR(1)] by simp
  then have rep6: "prep h6 q (BNode l (s, y) R')" using l6 R6 by simp
  have lk: "link_of ?h5 (Some r) False = pret (apex v)" using at5 by (cases "r = ?c") simp_all
  have run: "pbst_unlink_successor h tree q d (Some a) (Some ?c) = pret (h6, tree2)"
    using rl suc(2) rs at2(1,2) h3(1) ag3(2,3) k c ds(3) h6(1) lk suc(7)
    by (simp add: pbst_unlink_successor_def)
  have "agree (- (set (addrs l) \<union> set (addrs ?R))) h2 h6" unfolding agree_def
  proof
    fix e
    assume "e \<in> - (set (addrs l) \<union> set (addrs ?R))"
    then have e: "e \<notin> set (addrs l)" "e \<noteq> s" "e \<notin> set (addrs R')" "e \<notin> set (addrs v)" "e \<noteq> ?c" using ar suc(5) cR by auto
    then show "h6 e = h2 e" using o6 [of e] agreeD [OF h3(3), of e] tl by auto
  qed
  moreover have "agree (- (set (addrs l) \<union> set (addrs ?R))) h ?h1"
    by (rule agree_subset [OF ag1]) (use ar suc(4) in auto)
  moreover have "distinct (addrs (BNode l (s, y) R'))" "set (addrs (BNode l (s, y) R')) \<subseteq> set (addrs l) \<union> set (addrs ?R)"
    using n(4) ds ar by auto
  moreover have "hook ?h1 tree q d (apex (BNode l (s, y) R')) = (h2, tree2)" using hk by simp
  ultimately show ?thesis unfolding run using removed_hook [OF pl p _ _ _ rep6] by blast
qed

lemma pbst_unlink_ok:
  assumes "planted h tree t" "in_tree t p" "place None False t p = (q, d)" "subtree t p = BNode l (a, x) r"
  shows "removed h tree t p a (bst_unlink (BNode l (a, x) r)) (pbst_unlink h tree q d (Some a))"
proof -
  note n = removal_setting(1,3) [OF assms]
  consider "r = BNull" | b y r1 where "r = BNode BNull (b, y) r1"
    | sl sy sr ry rr where "r = BNode (BNode sl sy sr) ry rr"
    by (metis bst_node.exhaust surj_pair)
  then show ?thesis
  proof cases
    case 1
    then show ?thesis using pbst_unlink_left_ok [OF assms(1-3)] assms(4) n by (simp add: pbst_unlink_def)
  next
    case 2
    then show ?thesis using pbst_unlink_right_ok [OF assms(1-3)] assms(4) n by (simp add: pbst_unlink_def)
  next
    case 3
    obtain m r' where m: "bst_min sl sy sr ry rr = (m, r')" by fastforce
    obtain b y c z where ry: "ry = (b, y)" "sy = (c, z)" by fastforce
    have "removed h tree t p a (BNode l m r') (pbst_unlink_successor h tree q d (Some a) (Some b))"
      using pbst_unlink_successor_ok [OF assms(1-3)] assms(4) 3 m ry by (metis fst_conv surj_pair)
    then show ?thesis using 3 n ry m by (simp add: pbst_unlink_def)
  qed
qed

section \<open>The search\<close>

declare pbst_find_loop.simps [simp del] pbst_probe_loop.simps [simp del] pbst_delete_loop.simps [simp del]

text \<open>The comparison function of a table, with its parameter.\<close>

definition pbst_order :: "'a pbst_table \<Rightarrow> 'a \<Rightarrow> 'a \<Rightarrow> int" where
  "pbst_order tree = (\<lambda>x y. pbst_compare tree x y (pbst_param tree))"

lemma pbst_cmp_pnode [simp]: "pbst_cmp tree item (pnode u l (Some x) r) = pret (pbst_order tree item x)"
  by (simp add: pbst_cmp_def pbst_order_def)

lemma same_table_order: "same_table tree tree' \<Longrightarrow> pbst_order tree' = pbst_order tree"
  by (simp add: same_table_def pbst_order_def)

lemma pbst_find_loop_ok:
  "lrep h t \<Longrightarrow> filled t \<Longrightarrow>
     pbst_find_loop h tree item (apex t) = pret (apex (subtree t (path_to (pbst_order tree) item t)))"
proof (induction t)
  case BNull
  then show ?case by (simp add: pbst_find_loop.simps [of _ _ _ None])
next
  case (BNode l y r)
  obtain a x where y: "y = (a, Some x)" using BNode.prems(2) by (cases y) auto
  obtain u where n: "h a = Some (pnode u l (Some x) r)" "lrep h l" "lrep h r" "filled l" "filled r"
    using BNode.prems y by auto
  then show ?case using y BNode.IH by (subst pbst_find_loop.simps) (simp add: Let_def)
qed

lemma pbst_probe_loop_ok:
  "lrep h t \<Longrightarrow> filled t \<Longrightarrow> p = path_to (pbst_order tree) item t \<Longrightarrow>
     pbst_probe_loop h tree item q e (apex t) = pret (fst (place q e t p), snd (place q e t p), apex (subtree t p))"
proof (induction t arbitrary: q e p)
  case BNull
  then show ?case by (simp add: pbst_probe_loop.simps [of _ _ _ _ _ None])
next
  case (BNode l y r)
  obtain a x where y: "y = (a, Some x)" using BNode.prems(2) by (cases y) auto
  obtain u where n: "h a = Some (pnode u l (Some x) r)" "lrep h l" "lrep h r" "filled l" "filled r"
    using BNode.prems y by auto
  show ?case using n y BNode.IH(1) [OF n(2,4) refl] BNode.IH(2) [OF n(3,5) refl] BNode.prems(3)
    by (subst pbst_probe_loop.simps) (simp add: Let_def)
qed

lemma pbst_delete_loop_ok:
  "lrep h t \<Longrightarrow> filled t \<Longrightarrow> t \<noteq> BNull \<Longrightarrow> p = path_to (pbst_order tree) item t \<Longrightarrow>
     pbst_delete_loop h tree item e (apex t) =
       pret (if subtree t p = BNull then None else Some (snd (place q e t p), apex (subtree t p)))"
proof (induction t arbitrary: q e p)
  case (BNode l y r)
  obtain a x where y: "y = (a, Some x)" using BNode.prems(2) by (cases y) auto
  obtain u where n: "h a = Some (pnode u l (Some x) r)" "lrep h l" "lrep h r" "filled l" "filled r"
    using BNode.prems y by auto
  let ?c = "pbst_order tree item x > 0"
  let ?s = "if ?c then r else l"
  let ?p = "path_to (pbst_order tree) item ?s"
  have p: "p = (if pbst_order tree item x = 0 then [] else ?c # ?p)" using BNode.prems(4) y by (simp add: Let_def)
  have "pbst_delete_loop h tree item e (Some a) =
      (if pbst_order tree item x = 0 then pret (Some (e, Some a))
       else if ?s = BNull then pret None
       else pret (if subtree ?s ?p = BNull then None else Some (snd (place (Some a) ?c ?s ?p), apex (subtree ?s ?p))))"
    using n BNode.IH(1) [OF n(2,4) _ refl, of False "Some a"] BNode.IH(2) [OF n(3,5) _ refl, of True "Some a"]
    by (subst pbst_delete_loop.simps) (cases ?c; simp)
  then show ?case using y p by (cases "pbst_order tree item x = 0"; cases "?s = BNull") simp_all
qed simp

end
