(* ===== verification/PBST_Table.thy ===== *)
theory PBST_Table
  imports PBST_Delete
begin

text \<open>
  Tables with parent pointers: the tree that is read off the heap, validity, and the behaviour of
  search, insertion, replacement and deletion on the sequence of items.
\<close>

declare fun_upd_apply [simp del]

section \<open>The tree on the heap\<close>

fun ptree_of :: "nat \<Rightarrow> 'a pbst_heap \<Rightarrow> addr option \<Rightarrow> 'a ghost" where
  "ptree_of 0 h p = BNull"
| "ptree_of (Suc f) h None = BNull"
| "ptree_of (Suc f) h (Some a) =
     (case h a of
        None \<Rightarrow> BNull
      | Some n \<Rightarrow> BNode (ptree_of f h (pbst_link n False)) (a, pbst_data n) (ptree_of f h (pbst_link n True)))"

lemma ptree_of_null [simp]: "ptree_of f h None = BNull"
  by (cases f) auto

lemma ptree_of_rep: "lrep h t \<Longrightarrow> length (addrs t) \<le> f \<Longrightarrow> ptree_of f h (apex t) = t"
proof (induction t arbitrary: f)
  case (BNode l y r)
  obtain a x where y: "y = (a, x)" by fastforce
  then obtain k where "f = Suc k" "length (addrs l) \<le> k" "length (addrs r) \<le> k"
    using BNode.prems(2) by (cases f) auto
  then show ?case using BNode y by auto
qed simp

definition pbst_tree :: "'a pbst_heap \<Rightarrow> 'a pbst_table \<Rightarrow> 'a ghost" where
  "pbst_tree h tree = ptree_of (unat (pbst_count tree)) h (pbst_root tree)"

text \<open>Addresses and data in order, and the items.\<close>

definition pbst_pairs :: "'a pbst_heap \<Rightarrow> 'a pbst_table \<Rightarrow> (addr \<times> 'a option) list" where
  "pbst_pairs h tree = bst_inorder (pbst_tree h tree)"

definition pbst_nodes :: "'a pbst_heap \<Rightarrow> 'a pbst_table \<Rightarrow> addr list" where
  "pbst_nodes h tree = addrs (pbst_tree h tree)"

definition pbst_items :: "'a pbst_heap \<Rightarrow> 'a pbst_table \<Rightarrow> 'a list" where
  "pbst_items h tree = datas (pbst_tree h tree)"

definition pbst_for :: "('a \<Rightarrow> 'a \<Rightarrow> int) \<Rightarrow> 'a pbst_heap \<Rightarrow> 'a pbst_table \<Rightarrow> bool" where
  "pbst_for cmp h tree \<longleftrightarrow> planted h tree (pbst_tree h tree) \<and> filled (pbst_tree h tree) \<and>
     length (pbst_items h tree) = unat (pbst_count tree) \<and> pbst_order tree = cmp \<and> ordered cmp (pbst_items h tree)"

lemma pbst_tree_planted:
  assumes "planted h tree t" "length (datas t) \<le> unat (pbst_count tree)"
  shows "pbst_tree h tree = t"
  using assms ptree_of_rep [OF plantedD(4) [OF assms(1)]] by (simp add: pbst_tree_def planted_def)

lemma pbst_forI:
  assumes "planted h tree t" "filled t" "length (datas t) = unat (pbst_count tree)"
    and "pbst_order tree = cmp" "ordered cmp (datas t)"
  shows "pbst_for cmp h tree" "pbst_tree h tree = t" "pbst_items h tree = datas t"
  using assms pbst_tree_planted [OF assms(1)] by (simp_all add: pbst_for_def pbst_items_def)

lemma pbst_forD:
  assumes "pbst_for cmp h tree"
  shows "planted h tree (pbst_tree h tree)" "filled (pbst_tree h tree)" "pbst_order tree = cmp"
    "length (datas (pbst_tree h tree)) = unat (pbst_count tree)" "ordered cmp (datas (pbst_tree h tree))"
    "lrep h (pbst_tree h tree)" "pbst_root tree = apex (pbst_tree h tree)"
  using assms plantedD(1,4) by (auto simp: pbst_for_def pbst_items_def)

lemma planted_alloc: "planted h tree t \<Longrightarrow> a \<in> set (addrs t) \<Longrightarrow> h a \<noteq> None"
  by (auto simp: planted_def dest: prep_alloc)

section \<open>Insertion\<close>

lemma pbst_attach_ok:
  assumes "planted h tree t" "in_tree t p" "place None False t p = (q, d)" "subtree t p = BNull" "h a = None"
  shows "\<exists>h' tree' n. pbst_attach h tree item q d a = pret (h', tree') \<and>
    planted h' tree' (put_at t p (BNode BNull (a, Some item) BNull)) \<and> agree (- insert a (set (addrs t))) h h' \<and>
    h' a = Some n \<and> pbst_data n = Some item \<and> pbst_order tree' = pbst_order tree \<and> pbst_count tree' = pbst_count tree + 1"
proof -
  let ?s = "BNode BNull (a, Some item) BNull" and ?n = "pnode q BNull (Some item) BNull"
  let ?h = "h(a \<mapsto> ?n)" and ?t = "tree\<lparr>pbst_count := pbst_count tree + 1\<rparr>"
  have a: "a \<notin> set (addrs t)" using planted_alloc [OF assms(1)] assms(5) by blast
  have dis: "distinct (addrs (put_at t p ?s))"
    by (rule distinct_put [OF assms(2) plantedD(3) [OF assms(1)], of _ "{a}"]) (use a in auto)
  have n: "\<lparr>pbst_link = (\<lambda>d. None), pbst_parent = q, pbst_data = Some item\<rparr> = ?n" by (simp add: eq_pnode)
  obtain h2 tree2 where hk: "hook ?h ?t q d (Some a) = (h2, tree2)" by fastforce
  have ag: "agree (- {a}) h ?h" "agree (- set_option q) ?h h2" using hook_agree [OF hk] by (simp_all add: agree_upd)
  have q: "set_option q \<subseteq> set (addrs t)"
    using place_hook(3) [OF assms(1-3) agree_refl] by (cases "hook h tree q d None") blast
  have run: "pbst_attach h tree item q d a = pret (h2, tree2)"
  proof (cases q)
    case None
    then show ?thesis using hk n by (simp add: pbst_attach_def hook_def Let_def)
  next
    case (Some b)
    then have "b \<in> set (addrs t)" using q by simp
    then have b: "b \<noteq> a" "h b \<noteq> None" using a planted_alloc [OF assms(1)] by auto
    then show ?thesis using hk n Some by (auto simp: pbst_attach_def hook_def Let_def)
  qed
  have na: "h2 a = Some ?n" using agreeD [OF ag(2), of a] q a by auto
  have "planted h2 tree2 (put_at t p ?s)"
  proof (rule planted_put [OF assms(1-3)])
    have "agree (set (addrs t) - set_option q) h ?h" by (rule agree_subset [OF ag(1)]) (use a in auto)
    then have "agree (set (addrs t) - set_option q) h h2" by (rule agree_trans) (rule agree_subset [OF ag(2)], auto)
    then show "agree (set (addrs t) - set (addrs (subtree t p)) - set_option q) h h2" by (rule agree_subset) auto
    show "prep h2 q ?s" using na by simp
    show "pbst_root tree2 = (if q = None then apex ?s else pbst_root tree)"
      using hk by (auto simp: hook_def split: option.splits)
    fix b n
    assume b: "q = Some b" "h b = Some n"
    then have "b \<noteq> a" using q a by auto
    then show "h2 b = Some (put_link d (apex ?s) n)" using hk b by (auto simp: hook_def)
  qed (rule dis)
  moreover have "agree (- insert a (set (addrs t))) h h2"
    by (rule agree_trans [OF agree_subset [OF ag(1)] agree_subset [OF ag(2)]]) (use q in auto)
  moreover have "pbst_order tree2 = pbst_order tree" "pbst_count tree2 = pbst_count tree + 1"
    using hook_same [OF hk] by (simp_all add: same_table_def pbst_order_def)
  ultimately show ?thesis using run na by simp
qed

lemma pbst_probe_new:
  assumes "keyed key cmp" "pbst_for cmp h tree" "list_find cmp item (pbst_items h tree) = None"
    and "malloc h = Some a" "h a = None" "Suc (length (pbst_items h tree)) < 2 ^ 64"
  shows "\<exists>h' tree' n. pbst_probe malloc h tree item = pret (Some a, h', tree') \<and> pbst_for cmp h' tree' \<and>
    pbst_items h' tree' = list_insert cmp item (pbst_items h tree) \<and>
    (\<exists>xs ys. pbst_pairs h tree = xs @ ys \<and> pbst_pairs h' tree' = xs @ (a, Some item) # ys) \<and>
    agree (- insert a (set (pbst_nodes h tree))) h h' \<and> h' a = Some n \<and> pbst_data n = Some item"
proof -
  let ?t = "pbst_tree h tree" and ?s = "BNode BNull (a, Some item) BNull"
  note f = pbst_forD [OF assms(2)]
  have none: "list_find cmp item (datas ?t) = None" using assms(3) by (simp add: pbst_items_def)
  show ?thesis
  proof (cases rule: ghost_locate_cases [OF assms(1) f(2,5), where item = item])
    case (1 p xs ys)
    obtain q d where q: "place None False ?t p = (q, d)" by fastforce
    obtain h' tree' n where at: "pbst_attach h tree item q d a = pret (h', tree')" "planted h' tree' (put_at ?t p ?s)"
      "agree (- insert a (set (addrs ?t))) h h'" "h' a = Some n" "pbst_data n = Some item"
      "pbst_order tree' = pbst_order tree" "pbst_count tree' = pbst_count tree + 1"
      using pbst_attach_ok [OF f(1) 1(2) q 1(3) assms(5), of item] by blast
    have "pbst_probe malloc h tree item = pret (Some a, h', tree')"
      using pbst_probe_loop_ok [OF f(6,2), of p tree item None False] 1(1,3) q f(3,7) assms(4) at(1)
      by (simp add: pbst_probe_def)
    moreover have i: "datas (put_at ?t p ?s) = list_insert cmp item (pbst_items h tree)"
      using inorder_put [OF 1(2), of ?s] 1 by (simp add: datas_def pbst_items_def)
    moreover have ln: "length (list_insert cmp item (pbst_items h tree)) = unat (pbst_count tree')"
      using keyed.length_list_insert [OF assms(1,3)] at(7) f(4) assms(6)
      by (simp add: unat_word_ariths(1) pbst_items_def)
    have "filled (put_at ?t p ?s)" using filled_put [OF 1(2) f(2)] by simp
    then have v: "pbst_for cmp h' tree'" "pbst_tree h' tree' = put_at ?t p ?s" "pbst_items h' tree' = datas (put_at ?t p ?s)"
      using pbst_forI [OF at(2), of cmp] i ln at(6) f(3,5) keyed.ordered_list_insert [OF assms(1)]
      by (auto simp: pbst_items_def)
    have "pbst_pairs h tree = xs @ ys" "pbst_pairs h' tree' = xs @ (a, Some item) # ys"
      using inorder_put [OF 1(2), of ?s] inorder_split [OF 1(2)] 1(3,4,5) v(2) by (simp_all add: pbst_pairs_def)
    ultimately show ?thesis using v at by (auto simp: pbst_nodes_def)
  qed (use none in simp)
qed

lemma pbst_probe_full:
  assumes "keyed key cmp" "pbst_for cmp h tree" "list_find cmp item (pbst_items h tree) = None" "malloc h = None"
  shows "pbst_probe malloc h tree item = pret (None, h, tree)"
proof -
  note f = pbst_forD [OF assms(2)]
  have none: "list_find cmp item (datas (pbst_tree h tree)) = None" using assms(3) by (simp add: pbst_items_def)
  show ?thesis
  proof (cases rule: ghost_locate_cases [OF assms(1) f(2,5), where item = item])
    case (1 p xs ys)
    then show ?thesis using pbst_probe_loop_ok [OF f(6,2), of p tree item None False] f(3,7) assms(4)
      by (simp add: pbst_probe_def)
  qed (use none in simp)
qed

text \<open>The node with a matching item.\<close>

lemma pbst_stands:
  assumes "pbst_for cmp h tree" "in_tree (pbst_tree h tree) p" "subtree (pbst_tree h tree) p = BNode l (a, x) r"
  shows "\<exists>u. h a = Some (pnode u l x r)" "a \<in> set (pbst_nodes h tree)" "pbst_root tree \<noteq> None"
proof -
  let ?t = "pbst_tree h tree"
  note f = pbst_forD [OF assms(1)]
  show "\<exists>u. h a = Some (pnode u l x r)" using lrep_subtree [OF f(6), of p] assms(3) by simp
  show "a \<in> set (pbst_nodes h tree)" using addrs_subtree [of ?t p] assms(3) by (auto simp: pbst_nodes_def)
  then show "pbst_root tree \<noteq> None" using f(7) by (auto simp: pbst_nodes_def)
qed

lemma pbst_probe_old:
  assumes "keyed key cmp" "pbst_for cmp h tree" "list_find cmp item (pbst_items h tree) = Some d"
  shows "\<exists>p l a r. pbst_probe malloc h tree item = pret (Some a, h, tree) \<and>
    in_tree (pbst_tree h tree) p \<and> subtree (pbst_tree h tree) p = BNode l (a, Some d) r \<and> cmp item d = 0"
proof -
  note f = pbst_forD [OF assms(2)]
  have some: "list_find cmp item (datas (pbst_tree h tree)) = Some d" using assms(3) by (simp add: pbst_items_def)
  show ?thesis
  proof (cases rule: ghost_locate_cases [OF assms(1) f(2,5), where item = item])
    case (2 p l a e r xs ys)
    then have "pbst_probe malloc h tree item = pret (Some a, h, tree)"
      using pbst_probe_loop_ok [OF f(6,2), of p tree item None False] f(3,7) by (simp add: pbst_probe_def)
    moreover have "e = d" using 2(8) some by simp
    ultimately show ?thesis using 2 by blast
  qed (use some in simp)
qed

lemma pbst_data_of_simps [simp]:
  "h a = Some n \<Longrightarrow> pbst_data_of h (Some a) = pret (pbst_data n)" "pbst_data_of h None = pret None"
  by (simp_all add: pbst_data_of_def)

lemma pbst_insert_new:
  assumes "keyed key cmp" "pbst_for cmp h tree" "list_find cmp item (pbst_items h tree) = None"
    and "malloc h = Some a" "h a = None" "Suc (length (pbst_items h tree)) < 2 ^ 64"
  shows "\<exists>h' tree'. pbst_insert malloc h tree item = pret (None, h', tree') \<and>
    pbst_replace malloc h tree item = pret (None, h', tree') \<and> pbst_for cmp h' tree' \<and>
    pbst_items h' tree' = list_insert cmp item (pbst_items h tree) \<and>
    (\<exists>xs ys. pbst_pairs h tree = xs @ ys \<and> pbst_pairs h' tree' = xs @ (a, Some item) # ys) \<and>
    agree (- insert a (set (pbst_nodes h tree))) h h'"
proof -
  obtain h' tree' n where p: "pbst_probe malloc h tree item = pret (Some a, h', tree')" "h' a = Some n" "pbst_data n = Some item"
    "pbst_for cmp h' tree'" "pbst_items h' tree' = list_insert cmp item (pbst_items h tree)"
    "\<exists>xs ys. pbst_pairs h tree = xs @ ys \<and> pbst_pairs h' tree' = xs @ (a, Some item) # ys"
    "agree (- insert a (set (pbst_nodes h tree))) h h'"
    using pbst_probe_new [where malloc = malloc and a = a and item = item and h = h, OF assms] by blast
  then show ?thesis by (simp add: pbst_insert_def pbst_replace_def)
qed

lemma pbst_insert_full:
  assumes "keyed key cmp" "pbst_for cmp h tree" "list_find cmp item (pbst_items h tree) = None" "malloc h = None"
  shows "pbst_insert malloc h tree item = pret (None, h, tree)" "pbst_replace malloc h tree item = pret (None, h, tree)"
  using pbst_probe_full [of key cmp h tree item malloc, OF assms] by (simp_all add: pbst_insert_def pbst_replace_def)

lemma pbst_insert_old:
  assumes "keyed key cmp" "pbst_for cmp h tree" "list_find cmp item (pbst_items h tree) = Some d"
  shows "pbst_insert malloc h tree item = pret (if d = item then None else Some d, h, tree)"
proof -
  obtain p l a r where p: "pbst_probe malloc h tree item = pret (Some a, h, tree)" "in_tree (pbst_tree h tree) p"
    "subtree (pbst_tree h tree) p = BNode l (a, Some d) r"
    using pbst_probe_old [OF assms] by blast
  then obtain u where "h a = Some (pnode u l (Some d) r)" using pbst_stands(1) [OF assms(2) p(2,3)] by auto
  then show ?thesis using p(1) by (simp add: pbst_insert_def)
qed

text \<open>The data of a node is overwritten.\<close>

lemma prep_put_data:
  "prep h u t \<Longrightarrow> distinct (addrs t) \<Longrightarrow> in_tree t p \<Longrightarrow> subtree t p = BNode l (a, x) r \<Longrightarrow> h a = Some n \<Longrightarrow>
     prep (h(a \<mapsto> put_data z n)) u (put_at t p (BNode l (a, z) r))"
proof (induction t p arbitrary: u rule: in_tree.induct)
  case (1 t)
  then show ?case by auto
next
  case (3 k y s d ds)
  obtain b v where y: "y = (b, v)" by fastforce
  let ?s = "if d then s else k"
  have "a \<in> set (addrs ?s)" using addrs_subtree [of ?s ds] "3.prems"(4) by auto
  then have "a \<noteq> b" "b \<noteq> a" "a \<notin> set (addrs (if d then k else s))" using "3.prems"(2) y by (auto split: if_splits)
  moreover have st: "apex (put_at ?s ds (BNode l (a, z) r)) = apex ?s"
    using "3.prems"(3,4) by (cases ds; cases ?s; auto split: prod.splits)
  ultimately show ?case using "3.IH" "3.prems" y by (auto simp: eq_pnode split: if_splits)
qed simp

lemma pbst_replace_old:
  assumes "keyed key cmp" "pbst_for cmp h tree" "list_find cmp item (pbst_items h tree) = Some d"
  shows "\<exists>h'. pbst_replace malloc h tree item = pret (if d = item then None else Some d, h', tree) \<and>
    pbst_for cmp h' tree \<and> pbst_items h' tree = list_store cmp item (\<lambda>_. item) (pbst_items h tree) \<and>
    pbst_nodes h' tree = pbst_nodes h tree \<and> agree (- set (pbst_nodes h tree)) h h'"
proof -
  let ?t = "pbst_tree h tree"
  obtain p l a r where p: "pbst_probe malloc h tree item = pret (Some a, h, tree)" "in_tree ?t p"
    "subtree ?t p = BNode l (a, Some d) r" "cmp item d = 0"
    using pbst_probe_old [OF assms] by blast
  note f = pbst_forD [OF assms(2)]
  obtain n where n: "h a = Some n" "pbst_data n = Some d" using pbst_stands(1) [OF assms(2) p(2,3)] by auto
  have a: "a \<in> set (pbst_nodes h tree)" using pbst_stands(2) [OF assms(2) p(2,3)] .
  obtain xs ys where it: "pbst_items h tree = xs @ d # ys" "datas (put_at ?t p (BNode l (a, Some item) r)) = xs @ item # ys"
  proof
    let ?f = "map (\<lambda>y :: addr \<times> 'a option. the (snd y))"
    show "pbst_items h tree = (?f (lefts ?t p) @ datas l) @ d # (datas r @ ?f (rights ?t p))"
      "datas (put_at ?t p (BNode l (a, Some item) r)) = (?f (lefts ?t p) @ datas l) @ item # (datas r @ ?f (rights ?t p))"
      using inorder_split [OF p(2)] inorder_put [OF p(2), of "BNode l (a, Some item) r"] p(3)
      by (simp_all add: pbst_items_def datas_def)
  qed
  have st: "list_store cmp item (\<lambda>_. item) (pbst_items h tree) = xs @ item # ys"
    using keyed.list_store_mid [OF assms(1) _ p(4)] f(5) it(1) by (metis pbst_items_def)
  show ?thesis
  proof (cases "d = item")
    case True
    then show ?thesis using p(1) n assms(2) st it by (simp add: pbst_replace_def)
  next
    case False
    let ?h = "h(a \<mapsto> put_data (Some item) n)" and ?t' = "put_at ?t p (BNode l (a, Some item) r)"
    have ad: "addrs ?t' = addrs ?t"
      using inorder_split [OF p(2)] inorder_put [OF p(2), of "BNode l (a, Some item) r"] p(3) by (simp add: addrs_def)
    have "apex ?t' = apex ?t" using p(2,3) by (cases p; cases ?t) (auto split: prod.splits)
    then have r: "planted ?h tree ?t'"
      using f(1) prep_put_data [where h = h and a = a, OF _ _ p(2,3) n(1)] ad by (simp add: planted_def)
    have fi: "filled ?t'" by (rule filled_put [OF p(2) f(2)]) (use f(2) p(2,3) inorder_split [OF p(2)] in \<open>auto simp: filled_def\<close>)
    have ln: "length (datas ?t') = unat (pbst_count tree)" using f(4) it by (simp add: pbst_items_def)
    have "ordered cmp (datas ?t')" using keyed.ordered_list_replace [OF assms(1)] f(5) st it(2) by (metis pbst_items_def)
    from pbst_forI [OF r fi ln f(3) this] show ?thesis
      using False p(1) n st it ad a by (simp add: pbst_replace_def pbst_nodes_def agree_upd)
  qed
qed

section \<open>Search and deletion\<close>

lemma pbst_find_ok:
  assumes "keyed key cmp" "pbst_for cmp h tree"
  shows "pbst_find h tree item = pret (list_find cmp item (pbst_items h tree))"
proof -
  note f = pbst_forD [OF assms(2)]
  note lp = pbst_find_loop_ok [OF f(6,2), of tree item, unfolded f(3), folded f(7)]
  show ?thesis unfolding pbst_items_def
  proof (cases rule: ghost_locate_cases [OF assms(1) f(2,5), where item = item])
    case (1 p xs ys)
    then show "pbst_find h tree item = pret (list_find cmp item (datas (pbst_tree h tree)))"
      using lp by (simp add: pbst_find_def)
  next
    case (2 p l a d r xs ys)
    obtain u where "h a = Some (pnode u l (Some d) r)" using pbst_stands(1) [OF assms(2) 2(2,3)] by auto
    then show "pbst_find h tree item = pret (list_find cmp item (datas (pbst_tree h tree)))"
      using lp 2 by (simp add: pbst_find_def)
  qed
qed

lemma pbst_delete_none:
  assumes "keyed key cmp" "pbst_for cmp h tree" "list_find cmp item (pbst_items h tree) = None"
  shows "pbst_delete h tree item = pret (None, h, tree)"
    and "list_delete cmp item (pbst_items h tree) = pbst_items h tree"
    and "list_delete (node_cmp cmp) (0, Some item) (pbst_pairs h tree) = pbst_pairs h tree"
proof -
  note f = pbst_forD [OF assms(2)]
  have none: "list_find cmp item (datas (pbst_tree h tree)) = None" using assms(3) by (simp add: pbst_items_def)
  show "pbst_delete h tree item = pret (None, h, tree)"
  proof (cases rule: ghost_locate_cases [OF assms(1) f(2,5), where item = item])
    case (1 p xs ys)
    then show ?thesis using pbst_delete_loop_ok [OF f(6,2), of p tree item False] f(3,7)
      by (cases "pbst_tree h tree = BNull") (auto simp: pbst_delete_def)
  qed (use none in simp)
  show "list_delete cmp item (pbst_items h tree) = pbst_items h tree"
    using assms(3) by (auto simp: list_delete_def list_find_def find_None_iff intro!: filter_True)
  show "list_delete (node_cmp cmp) (0, Some item) (pbst_pairs h tree) = pbst_pairs h tree"
    using assms(3) by (auto simp: list_delete_def list_find_def find_None_iff pbst_items_def datas_def pbst_pairs_def
      node_cmp_def intro!: filter_True)
qed

lemma pbst_delete_ok:
  assumes "keyed key cmp" "pbst_for cmp h tree"
  shows "\<exists>h' tree'. pbst_delete h tree item = pret (list_find cmp item (pbst_items h tree), h', tree') \<and>
    pbst_for cmp h' tree' \<and> pbst_items h' tree' = list_delete cmp item (pbst_items h tree) \<and>
    pbst_pairs h' tree' = list_delete (node_cmp cmp) (0, Some item) (pbst_pairs h tree) \<and>
    (\<forall>a\<in>set (pbst_nodes h tree) - set (pbst_nodes h' tree'). h' a = None) \<and> agree (- set (pbst_nodes h tree)) h h'"
proof -
  note f = pbst_forD [OF assms(2)]
  show ?thesis
  proof (cases rule: ghost_locate_cases [OF assms(1) f(2,5), where item = item])
    case (1 p xs ys)
    then show ?thesis using pbst_delete_none [OF assms, of item] assms(2) by (simp add: pbst_items_def)
  next
    case (2 p l a d r xs ys)
    let ?t = "pbst_tree h tree" and ?s = "bst_unlink (BNode l (a, Some d) r)"
    obtain q e where q: "place None False ?t p = (q, e)" by fastforce
    have e: "q = None \<Longrightarrow> e = False" using place_root [of None False ?t p e] 2(2) q by simp
    have a: "a \<in> set (addrs ?t)" "pbst_root tree \<noteq> None" "?t \<noteq> BNull"
      using pbst_stands [OF assms(2) 2(2,3)] f(7) by (auto simp: pbst_nodes_def)
    have n: "h a = Some (pnode q l (Some d) r)" using removal_setting(1) [OF f(1) 2(2) q 2(3)] .
    obtain h1 tree1 where un: "pbst_unlink h tree q e (Some a) = pret (h1, tree1)" "planted h1 tree1 (put_at ?t p ?s)"
      "agree (- set (addrs ?t) \<union> {a}) h h1" "same_table tree tree1"
      using pbst_unlink_ok [OF f(1) 2(2) q 2(3)] unfolding removed_def by blast
    let ?h = "h1(a := None)" and ?tree = "tree1\<lparr>pbst_count := pbst_count tree1 - 1\<rparr>"
    have ue: "(if q = None then False else e) = e" using e by auto
    have "h1 a = Some (pnode q l (Some d) r)" using un(3) n by (simp add: agree_def)
    moreover have "pbst_delete_loop h tree item False (pbst_root tree) = pret (Some (e, Some a))"
      using pbst_delete_loop_ok [OF f(6,2) a(3), of p tree item False None] f(3,7) 2(1,3) q by simp
    ultimately have del: "pbst_delete h tree item = pret (Some d, ?h, ?tree)"
      using a(2) n un(1) ue by (simp add: pbst_delete_def Let_def)
    have ao: "addrs ?t = map fst (lefts ?t p) @ (addrs l @ a # addrs r) @ map fst (rights ?t p)"
      "addrs (put_at ?t p ?s) = map fst (lefts ?t p) @ (addrs l @ addrs r) @ map fst (rights ?t p)"
      using inorder_split [OF 2(2)] inorder_put [OF 2(2), of ?s] 2(3) by (simp_all add: addrs_def inorder_unlink)
    then have as: "set (addrs (put_at ?t p ?s)) = set (addrs ?t) - {a}" "a \<notin> set (addrs (put_at ?t p ?s))"
      using f(1) by (auto simp: planted_def)
    have r: "planted ?h ?tree (put_at ?t p ?s)" using un(2) as(2) by (simp add: planted_def)
    have it: "datas (put_at ?t p ?s) = list_delete cmp item (pbst_items h tree)"
      using inorder_put [OF 2(2), of ?s] keyed.list_delete_mid [OF assms(1) 2(9,4)] 2(5,6,7)
      by (simp add: datas_def inorder_unlink pbst_items_def)
    have fs: "filled (BNode l (a, Some d) r)" using f(2) inorder_split [OF 2(2)] 2(3) by (auto simp: filled_def)
    have fi: "filled (put_at ?t p ?s)" by (rule filled_put [OF 2(2) f(2) filled_unlink [OF fs]])
    have "length (pbst_items h tree) = Suc (length (list_delete cmp item (pbst_items h tree)))"
      using keyed.list_delete_mid [OF assms(1) 2(9,4)] 2(7) by (simp add: pbst_items_def)
    then have ln: "length (datas (put_at ?t p ?s)) = unat (pbst_count ?tree)"
      using f(4) it un(4) by (simp add: unat_minus_one unat_gt_0 [symmetric] pbst_items_def same_table_def)
    have o: "ordered cmp (datas (put_at ?t p ?s))"
      unfolding it using f(5) by (auto simp: list_delete_def ordered_def sorted_wrt_filter pbst_items_def)
    have "pbst_order ?tree = cmp" using un(4) f(3) by (simp add: same_table_def pbst_order_def)
    from pbst_forI [OF r fi ln this o]
    have v: "pbst_for cmp ?h ?tree" "pbst_tree ?h ?tree = put_at ?t p ?s" "pbst_items ?h ?tree = datas (put_at ?t p ?s)" .
    have "agree (- set (addrs ?t)) h ?h" using un(3) a(1) by (auto simp: agree_def fun_upd_apply)
    moreover have "bst_inorder (put_at ?t p ?s) = list_delete (node_cmp cmp) (0, Some item) (bst_inorder ?t)"
    proof -
      have i: "bst_inorder ?t = (lefts ?t p @ bst_inorder l) @ (a, Some d) # (bst_inorder r @ rights ?t p)"
        using inorder_split [OF 2(2)] 2(3) by simp
      have "ordered (node_cmp cmp) (bst_inorder ?t)" using f(5) by (simp add: ordered_nodes datas_def)
      then have "list_delete (node_cmp cmp) (0, Some item) (bst_inorder ?t) =
          (lefts ?t p @ bst_inorder l) @ bst_inorder r @ rights ?t p"
        using 2(4) unfolding i by (intro keyed.list_delete_mid [OF keyed_nodes [OF assms(1)]]) simp_all
      then show ?thesis using inorder_put [OF 2(2), of ?s] by (simp add: inorder_unlink)
    qed
    ultimately show ?thesis using del v it as 2(8) a(1) by (auto simp: pbst_nodes_def pbst_pairs_def pbst_items_def)
  qed
qed

end
