(* ===== verification/PBST_Balance.thy ===== *)
theory PBST_Balance
  imports PBST_Table BST_Balance
begin

text \<open>
  \<^verbatim>\<open>pbst_balance\<close> of \<open>pbst.c\<close>: the tree is turned into a vine and the vine is folded, both by rotations
  that leave the parent pointers as they are; then a walk over the tree sets them.  On the
  represented tree the rotations are those of \<open>bst.c\<close>.
\<close>

declare fun_upd_apply [simp del]

section \<open>The operations\<close>

partial_function (option) pbst_vine_loop ::
  "'a pbst_heap \<Rightarrow> 'a pbst_table \<Rightarrow> addr option \<Rightarrow> addr option \<Rightarrow> ('a pbst_heap \<times> 'a pbst_table) prog" where
  "pbst_vine_loop h tree q p =
     (if p = None then pret (h, tree)
      else pbind (link_of h p True) (\<lambda>r.
        if r = None then pbind (link_of h p False) (\<lambda>l. pbst_vine_loop h tree p l)
        else
          pbind (link_of h r False) (\<lambda>v.
          pbind (assign h p (put_link True v)) (\<lambda>h.
          pbind (assign h r (put_link False p)) (\<lambda>h.
          pbind (pbst_put h tree q False r) (\<lambda>(h, tree).
          pbst_vine_loop h tree q r))))))"

definition pbst_tree_to_vine :: "'a pbst_heap \<Rightarrow> 'a pbst_table \<Rightarrow> ('a pbst_heap \<times> 'a pbst_table) prog" where
  "pbst_tree_to_vine h tree = pbst_vine_loop h tree None (pbst_root tree)"

fun pbst_compress ::
  "nat \<Rightarrow> 'a pbst_heap \<Rightarrow> 'a pbst_table \<Rightarrow> addr option \<Rightarrow> ('a pbst_heap \<times> 'a pbst_table) prog" where
  "pbst_compress 0 h tree root = pret (h, tree)"
| "pbst_compress (Suc n) h tree root =
     pbind (pbst_get h tree root False) (\<lambda>red.
     pbind (link_of h red False) (\<lambda>black.
     pbind (pbst_put h tree root False black) (\<lambda>(h, tree).
     pbind (link_of h black True) (\<lambda>v.
     pbind (assign h red (put_link False v)) (\<lambda>h.
     pbind (assign h black (put_link True red)) (\<lambda>h.
     pbst_compress n h tree black))))))"

partial_function (option) pbst_rounds ::
  "64 word \<Rightarrow> 'a pbst_heap \<Rightarrow> 'a pbst_table \<Rightarrow> ('a pbst_heap \<times> 'a pbst_table) prog" where
  "pbst_rounds vine h tree =
     (if vine > 1 then
        pbind (pbst_compress (unat (vine div 2)) h tree None) (\<lambda>(h, tree). pbst_rounds (vine div 2) h tree)
      else pret (h, tree))"

text \<open>The variable \<open>height\<close> of the code is set and never used.\<close>

definition pbst_vine_to_tree :: "'a pbst_heap \<Rightarrow> 'a pbst_table \<Rightarrow> ('a pbst_heap \<times> 'a pbst_table) prog" where
  "pbst_vine_to_tree h tree =
     (let leaves = pbst_count tree + 1 - top_bit (pbst_count tree + 1) in
      pbind (pbst_compress (unat leaves) h tree None) (\<lambda>(h, tree).
      pbst_rounds (pbst_count tree - leaves) h tree))"

text \<open>
  \<^verbatim>\<open>update_parents\<close>: the loop to the left, the loop that climbs (\<open>None\<close> when the code returns), the loop to a
  node with a right child, and the loop around them.
\<close>

partial_function (option) pbst_update_left ::
  "'a pbst_heap \<Rightarrow> addr option \<Rightarrow> ('a pbst_heap \<times> addr option) prog" where
  "pbst_update_left h p =
     pbind (link_of h p False) (\<lambda>l.
       if l = None then pret (h, p)
       else pbind (assign h l (put_parent p)) (\<lambda>h. pbst_update_left h l))"

partial_function (option) pbst_up :: "'a pbst_heap \<Rightarrow> addr option \<Rightarrow> addr option prog" where
  "pbst_up h p =
     pbind (parent_of h p) (\<lambda>u.
       if u = None then pret None
       else pbind (link_of h u False) (\<lambda>c. if p = c then pret p else pbst_up h u))"

partial_function (option) pbst_turn :: "'a pbst_heap \<Rightarrow> addr option \<Rightarrow> addr option prog" where
  "pbst_turn h p =
     pbind (link_of h p True) (\<lambda>r.
       if r \<noteq> None then pret p
       else pbind (pbst_up h p) (\<lambda>p.
         if p = None then pret None else pbind (parent_of h p) (\<lambda>u. pbst_turn h u)))"

partial_function (option) pbst_update_loop :: "'a pbst_heap \<Rightarrow> addr option \<Rightarrow> 'a pbst_heap prog" where
  "pbst_update_loop h p =
     pbind (pbst_update_left h p) (\<lambda>(h, p).
     pbind (pbst_turn h p) (\<lambda>p.
       if p = None then pret h
       else
         pbind (link_of h p True) (\<lambda>r.
         pbind (assign h r (put_parent p)) (\<lambda>h.
         pbst_update_loop h r))))"

definition pbst_update_parents :: "'a pbst_heap \<Rightarrow> 'a pbst_table \<Rightarrow> 'a pbst_heap prog" where
  "pbst_update_parents h tree =
     (if pbst_root tree = None then pret h
      else pbind (assign h (pbst_root tree) (put_parent None)) (\<lambda>h. pbst_update_loop h (pbst_root tree)))"

definition pbst_balance :: "'a pbst_heap \<Rightarrow> 'a pbst_table \<Rightarrow> ('a pbst_heap \<times> 'a pbst_table) prog" where
  "pbst_balance h tree =
     pbind (pbst_tree_to_vine h tree) (\<lambda>(h, tree).
     pbind (pbst_vine_to_tree h tree) (\<lambda>(h, tree).
     pbind (pbst_update_parents h tree) (\<lambda>h. pret (h, tree))))"

section \<open>Trees that hang below a place\<close>

definition lhangs :: "'a pbst_heap \<Rightarrow> 'a pbst_table \<Rightarrow> addr option \<Rightarrow> 'a ghost \<Rightarrow> bool" where
  "lhangs h tree q t \<longleftrightarrow> lrep h t \<and> distinct (addrs t) \<and>
     (case q of
        None \<Rightarrow> pbst_root tree = apex t
      | Some c \<Rightarrow> c \<notin> set (addrs t) \<and> (\<exists>n. h c = Some n \<and> pbst_link n False = apex t))"

text \<open>Only the left link of the place and nodes in \<open>A\<close> have changed.\<close>

definition relinked ::
  "'a pbst_heap \<Rightarrow> 'a pbst_table \<Rightarrow> addr option \<Rightarrow> addr set \<Rightarrow> 'a pbst_heap \<Rightarrow> 'a pbst_table \<Rightarrow> bool" where
  "relinked h tree q A h' tree' \<longleftrightarrow> agree (- A - set_option q) h h' \<and> same_table tree tree' \<and>
     (\<forall>c. q = Some c \<longrightarrow> tree' = tree \<and> (\<forall>n. h c = Some n \<longrightarrow> (\<exists>v. h' c = Some (put_link False v n))))"

lemma put_link_twice [simp]: "put_link d v (put_link d w n) = put_link d v n"
  by (simp add: put_link_def)

lemma put_link_same: "put_link d (pbst_link n d) n = n"
  by (simp add: put_link_def)

lemma relinked_refl: "relinked h tree q A h tree"
  unfolding relinked_def using put_link_same by (metis agree_refl same_table_simps(1))

lemma relinked_trans:
  "relinked h tree q A h1 tree1 \<Longrightarrow> relinked h1 tree1 q A h2 tree2 \<Longrightarrow> relinked h tree q A h2 tree2"
  unfolding relinked_def using same_table_trans agree_trans by (metis put_link_twice)

lemma lhangs_step:
  assumes "lhangs h tree q t" "agree (- set (addrs t)) h h0" "hook h0 tree q False (apex t') = (h1, tree1)"
    and "agree (- set (addrs t)) h1 h2" "lrep h2 t'" "distinct (addrs t')" "set (addrs t') = set (addrs t)"
  shows "lhangs h2 tree1 q t'" "relinked h tree q (set (addrs t)) h2 tree1"
proof -
  have "lhangs h2 tree1 q t' \<and> relinked h tree q (set (addrs t)) h2 tree1"
  proof (cases q)
    case None
    then have "h1 = h0" "tree1 = tree\<lparr>pbst_root := apex t'\<rparr>" using assms(3) by (auto simp: hook_def)
    then show ?thesis using assms None by (auto simp: lhangs_def relinked_def agree_def)
  next
    case (Some c)
    then obtain n where c: "c \<notin> set (addrs t)" "h c = Some n" using assms(1) by (auto simp: lhangs_def)
    then have "h0 c = Some n" using agreeD [OF assms(2), of c] by simp
    then have h1: "h1 = h0(c \<mapsto> put_link False (apex t') n)" "tree1 = tree" using assms(3) Some by (auto simp: hook_def)
    then have h2: "h2 c = Some (put_link False (apex t') n)" using agreeD [OF assms(4), of c] c(1) by simp
    have "agree (- set (addrs t) - {c}) h h2"
      using assms(2,4) h1(1) by (auto simp: agree_def)
    then show ?thesis using assms(5-7) Some c h2 h1(2) by (auto simp: lhangs_def relinked_def)
  qed
  then show "lhangs h2 tree1 q t'" "relinked h tree q (set (addrs t)) h2 tree1" by simp_all
qed

lemma lhangs_hook:
  assumes "lhangs h tree q t" "agree (- set (addrs t)) h h0" "hook h0 tree q False v = (h1, tree1)"
  shows "pbst_put h0 tree q False v = pret (h1, tree1)" "agree (set (addrs t)) h0 h1"
proof -
  have "pbst_put h0 tree q False v = pret (h1, tree1) \<and> agree (set (addrs t)) h0 h1"
  proof (cases q)
    case None
    then show ?thesis using assms(3) by (simp add: hook_def pbst_put_def)
  next
    case (Some c)
    then obtain n where c: "c \<notin> set (addrs t)" "h c = Some n" using assms(1) by (auto simp: lhangs_def)
    then have "h0 c = Some n" using agreeD [OF assms(2), of c] by simp
    then show ?thesis using assms(3) Some c(1) by (auto simp: hook_def pbst_put_def agree_upd)
  qed
  then show "pbst_put h0 tree q False v = pret (h1, tree1)" "agree (set (addrs t)) h0 h1" by simp_all
qed

lemma lhangs_get: "lhangs h tree q t \<Longrightarrow> pbst_get h tree q False = pret (apex t)"
  by (auto simp: lhangs_def pbst_get_def split: option.splits)

text \<open>The left subtree of the root is changed.\<close>

lemma lhangs_sub: "lhangs h tree q (BNode l (a, x) r) \<Longrightarrow> lhangs h tree (Some a) l"
  by (auto simp: lhangs_def)

lemma lhangs_left:
  assumes "lhangs h tree q (BNode l (a, x) r)" "lhangs h' tree' (Some a) l'" "relinked h tree (Some a) (set (addrs l)) h' tree'"
    and "set (addrs l') = set (addrs l)"
  shows "lhangs h' tree' q (BNode l' (a, x) r)" "relinked h tree q (set (addrs (BNode l (a, x) r))) h' tree'"
proof -
  obtain u where t: "h a = Some (pnode u l x r)" "lrep h r" "distinct (addrs (BNode l (a, x) r))"
    using assms(1) by (auto simp: lhangs_def)
  have ag: "agree (- set (addrs l) - {a}) h h'" "tree' = tree" using assms(3) by (simp_all add: relinked_def)
  obtain v where v: "h' a = Some (put_link False v (pnode u l x r))"
    using assms(3) t(1) unfolding relinked_def by blast
  have l': "lrep h' l'" "distinct (addrs l')" "v = apex l'" using assms(2) v by (auto simp: lhangs_def)
  have "agree (set (addrs r)) h h'" by (rule agree_subset [OF ag(1)]) (use t(3) in auto)
  then have "lrep h' r" using t(2) lrep_agree by blast
  moreover have "put_link False v (pnode u l x r) = pnode u l' x r" using l'(3) by (simp add: eq_pnode)
  ultimately have rep: "lrep h' (BNode l' (a, x) r)" "distinct (addrs (BNode l' (a, x) r))"
    using v l' t(3) assms(4) by auto
  have "lhangs h' tree' q (BNode l' (a, x) r) \<and> relinked h tree q (set (addrs (BNode l (a, x) r))) h' tree'"
  proof (cases q)
    case None
    then have "agree (- set (addrs (BNode l (a, x) r))) h h'" by (intro agree_subset [OF ag(1)]) auto
    then show ?thesis using None rep assms(1) ag(2) by (simp add: lhangs_def relinked_def)
  next
    case (Some c)
    then obtain n where c: "c \<notin> set (addrs (BNode l (a, x) r))" "h c = Some n" "pbst_link n False = Some a"
      using assms(1) by (auto simp: lhangs_def)
    then have "h' c = Some n" using agreeD [OF ag(1), of c] by simp
    moreover have "\<exists>v. Some n = Some (put_link False v n)" using put_link_same by metis
    moreover have "agree (- set (addrs (BNode l (a, x) r)) - {c}) h h'" by (rule agree_subset [OF ag(1)]) auto
    ultimately show ?thesis using Some rep c ag(2) assms(4) by (simp add: lhangs_def relinked_def)
  qed
  then show "lhangs h' tree' q (BNode l' (a, x) r)" "relinked h tree q (set (addrs (BNode l (a, x) r))) h' tree'"
    by simp_all
qed

section \<open>The vine\<close>

declare pbst_vine_loop.simps [simp del]

lemma pbst_vine_loop_ok:
  "lhangs h tree q t \<Longrightarrow> \<exists>h' tree'. pbst_vine_loop h tree q (apex t) = pret (h', tree') \<and>
     lhangs h' tree' q (tree_to_vine t) \<and> relinked h tree q (set (addrs t)) h' tree'"
proof (induction t arbitrary: h tree q rule: tree_to_vine.induct)
  case 1
  then show ?case by (subst pbst_vine_loop.simps) (simp add: relinked_refl)
next
  case (2 l y)
  obtain a x where y: "y = (a, x)" by fastforce
  have hg: "lhangs h tree q (BNode l (a, x) BNull)" using "2.prems" y by simp
  then obtain u where n: "h a = Some (pnode u l x BNull)" by (auto simp: lhangs_def)
  obtain h' tree' where ih: "pbst_vine_loop h tree (Some a) (apex l) = pret (h', tree')"
    "lhangs h' tree' (Some a) (tree_to_vine l)" "relinked h tree (Some a) (set (addrs l)) h' tree'"
    using "2.IH" [OF lhangs_sub [OF hg]] by blast
  have "set (addrs (tree_to_vine l)) = set (addrs l)" by (simp add: addrs_def)
  from lhangs_left [OF hg ih(2,3) this]
  have "lhangs h' tree' q (tree_to_vine (BNode l y BNull))" "relinked h tree q (set (addrs (BNode l y BNull))) h' tree'"
    using y by simp_all
  moreover have "pbst_vine_loop h tree q (Some a) = pret (h', tree')" using n ih(1) by (subst pbst_vine_loop.simps) simp
  ultimately show ?case using y by auto
next
  case (3 l y rl z rr)
  obtain a x b w where y: "y = (a, x)" "z = (b, w)" by fastforce
  let ?t = "BNode l (a, x) (BNode rl (b, w) rr)" and ?t' = "BNode (BNode l (a, x) rl) (b, w) rr"
  have hg: "lhangs h tree q ?t" using "3.prems" y by simp
  then obtain u v where n: "h a = Some (pnode u l x (BNode rl (b, w) rr))" "h b = Some (pnode v rl w rr)"
    "lrep h l" "lrep h rl" "lrep h rr"
    by (auto simp: lhangs_def)
  have ds: "distinct (addrs ?t)" using hg by (simp add: lhangs_def)
  then have dis: "a \<noteq> b" "b \<noteq> a" "a \<notin> set (addrs l)" "a \<notin> set (addrs rl)" "a \<notin> set (addrs rr)" "b \<notin> set (addrs l)"
    "b \<notin> set (addrs rl)" "b \<notin> set (addrs rr)" by auto
  let ?h = "h(a \<mapsto> pnode u l x rl, b \<mapsto> pnode v (BNode l (a, x) rl) w rr)"
  have rep: "lrep ?h ?t'" using n dis by auto
  have ag: "agree (- set (addrs ?t)) h ?h" by (simp add: agree_upd)
  obtain h1 tree1 where hk: "hook ?h tree q False (apex ?t') = (h1, tree1)" by fastforce
  note pu = lhangs_hook [OF hg ag hk]
  have "distinct (addrs ?t')" "set (addrs ?t') = set (addrs ?t)" using ds by auto
  from lhangs_step [OF hg ag hk agree_refl lrep_agree [OF rep] this]
  have st: "lhangs h1 tree1 q ?t'" "relinked h tree q (set (addrs ?t)) h1 tree1"
    using pu(2) \<open>set (addrs ?t') = set (addrs ?t)\<close> by (simp_all add: insert_commute Un_commute)
  obtain h' tree' where ih: "pbst_vine_loop h1 tree1 q (Some b) = pret (h', tree')"
    "lhangs h' tree' q (tree_to_vine ?t')" "relinked h1 tree1 q (set (addrs ?t')) h' tree'"
    using "3.IH" [of h1 tree1 q] st(1) y by auto
  have e: "put_link True (apex rl) (pnode u l x (BNode rl (b, w) rr)) = pnode u l x rl"
    "put_link False (Some a) (pnode v rl w rr) = pnode v (BNode l (a, x) rl) w rr" by (simp_all add: eq_pnode)
  have "pbst_vine_loop h tree q (Some a) = pbind (pbst_put ?h tree q False (Some b)) (\<lambda>(h, tree). pbst_vine_loop h tree q (Some b))"
    unfolding e [symmetric] using n dis by (subst pbst_vine_loop.simps) simp
  then have "pbst_vine_loop h tree q (Some a) = pret (h', tree')" using pu(1) ih(1) by simp
  moreover have "relinked h tree q (set (addrs ?t)) h' tree'"
    using relinked_trans [OF st(2)] ih(3) \<open>set (addrs ?t') = set (addrs ?t)\<close> by simp
  ultimately show ?case using ih(2) y by auto
qed

section \<open>Compression and the rounds\<close>

lemma pbst_compress_ok:
  "compress n t = Ok t' \<Longrightarrow> lhangs h tree q t \<Longrightarrow> \<exists>h' tree'. pbst_compress n h tree q = pret (h', tree') \<and>
     lhangs h' tree' q t' \<and> relinked h tree q (set (addrs t)) h' tree'"
proof (induction n t arbitrary: t' h tree q rule: compress.induct)
  case (1 t)
  then show ?case by (simp add: relinked_refl)
next
  case (4 n bl by' br rz rr)
  obtain b y r z where y: "by' = (b, y)" "rz = (r, z)" by fastforce
  let ?t = "BNode (BNode bl (b, y) br) (r, z) rr" and ?t1 = "BNode bl (b, y) (BNode br (r, z) rr)"
  obtain t2 where t2: "compress n bl = Ok t2" "t' = BNode t2 (b, y) (BNode br (r, z) rr)"
    using "4.prems"(1) y by (auto elim!: obind_OkE)
  have hg: "lhangs h tree q ?t" using "4.prems"(2) y by simp
  then obtain u v where n: "h r = Some (pnode u (BNode bl (b, y) br) z rr)" "h b = Some (pnode v bl y br)"
    "lrep h bl" "lrep h br" "lrep h rr"
    by (auto simp: lhangs_def)
  have ds: "distinct (addrs ?t)" using hg by (simp add: lhangs_def)
  then have dis: "r \<noteq> b" "b \<noteq> r" "r \<notin> set (addrs bl)" "r \<notin> set (addrs br)" "r \<notin> set (addrs rr)" "b \<notin> set (addrs bl)"
    "b \<notin> set (addrs br)" "b \<notin> set (addrs rr)" by auto
  obtain h1 tree1 where hk: "hook h tree q False (apex ?t1) = (h1, tree1)" by fastforce
  note pu = lhangs_hook [OF hg agree_refl hk]
  have n1: "h1 r = Some (pnode u (BNode bl (b, y) br) z rr)" "h1 b = Some (pnode v bl y br)"
    using agreeD [OF pu(2)] n by simp_all
  have l1: "lrep h1 bl" "lrep h1 br" "lrep h1 rr"
    by (rule lrep_agree [OF _ agree_subset [OF pu(2)]]; use n in auto)+
  let ?h = "h1(r \<mapsto> pnode u br z rr, b \<mapsto> pnode v bl y (BNode br (r, z) rr))"
  have e: "put_link False (apex br) (pnode u (BNode bl (b, y) br) z rr) = pnode u br z rr"
    "put_link True (Some r) (pnode v bl y br) = pnode v bl y (BNode br (r, z) rr)" by (simp_all add: eq_pnode)
  have "pbst_put h tree q False (Some b) = pret (h1, tree1)" using pu(1) by simp
  then have run: "pbst_compress (Suc n) h tree q = pbst_compress n ?h tree1 (Some b)"
    unfolding e [symmetric] using lhangs_get [OF hg] n n1 dis by simp
  have "agree (- set (addrs ?t)) h1 ?h" by (simp add: agree_upd)
  moreover have "lrep ?h ?t1" using l1 dis by auto
  moreover have "distinct (addrs ?t1)" "set (addrs ?t1) = set (addrs ?t)" using ds by auto
  ultimately have st: "lhangs ?h tree1 q ?t1" "relinked h tree q (set (addrs ?t)) ?h tree1"
    using lhangs_step [OF hg agree_refl hk] by blast+
  obtain h' tree' where ih: "pbst_compress n ?h tree1 (Some b) = pret (h', tree')" "lhangs h' tree' (Some b) t2"
    "relinked ?h tree1 (Some b) (set (addrs bl)) h' tree'"
    using "4.IH" [OF t2(1) lhangs_sub [OF st(1)]] by blast
  have "set (addrs t2) = set (addrs bl)" using compress_inorder [OF t2(1)] by (simp add: addrs_def)
  from lhangs_left [OF st(1) ih(2,3) this]
  have lf: "lhangs h' tree' q t'" "relinked ?h tree1 q (set (addrs ?t1)) h' tree'" using t2(2) by simp_all
  then have "relinked h tree q (set (addrs ?t)) h' tree'"
    using relinked_trans [OF st(2)] \<open>set (addrs ?t1) = set (addrs ?t)\<close> by simp
  then show ?case using run ih(1) lf(1) y by auto
qed simp_all

text \<open>A table whose tree has become another one with the same nodes, up to parent pointers.\<close>

definition reshapes ::
  "'a pbst_heap \<Rightarrow> 'a pbst_table \<Rightarrow> 'a ghost \<Rightarrow> 'a pbst_heap \<Rightarrow> 'a pbst_table \<Rightarrow> 'a ghost \<Rightarrow> bool" where
  "reshapes h tree t h' tree' t' \<longleftrightarrow> lhangs h' tree' None t' \<and> bst_inorder t' = bst_inorder t \<and>
     agree (- set (addrs t)) h h' \<and> same_table tree tree'"

lemma reshapes_trans:
  "reshapes h tree t h1 tree1 t1 \<Longrightarrow> reshapes h1 tree1 t1 h2 tree2 t2 \<Longrightarrow> reshapes h tree t h2 tree2 t2"
  unfolding reshapes_def addrs_def using agree_trans same_table_trans by metis

lemma reshapesI:
  "lhangs h' tree' None t' \<Longrightarrow> relinked h tree None (set (addrs t)) h' tree' \<Longrightarrow> bst_inorder t' = bst_inorder t \<Longrightarrow>
     reshapes h tree t h' tree' t'"
  by (simp add: reshapes_def relinked_def)

lemma compress_reshapes:
  assumes "compress n t = Ok t'" "lhangs h tree None t"
  shows "\<exists>h' tree'. pbst_compress n h tree None = pret (h', tree') \<and> reshapes h tree t h' tree' t'"
  using pbst_compress_ok [OF assms] reshapesI compress_inorder [OF assms(1)] by blast

declare pbst_rounds.simps [simp del]

lemma pbst_rounds_ok:
  "vine_rounds v hc t = Ok (t', hc') \<Longrightarrow> lhangs h tree None t \<Longrightarrow>
     \<exists>h' tree'. pbst_rounds v h tree = pret (h', tree') \<and> reshapes h tree t h' tree' t'"
proof (induction v hc t arbitrary: h tree rule: vine_rounds.induct)
  case (1 v hc t)
  show ?case
  proof (cases "v > 1")
    case True
    then obtain t1 where t1: "compress (unat (v div 2)) t = Ok t1" "vine_rounds (v div 2) (hc + 1) t1 = Ok (t', hc')"
      using "1.prems"(1) by (auto simp: vine_rounds.simps [of v] split: outcome.splits)
    obtain h1 tree1 where 1: "pbst_compress (unat (v div 2)) h tree None = pret (h1, tree1)" "reshapes h tree t h1 tree1 t1"
      using compress_reshapes [OF t1(1) "1.prems"(2)] by blast
    then have "lhangs h1 tree1 None t1" by (simp add: reshapes_def)
    then obtain h' tree' where 2: "pbst_rounds (v div 2) h1 tree1 = pret (h', tree')" "reshapes h1 tree1 t1 h' tree' t'"
      using "1.IH" [OF True t1] by blast
    then show ?thesis using True 1 reshapes_trans [OF 1(2) 2(2)] by (subst pbst_rounds.simps) simp
  next
    case False
    then have "t' = t" using "1.prems"(1) by (auto simp: vine_rounds.simps [of v])
    then show ?thesis using False "1.prems"(2) by (subst pbst_rounds.simps) (simp add: reshapes_def)
  qed
qed

lemma pbst_vine_to_tree_ok:
  assumes "vine_to_tree (pbst_count tree) t = Ok t'" "lhangs h tree None t"
  shows "\<exists>h' tree'. pbst_vine_to_tree h tree = pret (h', tree') \<and> reshapes h tree t h' tree' t'"
proof -
  let ?l = "pbst_count tree + 1 - top_bit (pbst_count tree + 1)"
  obtain t1 hc' where 1: "compress (unat ?l) t = Ok t1"
    "vine_rounds (pbst_count tree - ?l) (1 + (if ?l > 0 then 1 else 0)) t1 = Ok (t', hc')"
    using assms(1) by (auto simp: vine_to_tree_def Let_def elim!: obind_OkE split: if_splits prod.splits)
  obtain h1 tree1 where 2: "pbst_compress (unat ?l) h tree None = pret (h1, tree1)" "reshapes h tree t h1 tree1 t1"
    using compress_reshapes [OF 1(1) assms(2)] by blast
  then have "lhangs h1 tree1 None t1" and c: "pbst_count tree1 = pbst_count tree" by (simp_all add: reshapes_def same_table_def)
  from pbst_rounds_ok [OF 1(2) this(1)] obtain h' tree' where
    3: "pbst_rounds (pbst_count tree - ?l) h1 tree1 = pret (h', tree')" "reshapes h1 tree1 t1 h' tree' t'" by blast
  then show ?thesis using 2(1) c reshapes_trans [OF 2(2) 3(2)] by (simp add: pbst_vine_to_tree_def Let_def)
qed

section \<open>The parent pointers\<close>

declare pbst_update_left.simps [simp del] pbst_up.simps [simp del] pbst_turn.simps [simp del] pbst_update_loop.simps [simp del]

text \<open>The loop at a node whose left subtree is done, and at a node whose whole subtree is done.\<close>

definition pbst_update_mid :: "'a pbst_heap \<Rightarrow> addr option \<Rightarrow> 'a pbst_heap prog" where
  "pbst_update_mid h p =
     pbind (pbst_turn h p) (\<lambda>p.
       if p = None then pret h
       else
         pbind (link_of h p True) (\<lambda>r.
         pbind (assign h r (put_parent p)) (\<lambda>h.
         pbst_update_loop h r)))"

definition pbst_update_out :: "'a pbst_heap \<Rightarrow> addr option \<Rightarrow> 'a pbst_heap prog" where
  "pbst_update_out h p =
     pbind (pbst_up h p) (\<lambda>p. if p = None then pret h else pbind (parent_of h p) (\<lambda>u. pbst_update_mid h u))"

lemma pbst_update_mid_leaf: "h a = Some (pnode u l x BNull) \<Longrightarrow> pbst_update_mid h (Some a) = pbst_update_out h (Some a)"
  unfolding pbst_update_mid_def pbst_update_out_def
  by (subst pbst_turn.simps) (simp add: pbind_assoc if_distrib [where f = "\<lambda>m. pbind m f" for f] cong: if_cong)

lemma pbst_update_mid_right:
  "h a = Some (pnode u l x r) \<Longrightarrow> apex r = Some c \<Longrightarrow> h c = Some n \<Longrightarrow>
     pbst_update_mid h (Some a) = pbst_update_loop (h(c \<mapsto> put_parent (Some a) n)) (Some c)"
  unfolding pbst_update_mid_def by (subst pbst_turn.simps) auto

lemma pbst_update_out_left:
  "h a = Some (pnode u l x r) \<Longrightarrow> apex l = Some c \<Longrightarrow> h c = Some n \<Longrightarrow> pbst_parent n = Some a \<Longrightarrow>
     pbst_update_out h (Some c) = pbst_update_mid h (Some a)"
  unfolding pbst_update_out_def by (subst pbst_up.simps) simp

lemma pbst_update_out_right:
  "h a = Some (pnode u l x r) \<Longrightarrow> apex l \<noteq> Some c \<Longrightarrow> h c = Some n \<Longrightarrow> pbst_parent n = Some a \<Longrightarrow>
     pbst_update_out h (Some c) = pbst_update_out h (Some a)"
  unfolding pbst_update_out_def by (subst pbst_up.simps) (simp add: eq_commute [of "Some c"])

lemma pbst_update_loop_left:
  "h a = Some (pnode u l x r) \<Longrightarrow> apex l = Some c \<Longrightarrow> h c = Some n \<Longrightarrow>
     pbst_update_loop h (Some a) = pbst_update_loop (h(c \<mapsto> put_parent (Some a) n)) (Some c)"
  by (subst (1 2) pbst_update_loop.simps, subst pbst_update_left.simps) simp

lemma pbst_update_loop_leaf:
  "h a = Some (pnode u BNull x r) \<Longrightarrow> pbst_update_loop h (Some a) = pbst_update_mid h (Some a)"
  unfolding pbst_update_mid_def by (subst pbst_update_loop.simps, subst pbst_update_left.simps) simp

text \<open>The walk over a subtree whose root has its parent pointer already.\<close>

lemma pbst_update_loop_ok:
  "lrep h s \<Longrightarrow> distinct (addrs s) \<Longrightarrow> apex s = Some a \<Longrightarrow> h a = Some n \<Longrightarrow>
     \<exists>h'. pbst_update_loop h (Some a) = pbst_update_out h' (Some a) \<and> prep h' (pbst_parent n) s \<and>
       agree (- (set (addrs s) - {a})) h h'"
proof (induction s arbitrary: h a n)
  case (BNode l y r)
  obtain x where y: "y = (a, x)" using BNode.prems(3) by (cases y) auto
  let ?u = "pbst_parent n"
  have n: "h a = Some (pnode ?u l x r)" "lrep h l" "lrep h r" using BNode.prems y by auto
  have dis: "a \<notin> set (addrs l)" "a \<notin> set (addrs r)" "set (addrs l) \<inter> set (addrs r) = {}" "distinct (addrs l)" "distinct (addrs r)"
    using BNode.prems(2) y by auto
  obtain h1 where h1: "pbst_update_loop h (Some a) = pbst_update_mid h1 (Some a)" "prep h1 (Some a) l"
    "agree (- set (addrs l)) h h1"
  proof (cases "apex l")
    case None
    then have "l = BNull" by simp
    then show ?thesis using that [of h] pbst_update_loop_leaf n(1) by fastforce
  next
    case (Some c)
    have cl: "c \<in> set (addrs l)" by (rule apex_in [OF Some])
    then obtain k where k: "h c = Some k" using lrep_alloc [OF n(2)] by blast
    let ?h = "h(c \<mapsto> put_parent (Some a) k)"
    obtain h1 where ih: "pbst_update_loop ?h (Some c) = pbst_update_out h1 (Some c)" "prep h1 (Some a) l"
      "agree (- (set (addrs l) - {c})) ?h h1"
      using BNode.IH(1) [OF lrep_parent [OF n(2) k] dis(4) Some fun_upd_same, of "Some a"] by auto
    have "h1 c = Some (put_parent (Some a) k)" using agreeD [OF ih(3), of c] by simp
    moreover have a1: "h1 a = Some (pnode ?u l x r)" using agreeD [OF ih(3), of a] n(1) dis(1) cl by (cases "a = c") auto
    ultimately have "pbst_update_out h1 (Some c) = pbst_update_mid h1 (Some a)" by (simp add: pbst_update_out_left [where h = h1, OF a1 Some])
    then have "pbst_update_loop h (Some a) = pbst_update_mid h1 (Some a)"
      using ih(1) pbst_update_loop_left [OF n(1) Some k] by simp
    moreover have "agree (- set (addrs l)) h h1" using ih(3) cl by (auto simp: agree_def fun_upd_apply)
    ultimately show ?thesis using that ih(2) by blast
  qed
  have a1: "h1 a = Some (pnode ?u l x r)" using agreeD [OF h1(3), of a] n(1) dis(1) by simp
  have r1: "lrep h1 r" by (rule lrep_agree [OF n(3) agree_subset [OF h1(3)]]) (use dis in auto)
  show ?case
  proof (cases "apex r")
    case None
    then have "r = BNull" by simp
    then have "pbst_update_mid h1 (Some a) = pbst_update_out h1 (Some a)" "prep h1 ?u (BNode l y r)"
      using pbst_update_mid_leaf a1 h1(2) y by auto
    moreover have "agree (- (set (addrs (BNode l y r)) - {a})) h h1"
      by (rule agree_subset [OF h1(3)]) (use y dis in auto)
    ultimately show ?thesis using h1(1) by (intro exI [of _ h1]) simp
  next
    case (Some c)
    have cr: "c \<in> set (addrs r)" by (rule apex_in [OF Some])
    then obtain k where k: "h1 c = Some k" using lrep_alloc [OF r1] by blast
    let ?h = "h1(c \<mapsto> put_parent (Some a) k)"
    obtain h2 where ih: "pbst_update_loop ?h (Some c) = pbst_update_out h2 (Some c)" "prep h2 (Some a) r"
      "agree (- (set (addrs r) - {c})) ?h h2"
      using BNode.IH(2) [OF lrep_parent [OF r1 k] dis(5) Some fun_upd_same, of "Some a"] by auto
    have c2: "h2 c = Some (put_parent (Some a) k)" using agreeD [OF ih(3), of c] by simp
    have ag: "agree (- set (addrs r)) h1 h2" using ih(3) cr by (auto simp: agree_def fun_upd_apply)
    have a2: "h2 a = Some (pnode ?u l x r)" using agreeD [OF ag, of a] a1 dis(2) by simp
    have "apex l \<noteq> Some c" using apex_in [of l c] cr dis(3) by auto
    then have "pbst_update_out h2 (Some c) = pbst_update_out h2 (Some a)" using c2 by (simp add: pbst_update_out_right [where h = h2, OF a2])
    then have run: "pbst_update_loop h (Some a) = pbst_update_out h2 (Some a)"
      using h1(1) pbst_update_mid_right [OF a1 Some k] ih(1) by simp
    have "agree (set (addrs l)) h1 h2" by (rule agree_subset [OF ag]) (use dis in auto)
    then have "prep h2 ?u (BNode l y r)" using a2 h1(2) ih(2) y by (auto intro: prep_agree)
    moreover have "agree (- (set (addrs (BNode l y r)) - {a})) h h2"
      by (rule agree_trans [OF agree_subset [OF h1(3)] agree_subset [OF ag]]) (use y dis in auto)
    ultimately show ?thesis using run by (intro exI [of _ h2]) simp
  qed
qed simp

lemma pbst_update_parents_ok:
  assumes "lhangs h tree None t"
  shows "\<exists>h'. pbst_update_parents h tree = pret h' \<and> planted h' tree t \<and> agree (- set (addrs t)) h h'"
proof (cases "apex t")
  case None
  then show ?thesis using assms by (simp add: pbst_update_parents_def lhangs_def planted_def)
next
  case (Some c)
  have t: "lrep h t" "distinct (addrs t)" "pbst_root tree = Some c" using assms Some by (simp_all add: lhangs_def)
  have ct: "c \<in> set (addrs t)" by (rule apex_in [OF Some])
  then obtain k where k: "h c = Some k" using lrep_alloc [OF t(1)] by blast
  let ?h = "h(c \<mapsto> put_parent None k)"
  obtain h' where h': "pbst_update_loop ?h (Some c) = pbst_update_out h' (Some c)" "prep h' None t"
    "agree (- (set (addrs t) - {c})) ?h h'"
    using pbst_update_loop_ok [OF lrep_parent [OF t(1) k] t(2) Some fun_upd_same, of None] by auto
  have "h' c = Some (put_parent None k)" using agreeD [OF h'(3), of c] by simp
  then have "pbst_update_out h' (Some c) = pret h'" unfolding pbst_update_out_def by (subst pbst_up.simps) simp
  then have "pbst_update_parents h tree = pret h'" using t(3) k h'(1) by (simp add: pbst_update_parents_def)
  moreover have "planted h' tree t" using h'(2) t Some by (simp add: planted_def)
  moreover have "agree (- set (addrs t)) h h'" using h'(3) ct by (auto simp: agree_def fun_upd_apply)
  ultimately show ?thesis by blast
qed

section \<open>Balancing\<close>

lemma pbst_balance_ok:
  assumes "planted h tree t" "pbst_count tree = of_nat (length (datas t))" "length (datas t) < 2 ^ 32"
  shows "\<exists>h' tree' t' b. pbst_balance h tree = pret (h', tree') \<and> planted h' tree' t' \<and> bst_inorder t' = bst_inorder t \<and>
    agree (- set (addrs t)) h h' \<and> same_table tree tree' \<and>
    bst_height t' \<le> b \<and> b \<le> BST_MAX_HEIGHT \<and> (0 < b \<longrightarrow> 2 ^ (b - 1) \<le> length (datas t))"
proof -
  let ?v = "tree_to_vine t"
  have len: "length (bst_inorder ?v) = length (datas t)" by (simp add: datas_def)
  have "lhangs h tree None t" using assms(1) plantedD(4) by (auto simp: lhangs_def planted_def)
  from pbst_vine_loop_ok [OF this] assms(1) obtain h1 tree1
    where 1: "pbst_tree_to_vine h tree = pret (h1, tree1)" "lhangs h1 tree1 None ?v" "reshapes h tree t h1 tree1 ?v"
    using reshapesI [of _ _ ?v] by (fastforce simp: pbst_tree_to_vine_def planted_def)
  have c: "pbst_count tree1 = of_nat (length (datas t))" using 1(3) assms(2) by (simp add: reshapes_def same_table_def)
  have "spine (length (datas t)) 0 (flat 0) ?v" using vine_spine [of t] by (simp add: datas_def)
  from vine_to_tree_ok [OF this _ assms(3)] obtain t' b where 2: "vine_to_tree (pbst_count tree1) ?v = Ok t'"
    "bst_height t' \<le> b" "b \<le> BST_MAX_HEIGHT" "0 < b \<longrightarrow> 2 ^ (b - 1) \<le> length (datas t)"
    using c len by auto
  obtain h2 tree2 where 3: "pbst_vine_to_tree h1 tree1 = pret (h2, tree2)" "reshapes h1 tree1 ?v h2 tree2 t'"
    using pbst_vine_to_tree_ok [OF 2(1) 1(2)] by blast
  note r = reshapes_trans [OF 1(3) 3(2)]
  have "lhangs h2 tree2 None t'" using r by (simp add: reshapes_def)
  from pbst_update_parents_ok [OF this] obtain h3
    where 4: "pbst_update_parents h2 tree2 = pret h3" "planted h3 tree2 t'" "agree (- set (addrs t')) h2 h3" by blast
  have "set (addrs t') = set (addrs t)" using r by (simp add: reshapes_def addrs_def)
  then have "agree (- set (addrs t)) h h3" using r 4(3) agree_trans by (auto simp: reshapes_def)
  moreover have "pbst_balance h tree = pret (h3, tree2)" using 1(1) 3(1) 4(1) by (simp add: pbst_balance_def)
  ultimately show ?thesis using 4(2) r 2(2-4) by (auto simp: reshapes_def)
qed

end
