(* ===== verification/PBST_Traverse.thy ===== *)
theory PBST_Traverse
  imports PBST_Table
begin

text \<open>
  Traversers of tables with parent pointers, and the destruction of a table.  A traverser is a pointer
  to a node; parent pointers make a stack unnecessary.
\<close>

declare fun_upd_apply [simp del]

section \<open>The operations\<close>

text \<open>The node of a traverser; its table is an argument of the operations.\<close>

type_synonym pbst_traverser = "addr option"

definition pbst_t_init :: pbst_traverser where
  "pbst_t_init = None"

text \<open>The data of the node, which the operations return.\<close>

definition pbst_t_at :: "'a pbst_heap \<Rightarrow> addr option \<Rightarrow> ('a option \<times> pbst_traverser) prog" where
  "pbst_t_at h p = pbind (pbst_data_of h p) (\<lambda>x. pret (x, p))"

definition pbst_t_first :: "'a pbst_heap \<Rightarrow> 'a pbst_table \<Rightarrow> ('a option \<times> pbst_traverser) prog" where
  "pbst_t_first h tree =
     (if pbst_root tree \<noteq> None then pbind (pbst_descend h False (pbst_root tree)) (pbst_t_at h)
      else pret (None, None))"

definition pbst_t_last :: "'a pbst_heap \<Rightarrow> 'a pbst_table \<Rightarrow> ('a option \<times> pbst_traverser) prog" where
  "pbst_t_last h tree =
     (if pbst_root tree \<noteq> None then pbind (pbst_descend h True (pbst_root tree)) (pbst_t_at h)
      else pret (None, None))"

definition pbst_t_find :: "'a pbst_heap \<Rightarrow> 'a pbst_table \<Rightarrow> 'a \<Rightarrow> ('a option \<times> pbst_traverser) prog" where
  "pbst_t_find h tree item = pbind (pbst_find_loop h tree item (pbst_root tree)) (pbst_t_at h)"

definition pbst_t_insert ::
  "('a pbst_heap \<Rightarrow> addr option) \<Rightarrow> 'a pbst_heap \<Rightarrow> 'a pbst_table \<Rightarrow> 'a \<Rightarrow>
     ('a option \<times> pbst_traverser \<times> 'a pbst_heap \<times> 'a pbst_table) prog" where
  "pbst_t_insert malloc h tree item =
     pbind (pbst_probe_loop h tree item None False (pbst_root tree)) (\<lambda>(q, dir, p).
       if p \<noteq> None then pbind (pbst_t_at h p) (\<lambda>(x, trav). pret (x, trav, h, tree))
       else
         (case malloc h of
            None \<Rightarrow> pret (None, None, h, tree)
          | Some a \<Rightarrow> pbind (pbst_attach h tree item q dir a) (\<lambda>(h, tree). pret (Some item, Some a, h, tree))))"

definition pbst_t_copy :: "'a pbst_heap \<Rightarrow> pbst_traverser \<Rightarrow> ('a option \<times> pbst_traverser) prog" where
  "pbst_t_copy h src = pbst_t_at h src"

text \<open>The loop that climbs to the first ancestor that is reached from its subtree on side \<open>d\<close>.\<close>

partial_function (option) pbst_climb :: "'a pbst_heap \<Rightarrow> bool \<Rightarrow> addr option \<Rightarrow> addr option \<Rightarrow> addr option prog" where
  "pbst_climb h d p q =
     (if q = None then pret q
      else pbind (link_of h q d) (\<lambda>c.
        if p = c then pret q else pbind (parent_of h q) (\<lambda>u. pbst_climb h d q u)))"

definition pbst_t_next :: "'a pbst_heap \<Rightarrow> 'a pbst_table \<Rightarrow> pbst_traverser \<Rightarrow> ('a option \<times> pbst_traverser) prog" where
  "pbst_t_next h tree trav =
     (if trav = None then pbst_t_first h tree
      else pbind (link_of h trav True) (\<lambda>r.
        if r = None then pbind (parent_of h trav) (\<lambda>q. pbind (pbst_climb h False trav q) (pbst_t_at h))
        else pbind (pbst_descend h False r) (pbst_t_at h)))"

definition pbst_t_prev :: "'a pbst_heap \<Rightarrow> 'a pbst_table \<Rightarrow> pbst_traverser \<Rightarrow> ('a option \<times> pbst_traverser) prog" where
  "pbst_t_prev h tree trav =
     (if trav = None then pbst_t_last h tree
      else pbind (link_of h trav False) (\<lambda>l.
        if l = None then pbind (parent_of h trav) (\<lambda>q. pbind (pbst_climb h True trav q) (pbst_t_at h))
        else pbind (pbst_descend h True l) (pbst_t_at h)))"

definition pbst_t_cur :: "'a pbst_heap \<Rightarrow> pbst_traverser \<Rightarrow> 'a option prog" where
  "pbst_t_cur h trav = pbst_data_of h trav"

definition pbst_t_replace ::
  "'a pbst_heap \<Rightarrow> pbst_traverser \<Rightarrow> 'a \<Rightarrow> ('a option \<times> 'a pbst_heap) prog" where
  "pbst_t_replace h trav new =
     (if trav = None then pfault Assertion_failed
      else pbind (pbst_data_of h trav) (\<lambda>old.
        pbind (assign h trav (put_data (Some new))) (\<lambda>h. pret (old, h))))"

text \<open>
  \<^verbatim>\<open>pbst_destroy\<close> rotates left subtrees away.  It returns the items it hands to the user's function, and
  the heap it leaves.
\<close>

partial_function (option) pbst_destroy_loop ::
  "bool \<Rightarrow> 'a pbst_heap \<Rightarrow> addr option \<Rightarrow> ('a list \<times> 'a pbst_heap) prog" where
  "pbst_destroy_loop destroy h p =
     (if p = None then pret ([], h)
      else pbind (link_of h p False) (\<lambda>l.
        if l = None then
          pbind (link_of h p True) (\<lambda>q.
          pbind (pbst_data_of h p) (\<lambda>x.
          pbind (release h p) (\<lambda>h.
          pbind (pbst_destroy_loop destroy h q) (\<lambda>(xs, h).
          pret ((case x of Some d \<Rightarrow> if destroy then d # xs else xs | None \<Rightarrow> xs), h)))))
        else
          pbind (link_of h l True) (\<lambda>v.
          pbind (assign h p (put_link False v)) (\<lambda>h.
          pbind (assign h l (put_link True p)) (\<lambda>h.
          pbst_destroy_loop destroy h l)))))"

definition pbst_destroy :: "bool \<Rightarrow> 'a pbst_heap \<Rightarrow> 'a pbst_table \<Rightarrow> ('a list \<times> 'a pbst_heap) prog" where
  "pbst_destroy destroy h tree = pbst_destroy_loop destroy h (pbst_root tree)"

text \<open>A loop of a user: \<open>while ((x = pbst_t_next (&trav)) != NULL)\<close> and the same with \<^verbatim>\<open>pbst_t_prev\<close>.\<close>

partial_function (option) pbst_collect ::
  "('a pbst_heap \<Rightarrow> 'a pbst_table \<Rightarrow> pbst_traverser \<Rightarrow> ('a option \<times> pbst_traverser) prog) \<Rightarrow>
     'a pbst_heap \<Rightarrow> 'a pbst_table \<Rightarrow> pbst_traverser \<Rightarrow> 'a list prog" where
  "pbst_collect step h tree trav =
     pbind (step h tree trav) (\<lambda>(x, trav).
       case x of None \<Rightarrow> pret [] | Some d \<Rightarrow> pbind (pbst_collect step h tree trav) (\<lambda>xs. pret (d # xs)))"

section \<open>Climbing\<close>

declare pbst_climb.simps [simp del]

lemma pbst_climb_None [simp]: "pbst_climb h d p None = pret None"
  by (simp add: pbst_climb.simps)

text \<open>Climbing from a node whose subtree on the side is not entered from there.\<close>

lemma pbst_climb_ok:
  assumes "prep h u t" "distinct (addrs t)" "in_tree t p" "subtree t p \<noteq> BNull"
  shows "pbst_climb h False (apex (subtree t p)) (fst (place u e t p)) =
      (case hi_at None t p of None \<Rightarrow> pbst_climb h False (apex t) u | Some c \<Rightarrow> pret (Some c)) \<and>
    pbst_climb h True (apex (subtree t p)) (fst (place u e t p)) =
      (case lo_at None t p of None \<Rightarrow> pbst_climb h True (apex t) u | Some c \<Rightarrow> pret (Some c)) \<and>
    (\<forall>hi. hi_at hi t p = (case hi_at None t p of None \<Rightarrow> hi | Some c \<Rightarrow> Some c)) \<and>
    (\<forall>lo. lo_at lo t p = (case lo_at None t p of None \<Rightarrow> lo | Some c \<Rightarrow> Some c))"
  using assms
proof (induction t p arbitrary: u e rule: in_tree.induct)
  case (3 l y r d ds)
  obtain a x where y: "y = (a, x)" by fastforce
  let ?s = "if d then r else l"
  have n: "h a = Some (pnode u l x r)" "prep h (Some a) ?s" "distinct (addrs ?s)" "in_tree ?s ds" "subtree ?s ds \<noteq> BNull"
    using "3.prems" y by simp_all
  have ih: "pbst_climb h False (apex (subtree ?s ds)) (fst (place (Some a) d ?s ds)) =
      (case hi_at None ?s ds of None \<Rightarrow> pbst_climb h False (apex ?s) (Some a) | Some c \<Rightarrow> pret (Some c))"
    "pbst_climb h True (apex (subtree ?s ds)) (fst (place (Some a) d ?s ds)) =
      (case lo_at None ?s ds of None \<Rightarrow> pbst_climb h True (apex ?s) (Some a) | Some c \<Rightarrow> pret (Some c))"
    "\<And>hi. hi_at hi ?s ds = (case hi_at None ?s ds of None \<Rightarrow> hi | Some c \<Rightarrow> Some c)"
    "\<And>lo. lo_at lo ?s ds = (case lo_at None ?s ds of None \<Rightarrow> lo | Some c \<Rightarrow> Some c)"
    using "3.IH" [OF n(2-5)] by blast+
  have "?s \<noteq> BNull" using n(5) by (cases ds) auto
  then obtain c where c: "apex ?s = Some c" "c \<in> set (addrs ?s)" using top_in by blast
  have "apex (if d then l else r) \<noteq> Some c"
  proof
    assume "apex (if d then l else r) = Some c"
    then have "c \<in> set (addrs (if d then l else r))" by (rule apex_in)
    then show False using c(2) "3.prems"(2) y by (auto split: if_splits)
  qed
  then have up: "pbst_climb h False (apex ?s) (Some a) = (if d then pbst_climb h False (Some a) u else pret (Some a))"
    "pbst_climb h True (apex ?s) (Some a) = (if d then pret (Some a) else pbst_climb h True (Some a) u)"
    using n(1) c(1) by (cases d; subst pbst_climb.simps; auto)+
  define H L where "H = hi_at None ?s ds" and "L = lo_at None ?s ds"
  show ?case
    using ih(1,2) [folded H_def L_def] ih(3) [folded H_def] ih(4) [folded L_def] up y
    by (cases d; cases H; cases L; simp)
qed auto

lemma pbst_climb_root:
  assumes "prep h None t" "distinct (addrs t)" "in_tree t p" "subtree t p = BNode l (a, x) r"
  shows "h a = Some (pnode (fst (place None False t p)) l x r)"
    "pbst_climb h False (Some a) (fst (place None False t p)) = pret (first_addr (rights t p) None)"
    "pbst_climb h True (Some a) (fst (place None False t p)) = pret (last_addr (lefts t p) None)"
proof -
  show "h a = Some (pnode (fst (place None False t p)) l x r)"
    using prep_subtree [OF assms(1), of False p] assms(4) by simp
  have "subtree t p \<noteq> BNull" using assms(4) by simp
  from pbst_climb_ok [OF assms(1-3) this, of False]
  show "pbst_climb h False (Some a) (fst (place None False t p)) = pret (first_addr (rights t p) None)"
    "pbst_climb h True (Some a) (fst (place None False t p)) = pret (last_addr (lefts t p) None)"
    using assms(4) hi_at_rights [OF assms(3), of None] lo_at_lefts [OF assms(3), of None]
    by (auto split: option.splits)
qed

section \<open>Traversal of a table\<close>

lemma pbst_t_at_None [simp]: "pbst_t_at h None = pret (None, None)"
  by (simp add: pbst_t_at_def)

lemma pbst_next_prev_mid:
  assumes "planted h tree t" "bst_inorder t = xs @ (a, x) # ys"
  shows "pbst_t_next h tree' (Some a) = pbst_t_at h (first_addr ys None)"
    "pbst_t_prev h tree' (Some a) = pbst_t_at h (last_addr xs None)"
proof -
  obtain p l r where p: "in_tree t p" "subtree t p = BNode l (a, x) r" "xs = lefts t p @ bst_inorder l"
    "ys = bst_inorder r @ rights t p"
    using inorder_path [OF assms(2)] by blast
  note c = pbst_climb_root [OF plantedD(2,3) [OF assms(1)] p(1,2)]
  have s: "lrep h l" "lrep h r" using lrep_subtree [OF plantedD(4) [OF assms(1)], of p] p(2) by auto
  show "pbst_t_next h tree' (Some a) = pbst_t_at h (first_addr ys None)"
    using c(1,2) s(2) p(4) pbst_descend_tip [of h r False] tip_ends(1) [of r]
    by (cases "r = BNull") (simp_all add: pbst_t_next_def first_addr_append)
  show "pbst_t_prev h tree' (Some a) = pbst_t_at h (last_addr xs None)"
    using c(1,3) s(1) p(3) pbst_descend_tip [of h l True] tip_ends(2) [of l]
    by (cases "l = BNull") (simp_all add: pbst_t_prev_def last_addr_append)
qed

lemma pbst_pairs_rep:
  assumes "pbst_for cmp h tree"
  shows "planted h tree (pbst_tree h tree)" "bst_inorder (pbst_tree h tree) = pbst_pairs h tree"
    "distinct (map fst (pbst_pairs h tree))" "pbst_items h tree = map (\<lambda>y. the (snd y)) (pbst_pairs h tree)"
    "pbst_nodes h tree = map fst (pbst_pairs h tree)"
  using assms by (simp_all add: pbst_for_def planted_def pbst_pairs_def addrs_def pbst_items_def datas_def pbst_nodes_def)

lemma pbst_pair_at:
  assumes "pbst_for cmp h tree" "pbst_pairs h tree = xs @ (a, x) # ys"
  shows "\<exists>d. x = Some d" "pbst_data_of h (Some a) = pret x" "pbst_t_at h (Some a) = pret (x, Some a)"
proof -
  obtain p l r where p: "in_tree (pbst_tree h tree) p" "subtree (pbst_tree h tree) p = BNode l (a, x) r"
    using inorder_path assms(2) pbst_pairs_rep(2) [OF assms(1)] by metis
  obtain u where n: "h a = Some (pnode u l x r)" using pbst_stands(1) [OF assms(1) p] by blast
  show "\<exists>d. x = Some d" using assms by (auto simp: pbst_for_def filled_def pbst_pairs_def)
  show "pbst_data_of h (Some a) = pret x" using n by simp
  then show "pbst_t_at h (Some a) = pret (x, Some a)" by (simp add: pbst_t_at_def)
qed

lemma pbst_next_prev_pairs:
  assumes "pbst_for cmp h tree" "pbst_pairs h tree = xs @ (a, x) # ys"
  shows "pbst_t_next h tree (Some a) = pbst_t_at h (first_addr ys None)"
    "pbst_t_prev h tree (Some a) = pbst_t_at h (last_addr xs None)"
  using pbst_next_prev_mid pbst_pairs_rep(1,2) [OF assms(1)] assms(2) by metis+

lemma pbst_ends:
  assumes "pbst_for cmp h tree"
  shows "pbst_t_next h tree None = pbst_t_at h (first_addr (pbst_pairs h tree) None)"
    "pbst_t_prev h tree None = pbst_t_at h (last_addr (pbst_pairs h tree) None)"
proof -
  let ?t = "pbst_tree h tree"
  note f = pbst_forD(6,7) [OF assms] and r = pbst_pairs_rep(2) [OF assms]
  have "pbst_t_next h tree None = pbst_t_at h (first_addr (bst_inorder ?t) None) \<and>
      pbst_t_prev h tree None = pbst_t_at h (last_addr (bst_inorder ?t) None)"
    using f pbst_descend_tip [OF f(1)] tip_ends [of ?t]
    by (cases "?t = BNull") (simp_all add: pbst_t_next_def pbst_t_prev_def pbst_t_first_def pbst_t_last_def)
  then show "pbst_t_next h tree None = pbst_t_at h (first_addr (pbst_pairs h tree) None)"
    "pbst_t_prev h tree None = pbst_t_at h (last_addr (pbst_pairs h tree) None)"
    by (simp_all add: r)
qed

declare pbst_collect.simps [simp del]

lemma pbst_collect_next:
  assumes "pbst_for cmp h tree"
  shows "pbst_pairs h tree = xs @ ys \<Longrightarrow>
    pbst_collect pbst_t_next h tree (last_addr xs None) = pret (map (\<lambda>y. the (snd y)) ys)"
proof (induction ys arbitrary: xs)
  case Nil
  have "pbst_t_next h tree (last_addr xs None) = pret (None, None)"
    using Nil pbst_ends(1) [OF assms] pbst_next_prev_pairs(1) [OF assms, of "butlast xs" "fst (List.last xs)" "snd (List.last xs)" "[]"]
    by (cases xs rule: rev_exhaust) simp_all
  then show ?case by (subst pbst_collect.simps) simp
next
  case (Cons y ys)
  obtain a x where y: "y = (a, x)" by fastforce
  obtain d where d: "x = Some d" using pbst_pair_at(1) [OF assms] Cons.prems y by blast
  have at: "pbst_t_at h (Some a) = pret (Some d, Some a)" using pbst_pair_at(3) [OF assms] Cons.prems y d by metis
  have "pbst_t_next h tree (last_addr xs None) = pret (Some d, Some a)"
    using Cons.prems y at pbst_ends(1) [OF assms]
      pbst_next_prev_pairs(1) [OF assms, of "butlast xs" "fst (List.last xs)" "snd (List.last xs)" "y # ys"]
    by (cases xs rule: rev_exhaust) simp_all
  then show ?case using Cons.IH [of "xs @ [y]"] Cons.prems y d by (subst pbst_collect.simps) simp
qed

lemma pbst_collect_prev:
  assumes "pbst_for cmp h tree"
  shows "pbst_pairs h tree = xs @ ys \<Longrightarrow>
    pbst_collect pbst_t_prev h tree (first_addr ys None) = pret (map (\<lambda>y. the (snd y)) (rev xs))"
proof (induction xs arbitrary: ys rule: rev_induct)
  case Nil
  have "pbst_t_prev h tree (first_addr ys None) = pret (None, None)"
    using Nil pbst_ends(2) [OF assms] pbst_next_prev_pairs(2) [OF assms, of "[]" "fst (hd ys)" "snd (hd ys)" "tl ys"]
    by (cases ys) simp_all
  then show ?case by (subst pbst_collect.simps) simp
next
  case (snoc y xs)
  obtain a x where y: "y = (a, x)" by fastforce
  obtain d where d: "x = Some d" using pbst_pair_at(1) [OF assms, of xs a x ys] snoc.prems y by auto
  have at: "pbst_t_at h (Some a) = pret (Some d, Some a)" using pbst_pair_at(3) [OF assms, of xs a x ys] snoc.prems y d by simp
  have "pbst_t_prev h tree (first_addr ys None) = pret (Some d, Some a)"
    using snoc.prems y at pbst_ends(2) [OF assms]
      pbst_next_prev_pairs(2) [OF assms, of "xs @ [y]" "fst (hd ys)" "snd (hd ys)" "tl ys"]
    by (cases ys) simp_all
  then show ?case using snoc.IH [of "y # ys"] snoc.prems y d by (subst pbst_collect.simps) simp
qed

section \<open>Destruction\<close>

declare pbst_destroy_loop.simps [simp del]

text \<open>The loop frees a tree whose parent pointers may be wrong, in order.\<close>

lemma pbst_destroy_loop_ok:
  "lrep h t \<Longrightarrow> distinct (addrs t) \<Longrightarrow>
    \<exists>h'. pbst_destroy_loop destroy h (apex t) = pret (called destroy (bst_inorder t), h') \<and>
      agree (- set (addrs t)) h h' \<and> (\<forall>a\<in>set (addrs t). h' a = None)"
proof (induction t arbitrary: h rule: bst_destroy_loop.induct)
  case 1
  then show ?case by (subst pbst_destroy_loop.simps) (simp add: called_def)
next
  case (2 y r)
  obtain a x where y: "y = (a, x)" by fastforce
  obtain u where n: "h a = Some (pnode u BNull x r)" "lrep h r" "a \<notin> set (addrs r)" "distinct (addrs r)"
    using "2.prems" y by auto
  have "lrep (h(a := None)) r" using n by simp
  then obtain h' where h': "pbst_destroy_loop destroy (h(a := None)) (apex r) = pret (called destroy (bst_inorder r), h')"
    "agree (- set (addrs r)) (h(a := None)) h'" "\<forall>b\<in>set (addrs r). h' b = None"
    using "2.IH" n(4) by blast
  have "pbst_destroy_loop destroy h (Some a) = pret (called destroy (y # bst_inorder r), h')"
    using n(1) h'(1) y by (subst pbst_destroy_loop.simps) (auto simp: called_def split: option.splits)
  moreover have "h' a = None" using agreeD [OF h'(2), of a] n(3) by simp
  moreover have "agree (- set (addrs (BNode BNull (a, x) r))) h h'"
    using h'(2) by (auto simp: agree_def)
  ultimately show ?case using y h'(3) by auto
next
  case (3 ql qy qr y r)
  obtain a x b z where y: "y = (a, x)" "qy = (b, z)" by fastforce
  obtain u v where n: "h a = Some (pnode u (BNode ql (b, z) qr) x r)" "h b = Some (pnode v ql z qr)" "lrep h ql" "lrep h qr" "lrep h r"
    using "3.prems"(1) y by auto
  have dis: "a \<noteq> b" "b \<noteq> a" "a \<notin> set (addrs ql)" "a \<notin> set (addrs qr)" "a \<notin> set (addrs r)" "b \<notin> set (addrs ql)"
    "b \<notin> set (addrs qr)" "b \<notin> set (addrs r)" using "3.prems"(2) y by auto
  let ?h = "h(a \<mapsto> pnode u qr x r, b \<mapsto> pnode v ql z (BNode qr (a, x) r))"
  have "lrep ?h (BNode ql qy (BNode qr y r))" using n dis y by auto
  moreover have ad: "addrs (BNode ql qy (BNode qr y r)) = addrs (BNode (BNode ql qy qr) y r)" using y by simp
  ultimately obtain h' where h': "pbst_destroy_loop destroy ?h (Some b) = pret (called destroy (bst_inorder (BNode ql qy (BNode qr y r))), h')"
    "agree (- set (addrs (BNode ql qy (BNode qr y r)))) ?h h'" "\<forall>c\<in>set (addrs (BNode ql qy (BNode qr y r))). h' c = None"
    using "3.IH" [of ?h] "3.prems"(2) y by auto
  have e: "put_link True (Some a) (pnode v ql z qr) = pnode v ql z (BNode qr (a, x) r)" by simp
  have "pbst_destroy_loop destroy h (Some a) =
      pbst_destroy_loop destroy (h(a \<mapsto> pnode u qr x r, b \<mapsto> put_link True (Some a) (pnode v ql z qr))) (Some b)"
    using n dis by (subst pbst_destroy_loop.simps) simp
  then have "pbst_destroy_loop destroy h (Some a) = pbst_destroy_loop destroy ?h (Some b)" unfolding e .
  moreover have "agree (- set (addrs (BNode (BNode ql qy qr) y r))) h ?h" using y by (simp add: agree_upd)
  then have "agree (- set (addrs (BNode (BNode ql qy qr) y r))) h h'" using h'(2) unfolding ad by (rule agree_trans)
  ultimately show ?case using h'(1,3) y unfolding ad by (intro exI [of _ h']) simp
qed

lemma pbst_destroy_ok:
  assumes "lrep h t" "distinct (addrs t)" "pbst_root tree = apex t"
  shows "\<exists>h'. pbst_destroy destroy h tree = pret (called destroy (bst_inorder t), h') \<and>
    agree (- set (addrs t)) h h' \<and> (\<forall>a\<in>set (addrs t). h' a = None)"
  using pbst_destroy_loop_ok [OF assms(1,2)] assms(3) by (simp add: pbst_destroy_def)

end
