(* ===== verification/PBST_Copy.thy ===== *)
theory PBST_Copy
  imports PBST_Traverse
begin

text \<open>
  \<^verbatim>\<open>pbst_copy\<close> of \<open>pbst.c\<close>: the original and the copy are walked in parallel along children and parents.

  The code uses \<open>(struct pbst_node *) &new->pbst_root\<close>, the new table seen as a node, as the parent of the
  root of the copy until it is finished.  So during the copy the block of the new table is a node on the heap:
  its left link is \<open>pbst_root\<close>, and where a node has its right link, its parent pointer and its data, the
  table has \<open>pbst_compare\<close>, \<open>pbst_param\<close> and \<open>pbst_alloc\<close>.
\<close>

declare fun_upd_apply [simp del]

section \<open>The operations\<close>

text \<open>What a table is as a node; \<open>code\<close> and \<open>alloc\<close> are the pointers to its function and to its allocator.\<close>

definition table_cell :: "addr option \<Rightarrow> 'a option \<Rightarrow> 'a pbst_table \<Rightarrow> 'a pbst_node" where
  "table_cell code alloc tree =
     \<lparr>pbst_link = (\<lambda>d. if d then code else pbst_root tree), pbst_parent = pbst_param tree, pbst_data = alloc\<rparr>"

text \<open>
  The loop to the left, and whether it succeeded.  \<open>x\<close> is a place of the original \<open>org\<close>, \<open>y\<close> the node of the copy, \<open>new\<close>
  the block of the new table; \<open>raw\<close> says what a block holds when it is handed out.
\<close>

partial_function (option) pbst_copy_left ::
  "('a pbst_heap \<Rightarrow> addr option) \<Rightarrow> (addr \<Rightarrow> 'a pbst_node) \<Rightarrow> addr \<Rightarrow> 'a pbst_table \<Rightarrow>
     'a pbst_heap \<Rightarrow> addr option \<Rightarrow> addr option \<Rightarrow> ('a pbst_heap \<times> addr option \<times> addr option \<times> bool) prog" where
  "pbst_copy_left malloc raw new org h x y =
     pbind (pbst_get h org x False) (\<lambda>l.
       if l = None then pbind (assign h y (put_link False None)) (\<lambda>h. pret (h, x, y, True))
       else
         (case malloc h of
            None \<Rightarrow>
              pbind (assign h y (put_link False None)) (\<lambda>h.
              pbind (if y = Some new then pret h
                     else pbind (assign h y (put_data None)) (\<lambda>h. assign h y (put_link True None))) (\<lambda>h.
              pret (h, x, y, False)))
          | Some a \<Rightarrow>
              pbind (assign (h(a \<mapsto> raw a)) y (put_link False (Some a))) (\<lambda>h.
              pbind (assign h (Some a) (put_parent y)) (\<lambda>h.
              pbst_copy_left malloc raw new org h l (Some a)))))"

text \<open>The data of a node is copied: whether it succeeded.\<close>

definition pbst_copy_item ::
  "'a copier \<Rightarrow> 'a pbst_heap \<Rightarrow> addr option \<Rightarrow> addr option \<Rightarrow> ('a pbst_heap \<times> bool) prog" where
  "pbst_copy_item copy h x y =
     pbind (fetch h x) (\<lambda>s.
       case copy of
         None \<Rightarrow> pbind (assign h y (put_data (pbst_data s))) (\<lambda>h. pret (h, True))
       | Some f \<Rightarrow>
           pbind (assign h y (put_data (f (pbst_data s)))) (\<lambda>h.
             if f (pbst_data s) = None then pbind (assign h y (put_link True None)) (\<lambda>h. pret (h, False))
             else pret (h, True)))"

text \<open>The loop that climbs: \<open>None\<close> at the root, or else the nodes reached from the left.\<close>

partial_function (option) pbst_copy_up ::
  "'a pbst_heap \<Rightarrow> addr option \<Rightarrow> addr option \<Rightarrow> (addr option \<times> addr option) option prog" where
  "pbst_copy_up h x y =
     pbind (parent_of h x) (\<lambda>u.
       if u = None then pret None
       else
         pbind (parent_of h y) (\<lambda>v.
         pbind (link_of h u False) (\<lambda>c.
           if x = c then pret (Some (u, v)) else pbst_copy_up h u v)))"

text \<open>What the inner loop comes to: a failure at a node of the copy, the end, or a step to the right.\<close>

datatype pbst_round = Round_failed "addr option" | Round_done | Round_at "addr option" "addr option"

partial_function (option) pbst_copy_inner ::
  "('a pbst_heap \<Rightarrow> addr option) \<Rightarrow> 'a copier \<Rightarrow> (addr \<Rightarrow> 'a pbst_node) \<Rightarrow>
     'a pbst_heap \<Rightarrow> addr option \<Rightarrow> addr option \<Rightarrow> ('a pbst_heap \<times> pbst_round) prog" where
  "pbst_copy_inner malloc copy raw h x y =
     pbind (pbst_copy_item copy h x y) (\<lambda>(h, ok).
       if \<not> ok then pret (h, Round_failed y)
       else pbind (link_of h x True) (\<lambda>r.
         if r \<noteq> None then
           (case malloc h of
              None \<Rightarrow> pbind (assign h y (put_link True None)) (\<lambda>h. pret (h, Round_failed y))
            | Some a \<Rightarrow>
                pbind (assign (h(a \<mapsto> raw a)) y (put_link True (Some a))) (\<lambda>h.
                pbind (assign h (Some a) (put_parent y)) (\<lambda>h.
                pret (h, Round_at r (Some a)))))
         else
           pbind (assign h y (put_link True None)) (\<lambda>h.
           pbind (pbst_copy_up h x y) (\<lambda>res.
             case res of None \<Rightarrow> pret (h, Round_done) | Some (x, y) \<Rightarrow> pbst_copy_inner malloc copy raw h x y))))"

text \<open>The outer loop: \<open>None\<close> when the copy is complete, or else the node of the copy at which it failed.\<close>

partial_function (option) pbst_copy_loop ::
  "('a pbst_heap \<Rightarrow> addr option) \<Rightarrow> 'a copier \<Rightarrow> (addr \<Rightarrow> 'a pbst_node) \<Rightarrow> addr \<Rightarrow> 'a pbst_table \<Rightarrow>
     'a pbst_heap \<Rightarrow> addr option \<Rightarrow> addr option \<Rightarrow> ('a pbst_heap \<times> addr option option) prog" where
  "pbst_copy_loop malloc copy raw new org h x y =
     pbind (pbst_copy_left malloc raw new org h x y) (\<lambda>(h, x, y, ok).
       if \<not> ok then pret (h, Some y)
       else pbind (pbst_copy_inner malloc copy raw h x y) (\<lambda>(h, st).
         case st of
           Round_failed y \<Rightarrow> pret (h, Some y)
         | Round_done \<Rightarrow> pret (h, None)
         | Round_at x y \<Rightarrow> pbst_copy_loop malloc copy raw new org h x y))"

text \<open>The loop of \<^verbatim>\<open>copy_error_recovery\<close>.\<close>

partial_function (option) pbst_recovery_loop :: "'a pbst_heap \<Rightarrow> addr option \<Rightarrow> 'a pbst_heap prog" where
  "pbst_recovery_loop h p =
     pbind (parent_of h p) (\<lambda>q.
       if q = None then pret h
       else
         pbind (link_of h q False) (\<lambda>c.
         pbind (if p = c then assign h q (put_link True None) else pret h) (\<lambda>h.
         pbst_recovery_loop h q)))"

definition pbst_copy_recovery ::
  "bool \<Rightarrow> 'a pbst_heap \<Rightarrow> addr option \<Rightarrow> addr \<Rightarrow> 'a pbst_table \<Rightarrow> ('a list \<times> 'a pbst_heap) prog" where
  "pbst_copy_recovery destroy h y t new =
     pbind (pbst_recovery_loop h y) (\<lambda>h.
     pbind (link_of h (Some t) False) (\<lambda>root.
     pbind (pbst_destroy destroy h (new\<lparr>pbst_root := root\<rparr>)) (\<lambda>(xs, h).
     pbind (release h (Some t)) (\<lambda>h. pret (xs, h)))))"

text \<open>
  The result is what the destructor was given, the new table and the heap; the block of a table that is returned is
  no longer seen as a node.
\<close>

definition pbst_copy ::
  "('a pbst_heap \<Rightarrow> addr option) \<Rightarrow> 'a copier \<Rightarrow> bool \<Rightarrow> (addr \<Rightarrow> 'a pbst_node) \<Rightarrow> addr option \<Rightarrow> 'a option \<Rightarrow>
     'a pbst_heap \<Rightarrow> 'a pbst_table \<Rightarrow> ('a list \<times> 'a pbst_table option \<times> 'a pbst_heap) prog" where
  "pbst_copy malloc copy destroy raw code alloc h org =
     (case pbst_create (malloc h \<noteq> None) (pbst_compare org) (pbst_param org) of
        None \<Rightarrow> pret ([], None, h)
      | Some new \<Rightarrow>
          let new = new\<lparr>pbst_count := pbst_count org\<rparr>; t = the (malloc h) in
          if pbst_count new = 0 then pret ([], Some new, h)
          else
            pbind (pbst_copy_loop malloc copy raw t org (h(t \<mapsto> table_cell code alloc new)) None (Some t)) (\<lambda>(h, res).
              case res of
                None \<Rightarrow>
                  pbind (link_of h (Some t) False) (\<lambda>root.
                  pbind (assign h root (put_parent None)) (\<lambda>h.
                  pret ([], Some (new\<lparr>pbst_root := root\<rparr>), h(t := None))))
              | Some y \<Rightarrow> pbind (pbst_copy_recovery destroy h y t new) (\<lambda>(xs, h). pret (xs, None, h))))"

section \<open>The loops, step by step\<close>

declare pbst_copy_left.simps [simp del] pbst_copy_up.simps [simp del] pbst_copy_inner.simps [simp del]
  pbst_copy_loop.simps [simp del] pbst_recovery_loop.simps [simp del]

text \<open>The rest of the copy at a node whose left subtree is done, and at one whose whole subtree is done.\<close>

definition copy_after ::
  "('a pbst_heap \<Rightarrow> addr option) \<Rightarrow> 'a copier \<Rightarrow> (addr \<Rightarrow> 'a pbst_node) \<Rightarrow> addr \<Rightarrow> 'a pbst_table \<Rightarrow>
     'a pbst_heap \<times> pbst_round \<Rightarrow> ('a pbst_heap \<times> addr option option) prog" where
  "copy_after malloc copy raw new org = (\<lambda>(h, st).
     case st of
       Round_failed y \<Rightarrow> pret (h, Some y)
     | Round_done \<Rightarrow> pret (h, None)
     | Round_at x y \<Rightarrow> pbst_copy_loop malloc copy raw new org h x y)"

definition copy_mid ::
  "('a pbst_heap \<Rightarrow> addr option) \<Rightarrow> 'a copier \<Rightarrow> (addr \<Rightarrow> 'a pbst_node) \<Rightarrow> addr \<Rightarrow> 'a pbst_table \<Rightarrow>
     'a pbst_heap \<Rightarrow> addr option \<Rightarrow> addr option \<Rightarrow> ('a pbst_heap \<times> addr option option) prog" where
  "copy_mid malloc copy raw new org h x y =
     pbind (pbst_copy_inner malloc copy raw h x y) (copy_after malloc copy raw new org)"

definition copy_out ::
  "('a pbst_heap \<Rightarrow> addr option) \<Rightarrow> 'a copier \<Rightarrow> (addr \<Rightarrow> 'a pbst_node) \<Rightarrow> addr \<Rightarrow> 'a pbst_table \<Rightarrow>
     'a pbst_heap \<Rightarrow> addr option \<Rightarrow> addr option \<Rightarrow> ('a pbst_heap \<times> addr option option) prog" where
  "copy_out malloc copy raw new org h x y =
     pbind (pbst_copy_up h x y) (\<lambda>res.
       case res of None \<Rightarrow> pret (h, None) | Some (x, y) \<Rightarrow> copy_mid malloc copy raw new org h x y)"

lemma copy_loop_left:
  "pbst_copy_loop malloc copy raw new org h x y =
     pbind (pbst_copy_left malloc raw new org h x y) (\<lambda>(h, x, y, ok).
       if \<not> ok then pret (h, Some y) else copy_mid malloc copy raw new org h x y)"
  unfolding copy_mid_def copy_after_def by (rule pbst_copy_loop.simps)

lemma copy_loop_leaf:
  "pbst_get h org x False = pret None \<Longrightarrow> h b = Some m \<Longrightarrow>
     pbst_copy_loop malloc copy raw new org h x (Some b) =
       copy_mid malloc copy raw new org (h(b \<mapsto> put_link False None m)) x (Some b)"
  unfolding copy_loop_left by (subst pbst_copy_left.simps) simp

lemma copy_loop_full:
  "pbst_get h org x False = pret (Some c) \<Longrightarrow> malloc h = None \<Longrightarrow> h b = Some m \<Longrightarrow>
     pbst_copy_loop malloc copy raw new org h x (Some b) =
       pret (h(b \<mapsto> (if b = new then put_link False None m else put_link True None (put_data None (put_link False None m)))),
         Some (Some b))"
  unfolding copy_loop_left by (subst pbst_copy_left.simps) simp

lemma copy_loop_down:
  "pbst_get h org x False = pret (Some c) \<Longrightarrow> malloc h = Some e \<Longrightarrow> h b = Some m \<Longrightarrow> e \<noteq> b \<Longrightarrow>
     pbst_copy_loop malloc copy raw new org h x (Some b) =
       pbst_copy_loop malloc copy raw new org (h(b \<mapsto> put_link False (Some e) m, e \<mapsto> put_parent (Some b) (raw e))) (Some c) (Some e)"
  unfolding copy_loop_left by (subst pbst_copy_left.simps) (simp add: fun_upd_twist)

lemma copy_mid_null:
  "h a = Some n \<Longrightarrow> h b = Some m \<Longrightarrow> copy \<noteq> None \<Longrightarrow> copied copy (pbst_data n) = None \<Longrightarrow>
     copy_mid malloc copy raw new org h (Some a) (Some b) =
       pret (h(b \<mapsto> put_link True None (put_data None m)), Some (Some b))"
  unfolding copy_mid_def
  by (subst pbst_copy_inner.simps) (auto simp: pbst_copy_item_def copied_def copy_after_def)

lemma pbst_copy_item_ok:
  "h a = Some n \<Longrightarrow> h b = Some m \<Longrightarrow> copy = None \<or> copied copy (pbst_data n) \<noteq> None \<Longrightarrow>
     pbst_copy_item copy h (Some a) (Some b) = pret (h(b \<mapsto> put_data (copied copy (pbst_data n)) m), True)"
  by (auto simp: pbst_copy_item_def copied_def split: option.splits)

lemma copy_mid_leaf:
  "h a = Some n \<Longrightarrow> h b = Some m \<Longrightarrow> copy = None \<or> copied copy (pbst_data n) \<noteq> None \<Longrightarrow> a \<noteq> b \<Longrightarrow> pbst_link n True = None \<Longrightarrow>
     copy_mid malloc copy raw new org h (Some a) (Some b) =
       copy_out malloc copy raw new org (h(b \<mapsto> put_link True None (put_data (copied copy (pbst_data n)) m))) (Some a) (Some b)"
  unfolding copy_mid_def copy_out_def
  by (subst pbst_copy_inner.simps)
    (auto simp: pbst_copy_item_ok pbind_assoc copy_after_def intro!: arg_cong [where f = "pbind m" for m] split: option.splits)

lemma copy_mid_full:
  "h a = Some n \<Longrightarrow> h b = Some m \<Longrightarrow> copy = None \<or> copied copy (pbst_data n) \<noteq> None \<Longrightarrow> a \<noteq> b \<Longrightarrow> pbst_link n True = Some c \<Longrightarrow>
     malloc (h(b \<mapsto> put_data (copied copy (pbst_data n)) m)) = None \<Longrightarrow>
     copy_mid malloc copy raw new org h (Some a) (Some b) =
       pret (h(b \<mapsto> put_link True None (put_data (copied copy (pbst_data n)) m)), Some (Some b))"
  unfolding copy_mid_def by (subst pbst_copy_inner.simps) (simp add: pbst_copy_item_ok copy_after_def)

lemma copy_mid_down:
  "h a = Some n \<Longrightarrow> h b = Some m \<Longrightarrow> copy = None \<or> copied copy (pbst_data n) \<noteq> None \<Longrightarrow> a \<noteq> b \<Longrightarrow> pbst_link n True = Some c \<Longrightarrow>
     malloc (h(b \<mapsto> put_data (copied copy (pbst_data n)) m)) = Some e \<Longrightarrow> e \<noteq> b \<Longrightarrow>
     copy_mid malloc copy raw new org h (Some a) (Some b) =
       pbst_copy_loop malloc copy raw new org
         (h(b \<mapsto> put_link True (Some e) (put_data (copied copy (pbst_data n)) m), e \<mapsto> put_parent (Some b) (raw e))) (Some c) (Some e)"
  unfolding copy_mid_def
  by (subst pbst_copy_inner.simps) (simp add: pbst_copy_item_ok copy_after_def fun_upd_twist)

lemma copy_out_left:
  "h c = Some n \<Longrightarrow> pbst_parent n = Some a \<Longrightarrow> h e = Some m \<Longrightarrow> pbst_parent m = Some b \<Longrightarrow> h a = Some k \<Longrightarrow>
     pbst_link k False = Some c \<Longrightarrow>
     copy_out malloc copy raw new org h (Some c) (Some e) = copy_mid malloc copy raw new org h (Some a) (Some b)"
  unfolding copy_out_def by (subst pbst_copy_up.simps) simp

lemma copy_out_right:
  "h c = Some n \<Longrightarrow> pbst_parent n = Some a \<Longrightarrow> h e = Some m \<Longrightarrow> pbst_parent m = Some b \<Longrightarrow> h a = Some k \<Longrightarrow>
     pbst_link k False \<noteq> Some c \<Longrightarrow>
     copy_out malloc copy raw new org h (Some c) (Some e) = copy_out malloc copy raw new org h (Some a) (Some b)"
  unfolding copy_out_def by (subst pbst_copy_up.simps) (simp add: eq_commute [of "Some c"])

lemma recovery_left:
  "h e = Some k \<Longrightarrow> pbst_parent k = Some b \<Longrightarrow> h b = Some m \<Longrightarrow> pbst_link m False = Some e \<Longrightarrow>
     pbst_recovery_loop h (Some e) = pbst_recovery_loop (h(b \<mapsto> put_link True None m)) (Some b)"
  by (subst pbst_recovery_loop.simps) simp

lemma recovery_right:
  "h e = Some k \<Longrightarrow> pbst_parent k = Some b \<Longrightarrow> h b = Some m \<Longrightarrow> pbst_link m False \<noteq> Some e \<Longrightarrow>
     pbst_recovery_loop h (Some e) = pbst_recovery_loop h (Some b)"
  by (subst pbst_recovery_loop.simps) (simp add: eq_commute [of "Some e"])

section \<open>The walk\<close>

text \<open>Since the heap was \<open>h\<close>, exactly the nodes of \<open>s\<close> but its root \<open>b\<close> were allocated, and nothing else has changed.\<close>

definition handed_out :: "('a pbst_heap \<Rightarrow> addr option) \<Rightarrow> 'a pbst_heap \<Rightarrow> addr set \<Rightarrow> bool" where
  "handed_out malloc h A \<longleftrightarrow> (\<forall>e\<in>A. h e = None \<and> (\<exists>g. malloc g = Some e))"

definition built ::
  "('a pbst_heap \<Rightarrow> addr option) \<Rightarrow> addr \<Rightarrow> 'a pbst_heap \<Rightarrow> 'a pbst_heap \<Rightarrow> 'a ghost \<Rightarrow> bool" where
  "built malloc b h h' s \<longleftrightarrow> apex s = Some b \<and> distinct (addrs s) \<and> handed_out malloc h (set (addrs s) - {b}) \<and>
     agree (- set (addrs s)) h h'"

lemma handed_out_free: "handed_out malloc h A \<Longrightarrow> e \<in> A \<Longrightarrow> h e = None"
  by (simp add: handed_out_def)

lemma handed_out_subset: "handed_out malloc h A \<Longrightarrow> B \<subseteq> A \<Longrightarrow> handed_out malloc h B"
  by (auto simp: handed_out_def)

lemma handed_out_empty [simp]: "handed_out malloc h {}"
  by (simp add: handed_out_def)

lemma handed_out_Un: "handed_out malloc h A \<Longrightarrow> handed_out malloc h B \<Longrightarrow> handed_out malloc h (A \<union> B)"
  by (auto simp: handed_out_def)

text \<open>Data in a copy that was given up: copies of items, null, or what the block held when it was handed out.\<close>

definition from_raw :: "'a copier \<Rightarrow> (addr \<Rightarrow> 'a pbst_node) \<Rightarrow> 'a ghost \<Rightarrow> 'a ghost \<Rightarrow> bool" where
  "from_raw copy raw s v \<longleftrightarrow> (\<forall>(e, z)\<in>set (bst_inorder v).
     z = None \<or> z = pbst_data (raw e) \<or> (\<exists>y\<in>set (bst_inorder s). z = copied copy (snd y)))"

lemma from_raw_simps [simp]:
  "from_raw copy raw s BNull"
  "from_raw copy raw s (BNode l (e, z) r) \<longleftrightarrow> from_raw copy raw s l \<and> from_raw copy raw s r \<and>
     (z = None \<or> z = pbst_data (raw e) \<or> (\<exists>y\<in>set (bst_inorder s). z = copied copy (snd y)))"
  by (auto simp: from_raw_def)

lemma from_raw_mono: "from_raw copy raw s v \<Longrightarrow> set (bst_inorder s) \<subseteq> set (bst_inorder t) \<Longrightarrow> from_raw copy raw t v"
  unfolding from_raw_def by fast

lemma copies_from_raw: "copies_of copy s v \<Longrightarrow> from_raw copy raw s v"
proof (induction copy s v rule: copies_of.induct)
  case (2 copy l a x r u)
  then obtain l' b r' where u: "u = BNode l' (b, copied copy x) r'" "copies_of copy l l'" "copies_of copy r r'" by auto
  have "from_raw copy raw (BNode l (a, x) r) l'" by (rule from_raw_mono [OF "2.IH"(1) [OF u(2)]]) auto
  moreover have "from_raw copy raw (BNode l (a, x) r) r'" by (rule from_raw_mono [OF "2.IH"(2) [OF u(3)]]) auto
  ultimately show ?case using u(1) by auto
qed simp

lemma copy_safe_sub: "copy_safe malloc copy t \<Longrightarrow> set (bst_inorder s) \<subseteq> set (bst_inorder t) \<Longrightarrow> copy_safe malloc copy s"
  unfolding copy_safe_def by blast

lemma copy_unsafe: "finite (dom h) \<Longrightarrow> malloc h = None \<Longrightarrow> \<not> copy_safe malloc copy s"
  unfolding copy_safe_def by blast

text \<open>
  The walk below the node \<open>b\<close> of the copy, whose parent is \<open>w\<close>, fails: what the recovery does up to \<open>b\<close> leaves a tree.
\<close>

definition walk_fails ::
  "('a pbst_heap \<Rightarrow> addr option) \<Rightarrow> 'a copier \<Rightarrow> (addr \<Rightarrow> 'a pbst_node) \<Rightarrow> 'a pbst_heap \<Rightarrow> addr \<Rightarrow> addr option \<Rightarrow> 'a ghost \<Rightarrow>
     ('a pbst_heap \<times> addr option option) prog \<Rightarrow> bool" where
  "walk_fails malloc copy raw h b w s m \<longleftrightarrow> (\<exists>h' y h'' v n. m = pret (h', Some y) \<and>
     pbst_recovery_loop h' y = pbst_recovery_loop h'' (Some b) \<and> lrep h'' v \<and> built malloc b h h'' v \<and>
     h'' b = Some n \<and> pbst_parent n = w \<and> from_raw copy raw s v \<and> \<not> copy_safe malloc copy s)"

text \<open>It succeeds: the rest of the copy goes on above \<open>a\<close> and \<open>b\<close>.\<close>

definition walk_ends ::
  "('a pbst_heap \<Rightarrow> addr option) \<Rightarrow> 'a copier \<Rightarrow> (addr \<Rightarrow> 'a pbst_node) \<Rightarrow> addr \<Rightarrow> 'a pbst_table \<Rightarrow>
     'a pbst_heap \<Rightarrow> addr \<Rightarrow> addr \<Rightarrow> addr option \<Rightarrow> 'a ghost \<Rightarrow> ('a pbst_heap \<times> addr option option) prog \<Rightarrow> bool" where
  "walk_ends malloc copy raw new org h a b w s m \<longleftrightarrow> (\<exists>h' v. m = copy_out malloc copy raw new org h' (Some a) (Some b) \<and>
     prep h' w v \<and> built malloc b h h' v \<and> copies_of copy s v \<and> (copy \<noteq> None \<longrightarrow> filled v))"

text \<open>The node \<open>b\<close> is the copy of the root \<open>a\<close> of \<open>s\<close>.\<close>

definition copy_starts ::
  "(addr \<Rightarrow> 'a pbst_node) \<Rightarrow> addr \<Rightarrow> 'a pbst_heap \<Rightarrow> addr option \<Rightarrow> addr \<Rightarrow> addr \<Rightarrow> 'a pbst_node \<Rightarrow> 'a ghost \<Rightarrow> bool" where
  "copy_starts raw new h u a b m s \<longleftrightarrow> prep h u s \<and> distinct (addrs s) \<and> apex s = Some a \<and> h b = Some m \<and>
     b \<notin> set (addrs s) \<and> b \<noteq> new \<and> h new \<noteq> None \<and> finite (dom h) \<and> pbst_data m = pbst_data (raw b)"

definition copy_walks ::
  "('a pbst_heap \<Rightarrow> addr option) \<Rightarrow> 'a copier \<Rightarrow> (addr \<Rightarrow> 'a pbst_node) \<Rightarrow> addr \<Rightarrow> 'a pbst_table \<Rightarrow> 'a ghost \<Rightarrow> bool" where
  "copy_walks malloc copy raw new org s \<longleftrightarrow> (\<forall>h u a b m. copy_starts raw new h u a b m s \<longrightarrow>
     walk_fails malloc copy raw h b (pbst_parent m) s (pbst_copy_loop malloc copy raw new org h (Some a) (Some b)) \<or>
     walk_ends malloc copy raw new org h a b (pbst_parent m) s (pbst_copy_loop malloc copy raw new org h (Some a) (Some b)))"

text \<open>A block is handed out for a child of \<open>b\<close>.\<close>

lemma child_starts:
  assumes "prep h u s" "distinct (addrs s)" "apex s = Some c" "b \<notin> set (addrs s)" "h b = Some m" "h e = None"
    and "h new \<noteq> None" "finite (dom h)"
  shows "copy_starts raw new (h(b \<mapsto> k, e \<mapsto> put_parent (Some b) (raw e))) u c e (put_parent (Some b) (raw e)) s"
proof -
  have "e \<notin> set (addrs s)" using prep_alloc [OF assms(1)] assms(6) by blast
  then show ?thesis using assms by (auto simp: copy_starts_def fun_upd_apply)
qed

lemma built_child:
  assumes "built malloc e (h(b \<mapsto> k, e \<mapsto> x)) h' v" "malloc g = Some e" "h e = None" "h b \<noteq> None"
  shows "h' b = Some k" "b \<notin> set (addrs v)" "agree (- insert b (set (addrs v))) h h'" "handed_out malloc h (set (addrs v))"
    "distinct (addrs v)" "apex v = Some e" "e \<in> set (addrs v)"
proof -
  let ?h = "h(b \<mapsto> k, e \<mapsto> x)"
  have be: "b \<noteq> e" using assms(3,4) by auto
  have n: "handed_out malloc ?h (set (addrs v) - {e})" and ag: "agree (- set (addrs v)) ?h h'"
    and v: "distinct (addrs v)" "apex v = Some e"
    using assms(1) by (simp_all add: built_def)
  show b: "b \<notin> set (addrs v)"
  proof
    assume "b \<in> set (addrs v)"
    then have "?h b = None" using handed_out_free [OF n, of b] be by simp
    then show False using be by simp
  qed
  show "h' b = Some k" using agreeD [OF ag, of b] b be by simp
  show ev: "e \<in> set (addrs v)" by (rule apex_in [OF v(2)])
  show "agree (- insert b (set (addrs v))) h h'" using ag ev by (auto simp: agree_def fun_upd_apply)
  show "handed_out malloc h (set (addrs v))" unfolding handed_out_def
  proof
    fix f
    assume f: "f \<in> set (addrs v)"
    show "h f = None \<and> (\<exists>g. malloc g = Some f)"
    proof (cases "f = e")
      case False
      then have "?h f = None \<and> (\<exists>g. malloc g = Some f)" using n f unfolding handed_out_def by blast
      then show ?thesis using False f b by (auto simp: fun_upd_apply split: if_splits)
    qed (use assms(2,3) in auto)
  qed
  show "distinct (addrs v)" "apex v = Some e" by (rule v)+
qed

text \<open>The left subtree.\<close>

lemma copy_walk_left:
  assumes st: "copy_starts raw new h u a b m (BNode l (a, x) r)" and al: "allocator malloc"
    and ih: "copy_walks malloc copy raw new org l"
  obtains (fails) "walk_fails malloc copy raw h b (pbst_parent m) (BNode l (a, x) r)
      (pbst_copy_loop malloc copy raw new org h (Some a) (Some b))"
  | (goes) h1 l' m1 where "pbst_copy_loop malloc copy raw new org h (Some a) (Some b) = copy_mid malloc copy raw new org h1 (Some a) (Some b)"
      "agree (- insert b (set (addrs l'))) h h1" "handed_out malloc h (set (addrs l'))" "distinct (addrs l')"
      "h1 b = Some m1" "pbst_link m1 False = apex l'" "pbst_parent m1 = pbst_parent m" "prep h1 (Some b) l'"
      "copies_of copy l l'" "copy \<noteq> None \<longrightarrow> filled l'"
proof -
  have n: "h a = Some (pnode u l x r)" "prep h (Some a) l" "distinct (addrs l)" "a \<noteq> b" "b \<notin> set (addrs l)"
    "h b = Some m" "b \<noteq> new" "h new \<noteq> None" "finite (dom h)" "pbst_data m = pbst_data (raw b)"
    using st by (auto simp: copy_starts_def)
  have g: "pbst_get h org (Some a) False = pret (apex l)" using n(1) by (simp add: pbst_get_def)
  have sub: "set (bst_inorder l) \<subseteq> set (bst_inorder (BNode l (a, x) r))" by auto
  show thesis
  proof (cases "apex l")
    case None
    then have "l = BNull" by simp
    let ?h = "h(b \<mapsto> put_link False None m)"
    have "pbst_copy_loop malloc copy raw new org h (Some a) (Some b) = copy_mid malloc copy raw new org ?h (Some a) (Some b)"
      using copy_loop_leaf g None n(6) by metis
    then show ?thesis by (rule goes [of ?h BNull "put_link False None m"]) (use \<open>l = BNull\<close> in \<open>simp_all add: agree_upd\<close>)
  next
    case (Some c)
    then have g: "pbst_get h org (Some a) False = pret (Some c)" using g by simp
    show ?thesis
    proof (cases "malloc h")
      case None
      let ?k = "put_link True None (put_data None (put_link False None m))"
      have e: "?k = pnode (pbst_parent m) BNull None BNull" by (simp add: eq_pnode)
      have "pbst_copy_loop malloc copy raw new org h (Some a) (Some b) = pret (h(b \<mapsto> ?k), Some (Some b))"
        using copy_loop_full [where h = h and malloc = malloc, OF g None n(6)] n(7) by simp
      moreover have "\<not> copy_safe malloc copy (BNode l (a, x) r)" by (rule copy_unsafe [where h = h and malloc = malloc, OF n(9) None])
      ultimately have "walk_fails malloc copy raw h b (pbst_parent m) (BNode l (a, x) r)
          (pbst_copy_loop malloc copy raw new org h (Some a) (Some b))"
        unfolding walk_fails_def e
        by (intro exI [of _ "h(b \<mapsto> pnode (pbst_parent m) BNull None BNull)"] exI [of _ "Some b"] exI [of _ "BNode BNull (b, None) BNull"]
            exI [of _ "pnode (pbst_parent m) BNull None BNull"]) (auto simp: built_def agree_upd)
      then show ?thesis by (rule fails)
    next
      case (Some e)
      have he: "h e = None" using al Some by (rule allocatorD)
      then have eb: "e \<noteq> b" using n(6) by auto
      let ?m = "put_link False (Some e) m" and ?k = "put_parent (Some b) (raw e)"
      let ?h = "h(b \<mapsto> ?m, e \<mapsto> ?k)"
      have run: "pbst_copy_loop malloc copy raw new org h (Some a) (Some b) = pbst_copy_loop malloc copy raw new org ?h (Some c) (Some e)"
        by (rule copy_loop_down [where h = h and malloc = malloc, OF g Some n(6) eb])
      have "copy_starts raw new ?h (Some a) c e ?k l"
        by (rule child_starts [where h = h, OF n(2,3) \<open>apex l = Some c\<close> n(5,6) he n(8,9)])
      then have "walk_fails malloc copy raw ?h e (Some b) l (pbst_copy_loop malloc copy raw new org ?h (Some c) (Some e)) \<or>
          walk_ends malloc copy raw new org ?h c e (Some b) l (pbst_copy_loop malloc copy raw new org ?h (Some c) (Some e))"
        using ih unfolding copy_walks_def by fastforce
      then show ?thesis
      proof
        assume "walk_fails malloc copy raw ?h e (Some b) l (pbst_copy_loop malloc copy raw new org ?h (Some c) (Some e))"
        then obtain h' y h'' v k where f: "pbst_copy_loop malloc copy raw new org ?h (Some c) (Some e) = pret (h', Some y)"
          "pbst_recovery_loop h' y = pbst_recovery_loop h'' (Some e)" "lrep h'' v" "built malloc e ?h h'' v"
          "h'' e = Some k" "pbst_parent k = Some b" "from_raw copy raw l v" "\<not> copy_safe malloc copy l"
          unfolding walk_fails_def by blast
        have bm: "h b \<noteq> None" using n(6) by simp
        note bc = built_child [where h = h and malloc = malloc, OF f(4) Some he bm]
        let ?m2 = "pnode (pbst_parent m) v (pbst_data m) BNull"
        let ?h2 = "h''(b \<mapsto> ?m2)"
        have e2: "put_link True None ?m = ?m2" using bc(6) by (simp add: eq_pnode)
        have "pbst_recovery_loop h'' (Some e) = pbst_recovery_loop ?h2 (Some b)"
          using recovery_left [where h = h'', OF f(5,6) bc(1)] unfolding e2 by simp
        moreover have "lrep ?h2 (BNode v (b, pbst_data m) BNull)" using f(3) bc(2) by auto
        moreover have "built malloc b h ?h2 (BNode v (b, pbst_data m) BNull)"
          using bc(2-5) by (auto simp: built_def agree_def fun_upd_apply)
        moreover have "from_raw copy raw (BNode l (a, x) r) (BNode v (b, pbst_data m) BNull)"
          using from_raw_mono [OF f(7) sub] n(10) by simp
        moreover have "\<not> copy_safe malloc copy (BNode l (a, x) r)" using f(8) copy_safe_sub [OF _ sub] by blast
        ultimately have "walk_fails malloc copy raw h b (pbst_parent m) (BNode l (a, x) r)
            (pbst_copy_loop malloc copy raw new org h (Some a) (Some b))"
          unfolding walk_fails_def run
          by (intro exI [of _ h'] exI [of _ y] exI [of _ ?h2] exI [of _ "BNode v (b, pbst_data m) BNull"] exI [of _ ?m2])
            (use f(1,2) in simp)
        then show ?thesis by (rule fails)
      next
        assume "walk_ends malloc copy raw new org ?h c e (Some b) l (pbst_copy_loop malloc copy raw new org ?h (Some c) (Some e))"
        then obtain h' v where f: "pbst_copy_loop malloc copy raw new org ?h (Some c) (Some e) = copy_out malloc copy raw new org h' (Some c) (Some e)"
          "prep h' (Some b) v" "built malloc e ?h h' v" "copies_of copy l v" "copy \<noteq> None \<longrightarrow> filled v"
          unfolding walk_ends_def by blast
        have bm: "h b \<noteq> None" using n(6) by simp
        note bc = built_child [where h = h and malloc = malloc, OF f(3) Some he bm]
        have keep: "h' z = h z" if "h z \<noteq> None" "z \<noteq> b" for z
        proof -
          have "z \<notin> set (addrs v)" using that(1) handed_out_free [OF bc(4)] by auto
          then show ?thesis using agreeD [OF bc(3), of z] that(2) by simp
        qed
        obtain lc x' rc where l: "l = BNode lc (c, x') rc" using apex_Some [OF \<open>apex l = Some c\<close>] by blast
        have "h' c = Some (pnode (Some a) lc x' rc)" using keep [of c] n(2,5) l by auto
        moreover obtain k where "h' e = Some k" "pbst_parent k = Some b" using f(2) apex_Some [OF bc(6)] by auto
        moreover have "h' a = Some (pnode u l x r)" using keep [of a] n(1,4) by simp
        ultimately have "copy_out malloc copy raw new org h' (Some c) (Some e) = copy_mid malloc copy raw new org h' (Some a) (Some b)"
          using copy_out_left [where h = h' and c = c and e = e and a = a and b = b] \<open>apex l = Some c\<close> by simp
        then have "pbst_copy_loop malloc copy raw new org h (Some a) (Some b) = copy_mid malloc copy raw new org h' (Some a) (Some b)"
          using run f(1) by simp
        then show ?thesis by (rule goes [OF _ bc(3,4,5,1)]) (use f bc(6) in simp_all)
      qed
    qed
  qed
qed

text \<open>The node itself and its right subtree.\<close>

lemma copy_walk_right:
  assumes st: "copy_starts raw new h u a b m (BNode l (a, x) r)" and al: "allocator malloc"
    and ih: "copy_walks malloc copy raw new org r"
    and l1: "agree (- insert b (set (addrs l'))) h h1" "handed_out malloc h (set (addrs l'))" "distinct (addrs l')"
      "h1 b = Some m1" "pbst_link m1 False = apex l'" "pbst_parent m1 = w" "prep h1 (Some b) l'"
      "copies_of copy l l'" "copy \<noteq> None \<longrightarrow> filled l'"
  shows "walk_fails malloc copy raw h b w (BNode l (a, x) r) (copy_mid malloc copy raw new org h1 (Some a) (Some b)) \<or>
    walk_ends malloc copy raw new org h a b w (BNode l (a, x) r) (copy_mid malloc copy raw new org h1 (Some a) (Some b))"
proof -
  let ?M = "copy_mid malloc copy raw new org h1 (Some a) (Some b)" and ?s = "BNode l (a, x) r" and ?y = "copied copy x"
  have n: "h a = Some (pnode u l x r)" "prep h (Some a) r" "distinct (addrs r)" "a \<noteq> b" "b \<notin> set (addrs r)"
    "h b \<noteq> None" "b \<noteq> new" "h new \<noteq> None" "finite (dom h)"
    using st by (auto simp: copy_starts_def)
  have keep: "h1 z = h z" if "h z \<noteq> None" "z \<noteq> b" for z
  proof -
    have "z \<notin> set (addrs l')" using that(1) handed_out_free [OF l1(2)] by auto
    then show ?thesis using agreeD [OF l1(1), of z] that(2) by simp
  qed
  have a1: "h1 a = Some (pnode u l x r)" using keep [of a] n(1,4) by simp
  have bl: "b \<notin> set (addrs l')" using handed_out_free [OF l1(2)] n(6) by auto
  have lr: "lrep h1 l'" "from_raw copy raw ?s l'"
    using prep_lrep [OF l1(7)] from_raw_mono [OF copies_from_raw [OF l1(8)], of ?s] by auto
  have xy: "(a, x) \<in> set (bst_inorder ?s)" by simp
  have "dom h1 \<subseteq> dom h \<union> insert b (set (addrs l'))" using l1(1) by (auto simp: agree_def)
  then have fin: "finite (dom h1)" using n(9) finite_subset by fastforce
  have stop: "walk_fails malloc copy raw h b w ?s (pret (h1(b \<mapsto> pnode w l' z BNull), Some (Some b)))"
    if "\<not> copy_safe malloc copy ?s" "z = None \<or> z = ?y" for z
  proof -
    let ?h = "h1(b \<mapsto> pnode w l' z BNull)"
    have "lrep ?h (BNode l' (b, z) BNull)" using lr bl by auto
    moreover have "built malloc b h ?h (BNode l' (b, z) BNull)"
      using l1(1-3) bl by (auto simp: built_def agree_def fun_upd_apply)
    moreover have "from_raw copy raw ?s (BNode l' (b, z) BNull)" using lr(2) that(2) by auto
    ultimately show ?thesis unfolding walk_fails_def using that(1)
      by (intro exI [of _ ?h] exI [of _ "Some b"] exI [of _ "BNode l' (b, z) BNull"] exI [of _ "pnode w l' z BNull"]) simp
  qed
  show ?thesis
  proof (cases "copy \<noteq> None \<and> ?y = None")
    case True
    have "put_link True None (put_data None m1) = pnode w l' None BNull" using l1(5,6) by (simp add: eq_pnode)
    then have "?M = pret (h1(b \<mapsto> pnode w l' None BNull), Some (Some b))"
      using copy_mid_null [where h = h1, OF a1 l1(4), of copy] True by simp
    moreover have "\<not> copy_safe malloc copy ?s" using True xy unfolding copy_safe_def by fastforce
    ultimately show ?thesis using stop [of None] by simp
  next
    case False
    then have ok: "copy = None \<or> copied copy (pbst_data (pnode u l x r)) \<noteq> None" by auto
    have fl: "copy \<noteq> None \<longrightarrow> ?y \<noteq> None" using False by auto
    show ?thesis
    proof (cases "apex r")
      case None
      then have r: "r = BNull" "pbst_link (pnode u l x r) True = None" by simp_all
      let ?h = "h1(b \<mapsto> pnode w l' ?y BNull)" and ?v = "BNode l' (b, ?y) BNull"
      have "put_link True None (put_data ?y m1) = pnode w l' ?y BNull" using l1(5,6) by (simp add: eq_pnode)
      then have "?M = copy_out malloc copy raw new org ?h (Some a) (Some b)"
        using copy_mid_leaf [where h = h1, OF a1 l1(4) ok n(4) r(2)] by simp
      moreover have "prep ?h w ?v" using l1(7) bl by simp
      moreover have "built malloc b h ?h ?v" using l1(1-3) bl by (auto simp: built_def agree_def fun_upd_apply)
      moreover have "copies_of copy ?s ?v" "copy \<noteq> None \<longrightarrow> filled ?v" using l1(8,9) r(1) fl by simp_all
      ultimately show ?thesis unfolding walk_ends_def by blast
    next
      case (Some c)
      then have r: "pbst_link (pnode u l x r) True = Some c" by simp
      let ?h0 = "h1(b \<mapsto> put_data ?y m1)"
      show ?thesis
      proof (cases "malloc ?h0")
        case None
        have "put_link True None (put_data ?y m1) = pnode w l' ?y BNull" using l1(5,6) by (simp add: eq_pnode)
        then have "?M = pret (h1(b \<mapsto> pnode w l' ?y BNull), Some (Some b))"
          using copy_mid_full [where h = h1 and malloc = malloc, OF a1 l1(4) ok n(4) r] None by simp
        moreover have "\<not> copy_safe malloc copy ?s" by (rule copy_unsafe [where h = ?h0 and malloc = malloc, OF _ None]) (use fin in simp)
        ultimately show ?thesis using stop [of ?y] by simp
      next
        case (Some e)
        have "?h0 e = None" using al Some by (rule allocatorD)
        then have eb: "e \<noteq> b" and h1e: "h1 e = None" by (auto simp: fun_upd_apply split: if_splits)
        have he: "h e = None" using keep [of e] h1e eb by (cases "h e = None") auto
        have el: "e \<notin> set (addrs l')" using prep_alloc [OF l1(7)] h1e by blast
        let ?m = "put_link True (Some e) (put_data ?y m1)" and ?k = "put_parent (Some b) (raw e)"
        let ?h = "h1(b \<mapsto> ?m, e \<mapsto> ?k)"
        have run: "?M = pbst_copy_loop malloc copy raw new org ?h (Some c) (Some e)"
          using copy_mid_down [where h = h1 and malloc = malloc, OF a1 l1(4) ok n(4) r _ eb] Some by simp
        have r1: "prep h1 (Some a) r"
        proof (rule prep_agree [OF n(2)])
          show "agree (set (addrs r)) h h1" unfolding agree_def
          proof
            fix f
            assume f: "f \<in> set (addrs r)"
            then have "f \<noteq> b" using n(5) by auto
            then show "h1 f = h f" by (rule keep [OF prep_alloc [OF n(2) f]])
          qed
        qed
        have "h1 new \<noteq> None" using keep [OF n(8)] n(7,8) by auto
        from child_starts [where h = h1, OF r1 n(3) \<open>apex r = Some c\<close> n(5) l1(4) h1e this fin]
        have "copy_starts raw new ?h (Some a) c e ?k r" .
        then have "walk_fails malloc copy raw ?h e (Some b) r ?M \<or> walk_ends malloc copy raw new org ?h c e (Some b) r ?M"
          using ih unfolding copy_walks_def run by fastforce
        moreover have b1: "h1 b \<noteq> None" using l1(4) by simp
        moreover have lv: "agree (set (addrs l')) h1 h2" "set (addrs l') \<inter> set (addrs v) = {}"
          if "agree (- insert b (set (addrs v))) h1 h2" "handed_out malloc h1 (set (addrs v))" for h2 and v :: "'a ghost"
        proof -
          show "set (addrs l') \<inter> set (addrs v) = {}" using handed_out_free [OF that(2)] prep_alloc [OF l1(7)] by (metis disjoint_iff)
          then show "agree (set (addrs l')) h1 h2" by (intro agree_subset [OF that(1)]) (use bl in auto)
        qed
        moreover have bu: "built malloc b h h3 (BNode l' (b, z) v)"
          if "agree (- insert b (set (addrs v))) h1 h3" "handed_out malloc h1 (set (addrs v))" "distinct (addrs v)" "b \<notin> set (addrs v)"
          for h3 z and v :: "'a ghost"
        proof -
          have "handed_out malloc h (set (addrs v))" unfolding handed_out_def
          proof
            fix f
            assume f: "f \<in> set (addrs v)"
            then have "h1 f = None" "f \<noteq> b" "\<exists>g. malloc g = Some f" using that(2,4) by (auto simp: handed_out_def)
            then show "h f = None \<and> (\<exists>g. malloc g = Some f)" using keep [of f] by (cases "h f = None") auto
          qed
          from handed_out_Un [OF l1(2) this] have "handed_out malloc h (set (addrs (BNode l' (b, z) v)) - {b})"
            by (rule handed_out_subset) auto
          moreover have "agree (- set (addrs (BNode l' (b, z) v))) h h3"
            by (rule agree_trans [OF agree_subset [OF l1(1)] agree_subset [OF that(1)]]) auto
          ultimately show ?thesis using l1(3) bl that(3,4) lv(2) [OF that(1,2)] by (auto simp: built_def)
        qed
        ultimately show ?thesis
        proof (elim disjE)
          assume "walk_fails malloc copy raw ?h e (Some b) r ?M"
          then obtain h' y h'' v k where f: "?M = pret (h', Some y)"
            "pbst_recovery_loop h' y = pbst_recovery_loop h'' (Some e)" "lrep h'' v" "built malloc e ?h h'' v"
            "h'' e = Some k" "pbst_parent k = Some b" "from_raw copy raw r v" "\<not> copy_safe malloc copy r"
            unfolding walk_fails_def by blast
          note bc = built_child [where h = h1 and malloc = malloc, OF f(4) Some h1e b1]
          have m: "?m = pnode w l' ?y v" using bc(6) l1(5,6) by (simp add: eq_pnode)
          have "pbst_link ?m False \<noteq> Some e" using l1(5) el apex_in [of l' e] by auto
          then have "pbst_recovery_loop h'' (Some e) = pbst_recovery_loop h'' (Some b)"
            by (rule recovery_right [where h = h'', OF f(5,6) bc(1)])
          moreover have "lrep h'' (BNode l' (b, ?y) v)"
            using lrep_agree [OF lr(1) lv(1) [OF bc(3,4)]] bc(1) f(3) unfolding m by auto
          moreover have "from_raw copy raw ?s (BNode l' (b, ?y) v)"
            using lr(2) from_raw_mono [OF f(7), of ?s] by auto
          moreover have "\<not> copy_safe malloc copy ?s" using f(8) copy_safe_sub [of malloc copy ?s r] by auto
          ultimately have "walk_fails malloc copy raw h b w ?s ?M"
            unfolding walk_fails_def using bu [OF bc(3,4,5,2), of ?y] f(1,2) bc(1) unfolding m
            by (intro exI [of _ h'] exI [of _ y] exI [of _ h''] exI [of _ "BNode l' (b, ?y) v"] exI [of _ "pnode w l' ?y v"]) simp
          then show ?thesis by simp
        next
          assume "walk_ends malloc copy raw new org ?h c e (Some b) r ?M"
          then obtain h' v where f: "?M = copy_out malloc copy raw new org h' (Some c) (Some e)"
            "prep h' (Some b) v" "built malloc e ?h h' v" "copies_of copy r v" "copy \<noteq> None \<longrightarrow> filled v"
            unfolding walk_ends_def by blast
          note bc = built_child [where h = h1 and malloc = malloc, OF f(3) Some h1e b1]
          have m: "?m = pnode w l' ?y v" using bc(6) l1(5,6) by (simp add: eq_pnode)
          have keep': "h' z = h z" if "h z \<noteq> None" "z \<noteq> b" for z
          proof -
            have "z \<notin> set (addrs v)" using that(1) keep [OF that] handed_out_free [OF bc(4)] by fastforce
            then show ?thesis using agreeD [OF bc(3), of z] keep [OF that] that(2) by simp
          qed
          obtain lc x' rc where rr: "r = BNode lc (c, x') rc" using apex_Some [OF \<open>apex r = Some c\<close>] by blast
          have "h' c = Some (pnode (Some a) lc x' rc)" using keep' [of c] n(2,5) rr by auto
          moreover obtain k where "h' e = Some k" "pbst_parent k = Some b" using f(2) apex_Some [OF bc(6)] by auto
          moreover have "h' a = Some (pnode u l x r)" using keep' [of a] n(1,4) by simp
          moreover have "apex l \<noteq> Some c"
          proof
            assume "apex l = Some c"
            then have "c \<in> set (addrs l)" "c \<in> set (addrs r)" using apex_in \<open>apex r = Some c\<close> by blast+
            then show False using st by (auto simp: copy_starts_def)
          qed
          ultimately have "?M = copy_out malloc copy raw new org h' (Some a) (Some b)"
            using f(1) copy_out_right [where h = h' and c = c and e = e and a = a and b = b] by simp
          moreover have "prep h' w (BNode l' (b, ?y) v)"
            using prep_agree [OF l1(7) lv(1) [OF bc(3,4)]] bc(1) f(2) unfolding m by simp
          moreover have "copies_of copy ?s (BNode l' (b, ?y) v)" "copy \<noteq> None \<longrightarrow> filled (BNode l' (b, ?y) v)"
            using l1(8,9) f(4,5) fl by simp_all
          ultimately have "walk_ends malloc copy raw new org h a b w ?s ?M"
            using bu [OF bc(3,4,5,2), of ?y] unfolding walk_ends_def by blast
          then show ?thesis by simp
        qed
      qed
    qed
  qed
qed

lemma copy_walks_ok:
  assumes "allocator malloc"
  shows "copy_walks malloc copy raw new org s"
proof (induction s)
  case BNull
  then show ?case by (simp add: copy_walks_def copy_starts_def)
next
  case (BNode l y r)
  show ?case unfolding copy_walks_def
  proof (intro allI impI)
    fix h u a b m
    assume st: "copy_starts raw new h u a b m (BNode l y r)"
    then obtain x where y: "y = (a, x)" by (cases y) (auto simp: copy_starts_def)
    have st: "copy_starts raw new h u a b m (BNode l (a, x) r)" using st y by simp
    show "walk_fails malloc copy raw h b (pbst_parent m) (BNode l y r) (pbst_copy_loop malloc copy raw new org h (Some a) (Some b)) \<or>
      walk_ends malloc copy raw new org h a b (pbst_parent m) (BNode l y r) (pbst_copy_loop malloc copy raw new org h (Some a) (Some b))"
    proof (cases rule: copy_walk_left [OF st assms BNode.IH(1)])
      case 1
      then show ?thesis using y by simp
    next
      case (2 h1 l' m1)
      show ?thesis using copy_walk_right [OF st assms BNode.IH(2) 2(2-10)] unfolding 2(1) y .
    qed
  qed
qed

section \<open>The whole copy\<close>

text \<open>
  The recovery from the table itself, as a node.  It ends there when the user's parameter is null; otherwise it goes
  on at what the parameter points to.
\<close>

lemma recovery_table:
  "h t = Some n \<Longrightarrow> pbst_parent n = None \<Longrightarrow> pbst_recovery_loop h (Some t) = pret h"
  "h t = Some n \<Longrightarrow> pbst_parent n = Some u \<Longrightarrow> h u = None \<Longrightarrow> pbst_recovery_loop h (Some t) = pfault Dangling_pointer"
  by (subst pbst_recovery_loop.simps; simp add: link_of_def fetch_def)+

text \<open>What a copy comes to that is given up in the heap \<open>h'\<close> at the node \<open>y\<close>.\<close>

lemma pbst_copy_gives_up:
  assumes "pbst_recovery_loop h' y = pbst_recovery_loop h'' (Some t)" "lrep h'' v" "distinct (addrs v)"
    and "h'' t = Some n" "pbst_link n False = apex v" "pbst_parent n = param" "t \<notin> set (addrs v)"
    and "agree (- insert t (set (addrs v))) h h''" "handed_out malloc h (set (addrs v))" "h t = None"
  shows "param = None \<Longrightarrow> pbst_copy_recovery destroy h' y t new = pret (called destroy (bst_inorder v), h)"
    and "param = Some u \<Longrightarrow> h u = None \<Longrightarrow> u \<noteq> t \<Longrightarrow> (\<And>g. malloc g \<noteq> Some u) \<Longrightarrow>
      pbst_copy_recovery destroy h' y t new = pfault Dangling_pointer"
proof -
  assume p: "param = None"
  obtain h3 where h3: "pbst_destroy destroy h'' (new\<lparr>pbst_root := apex v\<rparr>) = pret (called destroy (bst_inorder v), h3)"
    "agree (- set (addrs v)) h'' h3" "\<forall>a\<in>set (addrs v). h3 a = None"
    using pbst_destroy_ok [OF assms(2,3), of "new\<lparr>pbst_root := apex v\<rparr>"] by auto
  have "h3 t = Some n" using agreeD [OF h3(2), of t] assms(4,7) by simp
  moreover have "pbst_recovery_loop h' y = pret h''" using recovery_table(1) assms(1,4,6) p by metis
  ultimately have "pbst_copy_recovery destroy h' y t new = pret (called destroy (bst_inorder v), h3(t := None))"
    using assms(4,5) h3(1) by (simp add: pbst_copy_recovery_def)
  moreover have "h3(t := None) = h"
  proof
    fix e
    consider "e = t" | "e \<in> set (addrs v)" "e \<noteq> t" | "e \<notin> set (addrs v)" "e \<noteq> t" by blast
    then show "(h3(t := None)) e = h e"
    proof cases
      case 1
      then show ?thesis using assms(10) by simp
    next
      case 2
      then show ?thesis using h3(3) handed_out_free [OF assms(9)] by simp
    next
      case 3
      then show ?thesis using agreeD [OF h3(2), of e] agreeD [OF assms(8), of e] by simp
    qed
  qed
  ultimately show "pbst_copy_recovery destroy h' y t new = pret (called destroy (bst_inorder v), h)" by simp
next
  assume u: "param = Some u" "h u = None" "u \<noteq> t" "\<And>g. malloc g \<noteq> Some u"
  have "u \<notin> set (addrs v)" using assms(9) u(4) by (auto simp: handed_out_def)
  then have "h'' u = None" using agreeD [OF assms(8), of u] u(2,3) by simp
  then have "pbst_recovery_loop h' y = pfault Dangling_pointer"
    using recovery_table(2) [where h = h'', OF assms(4)] assms(1,6) u(1) by simp
  then show "pbst_copy_recovery destroy h' y t new = pfault Dangling_pointer" by (simp add: pbst_copy_recovery_def)
qed

text \<open>The loop from the pseudo nodes; \<open>h1\<close> is the heap with the new table as a node at \<open>t\<close>.\<close>

lemma pbst_copy_loop_ok:
  assumes "prep h None s" "distinct (addrs s)" "s \<noteq> BNull" "pbst_root org = apex s" "allocator malloc" "finite (dom h)"
    and "h t = None" "h1 = h(t \<mapsto> k)"
  obtains (fails) h' y h'' v n where "pbst_copy_loop malloc copy raw t org h1 None (Some t) = pret (h', Some y)"
      "pbst_recovery_loop h' y = pbst_recovery_loop h'' (Some t)" "lrep h'' v" "distinct (addrs v)"
      "h'' t = Some n" "pbst_link n False = apex v" "pbst_parent n = pbst_parent k" "t \<notin> set (addrs v)"
      "agree (- insert t (set (addrs v))) h h''" "handed_out malloc h (set (addrs v))"
      "from_raw copy raw s v" "\<not> copy_safe malloc copy s"
  | (ends) h' b v n where "pbst_copy_loop malloc copy raw t org h1 None (Some t) = pret (h', None)" "apex v = Some b"
      "prep h' (Some t) v" "distinct (addrs v)" "h' t = Some n" "pbst_link n False = Some b" "t \<notin> set (addrs v)"
      "agree (- insert t (set (addrs v))) h h'" "handed_out malloc h (set (addrs v))" "copies_of copy s v"
      "copy \<noteq> None \<longrightarrow> filled v"
proof -
  obtain a where a: "apex s = Some a" using top_in [OF assms(3)] by blast
  have g: "pbst_get h1 org None False = pret (Some a)" using assms(4) a by (simp add: pbst_get_def)
  have ts: "t \<notin> set (addrs s)" using prep_alloc [OF assms(1)] assms(7) by blast
  have h1: "h1 t = Some k" "prep h1 None s" "finite (dom h1)" using assms ts by simp_all
  show thesis
  proof (cases "malloc h1")
    case None
    let ?h = "h1(t \<mapsto> put_link False None k)"
    have "pbst_copy_loop malloc copy raw t org h1 None (Some t) = pret (?h, Some (Some t))"
      using copy_loop_full [where h = h1 and malloc = malloc, OF g None h1(1), where new = t] by simp
    moreover have "\<not> copy_safe malloc copy s" by (rule copy_unsafe [where h = h1 and malloc = malloc, OF h1(3) None])
    moreover have "agree (- {t}) h ?h" by (simp add: assms(8) agree_upd)
    ultimately show ?thesis by (intro fails [of ?h "Some t" ?h BNull "put_link False None k"]) simp_all
  next
    case (Some b)
    have hb: "h1 b = None" using assms(5) Some by (rule allocatorD)
    then have bt: "b \<noteq> t" "h b = None" using h1(1) assms(8) by (auto simp: fun_upd_apply split: if_splits)
    let ?m = "put_parent (Some t) (raw b)"
    let ?h = "h1(t \<mapsto> put_link False (Some b) k, b \<mapsto> ?m)"
    have run: "pbst_copy_loop malloc copy raw t org h1 None (Some t) = pbst_copy_loop malloc copy raw t org ?h (Some a) (Some b)"
      by (rule copy_loop_down [where h = h1 and malloc = malloc, OF g Some h1(1) bt(1)])
    have tn: "h1 t \<noteq> None" using h1(1) by simp
    have "copy_starts raw t ?h None a b ?m s"
      by (rule child_starts [where h = h1, OF h1(2) assms(2) a ts h1(1) hb tn h1(3)])
    then have "walk_fails malloc copy raw ?h b (Some t) s (pbst_copy_loop malloc copy raw t org ?h (Some a) (Some b)) \<or>
        walk_ends malloc copy raw t org ?h a b (Some t) s (pbst_copy_loop malloc copy raw t org ?h (Some a) (Some b))"
      using copy_walks_ok [OF assms(5), of copy raw t org s] unfolding copy_walks_def by fastforce
    moreover have fr: "agree (- insert t (set (addrs v))) h h2" "handed_out malloc h (set (addrs v))"
      if "agree (- insert t (set (addrs v))) h1 h2" "handed_out malloc h1 (set (addrs v))" "t \<notin> set (addrs v)"
      for h2 and v :: "'a ghost"
    proof -
      show "agree (- insert t (set (addrs v))) h h2" using that(1) unfolding assms(8) by (simp add: agree_upd_left)
      have "h e = h1 e" if "e \<in> set (addrs v)" for e
        using that \<open>t \<notin> set (addrs v)\<close> unfolding assms(8) by (cases "e = t") simp_all
      then show "handed_out malloc h (set (addrs v))" using that(2) by (simp add: handed_out_def)
    qed
    ultimately show ?thesis
    proof (elim disjE)
      assume "walk_fails malloc copy raw ?h b (Some t) s (pbst_copy_loop malloc copy raw t org ?h (Some a) (Some b))"
      then obtain h' y h'' v n where f: "pbst_copy_loop malloc copy raw t org ?h (Some a) (Some b) = pret (h', Some y)"
        "pbst_recovery_loop h' y = pbst_recovery_loop h'' (Some b)" "lrep h'' v" "built malloc b ?h h'' v"
        "h'' b = Some n" "pbst_parent n = Some t" "from_raw copy raw s v" "\<not> copy_safe malloc copy s"
        unfolding walk_fails_def by blast
      note bc = built_child [where h = h1 and malloc = malloc, OF f(4) Some hb tn]
      note fr' = fr [OF bc(3,4,2)]
      let ?n = "put_link True None (put_link False (Some b) k)"
      let ?h2 = "h''(t \<mapsto> ?n)"
      have "pbst_recovery_loop h' y = pbst_recovery_loop ?h2 (Some t)"
        using f(2) recovery_left [where h = h'', OF f(5,6) bc(1)] by simp
      moreover have "lrep ?h2 v" using f(3) bc(2) by simp
      moreover have "agree (- insert t (set (addrs v))) h ?h2" using fr'(1) by (simp add: agree_upd)
      moreover have "pbst_link ?n False = apex v" "pbst_parent ?n = pbst_parent k" using bc(6) by simp_all
      ultimately show ?thesis using run f(1,7,8) bc(2,5) fr'(2) by (intro fails [of h' y ?h2 v ?n]) simp_all
    next
      assume "walk_ends malloc copy raw t org ?h a b (Some t) s (pbst_copy_loop malloc copy raw t org ?h (Some a) (Some b))"
      then obtain h' v where f: "pbst_copy_loop malloc copy raw t org ?h (Some a) (Some b) = copy_out malloc copy raw t org h' (Some a) (Some b)"
        "prep h' (Some t) v" "built malloc b ?h h' v" "copies_of copy s v" "copy \<noteq> None \<longrightarrow> filled v"
        unfolding walk_ends_def by blast
      note bc = built_child [where h = h1 and malloc = malloc, OF f(3) Some hb tn]
      note fr' = fr [OF bc(3,4,2)]
      obtain l x r where s: "s = BNode l (a, x) r" using apex_Some [OF a] by blast
      have "h1 a = Some (pnode None l x r)" using h1(2) s by simp
      moreover have "a \<noteq> t" using ts s by auto
      moreover have "a \<notin> set (addrs v)" using handed_out_free [OF bc(4), of a] calculation(1) by auto
      ultimately have "h' a = Some (pnode None l x r)" using agreeD [OF bc(3), of a] by simp
      then have "copy_out malloc copy raw t org h' (Some a) (Some b) = pret (h', None)"
        unfolding copy_out_def by (subst pbst_copy_up.simps) simp
      then show ?thesis using run f bc(1,2,5,6) fr' by (intro ends [of h' v b "put_link False (Some b) k"]) simp_all
    qed
  qed
qed

lemma called_raw:
  "from_raw copy raw t v \<Longrightarrow> z \<in> set (called destroy (bst_inorder v)) \<Longrightarrow>
     (\<exists>e. pbst_data (raw e) = Some z) \<or> (\<exists>y\<in>set (bst_inorder t). copied copy (snd y) = Some z)"
  by (auto simp: called_def from_raw_def split: if_splits option.splits dest!: bspec)

lemma pbst_copy_ok:
  assumes "planted h org s" "length (datas s) = unat (pbst_count org)" "allocator malloc" "finite (dom h)"
  obtains (fails) xs where "pbst_copy malloc copy destroy raw code alloc h org = pret (xs, None, h)" "\<not> copy_safe malloc copy s"
      "pbst_param org = None \<or> malloc h = None"
      "\<forall>z\<in>set xs. (\<exists>e. pbst_data (raw e) = Some z) \<or> (\<exists>y\<in>set (bst_inorder s). copied copy (snd y) = Some z)"
  | (faults) u where "pbst_param org = Some u" "\<not> copy_safe malloc copy s" "malloc h \<noteq> None"
      "h u = None \<Longrightarrow> (\<And>g. malloc g \<noteq> Some u) \<Longrightarrow> pbst_copy malloc copy destroy raw code alloc h org = pfault Dangling_pointer"
  | (copies) h' new v where "pbst_copy malloc copy destroy raw code alloc h org = pret ([], Some new, h')" "planted h' new v"
      "copies_of copy s v" "agree (- set (addrs v)) h h'" "\<forall>e\<in>set (addrs v). h e = None"
      "same_table org new" "copy \<noteq> None \<longrightarrow> filled v"
proof -
  let ?new = "\<lparr>pbst_root = None, pbst_compare = pbst_compare org, pbst_param = pbst_param org, pbst_count = pbst_count org\<rparr>"
  show thesis
  proof (cases "malloc h")
    case None
    then show ?thesis using copy_unsafe [where h = h and malloc = malloc, OF assms(4)]
      by (intro fails [of "[]"]) (simp_all add: pbst_copy_def pbst_create_def)
  next
    case (Some t)
    have ht: "h t = None" using assms(3) Some by (rule allocatorD)
    show ?thesis
    proof (cases "s = BNull")
      case True
      then have "pbst_count org = 0" using assms(2) by (simp add: datas_def unat_eq_zero)
      then show ?thesis using True Some
        by (intro copies [of ?new h BNull]) (simp_all add: pbst_copy_def pbst_create_def planted_def same_table_def)
    next
      case False
      then have nz: "pbst_count org \<noteq> 0" using assms(2) by (auto simp: datas_def unat_eq_zero)
      let ?k = "table_cell code alloc ?new"
      have k: "pbst_parent ?k = pbst_param org" by (simp add: table_cell_def)
      note r = plantedD(2,3) [OF assms(1)] False plantedD(1) [OF assms(1)] assms(3,4) ht
      show ?thesis
      proof (cases rule: pbst_copy_loop_ok [where copy = copy and raw = raw, OF r refl [of "h(t \<mapsto> ?k)"]])
        case (1 h' y h'' v n)
        note up = pbst_copy_gives_up [OF 1(2-6) _ 1(8-10) ht, where param = "pbst_param org" and destroy = destroy and new = ?new]
        have run: "pbst_copy malloc copy destroy raw code alloc h org =
            pbind (pbst_copy_recovery destroy h' y t ?new) (\<lambda>(xs, h). pret (xs, None, h))"
          using nz Some 1(1) by (simp add: pbst_copy_def pbst_create_def)
        show ?thesis
        proof (cases "pbst_param org")
          case None
          then have "pbst_copy malloc copy destroy raw code alloc h org = pret (called destroy (bst_inorder v), None, h)"
            using run up(1) 1(7) k by simp
          then show ?thesis using 1(12) None called_raw [OF 1(11)] by (intro fails) auto
        next
          case (Some u)
          show ?thesis
          proof (rule faults [OF Some 1(12)])
            show "malloc h \<noteq> None" using \<open>malloc h = Some t\<close> by simp
            assume g: "h u = None" "\<And>g. malloc g \<noteq> Some u"
            then have "u \<noteq> t" using \<open>malloc h = Some t\<close> by auto
            then show "pbst_copy malloc copy destroy raw code alloc h org = pfault Dangling_pointer"
              using run up(2) [OF _ Some g(1) _ g(2)] 1(7) k by simp
          qed
        qed
      next
        case (2 h' b v n)
        obtain l x r where v: "v = BNode l (b, x) r" using apex_Some [OF 2(2)] by blast
        have hb: "h' b = Some (pnode (Some t) l x r)" using 2(3) v by simp
        have tb: "t \<noteq> b" using 2(7) v by auto
        let ?h = "h'(b \<mapsto> pnode None l x r, t := None)" and ?t = "?new\<lparr>pbst_root := Some b\<rparr>"
        have "pbst_copy malloc copy destroy raw code alloc h org = pret ([], Some ?t, ?h)"
          using nz Some 2(1,5,6) hb by (simp add: pbst_copy_def pbst_create_def)
        moreover have "prep ?h None v" using 2(3,4,7) v tb by simp
        then have "planted ?h ?t v" using 2(4) v by (simp add: planted_def)
        moreover have "agree (- set (addrs v)) h ?h"
          using 2(8) ht v by (auto simp: agree_def fun_upd_apply)
        moreover have "same_table org ?t" by (simp add: same_table_def)
        ultimately show ?thesis using 2(10,11) handed_out_free [OF 2(9)] by (intro copies [of ?t ?h v]) simp_all
      qed
    qed
  qed
qed

end
