(* ===== verification/PBST_Correct.thy ===== *)
theory PBST_Correct
  imports PBST_Balance PBST_Copy RB_Correct
begin

text \<open>
  What the tables of \<open>pbst.c\<close> promise their users, on the heap: they refine maps, their traversers
  walk both ways over the parent pointers, balancing makes them as low as possible, and copying succeeds or
  restores the heap, unless the user has given the table a parameter.
\<close>

declare fun_upd_apply [simp del]

section \<open>The contract of a table\<close>

text \<open>The heap \<open>h\<close> is \<open>h0\<close> and the nodes of the table.\<close>

definition only_linked :: "'a pbst_heap \<Rightarrow> 'a pbst_heap \<Rightarrow> 'a pbst_table \<Rightarrow> bool" where
  "only_linked h0 h tree \<longleftrightarrow> (\<forall>a\<in>set (pbst_nodes h tree). h0 a = None) \<and> agree (- set (pbst_nodes h tree)) h0 h"

fun pbst_ok :: "('a \<Rightarrow> 'a \<Rightarrow> int) \<Rightarrow> 'a pbst_heap \<Rightarrow> nat \<Rightarrow> 'a pbst_heap \<times> 'a pbst_table \<Rightarrow> bool" where
  "pbst_ok cmp h0 n (h, tree) \<longleftrightarrow> pbst_for cmp h tree \<and> finite (dom h0) \<and> only_linked h0 h tree \<and>
     length (pbst_items h tree) + n < 2 ^ 64"

fun pbst_its :: "'a pbst_heap \<times> 'a pbst_table \<Rightarrow> 'a list" where
  "pbst_its (h, tree) = pbst_items h tree"

text \<open>The operations as functions on heap and table.\<close>

fun pbst_ins pbst_rep :: "('a pbst_heap \<Rightarrow> addr option) \<Rightarrow> 'a pbst_heap \<times> 'a pbst_table \<Rightarrow> 'a \<Rightarrow>
    ('a option \<times> 'a pbst_heap \<times> 'a pbst_table) outcome" where
  "pbst_ins malloc (h, tree) x = outcome_of (pbst_insert malloc h tree x)"
| "pbst_rep malloc (h, tree) x = outcome_of (pbst_replace malloc h tree x)"

fun pbst_del :: "'a pbst_heap \<times> 'a pbst_table \<Rightarrow> 'a \<Rightarrow> ('a option \<times> 'a pbst_heap \<times> 'a pbst_table) outcome" where
  "pbst_del (h, tree) x = outcome_of (pbst_delete h tree x)"

fun pbst_fnd :: "'a pbst_heap \<times> 'a pbst_table \<Rightarrow> 'a \<Rightarrow> 'a option" where
  "pbst_fnd (h, tree) x = (case outcome_of (pbst_find h tree x) of Ok y \<Rightarrow> y | _ \<Rightarrow> None)"

lemma only_linked_finite: "only_linked h0 h tree \<Longrightarrow> finite (dom h0) \<Longrightarrow> finite (dom h)"
proof -
  assume g: "only_linked h0 h tree" "finite (dom h0)"
  have "dom h \<subseteq> dom h0 \<union> set (pbst_nodes h tree)" using g(1) by (auto simp: only_linked_def agree_def)
  then show "finite (dom h)" using g(2) finite_subset by fastforce
qed

lemma only_linked_grows:
  assumes "only_linked h0 h tree" "set (pbst_nodes h' tree') \<subseteq> A" "h0 ` A \<subseteq> {None}"
    and "agree (- A) h h'" "set (pbst_nodes h tree) \<subseteq> A" "\<forall>a\<in>A - set (pbst_nodes h' tree'). h' a = None"
  shows "only_linked h0 h' tree'"
proof -
  have "h' a = h0 a" if "a \<notin> set (pbst_nodes h' tree')" for a
    using that assms by (cases "a \<in> A") (auto simp: only_linked_def agree_def)
  then show ?thesis using assms(2,3) by (auto simp: only_linked_def agree_def)
qed

lemma pbst_ins_new:
  assumes "keyed key cmp" "memory malloc" "pbst_ok cmp h0 (Suc n) (h, tree)" "list_find cmp x (pbst_items h tree) = None"
  shows "\<exists>h' tree'. pbst_insert malloc h tree x = pret (None, h', tree') \<and> pbst_replace malloc h tree x = pret (None, h', tree') \<and>
    pbst_ok cmp h0 n (h', tree') \<and> pbst_items h' tree' = list_insert cmp x (pbst_items h tree)"
proof -
  have o: "pbst_for cmp h tree" "finite (dom h0)" "only_linked h0 h tree" "length (pbst_items h tree) + Suc n < 2 ^ 64"
    using assms(3) by simp_all
  then obtain a where a: "malloc h = Some a" "h a = None"
    using assms(2) only_linked_finite unfolding memory_def by blast
  have "Suc (length (pbst_items h tree)) < 2 ^ 64" using o(4) by simp
  from pbst_insert_new [where malloc = malloc and h = h and a = a, OF assms(1) o(1) assms(4) a this]
  obtain h' tree' xs ys where 1: "pbst_insert malloc h tree x = pret (None, h', tree')"
    "pbst_replace malloc h tree x = pret (None, h', tree')"
    "pbst_for cmp h' tree'" "pbst_items h' tree' = list_insert cmp x (pbst_items h tree)"
    "pbst_pairs h tree = xs @ ys" "pbst_pairs h' tree' = xs @ (a, Some x) # ys"
    "agree (- insert a (set (pbst_nodes h tree))) h h'" by blast
  have n: "set (pbst_nodes h' tree') = insert a (set (pbst_nodes h tree))"
    using 1(5,6) pbst_pairs_rep(5) [OF o(1)] pbst_pairs_rep(5) [OF 1(3)] by auto
  have "a \<notin> set (pbst_nodes h tree)"
    using a(2) planted_alloc [OF pbst_forD(1) [OF o(1)], of a] by (auto simp: pbst_nodes_def)
  then have "h0 ` insert a (set (pbst_nodes h tree)) \<subseteq> {None}"
    using o(3) a(2) by (auto simp: only_linked_def agree_def)
  from only_linked_grows [OF o(3) equalityD1 [OF n] this 1(7)] have "only_linked h0 h' tree'" using n by blast
  then show ?thesis using 1 o keyed.length_list_insert [OF assms(1,4)] by auto
qed

lemma pbst_rep_old:
  assumes "keyed key cmp" "pbst_ok cmp h0 (Suc n) (h, tree)" "list_find cmp x (pbst_items h tree) = Some d"
  shows "\<exists>h'. pbst_replace malloc h tree x = pret (if d = x then None else Some d, h', tree) \<and> pbst_ok cmp h0 n (h', tree) \<and>
    pbst_items h' tree = list_store cmp x (\<lambda>_. x) (pbst_items h tree)"
proof -
  have o: "pbst_for cmp h tree" "finite (dom h0)" "only_linked h0 h tree" "length (pbst_items h tree) + Suc n < 2 ^ 64"
    using assms(2) by simp_all
  from pbst_replace_old [where malloc = malloc, OF assms(1) o(1) assms(3)]
  obtain h' where 1: "pbst_replace malloc h tree x = pret (if d = x then None else Some d, h', tree)" "pbst_for cmp h' tree"
    "pbst_items h' tree = list_store cmp x (\<lambda>_. x) (pbst_items h tree)" "pbst_nodes h' tree = pbst_nodes h tree"
    "agree (- set (pbst_nodes h tree)) h h'" by blast
  then have "only_linked h0 h' tree" using o(3) by (simp add: only_linked_def agree_def)
  then show ?thesis using 1 o by (simp add: list_store_def)
qed

lemma pbst_del_law:
  assumes "keyed key cmp" "pbst_ok cmp h0 (Suc n) (h, tree)"
  shows "\<exists>h' tree'. pbst_delete h tree x = pret (list_find cmp x (pbst_items h tree), h', tree') \<and> pbst_ok cmp h0 n (h', tree') \<and>
    pbst_items h' tree' = list_delete cmp x (pbst_items h tree)"
proof -
  have o: "pbst_for cmp h tree" "finite (dom h0)" "only_linked h0 h tree" "length (pbst_items h tree) + Suc n < 2 ^ 64"
    using assms(2) by simp_all
  obtain h' tree' where 1: "pbst_delete h tree x = pret (list_find cmp x (pbst_items h tree), h', tree')"
    "pbst_for cmp h' tree'" "pbst_items h' tree' = list_delete cmp x (pbst_items h tree)"
    "pbst_pairs h' tree' = list_delete (node_cmp cmp) (0, Some x) (pbst_pairs h tree)"
    "\<forall>a\<in>set (pbst_nodes h tree) - set (pbst_nodes h' tree'). h' a = None" "agree (- set (pbst_nodes h tree)) h h'"
    using pbst_delete_ok [OF assms(1) o(1)] by blast
  have n: "set (pbst_nodes h' tree') \<subseteq> set (pbst_nodes h tree)"
    using 1(4) pbst_pairs_rep(5) [OF o(1)] pbst_pairs_rep(5) [OF 1(2)] by (auto simp: list_delete_def)
  have "h0 ` set (pbst_nodes h tree) \<subseteq> {None}" using o(3) by (auto simp: only_linked_def)
  from only_linked_grows [OF o(3) n this 1(6) subset_refl 1(5)] have "only_linked h0 h' tree'" .
  moreover have "length (list_delete cmp x (pbst_items h tree)) \<le> length (pbst_items h tree)"
    by (simp add: list_delete_def)
  ultimately show ?thesis using 1 o by auto
qed

lemma pbst_ordered_table:
  assumes "keyed key cmp" "memory malloc"
  shows "ordered_table key cmp (pbst_ok cmp h0) pbst_its (pbst_ins malloc) (pbst_rep malloc) pbst_del pbst_fnd"
proof (intro ordered_table.intro ordered_table_axioms.intro)
  show "keyed key cmp" by fact
  fix n x d and s :: "'a pbst_heap \<times> 'a pbst_table"
  obtain h tree where s: "s = (h, tree)" by fastforce
  show "pbst_ok cmp h0 (Suc n) s \<Longrightarrow> pbst_ok cmp h0 n s" using s by simp
  show "pbst_ok cmp h0 n s \<Longrightarrow> ordered cmp (pbst_its s)" using s by (simp add: pbst_for_def)
  show "pbst_ok cmp h0 n s \<Longrightarrow> pbst_fnd s x = list_find cmp x (pbst_its s)"
    using s pbst_find_ok [OF assms(1)] by simp
  assume ok: "pbst_ok cmp h0 (Suc n) s"
  show "list_find cmp x (pbst_its s) = None \<Longrightarrow>
      \<exists>t'. pbst_ins malloc s x = Ok (None, t') \<and> pbst_ok cmp h0 n t' \<and> pbst_its t' = list_insert cmp x (pbst_its s)"
    "list_find cmp x (pbst_its s) = None \<Longrightarrow>
      \<exists>t'. pbst_rep malloc s x = Ok (None, t') \<and> pbst_ok cmp h0 n t' \<and> pbst_its t' = list_insert cmp x (pbst_its s)"
    using pbst_ins_new [OF assms, of h0 n h tree x] ok s by fastforce+
  show "list_find cmp x (pbst_its s) = Some d \<Longrightarrow>
      \<exists>t'. pbst_ins malloc s x = Ok (if d = x then None else Some d, t') \<and> pbst_ok cmp h0 n t' \<and> pbst_its t' = pbst_its s"
    using pbst_insert_old [OF assms(1), of h tree x d malloc] ok s by fastforce
  show "list_find cmp x (pbst_its s) = Some d \<Longrightarrow>
      \<exists>t'. pbst_rep malloc s x = Ok (if d = x then None else Some d, t') \<and> pbst_ok cmp h0 n t' \<and>
        pbst_its t' = list_store cmp x (\<lambda>_. x) (pbst_its s)"
    using pbst_rep_old [OF assms(1), of h0 n h tree x d malloc] ok s by fastforce
  show "\<exists>t'. pbst_del s x = Ok (list_find cmp x (pbst_its s), t') \<and> pbst_ok cmp h0 n t' \<and>
      pbst_its t' = list_delete cmp x (pbst_its s)"
    using pbst_del_law [OF assms(1), of h0 n h tree x] ok s by fastforce
qed

section \<open>An instance\<close>

text \<open>The comparison function of task ids, which does not use the parameter.\<close>

abbreviation (input) cmp_ids :: "int \<Rightarrow> int \<Rightarrow> addr option \<Rightarrow> int" where
  "cmp_ids \<equiv> \<lambda>x y param. cs_wp_cmp_tsk x y"

interpretation pbst_ids: ordered_table "\<lambda>i :: int. i" cs_wp_cmp_tsk "pbst_ok cs_wp_cmp_tsk Map.empty" pbst_its
  "pbst_ins first_fit" "pbst_rep first_fit" pbst_del pbst_fnd
  by (rule pbst_ordered_table [OF task_keys first_fit_memory])

text \<open>A chain of three task ids, each node the left child of the next.\<close>

definition linked_nodes :: "int pbst_heap" where
  "linked_nodes = Map.empty(
     2 \<mapsto> \<lparr>pbst_link = (\<lambda>d. None), pbst_parent = Some 4, pbst_data = Some 3\<rparr>,
     4 \<mapsto> \<lparr>pbst_link = (\<lambda>d. if d then None else Some 2), pbst_parent = Some 6, pbst_data = Some 5\<rparr>,
     6 \<mapsto> \<lparr>pbst_link = (\<lambda>d. if d then None else Some 4), pbst_parent = None, pbst_data = Some 8\<rparr>)"

definition linked_ids :: "addr option \<Rightarrow> int pbst_table" where
  "linked_ids param = \<lparr>pbst_root = Some 6, pbst_compare = cmp_ids, pbst_param = param, pbst_count = 3\<rparr>"

lemma linked_nodes_at:
  "linked_nodes 2 = Some (pnode (Some 4) BNull (Some 3) BNull)"
  "linked_nodes 4 = Some (pnode (Some 6) (BNode BNull (2, Some 3) BNull) (Some 5) BNull)"
  "linked_nodes 6 = Some (pnode None (BNode (BNode BNull (2, Some 3) BNull) (4, Some 5) BNull) (Some 8) BNull)"
  "dom linked_nodes = {2, 4, 6}"
  by (auto simp: linked_nodes_def fun_upd_apply pnode_def)

lemma linked_ids_ok:
  "pbst_for cs_wp_cmp_tsk linked_nodes (linked_ids param)"
  "pbst_tree linked_nodes (linked_ids param) = BNode (BNode (BNode BNull (2, Some 3) BNull) (4, Some 5) BNull) (6, Some 8) BNull"
  "pbst_items linked_nodes (linked_ids param) = [3, 5, 8]"
proof -
  let ?t = "BNode (BNode (BNode BNull (2, Some 3) BNull) (4, Some 5) BNull) (6, Some 8) BNull :: int ghost"
  have r: "planted linked_nodes (linked_ids param) ?t" by (simp add: planted_def linked_ids_def linked_nodes_at)
  have d: "datas ?t = [3, 5, 8]" by (simp add: datas_def)
  have o: "ordered cs_wp_cmp_tsk [3, 5, 8]" by (simp add: ordered_def cs_wp_cmp_tsk_def)
  have c: "length (datas ?t) = unat (pbst_count (linked_ids param))" unfolding d by (simp add: linked_ids_def)
  show "pbst_for cs_wp_cmp_tsk linked_nodes (linked_ids param)" "pbst_tree linked_nodes (linked_ids param) = ?t"
    "pbst_items linked_nodes (linked_ids param) = [3, 5, 8]"
    using pbst_forI [OF r _ c, of cs_wp_cmp_tsk] o d by (simp_all add: linked_ids_def pbst_order_def)
qed

section \<open>Maps on the heap\<close>

text \<open>
  C30.  Any sequence of insertions, replacements, deletions and searches on a new table with parent pointers returns and
  answers as the same sequence on a map from keys to items does.  The parent pointers of the final table are right, no block
  that was allocated before is touched, and of the blocks allocated on the way exactly the nodes of the final table are left.
\<close>

theorem pbst_refines_map:
  assumes "keyed key (\<lambda>x y. cmp x y param)" "memory malloc" "finite (dom h)" "length cs < 2 ^ 64"
  shows "\<exists>t as h' t'. pbst_create True cmp param = Some t \<and>
    table_run (pbst_ins malloc) (pbst_rep malloc) pbst_del pbst_fnd cs (h, t) = Ok (as, h', t') \<and>
    map_run key cs Map.empty = (as, item_map key (pbst_items h' t')) \<and> pbst_for (\<lambda>x y. cmp x y param) h' t' \<and>
    (\<forall>a\<in>set (pbst_nodes h' t'). h a = None) \<and> (\<forall>a. a \<notin> set (pbst_nodes h' t') \<longrightarrow> h' a = h a)"
proof -
  let ?t = "\<lparr>pbst_root = None, pbst_compare = cmp, pbst_param = param, pbst_count = 0\<rparr>"
  have r: "planted h ?t BNull" by (simp add: planted_def)
  have v: "pbst_for (\<lambda>x y. cmp x y param) h ?t" "pbst_tree h ?t = BNull" "pbst_items h ?t = []"
    using pbst_forI [OF r] by (simp_all add: datas_def ordered_def pbst_order_def)
  have "pbst_ok (\<lambda>x y. cmp x y param) h (length cs) (h, ?t)"
    using v assms(3,4) by (simp add: only_linked_def pbst_nodes_def)
  from ordered_table.run_refines [OF pbst_ordered_table [OF assms(1,2)] this] v(3) show ?thesis
    by (auto simp: pbst_create_def only_linked_def agree_def)
qed

lemma pbst_refines_map_witness:
  "\<exists>t as h' t'. pbst_create True cmp_ids None = Some t \<and>
     table_run (pbst_ins first_fit) (pbst_rep first_fit) pbst_del pbst_fnd
       [Insert 5, Insert 3, Insert 5, Find 3, Delete 5, Find 5] (linked_nodes, t) = Ok (as, h', t') \<and>
     as = [None, None, None, Some 3, Some 5, None] \<and> h' 2 = linked_nodes 2"
proof -
  let ?cs = "[Insert 5, Insert 3, Insert 5, Find 3, Delete 5, Find 5] :: int table_call list"
  have "finite (dom linked_nodes)" by (simp add: linked_nodes_at)
  from pbst_refines_map [where cmp = cmp_ids and param = None, OF task_keys first_fit_memory this, of ?cs]
  obtain t as h' t' where 1: "pbst_create True cmp_ids None = Some t"
    "table_run (pbst_ins first_fit) (pbst_rep first_fit) pbst_del pbst_fnd ?cs (linked_nodes, t) = Ok (as, h', t')"
    "map_run (\<lambda>i. i) ?cs Map.empty = (as, item_map (\<lambda>i. i) (pbst_items h' t'))"
    "\<forall>a\<in>set (pbst_nodes h' t'). linked_nodes a = None" "\<forall>a. a \<notin> set (pbst_nodes h' t') \<longrightarrow> h' a = linked_nodes a"
    by auto
  have "as = [None, None, None, Some 3, Some 5, None]" using 1(3) by (simp add: fun_upd_apply)
  moreover have "2 \<notin> set (pbst_nodes h' t')" using 1(4) linked_nodes_at(1) by fastforce
  then have "h' 2 = linked_nodes 2" using 1(5) by blast
  ultimately show ?thesis using 1(1,2) by blast
qed

section \<open>Traversal\<close>

text \<open>
  A loop with \<^verbatim>\<open>pbst_t_next\<close> ends and returns the items of a table in strictly increasing order, a loop with
  \<^verbatim>\<open>pbst_t_prev\<close> the same items in reverse.
\<close>

theorem pbst_both_ways:
  assumes "keyed key cmp" "pbst_for cmp h tree"
  shows "pbst_collect pbst_t_next h tree pbst_t_init = pret (pbst_items h tree) \<and>
    pbst_collect pbst_t_prev h tree pbst_t_init = pret (rev (pbst_items h tree)) \<and>
    sorted_wrt (<) (map key (pbst_items h tree))"
proof (intro conjI)
  note r = pbst_pairs_rep(4) [OF assms(2)]
  show "pbst_collect pbst_t_next h tree pbst_t_init = pret (pbst_items h tree)"
    using pbst_collect_next [OF assms(2), of "[]" "pbst_pairs h tree"] r by (simp add: pbst_t_init_def)
  show "pbst_collect pbst_t_prev h tree pbst_t_init = pret (rev (pbst_items h tree))"
    using pbst_collect_prev [OF assms(2), of "pbst_pairs h tree" "[]"] r by (simp add: pbst_t_init_def rev_map)
  show "sorted_wrt (<) (map key (pbst_items h tree))"
    using assms(2) by (simp add: pbst_for_def keyed.ordered_iff [OF assms(1)])
qed

lemma pbst_both_ways_witness:
  "pbst_collect pbst_t_next linked_nodes (linked_ids None) pbst_t_init = pret [3, 5, 8] \<and>
   pbst_collect pbst_t_prev linked_nodes (linked_ids None) pbst_t_init = pret [8, 5, 3]"
  using pbst_both_ways [OF task_keys linked_ids_ok(1)] by (simp add: linked_ids_ok(3))

section \<open>Balancing\<close>

text \<open>
  C31.  \<^verbatim>\<open>pbst_balance\<close> ends on a tree of any shape: every node keeps its item and its place in the order, every
  parent pointer is right again, no other block is touched, and the tree is as low as a tree of its size can be.
\<close>

theorem pbst_balance_optimal:
  assumes "pbst_for cmp h tree" "length (pbst_items h tree) < 2 ^ 32"
  shows "\<exists>h' tree' t. pbst_balance h tree = pret (h', tree') \<and> pbst_for cmp h' tree' \<and> pbst_tree h' tree' = t \<and>
    prep h' None t \<and> bst_inorder t = pbst_pairs h tree \<and> (\<forall>a. a \<notin> set (pbst_nodes h tree) \<longrightarrow> h' a = h a) \<and>
    (pbst_items h tree = [] \<or> 2 ^ (bst_height t - 1) \<le> length (pbst_items h tree))"
proof -
  let ?t = "pbst_tree h tree"
  note f = pbst_forD [OF assms(1)]
  have it: "pbst_items h tree = datas ?t" by (simp add: pbst_items_def)
  have c: "pbst_count tree = of_nat (length (datas ?t))" using f(4) by simp
  obtain h' tree' t' b where 1: "pbst_balance h tree = pret (h', tree')" "planted h' tree' t'" "bst_inorder t' = bst_inorder ?t"
    "agree (- set (addrs ?t)) h h'" "same_table tree tree'" "bst_height t' \<le> b" "0 < b \<longrightarrow> 2 ^ (b - 1) \<le> length (datas ?t)"
    using pbst_balance_ok [OF f(1) c] assms(2) it by metis
  have d: "datas t' = datas ?t" "filled t'" using 1(3) f(2) by (simp_all add: datas_def filled_def)
  have "pbst_order tree' = cmp" "pbst_count tree' = pbst_count tree"
    using 1(5) f(3) by (simp_all add: same_table_def pbst_order_def)
  then have v: "pbst_for cmp h' tree'" "pbst_tree h' tree' = t'"
    using pbst_forI [OF 1(2) d(2), of cmp] d(1) f(4,5) by simp_all
  have "2 ^ (bst_height t' - 1) \<le> length (datas ?t)" if "datas ?t \<noteq> []"
  proof (cases "b = 0")
    case True
    then show ?thesis using 1(6) that by (cases "datas ?t") auto
  next
    case False
    have "(2 :: nat) ^ (bst_height t' - 1) \<le> 2 ^ (b - 1)" using 1(6) by (intro power_increasing) auto
    also have "\<dots> \<le> length (datas ?t)" using 1(7) False by simp
    finally show ?thesis .
  qed
  then show ?thesis using 1 v it plantedD(2) [OF 1(2)] by (auto simp: pbst_pairs_def pbst_nodes_def agree_def)
qed

lemma pbst_balance_optimal_witness:
  "\<exists>h' tree'. pbst_balance linked_nodes (linked_ids None) = pret (h', tree') \<and> bst_height (pbst_tree h' tree') \<le> 2"
proof -
  obtain h' tree' where 1: "pbst_balance linked_nodes (linked_ids None) = pret (h', tree')"
    "2 ^ (bst_height (pbst_tree h' tree') - 1) \<le> (3 :: nat)"
    using pbst_balance_optimal [OF linked_ids_ok(1), of None] by (auto simp: linked_ids_ok(3))
  have "\<not> 2 < bst_height (pbst_tree h' tree')"
  proof
    assume "2 < bst_height (pbst_tree h' tree')"
    then have "(2 :: nat) ^ 2 \<le> 2 ^ (bst_height (pbst_tree h' tree') - 1)" by (intro power_increasing) auto
    then show False using 1(2) by simp
  qed
  then show ?thesis using 1(1) by auto
qed

section \<open>Copying and destruction\<close>

lemma pbst_for_agree:
  assumes "pbst_for cmp h tree" "agree (set (pbst_nodes h tree)) h h'"
  shows "pbst_for cmp h' tree"
proof -
  note f = pbst_forD [OF assms(1)]
  have "planted h' tree (pbst_tree h tree)"
    using f(1) assms(2) by (auto simp: planted_def pbst_nodes_def intro: prep_agree)
  from pbst_forI [OF this f(2,4,3,5)] show ?thesis by simp
qed

lemma copies_filled: "copies_of None t u \<Longrightarrow> filled t \<Longrightarrow> filled u"
  by (induction "None :: 'a copier" t u rule: copies_of.induct) (auto simp: copied_def)

text \<open>
  C32.  \<^verbatim>\<open>pbst_copy\<close> comes to one of three ends.  It succeeds with a copy of the same shape, with
  right parent pointers, in blocks that were free, and nothing else on the heap has changed.  Or there is no memory, or an
  item cannot be copied, and then it depends on the parameter of the table: when it is null, or the table itself gets no block,
  the heap is the one of the call to the last block.  With any other parameter that is not the address of
  a block, the recovery follows the parameter as if it were the parent of the root, and dereferences it.
\<close>

theorem pbst_copy_follows_parameter:
  assumes "pbst_for cmp h org" "allocator malloc" "finite (dom h)"
  shows "(\<exists>new h' v. pbst_copy malloc copy destroy raw code alloc h org = pret ([], Some new, h') \<and> planted h' new v \<and>
      copies_of copy (pbst_tree h org) v \<and> filled v \<and> (\<forall>a\<in>set (addrs v). h a = None) \<and>
      (\<forall>a. a \<notin> set (addrs v) \<longrightarrow> h' a = h a) \<and> same_table org new \<and> pbst_for cmp h' org) \<or>
    ((\<exists>h. finite (dom h) \<and> malloc h = None) \<or> (\<exists>y\<in>set (pbst_items h org). copied copy (Some y) = None)) \<and>
    (if pbst_param org = None \<or> malloc h = None
     then \<exists>xs. pbst_copy malloc copy destroy raw code alloc h org = pret (xs, None, h)
     else \<forall>u. pbst_param org = Some u \<and> h u = None \<and> (\<forall>g. malloc g \<noteq> Some u) \<longrightarrow>
       pbst_copy malloc copy destroy raw code alloc h org = pfault Dangling_pointer)"
proof -
  let ?s = "pbst_tree h org"
  note f = pbst_forD [OF assms(1)]
  have it: "the (snd y) \<in> set (pbst_items h org) \<and> snd y = Some (the (snd y))" if "y \<in> set (bst_inorder ?s)" for y
    using that f(2) by (fastforce simp: pbst_items_def datas_def filled_def)
  have unsafe: "(\<exists>h. finite (dom h) \<and> malloc h = None) \<or> (\<exists>y\<in>set (pbst_items h org). copied copy (Some y) = None)"
    if "\<not> copy_safe malloc copy ?s"
    using that it unfolding copy_safe_def by metis
  show ?thesis
  proof (cases rule: pbst_copy_ok [where copy = copy and destroy = destroy and raw = raw and code = code and alloc = alloc,
        OF f(1,4) assms(2,3)])
    case (1 xs)
    then show ?thesis using unsafe by auto
  next
    case (2 u)
    have "\<forall>w. pbst_param org = Some w \<and> h w = None \<and> (\<forall>g. malloc g \<noteq> Some w) \<longrightarrow>
        pbst_copy malloc copy destroy raw code alloc h org = pfault Dangling_pointer"
      using 2(1,4) by auto
    with unsafe [OF 2(2)] show ?thesis using 2(1,3) by (intro disjI2) (rule conjI, assumption, auto)
  next
    case (3 h' new v)
    have "\<forall>a\<in>set (pbst_nodes h org). h a \<noteq> None"
      using planted_alloc [OF f(1)] by (simp add: pbst_nodes_def)
    then have "agree (set (pbst_nodes h org)) h h'" using 3(4,5) unfolding agree_def by (metis ComplI)
    then have "pbst_for cmp h' org" by (rule pbst_for_agree [OF assms(1)])
    moreover have "filled v" using 3(3,6,7) f(2) copies_filled by (cases "copy = None") auto
    ultimately show ?thesis using 3 by (intro disjI1 exI [of _ new] exI [of _ h'] exI [of _ v]) (simp add: agree_def)
  qed
qed

text \<open>An allocator with one block, at address 100, and a function that cannot copy the task id 8.\<close>

definition one_block :: "int pbst_heap \<Rightarrow> addr option" where
  "one_block h = (if h 100 = None then Some 100 else None)"

definition no_eight :: "int option \<Rightarrow> int option" where
  "no_eight x = (if x = Some 8 then None else x)"

text \<open>What a block holds when it is handed out.\<close>

definition stale_node :: "addr \<Rightarrow> int pbst_node" where
  "stale_node a = \<lparr>pbst_link = (\<lambda>d. Some 7), pbst_parent = None, pbst_data = Some 9\<rparr>"

lemma pbst_copy_follows_parameter_witness:
  "(\<exists>xs. pbst_copy one_block (Some no_eight) True stale_node None None linked_nodes (linked_ids None) = pret (xs, None, linked_nodes)) \<and>
   pbst_copy one_block (Some no_eight) True stale_node None None linked_nodes (linked_ids (Some 7)) = pfault Dangling_pointer"
proof -
  have al: "allocator one_block" by (simp add: allocator_def one_block_def)
  have fi: "finite (dom linked_nodes)" by (simp add: linked_nodes_at)
  have at: "linked_nodes 7 = None" "one_block linked_nodes \<noteq> None" "\<And>g. one_block g \<noteq> Some 7"
    by (simp_all add: linked_nodes_def one_block_def fun_upd_apply)
  have no: "\<not> (copies_of (Some no_eight) (pbst_tree linked_nodes (linked_ids p)) v \<and> filled v)" for v p
    by (auto simp: linked_ids_ok copied_def no_eight_def)
  have p: "pbst_param (linked_ids p) = p" for p by (simp add: linked_ids_def)
  show ?thesis
    using pbst_copy_follows_parameter [OF linked_ids_ok(1) al fi, of "Some no_eight" True stale_node None None None]
      pbst_copy_follows_parameter [OF linked_ids_ok(1) al fi, of "Some no_eight" True stale_node None None "Some 7"]
      no [of None] no [of "Some 7"] at by (auto simp: p)
qed

text \<open>An allocator with three blocks: one for the table, two for nodes.\<close>

definition three_blocks :: "int pbst_heap \<Rightarrow> addr option" where
  "three_blocks h =
     (if h 100 = None then Some 100 else if h 101 = None then Some 101 else if h 102 = None then Some 102 else None)"

text \<open>
  When the memory runs out on the way down the left side, the nodes above have no data yet: the user's destructor
  is given what their blocks held before, here 9.
\<close>

lemma pbst_copy_raw_data:
  "\<exists>h. pbst_copy three_blocks None True stale_node None None linked_nodes (linked_ids None) = pret ([9], None, h)"
proof -
  note heap = link_of_def parent_of_def fetch_def assign_def release_def fun_upd_apply put_link_def put_parent_def put_data_def
  show ?thesis
    by (simp add: heap pbst_copy_def pbst_create_def linked_ids_def linked_nodes_def three_blocks_def stale_node_def table_cell_def
        pbst_get_def pbst_copy_recovery_def pbst_destroy_def pbst_copy_loop.simps [where x = None]
        pbst_copy_left.simps [where x = None] pbst_copy_left.simps [where x = "Some b" for b]
        pbst_recovery_loop.simps [where p = "Some b" for b]
        pbst_destroy_loop.simps [where p = "Some b" for b] pbst_destroy_loop.simps [where p = None])
qed

text \<open>
  \<^verbatim>\<open>pbst_destroy\<close> hands every item to the user's function, in order, and frees every node once; no other block is touched.
\<close>

theorem pbst_destroy_frees:
  assumes "pbst_for cmp h tree"
  shows "\<exists>h'. pbst_destroy True h tree = pret (pbst_items h tree, h') \<and>
    (\<forall>a\<in>set (pbst_nodes h tree). h' a = None) \<and> (\<forall>a. a \<notin> set (pbst_nodes h tree) \<longrightarrow> h' a = h a)"
proof -
  note f = pbst_forD [OF assms]
  from pbst_destroy_ok [OF f(6) plantedD(3) [OF f(1)] f(7), of True] show ?thesis
    using called_items [OF f(2)] by (auto simp: agree_def pbst_nodes_def pbst_items_def)
qed

lemma pbst_destroy_frees_witness:
  "\<exists>h'. pbst_destroy True linked_nodes (linked_ids None) = pret ([3, 5, 8], h')"
  using pbst_destroy_frees [OF linked_ids_ok(1), of None] by (auto simp: linked_ids_ok(3))

end
