(* ===== verification/CS_Timer.thy ===== *)
theory CS_Timer
  imports CS_Concurrence "HOL-Library.Word"
begin

text \<open>
  The timer of \<open>src/cs_timer.c\<close>: a barrier on which \<open>n_sync\<close> actors meet; the actor that
  completes a round advances the clock and wakes the others.  \<^verbatim>\<open>cs_time_sync\<close> is split at
  \<^verbatim>\<open>pthread_cond_wait\<close>, the one place where it gives up the mutex; what happens between the
  two lock operations is one step.
\<close>

section \<open>Data and operations\<close>

type_synonym cs_clockv = "64 word"

record cs_timer =
  tm_id :: string
  stop :: int
  n_sync :: int
  sync :: int
  clock :: cs_clockv

text \<open>
  \<^verbatim>\<open>_cs_init_timer\<close>.  The first argument says whether the allocations of the mutex (two
  calls, see \<open>CS_Concurrence\<close>) and of the condition variable succeed; \<open>None\<close> is the null
  timer.  With \<open>n_sync <= 0\<close> the fields \<open>n_sync\<close> and \<open>sync\<close> keep what the memory held.
\<close>

definition cs_init_timer_n ::
  "bool \<times> bool \<times> bool \<Rightarrow> cs_timer option \<Rightarrow> string \<Rightarrow> int \<Rightarrow> cs_timer option outcome" where
  "cs_init_timer_n alloc t name n =
     (case t of
        None \<Rightarrow> Ok None
      | Some t \<Rightarrow>
          obind (cs_make_recursive_mutex (fst alloc) (fst (snd alloc)))
            (\<lambda>_. if \<not> snd (snd alloc) then Fault Null_dereference
                 else
                   (let t = t\<lparr>tm_id := name\<rparr>;
                        t = (if n > 0 then t\<lparr>n_sync := n, sync := 0\<rparr> else t)
                    in Ok (Some (t\<lparr>clock := 0, stop := 0\<rparr>)))))"

definition cs_init_timer ::
  "bool \<times> bool \<times> bool \<Rightarrow> cs_timer option \<Rightarrow> string \<Rightarrow> cs_timer option outcome" where
  "cs_init_timer alloc t name = cs_init_timer_n alloc t name 2"

definition cs_set_nsync :: "cs_timer \<Rightarrow> int \<Rightarrow> cs_timer" where
  "cs_set_nsync t nsync = t\<lparr>n_sync := nsync\<rparr>"

definition cs_get_clock :: "cs_timer \<Rightarrow> cs_clockv" where
  "cs_get_clock t = clock t"

text \<open>The three ways through \<^verbatim>\<open>cs_time_sync\<close>: return a code, return 0 after waking all waiting
  threads, or wait on the condition variable (and return 0 when woken).\<close>

datatype sync_result = Returns int | Broadcasts | Waits

definition cs_time_sync :: "cs_timer \<Rightarrow> sync_result \<times> cs_timer" where
  "cs_time_sync t =
     (if stop t = 0 then
        (if sync t = n_sync t then (Returns (-1), t)
         else
           (let t = t\<lparr>sync := sync t + 1\<rparr> in
            if sync t = n_sync t then (Broadcasts, t\<lparr>clock := clock t + 1, sync := 0\<rparr>)
            else (Waits, t)))
      else (Returns (-1), t))"

text \<open>\<^verbatim>\<open>cs_time_stop\<close> also wakes all waiting threads.\<close>

definition cs_time_stop :: "cs_timer \<Rightarrow> cs_timer" where
  "cs_time_stop t = t\<lparr>stop := 1\<rparr>"

text \<open>\<^verbatim>\<open>cs_destroy_timer\<close> frees the mutex and the timer (not the condition variable); nothing is
  left of the timer.\<close>

definition cs_destroy_timer :: "cs_timer option \<Rightarrow> cs_timer option outcome" where
  "cs_destroy_timer t = (case t of None \<Rightarrow> Fault Null_dereference | Some _ \<Rightarrow> Ok None)"

section \<open>Actors on a timer\<close>

datatype actor = Outside | Waiting | Woken

text \<open>\<open>rounds i\<close> counts the calls of \<^verbatim>\<open>cs_time_sync\<close> by actor \<open>i\<close> that returned 0, \<open>ticks\<close> the
  rounds completed.\<close>

record timer_net =
  timer :: cs_timer
  actors :: "nat \<Rightarrow> actor"
  rounds :: "nat \<Rightarrow> nat"
  ticks :: nat

definition wake_all :: "(nat \<Rightarrow> actor) \<Rightarrow> nat \<Rightarrow> actor" where
  "wake_all f = (\<lambda>i. if f i = Waiting then Woken else f i)"

text \<open>\<open>spurious\<close> allows \<^verbatim>\<open>pthread_cond_wait\<close> to return without a signal, as POSIX does.\<close>

inductive timer_step :: "bool \<Rightarrow> nat \<Rightarrow> timer_net \<Rightarrow> timer_net \<Rightarrow> bool" for spurious n where
  sync_wait: "i < n \<Longrightarrow> actors s i = Outside \<Longrightarrow> cs_time_sync (timer s) = (Waits, t) \<Longrightarrow>
    timer_step spurious n s (s\<lparr>timer := t, actors := (actors s)(i := Waiting)\<rparr>)"
| sync_tick: "i < n \<Longrightarrow> actors s i = Outside \<Longrightarrow> cs_time_sync (timer s) = (Broadcasts, t) \<Longrightarrow>
    timer_step spurious n s (s\<lparr>timer := t, actors := wake_all (actors s),
      rounds := (rounds s)(i := Suc (rounds s i)), ticks := Suc (ticks s)\<rparr>)"
| sync_fail: "i < n \<Longrightarrow> actors s i = Outside \<Longrightarrow> cs_time_sync (timer s) = (Returns r, t) \<Longrightarrow>
    timer_step spurious n s (s\<lparr>timer := t\<rparr>)"
| resume: "i < n \<Longrightarrow> actors s i = Woken \<Longrightarrow>
    timer_step spurious n s (s\<lparr>actors := (actors s)(i := Outside),
      rounds := (rounds s)(i := Suc (rounds s i))\<rparr>)"
| stop_timer: "timer_step spurious n s
    (s\<lparr>timer := cs_time_stop (timer s), actors := wake_all (actors s)\<rparr>)"
| wake_up: "spurious \<Longrightarrow> i < n \<Longrightarrow> actors s i = Waiting \<Longrightarrow>
    timer_step spurious n s (s\<lparr>actors := (actors s)(i := Woken)\<rparr>)"

definition timer_start :: "cs_timer \<Rightarrow> timer_net" where
  "timer_start t = \<lparr>timer = t, actors = (\<lambda>_. Outside), rounds = (\<lambda>_. 0), ticks = 0\<rparr>"

inductive timer_reach :: "bool \<Rightarrow> nat \<Rightarrow> cs_timer \<Rightarrow> timer_net \<Rightarrow> bool" for spurious n t where
  start: "timer_reach spurious n t (timer_start t)"
| step: "timer_reach spurious n t s \<Longrightarrow> timer_step spurious n s s' \<Longrightarrow> timer_reach spurious n t s'"

text \<open>Lock-step: while the timer runs, the actors differ by at most the round just completed.\<close>

definition lock_step :: "nat \<Rightarrow> timer_net \<Rightarrow> bool" where
  "lock_step n s \<longleftrightarrow> n_sync (timer s) = int n \<and> 0 < n \<and>
     clock (timer s) = of_nat (ticks s) \<and>
     (if stop (timer s) = 0 then
        sync (timer s) = int (tally n (\<lambda>p. p = Waiting) (actors s)) \<and>
        tally n (\<lambda>p. p = Waiting) (actors s) < n \<and>
        (\<forall>i<n. if actors s i = Woken then Suc (rounds s i) = ticks s else rounds s i = ticks s)
      else (\<forall>i<n. actors s i \<noteq> Waiting))"

lemma wake_all_simps [simp]:
  "wake_all f i \<noteq> Waiting" "wake_all f i = Outside \<longleftrightarrow> f i = Outside"
  "wake_all f i = Woken \<longleftrightarrow> f i = Waiting \<or> f i = Woken"
  by (auto simp: wake_all_def)

lemma tally_wake_all [simp]: "tally n (\<lambda>p. p = Waiting) (wake_all f) = 0"
  by (simp add: tally_zero)

lemma cs_time_sync_cases:
  "cs_time_sync t = (Waits, t') \<longleftrightarrow> stop t = 0 \<and> sync t \<noteq> n_sync t \<and> sync t + 1 \<noteq> n_sync t \<and>
     t' = t\<lparr>sync := sync t + 1\<rparr>"
  "cs_time_sync t = (Broadcasts, t') \<longleftrightarrow> stop t = 0 \<and> sync t + 1 = n_sync t \<and>
     t' = t\<lparr>clock := clock t + 1, sync := 0\<rparr>"
  "cs_time_sync t = (Returns r, t') \<longleftrightarrow> r = -1 \<and> t' = t \<and> (stop t \<noteq> 0 \<or> sync t = n_sync t)"
  by (auto simp: cs_time_sync_def Let_def)

text \<open>The actor that completes a round is the only one that is not waiting.\<close>

lemma last_arrival:
  assumes "i < n" "f i = Outside" "Suc (tally n (\<lambda>p. p = Waiting) f) = n" "j < n" "j \<noteq> i"
  shows "f j = Waiting"
proof -
  have "tally n (\<lambda>p. p = Waiting) (f(i := Waiting)) = n"
    using tally_update [OF assms(1), of "\<lambda>p. p = Waiting" f Waiting] assms(2,3) by simp
  then show ?thesis using assms(4,5) by (auto simp: tally_full)
qed

lemma lock_step_step:
  assumes "timer_step False n s s'" "lock_step n s"
  shows "lock_step n s'"
  using assms(1)
proof cases
  case (sync_wait i t)
  then show ?thesis
    using assms(2) tally_update [OF sync_wait(2), of "\<lambda>p. p = Waiting" "actors s" Waiting]
    by (auto simp: lock_step_def cs_time_sync_cases)
next
  case (sync_tick i t)
  have "Suc (tally n (\<lambda>p. p = Waiting) (actors s)) = n"
    using sync_tick(4) assms(2) by (auto simp: lock_step_def cs_time_sync_cases)
  then have "\<forall>j<n. j \<noteq> i \<longrightarrow> actors s j = Waiting"
    using last_arrival [of i n "actors s"] sync_tick(2,3) by blast
  then show ?thesis using sync_tick assms(2) by (auto simp: lock_step_def cs_time_sync_cases)
next
  case (resume i)
  then show ?thesis
    using assms(2) tally_update [OF resume(2), of "\<lambda>p. p = Waiting" "actors s" Outside]
    by (auto simp: lock_step_def split: if_splits)
qed (use assms(2) in \<open>auto simp: lock_step_def cs_time_stop_def cs_time_sync_cases\<close>)

lemma lock_step_reach:
  assumes "timer_reach False n t s" "lock_step n (timer_start t)"
  shows "lock_step n s"
  using assms(1) by induction (auto intro: assms(2) lock_step_step)

section \<open>Properties\<close>

lemma init_timer_ok:
  assumes "cs_init_timer_n (True, True, True) (Some t0) name n = Ok (Some t)" "0 < n"
  shows "t = \<lparr>tm_id = name, stop = 0, n_sync = n, sync = 0, clock = 0\<rparr>"
  using assms by (auto simp: cs_init_timer_n_def cs_make_recursive_mutex_def Let_def)

lemma lock_step_start:
  assumes "cs_init_timer_n (True, True, True) (Some t0) name (int n) = Ok (Some t)" "0 < n"
  shows "lock_step n (timer_start t)"
  using init_timer_ok [OF assms(1)] assms(2)
  by (simp add: lock_step_def timer_start_def)


text \<open>
  Once the timer is stopped no actor waits on it, and every later call of
  \<^verbatim>\<open>cs_time_sync\<close> returns -1 at once.
\<close>

theorem timer_stop_releases:
  assumes "cs_init_timer_n (True, True, True) (Some t0) name (int n) = Ok (Some t)" "0 < n"
    and "timer_reach False n t s" "stop (timer s) \<noteq> 0"
  shows "(\<forall>i<n. actors s i \<noteq> Waiting) \<and> cs_time_sync (timer s) = (Returns (-1), timer s)"
  using lock_step_reach [OF assms(3) lock_step_start [OF assms(1,2)]] assms(4)
  by (simp add: lock_step_def cs_time_sync_def)

lemma two_actors:
  "cs_init_timer (True, True, True) (Some \<lparr>tm_id = [], stop = 9, n_sync = 9, sync = 9, clock = 9\<rparr>) ''t'' =
   Ok (Some \<lparr>tm_id = ''t'', stop = 0, n_sync = 2, sync = 0, clock = 0\<rparr>)"
  by (simp add: cs_init_timer_def cs_init_timer_n_def cs_make_recursive_mutex_def Let_def)

text \<open>A run of the two actors in which actor 0 waits.\<close>

definition one_waiting :: timer_net where
  "one_waiting = \<lparr>timer = \<lparr>tm_id = ''t'', stop = 0, n_sync = 2, sync = 1, clock = 0\<rparr>,
     actors = (\<lambda>_. Outside)(0 := Waiting), rounds = (\<lambda>_. 0), ticks = 0\<rparr>"

lemma one_waiting_reach:
  "timer_reach spurious 2 \<lparr>tm_id = ''t'', stop = 0, n_sync = 2, sync = 0, clock = 0\<rparr> one_waiting"
proof -
  let ?t = "\<lparr>tm_id = ''t'', stop = 0, n_sync = 2, sync = 0, clock = 0\<rparr>"
  have "timer_step spurious 2 (timer_start ?t) one_waiting"
    using sync_wait [of 0 2 "timer_start ?t" "?t\<lparr>sync := 1\<rparr>" spurious]
    by (simp add: timer_start_def one_waiting_def cs_time_sync_def)
  then show ?thesis using timer_reach.start timer_reach.step by blast
qed

text \<open>
  With spurious wake-ups the barrier does not hold: the wait is not in a loop that
  tests the clock.  With two actors, actor 0 alone can advance the clock while actor 1 has
  never called \<^verbatim>\<open>cs_time_sync\<close>.
\<close>

theorem timer_spurious_wakeup:
  "\<exists>t s. cs_init_timer (True, True, True)
       (Some \<lparr>tm_id = [], stop = 9, n_sync = 9, sync = 9, clock = 9\<rparr>) ''t'' = Ok (Some t) \<and>
     timer_reach True 2 t s \<and> stop (timer s) = 0 \<and> cs_get_clock (timer s) = 1 \<and>
     rounds s 0 = 2 \<and> rounds s 1 = 0 \<and> actors s 1 = Outside"
proof -
  let ?t = "\<lparr>tm_id = ''t'', stop = 0, n_sync = 2, sync = 0, clock = 0\<rparr>"
  let ?s1 = "one_waiting\<lparr>actors := (\<lambda>_. Outside)(0 := Woken)\<rparr>"
  let ?s2 = "?s1\<lparr>actors := (\<lambda>_. Outside)(0 := Outside), rounds := (\<lambda>_. 0)(0 := 1)\<rparr>"
  let ?s3 = "?s2\<lparr>timer := ?t\<lparr>clock := 1\<rparr>, actors := wake_all (actors ?s2),
    rounds := (\<lambda>_. 0)(0 := 2), ticks := 1\<rparr>"
  have "timer_step True 2 one_waiting ?s1"
    using wake_up [of True 0 2 one_waiting] by (simp add: one_waiting_def)
  moreover have "timer_step True 2 ?s1 ?s2"
    using resume [of 0 2 ?s1 True] by (simp add: one_waiting_def)
  moreover have "timer_step True 2 ?s2 ?s3"
    using sync_tick [of 0 2 ?s2 "?t\<lparr>clock := 1\<rparr>" True]
    by (simp add: one_waiting_def cs_time_sync_def numeral_2_eq_2)
  ultimately have "timer_reach True 2 ?t ?s3"
    using one_waiting_reach timer_reach.step by meson
  then show ?thesis using two_actors
    by (intro exI [of _ ?t] exI [of _ ?s3]) (simp add: cs_get_clock_def one_waiting_def)
qed

text \<open>
  Lowering \<open>n_sync\<close> with \<^verbatim>\<open>cs_set_nsync\<close> to fewer actors than already wait disables the
  barrier: no later call completes a round, it waits or (at equality) reports an error.
\<close>

theorem timer_set_nsync_stuck:
  assumes "nsync \<le> sync t"
  shows "fst (cs_time_sync (cs_set_nsync t nsync)) \<noteq> Broadcasts \<and>
    n_sync (snd (cs_time_sync (cs_set_nsync t nsync))) \<le> sync (snd (cs_time_sync (cs_set_nsync t nsync)))"
  using assms by (auto simp: cs_time_sync_def cs_set_nsync_def Let_def)

lemma timer_set_nsync_stuck_witness:
  "cs_time_sync (cs_set_nsync \<lparr>tm_id = ''t'', stop = 0, n_sync = 3, sync = 2, clock = 0\<rparr> 1) =
     (Waits, \<lparr>tm_id = ''t'', stop = 0, n_sync = 1, sync = 3, clock = 0\<rparr>) \<and>
   fst (cs_time_sync (cs_set_nsync \<lparr>tm_id = ''t'', stop = 0, n_sync = 3, sync = 2, clock = 0\<rparr> 1)) \<noteq> Broadcasts"
  using timer_set_nsync_stuck [of 1 "\<lparr>tm_id = ''t'', stop = 0, n_sync = 3, sync = 2, clock = 0\<rparr>"]
  by (simp add: cs_time_sync_def cs_set_nsync_def Let_def)


lemma timer_stop_releases_witness:
  "actors (one_waiting\<lparr>timer := cs_time_stop (timer one_waiting), actors := wake_all (actors one_waiting)\<rparr>) 0
     \<noteq> Waiting"
  using timer_stop_releases [of "\<lparr>tm_id = [], stop = 9, n_sync = 9, sync = 9, clock = 9\<rparr>" "''t''" 2
      "\<lparr>tm_id = ''t'', stop = 0, n_sync = 2, sync = 0, clock = 0\<rparr>"
      "one_waiting\<lparr>timer := cs_time_stop (timer one_waiting), actors := wake_all (actors one_waiting)\<rparr>"]
    two_actors timer_reach.step [OF one_waiting_reach [of False] stop_timer]
  by (simp add: cs_init_timer_def cs_time_stop_def)

end
