(* ===== verification/CS_Strings.thy ===== *)
theory CS_Strings
  imports CS_Prelude "HOL-Library.List_Lexorder" "HOL-Library.Char_ord"
begin

text \<open>
  The string function \<open>strcmp\<close> of the C library, which compares the characters as unsigned numbers: the
  sign of its result is the lexicographic order of the strings.
\<close>

fun strcmp :: "string \<Rightarrow> string \<Rightarrow> int" where
  "strcmp [] [] = 0"
| "strcmp [] (d # ds) = -1"
| "strcmp (c # cs) [] = 1"
| "strcmp (c # cs) (d # ds) =
     (if c = d then strcmp cs ds else int (of_char c) - int (of_char d))"

lemma of_char_less: "(of_char c :: nat) < of_char d \<longleftrightarrow> c < d"
  by (simp add: less_char_def)

lemma strcmp_less: "strcmp s t < 0 \<longleftrightarrow> s < t" and strcmp_greater: "0 < strcmp s t \<longleftrightarrow> t < s"
  by (induction s t rule: strcmp.induct) (auto simp: of_char_less)

lemma strcmp_le: "strcmp s t \<le> 0 \<longleftrightarrow> s \<le> t"
  using strcmp_greater [of s t] by (simp add: not_le [symmetric] linorder_not_less flip: linorder_not_le)

end
