(* ===== verification/CS_Event_Tree.thy ===== *)
theory CS_Event_Tree
  imports RB_Traverse CS_Timer CS_Strings
begin

text \<open>
  The two tables of the event manager of \<open>src/cs_events.c\<close>: the event tree, which maps a
  clock value to the list of events scheduled for it, and the handler table, which maps
  an event type to its handler.  Both are red-black tables; each operation here runs
  inside one critical section of the code.

  A linked list of \<open>cs_event_list_item_t\<close> is the list of its events: \<open>head\<close> is the first, \<open>tail\<close>
  the last cell, null when there is none; a pointer into the list is the suffix it starts.
  A handler is an opaque value: what calling it does is a parameter (\<open>run\<close>) of the
  operations that call it.
\<close>

section \<open>Data\<close>

datatype sim_type = EVENT_DRIVEN | ACTIVITY_SCAN

datatype cs_eh_status = CS_EH_NORMAL | CS_EH_ERROR | CS_EH_NO_HANDLER

record 'd cs_event =
  etype :: "string option"
  ev_data :: 'd

record 'd cs_event_list =
  ev_items :: "'d cs_event list"
  scheduled_at :: cs_clockv
  ev_count :: int
  guards :: "'d cs_event list list"

record 'h handler_entry =
  handler :: 'h
  hetype :: string

record ('d, 'h, 'w) cs_event_manager =
  eh_tree :: "'h handler_entry rb_table"
  ev_tree :: "'d cs_event_list rb_table"
  ev_timer :: "nat option"
  wp :: 'w
  nworkers :: int
  start_time :: cs_clockv
  last_completion :: cs_clockv
  ev_stop :: int
  running :: int
  stype :: sim_type

text \<open>What calling a handler does: it may change the event manager.\<close>

type_synonym ('d, 'h, 'w) run_handler =
  "'h \<Rightarrow> 'd cs_event \<Rightarrow> ('d, 'h, 'w) cs_event_manager \<Rightarrow>
     (cs_eh_status \<times> ('d, 'h, 'w) cs_event_manager) outcome"

section \<open>The comparison functions\<close>

definition cmp_handler_func :: "'h handler_entry \<Rightarrow> 'h handler_entry \<Rightarrow> int" where
  "cmp_handler_func eh1 eh2 = strcmp (hetype eh1) (hetype eh2)"

definition cmp_event_list :: "'d cs_event_list \<Rightarrow> 'd cs_event_list \<Rightarrow> int" where
  "cmp_event_list el1 el2 =
     (if sint (scheduled_at el1) > sint (scheduled_at el2) then 1
      else if sint (scheduled_at el1) < sint (scheduled_at el2) then -1 else 0)"

definition ev_key :: "'d cs_event_list \<Rightarrow> int" where
  "ev_key l = sint (scheduled_at l)"

interpretation hs: keyed hetype cmp_handler_func
  by unfold_locales (simp_all add: cmp_handler_func_def strcmp_less strcmp_greater)

interpretation ev: keyed ev_key cmp_event_list
  by unfold_locales (auto simp: cmp_event_list_def ev_key_def)

section \<open>Event lists\<close>

definition new_ev_list :: "bool \<Rightarrow> cs_clockv \<Rightarrow> 'd cs_event_list option" where
  "new_ev_list alloc time =
     (if \<not> alloc then None
      else Some \<lparr>ev_items = [], scheduled_at = time, ev_count = 0, guards = []\<rparr>)"

text \<open>A new cell: the list that consists of it, or null.\<close>

definition new_ev_list_item :: "bool \<Rightarrow> 'd cs_event \<Rightarrow> 'd cs_event list" where
  "new_ev_list_item alloc ev = (if \<not> alloc then [] else [ev])"

text \<open>The list used as a search key on the stack of the callers.\<close>

definition search_list :: "cs_clockv \<Rightarrow> 'd cs_event_list" where
  "search_list time = \<lparr>ev_items = [], scheduled_at = time, ev_count = 0, guards = []\<rparr>"

text \<open>\<^verbatim>\<open>destroy_event_list\<close> tells whether it freed the list itself: not when \<open>ev_count\<close> is 0.\<close>

definition destroy_event_list :: "'d cs_event_list option \<Rightarrow> bool" where
  "destroy_event_list item =
     (case item of None \<Rightarrow> False | Some list \<Rightarrow> ev_count list \<noteq> 0)"

definition get_events ::
  "('d, 'h, 'w) cs_event_manager \<Rightarrow> cs_clockv \<Rightarrow> 'd cs_event_list option" where
  "get_events evm time = rb_find (ev_tree evm) (search_list time)"

section \<open>Scheduling and removal\<close>

text \<open>What \<^verbatim>\<open>malloc\<close> answers during \<^verbatim>\<open>cs_evm_schedule_event\<close>.\<close>

record sched_alloc =
  item_alloc :: bool
  list_alloc :: bool
  node_alloc :: bool

definition alloc_ok :: sched_alloc where
  "alloc_ok = \<lparr>item_alloc = True, list_alloc = True, node_alloc = True\<rparr>"

definition cs_evm_schedule_event ::
  "sched_alloc \<Rightarrow> 'd cs_event \<Rightarrow> cs_clockv \<Rightarrow> ('d, 'h, 'w) cs_event_manager \<Rightarrow>
   (int \<times> ('d, 'h, 'w) cs_event_manager) outcome" where
  "cs_evm_schedule_event a ev at evm =
     (if etype ev = None then Ok (-1, evm)
      else
        (let search = search_list at; new_item = new_ev_list_item (item_alloc a) ev in
         obind
           (case rb_find (ev_tree evm) search of
              None \<Rightarrow>
                (case new_ev_list (list_alloc a) at of
                   None \<Rightarrow> Fault Null_dereference
                 | Some found \<Rightarrow>
                     obind (rb_insert (node_alloc a) (ev_tree evm) (found\<lparr>ev_items := new_item\<rparr>))
                       (\<lambda>(_, t). Ok t))
            | Some found \<Rightarrow>
                if ev_items found = [] \<or> new_item = [] then Fault Null_dereference
                else Ok (rb_store (ev_tree evm) search (\<lambda>l. l\<lparr>ev_items := ev_items l @ new_item\<rparr>)))
           (\<lambda>t. Ok (0, evm\<lparr>ev_tree := rb_store t search (\<lambda>l. l\<lparr>ev_count := ev_count l + 1\<rparr>)\<rparr>))))"

definition pop_events ::
  "('d, 'h, 'w) cs_event_manager \<Rightarrow> cs_clockv \<Rightarrow>
   ('d cs_event_list option \<times> ('d, 'h, 'w) cs_event_manager) outcome" where
  "pop_events evm time =
     obind (rb_delete (ev_tree evm) (search_list time))
       (\<lambda>(found, t). Ok (found, evm\<lparr>ev_tree := t\<rparr>))"

text \<open>\<^verbatim>\<open>cs_evm_delete_events\<close> frees the list it removed after \<^verbatim>\<open>destroy_event_list\<close> has done so.\<close>

definition cs_evm_delete_events ::
  "('d, 'h, 'w) cs_event_manager \<Rightarrow> cs_clockv \<Rightarrow> ('d, 'h, 'w) cs_event_manager outcome" where
  "cs_evm_delete_events evm time =
     obind (rb_delete (ev_tree evm) (search_list time))
       (\<lambda>(found, t).
          if found \<noteq> None \<and> destroy_event_list found then Fault Double_free
          else Ok (evm\<lparr>ev_tree := t\<rparr>))"

section \<open>Queries\<close>

definition cs_evm_event_tree_is_empty :: "('d, 'h, 'w) cs_event_manager \<Rightarrow> int" where
  "cs_evm_event_tree_is_empty evm = (if rb_count (ev_tree evm) = 0 then 1 else 0)"

text \<open>The \<open>size_t\<close> counter read into an \<open>int\<close>.\<close>

definition int_of_size :: "64 word \<Rightarrow> int" where
  "int_of_size n = sint (ucast n :: 32 word)"

text \<open>The loop of \<^verbatim>\<open>cs_evm_num_events\<close>: it never moves the traverser.\<close>

fun num_events_loop :: "nat \<Rightarrow> 'd cs_event_list option \<Rightarrow> int \<Rightarrow> int" where
  "num_events_loop 0 ev_list c = c"
| "num_events_loop (Suc n) ev_list c =
     (case ev_list of None \<Rightarrow> c | Some l \<Rightarrow> num_events_loop n ev_list (c + ev_count l))"

definition cs_evm_num_events :: "('d, 'h, 'w) cs_event_manager \<Rightarrow> int outcome" where
  "cs_evm_num_events evm =
     (let ev_count' = int_of_size (rb_count (ev_tree evm)) in
      if ev_count' = 0 then Ok 0
      else obind (rb_t_first (ev_tree evm))
        (\<lambda>(ev_list, trav). Ok (num_events_loop (nat ev_count') ev_list 0)))"

definition cs_evm_more_events :: "('d, 'h, 'w) cs_event_manager \<Rightarrow> bool outcome" where
  "cs_evm_more_events evm = obind (cs_evm_num_events evm) (\<lambda>n. Ok (n > 0))"

definition cs_evm_find_nearest_events :: "('d, 'h, 'w) cs_event_manager \<Rightarrow> cs_clockv outcome" where
  "cs_evm_find_nearest_events evm =
     obind (rb_t_first (ev_tree evm))
       (\<lambda>(found, trav). case found of
          None \<Rightarrow> Ok (-1)
        | Some l \<Rightarrow> Ok (if ev_count l > 0 then scheduled_at l else -1))"

definition cs_evm_find_farthest_events :: "('d, 'h, 'w) cs_event_manager \<Rightarrow> cs_clockv outcome" where
  "cs_evm_find_farthest_events evm =
     obind (rb_t_last (ev_tree evm))
       (\<lambda>(found, trav). case found of
          None \<Rightarrow> Ok (-1)
        | Some l \<Rightarrow> Ok (if ev_count l > 0 then scheduled_at l else -1))"

section \<open>Handlers\<close>

text \<open>
  A null event type reaches the assertion of \<^verbatim>\<open>cmp_handler_func\<close> as soon as there is an entry
  to compare with.  The \<open>handler\<close> field of the search entry on the stack is not set, and not
  read.
\<close>

definition cs_evm_get_handler ::
  "string option \<Rightarrow> ('d, 'h, 'w) cs_event_manager \<Rightarrow> 'h option outcome" where
  "cs_evm_get_handler ty evm =
     (case ty of
        None \<Rightarrow> if rb_root (eh_tree evm) = Null then Ok None else Fault Assertion_failed
      | Some s \<Rightarrow>
          Ok (map_option handler (rb_find (eh_tree evm) \<lparr>handler = undefined, hetype = s\<rparr>)))"

text \<open>
  \<^verbatim>\<open>cs_evm_install_handler\<close>.  When the type is known, the code passes the handler itself, a
  function pointer, where \<^verbatim>\<open>rb_replace\<close> expects an entry; \<open>bytes h\<close> is the entry found by
  reading the memory at \<open>h\<close> as one, or \<open>None\<close> when that memory holds no valid
  string pointer.  The two allocations are those of the entry and of the tree node.
\<close>

definition cs_evm_install_handler ::
  "bool \<Rightarrow> bool \<Rightarrow> ('h \<Rightarrow> 'h handler_entry option) \<Rightarrow> string option \<Rightarrow> 'h \<Rightarrow>
   ('d, 'h, 'w) cs_event_manager \<Rightarrow> (int \<times> ('d, 'h, 'w) cs_event_manager) outcome" where
  "cs_evm_install_handler new_ok node_ok bytes ty h evm =
     (case ty of
        None \<Rightarrow> Ok (-1, evm)
      | Some s \<Rightarrow>
          if length s = 0 then Ok (-1, evm)
          else if \<not> new_ok then Fault Null_dereference
          else
            obind
              (if rb_find (eh_tree evm) \<lparr>handler = undefined, hetype = s\<rparr> \<noteq> None then
                 (case bytes h of
                    None \<Rightarrow> Fault Dangling_pointer
                  | Some e \<Rightarrow> rb_replace node_ok (eh_tree evm) e)
               else rb_insert node_ok (eh_tree evm) \<lparr>handler = h, hetype = s\<rparr>)
              (\<lambda>(_, t). Ok (0, evm\<lparr>eh_tree := t\<rparr>)))"

definition cs_evm_throw_event ::
  "('d, 'h, 'w) run_handler \<Rightarrow> ('d, 'h, 'w) cs_event_manager \<Rightarrow> 'd cs_event option \<Rightarrow>
   (cs_eh_status \<times> ('d, 'h, 'w) cs_event_manager) outcome" where
  "cs_evm_throw_event run evm ev =
     (case ev of
        None \<Rightarrow> Fault Assertion_failed
      | Some ev \<Rightarrow>
          obind (check (etype ev \<noteq> None) Assertion_failed)
            (\<lambda>_. obind (cs_evm_get_handler (etype ev) evm)
              (\<lambda>handler. case handler of
                 None \<Rightarrow> Ok (CS_EH_NO_HANDLER, evm)
               | Some h \<Rightarrow> run h ev evm)))"

text \<open>Throwing a list of events one after the other.\<close>

fun throw_all ::
  "('d, 'h, 'w) run_handler \<Rightarrow> 'd cs_event list \<Rightarrow> ('d, 'h, 'w) cs_event_manager \<Rightarrow>
   ('d, 'h, 'w) cs_event_manager outcome" where
  "throw_all run [] evm = Ok evm"
| "throw_all run (e # es) evm =
     obind (cs_evm_throw_event run evm (Some e)) (\<lambda>(_, evm). throw_all run es evm)"

text \<open>
  The loop of \<^verbatim>\<open>cs_evm_throw_scheduled_events\<close> on the list \<open>l\<close>, at its cell number \<open>i\<close>.  A
  handler may append to the list, which stays in the tree while it is traversed; a list a
  handler has taken out of the tree is traversed as it was.  The loop need not end: a
  handler may schedule for the same time again.
\<close>

definition reread ::
  "('d, 'h, 'w) cs_event_manager \<Rightarrow> cs_clockv \<Rightarrow> 'd cs_event_list \<Rightarrow> 'd cs_event_list" where
  "reread evm time l =
     (case get_events evm time of
        None \<Rightarrow> l
      | Some l' \<Rightarrow> if take (length (ev_items l)) (ev_items l') = ev_items l then l' else l)"

partial_function (option) throw_loop ::
  "('d, 'h, 'w) run_handler \<Rightarrow> cs_clockv \<Rightarrow> 'd cs_event_list \<Rightarrow> nat \<Rightarrow> ('d, 'h, 'w) cs_event_manager \<Rightarrow>
   (int \<times> ('d, 'h, 'w) cs_event_manager) outcome option" where
  "throw_loop run time l i evm =
     (if i < length (ev_items l) then
        (case cs_evm_throw_event run evm (Some (ev_items l ! i)) of
           Ok r \<Rightarrow> throw_loop run time (reread (snd r) time l) (Suc i) (snd r)
         | Blocks \<Rightarrow> Some Blocks
         | Fault f \<Rightarrow> Some (Fault f))
      else Some (Ok (int i, evm)))"

definition cs_evm_throw_scheduled_events ::
  "('d, 'h, 'w) run_handler \<Rightarrow> ('d, 'h, 'w) cs_event_manager \<Rightarrow> cs_clockv \<Rightarrow>
   (int \<times> ('d, 'h, 'w) cs_event_manager) outcome option" where
  "cs_evm_throw_scheduled_events run evm time =
     (case get_events evm time of
        None \<Rightarrow> Some (Ok (0, evm))
      | Some l \<Rightarrow>
          if ev_count l = 0 then Some (Ok (0, evm))
          else if ev_items l = [] then Some (Fault Assertion_failed)
          else
            (case throw_loop run time l 0 evm of
               None \<Rightarrow> None
             | Some r \<Rightarrow>
                 Some (obind r (\<lambda>(c, evm).
                   obind (cs_evm_delete_events evm time) (\<lambda>evm. Ok (c, evm))))))"

section \<open>Well-formed managers and the schedule they represent\<close>

definition list_ok :: "'d cs_event_list \<Rightarrow> bool" where
  "list_ok l \<longleftrightarrow> ev_items l \<noteq> [] \<and> ev_count l = int (length (ev_items l)) \<and>
     (\<forall>e\<in>set (ev_items l). etype e \<noteq> None)"

definition evm_ok :: "('d, 'h, 'w) cs_event_manager \<Rightarrow> bool" where
  "evm_ok evm \<longleftrightarrow> rb_for cmp_event_list (ev_tree evm) \<and> rb_roomy (ev_tree evm) \<and>
     rb_for cmp_handler_func (eh_tree evm) \<and> rb_roomy (eh_tree evm) \<and>
     (\<forall>l\<in>set (items (ev_tree evm)). list_ok l)"

definition events_at :: "('d, 'h, 'w) cs_event_manager \<Rightarrow> int \<Rightarrow> 'd cs_event list" where
  "events_at evm t =
     (case table_map ev_key (ev_tree evm) t of None \<Rightarrow> [] | Some l \<Rightarrow> ev_items l)"

definition handler_of :: "('d, 'h, 'w) cs_event_manager \<Rightarrow> string \<Rightarrow> 'h option" where
  "handler_of evm s = map_option handler (table_map hetype (eh_tree evm) s)"

lemma ev_key_search [simp]: "ev_key (search_list t) = sint t"
  by (simp add: ev_key_def search_list_def)

lemma evm_okD:
  assumes "evm_ok evm"
  shows "rb_for cmp_event_list (ev_tree evm)" "rb_roomy (ev_tree evm)" "rb_valid (ev_tree evm)"
    "rb_for cmp_handler_func (eh_tree evm)" "rb_roomy (eh_tree evm)"
    "l \<in> set (items (ev_tree evm)) \<Longrightarrow> list_ok l"
  using assms by (auto simp: evm_ok_def rb_for_def)

lemma get_events_map: "evm_ok evm \<Longrightarrow> get_events evm time = table_map ev_key (ev_tree evm) (sint time)"
  by (simp add: get_events_def ev.find_map evm_okD)

lemma get_events_at:
  assumes "evm_ok evm"
  shows "events_at evm (sint time) = (case get_events evm time of None \<Rightarrow> [] | Some l \<Rightarrow> ev_items l)"
    and "get_events evm time = None \<longleftrightarrow> events_at evm (sint time) = []"
    and "get_events evm time = Some l \<Longrightarrow> list_ok l \<and> ev_items l = events_at evm (sint time)"
  using assms ev.map_item [of "ev_tree evm" "sint time"]
  by (auto simp: events_at_def get_events_map list_ok_def dest: evm_okD(6) split: option.splits)

text \<open>A search key behaves like any list with its time.\<close>

lemma cmp_search [simp]: "cmp_event_list (search_list t) l = 0 \<longleftrightarrow> ev_key l = sint t"
  by (auto simp: ev.cmp_eq)

lemma stored_list_insert: "set (list_insert cmp x ys) \<subseteq> insert x (set ys)"
  by (induction ys) auto

lemma size_list_insert: "length (list_insert cmp x ys) \<le> Suc (length ys)"
  by (induction ys) auto

lemma set_list_store:
  "y \<in> set (list_store cmp x f ys) \<Longrightarrow> \<exists>z\<in>set ys. y = (if cmp x z = 0 then f z else z)"
  by (auto simp: list_store_def)

lemma length_list_store [simp]: "length (list_store cmp x f ys) = length ys"
  by (simp add: list_store_def)

lemma set_list_delete: "set (list_delete cmp x ys) \<subseteq> set ys"
  by (auto simp: list_delete_def)

lemma length_list_delete: "length (list_delete cmp x ys) \<le> length ys"
  by (simp add: list_delete_def)

text \<open>The two ways an event enters the tree: with a new list, or at the end of a known one.\<close>

lemma schedule_new:
  assumes "evm_ok evm" "etype e \<noteq> None" "length (items (ev_tree evm)) + 2 < 2 ^ 24"
    and none: "table_map ev_key (ev_tree evm) (sint at) = None"
  shows "\<exists>evm'. cs_evm_schedule_event alloc_ok e at evm = Ok (0, evm') \<and> evm_ok evm' \<and>
    events_at evm' = (events_at evm)(sint at := [e]) \<and>
    length (items (ev_tree evm')) \<le> Suc (length (items (ev_tree evm)))"
proof -
  let ?l = "\<lparr>ev_items = [e], scheduled_at = at, ev_count = 0, guards = []\<rparr>"
  let ?f = "\<lambda>l :: 'a cs_event_list. l\<lparr>ev_count := ev_count l + 1\<rparr>"
  have k: "ev_key ?l = sint at" by (simp add: ev_key_def)
  obtain t where t: "rb_insert True (ev_tree evm) ?l = Ok (None, t)" "rb_for cmp_event_list t"
    "table_map ev_key t = (table_map ev_key (ev_tree evm))(sint at \<mapsto> ?l)"
    "items t = list_insert cmp_event_list ?l (items (ev_tree evm))"
    using ev.insert_map [of "ev_tree evm" ?l] evm_okD [OF assms(1)] none k by auto
  have f: "\<And>x. ev_key (?f x) = ev_key x" by (simp add: ev_key_def)
  let ?t = "rb_store t (search_list at) ?f"
  note st = ev.store_ok [where f = ?f and item = "search_list at", OF t(2) f]
    ev.store_map [where f = ?f and item = "search_list at", OF t(2) f]
  have "list_ok y" if y: "y \<in> set (items ?t)" for y
  proof -
    obtain z where z: "z \<in> set (items t)" "y = (if ev_key z = sint at then ?f z else z)"
      using set_list_store y unfolding st(2) by fastforce
    consider "z = ?l" | "z \<in> set (items (ev_tree evm))" using z(1) t(4) stored_list_insert by fastforce
    then show ?thesis
    proof cases
      case 1
      then show ?thesis using z(2) assms(2) k by (simp add: list_ok_def)
    next
      case 2
      then have "ev_key z \<noteq> sint at"
        using ev.map_of_item [OF evm_okD(1) [OF assms(1)]] none by fastforce
      then show ?thesis using 2 z(2) evm_okD(6) [OF assms(1)] by simp
    qed
  qed
  moreover have len: "length (items ?t) \<le> Suc (length (items (ev_tree evm)))"
    using t(4) st(2) size_list_insert [of cmp_event_list ?l "items (ev_tree evm)"] by simp
  moreover have "rb_roomy ?t" using assms(3) len by (simp add: rb_roomy_def)
  ultimately have "evm_ok (evm\<lparr>ev_tree := ?t\<rparr>)"
    using st(1) evm_okD [OF assms(1)] by (simp add: evm_ok_def)
  moreover have "events_at (evm\<lparr>ev_tree := ?t\<rparr>) = (events_at evm)(sint at := [e])"
    using st(3) t(3) by (auto simp: events_at_def fun_eq_iff split: option.splits)
  moreover have "cs_evm_schedule_event alloc_ok e at evm = Ok (0, evm\<lparr>ev_tree := ?t\<rparr>)"
    using t(1) assms(2) none evm_okD(1) [OF assms(1)]
    by (simp add: cs_evm_schedule_event_def alloc_ok_def new_ev_list_def new_ev_list_item_def
        ev.find_map Let_def)
  ultimately show ?thesis using len by (intro exI [of _ "evm\<lparr>ev_tree := ?t\<rparr>"]) simp
qed

lemma schedule_known:
  assumes "evm_ok evm" "etype e \<noteq> None" "table_map ev_key (ev_tree evm) (sint at) = Some l"
  shows "\<exists>evm'. cs_evm_schedule_event alloc_ok e at evm = Ok (0, evm') \<and> evm_ok evm' \<and>
    events_at evm' = (events_at evm)(sint at := events_at evm (sint at) @ [e]) \<and>
    length (items (ev_tree evm')) \<le> Suc (length (items (ev_tree evm)))"
proof -
  let ?f = "\<lambda>l :: 'a cs_event_list. l\<lparr>ev_count := ev_count l + 1\<rparr>"
  let ?g = "\<lambda>l :: 'a cs_event_list. l\<lparr>ev_items := ev_items l @ [e]\<rparr>"
  have f: "\<And>x. ev_key (?f x) = ev_key x" "\<And>x. ev_key (?g x) = ev_key x" by (simp_all add: ev_key_def)
  let ?t1 = "rb_store (ev_tree evm) (search_list at) ?g"
  let ?t = "rb_store ?t1 (search_list at) ?f"
  note s1 = ev.store_ok [where f = ?g and item = "search_list at", OF evm_okD(1) [OF assms(1)] f(2)]
    ev.store_map [where f = ?g and item = "search_list at", OF evm_okD(1) [OF assms(1)] f(2)]
  note s2 = ev.store_ok [where f = ?f and item = "search_list at", OF s1(1) f(1)]
    ev.store_map [where f = ?f and item = "search_list at", OF s1(1) f(1)]
  have "list_ok y" if y: "y \<in> set (items ?t)" for y
  proof -
    obtain z where z: "z \<in> set (items ?t1)" "y = (if ev_key z = sint at then ?f z else z)"
      using set_list_store y unfolding s2(2) by fastforce
    obtain w where w: "w \<in> set (items (ev_tree evm))" "z = (if ev_key w = sint at then ?g w else w)"
      using set_list_store z(1) unfolding s1(2) by fastforce
    show ?thesis using evm_okD(6) [OF assms(1) w(1)] z(2) w(2) assms(2)
      by (auto simp: list_ok_def ev_key_def split: if_splits)
  qed
  moreover have "rb_roomy ?t"
    using evm_okD(2) [OF assms(1)] s1(2) s2(2) by (simp add: rb_roomy_def)
  ultimately have "evm_ok (evm\<lparr>ev_tree := ?t\<rparr>)"
    using s2(1) evm_okD [OF assms(1)] by (simp add: evm_ok_def)
  moreover have "events_at (evm\<lparr>ev_tree := ?t\<rparr>) = (events_at evm)(sint at := events_at evm (sint at) @ [e])"
    using s1(3) s2(3) assms(3) by (auto simp: events_at_def fun_eq_iff split: option.splits)
  moreover have "ev_items l \<noteq> []"
    using evm_okD(6) [OF assms(1) ev.map_item [OF assms(3)]] by (simp add: list_ok_def)
  then have "cs_evm_schedule_event alloc_ok e at evm = Ok (0, evm\<lparr>ev_tree := ?t\<rparr>)"
    using assms(2,3) evm_okD(1) [OF assms(1)]
    by (simp add: cs_evm_schedule_event_def alloc_ok_def new_ev_list_item_def ev.find_map Let_def)
  moreover have "length (items ?t) = length (items (ev_tree evm))" using s1(2) s2(2) by simp
  ultimately show ?thesis by (intro exI [of _ "evm\<lparr>ev_tree := ?t\<rparr>"]) simp
qed

lemma schedule_ok:
  assumes "evm_ok evm" "etype e \<noteq> None" "length (items (ev_tree evm)) + 2 < 2 ^ 24"
  shows "\<exists>evm'. cs_evm_schedule_event alloc_ok e at evm = Ok (0, evm') \<and> evm_ok evm' \<and>
    events_at evm' = (events_at evm)(sint at := events_at evm (sint at) @ [e]) \<and>
    length (items (ev_tree evm')) \<le> Suc (length (items (ev_tree evm)))"
proof (cases "table_map ev_key (ev_tree evm) (sint at)")
  case None
  then show ?thesis using schedule_new [OF assms None] by (simp add: events_at_def)
next
  case (Some l)
  then show ?thesis by (rule schedule_known [OF assms(1,2)])
qed

lemma pop_ok:
  assumes "evm_ok evm"
  shows "\<exists>evm'. pop_events evm at = Ok (get_events evm at, evm') \<and> evm_ok evm' \<and>
    events_at evm' = (events_at evm)(sint at := []) \<and>
    length (items (ev_tree evm')) \<le> length (items (ev_tree evm))"
proof -
  obtain t where t: "rb_delete (ev_tree evm) (search_list at) = Ok (get_events evm at, t)"
    "rb_for cmp_event_list t" "table_map ev_key t = (table_map ev_key (ev_tree evm))(sint at := None)"
    "items t = list_delete cmp_event_list (search_list at) (items (ev_tree evm))"
    using ev.delete_map [of "ev_tree evm" "search_list at"] evm_okD [OF assms]
    by (auto simp: get_events_map [OF assms])
  have "rb_roomy t"
    using evm_okD(2) [OF assms] t(4) length_list_delete [of cmp_event_list "search_list at" "items (ev_tree evm)"]
    by (simp add: rb_roomy_def)
  moreover have "\<forall>l\<in>set (items t). list_ok l" using t(4) evm_okD(6) [OF assms] set_list_delete by fastforce
  ultimately have "evm_ok (evm\<lparr>ev_tree := t\<rparr>)" using t(2) evm_okD [OF assms] by (simp add: evm_ok_def)
  moreover have "events_at (evm\<lparr>ev_tree := t\<rparr>) = (events_at evm)(sint at := [])"
    using t(3) by (auto simp: events_at_def fun_eq_iff)
  ultimately show ?thesis
    using t(1,4) length_list_delete [of cmp_event_list "search_list at" "items (ev_tree evm)"]
    by (auto simp: pop_events_def)
qed

section \<open>The interface of the event tree: an agenda\<close>

text \<open>
  What the event controller and the users of the event manager rely on: entries are filed
  under a time and taken out per time, in the order in which they were filed.  The number
  bounds how many more entries are sure to find room.
\<close>

fun put_all ::
  "('e \<Rightarrow> cs_clockv \<Rightarrow> 'q \<Rightarrow> (int \<times> 'q) outcome) \<Rightarrow> ('e \<times> cs_clockv) list \<Rightarrow> 'q \<Rightarrow> 'q outcome" where
  "put_all put [] q = Ok q"
| "put_all put ((e, t) # es) q = obind (put e t q) (\<lambda>(_, q). put_all put es q)"

fun take_all ::
  "('q \<Rightarrow> cs_clockv \<Rightarrow> ('e list \<times> 'q) outcome) \<Rightarrow> cs_clockv list \<Rightarrow> 'q \<Rightarrow> ('e list list \<times> 'q) outcome" where
  "take_all tk [] q = Ok ([], q)"
| "take_all tk (t # ts) q =
     obind (tk q t) (\<lambda>(es, q). obind (take_all tk ts q) (\<lambda>(ess, q). Ok (es # ess, q)))"

text \<open>The entries filed under the time \<open>k\<close>.\<close>

definition filed_at :: "int \<Rightarrow> ('e \<times> cs_clockv) list \<Rightarrow> 'e list" where
  "filed_at k es = map fst (filter (\<lambda>(e, t). sint t = k) es)"

lemma filed_at_simps [simp]:
  "filed_at k [] = []"
  "filed_at k ((e, t) # es) = (if sint t = k then e # filed_at k es else filed_at k es)"
  by (simp_all add: filed_at_def)

locale agenda =
  fixes holds :: "'q \<Rightarrow> (int \<Rightarrow> 'e list) \<Rightarrow> nat \<Rightarrow> bool"
    and good :: "'e \<Rightarrow> bool"
    and put :: "'e \<Rightarrow> cs_clockv \<Rightarrow> 'q \<Rightarrow> (int \<times> 'q) outcome"
    and tk :: "'q \<Rightarrow> cs_clockv \<Rightarrow> ('e list \<times> 'q) outcome"
  assumes put_law: "holds q f (Suc n) \<Longrightarrow> good e \<Longrightarrow>
      \<exists>q'. put e t q = Ok (0, q') \<and> holds q' (f(sint t := f (sint t) @ [e])) n"
    and tk_law: "holds q f n \<Longrightarrow> \<exists>q'. tk q t = Ok (f (sint t), q') \<and> holds q' (f(sint t := [])) n"
begin

lemma put_all_ok:
  "holds q f (length es + n) \<Longrightarrow> \<forall>(e, t)\<in>set es. good e \<Longrightarrow>
   \<exists>q'. put_all put es q = Ok q' \<and> holds q' (\<lambda>k. f k @ filed_at k es) n"
proof (induction es arbitrary: q f)
  case (Cons p es)
  obtain e t where p: "p = (e, t)" by (cases p)
  then obtain q1 where q1: "put e t q = Ok (0, q1)" "holds q1 (f(sint t := f (sint t) @ [e])) (length es + n)"
    using put_law [of q f "length es + n" e t] Cons.prems by auto
  obtain q2 where "put_all put es q1 = Ok q2"
    "holds q2 (\<lambda>k. (f(sint t := f (sint t) @ [e])) k @ filed_at k es) n"
    using Cons.IH [OF q1(2)] Cons.prems(2) by auto
  moreover have "(\<lambda>k. (f(sint t := f (sint t) @ [e])) k @ filed_at k es) = (\<lambda>k. f k @ filed_at k (p # es))"
    by (auto simp: p fun_eq_iff)
  ultimately show ?case using q1(1) p by auto
qed auto

lemma take_all_ok:
  "holds q f n \<Longrightarrow> distinct (map sint ts) \<Longrightarrow>
   \<exists>q'. take_all tk ts q = Ok (map (\<lambda>t. f (sint t)) ts, q') \<and>
     holds q' (\<lambda>k. if k \<in> sint ` set ts then [] else f k) n"
proof (induction ts arbitrary: q f)
  case (Cons t ts)
  obtain q1 where q1: "tk q t = Ok (f (sint t), q1)" "holds q1 (f(sint t := [])) n"
    using tk_law [OF Cons.prems(1)] by blast
  obtain q2 where q2: "take_all tk ts q1 = Ok (map (\<lambda>u. (f(sint t := [])) (sint u)) ts, q2)"
    "holds q2 (\<lambda>k. if k \<in> sint ` set ts then [] else (f(sint t := [])) k) n"
    using Cons.IH [OF q1(2)] Cons.prems(2) by auto
  have "map (\<lambda>u. (f(sint t := [])) (sint u)) ts = map (\<lambda>u. f (sint u)) ts"
    using Cons.prems(2) by (auto simp: image_iff)
  moreover have "(\<lambda>k. if k \<in> sint ` set ts then [] else (f(sint t := [])) k) =
      (\<lambda>k. if k \<in> sint ` set (t # ts) then [] else f k)"
    by (auto simp: fun_eq_iff)
  ultimately show ?case using q1(1) q2 by auto
qed auto

text \<open>Filing entries and then taking them out, time by time.\<close>

lemma file_and_take:
  assumes "holds q (\<lambda>_. []) (length es)" "\<forall>(e, t)\<in>set es. good e" "distinct (map sint ts)"
  shows "\<exists>q' q''. put_all put es q = Ok q' \<and>
    take_all tk ts q' = Ok (map (\<lambda>t. filed_at (sint t) es) ts, q'')"
  using put_all_ok [of q "\<lambda>_. []" es 0] take_all_ok [of _ "\<lambda>k. [] @ filed_at k es" 0 ts] assms
  by fastforce

end

definition agenda_of ::
  "('d, 'h, 'w) cs_event_manager \<Rightarrow> (int \<Rightarrow> 'd cs_event list) \<Rightarrow> nat \<Rightarrow> bool" where
  "agenda_of evm f n \<longleftrightarrow> evm_ok evm \<and> events_at evm = f \<and> length (items (ev_tree evm)) + n + 1 < 2 ^ 24"

text \<open>The events of the list \<^verbatim>\<open>pop_events\<close> returns, none when it returns null.\<close>

definition pop_list ::
  "('d, 'h, 'w) cs_event_manager \<Rightarrow> cs_clockv \<Rightarrow>
   ('d cs_event list \<times> ('d, 'h, 'w) cs_event_manager) outcome" where
  "pop_list evm time = obind (pop_events evm time)
     (\<lambda>(found, evm). Ok (case found of None \<Rightarrow> [] | Some l \<Rightarrow> ev_items l, evm))"

interpretation tree: agenda agenda_of "\<lambda>e :: 'd cs_event. etype e \<noteq> None" "cs_evm_schedule_event alloc_ok" pop_list
proof
  fix q :: "('d, 'h, 'w) cs_event_manager" and f n t and e :: "'d cs_event"
  assume h: "agenda_of q f (Suc n)" and e: "etype e \<noteq> None"
  obtain q' where "cs_evm_schedule_event alloc_ok e t q = Ok (0, q')" "evm_ok q'"
    "events_at q' = (events_at q)(sint t := events_at q (sint t) @ [e])"
    "length (items (ev_tree q')) \<le> Suc (length (items (ev_tree q)))"
    using schedule_ok [of q e t] h e by (auto simp: agenda_of_def)
  then show "\<exists>q'. cs_evm_schedule_event alloc_ok e t q = Ok (0, q') \<and>
      agenda_of q' (f(sint t := f (sint t) @ [e])) n"
    using h by (intro exI [of _ q']) (auto simp: agenda_of_def)
next
  fix q :: "('d, 'h, 'w) cs_event_manager" and f n t
  assume h: "agenda_of q f n"
  then obtain q' where "pop_events q t = Ok (get_events q t, q')" "evm_ok q'"
    "events_at q' = (events_at q)(sint t := [])" "length (items (ev_tree q')) \<le> length (items (ev_tree q))"
    using pop_ok [of q t] by (auto simp: agenda_of_def)
  moreover have "events_at q (sint t) = (case get_events q t of None \<Rightarrow> [] | Some l \<Rightarrow> ev_items l)"
    using get_events_at(1) [of q t] h by (simp add: agenda_of_def)
  ultimately show "\<exists>q'. pop_list q t = Ok (f (sint t), q') \<and> agenda_of q' (f(sint t := [])) n"
    using h by (intro exI [of _ q']) (auto simp: agenda_of_def pop_list_def)
qed

section \<open>The queries\<close>

lemma num_events_loop_some: "num_events_loop n (Some l) c = c + int n * ev_count l"
  by (induction n arbitrary: c) (auto simp: algebra_simps)

lemma int_of_size_small:
  assumes "n < 2 ^ 31"
  shows "int_of_size (of_nat n) = int n"
proof -
  have "ucast (of_nat n :: 64 word) = (of_nat n :: 32 word)"
    using assms by (simp add: unsigned_of_nat take_bit_nat_eq_self)
  moreover have "sint (of_nat n :: 32 word) = int n"
    using assms by (simp add: signed_of_nat signed_take_bit_int_eq_self)
  ultimately show ?thesis by (simp add: int_of_size_def)
qed

lemma count_of_tree: "evm_ok evm \<Longrightarrow> int_of_size (rb_count (ev_tree evm)) = int (length (items (ev_tree evm)))"
  using int_of_size_small [of "length (items (ev_tree evm))"] evm_okD(2) [of evm]
    rb_forD(5) [OF evm_okD(1) [of evm]] by (simp add: rb_roomy_def)

lemma num_events_value:
  assumes "evm_ok evm"
  shows "cs_evm_num_events evm = Ok (case items (ev_tree evm) of
    [] \<Rightarrow> 0 | l # ls \<Rightarrow> int (length (l # ls)) * int (length (ev_items l)))"
proof (cases "items (ev_tree evm)")
  case Nil
  then show ?thesis using count_of_tree [OF assms] by (simp add: cs_evm_num_events_def)
next
  case (Cons l ls)
  then obtain trav where "rb_t_first (ev_tree evm) = Ok (Some l, trav)"
    using first_at [OF evm_okD(3,2) [OF assms]] by blast
  moreover have "ev_count l = int (length (ev_items l))"
    using evm_okD(6) [OF assms, of l] Cons by (simp add: list_ok_def)
  ultimately show ?thesis using count_of_tree [OF assms] Cons
    by (simp add: cs_evm_num_events_def num_events_loop_some nat_add_distrib algebra_simps)
qed

text \<open>The items of the tree and the times with events are the same.\<close>

lemma events_at_items:
  assumes "evm_ok evm"
  shows "events_at evm t \<noteq> [] \<longleftrightarrow> (\<exists>l\<in>set (items (ev_tree evm)). ev_key l = t)"
proof
  assume "events_at evm t \<noteq> []"
  then obtain l where "table_map ev_key (ev_tree evm) t = Some l"
    by (auto simp: events_at_def split: option.splits)
  then show "\<exists>l\<in>set (items (ev_tree evm)). ev_key l = t"
    using ev.map_item ev.key_of_found by blast
next
  assume "\<exists>l\<in>set (items (ev_tree evm)). ev_key l = t"
  then obtain l where l: "l \<in> set (items (ev_tree evm))" "ev_key l = t" by blast
  then have "table_map ev_key (ev_tree evm) t = Some l"
    using ev.map_of_item [OF evm_okD(1) [OF assms]] by blast
  then show "events_at evm t \<noteq> []"
    using evm_okD(6) [OF assms l(1)] by (simp add: events_at_def list_ok_def)
qed

lemma keys_sorted: "evm_ok evm \<Longrightarrow> sorted_wrt (<) (map ev_key (items (ev_tree evm)))"
  using rb_forD(3) [OF evm_okD(1)] by (simp add: ev.ordered_iff)

lemma nearest_ok:
  assumes "evm_ok evm"
  shows "if items (ev_tree evm) = [] then cs_evm_find_nearest_events evm = Ok (-1)
    else \<exists>t. cs_evm_find_nearest_events evm = Ok t \<and> events_at evm (sint t) \<noteq> [] \<and>
      (\<forall>k. events_at evm k \<noteq> [] \<longrightarrow> sint t \<le> k)"
proof (cases "items (ev_tree evm)")
  case Nil
  then show ?thesis by (simp add: cs_evm_find_nearest_events_def first_empty)
next
  case (Cons l ls)
  then obtain trav where f: "rb_t_first (ev_tree evm) = Ok (Some l, trav)"
    using first_at [OF evm_okD(3,2) [OF assms]] by blast
  have "ev_count l > 0" using evm_okD(6) [OF assms, of l] Cons by (simp add: list_ok_def)
  then have "cs_evm_find_nearest_events evm = Ok (scheduled_at l)"
    using f by (simp add: cs_evm_find_nearest_events_def)
  moreover have "events_at evm (sint (scheduled_at l)) \<noteq> []"
    using events_at_items [OF assms] Cons by (auto simp: ev_key_def)
  moreover have "sint (scheduled_at l) \<le> k" if "events_at evm k \<noteq> []" for k
    using that events_at_items [OF assms] keys_sorted [OF assms] Cons by (fastforce simp: ev_key_def)
  ultimately show ?thesis using Cons by auto
qed

lemma farthest_ok:
  assumes "evm_ok evm"
  shows "if items (ev_tree evm) = [] then cs_evm_find_farthest_events evm = Ok (-1)
    else \<exists>t. cs_evm_find_farthest_events evm = Ok t \<and> events_at evm (sint t) \<noteq> [] \<and>
      (\<forall>k. events_at evm k \<noteq> [] \<longrightarrow> k \<le> sint t)"
proof (cases "items (ev_tree evm)" rule: rev_cases)
  case Nil
  then show ?thesis by (simp add: cs_evm_find_farthest_events_def last_empty)
next
  case (snoc ls l)
  then obtain trav where f: "rb_t_last (ev_tree evm) = Ok (Some l, trav)"
    using last_at [OF evm_okD(3,2) [OF assms]] by blast
  have "ev_count l > 0" using evm_okD(6) [OF assms, of l] snoc by (simp add: list_ok_def)
  then have "cs_evm_find_farthest_events evm = Ok (scheduled_at l)"
    using f by (simp add: cs_evm_find_farthest_events_def)
  moreover have "events_at evm (sint (scheduled_at l)) \<noteq> []"
    using events_at_items [OF assms] snoc by (auto simp: ev_key_def)
  moreover have "k \<le> sint (scheduled_at l)" if "events_at evm k \<noteq> []" for k
    using that events_at_items [OF assms] keys_sorted [OF assms] snoc
    by (fastforce simp: ev_key_def sorted_wrt_append)
  ultimately show ?thesis using snoc by auto
qed

section \<open>Handlers\<close>

lemma get_handler_map:
  "evm_ok evm \<Longrightarrow> cs_evm_get_handler (Some s) evm = Ok (handler_of evm s)"
  by (simp add: cs_evm_get_handler_def handler_of_def hs.find_map evm_okD)

lemma install_fresh:
  assumes "evm_ok evm" "s \<noteq> []" "handler_of evm s = None" "length (items (eh_tree evm)) + 2 < 2 ^ 24"
  shows "\<exists>evm'. cs_evm_install_handler True True bytes (Some s) h evm = Ok (0, evm') \<and> evm_ok evm' \<and>
    handler_of evm' = (handler_of evm)(s \<mapsto> h) \<and> events_at evm' = events_at evm"
proof -
  let ?e = "\<lparr>handler = h, hetype = s\<rparr>"
  have none: "table_map hetype (eh_tree evm) s = None" using assms(3) by (simp add: handler_of_def)
  obtain t where t: "rb_insert True (eh_tree evm) ?e = Ok (None, t)" "rb_for cmp_handler_func t"
    "table_map hetype t = (table_map hetype (eh_tree evm))(s \<mapsto> ?e)"
    "items t = list_insert cmp_handler_func ?e (items (eh_tree evm))"
    using hs.insert_map [of "eh_tree evm" ?e] evm_okD [OF assms(1)] none by auto
  have "rb_roomy t"
    using t(4) assms(4) size_list_insert [of cmp_handler_func ?e "items (eh_tree evm)"]
    by (simp add: rb_roomy_def)
  then have "evm_ok (evm\<lparr>eh_tree := t\<rparr>)" using t(2) evm_okD [OF assms(1)] by (simp add: evm_ok_def)
  moreover have "cs_evm_install_handler True True bytes (Some s) h evm = Ok (0, evm\<lparr>eh_tree := t\<rparr>)"
    using assms(2) none t(1) evm_okD [OF assms(1)] by (simp add: cs_evm_install_handler_def hs.find_map)
  ultimately show ?thesis using t(3)
    by (intro exI [of _ "evm\<lparr>eh_tree := t\<rparr>"]) (auto simp: handler_of_def events_at_def fun_eq_iff)
qed

text \<open>Installing a second handler for a type does not install it.\<close>

lemma install_again:
  assumes "evm_ok evm" "s \<noteq> []" "handler_of evm s = Some h0" "bytes h = Some e" "hetype e \<noteq> s"
    and "cs_evm_install_handler True ok bytes (Some s) h evm = Ok (r, evm')"
  shows "r = 0 \<and> handler_of evm' s = Some h0"
proof -
  have found: "rb_find (eh_tree evm) \<lparr>handler = undefined, hetype = s\<rparr> \<noteq> None"
    using assms(3) evm_okD [OF assms(1)] by (auto simp: hs.find_map handler_of_def)
  then obtain d t where rp: "rb_replace ok (eh_tree evm) e = Ok (d, t)" "r = 0" "evm' = evm\<lparr>eh_tree := t\<rparr>"
    using assms(2,4,6) by (auto simp: cs_evm_install_handler_def outcome_simps)
  have "table_map hetype t s = table_map hetype (eh_tree evm) s"
  proof (cases "table_map hetype (eh_tree evm) (hetype e)")
    case None
    then show ?thesis
      using rp(1) hs.probe_new [of "eh_tree evm" e] hs.probe_no_memory [of "eh_tree evm" e]
        evm_okD [OF assms(1)] assms(5) hs.find_insert [where item = e and k = s and xs = "items (eh_tree evm)"]
      by (cases ok) (auto simp: rb_replace_def hs.list_find_map table_map_def)
  next
    case (Some d')
    then show ?thesis
      using rp(1) hs.replace_duplicate [of "eh_tree evm" e d' ok] evm_okD [OF assms(1)] assms(5)
        hs.find_replace [where item = e and k = s and xs = "items (eh_tree evm)"]
      by (auto simp: hs.list_find_map table_map_def)
  qed
  then show ?thesis using rp assms(3) by (simp add: handler_of_def)
qed

section \<open>Throwing the events of a time\<close>

text \<open>Handlers that keep the manager well formed and the events of \<open>time\<close> as they are.\<close>

definition quiet :: "('d, 'h, 'w) run_handler \<Rightarrow> cs_clockv \<Rightarrow> bool" where
  "quiet run time \<longleftrightarrow> (\<forall>h e evm st evm'. run h e evm = Ok (st, evm') \<longrightarrow> evm_ok evm \<longrightarrow>
     evm_ok evm' \<and> get_events evm' time = get_events evm time)"

lemma throw_event_quiet:
  assumes "quiet run time" "evm_ok evm" "cs_evm_throw_event run evm (Some e) = Ok (st, evm')"
  shows "evm_ok evm' \<and> get_events evm' time = get_events evm time"
  using assms
  by (auto simp: cs_evm_throw_event_def quiet_def outcome_simps split: option.splits)

lemma throw_all_quiet:
  assumes "quiet run time"
  shows "evm_ok evm \<Longrightarrow> throw_all run es evm = Ok evm' \<Longrightarrow>
    evm_ok evm' \<and> get_events evm' time = get_events evm time"
proof (induction es arbitrary: evm)
  case (Cons e es)
  then obtain st evm1 where "cs_evm_throw_event run evm (Some e) = Ok (st, evm1)"
    "throw_all run es evm1 = Ok evm'" by (auto simp: outcome_simps)
  with Cons throw_event_quiet [OF assms] show ?case by metis
qed simp

lemma throw_loop_quiet:
  assumes "quiet run time"
  shows "evm_ok evm \<Longrightarrow> get_events evm time = Some l \<Longrightarrow> i \<le> length (ev_items l) \<Longrightarrow>
    throw_loop run time l i evm =
      Some (obind (throw_all run (drop i (ev_items l)) evm) (\<lambda>evm'. Ok (int (length (ev_items l)), evm')))"
proof (induction "length (ev_items l) - i" arbitrary: i evm)
  case 0
  then show ?case by (simp add: throw_loop.simps)
next
  case (Suc k)
  then have i: "i < length (ev_items l)" by simp
  then have d: "drop i (ev_items l) = ev_items l ! i # drop (Suc i) (ev_items l)"
    by (simp add: Cons_nth_drop_Suc)
  show ?case
  proof (cases "cs_evm_throw_event run evm (Some (ev_items l ! i))")
    case (Ok r)
    then have q: "evm_ok (snd r)" "get_events (snd r) time = Some l"
      using throw_event_quiet [OF assms, of evm "ev_items l ! i" "fst r" "snd r"] Suc.prems by auto
    have "reread (snd r) time l = l" using q(2) by (simp add: reread_def)
    moreover have "throw_loop run time l (Suc i) (snd r) =
      Some (obind (throw_all run (drop (Suc i) (ev_items l)) (snd r))
        (\<lambda>evm'. Ok (int (length (ev_items l)), evm')))"
      using Suc.hyps q i by simp
    ultimately show ?thesis using Ok i d by (simp add: throw_loop.simps [of run time l i evm] split_def)
  qed (use i d in \<open>simp_all add: throw_loop.simps [of run time l i evm]\<close>)
qed

lemma delete_events_double_free:
  assumes "evm_ok evm" "get_events evm time = Some l"
  shows "cs_evm_delete_events evm time = Fault Double_free"
proof -
  obtain evm' where "pop_events evm time = Ok (Some l, evm')" using pop_ok [OF assms(1)] assms(2) by metis
  moreover have "ev_count l \<noteq> 0" using get_events_at(3) [OF assms] by (auto simp: list_ok_def)
  ultimately show ?thesis
    by (auto simp: pop_events_def cs_evm_delete_events_def destroy_event_list_def outcome_simps)
qed

section \<open>Properties\<close>


text \<open>A manager without events and handlers.\<close>

definition empty_manager :: "('d, 'h, unit) cs_event_manager" where
  "empty_manager =
     \<lparr>eh_tree = \<lparr>rb_root = Null, rb_compare = cmp_handler_func, rb_count = 0, rb_generation = 0\<rparr>,
      ev_tree = \<lparr>rb_root = Null, rb_compare = cmp_event_list, rb_count = 0, rb_generation = 0\<rparr>,
      ev_timer = None, wp = (), nworkers = 1, start_time = 0, last_completion = 0, ev_stop = 0,
      running = 0, stype = EVENT_DRIVEN\<rparr>"

lemma empty_manager_ok:
  "evm_ok empty_manager" "events_at empty_manager = (\<lambda>_. [])" "items (ev_tree empty_manager) = []"
  "items (eh_tree empty_manager) = []" "handler_of empty_manager = Map.empty"
  by (auto simp: empty_manager_def evm_ok_def rb_for_def rb_valid_def rb_roomy_def items_def
      ordered_def events_at_def handler_of_def table_map_def rb_inv_def)


text \<open>
  \<^verbatim>\<open>cs_evm_find_nearest_events\<close> and \<^verbatim>\<open>cs_evm_find_farthest_events\<close> return the least and the
  greatest time for which an event is scheduled, and -1 when there is none.
\<close>

theorem nearest_and_farthest:
  assumes "evm_ok evm"
  shows "if events_at evm = (\<lambda>_. [])
    then cs_evm_find_nearest_events evm = Ok (-1) \<and> cs_evm_find_farthest_events evm = Ok (-1)
    else (\<exists>t u. cs_evm_find_nearest_events evm = Ok t \<and> cs_evm_find_farthest_events evm = Ok u \<and>
      events_at evm (sint t) \<noteq> [] \<and> events_at evm (sint u) \<noteq> [] \<and>
      (\<forall>k. events_at evm k = [] \<or> sint t \<le> k \<and> k \<le> sint u))"
proof (cases "items (ev_tree evm)")
  case Nil
  then have "events_at evm = (\<lambda>_. [])" using events_at_items [OF assms] by auto
  then show ?thesis using nearest_ok [OF assms] farthest_ok [OF assms] Nil by simp
next
  case (Cons l ls)
  then have "events_at evm (ev_key l) \<noteq> []" using events_at_items [OF assms] by auto
  then have "events_at evm \<noteq> (\<lambda>_. [])" by auto
  then show ?thesis using nearest_ok [OF assms] farthest_ok [OF assms] Cons by auto
qed

lemma nearest_and_farthest_witness:
  "cs_evm_find_nearest_events (empty_manager :: (nat, nat, unit) cs_event_manager) = Ok (-1)"
  using nearest_and_farthest [of "empty_manager :: (nat, nat, unit) cs_event_manager"]
  by (simp add: empty_manager_ok)

lemma more_events_value:
  assumes "evm_ok evm"
  shows "cs_evm_more_events evm = Ok (events_at evm \<noteq> (\<lambda>_. [])) \<and>
    (cs_evm_event_tree_is_empty evm = 1 \<longleftrightarrow> events_at evm = (\<lambda>_. [])) \<and>
    cs_evm_num_events evm = Ok (case items (ev_tree evm) of
      [] \<Rightarrow> 0 | l # ls \<Rightarrow> int (length (l # ls)) * int (length (ev_items l)))"
proof -
  have ne: "events_at evm = (\<lambda>_. []) \<longleftrightarrow> items (ev_tree evm) = []"
    using events_at_items [OF assms] by (cases "items (ev_tree evm)") (auto simp: fun_eq_iff)
  have c: "rb_count (ev_tree evm) = 0 \<longleftrightarrow> items (ev_tree evm) = []"
  proof
    assume "rb_count (ev_tree evm) = 0"
    then show "items (ev_tree evm) = []" using count_of_tree [OF assms] by (simp add: int_of_size_def)
  qed (use rb_forD(5) [OF evm_okD(1) [OF assms]] in simp)
  have "cs_evm_more_events evm = Ok (items (ev_tree evm) \<noteq> [])"
    using num_events_value [OF assms] evm_okD(6) [OF assms]
    by (cases "items (ev_tree evm)") (auto simp: cs_evm_more_events_def list_ok_def)
  then show ?thesis
    using num_events_value [OF assms] ne c by (simp add: cs_evm_event_tree_is_empty_def)
qed

text \<open>
  \<^verbatim>\<open>cs_evm_more_events\<close> and \<^verbatim>\<open>cs_evm_event_tree_is_empty\<close> tell whether any event is
  scheduled, although \<^verbatim>\<open>cs_evm_num_events\<close> counts the events of the first list once for
  every list of the tree.
\<close>

theorem more_events_correct:
  assumes "evm_ok evm"
  shows "cs_evm_more_events evm = Ok (events_at evm \<noteq> (\<lambda>_. [])) \<and>
    (cs_evm_event_tree_is_empty evm = 1 \<longleftrightarrow> events_at evm = (\<lambda>_. [])) \<and>
    cs_evm_num_events evm = Ok (case items (ev_tree evm) of
      [] \<Rightarrow> 0 | l # ls \<Rightarrow> int (length (l # ls)) * int (length (ev_items l)))"
  using more_events_value [OF assms] .

lemma more_events_correct_witness:
  "cs_evm_more_events (empty_manager :: (nat, nat, unit) cs_event_manager) = Ok False"
  using more_events_correct [of "empty_manager :: (nat, nat, unit) cs_event_manager"]
  by (simp add: empty_manager_ok)

text \<open>
  A handler installed for a type that has none is the one \<^verbatim>\<open>cs_evm_get_handler\<close> returns,
  the handlers of all other types and the scheduled events stay as they were.
\<close>

theorem install_then_get:
  assumes "evm_ok evm" "s \<noteq> []" "handler_of evm s = None" "length (items (eh_tree evm)) + 2 < 2 ^ 24"
  shows "\<exists>evm'. cs_evm_install_handler True True bytes (Some s) h evm = Ok (0, evm') \<and>
    cs_evm_get_handler (Some s) evm' = Ok (Some h) \<and> events_at evm' = events_at evm \<and>
    (\<forall>s'. s' = s \<or> cs_evm_get_handler (Some s') evm' = cs_evm_get_handler (Some s') evm)"
proof -
  obtain evm' where e: "cs_evm_install_handler True True bytes (Some s) h evm = Ok (0, evm')"
    "evm_ok evm'" "handler_of evm' = (handler_of evm)(s \<mapsto> h)" "events_at evm' = events_at evm"
    using install_fresh [OF assms, of bytes h] by blast
  then show ?thesis
    using get_handler_map [OF e(2)] get_handler_map [OF assms(1)] by (intro exI [of _ evm']) simp
qed

lemma install_then_get_witness:
  "\<exists>evm'. cs_evm_install_handler True True (\<lambda>_. None) (Some ''a'') (7::nat)
     (empty_manager :: (nat, nat, unit) cs_event_manager) = Ok (0, evm') \<and>
     cs_evm_get_handler (Some ''a'') evm' = Ok (Some 7)"
  using install_then_get [of "empty_manager :: (nat, nat, unit) cs_event_manager" "''a''" "\<lambda>_. None" 7]
  by (auto simp: empty_manager_ok)

text \<open>
  Installing a handler for a type that has one reports success but does not install it:
  \<^verbatim>\<open>rb_replace\<close> is handed the handler instead of the new entry, so the old handler stays
  (unless the bytes of the function happen to spell an entry of that type).
\<close>

theorem reinstall_has_no_effect:
  assumes "evm_ok evm" "s \<noteq> []" "handler_of evm s = Some h0" "bytes h = Some e" "hetype e \<noteq> s"
    and "cs_evm_install_handler True ok bytes (Some s) h evm = Ok (r, evm')"
  shows "r = 0 \<and> handler_of evm' s = Some h0"
  by (rule install_again [OF assms])

lemma reinstall_has_no_effect_witness:
  "\<exists>evm1 evm2. cs_evm_install_handler True True (\<lambda>_. None) (Some ''a'') (7::nat)
       (empty_manager :: (nat, nat, unit) cs_event_manager) = Ok (0, evm1) \<and>
     cs_evm_install_handler True False (\<lambda>h. Some \<lparr>handler = h, hetype = ''x''\<rparr>) (Some ''a'') 8 evm1 =
       Ok (0, evm2) \<and> handler_of evm2 ''a'' = Some 7"
proof -
  let ?evm = "empty_manager :: (nat, nat, unit) cs_event_manager"
  let ?bytes = "\<lambda>h :: nat. Some \<lparr>handler = h, hetype = ''x''\<rparr>"
  obtain evm1 where e: "cs_evm_install_handler True True (\<lambda>_. None) (Some ''a'') 7 ?evm = Ok (0, evm1)"
    "evm_ok evm1" "handler_of evm1 = (handler_of ?evm)(''a'' \<mapsto> 7)"
    using install_fresh [of ?evm "''a''" "\<lambda>_. None" 7] by (auto simp: empty_manager_ok)
  have "\<exists>r evm2. cs_evm_install_handler True False ?bytes (Some ''a'') 8 evm1 = Ok (r, evm2)"
  proof -
    have "handler_of evm1 ''a'' = Some 7" "handler_of evm1 ''x'' = None"
      using e(3) by (simp_all add: empty_manager_ok)
    then have "table_map hetype (eh_tree evm1) ''a'' \<noteq> None"
      and x: "table_map hetype (eh_tree evm1) ''x'' = None"
      by (auto simp: handler_of_def)
    then have "rb_find (eh_tree evm1) \<lparr>handler = undefined, hetype = ''a''\<rparr> \<noteq> None"
      using evm_okD(4) [OF e(2)] by (simp add: hs.find_map)
    moreover note x
    ultimately show ?thesis
      using hs.probe_no_memory [of "eh_tree evm1" "\<lparr>handler = 8, hetype = ''x''\<rparr>"] evm_okD [OF e(2)]
      by (auto simp: cs_evm_install_handler_def rb_replace_def hs.list_find_map)
  qed
  then obtain r evm2 where i: "cs_evm_install_handler True False ?bytes (Some ''a'') 8 evm1 = Ok (r, evm2)"
    by blast
  then have "r = 0 \<and> handler_of evm2 ''a'' = Some 7"
    using reinstall_has_no_effect [OF e(2) _ _ _ _ i] e(3) by simp
  then show ?thesis using e(1) i by blast
qed

text \<open>
  C21.  \<^verbatim>\<open>cs_evm_throw_scheduled_events\<close> on a time with events throws them all in the order of
  their list and then, if every handler returns, frees the list twice.
\<close>

theorem throw_scheduled_double_free:
  assumes "evm_ok evm" "quiet run time" "events_at evm (sint time) \<noteq> []"
  shows "cs_evm_throw_scheduled_events run evm time =
    Some (obind (throw_all run (events_at evm (sint time)) evm) (\<lambda>_. Fault Double_free))"
proof -
  obtain l where l: "get_events evm time = Some l" "list_ok l" "ev_items l = events_at evm (sint time)"
    using get_events_at(2,3) [OF assms(1), of time] assms(3) by (cases "get_events evm time") auto
  have "throw_loop run time l 0 evm = Some (obind (throw_all run (ev_items l) evm)
      (\<lambda>evm'. Ok (int (length (ev_items l)), evm')))"
    using throw_loop_quiet [OF assms(2,1) l(1), of 0] by simp
  moreover have "cs_evm_delete_events evm' time = Fault Double_free"
    if "throw_all run (ev_items l) evm = Ok evm'" for evm'
    using delete_events_double_free throw_all_quiet [OF assms(2,1) that] l(1) by metis
  ultimately show ?thesis using l
    by (cases "throw_all run (ev_items l) evm")
      (auto simp: cs_evm_throw_scheduled_events_def list_ok_def)
qed

lemma throw_scheduled_double_free_witness:
  "\<exists>evm :: (nat, nat, unit) cs_event_manager.
     cs_evm_schedule_event alloc_ok \<lparr>etype = Some ''a'', ev_data = 1\<rparr> 5 empty_manager = Ok (0, evm) \<and>
     cs_evm_throw_scheduled_events (\<lambda>h e evm. Ok (CS_EH_NORMAL, evm)) evm 5 = Some (Fault Double_free)"
proof -
  let ?e = "\<lparr>etype = Some ''a'', ev_data = 1\<rparr> :: nat cs_event"
  let ?run = "\<lambda>h e evm. Ok (CS_EH_NORMAL, evm) :: (cs_eh_status \<times> (nat, nat, unit) cs_event_manager) outcome"
  obtain evm :: "(nat, nat, unit) cs_event_manager" where
    s: "cs_evm_schedule_event alloc_ok ?e 5 empty_manager = Ok (0, evm)" "evm_ok evm"
    "events_at evm = (events_at (empty_manager :: (nat, nat, unit) cs_event_manager))
       (5 := events_at (empty_manager :: (nat, nat, unit) cs_event_manager) 5 @ [?e])"
    using schedule_ok [of "empty_manager :: (nat, nat, unit) cs_event_manager" ?e 5]
    by (auto simp: empty_manager_ok)
  have "quiet ?run 5" by (simp add: quiet_def)
  moreover have "\<exists>evm'. throw_all ?run [?e] evm = Ok evm'"
    using get_handler_map [OF s(2), of "''a''"]
    by (simp add: cs_evm_throw_event_def split: option.splits)
  ultimately show ?thesis
    using throw_scheduled_double_free [OF s(2), of ?run 5] s by (auto simp: empty_manager_ok)
qed

end
