(* ===== verification/CS_Tasks.thy ===== *)
theory CS_Tasks
  imports CS_Workerpool
begin

text \<open>
  What the operations of \<open>src/cs_workerpool.c\<close> do for their caller, one call at a time: the
  buffer of the pool's name, the initial state of a pool, the life of a task from
  \<^verbatim>\<open>cs_wp_tsk_enqueue\<close> to \<^verbatim>\<open>cs_wp_tsk_pop_res\<close>, and what a restarted pool does.
\<close>

section \<open>Pools in use\<close>

text \<open>
  \<open>pool_ok wp counter\<close>: the table is well formed, holds only ids drawn from the counter and
  only ids of existing tasks, which carry their own id.
\<close>

definition pool_ok :: "('c, 'i, 'o) cs_workerpool \<Rightarrow> int \<Rightarrow> bool" where
  "pool_ok wp counter \<longleftrightarrow> rb_for cs_wp_cmp_tsk (tsk_res_table wp) \<and>
     length (items (tsk_res_table wp)) + 2 < 2 ^ 24 \<and>
     (\<forall>i\<in>set (items (tsk_res_table wp)). i \<le> counter \<and> (\<exists>t. tasks wp i = Some t \<and> tsk_id t = i))"

text \<open>The task a user finds under an id.\<close>

definition task_of :: "('c, 'i, 'o) cs_workerpool \<Rightarrow> int \<Rightarrow> ('c, 'i, 'o) cs_wp_tsk option" where
  "task_of wp i = (if i \<in> set (items (tsk_res_table wp)) then tasks wp i else None)"

lemma pool_okD:
  assumes "pool_ok wp counter"
  shows "rb_for cs_wp_cmp_tsk (tsk_res_table wp)" "rb_roomy (tsk_res_table wp)"
    "i \<in> set (items (tsk_res_table wp)) \<Longrightarrow> i \<le> counter \<and> (\<exists>t. tasks wp i = Some t \<and> tsk_id t = i)"
  using assms by (auto simp: pool_ok_def rb_roomy_def)

lemma table_find:
  assumes "rb_for cs_wp_cmp_tsk t"
  shows "rb_find t i = (if i \<in> set (items t) then Some i else None)"
    and "table_map (\<lambda>i. i) t i = (if i \<in> set (items t) then Some i else None)"
proof -
  show m: "table_map (\<lambda>i. i) t i = (if i \<in> set (items t) then Some i else None)"
    using tt.map_of_item [OF assms, of i] tt.map_item [of t i] tt.key_of_found [of t i]
    by (cases "table_map (\<lambda>i. i) t i") auto
  then show "rb_find t i = (if i \<in> set (items t) then Some i else None)"
    using tt.find_map [OF assms, of i] by simp
qed

lemma task_of_find:
  "pool_ok wp counter \<Longrightarrow>
   rb_find (tsk_res_table wp) i = (if task_of wp i = None then None else Some i)"
  using table_find(1) [OF pool_okD(1), of wp counter i] pool_okD(3) [of wp counter i]
  by (auto simp: task_of_def)

text \<open>Storing a new task.\<close>

lemma table_insert:
  assumes "rb_for cs_wp_cmp_tsk t" "length (items t) + 2 < 2 ^ 24" "i \<notin> set (items t)"
  shows "\<exists>t'. rb_insert True t i = Ok (None, t') \<and> rb_for cs_wp_cmp_tsk t' \<and>
    set (items t') = insert i (set (items t)) \<and> length (items t') = Suc (length (items t)) \<and>
    rb_count t' = rb_count t + 1"
proof -
  have len: "length (list_insert cs_wp_cmp_tsk i xs) = Suc (length xs)"
    if "i \<notin> set xs" for xs using that by (induction xs) (auto simp: tt.cmp_eq)
  have set: "set (list_insert cs_wp_cmp_tsk i xs) = insert i (set xs)"
    if "i \<notin> set xs" for xs using that by (induction xs) (auto simp: tt.cmp_eq)
  have none: "table_map (\<lambda>i. i) t i = None" using table_find(2) [OF assms(1)] assms(3) by simp
  have roomy: "rb_roomy t" using assms(2) by (simp add: rb_roomy_def)
  obtain t' where t': "rb_insert True t i = Ok (None, t')" "rb_for cs_wp_cmp_tsk t'"
    "items t' = list_insert cs_wp_cmp_tsk i (items t)"
    using tt.insert_map [OF assms(1) roomy none] by blast
  have "rb_count t' = rb_count t + 1"
    using rb_forD(5) [OF t'(2)] rb_forD(5) [OF assms(1)] t'(3) len [OF assms(3)] by simp
  then show ?thesis using t' len [OF assms(3)] set [OF assms(3)] by auto
qed

section \<open>The life of a task\<close>

definition new_task :: "'c \<Rightarrow> 'i \<Rightarrow> nat \<Rightarrow> int \<Rightarrow> ('c, 'i, 'o) cs_wp_tsk" where
  "new_task code args len i =
     \<lparr>tsk_code = code, tsk_id = i, tsk_in = args, args_length = len, tsk_status = CS_TSK_RT_WAITING,
      tsk_res = \<lparr>tsk_exit_code = CS_TSK_SUCCESS, tsk_res_data = None\<rparr>, task_sem = 0\<rparr>"

text \<open>An enqueue whose queue operation succeeds stores the task under the next id; no assertion fails.\<close>

lemma enqueue_task:
  assumes "pool_ok wp counter" "wp_status wp = CS_WPS_WORKING"
    and "length (items (tsk_res_table wp)) + 3 < 2 ^ 24"
    and q: "cs_queue_enqueue env (tsk_q wp) (counter + 1) True = Ok (0, q)"
  shows "\<exists>wp'. cs_wp_tsk_enqueue env (True, True, True) code args len wp counter =
      Ok (counter + 1, wp', counter + 1) \<and> pool_ok wp' (counter + 1) \<and> tsk_q wp' = q \<and>
    wp_status wp' = CS_WPS_WORKING \<and>
    task_of wp' = (task_of wp)(counter + 1 \<mapsto> new_task code args len (counter + 1))"
proof -
  let ?i = "counter + 1"
  have new: "?i \<notin> set (items (tsk_res_table wp))" using pool_okD(3) [OF assms(1)] by fastforce
  obtain t where t: "rb_insert True (tsk_res_table wp) ?i = Ok (None, t)" "rb_for cs_wp_cmp_tsk t"
    "set (items t) = insert ?i (set (items (tsk_res_table wp)))"
    "length (items t) = Suc (length (items (tsk_res_table wp)))"
    "rb_count t = rb_count (tsk_res_table wp) + 1"
    using table_insert [OF pool_okD(1) [OF assms(1)] _ new] assms(3) by auto
  let ?wp = "wp\<lparr>tasks := (tasks wp)(?i \<mapsto> new_task code args len ?i), tsk_q := q, tsk_res_table := t\<rparr>"
  have "cs_wp_tsk_enqueue env (True, True, True) code args len wp counter = Ok (?i, ?wp, ?i)"
    using assms(2) q t new table_find(1) [OF pool_okD(1) [OF assms(1)], of ?i] table_find(1) [OF t(2), of ?i]
    by (simp add: cs_wp_tsk_enqueue_def cs_wp_get_status_def cs_wp_new_tsk_id_def
        cs_make_recursive_mutex_def new_task_def Let_def)
  moreover have "pool_ok ?wp ?i"
    using t assms(3) pool_okD(3) [OF assms(1)] by (fastforce simp: pool_ok_def new_task_def)
  moreover have "task_of ?wp = (task_of wp)(?i \<mapsto> new_task code args len ?i)"
    using t(3) by (auto simp: task_of_def fun_eq_iff)
  ultimately show ?thesis using assms(2) by (intro exI [of _ ?wp]) simp
qed

lemma wait_cases:
  assumes "pool_ok wp counter"
  shows "cs_wp_tsk_wait wp i = (case task_of wp i of
      None \<Rightarrow> Ok wp
    | Some t \<Rightarrow>
        if tsk_status t = CS_TSK_RT_DONE then Ok wp
        else if task_sem t = 0 then Blocks
        else Ok (wp\<lparr>tasks := (tasks wp)(i \<mapsto> t\<lparr>task_sem := task_sem t - 1\<rparr>)\<rparr>))"
  using task_of_find [OF assms, of i]
  by (auto simp: cs_wp_tsk_wait_def task_of_def sem_wait_def split: option.splits nat.splits if_splits)

lemma get_res_ok:
  assumes "pool_ok wp counter" "task_of wp i = Some t" "tsk_status t = CS_TSK_RT_DONE"
  shows "cs_wp_tsk_get_res True wp i = Ok (Some (tsk_res t), wp)"
  using assms task_of_find [OF assms(1), of i] wait_cases [OF assms(1), of i]
  by (auto simp: cs_wp_tsk_get_res_def get_res_after_wait_def cs_wp_get_tsk_res_copy_def task_of_def
      split: if_splits)

lemma pop_res_ok:
  assumes "pool_ok wp counter" "task_of wp i = Some t" "tsk_status t = CS_TSK_RT_DONE"
  shows "\<exists>wp'. cs_wp_tsk_pop_res True wp i = Ok (Some (tsk_res t), wp') \<and> pool_ok wp' counter \<and>
    task_of wp' = (task_of wp)(i := None)"
proof -
  have i: "i \<in> set (items (tsk_res_table wp))" "tasks wp i = Some t"
    using assms(2) by (auto simp: task_of_def split: if_splits)
  obtain tb where tb: "rb_delete (tsk_res_table wp) i = Ok (Some i, tb)" "rb_for cs_wp_cmp_tsk tb"
    "items tb = list_delete cs_wp_cmp_tsk i (items (tsk_res_table wp))"
    using tt.delete_map [OF pool_okD(1,2) [OF assms(1)], of i]
      table_find(2) [OF pool_okD(1) [OF assms(1)], of i] i(1) by auto
  have set: "set (items tb) = set (items (tsk_res_table wp)) - {i}"
    using tb(3) by (auto simp: list_delete_def tt.cmp_eq)
  have len: "length (items tb) \<le> length (items (tsk_res_table wp))"
    using tb(3) by (simp add: list_delete_def)
  let ?wp = "wp\<lparr>tsk_res_table := tb, tasks := (tasks wp)(i := None)\<rparr>"
  have "cs_wp_tsk_pop_res True wp i = Ok (Some (tsk_res t), ?wp)"
    using wait_cases [OF assms(1), of i] assms(2,3) tb(1) i(2)
    by (simp add: cs_wp_tsk_pop_res_def pop_res_after_wait_def cs_wp_get_tsk_res_copy_def)
  moreover have "pool_ok ?wp counter"
    using assms(1) tb(2) len set by (fastforce simp: pool_ok_def)
  moreover have "task_of ?wp = (task_of wp)(i := None)" using set by (auto simp: task_of_def fun_eq_iff)
  ultimately show ?thesis by blast
qed

lemma pop_absent:
  assumes "pool_ok wp counter" "task_of wp i = None"
  shows "cs_wp_tsk_pop_res alloc wp i = Fault Null_dereference"
proof -
  have "i \<notin> set (items (tsk_res_table wp))"
    using assms pool_okD(3) [OF assms(1), of i] by (auto simp: task_of_def split: if_splits)
  then obtain tb where "rb_delete (tsk_res_table wp) i = Ok (None, tb)"
    using tt.delete_map [OF pool_okD(1,2) [OF assms(1)], of i]
      table_find(2) [OF pool_okD(1) [OF assms(1)], of i] by auto
  then show ?thesis using wait_cases [OF assms(1), of i] assms(2)
    by (simp add: cs_wp_tsk_pop_res_def pop_res_after_wait_def)
qed

section \<open>Names, initialisation and start\<close>

lemma decimal_length: "length (decimal n) \<le> Suc (n div 10)"
proof (induction n rule: decimal.induct)
  case (1 n)
  show ?case
  proof (cases "n < 10")
    case True
    then show ?thesis by (simp add: decimal.simps [of n])
  next
    case False
    then have "length (decimal (n div 10)) \<le> Suc (n div 10 div 10)" by (rule 1)
    moreover have "Suc (n div 10 div 10) \<le> n div 10" using False by linarith
    ultimately show ?thesis using False by (simp add: decimal.simps [of n])
  qed
qed

lemma init_workers_ok:
  "\<exists>ws'. init_workers wp_alloc_ok n ws = Ok ws' \<and>
    (\<forall>i<n. ws' i = \<lparr>worker_waiting_semaphore = 0, assigned_tsk = None, w_status = CS_WS_READY, shutdown = 0\<rparr>)"
proof (induction n)
  case (Suc n)
  then obtain ws' where "init_workers wp_alloc_ok n ws = Ok ws'"
    "\<forall>i<n. ws' i = \<lparr>worker_waiting_semaphore = 0, assigned_tsk = None, w_status = CS_WS_READY, shutdown = 0\<rparr>"
    by blast
  then show ?case by (auto simp: wp_alloc_ok_def cs_wp_init_worker_def less_Suc_eq)
qed simp

lemma start_loop:
  "start_workers_loop (\<lambda>_. True) i k ws =
     (0, \<lambda>j. if i \<le> j \<and> j < i + k then (ws j)\<lparr>w_status := CS_WS_WAITING\<rparr> else ws j)"
  by (induction k arbitrary: i ws) (auto simp: Let_def cs_wp_set_worker_status_def fun_eq_iff)

text \<open>A pool that has been initialised and started.\<close>

lemma init_start:
  assumes "0 < n" "n \<le> SEM_VALUE_MAX" "0 \<le> qs" "qs \<le> int SEM_VALUE_MAX" "0 \<le> counter"
  shows "\<exists>wp wp'. cs_wp_init wp_alloc_ok False (int n) qs name counter = Ok (0, Some wp, counter + 1) \<and>
    cs_wp_start (\<lambda>_. True) True wp = (0, wp') \<and> wp_status wp' = CS_WPS_WORKING \<and>
    nthreads wp' = n \<and> workerpool_semaphore wp' = n \<and>
    wp_name wp' = pool_name (nat (counter + 1)) name \<and> pool_ok wp' 0 \<and> task_of wp' = Map.empty \<and>
    queue_open (tsk_q wp') (nat qs) [] \<and>
    (\<forall>i<n. workers_data wp' i =
      \<lparr>worker_waiting_semaphore = 0, assigned_tsk = None, w_status = CS_WS_WAITING, shutdown = 0\<rparr>)"
proof -
  obtain ws where ws: "init_workers wp_alloc_ok n (\<lambda>_. zero_worker) = Ok ws"
    "\<forall>i<n. ws i = \<lparr>worker_waiting_semaphore = 0, assigned_tsk = None, w_status = CS_WS_READY, shutdown = 0\<rparr>"
    using init_workers_ok by blast
  have "uint (word_of_int qs :: 32 word) = qs"
    using assms(3,4) by (simp add: SEM_VALUE_MAX_def uint_word_of_int_eq take_bit_int_eq_self)
  then have u: "unat (word_of_int qs :: 32 word) = nat qs" by (metis nat_uint_eq)
  let ?q = "\<lparr>qsize = 0, qname = pool_name (nat (counter + 1)) name, qstatus = QOPENED, qhead = None,
    qtail = None, qsem = 0, qlimit_sem = nat qs, qheap = Map.empty\<rparr> :: int cs_queue"
  let ?t = "\<lparr>rb_root = Null, rb_compare = cs_wp_cmp_tsk, rb_count = 0, rb_generation = 0\<rparr>"
  have q: "cs_queue_init (Some False) True True Map.empty (pool_name (nat (counter + 1)) name) (word_of_int qs) =
      Ok (0, Some ?q)"
    using u assms(4) by (simp add: cs_queue_init_def sem_init_def nat_le_iff)
  let ?wp = "\<lparr>wp_status = CS_WPS_READY, nthreads = n, wid = counter + 1,
    wp_name = pool_name (nat (counter + 1)) name, workerpool_semaphore = n, workers_data = ws,
    tsk_res_table = ?t, tsk_q = ?q, tasks = Map.empty\<rparr>"
  have i: "cs_wp_init wp_alloc_ok False (int n) qs name counter = Ok (0, Some ?wp, counter + 1)"
    using assms(1,2) q ws(1)
    by (simp add: cs_wp_init_def wp_alloc_ok_def cs_wp_new_wp_id_def sem_init_def
        cs_wp_init_tsk_res_table_def cs_make_recursive_mutex_def rb_create_def cs_wp_set_status_def Let_def)
  let ?ws = "\<lambda>j. if j < n then (ws j)\<lparr>w_status := CS_WS_WAITING\<rparr> else ws j"
  let ?wp' = "?wp\<lparr>workers_data := ?ws, wp_status := CS_WPS_WORKING\<rparr>"
  have s: "cs_wp_start (\<lambda>_. True) True ?wp = (0, ?wp')"
    by (simp add: cs_wp_start_def cs_wp_get_status_def cs_wp_start_workers_def start_loop
        cs_wp_set_status_def Let_def)
  have "pool_ok ?wp' 0" by (simp add: pool_ok_def rb_for_def rb_valid_def items_def ordered_def rb_inv_def)
  moreover have "task_of ?wp' = Map.empty" by (auto simp: task_of_def items_def)
  moreover have "queue_open ?q (nat qs) []"
    using assms(4) by (simp add: queue_open_def queue_rep_def queue_cells_def nat_le_iff)
  ultimately show ?thesis using i s ws(2)
    by (intro exI [of _ ?wp] exI [of _ ?wp']) simp
qed

section \<open>Properties\<close>

text \<open>
  The buffer \<^verbatim>\<open>cs_wp_init\<close> allocates for the name of a pool is large enough for what
  \<^verbatim>\<open>sprintf\<close> writes into it, the terminating null included.
\<close>

theorem pool_name_fits:
  "Suc (length (pool_name w name)) \<le> pool_name_size w name"
  using decimal_length [of w] by (simp add: pool_name_def pool_name_size_def)

text \<open>
  \<^verbatim>\<open>cs_wp_init\<close> followed by \<^verbatim>\<open>cs_wp_start\<close> gives a working pool: every worker waits for a
  task with nothing assigned to it, the pool semaphore counts all of them, the queue is
  open and empty and has room for \<open>qs\<close> tasks, and no task exists.
\<close>

theorem pool_init_start:
  assumes "0 < n" "n \<le> SEM_VALUE_MAX" "0 \<le> qs" "qs \<le> int SEM_VALUE_MAX" "0 \<le> counter"
  shows "\<exists>wp wp'. cs_wp_init wp_alloc_ok False (int n) qs name counter = Ok (0, Some wp, counter + 1) \<and>
    cs_wp_start (\<lambda>_. True) True wp = (0, wp') \<and> wp_status wp' = CS_WPS_WORKING \<and>
    workerpool_semaphore wp' = n \<and> queue_open (tsk_q wp') (nat qs) [] \<and> task_of wp' = Map.empty \<and>
    (\<forall>i<n. workers_data wp' i =
      \<lparr>worker_waiting_semaphore = 0, assigned_tsk = None, w_status = CS_WS_WAITING, shutdown = 0\<rparr>)"
  using init_start [OF assms, of name] by blast

lemma pool_init_start_witness:
  "\<exists>wp :: (nat, nat, nat) cs_workerpool. cs_wp_init wp_alloc_ok False 2 20 ''EVM'' 0 = Ok (0, Some wp, 1) \<and>
     wp_status (snd (cs_wp_start (\<lambda>_. True) True wp)) = CS_WPS_WORKING"
proof -
  obtain wp wp' :: "(nat, nat, nat) cs_workerpool"
    where "cs_wp_init wp_alloc_ok False (int 2) 20 ''EVM'' 0 = Ok (0, Some wp, 0 + 1)"
      "cs_wp_start (\<lambda>_. True) True wp = (0, wp')" "wp_status wp' = CS_WPS_WORKING"
    using pool_init_start [of 2 20 0 "''EVM''"] by (auto simp: SEM_VALUE_MAX_def)
  then show ?thesis by auto
qed

text \<open>
  C17.  The life of a task.  \<^verbatim>\<open>cs_wp_tsk_enqueue\<close> on a working pool with room in its queue gives
  the task a new id, puts it at the end of the queue and into the table, and none of its
  assertions fails.  Waiting for it blocks until the worker has stored its result and posted
  its semaphore; then \<^verbatim>\<open>cs_wp_tsk_get_res\<close> and \<^verbatim>\<open>cs_wp_tsk_pop_res\<close> return the exit code and
  the data of that execution.  Popping it a second time reads through a null pointer.
\<close>

theorem task_life:
  assumes "pool_ok wp counter" "wp_status wp = CS_WPS_WORKING" "queue_open (tsk_q wp) (Suc n) xs"
    and "length (items (tsk_res_table wp)) + 3 < 2 ^ 24" "qheap (tsk_q wp) a = None"
  shows "\<exists>wp' t. cs_wp_tsk_enqueue (posix_ok a) (True, True, True) code args len wp counter =
      Ok (counter + 1, wp', counter + 1) \<and> task_of wp (counter + 1) = None \<and>
    queue_open (tsk_q wp') n (xs @ [counter + 1]) \<and>
    task_of wp' = (task_of wp)(counter + 1 \<mapsto> t) \<and> cs_wp_tsk_wait wp' (counter + 1) = Blocks \<and>
    (\<forall>ex out. \<exists>wp2 wp3.
      wp2 = wp'\<lparr>tasks := (tasks wp')(counter + 1 \<mapsto> cs_wp_signal_task_end (task_done ex out t))\<rparr> \<and>
      cs_wp_tsk_get_res True wp2 (counter + 1) = Ok (Some \<lparr>tsk_exit_code = ex, tsk_res_data = out\<rparr>, wp2) \<and>
      cs_wp_tsk_pop_res True wp2 (counter + 1) = Ok (Some \<lparr>tsk_exit_code = ex, tsk_res_data = out\<rparr>, wp3) \<and>
      cs_wp_tsk_pop_res True wp3 (counter + 1) = Fault Null_dereference)"
proof -
  let ?i = "counter + 1"
  let ?t = "new_task code args len ?i"
  have qo: "queue_rep (tsk_q wp) xs" "qstatus (tsk_q wp) = QOPENED" "qsem (tsk_q wp) = length xs"
    "qlimit_sem (tsk_q wp) = Suc n" "Suc n + length xs \<le> SEM_VALUE_MAX"
    using assms(3) by (auto simp: queue_open_def)
  obtain q where q: "cs_queue_enqueue (posix_ok a) (tsk_q wp) ?i True = Ok (0, q)"
    "queue_rep q (xs @ [?i])" "qstatus q = QOPENED" "qsem q = Suc (length xs)" "qlimit_sem q = n"
    using enqueue_ok [OF qo(1,2) _ _ qo(4), of a ?i True] qo assms(5) by (auto simp: domIff)
  obtain wp' where w: "cs_wp_tsk_enqueue (posix_ok a) (True, True, True) code args len wp counter =
      Ok (?i, wp', ?i)" "pool_ok wp' ?i" "tsk_q wp' = q" "task_of wp' = (task_of wp)(?i \<mapsto> ?t)"
    using enqueue_task [OF assms(1,2,4) q(1), of code args len] by blast
  have in': "?i \<in> set (items (tsk_res_table wp'))"
    using w(4) by (auto simp: task_of_def fun_eq_iff split: if_splits)
  have "\<exists>wp2 wp3. wp2 = wp'\<lparr>tasks := (tasks wp')(?i \<mapsto> cs_wp_signal_task_end (task_done ex out ?t))\<rparr> \<and>
      cs_wp_tsk_get_res True wp2 ?i = Ok (Some \<lparr>tsk_exit_code = ex, tsk_res_data = out\<rparr>, wp2) \<and>
      cs_wp_tsk_pop_res True wp2 ?i = Ok (Some \<lparr>tsk_exit_code = ex, tsk_res_data = out\<rparr>, wp3) \<and>
      cs_wp_tsk_pop_res True wp3 ?i = Fault Null_dereference" for ex out
  proof -
    let ?d = "cs_wp_signal_task_end (task_done ex out ?t)"
    let ?wp2 = "wp'\<lparr>tasks := (tasks wp')(?i \<mapsto> ?d)\<rparr>"
    have d: "tsk_status ?d = CS_TSK_RT_DONE" "tsk_res ?d = \<lparr>tsk_exit_code = ex, tsk_res_data = out\<rparr>"
      "tsk_id ?d = ?i"
      by (simp_all add: cs_wp_signal_task_end_def task_done_def new_task_def sem_post_def)
    have ok: "pool_ok ?wp2 ?i" using w(2) d(3) by (fastforce simp: pool_ok_def)
    have t: "task_of ?wp2 ?i = Some ?d" using in' by (simp add: task_of_def)
    obtain wp3 where p: "cs_wp_tsk_pop_res True ?wp2 ?i = Ok (Some (tsk_res ?d), wp3)" "pool_ok wp3 ?i"
      "task_of wp3 = (task_of ?wp2)(?i := None)"
      using pop_res_ok [OF ok t d(1)] by blast
    then show ?thesis using get_res_ok [OF ok t d(1)] d(2) pop_absent [OF p(2), of ?i] by auto
  qed
  moreover have "cs_wp_tsk_wait wp' ?i = Blocks"
    using wait_cases [OF w(2), of ?i] w(4) by (simp add: new_task_def)
  moreover have "task_of wp ?i = None" using pool_okD(3) [OF assms(1), of ?i] by (auto simp: task_of_def)
  moreover have "queue_open (tsk_q wp') n (xs @ [?i])" using q w(3) qo(5) by (simp add: queue_open_def)
  ultimately show ?thesis using w(1,4) by blast
qed

text \<open>A working pool with an empty queue for two tasks.\<close>

definition small_pool :: "(nat, nat, nat) cs_workerpool" where
  "small_pool = \<lparr>wp_status = CS_WPS_WORKING, nthreads = 1, wid = 1, wp_name = pool_name 1 ''p'',
     workerpool_semaphore = 1, workers_data = (\<lambda>_. zero_worker),
     tsk_res_table = \<lparr>rb_root = Null, rb_compare = cs_wp_cmp_tsk, rb_count = 0, rb_generation = 0\<rparr>,
     tsk_q = \<lparr>qsize = 0, qname = ''p'', qstatus = QOPENED, qhead = None, qtail = None, qsem = 0,
              qlimit_sem = 2, qheap = Map.empty\<rparr>,
     tasks = Map.empty\<rparr>"

lemma small_pool_ok:
  "pool_ok small_pool 0" "wp_status small_pool = CS_WPS_WORKING" "items (tsk_res_table small_pool) = []"
  "queue_open (tsk_q small_pool) (Suc (Suc 0)) []" "qheap (tsk_q small_pool) = Map.empty"
  by (simp_all add: small_pool_def pool_ok_def rb_for_def rb_valid_def items_def ordered_def rb_inv_def
      queue_open_def queue_rep_def queue_cells_def SEM_VALUE_MAX_def)

lemma task_life_witness:
  "\<exists>wp'. cs_wp_tsk_enqueue (posix_ok 5) (True, True, True) 7 8 4 small_pool 0 = Ok (1, wp', 1) \<and>
     cs_wp_tsk_wait wp' 1 = Blocks \<and> queue_open (tsk_q wp') 1 [1]"
  using task_life [OF small_pool_ok(1,2,4), of 5 7 8 4] by (auto simp: small_pool_ok)



end
