(* ===== verification/CS_Pool_Conc.thy ===== *)
theory CS_Pool_Conc
  imports CS_Tasks "HOL-Library.Multiset"
begin

text \<open>
  The threads of a worker pool (\<open>src/cs_workerpool.c\<close>) interleaved: the \<open>n\<close> workers
  (\<^verbatim>\<open>_cs_wp_worker_behaviour\<close>), the controller (\<^verbatim>\<open>_cs_wp_controller_behaviour\<close>) and the users.
  A step is a semaphore operation, a critical section, or an unprotected access; the program
  counters name the places between them.  The queue of tasks is the list \<open>CS_Queue_Conc\<close> shows
  it to implement for its one consumer, the controller.
\<close>

section \<open>State\<close>

datatype worker_pc =
    Idle                                     \<comment> \<open>before \<open>sem_wait\<close> on its semaphore\<close>
  | Woken                                    \<comment> \<open>after it\<close>
  | Checked                                  \<comment> \<open>after the first assertion\<close>
  | Running int                              \<comment> \<open>outside the mutex, performing a task\<close>
  | Ran int cs_wp_tsk_exit_status            \<comment> \<open>the task has returned\<close>
  | Released int cs_wp_tsk_exit_status       \<comment> \<open>free again, the result not yet stored\<close>
  | Recorded int                             \<comment> \<open>stored, the task's semaphore not yet posted\<close>
  | Exited

datatype controller_pc =
    Fetch                                    \<comment> \<open>before \<open>_cs_wp_tsk_dequeue\<close>\<close>
  | Acquire int                              \<comment> \<open>before \<open>sem_wait\<close> on the pool semaphore\<close>
  | Scan int nat                             \<comment> \<open>the loop over the workers\<close>
  | Assign int nat                           \<comment> \<open>a free worker has been found\<close>
  | Notify nat                               \<comment> \<open>before the post of its semaphore\<close>
  | Shut nat | Shut_post nat                 \<comment> \<open>\<open>_cs_wp_shutdown_workers\<close>\<close>
  | Join nat
  | Ended

record pool_net =
  tq :: "int list"
  qclosed :: bool
  ctl :: controller_pc
  wpsem :: sem_t
  wk :: "nat \<Rightarrow> worker"
  pc :: "nat \<Rightarrow> worker_pc"
  queued :: "int list"
  ran :: "(int \<times> cs_wp_tsk_exit_status) list"
  results :: "int \<rightharpoonup> cs_wp_tsk_exit_status"
  tsem :: "int \<Rightarrow> sem_t"
  waiters :: "int \<Rightarrow> nat"
  returned :: "int \<Rightarrow> nat"
  abort :: "fault option"

definition wake :: "worker \<Rightarrow> worker outcome" where
  "wake w = obind (sem_wait (worker_waiting_semaphore w)) (\<lambda>k. Ok (w\<lparr>worker_waiting_semaphore := k\<rparr>))"

section \<open>Steps\<close>

text \<open>The steps of worker \<open>i\<close>; a task is given its exit status by its code, so any status may come.\<close>

inductive worker_step :: "nat \<Rightarrow> pool_net \<Rightarrow> pool_net \<Rightarrow> bool" for i where
  w_wait: "pc s i = Idle \<Longrightarrow> wake (wk s i) = Ok w \<Longrightarrow>
    worker_step i s (s\<lparr>wk := (wk s)(i := w), pc := (pc s)(i := Woken)\<rparr>)"
| w_awake: "pc s i = Woken \<Longrightarrow> worker_awake (wk s i) = Ok u \<Longrightarrow>
    worker_step i s (s\<lparr>pc := (pc s)(i := Checked)\<rparr>)"
| w_awake_abort: "pc s i = Woken \<Longrightarrow> worker_awake (wk s i) = Fault f \<Longrightarrow>
    worker_step i s (s\<lparr>abort := Some f\<rparr>)"
| w_exit: "pc s i = Checked \<Longrightarrow> worker_take (wk s i) = Ok (None, w) \<Longrightarrow>
    worker_step i s (s\<lparr>wk := (wk s)(i := w), pc := (pc s)(i := Exited)\<rparr>)"
| w_take: "pc s i = Checked \<Longrightarrow> worker_take (wk s i) = Ok (Some t, w) \<Longrightarrow>
    worker_step i s (s\<lparr>wk := (wk s)(i := w), pc := (pc s)(i := Running t)\<rparr>)"
| w_take_abort: "pc s i = Checked \<Longrightarrow> worker_take (wk s i) = Fault f \<Longrightarrow>
    worker_step i s (s\<lparr>abort := Some f\<rparr>)"
| w_run: "pc s i = Running t \<Longrightarrow>
    worker_step i s (s\<lparr>pc := (pc s)(i := Ran t ex), ran := ran s @ [(t, ex)]\<rparr>)"
| w_release: "pc s i = Ran t ex \<Longrightarrow> worker_release (wk s i) (wpsem s) = Ok (w, k) \<Longrightarrow>
    worker_step i s (s\<lparr>wk := (wk s)(i := w), wpsem := k, pc := (pc s)(i := Released t ex)\<rparr>)"
| w_release_abort: "pc s i = Ran t ex \<Longrightarrow> worker_release (wk s i) (wpsem s) = Fault f \<Longrightarrow>
    worker_step i s (s\<lparr>abort := Some f\<rparr>)"
| w_record: "pc s i = Released t ex \<Longrightarrow>
    worker_step i s (s\<lparr>pc := (pc s)(i := Recorded t), results := (results s)(t \<mapsto> ex)\<rparr>)"
| w_signal: "pc s i = Recorded t \<Longrightarrow>
    worker_step i s (s\<lparr>pc := (pc s)(i := Idle),
      tsem := (tsem s)(t := (case sem_post (tsem s t) of None \<Rightarrow> tsem s t | Some k \<Rightarrow> k))\<rparr>)"

text \<open>The steps of the controller of a pool of \<open>n\<close> workers.\<close>

inductive controller_step :: "nat \<Rightarrow> pool_net \<Rightarrow> pool_net \<Rightarrow> bool" for n where
  c_fetch: "ctl s = Fetch \<Longrightarrow> tq s = t # ts \<Longrightarrow>
    controller_step n s (s\<lparr>tq := ts, ctl := Acquire t\<rparr>)"
| c_null: "ctl s = Fetch \<Longrightarrow> tq s = [] \<Longrightarrow> qclosed s \<Longrightarrow>
    controller_step n s (s\<lparr>ctl := Shut 0\<rparr>)"
| c_acquire: "ctl s = Acquire t \<Longrightarrow> sem_wait (wpsem s) = Ok k \<Longrightarrow>
    controller_step n s (s\<lparr>wpsem := k, ctl := Scan t 0\<rparr>)"
| c_skip: "ctl s = Scan t i \<Longrightarrow> i < n \<Longrightarrow> cs_wp_get_worker_status (wk s i) \<noteq> CS_WS_WAITING \<Longrightarrow>
    controller_step n s (s\<lparr>ctl := Scan t (Suc i)\<rparr>)"
| c_found: "ctl s = Scan t i \<Longrightarrow> i < n \<Longrightarrow> cs_wp_get_worker_status (wk s i) = CS_WS_WAITING \<Longrightarrow>
    controller_step n s (s\<lparr>ctl := Assign t i\<rparr>)"
| c_none: "ctl s = Scan t i \<Longrightarrow> \<not> i < n \<Longrightarrow>
    controller_step n s (s\<lparr>abort := Some Assertion_failed\<rparr>)"
| c_assign: "ctl s = Assign t i \<Longrightarrow> cs_wp_assign_tsk_to_worker (Some t) (int i) (wk s i) = Ok w \<Longrightarrow>
    controller_step n s (s\<lparr>wk := (wk s)(i := w), ctl := Notify i\<rparr>)"
| c_notify: "ctl s = Notify i \<Longrightarrow>
    controller_step n s (s\<lparr>wk := (wk s)(i := worker_notify (wk s i)), ctl := Fetch\<rparr>)"
| c_shut: "ctl s = Shut i \<Longrightarrow> i < n \<Longrightarrow>
    controller_step n s (s\<lparr>wk := (wk s)(i := shutdown_flag (wk s i)), ctl := Shut_post i\<rparr>)"
| c_shut_post: "ctl s = Shut_post i \<Longrightarrow>
    controller_step n s (s\<lparr>wk := (wk s)(i := worker_notify (wk s i)), ctl := Shut (Suc i)\<rparr>)"
| c_shut_end: "ctl s = Shut i \<Longrightarrow> \<not> i < n \<Longrightarrow>
    controller_step n s (s\<lparr>ctl := Join 0\<rparr>)"
| c_join: "ctl s = Join i \<Longrightarrow> i < n \<Longrightarrow> pc s i = Exited \<Longrightarrow>
    controller_step n s (s\<lparr>ctl := Join (Suc i)\<rparr>)"
| c_end: "ctl s = Join i \<Longrightarrow> \<not> i < n \<Longrightarrow>
    controller_step n s (s\<lparr>ctl := Ended\<rparr>)"

text \<open>
  The users: enqueue a task with a new id, close the queue (\<^verbatim>\<open>cs_wp_shutdown\<close>), start to wait
  for a task that is not done, return from that wait.
\<close>

inductive user_step :: "pool_net \<Rightarrow> pool_net \<Rightarrow> bool" where
  u_enqueue: "\<not> qclosed s \<Longrightarrow> t \<notin> set (queued s) \<Longrightarrow>
    user_step s (s\<lparr>tq := tq s @ [t], queued := queued s @ [t]\<rparr>)"
| u_close: "user_step s (s\<lparr>qclosed := True\<rparr>)"
| u_wait: "results s t = None \<Longrightarrow>
    user_step s (s\<lparr>waiters := (waiters s)(t := Suc (waiters s t))\<rparr>)"
| u_return: "waiters s t = Suc k \<Longrightarrow> sem_wait (tsem s t) = Ok m \<Longrightarrow>
    user_step s (s\<lparr>waiters := (waiters s)(t := k), tsem := (tsem s)(t := m),
      returned := (returned s)(t := Suc (returned s t))\<rparr>)"

inductive pool_step :: "nat \<Rightarrow> pool_net \<Rightarrow> pool_net \<Rightarrow> bool" for n where
  by_worker: "abort s = None \<Longrightarrow> i < n \<Longrightarrow> worker_step i s s' \<Longrightarrow> pool_step n s s'"
| by_controller: "abort s = None \<Longrightarrow> controller_step n s s' \<Longrightarrow> pool_step n s s'"
| by_user: "abort s = None \<Longrightarrow> user_step s s' \<Longrightarrow> pool_step n s s'"

inductive_cases worker_stepE: "worker_step i s s'"
inductive_cases controller_stepE: "controller_step n s s'"
inductive_cases user_stepE: "user_step s s'"

text \<open>The net of a pool that has been started, see \<open>pool_init_start\<close>.\<close>

definition net_of :: "('c, 'i, 'o) cs_workerpool \<Rightarrow> pool_net" where
  "net_of wp = \<lparr>tq = [], qclosed = False, ctl = Fetch, wpsem = workerpool_semaphore wp,
     wk = workers_data wp, pc = (\<lambda>_. Idle), queued = [], ran = [], results = Map.empty,
     tsem = (\<lambda>_. 0), waiters = (\<lambda>_. 0), returned = (\<lambda>_. 0), abort = None\<rparr>"

inductive pool_reach :: "nat \<Rightarrow> pool_net \<Rightarrow> pool_net \<Rightarrow> bool" for n s0 where
  start: "pool_reach n s0 s0"
| step: "pool_reach n s0 s \<Longrightarrow> pool_step n s s' \<Longrightarrow> pool_reach n s0 s'"

section \<open>The tokens of a worker\<close>

text \<open>Has the controller set the flag of worker \<open>i\<close>, has it posted its semaphore for that?\<close>

fun flagged :: "controller_pc \<Rightarrow> nat \<Rightarrow> bool" where
  "flagged (Shut j) i = (i < j)"
| "flagged (Shut_post j) i = (i \<le> j)"
| "flagged (Join _) i = True"
| "flagged Ended i = True"
| "flagged _ i = False"

fun posted :: "controller_pc \<Rightarrow> nat \<Rightarrow> bool" where
  "posted (Shut j) i = (i < j)"
| "posted (Shut_post j) i = (i < j)"
| "posted (Join _) i = True"
| "posted Ended i = True"
| "posted _ i = False"

definition awake_pc :: "worker_pc \<Rightarrow> bool" where
  "awake_pc p \<longleftrightarrow> p = Woken \<or> p = Checked"

definition busy_pc :: "worker_pc \<Rightarrow> bool" where
  "busy_pc p \<longleftrightarrow> (\<exists>t. p = Running t) \<or> (\<exists>t ex. p = Ran t ex)"

text \<open>
  The units of a worker's semaphore, counting the one a worker that is awake has taken, are
  one for a task assigned and notified, and one for the shutdown.
\<close>

definition worker_sound :: "controller_pc \<Rightarrow> nat \<Rightarrow> worker \<Rightarrow> worker_pc \<Rightarrow> bool" where
  "worker_sound c i w p \<longleftrightarrow>
     shutdown w = (if flagged c i then 1 else 0) \<and>
     worker_waiting_semaphore w + (if awake_pc p then 1 else 0) =
       (if w_status w = CS_WS_TSK_ASSIGNED \<and> c \<noteq> Notify i then 1 else 0) +
       (if posted c i \<and> p \<noteq> Exited then 1 else 0) \<and>
     (p = Exited \<longrightarrow> posted c i \<and> w_status w = CS_WS_WAITING) \<and>
     (w_status w = CS_WS_WAITING \<and> assigned_tsk w = None \<and> \<not> busy_pc p \<or>
      w_status w = CS_WS_TSK_ASSIGNED \<and> assigned_tsk w \<noteq> None \<and> \<not> busy_pc p \<or>
      w_status w = CS_WS_WORKING \<and>
        (\<exists>t. assigned_tsk w = Some t \<and> (p = Running t \<or> (\<exists>ex. p = Ran t ex)))) \<and>
     (c = Notify i \<longrightarrow> w_status w = CS_WS_TSK_ASSIGNED) \<and>
     (\<forall>t. c = Assign t i \<longrightarrow> w_status w = CS_WS_WAITING)"

definition workers_sound :: "nat \<Rightarrow> pool_net \<Rightarrow> bool" where
  "workers_sound n s \<longleftrightarrow> (\<forall>i<n. worker_sound (ctl s) i (wk s i) (pc s i)) \<and>
     (\<forall>t i. ctl s = Assign t i \<longrightarrow> i < n) \<and> (\<forall>i. ctl s = Notify i \<longrightarrow> i < n) \<and>
     (\<forall>i. ctl s = Shut_post i \<longrightarrow> i < n) \<and> (\<forall>i. ctl s = Shut i \<longrightarrow> i \<le> n)"

definition waiting :: "worker \<Rightarrow> bool" where
  "waiting w \<longleftrightarrow> w_status w = CS_WS_WAITING"

text \<open>The pool semaphore counts the free workers, less the one the controller is about to use.\<close>

fun holds_worker :: "controller_pc \<Rightarrow> nat" where
  "holds_worker (Scan _ _) = 1"
| "holds_worker (Assign _ _) = 1"
| "holds_worker _ = 0"

definition free_sound :: "nat \<Rightarrow> pool_net \<Rightarrow> bool" where
  "free_sound n s \<longleftrightarrow> wpsem s + holds_worker (ctl s) = tally n waiting (wk s) \<and>
     (\<forall>t j. ctl s = Scan t j \<longrightarrow> (\<exists>i. j \<le> i \<and> i < n \<and> waiting (wk s i)))"

section \<open>The steps of a worker keep it sound\<close>

lemmas worker_defs = worker_sound_def awake_pc_def busy_pc_def

lemma wake_iff:
  "wake w = Ok w' \<longleftrightarrow> (\<exists>k. worker_waiting_semaphore w = Suc k \<and> w' = w\<lparr>worker_waiting_semaphore := k\<rparr>)"
  by (cases "worker_waiting_semaphore w") (auto simp: wake_def sem_wait_def)

lemma wake_sound:
  "worker_sound c i w Idle \<Longrightarrow> wake w = Ok w' \<Longrightarrow>
   worker_sound c i w' Woken \<and> w_status w' = w_status w \<and> assigned_tsk w' = assigned_tsk w"
  by (cases "posted c i"; cases "w_status w"; cases "c = Notify i") (auto simp: worker_defs wake_iff)

lemma flagged_posted: "posted c i \<Longrightarrow> flagged c i"
  by (cases c) auto

lemma awake_sound:
  "worker_sound c i w Woken \<Longrightarrow> worker_awake w = Ok () \<and> worker_sound c i w Checked"
  using flagged_posted [of c i] by (auto simp: worker_defs worker_awake_def split: if_splits)

lemma take_sound:
  assumes "worker_sound c i w Checked"
  shows "(\<exists>t. worker_take w = Ok (Some t, w\<lparr>w_status := CS_WS_WORKING\<rparr>) \<and> assigned_tsk w = Some t \<and>
      w_status w = CS_WS_TSK_ASSIGNED \<and> worker_sound c i (w\<lparr>w_status := CS_WS_WORKING\<rparr>) (Running t)) \<or>
    worker_take w = Ok (None, w) \<and> w_status w = CS_WS_WAITING \<and> worker_sound c i w Exited"
proof (cases "assigned_tsk w")
  case None
  then have w: "w_status w = CS_WS_WAITING" using assms by (auto simp: worker_defs)
  then have "posted c i" using assms by (auto simp: worker_defs split: if_splits)
  then show ?thesis
    using assms None w flagged_posted [of c i] by (auto simp: worker_defs worker_take_def)
next
  case (Some t)
  then have w: "w_status w = CS_WS_TSK_ASSIGNED" using assms by (auto simp: worker_defs)
  have n: "c \<noteq> Notify i"
  proof
    assume c: "c = Notify i"
    then show False using assms by (simp add: worker_defs)
  qed
  then show ?thesis using assms Some w by (auto simp: worker_defs worker_take_def)
qed

lemma run_sound: "worker_sound c i w (Running t) \<Longrightarrow> worker_sound c i w (Ran t ex)"
  by (auto simp: worker_defs)

lemma release_sound:
  assumes "worker_sound c i w (Ran t ex)" "k < SEM_VALUE_MAX"
  shows "worker_release w k = Ok (w\<lparr>w_status := CS_WS_WAITING, assigned_tsk := None\<rparr>, Suc k) \<and>
    w_status w = CS_WS_WORKING \<and>
    worker_sound c i (w\<lparr>w_status := CS_WS_WAITING, assigned_tsk := None\<rparr>) (Released t ex)"
  using assms by (auto simp: worker_defs worker_release_def sem_post_def)

lemma record_sound: "worker_sound c i w (Released t ex) \<Longrightarrow> worker_sound c i w (Recorded t)"
  by (auto simp: worker_defs)

lemma signal_sound: "worker_sound c i w (Recorded t) \<Longrightarrow> worker_sound c i w Idle"
  by (auto simp: worker_defs)

lemma running_working: "worker_sound c i w p \<Longrightarrow> busy_pc p \<Longrightarrow> w_status w = CS_WS_WORKING"
  by (auto simp: worker_defs)

text \<open>Replacing worker \<open>i\<close> by a sound one.\<close>

lemma workers_sound_worker:
  assumes "workers_sound n s" "worker_sound (ctl s) i w p" "ctl s' = ctl s"
    and "wk s' = (wk s)(i := w)" "pc s' = (pc s)(i := p)"
  shows "workers_sound n s'"
  using assms by (auto simp: workers_sound_def)

lemma free_sound_same:
  assumes "free_sound n s" "waiting w = waiting (wk s i)" "ctl s' = ctl s" "wpsem s' = wpsem s"
    and "wk s' = (wk s)(i := w)"
  shows "free_sound n s'"
proof -
  have eq: "waiting (wk s' j) = waiting (wk s j)" for j using assms(2,5) by simp
  then have "tally n waiting (wk s') = tally n waiting (wk s)" by (intro tally_cong)
  then show ?thesis using assms(1,3,4) eq by (simp add: free_sound_def)
qed

text \<open>A worker that is not free leaves room in the pool semaphore.\<close>

lemma wpsem_bound:
  assumes "free_sound n s" "i < n" "\<not> waiting (wk s i)"
  shows "wpsem s < n"
proof -
  have "tally n waiting (wk s) \<noteq> n" using assms(2,3) by (auto simp: tally_full)
  then show ?thesis using assms(1) tally_le [of n waiting "wk s"] by (simp add: free_sound_def)
qed

lemma free_sound_release:
  assumes "free_sound n s" "i < n" "\<not> waiting (wk s i)" "waiting w"
  shows "free_sound n (s\<lparr>wk := (wk s)(i := w), wpsem := Suc (wpsem s), pc := p\<rparr>)"
proof -
  have "tally n waiting ((wk s)(i := w)) = Suc (tally n waiting (wk s))"
    using tally_update [OF assms(2), of waiting "wk s" w] assms(3,4) by simp
  then show ?thesis using assms by (auto simp: free_sound_def)
qed

lemma worker_step_sound:
  assumes "worker_step i s s'" "i < n" "workers_sound n s" "free_sound n s" "n \<le> SEM_VALUE_MAX"
    and "abort s = None"
  shows "workers_sound n s' \<and> free_sound n s' \<and> abort s' = None"
proof -
  have ws: "worker_sound (ctl s) i (wk s i) (pc s i)" using assms(2,3) by (auto simp: workers_sound_def)
  note wk_id = workers_sound_worker [OF assms(3), of i "wk s i"]
  show ?thesis using assms(1)
  proof cases
    case (w_wait w)
    then have "worker_sound (ctl s) i w Woken \<and> w_status w = w_status (wk s i)"
      using wake_sound [of "ctl s" i "wk s i" w] ws by simp
    then show ?thesis
      using w_wait workers_sound_worker [OF assms(3), of i w Woken]
        free_sound_same [OF assms(4), of w i] assms(6) by (simp add: waiting_def)
  next
    case (w_awake u)
    then show ?thesis
      using awake_sound [of "ctl s" i "wk s i"] ws wk_id [of Checked] assms(4,6)
      by (simp add: free_sound_def)
  next
    case (w_awake_abort f)
    then show ?thesis using awake_sound [of "ctl s" i "wk s i"] ws by simp
  next
    case (w_exit w)
    then have "w = wk s i" "worker_sound (ctl s) i w Exited"
      using take_sound [of "ctl s" i "wk s i"] ws by auto
    then show ?thesis using w_exit wk_id [of Exited] assms(4,6) by (simp add: free_sound_def)
  next
    case (w_take t w)
    then have "worker_sound (ctl s) i w (Running t)" "\<not> waiting (wk s i)" "\<not> waiting w"
      using take_sound [of "ctl s" i "wk s i"] ws by (auto simp: waiting_def)
    then show ?thesis
      using w_take workers_sound_worker [OF assms(3), of i w "Running t"]
        free_sound_same [OF assms(4), of w i] assms(6) by simp
  next
    case (w_take_abort f)
    then show ?thesis using take_sound [of "ctl s" i "wk s i"] ws by auto
  next
    case (w_run t ex)
    then show ?thesis
      using run_sound [of "ctl s" i "wk s i" t ex] ws wk_id [of "Ran t ex"] assms(4,6)
      by (simp add: free_sound_def)
  next
    case (w_release t ex w k)
    have nw: "\<not> waiting (wk s i)"
      using running_working [of "ctl s" i "wk s i" "pc s i"] ws w_release by (simp add: waiting_def busy_pc_def)
    then have "wpsem s < SEM_VALUE_MAX" using wpsem_bound [OF assms(4,2)] assms(5) by simp
    then have r: "worker_sound (ctl s) i w (Released t ex)" "k = Suc (wpsem s)" "waiting w"
      using release_sound [of "ctl s" i "wk s i" t ex "wpsem s"] ws w_release by (auto simp: waiting_def)
    then show ?thesis
      using w_release workers_sound_worker [OF assms(3) r(1)] free_sound_release [OF assms(4,2) nw r(3)] assms(6)
      by simp
  next
    case (w_release_abort t ex f)
    have "\<not> waiting (wk s i)"
      using running_working [of "ctl s" i "wk s i" "pc s i"] ws w_release_abort
      by (simp add: waiting_def busy_pc_def)
    then have "wpsem s < SEM_VALUE_MAX" using wpsem_bound [OF assms(4,2)] assms(5) by simp
    then show ?thesis using release_sound [of "ctl s" i "wk s i" t ex "wpsem s"] ws w_release_abort by simp
  next
    case (w_record t ex)
    then show ?thesis
      using record_sound [of "ctl s" i "wk s i" t ex] ws wk_id [of "Recorded t"] assms(4,6)
      by (simp add: free_sound_def)
  next
    case (w_signal t)
    then show ?thesis
      using signal_sound [of "ctl s" i "wk s i" t] ws wk_id [of Idle] assms(4,6)
      by (simp add: free_sound_def)
  qed
qed

section \<open>The steps of the controller keep the workers sound\<close>

text \<open>A step of the controller that does not concern worker \<open>i\<close>.\<close>

lemma worker_sound_ctl:
  assumes "worker_sound c i w p" "flagged c' i = flagged c i" "posted c' i = posted c i"
    and "c \<noteq> Notify i" "c' \<noteq> Notify i" "\<forall>t. c' = Assign t i \<longrightarrow> w_status w = CS_WS_WAITING"
  shows "worker_sound c' i w p"
  using assms by (simp add: worker_sound_def)

lemma workers_sound_ctl:
  assumes "workers_sound n s" "wk s' = wk s" "pc s' = pc s"
    and "\<And>i. i < n \<Longrightarrow> flagged (ctl s') i = flagged (ctl s) i \<and> posted (ctl s') i = posted (ctl s) i \<and>
      ctl s \<noteq> Notify i \<and> ctl s' \<noteq> Notify i \<and> (\<forall>t. ctl s' = Assign t i \<longrightarrow> w_status (wk s i) = CS_WS_WAITING)"
    and "(\<forall>t i. ctl s' = Assign t i \<longrightarrow> i < n) \<and> (\<forall>i. ctl s' = Notify i \<longrightarrow> i < n) \<and>
      (\<forall>i. ctl s' = Shut_post i \<longrightarrow> i < n) \<and> (\<forall>i. ctl s' = Shut i \<longrightarrow> i \<le> n)"
  shows "workers_sound n s'"
  unfolding workers_sound_def
proof (intro conjI allI impI)
  fix i assume "i < n"
  then show "worker_sound (ctl s') i (wk s' i) (pc s' i)"
    using worker_sound_ctl [of "ctl s" i "wk s i" "pc s i" "ctl s'"] assms(1-4)
    by (auto simp: workers_sound_def)
qed (use assms(5) in auto)

text \<open>A step of the controller that changes worker \<open>i\<close>.\<close>

lemma workers_sound_ctl_worker:
  assumes "workers_sound n s" "wk s' = (wk s)(i := w)" "pc s' = pc s"
    and "worker_sound (ctl s') i w (pc s i)"
    and "\<And>j. j < n \<Longrightarrow> j \<noteq> i \<Longrightarrow> flagged (ctl s') j = flagged (ctl s) j \<and> posted (ctl s') j = posted (ctl s) j \<and>
      ctl s \<noteq> Notify j \<and> ctl s' \<noteq> Notify j \<and> (\<forall>t. ctl s' \<noteq> Assign t j)"
    and "(\<forall>t i. ctl s' = Assign t i \<longrightarrow> i < n) \<and> (\<forall>i. ctl s' = Notify i \<longrightarrow> i < n) \<and>
      (\<forall>i. ctl s' = Shut_post i \<longrightarrow> i < n) \<and> (\<forall>i. ctl s' = Shut i \<longrightarrow> i \<le> n)"
  shows "workers_sound n s'"
  unfolding workers_sound_def
proof (intro conjI allI impI)
  fix j assume "j < n"
  then show "worker_sound (ctl s') j (wk s' j) (pc s' j)"
    using worker_sound_ctl [of "ctl s" j "wk s j" "pc s j" "ctl s'"] assms(1-5)
    by (cases "j = i") (auto simp: workers_sound_def)
qed (use assms(6) in auto)

lemma assign_sound:
  assumes "worker_sound (Assign t i) i w p"
  shows "cs_wp_assign_tsk_to_worker (Some t) (int i) w =
      Ok (w\<lparr>assigned_tsk := Some t, w_status := CS_WS_TSK_ASSIGNED\<rparr>) \<and>
    worker_sound (Notify i) i (w\<lparr>assigned_tsk := Some t, w_status := CS_WS_TSK_ASSIGNED\<rparr>) p \<and>
    w_status w = CS_WS_WAITING"
  using assms by (auto simp: worker_defs cs_wp_assign_tsk_to_worker_def)

lemma worker_notify_simps [simp]:
  "w_status (worker_notify w) = w_status w" "assigned_tsk (worker_notify w) = assigned_tsk w"
  by (simp_all add: worker_notify_def split: option.splits)

lemma worker_notify_post:
  "worker_waiting_semaphore w < SEM_VALUE_MAX \<Longrightarrow>
   worker_notify w = w\<lparr>worker_waiting_semaphore := Suc (worker_waiting_semaphore w)\<rparr>"
  by (simp add: worker_notify_def sem_post_def)

lemma notify_sound: "worker_sound (Notify i) i w p \<Longrightarrow> worker_sound Fetch i (worker_notify w) p"
  by (auto simp: worker_defs worker_notify_post SEM_VALUE_MAX_def)

lemma flag_sound: "worker_sound (Shut i) i w p \<Longrightarrow> worker_sound (Shut_post i) i (shutdown_flag w) p"
  by (auto simp: worker_defs shutdown_flag_def)

lemma shut_post_sound:
  assumes "worker_sound (Shut_post i) i w p"
  shows "worker_sound (Shut (Suc i)) i (worker_notify w) p"
proof -
  have "worker_waiting_semaphore w \<le> 1" using assms by (auto simp: worker_defs split: if_splits)
  then have "worker_waiting_semaphore w < SEM_VALUE_MAX" by (simp add: SEM_VALUE_MAX_def)
  then show ?thesis using assms by (auto simp: worker_defs worker_notify_post)
qed

lemma free_worker_exists:
  "free_sound n s \<Longrightarrow> wpsem s = Suc k \<Longrightarrow> \<exists>i<n. waiting (wk s i)"
  using tally_zero [of n waiting "wk s"] by (auto simp: free_sound_def)

lemma free_sound_assign:
  assumes "free_sound n s" "ctl s = Assign t i" "i < n" "waiting (wk s i)" "\<not> waiting w"
  shows "free_sound n (s\<lparr>wk := (wk s)(i := w), ctl := Notify i\<rparr>)"
  using tally_update [OF assms(3), of waiting "wk s" w] assms by (simp add: free_sound_def)

lemma controller_step_sound:
  assumes "controller_step n s s'" "workers_sound n s" "free_sound n s" "abort s = None"
  shows "workers_sound n s' \<and> free_sound n s' \<and> abort s' = None"
  using assms(1)
proof cases
  case (c_fetch t ts)
  then show ?thesis using assms(2-4) workers_sound_ctl [OF assms(2), of s']
    by (simp add: free_sound_def)
next
  case c_null
  then show ?thesis using assms(2-4) workers_sound_ctl [OF assms(2), of s']
    by (simp add: free_sound_def)
next
  case (c_acquire t k)
  then have "wpsem s = Suc k" by (cases "wpsem s") (auto simp: sem_wait_def)
  then have "\<exists>i<n. waiting (wk s i)" "wpsem s = Suc k" using free_worker_exists [OF assms(3)] by auto
  then show ?thesis
    using c_acquire assms(2-4) workers_sound_ctl [OF assms(2), of s'] by (simp add: free_sound_def)
next
  case (c_skip t i)
  have "\<not> waiting (wk s i)" using c_skip by (simp add: waiting_def cs_wp_get_worker_status_def)
  then have "\<exists>j. Suc i \<le> j \<and> j < n \<and> waiting (wk s j)"
    using assms(3) c_skip by (auto simp: free_sound_def) (metis Suc_leI le_neq_implies_less)
  then show ?thesis using c_skip assms(2-4) workers_sound_ctl [OF assms(2), of s']
    by (simp add: free_sound_def)
next
  case (c_found t i)
  then show ?thesis using assms(2-4) workers_sound_ctl [OF assms(2), of s']
    by (auto simp: free_sound_def cs_wp_get_worker_status_def)
next
  case (c_none t i)
  then show ?thesis using assms(3) by (auto simp: free_sound_def)
next
  case (c_assign t i w)
  have i: "i < n" using assms(2) c_assign by (auto simp: workers_sound_def)
  then have "worker_sound (Assign t i) i (wk s i) (pc s i)"
    using assms(2) c_assign by (auto simp: workers_sound_def)
  then have w: "w = (wk s i)\<lparr>assigned_tsk := Some t, w_status := CS_WS_TSK_ASSIGNED\<rparr>"
    "worker_sound (Notify i) i w (pc s i)" "waiting (wk s i)" "\<not> waiting w"
    using assign_sound [of t i "wk s i" "pc s i"] c_assign by (auto simp: waiting_def)
  then show ?thesis
    using workers_sound_ctl_worker [OF assms(2), of s' i w] free_sound_assign [OF assms(3) _ i w(3,4)]
      c_assign assms(4) i by simp
next
  case (c_notify i)
  then have i: "i < n" "worker_sound (Notify i) i (wk s i) (pc s i)"
    using assms(2) by (auto simp: workers_sound_def)
  have "free_sound n s'"
    using assms(3) c_notify free_sound_same [of n "s\<lparr>ctl := Fetch\<rparr>" "worker_notify (wk s i)" i s']
    by (simp add: free_sound_def waiting_def)
  then show ?thesis
    using workers_sound_ctl_worker [OF assms(2), of s' i "worker_notify (wk s i)"] notify_sound [OF i(2)]
      c_notify assms(4) by simp
next
  case (c_shut i)
  then have i: "worker_sound (Shut i) i (wk s i) (pc s i)"
    using assms(2) by (auto simp: workers_sound_def)
  have "free_sound n s'"
    using assms(3) c_shut free_sound_same [of n "s\<lparr>ctl := Shut_post i\<rparr>" "shutdown_flag (wk s i)" i s']
    by (simp add: free_sound_def waiting_def shutdown_flag_def)
  moreover have "workers_sound n s'"
    by (rule workers_sound_ctl_worker [OF assms(2), of s' i "shutdown_flag (wk s i)"])
      (use c_shut flag_sound [OF i] in auto)
  ultimately show ?thesis using c_shut assms(4) by simp
next
  case (c_shut_post i)
  then have i: "i < n" "worker_sound (Shut_post i) i (wk s i) (pc s i)"
    using assms(2) by (auto simp: workers_sound_def)
  have "free_sound n s'"
    using assms(3) c_shut_post free_sound_same [of n "s\<lparr>ctl := Shut (Suc i)\<rparr>" "worker_notify (wk s i)" i s']
    by (simp add: free_sound_def waiting_def)
  moreover have "workers_sound n s'"
    by (rule workers_sound_ctl_worker [OF assms(2), of s' i "worker_notify (wk s i)"])
      (use c_shut_post shut_post_sound [OF i(2)] i(1) in auto)
  ultimately show ?thesis using c_shut_post assms(4) by simp
next
  case (c_shut_end i)
  then have "i = n" using assms(2) by (auto simp: workers_sound_def)
  then show ?thesis using c_shut_end assms(2-4) workers_sound_ctl [OF assms(2), of s']
    by (simp add: free_sound_def)
next
  case (c_join i)
  then show ?thesis using assms(2-4) workers_sound_ctl [OF assms(2), of s']
    by (simp add: free_sound_def)
next
  case (c_end i)
  then show ?thesis using assms(2-4) workers_sound_ctl [OF assms(2), of s']
    by (simp add: free_sound_def)
qed

lemma user_step_sound:
  "user_step s s' \<Longrightarrow> workers_sound n s \<Longrightarrow> free_sound n s \<Longrightarrow> abort s = None \<Longrightarrow>
   workers_sound n s' \<and> free_sound n s' \<and> abort s' = None"
  by (erule user_stepE) (auto simp: workers_sound_def free_sound_def)

section \<open>Accounting of the tasks\<close>

fun held :: "controller_pc \<Rightarrow> int multiset" where
  "held (Acquire t) = {#t#}"
| "held (Scan t _) = {#t#}"
| "held (Assign t _) = {#t#}"
| "held _ = {#}"

definition load :: "worker \<Rightarrow> worker_pc \<Rightarrow> int multiset" where
  "load w p =
     (if w_status w = CS_WS_TSK_ASSIGNED then (case assigned_tsk w of None \<Rightarrow> {#} | Some t \<Rightarrow> {#t#})
      else (case p of Running t \<Rightarrow> {#t#} | _ \<Rightarrow> {#}))"

fun closing :: "controller_pc \<Rightarrow> bool" where
  "closing (Shut _) = True"
| "closing (Shut_post _) = True"
| "closing (Join _) = True"
| "closing Ended = True"
| "closing _ = False"

text \<open>Every queued task is in the queue, with the controller, with one worker, or has run.\<close>

definition tasks_sound :: "nat \<Rightarrow> pool_net \<Rightarrow> bool" where
  "tasks_sound n s \<longleftrightarrow> distinct (queued s) \<and>
     mset (queued s) = mset (tq s) + held (ctl s) + (\<Sum>i<n. load (wk s i) (pc s i)) + mset (map fst (ran s)) \<and>
     (closing (ctl s) \<longrightarrow> tq s = [] \<and> qclosed s) \<and>
     (\<forall>i j. ctl s = Join i \<longrightarrow> j < i \<longrightarrow> pc s j = Exited) \<and>
     (ctl s = Ended \<longrightarrow> (\<forall>j<n. pc s j = Exited))"

text \<open>Changing worker \<open>i\<close> changes the sum by its own load.\<close>

lemma pile_load:
  assumes "i < n"
  shows "(\<Sum>j<n. load (((wk s)(i := w)) j) (((pc s)(i := p)) j)) + load (wk s i) (pc s i) =
    (\<Sum>j<n. load (wk s j) (pc s j)) + load w p"
  using pile_update [OF assms, of "\<lambda>j. load (((wk s)(i := w)) j) (((pc s)(i := p)) j)"
      "\<lambda>j. load (wk s j) (pc s j)"] by simp

lemma pile_same:
  assumes "load w p = load (wk s i) (pc s i)" "i < n"
  shows "(\<Sum>j<n. load (((wk s)(i := w)) j) (((pc s)(i := p)) j)) = (\<Sum>j<n. load (wk s j) (pc s j))"
  using pile_load [OF assms(2), of s w p] assms(1) by simp

text \<open>A worker that moves on, its load unchanged.\<close>

lemma tasks_sound_worker:
  assumes "tasks_sound n s" "i < n" "load w p = load (wk s i) (pc s i)" "pc s i \<noteq> Exited"
    and "wk s' = (wk s)(i := w)" "pc s' = (pc s)(i := p)" "ctl s' = ctl s" "tq s' = tq s"
    "queued s' = queued s" "ran s' = ran s" "qclosed s' = qclosed s"
  shows "tasks_sound n s'"
  using assms pile_same [OF assms(3,2)] by (auto simp: tasks_sound_def)

lemma load_idle: "\<not> (\<exists>t. p = Running t) \<Longrightarrow> \<not> (\<exists>t. q = Running t) \<Longrightarrow> load w p = load w q"
  by (cases p; cases q) (auto simp: load_def)

lemma worker_step_tasks:
  assumes "worker_step i s s'" "i < n" "workers_sound n s" "tasks_sound n s"
  shows "tasks_sound n s'"
proof -
  have ws: "worker_sound (ctl s) i (wk s i) (pc s i)" using assms(2,3) by (auto simp: workers_sound_def)
  note same = tasks_sound_worker [OF assms(4,2)]
  show ?thesis using assms(1)
  proof cases
    case (w_wait w)
    then have "load w Woken = load (wk s i) (pc s i)" by (auto simp: load_def wake_iff)
    then show ?thesis using w_wait same [of w Woken s'] by simp
  next
    case (w_awake u)
    then show ?thesis using same [of "wk s i" Checked s'] by (simp add: load_def)
  next
    case (w_exit w)
    then have "w = wk s i" using take_sound [of "ctl s" i "wk s i"] ws by auto
    then show ?thesis using w_exit same [of "wk s i" Exited s'] by (simp add: load_def)
  next
    case (w_take t w)
    then have "load w (Running t) = load (wk s i) (pc s i)"
      using take_sound [of "ctl s" i "wk s i"] ws by (auto simp: load_def)
    then show ?thesis using w_take same [of w "Running t" s'] by simp
  next
    case (w_run t ex)
    then have st: "w_status (wk s i) = CS_WS_WORKING" using ws running_working [of "ctl s" i "wk s i" "pc s i"]
      by (simp add: busy_pc_def)
    have "(\<Sum>j<n. load (wk s j) (((pc s)(i := Ran t ex)) j)) + {#t#} = (\<Sum>j<n. load (wk s j) (pc s j))"
      using pile_load [OF assms(2), of s "wk s i" "Ran t ex"] w_run st by (simp add: load_def)
    then show ?thesis using w_run assms(4) by (auto simp: tasks_sound_def ac_simps)
  next
    case (w_release t ex w k)
    then have "load w (Released t ex) = load (wk s i) (pc s i)"
      using running_working [of "ctl s" i "wk s i" "pc s i"] ws
      by (auto simp: load_def worker_release_def busy_pc_def split: option.splits)
    then show ?thesis using w_release same [of w "Released t ex" s'] by simp
  next
    case (w_record t ex)
    then show ?thesis using same [of "wk s i" "Recorded t" s'] by (simp add: load_def)
  next
    case (w_signal t)
    then show ?thesis using same [of "wk s i" Idle s'] by (simp add: load_def)
  qed (use assms(4) in \<open>simp_all add: tasks_sound_def\<close>)
qed

lemma controller_step_tasks:
  assumes "controller_step n s s'" "workers_sound n s" "tasks_sound n s"
  shows "tasks_sound n s'"
  using assms(1)
proof cases
  case (c_assign t i w)
  then have i: "i < n" using assms(2) by (auto simp: workers_sound_def)
  then have ws: "worker_sound (Assign t i) i (wk s i) (pc s i)"
    using assms(2) c_assign by (auto simp: workers_sound_def)
  then have w: "w = (wk s i)\<lparr>assigned_tsk := Some t, w_status := CS_WS_TSK_ASSIGNED\<rparr>"
    using assign_sound [OF ws] c_assign by simp
  have "load (wk s i) (pc s i) = {#}"
    using ws by (auto simp: load_def worker_defs split: worker_pc.splits)
  moreover have "load w (pc s i) = {#t#}" using w by (simp add: load_def)
  ultimately have "(\<Sum>j<n. load (((wk s)(i := w)) j) (pc s j)) = (\<Sum>j<n. load (wk s j) (pc s j)) + {#t#}"
    using pile_load [OF i, of s w "pc s i"] by simp
  then show ?thesis using c_assign assms(3) by (auto simp: tasks_sound_def)
next
  case (c_notify i)
  have "load (if j = i then worker_notify (wk s i) else wk s j) p = load (wk s j) p" for j p
    by (simp add: load_def)
  then show ?thesis using c_notify assms(3) by (auto simp: tasks_sound_def)
next
  case (c_shut i)
  have "load (if j = i then shutdown_flag (wk s i) else wk s j) p = load (wk s j) p" for j p
    by (simp add: load_def shutdown_flag_def)
  then show ?thesis using c_shut assms(3) by (auto simp: tasks_sound_def)
next
  case (c_shut_post i)
  have "load (if j = i then worker_notify (wk s i) else wk s j) p = load (wk s j) p" for j p
    by (simp add: load_def)
  then show ?thesis using c_shut_post assms(3) by (auto simp: tasks_sound_def)
next
  case (c_join i)
  then show ?thesis using assms(3) by (auto simp: tasks_sound_def less_Suc_eq)
qed (use assms(3) in \<open>auto simp: tasks_sound_def\<close>)

lemma user_step_tasks: "user_step s s' \<Longrightarrow> tasks_sound n s \<Longrightarrow> tasks_sound n s'"
  by (erule user_stepE) (auto simp: tasks_sound_def)

section \<open>Results and the waiting users\<close>

text \<open>Is the result of task \<open>t\<close> on its way, has it been stored but not signalled?\<close>

definition in_flight :: "int \<Rightarrow> worker_pc \<Rightarrow> bool" where
  "in_flight t p \<longleftrightarrow> (\<exists>ex. p = Ran t ex \<or> p = Released t ex)"

definition to_signal :: "int \<Rightarrow> worker_pc \<Rightarrow> bool" where
  "to_signal t p \<longleftrightarrow> p = Recorded t"

text \<open>A task that has run is in flight or has its result stored; a stored result gives one
  post of the task's semaphore, which one waiting user may have taken.\<close>

definition runs :: "pool_net \<Rightarrow> int \<Rightarrow> nat" where
  "runs s t = count (mset (map fst (ran s))) t"

definition results_sound :: "nat \<Rightarrow> pool_net \<Rightarrow> bool" where
  "results_sound n s \<longleftrightarrow>
     (\<forall>t ex. results s t = Some ex \<longrightarrow> (t, ex) \<in> set (ran s)) \<and>
     (\<forall>i<n. \<forall>t ex. pc s i = Ran t ex \<or> pc s i = Released t ex \<longrightarrow> (t, ex) \<in> set (ran s)) \<and>
     (\<forall>t. tally n (in_flight t) (pc s) + (if results s t = None then 0 else 1) = runs s t) \<and>
     (\<forall>t. tsem s t + returned s t + tally n (to_signal t) (pc s) = (if results s t = None then 0 else 1))"

lemma tally_pc:
  "i < n \<Longrightarrow> tally n P ((pc s)(i := p)) + (if P (pc s i) then 1 else 0) =
     tally n P (pc s) + (if P p then 1 else 0)"
  by (rule tally_update)

lemma tally_pc_same: "i < n \<Longrightarrow> P p = P (pc s i) \<Longrightarrow> tally n P ((pc s)(i := p)) = tally n P (pc s)"
  using tally_pc [of i n P s p] by (simp split: if_splits)

lemma results_soundD:
  assumes "results_sound n s"
  shows "results s t = Some ex \<Longrightarrow> (t, ex) \<in> set (ran s)"
    and "i < n \<Longrightarrow> pc s i = Ran t ex \<Longrightarrow> (t, ex) \<in> set (ran s)"
    and "i < n \<Longrightarrow> pc s i = Released t ex \<Longrightarrow> (t, ex) \<in> set (ran s)"
    and "tally n (in_flight t) (pc s) + (if results s t = None then 0 else 1) = runs s t"
    and "tsem s t + returned s t + tally n (to_signal t) (pc s) = (if results s t = None then 0 else 1)"
  using assms unfolding results_sound_def by blast+

lemma results_soundI:
  assumes "\<And>t ex. results s t = Some ex \<Longrightarrow> (t, ex) \<in> set (ran s)"
    and "\<And>i t ex. i < n \<Longrightarrow> pc s i = Ran t ex \<or> pc s i = Released t ex \<Longrightarrow> (t, ex) \<in> set (ran s)"
    and "\<And>t. tally n (in_flight t) (pc s) + (if results s t = None then 0 else 1) = runs s t"
    and "\<And>t. tsem s t + returned s t + tally n (to_signal t) (pc s) = (if results s t = None then 0 else 1)"
  shows "results_sound n s"
  using assms unfolding results_sound_def by blast

lemma ran_at_most_once:
  assumes "tasks_sound n s"
  shows "runs s t \<le> 1"
proof -
  have "mset (map fst (ran s)) \<subseteq># mset (queued s)" using assms by (simp add: tasks_sound_def)
  then have "runs s t \<le> count (mset (queued s)) t" by (simp add: runs_def mset_subset_eq_count)
  also have "distinct (queued s)" using assms unfolding tasks_sound_def by blast
  then have "count (mset (queued s)) t \<le> 1" by (simp add: distinct_count_atmost_1)
  finally show ?thesis .
qed

lemma in_flight_simps [simp]:
  "in_flight t (Ran u ex) \<longleftrightarrow> u = t" "in_flight t (Released u ex) \<longleftrightarrow> u = t"
  "\<not> in_flight t Idle" "\<not> in_flight t Woken" "\<not> in_flight t Checked" "\<not> in_flight t (Running u)"
  "\<not> in_flight t (Recorded u)" "\<not> in_flight t Exited"
  by (auto simp: in_flight_def)

lemma to_signal_simps [simp]:
  "to_signal t (Recorded u) \<longleftrightarrow> u = t" "\<not> to_signal t (Ran u ex)" "\<not> to_signal t (Released u ex)"
  "\<not> to_signal t Idle" "\<not> to_signal t Woken" "\<not> to_signal t Checked" "\<not> to_signal t (Running u)"
  "\<not> to_signal t Exited"
  by (auto simp: to_signal_def)

text \<open>A worker that moves between places without a result.\<close>

lemma results_sound_move:
  assumes "results_sound n s" "i < n" "\<And>t. in_flight t p = in_flight t (pc s i)"
    and "\<And>t. to_signal t p = to_signal t (pc s i)"
    and "\<And>t ex. p = Ran t ex \<or> p = Released t ex \<Longrightarrow> pc s i = Ran t ex \<or> pc s i = Released t ex"
    and "pc s' = (pc s)(i := p)" "ran s' = ran s" "results s' = results s" "tsem s' = tsem s"
    and "returned s' = returned s"
  shows "results_sound n s'"
proof (rule results_soundI)
  have f: "tally n (in_flight t) (pc s') = tally n (in_flight t) (pc s)"
    and g: "tally n (to_signal t) (pc s') = tally n (to_signal t) (pc s)" for t
    using assms(2-4,6) by (simp_all add: tally_pc_same)
  show "tally n (in_flight t) (pc s') + (if results s' t = None then 0 else 1) = runs s' t" for t
    using results_soundD(4) [OF assms(1)] f assms(7,8) by (simp add: runs_def)
  show "tsem s' t + returned s' t + tally n (to_signal t) (pc s') = (if results s' t = None then 0 else 1)" for t
    using results_soundD(5) [OF assms(1)] g assms(8-10) by simp
  show "(t, ex) \<in> set (ran s')" if "results s' t = Some ex" for t ex
    using results_soundD(1) [OF assms(1)] that assms(7,8) by simp
  show "(t, ex) \<in> set (ran s')" if "j < n" "pc s' j = Ran t ex \<or> pc s' j = Released t ex" for j t ex
    using results_soundD(2,3) [OF assms(1)] that assms(2,5,6,7) by (auto split: if_splits)
qed

lemma results_sound_run:
  assumes "results_sound n s" "i < n" "pc s i = Running t"
  shows "results_sound n (s\<lparr>pc := (pc s)(i := Ran t ex), ran := ran s @ [(t, ex)]\<rparr>)"
    (is "results_sound n ?s")
proof (rule results_soundI)
  have f: "tally n (in_flight u) (pc ?s) = tally n (in_flight u) (pc s) + (if u = t then 1 else 0)" for u
    using tally_pc [OF assms(2), of "in_flight u" s "Ran t ex"] assms(3) by auto
  have g: "tally n (to_signal u) (pc ?s) = tally n (to_signal u) (pc s)" for u
    using assms(2,3) by (simp add: tally_pc_same)
  have r: "runs ?s u = runs s u + (if u = t then 1 else 0)" for u by (simp add: runs_def)
  show "tally n (in_flight u) (pc ?s) + (if results ?s u = None then 0 else 1) = runs ?s u" for u
    using results_soundD(4) [OF assms(1), of u] f [of u] r [of u] by simp
  show "tsem ?s u + returned ?s u + tally n (to_signal u) (pc ?s) = (if results ?s u = None then 0 else 1)" for u
    using results_soundD(5) [OF assms(1), of u] g [of u] by simp
  show "(u, e) \<in> set (ran ?s)" if "results ?s u = Some e" for u e
    using results_soundD(1) [OF assms(1)] that by simp
  show "(u, e) \<in> set (ran ?s)" if "j < n" "pc ?s j = Ran u e \<or> pc ?s j = Released u e" for j u e
    using results_soundD(2,3) [OF assms(1)] that by (auto split: if_splits)
qed

lemma results_sound_record:
  assumes "results_sound n s" "tasks_sound n s" "i < n" "pc s i = Released t ex"
  shows "results_sound n (s\<lparr>pc := (pc s)(i := Recorded t), results := (results s)(t \<mapsto> ex)\<rparr>)"
    (is "results_sound n ?s")
proof (rule results_soundI)
  have "0 < tally n (in_flight t) (pc s)" using tally_pos [OF assms(3), of "in_flight t" "pc s"] assms(4) by simp
  moreover have "tally n (in_flight t) (pc s) + (if results s t = None then 0 else 1) \<le> 1"
    using results_soundD(4) [OF assms(1), of t] ran_at_most_once [OF assms(2), of t] by simp
  ultimately have none: "results s t = None" by (auto split: if_splits)
  have f: "tally n (in_flight u) (pc ?s) + (if u = t then 1 else 0) = tally n (in_flight u) (pc s)" for u
    using tally_pc [OF assms(3), of "in_flight u" s "Recorded t"] assms(4) by auto
  have g: "tally n (to_signal u) (pc ?s) = tally n (to_signal u) (pc s) + (if u = t then 1 else 0)" for u
    using tally_pc [OF assms(3), of "to_signal u" s "Recorded t"] assms(4) by auto
  have r: "runs ?s u = runs s u" for u by (simp add: runs_def)
  show "tally n (in_flight u) (pc ?s) + (if results ?s u = None then 0 else 1) = runs ?s u" for u
    using results_soundD(4) [OF assms(1), of u] f [of u] none r [of u] by (cases "u = t") simp_all
  show "tsem ?s u + returned ?s u + tally n (to_signal u) (pc ?s) = (if results ?s u = None then 0 else 1)" for u
    using results_soundD(5) [OF assms(1), of u] g [of u] none by (cases "u = t") simp_all
  show "(u, e) \<in> set (ran ?s)" if "results ?s u = Some e" for u e
    using results_soundD(1,3) [OF assms(1)] assms(3,4) that by (auto split: if_splits)
  show "(u, e) \<in> set (ran ?s)" if "j < n" "pc ?s j = Ran u e \<or> pc ?s j = Released u e" for j u e
    using results_soundD(2,3) [OF assms(1)] that by (auto split: if_splits)
qed

lemma results_sound_signal:
  assumes "results_sound n s" "i < n" "pc s i = Recorded t"
  shows "results_sound n (s\<lparr>pc := (pc s)(i := Idle),
    tsem := (tsem s)(t := (case sem_post (tsem s t) of None \<Rightarrow> tsem s t | Some k \<Rightarrow> k))\<rparr>)"
    (is "results_sound n ?s")
proof (rule results_soundI)
  have "0 < tally n (to_signal t) (pc s)" using tally_pos [OF assms(2), of "to_signal t" "pc s"] assms(3) by simp
  moreover have "tsem s t + returned s t + tally n (to_signal t) (pc s) \<le> 1"
    using results_soundD(5) [OF assms(1), of t] by simp
  ultimately have p: "tsem ?s = (tsem s)(t := Suc (tsem s t))" by (simp add: sem_post_def SEM_VALUE_MAX_def)
  have f: "tally n (in_flight u) (pc ?s) = tally n (in_flight u) (pc s)" for u
    using assms(2,3) by (simp add: tally_pc_same)
  have g: "tally n (to_signal u) (pc ?s) + (if u = t then 1 else 0) = tally n (to_signal u) (pc s)" for u
    using tally_pc [OF assms(2), of "to_signal u" s Idle] assms(3) by auto
  have r: "runs ?s u = runs s u" for u by (simp add: runs_def)
  show "tally n (in_flight u) (pc ?s) + (if results ?s u = None then 0 else 1) = runs ?s u" for u
    using results_soundD(4) [OF assms(1), of u] f [of u] r [of u] by simp
  show "tsem ?s u + returned ?s u + tally n (to_signal u) (pc ?s) = (if results ?s u = None then 0 else 1)" for u
    unfolding p using results_soundD(5) [OF assms(1), of u] g [of u] by (cases "u = t") simp_all
  show "(u, e) \<in> set (ran ?s)" if "results ?s u = Some e" for u e
    using results_soundD(1) [OF assms(1)] that by simp
  show "(u, e) \<in> set (ran ?s)" if "j < n" "pc ?s j = Ran u e \<or> pc ?s j = Released u e" for j u e
    using results_soundD(2,3) [OF assms(1)] that by (auto split: if_splits)
qed

lemma results_sound_cong:
  assumes "results_sound n s" "pc s' = pc s" "ran s' = ran s" "results s' = results s"
    and "\<And>t. tsem s' t + returned s' t = tsem s t + returned s t"
  shows "results_sound n s'"
  using assms unfolding results_sound_def runs_def by simp

lemma worker_step_results:
  assumes "worker_step i s s'" "i < n" "tasks_sound n s" "results_sound n s"
  shows "results_sound n s'"
proof -
  note move = results_sound_move [OF assms(4,2)]
  show ?thesis using assms(1)
  proof cases
    case (w_wait w) then show ?thesis by (intro move [of Woken]) auto
  next
    case (w_awake u) then show ?thesis by (intro move [of Checked]) auto
  next
    case (w_exit w) then show ?thesis by (intro move [of Exited]) auto
  next
    case (w_take t w) then show ?thesis by (intro move [of "Running t"]) auto
  next
    case (w_run t ex) then show ?thesis using results_sound_run [OF assms(4,2)] by simp
  next
    case (w_release t ex w k) then show ?thesis by (intro move [of "Released t ex"]) auto
  next
    case (w_record t ex) then show ?thesis using results_sound_record [OF assms(4,3,2)] by simp
  next
    case (w_signal t) then show ?thesis using results_sound_signal [OF assms(4,2)] by simp
  qed (use results_sound_cong [OF assms(4)] in simp_all)
qed

lemma controller_step_results:
  "controller_step n s s' \<Longrightarrow> results_sound n s \<Longrightarrow> results_sound n s'"
  by (erule controller_stepE) (auto intro: results_sound_cong)

lemma user_step_results:
  assumes "user_step s s'" "results_sound n s"
  shows "results_sound n s'"
  using assms(1)
proof cases
  case (u_return t k m)
  then have "tsem s t = Suc m" by (cases "tsem s t") (auto simp: sem_wait_def)
  then show ?thesis using u_return by (intro results_sound_cong [OF assms(2)]) auto
qed (use results_sound_cong [OF assms(2)] in simp_all)

section \<open>The invariant of reachable nets\<close>

definition pool_inv :: "nat \<Rightarrow> pool_net \<Rightarrow> bool" where
  "pool_inv n s \<longleftrightarrow> workers_sound n s \<and> free_sound n s \<and> tasks_sound n s \<and> results_sound n s \<and> abort s = None"

lemma pool_inv_step:
  assumes "pool_step n s s'" "pool_inv n s" "n \<le> SEM_VALUE_MAX"
  shows "pool_inv n s'"
  using assms(1)
proof cases
  case (by_worker i)
  then show ?thesis using assms(2,3) worker_step_sound worker_step_tasks worker_step_results
    unfolding pool_inv_def by blast
next
  case by_controller
  then show ?thesis using assms(2) controller_step_sound controller_step_tasks controller_step_results
    unfolding pool_inv_def by blast
next
  case by_user
  then show ?thesis using assms(2) user_step_sound user_step_tasks user_step_results
    unfolding pool_inv_def by blast
qed

lemma pool_inv_reach:
  assumes "pool_reach n s0 s" "pool_inv n s0" "n \<le> SEM_VALUE_MAX"
  shows "pool_inv n s"
  using assms(1) by induction (use assms(2,3) pool_inv_step in blast)+

lemma pool_inv_start:
  assumes "workerpool_semaphore wp = n" "\<forall>i<n. workers_data wp i =
      \<lparr>worker_waiting_semaphore = 0, assigned_tsk = None, w_status = CS_WS_WAITING, shutdown = 0\<rparr>"
  shows "pool_inv n (net_of wp)"
proof -
  have "tally n waiting (workers_data wp) = n" using assms(2) by (simp add: tally_full waiting_def)
  moreover have "(\<Sum>i<n. load (workers_data wp i) Idle) = {#}"
    using assms(2) by (simp add: load_def)
  ultimately show ?thesis using assms
    by (simp add: pool_inv_def net_of_def workers_sound_def worker_defs free_sound_def tasks_sound_def
        results_sound_def runs_def)
qed

text \<open>A pool that \<^verbatim>\<open>cs_wp_init\<close> and \<^verbatim>\<open>cs_wp_start\<close> have made satisfies it.\<close>

definition fresh_pool :: "nat \<Rightarrow> ('c, 'i, 'o) cs_workerpool \<Rightarrow> bool" where
  "fresh_pool n wp' \<longleftrightarrow> 0 < n \<and> n \<le> SEM_VALUE_MAX \<and>
     (\<exists>qs name counter wp counter'. 0 \<le> qs \<and> qs \<le> int SEM_VALUE_MAX \<and> 0 \<le> counter \<and>
       cs_wp_init wp_alloc_ok False (int n) qs name counter = Ok (0, Some wp, counter') \<and>
       cs_wp_start (\<lambda>_. True) True wp = (0, wp'))"

lemma fresh_pool_inv:
  assumes "fresh_pool n wp"
  shows "0 < n" "n \<le> SEM_VALUE_MAX" "pool_inv n (net_of wp)"
proof -
  show n: "0 < n" "n \<le> SEM_VALUE_MAX" using assms by (auto simp: fresh_pool_def)
  obtain qs name counter wp0 counter' where f: "0 \<le> qs" "qs \<le> int SEM_VALUE_MAX" "0 \<le> counter"
    "cs_wp_init wp_alloc_ok False (int n) qs name counter = Ok (0, Some wp0, counter')"
    "cs_wp_start (\<lambda>_. True) True wp0 = (0, wp)"
    using assms unfolding fresh_pool_def by blast
  have "workerpool_semaphore wp = n \<and> (\<forall>i<n. workers_data wp i =
      \<lparr>worker_waiting_semaphore = 0, assigned_tsk = None, w_status = CS_WS_WAITING, shutdown = 0\<rparr>)"
    using init_start [OF n f(1-3), of name, where ?'a = 'a and ?'b = 'b and ?'c = 'c] f(4,5) by auto
  then show "pool_inv n (net_of wp)" using pool_inv_start by blast
qed

section \<open>Progress\<close>

lemma worker_enabled:
  assumes "worker_sound (ctl s) i (wk s i) (pc s i)" "pc s i \<noteq> Idle" "pc s i \<noteq> Exited"
  shows "\<exists>s'. worker_step i s s'"
proof (cases "pc s i")
  case Woken
  then show ?thesis using awake_sound [of "ctl s" i "wk s i"] assms(1) w_awake by fastforce
next
  case Checked
  then show ?thesis using take_sound [of "ctl s" i "wk s i"] assms(1) w_take w_exit by fastforce
next
  case (Ran t ex)
  then have st: "w_status (wk s i) = CS_WS_WORKING"
    using running_working [OF assms(1)] by (simp add: busy_pc_def)
  show ?thesis
  proof (cases "sem_post (wpsem s)")
    case None
    then have "worker_release (wk s i) (wpsem s) = Fault Exit_failure" using st by (simp add: worker_release_def)
    then show ?thesis using w_release_abort [of s i t ex] Ran by blast
  next
    case (Some k)
    then show ?thesis using st w_release [of s i t ex _ k] Ran by (fastforce simp: worker_release_def)
  qed
qed (use assms w_run w_record w_signal in blast)+

text \<open>A worker with a unit on its semaphore, or under way, has a step.\<close>

lemma worker_enabled_token:
  assumes "worker_sound (ctl s) i (wk s i) (pc s i)" "pc s i \<noteq> Exited"
    and "w_status (wk s i) = CS_WS_TSK_ASSIGNED \<and> ctl s \<noteq> Notify i \<or> posted (ctl s) i \<or>
      w_status (wk s i) = CS_WS_WORKING"
  shows "\<exists>s'. worker_step i s s'"
proof (cases "pc s i = Idle")
  case True
  have nw: "w_status (wk s i) \<noteq> CS_WS_WORKING" using assms(1) True by (auto simp: worker_defs)
  have "worker_waiting_semaphore (wk s i) \<noteq> 0"
  proof
    assume z: "worker_waiting_semaphore (wk s i) = 0"
    have "worker_waiting_semaphore (wk s i) + (if awake_pc (pc s i) then 1 else 0) =
       (if w_status (wk s i) = CS_WS_TSK_ASSIGNED \<and> ctl s \<noteq> Notify i then 1 else 0) +
       (if posted (ctl s) i \<and> pc s i \<noteq> Exited then 1 else 0)"
      using assms(1) unfolding worker_sound_def by blast
    then show False using z True assms(2,3) nw by (simp add: awake_pc_def split: if_splits)
  qed
  then obtain k where "worker_waiting_semaphore (wk s i) = Suc k" by (cases "worker_waiting_semaphore (wk s i)") auto
  then show ?thesis using w_wait [OF True] wake_iff by blast
next
  case False
  then show ?thesis using worker_enabled [OF assms(1)] assms(2) by blast
qed

lemma progress:
  assumes "pool_inv n s" "0 < n" "ctl s \<noteq> Ended" "ctl s = Fetch \<longrightarrow> tq s \<noteq> [] \<or> qclosed s"
  shows "\<exists>s'. (\<exists>i<n. worker_step i s s') \<or> controller_step n s s'"
proof -
  have ws: "worker_sound (ctl s) i (wk s i) (pc s i)" if "i < n" for i
    using assms(1) that by (auto simp: pool_inv_def workers_sound_def)
  show ?thesis
  proof (cases "ctl s")
    case Fetch
    then show ?thesis using assms(4) c_fetch [OF Fetch] c_null [OF Fetch] by (cases "tq s") blast+
  next
    case (Acquire t)
    show ?thesis
    proof (cases "wpsem s")
      case 0
      then have "\<not> waiting (wk s 0)"
        using assms(1,2) Acquire tally_zero [of n waiting "wk s"] by (auto simp: pool_inv_def free_sound_def)
      then have "pc s 0 \<noteq> Exited \<and> w_status (wk s 0) \<noteq> CS_WS_WAITING \<and> w_status (wk s 0) \<noteq> CS_WS_READY"
        using ws [OF assms(2)] by (auto simp: worker_defs waiting_def)
      then show ?thesis using worker_enabled_token [OF ws [OF assms(2)]] Acquire assms(2)
        by (cases "w_status (wk s 0)") auto
    next
      case (Suc k)
      then show ?thesis using c_acquire [OF Acquire] by (auto simp: sem_wait_def)
    qed
  next
    case (Scan t i)
    then show ?thesis using c_skip c_found c_none by blast
  next
    case (Assign t i)
    then show ?thesis using c_assign [OF Assign] by (simp add: cs_wp_assign_tsk_to_worker_def) blast
  next
    case (Join i)
    show ?thesis
    proof (cases "i < n \<and> pc s i \<noteq> Exited")
      case True
      then show ?thesis using worker_enabled_token [OF ws, of i] Join by auto
    next
      case False
      then show ?thesis using c_join [OF Join] c_end [OF Join] by blast
    qed
  qed (use assms(3) c_notify c_shut c_shut_post c_shut_end in blast)+
qed

section \<open>Properties\<close>


text \<open>
  C9.  Every task that runs was queued and runs once, and a result stored for a task is the
  exit status its run returned.
\<close>

theorem pool_runs_once:
  assumes "fresh_pool n wp" "pool_reach n (net_of wp) s"
  shows "distinct (map fst (ran s)) \<and> set (map fst (ran s)) \<subseteq> set (queued s) \<and>
    (\<forall>t ex. results s t \<noteq> Some ex \<or> (t, ex) \<in> set (ran s))"
proof -
  have inv: "pool_inv n s" using pool_inv_reach [OF assms(2)] fresh_pool_inv [OF assms(1)] by blast
  then have t: "tasks_sound n s" and r: "results_sound n s" by (auto simp: pool_inv_def)
  have sub: "mset (map fst (ran s)) \<subseteq># mset (queued s)" using t by (simp add: tasks_sound_def)
  have "count (mset (map fst (ran s))) x \<le> 1" for x
    using ran_at_most_once [OF t, of x] by (simp add: runs_def)
  then have "distinct (map fst (ran s))"
    by (metis (no_types, lifting) count_eq_zero_iff distinct_count_atmost_1 le_antisym less_one
        not_less set_mset_mset)
  moreover have "set (map fst (ran s)) \<subseteq> set (queued s)"
    using set_mset_mono [OF sub] by simp
  ultimately show ?thesis using results_soundD(1) [OF r] by auto
qed


text \<open>
  C14.  The pool does not deadlock: unless the controller has ended or waits at an open and
  empty queue, the controller or a worker has a step to take.
\<close>

theorem pool_progress:
  assumes "fresh_pool n wp" "pool_reach n (net_of wp) s" "ctl s \<noteq> Ended"
    and "ctl s \<noteq> Fetch \<or> tq s \<noteq> [] \<or> qclosed s"
  shows "\<exists>s'. (\<exists>i<n. worker_step i s s') \<or> controller_step n s s'"
  using progress pool_inv_reach [OF assms(2)] fresh_pool_inv [OF assms(1)] assms(3,4) by blast

text \<open>
  The end of a task wakes one user: of all the users that wait for one task in
  \<^verbatim>\<open>cs_wp_tsk_wait\<close>, at most one returns from the wait.
\<close>

theorem task_wakes_one:
  assumes "fresh_pool n wp" "pool_reach n (net_of wp) s"
  shows "returned s t + tsem s t \<le> 1"
proof -
  have "results_sound n s"
    using pool_inv_reach [OF assms(2)] fresh_pool_inv [OF assms(1)] by (simp add: pool_inv_def)
  then show ?thesis using results_soundD(5) [of n s t] by (auto split: if_splits)
qed

section \<open>A run of one task\<close>

lemma reach_user: "pool_reach n s0 s \<Longrightarrow> abort s = None \<Longrightarrow> user_step s s' \<Longrightarrow> pool_reach n s0 s'"
  by (blast intro: pool_reach.step by_user)

lemma reach_controller:
  "pool_reach n s0 s \<Longrightarrow> abort s = None \<Longrightarrow> controller_step n s s' \<Longrightarrow> pool_reach n s0 s'"
  by (blast intro: pool_reach.step by_controller)

lemma reach_worker:
  "pool_reach n s0 s \<Longrightarrow> abort s = None \<Longrightarrow> i < n \<Longrightarrow> worker_step i s s' \<Longrightarrow> pool_reach n s0 s'"
  by (blast intro: pool_reach.step by_worker)

text \<open>The record of a net, as a function of what changes in the run.\<close>

definition run_net ::
  "(nat \<Rightarrow> worker) \<Rightarrow> int list \<Rightarrow> bool \<Rightarrow> controller_pc \<Rightarrow> nat \<Rightarrow> worker \<Rightarrow> worker_pc \<Rightarrow> int list \<Rightarrow>
   (int \<times> cs_wp_tsk_exit_status) list \<Rightarrow> (int \<rightharpoonup> cs_wp_tsk_exit_status) \<Rightarrow> (int \<Rightarrow> nat) \<Rightarrow> pool_net" where
  "run_net f q cl c k w p qd rn res ts =
     \<lparr>tq = q, qclosed = cl, ctl = c, wpsem = k, wk = f(0 := w), pc = (\<lambda>_. Idle)(0 := p), queued = qd,
      ran = rn, results = res, tsem = ts, waiters = (\<lambda>_. 0), returned = (\<lambda>_. 0), abort = None\<rparr>"

lemmas run_defs = run_net_def cs_wp_get_worker_status_def cs_wp_assign_tsk_to_worker_def wake_def
  worker_awake_def worker_take_def worker_release_def worker_notify_def shutdown_flag_def sem_wait_def
  sem_post_def SEM_VALUE_MAX_def

lemma fresh_pool_exists:
  "\<exists>wp :: (nat, nat, nat) cs_workerpool. fresh_pool 1 wp \<and> workerpool_semaphore wp = 1 \<and>
     workers_data wp 0 = \<lparr>worker_waiting_semaphore = 0, assigned_tsk = None, w_status = CS_WS_WAITING, shutdown = 0\<rparr>"
proof -
  obtain wp wp' :: "(nat, nat, nat) cs_workerpool" where
    "cs_wp_init wp_alloc_ok False (int 1) 10 ''p'' 0 = Ok (0, Some wp, 0 + 1)"
    "cs_wp_start (\<lambda>_. True) True wp = (0, wp')" "workerpool_semaphore wp' = 1"
    "\<forall>i<1. workers_data wp' i =
      \<lparr>worker_waiting_semaphore = 0, assigned_tsk = None, w_status = CS_WS_WAITING, shutdown = 0\<rparr>"
    using init_start [of 1 10 0 "''p''", where ?'a = nat and ?'b = nat and ?'c = nat]
    by (auto simp: SEM_VALUE_MAX_def)
  moreover have "(0::int) \<le> 10 \<and> (10::int) \<le> int SEM_VALUE_MAX \<and> 0 \<le> (0::int)"
    "0 < (1::nat) \<and> (1::nat) \<le> SEM_VALUE_MAX" by (simp_all add: SEM_VALUE_MAX_def)
  ultimately have "fresh_pool 1 wp'" unfolding fresh_pool_def by blast
  then show ?thesis
    using \<open>workerpool_semaphore wp' = 1\<close> \<open>\<forall>i<1. workers_data wp' i = _\<close> by auto
qed

text \<open>A user queues the task;\<close>

lemma run_queue:
  assumes "pool_reach 1 s0 (run_net f [] False Fetch 1 \<lparr>worker_waiting_semaphore = 0, assigned_tsk = None, w_status = CS_WS_WAITING, shutdown = 0\<rparr> Idle [] [] Map.empty (\<lambda>_. 0))"
  shows "pool_reach 1 s0 (run_net f [7] False Fetch 1 \<lparr>worker_waiting_semaphore = 0, assigned_tsk = None, w_status = CS_WS_WAITING, shutdown = 0\<rparr> Idle [7] [] Map.empty (\<lambda>_. 0))"
proof -
  let ?st = "run_net f"
  show ?thesis
    by (rule reach_user [OF assms], simp add: run_net_def,
        use u_enqueue [of "(?st [] False Fetch 1 \<lparr>worker_waiting_semaphore = 0, assigned_tsk = None, w_status = CS_WS_WAITING, shutdown = 0\<rparr> Idle [] [] Map.empty (\<lambda>_. 0))" 7] in \<open>simp add: run_defs\<close>)
qed

text \<open>the controller assigns it, the queue is closed;\<close>

lemma run_assign:
  assumes "pool_reach 1 s0 (run_net f [7] False Fetch 1 \<lparr>worker_waiting_semaphore = 0, assigned_tsk = None, w_status = CS_WS_WAITING, shutdown = 0\<rparr> Idle [7] [] Map.empty (\<lambda>_. 0))"
  shows "pool_reach 1 s0 (run_net f [] True Fetch 0 \<lparr>worker_waiting_semaphore = 1, assigned_tsk = Some 7, w_status = CS_WS_TSK_ASSIGNED, shutdown = 0\<rparr> Idle [7] [] Map.empty (\<lambda>_. 0))"
proof -
  let ?st = "run_net f"
  have r2: "pool_reach 1 s0 (?st [] False (Acquire 7) 1 \<lparr>worker_waiting_semaphore = 0, assigned_tsk = None, w_status = CS_WS_WAITING, shutdown = 0\<rparr> Idle [7] [] Map.empty (\<lambda>_. 0))"
    by (rule reach_controller [OF assms], simp add: run_net_def,
        use c_fetch [of "(?st [7] False Fetch 1 \<lparr>worker_waiting_semaphore = 0, assigned_tsk = None, w_status = CS_WS_WAITING, shutdown = 0\<rparr> Idle [7] [] Map.empty (\<lambda>_. 0))" 7 "[]" 1] in \<open>simp add: run_defs\<close>)
  have r3: "pool_reach 1 s0 (?st [] False (Scan 7 0) 0 \<lparr>worker_waiting_semaphore = 0, assigned_tsk = None, w_status = CS_WS_WAITING, shutdown = 0\<rparr> Idle [7] [] Map.empty (\<lambda>_. 0))"
    by (rule reach_controller [OF r2], simp add: run_net_def,
        use c_acquire [of "(?st [] False (Acquire 7) 1 \<lparr>worker_waiting_semaphore = 0, assigned_tsk = None, w_status = CS_WS_WAITING, shutdown = 0\<rparr> Idle [7] [] Map.empty (\<lambda>_. 0))" 7 0 1] in \<open>simp add: run_defs\<close>)
  have r4: "pool_reach 1 s0 (?st [] False (Assign 7 0) 0 \<lparr>worker_waiting_semaphore = 0, assigned_tsk = None, w_status = CS_WS_WAITING, shutdown = 0\<rparr> Idle [7] [] Map.empty (\<lambda>_. 0))"
    by (rule reach_controller [OF r3], simp add: run_net_def,
        use c_found [of "(?st [] False (Scan 7 0) 0 \<lparr>worker_waiting_semaphore = 0, assigned_tsk = None, w_status = CS_WS_WAITING, shutdown = 0\<rparr> Idle [7] [] Map.empty (\<lambda>_. 0))" 7 0 1] in \<open>simp add: run_defs\<close>)
  have r5: "pool_reach 1 s0 (?st [] False (Notify 0) 0 \<lparr>worker_waiting_semaphore = 0, assigned_tsk = Some 7, w_status = CS_WS_TSK_ASSIGNED, shutdown = 0\<rparr> Idle [7] [] Map.empty (\<lambda>_. 0))"
    by (rule reach_controller [OF r4], simp add: run_net_def,
        use c_assign [of "(?st [] False (Assign 7 0) 0 \<lparr>worker_waiting_semaphore = 0, assigned_tsk = None, w_status = CS_WS_WAITING, shutdown = 0\<rparr> Idle [7] [] Map.empty (\<lambda>_. 0))" 7 0 "\<lparr>worker_waiting_semaphore = 0, assigned_tsk = Some 7, w_status = CS_WS_TSK_ASSIGNED, shutdown = 0\<rparr>" 1] in \<open>simp add: run_defs\<close>)
  have r6: "pool_reach 1 s0 (?st [] False Fetch 0 \<lparr>worker_waiting_semaphore = 1, assigned_tsk = Some 7, w_status = CS_WS_TSK_ASSIGNED, shutdown = 0\<rparr> Idle [7] [] Map.empty (\<lambda>_. 0))"
    by (rule reach_controller [OF r5], simp add: run_net_def,
        use c_notify [of "(?st [] False (Notify 0) 0 \<lparr>worker_waiting_semaphore = 0, assigned_tsk = Some 7, w_status = CS_WS_TSK_ASSIGNED, shutdown = 0\<rparr> Idle [7] [] Map.empty (\<lambda>_. 0))" 0 1] in \<open>simp add: run_defs\<close>)
  show ?thesis
    by (rule reach_user [OF r6], simp add: run_net_def,
        use u_close [of "(?st [] False Fetch 0 \<lparr>worker_waiting_semaphore = 1, assigned_tsk = Some 7, w_status = CS_WS_TSK_ASSIGNED, shutdown = 0\<rparr> Idle [7] [] Map.empty (\<lambda>_. 0))" ] in \<open>simp add: run_defs\<close>)
qed

text \<open>the worker performs it while the controller starts to shut down;\<close>

lemma run_work:
  assumes "pool_reach 1 s0 (run_net f [] True Fetch 0 \<lparr>worker_waiting_semaphore = 1, assigned_tsk = Some 7, w_status = CS_WS_TSK_ASSIGNED, shutdown = 0\<rparr> Idle [7] [] Map.empty (\<lambda>_. 0))"
  shows "pool_reach 1 s0 (run_net f [] True (Shut_post 0) 1 \<lparr>worker_waiting_semaphore = 0, assigned_tsk = None, w_status = CS_WS_WAITING, shutdown = 1\<rparr> (Recorded 7) [7] [(7, CS_TSK_ERROR)] [7 \<mapsto> CS_TSK_ERROR] (\<lambda>_. 0))"
proof -
  let ?st = "run_net f"
  have r8: "pool_reach 1 s0 (?st [] True Fetch 0 \<lparr>worker_waiting_semaphore = 0, assigned_tsk = Some 7, w_status = CS_WS_TSK_ASSIGNED, shutdown = 0\<rparr> Woken [7] [] Map.empty (\<lambda>_. 0))"
    by (rule reach_worker [OF assms, of 0], simp add: run_net_def, simp,
        use w_wait [of "(?st [] True Fetch 0 \<lparr>worker_waiting_semaphore = 1, assigned_tsk = Some 7, w_status = CS_WS_TSK_ASSIGNED, shutdown = 0\<rparr> Idle [7] [] Map.empty (\<lambda>_. 0))" 0 "\<lparr>worker_waiting_semaphore = 0, assigned_tsk = Some 7, w_status = CS_WS_TSK_ASSIGNED, shutdown = 0\<rparr>"] in \<open>simp add: run_defs\<close>)
  have r9: "pool_reach 1 s0 (?st [] True Fetch 0 \<lparr>worker_waiting_semaphore = 0, assigned_tsk = Some 7, w_status = CS_WS_TSK_ASSIGNED, shutdown = 0\<rparr> Checked [7] [] Map.empty (\<lambda>_. 0))"
    by (rule reach_worker [OF r8, of 0], simp add: run_net_def, simp,
        use w_awake [of "(?st [] True Fetch 0 \<lparr>worker_waiting_semaphore = 0, assigned_tsk = Some 7, w_status = CS_WS_TSK_ASSIGNED, shutdown = 0\<rparr> Woken [7] [] Map.empty (\<lambda>_. 0))" 0 "()"] in \<open>simp add: run_defs\<close>)
  have r10: "pool_reach 1 s0 (?st [] True Fetch 0 \<lparr>worker_waiting_semaphore = 0, assigned_tsk = Some 7, w_status = CS_WS_WORKING, shutdown = 0\<rparr> (Running 7) [7] [] Map.empty (\<lambda>_. 0))"
    by (rule reach_worker [OF r9, of 0], simp add: run_net_def, simp,
        use w_take [of "(?st [] True Fetch 0 \<lparr>worker_waiting_semaphore = 0, assigned_tsk = Some 7, w_status = CS_WS_TSK_ASSIGNED, shutdown = 0\<rparr> Checked [7] [] Map.empty (\<lambda>_. 0))" 0 7 "\<lparr>worker_waiting_semaphore = 0, assigned_tsk = Some 7, w_status = CS_WS_WORKING, shutdown = 0\<rparr>"] in \<open>simp add: run_defs\<close>)
  have r11: "pool_reach 1 s0 (?st [] True Fetch 0 \<lparr>worker_waiting_semaphore = 0, assigned_tsk = Some 7, w_status = CS_WS_WORKING, shutdown = 0\<rparr> (Ran 7 CS_TSK_ERROR) [7] [(7, CS_TSK_ERROR)] Map.empty (\<lambda>_. 0))"
    by (rule reach_worker [OF r10, of 0], simp add: run_net_def, simp,
        use w_run [of "(?st [] True Fetch 0 \<lparr>worker_waiting_semaphore = 0, assigned_tsk = Some 7, w_status = CS_WS_WORKING, shutdown = 0\<rparr> (Running 7) [7] [] Map.empty (\<lambda>_. 0))" 0 7 CS_TSK_ERROR] in \<open>simp add: run_defs\<close>)
  have r12: "pool_reach 1 s0 (?st [] True (Shut 0) 0 \<lparr>worker_waiting_semaphore = 0, assigned_tsk = Some 7, w_status = CS_WS_WORKING, shutdown = 0\<rparr> (Ran 7 CS_TSK_ERROR) [7] [(7, CS_TSK_ERROR)] Map.empty (\<lambda>_. 0))"
    by (rule reach_controller [OF r11], simp add: run_net_def,
        use c_null [of "(?st [] True Fetch 0 \<lparr>worker_waiting_semaphore = 0, assigned_tsk = Some 7, w_status = CS_WS_WORKING, shutdown = 0\<rparr> (Ran 7 CS_TSK_ERROR) [7] [(7, CS_TSK_ERROR)] Map.empty (\<lambda>_. 0))" 1] in \<open>simp add: run_defs\<close>)
  have r13: "pool_reach 1 s0 (?st [] True (Shut 0) 1 \<lparr>worker_waiting_semaphore = 0, assigned_tsk = None, w_status = CS_WS_WAITING, shutdown = 0\<rparr> (Released 7 CS_TSK_ERROR) [7] [(7, CS_TSK_ERROR)] Map.empty (\<lambda>_. 0))"
    by (rule reach_worker [OF r12, of 0], simp add: run_net_def, simp,
        use w_release [of "(?st [] True (Shut 0) 0 \<lparr>worker_waiting_semaphore = 0, assigned_tsk = Some 7, w_status = CS_WS_WORKING, shutdown = 0\<rparr> (Ran 7 CS_TSK_ERROR) [7] [(7, CS_TSK_ERROR)] Map.empty (\<lambda>_. 0))" 0 7 CS_TSK_ERROR "\<lparr>worker_waiting_semaphore = 0, assigned_tsk = None, w_status = CS_WS_WAITING, shutdown = 0\<rparr>" 1] in \<open>simp add: run_defs\<close>)
  have r14: "pool_reach 1 s0 (?st [] True (Shut_post 0) 1 \<lparr>worker_waiting_semaphore = 0, assigned_tsk = None, w_status = CS_WS_WAITING, shutdown = 1\<rparr> (Released 7 CS_TSK_ERROR) [7] [(7, CS_TSK_ERROR)] Map.empty (\<lambda>_. 0))"
    by (rule reach_controller [OF r13], simp add: run_net_def,
        use c_shut [of "(?st [] True (Shut 0) 1 \<lparr>worker_waiting_semaphore = 0, assigned_tsk = None, w_status = CS_WS_WAITING, shutdown = 0\<rparr> (Released 7 CS_TSK_ERROR) [7] [(7, CS_TSK_ERROR)] Map.empty (\<lambda>_. 0))" 0 1] in \<open>simp add: run_defs\<close>)
  show ?thesis
    by (rule reach_worker [OF r14, of 0], simp add: run_net_def, simp,
        use w_record [of "(?st [] True (Shut_post 0) 1 \<lparr>worker_waiting_semaphore = 0, assigned_tsk = None, w_status = CS_WS_WAITING, shutdown = 1\<rparr> (Released 7 CS_TSK_ERROR) [7] [(7, CS_TSK_ERROR)] Map.empty (\<lambda>_. 0))" 0 7 CS_TSK_ERROR] in \<open>simp add: run_defs\<close>)
qed

text \<open>the worker signals the end of the task and exits.\<close>

lemma run_end:
  assumes "pool_reach 1 s0 (run_net f [] True (Shut_post 0) 1 \<lparr>worker_waiting_semaphore = 0, assigned_tsk = None, w_status = CS_WS_WAITING, shutdown = 1\<rparr> (Recorded 7) [7] [(7, CS_TSK_ERROR)] [7 \<mapsto> CS_TSK_ERROR] (\<lambda>_. 0))"
  shows "pool_reach 1 s0 (run_net f [] True Ended 1 \<lparr>worker_waiting_semaphore = 0, assigned_tsk = None, w_status = CS_WS_WAITING, shutdown = 1\<rparr> Exited [7] [(7, CS_TSK_ERROR)] [7 \<mapsto> CS_TSK_ERROR] ((\<lambda>_. 0)(7 := 1)))"
proof -
  let ?st = "run_net f"
  have r16: "pool_reach 1 s0 (?st [] True (Shut 1) 1 \<lparr>worker_waiting_semaphore = 1, assigned_tsk = None, w_status = CS_WS_WAITING, shutdown = 1\<rparr> (Recorded 7) [7] [(7, CS_TSK_ERROR)] [7 \<mapsto> CS_TSK_ERROR] (\<lambda>_. 0))"
    by (rule reach_controller [OF assms], simp add: run_net_def,
        use c_shut_post [of "(?st [] True (Shut_post 0) 1 \<lparr>worker_waiting_semaphore = 0, assigned_tsk = None, w_status = CS_WS_WAITING, shutdown = 1\<rparr> (Recorded 7) [7] [(7, CS_TSK_ERROR)] [7 \<mapsto> CS_TSK_ERROR] (\<lambda>_. 0))" 0 1] in \<open>simp add: run_defs\<close>)
  have r17: "pool_reach 1 s0 (?st [] True (Shut 1) 1 \<lparr>worker_waiting_semaphore = 1, assigned_tsk = None, w_status = CS_WS_WAITING, shutdown = 1\<rparr> Idle [7] [(7, CS_TSK_ERROR)] [7 \<mapsto> CS_TSK_ERROR] ((\<lambda>_. 0)(7 := 1)))"
    by (rule reach_worker [OF r16, of 0], simp add: run_net_def, simp,
        use w_signal [of "(?st [] True (Shut 1) 1 \<lparr>worker_waiting_semaphore = 1, assigned_tsk = None, w_status = CS_WS_WAITING, shutdown = 1\<rparr> (Recorded 7) [7] [(7, CS_TSK_ERROR)] [7 \<mapsto> CS_TSK_ERROR] (\<lambda>_. 0))" 0 7] in \<open>simp add: run_defs\<close>)
  have r18: "pool_reach 1 s0 (?st [] True (Join 0) 1 \<lparr>worker_waiting_semaphore = 1, assigned_tsk = None, w_status = CS_WS_WAITING, shutdown = 1\<rparr> Idle [7] [(7, CS_TSK_ERROR)] [7 \<mapsto> CS_TSK_ERROR] ((\<lambda>_. 0)(7 := 1)))"
    by (rule reach_controller [OF r17], simp add: run_net_def,
        use c_shut_end [of "(?st [] True (Shut 1) 1 \<lparr>worker_waiting_semaphore = 1, assigned_tsk = None, w_status = CS_WS_WAITING, shutdown = 1\<rparr> Idle [7] [(7, CS_TSK_ERROR)] [7 \<mapsto> CS_TSK_ERROR] ((\<lambda>_. 0)(7 := 1)))" 1 1] in \<open>simp add: run_defs\<close>)
  have r19: "pool_reach 1 s0 (?st [] True (Join 0) 1 \<lparr>worker_waiting_semaphore = 0, assigned_tsk = None, w_status = CS_WS_WAITING, shutdown = 1\<rparr> Woken [7] [(7, CS_TSK_ERROR)] [7 \<mapsto> CS_TSK_ERROR] ((\<lambda>_. 0)(7 := 1)))"
    by (rule reach_worker [OF r18, of 0], simp add: run_net_def, simp,
        use w_wait [of "(?st [] True (Join 0) 1 \<lparr>worker_waiting_semaphore = 1, assigned_tsk = None, w_status = CS_WS_WAITING, shutdown = 1\<rparr> Idle [7] [(7, CS_TSK_ERROR)] [7 \<mapsto> CS_TSK_ERROR] ((\<lambda>_. 0)(7 := 1)))" 0 "\<lparr>worker_waiting_semaphore = 0, assigned_tsk = None, w_status = CS_WS_WAITING, shutdown = 1\<rparr>"] in \<open>simp add: run_defs\<close>)
  have r20: "pool_reach 1 s0 (?st [] True (Join 0) 1 \<lparr>worker_waiting_semaphore = 0, assigned_tsk = None, w_status = CS_WS_WAITING, shutdown = 1\<rparr> Checked [7] [(7, CS_TSK_ERROR)] [7 \<mapsto> CS_TSK_ERROR] ((\<lambda>_. 0)(7 := 1)))"
    by (rule reach_worker [OF r19, of 0], simp add: run_net_def, simp,
        use w_awake [of "(?st [] True (Join 0) 1 \<lparr>worker_waiting_semaphore = 0, assigned_tsk = None, w_status = CS_WS_WAITING, shutdown = 1\<rparr> Woken [7] [(7, CS_TSK_ERROR)] [7 \<mapsto> CS_TSK_ERROR] ((\<lambda>_. 0)(7 := 1)))" 0 "()"] in \<open>simp add: run_defs\<close>)
  have r21: "pool_reach 1 s0 (?st [] True (Join 0) 1 \<lparr>worker_waiting_semaphore = 0, assigned_tsk = None, w_status = CS_WS_WAITING, shutdown = 1\<rparr> Exited [7] [(7, CS_TSK_ERROR)] [7 \<mapsto> CS_TSK_ERROR] ((\<lambda>_. 0)(7 := 1)))"
    by (rule reach_worker [OF r20, of 0], simp add: run_net_def, simp,
        use w_exit [of "(?st [] True (Join 0) 1 \<lparr>worker_waiting_semaphore = 0, assigned_tsk = None, w_status = CS_WS_WAITING, shutdown = 1\<rparr> Checked [7] [(7, CS_TSK_ERROR)] [7 \<mapsto> CS_TSK_ERROR] ((\<lambda>_. 0)(7 := 1)))" 0 "\<lparr>worker_waiting_semaphore = 0, assigned_tsk = None, w_status = CS_WS_WAITING, shutdown = 1\<rparr>"] in \<open>simp add: run_defs\<close>)
  have r22: "pool_reach 1 s0 (?st [] True (Join 1) 1 \<lparr>worker_waiting_semaphore = 0, assigned_tsk = None, w_status = CS_WS_WAITING, shutdown = 1\<rparr> Exited [7] [(7, CS_TSK_ERROR)] [7 \<mapsto> CS_TSK_ERROR] ((\<lambda>_. 0)(7 := 1)))"
    by (rule reach_controller [OF r21], simp add: run_net_def,
        use c_join [of "(?st [] True (Join 0) 1 \<lparr>worker_waiting_semaphore = 0, assigned_tsk = None, w_status = CS_WS_WAITING, shutdown = 1\<rparr> Exited [7] [(7, CS_TSK_ERROR)] [7 \<mapsto> CS_TSK_ERROR] ((\<lambda>_. 0)(7 := 1)))" 0 1] in \<open>simp add: run_defs\<close>)
  show ?thesis
    by (rule reach_controller [OF r22], simp add: run_net_def,
        use c_end [of "(?st [] True (Join 1) 1 \<lparr>worker_waiting_semaphore = 0, assigned_tsk = None, w_status = CS_WS_WAITING, shutdown = 1\<rparr> Exited [7] [(7, CS_TSK_ERROR)] [7 \<mapsto> CS_TSK_ERROR] ((\<lambda>_. 0)(7 := 1)))" 1 1] in \<open>simp add: run_defs\<close>)
qed

lemma one_task_run:
  "\<exists>(wp :: (nat, nat, nat) cs_workerpool) s1 s. fresh_pool 1 wp \<and>
     pool_reach 1 (net_of wp) s1 \<and> ctl s1 = Fetch \<and> tq s1 = [7] \<and>
     pool_reach 1 (net_of wp) s \<and> ctl s = Ended \<and> queued s = [7] \<and> ran s = [(7, CS_TSK_ERROR)] \<and>
     results s 7 = Some CS_TSK_ERROR \<and> tsem s 7 = 1"
proof -
  obtain wp :: "(nat, nat, nat) cs_workerpool" where wp: "fresh_pool 1 wp" "workerpool_semaphore wp = 1"
    "workers_data wp 0 = \<lparr>worker_waiting_semaphore = 0, assigned_tsk = None, w_status = CS_WS_WAITING, shutdown = 0\<rparr>"
    using fresh_pool_exists by blast
  let ?s0 = "run_net (workers_data wp) [] False Fetch 1 \<lparr>worker_waiting_semaphore = 0, assigned_tsk = None, w_status = CS_WS_WAITING, shutdown = 0\<rparr> Idle [] [] Map.empty (\<lambda>_. 0)"
  have "net_of wp = ?s0"
    using wp by (simp add: net_of_def run_net_def fun_upd_idem)
  then have r0: "pool_reach 1 (net_of wp) ?s0" using pool_reach.start by metis
  have r1: "pool_reach 1 (net_of wp) (run_net (workers_data wp) [7] False Fetch 1 \<lparr>worker_waiting_semaphore = 0, assigned_tsk = None, w_status = CS_WS_WAITING, shutdown = 0\<rparr> Idle [7] [] Map.empty (\<lambda>_. 0))" by (rule run_queue [OF r0])
  have "pool_reach 1 (net_of wp) (run_net (workers_data wp) [] True Ended 1 \<lparr>worker_waiting_semaphore = 0, assigned_tsk = None, w_status = CS_WS_WAITING, shutdown = 1\<rparr> Exited [7] [(7, CS_TSK_ERROR)] [7 \<mapsto> CS_TSK_ERROR] ((\<lambda>_. 0)(7 := 1)))" by (rule run_end [OF run_work [OF run_assign [OF r1]]])
  then show ?thesis using wp(1) r1 unfolding run_net_def by fastforce
qed


lemma pool_runs_once_witness:
  "\<exists>(wp :: (nat, nat, nat) cs_workerpool) s. pool_reach 1 (net_of wp) s \<and> ran s = [(7, CS_TSK_ERROR)] \<and>
     distinct (map fst (ran s)) \<and> 7 \<in> set (queued s)"
proof -
  obtain wp :: "(nat, nat, nat) cs_workerpool" and s where
    "fresh_pool 1 wp" "pool_reach 1 (net_of wp) s" "ran s = [(7, CS_TSK_ERROR)]"
    using one_task_run by blast
  then show ?thesis using pool_runs_once [of 1 wp s]
    by (intro exI [of _ wp] exI [of _ s]) auto
qed


lemma pool_progress_witness:
  "\<exists>(wp :: (nat, nat, nat) cs_workerpool) s. pool_reach 1 (net_of wp) s \<and> ctl s = Fetch \<and> tq s = [7] \<and>
     (\<exists>s'. worker_step 0 s s' \<or> controller_step 1 s s')"
proof -
  obtain wp :: "(nat, nat, nat) cs_workerpool" and s where
    "fresh_pool 1 wp" "pool_reach 1 (net_of wp) s" "ctl s = Fetch" "tq s = [7]"
    using one_task_run by blast
  then show ?thesis using pool_progress [of 1 wp s]
    by (intro exI [of _ wp] exI [of _ s]) auto
qed

lemma task_wakes_one_witness:
  "\<exists>(wp :: (nat, nat, nat) cs_workerpool) s. pool_reach 1 (net_of wp) s \<and> tsem s 7 = 1 \<and> returned s 7 = 0"
proof -
  obtain wp :: "(nat, nat, nat) cs_workerpool" and s where
    "fresh_pool 1 wp" "pool_reach 1 (net_of wp) s" "tsem s 7 = 1"
    using one_task_run by blast
  then show ?thesis using task_wakes_one [of 1 wp s 7]
    by (intro exI [of _ wp] exI [of _ s]) auto
qed

end
