(* ===== verification/CS_Events.thy ===== *)
theory CS_Events
  imports CS_Event_Tree CS_Tasks "HOL-Library.Signed_Division" "HOL-Library.Multiset"
begin

text \<open>
  The event manager of \<open>src/cs_events.c\<close> around its two tables: creation, the controller
  that pops the events of a clock value and deals them out to the workers of its pool
  (\<^verbatim>\<open>_ev_controller\<close>, \<^verbatim>\<open>_cs_ev_update_guards\<close>), the workers that raise them (\<^verbatim>\<open>_ev_worker\<close>), and the
  flags by which other threads stop the controller or wait for it.
\<close>

section \<open>Dealing out a list\<close>

text \<open>
  The inner loop of \<^verbatim>\<open>_cs_ev_update_guards\<close>: \<open>hops\<close> steps along the list, fewer at its end.  A
  pointer into the list is the suffix it starts.
\<close>

fun advance :: "nat \<Rightarrow> 'e list \<Rightarrow> 'e list outcome" where
  "advance 0 ptr = Ok ptr"
| "advance (Suc j) [] = Fault Null_dereference"
| "advance (Suc j) [e] = Ok [e]"
| "advance (Suc j) (e # f # es) = advance j (f # es)"

fun guards_loop :: "nat \<Rightarrow> nat \<Rightarrow> 'e list \<Rightarrow> 'e list list outcome" where
  "guards_loop 0 hops ptr = Ok []"
| "guards_loop (Suc i) hops ptr =
     obind (advance hops ptr) (\<lambda>ptr'. obind (guards_loop i hops ptr') (\<lambda>gs. Ok (ptr # gs)))"

definition cs_ev_update_guards ::
  "bool \<Rightarrow> 'd cs_event_list \<Rightarrow> int \<Rightarrow> ('d cs_event_list \<times> int) outcome" where
  "cs_ev_update_guards alloc ev_list nguards =
     (if nguards = 0 then Fault Division_by_zero
      else
        (let q = ev_count ev_list sdiv nguards; hops = (if 1 > q then 1 else q) in
         if \<not> alloc \<and> nguards > 0 then Fault Null_dereference
         else obind (guards_loop (nat nguards) (nat hops) (ev_items ev_list))
           (\<lambda>gs. Ok (ev_list\<lparr>guards := gs\<rparr>, hops))))"

text \<open>The arguments of task \<open>c\<close>, and the tasks of a round.\<close>

record event_worker_data =
  guard_index :: nat
  num_events :: int

definition worker_args :: "int \<Rightarrow> int \<Rightarrow> int \<Rightarrow> nat \<Rightarrow> event_worker_data" where
  "worker_args ntasks hops cnt c =
     \<lparr>guard_index = c, num_events = (if int c < ntasks - 1 then hops else cnt - (ntasks - 1) * hops)\<rparr>"

definition round_tasks :: "int \<Rightarrow> int \<Rightarrow> int \<Rightarrow> event_worker_data list" where
  "round_tasks ntasks hops bound =
     map (worker_args ntasks hops bound) [0..<nat (if ntasks < bound then ntasks else bound)]"

text \<open>\<^verbatim>\<open>_ev_worker\<close>: it throws \<open>num_events\<close> events from its guard on, or calls \<^verbatim>\<open>exit\<close> at a null pointer.\<close>

fun ev_worker_loop ::
  "('d, 'h, 'w) run_handler \<Rightarrow> nat \<Rightarrow> 'd cs_event list \<Rightarrow> ('d, 'h, 'w) cs_event_manager \<Rightarrow>
   ('d, 'h, 'w) cs_event_manager outcome" where
  "ev_worker_loop run 0 cur_ev evm = Ok evm"
| "ev_worker_loop run (Suc c) [] evm = Fault Exit_failure"
| "ev_worker_loop run (Suc c) (e # es) evm =
     obind (cs_evm_throw_event run evm (Some e)) (\<lambda>(_, evm). ev_worker_loop run c es evm)"

definition ev_worker ::
  "('d, 'h, 'w) run_handler \<Rightarrow> 'd cs_event_list \<Rightarrow> event_worker_data \<Rightarrow> ('d, 'h, 'w) cs_event_manager \<Rightarrow>
   (cs_wp_tsk_exit_status \<times> ('d, 'h, 'w) cs_event_manager) outcome" where
  "ev_worker run ev_list args evm =
     (if guard_index args < length (guards ev_list) then
        obind (ev_worker_loop run (nat (num_events args)) (guards ev_list ! guard_index args) evm)
          (\<lambda>evm. Ok (CS_TSK_SUCCESS, evm))
      else Fault Dangling_pointer)"

section \<open>Flags and completion\<close>

definition should_stop_controller :: "('d, 'h, 'w) cs_event_manager \<Rightarrow> int" where
  "should_stop_controller evm = ev_stop evm"

definition cs_evm_stop_controller ::
  "('d, 'h, 'w) cs_event_manager \<Rightarrow> ('d, 'h, 'w) cs_event_manager" where
  "cs_evm_stop_controller evm = evm\<lparr>ev_stop := 1\<rparr>"

definition evm_set_running ::
  "('d, 'h, 'w) cs_event_manager \<Rightarrow> ('d, 'h, 'w) cs_event_manager" where
  "evm_set_running evm = evm\<lparr>running := 1\<rparr>"

definition evm_set_not_running ::
  "('d, 'h, 'w) cs_event_manager \<Rightarrow> ('d, 'h, 'w) cs_event_manager" where
  "evm_set_not_running evm = evm\<lparr>running := 0\<rparr>"

definition cs_evm_running :: "('d, 'h, 'w) cs_event_manager \<Rightarrow> int" where
  "cs_evm_running evm = running evm"

text \<open>\<^verbatim>\<open>wait_event_completion\<close>: does the caller wait on the condition variable?  Once woken it
  returns without a second test.\<close>

definition wait_event_completion :: "('d, 'h, 'w) cs_event_manager \<Rightarrow> cs_clockv \<Rightarrow> bool" where
  "wait_event_completion evm clk \<longleftrightarrow> sint (last_completion evm) < sint clk"

definition signal_event_completion ::
  "('d, 'h, 'w) cs_event_manager \<Rightarrow> cs_clockv \<Rightarrow> ('d, 'h, 'w) cs_event_manager" where
  "signal_event_completion evm clk = evm\<lparr>last_completion := clk\<rparr>"

section \<open>The controller\<close>

text \<open>
  One turn of the loop of \<^verbatim>\<open>_ev_controller\<close>, given what \<^verbatim>\<open>cs_time_sync\<close> returned and the clock
  read after it: it leaves the loop, starts the next turn, has nothing to raise, or hands out
  the tasks of a round, which it waits for.  The last two end with
  \<^verbatim>\<open>_signal_event_completion\<close>.
\<close>

datatype 'd round =
    Round_break
  | Round_continue
  | Round_empty
  | Round_tasks "'d cs_event_list" "event_worker_data list"

definition ev_controller_round ::
  "bool \<Rightarrow> int \<Rightarrow> cs_clockv \<Rightarrow> ('d, 'h, 'w) cs_event_manager \<Rightarrow>
   ('d round \<times> ('d, 'h, 'w) cs_event_manager) outcome" where
  "ev_controller_round alloc ret_sync cur_time evm =
     (if ret_sync < 0 then Ok (Round_break, evm)
      else if should_stop_controller evm \<noteq> 0 then Ok (Round_break, evm)
      else if sint (start_time evm) > sint cur_time then Ok (Round_continue, evm)
      else
        obind (pop_events evm cur_time)
          (\<lambda>(found, evm).
            case found of
              None \<Rightarrow> Ok (Round_empty, evm)
            | Some l \<Rightarrow>
                if ev_count l > 0 then
                  obind (cs_ev_update_guards alloc l (nworkers evm - 1))
                    (\<lambda>(l, hops). Ok (Round_tasks l (round_tasks (nworkers evm - 1) hops (ev_count l)), evm))
                else Ok (Round_empty, evm)))"

section \<open>A round, interleaved\<close>

text \<open>
  The tasks of a round run on the workers of the pool at the same time: \<open>work w\<close> is how many
  events task \<open>w\<close> has left and its pointer \<open>cur_ev\<close>; \<open>raised\<close> records the events thrown.
\<close>

record ('d, 'h, 'w) ev_net =
  mgr :: "('d, 'h, 'w) cs_event_manager"
  work :: "nat \<Rightarrow> nat \<times> 'd cs_event list"
  raised :: "'d cs_event list"
  failed :: "fault option"

inductive ev_step ::
  "('d, 'h, 'w) run_handler \<Rightarrow> nat \<Rightarrow> ('d, 'h, 'w) ev_net \<Rightarrow> ('d, 'h, 'w) ev_net \<Rightarrow> bool" for run m where
  raise: "failed s = None \<Longrightarrow> w < m \<Longrightarrow> work s w = (Suc k, e # es) \<Longrightarrow>
    cs_evm_throw_event run (mgr s) (Some e) = Ok (st, v) \<Longrightarrow>
    ev_step run m s (s\<lparr>mgr := v, work := (work s)(w := (k, es)), raised := raised s @ [e]\<rparr>)"
| raise_fault: "failed s = None \<Longrightarrow> w < m \<Longrightarrow> work s w = (Suc k, e # es) \<Longrightarrow>
    cs_evm_throw_event run (mgr s) (Some e) = Fault f \<Longrightarrow>
    ev_step run m s (s\<lparr>failed := Some f\<rparr>)"
| run_out: "failed s = None \<Longrightarrow> w < m \<Longrightarrow> work s w = (Suc k, []) \<Longrightarrow>
    ev_step run m s (s\<lparr>failed := Some Exit_failure\<rparr>)"

inductive ev_steps ::
  "('d, 'h, 'w) run_handler \<Rightarrow> nat \<Rightarrow> ('d, 'h, 'w) ev_net \<Rightarrow> ('d, 'h, 'w) ev_net \<Rightarrow> bool" for run m s0 where
  none: "ev_steps run m s0 s0"
| more: "ev_steps run m s0 s \<Longrightarrow> ev_step run m s s' \<Longrightarrow> ev_steps run m s0 s'"

inductive_cases ev_stepE: "ev_step run m s s'"

definition round_net ::
  "('d, 'h, 'w) cs_event_manager \<Rightarrow> 'd cs_event_list \<Rightarrow> event_worker_data list \<Rightarrow> ('d, 'h, 'w) ev_net" where
  "round_net v l args = \<lparr>mgr = v,
     work = (\<lambda>w. if w < length args then (nat (num_events (args ! w)), guards l ! guard_index (args ! w))
                 else (0, [])),
     raised = [], failed = None\<rparr>"

text \<open>The events task \<open>w\<close> has still to throw; a round is over when no task has any left.\<close>

definition left_of :: "nat \<times> 'e list \<Rightarrow> 'e list" where
  "left_of p = take (fst p) (snd p)"

definition round_over :: "nat \<Rightarrow> ('d, 'h, 'w) ev_net \<Rightarrow> bool" where
  "round_over m s \<longleftrightarrow> (\<forall>w<m. fst (work s w) = 0)"

section \<open>The guards\<close>

lemma advance_drop:
  "ptr \<noteq> [] \<Longrightarrow> advance h ptr = Ok (drop (min h (length ptr - 1)) ptr)"
  by (induction h ptr rule: advance.induct) (auto simp: min_def)

lemma guards_loop_drop:
  "ptr \<noteq> [] \<Longrightarrow>
   guards_loop n h ptr = Ok (map (\<lambda>i. drop (min (i * h) (length ptr - 1)) ptr) [0..<n])"
proof (induction n arbitrary: ptr)
  case (Suc n)
  let ?m = "min h (length ptr - 1)"
  have ne: "drop ?m ptr \<noteq> []" using Suc.prems by (cases ptr) (auto simp: min_def)
  have "min (i * h) (length (drop ?m ptr) - 1) + ?m = min (Suc i * h) (length ptr - 1)" for i
    by (auto simp: min_def)
  then have "map (\<lambda>i. drop (min (i * h) (length (drop ?m ptr) - 1)) (drop ?m ptr)) [0..<n] =
      map (\<lambda>i. drop (min (Suc i * h) (length ptr - 1)) ptr) [0..<n]"
    by (simp del: length_drop mult_Suc)
  moreover have "map (\<lambda>i. drop (min (i * h) (length ptr - 1)) ptr) [0..<Suc n] =
      ptr # map (\<lambda>i. drop (min (Suc i * h) (length ptr - 1)) ptr) [0..<n]"
    by (simp add: map_upt_Suc del: upt_Suc mult_Suc)
  ultimately show ?case using Suc.IH [OF ne] advance_drop [OF Suc.prems, of h]
    by (simp del: upt_Suc length_drop mult_Suc)
qed simp

text \<open>Cutting a list into pieces of equal length and a rest.\<close>

lemma pieces:
  "n * h \<le> length xs \<Longrightarrow> concat (map (\<lambda>i. take h (drop (i * h) xs)) [0..<n]) = take (n * h) xs"
proof (induction n)
  case (Suc n)
  have "take (n * h) xs @ take h (drop (n * h) xs) = take (Suc n * h) xs"
    by (metis add.commute mult_Suc take_add)
  then show ?case using Suc by simp
qed simp

text \<open>The hops the code computes.\<close>

definition hops_of :: "nat \<Rightarrow> nat \<Rightarrow> nat" where
  "hops_of len n = max 1 (len div n)"

lemma update_guards_ok:
  assumes "list_ok l" "0 < n"
  shows "\<exists>l'. cs_ev_update_guards True l (int n) = Ok (l', int (hops_of (length (ev_items l)) n)) \<and>
    ev_items l' = ev_items l \<and> ev_count l' = ev_count l \<and>
    guards l' = map (\<lambda>i. drop (min (i * hops_of (length (ev_items l)) n) (length (ev_items l) - 1)) (ev_items l)) [0..<n]"
proof -
  let ?h = "hops_of (length (ev_items l)) n"
  have q: "ev_count l sdiv int n = int (length (ev_items l) div n)"
    using assms by (simp add: list_ok_def signed_divide_int_def sgn_if zdiv_int mult_nonneg_nonneg)
  have h: "(if 1 > int (length (ev_items l) div n) then 1 else int (length (ev_items l) div n)) = int ?h"
    by (simp add: hops_of_def max_def)
  have "ev_items l \<noteq> []" using assms(1) by (simp add: list_ok_def)
  then show ?thesis using assms(2) q h guards_loop_drop [of "ev_items l" n ?h]
    by (simp add: cs_ev_update_guards_def Let_def)
qed

text \<open>The pieces the tasks of a round throw.\<close>

definition task_piece :: "nat \<Rightarrow> 'e list \<Rightarrow> nat \<Rightarrow> 'e list" where
  "task_piece n xs w =
     (let h = hops_of (length xs) n in
      take (if w < n - 1 then h else length xs - (n - 1) * h) (drop (min (w * h) (length xs - 1)) xs))"

lemma pieces_cover:
  assumes "0 < n" "xs \<noteq> []"
  shows "concat (map (task_piece n xs) [0..<min n (length xs)]) = xs"
proof (cases "n \<le> length xs")
  case True
  let ?h = "length xs div n"
  have h: "hops_of (length xs) n = ?h" "1 \<le> ?h"
    using True assms(1) by (auto simp: hops_of_def max_def div_greater_zero_iff Suc_le_eq)
  have nh: "n * ?h \<le> length xs" by simp
  have small: "w * ?h + ?h \<le> length xs" if "w < n" for w
  proof -
    have "Suc w * ?h \<le> n * ?h" using that by (intro mult_le_mono1) simp
    also have "\<dots> \<le> length xs" by (rule nh)
    finally show ?thesis by (simp add: add.commute)
  qed
  then have mn: "min (w * ?h) (length xs - 1) = w * ?h" if "w < n" for w
  proof -
    have "w * ?h + 1 \<le> length xs" using small [OF that] h(2) by linarith
    then show ?thesis by (simp add: min_def)
  qed
  obtain m where m: "n = Suc m" using assms(1) by (cases n) auto
  have a: "map (task_piece n xs) [0..<m] = map (\<lambda>i. take ?h (drop (i * ?h) xs)) [0..<m]"
    using h mn m by (simp add: task_piece_def Let_def)
  have "concat (map (task_piece n xs) [0..<m]) = take (m * ?h) xs"
    unfolding a using small [of m] m by (intro pieces) simp
  moreover have "task_piece n xs m = drop (m * ?h) xs"
    using h mn [of m] m by (simp add: task_piece_def Let_def)
  ultimately have "concat (map (task_piece n xs) [0..<Suc m]) = xs" by simp
  then show ?thesis using True m by (simp add: min_def)
next
  case False
  then have h: "hops_of (length xs) n = 1" by (simp add: hops_of_def)
  have a: "map (task_piece n xs) [0..<length xs] = map (\<lambda>i. take 1 (drop (i * 1) xs)) [0..<length xs]"
    using h False by (auto simp: task_piece_def Let_def min_def)
  have "concat (map (task_piece n xs) [0..<length xs]) = take (length xs * 1) xs"
    unfolding a by (rule pieces) simp
  then have "concat (map (task_piece n xs) [0..<length xs]) = xs" by simp
  then show ?thesis using False by (simp add: min_def)
qed

lemma piece_bound:
  assumes "0 < n" "w < min n (length xs)"
  shows "(if w < n - 1 then hops_of (length xs) n else length xs - (n - 1) * hops_of (length xs) n) \<le>
    length (drop (min (w * hops_of (length xs) n) (length xs - 1)) xs)"
proof (cases "n \<le> length xs")
  case True
  let ?h = "length xs div n"
  have h: "hops_of (length xs) n = ?h" "1 \<le> ?h"
    using True assms(1) by (auto simp: hops_of_def max_def div_greater_zero_iff Suc_le_eq)
  have "Suc w * ?h \<le> n * ?h" using assms(2) by (intro mult_le_mono1) simp
  then have s: "w * ?h + ?h \<le> length xs"
    using times_div_less_eq_dividend [of n "length xs"] by (metis add.commute le_trans mult_Suc)
  have "w < n - 1 \<or> w = n - 1" using assms(2) by auto
  moreover have "min (w * ?h) (length xs - 1) = w * ?h"
  proof -
    have "w * ?h + 1 \<le> length xs" using s h(2) by linarith
    then show ?thesis by (simp add: min_def)
  qed
  ultimately show ?thesis using s h by auto
next
  case False
  then have "hops_of (length xs) n = 1" by (simp add: hops_of_def)
  then show ?thesis using False assms by (auto simp: min_def)
qed

lemma round_tasks_args:
  assumes "0 < n" "w < min n len"
  shows "length (round_tasks (int n) (int h) (int len)) = min n len"
    and "round_tasks (int n) (int h) (int len) ! w =
      \<lparr>guard_index = w, num_events = (if w < n - 1 then int h else int len - int ((n - 1) * h))\<rparr>"
proof -
  have m: "nat (if int n < int len then int n else int len) = min n len" by (auto simp: min_def)
  have "(int n - 1) * int h = int ((n - 1) * h)" using assms(1) by (simp add: of_nat_diff)
  moreover have "int w < int n - 1 \<longleftrightarrow> w < n - 1" by auto
  ultimately show "length (round_tasks (int n) (int h) (int len)) = min n len"
    "round_tasks (int n) (int h) (int len) ! w =
      \<lparr>guard_index = w, num_events = (if w < n - 1 then int h else int len - int ((n - 1) * h))\<rparr>"
    using m assms(2) by (simp_all add: round_tasks_def worker_args_def)
qed

section \<open>The interleaved round\<close>

text \<open>What the round has raised and still has to raise; no task reaches the end of the list early.\<close>

definition round_sound :: "nat \<Rightarrow> 'd cs_event multiset \<Rightarrow> ('d, 'h, 'w) ev_net \<Rightarrow> bool" where
  "round_sound m es s \<longleftrightarrow> failed s = None \<and>
     mset (raised s) + (\<Sum>w<m. mset (left_of (work s w))) = es \<and>
     (\<forall>w<m. fst (work s w) \<le> length (snd (work s w))) \<and>
     (\<forall>w<m. \<forall>e\<in>set (left_of (work s w)). etype e \<noteq> None)"

definition handlers_return :: "('d, 'h, 'w) run_handler \<Rightarrow> bool" where
  "handlers_return run \<longleftrightarrow> (\<forall>h e v. returns (run h e v))"

lemma throw_returns:
  assumes "handlers_return run" "etype e \<noteq> None"
  shows "\<exists>r. cs_evm_throw_event run v (Some e) = Ok r"
proof -
  obtain ty where ty: "etype e = Some ty" using assms(2) by auto
  have "\<exists>r. run h e v = Ok r" for h using assms(1) by (auto simp: handlers_return_def returns_iff)
  then show ?thesis
    by (auto simp: cs_evm_throw_event_def cs_evm_get_handler_def ty split: option.splits)
qed

lemma round_sound_step:
  assumes "ev_step run m s s'" "round_sound m es s" "handlers_return run"
  shows "round_sound m es s'"
  using assms(1)
proof cases
  case (raise w k e es' st v)
  have l: "left_of (work s w) = e # left_of (k, es')" using raise by (simp add: left_of_def)
  have "(\<Sum>u<m. mset (left_of (((work s)(w := (k, es'))) u))) + mset (left_of (work s w)) =
      (\<Sum>u<m. mset (left_of (work s u))) + mset (left_of (k, es'))"
    using pile_update [of w m "\<lambda>u. mset (left_of (((work s)(w := (k, es'))) u))"
        "\<lambda>u. mset (left_of (work s u))"] raise by simp
  then have "(\<Sum>u<m. mset (left_of (((work s)(w := (k, es'))) u))) + {#e#} =
      (\<Sum>u<m. mset (left_of (work s u)))"
    unfolding l by simp
  moreover have "fst (((work s)(w := (k, es'))) u) \<le> length (snd (((work s)(w := (k, es'))) u))" if "u < m" for u
    using assms(2) raise that by (auto simp: round_sound_def)
  moreover have "\<forall>x\<in>set (left_of (((work s)(w := (k, es'))) u)). etype x \<noteq> None" if "u < m" for u
    using assms(2) raise(3,4) l that by (cases "u = w") (force simp: round_sound_def)+
  ultimately show ?thesis using assms(2) raise by (auto simp: round_sound_def ac_simps)
next
  case (raise_fault w k e es' f)
  then have "etype e \<noteq> None" using assms(2) by (fastforce simp: round_sound_def left_of_def)
  then show ?thesis using raise_fault throw_returns [OF assms(3), of e "mgr s"] by auto
next
  case (run_out w k)
  then show ?thesis using assms(2) by (fastforce simp: round_sound_def)
qed

lemma round_sound_steps:
  "ev_steps run m s0 s \<Longrightarrow> round_sound m es s0 \<Longrightarrow> handlers_return run \<Longrightarrow> round_sound m es s"
  by (induction rule: ev_steps.induct) (auto intro: round_sound_step)

lemma round_sound_start:
  assumes "list_ok l" "0 < n" "cs_ev_update_guards True l (int n) = Ok (l', hops)"
  shows "round_sound (length (round_tasks (int n) hops (ev_count l)))
    (mset (ev_items l)) (round_net v l' (round_tasks (int n) hops (ev_count l)))"
proof -
  let ?xs = "ev_items l"
  let ?h = "hops_of (length ?xs) n"
  have ne: "?xs \<noteq> []" and c: "ev_count l = int (length ?xs)" and ty: "\<forall>e\<in>set ?xs. etype e \<noteq> None"
    using assms(1) by (auto simp: list_ok_def)
  have l': "hops = int ?h" "guards l' = map (\<lambda>i. drop (min (i * ?h) (length ?xs - 1)) ?xs) [0..<n]"
    using update_guards_ok [OF assms(1,2)] assms(3) by auto
  let ?args = "round_tasks (int n) hops (ev_count l)"
  let ?m = "min n (length ?xs)"
  have m: "length ?args = ?m"
    using round_tasks_args(1) [OF assms(2), of 0 "length ?xs" ?h] ne assms(2) c l'(1) by simp
  have w: "work (round_net v l' ?args) w =
      (if w < n - 1 then ?h else length ?xs - (n - 1) * ?h, drop (min (w * ?h) (length ?xs - 1)) ?xs)"
    if "w < ?m" for w
    using round_tasks_args [OF assms(2) that, of ?h] that c l' m
    by (auto simp: round_net_def nat_diff_distrib' simp flip: of_nat_mult)
  then have piece: "left_of (work (round_net v l' ?args) w) = task_piece n ?xs w" if "w < ?m" for w
    using that by (simp add: left_of_def task_piece_def Let_def)
  have "(\<Sum>w<?m. mset (left_of (work (round_net v l' ?args) w))) = (\<Sum>w<?m. mset (task_piece n ?xs w))"
    using piece by (intro sum.cong) auto
  also have "\<dots> = mset (concat (map (task_piece n ?xs) [0..<?m]))"
    by (simp add: mset_concat sum_list_sum_nth atLeast0LessThan)
  also have "\<dots> = mset ?xs" by (simp only: pieces_cover [OF assms(2) ne])
  finally have "(\<Sum>w<?m. mset (left_of (work (round_net v l' ?args) w))) = mset ?xs" .
  moreover have "fst (work (round_net v l' ?args) w) \<le> length (snd (work (round_net v l' ?args) w))"
    if "w < ?m" for w
    using w [OF that] piece_bound [OF assms(2) that] by simp
  moreover have "\<forall>e\<in>set (task_piece n ?xs w). etype e \<noteq> None" for w
    using ty by (auto simp: task_piece_def Let_def dest: in_set_takeD in_set_dropD)
  ultimately show ?thesis using piece m by (simp add: round_sound_def round_net_def)
qed

lemma round_over_raised:
  assumes "round_sound m es s" "round_over m s"
  shows "mset (raised s) = es"
  using assms by (auto simp: round_sound_def round_over_def left_of_def)

lemma round_moves:
  assumes "round_sound m es s" "\<not> round_over m s" "handlers_return run"
  shows "\<exists>s'. ev_step run m s s'"
proof -
  obtain w k where w: "w < m" "fst (work s w) = Suc k"
    using assms(2) by (auto simp: round_over_def gr0_conv_Suc)
  then obtain e es' where e: "work s w = (Suc k, e # es')"
    using assms(1) by (cases "work s w"; cases "snd (work s w)") (fastforce simp: round_sound_def)+
  then have "etype e \<noteq> None" using assms(1) w(1) by (fastforce simp: round_sound_def left_of_def)
  then obtain st v where "cs_evm_throw_event run (mgr s) (Some e) = Ok (st, v)"
    using throw_returns [OF assms(3)] by (metis prod.collapse)
  then show ?thesis using raise [of s w m k e es' run st v] w(1) e assms(1) by (auto simp: round_sound_def)
qed

section \<open>Creation, start and destruction\<close>

text \<open>The two functions the event manager runs as tasks of its pool, and their inputs.\<close>

datatype ev_code = Ev_worker | Ev_controller

datatype ev_input = To_manager | To_events event_worker_data

type_synonym ('d, 'h) evm_pool = "('d, 'h, (ev_code, ev_input, unit) cs_workerpool) cs_event_manager"

record evm_alloc =
  eh_tree_ok :: bool
  ev_tree_ok :: bool
  evm_mutexes_ok :: bool
  wp_block_ok :: bool
  wp_parts :: wp_alloc

definition evm_alloc_ok :: evm_alloc where
  "evm_alloc_ok = \<lparr>eh_tree_ok = True, ev_tree_ok = True, evm_mutexes_ok = True, wp_block_ok = True,
     wp_parts = wp_alloc_ok\<rparr>"

text \<open>
  \<^verbatim>\<open>cs_init_event_manager\<close>.  \<open>start_time\<close> is not set here and keeps what the memory held
  (\<open>mem\<close>).
\<close>

definition cs_init_event_manager ::
  "evm_alloc \<Rightarrow> bool \<Rightarrow> cs_clockv \<Rightarrow> int \<Rightarrow> nat option \<Rightarrow> sim_type \<Rightarrow> int \<Rightarrow>
   (int \<times> ('d, 'h) evm_pool option \<times> int) outcome" where
  "cs_init_event_manager a evm_null mem nw tm ty counter =
     (if evm_null then Ok (-1, None, counter)
      else
        (case rb_create (eh_tree_ok a) cmp_handler_func of
           None \<Rightarrow> Ok (-1, None, counter)
         | Some eh \<Rightarrow>
             (case rb_create (ev_tree_ok a) cmp_event_list of
                None \<Rightarrow> Ok (-1, None, counter)
              | Some et \<Rightarrow>
                  obind (cs_make_recursive_mutex (evm_mutexes_ok a) (evm_mutexes_ok a))
                    (\<lambda>_. if \<not> wp_block_ok a then Ok (-1, None, counter)
                      else
                        obind (cs_wp_init (wp_parts a) False (nw + 1) ((nw + 1) * 10) ''EVM'' counter)
                          (\<lambda>(r, pool, counter).
                            if r < 0 then Ok (-1, None, counter)
                            else
                              (case pool of
                                 None \<Rightarrow> Fault Uninitialised_read
                               | Some pool \<Rightarrow>
                                   Ok (0, Some
                                     \<lparr>eh_tree = eh, ev_tree = et, ev_timer = tm, wp = pool,
                                      nworkers = nw + 1, start_time = mem, last_completion = 0,
                                      ev_stop = 0, running = 0, stype = ty\<rparr>, counter)))))))"

text \<open>\<^verbatim>\<open>cs_evm_start_controller\<close>; \<open>evm_size\<close> is \<^verbatim>\<open>sizeof(cs_event_manager_t)\<close>.\<close>

definition cs_evm_start_controller ::
  "posix \<Rightarrow> (nat \<Rightarrow> bool) \<Rightarrow> bool \<Rightarrow> bool \<times> bool \<times> bool \<Rightarrow> nat \<Rightarrow> ('d, 'h) evm_pool \<Rightarrow> cs_clockv \<Rightarrow> int \<Rightarrow>
   (int \<times> ('d, 'h) evm_pool \<times> int) outcome" where
  "cs_evm_start_controller env create create_controller alloc evm_size v start_raising counter =
     (let v = v\<lparr>start_time := (if sint start_raising > 0 then start_raising else 1)\<rparr>;
          (r, pool) = cs_wp_start create create_controller (wp v);
          v = v\<lparr>wp := pool\<rparr>
      in if r < 0 then Ok (-1, v, counter)
         else
           obind (cs_wp_tsk_enqueue env alloc Ev_controller To_manager evm_size (wp v) counter)
             (\<lambda>(r, pool, counter).
               if r < 0 then Ok (-1, v\<lparr>wp := pool\<rparr>, counter) else Ok (0, v\<lparr>wp := pool\<rparr>, counter)))"

definition cs_shutdown_event_manager ::
  "posix \<Rightarrow> ((ev_code, ev_input, unit) cs_workerpool \<Rightarrow> (int \<times> (ev_code, ev_input, unit) cs_workerpool) outcome) \<Rightarrow>
   ('d, 'h) evm_pool \<Rightarrow> ('d, 'h) evm_pool outcome" where
  "cs_shutdown_event_manager env join v =
     (let v = (if cs_evm_running v \<noteq> 0 then cs_evm_stop_controller v else v) in
      obind (cs_wp_shutdown env join (wp v)) (\<lambda>(_, pool). Ok (v\<lparr>wp := pool\<rparr>)))"

text \<open>
  \<^verbatim>\<open>cs_destroy_event_manager\<close>: the handler entries and the event lists that are freed, in
  order (a list whose count is 0 is not).
\<close>

definition cs_destroy_event_manager ::
  "posix \<Rightarrow> ((ev_code, ev_input, unit) cs_workerpool \<Rightarrow> (int \<times> (ev_code, ev_input, unit) cs_workerpool) outcome) \<Rightarrow>
   ('d, 'h) evm_pool \<Rightarrow> ('h handler_entry list \<times> 'd cs_event_list list) outcome" where
  "cs_destroy_event_manager env join v =
     obind (cs_shutdown_event_manager env join v)
       (\<lambda>v. obind (cs_wp_destroy env join (wp v))
         (\<lambda>_. Ok (rb_destroy (eh_tree v),
                  filter (\<lambda>l. destroy_event_list (Some l)) (rb_destroy (ev_tree v)))))"

section \<open>Properties\<close>

lemma controller_round_ok:
  assumes "evm_ok v" "nworkers v = int n + 1" "0 < n" "0 \<le> ret" "ev_stop v = 0"
    and "sint (start_time v) \<le> sint t"
  shows "\<exists>v' r. ev_controller_round True ret t v = Ok (r, v') \<and> evm_ok v' \<and>
    events_at v' = (events_at v)(sint t := []) \<and>
    (if events_at v (sint t) = [] then r = Round_empty
     else \<exists>l hops l'. list_ok l \<and> ev_items l = events_at v (sint t) \<and>
       cs_ev_update_guards True l (int n) = Ok (l', hops) \<and>
       r = Round_tasks l' (round_tasks (int n) hops (ev_count l)) \<and>
       length (round_tasks (int n) hops (ev_count l)) = min n (length (ev_items l)))"
proof -
  obtain v' where p: "pop_events v t = Ok (get_events v t, v')" "evm_ok v'"
    "events_at v' = (events_at v)(sint t := [])"
    using pop_ok [OF assms(1)] by blast
  have w: "nworkers v' = nworkers v" using p(1) by (auto simp: pop_events_def outcome_simps)
  show ?thesis
  proof (cases "get_events v t")
    case None
    then have "events_at v (sint t) = []" using get_events_at(2) [OF assms(1)] by simp
    then show ?thesis using p None assms(4-6)
      by (simp add: ev_controller_round_def should_stop_controller_def)
  next
    case (Some l)
    then have l: "list_ok l" "ev_items l = events_at v (sint t)" using get_events_at(3) [OF assms(1)] by auto
    obtain l' where u: "cs_ev_update_guards True l (int n) = Ok (l', int (hops_of (length (ev_items l)) n))"
      "ev_count l' = ev_count l"
      using update_guards_ok [OF l(1) assms(3)] by auto
    have c: "ev_count l = int (length (ev_items l))" "ev_items l \<noteq> []" using l(1) by (auto simp: list_ok_def)
    then have m: "length (round_tasks (int n) (int (hops_of (length (ev_items l)) n)) (ev_count l)) =
        min n (length (ev_items l))"
      using round_tasks_args(1) [OF assms(3), of 0 "length (ev_items l)"] assms(3) by simp
    have "ev_controller_round True ret t v =
        Ok (Round_tasks l' (round_tasks (int n) (int (hops_of (length (ev_items l)) n)) (ev_count l)), v')"
      using p(1) Some assms(2,4-6) u w c
      by (simp add: ev_controller_round_def should_stop_controller_def)
    then show ?thesis using p(2,3) l u(1) m c(2)
      by (intro exI [of _ v'] exI) (auto simp del: One_nat_def)
  qed
qed

text \<open>
  One turn of the controller.  When \<^verbatim>\<open>cs_time_sync\<close> succeeded, no stop was requested and
  the start time has come, it takes exactly the events of the current clock value out of
  the tree, in their order, and deals them out to at most as many tasks as there are
  workers besides the controller, and as there are events.
\<close>

theorem controller_round_takes:
  assumes "evm_ok v" "nworkers v = int n + 1" "0 < n" "0 \<le> ret" "ev_stop v = 0"
    and "sint (start_time v) \<le> sint t"
  shows "\<exists>v' r. ev_controller_round True ret t v = Ok (r, v') \<and> evm_ok v' \<and>
    events_at v' = (events_at v)(sint t := []) \<and>
    (if events_at v (sint t) = [] then r = Round_empty
     else \<exists>l hops l'. list_ok l \<and> ev_items l = events_at v (sint t) \<and>
       cs_ev_update_guards True l (int n) = Ok (l', hops) \<and>
       r = Round_tasks l' (round_tasks (int n) hops (ev_count l)) \<and>
       length (round_tasks (int n) hops (ev_count l)) = min n (length (ev_items l)))"
  using controller_round_ok [OF assms] .

text \<open>
  C11.  A round raises every event of its list exactly once.  Whatever the interleaving of its
  tasks, no task runs over the end of the list (so \<^verbatim>\<open>_ev_worker\<close> never calls \<^verbatim>\<open>exit\<close>), no event is
  raised twice, a round that is not over can go on, and when it is over all events of the
  list have been raised (given that the handlers return).
\<close>

theorem round_raises_once:
  assumes "list_ok l" "0 < n" "cs_ev_update_guards True l (int n) = Ok (l', hops)" "handlers_return run"
    and "args = round_tasks (int n) hops (ev_count l)"
    and "ev_steps run (length args) (round_net v l' args) s"
  shows "failed s = None \<and> mset (raised s) \<subseteq># mset (ev_items l) \<and>
    (if round_over (length args) s then mset (raised s) = mset (ev_items l)
     else \<exists>s'. ev_step run (length args) s s')"
proof -
  have r: "round_sound (length args) (mset (ev_items l)) s"
    using round_sound_steps [OF assms(6) _ assms(4)] round_sound_start [OF assms(1-3)] assms(5) by blast
  then have "mset (raised s) \<subseteq># mset (ev_items l)"
    by (metis mset_subset_eq_add_left round_sound_def)
  then show ?thesis using r round_over_raised [OF r] round_moves [OF r _ assms(4)] by (auto simp: round_sound_def)
qed

text \<open>
  An event manager created for no workers divides by zero in its first round with events.
\<close>

theorem no_workers_division:
  assumes "evm_ok v" "nworkers v = 0 + 1" "0 \<le> ret" "ev_stop v = 0" "sint (start_time v) \<le> sint t"
    and "events_at v (sint t) \<noteq> []"
  shows "ev_controller_round alloc ret t v = Fault Division_by_zero"
proof -
  obtain l where l: "get_events v t = Some l" "list_ok l"
    using get_events_at(2,3) [OF assms(1), of t] assms(6) by (cases "get_events v t") auto
  obtain v' where p: "pop_events v t = Ok (Some l, v')" using pop_ok [OF assms(1), of t] l(1) by auto
  then have "nworkers v' = nworkers v" by (auto simp: pop_events_def outcome_simps)
  moreover have "0 < ev_count l" using l(2) by (simp add: list_ok_def)
  ultimately show ?thesis using p assms(2-5)
    by (simp add: ev_controller_round_def should_stop_controller_def cs_ev_update_guards_def)
qed

lemma init_start_manager:
  assumes "(n + 1) * 10 \<le> SEM_VALUE_MAX" "0 \<le> counter"
  shows "\<exists>v v'. cs_init_event_manager evm_alloc_ok False mem (int n) tm ty counter = Ok (0, Some v, counter + 1) \<and>
    evm_ok v \<and> events_at v = (\<lambda>_. []) \<and> handler_of v = Map.empty \<and> nworkers v = int n + 1 \<and>
    cs_evm_start_controller (posix_ok a) (\<lambda>_. True) True (True, True, True) sz v start 0 = Ok (0, v', 1) \<and>
    wp_status (wp v') = CS_WPS_WORKING \<and> workerpool_semaphore (wp v') = n + 1 \<and>
    queue_rep (tsk_q (wp v')) [1] \<and>
    (\<exists>t. task_of (wp v') 1 = Some t \<and> tsk_code t = Ev_controller) \<and> 1 \<le> sint (start_time v')"
proof -
  have b: "0 < n + 1" "n + 1 \<le> SEM_VALUE_MAX" "0 \<le> int ((n + 1) * 10)" "int ((n + 1) * 10) \<le> int SEM_VALUE_MAX"
    using assms(1) by auto
  obtain pool pool' :: "(ev_code, ev_input, unit) cs_workerpool" where pool:
    "cs_wp_init wp_alloc_ok False (int (n + 1)) (int ((n + 1) * 10)) ''EVM'' counter = Ok (0, Some pool, counter + 1)"
    "cs_wp_start (\<lambda>_. True) True pool = (0, pool')" "wp_status pool' = CS_WPS_WORKING"
    "workerpool_semaphore pool' = n + 1" "pool_ok pool' 0" "task_of pool' = Map.empty"
    "queue_open (tsk_q pool') (nat (int ((n + 1) * 10))) []"
    using init_start [OF b assms(2), of "''EVM''", where ?'a = ev_code and ?'b = ev_input and ?'c = unit] by auto
  let ?v = "\<lparr>eh_tree = \<lparr>rb_root = Null, rb_compare = cmp_handler_func, rb_count = 0, rb_generation = 0\<rparr>,
    ev_tree = \<lparr>rb_root = Null, rb_compare = cmp_event_list, rb_count = 0, rb_generation = 0\<rparr>,
    ev_timer = tm, wp = pool, nworkers = int n + 1, start_time = mem, last_completion = 0, ev_stop = 0,
    running = 0, stype = ty\<rparr> :: ('a, 'b) evm_pool"
  have i: "cs_init_event_manager evm_alloc_ok False mem (int n) tm ty counter = Ok (0, Some ?v, counter + 1)"
    using pool(1) by (simp add: cs_init_event_manager_def evm_alloc_ok_def rb_create_def cs_make_recursive_mutex_def
        algebra_simps)
  have ok: "evm_ok ?v" "events_at ?v = (\<lambda>_. [])" "handler_of ?v = Map.empty"
    by (auto simp: evm_ok_def rb_for_def rb_valid_def rb_roomy_def items_def ordered_def events_at_def
        handler_of_def table_map_def rb_inv_def)
  have "items (tsk_res_table pool') = []"
  proof (rule ccontr)
    assume "items (tsk_res_table pool') \<noteq> []"
    then obtain x where x: "x \<in> set (items (tsk_res_table pool'))"
      by (cases "items (tsk_res_table pool')") auto
    then have "task_of pool' x \<noteq> None" using pool_okD(3) [OF pool(5) x] by (auto simp: task_of_def)
    then show False using pool(6) by simp
  qed
  moreover have q: "queue_rep (tsk_q pool') []" "qstatus (tsk_q pool') = QOPENED" "qsem (tsk_q pool') = 0"
    "qlimit_sem (tsk_q pool') = Suc (n * 10 + 9)" "qheap (tsk_q pool') = Map.empty"
    using pool(7) queue_rep_empty [of "tsk_q pool'"] by (auto simp: queue_open_def)
  obtain q' where q': "cs_queue_enqueue (posix_ok a) (tsk_q pool') (0 + 1) True = Ok (0, q')" "queue_rep q' [1]"
    using enqueue_ok [OF q(1,2) _ _ q(4), of a 1 True] q(3,5) by (auto simp: SEM_VALUE_MAX_def)
  ultimately obtain pool2 where p2: "cs_wp_tsk_enqueue (posix_ok a) (True, True, True) Ev_controller To_manager sz pool' 0 =
      Ok (0 + 1, pool2, 0 + 1)" "tsk_q pool2 = q'" "wp_status pool2 = CS_WPS_WORKING"
    "task_of pool2 = (task_of pool')(0 + 1 \<mapsto> new_task Ev_controller To_manager sz (0 + 1))"
    using enqueue_task [OF pool(5,3) _ q'(1), of Ev_controller To_manager sz] by auto
  have sem: "workerpool_semaphore pool2 = n + 1"
    using p2(1) pool(4) by (auto simp: cs_wp_tsk_enqueue_def Let_def outcome_simps split: if_splits prod.splits)
  let ?st = "if sint start > 0 then start else 1"
  have "cs_evm_start_controller (posix_ok a) (\<lambda>_. True) True (True, True, True) sz ?v start 0 =
      Ok (0, ?v\<lparr>start_time := ?st, wp := pool2\<rparr>, 1)"
    using pool(2) p2(1) by (simp add: cs_evm_start_controller_def Let_def)
  then show ?thesis using i ok p2 sem q'(2)
    by (intro exI [of _ ?v] exI [of _ "?v\<lparr>start_time := ?st, wp := pool2\<rparr>"]) (simp add: new_task_def)
qed

text \<open>
  An event manager created for \<open>n\<close> workers has no events and no handlers; once started,
  its pool is working with \<open>n + 1\<close> workers and the one task in its queue is the controller.
\<close>

theorem evm_init_start:
  assumes "(n + 1) * 10 \<le> SEM_VALUE_MAX" "0 \<le> counter"
  shows "\<exists>v v'. cs_init_event_manager evm_alloc_ok False mem (int n) tm ty counter = Ok (0, Some v, counter + 1) \<and>
    evm_ok v \<and> events_at v = (\<lambda>_. []) \<and> handler_of v = Map.empty \<and> nworkers v = int n + 1 \<and>
    cs_evm_start_controller (posix_ok a) (\<lambda>_. True) True (True, True, True) sz v start 0 = Ok (0, v', 1) \<and>
    wp_status (wp v') = CS_WPS_WORKING \<and> workerpool_semaphore (wp v') = n + 1 \<and>
    queue_rep (tsk_q (wp v')) [1] \<and>
    (\<exists>t. task_of (wp v') 1 = Some t \<and> tsk_code t = Ev_controller) \<and> 1 \<le> sint (start_time v')"
  using init_start_manager [OF assms] .

lemma evm_init_start_witness:
  "\<exists>v :: (nat, nat) evm_pool. cs_init_event_manager evm_alloc_ok False 0 2 None EVENT_DRIVEN 0 = Ok (0, Some v, 1) \<and>
     nworkers v = 3"
  using evm_init_start [of 2 0 0 None EVENT_DRIVEN 5 100 0, where ?'a = nat and ?'b = nat]
  by (auto simp: SEM_VALUE_MAX_def)

text \<open>A manager for two workers with three events at the time 5.\<close>

definition three_events :: "(nat cs_event \<times> cs_clockv) list" where
  "three_events = [(\<lparr>etype = Some ''a'', ev_data = 1\<rparr>, 5), (\<lparr>etype = Some ''b'', ev_data = 2\<rparr>, 5),
     (\<lparr>etype = Some ''c'', ev_data = 3\<rparr>, 5)]"

lemma controller_round_takes_witness:
  "\<exists>(v :: (nat, nat, unit) cs_event_manager) v' r.
     put_all (cs_evm_schedule_event alloc_ok) [(\<lparr>etype = Some ''a'', ev_data = 1\<rparr>, 5)]
       (empty_manager\<lparr>nworkers := 3\<rparr>) = Ok v \<and>
     ev_controller_round True 0 5 v = Ok (r, v') \<and> events_at v' 5 = [] \<and> r \<noteq> Round_empty"
proof -
  let ?e = "\<lparr>etype = Some ''a'', ev_data = 1\<rparr> :: nat cs_event"
  let ?v = "empty_manager\<lparr>nworkers := 3\<rparr> :: (nat, nat, unit) cs_event_manager"
  have v: "evm_ok ?v" "events_at ?v = (\<lambda>_. [])" "items (ev_tree ?v) = []"
    using empty_manager_ok by (simp_all add: evm_ok_def events_at_def fun_eq_iff)
  obtain w where w: "cs_evm_schedule_event alloc_ok ?e 5 ?v = Ok (0, w)" "evm_ok w" "events_at w 5 = [?e]"
    using schedule_ok [OF v(1), of ?e 5] v by auto
  have f: "nworkers w = 3" "ev_stop w = 0" "start_time w = 0"
    using w(1) by (auto simp: cs_evm_schedule_event_def outcome_simps empty_manager_def Let_def)
  obtain w' r where "ev_controller_round True 0 5 w = Ok (r, w')" "events_at w' = (events_at w)(5 := [])"
    "r \<noteq> Round_empty"
    using controller_round_takes [OF w(2), of 2 0 5] f w(3) by auto
  then show ?thesis using w by (intro exI [of _ w] exI [of _ w'] exI [of _ r]) simp
qed

lemma round_raises_once_witness:
  "\<exists>l' hops s. cs_ev_update_guards True
       \<lparr>ev_items = map fst three_events, scheduled_at = 5, ev_count = 3, guards = []\<rparr> (int 2) = Ok (l', hops) \<and>
     ev_steps (\<lambda>h e v. Ok (CS_EH_NORMAL, v)) (length (round_tasks (int 2) hops 3))
       (round_net (empty_manager :: (nat, nat, unit) cs_event_manager) l' (round_tasks (int 2) hops 3)) s \<and>
     failed s = None"
proof -
  let ?l = "\<lparr>ev_items = map fst three_events, scheduled_at = 5, ev_count = 3, guards = []\<rparr>"
  let ?run = "\<lambda>(h :: nat) (e :: nat cs_event) (v :: (nat, nat, unit) cs_event_manager). Ok (CS_EH_NORMAL, v)"
  have l: "list_ok ?l" by (simp add: list_ok_def three_events_def)
  obtain l' hops where u: "cs_ev_update_guards True ?l (int 2) = Ok (l', hops)"
    using update_guards_ok [OF l, of 2] by auto
  let ?args = "round_tasks (int 2) hops (ev_count ?l)"
  have s: "ev_steps ?run (length ?args) (round_net empty_manager l' ?args) (round_net empty_manager l' ?args)"
    by (rule ev_steps.none)
  have "handlers_return ?run" by (simp add: handlers_return_def)
  then have "failed (round_net (empty_manager :: (nat, nat, unit) cs_event_manager) l' ?args) = None"
    using round_raises_once [OF l _ u _ refl s] by auto
  then show ?thesis using u s by auto
qed

lemma no_workers_division_witness:
  "\<exists>v :: (nat, nat, unit) cs_event_manager.
     cs_evm_schedule_event alloc_ok \<lparr>etype = Some ''a'', ev_data = 1\<rparr> 5 empty_manager = Ok (0, v) \<and>
     ev_controller_round True 0 5 v = Fault Division_by_zero"
proof -
  let ?e = "\<lparr>etype = Some ''a'', ev_data = 1\<rparr> :: nat cs_event"
  obtain w :: "(nat, nat, unit) cs_event_manager" where
    w: "cs_evm_schedule_event alloc_ok ?e 5 empty_manager = Ok (0, w)" "evm_ok w"
    "events_at w = (events_at (empty_manager :: (nat, nat, unit) cs_event_manager))
       (5 := events_at (empty_manager :: (nat, nat, unit) cs_event_manager) 5 @ [?e])"
    using schedule_ok [of "empty_manager :: (nat, nat, unit) cs_event_manager" ?e 5]
    by (auto simp: empty_manager_ok)
  have f: "nworkers w = 1" "ev_stop w = 0" "start_time w = 0"
    using w(1) by (auto simp: cs_evm_schedule_event_def outcome_simps empty_manager_def Let_def)
  show ?thesis using no_workers_division [OF w(2), of 0 5 True] f w by (auto simp: empty_manager_ok)
qed

end
