(* ===== verification/CS_Engine.thy ===== *)
theory CS_Engine
  imports CS_Events
begin

text \<open>
  The engine of \<open>src/cs_engine.c\<close>: the list of user activities, their division into tasks, the
  turns of the simulation loop, and the set-up and end of a simulation.

  The list of activities is the list of its cells; \<open>nact\<close> and \<open>total_tasks\<close> are kept beside it as
  the code does.  The timer and the event manager are shared with other threads; a turn of the
  loop takes what the engine reads of them after \<^verbatim>\<open>cs_time_sync\<close> as arguments.
\<close>

section \<open>Data\<close>

datatype activity_type = AFTER_STEP | USER

record 'x cs_tsk_data =
  td_data :: 'x
  data_index :: int
  td_index :: int
  offset :: int
  tot_tasks :: int

record ('c, 'x) cs_user_activity =
  act_code :: 'c
  tsk_data_arr :: "'x cs_tsk_data list"
  nsteps :: int
  act_name :: string
  n_tasks :: int
  total_data_size :: nat
  last_execution_time :: cs_clockv
  act_type :: activity_type

record ('c, 'x) cs_activity_list =
  activities :: "('c, 'x) cs_user_activity list"
  nact :: int
  total_tasks :: int

record ('c, 'x, 'o, 'd, 'h, 'a) cs_engine =
  alist :: "('c, 'x) cs_activity_list option"
  eng_evm :: "('d, 'h) evm_pool option"
  net_rt :: bool
  eng_wp :: "('c, 'x cs_tsk_data, 'o) cs_workerpool option"
  eng_timer :: "cs_timer option"
  term_func :: "('a \<Rightarrow> int) option"
  term_func_args :: 'a
  eng_st :: sim_type
  eng_running :: int

section \<open>Activities\<close>

definition insert_into_activity_list ::
  "('c, 'x) cs_user_activity option \<Rightarrow> ('c, 'x) cs_activity_list option \<Rightarrow> ('c, 'x) cs_activity_list outcome" where
  "insert_into_activity_list act al =
     (case al of
        None \<Rightarrow> Fault Assertion_failed
      | Some al \<Rightarrow>
          (case act of
             None \<Rightarrow> Fault Assertion_failed
           | Some act \<Rightarrow>
               Ok (al\<lparr>activities := activities al @ [act], nact := nact al + 1,
                      total_tasks := total_tasks al + n_tasks act\<rparr>)))"

text \<open>The share of task \<open>i\<close>: the items from \<open>data_index\<close> to \<open>data_index + offset\<close>, both included.\<close>

definition task_share :: "'x \<Rightarrow> int \<Rightarrow> int \<Rightarrow> int \<Rightarrow> 'x cs_tsk_data" where
  "task_share data nitems threads i =
     (let block_dim = nitems sdiv threads;
          base_offset = block_dim - 1;
          ntasks = (if nitems > threads then threads else nitems);
          res = nitems smod threads
      in \<lparr>td_data = data, data_index = i * block_dim, td_index = i,
          offset = (if i < threads - 1 then base_offset else base_offset + res), tot_tasks = ntasks\<rparr>)"

definition cs_bind_sim_activity ::
  "bool \<Rightarrow> bool \<Rightarrow> bool \<Rightarrow> 'c \<Rightarrow> 'x \<Rightarrow> nat \<Rightarrow> int \<Rightarrow> int \<Rightarrow> activity_type \<Rightarrow> string \<Rightarrow>
   ('c, 'x, 'o, 'd, 'h, 'a) cs_engine \<Rightarrow> ('c, 'x, 'o, 'd, 'h, 'a) cs_engine outcome" where
  "cs_bind_sim_activity data_alloc act_alloc name_alloc code data sz nitems steps ty aname e =
     (case eng_wp e of
        None \<Rightarrow> Fault Null_dereference
      | Some pool \<Rightarrow>
          let threads = int (nthreads pool) in
          if threads = 0 then Fault Division_by_zero
          else
            (let ntasks = (if nitems > threads then threads else nitems) in
             if \<not> data_alloc \<or> ntasks < 0 then Ok e
             else if \<not> act_alloc then Ok e
             else if \<not> name_alloc then Fault Null_dereference
             else
               obind
                 (insert_into_activity_list
                   (Some \<lparr>act_code = code,
                          tsk_data_arr = map (\<lambda>i. task_share data nitems threads (int i)) [0..<nat ntasks],
                          nsteps = steps, act_name = aname, n_tasks = ntasks, total_data_size = sz,
                          last_execution_time = -1, act_type = ty\<rparr>)
                   (alist e))
                 (\<lambda>al. Ok (e\<lparr>alist := Some al\<rparr>))))"

text \<open>
  Is an activity to be performed at the time \<open>cur\<close>?  The remainder is taken before the type
  is looked at; a period of 0 divides by zero from the second execution on.
\<close>

definition due :: "int \<Rightarrow> activity_type \<Rightarrow> ('c, 'x) cs_user_activity \<Rightarrow> bool outcome" where
  "due cur ty act =
     (if sint (last_execution_time act) < 0 then Ok (act_type act = ty)
      else if nsteps act = 0 then Fault Division_by_zero
      else Ok ((cur - sint (last_execution_time act)) smod nsteps act = 0 \<and> act_type act = ty))"

text \<open>
  The loop of \<^verbatim>\<open>_loop_activity\<close>.  \<open>enq\<close> is \<^verbatim>\<open>cs_wp_tsk_enqueue\<close> on the engine's pool; the result has
  the activities with their new execution times, the ids and the pool.
\<close>

fun enqueue_parts ::
  "('c \<Rightarrow> 'x cs_tsk_data \<Rightarrow> nat \<Rightarrow> 'w \<Rightarrow> (int \<times> 'w) outcome) \<Rightarrow> 'c \<Rightarrow> nat \<Rightarrow> 'x cs_tsk_data list \<Rightarrow> 'w \<Rightarrow>
   (int list \<times> 'w) outcome" where
  "enqueue_parts enq code sz [] w = Ok ([], w)"
| "enqueue_parts enq code sz (p # ps) w =
     obind (enq code p sz w)
       (\<lambda>(i, w). obind (enqueue_parts enq code sz ps w) (\<lambda>(is, w). Ok (i # is, w)))"

fun loop_acts ::
  "('c \<Rightarrow> 'x cs_tsk_data \<Rightarrow> nat \<Rightarrow> 'w \<Rightarrow> (int \<times> 'w) outcome) \<Rightarrow> cs_clockv \<Rightarrow> activity_type \<Rightarrow>
   ('c, 'x) cs_user_activity list \<Rightarrow> 'w \<Rightarrow> (('c, 'x) cs_user_activity list \<times> int list \<times> 'w) outcome" where
  "loop_acts enq cur ty [] w = Ok ([], [], w)"
| "loop_acts enq cur ty (act # acts) w =
     obind (due (sint cur) ty act)
       (\<lambda>b. if b then
              obind (enqueue_parts enq (act_code act) (total_data_size act) (tsk_data_arr act) w)
                (\<lambda>(is, w). obind (loop_acts enq cur ty acts w)
                  (\<lambda>(acts', js, w). Ok (act\<lparr>last_execution_time := cur\<rparr> # acts', is @ js, w)))
            else
              obind (loop_acts enq cur ty acts w) (\<lambda>(acts', js, w). Ok (act # acts', js, w)))"

fun wait_all :: "(int \<Rightarrow> 'w \<Rightarrow> 'w outcome) \<Rightarrow> int list \<Rightarrow> 'w \<Rightarrow> 'w outcome" where
  "wait_all wt [] w = Ok w"
| "wait_all wt (i # is) w = obind (wt i w) (wait_all wt is)"

definition loop_activity ::
  "('c \<Rightarrow> 'x cs_tsk_data \<Rightarrow> nat \<Rightarrow> 'w \<Rightarrow> (int \<times> 'w) outcome) \<Rightarrow> (int \<Rightarrow> 'w \<Rightarrow> 'w outcome) \<Rightarrow>
   bool \<Rightarrow> cs_clockv \<Rightarrow> activity_type \<Rightarrow> ('c, 'x) cs_activity_list \<Rightarrow> 'w \<Rightarrow>
   (('c, 'x) cs_activity_list \<times> int list \<times> 'w) outcome" where
  "loop_activity enq wt ids_alloc cur ty al w =
     (if sint cur \<le> 0 then Ok (al, [], w)
      else if \<not> total_tasks al > 0 then Ok (al, [], w)
      else if \<not> ids_alloc then Fault Null_dereference
      else if activities al = [] then Fault Null_dereference
      else
        obind (loop_acts enq cur ty (activities al) w)
          (\<lambda>(acts, is, w). obind (wait_all wt is w) (\<lambda>w. Ok (al\<lparr>activities := acts\<rparr>, is, w))))"

section \<open>Configuration\<close>

definition check_already_running :: "('c, 'x, 'o, 'd, 'h, 'a) cs_engine \<Rightarrow> bool" where
  "check_already_running e \<longleftrightarrow> eng_running e = 1"

definition cs_set_timer ::
  "('c, 'x, 'o, 'd, 'h, 'a) cs_engine \<Rightarrow> cs_timer option \<Rightarrow> ('c, 'x, 'o, 'd, 'h, 'a) cs_engine" where
  "cs_set_timer e t = (if check_already_running e then e else e\<lparr>eng_timer := t\<rparr>)"

definition cs_set_termination_function ::
  "('c, 'x, 'o, 'd, 'h, 'a) cs_engine \<Rightarrow> ('a \<Rightarrow> int) \<Rightarrow> 'a \<Rightarrow> ('c, 'x, 'o, 'd, 'h, 'a) cs_engine" where
  "cs_set_termination_function e f args =
     (if check_already_running e then e else e\<lparr>term_func := Some f, term_func_args := args\<rparr>)"

text \<open>\<open>None\<close> as the termination function is a field that was never set.\<close>

definition check_termination :: "('c, 'x, 'o, 'd, 'h, 'a) cs_engine \<Rightarrow> bool outcome" where
  "check_termination e =
     (if eng_st e = ACTIVITY_SCAN then
        (case term_func e of
           None \<Rightarrow> Fault Uninitialised_read
         | Some f \<Rightarrow> Ok (f (term_func_args e) \<noteq> 0))
      else Ok False)"

definition cs_set_event_manager ::
  "('c, 'x, 'o, 'd, 'h, 'a) cs_engine \<Rightarrow> ('d, 'h) evm_pool option \<Rightarrow> ('c, 'x, 'o, 'd, 'h, 'a) cs_engine outcome" where
  "cs_set_event_manager e v =
     (if check_already_running e then Ok e
      else if v = None then Fault Assertion_failed
      else Ok (e\<lparr>eng_evm := v\<rparr>))"

definition cs_set_network_runtime ::
  "('c, 'x, 'o, 'd, 'h, 'a) cs_engine \<Rightarrow> bool \<Rightarrow> ('c, 'x, 'o, 'd, 'h, 'a) cs_engine outcome" where
  "cs_set_network_runtime e rt =
     (if check_already_running e then Ok e
      else if \<not> rt then Fault Assertion_failed
      else Ok (e\<lparr>net_rt := rt\<rparr>))"

definition cs_set_sim_type ::
  "('c, 'x, 'o, 'd, 'h, 'a) cs_engine \<Rightarrow> sim_type \<Rightarrow> ('c, 'x, 'o, 'd, 'h, 'a) cs_engine" where
  "cs_set_sim_type e st = e\<lparr>eng_st := st\<rparr>"

definition cs_event_driven_simulation :: "('c, 'x, 'o, 'd, 'h, 'a) cs_engine \<Rightarrow> bool" where
  "cs_event_driven_simulation e \<longleftrightarrow> eng_st e = EVENT_DRIVEN"

fun activity_to_string :: "activity_type \<Rightarrow> string" where
  "activity_to_string USER = ''USER''"
| "activity_to_string AFTER_STEP = ''AFTER_STEP''"

section \<open>The simulation loop\<close>

definition cs_stop_actors :: "('c, 'x, 'o, 'd, 'h, 'a) cs_engine \<Rightarrow> ('c, 'x, 'o, 'd, 'h, 'a) cs_engine outcome" where
  "cs_stop_actors e =
     (let e = e\<lparr>eng_evm := map_option cs_evm_stop_controller (eng_evm e)\<rparr> in
      case eng_timer e of
        None \<Rightarrow> Fault Null_dereference
      | Some t \<Rightarrow> Ok (e\<lparr>eng_timer := Some (cs_time_stop t)\<rparr>))"

text \<open>Running the activities of one type on the engine's list and pool.\<close>

type_synonym ('c, 'x, 'o) pool_ops =
  "('c \<Rightarrow> 'x cs_tsk_data \<Rightarrow> nat \<Rightarrow> ('c, 'x cs_tsk_data, 'o) cs_workerpool \<Rightarrow>
      (int \<times> ('c, 'x cs_tsk_data, 'o) cs_workerpool) outcome) \<times>
   (int \<Rightarrow> ('c, 'x cs_tsk_data, 'o) cs_workerpool \<Rightarrow> ('c, 'x cs_tsk_data, 'o) cs_workerpool outcome)"

definition engine_activities ::
  "('c, 'x, 'o) pool_ops \<Rightarrow> activity_type \<Rightarrow> ('c, 'x, 'o, 'd, 'h, 'a) cs_engine \<Rightarrow>
   ('c, 'x, 'o, 'd, 'h, 'a) cs_engine outcome" where
  "engine_activities ops ty e =
     (case (eng_timer e, alist e, eng_wp e) of
        (Some t, Some al, Some w) \<Rightarrow>
          obind (loop_activity (fst ops) (snd ops) True (cs_get_clock t) ty al w)
            (\<lambda>(al, _, w). Ok (e\<lparr>alist := Some al, eng_wp := Some w\<rparr>))
      | _ \<Rightarrow> Fault Null_dereference)"

text \<open>
  What the engine sees of the other threads in one turn: whether \<^verbatim>\<open>cs_evm_more_events\<close>
  holds, the timer and the event manager as it finds them after \<^verbatim>\<open>cs_time_sync\<close>, and, should
  it wait for the completion of the events, the manager when it is woken (\<open>None\<close> when
  nobody wakes it).
\<close>

record ('d, 'h) turn =
  more_events :: bool
  after_sync :: cs_timer
  manager :: "('d, 'h) evm_pool"
  woken :: "('d, 'h) evm_pool option"

definition await_events ::
  "('d, 'h) turn \<Rightarrow> ('c, 'x, 'o, 'd, 'h, 'a) cs_engine \<Rightarrow> ('c, 'x, 'o, 'd, 'h, 'a) cs_engine outcome" where
  "await_events tn e =
     (case eng_evm e of
        None \<Rightarrow> Ok e
      | Some v \<Rightarrow>
          if wait_event_completion v (cs_get_clock (after_sync tn)) then
            (case woken tn of None \<Rightarrow> Blocks | Some v' \<Rightarrow> Ok (e\<lparr>eng_evm := Some v'\<rparr>))
          else Ok e)"

text \<open>The \<open>break\<close> and the assertion behind the loop.\<close>

definition leave_loop ::
  "cs_clockv \<Rightarrow> ('c, 'x, 'o, 'd, 'h, 'a) cs_engine \<Rightarrow> ('c, 'x, 'o, 'd, 'h, 'a) cs_engine outcome" where
  "leave_loop cur e =
     obind (cs_stop_actors e)
       (\<lambda>e. case eng_timer e of
          None \<Rightarrow> Fault Null_dereference
        | Some t \<Rightarrow> obind (check (cur = cs_get_clock t) Assertion_failed) (\<lambda>_. Ok e))"

definition engine_turn ::
  "('c, 'x, 'o) pool_ops \<Rightarrow> ('d, 'h) turn \<Rightarrow> ('c, 'x, 'o, 'd, 'h, 'a) cs_engine \<Rightarrow>
   (bool \<times> ('c, 'x, 'o, 'd, 'h, 'a) cs_engine) outcome" where
  "engine_turn ops tn e =
     obind (engine_activities ops AFTER_STEP e)
       (\<lambda>e. obind (check_termination e)
         (\<lambda>b. let stop = b \<or> (eng_evm e \<noteq> None \<and> \<not> more_events tn \<and> cs_event_driven_simulation e);
                  e = e\<lparr>eng_timer := Some (after_sync tn),
                        eng_evm := map_option (\<lambda>_. manager tn) (eng_evm e)\<rparr>;
                  cur = cs_get_clock (after_sync tn)
              in if stop then obind (leave_loop cur e) (\<lambda>e. Ok (True, e))
                 else
                   obind (case eng_st e of ACTIVITY_SCAN \<Rightarrow> engine_activities ops USER e | EVENT_DRIVEN \<Rightarrow> Ok e)
                     (\<lambda>e. obind (await_events tn e) (\<lambda>e. Ok (False, e)))))"

text \<open>The loop over the turns given; \<open>None\<close> when it goes on after the last of them.\<close>

fun engine_loop ::
  "('c, 'x, 'o) pool_ops \<Rightarrow> ('d, 'h) turn list \<Rightarrow> ('c, 'x, 'o, 'd, 'h, 'a) cs_engine \<Rightarrow>
   ('c, 'x, 'o, 'd, 'h, 'a) cs_engine outcome option" where
  "engine_loop ops [] e = None"
| "engine_loop ops (tn # tns) e =
     (case engine_turn ops tn e of
        Ok (b, e) \<Rightarrow> if b then Some (Ok e) else engine_loop ops tns e
      | Blocks \<Rightarrow> Some Blocks
      | Fault f \<Rightarrow> Some (Fault f))"

text \<open>
  \<^verbatim>\<open>_engine_main_loop\<close>: it starts the event controller and the pool of the activities before
  the loop.  \<open>start_evm\<close> is \<^verbatim>\<open>cs_evm_start_controller\<close> with the start time 1, whose failure is only
  logged.
\<close>

definition engine_main_loop ::
  "('c, 'x, 'o) pool_ops \<Rightarrow> (('d, 'h) evm_pool \<Rightarrow> ('d, 'h) evm_pool outcome) \<Rightarrow> (nat \<Rightarrow> bool) \<Rightarrow> bool \<Rightarrow>
   ('d, 'h) turn list \<Rightarrow> ('c, 'x, 'o, 'd, 'h, 'a) cs_engine \<Rightarrow>
   ('c, 'x, 'o, 'd, 'h, 'a) cs_engine outcome option" where
  "engine_main_loop ops start_evm create create_ctl turns e =
     (case
        (case eng_evm e of
           None \<Rightarrow> Ok e
         | Some v \<Rightarrow>
             if cs_evm_running v = 0 then obind (start_evm v) (\<lambda>v. Ok (e\<lparr>eng_evm := Some v\<rparr>)) else Ok e)
      of
        Ok e \<Rightarrow>
          (case (alist e, eng_wp e) of
             (Some al, Some w) \<Rightarrow>
               engine_loop ops turns
                 (if nact al > 0 \<and> total_tasks al > 0 then e\<lparr>eng_wp := Some (snd (cs_wp_start create create_ctl w))\<rparr>
                  else e)
           | _ \<Rightarrow> Some (Fault Null_dereference))
      | Blocks \<Rightarrow> Some Blocks
      | Fault f \<Rightarrow> Some (Fault f))"

text \<open>\<^verbatim>\<open>cs_sim_start\<close> up to the loop: the actors are counted and the timer is told.\<close>

definition sim_actors :: "('c, 'x, 'o, 'd, 'h, 'a) cs_engine \<Rightarrow> int outcome" where
  "sim_actors e =
     (let c1 = (case alist e of None \<Rightarrow> 0 | Some al \<Rightarrow> if nact al > 0 then 1 else 0) :: int;
          c2 = (if net_rt e then 1 else 0);
          c3 = (if eng_evm e \<noteq> None then 1 else 0)
      in if c1 \<noteq> 0 \<or> c2 \<noteq> 0 \<or> c3 \<noteq> 0 then Ok (1 + (c2 + c3)) else Fault Assertion_failed)"

definition cs_sim_start ::
  "('c, 'x, 'o) pool_ops \<Rightarrow> (('d, 'h) evm_pool \<Rightarrow> ('d, 'h) evm_pool outcome) \<Rightarrow> (nat \<Rightarrow> bool) \<Rightarrow> bool \<Rightarrow>
   ('d, 'h) turn list \<Rightarrow> ('c, 'x, 'o, 'd, 'h, 'a) cs_engine \<Rightarrow>
   ('c, 'x, 'o, 'd, 'h, 'a) cs_engine outcome option" where
  "cs_sim_start ops start_evm create create_ctl turns e =
     (case eng_timer e of
        None \<Rightarrow> Some (Fault Exit_failure)
      | Some t \<Rightarrow>
          (case sim_actors e of
             Ok nactors \<Rightarrow>
               engine_main_loop ops start_evm create create_ctl turns
                 (e\<lparr>eng_timer := Some (cs_set_nsync t nactors)\<rparr>)
           | Blocks \<Rightarrow> Some Blocks
           | Fault f \<Rightarrow> Some (Fault f)))"

section \<open>Initialisation and end\<close>

text \<open>
  \<^verbatim>\<open>cs_init_engine\<close>.  The timer and the termination function keep what the memory of the engine
  (\<open>e\<close>) held.
\<close>

definition cs_init_engine ::
  "wp_alloc \<Rightarrow> bool \<Rightarrow> bool \<Rightarrow> bool \<Rightarrow> ('c, 'x, 'o, 'd, 'h, 'a) cs_engine option \<Rightarrow> int \<Rightarrow> int \<Rightarrow>
   (int \<times> ('c, 'x, 'o, 'd, 'h, 'a) cs_engine \<times> int) outcome" where
  "cs_init_engine a lock_alloc alist_alloc wp_block e wp_nworkers counter =
     (case e of
        None \<Rightarrow> Fault Assertion_failed
      | Some e \<Rightarrow>
          obind (cs_make_recursive_mutex lock_alloc lock_alloc)
            (\<lambda>_. let nw = (if wp_nworkers > 0 then wp_nworkers else 10) in
               if \<not> alist_alloc then Fault Null_dereference
               else
                 obind (cs_wp_init a (\<not> wp_block) nw (nw * 10) ''ENG-UACT'' counter)
                   (\<lambda>(r, w, counter).
                     Ok (if r < 0 then -1 else 0,
                         e\<lparr>alist := Some \<lparr>activities = [], nact = 0, total_tasks = 0\<rparr>, eng_wp := w,
                           eng_st := ACTIVITY_SCAN, net_rt := False, eng_evm := None, eng_running := 0\<rparr>,
                         counter))))"

text \<open>\<^verbatim>\<open>_destroy_activity_list\<close>: the names freed.\<close>

definition destroy_activity_list :: "('c, 'x) cs_activity_list option \<Rightarrow> string list outcome" where
  "destroy_activity_list al =
     (case al of None \<Rightarrow> Fault Null_dereference | Some al \<Rightarrow> Ok (map act_name (activities al)))"

definition cs_engine_fini ::
  "posix \<Rightarrow>
   ((ev_code, ev_input, unit) cs_workerpool \<Rightarrow> (int \<times> (ev_code, ev_input, unit) cs_workerpool) outcome) \<Rightarrow>
   (('c, 'x cs_tsk_data, 'o) cs_workerpool \<Rightarrow> (int \<times> ('c, 'x cs_tsk_data, 'o) cs_workerpool) outcome) \<Rightarrow>
   ('c, 'x, 'o, 'd, 'h, 'a) cs_engine \<Rightarrow> string list outcome" where
  "cs_engine_fini env join_evm join e =
     obind (case eng_evm e of None \<Rightarrow> Ok () | Some v \<Rightarrow> obind (cs_destroy_event_manager env join_evm v) (\<lambda>_. Ok ()))
       (\<lambda>_. case eng_wp e of
          None \<Rightarrow> Fault Null_dereference
        | Some w \<Rightarrow>
            obind (cs_wp_shutdown env join w)
              (\<lambda>(_, w). obind (cs_wp_destroy env join w) (\<lambda>_. destroy_activity_list (alist e))))"

section \<open>The division into tasks\<close>

text \<open>The items a task works on.\<close>

definition share_items :: "'x cs_tsk_data \<Rightarrow> int list" where
  "share_items p = [data_index p..data_index p + offset p]"

lemma nat_sdiv: "int a sdiv int b = int (a div b)"
  by (cases "a = 0 \<or> b = 0") (auto simp: signed_divide_int_def sgn_if zdiv_int)

lemma nat_smod: "int a smod int b = int (a mod b)"
  by (cases "a = 0") (auto simp: signed_modulo_int_def zmod_int)

lemma share_values:
  assumes "0 < th"
  shows "share_items (task_share data (int m) (int th) (int i)) =
    [int i * int (m div th)..int i * int (m div th) +
      (int (m div th) - 1 + (if i < th - 1 then 0 else int (m mod th)))]"
proof -
  have "int i < int th - 1 \<longleftrightarrow> i < th - 1" using assms by auto
  then show ?thesis by (simp add: share_items_def task_share_def nat_sdiv nat_smod Let_def)
qed

lemma equal_shares:
  "0 < b \<Longrightarrow> concat (map (\<lambda>i. [int i * b..int i * b + (b - 1)]) [0..<k]) = [0..int k * b - 1]"
proof (induction k)
  case (Suc k)
  have "[0..int k * b - 1] @ [int k * b..int (Suc k) * b - 1] = [0..int (Suc k) * b - 1]"
    using Suc.prems by (intro upto_split1 [symmetric]) (auto simp: algebra_simps)
  then show ?case using Suc by (simp add: algebra_simps)
qed simp

text \<open>With at least as many items as threads the shares cut the items without gap or overlap.\<close>

lemma shares_cover:
  assumes "0 < th" "th \<le> m"
  shows "concat (map (\<lambda>i. share_items (task_share data (int m) (int th) (int i))) [0..<th]) = [0..int m - 1]"
proof -
  obtain k where k: "th = Suc k" using assms(1) by (cases th) auto
  let ?b = "int (m div th)"
  have b: "0 < ?b" using assms by (simp add: div_greater_zero_iff)
  have "map (\<lambda>i. share_items (task_share data (int m) (int th) (int i))) [0..<k] =
      map (\<lambda>i. [int i * ?b..int i * ?b + (?b - 1)]) [0..<k]"
  proof (intro map_cong refl)
    fix i assume "i \<in> set [0..<k]"
    then have "i < th - 1" using k by simp
    then show "share_items (task_share data (int m) (int th) (int i)) = [int i * ?b..int i * ?b + (?b - 1)]"
      unfolding share_values [OF assms(1)] by simp
  qed
  then have first: "concat (map (\<lambda>i. share_items (task_share data (int m) (int th) (int i))) [0..<k]) =
      [0..int k * ?b - 1]"
    by (simp only: equal_shares [OF b])
  have "int th * ?b + int (m mod th) = int m"
    by (metis mult.commute div_mult_mod_eq of_nat_add of_nat_mult)
  then have eq: "int k * ?b + (?b - 1 + int (m mod th)) = int m - 1" using k by (simp add: algebra_simps)
  have nk: "\<not> k < th - 1" using k by simp
  have last: "share_items (task_share data (int m) (int th) (int k)) = [int k * ?b..int m - 1]"
    unfolding share_values [OF assms(1)] if_not_P [OF nk] eq ..
  have "int k * ?b \<le> int m - 1"
    using eq b by linarith
  then have "[0..int k * ?b - 1] @ [int k * ?b..int m - 1] = [0..int m - 1]"
    using b by (intro upto_split1 [symmetric]) auto
  then show ?thesis using first last k by simp
qed

text \<open>With fewer items than threads every share is empty.\<close>

lemma shares_empty:
  assumes "m < th" "i < m"
  shows "share_items (task_share data (int m) (int th) (int i)) = []"
  using assms by (simp add: share_items_def task_share_def nat_sdiv nat_smod Let_def)

section \<open>When activities run\<close>

text \<open>\<open>act\<close> is to run at the time \<open>c\<close>, counting from 1.\<close>

definition fires :: "activity_type \<Rightarrow> nat \<Rightarrow> ('c, 'x) cs_user_activity \<Rightarrow> bool" where
  "fires ty c act \<longleftrightarrow> act_type act = ty \<and> nat (nsteps act) dvd (c - 1)"

text \<open>The activity after the times \<open>1, ..., c\<close>.\<close>

definition ran_until :: "activity_type \<Rightarrow> nat \<Rightarrow> ('c, 'x) cs_user_activity \<Rightarrow> ('c, 'x) cs_user_activity" where
  "ran_until ty c act =
     (if act_type act = ty \<and> 0 < c then
        act\<lparr>last_execution_time := of_nat (c - (c - 1) mod nat (nsteps act))\<rparr>
      else act)"

text \<open>The activities as they are bound: not executed yet, with a positive period.\<close>

definition fresh_act :: "('c, 'x) cs_user_activity \<Rightarrow> bool" where
  "fresh_act act \<longleftrightarrow> last_execution_time act = -1 \<and> 0 < nsteps act"

lemma sint_of_nat: "c < 2 ^ 63 \<Longrightarrow> sint (of_nat c :: 64 word) = int c"
  by (simp add: signed_of_nat signed_take_bit_int_eq_self)

lemma last_multiple:
  fixes c k :: nat
  assumes "0 < c" "0 < k"
  shows "(Suc c - (c - (c - 1) mod k)) mod k = 0 \<longleftrightarrow> k dvd c"
proof -
  have "Suc c - (c - (c - 1) mod k) = Suc ((c - 1) mod k)"
    using assms mod_less_eq_dividend [of "c - 1" k] by linarith
  then have "(Suc c - (c - (c - 1) mod k)) mod k = Suc (c - 1) mod k" by (simp add: mod_Suc_eq)
  then show ?thesis using assms by (simp add: mod_eq_0_iff_dvd)
qed

lemma due_ran_until:
  assumes "fresh_act act" "Suc c < 2 ^ 63"
  shows "due (int (Suc c)) ty (ran_until ty c act) = Ok (fires ty (Suc c) act)"
proof (cases "act_type act = ty \<and> 0 < c")
  case True
  let ?k = "nat (nsteps act)"
  let ?l = "c - (c - 1) mod ?k"
  have k: "0 < ?k" "nsteps act = int ?k" using assms(1) by (auto simp: fresh_act_def)
  have l: "0 < ?l" "?l \<le> c" using True mod_less_eq_dividend [of "c - 1" ?k] by linarith+
  have s: "sint (of_nat ?l :: 64 word) = int ?l" using l(2) assms(2) by (intro sint_of_nat) simp
  have d: "int (Suc c) - int ?l = int (Suc c - ?l)" using l(2) by (simp add: of_nat_diff)
  have "int (Suc c - ?l) smod int ?k = 0 \<longleftrightarrow> ?k dvd c"
    unfolding nat_smod using last_multiple [of c ?k] True k(1) by simp
  then show ?thesis using True s d k l by (simp add: ran_until_def due_def fires_def)
next
  case False
  then show ?thesis using assms(1) by (auto simp: ran_until_def due_def fires_def fresh_act_def)
qed

lemma ran_until_Suc:
  assumes "fresh_act act"
  shows "ran_until ty (Suc c) act =
    (if fires ty (Suc c) act then (ran_until ty c act)\<lparr>last_execution_time := of_nat (Suc c)\<rparr>
     else ran_until ty c act)"
proof -
  let ?k = "nat (nsteps act)"
  have k: "0 < ?k" using assms by (simp add: fresh_act_def)
  have "\<not> ?k dvd c \<Longrightarrow> 0 < c \<Longrightarrow> Suc c - c mod ?k = c - (c - 1) mod ?k"
  proof -
    assume nd: "\<not> ?k dvd c" and c: "0 < c"
    have "c mod ?k = Suc ((c - 1) mod ?k)"
      using nd c mod_Suc [of "c - 1" ?k] by (metis Suc_diff_1 mod_eq_0_iff_dvd)
    then show ?thesis using mod_less_eq_dividend [of "c - 1" ?k] c by linarith
  qed
  then have eq: "ran_until ty (Suc c) act = ran_until ty c act" if "0 < c" "\<not> ?k dvd c"
    using that by (simp add: ran_until_def)
  show ?thesis
  proof (cases "act_type act = ty \<and> ?k dvd c")
    case True
    then have "c mod ?k = 0" by simp
    then show ?thesis using True by (simp add: ran_until_def fires_def)
  next
    case False
    then have "\<not> fires ty (Suc c) act" by (simp add: fires_def)
    moreover have "ran_until ty (Suc c) act = ran_until ty c act"
    proof (cases "act_type act = ty")
      case True
      then have "\<not> ?k dvd c" using False by simp
      moreover have "0 < c" using \<open>\<not> ?k dvd c\<close> by (cases "c = 0") auto
      ultimately show ?thesis by (rule eq [rotated])
    next
      case False
      then show ?thesis by (simp add: ran_until_def)
    qed
    ultimately show ?thesis by simp
  qed
qed

text \<open>A pool whose operations return.\<close>

definition ops_return ::
  "('c \<Rightarrow> 'x cs_tsk_data \<Rightarrow> nat \<Rightarrow> 'w \<Rightarrow> (int \<times> 'w) outcome) \<Rightarrow> (int \<Rightarrow> 'w \<Rightarrow> 'w outcome) \<Rightarrow> bool" where
  "ops_return enq wt \<longleftrightarrow> (\<forall>code p sz w. returns (enq code p sz w)) \<and> (\<forall>i w. returns (wt i w))"

lemma enqueue_parts_ok:
  assumes "ops_return enq wt"
  shows "\<exists>is w'. enqueue_parts enq code sz ps w = Ok (is, w') \<and> length is = length ps"
proof (induction ps arbitrary: w)
  case (Cons p ps)
  obtain i w1 where "enq code p sz w = Ok (i, w1)"
    using assms by (fastforce simp: ops_return_def returns_iff)
  then show ?case using Cons.IH [of w1] by auto
qed simp

lemma wait_all_ok:
  assumes "ops_return enq wt"
  shows "\<exists>w'. wait_all wt is w = Ok w'"
proof (induction "is" arbitrary: w)
  case (Cons i "is")
  obtain w1 where "wt i w = Ok w1" using assms by (fastforce simp: ops_return_def returns_iff)
  then show ?case using Cons.IH [of w1] by auto
qed simp

text \<open>How many tasks the activities that fire at the time \<open>c\<close> have.\<close>

definition tasks_at :: "activity_type \<Rightarrow> nat \<Rightarrow> ('c, 'x) cs_user_activity list \<Rightarrow> nat" where
  "tasks_at ty c acts = sum_list (map (\<lambda>a. length (tsk_data_arr a)) (filter (fires ty c) acts))"

lemma loop_acts_ok:
  assumes "ops_return enq wt" "Suc c < 2 ^ 63"
  shows "\<forall>a\<in>set acts. fresh_act a \<Longrightarrow>
    \<exists>is w'. loop_acts enq (of_nat (Suc c)) ty (map (ran_until ty c) acts) w =
      Ok (map (ran_until ty (Suc c)) acts, is, w') \<and> length is = tasks_at ty (Suc c) acts"
proof (induction acts arbitrary: w)
  case (Cons a acts)
  have d: "due (sint (of_nat (Suc c) :: 64 word)) ty (ran_until ty c a) = Ok (fires ty (Suc c) a)"
    unfolding sint_of_nat [OF assms(2)] using Cons.prems by (intro due_ran_until [OF _ assms(2)]) simp
  have r: "ran_until ty (Suc c) a =
      (if fires ty (Suc c) a then (ran_until ty c a)\<lparr>last_execution_time := of_nat (Suc c)\<rparr> else ran_until ty c a)"
    using Cons.prems by (intro ran_until_Suc) simp
  show ?case
  proof (cases "fires ty (Suc c) a")
    case True
    obtain is1 w1 where e: "enqueue_parts enq (act_code (ran_until ty c a)) (total_data_size (ran_until ty c a))
        (tsk_data_arr (ran_until ty c a)) w = Ok (is1, w1)" "length is1 = length (tsk_data_arr (ran_until ty c a))"
      using enqueue_parts_ok [OF assms(1)] by blast
    obtain is2 w2 where "loop_acts enq (of_nat (Suc c)) ty (map (ran_until ty c) acts) w1 =
        Ok (map (ran_until ty (Suc c)) acts, is2, w2)" "length is2 = tasks_at ty (Suc c) acts"
      using Cons.IH [of w1] Cons.prems by auto
    moreover have "tsk_data_arr (ran_until ty c a) = tsk_data_arr a" by (simp add: ran_until_def)
    ultimately show ?thesis using d r e True by (simp add: tasks_at_def del: of_nat_Suc)
  next
    case False
    then show ?thesis using d r Cons.IH [of w] Cons.prems by (auto simp: tasks_at_def simp del: of_nat_Suc)
  qed
qed (simp add: tasks_at_def)

text \<open>The calls of \<^verbatim>\<open>_loop_activity\<close> at the clock values given: the ids handed out at each.\<close>

fun clock_run ::
  "('c \<Rightarrow> 'x cs_tsk_data \<Rightarrow> nat \<Rightarrow> 'w \<Rightarrow> (int \<times> 'w) outcome) \<Rightarrow> (int \<Rightarrow> 'w \<Rightarrow> 'w outcome) \<Rightarrow> activity_type \<Rightarrow>
   cs_clockv list \<Rightarrow> ('c, 'x) cs_activity_list \<Rightarrow> 'w \<Rightarrow> int list list outcome" where
  "clock_run enq wt ty [] al w = Ok []"
| "clock_run enq wt ty (c # cs) al w =
     obind (loop_activity enq wt True c ty al w)
       (\<lambda>(al, is, w). obind (clock_run enq wt ty cs al w) (\<lambda>iss. Ok (is # iss)))"

lemma clock_run_ok:
  assumes "ops_return enq wt" "\<forall>a\<in>set acts. fresh_act a" "acts \<noteq> []" "0 < tt"
  shows "c + n < 2 ^ 63 \<Longrightarrow>
    \<exists>iss. clock_run enq wt ty (map of_nat [Suc c..<Suc (c + n)])
        \<lparr>activities = map (ran_until ty c) acts, nact = na, total_tasks = tt\<rparr> w = Ok iss \<and>
      map length iss = map (\<lambda>t. tasks_at ty t acts) [Suc c..<Suc (c + n)]"
proof (induction n arbitrary: c w)
  case (Suc n)
  have b: "Suc c < 2 ^ 63" using Suc.prems by simp
  obtain js w1 where l: "loop_acts enq (of_nat (Suc c)) ty (map (ran_until ty c) acts) w =
      Ok (map (ran_until ty (Suc c)) acts, js, w1)" "length js = tasks_at ty (Suc c) acts"
    using loop_acts_ok [OF assms(1) b assms(2)] by blast
  obtain w2 where w2: "wait_all wt js w1 = Ok w2" using wait_all_ok [OF assms(1)] by blast
  have pos: "\<not> sint (of_nat (Suc c) :: 64 word) \<le> 0" unfolding sint_of_nat [OF b] by simp
  have la: "loop_activity enq wt True (of_nat (Suc c)) ty
      \<lparr>activities = map (ran_until ty c) acts, nact = na, total_tasks = tt\<rparr> w =
      Ok (\<lparr>activities = map (ran_until ty (Suc c)) acts, nact = na, total_tasks = tt\<rparr>, js, w2)"
    using l(1) w2 pos assms(3,4) by (simp add: loop_activity_def del: of_nat_Suc)
  obtain iss where "clock_run enq wt ty (map of_nat [Suc (Suc c)..<Suc (Suc c + n)])
      \<lparr>activities = map (ran_until ty (Suc c)) acts, nact = na, total_tasks = tt\<rparr> w2 = Ok iss"
    "map length iss = map (\<lambda>t. tasks_at ty t acts) [Suc (Suc c)..<Suc (Suc c + n)]"
    using Suc.IH [of "Suc c" w2] Suc.prems by auto
  moreover have "[Suc c..<Suc (c + Suc n)] = Suc c # [Suc (Suc c)..<Suc (Suc c + n)]"
    by (simp add: upt_conv_Cons del: upt_Suc)
  ultimately show ?case using la l(2) by (simp del: upt_Suc of_nat_Suc)
qed simp

lemma ran_until_0: "map (ran_until ty 0) acts = acts"
  by (induction acts) (simp_all add: ran_until_def)

section \<open>Properties\<close>


text \<open>
  With fewer items than workers every task of the activity is given an empty range
  (an offset of -1 from item 0), so no item is processed.
\<close>

theorem bind_few_items_lost:
  assumes "eng_wp e = Some pool" "nthreads pool = th" "m < th" "alist e = Some al"
    and "cs_bind_sim_activity True True True code data sz (int m) steps ty aname e = Ok e'"
  shows "\<exists>act. alist e' = Some \<lparr>activities = activities al @ [act], nact = nact al + 1,
      total_tasks = total_tasks al + int m\<rparr> \<and>
    length (tsk_data_arr act) = m \<and> concat (map share_items (tsk_data_arr act)) = []"
proof -
  let ?parts = "map (\<lambda>i. task_share data (int m) (int th) (int i)) [0..<m]"
  have "concat (map share_items ?parts) = []" using shares_empty [OF assms(3), of _ data] by simp
  then show ?thesis using assms
    by (cases al) (auto simp: cs_bind_sim_activity_def insert_into_activity_list_def Let_def)
qed


text \<open>An engine with a pool of two workers, no activity, and a termination function that
  ends the simulation at once.\<close>

definition small_engine :: "(nat, nat, nat, nat, nat, nat) cs_engine" where
  "small_engine =
     \<lparr>alist = Some \<lparr>activities = [], nact = 0, total_tasks = 0\<rparr>, eng_evm = None, net_rt = False,
      eng_wp = Some
        \<lparr>wp_status = CS_WPS_READY, nthreads = 2, wid = 1, wp_name = pool_name 1 ''e'',
         workerpool_semaphore = 2, workers_data = (\<lambda>_. zero_worker),
         tsk_res_table = \<lparr>rb_root = Null, rb_compare = cs_wp_cmp_tsk, rb_count = 0, rb_generation = 0\<rparr>,
         tsk_q = \<lparr>qsize = 0, qname = ''e'', qstatus = QOPENED, qhead = None, qtail = None, qsem = 0,
                  qlimit_sem = 20, qheap = Map.empty\<rparr>,
         tasks = Map.empty\<rparr>,
      eng_timer = Some \<lparr>tm_id = ''t'', stop = 0, n_sync = 2, sync = 0, clock = 0\<rparr>,
      term_func = Some (\<lambda>_. 1), term_func_args = 0, eng_st = ACTIVITY_SCAN, eng_running = 0\<rparr>"

lemma small_engine_parts:
  "\<exists>pool. eng_wp small_engine = Some pool \<and> nthreads pool = 2"
  "alist small_engine = Some \<lparr>activities = [], nact = 0, total_tasks = 0\<rparr>"
  by (simp_all add: small_engine_def)


lemma bind_few_items_lost_witness:
  "\<exists>e' act. cs_bind_sim_activity True True True 0 7 100 1 3 USER ''a'' small_engine = Ok e' \<and>
    alist e' = Some \<lparr>activities = [act], nact = 1, total_tasks = 1\<rparr> \<and>
    concat (map share_items (tsk_data_arr act)) = []"
proof -
  obtain pool where p: "eng_wp small_engine = Some pool" "nthreads pool = 2"
    using small_engine_parts(1) by blast
  have b: "(1 :: nat) < 2" by simp
  have "returns (cs_bind_sim_activity True True True 0 7 100 1 3 USER ''a'' small_engine)"
    by (simp add: small_engine_def cs_bind_sim_activity_def insert_into_activity_list_def Let_def)
  then obtain e' where e: "cs_bind_sim_activity True True True 0 7 100 1 3 USER ''a'' small_engine = Ok e'"
    by (auto simp: returns_iff)
  show ?thesis
    using bind_few_items_lost [OF p b small_engine_parts(2), of 0 7 100 3 USER "''a''" e'] e by fastforce
qed

text \<open>An activity of two tasks with the period 2.\<close>

definition every_other :: "(nat, nat) cs_user_activity" where
  "every_other = \<lparr>act_code = 0, tsk_data_arr = [task_share 7 4 2 0, task_share 7 4 2 1], nsteps = 2,
     act_name = ''a'', n_tasks = 2, total_data_size = 100, last_execution_time = -1, act_type = USER\<rparr>"


end
