(* ===== verification/CS_Sim.thy ===== *)
theory CS_Sim
  imports CS_Engine
begin

text \<open>
  A whole simulation: the thread that runs \<^verbatim>\<open>_engine_main_loop\<close> and the worker that runs
  \<^verbatim>\<open>_ev_controller\<close>, which meet on the timer, share the event manager and wait for each other
  (\<^verbatim>\<open>wait_event_completion\<close>).  Each step is what one of the two does between two points at which
  the other can get in; the mutexes of the sources make the steps atomic.  The tasks of a
  round, whose interleavings \<open>CS_Events\<close> treats, are one step here: the controller waits for
  them.  The test for the end, the reading of the clock and the taking of the events are one step of
  the controller, because nothing another thread does in between touches the event tree.  The wake-ups of the condition variables are without spurious ones.
\<close>

section \<open>The two threads\<close>

text \<open>Where the engine is in its loop; the flag is its local \<open>stop\<close>, the word its \<open>cur_time\<close>.\<close>

datatype engine_pc =
    E_top
  | E_test
  | E_sync bool
  | E_waiting bool
  | E_woken bool
  | E_synced bool
  | E_user cs_clockv
  | E_await cs_clockv
  | E_blocked
  | E_stop cs_clockv
  | E_stop_timer cs_clockv
  | E_assert cs_clockv
  | E_done

text \<open>Where the event controller is; the number is what \<^verbatim>\<open>cs_time_sync\<close> returned.\<close>

datatype ev_controller_pc =
    C_start
  | C_sync
  | C_waiting
  | C_woken
  | C_ret int
  | C_signal cs_clockv
  | C_done

text \<open>
  The engine's record holds the timer and the event manager the threads share.  \<open>history\<close> records
  the rounds: the clock, the list taken out of the event tree, and the events in the order in
  which they were raised.
\<close>

record ('c, 'x, 'o, 'd, 'h, 'a) sim =
  eng :: "('c, 'x, 'o, 'd, 'h, 'a) cs_engine"
  epc :: engine_pc
  cpc :: ev_controller_pc
  clock_ticks :: nat
  history :: "(int \<times> 'd cs_event list \<times> 'd cs_event list) list"
  broken :: "fault option"

text \<open>A broadcast on the condition variable of the timer.\<close>

fun wake_engine :: "engine_pc \<Rightarrow> engine_pc" where
  "wake_engine (E_waiting b) = E_woken b"
| "wake_engine p = p"

fun wake_controller :: "ev_controller_pc \<Rightarrow> ev_controller_pc" where
  "wake_controller C_waiting = C_woken"
| "wake_controller p = p"

text \<open>A broadcast on the condition variable of the completion of events.\<close>

fun release_engine :: "engine_pc \<Rightarrow> engine_pc" where
  "release_engine E_blocked = E_top"
| "release_engine p = p"

definition with_timer ::
  "('c, 'x, 'o, 'd, 'h, 'a) cs_engine \<Rightarrow> cs_timer \<Rightarrow> ('c, 'x, 'o, 'd, 'h, 'a) cs_engine" where
  "with_timer e t = e\<lparr>eng_timer := Some t\<rparr>"

definition with_evm ::
  "('c, 'x, 'o, 'd, 'h, 'a) cs_engine \<Rightarrow> ('d, 'h) evm_pool \<Rightarrow> ('c, 'x, 'o, 'd, 'h, 'a) cs_engine" where
  "with_evm e v = e\<lparr>eng_evm := Some v\<rparr>"

text \<open>The body of the loop of \<^verbatim>\<open>_engine_main_loop\<close>, with an event manager.\<close>

inductive engine_step ::
  "('c, 'x, 'o) pool_ops \<Rightarrow> ('c, 'x, 'o, 'd, 'h, 'a) sim \<Rightarrow> ('c, 'x, 'o, 'd, 'h, 'a) sim \<Rightarrow> bool" for ops where
  after_step: "broken s = None \<Longrightarrow> epc s = E_top \<Longrightarrow> engine_activities ops AFTER_STEP (eng s) = Ok e \<Longrightarrow>
    engine_step ops s (s\<lparr>eng := e, epc := E_test\<rparr>)"
| after_step_fault: "broken s = None \<Longrightarrow> epc s = E_top \<Longrightarrow>
    engine_activities ops AFTER_STEP (eng s) = Fault f \<Longrightarrow> engine_step ops s (s\<lparr>broken := Some f\<rparr>)"
| test: "broken s = None \<Longrightarrow> epc s = E_test \<Longrightarrow> eng_evm (eng s) = Some v \<Longrightarrow> check_termination (eng s) = Ok b \<Longrightarrow>
    cs_evm_more_events v = Ok found \<Longrightarrow>
    engine_step ops s (s\<lparr>epc := E_sync (b \<or> (\<not> found \<and> cs_event_driven_simulation (eng s)))\<rparr>)"
| test_fault: "broken s = None \<Longrightarrow> epc s = E_test \<Longrightarrow> eng_evm (eng s) = Some v \<Longrightarrow>
    check_termination (eng s) = Fault f \<or> (check_termination (eng s) = Ok False \<and> cs_evm_more_events v = Fault f) \<Longrightarrow>
    engine_step ops s (s\<lparr>broken := Some f\<rparr>)"
| meet_wait: "broken s = None \<Longrightarrow> epc s = E_sync b \<Longrightarrow> eng_timer (eng s) = Some t \<Longrightarrow>
    cs_time_sync t = (Waits, t') \<Longrightarrow>
    engine_step ops s (s\<lparr>eng := with_timer (eng s) t', epc := E_waiting b\<rparr>)"
| meet_tick: "broken s = None \<Longrightarrow> epc s = E_sync b \<Longrightarrow> eng_timer (eng s) = Some t \<Longrightarrow>
    cs_time_sync t = (Broadcasts, t') \<Longrightarrow>
    engine_step ops s (s\<lparr>eng := with_timer (eng s) t', epc := E_synced b, cpc := wake_controller (cpc s),
      clock_ticks := Suc (clock_ticks s)\<rparr>)"
| meet_fail: "broken s = None \<Longrightarrow> epc s = E_sync b \<Longrightarrow> eng_timer (eng s) = Some t \<Longrightarrow>
    cs_time_sync t = (Returns r, t') \<Longrightarrow> engine_step ops s (s\<lparr>epc := E_synced b\<rparr>)"
| meet_woken: "broken s = None \<Longrightarrow> epc s = E_woken b \<Longrightarrow> engine_step ops s (s\<lparr>epc := E_synced b\<rparr>)"
| read_clock: "broken s = None \<Longrightarrow> epc s = E_synced b \<Longrightarrow> eng_timer (eng s) = Some t \<Longrightarrow>
    engine_step ops s (s\<lparr>epc := (if b then E_stop (cs_get_clock t) else E_user (cs_get_clock t))\<rparr>)"
| stop_events: "broken s = None \<Longrightarrow> epc s = E_stop cur \<Longrightarrow> eng_evm (eng s) = Some v \<Longrightarrow>
    engine_step ops s (s\<lparr>eng := with_evm (eng s) (cs_evm_stop_controller v), epc := E_stop_timer cur\<rparr>)"
| stop_clock: "broken s = None \<Longrightarrow> epc s = E_stop_timer cur \<Longrightarrow> eng_timer (eng s) = Some t \<Longrightarrow>
    engine_step ops s (s\<lparr>eng := with_timer (eng s) (cs_time_stop t), epc := E_assert cur,
      cpc := wake_controller (cpc s)\<rparr>)"
| leave: "broken s = None \<Longrightarrow> epc s = E_assert cur \<Longrightarrow> eng_timer (eng s) = Some t \<Longrightarrow>
    cur = cs_get_clock t \<Longrightarrow> engine_step ops s (s\<lparr>epc := E_done\<rparr>)"
| leave_fault: "broken s = None \<Longrightarrow> epc s = E_assert cur \<Longrightarrow> eng_timer (eng s) = Some t \<Longrightarrow>
    cur \<noteq> cs_get_clock t \<Longrightarrow> engine_step ops s (s\<lparr>broken := Some Assertion_failed\<rparr>)"
| user: "broken s = None \<Longrightarrow> epc s = E_user cur \<Longrightarrow>
    (case eng_st (eng s) of ACTIVITY_SCAN \<Rightarrow> engine_activities ops USER (eng s) | EVENT_DRIVEN \<Rightarrow> Ok (eng s)) = Ok e \<Longrightarrow>
    engine_step ops s (s\<lparr>eng := e, epc := E_await cur\<rparr>)"
| user_fault: "broken s = None \<Longrightarrow> epc s = E_user cur \<Longrightarrow>
    (case eng_st (eng s) of ACTIVITY_SCAN \<Rightarrow> engine_activities ops USER (eng s) | EVENT_DRIVEN \<Rightarrow> Ok (eng s)) = Fault f \<Longrightarrow>
    engine_step ops s (s\<lparr>broken := Some f\<rparr>)"
| await: "broken s = None \<Longrightarrow> epc s = E_await cur \<Longrightarrow> eng_evm (eng s) = Some v \<Longrightarrow>
    engine_step ops s (s\<lparr>epc := (if wait_event_completion v cur then E_blocked else E_top)\<rparr>)"

text \<open>\<^verbatim>\<open>_ev_controller\<close>; \<open>run\<close> is what the handlers do.\<close>

inductive controller_sim_step ::
  "('d, 'h, (ev_code, ev_input, unit) cs_workerpool) run_handler \<Rightarrow>
   ('c, 'x, 'o, 'd, 'h, 'a) sim \<Rightarrow> ('c, 'x, 'o, 'd, 'h, 'a) sim \<Rightarrow> bool" for run where
  begin_loop: "broken s = None \<Longrightarrow> cpc s = C_start \<Longrightarrow> eng_evm (eng s) = Some v \<Longrightarrow>
    controller_sim_step run s (s\<lparr>eng := with_evm (eng s) (evm_set_running v), cpc := C_sync\<rparr>)"
| join_wait: "broken s = None \<Longrightarrow> cpc s = C_sync \<Longrightarrow> eng_timer (eng s) = Some t \<Longrightarrow>
    cs_time_sync t = (Waits, t') \<Longrightarrow>
    controller_sim_step run s (s\<lparr>eng := with_timer (eng s) t', cpc := C_waiting\<rparr>)"
| join_tick: "broken s = None \<Longrightarrow> cpc s = C_sync \<Longrightarrow> eng_timer (eng s) = Some t \<Longrightarrow>
    cs_time_sync t = (Broadcasts, t') \<Longrightarrow>
    controller_sim_step run s (s\<lparr>eng := with_timer (eng s) t', cpc := C_ret 0, epc := wake_engine (epc s),
      clock_ticks := Suc (clock_ticks s)\<rparr>)"
| join_fail: "broken s = None \<Longrightarrow> cpc s = C_sync \<Longrightarrow> eng_timer (eng s) = Some t \<Longrightarrow>
    cs_time_sync t = (Returns r, t') \<Longrightarrow> controller_sim_step run s (s\<lparr>cpc := C_ret r\<rparr>)"
| join_woken: "broken s = None \<Longrightarrow> cpc s = C_woken \<Longrightarrow> controller_sim_step run s (s\<lparr>cpc := C_ret 0\<rparr>)"
| end_loop: "broken s = None \<Longrightarrow> cpc s = C_ret r \<Longrightarrow> eng_timer (eng s) = Some t \<Longrightarrow> eng_evm (eng s) = Some v \<Longrightarrow>
    ev_controller_round True r (cs_get_clock t) v = Ok (Round_break, v') \<Longrightarrow>
    controller_sim_step run s (s\<lparr>eng := with_evm (eng s) (evm_set_not_running v'), cpc := C_done\<rparr>)"
| early: "broken s = None \<Longrightarrow> cpc s = C_ret r \<Longrightarrow> eng_timer (eng s) = Some t \<Longrightarrow> eng_evm (eng s) = Some v \<Longrightarrow>
    ev_controller_round True r (cs_get_clock t) v = Ok (Round_continue, v') \<Longrightarrow>
    controller_sim_step run s (s\<lparr>eng := with_evm (eng s) v', cpc := C_sync\<rparr>)"
| no_events: "broken s = None \<Longrightarrow> cpc s = C_ret r \<Longrightarrow> eng_timer (eng s) = Some t \<Longrightarrow> eng_evm (eng s) = Some v \<Longrightarrow>
    ev_controller_round True r (cs_get_clock t) v = Ok (Round_empty, v') \<Longrightarrow>
    controller_sim_step run s (s\<lparr>eng := with_evm (eng s) v', cpc := C_signal (cs_get_clock t)\<rparr>)"
| raise_events: "broken s = None \<Longrightarrow> cpc s = C_ret r \<Longrightarrow> eng_timer (eng s) = Some t \<Longrightarrow> eng_evm (eng s) = Some v \<Longrightarrow>
    ev_controller_round True r (cs_get_clock t) v = Ok (Round_tasks l args, v') \<Longrightarrow>
    ev_steps run (length args) (round_net v' l args) n \<Longrightarrow> round_over (length args) n \<Longrightarrow>
    controller_sim_step run s (s\<lparr>eng := with_evm (eng s) (mgr n), cpc := C_signal (cs_get_clock t),
      history := history s @ [(sint (cs_get_clock t), ev_items l, raised n)]\<rparr>)"
| raise_events_fault: "broken s = None \<Longrightarrow> cpc s = C_ret r \<Longrightarrow> eng_timer (eng s) = Some t \<Longrightarrow>
    eng_evm (eng s) = Some v \<Longrightarrow> ev_controller_round True r (cs_get_clock t) v = Ok (Round_tasks l args, v') \<Longrightarrow>
    ev_steps run (length args) (round_net v' l args) n \<Longrightarrow> failed n = Some f \<Longrightarrow>
    controller_sim_step run s (s\<lparr>broken := Some f\<rparr>)"
| round_fault: "broken s = None \<Longrightarrow> cpc s = C_ret r \<Longrightarrow> eng_timer (eng s) = Some t \<Longrightarrow> eng_evm (eng s) = Some v \<Longrightarrow>
    ev_controller_round True r (cs_get_clock t) v = Fault f \<Longrightarrow>
    controller_sim_step run s (s\<lparr>broken := Some f\<rparr>)"
| signal: "broken s = None \<Longrightarrow> cpc s = C_signal cur \<Longrightarrow> eng_evm (eng s) = Some v \<Longrightarrow>
    controller_sim_step run s (s\<lparr>eng := with_evm (eng s) (signal_event_completion v cur), cpc := C_sync,
      epc := release_engine (epc s)\<rparr>)"

definition sim_step ::
  "('c, 'x, 'o) pool_ops \<Rightarrow> ('d, 'h, (ev_code, ev_input, unit) cs_workerpool) run_handler \<Rightarrow>
   ('c, 'x, 'o, 'd, 'h, 'a) sim \<Rightarrow> ('c, 'x, 'o, 'd, 'h, 'a) sim \<Rightarrow> bool" where
  "sim_step ops run s s' \<longleftrightarrow> engine_step ops s s' \<or> controller_sim_step run s s'"

text \<open>The start: the engine before its loop, the controller as the first task of its pool.\<close>

definition sim_start :: "('c, 'x, 'o, 'd, 'h, 'a) cs_engine \<Rightarrow> ('c, 'x, 'o, 'd, 'h, 'a) sim" where
  "sim_start e = \<lparr>eng = e, epc = E_top, cpc = C_start, clock_ticks = 0, history = [], broken = None\<rparr>"

inductive sim_run ::
  "('c, 'x, 'o) pool_ops \<Rightarrow> ('d, 'h, (ev_code, ev_input, unit) cs_workerpool) run_handler \<Rightarrow>
   ('c, 'x, 'o, 'd, 'h, 'a) cs_engine \<Rightarrow> nat \<Rightarrow> ('c, 'x, 'o, 'd, 'h, 'a) sim \<Rightarrow> bool" for ops run e where
  run_start: "sim_run ops run e 0 (sim_start e)"
| run_step: "sim_run ops run e k s \<Longrightarrow> sim_step ops run s s' \<Longrightarrow> sim_run ops run e (Suc k) s'"

end
