(* ===== verification/CS_Sim_Inv.thy ===== *)
theory CS_Sim_Inv
  imports CS_Sim
begin

text \<open>
  The invariant of a simulation: where the two threads can be at the same time, what the timer,
  the event manager and the history of rounds then hold, and that every step of either thread
  keeps it; and that some step is possible until both have ended.
\<close>

section \<open>What the parts do\<close>

definition acts_ok :: "('c, 'x) cs_activity_list \<Rightarrow> bool" where
  "acts_ok al \<longleftrightarrow> (0 < total_tasks al \<longrightarrow> activities al \<noteq> []) \<and> (\<forall>a\<in>set (activities al). nsteps a \<noteq> 0)"

lemma loop_acts_total:
  assumes "ops_return enq wt"
  shows "\<forall>a\<in>set acts. nsteps a \<noteq> 0 \<Longrightarrow> \<exists>acts' is w'. loop_acts enq cur ty acts w = Ok (acts', is, w') \<and>
    length acts' = length acts \<and> (\<forall>a\<in>set acts'. nsteps a \<noteq> 0)"
proof (induction acts arbitrary: w)
  case (Cons a acts)
  have "returns (due (sint cur) ty a)" using Cons.prems by (simp add: due_def)
  then obtain b where b: "due (sint cur) ty a = Ok b" by (auto simp: returns_iff)
  show ?case
  proof (cases b)
    case True
    obtain is1 w1 where "enqueue_parts enq (act_code a) (total_data_size a) (tsk_data_arr a) w = Ok (is1, w1)"
      using enqueue_parts_ok [OF assms] by blast
    then show ?thesis using b True Cons.IH [of w1] Cons.prems by fastforce
  next
    case False
    then show ?thesis using b Cons.IH [of w] Cons.prems by fastforce
  qed
qed simp

lemma engine_activities_total:
  assumes "ops_return (fst ops) (snd ops)" "eng_timer e = Some t" "alist e = Some al" "acts_ok al" "eng_wp e = Some w"
  shows "\<exists>al' w'. engine_activities ops ty e = Ok (e\<lparr>alist := Some al', eng_wp := Some w'\<rparr>) \<and> acts_ok al'"
proof -
  have acts: "\<forall>a\<in>set (activities al). nsteps a \<noteq> 0" using assms(4) by (simp add: acts_ok_def)
  obtain acts' js w1 where l: "loop_acts (fst ops) (cs_get_clock t) ty (activities al) w = Ok (acts', js, w1)"
    "length acts' = length (activities al)" "\<forall>a\<in>set acts'. nsteps a \<noteq> 0"
    using loop_acts_total [OF assms(1) acts] by blast
  obtain w2 where w2: "wait_all (snd ops) js w1 = Ok w2" using wait_all_ok [OF assms(1)] by blast
  have "acts_ok (al\<lparr>activities := acts'\<rparr>)"
    using l(2,3) assms(4) by (auto simp: acts_ok_def)
  then show ?thesis using l(1) w2 assms
    by (auto simp: engine_activities_def loop_activity_def acts_ok_def)
qed

text \<open>A round comes to its end.\<close>

lemma ev_steps_trans: "ev_steps run m s1 s2 \<Longrightarrow> ev_steps run m s0 s1 \<Longrightarrow> ev_steps run m s0 s2"
  by (induction rule: ev_steps.induct) (auto intro: ev_steps.intros)

lemma round_completes:
  assumes "round_sound m es s" "handlers_return run"
  shows "\<exists>n. ev_steps run m s n \<and> round_over m n \<and> round_sound m es n"
  using assms
proof (induction "\<Sum>w<m. fst (work s w)" arbitrary: s rule: less_induct)
  case less
  show ?case
  proof (cases "round_over m s")
    case False
    then obtain s' where s': "ev_step run m s s'" using round_moves [OF less.prems(1) _ less.prems(2)] by blast
    have r: "round_sound m es s'" by (rule round_sound_step [OF s' less.prems])
    have "(\<Sum>w<m. fst (work s' w)) < (\<Sum>w<m. fst (work s w))"
      using s'
    proof cases
      case (raise w k e es' st v)
      then show ?thesis by (intro sum_strict_mono_ex1) auto
    qed (use r in \<open>auto simp: round_sound_def\<close>)
    then obtain n where "ev_steps run m s' n" "round_over m n" "round_sound m es n"
      using less.hyps r less.prems(2) by blast
    then show ?thesis using ev_steps_trans ev_steps.more [OF ev_steps.none s'] by blast
  qed (use less.prems ev_steps.none in blast)
qed

text \<open>
  Handlers that may file events, but for later than the clock, which is one ahead of the last
  completion while a round runs.
\<close>

definition forward :: "('d, 'h, 'w) run_handler \<Rightarrow> bool" where
  "forward run \<longleftrightarrow> (\<forall>h e v st v'. evm_ok v \<longrightarrow> run h e v = Ok (st, v') \<longrightarrow>
     evm_ok v' \<and> nworkers v' = nworkers v \<and> start_time v' = start_time v \<and> ev_stop v' = ev_stop v \<and>
     last_completion v' = last_completion v \<and>
     (\<forall>\<tau>\<le> sint (last_completion v) + 1. events_at v' \<tau> = events_at v \<tau>))"

definition kept :: "('d, 'h, 'w) cs_event_manager \<Rightarrow> ('d, 'h, 'w) cs_event_manager \<Rightarrow> bool" where
  "kept v v' \<longleftrightarrow> evm_ok v' \<and> nworkers v' = nworkers v \<and> start_time v' = start_time v \<and> ev_stop v' = ev_stop v \<and>
     last_completion v' = last_completion v \<and>
     (\<forall>\<tau>\<le> sint (last_completion v) + 1. events_at v' \<tau> = events_at v \<tau>)"

lemma throw_kept:
  assumes "forward run" "evm_ok v" "cs_evm_throw_event run v (Some e) = Ok (st, v')"
  shows "kept v v'"
proof -
  have "v' = v \<or> (\<exists>h. run h e v = Ok (st, v'))"
    using assms(3) by (auto simp: cs_evm_throw_event_def outcome_simps split: option.splits)
  then show ?thesis
  proof
    assume "\<exists>h. run h e v = Ok (st, v')"
    then show ?thesis using assms(1,2) unfolding forward_def kept_def by blast
  qed (simp add: kept_def assms(2))
qed

lemma kept_trans: "kept u v \<Longrightarrow> kept v w \<Longrightarrow> kept u w"
  by (simp add: kept_def)

lemma round_kept:
  assumes "forward run" "evm_ok v"
  shows "ev_steps run m (round_net v l args) n \<Longrightarrow> kept v (mgr n)"
proof (induction rule: ev_steps.induct)
  case none
  then show ?case using assms(2) by (simp add: kept_def round_net_def)
next
  case (more s s')
  have "evm_ok (mgr s)" using more.IH by (simp add: kept_def)
  with more(2) have "mgr s' = mgr s \<or> kept (mgr s) (mgr s')"
    by cases (simp_all add: throw_kept [OF assms(1)])
  then show ?case using more.IH kept_trans by metis
qed

section \<open>The invariant of a simulation\<close>

text \<open>The engine between two rounds, after its decision to stop, and after it has told the others.\<close>

fun e_idle :: "engine_pc \<Rightarrow> bool" where
  "e_idle E_top = True" | "e_idle E_test = True" | "e_idle (E_sync b) = True" | "e_idle (E_waiting b) = True"
| "e_idle p = False"

fun e_waits :: "engine_pc \<Rightarrow> bool" where
  "e_waits (E_waiting b) = True" | "e_waits p = False"

fun e_stopped :: "engine_pc \<Rightarrow> bool" where
  "e_stopped (E_assert cur) = True" | "e_stopped E_done = True" | "e_stopped p = False"

fun e_quit :: "engine_pc \<Rightarrow> bool" where
  "e_quit (E_stop_timer cur) = True" | "e_quit p = e_stopped p"

fun e_decided :: "engine_pc \<Rightarrow> bool" where
  "e_decided (E_sync b) = b" | "e_decided (E_waiting b) = b" | "e_decided (E_woken b) = b"
| "e_decided (E_synced b) = b" | "e_decided (E_stop cur) = True" | "e_decided p = e_quit p"

fun e_cur :: "engine_pc \<Rightarrow> cs_clockv option" where
  "e_cur (E_user cur) = Some cur" | "e_cur (E_await cur) = Some cur" | "e_cur (E_stop cur) = Some cur"
| "e_cur (E_stop_timer cur) = Some cur" | "e_cur (E_assert cur) = Some cur" | "e_cur p = None"

text \<open>The controller between two rounds, and before it has taken the events of the round.\<close>

fun c_idle :: "ev_controller_pc \<Rightarrow> bool" where
  "c_idle C_start = True" | "c_idle C_sync = True" | "c_idle C_waiting = True" | "c_idle p = False"

fun c_behind :: "ev_controller_pc \<Rightarrow> bool" where
  "c_behind C_woken = True" | "c_behind (C_ret r) = True" | "c_behind C_done = True" | "c_behind p = False"

text \<open>The rounds whose events have been taken out when the clock is \<open>k\<close>.\<close>

definition taken :: "ev_controller_pc \<Rightarrow> nat \<Rightarrow> int" where
  "taken c k = (if c_behind c then int k - 1 else int k)"

text \<open>The last round that can be in the history.\<close>

definition recorded :: "engine_pc \<Rightarrow> ev_controller_pc \<Rightarrow> nat \<Rightarrow> int" where
  "recorded e c k = (if (c = C_woken \<or> c = C_ret 0) \<and> \<not> e_quit e then int k - 1 else int k)"

definition pcs_ok :: "engine_pc \<Rightarrow> ev_controller_pc \<Rightarrow> nat \<Rightarrow> bool" where
  "pcs_ok e c k \<longleftrightarrow>
     (e_idle e \<longrightarrow> c_idle c) \<and> (e = E_blocked \<longrightarrow> \<not> c_idle c) \<and> (c = C_start \<longrightarrow> e_idle e \<and> k = 0) \<and>
     (k = 0 \<longrightarrow> e_idle e) \<and> (c = C_done \<longrightarrow> e_quit e) \<and> (\<forall>r. c = C_ret r \<longrightarrow> r = 0 \<or> e_stopped e) \<and>
     (\<forall>cur. e_cur e = Some cur \<longrightarrow> cur = of_nat k) \<and> (\<forall>cur. c = C_signal cur \<longrightarrow> cur = of_nat k)"

definition timer_ok :: "engine_pc \<Rightarrow> ev_controller_pc \<Rightarrow> nat \<Rightarrow> cs_timer \<Rightarrow> bool" where
  "timer_ok e c k t \<longleftrightarrow> n_sync t = 2 \<and> clock t = of_nat k \<and> stop t = (if e_stopped e then 1 else 0) \<and>
     (if e_stopped e then c \<noteq> C_waiting
      else sync t = (if e_waits e then 1 else 0) + (if c = C_waiting then 1 else 0) \<and>
        \<not> (e_waits e \<and> c = C_waiting))"

text \<open>\<open>past\<close> are the events that were filed for times before the first, which no round takes.\<close>

definition evm_sim_ok ::
  "nat \<Rightarrow> (int \<Rightarrow> 'd cs_event list) \<Rightarrow> sim_type \<Rightarrow> engine_pc \<Rightarrow> ev_controller_pc \<Rightarrow> nat \<Rightarrow> ('d, 'h, 'w) cs_event_manager \<Rightarrow> bool" where
  "evm_sim_ok n past st e c k v \<longleftrightarrow> evm_ok v \<and> nworkers v = int n + 1 \<and> start_time v = 1 \<and>
     ev_stop v = (if e_quit e then 1 else 0) \<and>
     (\<not> e_quit e \<longrightarrow> last_completion v = of_nat (if c_idle c then k else k - 1)) \<and>
     (\<forall>\<tau>\<le>taken c k. events_at v \<tau> = past \<tau>) \<and> (\<forall>\<tau>\<ge>1. past \<tau> = []) \<and>
     (st = EVENT_DRIVEN \<and> e_decided e \<longrightarrow> events_at v = (\<lambda>_. []))"

definition history_ok :: "int \<Rightarrow> (int \<times> 'd cs_event list \<times> 'd cs_event list) list \<Rightarrow> bool" where
  "history_ok d h \<longleftrightarrow> sorted_wrt (<) (map fst h) \<and>
     (\<forall>(\<tau>, filed, thrown)\<in>set h. 1 \<le> \<tau> \<and> \<tau> \<le> d \<and> filed \<noteq> [] \<and> mset thrown = mset filed)"

definition engine_ok :: "('c, 'x, 'o, 'd, 'h, 'a) cs_engine \<Rightarrow> bool" where
  "engine_ok e \<longleftrightarrow> (\<exists>al w. alist e = Some al \<and> acts_ok al \<and> eng_wp e = Some w) \<and>
     (eng_st e = ACTIVITY_SCAN \<longrightarrow> term_func e \<noteq> None)"

definition sim_inv :: "nat \<Rightarrow> (int \<Rightarrow> 'd cs_event list) \<Rightarrow> ('c, 'x, 'o, 'd, 'h, 'a) sim \<Rightarrow> bool" where
  "sim_inv n past s \<longleftrightarrow> broken s = None \<and> engine_ok (eng s) \<and> pcs_ok (epc s) (cpc s) (clock_ticks s) \<and>
     (\<exists>t. eng_timer (eng s) = Some t \<and> timer_ok (epc s) (cpc s) (clock_ticks s) t) \<and>
     (\<exists>v. eng_evm (eng s) = Some v \<and> evm_sim_ok n past (eng_st (eng s)) (epc s) (cpc s) (clock_ticks s) v) \<and>
     history_ok (recorded (epc s) (cpc s) (clock_ticks s)) (history s)"

lemmas sim_inv_defs = sim_inv_def pcs_ok_def timer_ok_def evm_sim_ok_def taken_def recorded_def

lemma engine_ok_simps [simp]:
  "engine_ok (with_timer e t) = engine_ok e" "engine_ok (with_evm e v) = engine_ok e"
  "eng_timer (with_timer e t) = Some t" "eng_evm (with_timer e t) = eng_evm e"
  "eng_timer (with_evm e v) = eng_timer e" "eng_evm (with_evm e v) = Some v"
  "eng_st (with_timer e t) = eng_st e" "eng_st (with_evm e v) = eng_st e"
  by (simp_all add: engine_ok_def with_timer_def with_evm_def)

lemma flags_keep_events [simp]:
  "events_at (v\<lparr>ev_stop := x\<rparr>) = events_at v" "evm_ok (v\<lparr>ev_stop := x\<rparr>) = evm_ok v"
  "events_at (v\<lparr>running := x\<rparr>) = events_at v" "evm_ok (v\<lparr>running := x\<rparr>) = evm_ok v"
  "events_at (v\<lparr>last_completion := t\<rparr>) = events_at v" "evm_ok (v\<lparr>last_completion := t\<rparr>) = evm_ok v"
  by (simp_all add: events_at_def fun_eq_iff evm_ok_def)

lemma e_pc_simps:
  "e_quit e \<Longrightarrow> e_decided e" "e_stopped e \<Longrightarrow> e_quit e" "e_waits e \<Longrightarrow> e_idle e" "e_idle e \<Longrightarrow> \<not> e_quit e"
  "e_waits e \<longleftrightarrow> (\<exists>b. e = E_waiting b)"
  by (cases e; simp)+

lemma e_stoppedD: "e_stopped e \<Longrightarrow> \<not> e_idle e \<and> e_quit e \<and> e_decided e \<and> e \<noteq> E_blocked \<and> \<not> e_waits e"
  by (cases e) simp_all

lemma history_later: "history_ok d h \<Longrightarrow> d \<le> d' \<Longrightarrow> history_ok d' h"
  by (fastforce simp: history_ok_def)

lemma history_append:
  assumes "history_ok (int k - 1) h" "0 < k" "filed \<noteq> []" "mset thrown = mset filed"
  shows "history_ok (int k) (h @ [(int k, filed, thrown)])"
proof -
  have "\<forall>x\<in>set (map fst h). x < int k" using assms(1) by (fastforce simp: history_ok_def)
  moreover have "history_ok (int k) h" using history_later [OF assms(1)] by simp
  ultimately show ?thesis using assms(2-4) by (auto simp: history_ok_def sorted_wrt_append)
qed

lemma engine_step_activities:
  assumes "ops_return (fst ops) (snd ops)" "engine_ok e" "eng_timer e = Some t"
  shows "\<exists>e'. engine_activities ops ty e = Ok e' \<and> engine_ok e' \<and> eng_timer e' = eng_timer e \<and>
    eng_evm e' = eng_evm e \<and> eng_st e' = eng_st e"
proof -
  obtain al w where "alist e = Some al" "acts_ok al" "eng_wp e = Some w" using assms(2) by (auto simp: engine_ok_def)
  from engine_activities_total [OF assms(1,3) this, of ty] obtain al' w' where
    "engine_activities ops ty e = Ok (e\<lparr>alist := Some al', eng_wp := Some w'\<rparr>)" "acts_ok al'" by blast
  then show ?thesis using assms(2) by (simp add: engine_ok_def)
qed

lemma completion_waits:
  assumes "last_completion v = of_nat (if idle then k else k - 1)" "0 < k" "k < 2 ^ 63"
  shows "wait_event_completion v (of_nat k) \<longleftrightarrow> \<not> idle"
  using assms sint_of_nat [OF assms(3)] sint_of_nat [of "k - 1"]
  by (simp add: wait_event_completion_def of_nat_diff del: of_nat_Suc)

lemma engine_step_inv:
  assumes "engine_step ops s s'" "sim_inv n past s" "ops_return (fst ops) (snd ops)" "clock_ticks s' < 2 ^ 63"
  shows "sim_inv n past s'"
proof -
  obtain t v where s: "broken s = None" "engine_ok (eng s)" "eng_timer (eng s) = Some t" "eng_evm (eng s) = Some v"
    "pcs_ok (epc s) (cpc s) (clock_ticks s)" "timer_ok (epc s) (cpc s) (clock_ticks s) t"
    "evm_sim_ok n past (eng_st (eng s)) (epc s) (cpc s) (clock_ticks s) v" "history_ok (recorded (epc s) (cpc s) (clock_ticks s)) (history s)"
    using assms(2) by (auto simp: sim_inv_def)
  have h: "history_ok (int (clock_ticks s)) (history s)" using history_later [OF s(8)] by (simp add: recorded_def)
  from assms(1) show ?thesis
  proof cases
    case (after_step e)
    then show ?thesis using s engine_step_activities [OF assms(3) s(2,3), of AFTER_STEP]
      by (auto simp: sim_inv_defs)
  next
    case (after_step_fault f)
    then show ?thesis using engine_step_activities [OF assms(3) s(2,3), of AFTER_STEP] by auto
  next
    case (test v' b found)
    have v': "v' = v" and ev: "evm_ok v" using test s by (auto simp: evm_sim_ok_def)
    have "found = (events_at v \<noteq> (\<lambda>_. []))" using test(6) more_events_value [OF ev] v' by simp
    moreover have "b = False" if "eng_st (eng s) = EVENT_DRIVEN" using test(5) that by (simp add: check_termination_def)
    ultimately show ?thesis using test s
      by (auto simp: sim_inv_defs cs_event_driven_simulation_def)
  next
    case (test_fault v' f)
    have ev: "evm_ok v" "v' = v" using test_fault s by (auto simp: evm_sim_ok_def)
    have "returns (check_termination (eng s))"
      using s(2) by (auto simp: check_termination_def engine_ok_def)
    then show ?thesis using test_fault more_events_value [OF ev(1)] ev(2) by (auto simp: returns_iff)
  next
    case (meet_wait b t' t'')
    then show ?thesis using s by (auto simp: sim_inv_defs cs_time_sync_cases)
  next
    case (meet_tick b t' t'')
    have "cpc s = C_waiting" "t'' = t\<lparr>clock := clock t + 1, sync := 0\<rparr>"
      using meet_tick s by (auto simp: timer_ok_def cs_time_sync_cases split: if_splits)
    then show ?thesis using meet_tick s
      by (auto simp: sim_inv_defs cs_time_sync_cases)
  next
    case (meet_fail b t' r t'')
    then show ?thesis using s by (auto simp: timer_ok_def cs_time_sync_cases split: if_splits)
  next
    case (meet_woken b)
    then show ?thesis using s by (auto simp: sim_inv_defs)
  next
    case (read_clock b t')
    then show ?thesis using s by (auto simp: sim_inv_defs cs_get_clock_def)
  next
    case (stop_events cur v')
    then show ?thesis using s h by (auto simp: sim_inv_defs cs_evm_stop_controller_def)
  next
    case (stop_clock cur t')
    then show ?thesis using s h by (cases "cpc s") (auto simp: sim_inv_defs cs_time_stop_def)
  next
    case (leave cur t')
    then show ?thesis using s by (auto simp: sim_inv_defs)
  next
    case (leave_fault cur t')
    then show ?thesis using s by (auto simp: sim_inv_defs cs_get_clock_def)
  next
    case (user cur e)
    then show ?thesis using s engine_step_activities [OF assms(3) s(2,3), of USER]
      by (auto simp: sim_inv_defs split: sim_type.splits)
  next
    case (user_fault cur f)
    then show ?thesis using s engine_step_activities [OF assms(3) s(2,3), of USER]
      by (auto split: sim_type.splits)
  next
    case (await cur v')
    have k: "0 < clock_ticks s" using s(5) await(3) by (auto simp: pcs_ok_def)
    have "\<not> e_quit (epc s)" using await(3) by simp
    then have "last_completion v = of_nat (if c_idle (cpc s) then clock_ticks s else clock_ticks s - 1)"
      using s(7) by (simp add: evm_sim_ok_def)
    then have "wait_event_completion v (of_nat (clock_ticks s)) \<longleftrightarrow> \<not> c_idle (cpc s)"
      by (rule completion_waits) (use k assms(4) await(1) in simp_all)
    then show ?thesis using await s by (auto simp: sim_inv_defs)
  qed
qed


lemma controller_round_keeps:
  assumes "ev_controller_round alloc r t v = Ok (rd, v')"
  shows "nworkers v' = nworkers v \<and> start_time v' = start_time v \<and> ev_stop v' = ev_stop v \<and>
    last_completion v' = last_completion v"
  using assms by (auto simp: ev_controller_round_def pop_events_def outcome_simps split: if_splits option.splits)

text \<open>What a turn of the controller does in a simulation.\<close>

lemma controller_turn:
  assumes "evm_sim_ok n past st e (C_ret r) k v" "pcs_ok e (C_ret r) k" "0 < n" "k < 2 ^ 63"
  obtains (break) "ev_controller_round True r (of_nat k) v = Ok (Round_break, v)" "e_quit e"
  | (quiet) v' where "ev_controller_round True r (of_nat k) v = Ok (Round_empty, v')"
      "events_at v (int k) = []" "evm_sim_ok n past st e (C_signal (of_nat k)) k v'"
  | (busy) v' l' args where "ev_controller_round True r (of_nat k) v = Ok (Round_tasks l' args, v')"
      "ev_items l' = events_at v (int k)" "ev_items l' \<noteq> []" "evm_sim_ok n past st e (C_signal (of_nat k)) k v'"
      "round_sound (length args) (mset (ev_items l')) (round_net v' l' args)"
      "\<not> e_quit e" "last_completion v' = of_nat (k - 1)"
proof (cases "r < 0 \<or> e_quit e")
  case True
  then have "ev_controller_round True r (of_nat k) v = Ok (Round_break, v)"
    using assms(1) by (auto simp: ev_controller_round_def should_stop_controller_def evm_sim_ok_def)
  moreover have "e_quit e" using True assms(2) e_pc_simps(2) [of e] by (auto simp: pcs_ok_def)
  ultimately show ?thesis by (rule break)
next
  case False
  have v: "evm_ok v" "nworkers v = int n + 1" "ev_stop v = 0" "start_time v = 1" "last_completion v = of_nat (k - 1)"
    "\<forall>\<tau>\<le>int k - 1. events_at v \<tau> = past \<tau>" "\<forall>\<tau>\<ge>1. past \<tau> = []" "st = EVENT_DRIVEN \<and> e_decided e \<longrightarrow> events_at v = (\<lambda>_. [])"
    using assms(1) False by (auto simp: evm_sim_ok_def taken_def)
  have k: "0 < k" "sint (of_nat k :: 64 word) = int k"
    using assms(2) sint_of_nat [OF assms(4)] by (cases e; auto simp: pcs_ok_def)+
  have "sint (start_time v) \<le> sint (of_nat k :: 64 word)" using v(4) k by simp
  from controller_round_ok [OF v(1,2) assms(3) _ v(3) this, of r] False
  have "\<exists>v' rd. ev_controller_round True r (of_nat k) v = Ok (rd, v') \<and> evm_ok v' \<and>
    events_at v' = (events_at v)(int k := []) \<and>
    (if events_at v (int k) = [] then rd = Round_empty
     else \<exists>l hops l'. list_ok l \<and> ev_items l = events_at v (int k) \<and>
       cs_ev_update_guards True l (int n) = Ok (l', hops) \<and>
       rd = Round_tasks l' (round_tasks (int n) hops (ev_count l)))"
    unfolding k(2) by (metis not_less)
  then obtain v' rd where r: "ev_controller_round True r (of_nat k) v = Ok (rd, v')" "evm_ok v'"
    "events_at v' = (events_at v)(int k := [])"
    "if events_at v (int k) = [] then rd = Round_empty
     else \<exists>l hops l'. list_ok l \<and> ev_items l = events_at v (int k) \<and>
       cs_ev_update_guards True l (int n) = Ok (l', hops) \<and>
       rd = Round_tasks l' (round_tasks (int n) hops (ev_count l))"
    by blast
  note kp = controller_round_keeps [OF r(1)]
  have ok: "evm_sim_ok n past st e (C_signal (of_nat k)) k v'"
    using assms(1) r(2,3) kp False v(6-8) k(1) by (auto simp: evm_sim_ok_def taken_def)
  show ?thesis
  proof (cases "events_at v (int k) = []")
    case True
    then show ?thesis using quiet r(1,4) ok by simp
  next
    case ne: False
    then obtain l hops l' where l: "list_ok l" "ev_items l = events_at v (int k)"
      "cs_ev_update_guards True l (int n) = Ok (l', hops)"
      "rd = Round_tasks l' (round_tasks (int n) hops (ev_count l))"
      using r(4) by auto
    have "ev_items l' = ev_items l" using update_guards_ok [OF l(1) assms(3)] l(3) by auto
    then show ?thesis
      using busy [of l' _ v'] r(1) l(2,4) ne ok round_sound_start [OF l(1) assms(3) l(3), of v'] False kp v(5) by auto
  qed
qed

lemma controller_step_inv:
  assumes "controller_sim_step run s s'" "sim_inv n past s" "0 < n" "forward run" "handlers_return run"
    "clock_ticks s' < 2 ^ 63"
  shows "sim_inv n past s'"
proof -
  obtain t v where s: "broken s = None" "engine_ok (eng s)" "eng_timer (eng s) = Some t" "eng_evm (eng s) = Some v"
    "pcs_ok (epc s) (cpc s) (clock_ticks s)" "timer_ok (epc s) (cpc s) (clock_ticks s) t"
    "evm_sim_ok n past (eng_st (eng s)) (epc s) (cpc s) (clock_ticks s) v" "history_ok (recorded (epc s) (cpc s) (clock_ticks s)) (history s)"
    using assms(2) by (auto simp: sim_inv_def)
  have bound: "clock_ticks s < 2 ^ 63" using assms(1,6) by cases simp_all
  have h: "history_ok (int (clock_ticks s)) (history s)" using history_later [OF s(8)] by (simp add: recorded_def)
  have clk: "cs_get_clock t = of_nat (clock_ticks s)" using s(6) by (simp add: timer_ok_def cs_get_clock_def)
  from assms(1) show ?thesis
  proof cases
    case (begin_loop v')
    then show ?thesis using s by (auto simp: sim_inv_defs evm_set_running_def)
  next
    case (join_wait t' t'')
    then show ?thesis using s by (auto simp: sim_inv_defs cs_time_sync_cases)
  next
    case (join_tick t' t'')
    then obtain b where "epc s = E_waiting b"
      using s by (auto simp: timer_ok_def cs_time_sync_cases e_pc_simps(5) split: if_splits)
    then show ?thesis using join_tick s by (auto simp: sim_inv_defs cs_time_sync_cases)
  next
    case (join_fail t' r t'')
    then show ?thesis using s e_stoppedD [of "epc s"]
      by (auto simp: sim_inv_defs cs_time_sync_cases split: if_splits)
  next
    case join_woken
    then show ?thesis using s by (auto simp: sim_inv_defs)
  next
    case (end_loop r t' v1 v2)
    then have c: "evm_sim_ok n past (eng_st (eng s)) (epc s) (C_ret r) (clock_ticks s) v" "pcs_ok (epc s) (C_ret r) (clock_ticks s)"
      "ev_controller_round True r (of_nat (clock_ticks s)) v = Ok (Round_break, v2)"
      using s clk by auto
    from c(1,2) assms(3) bound show ?thesis
    proof (cases rule: controller_turn)
      case break
      then show ?thesis using end_loop s c(3) by (auto simp: sim_inv_defs evm_set_not_running_def)
    qed (use c(3) in auto)
  next
    case (early r t' v1 v2)
    then have c: "evm_sim_ok n past (eng_st (eng s)) (epc s) (C_ret r) (clock_ticks s) v" "pcs_ok (epc s) (C_ret r) (clock_ticks s)"
      "ev_controller_round True r (of_nat (clock_ticks s)) v = Ok (Round_continue, v2)"
      using s clk by auto
    from c(1,2) assms(3) bound show ?thesis by (cases rule: controller_turn) (use c(3) in auto)
  next
    case (no_events r t' v1 v2)
    then have c: "evm_sim_ok n past (eng_st (eng s)) (epc s) (C_ret r) (clock_ticks s) v" "pcs_ok (epc s) (C_ret r) (clock_ticks s)"
      "ev_controller_round True r (of_nat (clock_ticks s)) v = Ok (Round_empty, v2)"
      using s clk by auto
    from c(1,2) assms(3) bound show ?thesis
    proof (cases rule: controller_turn)
      case (quiet v')
      then show ?thesis using no_events s c(2,3) clk h by (simp add: sim_inv_def pcs_ok_def timer_ok_def recorded_def)
    qed (use c(3) in auto)
  next
    case (raise_events r t' v1 l args v2 m)
    then have c: "evm_sim_ok n past (eng_st (eng s)) (epc s) (C_ret r) (clock_ticks s) v" "pcs_ok (epc s) (C_ret r) (clock_ticks s)"
      "ev_controller_round True r (of_nat (clock_ticks s)) v = Ok (Round_tasks l args, v2)"
      using s clk by auto
    from c(1,2) assms(3) bound show ?thesis
    proof (cases rule: controller_turn)
      case (busy v' l' args')
      then have eq: "v' = v2" "l' = l" "args' = args" using c(3) by auto
      have "evm_ok v2" using busy(4) eq by (simp add: evm_sim_ok_def)
      then have kept: "kept v2 (mgr m)" using round_kept [OF assms(4)] raise_events(7) by blast
      have "round_sound (length args) (mset (ev_items l)) m"
        using round_sound_steps [OF raise_events(7) _ assms(5)] busy(5) eq by blast
      then have r: "mset (raised m) = mset (ev_items l)" using raise_events(8) round_over_raised by blast
      have pos: "0 < clock_ticks s" using c(2) by (cases "epc s"; auto simp: pcs_ok_def)
      then have lc: "sint (last_completion v2) + 1 = int (clock_ticks s)"
        using busy(7) eq sint_of_nat [of "clock_ticks s - 1"] bound by simp
      have late: "\<not> (eng_st (eng s) = EVENT_DRIVEN \<and> e_decided (epc s))"
        using c(1) busy(2,3) eq by (auto simp: evm_sim_ok_def)
      have "evm_sim_ok n past (eng_st (eng s)) (epc s) (C_signal (of_nat (clock_ticks s))) (clock_ticks s) (mgr m)"
        using busy(4) eq(1) kept lc late unfolding evm_sim_ok_def kept_def taken_def by auto
      moreover have "history_ok (int (clock_ticks s)) (history s @ [(int (clock_ticks s), ev_items l, raised m)])"
      proof (rule history_append [OF _ pos _ r])
        have "r = 0" using c(2) busy(6) e_pc_simps(2) [of "epc s"] by (auto simp: pcs_ok_def)
        then show "history_ok (int (clock_ticks s) - 1) (history s)"
          using s(8) raise_events(3) busy(6) by (simp add: recorded_def)
        show "ev_items l \<noteq> []" using busy(3) eq by simp
      qed
      ultimately show ?thesis
        using raise_events s c(2) clk sint_of_nat [OF bound]
        by (simp add: sim_inv_def pcs_ok_def timer_ok_def recorded_def)
    qed (use c(3) in auto)
  next
    case (raise_events_fault r t' v1 l args v2 m f)
    then have c: "evm_sim_ok n past (eng_st (eng s)) (epc s) (C_ret r) (clock_ticks s) v" "pcs_ok (epc s) (C_ret r) (clock_ticks s)"
      "ev_controller_round True r (of_nat (clock_ticks s)) v = Ok (Round_tasks l args, v2)"
      using s clk by auto
    from c(1,2) assms(3) bound show ?thesis
    proof (cases rule: controller_turn)
      case (busy v' l' args')
      then have "round_sound (length args) (mset (ev_items l)) m"
        using round_sound_steps [OF raise_events_fault(7) _ assms(5)] c(3) by auto
      then show ?thesis using raise_events_fault(8) by (simp add: round_sound_def)
    qed (use c(3) in auto)
  next
    case (round_fault r t' v1 f)
    then have c: "evm_sim_ok n past (eng_st (eng s)) (epc s) (C_ret r) (clock_ticks s) v" "pcs_ok (epc s) (C_ret r) (clock_ticks s)"
      "ev_controller_round True r (of_nat (clock_ticks s)) v = Fault f"
      using s clk by auto
    from c(1,2) assms(3) bound show ?thesis by (cases rule: controller_turn) (use c(3) in auto)
  next
    case (signal cur v')
    then show ?thesis using s
      by (cases "epc s") (auto simp: sim_inv_defs signal_event_completion_def)
  qed
qed

section \<open>Reachable states\<close>

text \<open>A simulation that is ready: what \<^verbatim>\<open>cs_sim_start\<close> has set up before the loop.\<close>

definition sim_ready :: "nat \<Rightarrow> ('c, 'x, 'o, 'd, 'h, 'a) cs_engine \<Rightarrow> bool" where
  "sim_ready n e \<longleftrightarrow> engine_ok e \<and> 0 < n \<and>
     (\<exists>t. eng_timer e = Some t \<and> n_sync t = 2 \<and> stop t = 0 \<and> sync t = 0 \<and> clock t = 0) \<and>
     (\<exists>v. eng_evm e = Some v \<and> evm_ok v \<and> nworkers v = int n + 1 \<and> start_time v = 1 \<and> ev_stop v = 0 \<and>
       last_completion v = 0)"

text \<open>The events filed at the start.\<close>

definition filed :: "('c, 'x, 'o, 'd, 'h, 'a) cs_engine \<Rightarrow> int \<Rightarrow> 'd cs_event list" where
  "filed e \<tau> = (case eng_evm e of None \<Rightarrow> [] | Some v \<Rightarrow> events_at v \<tau>)"

definition overdue :: "('c, 'x, 'o, 'd, 'h, 'a) cs_engine \<Rightarrow> int \<Rightarrow> 'd cs_event list" where
  "overdue e \<tau> = (if \<tau> \<le> 0 then filed e \<tau> else [])"

lemma sim_inv_start: "sim_ready n e \<Longrightarrow> sim_inv n (overdue e) (sim_start e)"
  by (auto simp: sim_ready_def sim_inv_defs recorded_def sim_start_def history_ok_def overdue_def filed_def)

lemma ticks_mono: "sim_step ops run s s' \<Longrightarrow> clock_ticks s \<le> clock_ticks s'"
  by (auto simp: sim_step_def elim!: engine_step.cases controller_sim_step.cases)

lemma sim_step_inv:
  assumes "sim_step ops run s s'" "sim_inv n past s" "0 < n" "ops_return (fst ops) (snd ops)" "forward run"
    "handlers_return run" "clock_ticks s' < 2 ^ 63"
  shows "sim_inv n past s'"
  using assms(1) engine_step_inv [OF _ assms(2,4,7)] controller_step_inv [OF _ assms(2,3,5-7)]
  by (auto simp: sim_step_def)

lemma sim_run_inv:
  assumes "sim_ready n e" "ops_return (fst ops) (snd ops)" "forward run" "handlers_return run"
  shows "sim_run ops run e j s \<Longrightarrow> clock_ticks s < 2 ^ 63 \<Longrightarrow> sim_inv n (overdue e) s"
proof (induction rule: sim_run.induct)
  case (run_step j s s')
  have "clock_ticks s < 2 ^ 63" using ticks_mono [OF run_step(2)] run_step.prems by simp
  moreover have "0 < n" using assms(1) by (simp add: sim_ready_def)
  ultimately show ?case using sim_step_inv [OF run_step(2) run_step.IH _ assms(2-4) run_step.prems] by blast
qed (use sim_inv_start [OF assms(1)] in blast)

section \<open>A simulation is never stuck\<close>

lemma engine_moves:
  assumes "sim_inv n past s" "ops_return (fst ops) (snd ops)"
    "\<not> e_waits (epc s)" "epc s \<noteq> E_blocked" "epc s \<noteq> E_done"
  shows "\<exists>s'. engine_step ops s s'"
proof -
  obtain t v where s: "broken s = None" "engine_ok (eng s)" "eng_timer (eng s) = Some t" "eng_evm (eng s) = Some v"
    "evm_ok v"
    using assms(1) by (auto simp: sim_inv_def evm_sim_ok_def)
  show ?thesis
  proof (cases "epc s")
    case E_top
    then show ?thesis using engine_step_activities [OF assms(2) s(2,3), of AFTER_STEP] after_step [OF s(1)] by blast
  next
    case E_test
    have "returns (check_termination (eng s))" using s(2) by (auto simp: check_termination_def engine_ok_def)
    then obtain b where "check_termination (eng s) = Ok b" by (auto simp: returns_iff)
    then show ?thesis using test [OF s(1) E_test s(4)] more_events_value [OF s(5)] by blast
  next
    case (E_sync b)
    obtain r t' where "cs_time_sync t = (r, t')" by fastforce
    then show ?thesis
      using meet_wait [OF s(1) E_sync s(3)] meet_tick [OF s(1) E_sync s(3)] meet_fail [OF s(1) E_sync s(3)]
      by (cases r) blast+
  next
    case (E_woken b)
    then show ?thesis using meet_woken s(1) by blast
  next
    case (E_synced b)
    then show ?thesis using read_clock s(1,3) by blast
  next
    case (E_user cur)
    obtain e where "(case eng_st (eng s) of ACTIVITY_SCAN \<Rightarrow> engine_activities ops USER (eng s) | EVENT_DRIVEN \<Rightarrow> Ok (eng s)) = Ok e"
      using engine_step_activities [OF assms(2) s(2,3), of USER] by (cases "eng_st (eng s)") auto
    then show ?thesis using user [OF s(1) E_user] by blast
  next
    case (E_await cur)
    then show ?thesis using await s(1,4) by blast
  next
    case (E_stop cur)
    then show ?thesis using stop_events s(1,4) by blast
  next
    case (E_stop_timer cur)
    then show ?thesis using stop_clock s(1,3) by blast
  next
    case (E_assert cur)
    then show ?thesis using leave leave_fault s(1,3) by blast
  qed (use assms(3-5) in auto)
qed

lemma controller_moves:
  assumes "sim_inv n past s" "0 < n" "handlers_return run" "clock_ticks s < 2 ^ 63" "cpc s \<noteq> C_waiting" "cpc s \<noteq> C_done"
  shows "\<exists>s'. controller_sim_step run s s'"
proof -
  obtain t v where s: "broken s = None" "eng_timer (eng s) = Some t" "eng_evm (eng s) = Some v"
    "pcs_ok (epc s) (cpc s) (clock_ticks s)" "timer_ok (epc s) (cpc s) (clock_ticks s) t"
    "evm_sim_ok n past (eng_st (eng s)) (epc s) (cpc s) (clock_ticks s) v"
    using assms(1) by (auto simp: sim_inv_def)
  show ?thesis
  proof (cases "cpc s")
    case C_start
    then show ?thesis using begin_loop s(1,3) by blast
  next
    case C_sync
    obtain r t' where "cs_time_sync t = (r, t')" by fastforce
    then show ?thesis
      using join_wait [OF s(1) C_sync s(2)] join_tick [OF s(1) C_sync s(2)] join_fail [OF s(1) C_sync s(2)]
      by (cases r) blast+
  next
    case C_woken
    then show ?thesis using join_woken s(1) by blast
  next
    case (C_ret r)
    have clk: "cs_get_clock t = of_nat (clock_ticks s)" using s(5) by (simp add: timer_ok_def cs_get_clock_def)
    note c = s(6,4) [unfolded C_ret]
    from c assms(2,4) show ?thesis
    proof (cases rule: controller_turn)
      case break
      then show ?thesis using end_loop [OF s(1) C_ret s(2,3)] clk by metis
    next
      case (quiet v')
      then show ?thesis using no_events [OF s(1) C_ret s(2,3)] clk by metis
    next
      case (busy v' l' args)
      obtain m where "ev_steps run (length args) (round_net v' l' args) m" "round_over (length args) m"
        using round_completes [OF busy(5) assms(3)] by blast
      then show ?thesis using raise_events [OF s(1) C_ret s(2,3), of l' args v'] busy(1) clk by metis
    qed
  next
    case (C_signal cur)
    then show ?thesis using signal s(1,3) by blast
  qed (use assms(5,6) in auto)
qed

lemma sim_moves:
  assumes "sim_inv n past s" "0 < n" "ops_return (fst ops) (snd ops)" "handlers_return run" "clock_ticks s < 2 ^ 63"
    "\<not> (epc s = E_done \<and> cpc s = C_done)"
  shows "\<exists>s'. sim_step ops run s s'"
proof (cases "\<not> e_waits (epc s) \<and> epc s \<noteq> E_blocked \<and> epc s \<noteq> E_done")
  case True
  then show ?thesis using engine_moves [OF assms(1,3)] by (auto simp: sim_step_def)
next
  case False
  obtain t where s: "pcs_ok (epc s) (cpc s) (clock_ticks s)" "timer_ok (epc s) (cpc s) (clock_ticks s) t"
    using assms(1) by (auto simp: sim_inv_def)
  have "cpc s \<noteq> C_waiting \<and> cpc s \<noteq> C_done"
    using False s assms(6) by (cases "epc s") (auto simp: pcs_ok_def timer_ok_def)
  then show ?thesis using controller_moves [OF assms(1,2,4,5)] by (auto simp: sim_step_def)
qed

end
