(* ===== verification/CS_Sim_End.thy ===== *)
theory CS_Sim_End
  imports CS_Sim_Inv
begin

text \<open>
  The end of an event-driven simulation: which rounds take place when the handlers file no
  further events, a measure that every step of the two threads decreases, and the set-up of a
  simulation by the functions of the library.
\<close>

section \<open>An event-driven simulation ends\<close>

text \<open>
  Handlers that leave the manager alone.  \<open>final\<close> is the last time for which an event is filed.
\<close>

definition still :: "('d, 'h, 'w) run_handler \<Rightarrow> bool" where
  "still run \<longleftrightarrow> (\<forall>h e v. \<exists>st. run h e v = Ok (st, v))"

lemma stillD: "still run \<Longrightarrow> forward run \<and> handlers_return run"
proof
  assume s: "still run"
  have "v' = v" if "run h e v = Ok (st, v')" for h e v st v'
    using s that unfolding still_def by (metis outcome.inject(1) prod.inject)
  then show "forward run" unfolding forward_def by blast
  show "handlers_return run" using s unfolding still_def handlers_return_def returns_iff by blast
qed

definition last_time :: "(int \<Rightarrow> 'd cs_event list) \<Rightarrow> nat \<Rightarrow> bool" where
  "last_time plan final \<longleftrightarrow> (\<forall>\<tau>. \<tau> > int final \<longrightarrow> plan \<tau> = []) \<and> (final = 0 \<or> plan (int final) \<noteq> [])"

text \<open>The rounds up to \<open>d\<close> that have events, with their events.\<close>

definition rounds_upto :: "(int \<Rightarrow> 'd cs_event list) \<Rightarrow> int \<Rightarrow> (int \<times> 'd cs_event list) list" where
  "rounds_upto plan d = map (\<lambda>\<tau>. (\<tau>, plan \<tau>)) (filter (\<lambda>\<tau>. plan \<tau> \<noteq> []) [1..d])"

lemma rounds_upto_next:
  "1 \<le> d \<Longrightarrow> rounds_upto plan d =
     (if plan d = [] then rounds_upto plan (d - 1) else rounds_upto plan (d - 1) @ [(d, plan d)])"
  by (simp add: rounds_upto_def upto_rec2)

text \<open>Before the tick after which no further event can be found.\<close>

fun e_leaving :: "engine_pc \<Rightarrow> bool" where
  "e_leaving (E_sync b) = True" | "e_leaving (E_waiting b) = True" | "e_leaving p = False"

definition plan_inv :: "(int \<Rightarrow> 'd cs_event list) \<Rightarrow> nat \<Rightarrow> ('c, 'x, 'o, 'd, 'h, 'a) sim \<Rightarrow> bool" where
  "plan_inv plan final s \<longleftrightarrow> eng_st (eng s) = EVENT_DRIVEN \<and>
     (\<forall>\<tau>>taken (cpc s) (clock_ticks s). filed (eng s) \<tau> = plan \<tau>) \<and>
     map (\<lambda>(\<tau>, fs, _). (\<tau>, fs)) (history s) = rounds_upto plan (recorded (epc s) (cpc s) (clock_ticks s)) \<and>
     (if e_decided (epc s) then clock_ticks s = (if e_idle (epc s) then final else Suc final)
      else clock_ticks s \<le> final \<and> (e_leaving (epc s) \<longrightarrow> clock_ticks s < final))"

lemma filed_simps [simp]:
  "filed (with_timer e t) = filed e" "filed (with_evm e v) = events_at v"
  by (simp_all add: filed_def with_timer_def with_evm_def fun_eq_iff)

lemma filed_Some: "eng_evm e = Some v \<Longrightarrow> filed e = events_at v"
  by (simp add: filed_def fun_eq_iff)

lemma rounds_same:
  assumes "last_time plan final" "k = Suc final"
  shows "rounds_upto plan (int k) = rounds_upto plan (int k - 1)"
  using assms rounds_upto_next [of "int k" plan] by (simp add: last_time_def)

text \<open>Are there events after the clock \<open>k\<close>?\<close>

lemma events_left:
  assumes "last_time plan final" "\<forall>\<tau>>int k. f \<tau> = plan \<tau>" "\<forall>\<tau>\<le>int k. f \<tau> = []" "k \<le> final"
  shows "f \<noteq> (\<lambda>_. []) \<longleftrightarrow> k < final"
proof
  assume "f \<noteq> (\<lambda>_. [])"
  then obtain \<tau> where "f \<tau> \<noteq> []" by (auto simp: fun_eq_iff)
  then have "\<tau> > int k" "plan \<tau> \<noteq> []" using assms(2,3) by (metis not_le)+
  then show "k < final" using assms(1) by (metis last_time_def le_less_trans linorder_not_less of_nat_le_iff)
next
  assume "k < final"
  then have "f (int final) \<noteq> []" using assms(1,2) by (auto simp: last_time_def)
  then show "f \<noteq> (\<lambda>_. [])" by auto
qed

lemma engine_step_plan:
  assumes "engine_step ops s s'" "plan_inv plan final s" "last_time plan final" "sim_inv n (\<lambda>_. []) s"
    "ops_return (fst ops) (snd ops)" "clock_ticks s' < 2 ^ 63"
  shows "plan_inv plan final s'"
proof -
  obtain t v where s: "broken s = None" "engine_ok (eng s)" "eng_timer (eng s) = Some t" "eng_evm (eng s) = Some v"
    "pcs_ok (epc s) (cpc s) (clock_ticks s)" "timer_ok (epc s) (cpc s) (clock_ticks s) t"
    "evm_sim_ok n (\<lambda>_. []) EVENT_DRIVEN (epc s) (cpc s) (clock_ticks s) v"
    using assms(2,4) by (auto simp: sim_inv_def plan_inv_def)
  have f: "filed (eng s) = events_at v" using s(4) by (simp add: filed_def fun_eq_iff)
  have i: "eng_st (eng s) = EVENT_DRIVEN" "\<forall>\<tau>>taken (cpc s) (clock_ticks s). events_at v \<tau> = plan \<tau>"
    "map (\<lambda>(\<tau>, fs, _). (\<tau>, fs)) (history s) = rounds_upto plan (recorded (epc s) (cpc s) (clock_ticks s))"
    "if e_decided (epc s) then clock_ticks s = (if e_idle (epc s) then final else Suc final)
     else clock_ticks s \<le> final \<and> (e_leaving (epc s) \<longrightarrow> clock_ticks s < final)"
    using assms(2) f by (auto simp: plan_inv_def)
  note same = rounds_same [OF assms(3)]
  from assms(1) show ?thesis
  proof cases
    case (after_step e)
    then show ?thesis using i f s engine_step_activities [OF assms(5) s(2,3), of AFTER_STEP]
      by (auto simp: plan_inv_def taken_def recorded_def filed_Some)
  next
    case (test v' b found)
    have ev: "evm_ok v" "v' = v" using test s by (auto simp: evm_sim_ok_def)
    have k: "\<not> c_behind (cpc s)" using s(5) test(3) by (cases "cpc s") (auto simp: pcs_ok_def)
    have "found = (clock_ticks s < final)"
      using events_left [OF assms(3), of "clock_ticks s" "events_at v"] i(2,4) s(7) test(3,6) more_events_value [OF ev(1)] ev(2) k
      by (auto simp: evm_sim_ok_def taken_def)
    moreover have "b = False" using test(5) i(1) by (simp add: check_termination_def)
    ultimately show ?thesis using test i f s(5) k
      by (auto simp: plan_inv_def cs_event_driven_simulation_def recorded_def)
  next
    case (meet_wait b t' t'')
    then show ?thesis using i f by (auto simp: plan_inv_def taken_def recorded_def)
  next
    case (meet_tick b t' t'')
    have "cpc s = C_waiting" using meet_tick s by (auto simp: timer_ok_def cs_time_sync_cases split: if_splits)
    then show ?thesis using meet_tick i f by (auto simp: plan_inv_def taken_def recorded_def)
  next
    case (meet_fail b t' r t'')
    then show ?thesis using s by (auto simp: timer_ok_def cs_time_sync_cases split: if_splits)
  next
    case (meet_woken b)
    then show ?thesis using i f by (auto simp: plan_inv_def recorded_def)
  next
    case (read_clock b t')
    then show ?thesis using i f by (auto simp: plan_inv_def recorded_def)
  next
    case (stop_events cur v')
    then show ?thesis using i f s same
      by (auto simp: plan_inv_def recorded_def cs_evm_stop_controller_def)
  next
    case (stop_clock cur t')
    then have "events_at v = (\<lambda>_. [])" using s(7) by (auto simp: evm_sim_ok_def)
    then show ?thesis using stop_clock i f same assms(3)
      by (cases "cpc s") (auto simp: plan_inv_def recorded_def taken_def last_time_def)
  next
    case (leave cur t')
    then show ?thesis using i f by (auto simp: plan_inv_def recorded_def)
  next
    case (user cur e)
    then show ?thesis using i f by (auto simp: plan_inv_def recorded_def filed_Some)
  next
    case (await cur v')
    then show ?thesis using i f by (auto simp: plan_inv_def recorded_def)
  qed (use assms(2) in \<open>auto simp: plan_inv_def\<close>)
qed

lemma still_round:
  assumes "still run"
  shows "ev_steps run m (round_net v l args) n \<Longrightarrow> mgr n = v"
proof (induction rule: ev_steps.induct)
  case (more s s')
  have throw: "v' = u" if "cs_evm_throw_event run u (Some e) = Ok (st, v')" for u v' e st
  proof -
    have "v' = u \<or> (\<exists>h. run h e u = Ok (st, v'))"
      using that by (auto simp: cs_evm_throw_event_def outcome_simps split: option.splits)
    then show ?thesis using assms unfolding still_def by (metis outcome.inject(1) prod.inject)
  qed
  from more(2) show ?case by cases (use more.IH throw in auto)
qed (simp add: round_net_def)

lemma round_takes:
  assumes "ev_controller_round True r t v = Ok (rd, v')" "evm_ok v" "rd \<noteq> Round_break" "rd \<noteq> Round_continue"
  shows "events_at v' = (events_at v)(sint t := [])"
proof -
  obtain found v1 where "pop_events v t = Ok (found, v1)" "events_at v1 = (events_at v)(sint t := [])"
    using pop_ok [OF assms(2)] by blast
  then show ?thesis using assms(1,3,4)
    by (auto simp: ev_controller_round_def outcome_simps split: if_splits option.splits)
qed

lemma controller_step_plan:
  assumes "controller_sim_step run s s'" "plan_inv plan final s" "last_time plan final" "sim_inv n (\<lambda>_. []) s"
    "0 < n" "still run" "clock_ticks s' < 2 ^ 63"
  shows "plan_inv plan final s'"
proof -
  obtain t v where s: "broken s = None" "engine_ok (eng s)" "eng_timer (eng s) = Some t" "eng_evm (eng s) = Some v"
    "pcs_ok (epc s) (cpc s) (clock_ticks s)" "timer_ok (epc s) (cpc s) (clock_ticks s) t"
    "evm_sim_ok n (\<lambda>_. []) EVENT_DRIVEN (epc s) (cpc s) (clock_ticks s) v"
    using assms(2,4) by (auto simp: sim_inv_def plan_inv_def)
  have f: "filed (eng s) = events_at v" using s(4) by (rule filed_Some)
  have ev: "evm_ok v" using s(7) by (simp add: evm_sim_ok_def)
  have i: "eng_st (eng s) = EVENT_DRIVEN" "\<forall>\<tau>>taken (cpc s) (clock_ticks s). events_at v \<tau> = plan \<tau>"
    "map (\<lambda>(\<tau>, fs, _). (\<tau>, fs)) (history s) = rounds_upto plan (recorded (epc s) (cpc s) (clock_ticks s))"
    "if e_decided (epc s) then clock_ticks s = (if e_idle (epc s) then final else Suc final)
     else clock_ticks s \<le> final \<and> (e_leaving (epc s) \<longrightarrow> clock_ticks s < final)"
    using assms(2) f by (auto simp: plan_inv_def)
  note same = rounds_same [OF assms(3)]
  have bound: "clock_ticks s < 2 ^ 63" using assms(1,7) by cases simp_all
  have clk: "cs_get_clock t = of_nat (clock_ticks s)" "sint (cs_get_clock t) = int (clock_ticks s)"
    using s(6) sint_of_nat [OF bound] by (simp_all add: timer_ok_def cs_get_clock_def)
  from assms(1) show ?thesis
  proof cases
    case (begin_loop v')
    then show ?thesis using i f s(4) by (auto simp: plan_inv_def taken_def recorded_def evm_set_running_def)
  next
    case (join_wait t' t'')
    then show ?thesis using i f by (auto simp: plan_inv_def taken_def recorded_def)
  next
    case (join_tick t' t'')
    then obtain b where "epc s = E_waiting b"
      using s by (auto simp: timer_ok_def cs_time_sync_cases e_pc_simps(5) split: if_splits)
    then show ?thesis using join_tick i f by (auto simp: plan_inv_def taken_def recorded_def)
  next
    case (join_fail t' r t'')
    then have st: "e_stopped (epc s)" "r = -1"
      using s by (auto simp: timer_ok_def cs_time_sync_cases split: if_splits)
    then have "events_at v = (\<lambda>_. [])" using s(7) e_stoppedD [OF st(1)] by (auto simp: evm_sim_ok_def)
    then show ?thesis using join_fail i f st e_stoppedD [OF st(1)] assms(3)
      by (auto simp: plan_inv_def taken_def recorded_def last_time_def)
  next
    case join_woken
    then show ?thesis using i f by (auto simp: plan_inv_def taken_def recorded_def)
  next
    case (end_loop r t' v1 v2)
    then have c: "evm_sim_ok n (\<lambda>_. []) EVENT_DRIVEN (epc s) (C_ret r) (clock_ticks s) v"
      "pcs_ok (epc s) (C_ret r) (clock_ticks s)"
      "ev_controller_round True r (of_nat (clock_ticks s)) v = Ok (Round_break, v2)"
      using s clk by auto
    from c(1,2) assms(5) bound show ?thesis
    proof (cases rule: controller_turn)
      case break
      then show ?thesis using end_loop i f c(3) by (auto simp: plan_inv_def taken_def recorded_def evm_set_not_running_def)
    qed (use c(3) in auto)
  next
    case (early r t' v1 v2)
    then have c: "evm_sim_ok n (\<lambda>_. []) EVENT_DRIVEN (epc s) (C_ret r) (clock_ticks s) v"
      "pcs_ok (epc s) (C_ret r) (clock_ticks s)"
      "ev_controller_round True r (of_nat (clock_ticks s)) v = Ok (Round_continue, v2)"
      using s clk by auto
    from c(1,2) assms(5) bound show ?thesis by (cases rule: controller_turn) (use c(3) in auto)
  next
    case (no_events r t' v1 v2)
    then have c: "evm_sim_ok n (\<lambda>_. []) EVENT_DRIVEN (epc s) (C_ret r) (clock_ticks s) v"
      "pcs_ok (epc s) (C_ret r) (clock_ticks s)"
      "ev_controller_round True r (of_nat (clock_ticks s)) v = Ok (Round_empty, v2)"
      using s clk by auto
    have e: "events_at v2 = (events_at v)(int (clock_ticks s) := [])"
      using round_takes [OF c(3) ev] sint_of_nat [OF bound] by simp
    from c(1,2) assms(5) bound show ?thesis
    proof (cases rule: controller_turn)
      case (quiet v')
      have pos: "1 \<le> int (clock_ticks s)" using c(2) by (cases "epc s"; auto simp: pcs_ok_def)
      have "plan (int (clock_ticks s)) = []" using i(2) quiet(2) no_events(3) by (simp add: taken_def)
      then have "rounds_upto plan (int (clock_ticks s)) = rounds_upto plan (int (clock_ticks s) - 1)"
        using rounds_upto_next [OF pos, of plan] by simp
      then show ?thesis using no_events i e by (auto simp: plan_inv_def taken_def recorded_def)
    qed (use c(3) in auto)
  next
    case (raise_events r t' v1 l args v2 m)
    then have c: "evm_sim_ok n (\<lambda>_. []) EVENT_DRIVEN (epc s) (C_ret r) (clock_ticks s) v"
      "pcs_ok (epc s) (C_ret r) (clock_ticks s)"
      "ev_controller_round True r (of_nat (clock_ticks s)) v = Ok (Round_tasks l args, v2)"
      using s clk by auto
    have e: "events_at v2 = (events_at v)(int (clock_ticks s) := [])"
      using round_takes [OF c(3) ev] sint_of_nat [OF bound] by simp
    have m: "mgr m = v2" using still_round [OF assms(6) raise_events(7)] .
    from c(1,2) assms(5) bound show ?thesis
    proof (cases rule: controller_turn)
      case (busy v' l' args')
      then have eq: "l' = l" using c(3) by simp
      have pos: "1 \<le> int (clock_ticks s)" using c(2) by (cases "epc s"; auto simp: pcs_ok_def)
      have r: "r = 0" using c(2) busy(6) e_pc_simps(2) [of "epc s"] by (auto simp: pcs_ok_def)
      have "plan (int (clock_ticks s)) = ev_items l"
        using i(2) busy(2) eq raise_events(3) by (simp add: taken_def)
      moreover from this have "rounds_upto plan (int (clock_ticks s)) =
          rounds_upto plan (int (clock_ticks s) - 1) @ [(int (clock_ticks s), ev_items l)]"
        using rounds_upto_next [OF pos, of plan] busy(3) eq by simp
      ultimately show ?thesis using raise_events s(3) i e m clk r busy(6)
        by (auto simp: plan_inv_def taken_def recorded_def)
    qed (use c(3) in auto)
  next
    case (signal cur v')
    then show ?thesis using i f s
      by (cases "epc s") (auto simp: plan_inv_def taken_def recorded_def signal_event_completion_def)
  qed (use assms(2) in \<open>auto simp: plan_inv_def\<close>)
qed

text \<open>What is left to do: the rounds, and where the two threads are.\<close>

fun e_rank :: "engine_pc \<Rightarrow> nat" where
  "e_rank (E_woken b) = 9" | "e_rank (E_synced b) = 8" | "e_rank (E_user cur) = 7" | "e_rank (E_await cur) = 6"
| "e_rank E_blocked = 5" | "e_rank E_top = 4" | "e_rank E_test = 3" | "e_rank (E_sync b) = 2"
| "e_rank (E_waiting b) = 1" | "e_rank (E_stop cur) = 7" | "e_rank (E_stop_timer cur) = 6"
| "e_rank (E_assert cur) = 5" | "e_rank E_done = 0"

fun c_rank :: "ev_controller_pc \<Rightarrow> nat" where
  "c_rank C_start = 9" | "c_rank C_woken = 8" | "c_rank (C_ret r) = (if r < 0 then 3 else 7)"
| "c_rank (C_signal cur) = 6" | "c_rank C_sync = 5" | "c_rank C_waiting = 4" | "c_rank C_done = 0"

definition work_left :: "nat \<Rightarrow> ('c, 'x, 'o, 'd, 'h, 'a) sim \<Rightarrow> nat" where
  "work_left final s = 200 * (Suc final - clock_ticks s) + 10 * e_rank (epc s) + c_rank (cpc s)"

lemma ranks:
  "e_rank p \<le> 9" "c_rank q \<le> 9" "c_rank (wake_controller q) \<le> c_rank q + 4" "e_rank (release_engine p) \<le> e_rank p"
proof -
  show "e_rank p \<le> 9" "e_rank (release_engine p) \<le> e_rank p" by (cases p; simp)+
  show "c_rank q \<le> 9" "c_rank (wake_controller q) \<le> c_rank q + 4" by (cases q; simp)+
qed

lemma work_left_tick:
  assumes "clock_ticks s \<le> final" "clock_ticks s' = Suc (clock_ticks s)"
  shows "work_left final s' < work_left final s"
proof -
  have "200 * (Suc final - clock_ticks s) = 200 * (Suc final - clock_ticks s') + 200"
    using assms by (simp add: Suc_diff_le)
  then show ?thesis using ranks(1) [of "epc s'"] ranks(2) [of "cpc s'"] by (simp add: work_left_def)
qed

lemma engine_works:
  assumes "engine_step ops s s'" "plan_inv plan final s" "sim_inv n (\<lambda>_. []) s" "broken s' = None"
  shows "work_left final s' < work_left final s"
proof -
  obtain t where t: "eng_timer (eng s) = Some t" "timer_ok (epc s) (cpc s) (clock_ticks s) t"
    using assms(3) by (auto simp: sim_inv_def)
  have k: "e_idle (epc s) \<Longrightarrow> clock_ticks s \<le> final" using assms(2) by (auto simp: plan_inv_def split: if_splits)
  from assms(1) show ?thesis
  proof cases
    case (meet_tick b t' t'')
    then show ?thesis using k by (intro work_left_tick) auto
  next
    case (meet_fail b t' r t'')
    then show ?thesis using t by (auto simp: timer_ok_def cs_time_sync_cases split: if_splits)
  next
    case (stop_clock cur t')
    then show ?thesis using ranks(3) [of "cpc s"] by (simp add: work_left_def)
  qed (use assms(4) in \<open>auto simp: work_left_def\<close>)
qed

lemma controller_works:
  assumes "controller_sim_step run s s'" "plan_inv plan final s" "sim_inv n (\<lambda>_. []) s" "broken s' = None"
  shows "work_left final s' < work_left final s"
proof -
  obtain t where t: "eng_timer (eng s) = Some t" "timer_ok (epc s) (cpc s) (clock_ticks s) t"
    "pcs_ok (epc s) (cpc s) (clock_ticks s)"
    using assms(3) by (auto simp: sim_inv_def)
  have k: "e_idle (epc s) \<Longrightarrow> clock_ticks s \<le> final" using assms(2) by (auto simp: plan_inv_def split: if_splits)
  from assms(1) show ?thesis
  proof cases
    case (join_tick t' t'')
    then have "e_idle (epc s)"
      using t by (auto simp: timer_ok_def cs_time_sync_cases e_pc_simps(5) split: if_splits)
    then show ?thesis using join_tick k by (intro work_left_tick) auto
  next
    case (join_fail t' r t'')
    then have "r = -1" by (simp add: cs_time_sync_cases)
    then show ?thesis using join_fail by (simp add: work_left_def)
  next
    case (early r t' v1 v2)
    then have "\<not> r < 0" by (auto simp: ev_controller_round_def)
    then show ?thesis using early by (simp add: work_left_def)
  next
    case (no_events r t' v1 v2)
    then have "\<not> r < 0" by (auto simp: ev_controller_round_def)
    then show ?thesis using no_events by (simp add: work_left_def)
  next
    case (raise_events r t' v1 l args v2 m)
    then have "\<not> r < 0" by (auto simp: ev_controller_round_def)
    then show ?thesis using raise_events by (simp add: work_left_def)
  next
    case (signal cur v')
    then show ?thesis using ranks(4) [of "epc s"] by (simp add: work_left_def)
  qed (use assms(4) in \<open>auto simp: work_left_def\<close>)
qed

text \<open>Everything together for a run.\<close>

lemma run_plan:
  assumes "sim_ready n e" "eng_st e = EVENT_DRIVEN" "overdue e = (\<lambda>_. [])" "last_time (filed e) final"
    "Suc (Suc final) < 2 ^ 63" "ops_return (fst ops) (snd ops)" "still run"
  shows "sim_run ops run e j s \<Longrightarrow> sim_inv n (\<lambda>_. []) s \<and> plan_inv (filed e) final s \<and>
    j + work_left final s \<le> 200 * Suc final + 49"
proof (induction rule: sim_run.induct)
  case run_start
  have "rounds_upto (filed e) 0 = []" by (simp add: rounds_upto_def)
  then have "plan_inv (filed e) final (sim_start e)"
    using assms(2) by (simp add: plan_inv_def sim_start_def recorded_def)
  then show ?case using sim_inv_start [OF assms(1)] assms(3) by (simp add: work_left_def sim_start_def)
next
  case (run_step j s s')
  have n: "0 < n" using assms(1) by (simp add: sim_ready_def)
  have st: "forward run" "handlers_return run" using stillD [OF assms(7)] by simp_all
  have "clock_ticks s \<le> Suc final" using run_step.IH by (auto simp: plan_inv_def split: if_splits)
  moreover have "clock_ticks s' \<le> Suc (clock_ticks s)"
    using run_step(2) by (auto simp: sim_step_def elim!: engine_step.cases controller_sim_step.cases)
  ultimately have k: "clock_ticks s' < 2 ^ 63" using assms(5) by simp
  have inv: "sim_inv n (\<lambda>_. []) s'"
    using sim_step_inv [OF run_step(2) _ n assms(6) st k] run_step.IH by blast
  moreover have "plan_inv (filed e) final s'"
    using run_step(2) run_step.IH k engine_step_plan [OF _ _ assms(4) _ assms(6)]
      controller_step_plan [OF _ _ assms(4) _ n assms(7)] unfolding sim_step_def by blast
  moreover have "broken s' = None" using inv by (simp add: sim_inv_def)
  then have "work_left final s' < work_left final s"
    using run_step(2) run_step.IH engine_works controller_works unfolding sim_step_def by blast
  ultimately show ?case using run_step.IH by simp
qed

lemma activities_keep_type: "engine_activities ops ty e = Ok e' \<Longrightarrow> eng_st e' = eng_st e"
  by (auto simp: engine_activities_def outcome_simps split: option.splits)

lemma step_keeps_type: "sim_step ops run s s' \<Longrightarrow> eng_st (eng s') = eng_st (eng s)"
proof -
  assume "sim_step ops run s s'"
  then consider "engine_step ops s s'" | "controller_sim_step run s s'" by (auto simp: sim_step_def)
  then show ?thesis
  proof cases
    case 1
    then show ?thesis
    proof cases
      case (user cur e)
      then show ?thesis using activities_keep_type [of ops USER "eng s" e] by (cases "eng_st (eng s)") auto
    qed (auto dest: activities_keep_type)
  next
    case 2
    then show ?thesis by cases simp_all
  qed
qed

lemma run_keeps_type: "sim_run ops run e j s \<Longrightarrow> eng_st (eng s) = eng_st e"
  by (induction rule: sim_run.induct) (simp_all add: sim_start_def step_keeps_type)

section \<open>Properties\<close>




text \<open>
  C5.  An event that is filed for a time before the first is never raised, but counts as an event
  to come: an event-driven simulation with such an event never ends.
\<close>

theorem stale_event_never_ends:
  assumes "sim_ready n e" "eng_st e = EVENT_DRIVEN" "\<tau> \<le> 0" "filed e \<tau> \<noteq> []"
    and "ops_return (fst ops) (snd ops)" "forward run" "handlers_return run"
    and "sim_run ops run e j s" "clock_ticks s < 2 ^ 63"
  shows "epc s \<noteq> E_done \<and> (\<exists>s'. sim_step ops run s s') \<and> (\<forall>(\<sigma>, _)\<in>set (history s). \<sigma> \<noteq> \<tau>)"
proof -
  have n: "0 < n" using assms(1) by (simp add: sim_ready_def)
  have inv: "sim_inv n (overdue e) s" by (rule sim_run_inv [OF assms(1,5-9)])
  then obtain v where v: "pcs_ok (epc s) (cpc s) (clock_ticks s)" "eng_evm (eng s) = Some v"
    "evm_sim_ok n (overdue e) EVENT_DRIVEN (epc s) (cpc s) (clock_ticks s) v"
    using run_keeps_type [OF assms(8)] assms(2) by (auto simp: sim_inv_def)
  have "0 \<le> taken (cpc s) (clock_ticks s)"
    using v(1) by (cases "cpc s"; cases "epc s") (auto simp: pcs_ok_def taken_def)
  then have "events_at v \<tau> \<noteq> []"
    using v(3) assms(3,4) by (simp add: evm_sim_ok_def overdue_def)
  then have "\<not> e_decided (epc s)" using v(3) by (auto simp: evm_sim_ok_def)
  then have "epc s \<noteq> E_done" by auto
  moreover have "\<exists>s'. sim_step ops run s s'" using calculation sim_moves [OF inv n assms(5,7,9)] by blast
  moreover have "\<forall>(\<sigma>, _)\<in>set (history s). \<sigma> \<noteq> \<tau>"
    using inv assms(3) by (fastforce simp: sim_inv_def history_ok_def)
  ultimately show ?thesis by blast
qed

section \<open>Setting up\<close>

text \<open>Scheduling changes the event tree only, starting the controller everything but the trees.\<close>

lemma schedule_tree:
  "cs_evm_schedule_event a e t v = Ok (r, v') \<Longrightarrow> \<exists>et. v' = v\<lparr>ev_tree := et\<rparr>"
  by (auto simp: cs_evm_schedule_event_def outcome_simps Let_def split: if_splits
      intro: exI [of _ "ev_tree v"])

lemma put_all_tree:
  "put_all (cs_evm_schedule_event a) es v = Ok v' \<Longrightarrow> \<exists>et. v' = v\<lparr>ev_tree := et\<rparr>"
proof (induction es arbitrary: v)
  case (Cons p es)
  obtain e t where p: "p = (e, t)" by (cases p)
  then obtain r v1 where "cs_evm_schedule_event a e t v = Ok (r, v1)" "put_all (cs_evm_schedule_event a) es v1 = Ok v'"
    using Cons.prems by (auto simp: outcome_simps)
  then show ?case using schedule_tree [of a e t v r v1] Cons.IH [of v1] by auto
qed (auto intro: exI [of _ "ev_tree v'"])

lemma start_controller_tree:
  assumes "cs_evm_start_controller env cr cc al sz v st c = Ok (r, v', c')"
  shows "cs_evm_start_controller env cr cc al sz (v\<lparr>ev_tree := et\<rparr>) st c = Ok (r, v'\<lparr>ev_tree := et\<rparr>, c')"
proof -
  obtain r1 pool where p: "cs_wp_start cr cc (wp v) = (r1, pool)" by fastforce
  show ?thesis
  proof (cases "cs_wp_tsk_enqueue env al Ev_controller To_manager sz pool c")
    case (Ok x)
    obtain r2 pool2 c2 where "x = (r2, pool2, c2)" by (cases x)
    then show ?thesis using p Ok assms
      by (cases "r1 < 0"; cases "r2 < 0") (simp_all add: cs_evm_start_controller_def Let_def, (elim conjE, hypsubst, simp)+)
  qed (use p assms in \<open>cases "r1 < 0"; simp add: cs_evm_start_controller_def Let_def; elim conjE; hypsubst; simp\<close>)+
qed

lemma start_controller_flags:
  assumes "cs_evm_start_controller env cr cc al sz v 1 c = Ok (r, v', c')"
  shows "start_time v' = 1 \<and> nworkers v' = nworkers v \<and> ev_stop v' = ev_stop v \<and>
    last_completion v' = last_completion v \<and> ev_tree v' = ev_tree v \<and> eh_tree v' = eh_tree v"
proof -
  obtain r1 pool where p: "cs_wp_start cr cc (wp v) = (r1, pool)" by fastforce
  then show ?thesis using assms
    by (auto simp: cs_evm_start_controller_def Let_def outcome_simps split: if_splits)
qed

lemma init_manager_flags:
  "cs_init_event_manager a nul mem nw tm ty c = Ok (0, Some v, c') \<Longrightarrow>
     ev_stop v = 0 \<and> last_completion v = 0 \<and> running v = 0 \<and> items (ev_tree v) = []"
  by (auto simp: cs_init_event_manager_def outcome_simps rb_create_def items_def split: if_splits option.splits)

lemma init_engine_ready:
  fixes mem :: "('c, 'x, 'o, 'd, 'h, 'a) cs_engine"
  assumes "0 < nw" "nw * 10 \<le> SEM_VALUE_MAX" "0 \<le> c"
  shows "\<exists>e w. cs_init_engine wp_alloc_ok True True True (Some mem) (int nw) c = Ok (0, e, c + 1) \<and>
    alist e = Some \<lparr>activities = [], nact = 0, total_tasks = 0\<rparr> \<and> eng_wp e = Some w \<and> net_rt e = False \<and>
    eng_evm e = None \<and> eng_running e = 0"
proof -
  have "nw \<le> SEM_VALUE_MAX" "int (nw * 10) \<le> int SEM_VALUE_MAX" using assms(2) by simp_all
  from init_start [OF assms(1) this(1) _ this(2) assms(3), of "''ENG-UACT''"]
  obtain w :: "('c, 'x cs_tsk_data, 'o) cs_workerpool" where
    "cs_wp_init wp_alloc_ok False (int nw) (int (nw * 10)) ''ENG-UACT'' c = Ok (0, Some w, c + 1)" by auto
  then show ?thesis using assms(1) by (simp add: cs_init_engine_def cs_make_recursive_mutex_def Let_def)
qed

lemma set_up_ready:
  fixes mem :: "('c, 'x, 'o, 'd, 'h, 'a) cs_engine" and es :: "('d cs_event \<times> cs_clockv) list"
  assumes "0 < n" "(n + 1) * 10 \<le> SEM_VALUE_MAX" "0 < nw" "nw * 10 \<le> SEM_VALUE_MAX" "0 \<le> c"
    and "\<forall>(ev, t)\<in>set es. etype ev \<noteq> None" "length es + 1 < 2 ^ 24"
  shows "\<exists>t v0 v1 v2 e0 e1. cs_init_timer (True, True, True) (Some tm0) ''clock'' = Ok (Some t) \<and>
    cs_init_event_manager evm_alloc_ok False mem_st (int n) tm EVENT_DRIVEN c = Ok (0, Some v0, c + 1) \<and>
    put_all (cs_evm_schedule_event alloc_ok) es v0 = Ok v1 \<and>
    cs_init_engine wp_alloc_ok True True True (Some mem) (int nw) (c + 1) = Ok (0, e0, c + 1 + 1) \<and>
    cs_set_event_manager (cs_set_sim_type e0 EVENT_DRIVEN) (Some v1) = Ok e1 \<and>
    sim_actors (cs_set_timer e1 (Some t)) = Ok 2 \<and>
    cs_evm_start_controller (posix_ok a) (\<lambda>_. True) True (True, True, True) sz v1 1 0 = Ok (0, v2, 1) \<and>
    (let e = with_evm (with_timer e1 (cs_set_nsync t 2)) v2
     in sim_ready n e \<and> eng_st e = EVENT_DRIVEN \<and> filed e = (\<lambda>\<tau>. filed_at \<tau> es))"
proof -
  obtain t where t: "cs_init_timer (True, True, True) (Some tm0) ''clock'' = Ok (Some t)"
    "stop t = 0" "sync t = 0" "clock t = 0"
    by (simp add: cs_init_timer_def cs_init_timer_n_def cs_make_recursive_mutex_def Let_def)
  obtain v0 v' :: "('d, 'h) evm_pool" where v: "cs_init_event_manager evm_alloc_ok False mem_st (int n) tm EVENT_DRIVEN c = Ok (0, Some v0, c + 1)"
    "evm_ok v0" "events_at v0 = (\<lambda>_. [])" "nworkers v0 = int n + 1"
    "cs_evm_start_controller (posix_ok a) (\<lambda>_. True) True (True, True, True) sz v0 1 0 = Ok (0, v', 1)"
    using init_start_manager [OF assms(2,5), of mem_st tm EVENT_DRIVEN a sz 1] by blast
  note fl = init_manager_flags [OF v(1)]
  have "agenda_of v0 (\<lambda>_. []) (length es + 0)"
    using v(2,3) fl assms(7) by (simp add: agenda_of_def)
  from tree.put_all_ok [OF this assms(6)] obtain v1 where v1: "put_all (cs_evm_schedule_event alloc_ok) es v0 = Ok v1"
    "evm_ok v1" "events_at v1 = (\<lambda>k. filed_at k es)" by (auto simp: agenda_of_def)
  obtain et where et: "v1 = v0\<lparr>ev_tree := et\<rparr>" using put_all_tree [OF v1(1)] by blast
  have st: "cs_evm_start_controller (posix_ok a) (\<lambda>_. True) True (True, True, True) sz v1 1 0 = Ok (0, v'\<lparr>ev_tree := et\<rparr>, 1)"
    unfolding et by (rule start_controller_tree [OF v(5)])
  note sf = start_controller_flags [OF st]
  have "0 \<le> c + 1" using assms(5) by simp
  from init_engine_ready [OF assms(3,4) this, of mem] obtain e0 w where e0:
    "cs_init_engine wp_alloc_ok True True True (Some mem) (int nw) (c + 1) = Ok (0, e0, c + 1 + 1)"
    "alist e0 = Some \<lparr>activities = [], nact = 0, total_tasks = 0\<rparr>" "eng_wp e0 = Some w" "\<not> net_rt e0"
    "eng_evm e0 = None" "eng_running e0 = 0" by auto
  let ?e1 = "(cs_set_sim_type e0 EVENT_DRIVEN)\<lparr>eng_evm := Some v1\<rparr>"
  let ?e = "with_evm (with_timer ?e1 (cs_set_nsync t 2)) (v'\<lparr>ev_tree := et\<rparr>)"
  have "evm_ok (v'\<lparr>ev_tree := et\<rparr>)" "events_at (v'\<lparr>ev_tree := et\<rparr>) = events_at v1"
    using sf v1(2) by (simp_all add: evm_ok_def events_at_def fun_eq_iff)
  then have "sim_ready n ?e" "eng_st ?e = EVENT_DRIVEN" "filed ?e = (\<lambda>\<tau>. filed_at \<tau> es)"
    using assms(1) t(2-4) sf v(4) et fl e0(2,3) v1(3)
    by (simp_all add: sim_ready_def engine_ok_def acts_ok_def cs_set_sim_type_def cs_set_nsync_def with_timer_def with_evm_def
        filed_Some)
  moreover have "cs_set_event_manager (cs_set_sim_type e0 EVENT_DRIVEN) (Some v1) = Ok ?e1"
    "sim_actors (cs_set_timer ?e1 (Some t)) = Ok 2"
    using e0 by (simp_all add: cs_set_event_manager_def check_already_running_def cs_set_sim_type_def
        cs_set_timer_def sim_actors_def)
  ultimately show ?thesis using t(1) v(1) v1(1) e0(1) st
    by (intro exI [of _ t] exI [of _ v0] exI [of _ v1] exI [of _ "v'\<lparr>ev_tree := et\<rparr>"] exI [of _ e0] exI [of _ ?e1])
      (simp add: Let_def)
qed


section \<open>An example\<close>

definition small_memory :: "(nat, nat, nat, nat, nat, nat) cs_engine" where
  "small_memory = \<lparr>alist = None, eng_evm = None, net_rt = False, eng_wp = None, eng_timer = None,
     term_func = None, term_func_args = 0, eng_st = EVENT_DRIVEN, eng_running = 7\<rparr>"

definition ev_a :: "nat cs_event" where
  "ev_a = \<lparr>etype = Some ''a'', ev_data = 1\<rparr>"

definition two_times :: "(nat cs_event \<times> cs_clockv) list" where
  "two_times = [(ev_a, 3), (ev_a\<lparr>ev_data := 2\<rparr>, 1), (ev_a\<lparr>ev_data := 3\<rparr>, 3)]"

abbreviation old_timer :: cs_timer where
  "old_timer \<equiv> \<lparr>tm_id = [], stop = 9, n_sync = 9, sync = 9, clock = 9\<rparr>"

lemma two_times_ok: "\<forall>(ev, t)\<in>set two_times. etype ev \<noteq> None" "length two_times + 1 < 2 ^ 24"
  by (simp_all add: two_times_def ev_a_def)


lemma example_ready:
  assumes "\<forall>(ev, t)\<in>set es. etype ev \<noteq> None" "length es + 1 < 2 ^ 24"
  obtains e :: "(nat, nat, nat, nat, nat, nat) cs_engine" where "sim_ready 2 e" "eng_st e = EVENT_DRIVEN"
    "filed e = (\<lambda>\<tau>. filed_at \<tau> es)"
proof -
  have b: "(0 :: nat) < 2" "(2 + 1) * 10 \<le> SEM_VALUE_MAX" "(0 :: nat) < 4" "4 * 10 \<le> SEM_VALUE_MAX" "0 \<le> (0 :: int)"
    by (simp_all add: SEM_VALUE_MAX_def)
  show ?thesis
    using set_up_ready [OF b assms, of old_timer 0 None small_memory 0 100] that by (auto simp: Let_def simp del: One_nat_def)
qed

abbreviation keep_all :: "(nat, nat, (ev_code, ev_input, unit) cs_workerpool) run_handler" where
  "keep_all \<equiv> \<lambda>h e v. Ok (CS_EH_NORMAL, v)"

abbreviation idle_pool :: "(nat, nat, nat) pool_ops" where
  "idle_pool \<equiv> (\<lambda>code p sz w. Ok (1, w), \<lambda>i w. Ok w)"

lemma example_parts: "ops_return (fst idle_pool) (snd idle_pool)" "still keep_all" "forward keep_all" "handlers_return keep_all"
  using stillD [of keep_all] by (simp_all add: ops_return_def still_def)

lemma longest_run:
  assumes "sim_ready n e" "eng_st e = EVENT_DRIVEN" "overdue e = (\<lambda>_. [])" "last_time (filed e) final"
    "Suc (Suc final) < 2 ^ 63" "ops_return (fst ops) (snd ops)" "still run"
  shows "\<exists>j s. sim_run ops run e j s \<and> (\<nexists>s'. sim_step ops run s s')"
proof (rule ccontr)
  assume more: "\<not> ?thesis"
  have "\<exists>s. sim_run ops run e j s" for j
  proof (induction j)
    case (Suc j)
    then show ?case using more run_step by meson
  qed (use run_start in blast)
  then obtain s where "sim_run ops run e (200 * Suc final + 50) s" by blast
  from run_plan [OF assms this] show False by simp
qed

lemma example_run:
  obtains e :: "(nat, nat, nat, nat, nat, nat) cs_engine" and j s where "sim_ready 2 e" "eng_st e = EVENT_DRIVEN"
    "overdue e = (\<lambda>_. [])" "filed e = (\<lambda>\<tau>. filed_at \<tau> two_times)" "last_time (filed e) 3"
    "sim_run idle_pool keep_all e j s" "\<nexists>s'. sim_step idle_pool keep_all s s'" "clock_ticks s < 2 ^ 63"
proof -
  obtain e :: "(nat, nat, nat, nat, nat, nat) cs_engine" where e: "sim_ready 2 e" "eng_st e = EVENT_DRIVEN"
    "filed e = (\<lambda>\<tau>. filed_at \<tau> two_times)"
    using example_ready [OF two_times_ok] by blast
  have o: "overdue e = (\<lambda>_. [])" and l: "last_time (filed e) 3"
    by (auto simp: overdue_def fun_eq_iff e(3) two_times_def last_time_def)
  obtain j s where r: "sim_run idle_pool keep_all e j s" "\<nexists>s'. sim_step idle_pool keep_all s s'"
    using longest_run [OF e(1,2) o l _ example_parts(1,2)] by auto
  have "plan_inv (filed e) 3 s" using run_plan [OF e(1,2) o l _ example_parts(1,2) r(1)] by simp
  then have "clock_ticks s < 2 ^ 63" by (auto simp: plan_inv_def split: if_splits)
  then show ?thesis using that e o l r by blast
qed




lemma stale_event_never_ends_witness:
  "\<exists>e :: (nat, nat, nat, nat, nat, nat) cs_engine. filed e 0 = [ev_a] \<and>
     (\<forall>j s. sim_run idle_pool keep_all e j s \<and> clock_ticks s < 2 ^ 63 \<longrightarrow> epc s \<noteq> E_done)"
proof -
  have es: "\<forall>(ev, t)\<in>set [(ev_a, 0 :: cs_clockv)]. etype ev \<noteq> None" "length [(ev_a, 0 :: cs_clockv)] + 1 < 2 ^ 24"
    by (simp_all add: ev_a_def)
  obtain e :: "(nat, nat, nat, nat, nat, nat) cs_engine" where e: "sim_ready 2 e" "eng_st e = EVENT_DRIVEN"
    "filed e = (\<lambda>\<tau>. filed_at \<tau> [(ev_a, 0)])"
    using example_ready [OF es] by blast
  then have f: "filed e 0 = [ev_a]" "filed e 0 \<noteq> []" by simp_all
  have "epc s \<noteq> E_done" if "sim_run idle_pool keep_all e j s" "clock_ticks s < 2 ^ 63" for j s
    using stale_event_never_ends [OF e(1,2) _ f(2) example_parts(1,3,4) that] by simp
  then show ?thesis using f(1) by blast
qed

end
