(* ===== verification/BSTS_Tree.thy ===== *)
theory BSTS_Tree
  imports CS_Prelude
begin

text \<open>
  The binary search tree with a sentinel of \<open>avl-2.0/src/bsts.c\<close>: integers, a search that needs no test
  for the end of a path because the item is first stored in the sentinel, and insertion.  The links to the
  sentinel are the leaves of the tree; its datum is kept in the record of the tree.  Whether \<open>malloc\<close> has memory
  is an argument.
\<close>

section \<open>The code\<close>

datatype bsts_node = Sentinel | Bsts_node bsts_node int bsts_node

record bsts_tree =
  bsts_root :: bsts_node
  bsts_sentinel :: int

fun bsts_data :: "int \<Rightarrow> bsts_node \<Rightarrow> int" where
  "bsts_data sent Sentinel = sent"
| "bsts_data sent (Bsts_node l x r) = x"

text \<open>The search loop; it would go on through the links of the sentinel, which nobody sets.\<close>

fun bsts_search :: "int \<Rightarrow> int \<Rightarrow> bsts_node \<Rightarrow> bool outcome" where
  "bsts_search sent item Sentinel =
     (if item = bsts_data sent Sentinel then Ok False else Fault Uninitialised_read)"
| "bsts_search sent item (Bsts_node l x r) =
     (if item = x then Ok True else if item < x then bsts_search sent item l else bsts_search sent item r)"

text \<open>The tree is returned as well: its sentinel has changed.\<close>

definition bsts_find :: "bsts_tree \<Rightarrow> int \<Rightarrow> (bool \<times> bsts_tree) outcome" where
  "bsts_find tree item =
     (let tree = tree\<lparr>bsts_sentinel := item\<rparr> in
      obind (bsts_search (bsts_sentinel tree) item (bsts_root tree)) (\<lambda>b. Ok (b, tree)))"

text \<open>The descent with the place of the link, \<open>q\<close>: what is written there takes the place of the sentinel.\<close>

fun bsts_place :: "bool \<Rightarrow> int \<Rightarrow> int \<Rightarrow> bsts_node \<Rightarrow> bsts_node outcome" where
  "bsts_place has_memory sent item Sentinel =
     (if item \<noteq> bsts_data sent Sentinel then Fault Uninitialised_read
      else if has_memory then Ok (Bsts_node Sentinel item Sentinel) else Fault Exit_failure)"
| "bsts_place has_memory sent item (Bsts_node l x r) =
     (if item = x then Ok (Bsts_node l x r)
      else if item > x then obind (bsts_place has_memory sent item r) (\<lambda>r. Ok (Bsts_node l x r))
      else obind (bsts_place has_memory sent item l) (\<lambda>l. Ok (Bsts_node l x r)))"

definition bsts_insert :: "bool \<Rightarrow> bsts_tree \<Rightarrow> int \<Rightarrow> bsts_tree outcome" where
  "bsts_insert has_memory tree item =
     (let tree = tree\<lparr>bsts_sentinel := item\<rparr> in
      obind (bsts_place has_memory (bsts_sentinel tree) item (bsts_root tree)) (\<lambda>t. Ok (tree\<lparr>bsts_root := t\<rparr>)))"

text \<open>The two loops of \<^verbatim>\<open>test_correctness\<close>; the sentinel of the local tree starts with any value.\<close>

fun insert_all :: "bsts_tree \<Rightarrow> int list \<Rightarrow> bsts_tree outcome" where
  "insert_all tree [] = Ok tree"
| "insert_all tree (x # xs) = obind (bsts_insert True tree x) (\<lambda>tree. insert_all tree xs)"

fun find_all :: "bsts_tree \<Rightarrow> int list \<Rightarrow> bool \<Rightarrow> bool outcome" where
  "find_all tree [] okay = Ok okay"
| "find_all tree (x # xs) okay = obind (bsts_find tree x) (\<lambda>(b, tree). find_all tree xs (okay \<and> b))"

definition test_correctness :: "int \<Rightarrow> int list \<Rightarrow> bool outcome" where
  "test_correctness junk ins =
     obind (insert_all \<lparr>bsts_root = Sentinel, bsts_sentinel = junk\<rparr> ins)
       (\<lambda>tree. find_all tree (map int [0..<length ins]) True)"

section \<open>What it promises\<close>

fun bsts_items :: "bsts_node \<Rightarrow> int list" where
  "bsts_items Sentinel = []"
| "bsts_items (Bsts_node l x r) = bsts_items l @ x # bsts_items r"

definition bsts_ok :: "bsts_tree \<Rightarrow> bool" where
  "bsts_ok tree \<longleftrightarrow> sorted_wrt (<) (bsts_items (bsts_root tree))"

lemma bsts_search_iff:
  "sorted_wrt (<) (bsts_items t) \<Longrightarrow> bsts_search item item t = Ok (item \<in> set (bsts_items t))"
  by (induction t) (auto simp: sorted_wrt_append)

lemma bsts_place_iff:
  "sorted_wrt (<) (bsts_items t) \<Longrightarrow>
    \<exists>t'. bsts_place True item item t = Ok t' \<and> sorted_wrt (<) (bsts_items t') \<and> set (bsts_items t') = insert item (set (bsts_items t))"
proof (induction t)
  case (Bsts_node l x r)
  then have lr: "sorted_wrt (<) (bsts_items l)" "sorted_wrt (<) (bsts_items r)"
    "\<forall>y\<in>set (bsts_items l). y < x" "\<forall>y\<in>set (bsts_items r). x < y"
    by (auto simp: sorted_wrt_append)
  obtain l' where l': "bsts_place True item item l = Ok l'" "sorted_wrt (<) (bsts_items l')"
    "set (bsts_items l') = insert item (set (bsts_items l))"
    using Bsts_node.IH(1) [OF lr(1)] by blast
  obtain r' where r': "bsts_place True item item r = Ok r'" "sorted_wrt (<) (bsts_items r')"
    "set (bsts_items r') = insert item (set (bsts_items r))"
    using Bsts_node.IH(2) [OF lr(2)] by blast
  consider "item = x" | "item < x" | "x < item" by linarith
  then show ?case
  proof cases
    case 1
    then show ?thesis using Bsts_node.prems by auto
  next
    case 2
    then show ?thesis using l' lr by (fastforce simp: sorted_wrt_append)
  next
    case 3
    then show ?thesis using r' lr by (fastforce simp: sorted_wrt_append)
  qed
qed simp

lemma bsts_find_ok:
  assumes "bsts_ok tree"
  shows "\<exists>tree'. bsts_find tree item = Ok (item \<in> set (bsts_items (bsts_root tree)), tree') \<and>
    bsts_ok tree' \<and> bsts_root tree' = bsts_root tree"
  using assms bsts_search_iff [of "bsts_root tree" item] by (simp add: bsts_find_def bsts_ok_def)

lemma bsts_insert_ok:
  assumes "bsts_ok tree"
  shows "\<exists>tree'. bsts_insert True tree item = Ok tree' \<and> bsts_ok tree' \<and>
    set (bsts_items (bsts_root tree')) = insert item (set (bsts_items (bsts_root tree)))"
  using assms bsts_place_iff [of "bsts_root tree" item] by (auto simp: bsts_insert_def bsts_ok_def)

lemma insert_all_ok:
  "bsts_ok tree \<Longrightarrow> \<exists>tree'. insert_all tree xs = Ok tree' \<and> bsts_ok tree' \<and>
    set (bsts_items (bsts_root tree')) = set (bsts_items (bsts_root tree)) \<union> set xs"
proof (induction xs arbitrary: tree)
  case (Cons x xs)
  obtain t where t: "bsts_insert True tree x = Ok t" "bsts_ok t"
    "set (bsts_items (bsts_root t)) = insert x (set (bsts_items (bsts_root tree)))"
    using bsts_insert_ok [OF Cons.prems] by blast
  then show ?case using Cons.IH [OF t(2)] by auto
qed simp

lemma find_all_ok:
  "bsts_ok tree \<Longrightarrow> find_all tree xs okay = Ok (okay \<and> set xs \<subseteq> set (bsts_items (bsts_root tree)))"
proof (induction xs arbitrary: tree okay)
  case (Cons x xs)
  obtain t where t: "bsts_find tree x = Ok (x \<in> set (bsts_items (bsts_root tree)), t)" "bsts_ok t"
    "bsts_root t = bsts_root tree"
    using bsts_find_ok [OF Cons.prems] by blast
  then show ?case using Cons.IH [OF t(2)] by auto
qed simp

text \<open>The test of the file succeeds for the insertion orders it is meant for, whatever the sentinel held before.\<close>

lemma test_correctness_succeeds:
  assumes "set ins = int ` {0..<length ins}"
  shows "test_correctness junk ins = Ok True"
proof -
  have "bsts_ok \<lparr>bsts_root = Sentinel, bsts_sentinel = junk\<rparr>" by (simp add: bsts_ok_def)
  from insert_all_ok [OF this, of ins] obtain t where
    "insert_all \<lparr>bsts_root = Sentinel, bsts_sentinel = junk\<rparr> ins = Ok t" "bsts_ok t"
    "set (bsts_items (bsts_root t)) = set ins"
    by auto
  then show ?thesis using assms by (simp add: test_correctness_def find_all_ok)
qed

end
