(* ===== verification/SLR_Grammar.thy ===== *)
theory SLR_Grammar
  imports CS_Prelude
begin

text \<open>
  The grammar of \<open>avl-2.0/src/slr.c\<close>, a generator of SLR parse tables: sets of symbols, the
  productions, and the table of symbols.  The C file holds its grammar in a static array; the
  functions of the model take the array as an argument, and the array of the file is a constant
  of its own.

  A grammar symbol is the code of a character; 0 stands for the empty string and the code of a
  dollar sign for the end of the input.  The growing arrays of the code are lists; \<^verbatim>\<open>xmalloc\<close> and
  \<^verbatim>\<open>xrealloc\<close>, which end the program when there is no memory, are not modelled.
\<close>

section \<open>Sets of symbols\<close>

definition set_contains :: "int list \<Rightarrow> int \<Rightarrow> bool" where
  "set_contains s c \<longleftrightarrow> c \<in> set s"

definition set_add :: "int list \<Rightarrow> int \<Rightarrow> int \<times> int list" where
  "set_add s c = (if set_contains s c then (0, s) else (1, s @ [c]))"

text \<open>\<open>set_merge dst src null_also\<close> returns the number of symbols added.\<close>

fun set_merge :: "int list \<Rightarrow> int list \<Rightarrow> bool \<Rightarrow> int \<times> int list" where
  "set_merge dst [] null_also = (0, dst)"
| "set_merge dst (c # src) null_also =
     (if null_also \<or> c \<noteq> 0 then
        (let (n, dst) = set_add dst c; (count, dst) = set_merge dst src null_also in (n + count, dst))
      else set_merge dst src null_also)"

lemma set_contains_iff [simp]: "set_contains s c \<longleftrightarrow> c \<in> set s"
  by (simp add: set_contains_def)

lemma set_add_cases:
  "set_add s c = (n, s') \<Longrightarrow> set s' = insert c (set s) \<and> 0 \<le> n \<and> (n = 0 \<longleftrightarrow> s' = s) \<and> (s' = s \<longleftrightarrow> c \<in> set s)"
  by (auto simp: set_add_def split: if_splits)

text \<open>What is merged; the count tells whether the set has grown.\<close>

definition merged :: "int list \<Rightarrow> bool \<Rightarrow> int set" where
  "merged src null_also = {c \<in> set src. null_also \<or> c \<noteq> 0}"

lemma merged_simps [simp]:
  "merged [] b = {}" "merged (c # src) b = (if b \<or> c \<noteq> 0 then insert c (merged src b) else merged src b)"
  by (auto simp: merged_def)

lemma set_merge_cases:
  "set_merge dst src b = (n, dst') \<Longrightarrow>
     set dst' = set dst \<union> merged src b \<and> 0 \<le> n \<and> (n = 0 \<longleftrightarrow> dst' = dst) \<and> (dst' = dst \<longleftrightarrow> merged src b \<subseteq> set dst)"
proof (induction src arbitrary: dst n dst')
  case (Cons c src)
  show ?case
  proof (cases "b \<or> c \<noteq> 0")
    case True
    obtain m d where a: "set_add dst c = (m, d)" by fastforce
    obtain k e where r: "set_merge d src b = (k, e)" by fastforce
    have e: "n = m + k" "dst' = e" using Cons.prems True a r by auto
    have i: "set e = set d \<union> merged src b" "0 \<le> k" "k = 0 \<longleftrightarrow> e = d" "e = d \<longleftrightarrow> merged src b \<subseteq> set d"
      using Cons.IH [OF r] by blast+
    have s: "set d = insert c (set dst)" "0 \<le> m" "m = 0 \<longleftrightarrow> d = dst" "d = dst \<longleftrightarrow> c \<in> set dst"
      using set_add_cases [OF a] by blast+
    have new: "merged (c # src) b = insert c (merged src b)" using True by simp
    show ?thesis
    proof (cases "c \<in> set dst")
      case True
      then have "d = dst" "m = 0" using s by blast+
      then show ?thesis unfolding e(2) new using i e(1) True by auto
    next
      case False
      then have "c \<in> set e" "0 < m" using i(1) s by auto
      then have "n \<noteq> 0" "e \<noteq> dst" "0 \<le> n" using e(1) i(2) False by auto
      moreover have "set e = set dst \<union> insert c (merged src b)" using i(1) s(1) by blast
      ultimately show ?thesis unfolding e(2) new using False by blast
    qed
  next
    case False
    then show ?thesis using Cons by auto
  qed
qed simp

section \<open>Productions\<close>

record production =
  p_left :: int
  p_right :: "int list"
  p_ascii :: string
  p_reduction :: string

text \<open>The two loops that read \<^verbatim>\<open>grammar[][]\<close>: a row is the text of a rule and the name of its reduction.\<close>

type_synonym grammar_row = "string \<times> string"

definition row_left :: "grammar_row \<Rightarrow> int" where
  "row_left row = of_char (fst row ! 0)"

definition row_right :: "grammar_row \<Rightarrow> int list" where
  "row_right row = map of_char (drop 2 (fst row))"

definition initialize_G :: "grammar_row list \<Rightarrow> production list" where
  "initialize_G grammar =
     map (\<lambda>row. \<lparr>p_left = row_left row, p_right = row_right row, p_ascii = fst row, p_reduction = snd row\<rparr>) grammar"

section \<open>Symbols\<close>

text \<open>
  The array \<^verbatim>\<open>symbols[]\<close>.  Its members \<open>first\<close> and \<open>follow\<close>, which are filled in later, are
  tables of their own, indexed like the array.
\<close>

record symbol =
  sym :: int
  nonterm :: bool
  nt_index :: int

fun symbol_index :: "symbol list \<Rightarrow> int \<Rightarrow> nat option" where
  "symbol_index [] c = None"
| "symbol_index (s # syms) c =
     (if c = sym s then Some 0
      else case symbol_index syms c of None \<Rightarrow> None | Some i \<Rightarrow> Some (Suc i))"

text \<open>\<^verbatim>\<open>find_symbol\<close> returns the place in the array, or aborts.\<close>

definition find_symbol :: "symbol list \<Rightarrow> int \<Rightarrow> nat outcome" where
  "find_symbol syms c = (case symbol_index syms c of None \<Rightarrow> Fault Aborted | Some i \<Rightarrow> Ok i)"

definition UCHAR_MAX :: nat where
  "UCHAR_MAX = 255"

text \<open>The second loop of \<^verbatim>\<open>find_unique_symbols\<close>: \<open>n\<close> counts the nonterminals.\<close>

fun number_symbols :: "(int \<Rightarrow> bool) \<Rightarrow> (int \<Rightarrow> bool) \<Rightarrow> int list \<Rightarrow> int \<Rightarrow> symbol list" where
  "number_symbols left right [] n = []"
| "number_symbols left right (c # cs) n =
     (if left c \<or> right c then
        \<lparr>sym = c, nonterm = left c, nt_index = (if left c then n else - 1)\<rparr> #
          number_symbols left right cs (n + (if left c then 1 else 0))
      else number_symbols left right cs n)"

text \<open>
  \<^verbatim>\<open>find_unique_symbols\<close>: the bits of \<^verbatim>\<open>seen[]\<close> say on which sides of a rule a character occurs.
  The array has no place for the character 255.
\<close>

definition find_unique_symbols :: "grammar_row list \<Rightarrow> symbol list outcome" where
  "find_unique_symbols grammar =
     (let lefts = map row_left grammar; rights = concat (map row_right grammar) in
      if \<exists>c\<in>set (lefts @ rights). int UCHAR_MAX \<le> c then Fault Out_of_bounds
      else Ok (number_symbols (\<lambda>c. c \<in> set lefts) (\<lambda>c. c \<in> set rights) (map int [0..<UCHAR_MAX]) 0))"

definition n_nonterminals :: "symbol list \<Rightarrow> nat" where
  "n_nonterminals syms = length (filter nonterm syms)"

definition n_terminals :: "symbol list \<Rightarrow> nat" where
  "n_terminals syms = length (filter (\<lambda>s. \<not> nonterm s) syms)"

section \<open>Looking up symbols\<close>

lemma symbol_index_Some: "symbol_index syms c = Some i \<Longrightarrow> i < length syms \<and> sym (syms ! i) = c"
  by (induction syms arbitrary: i) (auto split: if_splits option.splits)

lemma symbol_index_None: "symbol_index syms c = None \<longleftrightarrow> c \<notin> sym ` set syms"
  by (induction syms) (auto split: option.splits)

lemma symbol_index_nth: "distinct (map sym syms) \<Longrightarrow> i < length syms \<Longrightarrow> symbol_index syms (sym (syms ! i)) = Some i"
proof (induction syms arbitrary: i)
  case (Cons s syms)
  show ?case
  proof (cases i)
    case (Suc j)
    then have "sym (syms ! j) \<in> sym ` set syms" using Cons.prems(2) by simp
    then have "sym (syms ! j) \<noteq> sym s" using Cons.prems(1) by auto
    then show ?thesis using Cons Suc by simp
  qed simp
qed simp

text \<open>
  The symbols belong to the grammar: every symbol of a production is in the table once, the
  nonterminals are the left sides, and neither 0 nor the dollar sign is a symbol.
\<close>

definition END_MARK :: int where
  "END_MARK = 36"

definition symbols_ok :: "production list \<Rightarrow> symbol list \<Rightarrow> bool" where
  "symbols_ok G syms \<longleftrightarrow> distinct (map sym syms) \<and> 0 \<notin> sym ` set syms \<and> END_MARK \<notin> sym ` set syms \<and>
     (\<forall>p\<in>set G. insert (p_left p) (set (p_right p)) \<subseteq> sym ` set syms) \<and>
     (\<forall>s\<in>set syms. nonterm s \<longleftrightarrow> sym s \<in> p_left ` set G)"

lemma find_symbol_ok:
  assumes "c \<in> sym ` set syms"
  obtains i where "find_symbol syms c = Ok i" "i < length syms" "sym (syms ! i) = c"
proof -
  obtain i where "symbol_index syms c = Some i" using assms symbol_index_None [of syms c] by fastforce
  then show ?thesis using that symbol_index_Some [of syms c i] by (simp add: find_symbol_def)
qed

lemma find_symbol_iff:
  assumes "distinct (map sym syms)"
  shows "find_symbol syms c = Ok i \<longleftrightarrow> i < length syms \<and> sym (syms ! i) = c"
  using symbol_index_Some [of syms c i] symbol_index_nth [OF assms, of i]
  by (auto simp: find_symbol_def split: option.splits)

lemma number_symbols_sym:
  "map sym (number_symbols left right cs n) = filter (\<lambda>c. left c \<or> right c) cs"
  "s \<in> set (number_symbols left right cs n) \<Longrightarrow> nonterm s = left (sym s)"
  by (induction cs arbitrary: n) (auto split: if_splits)

lemma of_char_nonneg [simp]: "0 \<le> (of_char c :: int)"
  using of_nat_of_char [of c, where 'a = int] by (metis of_nat_0_le_iff)

lemma find_unique_symbols_ok:
  assumes "find_unique_symbols grammar = Ok syms"
    and "\<forall>c\<in>set (map row_left grammar @ concat (map row_right grammar)). c \<noteq> 0 \<and> c \<noteq> END_MARK"
  shows "symbols_ok (initialize_G grammar) syms \<and> sorted (map sym syms)"
proof -
  let ?l = "map row_left grammar" and ?r = "concat (map row_right grammar)"
  have b: "\<forall>c\<in>set (?l @ ?r). c < int UCHAR_MAX"
    and s: "syms = number_symbols (\<lambda>c. c \<in> set ?l) (\<lambda>c. c \<in> set ?r) (map int [0..<UCHAR_MAX]) 0"
    using assms(1) by (auto simp: find_unique_symbols_def Let_def not_le split: if_splits)
  have m: "map sym syms = filter (\<lambda>c. c \<in> set ?l \<or> c \<in> set ?r) (map int [0..<UCHAR_MAX])"
    unfolding s by (rule number_symbols_sym)
  have nn: "\<forall>c\<in>set (?l @ ?r). 0 \<le> c"
    by (auto simp: row_left_def row_right_def)
  have img: "sym ` set syms = set (?l @ ?r)"
  proof -
    have "sym ` set syms = set (map sym syms)" by simp
    also have "\<dots> = {c \<in> int ` {0..<UCHAR_MAX}. c \<in> set (?l @ ?r)}" unfolding m by auto
    also have "\<dots> = set (?l @ ?r)"
    proof -
      have "c \<in> int ` {0..<UCHAR_MAX}" if "c \<in> set (?l @ ?r)" for c
        using that b nn by (intro image_eqI [of _ _ "nat c"]) (auto simp: nat_less_iff)
      then show ?thesis by blast
    qed
    finally show ?thesis .
  qed
  have "distinct (map int [0..<n])" "sorted (map int [0..<n])" for n
    by (simp_all add: distinct_map sorted_map sorted_wrt_iff_nth_less)
  then have "distinct (map sym syms)" "sorted (map sym syms)"
    unfolding m by (blast intro: distinct_filter sorted_wrt_filter)+
  moreover have "nonterm t \<longleftrightarrow> sym t \<in> set ?l" if "t \<in> set syms" for t
    using that number_symbols_sym(2) unfolding s by blast
  moreover have "p_left ` set (initialize_G grammar) = set ?l"
    by (simp add: initialize_G_def image_image)
  moreover have "insert (p_left p) (set (p_right p)) \<subseteq> set (?l @ ?r)" if "p \<in> set (initialize_G grammar)" for p
    using that by (auto simp: initialize_G_def)
  ultimately show ?thesis using assms(2) unfolding symbols_ok_def img by auto
qed

end
