(* ===== verification/SLR_First.thy ===== *)
theory SLR_First
  imports SLR_Grammar
begin

text \<open>
  The FIRST function of \<open>slr.c\<close>, \<^verbatim>\<open>precalc_first\<close>, and the interface of the computations by passes: FIRST and
  FOLLOW are computed by passes over all productions until a pass adds nothing.  What the table
  then holds is stated by rules, one for each way in which the code adds a symbol; how these
  rules relate to the FIRST of the literature is the subject of \<open>SLR_Textbook\<close>.
\<close>

section \<open>Tables of sets\<close>

text \<open>The members \<open>first\<close>, or the members \<open>follow\<close>, of all symbols.\<close>

type_synonym sets = "nat \<Rightarrow> int list"

text \<open>\<^verbatim>\<open>added |= set_merge (&symbols[x].first, src, null_also)\<close>\<close>

definition merge_at :: "nat \<Rightarrow> int list \<Rightarrow> bool \<Rightarrow> sets \<Rightarrow> bool \<times> sets" where
  "merge_at x src null_also tab =
     (let (n, s) = set_merge (tab x) src null_also in (n \<noteq> 0, tab(x := s)))"

definition add_at :: "nat \<Rightarrow> int \<Rightarrow> sets \<Rightarrow> bool \<times> sets" where
  "add_at x c tab = (let (n, s) = set_add (tab x) c in (n \<noteq> 0, tab(x := s)))"

section \<open>FIRST\<close>

definition empty_rule :: "production list \<Rightarrow> int \<Rightarrow> bool" where
  "empty_rule G c \<longleftrightarrow> (\<exists>p\<in>set G. p_left p = c \<and> p_right p = [])"

text \<open>The first loop of \<^verbatim>\<open>precalc_first\<close>.\<close>

definition first_start :: "production list \<Rightarrow> symbol list \<Rightarrow> sets" where
  "first_start G syms i =
     (if i < length syms then
        (if nonterm (syms ! i) then
           (if empty_rule G (sym (syms ! i)) then snd (set_add [] 0) else [])
         else snd (set_add [] (sym (syms ! i))))
      else [])"

text \<open>
  The loop over the right side of a production whose left side is the symbol at \<open>x\<close>.  The code
  writes the loop of \<^verbatim>\<open>set_merge\<close> out.
\<close>

fun first_symbols :: "symbol list \<Rightarrow> nat \<Rightarrow> int list \<Rightarrow> sets \<Rightarrow> (bool \<times> sets) outcome" where
  "first_symbols syms x [] tab = Ok (add_at x 0 tab)"
| "first_symbols syms x (y # ys) tab =
     obind (find_symbol syms y)
       (\<lambda>j. let (a, tab) = merge_at x (tab j) False tab in
          if \<not> set_contains (tab x) 0 then Ok (a, tab)
          else obind (first_symbols syms x ys tab) (\<lambda>(b, tab). Ok (a \<or> b, tab)))"

fun first_pass :: "symbol list \<Rightarrow> production list \<Rightarrow> sets \<Rightarrow> (bool \<times> sets) outcome" where
  "first_pass syms [] tab = Ok (False, tab)"
| "first_pass syms (p # ps) tab =
     obind (find_symbol syms (p_left p))
       (\<lambda>x. obind (first_symbols syms x (p_right p) tab)
         (\<lambda>(a, tab). obind (first_pass syms ps tab) (\<lambda>(b, tab). Ok (a \<or> b, tab))))"

subsection \<open>Passes only add\<close>

text \<open>
  \<open>extends n X tab tab' a\<close>: the sets below \<open>n\<close> have grown, by symbols of \<open>X\<close> and of each other,
  and \<open>a\<close> says whether they have.
\<close>

definition pool :: "nat \<Rightarrow> int set \<Rightarrow> sets \<Rightarrow> int set" where
  "pool n X tab = X \<union> (\<Union>j<n. set (tab j))"

definition extends :: "nat \<Rightarrow> int set \<Rightarrow> sets \<Rightarrow> sets \<Rightarrow> bool \<Rightarrow> bool" where
  "extends n X tab tab' a \<longleftrightarrow>
     (\<forall>i. set (tab i) \<subseteq> set (tab' i) \<and> set (tab' i) \<subseteq> set (tab i) \<union> pool n X tab \<and> (n \<le> i \<longrightarrow> tab' i = tab i)) \<and>
     (a \<longrightarrow> (\<exists>i<n. \<not> set (tab' i) \<subseteq> set (tab i))) \<and> (\<not> a \<longrightarrow> tab' = tab)"

lemma extends_refl: "extends n X tab tab False"
  by (auto simp: extends_def)

lemma extends_pool:
  assumes "extends n X tab tab' a"
  shows "pool n X tab' = pool n X tab"
proof
  have up: "set (tab' i) \<subseteq> set (tab i) \<union> pool n X tab" and down: "set (tab i) \<subseteq> set (tab' i)" for i
    using assms by (auto simp: extends_def)
  show "pool n X tab' \<subseteq> pool n X tab"
  proof
    fix c
    assume "c \<in> pool n X tab'"
    then consider "c \<in> X" | i where "i < n" "c \<in> set (tab' i)" by (auto simp: pool_def)
    then show "c \<in> pool n X tab"
    proof cases
      case (2 i)
      then have "c \<in> set (tab i) \<union> pool n X tab" using up by blast
      then show ?thesis using 2(1) by (auto simp: pool_def)
    qed (simp add: pool_def)
  qed
  show "pool n X tab \<subseteq> pool n X tab'"
    using down unfolding pool_def by blast
qed

lemma extends_trans:
  assumes "extends n X tab tab' a" "extends n X tab' tab'' b"
  shows "extends n X tab tab'' (a \<or> b)"
proof -
  have p: "pool n X tab' = pool n X tab" by (rule extends_pool [OF assms(1)])
  have "set (tab i) \<subseteq> set (tab'' i) \<and> set (tab'' i) \<subseteq> set (tab i) \<union> pool n X tab \<and> (n \<le> i \<longrightarrow> tab'' i = tab i)" for i
  proof -
    have "set (tab i) \<subseteq> set (tab' i)" "set (tab' i) \<subseteq> set (tab i) \<union> pool n X tab" "n \<le> i \<longrightarrow> tab' i = tab i"
      using assms(1) by (auto simp: extends_def)
    moreover have "set (tab' i) \<subseteq> set (tab'' i)" "set (tab'' i) \<subseteq> set (tab' i) \<union> pool n X tab" "n \<le> i \<longrightarrow> tab'' i = tab' i"
      using assms(2) unfolding extends_def p by blast+
    ultimately show ?thesis by auto
  qed
  moreover have "(a \<or> b \<longrightarrow> (\<exists>i<n. \<not> set (tab'' i) \<subseteq> set (tab i))) \<and> (\<not> (a \<or> b) \<longrightarrow> tab'' = tab)"
  proof (cases "a \<or> b")
    case True
    moreover have "\<exists>i<n. \<not> set (tab'' i) \<subseteq> set (tab i)" if new: a
    proof -
      obtain i where "i < n" "\<not> set (tab' i) \<subseteq> set (tab i)" using assms(1) new by (auto simp: extends_def)
      moreover have "set (tab' i) \<subseteq> set (tab'' i)" using assms(2) by (simp add: extends_def)
      ultimately show ?thesis by blast
    qed
    moreover have "\<exists>i<n. \<not> set (tab'' i) \<subseteq> set (tab i)" if new: b
    proof -
      obtain i where "i < n" "\<not> set (tab'' i) \<subseteq> set (tab' i)" using assms(2) new by (auto simp: extends_def)
      moreover have "set (tab i) \<subseteq> set (tab' i)" using assms(1) by (simp add: extends_def)
      ultimately show ?thesis by blast
    qed
    ultimately show ?thesis by auto
  qed (use assms in \<open>simp add: extends_def\<close>)
  ultimately show ?thesis by (simp add: extends_def)
qed

lemma extends_merge:
  assumes "x < n" "merged src b \<subseteq> pool n X tab" "merge_at x src b tab = (a, tab')"
  shows "extends n X tab tab' a" and "set (tab' x) = set (tab x) \<union> merged src b"
    and "a \<or> merged src b \<subseteq> set (tab x)"
proof -
  obtain k s where m: "set_merge (tab x) src b = (k, s)" by fastforce
  have s: "set s = set (tab x) \<union> merged src b" "k = 0 \<longleftrightarrow> s = tab x" "s = tab x \<longleftrightarrow> merged src b \<subseteq> set (tab x)"
    using set_merge_cases [OF m] by blast+
  have t: "a \<longleftrightarrow> k \<noteq> 0" "tab' = tab(x := s)" using assms(3) m by (auto simp: merge_at_def)
  show "set (tab' x) = set (tab x) \<union> merged src b" using t s by simp
  show "a \<or> merged src b \<subseteq> set (tab x)" using t s by blast
  show "extends n X tab tab' a"
  proof (cases a)
    case True
    then have "\<not> set s \<subseteq> set (tab x)" using t s by auto
    then show ?thesis using True t s assms(1,2) by (auto simp: extends_def)
  next
    case False
    then have "s = tab x" using t s(2) by simp
    then have "tab' = tab" using t(2) by simp
    then show ?thesis using False extends_refl by simp
  qed
qed

lemma add_is_merge: "add_at x c tab = merge_at x [c] True tab"
proof -
  obtain n s where "set_add (tab x) c = (n, s)" by fastforce
  then show ?thesis by (simp add: add_at_def merge_at_def)
qed

text \<open>What can still be added: it bounds the number of passes.\<close>

definition room :: "nat \<Rightarrow> int set \<Rightarrow> sets \<Rightarrow> nat" where
  "room n X tab = (\<Sum>i<n. card (pool n X tab - set (tab i)))"

lemma room_less:
  assumes "extends n X tab tab' True" "finite X"
  shows "room n X tab' < room n X tab"
  unfolding room_def extends_pool [OF assms(1)]
proof (rule sum_strict_mono_ex1)
  have fin: "finite (pool n X tab)" using assms(2) by (simp add: pool_def)
  show "\<forall>i\<in>{..<n}. card (pool n X tab - set (tab' i)) \<le> card (pool n X tab - set (tab i))"
    using assms(1) fin by (auto simp: extends_def intro!: card_mono)
  obtain i c where i: "i < n" "c \<in> set (tab' i)" "c \<notin> set (tab i)"
    using assms(1) by (auto simp: extends_def)
  then have "c \<in> pool n X tab" using assms(1) by (auto simp: extends_def)
  then have "pool n X tab - set (tab' i) \<subset> pool n X tab - set (tab i)"
    using i assms(1) by (auto simp: extends_def)
  then have "card (pool n X tab - set (tab' i)) < card (pool n X tab - set (tab i))"
    using fin by (intro psubset_card_mono) auto
  then show "\<exists>i\<in>{..<n}. card (pool n X tab - set (tab' i)) < card (pool n X tab - set (tab i))"
    using i(1) by blast
qed simp

subsection \<open>Passes until nothing is added\<close>

text \<open>
  The contract of the two loops \<open>for (;;)\<close>: a pass only adds, and keeps what is sound; on the
  arguments for which it returns, the loop ends with a table to which a pass adds nothing.
\<close>

locale passes =
  fixes good :: "'c \<Rightarrow> bool" and size :: "'c \<Rightarrow> nat" and source :: "'c \<Rightarrow> int set"
    and pass :: "'c \<Rightarrow> sets \<Rightarrow> (bool \<times> sets) outcome" and loop :: "'c \<Rightarrow> sets \<Rightarrow> sets outcome"
    and sound :: "'c \<Rightarrow> sets \<Rightarrow> bool"
  assumes adds: "pass c tab = Ok (a, tab') \<Longrightarrow> extends (size c) (source c) tab tab' a"
    and finite_source: "finite (source c)"
    and pass_returns: "good c \<Longrightarrow> \<exists>a tab'. pass c tab = Ok (a, tab')"
    and keeps: "good c \<Longrightarrow> pass c tab = Ok (a, tab') \<Longrightarrow> sound c tab \<Longrightarrow> sound c tab'"
    and again: "pass c tab = Ok (a, tab') \<Longrightarrow> loop c tab = (if \<not> a then Ok tab' else loop c tab')"
begin

lemma loop_ends:
  assumes "good c"
  shows "sound c tab \<Longrightarrow>
    \<exists>tab'. loop c tab = Ok tab' \<and> (\<forall>i. set (tab i) \<subseteq> set (tab' i)) \<and> sound c tab' \<and> pass c tab' = Ok (False, tab')"
proof (induction "room (size c) (source c) tab" arbitrary: tab rule: less_induct)
  case less
  obtain a t where p: "pass c tab = Ok (a, t)" using pass_returns [OF assms, of tab] by blast
  note e = adds [OF p]
  show ?case
  proof (cases a)
    case True
    have s: "sound c t" by (rule keeps [OF assms p less.prems])
    have "room (size c) (source c) t < room (size c) (source c) tab"
      using room_less e finite_source True by simp
    from less.hyps [OF this s] obtain t' where t': "loop c t = Ok t'" "\<forall>i. set (t i) \<subseteq> set (t' i)"
      "sound c t'" "pass c t' = Ok (False, t')"
      by blast
    have "\<forall>i. set (tab i) \<subseteq> set (t' i)" using e t'(2) unfolding extends_def by (metis subset_trans)
    moreover have "loop c tab = Ok t'" using again [OF p] True t'(1) by simp
    ultimately show ?thesis using t'(3,4) by blast
  next
    case False
    then have "t = tab" using e by (simp add: extends_def)
    then show ?thesis using False p again [OF p] less.prems by auto
  qed
qed

end

subsection \<open>The passes of FIRST\<close>

lemma find_symbol_less: "find_symbol syms c = Ok i \<Longrightarrow> i < length syms \<and> sym (syms ! i) = c"
  by (auto simp: find_symbol_def dest: symbol_index_Some split: option.splits)

lemma first_symbols_extends:
  "first_symbols syms x ys tab = Ok (a, tab') \<Longrightarrow> x < length syms \<Longrightarrow> extends (length syms) {0} tab tab' a"
proof (induction ys arbitrary: tab a tab')
  case Nil
  then show ?case by (intro extends_merge(1) [where x = x and src = "[0]" and b = True])
      (auto simp: add_is_merge pool_def)
next
  case (Cons y ys)
  obtain j where j: "find_symbol syms y = Ok j" using Cons.prems(1) by (auto simp: outcome_simps)
  obtain c t where m: "merge_at x (tab j) False tab = (c, t)" by fastforce
  have e: "extends (length syms) {0} tab t c"
    using find_symbol_less [OF j] Cons.prems(2) m
    by (intro extends_merge(1)) (auto simp: merged_def pool_def)
  show ?case
  proof (cases "0 \<in> set (t x)")
    case True
    then obtain b where r: "first_symbols syms x ys t = Ok (b, tab')" "a = (c \<or> b)"
      using Cons.prems(1) j m by (auto simp: outcome_simps)
    show ?thesis unfolding r(2) using extends_trans [OF e Cons.IH [OF r(1) Cons.prems(2)]] .
  next
    case False
    then show ?thesis using Cons.prems(1) j m e by simp
  qed
qed

lemma first_pass_extends: "first_pass syms ps tab = Ok (a, tab') \<Longrightarrow> extends (length syms) {0} tab tab' a"
proof (induction ps arbitrary: tab a tab')
  case Nil
  then show ?case by (simp add: extends_refl)
next
  case (Cons p ps)
  then obtain x b t c where s: "find_symbol syms (p_left p) = Ok x" "first_symbols syms x (p_right p) tab = Ok (b, t)"
    "first_pass syms ps t = Ok (c, tab')" "a = (b \<or> c)"
    by (auto simp: outcome_simps)
  show ?case unfolding s(4)
    using extends_trans [OF first_symbols_extends [OF s(2)] Cons.IH [OF s(3)]] find_symbol_less [OF s(1)] by simp
qed

text \<open>The loop \<open>for (;;)\<close>.\<close>

function first_loop :: "symbol list \<Rightarrow> production list \<Rightarrow> sets \<Rightarrow> sets outcome" where
  "first_loop syms G tab =
     (case first_pass syms G tab of
        Ok (added, tab) \<Rightarrow> if \<not> added then Ok tab else first_loop syms G tab
      | Blocks \<Rightarrow> Blocks
      | Fault e \<Rightarrow> Fault e)"
  by pat_completeness auto
termination
  by (relation "measure (\<lambda>(syms, G, tab). room (length syms) {0} tab)")
    (auto dest!: first_pass_extends intro: room_less)

declare first_loop.simps [simp del]

definition precalc_first :: "symbol list \<Rightarrow> production list \<Rightarrow> sets outcome" where
  "precalc_first syms G = first_loop syms G (first_start G syms)"

subsection \<open>What FIRST holds\<close>

text \<open>
  One rule for every way in which the code adds to the set of \<open>x\<close>: the two of the first loop, the
  first symbol of a right side, and a later symbol, which is reached when the symbol for
  the empty string is in the set of the left side.
\<close>

inductive code_first :: "production list \<Rightarrow> int \<Rightarrow> int \<Rightarrow> bool" for G :: "production list" where
  terminal: "x \<notin> p_left ` set G \<Longrightarrow> code_first G x x"
| empty: "empty_rule G x \<Longrightarrow> code_first G x 0"
| head: "\<lbrakk>p \<in> set G; p_right p = y # ys; code_first G y c; c \<noteq> 0\<rbrakk> \<Longrightarrow> code_first G (p_left p) c"
| rest: "\<lbrakk>p \<in> set G; y \<in> set (p_right p); empty_rule G (p_left p); code_first G y c; c \<noteq> 0\<rbrakk> \<Longrightarrow>
    code_first G (p_left p) c"

lemma empty_rule_left: "empty_rule G x \<Longrightarrow> x \<in> p_left ` set G"
  by (auto simp: empty_rule_def)

lemma code_first_0:
  assumes "code_first G x c" "c = 0" "x \<noteq> 0"
  shows "empty_rule G x"
  using assms by (induction rule: code_first.induct) auto

definition first_sound :: "production list \<Rightarrow> symbol list \<Rightarrow> sets \<Rightarrow> bool" where
  "first_sound G syms tab \<longleftrightarrow> (\<forall>i<length syms. \<forall>c\<in>set (tab i). code_first G (sym (syms ! i)) c)"

lemma symbols_okD:
  assumes "symbols_ok G syms"
  shows "distinct (map sym syms)" "i < length syms \<Longrightarrow> sym (syms ! i) \<noteq> 0"
    "i < length syms \<Longrightarrow> sym (syms ! i) \<noteq> END_MARK"
    "i < length syms \<Longrightarrow> nonterm (syms ! i) \<longleftrightarrow> sym (syms ! i) \<in> p_left ` set G"
    "p \<in> set G \<Longrightarrow> p_left p \<in> sym ` set syms"
    "p \<in> set G \<Longrightarrow> set (p_right p) \<subseteq> sym ` set syms"
proof -
  have ok: "distinct (map sym syms)" "0 \<notin> sym ` set syms" "END_MARK \<notin> sym ` set syms"
    "\<forall>p\<in>set G. insert (p_left p) (set (p_right p)) \<subseteq> sym ` set syms"
    "\<forall>s\<in>set syms. nonterm s \<longleftrightarrow> sym s \<in> p_left ` set G"
    using assms unfolding symbols_ok_def by blast+
  show "distinct (map sym syms)" by (rule ok(1))
  show "sym (syms ! i) \<noteq> 0" if "i < length syms" using ok(2) nth_mem [OF that] by (metis image_eqI)
  show "sym (syms ! i) \<noteq> END_MARK" if "i < length syms" using ok(3) nth_mem [OF that] by (metis image_eqI)
  show "nonterm (syms ! i) \<longleftrightarrow> sym (syms ! i) \<in> p_left ` set G" if "i < length syms"
    using bspec [OF ok(5) nth_mem [OF that]] .
  show "p_left p \<in> sym ` set syms" "set (p_right p) \<subseteq> sym ` set syms" if "p \<in> set G"
    using bspec [OF ok(4) that] by simp_all
qed

lemma first_sound_start:
  assumes "symbols_ok G syms"
  shows "first_sound G syms (first_start G syms)"
  using symbols_okD(4) [OF assms]
  by (auto simp: first_sound_def first_start_def set_add_def intro: code_first.terminal code_first.empty)

text \<open>The scan of a right side of which \<open>pre\<close> has been read.\<close>

lemma first_symbols_sound:
  assumes "symbols_ok G syms" "p \<in> set G" "find_symbol syms (p_left p) = Ok x"
  shows "\<lbrakk>first_symbols syms x ys tab = Ok (a, tab'); p_right p = pre @ ys; pre = [] \<or> 0 \<in> set (tab x);
    first_sound G syms tab\<rbrakk> \<Longrightarrow> first_sound G syms tab'"
proof (induction ys arbitrary: pre tab a tab')
  case Nil
  have x: "x < length syms" "sym (syms ! x) = p_left p" using find_symbol_less [OF assms(3)] by auto
  have "code_first G (p_left p) 0"
  proof (cases "pre = []")
    case True
    then have "empty_rule G (p_left p)" using Nil.prems(2) assms(2) by (auto simp: empty_rule_def)
    then show ?thesis by (rule code_first.empty)
  next
    case False
    then show ?thesis using Nil.prems(3,4) x by (auto simp: first_sound_def)
  qed
  moreover have "tab' = snd (add_at x 0 tab)" using Nil.prems(1) by simp
  ultimately show ?case using Nil.prems(4) x
    by (auto simp: add_at_def set_add_def first_sound_def Let_def split: if_splits)
next
  case (Cons y ys)
  have x: "x < length syms" "sym (syms ! x) = p_left p" using find_symbol_less [OF assms(3)] by auto
  obtain j where j: "find_symbol syms y = Ok j" using Cons.prems(1) by (auto simp: outcome_simps)
  obtain c t where m: "merge_at x (tab j) False tab = (c, t)" by fastforce
  have jl: "j < length syms" "sym (syms ! j) = y" using find_symbol_less [OF j] by auto
  have sub: "merged (tab j) False \<subseteq> pool (length syms) {0} tab" using jl(1) by (auto simp: merged_def pool_def)
  note e = extends_merge [OF x(1) sub m]
  have t: "t i = tab i" if "i \<noteq> x" for i using m that by (auto simp: merge_at_def split: prod.splits)
  have new: "code_first G (p_left p) d" if "d \<in> set (tab j)" "d \<noteq> 0" for d
  proof -
    have d: "code_first G y d" using that(1) Cons.prems(4) jl by (auto simp: first_sound_def)
    show ?thesis
    proof (cases pre)
      case Nil
      then show ?thesis using code_first.head [OF assms(2) _ d that(2)] Cons.prems(2) by simp
    next
      case (Cons z zs)
      then have "code_first G (p_left p) 0" using Cons.prems(3,4) x by (auto simp: first_sound_def)
      then have "empty_rule G (p_left p)"
        by (rule code_first_0) (use symbols_okD(2) [OF assms(1) x(1)] x(2) in auto)
      then show ?thesis using code_first.rest [OF assms(2) _ _ d that(2)] Cons.prems(2) by simp
    qed
  qed
  have s: "first_sound G syms t"
    unfolding first_sound_def
  proof (intro allI impI ballI)
    fix i d
    assume i: "i < length syms" "d \<in> set (t i)"
    show "code_first G (sym (syms ! i)) d"
    proof (cases "i = x \<and> d \<notin> set (tab i)")
      case True
      then show ?thesis using i e(2) new x(2) by (auto simp: merged_def)
    next
      case False
      then have "d \<in> set (tab i)" using i(2) t [of i] by (cases "i = x") auto
      then show ?thesis using Cons.prems(4) i(1) by (auto simp: first_sound_def)
    qed
  qed
  show ?case
  proof (cases "0 \<in> set (t x)")
    case True
    then obtain b where r: "first_symbols syms x ys t = Ok (b, tab')"
      using Cons.prems(1) j m by (auto simp: outcome_simps)
    show ?thesis using Cons.IH [OF r, of "pre @ [y]"] Cons.prems(2) True s by simp
  next
    case False
    then show ?thesis using Cons.prems(1) j m s by simp
  qed
qed

lemma first_pass_sound:
  assumes "symbols_ok G syms"
  shows "\<lbrakk>first_pass syms ps tab = Ok (a, tab'); set ps \<subseteq> set G; first_sound G syms tab\<rbrakk> \<Longrightarrow> first_sound G syms tab'"
proof (induction ps arbitrary: tab a tab')
  case (Cons p ps)
  then obtain x b t c where s: "find_symbol syms (p_left p) = Ok x" "first_symbols syms x (p_right p) tab = Ok (b, t)"
    "first_pass syms ps t = Ok (c, tab')"
    by (auto simp: outcome_simps)
  have "first_sound G syms t"
    using first_symbols_sound [OF assms _ s(1) s(2), of "[]"] Cons.prems(2,3) by simp
  then show ?case using Cons.IH [OF s(3)] Cons.prems(2) by simp
qed simp

text \<open>The passes do not abort: every symbol of the productions is in the table.\<close>

lemma first_symbols_returns:
  "set ys \<subseteq> sym ` set syms \<Longrightarrow> \<exists>a tab'. first_symbols syms x ys tab = Ok (a, tab')"
proof (induction ys arbitrary: tab)
  case (Cons y ys)
  obtain j where j: "find_symbol syms y = Ok j" using Cons.prems find_symbol_ok [of y syms] by auto
  obtain c t where m: "merge_at x (tab j) False tab = (c, t)" by fastforce
  obtain b u where "first_symbols syms x ys t = Ok (b, u)" using Cons.IH Cons.prems by fastforce
  then show ?case using j m by (auto simp: outcome_simps)
qed (use surj_pair in auto)

lemma first_pass_returns:
  assumes "symbols_ok G syms"
  shows "set ps \<subseteq> set G \<Longrightarrow> \<exists>a tab'. first_pass syms ps tab = Ok (a, tab')"
proof (induction ps arbitrary: tab)
  case (Cons p ps)
  have p: "p \<in> set G" using Cons.prems by simp
  obtain x where x: "find_symbol syms (p_left p) = Ok x" using find_symbol_ok [OF symbols_okD(5) [OF assms p]] by blast
  obtain b t where s: "first_symbols syms x (p_right p) tab = Ok (b, t)"
    using first_symbols_returns [OF symbols_okD(6) [OF assms p]] by blast
  obtain c u where "first_pass syms ps t = Ok (c, u)" using Cons.IH Cons.prems by fastforce
  then show ?case using x s by (auto simp: outcome_simps)
qed auto

text \<open>A pass that adds nothing leaves a table that is closed under the rules.\<close>

lemma first_symbols_closed:
  "\<lbrakk>first_symbols syms x ys tab = Ok (False, tab); x < length syms\<rbrakk> \<Longrightarrow>
    (ys \<noteq> [] \<longrightarrow> (\<forall>j. find_symbol syms (hd ys) = Ok j \<longrightarrow> merged (tab j) False \<subseteq> set (tab x))) \<and>
    (0 \<in> set (tab x) \<longrightarrow> (\<forall>y\<in>set ys. \<forall>j. find_symbol syms y = Ok j \<longrightarrow> merged (tab j) False \<subseteq> set (tab x)))"
proof (induction ys)
  case (Cons y ys)
  obtain j where j: "find_symbol syms y = Ok j" using Cons.prems(1) by (auto simp: outcome_simps)
  obtain c t where m: "merge_at x (tab j) False tab = (c, t)" by fastforce
  have sub: "merged (tab j) False \<subseteq> pool (length syms) {0} tab"
    using find_symbol_less [OF j] by (auto simp: merged_def pool_def)
  note e = extends_merge [OF Cons.prems(2) sub m]
  have nc: "\<not> c"
  proof (cases "0 \<in> set (t x)")
    case False
    then show ?thesis using Cons.prems(1) j m by simp
  qed (use Cons.prems(1) j m in \<open>auto simp: outcome_simps\<close>)
  then have t: "t = tab" "merged (tab j) False \<subseteq> set (tab x)" using e by (auto simp: extends_def)
  show ?case
  proof (cases "0 \<in> set (tab x)")
    case True
    then have "first_symbols syms x ys tab = Ok (False, tab)"
      using Cons.prems(1) j m nc t(1) by (auto simp: outcome_simps)
    then show ?thesis using Cons.IH [OF _ Cons.prems(2)] j t(2) by auto
  next
    case False
    then show ?thesis using j t(2) by auto
  qed
qed simp

lemma extends_same:
  assumes "extends n X tab t b" "extends n X t tab' c" "\<not> (b \<or> c)"
  shows "t = tab \<and> tab' = tab"
  using assms by (auto simp: extends_def)

lemma first_pass_closed:
  "\<lbrakk>first_pass syms ps tab = Ok (False, tab); p \<in> set ps\<rbrakk> \<Longrightarrow>
    \<exists>x. find_symbol syms (p_left p) = Ok x \<and> first_symbols syms x (p_right p) tab = Ok (False, tab)"
proof (induction ps)
  case (Cons q ps)
  then obtain x b t c where s: "find_symbol syms (p_left q) = Ok x" "first_symbols syms x (p_right q) tab = Ok (b, t)"
    "first_pass syms ps t = Ok (c, tab)" "\<not> (b \<or> c)"
    by (auto simp: outcome_simps)
  have "t = tab"
    using extends_same [OF first_symbols_extends [OF s(2)] first_pass_extends [OF s(3)] s(4)] find_symbol_less [OF s(1)]
    by simp
  then show ?case using Cons s by auto
qed simp

lemma first_loop_again:
  "first_pass syms G tab = Ok (a, t) \<Longrightarrow> first_loop syms G tab = (if \<not> a then Ok t else first_loop syms G t)"
  by (subst first_loop.simps) simp

interpretation first_passes: passes "\<lambda>(G, syms). symbols_ok G syms" "\<lambda>(G, syms). length syms" "\<lambda>_. {0}"
  "\<lambda>(G, syms). first_pass syms G" "\<lambda>(G, syms). first_loop syms G" "\<lambda>(G, syms). first_sound G syms"
proof (unfold_locales, goal_cases)
  case (1 c tab a tab')
  then show ?case by (auto intro: first_pass_extends split: prod.splits)
next
  case (3 c tab)
  then show ?case using first_pass_returns [OF _ subset_refl] by (auto split: prod.splits)
next
  case (4 c tab a tab')
  then show ?case using first_pass_sound by (auto split: prod.splits)
next
  case (5 c tab a tab')
  obtain G syms where c: "c = (G, syms)" by (cases c)
  show ?case using 5 unfolding c by (simp add: first_loop_again)
qed simp

lemma first_closed:
  assumes ok: "symbols_ok G syms" and pass: "first_pass syms G tab = Ok (False, tab)"
    and start: "\<forall>i. set (first_start G syms i) \<subseteq> set (tab i)"
  shows "code_first G x c \<Longrightarrow> i < length syms \<Longrightarrow> sym (syms ! i) = x \<Longrightarrow> c \<in> set (tab i)"
proof (induction arbitrary: i rule: code_first.induct)
  case (terminal x)
  then have "\<not> nonterm (syms ! i)" using symbols_okD(4) [OF ok] by simp
  then have "x \<in> set (first_start G syms i)" using terminal by (simp add: first_start_def set_add_def)
  then show ?case using start by blast
next
  case (empty x)
  then have "nonterm (syms ! i)" using symbols_okD(4) [OF ok] empty_rule_left by simp
  then have "0 \<in> set (first_start G syms i)" using empty by (simp add: first_start_def set_add_def)
  then show ?case using start by blast
next
  case (head p y ys c)
  obtain j where j: "find_symbol syms y = Ok j" "j < length syms" "sym (syms ! j) = y"
    using symbols_okD(6) [OF ok head.hyps(1)] head.hyps(2) find_symbol_ok [of y syms] by auto
  obtain x where x: "find_symbol syms (p_left p) = Ok x" "first_symbols syms x (p_right p) tab = Ok (False, tab)"
    using first_pass_closed [OF pass head.hyps(1)] by blast
  have xi: "x = i"
    using x(1) head.prems find_symbol_iff [OF symbols_okD(1) [OF ok], of "p_left p"] by (metis outcome.inject)
  have "merged (tab j) False \<subseteq> set (tab x)"
    using first_symbols_closed [OF x(2)] head.prems(1) head.hyps(2) j(1) xi by simp
  moreover have "c \<in> merged (tab j) False" using head.IH [OF j(2,3)] head.hyps(4) by (simp add: merged_def)
  ultimately show ?case using xi by blast
next
  case (rest p y c)
  obtain j where j: "find_symbol syms y = Ok j" "j < length syms" "sym (syms ! j) = y"
    using symbols_okD(6) [OF ok rest.hyps(1)] rest.hyps(2) find_symbol_ok [of y syms] by auto
  obtain x where x: "find_symbol syms (p_left p) = Ok x" "first_symbols syms x (p_right p) tab = Ok (False, tab)"
    using first_pass_closed [OF pass rest.hyps(1)] by blast
  have xi: "x = i"
    using x(1) rest.prems find_symbol_iff [OF symbols_okD(1) [OF ok], of "p_left p"] by (metis outcome.inject)
  have "nonterm (syms ! i)" using symbols_okD(4) [OF ok] rest.prems rest.hyps(1) by simp
  then have "0 \<in> set (first_start G syms i)" using rest.prems rest.hyps(3) by (simp add: first_start_def set_add_def)
  then have "0 \<in> set (tab x)" using start xi by blast
  then have "merged (tab j) False \<subseteq> set (tab x)"
    using first_symbols_closed [OF x(2)] rest.prems(1) rest.hyps(2) j(1) xi by simp
  moreover have "c \<in> merged (tab j) False" using rest.IH [OF j(2,3)] rest.hyps(5) by (simp add: merged_def)
  ultimately show ?case using xi by blast
qed

text \<open>\<^verbatim>\<open>precalc_first\<close> returns, and every set holds what the rules say.\<close>

lemma precalc_first_result:
  assumes "symbols_ok G syms"
  obtains tab where "precalc_first syms G = Ok tab"
    and "\<And>i. i < length syms \<Longrightarrow> set (tab i) = {c. code_first G (sym (syms ! i)) c}"
proof -
  obtain tab where t: "precalc_first syms G = Ok tab" "\<forall>i. set (first_start G syms i) \<subseteq> set (tab i)"
    "first_sound G syms tab" "first_pass syms G tab = Ok (False, tab)"
    using first_passes.loop_ends [of "(G, syms)" "first_start G syms"] assms first_sound_start [OF assms]
    unfolding precalc_first_def by auto
  have "set (tab i) = {c. code_first G (sym (syms ! i)) c}" if "i < length syms" for i
    using t(3) that first_closed [OF assms t(4,2)] by (auto simp: first_sound_def)
  then show ?thesis using that t(1) by blast
qed

end
