(* ===== verification/SLR_Follow.thy ===== *)
theory SLR_Follow
  imports SLR_First
begin

text \<open>
  The FOLLOW function of \<open>slr.c\<close> (\<^verbatim>\<open>calc_first\<close> and \<^verbatim>\<open>precalc_follow\<close>): the first symbols of a
  string, the passes over the productions, and the rules that say what they compute from the
  FIRST table they are given.
\<close>

section \<open>First symbols of a string\<close>

text \<open>The code's loop with the set built so far; it is called with the empty set.\<close>

fun calc_first_from :: "symbol list \<Rightarrow> sets \<Rightarrow> int list \<Rightarrow> int list \<Rightarrow> int list outcome" where
  "calc_first_from syms first [] s = Ok (snd (set_add s 0))"
| "calc_first_from syms first (y # ys) s =
     obind (find_symbol syms y)
       (\<lambda>j. let s = snd (set_merge s (first j) False) in
          if \<not> set_contains (first j) 0 then Ok s else calc_first_from syms first ys s)"

definition calc_first :: "symbol list \<Rightarrow> sets \<Rightarrow> int list \<Rightarrow> int list outcome" where
  "calc_first syms first ys = calc_first_from syms first ys []"

text \<open>The same for the rules of FIRST.\<close>

fun string_first :: "production list \<Rightarrow> int list \<Rightarrow> int \<Rightarrow> bool" where
  "string_first G [] c \<longleftrightarrow> c = 0"
| "string_first G (y # ys) c \<longleftrightarrow> code_first G y c \<and> c \<noteq> 0 \<or> code_first G y 0 \<and> string_first G ys c"

definition first_table :: "production list \<Rightarrow> symbol list \<Rightarrow> sets \<Rightarrow> bool" where
  "first_table G syms first \<longleftrightarrow> (\<forall>i<length syms. set (first i) = {c. code_first G (sym (syms ! i)) c})"

lemma calc_first_from_result:
  assumes "first_table G syms first"
  shows "set ys \<subseteq> sym ` set syms \<Longrightarrow>
    \<exists>r. calc_first_from syms first ys s = Ok r \<and> set r = set s \<union> {c. string_first G ys c}"
proof (induction ys arbitrary: s)
  case Nil
  then show ?case by (auto simp: set_add_def)
next
  case (Cons y ys)
  obtain j where j: "find_symbol syms y = Ok j" "j < length syms" "sym (syms ! j) = y"
    using Cons.prems find_symbol_ok [of y syms] by auto
  have f: "set (first j) = {c. code_first G y c}" using assms j(2,3) by (auto simp: first_table_def)
  obtain n t where m: "set_merge s (first j) False = (n, t)" by fastforce
  have t: "set t = set s \<union> {c. code_first G y c \<and> c \<noteq> 0}"
    using set_merge_cases [OF m] f by (auto simp: merged_def)
  show ?case
  proof (cases "code_first G y 0")
    case True
    have "set ys \<subseteq> sym ` set syms" using Cons.prems by simp
    from Cons.IH [OF this, of t] obtain r where
      "calc_first_from syms first ys t = Ok r" "set r = set t \<union> {c. string_first G ys c}"
      by blast
    then show ?thesis using j(1) m t f True by auto
  next
    case False
    then show ?thesis using j(1) m t f by auto
  qed
qed

lemma calc_first_result:
  assumes "first_table G syms first" "set ys \<subseteq> sym ` set syms"
  obtains r where "calc_first syms first ys = Ok r" "set r = {c. string_first G ys c}"
  using calc_first_from_result [OF assms, of "[]"] by (auto simp: calc_first_def)

section \<open>FOLLOW\<close>

text \<open>
  The loop over the right side of a production whose left side is the symbol at \<open>a\<close>, the last
  symbol included.
\<close>

fun follow_symbols :: "symbol list \<Rightarrow> sets \<Rightarrow> nat \<Rightarrow> int list \<Rightarrow> sets \<Rightarrow> (bool \<times> sets) outcome" where
  "follow_symbols syms first a [] tab = Ok (False, tab)"
| "follow_symbols syms first a [y] tab =
     obind (find_symbol syms y) (\<lambda>b. Ok (merge_at b (tab a) True tab))"
| "follow_symbols syms first a (y # z # zs) tab =
     obind (find_symbol syms y)
       (\<lambda>b. obind (calc_first syms first (z # zs))
         (\<lambda>beta.
            let (m, tab) = merge_at b beta False tab;
                (n, tab) = (if set_contains beta 0 then merge_at b (tab a) True tab else (False, tab)) in
            obind (follow_symbols syms first a (z # zs) tab) (\<lambda>(k, tab). Ok (m \<or> n \<or> k, tab))))"

fun follow_pass :: "symbol list \<Rightarrow> sets \<Rightarrow> production list \<Rightarrow> sets \<Rightarrow> (bool \<times> sets) outcome" where
  "follow_pass syms first [] tab = Ok (False, tab)"
| "follow_pass syms first (p # ps) tab =
     obind (find_symbol syms (p_left p))
       (\<lambda>a. obind (follow_symbols syms first a (p_right p) tab)
         (\<lambda>(m, tab). obind (follow_pass syms first ps tab) (\<lambda>(n, tab). Ok (m \<or> n, tab))))"

text \<open>The symbols that can get into a FOLLOW set: those of the FIRST sets.\<close>

definition firsts :: "symbol list \<Rightarrow> sets \<Rightarrow> int set" where
  "firsts syms first = insert 0 (\<Union>i<length syms. set (first i))"

lemma finite_firsts [simp]: "finite (firsts syms first)"
  by (simp add: firsts_def)

lemma calc_first_from_firsts:
  "calc_first_from syms first ys s = Ok r \<Longrightarrow> set s \<subseteq> firsts syms first \<Longrightarrow> set r \<subseteq> firsts syms first"
proof (induction ys arbitrary: s)
  case (Cons y ys)
  obtain j where j: "find_symbol syms y = Ok j" using Cons.prems(1) by (auto simp: outcome_simps)
  obtain n t where m: "set_merge s (first j) False = (n, t)" by fastforce
  have "set t \<subseteq> firsts syms first"
    using set_merge_cases [OF m] Cons.prems(2) find_symbol_less [OF j] by (auto simp: merged_def firsts_def)
  then show ?case using Cons j m by (auto split: if_splits)
qed (auto simp: set_add_def firsts_def split: if_splits)

lemma follow_symbols_extends:
  "\<lbrakk>follow_symbols syms first a ys tab = Ok (m, tab'); a < length syms\<rbrakk> \<Longrightarrow>
    extends (length syms) (firsts syms first) tab tab' m"
proof (induction syms first a ys tab arbitrary: m tab' rule: follow_symbols.induct)
  case (1 syms first a tab)
  then show ?case by (simp add: extends_refl)
next
  case (2 syms first a y tab)
  then obtain b where b: "find_symbol syms y = Ok b" "merge_at b (tab a) True tab = (m, tab')"
    by (auto simp: outcome_simps)
  show ?case
    using find_symbol_less [OF b(1)] 2(2) by (intro extends_merge(1) [OF _ _ b(2)]) (auto simp: merged_def pool_def)
next
  case (3 syms first a y z zs tab)
  let ?X = "firsts syms first"
  obtain b beta where b: "find_symbol syms y = Ok b" "calc_first syms first (z # zs) = Ok beta"
    using "3.prems"(1) by (auto simp: outcome_simps)
  obtain m1 t1 where t1: "merge_at b beta False tab = (m1, t1)" by fastforce
  obtain m2 t2 where t2: "(if set_contains beta 0 then merge_at b (t1 a) True t1 else (False, t1)) = (m2, t2)"
    by fastforce
  obtain k where k: "follow_symbols syms first a (z # zs) t2 = Ok (k, tab')" "m = (m1 \<or> m2 \<or> k)"
    using "3.prems"(1) b t1 t2 by (auto simp: outcome_simps)
  have bl: "b < length syms" using find_symbol_less [OF b(1)] by simp
  have "set beta \<subseteq> ?X" using calc_first_from_firsts [OF b(2) [unfolded calc_first_def]] by simp
  then have e1: "extends (length syms) ?X tab t1 m1"
    by (intro extends_merge(1) [OF bl _ t1]) (auto simp: merged_def pool_def)
  have e2: "extends (length syms) ?X t1 t2 m2"
  proof (cases "set_contains beta 0")
    case True
    then have "merge_at b (t1 a) True t1 = (m2, t2)" using t2 by simp
    then show ?thesis
      using "3.prems"(2) by (intro extends_merge(1) [OF bl]) (auto simp: merged_def pool_def)
  next
    case False
    then show ?thesis using t2 extends_refl by simp
  qed
  have "extends (length syms) ?X t2 tab' k"
    using "3.IH" b t1 t2 k(1) "3.prems"(2) by metis
  then show ?case unfolding k(2) using extends_trans [OF e1 extends_trans [OF e2]] by blast
qed

lemma follow_pass_extends:
  "follow_pass syms first ps tab = Ok (m, tab') \<Longrightarrow> extends (length syms) (firsts syms first) tab tab' m"
proof (induction ps arbitrary: tab m tab')
  case Nil
  then show ?case by (simp add: extends_refl)
next
  case (Cons p ps)
  then obtain a b t c where s: "find_symbol syms (p_left p) = Ok a" "follow_symbols syms first a (p_right p) tab = Ok (b, t)"
    "follow_pass syms first ps t = Ok (c, tab')" "m = (b \<or> c)"
    by (auto simp: outcome_simps)
  show ?case unfolding s(4)
    using extends_trans [OF follow_symbols_extends [OF s(2)] Cons.IH [OF s(3)]] find_symbol_less [OF s(1)] by simp
qed

text \<open>The loop \<open>for (;;)\<close>.\<close>

function follow_loop :: "symbol list \<Rightarrow> sets \<Rightarrow> production list \<Rightarrow> sets \<Rightarrow> sets outcome" where
  "follow_loop syms first G tab =
     (case follow_pass syms first G tab of
        Ok (added, tab) \<Rightarrow> if \<not> added then Ok tab else follow_loop syms first G tab
      | Blocks \<Rightarrow> Blocks
      | Fault e \<Rightarrow> Fault e)"
  by pat_completeness auto
termination
  by (relation "measure (\<lambda>(syms, first, G, tab). room (length syms) (firsts syms first) tab)")
    (auto dest!: follow_pass_extends intro: room_less)

declare follow_loop.simps [simp del]

definition precalc_follow :: "symbol list \<Rightarrow> sets \<Rightarrow> production list \<Rightarrow> sets outcome" where
  "precalc_follow syms first G =
     obind (find_symbol syms (p_left (G ! 0)))
       (\<lambda>s. follow_loop syms first G (snd (add_at s END_MARK (\<lambda>i. []))))"

subsection \<open>What FOLLOW holds\<close>

inductive code_follow :: "production list \<Rightarrow> int \<Rightarrow> int \<Rightarrow> bool" for G :: "production list" where
  start: "code_follow G (p_left (G ! 0)) END_MARK"
| next_symbol: "\<lbrakk>p \<in> set G; p_right p = pre @ y # beta; string_first G beta c; c \<noteq> 0\<rbrakk> \<Longrightarrow> code_follow G y c"
| last_symbol: "\<lbrakk>p \<in> set G; p_right p = pre @ y # beta; string_first G beta 0; code_follow G (p_left p) c\<rbrakk> \<Longrightarrow>
    code_follow G y c"

definition follow_sound :: "production list \<Rightarrow> symbol list \<Rightarrow> sets \<Rightarrow> bool" where
  "follow_sound G syms tab \<longleftrightarrow> (\<forall>i<length syms. \<forall>c\<in>set (tab i). code_follow G (sym (syms ! i)) c)"

lemma follow_sound_merge:
  assumes "follow_sound G syms tab" "merge_at x src b tab = (m, tab')" "x < length syms"
    and "\<forall>c\<in>merged src b. code_follow G (sym (syms ! x)) c"
  shows "follow_sound G syms tab'"
proof -
  obtain k s where m: "set_merge (tab x) src b = (k, s)" by fastforce
  have "tab' = tab(x := s)" using assms(2) m by (auto simp: merge_at_def)
  moreover have "set s = set (tab x) \<union> merged src b" using set_merge_cases [OF m] by blast
  ultimately show ?thesis using assms(1,3,4) by (auto simp: follow_sound_def)
qed

lemma follow_symbols_sound:
  assumes "first_table G syms first" "p \<in> set G"
  shows "\<lbrakk>follow_symbols syms first a ys tab = Ok (m, tab'); a < length syms; sym (syms ! a) = p_left p;
    p_right p = pre @ ys; set ys \<subseteq> sym ` set syms; follow_sound G syms tab\<rbrakk> \<Longrightarrow> follow_sound G syms tab'"
proof (induction ys arbitrary: pre tab m tab')
  case Nil
  then show ?case by simp
next
  case (Cons y zs)
  obtain b where b: "find_symbol syms y = Ok b" "b < length syms" "sym (syms ! b) = y"
    using Cons.prems(5) find_symbol_ok [of y syms] by auto
  have left: "\<forall>c\<in>merged (t a) True. code_follow G y c"
    if t: "follow_sound G syms t" "string_first G zs 0" for t
  proof
    fix c
    assume "c \<in> merged (t a) True"
    then have "c \<in> set (t a)" by (simp add: merged_def)
    then have "code_follow G (sym (syms ! a)) c" using t(1) Cons.prems(2) by (simp add: follow_sound_def)
    then have "code_follow G (p_left p) c" using Cons.prems(3) by simp
    then show "code_follow G y c" by (rule code_follow.last_symbol [OF assms(2) Cons.prems(4) t(2)])
  qed
  show ?case
  proof (cases zs)
    case Nil
    then have "merge_at b (tab a) True tab = (m, tab')" using Cons.prems(1) b(1) by simp
    moreover have "\<forall>c\<in>merged (tab a) True. code_follow G y c" using left [OF Cons.prems(6)] Nil by simp
    ultimately show ?thesis using follow_sound_merge [OF Cons.prems(6) _ b(2)] b(3) by blast
  next
    case (Cons z zs')
    have zs: "set zs \<subseteq> sym ` set syms" using Cons.prems(5) by simp
    obtain beta where beta: "calc_first syms first zs = Ok beta" "set beta = {c. string_first G zs c}"
      using calc_first_result [OF assms(1) zs] by blast
    obtain m1 t1 where t1: "merge_at b beta False tab = (m1, t1)" by fastforce
    obtain m2 t2 where t2: "(if set_contains beta 0 then merge_at b (t1 a) True t1 else (False, t1)) = (m2, t2)"
      by fastforce
    obtain k where k: "follow_symbols syms first a zs t2 = Ok (k, tab')"
      using Cons.prems(1) b(1) t1 t2 beta(1) Cons by (auto simp: outcome_simps)
    have s1: "follow_sound G syms t1"
      using follow_sound_merge [OF Cons.prems(6) t1 b(2)] beta(2) b(3)
        code_follow.next_symbol [OF assms(2) Cons.prems(4)] by (auto simp: merged_def)
    have s2: "follow_sound G syms t2"
    proof (cases "set_contains beta 0")
      case True
      then have "merge_at b (t1 a) True t1 = (m2, t2)" "string_first G zs 0" using t2 beta(2) by auto
      then show ?thesis using follow_sound_merge [OF s1 _ b(2)] left [OF s1] b(3) by blast
    next
      case False
      then show ?thesis using t2 s1 by simp
    qed
    show ?thesis
      using Cons.IH [OF k Cons.prems(2,3) _ zs s2, of "pre @ [y]"] Cons.prems(4) by simp
  qed
qed

lemma follow_symbols_returns:
  assumes "first_table G syms first"
  shows "set ys \<subseteq> sym ` set syms \<Longrightarrow> \<exists>m tab'. follow_symbols syms first a ys tab = Ok (m, tab')"
proof (induction ys arbitrary: tab)
  case (Cons y zs)
  obtain b where b: "find_symbol syms y = Ok b" using Cons.prems find_symbol_ok [of y syms] by auto
  show ?case
  proof (cases zs)
    case (Cons z zs')
    have zs: "set zs \<subseteq> sym ` set syms" using Cons.prems by simp
    obtain beta where beta: "calc_first syms first zs = Ok beta"
      using calc_first_result [OF assms(1) zs] by blast
    obtain m1 t1 where t1: "merge_at b beta False tab = (m1, t1)" by fastforce
    obtain m2 t2 where t2: "(if set_contains beta 0 then merge_at b (t1 a) True t1 else (False, t1)) = (m2, t2)"
      by fastforce
    obtain k u where k: "follow_symbols syms first a zs t2 = Ok (k, u)" using Cons.IH [OF zs] by blast
    show ?thesis using b beta t1 t2 k Cons by (auto simp: outcome_simps)
  qed (use b surj_pair in auto)
qed auto

lemma follow_pass_sound:
  assumes "symbols_ok G syms" "first_table G syms first"
  shows "\<lbrakk>follow_pass syms first ps tab = Ok (m, tab'); set ps \<subseteq> set G; follow_sound G syms tab\<rbrakk> \<Longrightarrow>
    follow_sound G syms tab'"
proof (induction ps arbitrary: tab m tab')
  case (Cons p ps)
  then obtain a b t c where s: "find_symbol syms (p_left p) = Ok a" "follow_symbols syms first a (p_right p) tab = Ok (b, t)"
    "follow_pass syms first ps t = Ok (c, tab')"
    by (auto simp: outcome_simps)
  have p: "p \<in> set G" using Cons.prems by simp
  have "follow_sound G syms t"
    using follow_symbols_sound [OF assms(2) p s(2) _ _ _ symbols_okD(6) [OF assms(1) p] Cons.prems(3), of "[]"]
      find_symbol_less [OF s(1)] by simp
  then show ?case using Cons.IH [OF s(3)] Cons.prems(2) by simp
qed simp

lemma follow_pass_returns:
  assumes "symbols_ok G syms" "first_table G syms first"
  shows "set ps \<subseteq> set G \<Longrightarrow> \<exists>m tab'. follow_pass syms first ps tab = Ok (m, tab')"
proof (induction ps arbitrary: tab)
  case (Cons p ps)
  have p: "p \<in> set G" using Cons.prems by simp
  obtain x where x: "find_symbol syms (p_left p) = Ok x" using find_symbol_ok [OF symbols_okD(5) [OF assms(1) p]] by blast
  obtain b t where s: "follow_symbols syms first x (p_right p) tab = Ok (b, t)"
    using follow_symbols_returns [OF assms(2) symbols_okD(6) [OF assms(1) p]] by blast
  obtain c u where "follow_pass syms first ps t = Ok (c, u)" using Cons.IH Cons.prems by fastforce
  then show ?case using x s by (auto simp: outcome_simps)
qed auto

lemma follow_symbols_closed:
  assumes "first_table G syms first" "a < length syms"
  shows "\<lbrakk>follow_symbols syms first a ys tab = Ok (False, tab); set ys \<subseteq> sym ` set syms;
    ys = pre @ y # beta; find_symbol syms y = Ok b\<rbrakk> \<Longrightarrow>
    (\<forall>c. string_first G beta c \<and> c \<noteq> 0 \<longrightarrow> c \<in> set (tab b)) \<and> (string_first G beta 0 \<longrightarrow> set (tab a) \<subseteq> set (tab b))"
proof (induction ys arbitrary: pre)
  case (Cons x zs)
  let ?X = "firsts syms first"
  obtain d where d: "find_symbol syms x = Ok d" "d < length syms" using Cons.prems(2) find_symbol_ok [of x syms] by auto
  show ?case
  proof (cases zs)
    case Nil
    then have y: "pre = []" "y = x" "beta = []" using Cons.prems(3) by (auto simp: Cons_eq_append_conv)
    then have m: "merge_at b (tab a) True tab = (False, tab)" using Cons.prems(1,4) Nil by simp
    have "merged (tab a) True \<subseteq> pool (length syms) ?X tab" using assms(2) by (auto simp: merged_def pool_def)
    then have "merged (tab a) True \<subseteq> set (tab b)" using extends_merge(3) [OF _ _ m] d y Cons.prems(4) by auto
    then show ?thesis using y by (auto simp: merged_def)
  next
    case (Cons z zs')
    have zs: "set zs \<subseteq> sym ` set syms" using Cons.prems(2) by simp
    obtain fb where fb: "calc_first syms first zs = Ok fb" "set fb = {c. string_first G zs c}"
      using calc_first_result [OF assms(1) zs] by blast
    obtain m1 t1 where t1: "merge_at d fb False tab = (m1, t1)" by fastforce
    obtain m2 t2 where t2: "(if set_contains fb 0 then merge_at d (t1 a) True t1 else (False, t1)) = (m2, t2)"
      by fastforce
    obtain k where k: "follow_symbols syms first a zs t2 = Ok (k, tab)" "\<not> m1" "\<not> m2" "\<not> k"
      using Cons.prems(1) d(1) t1 t2 fb(1) Cons by (auto simp: outcome_simps)
    have "set fb \<subseteq> ?X" using calc_first_from_firsts [OF fb(1) [unfolded calc_first_def]] by simp
    then have sub1: "merged fb False \<subseteq> pool (length syms) ?X tab" by (auto simp: merged_def pool_def)
    have r1: "t1 = tab" "merged fb False \<subseteq> set (tab d)"
      using extends_merge(1,3) [OF d(2) sub1 t1] k(2) by (auto simp: extends_def)
    have sub2: "merged (tab a) True \<subseteq> pool (length syms) ?X tab" using assms(2) by (auto simp: merged_def pool_def)
    have r2: "t2 = tab \<and> (0 \<in> set fb \<longrightarrow> set (tab a) \<subseteq> set (tab d))"
    proof (cases "0 \<in> set fb")
      case True
      then have "merge_at d (tab a) True tab = (m2, t2)" using t2 r1(1) by simp
      from extends_merge(1,3) [OF d(2) sub2 this] show ?thesis using k(3) by (auto simp: extends_def merged_def)
    next
      case False
      then show ?thesis using t2 r1(1) by simp
    qed
    have rest: "follow_symbols syms first a zs tab = Ok (False, tab)" using k r2 by simp
    show ?thesis
    proof (cases pre)
      case Nil
      then have "y = x" "beta = zs" using Cons.prems(3) by auto
      moreover from this have "b = d" using d(1) Cons.prems(4) by simp
      ultimately show ?thesis using r1(2) r2 fb(2) by (auto simp: merged_def)
    next
      case (Cons w ws)
      then have "zs = ws @ y # beta" using Cons.prems(3) by simp
      then show ?thesis using Cons.IH [OF rest zs _ Cons.prems(4)] by blast
    qed
  qed
qed simp

lemma follow_pass_closed:
  "\<lbrakk>follow_pass syms first ps tab = Ok (False, tab); p \<in> set ps\<rbrakk> \<Longrightarrow>
    \<exists>a. find_symbol syms (p_left p) = Ok a \<and> follow_symbols syms first a (p_right p) tab = Ok (False, tab)"
proof (induction ps)
  case (Cons q ps)
  then obtain x b t c where s: "find_symbol syms (p_left q) = Ok x" "follow_symbols syms first x (p_right q) tab = Ok (b, t)"
    "follow_pass syms first ps t = Ok (c, tab)" "\<not> (b \<or> c)"
    by (auto simp: outcome_simps)
  have "t = tab"
    using extends_same [OF follow_symbols_extends [OF s(2)] follow_pass_extends [OF s(3)] s(4)] find_symbol_less [OF s(1)]
    by simp
  then show ?case using Cons s by auto
qed simp

lemma follow_loop_again:
  "follow_pass syms first G tab = Ok (a, t) \<Longrightarrow> follow_loop syms first G tab = (if \<not> a then Ok t else follow_loop syms first G t)"
  by (subst follow_loop.simps) simp

interpretation follow_passes: passes "\<lambda>(G, syms, first). symbols_ok G syms \<and> first_table G syms first"
  "\<lambda>(G, syms, first). length syms" "\<lambda>(G, syms, first). firsts syms first"
  "\<lambda>(G, syms, first). follow_pass syms first G" "\<lambda>(G, syms, first). follow_loop syms first G"
  "\<lambda>(G, syms, first). follow_sound G syms"
proof (unfold_locales, goal_cases)
  case (1 c tab a tab')
  then show ?case by (auto intro: follow_pass_extends split: prod.splits)
next
  case (3 c tab)
  then show ?case using follow_pass_returns [OF _ _ subset_refl] by (auto split: prod.splits)
next
  case (4 c tab a tab')
  then show ?case using follow_pass_sound by (auto split: prod.splits)
next
  case (5 c tab a tab')
  obtain G syms first where c: "c = (G, syms, first)" by (cases c)
  show ?case using 5 unfolding c by (simp add: follow_loop_again)
qed (auto split: prod.splits)

lemma follow_closed:
  assumes ok: "symbols_ok G syms" "first_table G syms first"
    and pass: "follow_pass syms first G tab = Ok (False, tab)"
    and start: "\<forall>i<length syms. sym (syms ! i) = p_left (G ! 0) \<longrightarrow> END_MARK \<in> set (tab i)"
  shows "code_follow G y c \<Longrightarrow> i < length syms \<Longrightarrow> sym (syms ! i) = y \<Longrightarrow> c \<in> set (tab i)"
proof (induction arbitrary: i rule: code_follow.induct)
  case start
  then show ?case using assms(4) by blast
next
  case (next_symbol p pre y beta c)
  obtain a where a: "find_symbol syms (p_left p) = Ok a" "follow_symbols syms first a (p_right p) tab = Ok (False, tab)"
    using follow_pass_closed [OF pass next_symbol.hyps(1)] by blast
  have "find_symbol syms y = Ok i" using next_symbol.prems find_symbol_iff [OF symbols_okD(1) [OF ok(1)]] by blast
  then show ?case
    using follow_symbols_closed [OF ok(2) _ a(2) symbols_okD(6) [OF ok(1) next_symbol.hyps(1)] next_symbol.hyps(2)]
      find_symbol_less [OF a(1)] next_symbol.hyps(3,4) by blast
next
  case (last_symbol p pre y beta c)
  obtain a where a: "find_symbol syms (p_left p) = Ok a" "follow_symbols syms first a (p_right p) tab = Ok (False, tab)"
    using follow_pass_closed [OF pass last_symbol.hyps(1)] by blast
  have "find_symbol syms y = Ok i" using last_symbol.prems find_symbol_iff [OF symbols_okD(1) [OF ok(1)]] by blast
  then have "set (tab a) \<subseteq> set (tab i)"
    using follow_symbols_closed [OF ok(2) _ a(2) symbols_okD(6) [OF ok(1) last_symbol.hyps(1)] last_symbol.hyps(2)]
      find_symbol_less [OF a(1)] last_symbol.hyps(3) by blast
  then show ?case using last_symbol.IH find_symbol_less [OF a(1)] by blast
qed

lemma precalc_follow_result:
  assumes "symbols_ok G syms" "first_table G syms first" "G \<noteq> []"
  obtains tab where "precalc_follow syms first G = Ok tab"
    and "\<And>i. i < length syms \<Longrightarrow> set (tab i) = {c. code_follow G (sym (syms ! i)) c}"
proof -
  have "p_left (G ! 0) \<in> sym ` set syms" using symbols_okD(5) [OF assms(1)] assms(3) by (cases G) auto
  then obtain s where s: "find_symbol syms (p_left (G ! 0)) = Ok s" "s < length syms" "sym (syms ! s) = p_left (G ! 0)"
    using find_symbol_ok by blast
  let ?t = "snd (add_at s END_MARK (\<lambda>i. []))"
  have t: "?t = (\<lambda>i. [])(s := [END_MARK])" by (simp add: add_at_def set_add_def)
  have "follow_sound G syms ?t"
    unfolding t follow_sound_def using s(3) code_follow.start [of G] by auto
  with follow_passes.loop_ends [of "(G, syms, first)" ?t] assms(1,2) obtain tab where r: "follow_loop syms first G ?t = Ok tab"
    "\<forall>i. set (?t i) \<subseteq> set (tab i)" "follow_sound G syms tab" "follow_pass syms first G tab = Ok (False, tab)"
    by auto
  have "END_MARK \<in> set (tab i)" if "i < length syms" "sym (syms ! i) = p_left (G ! 0)" for i
  proof -
    have "find_symbol syms (p_left (G ! 0)) = Ok i" using that find_symbol_iff [OF symbols_okD(1) [OF assms(1)]] by blast
    then have "i = s" using s(1) by simp
    then show ?thesis using r(2) t by auto
  qed
  then have "set (tab i) = {c. code_follow G (sym (syms ! i)) c}" if "i < length syms" for i
    using r(3) that follow_closed [OF assms(1,2) r(4)] unfolding follow_sound_def by blast
  moreover have "precalc_follow syms first G = Ok tab" using s(1) r(1) by (simp add: precalc_follow_def)
  ultimately show ?thesis using that by blast
qed

text \<open>What can follow: the end mark or a terminal of the table.\<close>

lemma code_first_terminal: "code_first G x c \<Longrightarrow> c \<noteq> 0 \<Longrightarrow> c \<notin> p_left ` set G"
  by (induction rule: code_first.induct) auto

lemma code_first_symbol:
  "code_first G x c \<Longrightarrow> symbols_ok G syms \<Longrightarrow> x \<in> sym ` set syms \<Longrightarrow> c = 0 \<or> c \<in> sym ` set syms"
proof (induction rule: code_first.induct)
  case (head p y ys c)
  then show ?case using symbols_okD(6) [OF head.prems(1) head.hyps(1)] by auto
next
  case (rest p y c)
  then show ?case using symbols_okD(6) [OF rest.prems(1) rest.hyps(1)] by blast
qed simp_all

lemma string_first_symbol:
  "string_first G ys c \<Longrightarrow> c \<noteq> 0 \<Longrightarrow> symbols_ok G syms \<Longrightarrow> set ys \<subseteq> sym ` set syms \<Longrightarrow>
    c \<in> sym ` set syms \<and> c \<notin> p_left ` set G"
proof (induction ys)
  case (Cons y ys)
  show ?case
  proof (cases "code_first G y c")
    case True
    then show ?thesis using code_first_symbol [OF True Cons.prems(3)] code_first_terminal [OF True] Cons.prems by auto
  next
    case False
    then show ?thesis using Cons by auto
  qed
qed simp

lemma code_follow_symbol:
  assumes "code_follow G y c" "symbols_ok G syms"
  shows "c = END_MARK \<or> c \<in> sym ` set syms \<and> c \<notin> p_left ` set G"
  using assms
proof (induction rule: code_follow.induct)
  case (next_symbol p pre y beta c)
  have "set beta \<subseteq> sym ` set syms" using symbols_okD(6) [OF next_symbol.prems next_symbol.hyps(1)] next_symbol.hyps(2) by simp
  then show ?case using string_first_symbol [OF next_symbol.hyps(3,4) next_symbol.prems] by blast
qed simp_all

end
