(* ===== verification/SLR_Items.thy ===== *)
theory SLR_Items
  imports SLR_Grammar
begin

text \<open>
  Items and lists of items of \<open>slr.c\<close>, \<^verbatim>\<open>calc_closure\<close> and \<^verbatim>\<open>calc_goto\<close>, with the closure and
  goto of sets of items as their specification.  A list is the sequence of its items: its
  capacity \<open>m\<close> only serves \<^verbatim>\<open>xrealloc\<close>.
\<close>

section \<open>Items and lists of items\<close>

record item =
  prod :: nat
  dot :: nat

definition item_n_after_dot :: "production list \<Rightarrow> item \<Rightarrow> int outcome" where
  "item_n_after_dot G it =
     (if prod it < length G then Ok (int (length (p_right (G ! prod it))) - int (dot it)) else Fault Assertion_failed)"

text \<open>The assertion lets a dot at the end pass, where the code would read past the array.\<close>

definition item_symbol_after_dot :: "production list \<Rightarrow> item \<Rightarrow> int outcome" where
  "item_symbol_after_dot G it =
     obind (item_n_after_dot G it)
       (\<lambda>n. if n < 0 then Fault Assertion_failed
            else if n = 0 then Fault Out_of_bounds
            else Ok (p_right (G ! prod it) ! dot it))"

definition list_contains :: "item list \<Rightarrow> nat \<Rightarrow> nat \<Rightarrow> bool" where
  "list_contains l p d \<longleftrightarrow> (\<exists>it\<in>set l. prod it = p \<and> dot it = d)"

definition list_add :: "item list \<Rightarrow> nat \<Rightarrow> nat \<Rightarrow> int \<times> item list" where
  "list_add l p d = (if list_contains l p d then (0, l) else (1, l @ [\<lparr>prod = p, dot = d\<rparr>]))"

definition list_copy :: "item list \<Rightarrow> item list" where
  "list_copy src = map (\<lambda>it. it) src"

definition list_equal :: "item list \<Rightarrow> item list \<Rightarrow> bool" where
  "list_equal a b \<longleftrightarrow> length a = length b \<and>
     (\<forall>i<length a. \<not> (prod (a ! i) \<noteq> prod (b ! i) \<or> dot (a ! i) \<noteq> dot (b ! i)))"

definition list_count :: "item list \<Rightarrow> nat" where
  "list_count l = length l"

definition list_item :: "item list \<Rightarrow> nat \<Rightarrow> item outcome" where
  "list_item l i = (if i < length l then Ok (l ! i) else Fault Assertion_failed)"

lemma item_eq_iff: "(a :: item) = b \<longleftrightarrow> prod a = prod b \<and> dot a = dot b"
  by (cases a, cases b) simp

lemma list_contains_iff [simp]: "list_contains l p d \<longleftrightarrow> \<lparr>prod = p, dot = d\<rparr> \<in> set l"
proof
  assume "list_contains l p d"
  then obtain it where "it \<in> set l" "prod it = p" "dot it = d" by (auto simp: list_contains_def)
  moreover from this have "it = \<lparr>prod = p, dot = d\<rparr>" by (simp add: item_eq_iff)
  ultimately show "\<lparr>prod = p, dot = d\<rparr> \<in> set l" by simp
qed (force simp: list_contains_def)

lemma list_equal_iff [simp]: "list_equal a b \<longleftrightarrow> a = b"
  by (auto simp: list_equal_def list_eq_iff_nth_eq item_eq_iff)

lemma list_add_simps [simp]:
  "set (snd (list_add l p d)) = insert \<lparr>prod = p, dot = d\<rparr> (set l)"
  "distinct (snd (list_add l p d)) \<longleftrightarrow> distinct l"
  by (auto simp: list_add_def)

lemma list_add_prefix: "\<exists>m. snd (list_add l p d) = l @ m"
  by (auto simp: list_add_def)

text \<open>The shape of an item that the code can make.\<close>

definition item_ok :: "production list \<Rightarrow> item \<Rightarrow> bool" where
  "item_ok G it \<longleftrightarrow> prod it < length G \<and> dot it \<le> length (p_right (G ! prod it))"

text \<open>The symbol behind the dot, if there is one.\<close>

definition after_dot :: "production list \<Rightarrow> item \<Rightarrow> int option" where
  "after_dot G it =
     (let r = p_right (G ! prod it) in if dot it < length r then Some (r ! dot it) else None)"

lemma item_after_dot:
  assumes "item_ok G it"
  shows "\<exists>n. item_n_after_dot G it = Ok n \<and> (0 < n \<longleftrightarrow> after_dot G it \<noteq> None)"
    and "after_dot G it = Some t \<Longrightarrow> item_symbol_after_dot G it = Ok t"
    and "after_dot G it = Some t \<Longrightarrow> t \<in> set (p_right (G ! prod it))"
  using assms
  by (auto simp: item_ok_def after_dot_def item_n_after_dot_def item_symbol_after_dot_def Let_def split: if_splits)

section \<open>Closure\<close>

text \<open>The inner loop of \<^verbatim>\<open>calc_closure\<close>, from production \<open>j\<close> on.\<close>

fun add_productions :: "production list \<Rightarrow> nat \<Rightarrow> int \<Rightarrow> item list \<Rightarrow> item list" where
  "add_productions [] j t l = l"
| "add_productions (p # ps) j t l =
     add_productions ps (Suc j) t (if p_left p = t then snd (list_add l j 0) else l)"

text \<open>The items that the closure can still add, which bound its loop over the growing list.\<close>

definition missing :: "production list \<Rightarrow> item list \<Rightarrow> nat" where
  "missing G l = card ({\<lparr>prod = j, dot = 0\<rparr> | j. j < length G} - set l)"

lemma missing_add:
  assumes "j < length G"
  shows "length (snd (list_add l j 0)) + missing G (snd (list_add l j 0)) = length l + missing G l"
proof (cases "\<lparr>prod = j, dot = 0\<rparr> \<in> set l")
  case False
  let ?A = "{\<lparr>prod = j, dot = 0\<rparr> | j. j < length G}"
  have fin: "finite (?A - set l)" by simp
  have "?A - set (snd (list_add l j 0)) = (?A - set l) - {\<lparr>prod = j, dot = 0\<rparr>}" by auto
  moreover have "\<lparr>prod = j, dot = 0\<rparr> \<in> ?A - set l" using assms False by auto
  ultimately have "missing G (snd (list_add l j 0)) = missing G l - 1" "0 < missing G l"
    using fin unfolding missing_def by (auto simp: card_gt_0_iff)
  then show ?thesis using False by (simp add: list_add_def)
qed (simp add: list_add_def)

lemma add_productions_size:
  "length G = j + length ps \<Longrightarrow>
    length (add_productions ps j t l) + missing G (add_productions ps j t l) = length l + missing G l"
proof (induction ps arbitrary: j l)
  case (Cons p ps)
  then show ?case using missing_add [of j G l] by simp
qed simp

function closure_loop :: "production list \<Rightarrow> symbol list \<Rightarrow> nat \<Rightarrow> item list \<Rightarrow> item list outcome" where
  "closure_loop G syms i l =
     (if i < list_count l then
        obind (list_item l i)
          (\<lambda>it. case item_n_after_dot G it of
             Ok n \<Rightarrow>
               if 0 < n then
                 (case item_symbol_after_dot G it of
                    Ok t \<Rightarrow>
                      (case find_symbol syms t of
                         Ok s \<Rightarrow>
                           if nonterm (syms ! s) then closure_loop G syms (Suc i) (add_productions G 0 t l)
                           else closure_loop G syms (Suc i) l
                       | Blocks \<Rightarrow> Blocks
                       | Fault e \<Rightarrow> Fault e)
                  | Blocks \<Rightarrow> Blocks
                  | Fault e \<Rightarrow> Fault e)
               else closure_loop G syms (Suc i) l
           | Blocks \<Rightarrow> Blocks
           | Fault e \<Rightarrow> Fault e)
      else Ok l)"
  by pat_completeness auto
termination
proof (relation "measure (\<lambda>(G, syms, i, l). length l + missing G l - i)", goal_cases)
  case (2 G syms i l it n t s)
  then show ?case using add_productions_size [of G 0 G t l] by (simp add: list_count_def)
qed (auto simp: list_count_def)

declare closure_loop.simps [simp del]

text \<open>\<^verbatim>\<open>calc_closure (J, I)\<close> copies \<open>I\<close> unless both are the same list; the result is \<open>J\<close>.\<close>

definition calc_closure :: "production list \<Rightarrow> symbol list \<Rightarrow> item list \<Rightarrow> item list outcome" where
  "calc_closure G syms l = closure_loop G syms 0 (list_copy l)"

subsection \<open>The closure of a set of items\<close>

inductive_set closure :: "production list \<Rightarrow> item set \<Rightarrow> item set" for G :: "production list" and I :: "item set" where
  base: "it \<in> I \<Longrightarrow> it \<in> closure G I"
| predict: "\<lbrakk>it \<in> closure G I; after_dot G it = Some (p_left (G ! j)); j < length G\<rbrakk> \<Longrightarrow>
    \<lparr>prod = j, dot = 0\<rparr> \<in> closure G I"

lemma closure_mono: "I \<subseteq> J \<Longrightarrow> closure G I \<subseteq> closure G J"
proof
  fix it
  assume "I \<subseteq> J" "it \<in> closure G I"
  from this(2,1) show "it \<in> closure G J"
    by (induction rule: closure.induct) (auto intro: closure.intros)
qed

lemma closure_ok: "it \<in> closure G I \<Longrightarrow> \<forall>it\<in>I. item_ok G it \<Longrightarrow> item_ok G it"
  by (induction rule: closure.induct) (auto simp: item_ok_def)

lemma add_productions_set:
  "set (add_productions ps j t l) = set l \<union> {\<lparr>prod = j + k, dot = 0\<rparr> | k. k < length ps \<and> p_left (ps ! k) = t}"
proof (induction ps arbitrary: j l)
  case (Cons p ps)
  let ?R = "{\<lparr>prod = Suc j + k, dot = 0\<rparr> | k. k < length ps \<and> p_left (ps ! k) = t}"
  let ?P = "if p_left p = t then {\<lparr>prod = j, dot = 0\<rparr>} else {}"
  have "{\<lparr>prod = j + k, dot = 0\<rparr> | k. k < length (p # ps) \<and> p_left ((p # ps) ! k) = t} = ?P \<union> ?R" (is "?L = _")
  proof
    show "?L \<subseteq> ?P \<union> ?R"
    proof
      fix x
      assume "x \<in> ?L"
      then obtain k where k: "x = \<lparr>prod = j + k, dot = 0\<rparr>" "k < length (p # ps)" "p_left ((p # ps) ! k) = t" by blast
      then show "x \<in> ?P \<union> ?R" by (cases k) auto
    qed
    show "?P \<union> ?R \<subseteq> ?L" by (force split: if_splits)
  qed
  then show ?case using Cons.IH [of "Suc j"] by auto
qed simp

lemma add_productions_distinct: "distinct (add_productions ps j t l) \<longleftrightarrow> distinct l"
  by (induction ps arbitrary: j l) auto

lemma add_productions_prefix: "\<exists>m. add_productions ps j t l = l @ m"
proof (induction ps arbitrary: j l)
  case (Cons p ps)
  obtain m where "snd (list_add l j 0) = l @ m" using list_add_prefix by blast
  then show ?case using Cons.IH [of "Suc j" "l @ m"] Cons.IH [of "Suc j" l] by auto
qed simp

text \<open>What the items before \<open>i\<close> predict is in the list.\<close>

definition closed_to :: "production list \<Rightarrow> nat \<Rightarrow> item list \<Rightarrow> bool" where
  "closed_to G i l \<longleftrightarrow> (\<forall>k<i. \<forall>j<length G. after_dot G (l ! k) = Some (p_left (G ! j)) \<longrightarrow> \<lparr>prod = j, dot = 0\<rparr> \<in> set l)"

lemma closed_to_Suc:
  assumes "closed_to G i l" "i < length l"
    and "\<And>j. j < length G \<Longrightarrow> after_dot G (l ! i) = Some (p_left (G ! j)) \<Longrightarrow> \<lparr>prod = j, dot = 0\<rparr> \<in> set (l @ m)"
  shows "closed_to G (Suc i) (l @ m)"
  unfolding closed_to_def
proof (intro allI impI)
  fix k j
  assume k: "k < Suc i" "j < length G" "after_dot G ((l @ m) ! k) = Some (p_left (G ! j))"
  have nth: "(l @ m) ! k = l ! k" using k(1) assms(2) by (simp add: nth_append)
  show "\<lparr>prod = j, dot = 0\<rparr> \<in> set (l @ m)"
  proof (cases "k = i")
    case True
    then show ?thesis using assms(3) k(2,3) nth by simp
  next
    case False
    then have "k < i" using k(1) by simp
    then show ?thesis using assms(1) k(2,3) nth unfolding closed_to_def by simp
  qed
qed

lemma closure_least:
  assumes "A \<subseteq> closure G I"
  shows "closure G A \<subseteq> closure G I"
proof
  fix x
  assume "x \<in> closure G A"
  then show "x \<in> closure G I"
    by (induction rule: closure.induct) (use assms in \<open>auto intro: closure.predict\<close>)
qed

lemma add_productions_closure:
  assumes "i < length l" "after_dot G (l ! i) = Some t"
  shows "set (add_productions G 0 t l) \<subseteq> closure G (set l)"
proof
  fix x
  assume "x \<in> set (add_productions G 0 t l)"
  then consider "x \<in> set l" | k where "x = \<lparr>prod = k, dot = 0\<rparr>" "k < length G" "p_left (G ! k) = t"
    using add_productions_set [of G 0 t l] by auto
  then show "x \<in> closure G (set l)"
  proof cases
    case 1
    then show ?thesis by (rule closure.base)
  next
    case (2 k)
    have "l ! i \<in> closure G (set l)" using assms(1) by (intro closure.base) simp
    then show ?thesis unfolding 2(1) using assms(2) 2(2,3) by (intro closure.predict) auto
  qed
qed

text \<open>One round of the loop: it goes on with the list itself, or with the predicted items added.\<close>

lemma closure_loop_round:
  assumes "symbols_ok G syms" "i < length l" "item_ok G (l ! i)"
  obtains m where "closure_loop G syms i l = closure_loop G syms (Suc i) (l @ m)"
    and "length (l @ m) + missing G (l @ m) = length l + missing G l"
    and "set (l @ m) \<subseteq> closure G (set l)" and "distinct (l @ m) \<longleftrightarrow> distinct l"
    and "\<And>j. j < length G \<Longrightarrow> after_dot G (l ! i) = Some (p_left (G ! j)) \<Longrightarrow> \<lparr>prod = j, dot = 0\<rparr> \<in> set (l @ m)"
proof -
  obtain n where n: "item_n_after_dot G (l ! i) = Ok n" "0 < n \<longleftrightarrow> after_dot G (l ! i) \<noteq> None"
    using item_after_dot(1) [OF assms(3)] by blast
  have it: "list_item l i = Ok (l ! i)" "i < list_count l" using assms(2) by (simp_all add: list_item_def list_count_def)
  have skip: "set (l @ []) \<subseteq> closure G (set l)" by (auto intro: closure.base)
  show thesis
  proof (cases "after_dot G (l ! i)")
    case None
    then have "closure_loop G syms i l = closure_loop G syms (Suc i) (l @ [])"
      using n it by (subst closure_loop.simps) simp
    then show thesis using that [of "[]"] skip None by simp
  next
    case (Some t)
    have p: "G ! prod (l ! i) \<in> set G" using assms(3) by (simp add: item_ok_def)
    have "t \<in> sym ` set syms" using item_after_dot(3) [OF assms(3) Some] assms(1) p by (auto simp: symbols_ok_def)
    then obtain s where s: "find_symbol syms t = Ok s" "s < length syms" "sym (syms ! s) = t"
      using find_symbol_ok by blast
    have nt: "nonterm (syms ! s) \<longleftrightarrow> t \<in> p_left ` set G"
      using assms(1) s(2,3) unfolding symbols_ok_def by (metis nth_mem)
    note sy = item_after_dot(2) [OF assms(3) Some]
    show thesis
    proof (cases "nonterm (syms ! s)")
      case False
      then have "closure_loop G syms i l = closure_loop G syms (Suc i) (l @ [])"
        using n it Some sy s(1) by (subst closure_loop.simps) simp
      moreover have "after_dot G (l ! i) \<noteq> Some (p_left (G ! j))" if "j < length G" for j using False nt Some that by auto
      ultimately show thesis using that [of "[]"] skip by simp
    next
      case True
      obtain m where m: "add_productions G 0 t l = l @ m" using add_productions_prefix by blast
      have "closure_loop G syms i l = closure_loop G syms (Suc i) (l @ m)"
        using n it Some sy s(1) True m by (subst closure_loop.simps) simp
      moreover have "length (l @ m) + missing G (l @ m) = length l + missing G l"
        using add_productions_size [of G 0 G t l] m by simp
      moreover have "distinct (l @ m) \<longleftrightarrow> distinct l" using add_productions_distinct [of G 0 t l] m by simp
      moreover have "\<lparr>prod = j, dot = 0\<rparr> \<in> set (l @ m)"
        if "j < length G" "after_dot G (l ! i) = Some (p_left (G ! j))" for j
        using add_productions_set [of G 0 t l] that Some m by auto
      ultimately show thesis using that add_productions_closure [OF assms(2) Some] m by simp
    qed
  qed
qed

lemma closure_loop_result:
  assumes "symbols_ok G syms"
  shows "\<lbrakk>i \<le> length l; \<forall>it\<in>set l. item_ok G it; distinct l; closed_to G i l\<rbrakk> \<Longrightarrow>
    \<exists>m. closure_loop G syms i l = Ok (l @ m) \<and> distinct (l @ m) \<and> set (l @ m) \<subseteq> closure G (set l) \<and>
      closed_to G (length (l @ m)) (l @ m)"
proof (induction "length l + missing G l - i" arbitrary: i l rule: less_induct)
  case less
  show ?case
  proof (cases "i < length l")
    case False
    then show ?thesis using less.prems
      by (subst closure_loop.simps) (auto simp: list_count_def intro: closure.base)
  next
    case True
    then have "item_ok G (l ! i)" using less.prems(2) by simp
    from closure_loop_round [OF assms True this] obtain m where m:
      "closure_loop G syms i l = closure_loop G syms (Suc i) (l @ m)"
      "length (l @ m) + missing G (l @ m) = length l + missing G l"
      "set (l @ m) \<subseteq> closure G (set l)" "distinct (l @ m) \<longleftrightarrow> distinct l"
      "\<And>j. j < length G \<Longrightarrow> after_dot G (l ! i) = Some (p_left (G ! j)) \<Longrightarrow> \<lparr>prod = j, dot = 0\<rparr> \<in> set (l @ m)"
      by blast
    have ok: "\<forall>it\<in>set (l @ m). item_ok G it" using closure_ok m(3) less.prems(2) by blast
    have closed: "closed_to G (Suc i) (l @ m)" using closed_to_Suc [OF less.prems(4) True] m(5) by blast
    have "length (l @ m) + missing G (l @ m) - Suc i < length l + missing G l - i" using m(2) True by linarith
    from less.hyps [OF this _ ok _ closed] obtain m' where m':
      "closure_loop G syms (Suc i) (l @ m) = Ok ((l @ m) @ m')" "distinct ((l @ m) @ m')"
      "set ((l @ m) @ m') \<subseteq> closure G (set (l @ m))" "closed_to G (length ((l @ m) @ m')) ((l @ m) @ m')"
      using True m(4) less.prems(3) by auto
    have "set ((l @ m) @ m') \<subseteq> closure G (set l)" using m'(3) closure_least [OF m(3)] by blast
    then show ?thesis using m' unfolding m(1) by (intro exI [of _ "m @ m'"]) simp
  qed
qed

lemma closed_to_closure:
  assumes "closed_to G (length l) l" "I \<subseteq> set l"
  shows "it \<in> closure G I \<Longrightarrow> it \<in> set l"
proof (induction rule: closure.induct)
  case (predict it j)
  then obtain k where "k < length l" "l ! k = it" by (metis in_set_conv_nth)
  then show ?case using assms(1) predict(2,3) unfolding closed_to_def by blast
qed (use assms(2) in blast)

text \<open>\<^verbatim>\<open>calc_closure\<close> returns the closure of the items it is given, without repetitions.\<close>

lemma calc_closure_result:
  assumes "symbols_ok G syms" "\<forall>it\<in>set l. item_ok G it" "distinct l"
  obtains m where "calc_closure G syms l = Ok (l @ m)" "set (l @ m) = closure G (set l)" "distinct (l @ m)"
proof -
  have "closed_to G 0 l" by (simp add: closed_to_def)
  from closure_loop_result [OF assms(1) _ assms(2,3) this] obtain m where m: "closure_loop G syms 0 l = Ok (l @ m)"
    "distinct (l @ m)" "set (l @ m) \<subseteq> closure G (set l)" "closed_to G (length (l @ m)) (l @ m)"
    by auto
  have "set (l @ m) = closure G (set l)" using m(3) closed_to_closure [OF m(4)] by auto
  then show ?thesis using that m(1,2) by (simp add: calc_closure_def list_copy_def)
qed

section \<open>Goto\<close>

text \<open>The loop of \<^verbatim>\<open>calc_goto\<close> over the items of \<open>I\<close>; every call in the file has \<open>I\<close> and \<open>J\<close> different.\<close>

fun goto_kernel :: "production list \<Rightarrow> item list \<Rightarrow> int \<Rightarrow> item list \<Rightarrow> item list outcome" where
  "goto_kernel G [] x l = Ok l"
| "goto_kernel G (it # its) x l =
     obind (item_n_after_dot G it)
       (\<lambda>n. if 0 < n then
              obind (item_symbol_after_dot G it)
                (\<lambda>t. goto_kernel G its x (if t = x then snd (list_add l (prod it) (dot it + 1)) else l))
            else goto_kernel G its x l)"

definition calc_goto :: "production list \<Rightarrow> symbol list \<Rightarrow> item list \<Rightarrow> int \<Rightarrow> item list outcome" where
  "calc_goto G syms l x = obind (goto_kernel G l x []) (calc_closure G syms)"

definition advance_items :: "production list \<Rightarrow> item set \<Rightarrow> int \<Rightarrow> item set" where
  "advance_items G I x = {\<lparr>prod = prod it, dot = dot it + 1\<rparr> | it. it \<in> I \<and> after_dot G it = Some x}"

lemma advance_items_insert:
  "advance_items G (insert it I) x =
     (if after_dot G it = Some x then insert \<lparr>prod = prod it, dot = dot it + 1\<rparr> (advance_items G I x) else advance_items G I x)"
  by (auto simp: advance_items_def)

lemma advance_items_ok: "\<forall>it\<in>I. item_ok G it \<Longrightarrow> it \<in> advance_items G I x \<Longrightarrow> item_ok G it"
  by (auto simp: advance_items_def item_ok_def after_dot_def Let_def split: if_splits)

lemma goto_kernel_result:
  "\<forall>it\<in>set its. item_ok G it \<Longrightarrow>
    \<exists>k. goto_kernel G its x l = Ok k \<and> set k = set l \<union> advance_items G (set its) x \<and> (distinct l \<longrightarrow> distinct k)"
proof (induction its arbitrary: l)
  case Nil
  then show ?case by (simp add: advance_items_def)
next
  case (Cons it its)
  have ok: "item_ok G it" "\<forall>it\<in>set its. item_ok G it" using Cons.prems by simp_all
  obtain n where n: "item_n_after_dot G it = Ok n" "0 < n \<longleftrightarrow> after_dot G it \<noteq> None"
    using item_after_dot(1) [OF ok(1)] by blast
  show ?case
  proof (cases "after_dot G it")
    case None
    then show ?thesis using n Cons.IH [OF ok(2), of l] by (simp add: advance_items_insert)
  next
    case (Some t)
    let ?l = "if t = x then snd (list_add l (prod it) (dot it + 1)) else l"
    obtain k where k: "goto_kernel G its x ?l = Ok k" "set k = set ?l \<union> advance_items G (set its) x" "distinct ?l \<longrightarrow> distinct k"
      using Cons.IH [OF ok(2), of ?l] by blast
    have "goto_kernel G (it # its) x l = Ok k" using n Some item_after_dot(2) [OF ok(1) Some] k(1) by simp
    moreover have "set k = set l \<union> advance_items G (set (it # its)) x"
      using k(2) Some by (simp add: advance_items_insert)
    moreover have "distinct l \<longrightarrow> distinct k" using k(3) by auto
    ultimately show ?thesis by blast
  qed
qed

lemma closure_empty [simp]: "closure G {} = {}"
proof -
  have "it \<notin> closure G {}" for it
  proof
    assume "it \<in> closure G {}"
    then show False by (induction rule: closure.induct) auto
  qed
  then show ?thesis by blast
qed

text \<open>\<^verbatim>\<open>calc_goto\<close> returns the closure of the advanced items.\<close>

lemma calc_goto_result:
  assumes "symbols_ok G syms" "\<forall>it\<in>set l. item_ok G it"
  obtains k where "calc_goto G syms l x = Ok k" "set k = closure G (advance_items G (set l) x)" "distinct k"
    "\<forall>it\<in>set k. item_ok G it"
proof -
  obtain r where r: "goto_kernel G l x [] = Ok r" "set r = advance_items G (set l) x" "distinct r"
    using goto_kernel_result [OF assms(2), of x "[]"] by auto
  have ok: "\<forall>it\<in>set r. item_ok G it" using r(2) advance_items_ok [OF assms(2)] by blast
  obtain m where "calc_closure G syms r = Ok (r @ m)" "set (r @ m) = closure G (set r)" "distinct (r @ m)"
    using calc_closure_result [OF assms(1) ok r(3)] by blast
  then show ?thesis using that r(1,2) closure_ok ok by (simp add: calc_goto_def)
qed

end
