(* ===== verification/SLR_Canonical.thy ===== *)
theory SLR_Canonical
  imports SLR_Items
begin

text \<open>
  The canonical collection of \<open>slr.c\<close> (\<^verbatim>\<open>build_canonical_sets\<close>): the states of the parser.  The
  array \<open>C\<close> with its count \<open>nC\<close> is a list; the assertion that it has a free place is a branch.
  States are lists of items: the code tells two lists with the same items in another order
  apart.
\<close>

section \<open>Building the collection\<close>

definition MAX_LOL_COUNT :: nat where
  "MAX_LOL_COUNT = 256"

text \<open>The search \<open>for (j = 0; j < nC; j++)\<close> and what follows it.\<close>

fun state_index :: "item list \<Rightarrow> item list list \<Rightarrow> nat" where
  "state_index l [] = 0"
| "state_index l (c # cs) = (if list_equal l c then 0 else Suc (state_index l cs))"

definition add_state :: "item list \<Rightarrow> item list list \<Rightarrow> item list list outcome" where
  "add_state l C =
     (if list_count l \<noteq> 0 then
        (if length C \<le> state_index l C then
           (if length C < MAX_LOL_COUNT then Ok (C @ [l]) else Fault Assertion_failed)
         else Ok C)
      else Ok C)"

text \<open>The loop over the symbols, for the state \<open>l\<close>.\<close>

fun add_gotos :: "production list \<Rightarrow> symbol list \<Rightarrow> item list \<Rightarrow> symbol list \<Rightarrow> item list list \<Rightarrow> item list list outcome" where
  "add_gotos G syms l [] C = Ok C"
| "add_gotos G syms l (s # ss) C =
     obind (calc_goto G syms l (sym s)) (\<lambda>k. obind (add_state k C) (add_gotos G syms l ss))"

lemma add_state_grows: "add_state l C = Ok C' \<Longrightarrow> (\<exists>D. C' = C @ D) \<and> length C' \<le> max 256 (length C)"
  by (auto simp: add_state_def MAX_LOL_COUNT_def split: if_splits)

lemma add_gotos_grows:
  "add_gotos G syms l ss C = Ok C' \<Longrightarrow> (\<exists>D. C' = C @ D) \<and> length C' \<le> max 256 (length C)"
proof (induction ss arbitrary: C)
  case (Cons s ss)
  then obtain k C1 where "add_state k C = Ok C1" "add_gotos G syms l ss C1 = Ok C'" by (auto simp: outcome_simps)
  then show ?case using Cons.IH add_state_grows by fastforce
qed simp

function canonical_loop :: "production list \<Rightarrow> symbol list \<Rightarrow> nat \<Rightarrow> item list list \<Rightarrow> item list list outcome" where
  "canonical_loop G syms i C =
     (if i < length C then
        (case add_gotos G syms (C ! i) syms C of
           Ok C \<Rightarrow> canonical_loop G syms (Suc i) C
         | Blocks \<Rightarrow> Blocks
         | Fault e \<Rightarrow> Fault e)
      else Ok C)"
  by pat_completeness auto
termination
  by (relation "measure (\<lambda>(G, syms, i, C). max 256 (length C) - i)") (auto dest!: add_gotos_grows)

declare canonical_loop.simps [simp del]

definition build_canonical_sets :: "production list \<Rightarrow> symbol list \<Rightarrow> item list list outcome" where
  "build_canonical_sets G syms =
     obind (calc_closure G syms (snd (list_add [] 0 0))) (\<lambda>l. canonical_loop G syms 0 [l])"

section \<open>The states that goto reaches\<close>

inductive_set states :: "production list \<Rightarrow> symbol list \<Rightarrow> item list set" for G :: "production list" and syms :: "symbol list" where
  start: "calc_closure G syms [\<lparr>prod = 0, dot = 0\<rparr>] = Ok l \<Longrightarrow> l \<in> states G syms"
| goto: "\<lbrakk>l \<in> states G syms; s \<in> set syms; calc_goto G syms l (sym s) = Ok k; k \<noteq> []\<rbrakk> \<Longrightarrow> k \<in> states G syms"

lemma state_index_iff: "length C \<le> state_index l C \<longleftrightarrow> l \<notin> set C"
  by (induction C) auto

lemma state_index_nth: "l \<in> set C \<Longrightarrow> state_index l C < length C \<and> C ! state_index l C = l"
  by (induction C) auto

lemma states_ok:
  assumes "symbols_ok G syms" "G \<noteq> []" "l \<in> states G syms"
  shows "(\<forall>it\<in>set l. item_ok G it) \<and> distinct l \<and> l \<noteq> []"
  using assms(3)
proof (induction rule: states.induct)
  case (start l)
  have ok: "\<forall>it\<in>set [\<lparr>prod = 0, dot = 0\<rparr>]. item_ok G it" using assms(2) by (simp add: item_ok_def)
  obtain m where "calc_closure G syms [\<lparr>prod = 0, dot = 0\<rparr>] = Ok ([\<lparr>prod = 0, dot = 0\<rparr>] @ m)"
    "set ([\<lparr>prod = 0, dot = 0\<rparr>] @ m) = closure G (set [\<lparr>prod = 0, dot = 0\<rparr>])" "distinct ([\<lparr>prod = 0, dot = 0\<rparr>] @ m)"
    using calc_closure_result [OF assms(1) ok] by auto
  then show ?case using start closure_ok ok by (metis append_is_Nil_conv not_Cons_self2 outcome.inject)
next
  case (goto l s k)
  then show ?case using calc_goto_result [OF assms(1), of l "sym s"] by (metis outcome.inject)
qed

text \<open>Only finitely many lists of items have no repetition.\<close>

lemma finite_items: "finite {it. item_ok G it}"
proof -
  let ?A = "{it. item_ok G it}"
  let ?n = "Max ((\<lambda>p. length (p_right p)) ` set G)"
  have "?A \<subseteq> (\<lambda>(p, d). \<lparr>prod = p, dot = d\<rparr>) ` ({..<length G} \<times> {..?n})"
  proof
    fix it
    assume "it \<in> ?A"
    then have it: "prod it < length G" "dot it \<le> length (p_right (G ! prod it))" by (simp_all add: item_ok_def)
    have "length (p_right (G ! prod it)) \<le> ?n" using it(1) by (intro Max_ge) auto
    with it(2) have "dot it \<le> ?n" by (rule le_trans)
    then show "it \<in> (\<lambda>(p, d). \<lparr>prod = p, dot = d\<rparr>) ` ({..<length G} \<times> {..?n})"
      using it(1) by (intro image_eqI [of _ _ "(prod it, dot it)"]) auto
  qed
  then show ?thesis by (rule finite_subset) simp
qed

lemma finite_states:
  assumes "symbols_ok G syms" "G \<noteq> []"
  shows "finite (states G syms)"
proof (rule finite_subset)
  show "states G syms \<subseteq> {l. set l \<subseteq> {it. item_ok G it} \<and> distinct l}"
    using states_ok [OF assms] by blast
  show "finite {l. set l \<subseteq> {it. item_ok G it} \<and> distinct l}"
  proof (rule finite_subset)
    show "{l. set l \<subseteq> {it. item_ok G it} \<and> distinct l} \<subseteq> {l. set l \<subseteq> {it. item_ok G it} \<and> length l \<le> card {it. item_ok G it}}"
      using finite_items by (auto simp: card_mono distinct_card [symmetric])
    show "finite {l. set l \<subseteq> {it. item_ok G it} \<and> length l \<le> card {it. item_ok G it}}"
      using finite_lists_length_le [OF finite_items] .
  qed
qed

section \<open>The loop finds them all\<close>

text \<open>The gotos of the states before \<open>i\<close> are in the collection.\<close>

definition goto_closed :: "production list \<Rightarrow> symbol list \<Rightarrow> nat \<Rightarrow> item list list \<Rightarrow> bool" where
  "goto_closed G syms i C \<longleftrightarrow>
     (\<forall>j<i. \<forall>s\<in>set syms. \<forall>k. calc_goto G syms (C ! j) (sym s) = Ok k \<longrightarrow> k = [] \<or> k \<in> set C)"

lemma add_state_cases:
  assumes "distinct C"
  shows "add_state l C = Fault Assertion_failed \<and> l \<notin> set C \<and> l \<noteq> [] \<and> 256 \<le> length C \<or>
    (\<exists>C'. add_state l C = Ok C' \<and> distinct C' \<and> set C \<subseteq> set C' \<and> set C' \<subseteq> insert l (set C) \<and>
      (l \<noteq> [] \<longrightarrow> l \<in> set C') \<and> (l = [] \<longrightarrow> C' = C))"
  using assms by (auto simp: add_state_def list_count_def state_index_iff MAX_LOL_COUNT_def)

lemma add_gotos_cases:
  assumes "symbols_ok G syms" "G \<noteq> []" "l \<in> states G syms"
  shows "\<lbrakk>set ss \<subseteq> set syms; distinct C; set C \<subseteq> states G syms; length C \<le> 256\<rbrakk> \<Longrightarrow>
    add_gotos G syms l ss C = Fault Assertion_failed \<and> 256 < card (states G syms) \<or>
    (\<exists>C'. add_gotos G syms l ss C = Ok C' \<and> distinct C' \<and> set C \<subseteq> set C' \<and> set C' \<subseteq> states G syms \<and>
      (\<forall>s\<in>set ss. \<forall>k. calc_goto G syms l (sym s) = Ok k \<longrightarrow> k = [] \<or> k \<in> set C'))"
proof (induction ss arbitrary: C)
  case (Cons s ss)
  have ok: "\<forall>it\<in>set l. item_ok G it" using states_ok [OF assms] by blast
  obtain k where k: "calc_goto G syms l (sym s) = Ok k" using calc_goto_result [OF assms(1) ok] by blast
  have ks: "k \<noteq> [] \<Longrightarrow> k \<in> states G syms" using states.goto [OF assms(3) _ k] Cons.prems(1) by simp
  from add_state_cases [OF Cons.prems(2), of k] show ?case
  proof (elim disjE exE conjE)
    assume f: "add_state k C = Fault Assertion_failed" "k \<notin> set C" "k \<noteq> []" "256 \<le> length C"
    have "insert k (set C) \<subseteq> states G syms" using ks f(3) Cons.prems(3) by simp
    then have "card (insert k (set C)) \<le> card (states G syms)" using finite_states [OF assms(1,2)] by (rule card_mono [rotated])
    then have "256 < card (states G syms)" using f(2,4) Cons.prems(2) by (simp add: distinct_card)
    then show ?thesis using k f(1) by simp
  next
    fix C1
    assume c: "add_state k C = Ok C1" "distinct C1" "set C \<subseteq> set C1" "set C1 \<subseteq> insert k (set C)"
      "k \<noteq> [] \<longrightarrow> k \<in> set C1" "k = [] \<longrightarrow> C1 = C"
    have s1: "set C1 \<subseteq> states G syms"
    proof (cases "k = []")
      case True
      then show ?thesis using c(6) Cons.prems(3) by simp
    next
      case False
      then show ?thesis using c(4) ks Cons.prems(3) by blast
    qed
    have len: "length C1 \<le> 256" using add_state_grows [OF c(1)] Cons.prems(4) by simp
    have step: "add_gotos G syms l (s # ss) C = add_gotos G syms l ss C1" using k c(1) by simp
    from Cons.prems(1) have "set ss \<subseteq> set syms" by simp
    from Cons.IH [OF this c(2) s1 len] show ?thesis
    proof (elim disjE exE conjE)
      fix C'
      assume r: "add_gotos G syms l ss C1 = Ok C'" "distinct C'" "set C1 \<subseteq> set C'" "set C' \<subseteq> states G syms"
        "\<forall>s\<in>set ss. \<forall>k. calc_goto G syms l (sym s) = Ok k \<longrightarrow> k = [] \<or> k \<in> set C'"
      have "k = [] \<or> k \<in> set C'" using c(5) r(3) by blast
      then have "\<forall>t\<in>set (s # ss). \<forall>k. calc_goto G syms l (sym t) = Ok k \<longrightarrow> k = [] \<or> k \<in> set C'"
        using r(5) k by auto
      moreover have "set C \<subseteq> set C'" using c(3) r(3) by (rule subset_trans)
      ultimately show ?thesis unfolding step using r by blast
    qed (use k c(1) in \<open>simp\<close>)
  qed
qed auto

lemma goto_closed_Suc:
  assumes "goto_closed G syms i C" "i < length C"
    and "\<forall>s\<in>set syms. \<forall>k. calc_goto G syms (C ! i) (sym s) = Ok k \<longrightarrow> k = [] \<or> k \<in> set (C @ D)"
  shows "goto_closed G syms (Suc i) (C @ D)"
  unfolding goto_closed_def
proof (intro allI impI ballI)
  fix j s k
  assume j: "j < Suc i" "s \<in> set syms" "calc_goto G syms ((C @ D) ! j) (sym s) = Ok k"
  have "(C @ D) ! j = C ! j" using j(1) assms(2) by (simp add: nth_append)
  then have k: "calc_goto G syms (C ! j) (sym s) = Ok k" using j(3) by simp
  show "k = [] \<or> k \<in> set (C @ D)"
  proof (cases "j = i")
    case True
    then show ?thesis using assms(3) j(2) k by blast
  next
    case False
    then have "j < i" using j(1) by simp
    then show ?thesis using assms(1) j(2) k unfolding goto_closed_def by auto
  qed
qed

lemma canonical_loop_result:
  assumes "symbols_ok G syms" "G \<noteq> []"
  shows "\<lbrakk>i \<le> length C; distinct C; set C \<subseteq> states G syms; length C \<le> 256; goto_closed G syms i C\<rbrakk> \<Longrightarrow>
    canonical_loop G syms i C = Fault Assertion_failed \<and> 256 < card (states G syms) \<or>
    (\<exists>D. canonical_loop G syms i C = Ok (C @ D) \<and> distinct (C @ D) \<and> set (C @ D) \<subseteq> states G syms \<and>
      length (C @ D) \<le> 256 \<and> goto_closed G syms (length (C @ D)) (C @ D))"
proof (induction "max 256 (length C) - i" arbitrary: i C rule: less_induct)
  case less
  show ?case
  proof (cases "i < length C")
    case False
    then have "canonical_loop G syms i C = Ok (C @ [])" by (subst canonical_loop.simps) simp
    moreover have "i = length C" using False less.prems(1) by simp
    ultimately show ?thesis using less.prems by (intro disjI2 exI [of _ "[]"]) simp
  next
    case True
    then have l: "C ! i \<in> states G syms" using less.prems(3) nth_mem by blast
    from add_gotos_cases [OF assms l subset_refl less.prems(2-4)] show ?thesis
    proof (elim disjE exE conjE)
      assume "add_gotos G syms (C ! i) syms C = Fault Assertion_failed" "256 < card (states G syms)"
      then show ?thesis using True by (subst canonical_loop.simps) simp
    next
      fix C1
      assume c: "add_gotos G syms (C ! i) syms C = Ok C1" "distinct C1" "set C1 \<subseteq> states G syms"
        "\<forall>s\<in>set syms. \<forall>k. calc_goto G syms (C ! i) (sym s) = Ok k \<longrightarrow> k = [] \<or> k \<in> set C1"
      obtain D where D: "C1 = C @ D" "length C1 \<le> 256" using add_gotos_grows [OF c(1)] less.prems(4) by auto
      have step: "canonical_loop G syms i C = canonical_loop G syms (Suc i) C1"
        using True c(1) by (subst canonical_loop.simps) simp
      have closed: "goto_closed G syms (Suc i) C1"
        unfolding D(1) using goto_closed_Suc [OF less.prems(5) True] c(4) D(1) by blast
      have "max 256 (length C1) - Suc i < max 256 (length C) - i" using D True less.prems(4) by simp
      moreover have "Suc i \<le> length C1" using D(1) True by simp
      ultimately have "canonical_loop G syms (Suc i) C1 = Fault Assertion_failed \<and> 256 < card (states G syms) \<or>
        (\<exists>D. canonical_loop G syms (Suc i) C1 = Ok (C1 @ D) \<and> distinct (C1 @ D) \<and> set (C1 @ D) \<subseteq> states G syms \<and>
          length (C1 @ D) \<le> 256 \<and> goto_closed G syms (length (C1 @ D)) (C1 @ D))"
        using less.hyps c(2,3) D(2) closed by blast
      then show ?thesis unfolding step D(1) append_assoc by blast
    qed
  qed
qed

text \<open>The collection is complete: it holds every state, each once, and the start state first.\<close>

definition canonical :: "production list \<Rightarrow> symbol list \<Rightarrow> item list list \<Rightarrow> bool" where
  "canonical G syms C \<longleftrightarrow> distinct C \<and> set C = states G syms \<and> length C \<le> MAX_LOL_COUNT \<and>
     (\<exists>l D. C = l # D \<and> calc_closure G syms [\<lparr>prod = 0, dot = 0\<rparr>] = Ok l)"

lemma build_canonical_sets_cases:
  assumes "symbols_ok G syms" "G \<noteq> []"
  shows "build_canonical_sets G syms = Fault Assertion_failed \<and> MAX_LOL_COUNT < card (states G syms) \<or>
    (\<exists>C. build_canonical_sets G syms = Ok C \<and> canonical G syms C)"
proof -
  have ok: "\<forall>it\<in>set [\<lparr>prod = 0, dot = 0\<rparr>]. item_ok G it" using assms(2) by (simp add: item_ok_def)
  obtain l where l: "calc_closure G syms [\<lparr>prod = 0, dot = 0\<rparr>] = Ok l"
    using calc_closure_result [OF assms(1) ok] by auto
  have b: "build_canonical_sets G syms = canonical_loop G syms 0 [l]"
    using l by (simp add: build_canonical_sets_def list_add_def)
  have ls: "set [l] \<subseteq> states G syms" using states.start [OF l] by simp
  from canonical_loop_result [OF assms, of 0 "[l]"] ls
  consider "canonical_loop G syms 0 [l] = Fault Assertion_failed" "256 < card (states G syms)"
    | D where "canonical_loop G syms 0 [l] = Ok ([l] @ D)" "distinct ([l] @ D)" "set ([l] @ D) \<subseteq> states G syms"
      "length ([l] @ D) \<le> 256" "goto_closed G syms (length ([l] @ D)) ([l] @ D)"
    by (auto simp: goto_closed_def)
  then show ?thesis
  proof cases
    case 1
    then show ?thesis using b by (simp add: MAX_LOL_COUNT_def)
  next
    case (2 D)
    have "k \<in> set ([l] @ D)" if "k \<in> states G syms" for k
      using that
    proof (induction rule: states.induct)
      case (start k)
      then show ?case using l by simp
    next
      case (goto k s m)
      then obtain j where "j < length ([l] @ D)" "([l] @ D) ! j = k" by (metis in_set_conv_nth)
      then show ?case using 2(5) goto.hyps(2-4) unfolding goto_closed_def by blast
    qed
    then have "canonical G syms ([l] @ D)"
      using 2(2-4) l unfolding canonical_def MAX_LOL_COUNT_def by auto
    then show ?thesis using b 2(1) by simp
  qed
qed

lemma build_canonical_sets_iff:
  assumes "symbols_ok G syms" "G \<noteq> []"
  shows "if card (states G syms) \<le> MAX_LOL_COUNT then \<exists>C. build_canonical_sets G syms = Ok C \<and> canonical G syms C
    else build_canonical_sets G syms = Fault Assertion_failed"
proof -
  have "card (states G syms) \<le> MAX_LOL_COUNT" if "canonical G syms C" for C
    using that by (auto simp: canonical_def dest: distinct_card)
  then show ?thesis using build_canonical_sets_cases [OF assms] by (auto simp: not_le)
qed

end
