(* ===== verification/SLR_Actions.thy ===== *)
theory SLR_Actions
  imports SLR_Follow SLR_Canonical
begin

text \<open>
  The action table of \<open>slr.c\<close>: \<^verbatim>\<open>action_name\<close>, \<^verbatim>\<open>set_action\<close> and the first half of
  \<^verbatim>\<open>build_action_table\<close>, which fills the table.  A cell is an \<open>unsigned char\<close>: 0 is an error, 1
  accepts, \<open>2 + k\<close> shifts and goes to state \<open>k\<close>, \<open>2 + nC + p\<close> reduces by production \<open>p\<close>.  The messages about
  conflicts are a log.
\<close>

section \<open>Loops over lists\<close>

fun ofold :: "('a \<Rightarrow> 's \<Rightarrow> 's outcome) \<Rightarrow> 'a list \<Rightarrow> 's \<Rightarrow> 's outcome" where
  "ofold f [] s = Ok s"
| "ofold f (x # xs) s = obind (f x s) (ofold f xs)"

lemma obind_Ok [simp]: "obind m Ok = m"
  by (cases m) simp_all

lemma ofold_Nil [simp]: "ofold f [] = Ok"
  by (intro ext) simp

lemma ofold_append: "ofold f (xs @ ys) s = obind (ofold f xs s) (ofold f ys)"
proof (induction xs arbitrary: s)
  case (Cons x xs)
  then show ?case by (cases "f x s") simp_all
qed simp

lemma ofold_concat:
  assumes "\<And>x s. x \<in> set xs \<Longrightarrow> f x s = ofold g (ws x) s"
  shows "ofold f xs s = ofold g (concat (map ws xs)) s"
  using assms
proof (induction xs arbitrary: s)
  case (Cons x xs)
  have "ofold f xs = ofold g (concat (map ws xs))" using Cons by (intro ext) simp
  then show ?case using Cons.prems [of x s] by (simp add: ofold_append)
qed simp

section \<open>Names of actions\<close>

text \<open>The parameters are the \<open>nC\<close> and \<open>n_grammar\<close> of the code.\<close>

definition action_name :: "nat \<Rightarrow> nat \<Rightarrow> nat \<Rightarrow> string outcome" where
  "action_name nC n_grammar action =
     (if action = 0 then Ok ''0''
      else if action = 1 then Ok ''acc''
      else if 2 \<le> action \<and> action < 2 + nC then Ok (''s'' @ decimal (action - 2))
      else
        let reduce = action - (2 + nC) + 1 in
        if 2 + nC \<le> action \<and> action < 2 + nC + n_grammar then Ok (''r'' @ decimal reduce)
        else Fault Assertion_failed)"

section \<open>Filling the table\<close>

text \<open>A message names the state, the character of the input symbol, the new and the old action.\<close>

type_synonym conflict = "nat \<times> int \<times> string \<times> string"

record action_table =
  actions :: "8 word list list"
  conflicts :: "conflict list"

text \<open>\<open>set_action\<close>: the parameters are \<open>nC\<close>, \<open>n_grammar\<close> and the symbols.\<close>

definition set_action ::
  "nat \<Rightarrow> nat \<Rightarrow> symbol list \<Rightarrow> nat \<Rightarrow> nat \<Rightarrow> nat \<Rightarrow> action_table \<Rightarrow> action_table outcome" where
  "set_action nC n_grammar syms state input value tab =
     (if \<not> state < nC then Fault Assertion_failed
      else if \<not> input \<le> length syms then Fault Assertion_failed
      else
        let old = unat (actions tab ! state ! input) in
        obind
          (if old \<noteq> 0 \<and> old \<noteq> value then
             obind (action_name nC n_grammar value)
               (\<lambda>a. obind (action_name nC n_grammar old)
                 (\<lambda>b. Ok (conflicts tab @
                   [(state, if input < length syms then sym (syms ! input) else END_MARK, a, b)])))
           else Ok (conflicts tab))
          (\<lambda>log. Ok \<lparr>actions = (actions tab)[state := (actions tab ! state)[input := of_nat value]],
                    conflicts = log\<rparr>))"

text \<open>The loop over \<open>k\<close> for a shift, which goes on after it has found the state.\<close>

fun shift_loop ::
  "nat \<Rightarrow> nat \<Rightarrow> symbol list \<Rightarrow> nat \<Rightarrow> nat \<Rightarrow> item list \<Rightarrow> nat \<Rightarrow> item list list \<Rightarrow> action_table \<Rightarrow> action_table outcome" where
  "shift_loop nC n_grammar syms i a l k [] tab = Ok tab"
| "shift_loop nC n_grammar syms i a l k (c # cs) tab =
     obind (if list_equal l c then set_action nC n_grammar syms i a (2 + k) tab else Ok tab)
       (shift_loop nC n_grammar syms i a l (Suc k) cs)"

text \<open>One round of the loop over \<open>follow_A\<close>.\<close>

definition reduce_step ::
  "nat \<Rightarrow> nat \<Rightarrow> symbol list \<Rightarrow> nat \<Rightarrow> nat \<Rightarrow> int \<Rightarrow> action_table \<Rightarrow> action_table outcome" where
  "reduce_step nC n_grammar syms i p c tab =
     obind (if c = END_MARK then Ok (length syms) else find_symbol syms c)
       (\<lambda>index. set_action nC n_grammar syms i index (2 + nC + p) tab)"

text \<open>One round of the loop over the items of state \<open>i\<close>.\<close>

definition item_actions ::
  "production list \<Rightarrow> symbol list \<Rightarrow> sets \<Rightarrow> item list list \<Rightarrow> nat \<Rightarrow> item \<Rightarrow> action_table \<Rightarrow> action_table outcome" where
  "item_actions G syms follow C i it tab =
     (let nC = length C; n = length G in
      obind (check (prod it < n) Out_of_bounds)
        (\<lambda>_. obind (find_symbol syms (p_left (G ! prod it)))
          (\<lambda>A. obind (item_n_after_dot G it)
            (\<lambda>rest. obind
              (if 0 < rest then
                 obind (item_symbol_after_dot G it)
                   (\<lambda>t. obind (find_symbol syms t)
                     (\<lambda>a. if \<not> nonterm (syms ! a) then
                            obind (calc_goto G syms (C ! i) (sym (syms ! a)))
                              (\<lambda>l. shift_loop nC n syms i a l 0 C tab)
                          else Ok tab))
               else if sym (syms ! A) \<noteq> p_left (G ! 0) then
                 ofold (reduce_step nC n syms i (prod it)) (follow A) tab
               else Ok tab)
              (\<lambda>tab. if list_contains (C ! i) 0 1 then set_action nC n syms i (length syms) 1 tab else Ok tab)))))"

definition state_actions ::
  "production list \<Rightarrow> symbol list \<Rightarrow> sets \<Rightarrow> item list list \<Rightarrow> nat \<Rightarrow> action_table \<Rightarrow> action_table outcome" where
  "state_actions G syms follow C i tab = ofold (item_actions G syms follow C i) (C ! i) tab"

definition empty_actions :: "symbol list \<Rightarrow> item list list \<Rightarrow> action_table" where
  "empty_actions syms C = \<lparr>actions = map (\<lambda>_. replicate (length syms + 1) 0) C, conflicts = []\<rparr>"

definition build_actions :: "production list \<Rightarrow> symbol list \<Rightarrow> sets \<Rightarrow> item list list \<Rightarrow> action_table outcome" where
  "build_actions G syms follow C = ofold (state_actions G syms follow C) [0..<length C] (empty_actions syms C)"

section \<open>The writes\<close>

text \<open>
  The nested loops come down to a list of writes of a value to the cell of a state and an input symbol.
\<close>

type_synonym cell_write = "nat \<times> nat \<times> nat"

definition write_action :: "nat \<Rightarrow> nat \<Rightarrow> symbol list \<Rightarrow> cell_write \<Rightarrow> action_table \<Rightarrow> action_table outcome" where
  "write_action nC n syms w tab = (case w of (i, a, v) \<Rightarrow> set_action nC n syms i a v tab)"

lemma write_action_simps [simp]: "write_action nC n syms (i, a, v) tab = set_action nC n syms i a v tab"
  by (simp add: write_action_def)

definition column :: "symbol list \<Rightarrow> int \<Rightarrow> nat" where
  "column syms c = (if c = END_MARK then length syms else case symbol_index syms c of Some i \<Rightarrow> i | None \<Rightarrow> 0)"

definition goto_of :: "production list \<Rightarrow> symbol list \<Rightarrow> item list \<Rightarrow> int \<Rightarrow> item list" where
  "goto_of G syms l x = (case calc_goto G syms l x of Ok k \<Rightarrow> k | Blocks \<Rightarrow> [] | Fault e \<Rightarrow> [])"

definition item_writes :: "production list \<Rightarrow> symbol list \<Rightarrow> sets \<Rightarrow> item list list \<Rightarrow> nat \<Rightarrow> item \<Rightarrow> cell_write list" where
  "item_writes G syms follow C i it =
     (case after_dot G it of
        Some x \<Rightarrow>
          if x \<notin> p_left ` set G then
            map (\<lambda>k. (i, column syms x, 2 + k)) (filter (\<lambda>k. C ! k = goto_of G syms (C ! i) x) [0..<length C])
          else []
      | None \<Rightarrow>
          if p_left (G ! prod it) \<noteq> p_left (G ! 0) then
            map (\<lambda>c. (i, column syms c, 2 + length C + prod it)) (follow (column syms (p_left (G ! prod it))))
          else []) @
     (if \<lparr>prod = 0, dot = 1\<rparr> \<in> set (C ! i) then [(i, length syms, 1)] else [])"

lemma shift_loop_writes:
  assumes "length C = nC"
  shows "C = D @ cs \<Longrightarrow> shift_loop nC n syms i a l (length D) cs tab =
    ofold (write_action nC n syms) (map (\<lambda>k. (i, a, 2 + k)) (filter (\<lambda>k. C ! k = l) [length D..<nC])) tab"
proof (induction cs arbitrary: D tab)
  case Nil
  then show ?case using assms by simp
next
  case (Cons c cs)
  have len: "length D < nC" and c: "C ! length D = c" using Cons.prems assms by auto
  have "[length D..<nC] = length D # [length (D @ [c])..<nC]" using len by (simp add: upt_conv_Cons)
  moreover have "shift_loop nC n syms i a l (Suc (length D)) cs =
    ofold (write_action nC n syms) (map (\<lambda>k. (i, a, 2 + k)) (filter (\<lambda>k. C ! k = l) [length (D @ [c])..<nC]))"
    using Cons.IH [of "D @ [c]"] Cons.prems by (intro ext) simp
  ultimately show ?case using c by auto
qed

lemma column_symbol:
  assumes "symbols_ok G syms" "c \<in> sym ` set syms"
  shows "find_symbol syms c = Ok (column syms c)" "column syms c < length syms" "sym (syms ! column syms c) = c"
proof -
  obtain i where i: "find_symbol syms c = Ok i" "i < length syms" "sym (syms ! i) = c" using find_symbol_ok [OF assms(2)] by blast
  have "c \<noteq> END_MARK" using symbols_okD(3) [OF assms(1) i(2)] i(3) by simp
  then have "column syms c = i" using i(1) by (auto simp: column_def find_symbol_def split: option.splits)
  then show "find_symbol syms c = Ok (column syms c)" "column syms c < length syms" "sym (syms ! column syms c) = c"
    using i by auto
qed

lemma reduce_writes:
  assumes "symbols_ok G syms" "\<forall>c\<in>set cs. c = END_MARK \<or> c \<in> sym ` set syms"
  shows "ofold (reduce_step nC n syms i p) cs tab =
    ofold (write_action nC n syms) (map (\<lambda>c. (i, column syms c, 2 + nC + p)) cs) tab"
  using assms(2)
proof (induction cs arbitrary: tab)
  case (Cons c cs)
  have "reduce_step nC n syms i p c t = write_action nC n syms (i, column syms c, 2 + nC + p) t" for t
  proof (cases "c = END_MARK")
    case True
    then show ?thesis by (simp add: reduce_step_def column_def)
  next
    case False
    then show ?thesis using Cons.prems column_symbol(1) [OF assms(1), of c] by (simp add: reduce_step_def)
  qed
  moreover have "ofold (reduce_step nC n syms i p) cs =
      ofold (write_action nC n syms) (map (\<lambda>c. (i, column syms c, 2 + nC + p)) cs)"
    using Cons by (intro ext) simp
  ultimately show ?case by simp
qed simp

definition follow_table :: "production list \<Rightarrow> symbol list \<Rightarrow> sets \<Rightarrow> bool" where
  "follow_table G syms follow \<longleftrightarrow> (\<forall>i<length syms. set (follow i) = {c. code_follow G (sym (syms ! i)) c})"

lemma item_actions_writes:
  assumes ok: "symbols_ok G syms" and f: "follow_table G syms follow"
    and C: "\<forall>it\<in>set (C ! i). item_ok G it" "it \<in> set (C ! i)"
  shows "item_actions G syms follow C i it tab =
    ofold (write_action (length C) (length G) syms) (item_writes G syms follow C i it) tab"
proof -
  let ?w = "write_action (length C) (length G) syms"
  let ?p = "G ! prod it"
  have it: "item_ok G it" using C by blast
  then have lt: "prod it < length G" and p: "?p \<in> set G" by (auto simp: item_ok_def)
  note A = column_symbol [OF ok symbols_okD(5) [OF ok p]]
  obtain n where n: "item_n_after_dot G it = Ok n" "0 < n \<longleftrightarrow> after_dot G it \<noteq> None"
    using item_after_dot(1) [OF it] by blast
  have acc: "(\<lambda>t. if list_contains (C ! i) 0 1 then set_action (length C) (length G) syms i (length syms) 1 t else Ok t) =
      ofold ?w (if \<lparr>prod = 0, dot = 1\<rparr> \<in> set (C ! i) then [(i, length syms, 1)] else [])"
    by (intro ext) simp
  show ?thesis
  proof (cases "after_dot G it")
    case None
    have fs: "\<forall>c\<in>set (follow (column syms (p_left ?p))). c = END_MARK \<or> c \<in> sym ` set syms"
    proof
      fix c
      assume "c \<in> set (follow (column syms (p_left ?p)))"
      then have "code_follow G (sym (syms ! column syms (p_left ?p))) c" using f A(2) unfolding follow_table_def by blast
      from code_follow_symbol [OF this ok] show "c = END_MARK \<or> c \<in> sym ` set syms" by blast
    qed
    show ?thesis
      unfolding item_writes_def ofold_append acc [symmetric] item_actions_def
      using lt A(1,3) n None by (simp add: reduce_writes [OF ok fs] Let_def)
  next
    case (Some x)
    have x: "x \<in> sym ` set syms" using item_after_dot(3) [OF it Some] symbols_okD(6) [OF ok p] by blast
    note a = column_symbol [OF ok x]
    have nt: "nonterm (syms ! column syms x) \<longleftrightarrow> x \<in> p_left ` set G" using symbols_okD(4) [OF ok a(2)] a(3) by simp
    obtain l where l: "calc_goto G syms (C ! i) x = Ok l" using calc_goto_result [OF ok C(1)] by blast
    have sh: "shift_loop (length C) (length G) syms i (column syms x) l 0 C t =
        ofold ?w (map (\<lambda>k. (i, column syms x, 2 + k)) (filter (\<lambda>k. C ! k = goto_of G syms (C ! i) x) [0..<length C])) t" for t
      using shift_loop_writes [of C "length C" "[]" C] l by (simp add: goto_of_def)
    show ?thesis
      unfolding item_writes_def ofold_append acc [symmetric] item_actions_def
      using lt A(1) n Some a nt l by (simp add: sh item_after_dot(2) [OF it Some] Let_def)
  qed
qed

section \<open>What the writes leave\<close>

definition action_cell :: "action_table \<Rightarrow> nat \<Rightarrow> nat \<Rightarrow> nat" where
  "action_cell tab i a = unat (actions tab ! i ! a)"

definition table_shape :: "nat \<Rightarrow> symbol list \<Rightarrow> action_table \<Rightarrow> bool" where
  "table_shape nC syms tab \<longleftrightarrow> length (actions tab) = nC \<and> (\<forall>r\<in>set (actions tab). length r = length syms + 1)"

definition write_ok :: "nat \<Rightarrow> nat \<Rightarrow> symbol list \<Rightarrow> cell_write \<Rightarrow> bool" where
  "write_ok nC n syms w \<longleftrightarrow> (case w of (i, a, v) \<Rightarrow> i < nC \<and> a \<le> length syms \<and> 1 \<le> v \<and> v < 2 + nC + n)"

definition cells_ok :: "nat \<Rightarrow> nat \<Rightarrow> symbol list \<Rightarrow> action_table \<Rightarrow> bool" where
  "cells_ok nC n syms tab \<longleftrightarrow> (\<forall>i<nC. \<forall>a\<le>length syms. action_cell tab i a < 2 + nC + n)"

lemma action_name_returns: "v < 2 + nC + n \<Longrightarrow> \<exists>s. action_name nC n v = Ok s"
  by (auto simp: action_name_def Let_def)

lemma write_action_result:
  assumes "table_shape nC syms tab" "cells_ok nC n syms tab" "write_ok nC n syms (i, a, v)" "2 + nC + n \<le> 256"
  obtains tab' where "write_action nC n syms (i, a, v) tab = Ok tab'" "table_shape nC syms tab'" "cells_ok nC n syms tab'"
    and "\<And>j b. j < nC \<Longrightarrow> b \<le> length syms \<Longrightarrow> action_cell tab' j b = (if j = i \<and> b = a then v else action_cell tab j b)"
    and "\<exists>l. conflicts tab' = conflicts tab @ l \<and> (l = [] \<longleftrightarrow> action_cell tab i a = 0 \<or> action_cell tab i a = v)"
proof -
  have w: "i < nC" "a \<le> length syms" "1 \<le> v" "v < 2 + nC + n" using assms(3) by (auto simp: write_ok_def)
  have rows: "length (actions tab) = nC" "\<And>j. j < nC \<Longrightarrow> length (actions tab ! j) = length syms + 1"
    using assms(1) by (auto simp: table_shape_def)
  have old: "action_cell tab i a < 2 + nC + n" using assms(2) w by (simp add: cells_ok_def)
  obtain s where s: "action_name nC n v = Ok s" using action_name_returns [OF w(4)] by blast
  obtain t where t: "action_name nC n (action_cell tab i a) = Ok t" using action_name_returns [OF old] by blast
  let ?l = "if action_cell tab i a \<noteq> 0 \<and> action_cell tab i a \<noteq> v then
      [(i, if a < length syms then sym (syms ! a) else END_MARK, s, t)] else []"
  let ?tab = "\<lparr>actions = (actions tab)[i := (actions tab ! i)[a := of_nat v]], conflicts = conflicts tab @ ?l\<rparr>"
  have "write_action nC n syms (i, a, v) tab = Ok ?tab"
    using w(1,2) s t by (simp add: set_action_def action_cell_def Let_def)
  moreover have "table_shape nC syms ?tab"
    using rows w(1) by (auto simp: table_shape_def all_set_conv_all_nth nth_list_update)
  moreover have c: "action_cell ?tab j b = (if j = i \<and> b = a then v else action_cell tab j b)" if "j < nC" "b \<le> length syms" for j b
    using that rows w assms(4) by (simp add: action_cell_def nth_list_update unat_of_nat)
  moreover have "cells_ok nC n syms ?tab" using c assms(2) w(4) by (simp add: cells_ok_def)
  moreover have "\<exists>l. conflicts ?tab = conflicts tab @ l \<and> (l = [] \<longleftrightarrow> action_cell tab i a = 0 \<or> action_cell tab i a = v)"
    by (intro exI [of _ ?l]) simp
  ultimately show ?thesis using that by blast
qed

text \<open>The values written to a cell, and the one it holds, are the same.\<close>

definition writes_agree :: "action_table \<Rightarrow> cell_write list \<Rightarrow> bool" where
  "writes_agree tab ws \<longleftrightarrow>
     (\<forall>i a v. (i, a, v) \<in> set ws \<longrightarrow> (action_cell tab i a = 0 \<or> action_cell tab i a = v) \<and> (\<forall>v'. (i, a, v') \<in> set ws \<longrightarrow> v' = v))"

lemma writes_agreeD:
  assumes "writes_agree tab ws" "(i, a, v) \<in> set ws"
  shows "action_cell tab i a = 0 \<or> action_cell tab i a = v" and "(i, a, v') \<in> set ws \<Longrightarrow> v' = v"
  using assms unfolding writes_agree_def by blast+

lemma writes_agree_Cons:
  assumes "\<And>j b. j < nC \<Longrightarrow> b \<le> m \<Longrightarrow> action_cell t1 j b = (if j = i \<and> b = a then v else action_cell tab j b)"
    and "\<And>j b u. (j, b, u) \<in> set ws \<Longrightarrow> j < nC \<and> b \<le> m" and "i < nC" "a \<le> m" "1 \<le> v"
  shows "writes_agree tab ((i, a, v) # ws) \<longleftrightarrow> (action_cell tab i a = 0 \<or> action_cell tab i a = v) \<and> writes_agree t1 ws"
proof
  assume r: "writes_agree tab ((i, a, v) # ws)"
  have "(action_cell t1 j b = 0 \<or> action_cell t1 j b = u) \<and> (\<forall>v'. (j, b, v') \<in> set ws \<longrightarrow> v' = u)"
    if u: "(j, b, u) \<in> set ws" for j b u
  proof -
    have "(j, b, u) \<in> set ((i, a, v) # ws)" using u by simp
    note all = writes_agreeD [OF r this]
    show ?thesis using all assms(1) [of j b] assms(2) [OF u] by auto
  qed
  then show "(action_cell tab i a = 0 \<or> action_cell tab i a = v) \<and> writes_agree t1 ws"
    using writes_agreeD(1) [OF r, of i a v] unfolding writes_agree_def by simp
next
  assume e: "(action_cell tab i a = 0 \<or> action_cell tab i a = v) \<and> writes_agree t1 ws"
  have same: "u = v" if "(i, a, u) \<in> set ws" for u
    using writes_agreeD(1) [OF conjunct2 [OF e] that] assms(1) [OF assms(3,4)] assms(5) by simp
  have old: "action_cell tab j b = 0 \<or> action_cell tab j b = u" if u: "(j, b, u) \<in> set ((i, a, v) # ws)" for j b u
  proof (cases "j = i \<and> b = a")
    case True
    then have "u = v" using u same by auto
    then show ?thesis using e True by simp
  next
    case False
    then have "(j, b, u) \<in> set ws" using u by auto
    then show ?thesis using writes_agreeD(1) [OF conjunct2 [OF e]] assms(1) [of j b] assms(2) False by metis
  qed
  have "v' = u" if "(j, b, u) \<in> set ((i, a, v) # ws)" "(j, b, v') \<in> set ((i, a, v) # ws)" for j b u v'
    using that same writes_agreeD(2) [OF conjunct2 [OF e], of j b u v'] by auto
  then show "writes_agree tab ((i, a, v) # ws)" using old unfolding writes_agree_def by blast
qed

text \<open>
  After a list of writes: a cell holds a value written to it, or what it held; there is a
  message exactly when two different values met in a cell.
\<close>

lemma writes_result:
  assumes "2 + nC + n \<le> 256"
  shows "\<lbrakk>table_shape nC syms tab; cells_ok nC n syms tab; \<forall>w\<in>set ws. write_ok nC n syms w\<rbrakk> \<Longrightarrow>
    \<exists>tab'. ofold (write_action nC n syms) ws tab = Ok tab' \<and> table_shape nC syms tab' \<and>
      (\<forall>i<nC. \<forall>a\<le>length syms. (i, a, action_cell tab' i a) \<in> set ws \<or>
        (\<forall>v. (i, a, v) \<notin> set ws) \<and> action_cell tab' i a = action_cell tab i a) \<and>
      (\<exists>l. conflicts tab' = conflicts tab @ l \<and> (l = [] \<longleftrightarrow> writes_agree tab ws))"
proof (induction ws arbitrary: tab)
  case Nil
  then show ?case by (simp add: writes_agree_def)
next
  case (Cons w ws)
  obtain i a v where w: "w = (i, a, v)" by (cases w)
  have wok: "write_ok nC n syms (i, a, v)" and rest: "\<forall>w\<in>set ws. write_ok nC n syms w" using Cons.prems(3) w by simp_all
  then have rng: "i < nC" "a \<le> length syms" "1 \<le> v" by (auto simp: write_ok_def)
  have rng': "j < nC \<and> b \<le> length syms" if "(j, b, u) \<in> set ws" for j b u
    using bspec [OF rest that] by (simp add: write_ok_def)
  obtain t1 where t1: "write_action nC n syms (i, a, v) tab = Ok t1" "table_shape nC syms t1" "cells_ok nC n syms t1"
    and c1: "\<And>j b. j < nC \<Longrightarrow> b \<le> length syms \<Longrightarrow> action_cell t1 j b = (if j = i \<and> b = a then v else action_cell tab j b)"
    and l1: "\<exists>l. conflicts t1 = conflicts tab @ l \<and> (l = [] \<longleftrightarrow> action_cell tab i a = 0 \<or> action_cell tab i a = v)"
    using write_action_result [OF Cons.prems(1,2) wok assms] by blast
  obtain t2 where t2: "ofold (write_action nC n syms) ws t1 = Ok t2" "table_shape nC syms t2"
    and c2: "\<forall>i<nC. \<forall>a\<le>length syms. (i, a, action_cell t2 i a) \<in> set ws \<or>
        (\<forall>v. (i, a, v) \<notin> set ws) \<and> action_cell t2 i a = action_cell t1 i a"
    and l2: "\<exists>l. conflicts t2 = conflicts t1 @ l \<and> (l = [] \<longleftrightarrow> writes_agree t1 ws)"
    using Cons.IH [OF t1(2,3) rest] by blast
  have "ofold (write_action nC n syms) (w # ws) tab = Ok t2" using w t1(1) t2(1) by simp
  moreover have "(j, b, action_cell t2 j b) \<in> set (w # ws) \<or> (\<forall>v. (j, b, v) \<notin> set (w # ws)) \<and> action_cell t2 j b = action_cell tab j b"
    if "j < nC" "b \<le> length syms" for j b
  proof -
    have "(j, b, action_cell t2 j b) \<in> set ws \<or> (\<forall>v. (j, b, v) \<notin> set ws) \<and> action_cell t2 j b = action_cell t1 j b" using c2 that by blast
    then show ?thesis using c1 [OF that] w by (cases "j = i \<and> b = a") auto
  qed
  moreover have "\<exists>l. conflicts t2 = conflicts tab @ l \<and> (l = [] \<longleftrightarrow> writes_agree tab (w # ws))"
  proof -
    obtain m1 m2 where m: "conflicts t1 = conflicts tab @ m1" "m1 = [] \<longleftrightarrow> action_cell tab i a = 0 \<or> action_cell tab i a = v"
      "conflicts t2 = conflicts t1 @ m2" "m2 = [] \<longleftrightarrow> writes_agree t1 ws"
      using l1 l2 by blast
    have "m1 @ m2 = [] \<longleftrightarrow> writes_agree tab (w # ws)"
      using writes_agree_Cons [where tab = tab and ws = ws, OF c1 rng' rng] m(2,4) w by simp
    then show ?thesis using m(1,3) by (intro exI [of _ "m1 @ m2"]) simp
  qed
  ultimately show ?case using t2(2) by blast
qed

section \<open>The action table\<close>

text \<open>The actions of state \<open>i\<close> on the symbol of column \<open>a\<close>: shift, reduce, accept.\<close>

inductive action_of ::
  "production list \<Rightarrow> symbol list \<Rightarrow> item list list \<Rightarrow> nat \<Rightarrow> nat \<Rightarrow> nat \<Rightarrow> bool" for G syms C where
  shift: "\<lbrakk>it \<in> set (C ! i); after_dot G it = Some x; x \<notin> p_left ` set G;
    k < length C; calc_goto G syms (C ! i) x = Ok (C ! k)\<rbrakk> \<Longrightarrow> action_of G syms C i (column syms x) (2 + k)"
| reduce: "\<lbrakk>it \<in> set (C ! i); after_dot G it = None; p_left (G ! prod it) \<noteq> p_left (G ! 0);
    code_follow G (p_left (G ! prod it)) c\<rbrakk> \<Longrightarrow> action_of G syms C i (column syms c) (2 + length C + prod it)"
| accept: "\<lparr>prod = 0, dot = 1\<rparr> \<in> set (C ! i) \<Longrightarrow> action_of G syms C i (length syms) 1"

lemma item_writes_sound:
  assumes "symbols_ok G syms" "follow_table G syms follow" "\<forall>it\<in>set (C ! i). item_ok G it" "it \<in> set (C ! i)"
    and "(j, a, v) \<in> set (item_writes G syms follow C i it)"
  shows "j = i \<and> action_of G syms C i a v"
proof -
  have it: "item_ok G it" using assms(3,4) by blast
  then have p: "G ! prod it \<in> set G" by (simp add: item_ok_def)
  note A = column_symbol [OF assms(1) symbols_okD(5) [OF assms(1) p]]
  from assms(5) consider
    (sh) x k where "after_dot G it = Some x" "x \<notin> p_left ` set G" "k < length C" "C ! k = goto_of G syms (C ! i) x"
      "j = i" "a = column syms x" "v = 2 + k"
  | (re) c where "after_dot G it = None" "p_left (G ! prod it) \<noteq> p_left (G ! 0)"
      "c \<in> set (follow (column syms (p_left (G ! prod it))))" "j = i" "a = column syms c" "v = 2 + length C + prod it"
  | (ac) "\<lparr>prod = 0, dot = 1\<rparr> \<in> set (C ! i)" "j = i" "a = length syms" "v = 1"
    by (auto simp: item_writes_def split: option.splits if_splits)
  then show ?thesis
  proof cases
    case (sh x k)
    obtain l where "calc_goto G syms (C ! i) x = Ok l" using calc_goto_result [OF assms(1,3)] by blast
    then have "calc_goto G syms (C ! i) x = Ok (C ! k)" using sh(4) by (simp add: goto_of_def)
    then show ?thesis using sh action_of.shift [OF assms(4)] by simp
  next
    case (re c)
    then have "code_follow G (p_left (G ! prod it)) c" using assms(2) A(2,3) unfolding follow_table_def by auto
    then show ?thesis using re action_of.reduce [OF assms(4)] by simp
  next
    case ac
    then show ?thesis using action_of.accept by simp
  qed
qed

lemma action_of_written:
  assumes "symbols_ok G syms" "follow_table G syms follow" "\<forall>it\<in>set (C ! i). item_ok G it"
    and "action_of G syms C i a v"
  shows "\<exists>it\<in>set (C ! i). (i, a, v) \<in> set (item_writes G syms follow C i it)"
  using assms(4)
proof (cases rule: action_of.cases)
  case (shift it x k)
  then have "(i, a, v) \<in> set (item_writes G syms follow C i it)" by (auto simp: item_writes_def goto_of_def)
  then show ?thesis using shift(3) by blast
next
  case (reduce it c)
  have p: "G ! prod it \<in> set G" using assms(3) reduce(3) by (auto simp: item_ok_def)
  note A = column_symbol [OF assms(1) symbols_okD(5) [OF assms(1) p]]
  have "c \<in> set (follow (column syms (p_left (G ! prod it))))"
    using assms(2) A(2,3) reduce(6) unfolding follow_table_def by auto
  then have "(i, a, v) \<in> set (item_writes G syms follow C i it)" using reduce by (auto simp: item_writes_def)
  then show ?thesis using reduce(3) by blast
next
  case accept
  then have "(i, a, v) \<in> set (item_writes G syms follow C i \<lparr>prod = 0, dot = 1\<rparr>)" by (simp add: item_writes_def)
  then show ?thesis using accept(3) by blast
qed

lemma action_of_range:
  assumes "symbols_ok G syms" "\<forall>it\<in>set (C ! i). item_ok G it" "action_of G syms C i a v"
  shows "a \<le> length syms \<and> 1 \<le> v \<and> v < 2 + length C + length G"
  using assms(3)
proof (cases rule: action_of.cases)
  case (shift it x k)
  have it: "item_ok G it" using assms(2) shift(3) by blast
  then have "G ! prod it \<in> set G" by (simp add: item_ok_def)
  then have "x \<in> sym ` set syms" using item_after_dot(3) [OF it shift(4)] symbols_okD(6) [OF assms(1)] by blast
  from column_symbol(2) [OF assms(1) this] show ?thesis using shift by simp
next
  case (reduce it c)
  have "prod it < length G" using assms(2) reduce(3) by (auto simp: item_ok_def)
  moreover have "column syms c \<le> length syms"
    using code_follow_symbol [OF reduce(6) assms(1)] column_symbol(2) [OF assms(1), of c] by (auto simp: column_def)
  ultimately show ?thesis using reduce by simp
qed simp

definition table_writes :: "production list \<Rightarrow> symbol list \<Rightarrow> sets \<Rightarrow> item list list \<Rightarrow> cell_write list" where
  "table_writes G syms follow C =
     concat (map (\<lambda>i. concat (map (item_writes G syms follow C i) (C ! i))) [0..<length C])"

lemma build_actions_writes:
  assumes "symbols_ok G syms" "follow_table G syms follow" "\<forall>l\<in>set C. \<forall>it\<in>set l. item_ok G it"
  shows "build_actions G syms follow C =
    ofold (write_action (length C) (length G) syms) (table_writes G syms follow C) (empty_actions syms C)"
proof -
  let ?w = "write_action (length C) (length G) syms"
  have "state_actions G syms follow C i s = ofold ?w (concat (map (item_writes G syms follow C i) (C ! i))) s"
    if "i \<in> set [0..<length C]" for i s
  proof -
    have ok: "\<forall>it\<in>set (C ! i). item_ok G it" using bspec [OF assms(3) nth_mem] that by simp
    show ?thesis
      unfolding state_actions_def using item_actions_writes [OF assms(1,2) ok] by (intro ofold_concat) simp
  qed
  then show ?thesis unfolding build_actions_def table_writes_def by (rule ofold_concat)
qed

lemma in_table_writes:
  assumes "symbols_ok G syms" "follow_table G syms follow" "\<forall>l\<in>set C. \<forall>it\<in>set l. item_ok G it"
  shows "(i, a, v) \<in> set (table_writes G syms follow C) \<longleftrightarrow> i < length C \<and> action_of G syms C i a v"
proof
  assume "(i, a, v) \<in> set (table_writes G syms follow C)"
  then obtain j it where j: "j < length C" "it \<in> set (C ! j)" "(i, a, v) \<in> set (item_writes G syms follow C j it)"
    by (auto simp: table_writes_def)
  have ok: "\<forall>it\<in>set (C ! j). item_ok G it" using bspec [OF assms(3) nth_mem] j(1) by simp
  show "i < length C \<and> action_of G syms C i a v" using item_writes_sound [OF assms(1,2) ok j(2,3)] j(1) by simp
next
  assume a: "i < length C \<and> action_of G syms C i a v"
  then have ok: "\<forall>it\<in>set (C ! i). item_ok G it" using bspec [OF assms(3) nth_mem] by blast
  obtain it where "it \<in> set (C ! i)" "(i, a, v) \<in> set (item_writes G syms follow C i it)"
    using action_of_written [OF assms(1,2) ok] a by blast
  then show "(i, a, v) \<in> set (table_writes G syms follow C)" using a by (auto simp: table_writes_def)
qed

lemma build_actions_result:
  assumes "symbols_ok G syms" "follow_table G syms follow" "\<forall>l\<in>set C. \<forall>it\<in>set l. item_ok G it"
    and "2 + length C + length G \<le> 256"
  obtains tab where "build_actions G syms follow C = Ok tab" "table_shape (length C) syms tab"
    and "\<And>i a. i < length C \<Longrightarrow> a \<le> length syms \<Longrightarrow> action_cell tab i a \<noteq> 0 \<Longrightarrow> action_of G syms C i a (action_cell tab i a)"
    and "\<And>i a v. i < length C \<Longrightarrow> action_of G syms C i a v \<Longrightarrow> action_cell tab i a \<noteq> 0"
    and "conflicts tab = [] \<longleftrightarrow>
      (\<forall>i<length C. \<forall>a v v'. action_of G syms C i a v \<and> action_of G syms C i a v' \<longrightarrow> v = v')"
proof -
  let ?nC = "length C" and ?n = "length G" and ?ws = "table_writes G syms follow C" and ?e = "empty_actions syms C"
  note ws = in_table_writes [OF assms(1-3)]
  have z: "action_cell ?e i a = 0" if "i < ?nC" "a \<le> length syms" for i a
    using that by (simp add: action_cell_def empty_actions_def del: replicate_Suc)
  have sh: "table_shape ?nC syms ?e" by (auto simp: table_shape_def empty_actions_def)
  have ce: "cells_ok ?nC ?n syms ?e" using z by (simp add: cells_ok_def)
  have rng: "a \<le> length syms \<and> 1 \<le> v \<and> v < 2 + ?nC + ?n" if "i < ?nC" "action_of G syms C i a v" for i a v
    using action_of_range [OF assms(1) bspec [OF assms(3) nth_mem [OF that(1)]] that(2)] .
  have "write_ok ?nC ?n syms (i, a, v)" if "(i, a, v) \<in> set ?ws" for i a v
    using that rng [of i a v] unfolding ws write_ok_def by simp
  then have "\<forall>w\<in>set ?ws. write_ok ?nC ?n syms w" by fastforce
  from writes_result [OF assms(4) sh ce this] obtain tab where t: "build_actions G syms follow C = Ok tab"
    "table_shape ?nC syms tab"
    "\<forall>i<?nC. \<forall>a\<le>length syms. (i, a, action_cell tab i a) \<in> set ?ws \<or> (\<forall>v. (i, a, v) \<notin> set ?ws) \<and> action_cell tab i a = action_cell ?e i a"
    "\<exists>l. conflicts tab = conflicts ?e @ l \<and> (l = [] \<longleftrightarrow> writes_agree ?e ?ws)"
    unfolding build_actions_writes [OF assms(1-3), symmetric] by blast
  show ?thesis
  proof (rule that [OF t(1,2)])
    fix i a
    assume i: "i < ?nC" "a \<le> length syms" and "action_cell tab i a \<noteq> 0"
    then show "action_of G syms C i a (action_cell tab i a)" using t(3) z [OF i] ws by metis
  next
    fix i a v
    assume i: "i < ?nC" "action_of G syms C i a v"
    then have "(i, a, v) \<in> set ?ws" "a \<le> length syms" using ws rng by blast+
    then have "action_of G syms C i a (action_cell tab i a)" using t(3) i(1) ws by blast
    then show "action_cell tab i a \<noteq> 0" using rng [OF i(1)] by force
  next
    have "writes_agree ?e ?ws \<longleftrightarrow> (\<forall>i<?nC. \<forall>a v v'. action_of G syms C i a v \<and> action_of G syms C i a v' \<longrightarrow> v = v')"
      unfolding writes_agree_def ws using z rng by metis
    then show "conflicts tab = [] \<longleftrightarrow>
      (\<forall>i<?nC. \<forall>a v v'. action_of G syms C i a v \<and> action_of G syms C i a v' \<longrightarrow> v = v')"
      using t(4) by (auto simp: empty_actions_def)
  qed
qed

end
