(* ===== verification/SLR_Tables.thy ===== *)
theory SLR_Tables
  imports SLR_Actions
begin

text \<open>
  The goto table of \<open>slr.c\<close> (\<^verbatim>\<open>build_goto_table\<close>) and what the program prints: the lists of action
  names, the lexemes, the rows of the action table and of the reduction table.  Output is the
  printed text, as a string or a list of strings; the fixed text around the tables is left out.
\<close>

section \<open>The goto table\<close>

text \<open>One round of the loop over the symbols, on the row of state \<open>i\<close>.\<close>

definition goto_step ::
  "production list \<Rightarrow> symbol list \<Rightarrow> item list list \<Rightarrow> nat \<Rightarrow> symbol \<Rightarrow> 8 word list \<Rightarrow> 8 word list outcome" where
  "goto_step G syms C i A row =
     (if nonterm A then
        obind (calc_goto G syms (C ! i) (sym A))
          (\<lambda>l. let k = state_index l C in
            if k < length C then
              obind (check (0 \<le> nt_index A \<and> nat (nt_index A) < length row) Out_of_bounds)
                (\<lambda>_. Ok (row[nat (nt_index A) := of_nat k]))
            else Ok row)
      else Ok row)"

definition goto_row ::
  "production list \<Rightarrow> symbol list \<Rightarrow> item list list \<Rightarrow> nat \<Rightarrow> 8 word list list \<Rightarrow> 8 word list list outcome" where
  "goto_row G syms C i gotos =
     obind (ofold (goto_step G syms C i) syms (gotos ! i)) (\<lambda>row. Ok (gotos[i := row]))"

definition build_gotos :: "production list \<Rightarrow> symbol list \<Rightarrow> item list list \<Rightarrow> 8 word list list outcome" where
  "build_gotos G syms C =
     ofold (goto_row G syms C) [0..<length C] (map (\<lambda>_. replicate (n_nonterminals syms) 0) C)"

text \<open>The numbers of the nonterminals are those of the columns.\<close>

definition numbered :: "symbol list \<Rightarrow> bool" where
  "numbered syms \<longleftrightarrow> map nt_index (filter nonterm syms) = map int [0..<n_nonterminals syms]"

lemma number_symbols_numbers:
  "map nt_index (filter nonterm (number_symbols left right cs n)) =
     map (\<lambda>k. n + int k) [0..<length (filter nonterm (number_symbols left right cs n))]"
proof (induction cs arbitrary: n)
  case (Cons c cs)
  let ?r = "\<lambda>m. filter nonterm (number_symbols left right cs m)"
  have shift: "map (\<lambda>k. n + int k) [0..<Suc m] = n # map (\<lambda>k. (n + 1) + int k) [0..<m]" for m
    by (simp add: upt_conv_Cons map_Suc_upt [symmetric] del: upt_Suc)
  show ?case
  proof (cases "left c")
    case True
    then have "filter nonterm (number_symbols left right (c # cs) n) = \<lparr>sym = c, nonterm = True, nt_index = n\<rparr> # ?r (n + 1)"
      by simp
    then show ?thesis using Cons.IH [of "n + 1"] shift [of "length (?r (n + 1))"] by simp
  next
    case False
    then show ?thesis using Cons.IH [of n] by simp
  qed
qed simp

lemma find_unique_symbols_numbered: "find_unique_symbols grammar = Ok syms \<Longrightarrow> numbered syms"
  using number_symbols_numbers [of _ _ _ 0]
  by (auto simp: numbered_def n_nonterminals_def find_unique_symbols_def Let_def split: if_splits)

lemma numbered_range:
  assumes "numbered syms" "s \<in> set syms" "nonterm s"
  shows "0 \<le> nt_index s" "nat (nt_index s) < n_nonterminals syms"
proof -
  have "nt_index s \<in> set (map nt_index (filter nonterm syms))" using assms(2,3) by simp
  then have "nt_index s \<in> set (map int [0..<n_nonterminals syms])" using assms(1) by (simp only: numbered_def)
  then show "0 \<le> nt_index s" "nat (nt_index s) < n_nonterminals syms" by auto
qed

lemma numbered_inj:
  assumes "numbered syms" "i < length syms" "j < length syms" "nonterm (syms ! i)" "nonterm (syms ! j)"
    and "nat (nt_index (syms ! i)) = nat (nt_index (syms ! j))"
  shows "syms ! i = syms ! j"
proof -
  have "distinct (map nt_index (filter nonterm syms))"
    using assms(1) by (simp add: numbered_def distinct_map)
  then have "inj_on nt_index (set (filter nonterm syms))" by (simp add: distinct_map)
  moreover have "nt_index (syms ! i) = nt_index (syms ! j)"
    using numbered_range [OF assms(1) nth_mem [OF assms(2)] assms(4)]
      numbered_range [OF assms(1) nth_mem [OF assms(3)] assms(5)] assms(6) by (simp add: nat_eq_iff)
  ultimately show ?thesis using assms(2-5) by (auto dest: inj_onD)
qed

text \<open>The entry that belongs in the table.\<close>

definition goto_entry :: "production list \<Rightarrow> symbol list \<Rightarrow> item list list \<Rightarrow> nat \<Rightarrow> int \<Rightarrow> nat \<Rightarrow> bool" where
  "goto_entry G syms C i x k \<longleftrightarrow>
     calc_goto G syms (C ! i) x = Ok [] \<and> k = 0 \<or> k < length C \<and> calc_goto G syms (C ! i) x = Ok (C ! k)"

lemma canonical_state:
  assumes "symbols_ok G syms" "G \<noteq> []" "canonical G syms C" "l \<in> set C"
  shows "\<forall>it\<in>set l. item_ok G it" "l \<noteq> []"
proof -
  have "l \<in> states G syms" using assms(3,4) by (simp add: canonical_def)
  from states_ok [OF assms(1,2) this] show "\<forall>it\<in>set l. item_ok G it" "l \<noteq> []" by blast+
qed

lemma canonical_goto:
  assumes "symbols_ok G syms" "G \<noteq> []" "canonical G syms C" "i < length C" "s \<in> set syms"
    and "calc_goto G syms (C ! i) (sym s) = Ok l"
  shows "l = [] \<or> l \<in> set C"
proof -
  have C: "set C = states G syms" using assms(3) by (simp add: canonical_def)
  then have "C ! i \<in> states G syms" using nth_mem [OF assms(4)] by simp
  from states.goto [OF this assms(5,6)] show ?thesis unfolding C by blast
qed

lemma goto_step_result:
  assumes "symbols_ok G syms" "G \<noteq> []" "canonical G syms C" "numbered syms" "i < length C"
    and "length row = n_nonterminals syms" "A \<in> set syms"
  obtains row' where "goto_step G syms C i A row = Ok row'" "length row' = n_nonterminals syms"
    and "\<And>c. c < n_nonterminals syms \<Longrightarrow> \<not> (nonterm A \<and> c = nat (nt_index A)) \<Longrightarrow> row' ! c = row ! c"
    and "nonterm A \<Longrightarrow> row ! nat (nt_index A) = 0 \<Longrightarrow> goto_entry G syms C i (sym A) (unat (row' ! nat (nt_index A)))"
proof (cases "nonterm A")
  case False
  then show ?thesis using that assms(6) by (simp add: goto_step_def)
next
  case True
  note ok = canonical_state(1) [OF assms(1-3) nth_mem [OF assms(5)]]
  note rng = numbered_range [OF assms(4,7) True]
  obtain l where l: "calc_goto G syms (C ! i) (sym A) = Ok l" using calc_goto_result [OF assms(1) ok] by blast
  show ?thesis
  proof (cases "l = []")
    case nil: True
    have "l \<notin> set C" using canonical_state(2) [OF assms(1-3)] nil by blast
    then have "\<not> state_index l C < length C" using state_index_iff [of C l] by simp
    then have "goto_step G syms C i A row = Ok row" using True l by (simp add: goto_step_def Let_def)
    then show ?thesis using that assms(6) l nil by (simp add: goto_entry_def)
  next
    case False
    then have "l \<in> set C" using canonical_goto [OF assms(1-3,5,7) l] by simp
    then have k: "state_index l C < length C" "C ! state_index l C = l" using state_index_nth by blast+
    have w: "unat (of_nat (state_index l C) :: 8 word) = state_index l C"
      using k(1) assms(3) by (simp add: canonical_def MAX_LOL_COUNT_def unat_of_nat)
    have "goto_step G syms C i A row = Ok (row[nat (nt_index A) := of_nat (state_index l C)])"
      using True l k rng assms(6) by (simp add: goto_step_def Let_def)
    moreover have "goto_entry G syms C i (sym A) (state_index l C)"
      using l k by (simp add: goto_entry_def)
    moreover have "row[nat (nt_index A) := of_nat (state_index l C)] ! c = row ! c"
      if "\<not> (nonterm A \<and> c = nat (nt_index A))" for c using that True by simp
    ultimately show ?thesis using that assms(6) rng(2) w by simp
  qed
qed

lemma goto_steps_result:
  assumes "symbols_ok G syms" "G \<noteq> []" "canonical G syms C" "numbered syms" "i < length C"
  shows "\<lbrakk>syms = done @ rest; length row = n_nonterminals syms;
    \<forall>s\<in>set rest. nonterm s \<longrightarrow> row ! nat (nt_index s) = 0;
    \<forall>s\<in>set done. nonterm s \<longrightarrow> goto_entry G syms C i (sym s) (unat (row ! nat (nt_index s)))\<rbrakk> \<Longrightarrow>
    \<exists>row'. ofold (goto_step G syms C i) rest row = Ok row' \<and> length row' = n_nonterminals syms \<and>
      (\<forall>s\<in>set syms. nonterm s \<longrightarrow> goto_entry G syms C i (sym s) (unat (row' ! nat (nt_index s))))"
proof (induction rest arbitrary: "done" row)
  case (Cons A rest)
  have A: "A \<in> set syms" using Cons.prems(1) by simp
  obtain r where r: "goto_step G syms C i A row = Ok r" "length r = n_nonterminals syms"
    "\<And>c. c < n_nonterminals syms \<Longrightarrow> \<not> (nonterm A \<and> c = nat (nt_index A)) \<Longrightarrow> r ! c = row ! c"
    "nonterm A \<Longrightarrow> row ! nat (nt_index A) = 0 \<Longrightarrow> goto_entry G syms C i (sym A) (unat (r ! nat (nt_index A)))"
    using goto_step_result [OF assms Cons.prems(2) A] by blast
  have "distinct syms" using symbols_okD(1) [OF assms(1)] by (simp add: distinct_map)
  then have dist: "distinct (done @ A # rest)" unfolding Cons.prems(1) .
  have keep: "r ! nat (nt_index s) = row ! nat (nt_index s)" if s: "s \<in> set syms" "nonterm s" "s \<noteq> A" for s
  proof (rule r(3))
    show "nat (nt_index s) < n_nonterminals syms" using numbered_range [OF assms(4) s(1,2)] by simp
    show "\<not> (nonterm A \<and> nat (nt_index s) = nat (nt_index A))"
    proof
      assume e: "nonterm A \<and> nat (nt_index s) = nat (nt_index A)"
      obtain j where j: "j < length syms" "syms ! j = s" using s(1) by (metis in_set_conv_nth)
      obtain k where k: "k < length syms" "syms ! k = A" using A by (metis in_set_conv_nth)
      have "syms ! j = syms ! k"
        by (rule numbered_inj [OF assms(4) j(1) k(1)]) (use e s(2) j(2) k(2) in \<open>simp_all\<close>)
      then show False using s(3) j(2) k(2) by simp
    qed
  qed
  have "\<forall>s\<in>set rest. nonterm s \<longrightarrow> r ! nat (nt_index s) = 0"
  proof (intro ballI impI)
    fix s
    assume s: "s \<in> set rest" "nonterm s"
    then have "s \<in> set syms" "s \<noteq> A" using dist by (auto simp: Cons.prems(1))
    then show "r ! nat (nt_index s) = 0" using keep s Cons.prems(3) by simp
  qed
  moreover have "\<forall>s\<in>set (done @ [A]). nonterm s \<longrightarrow> goto_entry G syms C i (sym s) (unat (r ! nat (nt_index s)))"
  proof
    fix s
    assume s: "s \<in> set (done @ [A])"
    show "nonterm s \<longrightarrow> goto_entry G syms C i (sym s) (unat (r ! nat (nt_index s)))"
    proof (cases "s = A")
      case True
      then show ?thesis using r(4) Cons.prems(3) by simp
    next
      case False
      then have "s \<in> set done" using s by simp
      moreover from this have "s \<in> set syms" by (simp add: Cons.prems(1))
      ultimately show ?thesis using keep [of s] False Cons.prems(4) by simp
    qed
  qed
  ultimately show ?case using Cons.IH [of "done @ [A]" r] Cons.prems(1) r(1,2) by simp
qed auto

lemma goto_rows_result:
  assumes "symbols_ok G syms" "G \<noteq> []" "canonical G syms C" "numbered syms"
  shows "\<lbrakk>distinct is; set is \<subseteq> {..<length C}; length gotos = length C;
      \<forall>i\<in>set is. gotos ! i = replicate (n_nonterminals syms) 0\<rbrakk> \<Longrightarrow>
    \<exists>tab. ofold (goto_row G syms C) is gotos = Ok tab \<and> length tab = length C \<and>
      (\<forall>i\<in>set is. length (tab ! i) = n_nonterminals syms \<and>
        (\<forall>s\<in>set syms. nonterm s \<longrightarrow> goto_entry G syms C i (sym s) (unat (tab ! i ! nat (nt_index s))))) \<and>
      (\<forall>i<length C. i \<notin> set is \<longrightarrow> tab ! i = gotos ! i)"
proof (induction "is" arbitrary: gotos)
  case (Cons i js)
  have i: "i < length C" "gotos ! i = replicate (n_nonterminals syms) 0" using Cons.prems(2,4) by simp_all
  obtain row where row: "ofold (goto_step G syms C i) syms (gotos ! i) = Ok row" "length row = n_nonterminals syms"
    "\<forall>s\<in>set syms. nonterm s \<longrightarrow> goto_entry G syms C i (sym s) (unat (row ! nat (nt_index s)))"
    using goto_steps_result [OF assms i(1), of "[]" syms "gotos ! i"] i(2) numbered_range(2) [OF assms(4)] by auto
  have step: "goto_row G syms C i gotos = Ok (gotos[i := row])" using row(1) by (simp add: goto_row_def)
  have "\<forall>j\<in>set js. gotos[i := row] ! j = replicate (n_nonterminals syms) 0"
  proof
    fix j
    assume j: "j \<in> set js"
    then have "j \<noteq> i" using Cons.prems(1) by auto
    then show "gotos[i := row] ! j = replicate (n_nonterminals syms) 0" using Cons.prems(4) j by simp
  qed
  then obtain tab where tab: "ofold (goto_row G syms C) js (gotos[i := row]) = Ok tab" "length tab = length C"
    "\<forall>j\<in>set js. length (tab ! j) = n_nonterminals syms \<and>
        (\<forall>s\<in>set syms. nonterm s \<longrightarrow> goto_entry G syms C j (sym s) (unat (tab ! j ! nat (nt_index s))))"
    "\<forall>j<length C. j \<notin> set js \<longrightarrow> tab ! j = gotos[i := row] ! j"
    using Cons.IH [of "gotos[i := row]"] Cons.prems by auto
  have "tab ! i = row" using tab(4) i(1) Cons.prems(1,3) by simp
  moreover have "\<forall>j<length C. j \<notin> set (i # js) \<longrightarrow> tab ! j = gotos ! j" using tab(4) by simp
  ultimately show ?case using step tab(1-3) row(2,3) by simp
qed simp

lemma build_gotos_result:
  assumes "symbols_ok G syms" "G \<noteq> []" "canonical G syms C" "numbered syms"
  obtains tab where "build_gotos G syms C = Ok tab" "length tab = length C"
    and "\<And>i. i < length C \<Longrightarrow> length (tab ! i) = n_nonterminals syms"
    and "\<And>i s. i < length C \<Longrightarrow> s \<in> set syms \<Longrightarrow> nonterm s \<Longrightarrow>
      goto_entry G syms C i (sym s) (unat (tab ! i ! nat (nt_index s)))"
  using goto_rows_result [OF assms, of "[0..<length C]" "map (\<lambda>_. replicate (n_nonterminals syms) 0) C"]
  unfolding build_gotos_def by (auto simp: subset_iff)

end
