(* ===== verification/SLR_Print.thy ===== *)
theory SLR_Print
  imports SLR_Tables CS_Strings "HOL-Library.Multiset"
begin

text \<open>
  What \<open>slr.c\<close> prints: the lists of names of \<^verbatim>\<open>print_enum_list\<close>, the lexemes and the rows of the action table
  (second half of \<^verbatim>\<open>build_action_table\<close>), and what \<^verbatim>\<open>print_reduce_table\<close> prints; and its
  command line.
\<close>

section \<open>Decimal numbers\<close>

fun read_decimal :: "nat \<Rightarrow> string \<Rightarrow> nat" where
  "read_decimal n [] = n"
| "read_decimal n (c # cs) = read_decimal (10 * n + (of_char c - 48)) cs"

lemma read_decimal_append: "read_decimal n (s @ t) = read_decimal (read_decimal n s) t"
  by (induction s arbitrary: n) simp_all

lemma read_digit: "n < 10 \<Longrightarrow> read_decimal m [char_of (48 + n)] = 10 * m + n"
  by (simp add: of_char_of)

lemma read_decimal_decimal: "read_decimal 0 (decimal n) = n"
proof (induction n rule: decimal.induct)
  case (1 n)
  show ?case
  proof (cases "n < 10")
    case True
    then show ?thesis using read_digit [OF True, of 0] by (subst decimal.simps) simp
  next
    case False
    have "read_decimal 0 (decimal n) = read_decimal (n div 10) [char_of (48 + n mod 10)]"
      using 1 False by (subst decimal.simps) (simp add: read_decimal_append)
    also have "\<dots> = 10 * (n div 10) + n mod 10" by (rule read_digit) simp
    finally show ?thesis by simp
  qed
qed

lemma decimal_inject: "decimal m = decimal n \<longleftrightarrow> m = n"
  by (metis read_decimal_decimal)

lemma decimal_digits: "n < 10 ^ Suc k \<Longrightarrow> length (decimal n) \<le> Suc k"
proof (induction k arbitrary: n)
  case 0
  then show ?case by (subst decimal.simps) simp
next
  case (Suc k)
  show ?case
  proof (cases "n < 10")
    case True
    then show ?thesis by (subst decimal.simps) simp
  next
    case False
    have "n div 10 < 10 ^ Suc k" using Suc.prems by (simp add: less_mult_imp_div_less mult.commute)
    then show ?thesis using Suc.IH False by (subst decimal.simps) simp
  qed
qed

section \<open>Lists of names\<close>

text \<open>
  \<^verbatim>\<open>print_enum_list\<close> with the buffer as an argument: a line is printed, and the buffer emptied,
  when it is longer than 65.  The buffer has room for 80 characters, the final null included;
  the branch that would write past it is a fault.  The result is the list of lines.
\<close>

fun enum_lines :: "char \<Rightarrow> nat list \<Rightarrow> string \<Rightarrow> string list outcome" where
  "enum_lines c [] buf = Ok (if 0 < length buf then [buf] else [])"
| "enum_lines c (i # is) buf =
     (let (printed, buf) = (if 65 < length buf then ([buf], []) else ([], buf));
          buf = buf @ [c] @ decimal i @ '', '' in
      if 80 \<le> length buf then Fault Out_of_bounds
      else obind (enum_lines c is buf) (\<lambda>lines. Ok (printed @ lines)))"

definition print_enum_list :: "char \<Rightarrow> nat \<Rightarrow> nat \<Rightarrow> string list outcome" where
  "print_enum_list c lo hi = enum_lines c [lo..<hi + 1] []"

definition INT_MAX :: nat where
  "INT_MAX = 2147483647"

lemma enum_lines_result:
  "\<forall>i\<in>set is. i \<le> INT_MAX \<Longrightarrow> length buf < 80 \<Longrightarrow>
    \<exists>lines. enum_lines c is buf = Ok lines \<and> (\<forall>l\<in>set lines. l \<noteq> [] \<and> length l < 80) \<and>
      concat lines = buf @ concat (map (\<lambda>i. [c] @ decimal i @ '', '') is)"
proof (induction "is" arbitrary: buf)
  case (Cons i js)
  have "i < 10 ^ Suc 9" using Cons.prems(1) by (simp add: INT_MAX_def)
  then have d: "length (decimal i) \<le> 10" using decimal_digits [of i 9] by simp
  obtain printed b where b: "(if 65 < length buf then ([buf], []) else ([], buf)) = (printed, b)" by fastforce
  then have c: "concat printed @ b = buf" "length b \<le> 65" "\<forall>l\<in>set printed. l \<noteq> [] \<and> length l < 80"
    using Cons.prems(2) by (auto split: if_splits)
  let ?b = "b @ [c] @ decimal i @ '', ''"
  have len: "length ?b < 80" using c(2) d by simp
  obtain lines where lines: "enum_lines c js ?b = Ok lines" "\<forall>l\<in>set lines. l \<noteq> [] \<and> length l < 80"
    "concat lines = ?b @ concat (map (\<lambda>i. [c] @ decimal i @ '', '') js)"
    using Cons.IH [OF _ len] Cons.prems(1) by auto
  have "enum_lines c (i # js) buf = Ok (printed @ lines)" using b len lines(1) by simp
  moreover have "concat (printed @ lines) = buf @ concat (map (\<lambda>i. [c] @ decimal i @ '', '') (i # js))"
    using lines(3) c(1) by simp
  ultimately show ?case using lines(2) c(3) by auto
qed simp

section \<open>Lexemes and rows of the action table\<close>

fun omap :: "('a \<Rightarrow> 'b outcome) \<Rightarrow> 'a list \<Rightarrow> 'b list outcome" where
  "omap f [] = Ok []"
| "omap f (x # xs) = obind (f x) (\<lambda>y. obind (omap f xs) (\<lambda>ys. Ok (y # ys)))"

lemma omap_Ok: "(\<And>x. x \<in> set xs \<Longrightarrow> f x = Ok (g x)) \<Longrightarrow> omap f xs = Ok (map g xs)"
  by (induction xs) simp_all

type_synonym token_row = "int \<times> string"

text \<open>The search in \<^verbatim>\<open>tokens[]\<close> and the assertion behind it.\<close>

fun token_name :: "token_row list \<Rightarrow> int \<Rightarrow> string outcome" where
  "token_name [] c = Fault Assertion_failed"
| "token_name (t # tokens) c = (if fst t = c then Ok (snd t) else token_name tokens c)"

definition print_lexemes :: "token_row list \<Rightarrow> symbol list \<Rightarrow> string list outcome" where
  "print_lexemes tokens syms =
     obind (omap (\<lambda>s. token_name tokens (sym s)) (filter (\<lambda>s. \<not> nonterm s) syms)) (\<lambda>ns. Ok (ns @ [''lex_stop'']))"

text \<open>\<open>printf\<close> with \<open>%3s\<close>.\<close>

definition pad3 :: "string \<Rightarrow> string" where
  "pad3 s = replicate (3 - length s) CHR '' '' @ s"

text \<open>A cell of a printed row: the comma is left out in column 0 only.\<close>

definition print_action :: "production list \<Rightarrow> symbol list \<Rightarrow> item list list \<Rightarrow> action_table \<Rightarrow> nat \<Rightarrow> nat \<Rightarrow> string outcome" where
  "print_action G syms C tab i j =
     obind (action_name (length C) (length G) (unat (actions tab ! i ! j)))
       (\<lambda>buf. Ok ((if j \<noteq> 0 then '','' else '''') @ pad3 buf))"

definition print_actions :: "production list \<Rightarrow> symbol list \<Rightarrow> item list list \<Rightarrow> action_table \<Rightarrow> string list list outcome" where
  "print_actions G syms C tab =
     omap (\<lambda>i. omap (print_action G syms C tab i)
       (filter (\<lambda>j. j = length syms \<or> \<not> nonterm (syms ! j)) [0..<length syms + 1])) [0..<length C]"

section \<open>Rows of the reduction table\<close>

definition reduce_row :: "symbol list \<Rightarrow> production \<Rightarrow> (nat \<times> int \<times> string) outcome" where
  "reduce_row syms p =
     obind (find_symbol syms (p_left p))
       (\<lambda>s. Ok (length (p_right p), nt_index (syms ! s),
         if p_reduction p \<noteq> '''' then p_reduction p else ''reduce_null''))"

definition print_reduce_rows :: "production list \<Rightarrow> symbol list \<Rightarrow> (nat \<times> int \<times> string) list outcome" where
  "print_reduce_rows G syms = omap (reduce_row syms) G"

text \<open>The name says what the cell holds.\<close>

definition name_of_action :: "nat \<Rightarrow> nat \<Rightarrow> string" where
  "name_of_action nC v =
     (if v = 0 then ''0'' else if v = 1 then ''acc'' else if v < 2 + nC then ''s'' @ decimal (v - 2)
      else ''r'' @ decimal (v - (2 + nC) + 1))"

lemma action_name_eq: "v < 2 + nC + n \<Longrightarrow> action_name nC n v = Ok (name_of_action nC v)"
  by (auto simp: action_name_def name_of_action_def Let_def)

lemma name_of_action_inject: "name_of_action nC v = name_of_action nC w \<longleftrightarrow> v = w"
  by (auto simp: name_of_action_def decimal_inject split: if_splits)

section \<open>Names of reductions\<close>

text \<open>An element of the array \<open>reductions\<close>: a pointer, and the string it points to.\<close>

type_synonym reduction_name = "nat \<times> string"

definition compare_strings :: "reduction_name \<Rightarrow> reduction_name \<Rightarrow> int" where
  "compare_strings a b = strcmp (snd a) (snd b)"

text \<open>The loop that prints them leaves out an element whose pointer is that of the element before it.\<close>

fun print_names :: "reduction_name option \<Rightarrow> reduction_name list \<Rightarrow> string list" where
  "print_names prev [] = []"
| "print_names prev (r # rs) =
     (if (case prev of Some p \<Rightarrow> fst p = fst r | None \<Rightarrow> False) then print_names (Some r) rs
      else snd r # print_names (Some r) rs)"

text \<open>
  The first block of \<^verbatim>\<open>print_reduce_table\<close>.  Two arguments stand for what C leaves open: the order in which
  \<open>qsort\<close> leaves equal elements, and the address of the string literal of rule \<open>i\<close>.
\<close>

definition print_reductions ::
  "(reduction_name list \<Rightarrow> reduction_name list) \<Rightarrow> (nat \<Rightarrow> nat) \<Rightarrow> production list \<Rightarrow> string list" where
  "print_reductions qsort addr G =
     print_names None (qsort (filter (\<lambda>r. snd r \<noteq> []) (map (\<lambda>i. (addr i, p_reduction (G ! i))) [0..<length G])))"

lemma print_names_result:
  "sorted (map snd rs) \<Longrightarrow> \<forall>a\<in>set rs \<union> set_option prev. \<forall>b\<in>set rs. fst a = fst b \<longleftrightarrow> snd a = snd b \<Longrightarrow>
    \<forall>p\<in>set_option prev. \<forall>b\<in>set rs. snd p \<le> snd b \<Longrightarrow>
    sorted_wrt (<) (print_names prev rs) \<and> set (print_names prev rs) = snd ` set rs - snd ` set_option prev \<and>
    (\<forall>p\<in>set_option prev. \<forall>s\<in>set (print_names prev rs). snd p < s)"
proof (induction rs arbitrary: prev)
  case (Cons r rs)
  have ih: "sorted_wrt (<) (print_names (Some r) rs)" "set (print_names (Some r) rs) = snd ` set rs - {snd r}"
    "\<forall>s\<in>set (print_names (Some r) rs). snd r < s"
  proof -
    have "sorted (map snd rs)" "\<forall>a\<in>set rs \<union> set_option (Some r). \<forall>b\<in>set rs. fst a = fst b \<longleftrightarrow> snd a = snd b"
      "\<forall>p\<in>set_option (Some r). \<forall>b\<in>set rs. snd p \<le> snd b"
      using Cons.prems(1,2) by simp_all
    from Cons.IH [OF this] show "sorted_wrt (<) (print_names (Some r) rs)"
      "set (print_names (Some r) rs) = snd ` set rs - {snd r}" "\<forall>s\<in>set (print_names (Some r) rs). snd r < s"
      by simp_all
  qed
  show ?case
  proof (cases prev)
    case None
    then show ?thesis using ih by auto
  next
    case (Some p)
    have pr: "snd p \<le> snd r" using Cons.prems(3) Some by simp
    show ?thesis
    proof (cases "fst p = fst r")
      case True
      then have "snd p = snd r" using Cons.prems(2) Some by auto
      then show ?thesis using True Some ih by auto
    next
      case False
      then have "snd p \<noteq> snd r" using Cons.prems(2) Some by auto
      then have less: "snd p < snd r" using pr by simp
      have "\<forall>s\<in>snd ` set rs. snd r \<le> s" using Cons.prems(1) by simp
      then have above: "\<forall>s\<in>snd ` set rs. snd p < s" using less less_le_trans by blast
      have pn: "print_names prev (r # rs) = snd r # print_names (Some r) rs" using False Some by simp
      have "insert (snd r) (snd ` set rs - {snd r}) = insert (snd r) (snd ` set rs) - {snd p}"
        using above less by auto
      then show ?thesis unfolding pn using Some ih less above by simp
    qed
  qed
qed simp

text \<open>When equal strings, and only these, share an address, every name is printed once, in increasing order.\<close>

lemma print_reductions_once:
  assumes "\<And>xs. mset (qsort xs) = mset xs" "\<And>xs. sorted_wrt (\<lambda>a b. compare_strings a b \<le> 0) (qsort xs)"
    and "\<And>i j. i < length G \<Longrightarrow> j < length G \<Longrightarrow> addr i = addr j \<longleftrightarrow> p_reduction (G ! i) = p_reduction (G ! j)"
  shows "sorted_wrt (<) (print_reductions qsort addr G) \<and> set (print_reductions qsort addr G) = p_reduction ` set G - {[]}"
proof -
  let ?rs = "filter (\<lambda>r. snd r \<noteq> []) (map (\<lambda>i. (addr i, p_reduction (G ! i))) [0..<length G])"
  have s: "set (qsort ?rs) = set ?rs" using mset_eq_setD [OF assms(1)] .
  have "\<forall>a\<in>set ?rs. \<forall>b\<in>set ?rs. fst a = fst b \<longleftrightarrow> snd a = snd b" using assms(3) by auto
  then have ptr: "\<forall>a\<in>set (qsort ?rs) \<union> set_option None. \<forall>b\<in>set (qsort ?rs). fst a = fst b \<longleftrightarrow> snd a = snd b"
    unfolding s by simp
  have "sorted (map snd (qsort ?rs))"
    using assms(2) [of ?rs] by (simp add: compare_strings_def strcmp_le sorted_wrt_map)
  from print_names_result [OF this ptr] have
    "sorted_wrt (<) (print_reductions qsort addr G) \<and> set (print_reductions qsort addr G) = snd ` set ?rs"
    unfolding print_reductions_def s by simp
  moreover have "snd ` set ?rs = p_reduction ` set G - {[]}"
    by (force simp: in_set_conv_nth)
  ultimately show ?thesis by simp
qed

text \<open>When the compiler keeps equal literals apart a name is printed twice, and the enumeration does not compile.\<close>

lemma print_reductions_twice:
  "print_reductions (\<lambda>xs. xs) (\<lambda>i. i) (initialize_G [(''S=a'', ''r''), (''S=b'', ''r'')]) = [''r'', ''r'']"
  by code_simp

section \<open>The command line\<close>

text \<open>What the program prints before it exits, and whether it goes on with or without debugging output.\<close>

datatype message = Help string | Version

datatype command =
    Run bool
  | Exit_success message
  | Exit_with_failure message

definition short_pgm_name :: "string \<Rightarrow> string" where
  "short_pgm_name arg = rev (takeWhile (\<lambda>c. c \<noteq> CHR ''/'') (rev arg))"

fun parse_arguments :: "string \<Rightarrow> bool \<Rightarrow> string list \<Rightarrow> command" where
  "parse_arguments name debug [] = Run debug"
| "parse_arguments name debug (arg # argv) =
     (if arg = ''-d'' \<or> arg = ''--debug'' then parse_arguments name True argv
      else if arg = ''-h'' \<or> arg = ''--help'' then Exit_success (Help name)
      else if arg = ''-v'' \<or> arg = ''--version'' then Exit_success Version
      else Exit_with_failure (Help name))"

text \<open>The name of the program is read before the test for an empty argument vector.\<close>

fun parse_command_line :: "string list \<Rightarrow> command outcome" where
  "parse_command_line [] = Fault Null_dereference"
| "parse_command_line (arg # argv) = Ok (parse_arguments (short_pgm_name arg) False argv)"

lemma parse_arguments_runs:
  "parse_arguments name debug argv = Run b \<longleftrightarrow>
    set argv \<subseteq> {''-d'', ''--debug''} \<and> (b \<longleftrightarrow> debug \<or> argv \<noteq> [])"
  by (induction name debug argv rule: parse_arguments.induct) auto

end
