(* ===== verification/SLR_Viable.thy ===== *)
theory SLR_Viable
  imports SLR_Canonical
begin

text \<open>
  What the states of \<open>slr.c\<close> mean.  The specification is an automaton on single items that
  reads grammar symbols; the collection that \<^verbatim>\<open>build_canonical_sets\<close> builds simulates all its runs at once.
\<close>

section \<open>Items that are valid after a string of symbols\<close>

inductive valid_after :: "production list \<Rightarrow> int list \<Rightarrow> item \<Rightarrow> bool" for G :: "production list" where
  start: "valid_after G [] \<lparr>prod = 0, dot = 0\<rparr>"
| shift: "\<lbrakk>valid_after G w it; after_dot G it = Some x\<rbrakk> \<Longrightarrow> valid_after G (w @ [x]) \<lparr>prod = prod it, dot = dot it + 1\<rparr>"
| predict: "\<lbrakk>valid_after G w it; after_dot G it = Some (p_left (G ! j)); j < length G\<rbrakk> \<Longrightarrow>
    valid_after G w \<lparr>prod = j, dot = 0\<rparr>"

text \<open>What stands before the dot is the end of what has been read.\<close>

lemma valid_after_suffix:
  "valid_after G w it \<Longrightarrow> dot it \<le> length (p_right (G ! prod it)) \<and> (\<exists>u. w = u @ take (dot it) (p_right (G ! prod it)))"
proof (induction rule: valid_after.induct)
  case (shift w it x)
  then obtain u where u: "w = u @ take (dot it) (p_right (G ! prod it))" by blast
  have x: "dot it < length (p_right (G ! prod it))" "x = p_right (G ! prod it) ! dot it"
    using shift.hyps(2) by (auto simp: after_dot_def Let_def split: if_splits)
  then show ?case using u by (auto simp: take_Suc_conv_app_nth)
qed auto

lemma valid_after_closure:
  assumes "\<And>it. it \<in> I \<Longrightarrow> valid_after G w it" "it \<in> closure G I"
  shows "valid_after G w it"
  using assms(2) by (induction rule: closure.induct) (auto intro: assms(1) valid_after.predict)

lemma valid_after_Nil: "{it. valid_after G [] it} = closure G {\<lparr>prod = 0, dot = 0\<rparr>}"
proof -
  have "it \<in> closure G {\<lparr>prod = 0, dot = 0\<rparr>}" if "valid_after G w it" "w = []" for w it
    using that by (induction rule: valid_after.induct) (auto intro: closure.intros)
  then show ?thesis using valid_after_closure [of "{\<lparr>prod = 0, dot = 0\<rparr>}" G "[]"] valid_after.start by blast
qed

lemma valid_after_snoc: "{it. valid_after G (w @ [x]) it} = closure G (advance_items G {it. valid_after G w it} x)"
proof -
  have "it \<in> closure G (advance_items G {it. valid_after G w it} x)" if "valid_after G v it" "v = w @ [x]" for v it
    using that
  proof (induction rule: valid_after.induct)
    case (shift u it y)
    then have "\<lparr>prod = prod it, dot = dot it + 1\<rparr> \<in> advance_items G {it. valid_after G w it} x"
      unfolding advance_items_def by blast
    then show ?case by (rule closure.base)
  qed (auto intro: closure.predict)
  moreover have "valid_after G (w @ [x]) it" if "it \<in> advance_items G {it. valid_after G w it} x" for it
    using that valid_after.shift unfolding advance_items_def by blast
  ultimately show ?thesis using valid_after_closure by blast
qed

section \<open>Reading a string with \<open>calc_goto\<close>\<close>

fun read_string :: "production list \<Rightarrow> symbol list \<Rightarrow> item list \<Rightarrow> int list \<Rightarrow> item list outcome" where
  "read_string G syms l [] = Ok l"
| "read_string G syms l (x # xs) = obind (calc_goto G syms l x) (\<lambda>k. read_string G syms k xs)"

lemma read_string_snoc:
  "read_string G syms l (w @ [x]) = obind (read_string G syms l w) (\<lambda>k. calc_goto G syms k x)"
proof (induction w arbitrary: l)
  case Nil
  then show ?case by (cases "calc_goto G syms l x") simp_all
next
  case (Cons y w)
  then show ?case by (cases "calc_goto G syms l y") simp_all
qed

lemma start_closure:
  assumes "symbols_ok G syms" "G \<noteq> []"
  obtains l where "calc_closure G syms [\<lparr>prod = 0, dot = 0\<rparr>] = Ok l" "set l = closure G {\<lparr>prod = 0, dot = 0\<rparr>}"
    "\<forall>it\<in>set l. item_ok G it" "l \<in> states G syms"
proof -
  have ok: "\<forall>it\<in>set [\<lparr>prod = 0, dot = 0\<rparr>]. item_ok G it" using assms(2) by (simp add: item_ok_def)
  have d: "distinct [\<lparr>prod = 0, dot = 0\<rparr>]" by simp
  obtain m where m: "calc_closure G syms [\<lparr>prod = 0, dot = 0\<rparr>] = Ok ([\<lparr>prod = 0, dot = 0\<rparr>] @ m)"
    "set ([\<lparr>prod = 0, dot = 0\<rparr>] @ m) = closure G (set [\<lparr>prod = 0, dot = 0\<rparr>])"
    using calc_closure_result [OF assms(1) ok d] by blast
  have "\<forall>it\<in>set ([\<lparr>prod = 0, dot = 0\<rparr>] @ m). item_ok G it" using closure_ok ok m(2) by blast
  moreover have "set ([\<lparr>prod = 0, dot = 0\<rparr>] @ m) = closure G {\<lparr>prod = 0, dot = 0\<rparr>}" using m(2) by simp
  ultimately show ?thesis using that [OF m(1) _ _ states.start [OF m(1)]] by blast
qed

lemma read_string_result:
  assumes "symbols_ok G syms" "G \<noteq> []" "calc_closure G syms [\<lparr>prod = 0, dot = 0\<rparr>] = Ok l"
  shows "set w \<subseteq> sym ` set syms \<Longrightarrow>
    \<exists>k. read_string G syms l w = Ok k \<and> set k = {it. valid_after G w it} \<and> (\<forall>it\<in>set k. item_ok G it) \<and>
      (k \<noteq> [] \<longrightarrow> k \<in> states G syms)"
proof (induction w rule: rev_induct)
  case Nil
  obtain l' where l': "calc_closure G syms [\<lparr>prod = 0, dot = 0\<rparr>] = Ok l'" "set l' = closure G {\<lparr>prod = 0, dot = 0\<rparr>}"
    "\<forall>it\<in>set l'. item_ok G it" "l' \<in> states G syms"
    by (rule start_closure [OF assms(1,2)])
  have "l' = l" using l'(1) assms(3) by simp
  then show ?case using l'(2-4) by (intro exI [of _ l] conjI) (simp_all add: valid_after_Nil)
next
  case (snoc x w)
  then obtain k where k: "read_string G syms l w = Ok k" "set k = {it. valid_after G w it}"
    "\<forall>it\<in>set k. item_ok G it" "k \<noteq> [] \<longrightarrow> k \<in> states G syms"
    by auto
  obtain m where m: "calc_goto G syms k x = Ok m" "set m = closure G (advance_items G (set k) x)" "distinct m"
    "\<forall>it\<in>set m. item_ok G it"
    by (rule calc_goto_result [OF assms(1) k(3)])
  obtain s where s: "s \<in> set syms" "sym s = x" using snoc.prems by auto
  have "m \<in> states G syms" if "m \<noteq> []"
  proof -
    have "k \<noteq> []" using that m(2) by (auto simp: advance_items_def)
    then show ?thesis using states.goto [of k G syms s m] k(4) s m(1) that by simp
  qed
  moreover have "read_string G syms l (w @ [x]) = Ok m" using k(1) m(1) by (simp add: read_string_snoc)
  moreover have "set m = {it. valid_after G (w @ [x]) it}" using m(2) k(2) valid_after_snoc by metis
  ultimately show ?case using m(4) by blast
qed

lemma states_read:
  assumes "symbols_ok G syms" "G \<noteq> []" "calc_closure G syms [\<lparr>prod = 0, dot = 0\<rparr>] = Ok l"
  shows "k \<in> states G syms \<Longrightarrow> \<exists>w. set w \<subseteq> sym ` set syms \<and> read_string G syms l w = Ok k"
proof (induction rule: states.induct)
  case (start k)
  then show ?case using assms(3) by (intro exI [of _ "[]"]) simp
next
  case (goto k s m)
  then obtain w where "set w \<subseteq> sym ` set syms" "read_string G syms l w = Ok k" by blast
  then show ?case using goto.hyps by (intro exI [of _ "w @ [sym s]"]) (simp add: read_string_snoc)
qed

end
