(* ===== verification/SLR_Textbook.thy ===== *)
theory SLR_Textbook
  imports SLR_Follow
begin

text \<open>
  The FIRST and FOLLOW tables of \<open>slr.c\<close>: what they hold, and how the FIRST table relates to
  FIRST as Aho, Sethi and Ullman define it.  The code goes on to the next symbol of a right side when
  the empty string is in the set of the \<^emph>\<open>left\<close> side, not in that of the symbol it has just read.
\<close>

section \<open>FIRST of the literature\<close>

inductive nullable :: "production list \<Rightarrow> int \<Rightarrow> bool" for G :: "production list" where
  "\<lbrakk>p \<in> set G; \<forall>y\<in>set (p_right p). nullable G y\<rbrakk> \<Longrightarrow> nullable G (p_left p)"

inductive starts_with :: "production list \<Rightarrow> int \<Rightarrow> int \<Rightarrow> bool" for G :: "production list" where
  terminal: "x \<notin> p_left ` set G \<Longrightarrow> starts_with G x x"
| production: "\<lbrakk>p \<in> set G; p_right p = pre @ y # post; \<forall>z\<in>set pre. nullable G z; starts_with G y c\<rbrakk> \<Longrightarrow>
    starts_with G (p_left p) c"

inductive_cases nullableE: "nullable G x"
inductive_cases starts_withE: "starts_with G x c"

lemma starts_with_terminal: "starts_with G x c \<Longrightarrow> c \<notin> p_left ` set G"
  by (induction rule: starts_with.induct)

text \<open>
  The grammars for which the test of the wrong set makes no difference: a symbol that derives
  the empty string has a rule for it, and the symbols before another one on a right side all derive the empty
  string exactly when the left side has such a rule.
\<close>

definition direct_nulls :: "production list \<Rightarrow> bool" where
  "direct_nulls G \<longleftrightarrow> (\<forall>x. nullable G x \<longrightarrow> empty_rule G x) \<and>
     (\<forall>p\<in>set G. \<forall>pre y post. p_right p = pre @ y # post \<and> pre \<noteq> [] \<longrightarrow>
       ((\<forall>z\<in>set pre. nullable G z) \<longleftrightarrow> empty_rule G (p_left p)))"

lemma empty_rule_nullable: "empty_rule G x \<Longrightarrow> nullable G x"
  unfolding empty_rule_def by (metis nullable.intros empty_iff list.set(1))

lemma code_first_starts:
  assumes "direct_nulls G"
  shows "code_first G x c \<Longrightarrow> c \<noteq> 0 \<Longrightarrow> starts_with G x c"
proof (induction rule: code_first.induct)
  case (terminal x)
  then show ?case using starts_with.terminal by blast
next
  case (head p y ys c)
  show ?case by (rule starts_with.production [OF head.hyps(1), of "[]" y ys]) (use head in auto)
next
  case (rest p y c)
  obtain pre post where r: "p_right p = pre @ y # post" using rest.hyps(2) by (metis in_set_conv_decomp)
  have "\<forall>z\<in>set pre. nullable G z"
    using assms rest.hyps(1,3) r unfolding direct_nulls_def by (cases "pre = []") auto
  then show ?case using starts_with.production [OF rest.hyps(1) r] rest.IH rest.hyps(5) by blast
qed simp

lemma starts_code_first:
  assumes "direct_nulls G"
  shows "starts_with G x c \<Longrightarrow> c \<noteq> 0 \<Longrightarrow> code_first G x c"
proof (induction rule: starts_with.induct)
  case (terminal x)
  then show ?case by (intro code_first.terminal)
next
  case (production p pre y post c)
  note y = production.IH [OF production.prems]
  show ?case
  proof (cases pre)
    case Nil
    then show ?thesis using code_first.head [OF production.hyps(1) _ y production.prems] production.hyps(2) by simp
  next
    case (Cons z zs)
    then have "pre \<noteq> []" by simp
    then have "empty_rule G (p_left p)"
      using assms production.hyps(1,2,3) unfolding direct_nulls_def by blast
    then show ?thesis using code_first.rest [OF production.hyps(1) _ _ y production.prems] production.hyps(2) by simp
  qed
qed

text \<open>
  The passes of \<^verbatim>\<open>precalc_first\<close> and \<^verbatim>\<open>precalc_follow\<close> end, for every grammar with its symbols,
  and leave exactly the symbols that the rules of the code derive.
\<close>

theorem first_and_follow_rules:
  assumes "symbols_ok G syms" "G \<noteq> []"
  shows "\<exists>first follow. precalc_first syms G = Ok first \<and> precalc_follow syms first G = Ok follow \<and>
    (\<forall>i<length syms. set (first i) = {c. code_first G (sym (syms ! i)) c} \<and>
      set (follow i) = {c. code_follow G (sym (syms ! i)) c})"
proof -
  obtain first where f: "precalc_first syms G = Ok first"
    "\<And>i. i < length syms \<Longrightarrow> set (first i) = {c. code_first G (sym (syms ! i)) c}"
    using precalc_first_result [OF assms(1)] by blast
  then have ft: "first_table G syms first" by (simp add: first_table_def)
  obtain follow where "precalc_follow syms first G = Ok follow"
    "\<And>i. i < length syms \<Longrightarrow> set (follow i) = {c. code_follow G (sym (syms ! i)) c}"
    using precalc_follow_result [OF assms(1) ft assms(2)] by blast
  then show ?thesis using f by blast
qed

text \<open>The grammar of \<open>Q\<close>, with the rules \<open>Q=Qb\<close> and \<open>Q=\<close>.\<close>

definition star_grammar :: "production list" where
  "star_grammar = initialize_G [(''Q=Qb'', ''''), (''Q='', '''')]"

definition star_symbols :: "symbol list" where
  "star_symbols = [\<lparr>sym = 81, nonterm = True, nt_index = 0\<rparr>, \<lparr>sym = 98, nonterm = False, nt_index = -1\<rparr>]"

lemma star_facts: "symbols_ok star_grammar star_symbols" "star_grammar \<noteq> []"
  by code_simp+

lemma star_rules: "set star_grammar =
    {\<lparr>p_left = 81, p_right = [81, 98], p_ascii = ''Q=Qb'', p_reduction = ''''\<rparr>,
     \<lparr>p_left = 81, p_right = [], p_ascii = ''Q='', p_reduction = ''''\<rparr>}"
  by code_simp

lemma star_direct_nulls: "direct_nulls star_grammar"
proof -
  have e: "empty_rule star_grammar 81" by code_simp
  have n: "nullable star_grammar x \<Longrightarrow> x = 81" for x
    by (induction rule: nullable.induct) (auto simp: star_rules)
  have q: "nullable star_grammar 81" using empty_rule_nullable [OF e] .
  show ?thesis
    unfolding direct_nulls_def
  proof (intro conjI allI impI ballI)
    show "empty_rule star_grammar x" if "nullable star_grammar x" for x using n [OF that] e by simp
    fix p pre y post
    assume "p \<in> set star_grammar" and r: "p_right p = pre @ y # post \<and> pre \<noteq> []"
    then have "p_left p = 81" "pre = [81]" by (auto simp: star_rules Cons_eq_append_conv)
    then show "(\<forall>z\<in>set pre. nullable star_grammar z) \<longleftrightarrow> empty_rule star_grammar (p_left p)" using e q by simp
  qed
qed

lemma first_and_follow_rules_witness:
  "\<exists>first follow. precalc_first star_symbols star_grammar = Ok first \<and>
    precalc_follow star_symbols first star_grammar = Ok follow \<and>
    set (follow 0) = {c. code_follow star_grammar 81 c}"
  using first_and_follow_rules [OF star_facts] by (auto simp: star_symbols_def)

text \<open>
  For the grammars with \<^const>\<open>direct_nulls\<close> the FIRST table is that of the literature: the empty string
  where a symbol derives it, and the terminals that a symbol's strings start with.
\<close>

theorem first_is_textbook:
  assumes "symbols_ok G syms" "direct_nulls G"
  shows "\<exists>first. precalc_first syms G = Ok first \<and>
    (\<forall>i<length syms. set (first i) =
      {c. c \<noteq> 0 \<and> starts_with G (sym (syms ! i)) c} \<union> (if nullable G (sym (syms ! i)) then {0} else {}))"
proof -
  obtain first where f: "precalc_first syms G = Ok first"
    "\<And>i. i < length syms \<Longrightarrow> set (first i) = {c. code_first G (sym (syms ! i)) c}"
    using precalc_first_result [OF assms(1)] by blast
  have "{c. code_first G x c} = {c. c \<noteq> 0 \<and> starts_with G x c} \<union> (if nullable G x then {0} else {})" if "x \<noteq> 0" for x
  proof -
    have "code_first G x 0 \<longleftrightarrow> nullable G x"
      using code_first_0 that code_first.empty empty_rule_nullable assms(2) unfolding direct_nulls_def by metis
    moreover have "code_first G x c \<longleftrightarrow> starts_with G x c" if "c \<noteq> 0" for c
      using code_first_starts [OF assms(2)] starts_code_first [OF assms(2)] that by blast
    ultimately have "code_first G x c \<longleftrightarrow> (c \<noteq> 0 \<and> starts_with G x c) \<or> (c = 0 \<and> nullable G x)" for c
      by (cases "c = 0") auto
    then show ?thesis by auto
  qed
  then show ?thesis using f symbols_okD(2) [OF assms(1)] by (intro exI [of _ first]) simp
qed

lemma first_is_textbook_witness:
  "\<exists>first. precalc_first star_symbols star_grammar = Ok first \<and>
    set (first 0) = {c. c \<noteq> 0 \<and> starts_with star_grammar 81 c} \<union> (if nullable star_grammar 81 then {0} else {})"
  using first_is_textbook [OF star_facts(1) star_direct_nulls] by (auto simp: star_symbols_def)

section \<open>Where the table differs\<close>

text \<open>The rules \<open>B=xa\<close>, \<open>B=\<close>, \<open>x={\<close>, \<open>a=(\<close>: a struct definition, in small; and \<open>S=Ab\<close>, \<open>A=C\<close>, \<open>C=\<close>.\<close>

definition large_grammar :: "production list" where
  "large_grammar = initialize_G [(''B=xa'', ''''), (''B='', ''''), (''x={'', ''''), (''a=('', '''')]"

definition large_symbols :: "symbol list" where
  "large_symbols =
    [\<lparr>sym = 40, nonterm = False, nt_index = -1\<rparr>, \<lparr>sym = 66, nonterm = True, nt_index = 0\<rparr>,
     \<lparr>sym = 97, nonterm = True, nt_index = 1\<rparr>, \<lparr>sym = 120, nonterm = True, nt_index = 2\<rparr>,
     \<lparr>sym = 123, nonterm = False, nt_index = -1\<rparr>]"

definition small_grammar :: "production list" where
  "small_grammar = initialize_G [(''S=Ab'', ''''), (''A=C'', ''''), (''C='', '''')]"

definition small_symbols :: "symbol list" where
  "small_symbols =
    [\<lparr>sym = 65, nonterm = True, nt_index = 0\<rparr>, \<lparr>sym = 67, nonterm = True, nt_index = 1\<rparr>,
     \<lparr>sym = 83, nonterm = True, nt_index = 2\<rparr>, \<lparr>sym = 98, nonterm = False, nt_index = -1\<rparr>]"

lemma large_rules: "set large_grammar =
    {\<lparr>p_left = 66, p_right = [120, 97], p_ascii = ''B=xa'', p_reduction = ''''\<rparr>,
     \<lparr>p_left = 66, p_right = [], p_ascii = ''B='', p_reduction = ''''\<rparr>,
     \<lparr>p_left = 120, p_right = [123], p_ascii = ''x={'', p_reduction = ''''\<rparr>,
     \<lparr>p_left = 97, p_right = [40], p_ascii = ''a=('', p_reduction = ''''\<rparr>}"
  by code_simp

lemma large_nullable: "nullable large_grammar x \<Longrightarrow> x = 66"
  by (induction rule: nullable.induct) (auto simp: large_rules)

lemma large_starts: "starts_with large_grammar x c \<Longrightarrow> x = 66 \<or> x = 120 \<or> x = 123 \<Longrightarrow> c = 123"
proof (induction rule: starts_with.induct)
  case (production p pre y post c)
  have "\<not> nullable large_grammar 120" using large_nullable [of 120] by auto
  with production show ?case by (auto simp: large_rules Cons_eq_append_conv)
next
  case (terminal x)
  then show ?case by (auto simp: large_rules)
qed

lemma small_starts: "starts_with small_grammar 83 98"
proof -
  have g: "set small_grammar =
    {\<lparr>p_left = 83, p_right = [65, 98], p_ascii = ''S=Ab'', p_reduction = ''''\<rparr>,
     \<lparr>p_left = 65, p_right = [67], p_ascii = ''A=C'', p_reduction = ''''\<rparr>,
     \<lparr>p_left = 67, p_right = [], p_ascii = ''C='', p_reduction = ''''\<rparr>}"
    by code_simp
  have "nullable small_grammar 67"
    using nullable.intros [of "\<lparr>p_left = 67, p_right = [], p_ascii = ''C='', p_reduction = ''''\<rparr>"] g by simp
  then have "nullable small_grammar 65"
    using nullable.intros [of "\<lparr>p_left = 65, p_right = [67], p_ascii = ''A=C'', p_reduction = ''''\<rparr>"] g by simp
  moreover have "starts_with small_grammar 98 98" by (rule starts_with.terminal) (simp add: g)
  ultimately show ?thesis
    using starts_with.production [of "\<lparr>p_left = 83, p_right = [65, 98], p_ascii = ''S=Ab'', p_reduction = ''''\<rparr>"
        small_grammar "[65]" 98 "[]" 98] g by simp
qed

text \<open>
  C40. In general FIRST is wrong in both directions: with the rules \<open>B=xa\<close>, \<open>B=\<close>, \<open>x={\<close>, \<open>a=(\<close> the set of \<open>B\<close> holds the
  parenthesis (40), which no string of \<open>B\<close> starts with; with \<open>S=Ab\<close>, \<open>A=C\<close>, \<open>C=\<close> the set of \<open>S\<close> is
  empty, although \<open>b\<close> (98) starts a string of \<open>S\<close>.
\<close>

theorem first_is_wrong:
  "(case precalc_first large_symbols large_grammar of Ok first \<Rightarrow> first 1 = [0, 123, 40] | _ \<Rightarrow> False) \<and>
    \<not> starts_with large_grammar 66 40 \<and>
    (case precalc_first small_symbols small_grammar of Ok first \<Rightarrow> first 2 = [] | _ \<Rightarrow> False) \<and>
    starts_with small_grammar 83 98"
proof (intro conjI)
  show "case precalc_first large_symbols large_grammar of Ok first \<Rightarrow> first 1 = [0, 123, 40] | _ \<Rightarrow> False"
    by code_simp
  show "\<not> starts_with large_grammar 66 40" using large_starts by fastforce
  show "case precalc_first small_symbols small_grammar of Ok first \<Rightarrow> first 2 = [] | _ \<Rightarrow> False"
    by code_simp
  show "starts_with small_grammar 83 98" by (rule small_starts)
qed

end
