(* ===== verification/SLR_Correct.thy ===== *)
theory SLR_Correct
  imports SLR_Print SLR_Viable SLR_Textbook
begin

text \<open>
  The parser generator \<open>slr.c\<close> as a whole: the calls of its main function (which the file has inside a
  comment) in their order, the grammar of the file, and the properties of the component.
\<close>

section \<open>The program\<close>

definition slr_run ::
  "grammar_row list \<Rightarrow> (symbol list \<times> item list list \<times> action_table \<times> 8 word list list) outcome" where
  "slr_run grammar =
     obind (find_unique_symbols grammar)
       (\<lambda>syms. let G = initialize_G grammar in
         obind (build_canonical_sets G syms)
           (\<lambda>C. obind (precalc_first syms G)
             (\<lambda>first. obind (precalc_follow syms first G)
               (\<lambda>follow. obind (build_actions G syms follow C)
                 (\<lambda>tab. obind (build_gotos G syms C) (\<lambda>gotos. Ok (syms, C, tab, gotos)))))))"

definition grammar :: "grammar_row list" where
  "grammar =
    [(''S=s'', ''''),
     (''s=TDe'', ''reduce_declaration''), (''s=sTDe'', ''reduce_declaration''),
     (''T=tT'', ''''), (''T=t'', ''''),
     (''t=1'', ''reduce_typedef''), (''t=2'', ''''), (''t=3iB'', ''''), (''t=4'', ''''),
     (''B=xa}'', ''''), (''B='', ''''), (''x={'', ''reduce_struct_definition''),
     (''D=d,D'', ''reduce_declarator''), (''D=d'', ''reduce_declarator''),
     (''d=*Qd'', ''reduce_pointer''), (''d=E'', ''''),
     (''Q=Q4'', ''''), (''Q='', ''''),
     (''E=I'', ''''), (''E=(d)'', ''''), (''E=E[a]'', ''reduce_array''), (''E=E(a)'', ''reduce_function''),
     (''I=i'', ''reduce_identifier''),
     (''a='', ''''), (''a=ab'', ''''),
     (''b=(a)'', ''''), (''b={a}'', ''''), (''b=[a]'', ''''), (''b=i'', ''''), (''b=o'', ''''), (''b=1'', ''''),
     (''b=2'', ''''), (''b=3'', ''''), (''b=4'', ''''), (''b=,'', ''''), (''b=*'', ''''), (''b=;'', ''''),
     (''e=;'', ''''), (''e=ya}'', ''''), (''y={'', ''reduce_function_definition'')]"

definition tokens :: "token_row list" where
  "tokens = map (\<lambda>(c, name). (of_char c, name))
    [(CHR ''i'', ''lex_identifier''), (CHR ''1'', ''lex_typedef''), (CHR ''2'', ''lex_type_name''),
     (CHR ''3'', ''lex_struct''), (CHR ''4'', ''lex_const''), (CHR ''('', ''lex_lparen''),
     (CHR '')'', ''lex_rparen''), (CHR ''['', ''lex_lbrack''), (CHR '']'', ''lex_rbrack''),
     (CHR ''{'', ''lex_lbrace''), (CHR ''}'', ''lex_rbrace''), (CHR '','', ''lex_comma''),
     (CHR ''*'', ''lex_pointer''), (CHR '';'', ''lex_semicolon''), (CHR ''o'', ''lex_other''),
     (CHR ''$'', ''lex_stop'')]"

section \<open>The tables\<close>

text \<open>The characters that a grammar may use: 0 and the dollar sign have another meaning.\<close>

definition characters_ok :: "grammar_row list \<Rightarrow> bool" where
  "characters_ok rows \<longleftrightarrow>
     (\<forall>c\<in>set (map row_left rows @ concat (map row_right rows)). c \<noteq> 0 \<and> c \<noteq> END_MARK)"

lemma grammar_facts:
  assumes "rows \<noteq> []" "characters_ok rows" "find_unique_symbols rows = Ok syms"
  shows "symbols_ok (initialize_G rows) syms" "initialize_G rows \<noteq> []" "numbered syms"
    "length (initialize_G rows) = length rows"
  using find_unique_symbols_ok [OF assms(3)] find_unique_symbols_numbered [OF assms(3)] assms(1,2)
  by (auto simp: characters_ok_def initialize_G_def)

lemma first_and_follow:
  assumes "symbols_ok G syms" "G \<noteq> []"
  obtains first follow where "precalc_first syms G = Ok first" "first_table G syms first"
    "precalc_follow syms first G = Ok follow" "follow_table G syms follow"
proof -
  obtain first where f: "precalc_first syms G = Ok first"
    "\<And>i. i < length syms \<Longrightarrow> set (first i) = {c. code_first G (sym (syms ! i)) c}"
    using precalc_first_result [OF assms(1)] by blast
  then have ft: "first_table G syms first" by (simp add: first_table_def)
  obtain follow where "precalc_follow syms first G = Ok follow"
    "\<And>i. i < length syms \<Longrightarrow> set (follow i) = {c. code_follow G (sym (syms ! i)) c}"
    using precalc_follow_result [OF assms(1) ft assms(2)] by blast
  then show ?thesis using that f(1) ft by (simp add: follow_table_def)
qed


definition list_grammar :: "grammar_row list" where
  "list_grammar = [(''S=l'', ''''), (''l=la'', ''reduce_more''), (''l='', '''')]"

lemma list_grammar_facts:
  "list_grammar \<noteq> []" "characters_ok list_grammar"
  "find_unique_symbols list_grammar = Ok
    [\<lparr>sym = 83, nonterm = True, nt_index = 0\<rparr>, \<lparr>sym = 97, nonterm = False, nt_index = -1\<rparr>,
     \<lparr>sym = 108, nonterm = True, nt_index = 1\<rparr>]"
  by code_simp+

definition list_symbols :: "symbol list" where
  "list_symbols =
    [\<lparr>sym = 83, nonterm = True, nt_index = 0\<rparr>, \<lparr>sym = 97, nonterm = False, nt_index = -1\<rparr>,
     \<lparr>sym = 108, nonterm = True, nt_index = 1\<rparr>]"

definition list_states :: "item list list" where
  "list_states =
    [[\<lparr>prod = 0, dot = 0\<rparr>, \<lparr>prod = 1, dot = 0\<rparr>, \<lparr>prod = 2, dot = 0\<rparr>],
     [\<lparr>prod = 0, dot = 1\<rparr>, \<lparr>prod = 1, dot = 1\<rparr>],
     [\<lparr>prod = 1, dot = 2\<rparr>]]"

lemma list_grammar_states: "build_canonical_sets (initialize_G list_grammar) list_symbols = Ok list_states"
  by code_simp


text \<open>
  C38. The states.  The construction ends with all states that goto reaches, each once and the
  start state first, when there are at most 256 of them; otherwise it fails the assertion that
  guards the array.
\<close>

theorem canonical_sets_complete:
  assumes "rows \<noteq> []" "characters_ok rows" "find_unique_symbols rows = Ok syms"
  shows "if card (states (initialize_G rows) syms) \<le> 256
    then \<exists>C. build_canonical_sets (initialize_G rows) syms = Ok C \<and> distinct C \<and>
      set C = states (initialize_G rows) syms \<and> calc_closure (initialize_G rows) syms [\<lparr>prod = 0, dot = 0\<rparr>] = Ok (hd C)
    else build_canonical_sets (initialize_G rows) syms = Fault Assertion_failed"
proof -
  note g = grammar_facts [OF assms]
  show ?thesis using build_canonical_sets_iff [OF g(1,2)] by (auto simp: canonical_def MAX_LOL_COUNT_def)
qed

lemma canonical_sets_complete_witness:
  "build_canonical_sets (initialize_G list_grammar) list_symbols = Ok list_states \<and>
    set list_states = states (initialize_G list_grammar) list_symbols"
proof -
  have f: "find_unique_symbols list_grammar = Ok list_symbols"
    using list_grammar_facts(3) by (simp add: list_symbols_def)
  show ?thesis
    using canonical_sets_complete [OF list_grammar_facts(1,2) f] list_grammar_states
    by (auto split: if_splits)
qed

text \<open>
  C39. What a state knows.  The states simulate the automaton on single items: reading a string
  of grammar symbols from the start state with \<^verbatim>\<open>calc_goto\<close> returns the list of the items that are valid after
  the string, which is a state of the collection unless it is empty; and every state is read
  by some string.  What stands before the dot of a valid item is the end of the string.
\<close>

theorem states_simulate_items:
  assumes "rows \<noteq> []" "characters_ok rows" "find_unique_symbols rows = Ok syms"
    and "calc_closure (initialize_G rows) syms [\<lparr>prod = 0, dot = 0\<rparr>] = Ok l"
  shows "(\<forall>w. set w \<subseteq> sym ` set syms \<longrightarrow>
      (\<exists>k. read_string (initialize_G rows) syms l w = Ok k \<and> set k = {it. valid_after (initialize_G rows) w it} \<and>
        (k \<noteq> [] \<longrightarrow> k \<in> states (initialize_G rows) syms))) \<and>
    (\<forall>k\<in>states (initialize_G rows) syms. \<exists>w. set w \<subseteq> sym ` set syms \<and>
      read_string (initialize_G rows) syms l w = Ok k) \<and>
    (\<forall>w it. valid_after (initialize_G rows) w it \<longrightarrow>
      (\<exists>u. w = u @ take (dot it) (p_right (initialize_G rows ! prod it))))"
proof (intro conjI allI impI ballI)
  note g = grammar_facts [OF assms(1-3)]
  show "\<exists>k. read_string (initialize_G rows) syms l w = Ok k \<and> set k = {it. valid_after (initialize_G rows) w it} \<and>
      (k \<noteq> [] \<longrightarrow> k \<in> states (initialize_G rows) syms)" if "set w \<subseteq> sym ` set syms" for w
    using read_string_result [OF g(1,2) assms(4) that] by blast
  show "\<exists>w. set w \<subseteq> sym ` set syms \<and> read_string (initialize_G rows) syms l w = Ok k"
    if "k \<in> states (initialize_G rows) syms" for k
    by (rule states_read [OF g(1,2) assms(4) that])
  show "\<exists>u. w = u @ take (dot it) (p_right (initialize_G rows ! prod it))"
    if "valid_after (initialize_G rows) w it" for w it
    using valid_after_suffix [OF that] by blast
qed

lemma states_simulate_items_witness:
  "\<exists>k. read_string (initialize_G list_grammar) list_symbols (hd list_states) [108, 97] = Ok k \<and>
    set k = {it. valid_after (initialize_G list_grammar) [108, 97] it}"
proof -
  have f: "find_unique_symbols list_grammar = Ok list_symbols"
    using list_grammar_facts(3) by (simp add: list_symbols_def)
  have c: "calc_closure (initialize_G list_grammar) list_symbols [\<lparr>prod = 0, dot = 0\<rparr>] = Ok (hd list_states)"
    by code_simp
  have "set [108, 97] \<subseteq> sym ` set list_symbols" by (simp add: list_symbols_def)
  then show ?thesis using states_simulate_items [OF list_grammar_facts(1,2) f c] by blast
qed

section \<open>Printing\<close>

text \<open>
  The lists of names fit their buffer: for every range of numbers of type \<open>int\<close> the function writes inside its 80
  characters, every line it prints is shorter than that, and the lines together are the names.
\<close>

theorem enum_list_fits:
  assumes "hi < INT_MAX"
  shows "\<exists>lines. print_enum_list c lo hi = Ok lines \<and> (\<forall>l\<in>set lines. l \<noteq> [] \<and> length l < 80) \<and>
    concat lines = concat (map (\<lambda>i. [c] @ decimal i @ '', '') [lo..<hi + 1])"
proof -
  have "\<forall>i\<in>set [lo..<hi + 1]. i \<le> INT_MAX" using assms by auto
  from enum_lines_result [OF this, of "[]" c] show ?thesis
    by (simp add: print_enum_list_def del: upt_Suc)
qed

lemma enum_list_fits_witness:
  "\<exists>lines. print_enum_list CHR ''s'' 0 62 = Ok lines \<and> (\<forall>l\<in>set lines. l \<noteq> [] \<and> length l < 80)"
  using enum_list_fits [of 62 "CHR ''s''" 0] by (auto simp: INT_MAX_def)

text \<open>
  The printed action table names every cell, and different actions have different names: a
  row is printed without failing the assertion of \<^verbatim>\<open>action_name\<close>, and the name of a cell is
  \<open>0\<close>, \<open>acc\<close>, \<open>s\<close> with the number of a state or \<open>r\<close> with the number of a production, counted from 1.
\<close>

theorem printed_actions_name_cells:
  assumes "\<forall>i<length C. \<forall>a\<le>length syms. action_cell tab i a < 2 + length C + length G"
  shows "print_actions G syms C tab = Ok (map (\<lambda>i. map (\<lambda>j.
      (if j \<noteq> 0 then '','' else '''') @ pad3 (name_of_action (length C) (action_cell tab i j)))
        (filter (\<lambda>j. j = length syms \<or> \<not> nonterm (syms ! j)) [0..<length syms + 1])) [0..<length C]) \<and>
    (\<forall>v w. name_of_action (length C) v = name_of_action (length C) w \<longleftrightarrow> v = w)"
proof -
  have "print_action G syms C tab i j = Ok ((if j \<noteq> 0 then '','' else '''') @ pad3 (name_of_action (length C) (action_cell tab i j)))"
    if "i < length C" "j \<le> length syms" for i j
    using assms that action_name_eq [of "action_cell tab i j" "length C" "length G"]
    by (simp add: print_action_def action_cell_def)
  then have "print_actions G syms C tab = Ok (map (\<lambda>i. map (\<lambda>j.
      (if j \<noteq> 0 then '','' else '''') @ pad3 (name_of_action (length C) (action_cell tab i j)))
        (filter (\<lambda>j. j = length syms \<or> \<not> nonterm (syms ! j)) [0..<length syms + 1])) [0..<length C])"
    unfolding print_actions_def by (intro omap_Ok) auto
  then show ?thesis using name_of_action_inject by blast
qed

lemma printed_actions_name_cells_witness:
  "print_actions (initialize_G list_grammar) list_symbols list_states (empty_actions list_symbols list_states) =
    Ok [['',  0'', '',  0''], ['',  0'', '',  0''], ['',  0'', '',  0'']]"
proof -
  have c: "\<forall>i<length list_states. \<forall>a\<le>length list_symbols.
      action_cell (empty_actions list_symbols list_states) i a < 2 + length list_states + length (initialize_G list_grammar)"
    by (simp add: action_cell_def empty_actions_def del: replicate_Suc)
  note p = printed_actions_name_cells [OF c, THEN conjunct1]
  show ?thesis
    unfolding p by code_simp
qed

section \<open>The grammar of the file\<close>

text \<open>
  The grammar of the file: its 30 symbols are found, 15 of them terminals, and each terminal has its name in
  \<^verbatim>\<open>tokens[]\<close>, so that the assertion in the printing of the lexemes holds.
\<close>

theorem shipped_grammar_lexemes:
  "(case find_unique_symbols grammar of
      Ok syms \<Rightarrow> length syms = 30 \<and> n_nonterminals syms + n_terminals syms = 30 \<and>
        print_lexemes tokens syms = Ok
          [''lex_lparen'', ''lex_rparen'', ''lex_pointer'', ''lex_comma'', ''lex_typedef'', ''lex_type_name'',
           ''lex_struct'', ''lex_const'', ''lex_semicolon'', ''lex_lbrack'', ''lex_rbrack'', ''lex_identifier'',
           ''lex_other'', ''lex_lbrace'', ''lex_rbrace'', ''lex_stop'']
    | _ \<Rightarrow> False)"
  by code_simp

section \<open>Limits of the code\<close>

text \<open>
  A cell is an \<open>unsigned char\<close> and the value is not checked: the value 256, which stands for
  an action as soon as states and productions are more than 254 together, is stored as an error.
\<close>

lemma action_256_is_error:
  assumes "set_action nC n syms i a 256 tab = Ok tab'" "table_shape nC syms tab"
  shows "action_cell tab' i a = 0"
proof -
  have "i < nC" "a \<le> length syms" using assms(1) by (auto simp: set_action_def split: if_splits)
  moreover have "length (actions tab ! i) = length syms + 1" "length (actions tab) = nC"
    using assms(2) calculation by (auto simp: table_shape_def)
  moreover have z: "(256 :: 8 word) = 0"
    using word_of_nat_eq_0_iff [of 256, where 'a = 8] by simp
  have "actions tab' = (actions tab)[i := (actions tab ! i)[a := 0]]"
    using assms(1) by (auto simp: set_action_def Let_def outcome_simps z split: if_splits)
  ultimately show ?thesis by (simp add: action_cell_def)
qed

text \<open>
  Lists of items are compared in order, so that one set of items can be two states: the rules \<open>P=A\<close>, \<open>P=B\<close> and
  \<open>Q=B\<close>, \<open>Q=A\<close> predict the same items in different orders.
\<close>

definition twice_grammar :: "grammar_row list" where
  "twice_grammar =
    [(''S=T'', ''''), (''T=aP'', ''''), (''T=bQ'', ''''), (''P=A'', ''''), (''P=B'', ''''), (''Q=B'', ''''),
     (''Q=A'', ''''), (''A=cd'', ''''), (''B=ce'', '''')]"

definition twice_symbols :: "symbol list" where
  "twice_symbols = number_symbols (\<lambda>c. c \<in> {65, 66, 80, 81, 83, 84}) (\<lambda>c. c \<in> {97, 98, 99, 100, 101})
    [65, 66, 80, 81, 83, 84, 97, 98, 99, 100, 101] 0"

lemma one_set_two_states:
  "\<exists>k\<in>states (initialize_G twice_grammar) twice_symbols. \<exists>l\<in>states (initialize_G twice_grammar) twice_symbols.
    k \<noteq> l \<and> set k = set l"
proof -
  let ?G = "initialize_G twice_grammar" and ?S = twice_symbols
  let ?k = "[\<lparr>prod = 7, dot = 1\<rparr>, \<lparr>prod = 8, dot = 1\<rparr>] :: item list"
  let ?l = "[\<lparr>prod = 8, dot = 1\<rparr>, \<lparr>prod = 7, dot = 1\<rparr>] :: item list"
  have ok: "symbols_ok ?G ?S" "?G \<noteq> []" by code_simp+
  obtain s where s: "calc_closure ?G ?S [\<lparr>prod = 0, dot = 0\<rparr>] = Ok s"
    using start_closure [OF ok] by blast
  have "obind (calc_closure ?G ?S [\<lparr>prod = 0, dot = 0\<rparr>]) (\<lambda>s. read_string ?G ?S s [97, 99]) = Ok ?k"
    "obind (calc_closure ?G ?S [\<lparr>prod = 0, dot = 0\<rparr>]) (\<lambda>s. read_string ?G ?S s [98, 99]) = Ok ?l"
    by code_simp+
  then have "read_string ?G ?S s [97, 99] = Ok ?k" "read_string ?G ?S s [98, 99] = Ok ?l" using s by simp_all
  moreover have "set [97, 99] \<subseteq> sym ` set ?S" "set [98, 99] \<subseteq> sym ` set ?S" by code_simp+
  ultimately have k: "?k \<in> states ?G ?S" and l: "?l \<in> states ?G ?S"
    using read_string_result [OF ok s, of "[97, 99]"] read_string_result [OF ok s, of "[98, 99]"] by auto
  show ?thesis
  proof (rule bexI [where x = ?k], rule bexI [where x = ?l])
    show "?k \<noteq> ?l \<and> set ?k = set ?l" by auto
  qed (rule l, rule k)
qed

end
