(* ===== verification/Spec2Isabelle.thy ===== *)
theory Spec2Isabelle
  imports RB_Correct AVL_Correct TBST_Correct PBST_Correct CS_Queue_Conc CS_Timer CS_Event_Tree CS_Pool_Conc CS_Tasks CS_Events CS_Sim_End BSTS_Tree SLR_Correct
begin

text \<open>
  This library is a verification of complex-sim, a discrete simulation engine in C for machines with
  several processors, and of the parts of the bundled GNU libavl 2.0 that carry it or stand beside it.

  \<^bold>\<open>The program.\<close>  A simulation is driven by a clock (\<open>src/src/cs_timer.c\<close>), a barrier on which the
  actors meet: the engine (\<open>cs_engine.c\<close>), the event controller (\<open>cs_events.c\<close>) and whoever else was counted.
  In every round the engine hands the tasks of the activities that are due to a worker pool
  (\<open>cs_workerpool.c\<close>) and waits for them, and waits until the events of the round are raised; the controller takes the
  events filed for the clock value out of the event tree, deals them out to the workers of its own pool and
  waits for those.  The pool passes its tasks through a bounded queue (\<open>cs_queue.c\<close>) and keeps their
  results in a table.  The event tree, the handler table and the task table are red-black tables
  (\<open>avl-2.0/src/rb.c\<close>).  \<open>avl.c\<close>, \<open>bst.c\<close>, \<open>tbst.c\<close>, \<open>pbst.c\<close> and \<open>bsts.c\<close> of libavl are tables with the same or a smaller interface;
  \<open>slr.c\<close> is a generator of SLR parse tables.

  \<^bold>\<open>How C becomes HOL.\<close>  (\<open>CS_Prelude\<close>, \<open>CS_Strings\<close>) A function that can go wrong has a result of type \<open>outcome\<close>: a value, blocked,
  or a fault (failed assertion, null or dangling pointer, index out of bounds, division by zero,
  double free, exit, abort).  Structs are records, enums are datatypes, the clock is a \<open>64 word\<close> read as a
  signed number.  Memory that may run out, and what POSIX calls answer, are arguments of
  the operations.  Threads are step relations whose steps are what a thread does between two
  points at which others can get in: lock operations, waits on semaphores and conditions, and
  accesses outside any lock.  Trees whose nodes have one owner are datatypes, and the stacks of nodes of the C loops are lists
  of frames; the queue, whose cells have two links, and the trees with threads or parent pointers, whose nodes are reached on several ways, live on
  an explicit heap (\<open>Heap_Prog\<close>: loads and stores that fault, blocks handed out by an allocator that is an argument).  A loop that need not end is a
  partial function or takes a number of rounds, and that it ends is a theorem.

  \<^bold>\<open>The theories.\<close>
  \<^item> \<open>Items\<close>: ordered sequences of items, the reference for every table; the locales \<open>keyed\<close> (a comparison function that
    compares by a key) and \<open>ordered_table\<close> (what insertion, replacement, deletion and search promise), with
    maps as the abstract specification.  \<open>ordered_table\<close> is interpreted on \<open>rb.c\<close>, \<open>avl.c\<close>, \<open>bst.c\<close>, \<open>tbst.c\<close> and \<open>pbst.c\<close>, \<open>keyed\<close> on
    the three comparison functions of the program.
  \<^item> \<open>RB_Tree\<close>, \<open>RB_Shape\<close>, \<open>RB_Table\<close>, \<open>RB_Traverse\<close>, \<open>RB_Copy\<close>, \<open>RB_Correct\<close>: \<open>rb.c\<close>.  The insertion and deletion
    loops with their stacks, the red-black invariant on trees and on stacks, refinement of maps, traversal in order,
    traversers that outlive changes of the table, copying.
  \<^item> \<open>BST_Tree\<close>, \<open>BST_Balance\<close>, \<open>BST_Traverse\<close>, \<open>BST_Copy\<close>, \<open>BST_Correct\<close>: \<open>bst.c\<close>, whose traversers balance
    the tree when it is too deep for their stacks.
  \<^item> \<open>AVL_Tree\<close>, \<open>AVL_Shape\<close>, \<open>AVL_Table\<close>, \<open>AVL_Traverse\<close>, \<open>AVL_Copy\<close>, \<open>AVL_Correct\<close>: \<open>avl.c\<close>; the last shows that the three kinds of
    tables answer alike.
  \<^item> \<open>Ghost_Tree\<close>: trees of addresses and data, which a tree on the heap represents, whatever its nodes are like.
  \<^item> \<open>TBST_Tree\<close>, \<open>TBST_Rep\<close>, \<open>TBST_Delete\<close>, \<open>TBST_Table\<close>, \<open>TBST_Traverse\<close>, \<open>TBST_Balance\<close>, \<open>TBST_Copy\<close>, \<open>TBST_Correct\<close>: \<open>tbst.c\<close> on the heap.
    \<open>TBST_Rep\<close> relates a heap to a tree of addresses and data, with the threads at its ends; every operation is shown to act on that tree as the
    one of \<open>bst.c\<close> does, and to leave every other block alone.
  \<^item> \<open>PBST_Tree\<close>, \<open>PBST_Rep\<close>, \<open>PBST_Delete\<close>, \<open>PBST_Table\<close>, \<open>PBST_Traverse\<close>, \<open>PBST_Balance\<close>, \<open>PBST_Copy\<close>, \<open>PBST_Correct\<close>: \<open>pbst.c\<close> on
    the heap, in the same way.  \<open>PBST_Rep\<close> has two relations, with right parent pointers and with any: balancing and destruction go through states
    of the second kind.  In \<open>PBST_Copy\<close> the block of the new table is seen as a node, as the casts of the code do.
  \<^item> \<open>BSTS_Tree\<close>: \<open>bsts.c\<close>.
  \<^item> \<open>CS_Queue\<close>, \<open>CS_Queue_Conc\<close>: the queue on its heap, its refinement of a bounded buffer (locale \<open>fifo\<close>), and the
    interleavings of producers and consumers.
  \<^item> \<open>CS_Concurrence\<close>: the mutexes.  \<open>CS_Timer\<close>: the timer, with the actors as a step relation.
  \<^item> \<open>CS_Workerpool\<close>, \<open>CS_Tasks\<close>, \<open>CS_Pool_Conc\<close>: the pool; its operations for their caller; its workers, controller
    and users interleaved.
  \<^item> \<open>CS_Event_Tree\<close>, \<open>CS_Events\<close>: the event tree as an agenda (locale \<open>agenda\<close>), the handlers, the controller and the
    interleavings of the tasks of a round.
  \<^item> \<open>CS_Engine\<close>: activities, their division into tasks, the main loop, set-up and end.
  \<^item> \<open>CS_Sim\<close>, \<open>CS_Sim_Inv\<close>, \<open>CS_Sim_End\<close>: engine and controller as two threads of one simulation: the invariant, progress and
    the end of an event-driven simulation.
  \<^item> \<open>SLR_Grammar\<close>, \<open>SLR_First\<close>, \<open>SLR_Follow\<close>, \<open>SLR_Textbook\<close>, \<open>SLR_Items\<close>, \<open>SLR_Canonical\<close>, \<open>SLR_Viable\<close>,
    \<open>SLR_Actions\<close>, \<open>SLR_Tables\<close>, \<open>SLR_Print\<close>, \<open>SLR_Correct\<close>: \<open>slr.c\<close>.  The tables FIRST and FOLLOW (locale \<open>passes\<close>) against rules and against
    the literature, closure and goto against sets of items, the states against an automaton on items, the two parse tables
    against what the states call for, and the output.

  \<^bold>\<open>What is shown.\<close>  Properties carry the numbers C1 to C40.  C1 to C5: whole simulations (safety, progress, the end, the set-up, and
    the event that lets none end).  C6 to C22: red-black tables, queue, pool, event tree, controller, timer, engine and tasks,
    with the defects of the code as theorems.  C23 to C36: \<open>bst.c\<close>, \<open>tbst.c\<close> and \<open>pbst.c\<close> on their heaps, \<open>avl.c\<close> and the equivalence of the tables.  C37 to C40: the parser
    generator.

  \<^bold>\<open>Bounds.\<close>  The stacks of \<open>rb.c\<close> have 48 entries, which is enough below \<open>2 ^ 24\<close> items; those of \<open>avl.c\<close> and \<open>bst.c\<close> have 32:
  enough below \<open>2 ^ 22\<close> items in an AVL tree, and for a balanced tree of \<open>bst.c\<close> below \<open>2 ^ 32\<close>.  The clock is assumed to stay below
  \<open>2 ^ 63\<close>.  In the proof that a simulation ends, 200 steps are reserved for each clock value, more than the ranks of the places of the two
  threads can use up.  The loops of \<open>slr.c\<close> have measures: the room left in the sets, the productions missing in a closure, and the
  256 states the array can hold; a cell of its tables has 8 bits, so that the action table is right when states and productions are at most 254
  together.

  \<^bold>\<open>Not modelled.\<close>  The network runtime is a type without operations in this repository.  The other tables of libavl with threads,
  right threads and parent pointers (\<open>pavl.c\<close>, \<open>prb.c\<close>, \<open>tavl.c\<close>, \<open>trb.c\<close>, \<open>rtavl.c\<close>, \<open>rtbst.c\<close>, \<open>rtrb.c\<close>) are not used
  by the simulator.  Logging, the default memory allocators, tests and samples are left out.  Of \<open>slr.c\<close> the debugging output and the fixed text around the
  tables are left out; a row of its grammar is taken to have at least the two
  characters of a left side and the equals sign.
\<close>

end
